(* ===== verification/Kernel_Prelude.thy ===== *)
theory Kernel_Prelude
  imports Main "HOL-Library.Word" "HOL-Library.Multiset"
begin

text \<open>
  Shared vocabulary of the kernel model: the C integer types as fixed-width words, the
  fact collections the component theories feed to \<open>simp\<close> and \<open>auto\<close>, the generic
  lemmas on lists and words they use, and the interface of a state machine with an
  invariant, which every component that is driven by a sequence of calls interprets.
\<close>

unbundle bit_operations_syntax

section \<open>C integer types\<close>

type_synonym u8 = "8 word"
type_synonym u16 = "16 word"
type_synonym u32 = "32 word"
type_synonym u64 = "64 word"

section \<open>Fact collections\<close>

named_theorems kdefs \<open>definitions of the operations that a case analysis unfolds\<close>
named_theorems kinv \<open>preservation of component invariants\<close>
named_theorems kframe \<open>what an operation leaves unchanged\<close>

section \<open>Lists\<close>

lemma nth_list_update_if:
  "(xs[i := v]) ! j = (if i = j \<and> i < length xs then v else xs ! j)"
  by (cases "i < length xs") (auto simp: nth_list_update list_update_beyond)

lemma find_Some_nth:
  "find P xs = Some x \<longleftrightarrow> (\<exists>i < length xs. xs ! i = x \<and> P x \<and> (\<forall>j < i. \<not> P (xs ! j)))"
  by (auto simp: find_Some_iff)

lemma find_SomeD: "find P xs = Some x \<Longrightarrow> x \<in> set xs \<and> P x"
  by (induction xs) (auto split: if_splits)

lemma find_upt_Some:
  "find P [a..<b] = Some i \<longleftrightarrow> a \<le> i \<and> i < b \<and> P i \<and> (\<forall>j. a \<le> j \<and> j < i \<longrightarrow> \<not> P j)"
proof
  assume "find P [a..<b] = Some i"
  then obtain k where k: "k < b - a" "i = a + k" "P i" "\<forall>j < k. \<not> P (a + j)"
    by (auto simp: find_Some_nth)
  then have "\<not> P j" if "a \<le> j" "j < i" for j
    using that k(4) [rule_format, of "j - a"] by simp
  with k show "a \<le> i \<and> i < b \<and> P i \<and> (\<forall>j. a \<le> j \<and> j < i \<longrightarrow> \<not> P j)"
    by simp
next
  assume i: "a \<le> i \<and> i < b \<and> P i \<and> (\<forall>j. a \<le> j \<and> j < i \<longrightarrow> \<not> P j)"
  then show "find P [a..<b] = Some i"
    by (auto simp: find_Some_nth intro!: exI [of _ "i - a"])
qed

lemma find_upt_None: "find P [a..<b] = None \<longleftrightarrow> (\<forall>i. a \<le> i \<and> i < b \<longrightarrow> \<not> P i)"
  by (auto simp: find_None_iff)

section \<open>Words\<close>

lemma unat_of_nat_small [simp]:
  "n < 2 ^ LENGTH('a) \<Longrightarrow> unat (of_nat n :: 'a::len word) = n"
  by (simp add: unat_of_nat take_bit_nat_eq_self)

lemma unat_lt64: "unat (x :: u64) < 18446744073709551616"
  using unsigned_less [of x] by simp

lemma unat_lt32: "unat (x :: u32) < 4294967296"
  using unsigned_less [of x] by simp

lemma page_aligned_iff: "(a :: u64) AND 4095 = 0 \<longleftrightarrow> 4096 dvd unat a"
proof -
  have "a AND 4095 = take_bit 12 a"
    using take_bit_eq_mask [of 12 a] by (simp add: mask_eq_exp_minus_1)
  moreover have "take_bit 12 a = 0 \<longleftrightarrow> unat (take_bit 12 a) = 0"
    by (simp add: unat_eq_0)
  moreover have "unat (take_bit 12 a) = unat a mod 4096"
    by (simp add: unsigned_take_bit_eq take_bit_nat_def)
  ultimately show ?thesis by (simp add: mod_eq_0_iff_dvd)
qed

section \<open>State machines with an invariant\<close>

text \<open>
  A component driven by a sequence of calls: \<open>exec\<close> performs one call, \<open>ok\<close> is the
  component's invariant and \<open>pre\<close> what its callers owe it. A run of admissible calls
  keeps the invariant at every point.
\<close>

fun run_calls :: "('op \<Rightarrow> 's \<Rightarrow> 's) \<Rightarrow> 'op list \<Rightarrow> 's \<Rightarrow> 's" where
  "run_calls exec [] s = s"
| "run_calls exec (op # ops) s = run_calls exec ops (exec op s)"

fun admissible :: "('op \<Rightarrow> 's \<Rightarrow> 's) \<Rightarrow> ('op \<Rightarrow> 's \<Rightarrow> bool) \<Rightarrow> 'op list \<Rightarrow> 's \<Rightarrow> bool" where
  "admissible exec pre [] s = True"
| "admissible exec pre (op # ops) s = (pre op s \<and> admissible exec pre ops (exec op s))"

lemma run_calls_append: "run_calls exec (xs @ ys) s = run_calls exec ys (run_calls exec xs s)"
  by (induction xs arbitrary: s) auto

locale machine =
  fixes exec :: "'op \<Rightarrow> 's \<Rightarrow> 's"
    and pre :: "'op \<Rightarrow> 's \<Rightarrow> bool"
    and ok :: "'s \<Rightarrow> bool"
  assumes exec_ok: "ok s \<Longrightarrow> pre op s \<Longrightarrow> ok (exec op s)"
begin

lemma run_ok: "ok s \<Longrightarrow> admissible exec pre ops s \<Longrightarrow> ok (run_calls exec ops s)"
  by (induction ops arbitrary: s) (auto intro: exec_ok)

end

end
