(* ===== verification/Scheduler.thy ===== *)
theory Scheduler
  imports Kernel_Prelude
begin

text \<open>
  The preemptive SMP scheduler: \<^verbatim>\<open>kernel/sched/runqueue.c\<close>, \<^verbatim>\<open>core.c\<close>, \<^verbatim>\<open>block.c\<close> and the slot
  management of \<^verbatim>\<open>lifecycle.c\<close>. A section under \<open>scheduler_lock\<close> or under a queue lock is one
  atomic step; functions that release the lock in between (waking and creating a task) are
  two steps, and the task is \<open>in flight\<close> between them. \<open>timer_get_ms\<close> is an argument.
\<close>

section \<open>State\<close>

abbreviation SMP_MAX_CPUS :: nat where "SMP_MAX_CPUS \<equiv> 16"
abbreviation SCHED_MAX_TASKS :: nat where "SCHED_MAX_TASKS \<equiv> 16"
abbreviation RUNQ_CAPACITY :: nat where "RUNQ_CAPACITY \<equiv> 16"

datatype task_state = TASK_READY | TASK_RUNNING | TASK_SLEEPING | TASK_DEAD | TASK_BLOCKED

datatype task_kind = TASK_KIND_KERNEL | TASK_KIND_SPAWNED

record task =
  tid :: nat
  rsp :: u64
  stack_base :: u64
  tstate :: task_state
  pml4_phys :: u64
  cookie :: u32
  wake_at_ms :: nat
  priority :: nat
  enqueue_ms :: nat
  kind :: task_kind

text \<open>
  \<open>runqs\<close> gives the live entries of each run queue; \<open>cpu_current\<close> is \<open>None\<close> for the idle
  marker \<open>-1\<close>. \<open>cpu_cr3\<close> is the register of each CPU and \<open>percpu_cr3\<close> the copy in its
  \<open>percpu_t\<close>; \<open>rsp0\<close> is the TSS entry stack and \<open>resched\<close> the pending-reschedule flag.
\<close>

record sched =
  tasks :: "nat \<Rightarrow> task"
  task_count :: nat
  current_task :: nat
  cpu_current :: "nat \<Rightarrow> nat option"
  runqs :: "nat \<Rightarrow> nat list"
  online :: nat
  resched :: "nat \<Rightarrow> bool"
  sched_cr3 :: "nat \<Rightarrow> u64"
  sched_percpu_cr3 :: "nat \<Rightarrow> u64"
  rsp0 :: "nat \<Rightarrow> u64"
  kernel_root :: u64
  syscall_stack_tops :: "nat \<Rightarrow> u64"

abbreviation upd_task :: "nat \<Rightarrow> (task \<Rightarrow> task) \<Rightarrow> sched \<Rightarrow> sched" where
  "upd_task t f s \<equiv> s\<lparr>tasks := (tasks s)(t := f (tasks s t))\<rparr>"

section \<open>Run queues\<close>

text \<open>\<open>uint32_t bonus = (uint32_t)(waited / 100)\<close> truncates; the bonus is capped at 8.\<close>

definition effective_prio :: "sched \<Rightarrow> nat \<Rightarrow> nat \<Rightarrow> nat" where
  "effective_prio s t now =
     (let enq = enqueue_ms (tasks s t);
          waited = (if now > enq then now - enq else 0);
          bonus = (waited div 100) mod 2 ^ 32
      in priority (tasks s t) + (if bonus > 8 then 8 else bonus))"

definition runq_init :: "sched \<Rightarrow> sched" where
  "runq_init s = s\<lparr>runqs := (\<lambda>_. [])\<rparr>"

definition runq_len :: "sched \<Rightarrow> nat \<Rightarrow> nat" where
  "runq_len s cpu = (if cpu \<ge> SMP_MAX_CPUS then 0 else length (runqs s cpu))"

definition runq_push :: "sched \<Rightarrow> nat \<Rightarrow> nat \<Rightarrow> nat \<Rightarrow> bool \<times> sched" where
  "runq_push s cpu t now =
     (if length (runqs s cpu) \<ge> RUNQ_CAPACITY then (False, s)
      else (True, upd_task t (\<lambda>k. k\<lparr>enqueue_ms := now\<rparr>) s
                    \<lparr>runqs := (runqs s)(cpu := runqs s cpu @ [t])\<rparr>))"

text \<open>The scan of \<open>runq_pop\<close>: index and priority of the best entry so far.\<close>

fun best_entry :: "sched \<Rightarrow> nat \<Rightarrow> nat list \<Rightarrow> nat list \<Rightarrow> nat \<Rightarrow> nat \<Rightarrow> nat" where
  "best_entry s now q [] i best = best"
| "best_entry s now q (t # ts) i best =
     (let p = effective_prio s t now; bp = effective_prio s (q ! best) now
      in best_entry s now q ts (Suc i)
           (if p > bp \<or> (p = bp \<and> enqueue_ms (tasks s t) < enqueue_ms (tasks s (q ! best))) then i else best))"

definition runq_pop :: "sched \<Rightarrow> nat \<Rightarrow> nat \<Rightarrow> nat option \<times> sched" where
  "runq_pop s cpu now =
     (let q = runqs s cpu
      in if q = [] then (None, s)
         else
           let b = best_entry s now q (tl q) 1 0;
               q' = butlast (q[b := last q])
           in (Some (q ! b), s\<lparr>runqs := (runqs s)(cpu := q')\<rparr>))"

definition online_cpus :: "sched \<Rightarrow> nat" where
  "online_cpus s = (if online s > SMP_MAX_CPUS then SMP_MAX_CPUS else online s)"

text \<open>\<open>pick_target_cpu\<close>: an idle CPU, else the least loaded; \<open>best\<close> is \<open>None\<close> for the initial \<open>0xFFFFFFFF\<close>.\<close>

fun pick_scan :: "sched \<Rightarrow> nat list \<Rightarrow> nat \<Rightarrow> nat option \<Rightarrow> nat" where
  "pick_scan s [] best_cpu best_load = best_cpu"
| "pick_scan s (i # is) best_cpu best_load =
     (if cpu_current s i = None \<and> runqs s i = [] then i
      else
        let load = length (runqs s i) + (if cpu_current s i \<noteq> None then 1 else 0)
        in if best_load = None \<or> load < the best_load then pick_scan s is i (Some load)
           else pick_scan s is best_cpu best_load)"

definition pick_target_cpu :: "sched \<Rightarrow> nat" where
  "pick_target_cpu s = (if online_cpus s = 0 then 0 else pick_scan s [0..<online_cpus s] 0 None)"

fun steal_scan :: "sched \<Rightarrow> nat \<Rightarrow> nat list \<Rightarrow> nat option \<Rightarrow> nat \<Rightarrow> nat option" where
  "steal_scan s self [] victim best = victim"
| "steal_scan s self (i # is) victim best =
     (if i = self then steal_scan s self is victim best
      else if length (runqs s i) > best then steal_scan s self is (Some i) (length (runqs s i))
      else steal_scan s self is victim best)"

definition steal_task :: "sched \<Rightarrow> nat \<Rightarrow> nat \<Rightarrow> nat option \<times> sched" where
  "steal_task s self now =
     (case steal_scan s self [0..<online_cpus s] None 0 of
        None \<Rightarrow> (None, s)
      | Some v \<Rightarrow> runq_pop s v now)"

section \<open>The scheduler core\<close>

definition task_syscall_stack_top :: "sched \<Rightarrow> nat \<Rightarrow> u64" where
  "task_syscall_stack_top s cpu = syscall_stack_tops s (if cpu \<ge> SMP_MAX_CPUS then 0 else cpu)"

text \<open>The tail of \<open>schedule_on_cpu\<close>: run \<open>next\<close>, set the entry stack and the address space.\<close>

definition dispatch :: "sched \<Rightarrow> nat \<Rightarrow> nat \<Rightarrow> u64 \<times> sched" where
  "dispatch s cpu nx =
     (let s1 = (upd_task nx (\<lambda>k. k\<lparr>tstate := TASK_RUNNING\<rparr>) s)
                 \<lparr>cpu_current := (cpu_current s)(cpu := Some nx)\<rparr>;
          s2 = (if cpu = 0 then s1\<lparr>current_task := nx\<rparr> else s1);
          k = tasks s2 nx;
          top = (if stack_base k \<noteq> 0 then stack_base k + 16384 else task_syscall_stack_top s2 cpu);
          s3 = s2\<lparr>rsp0 := (rsp0 s2)(cpu := top)\<rparr>;
          root = (if pml4_phys k \<noteq> 0 then pml4_phys k else kernel_root s3);
          s4 = (if root \<noteq> 0 \<and> sched_percpu_cr3 s3 cpu \<noteq> root
                then s3\<lparr>sched_cr3 := (sched_cr3 s3)(cpu := root),
                        sched_percpu_cr3 := (sched_percpu_cr3 s3)(cpu := root)\<rparr>
                else s3)
      in (rsp (tasks s4 nx), s4))"

text \<open>The CPU's own queue first, then a task stolen from the longest other queue.\<close>

definition next_task :: "sched \<Rightarrow> nat \<Rightarrow> nat \<Rightarrow> nat option \<times> sched" where
  "next_task s cpu now =
     (let (n, s1) = runq_pop s cpu now
      in case n of Some t \<Rightarrow> (Some t, s1) | None \<Rightarrow> steal_task s1 cpu now)"

definition schedule_on_cpu :: "sched \<Rightarrow> nat \<Rightarrow> u64 \<Rightarrow> nat \<Rightarrow> nat \<Rightarrow> u64 \<times> sched" where
  "schedule_on_cpu s cpu regs now now' =
     (if cpu \<ge> SMP_MAX_CPUS \<or> regs = 0 then (regs, s)
      else
        let s0 = s\<lparr>resched := (resched s)(cpu := False)\<rparr>
        in if task_count s0 = 0 then (regs, s0)
           else
             let cur_live = (case cpu_current s0 cpu of Some c \<Rightarrow> c < task_count s0 | None \<Rightarrow> False);
                 c = the (cpu_current s0 cpu);
                 cur_running = (cur_live \<and> tstate (tasks s0 c) = TASK_RUNNING);
                 cur_blocked = (cur_live \<and> tstate (tasks s0 c) \<in> {TASK_SLEEPING, TASK_BLOCKED});
                 s1 = (if \<not> cur_running \<and> \<not> cur_blocked
                       then s0\<lparr>cpu_current := (cpu_current s0)(cpu := None)\<rparr> else s0);
                 (nx, s3) = next_task s1 cpu now
             in case nx of
                  None \<Rightarrow> (regs, if cur_blocked then upd_task c (\<lambda>k. k\<lparr>rsp := regs\<rparr>) s3 else s3)
                | Some t \<Rightarrow>
                    if t \<ge> task_count s3 \<or> tstate (tasks s3 t) \<noteq> TASK_READY \<or> rsp (tasks s3 t) = 0
                    then (regs, s3)
                    else
                      let s4 = (if cur_blocked then upd_task c (\<lambda>k. k\<lparr>rsp := regs\<rparr>) s3 else s3)
                      in if cur_running
                         then
                           let s5 = upd_task c (\<lambda>k. k\<lparr>rsp := regs, tstate := TASK_READY\<rparr>) s4;
                               (ok, s6) = runq_push s5 cpu c now'
                           in if \<not> ok
                              then (regs, snd (runq_push (upd_task c (\<lambda>k. k\<lparr>tstate := TASK_RUNNING\<rparr>) s6) cpu t now'))
                              else dispatch s6 cpu t
                         else dispatch s4 cpu t)"

definition schedule :: "sched \<Rightarrow> u64 \<Rightarrow> nat \<Rightarrow> nat \<Rightarrow> u64 \<times> sched" where
  "schedule s regs now now' = schedule_on_cpu s 0 regs now now'"

text \<open>One round of \<open>scheduler_idle_loop\<close> before the CPU halts.\<close>

definition idle_round :: "sched \<Rightarrow> nat \<Rightarrow> sched" where
  "idle_round s cpu = (if cpu < SMP_MAX_CPUS then s\<lparr>cpu_current := (cpu_current s)(cpu := None)\<rparr> else s)"

definition smp_current_task_id :: "sched \<Rightarrow> nat \<Rightarrow> nat option" where
  "smp_current_task_id s cpu = (if cpu \<ge> SMP_MAX_CPUS then None else cpu_current s cpu)"

section \<open>Blocking and waking\<close>

definition block_prepare :: "sched \<Rightarrow> nat \<Rightarrow> task_state \<Rightarrow> nat option \<times> sched" where
  "block_prepare s cpu new_state =
     (if new_state \<noteq> TASK_SLEEPING \<and> new_state \<noteq> TASK_BLOCKED then (None, s)
      else
        case smp_current_task_id s cpu of
          None \<Rightarrow> (None, s)
        | Some self \<Rightarrow>
            if self \<ge> task_count s then (None, s)
            else if tstate (tasks s self) \<noteq> TASK_RUNNING then (None, s)
            else (Some self, upd_task self (\<lambda>k. k\<lparr>tstate := new_state\<rparr>) s))"

text \<open>
  The locked section of \<open>unblock_task\<close>. The result tells what is left to do: nothing, or to
  hand the task to a run queue (\<open>unblock_enqueue\<close>).
\<close>

definition parked_on :: "sched \<Rightarrow> nat \<Rightarrow> nat option" where
  "parked_on s t = find (\<lambda>i. cpu_current s i = Some t) [0..<SMP_MAX_CPUS]"

definition unblock_mark :: "sched \<Rightarrow> nat \<Rightarrow> bool \<times> sched" where
  "unblock_mark s t =
     (if t \<ge> SCHED_MAX_TASKS then (False, s)
      else if tstate (tasks s t) \<noteq> TASK_SLEEPING \<and> tstate (tasks s t) \<noteq> TASK_BLOCKED then (False, s)
      else
        let s1 = upd_task t (\<lambda>k. k\<lparr>wake_at_ms := 0\<rparr>) s
        in case parked_on s t of
             Some i \<Rightarrow> (False, (upd_task t (\<lambda>k. k\<lparr>tstate := TASK_RUNNING\<rparr>) s1)\<lparr>resched := (resched s1)(i := True)\<rparr>)
           | None \<Rightarrow> (True, upd_task t (\<lambda>k. k\<lparr>tstate := TASK_READY\<rparr>) s1))"

definition unblock_enqueue :: "sched \<Rightarrow> nat \<Rightarrow> nat \<Rightarrow> nat \<Rightarrow> nat \<Rightarrow> sched" where
  "unblock_enqueue s t target this_cpu now =
     (let (ok, s1) = runq_push s target t now
      in if \<not> ok
         then if tstate (tasks s1 t) = TASK_READY then upd_task t (\<lambda>k. k\<lparr>tstate := TASK_BLOCKED\<rparr>) s1 else s1
         else if target \<noteq> this_cpu then s1\<lparr>resched := (resched s1)(target := True)\<rparr>
         else s1)"

text \<open>\<open>unblock_task\<close> when no other CPU interferes between its two sections.\<close>

definition unblock_task :: "sched \<Rightarrow> nat \<Rightarrow> nat \<Rightarrow> nat \<Rightarrow> sched" where
  "unblock_task s t this_cpu now =
     (let (go, s1) = unblock_mark s t
      in if go then unblock_enqueue s1 t (pick_target_cpu s1) this_cpu now else s1)"

text \<open>\<open>task_sleep_ms\<close> up to parking: the wake time is set, then the task blocks.\<close>

definition sleep_mark :: "sched \<Rightarrow> nat \<Rightarrow> nat \<Rightarrow> nat \<Rightarrow> nat option \<times> sched" where
  "sleep_mark s cpu ms now =
     (if ms = 0 then (None, s)
      else
        case smp_current_task_id s cpu of
          None \<Rightarrow> (None, s)
        | Some self \<Rightarrow>
            if self \<ge> task_count s then (None, s)
            else block_prepare (upd_task self (\<lambda>k. k\<lparr>wake_at_ms := (now + ms) mod 2 ^ 64\<rparr>) s) cpu TASK_SLEEPING)"

definition due_sleepers :: "sched \<Rightarrow> nat \<Rightarrow> nat list" where
  "due_sleepers s now =
     filter (\<lambda>i. tstate (tasks s i) = TASK_SLEEPING \<and> wake_at_ms (tasks s i) \<noteq> 0 \<and> now \<ge> wake_at_ms (tasks s i))
       [0..<min SCHED_MAX_TASKS (task_count s)]"

definition sleepq_check_wakeups :: "sched \<Rightarrow> nat \<Rightarrow> nat \<Rightarrow> nat \<Rightarrow> sched" where
  "sleepq_check_wakeups s now_ms this_cpu now =
     foldl (\<lambda>s t. unblock_task s t this_cpu now) s (due_sleepers s now_ms)"

section \<open>Task slots\<close>

text \<open>\<open>tasking_init\<close>: every slot is dead and every CPU idle, then the boot thread becomes task 0
  on CPU 0. The per-CPU stacks of \<open>sched_stacks_init\<close> are the argument \<open>tops\<close>, the boot value
  of CR3 is \<open>boot_cr3\<close>.\<close>

definition tasking_init :: "sched \<Rightarrow> (nat \<Rightarrow> u64) \<Rightarrow> u64 \<Rightarrow> sched" where
  "tasking_init s tops boot_cr3 =
     (let dead = (\<lambda>i. if i < SCHED_MAX_TASKS
                      then (tasks s i)\<lparr>tstate := TASK_DEAD, rsp := 0, pml4_phys := 0, cookie := 0, wake_at_ms := 0,
                             priority := 1, enqueue_ms := 0, kind := TASK_KIND_KERNEL\<rparr>
                      else tasks s i);
          s1 = runq_init (s\<lparr>tasks := dead,
                 cpu_current := (\<lambda>c. if c < SMP_MAX_CPUS then None else cpu_current s c)\<rparr>);
          s2 = s1\<lparr>syscall_stack_tops := tops, rsp0 := (rsp0 s1)(0 := tops 0)\<rparr>;
          s3 = upd_task 0 (\<lambda>k. k\<lparr>tid := 0, tstate := TASK_RUNNING, stack_base := 0, pml4_phys := 0, cookie := 0,
                 wake_at_ms := 0, priority := 1, enqueue_ms := 0, kind := TASK_KIND_KERNEL\<rparr>) s2
      in s3\<lparr>current_task := 0, task_count := 1, cpu_current := (cpu_current s3)(0 := Some 0),
             sched_percpu_cr3 := (sched_percpu_cr3 s3)(0 := boot_cr3)\<rparr>)"

text \<open>The search for a slot shared by \<open>create_task_prio\<close> and \<open>create_user_task\<close>.\<close>

definition find_slot :: "sched \<Rightarrow> nat option \<times> sched" where
  "find_slot s =
     (case find (\<lambda>i. tstate (tasks s i) = TASK_DEAD) [1..<task_count s] of
        Some i \<Rightarrow> (Some i, s)
      | None \<Rightarrow>
          if task_count s < SCHED_MAX_TASKS then (Some (task_count s), s\<lparr>task_count := Suc (task_count s)\<rparr>)
          else (None, s))"

text \<open>The fields set before the new task becomes visible as \<open>READY\<close>.\<close>

definition fill_slot :: "sched \<Rightarrow> nat \<Rightarrow> u64 \<Rightarrow> u64 \<Rightarrow> u64 \<Rightarrow> u32 \<Rightarrow> nat \<Rightarrow> task_kind \<Rightarrow> sched" where
  "fill_slot s slot p stack pml4 ck prio kd =
     upd_task slot (\<lambda>k. k\<lparr>tid := slot, rsp := p, stack_base := stack, tstate := TASK_READY, pml4_phys := pml4,
       cookie := ck, wake_at_ms := 0, priority := prio, kind := kd\<rparr>) s"

text \<open>The locked section of \<open>task_exit\<close>: what it hands to its caller is the stack and the
  address space to free.\<close>

definition exit_mark :: "sched \<Rightarrow> nat \<Rightarrow> u64 \<times> u64 \<times> sched" where
  "exit_mark s cpu =
     (if cpu \<ge> SMP_MAX_CPUS then (0, 0, s)
      else
        case cpu_current s cpu of
          Some cur \<Rightarrow>
            if 0 < cur \<and> cur < task_count s
            then
              let k = tasks s cur;
                  s1 = (if pml4_phys k \<noteq> 0 \<and> kernel_root s \<noteq> 0
                        then s\<lparr>sched_cr3 := (sched_cr3 s)(cpu := kernel_root s),
                               sched_percpu_cr3 := (sched_percpu_cr3 s)(cpu := kernel_root s)\<rparr> else s);
                  s2 = upd_task cur (\<lambda>k. k\<lparr>stack_base := 0, pml4_phys := 0, tstate := TASK_DEAD, rsp := 0\<rparr>) s1
              in (stack_base k, pml4_phys k, s2\<lparr>cpu_current := (cpu_current s2)(cpu := None)\<rparr>)
            else (0, 0, s\<lparr>cpu_current := (cpu_current s)(cpu := None)\<rparr>)
        | None \<Rightarrow> (0, 0, s\<lparr>cpu_current := (cpu_current s)(cpu := None)\<rparr>))"

end
