(* ===== verification/Sched_Invariant.thy ===== *)
theory Sched_Invariant
  imports Scheduler
begin

text \<open>
  The single-membership invariant of the scheduler: a \<open>READY\<close> task is in exactly one run
  queue or in flight between two critical sections, a task on a CPU is on exactly one and in
  no queue. It is kept by every critical section, so by every interleaving of them.
\<close>

section \<open>The invariant\<close>

abbreviation blocked_state :: "task_state \<Rightarrow> bool" where
  "blocked_state st \<equiv> st = TASK_SLEEPING \<or> st = TASK_BLOCKED"

definition runnable :: "sched \<Rightarrow> nat \<Rightarrow> bool" where
  "runnable s t \<longleftrightarrow> t < task_count s \<and> tstate (tasks s t) = TASK_READY \<and> rsp (tasks s t) \<noteq> 0"

definition queued :: "sched \<Rightarrow> nat \<Rightarrow> bool" where
  "queued s t \<longleftrightarrow> (\<exists>c < SMP_MAX_CPUS. t \<in> set (runqs s c))"

definition on_cpu :: "sched \<Rightarrow> nat \<Rightarrow> bool" where
  "on_cpu s t \<longleftrightarrow> (\<exists>c < SMP_MAX_CPUS. cpu_current s c = Some t)"

definition queues_ok :: "sched \<Rightarrow> bool" where
  "queues_ok s \<longleftrightarrow>
     (\<forall>c < SMP_MAX_CPUS. distinct (runqs s c)) \<and>
     (\<forall>c < SMP_MAX_CPUS. \<forall>d < SMP_MAX_CPUS. \<forall>t. t \<in> set (runqs s c) \<longrightarrow> t \<in> set (runqs s d) \<longrightarrow> c = d)"

definition cpus_ok :: "sched \<Rightarrow> bool" where
  "cpus_ok s \<longleftrightarrow>
     (\<forall>c < SMP_MAX_CPUS. \<forall>d < SMP_MAX_CPUS. \<forall>t. cpu_current s c = Some t \<longrightarrow> cpu_current s d = Some t \<longrightarrow> c = d)"

text \<open>
  Where a task is agrees with its state, and no task is lost: a ready task waits in a queue
  or is in flight (\<open>F\<close>), a running one is on a CPU, a blocked one that left its CPU can be
  resumed from its saved stack pointer.
\<close>

definition task_ok :: "sched \<Rightarrow> nat set \<Rightarrow> nat \<Rightarrow> bool" where
  "task_ok s F t \<longleftrightarrow>
     (queued s t \<or> t \<in> F \<longrightarrow> runnable s t) \<and> (queued s t \<longrightarrow> t \<notin> F) \<and>
     (on_cpu s t \<longrightarrow> t < task_count s \<and> (tstate (tasks s t) = TASK_RUNNING \<or> blocked_state (tstate (tasks s t)))) \<and>
     (t \<ge> task_count s \<longrightarrow> t < SCHED_MAX_TASKS \<longrightarrow> tstate (tasks s t) = TASK_DEAD) \<and>
     (t < task_count s \<longrightarrow>
        (tstate (tasks s t) = TASK_READY \<longrightarrow> queued s t \<or> t \<in> F) \<and>
        (tstate (tasks s t) = TASK_RUNNING \<longrightarrow> on_cpu s t) \<and>
        (blocked_state (tstate (tasks s t)) \<longrightarrow> \<not> on_cpu s t \<longrightarrow> rsp (tasks s t) \<noteq> 0))"

definition sched_inv :: "sched \<Rightarrow> nat set \<Rightarrow> bool" where
  "sched_inv s F \<longleftrightarrow> task_count s \<le> SCHED_MAX_TASKS \<and> queues_ok s \<and> cpus_ok s \<and> (\<forall>t. task_ok s F t)"

text \<open>The invariant reads the task table, the queues and \<open>cpu_current\<close> only.\<close>

lemma inv_cong:
  assumes "tasks s' = tasks s" "task_count s' = task_count s" "runqs s' = runqs s" "cpu_current s' = cpu_current s"
  shows "sched_inv s' F = sched_inv s F"
  using assms by (simp add: sched_inv_def queues_ok_def cpus_ok_def task_ok_def runnable_def queued_def on_cpu_def)

lemma inv_frame [simp]:
  "sched_inv (s\<lparr>resched := r\<rparr>) F = sched_inv s F"
  "sched_inv (s\<lparr>current_task := ct\<rparr>) F = sched_inv s F"
  "sched_inv (s\<lparr>rsp0 := r0\<rparr>) F = sched_inv s F"
  "sched_inv (s\<lparr>sched_cr3 := r3, sched_percpu_cr3 := r4\<rparr>) F = sched_inv s F"
  by (rule inv_cong; simp)+

lemma task_ok_cong:
  assumes "task_ok s F t" "task_count s' = task_count s" "queued s' t = queued s t" "on_cpu s' t = on_cpu s t"
    and "t \<in> F' \<longleftrightarrow> t \<in> F" "tstate (tasks s' t) = tstate (tasks s t)" "rsp (tasks s' t) = rsp (tasks s t)"
  shows "task_ok s' F' t"
  using assms by (simp add: task_ok_def runnable_def)

lemma sched_invD:
  assumes "sched_inv s F"
  shows "task_count s \<le> SCHED_MAX_TASKS" "queues_ok s" "cpus_ok s" "task_ok s F t"
  using assms by (simp_all add: sched_inv_def)

text \<open>A step that touches one task: only that task's clause has to be checked again.\<close>

lemma inv_stepI:
  assumes inv: "sched_inv s F" and "queues_ok s'" "cpus_ok s'" "task_count s' = task_count s" "task_ok s' F' t"
    and "\<And>u. u \<noteq> t \<Longrightarrow> queued s' u = queued s u \<and> on_cpu s' u = on_cpu s u \<and> (u \<in> F' \<longleftrightarrow> u \<in> F) \<and>
           tstate (tasks s' u) = tstate (tasks s u) \<and> rsp (tasks s' u) = rsp (tasks s u)"
  shows "sched_inv s' F'"
proof -
  have "task_ok s' F' u" for u
  proof (cases "u = t")
    case True
    then show ?thesis using assms by simp
  next
    case False
    show ?thesis
      by (rule task_ok_cong [OF sched_invD(4) [OF inv]]) (use assms(4) assms(6) [OF False] in simp_all)
  qed
  with assms(2-4) sched_invD(1) [OF inv] show ?thesis by (simp add: sched_inv_def)
qed

lemma queued_upd: "cpu < SMP_MAX_CPUS \<Longrightarrow>
  queued (s\<lparr>runqs := (runqs s)(cpu := q)\<rparr>) u \<longleftrightarrow> u \<in> set q \<or> (\<exists>c < SMP_MAX_CPUS. c \<noteq> cpu \<and> u \<in> set (runqs s c))"
  by (auto simp: queued_def)

lemma queued_at: "cpu < SMP_MAX_CPUS \<Longrightarrow>
  queued s u \<longleftrightarrow> u \<in> set (runqs s cpu) \<or> (\<exists>c < SMP_MAX_CPUS. c \<noteq> cpu \<and> u \<in> set (runqs s c))"
  by (auto simp: queued_def)

lemma on_cpu_upd: "cpu < SMP_MAX_CPUS \<Longrightarrow>
  on_cpu (s\<lparr>cpu_current := (cpu_current s)(cpu := x)\<rparr>) u \<longleftrightarrow> x = Some u \<or> (\<exists>c < SMP_MAX_CPUS. c \<noteq> cpu \<and> cpu_current s c = Some u)"
  by (auto simp: on_cpu_def)

lemma on_cpu_at: "cpu < SMP_MAX_CPUS \<Longrightarrow>
  on_cpu s u \<longleftrightarrow> cpu_current s cpu = Some u \<or> (\<exists>c < SMP_MAX_CPUS. c \<noteq> cpu \<and> cpu_current s c = Some u)"
  by (auto simp: on_cpu_def)

lemma located_cong [simp]:
  "queued (s\<lparr>tasks := tb\<rparr>) u = queued s u" "on_cpu (s\<lparr>tasks := tb\<rparr>) u = on_cpu s u"
  "queued (s\<lparr>cpu_current := cc\<rparr>) u = queued s u" "on_cpu (s\<lparr>runqs := rq\<rparr>) u = on_cpu s u"
  "queued (s\<lparr>resched := r\<rparr>) u = queued s u" "on_cpu (s\<lparr>resched := r\<rparr>) u = on_cpu s u"
  "queues_ok (s\<lparr>tasks := tb\<rparr>) = queues_ok s" "cpus_ok (s\<lparr>tasks := tb\<rparr>) = cpus_ok s"
  "queues_ok (s\<lparr>cpu_current := cc\<rparr>) = queues_ok s" "cpus_ok (s\<lparr>runqs := rq\<rparr>) = cpus_ok s"
  "queues_ok (s\<lparr>resched := r\<rparr>) = queues_ok s" "cpus_ok (s\<lparr>resched := r\<rparr>) = cpus_ok s"
  by (simp_all add: queued_def on_cpu_def queues_ok_def cpus_ok_def)

lemma queue_disjoint:
  "queues_ok s \<Longrightarrow> c < SMP_MAX_CPUS \<Longrightarrow> d < SMP_MAX_CPUS \<Longrightarrow> t \<in> set (runqs s c) \<Longrightarrow> t \<in> set (runqs s d) \<Longrightarrow> c = d"
  by (simp add: queues_ok_def)

lemma queues_ok_upd:
  assumes "queues_ok s" "cpu < SMP_MAX_CPUS" "distinct q"
    and "\<And>u c. u \<in> set q \<Longrightarrow> c < SMP_MAX_CPUS \<Longrightarrow> u \<in> set (runqs s c) \<Longrightarrow> c = cpu"
  shows "queues_ok (s\<lparr>runqs := (runqs s)(cpu := q)\<rparr>)"
  unfolding queues_ok_def
proof (intro conjI allI impI)
  fix c assume "c < SMP_MAX_CPUS"
  then show "distinct (runqs (s\<lparr>runqs := (runqs s)(cpu := q)\<rparr>) c)" using assms(1,3) by (simp add: queues_ok_def)
next
  fix c d u
  assume cd: "c < SMP_MAX_CPUS" "d < SMP_MAX_CPUS"
    and u: "u \<in> set (runqs (s\<lparr>runqs := (runqs s)(cpu := q)\<rparr>) c)" "u \<in> set (runqs (s\<lparr>runqs := (runqs s)(cpu := q)\<rparr>) d)"
  show "c = d"
  proof (cases "c = cpu")
    case True
    then have "u \<in> set q" using u(1) by simp
    with cd u(2) True show ?thesis by (cases "d = cpu") (auto dest: assms(4))
  next
    case False
    then have c: "u \<in> set (runqs s c)" using u(1) by simp
    show ?thesis
    proof (cases "d = cpu")
      case True
      then have "u \<in> set q" using u(2) by simp
      from assms(4) [OF this cd(1) c] True show ?thesis by simp
    next
      case d: False
      with u(2) have "u \<in> set (runqs s d)" by simp
      with c show ?thesis by (rule queue_disjoint [OF assms(1) cd])
    qed
  qed
qed

section \<open>Pop\<close>

lemma best_entry_less: "best < length q \<Longrightarrow> i + length ts \<le> length q \<Longrightarrow> best_entry s now q ts i best < length q"
  by (induction ts arbitrary: i best) (auto simp: Let_def)

lemma runq_pop_cases:
  obtains (empty) "runqs s cpu = []" "runq_pop s cpu now = (None, s)"
  | (popped) b q' where "b < length (runqs s cpu)" "b = best_entry s now (runqs s cpu) (tl (runqs s cpu)) 1 0"
      "runq_pop s cpu now = (Some (runqs s cpu ! b), s\<lparr>runqs := (runqs s)(cpu := q')\<rparr>)"
      "mset (runqs s cpu) = add_mset (runqs s cpu ! b) (mset q')"
proof (cases "runqs s cpu = []")
  case True
  then show ?thesis by (intro empty) (simp_all add: runq_pop_def)
next
  case False
  let ?q = "runqs s cpu"
  let ?b = "best_entry s now ?q (tl ?q) 1 0"
  have b: "?b < length ?q" using False by (intro best_entry_less) (auto simp: Suc_leI)
  have ne: "?q[?b := last ?q] \<noteq> []" using False by simp
  have "mset (?q[?b := last ?q]) = add_mset (last ?q) (mset ?q) - {# ?q ! ?b #}"
    using b by (simp add: mset_update)
  moreover have "mset (?q[?b := last ?q]) = add_mset (last (?q[?b := last ?q])) (mset (butlast (?q[?b := last ?q])))"
    using ne by (subst append_butlast_last_id [symmetric]) (auto simp del: append_butlast_last_id)
  moreover have "last (?q[?b := last ?q]) = last ?q"
    using False b by (simp add: last_conv_nth nth_list_update)
  moreover have mem: "?q ! ?b \<in># mset ?q" using b by simp
  ultimately have "mset (butlast (?q[?b := last ?q])) = mset ?q - {# ?q ! ?b #}"
    by (simp add: diff_union_swap2)
  with mem have "mset ?q = add_mset (?q ! ?b) (mset (butlast (?q[?b := last ?q])))"
    by simp
  then show ?thesis
    using False b by (intro popped [of ?b]) (simp_all add: runq_pop_def Let_def)
qed

lemma pop_state: "runq_pop s cpu now = (r, s') \<Longrightarrow> \<exists>q. s' = s\<lparr>runqs := q\<rparr>"
  by (cases rule: runq_pop_cases [of s cpu now]) (auto intro: exI [of _ "runqs s"])

lemma pop_None: "runq_pop s cpu now = (None, s') \<Longrightarrow> s' = s"
  by (cases rule: runq_pop_cases [of s cpu now]) auto

lemma pop_Some_inv:
  assumes inv: "sched_inv s F" and cpu: "cpu < SMP_MAX_CPUS" and p: "runq_pop s cpu now = (Some t, s')"
  shows "t \<notin> F \<and> t \<in> set (runqs s cpu) \<and> sched_inv s' (insert t F)"
proof (cases rule: runq_pop_cases [of s cpu now])
  case empty
  with p show ?thesis by simp
next
  case (popped b q')
  let ?q = "runqs s cpu"
  have t: "t = ?q ! b" and s': "s' = s\<lparr>runqs := (runqs s)(cpu := q')\<rparr>" using p popped(3) by auto
  have q: "queues_ok s" and tok: "task_ok s F t" using sched_invD [OF inv] by simp_all
  have "distinct ?q" using q cpu by (simp add: queues_ok_def)
  moreover have m: "mset ?q = mset (t # q')" using popped(4) t by simp
  ultimately have d: "distinct (t # q')" using mset_eq_imp_distinct_iff by blast
  have st: "set ?q = insert t (set q')" using mset_eq_setD [OF m] by simp
  have q': "queues_ok s'"
    unfolding s' by (rule queues_ok_upd [OF q cpu]) (use d st in \<open>auto dest: queue_disjoint [OF q cpu]\<close>)
  have qt: "queued s t" using st cpu by (auto simp: queued_def)
  have nq: "\<not> queued s' t"
    using d st queue_disjoint [OF q cpu] cpu unfolding s' by (auto simp: queued_upd)
  have oth: "queued s' u = queued s u" if "u \<noteq> t" for u
    using that st cpu unfolding s' by (simp add: queued_upd queued_at [of cpu s])
  have "sched_inv s' (insert t F)"
    by (rule inv_stepI [OF inv, where t = t])
      (use tok qt nq q' oth sched_invD [OF inv] in \<open>auto simp: s' task_ok_def runnable_def\<close>)
  with tok qt st show ?thesis by (simp add: task_ok_def)
qed

lemma queue_room:
  assumes "sched_inv s F" "t \<in> F" "cpu < SMP_MAX_CPUS"
  shows "length (runqs s cpu) < RUNQ_CAPACITY"
proof -
  have "u < task_count s \<and> u \<noteq> t" if "u \<in> set (runqs s cpu)" for u
  proof -
    have "queued s u" using that assms(3) by (auto simp: queued_def)
    then show ?thesis using sched_invD(4) [OF assms(1), of u] assms(2) by (auto simp: task_ok_def runnable_def)
  qed
  then have "set (runqs s cpu) \<subseteq> {0..<task_count s} - {t}" by auto
  then have "card (set (runqs s cpu)) \<le> card ({0..<task_count s} - {t})" by (intro card_mono) auto
  moreover have "t < task_count s"
    using assms(2) sched_invD(4) [OF assms(1), of t] by (auto simp: task_ok_def runnable_def)
  moreover have "distinct (runqs s cpu)" using sched_invD(2) [OF assms(1)] assms(3) by (simp add: queues_ok_def)
  ultimately show ?thesis using sched_invD(1) [OF assms(1)] by (simp add: distinct_card)
qed

lemma push_inv:
  assumes inv: "sched_inv s F" and t: "t \<in> F" and cpu: "cpu < SMP_MAX_CPUS"
  shows "\<exists>s'. runq_push s cpu t now = (True, s') \<and> sched_inv s' (F - {t}) \<and>
     s' = upd_task t (\<lambda>k. k\<lparr>enqueue_ms := now\<rparr>) s\<lparr>runqs := (runqs s)(cpu := runqs s cpu @ [t])\<rparr>"
proof -
  let ?s = "upd_task t (\<lambda>k. k\<lparr>enqueue_ms := now\<rparr>) s\<lparr>runqs := (runqs s)(cpu := runqs s cpu @ [t])\<rparr>"
  have q: "queues_ok s" and tok: "task_ok s F t" using sched_invD [OF inv] by simp_all
  have nq: "\<not> queued s t" using tok t by (auto simp: task_ok_def)
  have "queues_ok (s\<lparr>runqs := (runqs s)(cpu := runqs s cpu @ [t])\<rparr>)"
    by (rule queues_ok_upd [OF q cpu]) (use q nq cpu in \<open>auto simp: queued_def queues_ok_def dest: queue_disjoint [OF q cpu]\<close>)
  then have q': "queues_ok ?s" by (simp add: queues_ok_def)
  have qd: "queued ?s u \<longleftrightarrow> queued s u \<or> u = t" for u
    using cpu by (auto simp: queued_def)
  have "sched_inv ?s (F - {t})"
    by (rule inv_stepI [OF inv, where t = t])
      (use tok nq t q' qd sched_invD [OF inv] in \<open>auto simp: task_ok_def runnable_def\<close>)
  with queue_room [OF inv t cpu] show ?thesis by (simp add: runq_push_def)
qed

section \<open>Leaving and entering a CPU\<close>

lemma cpu_unique:
  "cpus_ok s \<Longrightarrow> c < SMP_MAX_CPUS \<Longrightarrow> d < SMP_MAX_CPUS \<Longrightarrow> cpu_current s c = Some t \<Longrightarrow> cpu_current s d = Some t \<Longrightarrow> c = d"
  by (simp add: cpus_ok_def)

lemma cpus_ok_clear: "cpus_ok s \<Longrightarrow> cpus_ok (s\<lparr>cpu_current := (cpu_current s)(cpu := None)\<rparr>)"
  unfolding cpus_ok_def by (auto split: if_splits)

lemma cpus_ok_enter:
  assumes "cpus_ok s" "\<not> on_cpu s t"
  shows "cpus_ok (s\<lparr>cpu_current := (cpu_current s)(cpu := Some t)\<rparr>)"
  using assms unfolding cpus_ok_def on_cpu_def by (auto split: if_splits)

lemma on_cpu_clear:
  assumes "cpus_ok s" "cpu < SMP_MAX_CPUS" "cpu_current s cpu = Some t"
  shows "on_cpu (s\<lparr>cpu_current := (cpu_current s)(cpu := None)\<rparr>) u \<longleftrightarrow> on_cpu s u \<and> u \<noteq> t"
proof (cases "u = t")
  case True
  have "\<not> (\<exists>c < SMP_MAX_CPUS. c \<noteq> cpu \<and> cpu_current s c = Some t)"
    using cpu_unique [OF assms(1) _ assms(2) _ assms(3)] by blast
  with True show ?thesis using assms(2) by (simp add: on_cpu_upd)
next
  case False
  then show ?thesis using assms by (simp add: on_cpu_upd on_cpu_at [of cpu s])
qed

lemma leave_inv:
  assumes inv: "sched_inv s F" and cpu: "cpu < SMP_MAX_CPUS" and c: "cpu_current s cpu = Some t" and regs: "regs \<noteq> 0"
  shows "tstate (tasks s t) = TASK_RUNNING \<Longrightarrow>
      sched_inv ((upd_task t (\<lambda>k. k\<lparr>rsp := regs, tstate := TASK_READY\<rparr>) s)\<lparr>cpu_current := (cpu_current s)(cpu := None)\<rparr>) (insert t F)"
    and "blocked_state (tstate (tasks s t)) \<Longrightarrow>
      sched_inv ((upd_task t (\<lambda>k. k\<lparr>rsp := regs\<rparr>) s)\<lparr>cpu_current := (cpu_current s)(cpu := None)\<rparr>) F"
    and "blocked_state (tstate (tasks s t)) \<Longrightarrow> sched_inv (upd_task t (\<lambda>k. k\<lparr>rsp := regs\<rparr>) s) F"
    and "t \<noteq> 0 \<Longrightarrow> tstate (tasks s t) \<in> {TASK_RUNNING, TASK_SLEEPING, TASK_BLOCKED} \<Longrightarrow>
      sched_inv ((upd_task t (\<lambda>k. k\<lparr>stack_base := 0, pml4_phys := 0, tstate := TASK_DEAD, rsp := 0\<rparr>) s)
        \<lparr>cpu_current := (cpu_current s)(cpu := None)\<rparr>) F"
proof -
  have q: "queues_ok s" and cc: "cpus_ok s" and tok: "task_ok s F t" using sched_invD [OF inv] by simp_all
  have on: "on_cpu s t" using c cpu by (auto simp: on_cpu_def)
  note [simp] = on_cpu_clear [OF cc cpu c] cpus_ok_clear [OF cc]
  have upd: "on_cpu ((s\<lparr>tasks := tb\<rparr>)\<lparr>cpu_current := (cpu_current s)(cpu := None)\<rparr>) u \<longleftrightarrow> on_cpu s u \<and> u \<noteq> t" for tb u
    using on_cpu_clear [OF cc cpu c, of u] by (simp add: on_cpu_def)
  have upc: "cpus_ok ((s\<lparr>tasks := tb\<rparr>)\<lparr>cpu_current := (cpu_current s)(cpu := None)\<rparr>)" for tb
    using cpus_ok_clear [OF cc, of cpu] by (simp add: cpus_ok_def)
  note facts = q cc tok on regs upd upc
  show "tstate (tasks s t) = TASK_RUNNING \<Longrightarrow>
      sched_inv ((upd_task t (\<lambda>k. k\<lparr>rsp := regs, tstate := TASK_READY\<rparr>) s)\<lparr>cpu_current := (cpu_current s)(cpu := None)\<rparr>) (insert t F)"
    by (rule inv_stepI [OF inv, where t = t]) (use facts in \<open>auto simp: task_ok_def runnable_def\<close>)
  show "blocked_state (tstate (tasks s t)) \<Longrightarrow>
      sched_inv ((upd_task t (\<lambda>k. k\<lparr>rsp := regs\<rparr>) s)\<lparr>cpu_current := (cpu_current s)(cpu := None)\<rparr>) F"
    by (rule inv_stepI [OF inv, where t = t]) (use facts in \<open>auto simp: task_ok_def runnable_def\<close>)
  show "blocked_state (tstate (tasks s t)) \<Longrightarrow> sched_inv (upd_task t (\<lambda>k. k\<lparr>rsp := regs\<rparr>) s) F"
    by (rule inv_stepI [OF inv, where t = t]) (use facts in \<open>auto simp: task_ok_def runnable_def\<close>)
  show "t \<noteq> 0 \<Longrightarrow> tstate (tasks s t) \<in> {TASK_RUNNING, TASK_SLEEPING, TASK_BLOCKED} \<Longrightarrow>
      sched_inv ((upd_task t (\<lambda>k. k\<lparr>stack_base := 0, pml4_phys := 0, tstate := TASK_DEAD, rsp := 0\<rparr>) s)
        \<lparr>cpu_current := (cpu_current s)(cpu := None)\<rparr>) F"
    by (rule inv_stepI [OF inv, where t = t]) (use facts in \<open>auto simp: task_ok_def runnable_def\<close>)
qed

lemma enter_inv:
  assumes inv: "sched_inv s F" and cpu: "cpu < SMP_MAX_CPUS" and c: "cpu_current s cpu = None" and t: "t \<in> F"
  shows "sched_inv ((upd_task t (\<lambda>k. k\<lparr>tstate := TASK_RUNNING\<rparr>) s)\<lparr>cpu_current := (cpu_current s)(cpu := Some t)\<rparr>) (F - {t})"
proof -
  have tok: "task_ok s F t" and cc: "cpus_ok s" and q: "queues_ok s" using sched_invD [OF inv] by simp_all
  have off: "\<not> on_cpu s t" using tok t by (auto simp: task_ok_def runnable_def)
  let ?cc = "(cpu_current s)(cpu := Some t)"
  have up: "on_cpu (s\<lparr>tasks := tb, cpu_current := ?cc\<rparr>) u \<longleftrightarrow> on_cpu s u \<or> u = t" for tb u
    using cpu c on_cpu_upd [OF cpu, of s "Some t" u] by (auto simp: on_cpu_at [OF cpu, of s] on_cpu_def)
  have upc: "cpus_ok (s\<lparr>tasks := tb, cpu_current := ?cc\<rparr>)" for tb
    using cpus_ok_enter [OF cc off, of cpu] by (simp add: cpus_ok_def)
  show ?thesis
    by (rule inv_stepI [OF inv, where t = t])
      (use tok t off q up upc in \<open>auto simp: task_ok_def runnable_def\<close>)
qed

lemma dispatch_inv:
  assumes "sched_inv (s\<lparr>cpu_current := (cpu_current s)(cpu := None)\<rparr>) F" "cpu < SMP_MAX_CPUS" "t \<in> F"
  shows "sched_inv (snd (dispatch s cpu t)) (F - {t})"
proof -
  have "sched_inv ((upd_task t (\<lambda>k. k\<lparr>tstate := TASK_RUNNING\<rparr>) s)\<lparr>cpu_current := (cpu_current s)(cpu := Some t)\<rparr>) (F - {t})"
    using enter_inv [OF assms(1,2) _ assms(3)] by simp
  then show ?thesis by (cases "cpu = 0") (simp_all add: dispatch_def Let_def)
qed

section \<open>Scheduling\<close>

lemma steal_scan_in:
  "steal_scan s self is v b = Some w \<Longrightarrow> v = Some w \<or> w \<in> set is \<and> w \<noteq> self"
  by (induction "is" arbitrary: v b) (auto split: if_splits)

lemma next_task_cases [consumes 2, case_names idle found]:
  assumes inv: "sched_inv s F" and cpu: "cpu < SMP_MAX_CPUS"
  obtains (idle) "next_task s cpu now = (None, s)"
  | (found) t v q where "next_task s cpu now = (Some t, s\<lparr>runqs := q\<rparr>)" "v < SMP_MAX_CPUS" "t \<in> set (runqs s v)"
      "t \<notin> F" "sched_inv (s\<lparr>runqs := q\<rparr>) (insert t F)"
proof -
  obtain r s1 where p: "runq_pop s cpu now = (r, s1)" by fastforce
  have *: thesis if "runq_pop s v now = (Some t, s2)" "next_task s cpu now = (Some t, s2)" "v < SMP_MAX_CPUS" for v t s2
    using pop_Some_inv [OF inv that(3,1)] pop_state [OF that(1)] that(2,3) found by metis
  show thesis
  proof (cases r)
    case (Some t)
    then show ?thesis using * [of cpu t s1] p cpu by (simp add: next_task_def)
  next
    case None
    with p have s1: "s1 = s" using pop_None by simp
    show ?thesis
    proof (cases "steal_scan s cpu [0..<online_cpus s] None 0")
      case None
      then show ?thesis using idle p s1 \<open>r = None\<close> by (simp add: next_task_def steal_task_def)
    next
      case (Some v)
      obtain r2 s2 where p2: "runq_pop s v now = (r2, s2)" by fastforce
      have nt: "next_task s cpu now = (r2, s2)" using p p2 s1 Some \<open>r = None\<close> by (simp add: next_task_def steal_task_def)
      have v: "v < SMP_MAX_CPUS" using steal_scan_in [OF Some] by (auto simp: online_cpus_def split: if_splits)
      show ?thesis
      proof (cases r2)
        case None
        then show ?thesis using idle nt p2 pop_None by blast
      next
        case (Some t)
        then show ?thesis using * [of v t s2] p2 nt v by simp
      qed
    qed
  qed
qed

text \<open>What happens to the task that leaves the CPU, once a successor has been found.\<close>

definition outgoing :: "sched \<Rightarrow> nat \<Rightarrow> u64 \<Rightarrow> nat \<Rightarrow> sched" where
  "outgoing s cpu regs now' =
     (case cpu_current s cpu of
        None \<Rightarrow> s
      | Some c \<Rightarrow> if tstate (tasks s c) = TASK_RUNNING
                  then snd (runq_push (upd_task c (\<lambda>k. k\<lparr>rsp := regs, tstate := TASK_READY\<rparr>) s) cpu c now')
                  else upd_task c (\<lambda>k. k\<lparr>rsp := regs\<rparr>) s)"

lemma push_cpu_current:
  "runq_push (s\<lparr>cpu_current := cc\<rparr>) cpu t now = (fst (runq_push s cpu t now), (snd (runq_push s cpu t now))\<lparr>cpu_current := cc\<rparr>)"
  by (simp add: runq_push_def)

lemma outgoing_inv:
  assumes inv: "sched_inv s F" and cpu: "cpu < SMP_MAX_CPUS" and regs: "regs \<noteq> 0"
  shows "sched_inv ((outgoing s cpu regs now')\<lparr>cpu_current := (cpu_current s)(cpu := None)\<rparr>) F"
    and "cpu_current s cpu = Some c \<Longrightarrow> tstate (tasks s c) = TASK_RUNNING \<Longrightarrow>
      fst (runq_push (upd_task c (\<lambda>k. k\<lparr>rsp := regs, tstate := TASK_READY\<rparr>) s) cpu c now')"
proof -
  have run: "sched_inv ((snd (runq_push u cpu c now'))\<lparr>cpu_current := (cpu_current s)(cpu := None)\<rparr>) F \<and> fst (runq_push u cpu c now')"
    if c: "cpu_current s cpu = Some c" and st: "tstate (tasks s c) = TASK_RUNNING"
      and u: "u = upd_task c (\<lambda>k. k\<lparr>rsp := regs, tstate := TASK_READY\<rparr>) s" for c u
  proof -
    have "c \<notin> F" using sched_invD(4) [OF inv, of c] st by (auto simp: task_ok_def runnable_def)
    moreover obtain s' where "runq_push (u\<lparr>cpu_current := (cpu_current s)(cpu := None)\<rparr>) cpu c now' = (True, s')"
      "sched_inv s' (insert c F - {c})"
      using push_inv [OF leave_inv(1) [OF inv cpu c regs st] insertI1 cpu, of now'] u by auto
    ultimately show ?thesis by (simp add: push_cpu_current)
  qed
  then show "cpu_current s cpu = Some c \<Longrightarrow> tstate (tasks s c) = TASK_RUNNING \<Longrightarrow>
      fst (runq_push (upd_task c (\<lambda>k. k\<lparr>rsp := regs, tstate := TASK_READY\<rparr>) s) cpu c now')" by blast
  show "sched_inv ((outgoing s cpu regs now')\<lparr>cpu_current := (cpu_current s)(cpu := None)\<rparr>) F"
  proof (cases "cpu_current s cpu")
    case None
    then have "(cpu_current s)(cpu := None) = cpu_current s" by auto
    then show ?thesis using None inv by (simp add: outgoing_def)
  next
    case (Some c)
    have "on_cpu s c" using Some cpu by (auto simp: on_cpu_def)
    then have "tstate (tasks s c) = TASK_RUNNING \<or> blocked_state (tstate (tasks s c))"
      using sched_invD(4) [OF inv, of c] by (auto simp: task_ok_def)
    then show ?thesis
      using Some run [OF Some] leave_inv(2) [OF inv cpu Some regs] by (auto simp: outgoing_def)
  qed
qed

lemma on_cpu_state:
  assumes "sched_inv s F" "cpu < SMP_MAX_CPUS" "cpu_current s cpu = Some c"
  shows "c < task_count s" "tstate (tasks s c) = TASK_RUNNING \<or> blocked_state (tstate (tasks s c))"
proof -
  have "on_cpu s c" using assms(2,3) by (auto simp: on_cpu_def)
  then show "c < task_count s" "tstate (tasks s c) = TASK_RUNNING \<or> blocked_state (tstate (tasks s c))"
    using sched_invD(4) [OF assms(1), of c] by (auto simp: task_ok_def)
qed

text \<open>
  Under the invariant the scheduler's defensive branches are dead: the popped task is always
  runnable and the outgoing one always fits into the queue.
\<close>

lemma schedule_eq:
  assumes inv: "sched_inv s F" and cpu: "cpu < SMP_MAX_CPUS" and regs: "regs \<noteq> 0" and cnt: "task_count s \<noteq> 0"
  shows "schedule_on_cpu s cpu regs now now' =
     (let s0 = s\<lparr>resched := (resched s)(cpu := False)\<rparr>
      in case next_task s0 cpu now of
           (None, s1) \<Rightarrow> (regs, case cpu_current s cpu of
                Some c \<Rightarrow> if blocked_state (tstate (tasks s c)) then upd_task c (\<lambda>k. k\<lparr>rsp := regs\<rparr>) s0 else s0
              | None \<Rightarrow> s0)
         | (Some t, s1) \<Rightarrow> dispatch (outgoing s1 cpu regs now') cpu t)"
proof -
  let ?s0 = "s\<lparr>resched := (resched s)(cpu := False)\<rparr>"
  have inv0: "sched_inv ?s0 F" using inv by simp
  have clear: "?s0\<lparr>cpu_current := (cpu_current ?s0)(cpu := None)\<rparr> = ?s0" if "cpu_current s cpu = None"
    using that by (simp add: fun_upd_idem)
  have live: "c < task_count s \<and> (tstate (tasks s c) = TASK_RUNNING \<or> blocked_state (tstate (tasks s c)))"
    if "cpu_current s cpu = Some c" for c using on_cpu_state [OF inv cpu that] by simp
  from inv0 cpu show ?thesis
  proof (cases rule: next_task_cases [where now = now])
    case idle
    then show ?thesis
      using cpu regs cnt live clear by (cases "cpu_current s cpu") (auto simp: schedule_on_cpu_def Let_def)
  next
    case (found t v q)
    let ?s1 = "?s0\<lparr>runqs := q\<rparr>"
    have run: "t < task_count s" "tstate (tasks s t) = TASK_READY" "rsp (tasks s t) \<noteq> 0"
      using sched_invD(4) [OF found(5), of t] by (auto simp: task_ok_def runnable_def)
    have push: "fst (runq_push (upd_task c (\<lambda>k. k\<lparr>rsp := regs, tstate := TASK_READY\<rparr>) ?s1) cpu c now')"
      if "cpu_current s cpu = Some c" "tstate (tasks s c) = TASK_RUNNING" for c
      using outgoing_inv(2) [OF found(5) cpu regs, of c now'] that by simp
    show ?thesis
    proof (cases "cpu_current s cpu")
      case None
      then show ?thesis
        using cpu regs cnt clear found(1) run by (simp add: schedule_on_cpu_def Let_def outgoing_def)
    next
      case (Some c)
      then show ?thesis
        using cpu regs cnt found(1) run live [OF Some] push [OF Some]
        by (auto simp: schedule_on_cpu_def Let_def outgoing_def split: prod.splits)
    qed
  qed
qed

lemma schedule_inv:
  assumes inv: "sched_inv s F" and cpu: "cpu < SMP_MAX_CPUS"
  shows "sched_inv (snd (schedule_on_cpu s cpu regs now now')) F"
proof (cases "regs = 0 \<or> task_count s = 0")
  case True
  then show ?thesis using inv cpu by (auto simp: schedule_on_cpu_def)
next
  case False
  then have regs: "regs \<noteq> 0" and cnt: "task_count s \<noteq> 0" by auto
  let ?s0 = "s\<lparr>resched := (resched s)(cpu := False)\<rparr>"
  have inv0: "sched_inv ?s0 F" using inv by simp
  from inv0 cpu show ?thesis
  proof (cases rule: next_task_cases [where now = now])
    case idle
    show ?thesis
    proof (cases "cpu_current s cpu")
      case None
      then show ?thesis unfolding schedule_eq [OF inv cpu regs cnt] using idle inv0 by (simp add: Let_def)
    next
      case (Some c)
      then show ?thesis unfolding schedule_eq [OF inv cpu regs cnt]
        using idle inv0 leave_inv(3) [OF inv0 cpu _ regs, of c] by (auto simp: Let_def)
    qed
  next
    case (found t v q)
    let ?s1 = "?s0\<lparr>runqs := q\<rparr>"
    have cc: "cpu_current (outgoing ?s1 cpu regs now') = cpu_current ?s1"
      by (auto simp: outgoing_def runq_push_def split: option.splits)
    have "sched_inv (snd (dispatch (outgoing ?s1 cpu regs now') cpu t)) (insert t F - {t})"
      by (rule dispatch_inv [OF _ cpu]) (use outgoing_inv(1) [OF found(5) cpu regs, of now'] cc in simp_all)
    with found(4) show ?thesis unfolding schedule_eq [OF inv cpu regs cnt] using found(1) by (simp add: Let_def)
  qed
qed

end
