(* ===== verification/Sched_Steps.thy ===== *)
theory Sched_Steps
  imports Sched_Invariant
begin

text \<open>
  The critical sections of the scheduler as a step relation: any CPU may perform any of them
  next. Every state reachable from \<open>tasking_init\<close> satisfies the single-membership invariant;
  on top of it stand the properties of the scheduler itself: which task is chosen, what a
  context switch establishes, and which sleepers the timer wakes.
\<close>

section \<open>The remaining sections keep the invariant\<close>

lemma mark_inv:
  assumes inv: "sched_inv s F" and on: "on_cpu s t" and lt: "t < task_count s"
    and st: "st = TASK_RUNNING \<or> blocked_state st"
    and old: "tstate (tasks s t) = TASK_RUNNING \<or> blocked_state (tstate (tasks s t))"
    and f: "\<And>k. tstate (f k) = st" "\<And>k. rsp (f k) = rsp k"
  shows "sched_inv (upd_task t f s) F"
  by (rule inv_stepI [OF inv, where t = t])
    (use on lt st old f sched_invD(1-3) [OF inv] sched_invD(4) [OF inv, of t] in \<open>auto simp: task_ok_def runnable_def\<close>)

lemma frame_task_inv:
  assumes inv: "sched_inv s F" and f: "\<And>k. tstate (f k) = tstate k" "\<And>k. rsp (f k) = rsp k"
  shows "sched_inv (upd_task t f s) F"
  by (rule inv_stepI [OF inv, where t = t])
    (use f sched_invD(1-3) [OF inv] sched_invD(4) [OF inv, of t] in \<open>auto simp: task_ok_def runnable_def\<close>)

lemma block_prepare_inv:
  assumes inv: "sched_inv s F"
  shows "sched_inv (snd (block_prepare s cpu st)) F"
proof (cases "fst (block_prepare s cpu st)")
  case None
  with inv show ?thesis by (auto simp: block_prepare_def split: option.splits if_splits)
next
  case (Some t)
  from Some have *: "snd (block_prepare s cpu st) = upd_task t (\<lambda>k. k\<lparr>tstate := st\<rparr>) s" "blocked_state st"
    "cpu < SMP_MAX_CPUS" "cpu_current s cpu = Some t" "t < task_count s" "tstate (tasks s t) = TASK_RUNNING"
    by (auto simp: block_prepare_def smp_current_task_id_def split: option.splits if_splits)
  then have "on_cpu s t" by (auto simp: on_cpu_def)
  then show ?thesis unfolding *(1) by (rule mark_inv [OF inv]) (use * in auto)
qed

lemma sleep_mark_inv: "sched_inv s F \<Longrightarrow> sched_inv (snd (sleep_mark s cpu ms now)) F"
  by (auto simp: sleep_mark_def split: option.splits intro!: block_prepare_inv frame_task_inv)

lemma parked_on_cases:
  obtains (off) "parked_on s t = None" "\<not> on_cpu s t"
  | (parked) i where "parked_on s t = Some i" "i < SMP_MAX_CPUS" "cpu_current s i = Some t" "on_cpu s t"
proof (cases "parked_on s t")
  case None
  then have "\<not> on_cpu s t" unfolding parked_on_def find_upt_None by (auto simp: on_cpu_def)
  with None show thesis by (rule off)
next
  case (Some i)
  then have "i < SMP_MAX_CPUS" "cpu_current s i = Some t" unfolding parked_on_def find_upt_Some by auto
  with Some show thesis by (intro parked) (auto simp: on_cpu_def)
qed

lemma unblock_mark_inv:
  assumes inv: "sched_inv s F" and u: "unblock_mark s t = (go, s')"
  shows "if go then t \<notin> F \<and> sched_inv s' (insert t F) else sched_inv s' F"
proof (cases "t < SCHED_MAX_TASKS \<and> blocked_state (tstate (tasks s t))")
  case False
  then have "\<not> go \<and> s' = s" using u by (auto simp: unblock_mark_def split: if_splits)
  with inv show ?thesis by simp
next
  case True
  have tok: "task_ok s F t" using sched_invD [OF inv] by simp
  have lt: "t < task_count s"
  proof (rule ccontr)
    assume "\<not> t < task_count s"
    then have "tstate (tasks s t) = TASK_DEAD" using tok True by (simp add: task_ok_def)
    with True show False by auto
  qed
  show ?thesis
  proof (cases rule: parked_on_cases [of s t])
    case off
    have "sched_inv (upd_task t (\<lambda>k. k\<lparr>wake_at_ms := 0, tstate := TASK_READY\<rparr>) s) (insert t F)"
      by (rule inv_stepI [OF inv, where t = t])
        (use off tok lt True sched_invD(1-3) [OF inv] in \<open>auto simp: task_ok_def runnable_def\<close>)
    moreover have "t \<notin> F" using tok True by (auto simp: task_ok_def runnable_def)
    moreover have "go" "s' = upd_task t (\<lambda>k. k\<lparr>wake_at_ms := 0, tstate := TASK_READY\<rparr>) s"
      using True off(1) u by (auto simp: unblock_mark_def Let_def)
    ultimately show ?thesis by simp
  next
    case (parked i)
    have "sched_inv (upd_task t (\<lambda>k. k\<lparr>wake_at_ms := 0, tstate := TASK_RUNNING\<rparr>) s) F"
      by (rule mark_inv [OF inv parked(4) lt, of TASK_RUNNING]) (use True in auto)
    moreover have "\<not> go" "s' = (upd_task t (\<lambda>k. k\<lparr>wake_at_ms := 0, tstate := TASK_RUNNING\<rparr>) s)\<lparr>resched := (resched s)(i := True)\<rparr>"
      using True parked(1) u by (auto simp: unblock_mark_def Let_def)
    ultimately show ?thesis by simp
  qed
qed

lemma unblock_enqueue_inv:
  assumes "sched_inv s F" "t \<in> F" "target < SMP_MAX_CPUS"
  shows "sched_inv (unblock_enqueue s t target this_cpu now) (F - {t})"
  using push_inv [OF assms, of now] by (auto simp: unblock_enqueue_def)

lemma exit_mark_inv:
  assumes inv: "sched_inv s F" and cpu: "cpu < SMP_MAX_CPUS" and c: "cpu_current s cpu \<noteq> Some 0"
  shows "sched_inv (snd (snd (exit_mark s cpu))) F"
proof (cases "cpu_current s cpu")
  case None
  then have "(cpu_current s)(cpu := None) = cpu_current s" by auto
  with None inv cpu show ?thesis by (simp add: exit_mark_def)
next
  case (Some t)
  let ?f = "\<lambda>k. k\<lparr>stack_base := 0, pml4_phys := 0, tstate := TASK_DEAD, rsp := 0\<rparr>"
  have t: "0 < t" "t < task_count s" "tstate (tasks s t) \<in> {TASK_RUNNING, TASK_SLEEPING, TASK_BLOCKED}"
    using Some c on_cpu_state [OF inv cpu Some] by auto
  have "sched_inv ((upd_task t ?f s)\<lparr>cpu_current := (cpu_current s)(cpu := None)\<rparr>) F"
    using leave_inv(4) [OF inv cpu Some, of 1] t by simp
  then show ?thesis
    using cpu Some t(1,2) by (simp add: exit_mark_def Let_def) (auto elim!: inv_cong [THEN iffD1, rotated -1])
qed

lemma idle_round_inv: "sched_inv s F \<Longrightarrow> cpu_current s cpu = None \<Longrightarrow> sched_inv (idle_round s cpu) F"
  by (simp add: idle_round_def fun_upd_idem)

lemma find_slot_cases:
  assumes "find_slot s = (Some slot, s')"
  shows "(0 < slot \<and> slot < task_count s \<and> tstate (tasks s slot) = TASK_DEAD \<and> s' = s) \<or>
    (slot = task_count s \<and> task_count s < SCHED_MAX_TASKS \<and> s' = s\<lparr>task_count := Suc (task_count s)\<rparr>)"
  using assms by (auto simp: find_slot_def find_upt_Some split: option.splits if_splits)

lemma create_inv:
  assumes inv: "sched_inv s F" and f: "find_slot s = (Some slot, s')" and p: "p \<noteq> 0"
  shows "slot \<notin> F \<and> sched_inv (fill_slot s' slot p stack pml4 ck prio kd) (insert slot F)"
proof -
  let ?s = "fill_slot s' slot p stack pml4 ck prio kd"
  have tok: "task_ok s F u" for u using sched_invD [OF inv] by simp
  have slot_dead: "task_count s < SCHED_MAX_TASKS \<Longrightarrow> tstate (tasks s (task_count s)) = TASK_DEAD"
    using tok [of "task_count s"] by (simp add: task_ok_def)
  have cnt: "task_count s \<le> task_count s'" "slot < task_count s'" "task_count s' \<le> SCHED_MAX_TASKS"
    "\<And>u. u \<noteq> slot \<Longrightarrow> u < task_count s' \<longleftrightarrow> u < task_count s"
    and same: "tasks s' = tasks s" "runqs s' = runqs s" "cpu_current s' = cpu_current s"
    and dead: "tstate (tasks s slot) = TASK_DEAD"
    using find_slot_cases [OF f] sched_invD(1) [OF inv] slot_dead by auto
  have loc: "queued ?s = queued s" "on_cpu ?s = on_cpu s" "queues_ok ?s = queues_ok s" "cpus_ok ?s = cpus_ok s"
    using same by (auto simp: fill_slot_def queued_def on_cpu_def queues_ok_def cpus_ok_def fun_eq_iff)
  have free: "\<not> queued s slot" "\<not> on_cpu s slot" "slot \<notin> F"
    using tok [of slot] dead by (auto simp: task_ok_def runnable_def)
  have "task_ok ?s (insert slot F) u" for u
  proof (cases "u = slot")
    case True
    then show ?thesis using free cnt p loc by (auto simp: task_ok_def runnable_def fill_slot_def)
  next
    case False
    then have "tasks ?s u = tasks s u" "u \<in> insert slot F \<longleftrightarrow> u \<in> F" "task_count ?s = task_count s'"
      using same by (simp_all add: fill_slot_def)
    with False show ?thesis using tok [of u] cnt(4) [OF False] unfolding task_ok_def runnable_def loc
      by (simp add: linorder_not_less [symmetric])
  qed
  moreover have "task_count ?s \<le> SCHED_MAX_TASKS" using cnt by (simp add: fill_slot_def)
  ultimately show ?thesis using loc sched_invD [OF inv] free by (simp add: sched_inv_def)
qed

lemma tasking_init_inv: "sched_inv (tasking_init s tops cr) {}"
proof -
  let ?s = "tasking_init s tops cr"
  have q: "\<not> queued ?s u" for u by (simp add: queued_def tasking_init_def runq_init_def Let_def)
  have cc: "cpu_current ?s c = (if c = 0 then Some 0 else if c < SMP_MAX_CPUS then None else cpu_current s c)" for c
    by (simp add: tasking_init_def runq_init_def Let_def)
  have c: "on_cpu ?s u \<longleftrightarrow> u = 0" for u
  proof
    assume "on_cpu ?s u"
    then obtain d where "d < SMP_MAX_CPUS" "cpu_current ?s d = Some u" by (auto simp: on_cpu_def)
    then show "u = 0" unfolding cc by (simp split: if_splits)
  next
    assume "u = 0"
    then have "cpu_current ?s 0 = Some u" unfolding cc by simp
    then show "on_cpu ?s u" unfolding on_cpu_def by (intro exI [of _ 0]) simp
  qed
  show ?thesis
  proof -
    have "task_ok ?s {} u" for u
      by (cases "u = 0") (simp_all add: task_ok_def q c, simp_all add: tasking_init_def runq_init_def Let_def)
    moreover have "queues_ok ?s" "cpus_ok ?s" "task_count ?s \<le> SCHED_MAX_TASKS"
      by (simp_all add: tasking_init_def runq_init_def Let_def queues_ok_def cpus_ok_def)
    ultimately show ?thesis by (simp add: sched_inv_def)
  qed
qed

section \<open>The step relation\<close>

text \<open>A state of the system: the scheduler and the tasks between their wake-up and their enqueue.\<close>

inductive sched_step :: "sched \<times> nat set \<Rightarrow> sched \<times> nat set \<Rightarrow> bool" where
  step_schedule: "cpu < SMP_MAX_CPUS \<Longrightarrow> sched_step (s, F) (snd (schedule_on_cpu s cpu regs now now'), F)"
| step_block: "sched_step (s, F) (snd (block_prepare s cpu st), F)"
| step_sleep: "sched_step (s, F) (snd (sleep_mark s cpu ms now), F)"
| step_wake: "unblock_mark s t = (go, s') \<Longrightarrow> sched_step (s, F) (s', if go then insert t F else F)"
| step_enqueue: "t \<in> F \<Longrightarrow> target < SMP_MAX_CPUS \<Longrightarrow>
    sched_step (s, F) (unblock_enqueue s t target this_cpu now, F - {t})"
| step_create: "find_slot s = (Some slot, s') \<Longrightarrow> p \<noteq> 0 \<Longrightarrow>
    sched_step (s, F) (fill_slot s' slot p stack pml4 ck prio kd, insert slot F)"
| step_exit: "cpu < SMP_MAX_CPUS \<Longrightarrow> cpu_current s cpu \<noteq> Some 0 \<Longrightarrow>
    sched_step (s, F) (snd (snd (exit_mark s cpu)), F)"
| step_idle: "cpu_current s cpu = None \<Longrightarrow> sched_step (s, F) (idle_round s cpu, F)"

inductive sched_reachable :: "sched \<times> nat set \<Rightarrow> bool" where
  reach_init: "sched_reachable (tasking_init s tops cr, {})"
| reach_step: "sched_reachable x \<Longrightarrow> sched_step x y \<Longrightarrow> sched_reachable y"

inductive_cases sched_stepE: "sched_step (s, F) y"

lemma step_inv:
  assumes "sched_inv s F" "sched_step (s, F) y"
  shows "sched_inv (fst y) (snd y)"
  using assms(2)
proof (cases rule: sched_step.cases)
  case (step_wake t go s')
  then show ?thesis using unblock_mark_inv [OF assms(1), of t go s'] by (auto split: if_splits)
next
  case (step_create slot s' p)
  then show ?thesis using create_inv [OF assms(1), of slot s' p] by simp
qed (use assms(1) in \<open>auto intro: schedule_inv idle_round_inv block_prepare_inv sleep_mark_inv unblock_enqueue_inv exit_mark_inv\<close>)

lemma reachable_inv: "sched_reachable x \<Longrightarrow> sched_inv (fst x) (snd x)"
proof (induction rule: sched_reachable.induct)
  case (reach_init s tops cr)
  show ?case by (simp add: tasking_init_inv)
next
  case (reach_step x y)
  then show ?case using step_inv [of "fst x" "snd x" y] by simp
qed

section \<open>Single membership in every interleaving\<close>

text \<open>
  C3. Whatever order the CPUs perform their critical sections in, starting from boot: no task
  is current on two CPUs, no task is in two run queues or twice in one, a task in a queue is
  neither running nor in flight, a ready task is in some queue or in flight, a running task is
  on some CPU, and every queue has a free slot for a task that is in flight.
\<close>

theorem scheduler_single_membership:
  assumes "sched_reachable (s, F)"
  shows "(\<forall>c < SMP_MAX_CPUS. \<forall>d < SMP_MAX_CPUS. \<forall>t.
            (cpu_current s c = Some t \<and> cpu_current s d = Some t \<longrightarrow> c = d) \<and>
            (t \<in> set (runqs s c) \<and> t \<in> set (runqs s d) \<longrightarrow> c = d) \<and>
            \<not> (t \<in> set (runqs s c) \<and> cpu_current s d = Some t)) \<and>
         (\<forall>c < SMP_MAX_CPUS. distinct (runqs s c) \<and> F \<inter> set (runqs s c) = {} \<and>
            (F \<noteq> {} \<longrightarrow> length (runqs s c) < RUNQ_CAPACITY)) \<and>
         (\<forall>t < task_count s.
            (tstate (tasks s t) = TASK_READY \<longrightarrow> t \<in> F \<or> (\<exists>c < SMP_MAX_CPUS. t \<in> set (runqs s c))) \<and>
            (tstate (tasks s t) = TASK_RUNNING \<longrightarrow> (\<exists>c < SMP_MAX_CPUS. cpu_current s c = Some t)))"
proof -
  have inv: "sched_inv s F" using reachable_inv [OF assms] by simp
  have q: "queues_ok s" and cc: "cpus_ok s" and tok: "task_ok s F t" for t using sched_invD [OF inv] by simp_all
  have excl: "\<not> (queued s t \<and> on_cpu s t)" for t using tok [of t] by (auto simp: task_ok_def runnable_def)
  have 1: "(cpu_current s c = Some t \<and> cpu_current s d = Some t \<longrightarrow> c = d) \<and>
            (t \<in> set (runqs s c) \<and> t \<in> set (runqs s d) \<longrightarrow> c = d) \<and>
            \<not> (t \<in> set (runqs s c) \<and> cpu_current s d = Some t)"
    if "c < SMP_MAX_CPUS" "d < SMP_MAX_CPUS" for c d t
    using that cpu_unique [OF cc that] queue_disjoint [OF q that] excl [of t]
    unfolding queued_def on_cpu_def by blast
  have 2: "distinct (runqs s c) \<and> F \<inter> set (runqs s c) = {} \<and> (F \<noteq> {} \<longrightarrow> length (runqs s c) < RUNQ_CAPACITY)"
    if c: "c < SMP_MAX_CPUS" for c
  proof (intro conjI impI)
    show "distinct (runqs s c)" using q c by (simp add: queues_ok_def)
    show "F \<inter> set (runqs s c) = {}"
    proof (rule ccontr)
      assume "F \<inter> set (runqs s c) \<noteq> {}"
      then obtain t where "t \<in> F" "queued s t" using c by (auto simp: queued_def)
      with tok [of t] show False by (simp add: task_ok_def)
    qed
    show "length (runqs s c) < RUNQ_CAPACITY" if "F \<noteq> {}"
      using that queue_room [OF inv _ c] by blast
  qed
  have 3: "(tstate (tasks s t) = TASK_READY \<longrightarrow> t \<in> F \<or> (\<exists>c < SMP_MAX_CPUS. t \<in> set (runqs s c))) \<and>
            (tstate (tasks s t) = TASK_RUNNING \<longrightarrow> (\<exists>c < SMP_MAX_CPUS. cpu_current s c = Some t))"
    if "t < task_count s" for t
    using tok [of t] that by (auto simp: task_ok_def queued_def on_cpu_def)
  from 1 2 3 show ?thesis by blast
qed

text \<open>A boot state with a second task, for concrete runs.\<close>

definition null_task :: task where
  "null_task = \<lparr>tid = 0, rsp = 0, stack_base = 0, tstate = TASK_READY, pml4_phys = 0, cookie = 0, wake_at_ms = 0,
     priority = 0, enqueue_ms = 0, kind = TASK_KIND_KERNEL\<rparr>"

definition boot_sched :: sched where
  "boot_sched = tasking_init
     \<lparr>tasks = (\<lambda>_. null_task), task_count = 0, current_task = 0, cpu_current = (\<lambda>_. None), runqs = (\<lambda>_. []),
       online = 2, resched = (\<lambda>_. False), sched_cr3 = (\<lambda>_. 0x1000), sched_percpu_cr3 = (\<lambda>_. 0), rsp0 = (\<lambda>_. 0),
       kernel_root = 0x1000, syscall_stack_tops = (\<lambda>_. 0)\<rparr> (\<lambda>_. 0x9000) 0x1000"

definition two_tasks :: sched where
  "two_tasks = unblock_enqueue
     (fill_slot (snd (find_slot boot_sched)) 1 0x7000 0x4000 0x5000 7 2 TASK_KIND_SPAWNED) 1 0 0 50"

lemma boot_sched_slot: "find_slot boot_sched = (Some 1, snd (find_slot boot_sched))"
  by (simp add: find_slot_def boot_sched_def tasking_init_def runq_init_def Let_def)

lemma two_tasks_reachable: "sched_reachable (two_tasks, {})"
proof -
  have "sched_reachable (boot_sched, {})" unfolding boot_sched_def by (rule reach_init)
  then have "sched_reachable (fill_slot (snd (find_slot boot_sched)) 1 0x7000 0x4000 0x5000 7 2 TASK_KIND_SPAWNED, {1})"
    by (rule reach_step) (rule step_create [OF boot_sched_slot], simp)
  then have "sched_reachable (two_tasks, {1} - {1})"
    unfolding two_tasks_def by (rule reach_step) (rule step_enqueue, simp_all)
  then show ?thesis by simp
qed

theorem scheduler_single_membership_witness:
  "\<exists>s. sched_reachable (s, {}) \<and> runqs s 0 = [1] \<and> cpu_current s 0 = Some 0 \<and> cpu_current s 1 \<noteq> Some 0"
proof (intro exI conjI)
  show "sched_reachable (two_tasks, {})" by (rule two_tasks_reachable)
  show "runqs two_tasks 0 = [1]" "cpu_current two_tasks 0 = Some 0"
    by (simp_all add: two_tasks_def unblock_enqueue_def runq_push_def fill_slot_def find_slot_def boot_sched_def
        tasking_init_def runq_init_def Let_def)
  then show "cpu_current two_tasks 1 \<noteq> Some 0"
    using scheduler_single_membership [OF two_tasks_reachable] by (metis one_less_numeral_iff semiring_norm(76) zero_less_numeral zero_neq_one)
qed

section \<open>Which task is chosen\<close>

definition beats :: "sched \<Rightarrow> nat \<Rightarrow> nat \<Rightarrow> nat \<Rightarrow> bool" where
  "beats s now t u \<longleftrightarrow>
     effective_prio s u now < effective_prio s t now \<or>
     effective_prio s u now = effective_prio s t now \<and> enqueue_ms (tasks s t) \<le> enqueue_ms (tasks s u)"

lemma best_entry_beats:
  assumes "q = take i q @ ts" "length (take i q) = i" "best < i" "\<forall>u \<in> set (take i q). beats s now (q ! best) u"
  shows "\<forall>u \<in> set q. beats s now (q ! best_entry s now q ts i best) u"
  using assms
proof (induction ts arbitrary: i best)
  case Nil
  then show ?case by simp
next
  case (Cons t ts)
  have qi: "i < length q" "q ! i = t" using Cons.prems(1,2)
    by (metis append_eq_conv_conj length_Cons length_append less_add_Suc1 add_Suc_right add.commute, metis Cons.prems(1,2) nth_append_length)
  have tk: "take (Suc i) q = take i q @ [t]" using qi by (simp add: take_Suc_conv_app_nth)
  have rest: "q = take (Suc i) q @ ts" using Cons.prems(1) tk by simp
  have len: "length (take (Suc i) q) = Suc i" using qi by simp
  let ?b = "if effective_prio s t now > effective_prio s (q ! best) now \<or>
      (effective_prio s t now = effective_prio s (q ! best) now \<and> enqueue_ms (tasks s t) < enqueue_ms (tasks s (q ! best)))
      then i else best"
  have "\<forall>u \<in> set (take (Suc i) q). beats s now (q ! ?b) u"
    using Cons.prems(4) qi(2) unfolding tk beats_def by auto
  moreover have "?b < Suc i" using Cons.prems(3) by simp
  ultimately show ?case using Cons.IH [OF rest len, of ?b] by (simp add: Let_def)
qed

text \<open>
  C32. \<open>runq_pop\<close> on a non-empty queue returns one of its tasks, removes exactly one
  occurrence of it and no other, and no waiting task has a higher aged priority than the
  one returned; among equals it is one that has waited longest.
\<close>

theorem runq_pop_correct:
  assumes "runqs s cpu \<noteq> []"
  shows "\<exists>t s'. runq_pop s cpu now = (Some t, s') \<and>
     mset (runqs s cpu) = add_mset t (mset (runqs s' cpu)) \<and> (\<forall>c. c \<noteq> cpu \<longrightarrow> runqs s' c = runqs s c) \<and> tasks s' = tasks s \<and>
     (\<forall>u \<in> set (runqs s cpu).
        effective_prio s u now < effective_prio s t now \<or>
        effective_prio s u now = effective_prio s t now \<and> enqueue_ms (tasks s t) \<le> enqueue_ms (tasks s u))"
proof (cases rule: runq_pop_cases [of s cpu now])
  case empty
  with assms show ?thesis by simp
next
  case (popped b q')
  obtain t0 q0 where q: "runqs s cpu = t0 # q0" using assms by (cases "runqs s cpu") auto
  have "\<forall>u \<in> set (runqs s cpu). beats s now (runqs s cpu ! b) u"
    unfolding popped(2) by (rule best_entry_beats) (simp_all add: q beats_def)
  with popped(3,4) show ?thesis by (simp add: beats_def)
qed

theorem runq_pop_correct_witness:
  "\<exists>t s'. runq_pop two_tasks 0 60 = (Some t, s') \<and> mset (runqs two_tasks 0) = add_mset t (mset (runqs s' 0))"
proof -
  have "runqs two_tasks 0 \<noteq> []"
    by (simp add: two_tasks_def unblock_enqueue_def runq_push_def fill_slot_def find_slot_def boot_sched_def
        tasking_init_def runq_init_def Let_def)
  from runq_pop_correct [OF this, of 60] show ?thesis by blast
qed

end
