(* ===== verification/Sched_Switch.thy ===== *)
theory Sched_Switch
  imports Sched_Steps
begin

text \<open>
  What one pass of the scheduler establishes in every reachable state, and what the timer's
  wake-up scan does to the sleeping tasks.
\<close>

section \<open>The context switch\<close>

lemma pop_None_iff: "fst (runq_pop s cpu now) = None \<longleftrightarrow> runqs s cpu = []"
  by (cases rule: runq_pop_cases [of s cpu now]) auto

lemma steal_scan_None: "steal_scan s self is v b = None \<longleftrightarrow> v = None \<and> (\<forall>i \<in> set is. i \<noteq> self \<longrightarrow> length (runqs s i) \<le> b)"
  by (induction "is" arbitrary: v b) auto

lemma steal_scan_Some: "steal_scan s self is v b = Some w \<Longrightarrow> v = Some w \<or> runqs s w \<noteq> []"
proof (induction "is" arbitrary: v b)
  case (Cons i "is")
  show ?case
  proof (cases "i \<noteq> self \<and> length (runqs s i) > b")
    case True
    then have "Some i = Some w \<or> runqs s w \<noteq> []" using Cons.IH [of "Some i"] Cons.prems by simp
    with True show ?thesis by auto
  next
    case False
    then show ?thesis using Cons.IH [of v b] Cons.prems by (auto split: if_splits)
  qed
qed simp

lemma next_task_None_iff:
  "fst (next_task s cpu now) = None \<longleftrightarrow> runqs s cpu = [] \<and> (\<forall>v < online_cpus s. v \<noteq> cpu \<longrightarrow> runqs s v = [])"
proof (cases "runqs s cpu = []")
  case True
  then have p: "runq_pop s cpu now = (None, s)" by (simp add: runq_pop_def)
  have "fst (steal_task s cpu now) = None \<longleftrightarrow> steal_scan s cpu [0..<online_cpus s] None 0 = None"
    using steal_scan_Some [of s cpu "[0..<online_cpus s]" None 0]
    by (auto simp: steal_task_def pop_None_iff split: option.splits)
  with p True show ?thesis by (auto simp: next_task_def steal_scan_None)
next
  case False
  then have "fst (runq_pop s cpu now) \<noteq> None" by (simp add: pop_None_iff)
  with False show ?thesis by (auto simp: next_task_def split: prod.splits)
qed

lemma dispatch_result:
  "fst (dispatch s cpu t) = rsp (tasks s t)"
  "cpu_current (snd (dispatch s cpu t)) = (cpu_current s)(cpu := Some t)"
  "runqs (snd (dispatch s cpu t)) = runqs s"
  "tasks (snd (dispatch s cpu t)) = (tasks s)(t := (tasks s t)\<lparr>tstate := TASK_RUNNING\<rparr>)"
  "rsp0 (snd (dispatch s cpu t)) cpu =
     (if stack_base (tasks s t) \<noteq> 0 then stack_base (tasks s t) + 16384 else task_syscall_stack_top s cpu)"
  by (simp_all add: dispatch_def Let_def task_syscall_stack_top_def)

lemma dispatch_cr3:
  assumes "sched_percpu_cr3 s cpu = sched_cr3 s cpu" and "root = (if pml4_phys (tasks s t) \<noteq> 0 then pml4_phys (tasks s t) else kernel_root s)"
    and "root \<noteq> 0"
  shows "sched_cr3 (snd (dispatch s cpu t)) cpu = root \<and> sched_percpu_cr3 (snd (dispatch s cpu t)) cpu = root"
  using assms by (auto simp: dispatch_def Let_def)

lemma outgoing_frame:
  "kernel_root (outgoing s cpu regs now') = kernel_root s" "sched_cr3 (outgoing s cpu regs now') = sched_cr3 s"
  "sched_percpu_cr3 (outgoing s cpu regs now') = sched_percpu_cr3 s"
  "syscall_stack_tops (outgoing s cpu regs now') = syscall_stack_tops s"
  "cpu_current (outgoing s cpu regs now') = cpu_current s"
  "cpu_current s cpu \<noteq> Some u \<Longrightarrow> tasks (outgoing s cpu regs now') u = tasks s u"
  by (auto simp: outgoing_def runq_push_def split: option.splits)

text \<open>
  C22. One pass of \<open>schedule_on_cpu\<close> in any reachable state. If no task waits on this CPU's
  queue nor on another online CPU's, the interrupted frame is resumed. Otherwise some waiting
  task is taken off its queue and runs: the pass returns its saved stack pointer, it is current
  on this CPU and in state \<open>RUNNING\<close>, its kernel stack is the entry stack, and CR3 is its own
  address space (the kernel's for a kernel task). The task that was running is ready again, in
  this CPU's queue, and will resume at the interrupted frame; a task that had blocked keeps its
  frame and is in no queue.
\<close>

theorem schedule_on_cpu_correct:
  assumes reach: "sched_reachable (s, F)" and cpu: "cpu < SMP_MAX_CPUS" and regs: "regs \<noteq> 0" and cnt: "task_count s \<noteq> 0"
    and cr3: "sched_percpu_cr3 s cpu = sched_cr3 s cpu" and kr: "kernel_root s \<noteq> 0"
    and call: "schedule_on_cpu s cpu regs now now' = (sp, s')"
  shows "if runqs s cpu = [] \<and> (\<forall>v < online_cpus s. v \<noteq> cpu \<longrightarrow> runqs s v = [])
     then sp = regs \<and> cpu_current s' = cpu_current s \<and> runqs s' = runqs s
     else \<exists>t v. v < SMP_MAX_CPUS \<and> t \<in> set (runqs s v) \<and> sp = rsp (tasks s t) \<and> sp \<noteq> 0 \<and>
       cpu_current s' cpu = Some t \<and> tstate (tasks s' t) = TASK_RUNNING \<and> (\<forall>c < SMP_MAX_CPUS. t \<notin> set (runqs s' c)) \<and>
       rsp0 s' cpu = (if stack_base (tasks s t) \<noteq> 0 then stack_base (tasks s t) + 16384 else syscall_stack_tops s cpu) \<and>
       sched_cr3 s' cpu = (if pml4_phys (tasks s t) \<noteq> 0 then pml4_phys (tasks s t) else kernel_root s) \<and>
       (\<forall>c. cpu_current s cpu = Some c \<longrightarrow> rsp (tasks s' c) = regs \<and>
          (if tstate (tasks s c) = TASK_RUNNING then tstate (tasks s' c) = TASK_READY \<and> c \<in> set (runqs s' cpu)
           else tstate (tasks s' c) = tstate (tasks s c) \<and> (\<forall>d < SMP_MAX_CPUS. c \<notin> set (runqs s' d))))"
proof -
  have inv: "sched_inv s F" using reachable_inv [OF reach] by simp
  have inv': "sched_inv s' F" using schedule_inv [OF inv cpu, of regs now now'] call by simp
  let ?s0 = "s\<lparr>resched := (resched s)(cpu := False)\<rparr>"
  have inv0: "sched_inv ?s0 F" using inv by simp
  have none: "fst (next_task ?s0 cpu now) = None \<longleftrightarrow> runqs s cpu = [] \<and> (\<forall>v < online_cpus s. v \<noteq> cpu \<longrightarrow> runqs s v = [])"
    by (simp add: next_task_None_iff online_cpus_def)
  from inv0 cpu show ?thesis
  proof (cases rule: next_task_cases [where now = now])
    case idle
    then have "sp = regs \<and> cpu_current s' = cpu_current s \<and> runqs s' = runqs s"
      using call unfolding schedule_eq [OF inv cpu regs cnt] by (auto simp: Let_def split: option.splits if_splits)
    with none idle show ?thesis by simp
  next
    case (found t v q)
    let ?o = "outgoing (?s0\<lparr>runqs := q\<rparr>) cpu regs now'"
    have d: "(sp, s') = dispatch ?o cpu t"
      using call found(1) unfolding schedule_eq [OF inv cpu regs cnt] by (simp add: Let_def)
    then have sp: "sp = fst (dispatch ?o cpu t)" and s': "s' = snd (dispatch ?o cpu t)"
      by (metis fst_conv, metis snd_conv)
    have qt: "queued s t" using found(2,3) by (auto simp: queued_def)
    have off: "\<not> on_cpu s t" and rt: "rsp (tasks s t) \<noteq> 0"
      using sched_invD(4) [OF inv, of t] qt by (auto simp: task_ok_def runnable_def)
    then have ne: "cpu_current s cpu \<noteq> Some t" using cpu by (auto simp: on_cpu_def)
    then have ot: "tasks ?o t = tasks s t" using outgoing_frame(6) [of "?s0\<lparr>runqs := q\<rparr>" cpu t regs now'] by simp
    have cur: "cpu_current s' cpu = Some t" "tstate (tasks s' t) = TASK_RUNNING"
      unfolding s' by (simp_all add: dispatch_result)
    have nq: "\<forall>c < SMP_MAX_CPUS. t \<notin> set (runqs s' c)"
      using sched_invD(4) [OF inv', of t] cur(2) by (auto simp: task_ok_def runnable_def queued_def)
    have r0: "rsp0 s' cpu = (if stack_base (tasks s t) \<noteq> 0 then stack_base (tasks s t) + 16384 else syscall_stack_tops s cpu)"
      unfolding s' using cpu by (simp add: dispatch_result(5) ot task_syscall_stack_top_def outgoing_frame)
    have c3: "sched_cr3 s' cpu = (if pml4_phys (tasks s t) \<noteq> 0 then pml4_phys (tasks s t) else kernel_root s)"
      using dispatch_cr3 [of ?o cpu _ t] cr3 kr unfolding s' by (simp add: outgoing_frame ot)
    have prev: "rsp (tasks s' c) = regs \<and>
        (if tstate (tasks s c) = TASK_RUNNING then tstate (tasks s' c) = TASK_READY \<and> c \<in> set (runqs s' cpu)
         else tstate (tasks s' c) = tstate (tasks s c) \<and> (\<forall>d < SMP_MAX_CPUS. c \<notin> set (runqs s' d)))"
      if c: "cpu_current s cpu = Some c" for c
    proof (cases "tstate (tasks s c) = TASK_RUNNING")
      case True
      have "fst (runq_push (upd_task c (\<lambda>k. k\<lparr>rsp := regs, tstate := TASK_READY\<rparr>) (?s0\<lparr>runqs := q\<rparr>)) cpu c now')"
        using outgoing_inv(2) [OF found(5) cpu regs, of c now'] c True by simp
      then show ?thesis
        using c True ne unfolding s' by (auto simp: dispatch_result outgoing_def runq_push_def split: if_splits)
    next
      case False
      then have st: "rsp (tasks s' c) = regs \<and> tstate (tasks s' c) = tstate (tasks s c)"
        using c ne unfolding s' by (auto simp: dispatch_result outgoing_def)
      moreover have "blocked_state (tstate (tasks s c))" using on_cpu_state(2) [OF inv cpu c] False by simp
      ultimately have "\<not> queued s' c" using sched_invD(4) [OF inv', of c] by (auto simp: task_ok_def runnable_def)
      with st False show ?thesis by (auto simp: queued_def)
    qed
    have busy: "\<not> (runqs s cpu = [] \<and> (\<forall>v < online_cpus s. v \<noteq> cpu \<longrightarrow> runqs s v = []))" using none found(1) by simp
    show ?thesis unfolding if_not_P [OF busy]
      by (intro exI [of _ t] exI [of _ v] conjI allI impI)
        (use found(2,3) sp rt cur nq r0 c3 prev in \<open>simp_all add: dispatch_result ot\<close>)
  qed
qed

theorem schedule_on_cpu_correct_witness:
  "\<exists>t v. t \<in> set (runqs two_tasks v) \<and> fst (schedule_on_cpu two_tasks 0 0x8000 60 60) = rsp (tasks two_tasks t)"
proof -
  let ?r = "schedule_on_cpu two_tasks 0 0x8000 60 60"
  have *: "task_count two_tasks = 2" "sched_percpu_cr3 two_tasks 0 = sched_cr3 two_tasks 0" "kernel_root two_tasks \<noteq> 0"
    "runqs two_tasks 0 = [1]"
    by (simp_all add: two_tasks_def unblock_enqueue_def runq_push_def fill_slot_def find_slot_def boot_sched_def
        tasking_init_def runq_init_def Let_def)
  have call: "?r = (fst ?r, snd ?r)" by simp
  have "\<exists>t v. v < SMP_MAX_CPUS \<and> t \<in> set (runqs two_tasks v) \<and> fst ?r = rsp (tasks two_tasks t)"
    using schedule_on_cpu_correct [OF two_tasks_reachable _ _ _ *(2,3) call] *(1,4) by auto
  then show ?thesis by blast
qed

section \<open>Waking sleepers\<close>

lemma pick_scan_in: "pick_scan s is b l \<in> insert b (set is)"
  by (induction "is" arbitrary: b l) (auto simp: Let_def split: if_splits)

lemma pick_target_less: "pick_target_cpu s < SMP_MAX_CPUS"
proof -
  have "pick_scan s [0..<online_cpus s] 0 None \<in> insert 0 {0..<online_cpus s}"
    using pick_scan_in [of s "[0..<online_cpus s]" 0 None] by simp
  then show ?thesis by (auto simp: pick_target_cpu_def online_cpus_def split: if_splits)
qed

text \<open>A blocked task that is still on its CPU resumes there; one that left it is made ready.\<close>

definition woken :: "sched \<Rightarrow> nat \<Rightarrow> task_state" where
  "woken s t = (if on_cpu s t then TASK_RUNNING else TASK_READY)"

lemma unblock_task_spec:
  assumes inv: "sched_inv s F" and t: "t < SCHED_MAX_TASKS" "blocked_state (tstate (tasks s t))"
    and s': "s' = unblock_task s t this_cpu now"
  shows "sched_inv s' F \<and> tstate (tasks s' t) = woken s t \<and> wake_at_ms (tasks s' t) = 0 \<and>
    (\<forall>u. u \<noteq> t \<longrightarrow> tasks s' u = tasks s u) \<and> cpu_current s' = cpu_current s"
proof -
  obtain go s1 where u: "unblock_mark s t = (go, s1)" by fastforce
  note step = unblock_mark_inv [OF inv u]
  have tF: "t \<notin> F" using sched_invD(4) [OF inv, of t] t by (auto simp: task_ok_def runnable_def)
  show ?thesis
  proof (cases rule: parked_on_cases [of s t])
    case off
    then have go: "go" "s1 = upd_task t (\<lambda>k. k\<lparr>wake_at_ms := 0, tstate := TASK_READY\<rparr>) s"
      using u t by (auto simp: unblock_mark_def Let_def)
    have "\<exists>s2. runq_push s1 (pick_target_cpu s1) t now = (True, s2) \<and> sched_inv s2 (insert t F - {t}) \<and>
        s2 = upd_task t (\<lambda>k. k\<lparr>enqueue_ms := now\<rparr>) s1\<lparr>runqs := (runqs s1)(pick_target_cpu s1 := runqs s1 (pick_target_cpu s1) @ [t])\<rparr>"
      by (rule push_inv) (use step go(1) pick_target_less in simp_all)
    then obtain s2 where "runq_push s1 (pick_target_cpu s1) t now = (True, s2)" "sched_inv s2 F"
        "s2 = upd_task t (\<lambda>k. k\<lparr>enqueue_ms := now\<rparr>) s1\<lparr>runqs := (runqs s1)(pick_target_cpu s1 := runqs s1 (pick_target_cpu s1) @ [t])\<rparr>"
      using tF by auto
    then show ?thesis using s' u off go
      by (auto simp: unblock_task_def unblock_enqueue_def woken_def)
  next
    case (parked i)
    then have "\<not> go" "s1 = (upd_task t (\<lambda>k. k\<lparr>wake_at_ms := 0, tstate := TASK_RUNNING\<rparr>) s)\<lparr>resched := (resched s)(i := True)\<rparr>"
      using u t by (auto simp: unblock_mark_def Let_def)
    then show ?thesis using s' u step parked by (auto simp: unblock_task_def woken_def)
  qed
qed

lemma wake_all:
  assumes "sched_inv s F" "distinct ts" "\<forall>t \<in> set ts. t < SCHED_MAX_TASKS \<and> blocked_state (tstate (tasks s t))"
  shows "let s' = foldl (\<lambda>s t. unblock_task s t this_cpu now) s ts
     in sched_inv s' F \<and> (\<forall>t \<in> set ts. tstate (tasks s' t) = woken s t \<and> wake_at_ms (tasks s' t) = 0) \<and>
        (\<forall>u. u \<notin> set ts \<longrightarrow> tasks s' u = tasks s u)"
  using assms
proof (induction ts arbitrary: s)
  case Nil
  then show ?case by simp
next
  case (Cons t ts)
  let ?s = "unblock_task s t this_cpu now"
  have u: "sched_inv ?s F" "tstate (tasks ?s t) = woken s t" "wake_at_ms (tasks ?s t) = 0"
    "\<And>u. u \<noteq> t \<Longrightarrow> tasks ?s u = tasks s u" "cpu_current ?s = cpu_current s"
    using unblock_task_spec [OF Cons.prems(1), of t ?s this_cpu now] Cons.prems(3) by auto
  have w: "woken ?s = woken s" using u(5) by (simp add: woken_def on_cpu_def fun_eq_iff)
  have ne: "v \<noteq> t" if "v \<in> set ts" for v using that Cons.prems(2) by auto
  have "distinct ts" "\<forall>v \<in> set ts. v < SCHED_MAX_TASKS \<and> blocked_state (tstate (tasks ?s v))"
    using Cons.prems(2,3) u(4) ne by auto
  from Cons.IH [OF u(1) this] show ?case using u(2-4) w Cons.prems(2) by (simp add: Let_def)
qed

text \<open>
  C33. The timer's scan at time \<open>now_ms\<close> wakes exactly the sleepers whose time has come: each
  of them is running again on the CPU it is parked on, or is ready in a run queue, with its
  wake time cleared, and no other task's state changes. In particular a task that sleeps is
  never lost.
\<close>

theorem sleepq_check_wakeups_correct:
  assumes reach: "sched_reachable (s, F)" and s': "s' = sleepq_check_wakeups s now_ms this_cpu now" and t: "t < task_count s"
  shows "if tstate (tasks s t) = TASK_SLEEPING \<and> wake_at_ms (tasks s t) \<noteq> 0 \<and> wake_at_ms (tasks s t) \<le> now_ms
     then wake_at_ms (tasks s' t) = 0 \<and>
       (tstate (tasks s' t) = TASK_RUNNING \<and> (\<exists>c < SMP_MAX_CPUS. cpu_current s' c = Some t) \<or>
        tstate (tasks s' t) = TASK_READY \<and> (\<exists>c < SMP_MAX_CPUS. t \<in> set (runqs s' c)))
     else tasks s' t = tasks s t"
proof -
  have inv: "sched_inv s F" using reachable_inv [OF reach] by simp
  have cnt: "t < SCHED_MAX_TASKS" using t sched_invD(1) [OF inv] by simp
  have due: "t \<in> set (due_sleepers s now_ms) \<longleftrightarrow>
      tstate (tasks s t) = TASK_SLEEPING \<and> wake_at_ms (tasks s t) \<noteq> 0 \<and> wake_at_ms (tasks s t) \<le> now_ms"
    using t cnt by (auto simp: due_sleepers_def)
  have "distinct (due_sleepers s now_ms)"
    "\<forall>t \<in> set (due_sleepers s now_ms). t < SCHED_MAX_TASKS \<and> blocked_state (tstate (tasks s t))"
    by (auto simp: due_sleepers_def)
  from wake_all [OF inv this, of this_cpu now] s'
  have all: "sched_inv s' F" "t \<in> set (due_sleepers s now_ms) \<Longrightarrow> tstate (tasks s' t) = woken s t \<and> wake_at_ms (tasks s' t) = 0"
    "t \<notin> set (due_sleepers s now_ms) \<Longrightarrow> tasks s' t = tasks s t"
    by (simp_all add: sleepq_check_wakeups_def Let_def)
  have tok: "task_ok s' F t" using sched_invD(4) [OF all(1)] .
  have lt: "t < task_count s'" if "tstate (tasks s' t) \<noteq> TASK_DEAD"
    using tok that cnt by (auto simp: task_ok_def)
  show ?thesis
  proof (cases "t \<in> set (due_sleepers s now_ms)")
    case True
    then have nF: "t \<notin> F" using due sched_invD(4) [OF inv, of t] by (auto simp: task_ok_def runnable_def)
    from True have w: "tstate (tasks s' t) = woken s t" "wake_at_ms (tasks s' t) = 0" using all(2) by auto
    then have "tstate (tasks s' t) = TASK_RUNNING \<and> on_cpu s' t \<or> tstate (tasks s' t) = TASK_READY \<and> queued s' t"
      using tok lt nF by (auto simp: woken_def task_ok_def split: if_splits)
    with True due w(2) show ?thesis by (auto simp: on_cpu_def queued_def)
  next
    case False
    with due all(3) show ?thesis by auto
  qed
qed

definition sleeping_boot :: sched where
  "sleeping_boot = snd (sleep_mark two_tasks 0 10 50)"

theorem sleepq_check_wakeups_correct_witness:
  "wake_at_ms (tasks sleeping_boot 0) = 60 \<and>
   wake_at_ms (tasks (sleepq_check_wakeups sleeping_boot 60 0 60) 0) = 0 \<and>
   tasks (sleepq_check_wakeups sleeping_boot 59 0 59) 0 = tasks sleeping_boot 0"
proof -
  have reach: "sched_reachable (sleeping_boot, {})"
    unfolding sleeping_boot_def by (rule reach_step [OF two_tasks_reachable]) (rule step_sleep)
  have *: "wake_at_ms (tasks sleeping_boot 0) = 60" "tstate (tasks sleeping_boot 0) = TASK_SLEEPING" "0 < task_count sleeping_boot"
    by (simp_all add: sleeping_boot_def sleep_mark_def block_prepare_def smp_current_task_id_def two_tasks_def
        unblock_enqueue_def runq_push_def fill_slot_def find_slot_def boot_sched_def tasking_init_def runq_init_def Let_def)
  show ?thesis
    using sleepq_check_wakeups_correct [OF reach refl *(3), of 60 0 60]
      sleepq_check_wakeups_correct [OF reach refl *(3), of 59 0 59] * by simp
qed

end
