(* ===== verification/Sync.thy ===== *)
theory Sync
  imports Sched_Switch
begin

text \<open>
  Wait queues (\<^verbatim>\<open>kernel/wait.c\<close>) and the mutex, semaphore and condition variable built on them
  (\<^verbatim>\<open>kernel/sync.c\<close>). A section under an object's queue lock is one atomic step. A call that
  parks ends its section at the park; the loop of the caller re-checks its condition in a later
  section, once the task runs again.
\<close>

section \<open>Wait queues\<close>

abbreviation WAIT_QUEUE_CAPACITY :: nat where "WAIT_QUEUE_CAPACITY \<equiv> 16"

text \<open>The live prefix \<open>waiters[0..count-1]\<close>, oldest first.\<close>

type_synonym wait_queue = "nat list"

definition wait_queue_init :: wait_queue where
  "wait_queue_init = []"

definition wait_enqueue :: "wait_queue \<Rightarrow> nat \<Rightarrow> wait_queue option" where
  "wait_enqueue wq t = (if length wq \<ge> WAIT_QUEUE_CAPACITY then None else Some (wq @ [t]))"

definition wait_dequeue :: "wait_queue \<Rightarrow> nat option \<times> wait_queue" where
  "wait_dequeue wq = (if wq = [] then (None, wq) else (Some (hd wq), tl wq))"

definition wait_remove :: "wait_queue \<Rightarrow> nat \<Rightarrow> bool \<times> wait_queue" where
  "wait_remove wq t = (if t \<in> set wq then (True, remove1 t wq) else (False, wq))"

text \<open>\<open>wait_block_locked\<close> up to the release of the queue lock: \<open>True\<close> when the task is enqueued
  and parks, \<open>False\<close> when the caller goes on at once.\<close>

definition wait_block_locked :: "sched \<Rightarrow> wait_queue \<Rightarrow> nat \<Rightarrow> nat \<Rightarrow> bool \<times> wait_queue \<times> sched" where
  "wait_block_locked s wq cpu now =
     (case block_prepare s cpu TASK_BLOCKED of
        (None, s1) \<Rightarrow> (False, wq, s1)
      | (Some self, s1) \<Rightarrow>
          (case wait_enqueue wq self of
             None \<Rightarrow> (False, wq, unblock_task s1 self cpu now)
           | Some wq' \<Rightarrow> (True, wq', s1)))"

definition wait_wake_one :: "sched \<Rightarrow> wait_queue \<Rightarrow> nat \<Rightarrow> nat \<Rightarrow> wait_queue \<times> sched" where
  "wait_wake_one s wq cpu now =
     (case wait_dequeue wq of
        (Some t, wq') \<Rightarrow> (wq', unblock_task s t cpu now)
      | (None, wq') \<Rightarrow> (wq', s))"

text \<open>The loop of \<open>wait_wake_all\<close> takes the head until the queue is empty.\<close>

fun wait_wake_all :: "sched \<Rightarrow> wait_queue \<Rightarrow> nat \<Rightarrow> nat \<Rightarrow> wait_queue \<times> sched" where
  "wait_wake_all s [] cpu now = ([], s)"
| "wait_wake_all s (t # wq) cpu now = wait_wake_all (unblock_task s t cpu now) wq cpu now"

definition wait_abort :: "sched \<Rightarrow> wait_queue \<Rightarrow> nat \<Rightarrow> nat \<Rightarrow> nat \<Rightarrow> wait_queue \<times> sched" where
  "wait_abort s wq t cpu now = (snd (wait_remove wq t), unblock_task s t cpu now)"

section \<open>Mutex\<close>

record mutex =
  mutex_wq :: wait_queue
  mutex_owner :: "nat option"
  mutex_locked :: bool

definition mutex_init :: mutex where
  "mutex_init = \<lparr>mutex_wq = wait_queue_init, mutex_owner = None, mutex_locked = False\<rparr>"

text \<open>One round of the loop of \<open>mutex_lock\<close>: take the mutex or block on it.\<close>

definition mutex_lock :: "sched \<Rightarrow> mutex \<Rightarrow> nat \<Rightarrow> nat \<Rightarrow> bool \<times> mutex \<times> sched" where
  "mutex_lock s m cpu now =
     (if mutex_locked m
      then let (_, wq', s') = wait_block_locked s (mutex_wq m) cpu now in (False, m\<lparr>mutex_wq := wq'\<rparr>, s')
      else (True, m\<lparr>mutex_locked := True, mutex_owner := smp_current_task_id s cpu\<rparr>, s))"

definition mutex_trylock :: "sched \<Rightarrow> mutex \<Rightarrow> nat \<Rightarrow> bool \<times> mutex" where
  "mutex_trylock s m cpu =
     (if \<not> mutex_locked m then (True, m\<lparr>mutex_locked := True, mutex_owner := smp_current_task_id s cpu\<rparr>)
      else (False, m))"

definition mutex_unlock :: "sched \<Rightarrow> mutex \<Rightarrow> nat \<Rightarrow> nat \<Rightarrow> mutex \<times> sched" where
  "mutex_unlock s m cpu now =
     (let (wq', s') = wait_wake_one s (mutex_wq m) cpu now
      in (m\<lparr>mutex_locked := False, mutex_owner := None, mutex_wq := wq'\<rparr>, s'))"

section \<open>Semaphore\<close>

text \<open>The counter is an \<open>int32_t\<close>: a 32-bit word read as a signed number.\<close>

record semaphore =
  sem_wq :: wait_queue
  sem_count :: "32 word"

definition semaphore_init :: "32 word \<Rightarrow> semaphore" where
  "semaphore_init initial = \<lparr>sem_wq = wait_queue_init, sem_count = initial\<rparr>"

definition semaphore_wait :: "sched \<Rightarrow> semaphore \<Rightarrow> nat \<Rightarrow> nat \<Rightarrow> bool \<times> semaphore \<times> sched" where
  "semaphore_wait s m cpu now =
     (if sint (sem_count m) \<le> 0
      then let (_, wq', s') = wait_block_locked s (sem_wq m) cpu now in (False, m\<lparr>sem_wq := wq'\<rparr>, s')
      else (True, m\<lparr>sem_count := sem_count m - 1\<rparr>, s))"

definition semaphore_trywait :: "sched \<Rightarrow> semaphore \<Rightarrow> nat \<Rightarrow> bool \<times> semaphore" where
  "semaphore_trywait s m cpu = (if sint (sem_count m) > 0 then (True, m\<lparr>sem_count := sem_count m - 1\<rparr>) else (False, m))"

definition semaphore_post :: "sched \<Rightarrow> semaphore \<Rightarrow> nat \<Rightarrow> nat \<Rightarrow> semaphore \<times> sched" where
  "semaphore_post s m cpu now =
     (let (wq', s') = wait_wake_one s (sem_wq m) cpu now
      in (m\<lparr>sem_count := sem_count m + 1, sem_wq := wq'\<rparr>, s'))"

section \<open>Condition variable\<close>

definition condvar_init :: wait_queue where
  "condvar_init = wait_queue_init"

text \<open>\<open>condvar_wait\<close> up to the park: the mutex is released and the task enqueued under the
  lock of the condition variable. After waking the caller runs \<open>mutex_lock\<close>.\<close>

definition condvar_wait :: "sched \<Rightarrow> wait_queue \<Rightarrow> mutex \<Rightarrow> nat \<Rightarrow> nat \<Rightarrow> wait_queue \<times> mutex \<times> sched" where
  "condvar_wait s c m cpu now =
     (let (m', s1) = mutex_unlock s m cpu now;
          (_, c', s2) = wait_block_locked s1 c cpu now
      in (c', m', s2))"

definition condvar_signal :: "sched \<Rightarrow> wait_queue \<Rightarrow> nat \<Rightarrow> nat \<Rightarrow> wait_queue \<times> sched" where
  "condvar_signal s c cpu now = wait_wake_one s c cpu now"

definition condvar_broadcast :: "sched \<Rightarrow> wait_queue \<Rightarrow> nat \<Rightarrow> nat \<Rightarrow> wait_queue \<times> sched" where
  "condvar_broadcast s c cpu now = wait_wake_all s c cpu now"

section \<open>Blocking and waking under a queue lock\<close>

definition is_blocked :: "sched \<Rightarrow> nat \<Rightarrow> bool" where
  "is_blocked s t \<longleftrightarrow> blocked_state (tstate (tasks s t))"

lemma is_blocked_cong: "tasks s' t = tasks s t \<Longrightarrow> is_blocked s' t = is_blocked s t"
  by (simp add: is_blocked_def)

lemma running_not_blocked: "tstate (tasks s t) = TASK_RUNNING \<Longrightarrow> \<not> is_blocked s t"
  by (simp add: is_blocked_def)

lemma block_prepare_current:
  assumes inv: "sched_inv s F" and cpu: "cpu < SMP_MAX_CPUS" and cur: "cpu_current s cpu = Some t" and run: "tstate (tasks s t) = TASK_RUNNING"
  shows "block_prepare s cpu TASK_BLOCKED = (Some t, upd_task t (\<lambda>k. k\<lparr>tstate := TASK_BLOCKED\<rparr>) s)"
  using on_cpu_state(1) [OF inv cpu cur] cpu cur run by (simp add: block_prepare_def smp_current_task_id_def)

lemma inv_task_less: "sched_inv s F \<Longrightarrow> cpu < SMP_MAX_CPUS \<Longrightarrow> cpu_current s cpu = Some t \<Longrightarrow> t < SCHED_MAX_TASKS"
  using on_cpu_state(1) sched_invD(1) by fastforce

lemma blocked_less: "sched_inv s F \<Longrightarrow> t < SCHED_MAX_TASKS \<Longrightarrow> is_blocked s t \<Longrightarrow> t < task_count s"
  using sched_invD(4) [of s F t] by (auto simp: task_ok_def is_blocked_def not_less [symmetric])

lemma unblock_task_frame:
  assumes inv: "sched_inv s F" and t: "t < SCHED_MAX_TASKS" "is_blocked s t"
  shows "sched_inv (unblock_task s t cpu now) F" "\<not> is_blocked (unblock_task s t cpu now) t"
    "u \<noteq> t \<Longrightarrow> tasks (unblock_task s t cpu now) u = tasks s u"
  using unblock_task_spec [OF inv t(1) t(2) [unfolded is_blocked_def] refl, of cpu now]
  by (auto simp: woken_def is_blocked_def split: if_splits)

text \<open>
  A queue of parked tasks: the waiters are pairwise different, blocked tasks. A running task
  that blocks on it always finds room.
\<close>

definition parked_queue :: "sched \<Rightarrow> wait_queue \<Rightarrow> bool" where
  "parked_queue s wq \<longleftrightarrow> distinct wq \<and> (\<forall>t \<in> set wq. t < SCHED_MAX_TASKS \<and> is_blocked s t)"

lemma wait_block_spec:
  assumes inv: "sched_inv s F" and cpu: "cpu < SMP_MAX_CPUS" and cur: "cpu_current s cpu = Some t" and run: "tstate (tasks s t) = TASK_RUNNING"
    and q: "parked_queue s wq"
  shows "\<exists>s'. wait_block_locked s wq cpu now = (True, wq @ [t], s') \<and> sched_inv s' F \<and> parked_queue s' (wq @ [t]) \<and>
     is_blocked s' t \<and> (\<forall>u. u \<noteq> t \<longrightarrow> tasks s' u = tasks s u)"
proof -
  let ?s = "upd_task t (\<lambda>k. k\<lparr>tstate := TASK_BLOCKED\<rparr>) s"
  have bp: "block_prepare s cpu TASK_BLOCKED = (Some t, ?s)" by (rule block_prepare_current [OF inv cpu cur run])
  have tl: "t < SCHED_MAX_TASKS" by (rule inv_task_less [OF inv cpu cur])
  have nt: "t \<notin> set wq" using q running_not_blocked [OF run] by (auto simp: parked_queue_def)
  have "set wq \<subseteq> {0..<SCHED_MAX_TASKS} - {t}" using q nt by (auto simp: parked_queue_def)
  then have "card (set wq) \<le> card ({0..<SCHED_MAX_TASKS} - {t})" by (intro card_mono) auto
  then have "length wq < WAIT_QUEUE_CAPACITY" using tl q by (simp add: parked_queue_def distinct_card)
  then have "wait_block_locked s wq cpu now = (True, wq @ [t], ?s)"
    by (simp add: wait_block_locked_def bp wait_enqueue_def)
  moreover have "sched_inv ?s F" using block_prepare_inv [OF inv, of cpu TASK_BLOCKED] bp by simp
  moreover have "parked_queue ?s (wq @ [t])" using q nt tl by (auto simp: parked_queue_def is_blocked_def)
  moreover have "is_blocked ?s t" by (simp add: is_blocked_def)
  ultimately show ?thesis by auto
qed

lemma parked_queue_tail:
  assumes inv: "sched_inv s F" and q: "parked_queue s (t # wq)"
  shows "t < SCHED_MAX_TASKS" "is_blocked s t" "t \<notin> set wq" "parked_queue (unblock_task s t cpu now) wq"
proof -
  show t: "t < SCHED_MAX_TASKS" "is_blocked s t" "t \<notin> set wq" using q by (auto simp: parked_queue_def)
  have "v \<noteq> t" if "v \<in> set wq" for v using that t(3) by auto
  then show "parked_queue (unblock_task s t cpu now) wq"
    using q is_blocked_cong [OF unblock_task_frame(3) [OF inv t(1,2)]] by (auto simp: parked_queue_def)
qed

lemma wait_wake_one_spec:
  assumes inv: "sched_inv s F" and q: "parked_queue s wq" and w: "wait_wake_one s wq cpu now = (wq', s')"
  shows "sched_inv s' F \<and> parked_queue s' wq' \<and>
     (if wq = [] then wq' = [] \<and> s' = s
      else wq = hd wq # wq' \<and> \<not> is_blocked s' (hd wq) \<and> (\<forall>u. u \<noteq> hd wq \<longrightarrow> tasks s' u = tasks s u))"
proof (cases wq)
  case Nil
  then show ?thesis using w inv q by (auto simp: wait_wake_one_def wait_dequeue_def)
next
  case (Cons t ts)
  then have s': "wq' = ts" "s' = unblock_task s t cpu now" using w by (auto simp: wait_wake_one_def wait_dequeue_def)
  note t = parked_queue_tail [OF inv q [unfolded Cons]]
  show ?thesis using unblock_task_frame [OF inv t(1,2), where cpu = cpu and now = now] t(4) Cons s' by simp
qed

lemma wait_wake_all_spec:
  assumes "sched_inv s F" "parked_queue s wq"
  shows "\<exists>s'. wait_wake_all s wq cpu now = ([], s') \<and> sched_inv s' F \<and> (\<forall>t \<in> set wq. \<not> is_blocked s' t) \<and>
     (\<forall>u. u \<notin> set wq \<longrightarrow> tasks s' u = tasks s u)"
  using assms
proof (induction wq arbitrary: s)
  case Nil
  then show ?case by simp
next
  case (Cons t wq)
  note t = parked_queue_tail [OF Cons.prems]
  note u = unblock_task_frame [OF Cons.prems(1) t(1,2), where cpu = cpu and now = now]
  from Cons.IH [OF u(1) t(4)] obtain s' where
    s': "wait_wake_all (unblock_task s t cpu now) wq cpu now = ([], s')" "sched_inv s' F" "\<forall>t \<in> set wq. \<not> is_blocked s' t"
      "\<forall>v. v \<notin> set wq \<longrightarrow> tasks s' v = tasks (unblock_task s t cpu now) v" by auto
  then show ?case using u(2,3) t(3) is_blocked_cong [of s' t] by simp
qed

end
