(* ===== verification/Monitor.thy ===== *)
theory Monitor
  imports Sync
begin

text \<open>
  Tasks that compete for a mutex or a semaphore, as a step relation: a section of the lock,
  the try-lock or the unlock operation by a running task, or any step of the scheduler. The
  locale \<open>monitor\<close> states what the two objects share and proves once that no wake-up is lost;
  it is interpreted for the mutex and for the semaphore. Mutual exclusion of the mutex is on top.
\<close>

section \<open>The step relation\<close>

datatype phase = Outside | Trying | Holding

type_synonym 'o mon = "sched \<times> nat set \<times> 'o \<times> (nat \<Rightarrow> phase)"

text \<open>The task that performs a section is current on its CPU and running.\<close>

definition runs_on :: "sched \<Rightarrow> nat \<Rightarrow> nat \<Rightarrow> bool" where
  "runs_on s cpu t \<longleftrightarrow> cpu < SMP_MAX_CPUS \<and> cpu_current s cpu = Some t \<and> tstate (tasks s t) = TASK_RUNNING"

text \<open>
  \<open>lock\<close> is one round of the locking loop, \<open>trylock\<close> the try operation and \<open>unlock\<close> the release.
  With \<open>anyone\<close> the release may also come from a task that does not hold the object
  (a semaphore); otherwise only the holder releases (a mutex). A scheduler step neither blocks
  nor wakes a task that is inside the locking loop: such a task is woken only through the queue.
\<close>

inductive mon_step ::
  "(sched \<Rightarrow> 'o \<Rightarrow> nat \<Rightarrow> nat \<Rightarrow> bool \<times> 'o \<times> sched) \<Rightarrow> (sched \<Rightarrow> 'o \<Rightarrow> nat \<Rightarrow> bool \<times> 'o) \<Rightarrow>
   (sched \<Rightarrow> 'o \<Rightarrow> nat \<Rightarrow> nat \<Rightarrow> 'o \<times> sched) \<Rightarrow> bool \<Rightarrow> 'o mon \<Rightarrow> 'o mon \<Rightarrow> bool"
  for lock trylock unlock anyone where
  mon_lock: "runs_on s cpu t \<Longrightarrow> ph t \<noteq> Holding \<Longrightarrow> lock s ob cpu now = (ok, ob', s') \<Longrightarrow>
    mon_step lock trylock unlock anyone (s, F, ob, ph) (s', F, ob', ph(t := if ok then Holding else Trying))"
| mon_trylock: "runs_on s cpu t \<Longrightarrow> ph t = Outside \<Longrightarrow> trylock s ob cpu = (ok, ob') \<Longrightarrow>
    mon_step lock trylock unlock anyone (s, F, ob, ph) (s, F, ob', if ok then ph(t := Holding) else ph)"
| mon_unlock: "runs_on s cpu t \<Longrightarrow> ph t = Holding \<Longrightarrow> unlock s ob cpu now = (ob', s') \<Longrightarrow>
    mon_step lock trylock unlock anyone (s, F, ob, ph) (s', F, ob', ph(t := Outside))"
| mon_post: "anyone \<Longrightarrow> runs_on s cpu t \<Longrightarrow> ph t = Outside \<Longrightarrow> unlock s ob cpu now = (ob', s') \<Longrightarrow>
    mon_step lock trylock unlock anyone (s, F, ob, ph) (s', F, ob', ph)"
| mon_sched: "sched_step (s, F) (s', F') \<Longrightarrow> (\<And>t. ph t = Trying \<Longrightarrow> is_blocked s' t = is_blocked s t) \<Longrightarrow>
    mon_step lock trylock unlock anyone (s, F, ob, ph) (s', F', ob, ph)"

inductive mon_reachable ::
  "(sched \<Rightarrow> 'o \<Rightarrow> nat \<Rightarrow> nat \<Rightarrow> bool \<times> 'o \<times> sched) \<Rightarrow> (sched \<Rightarrow> 'o \<Rightarrow> nat \<Rightarrow> bool \<times> 'o) \<Rightarrow>
   (sched \<Rightarrow> 'o \<Rightarrow> nat \<Rightarrow> nat \<Rightarrow> 'o \<times> sched) \<Rightarrow> bool \<Rightarrow> 'o \<Rightarrow> 'o mon \<Rightarrow> bool"
  for lock trylock unlock anyone ob0 where
  mon_start: "sched_reachable (s, F) \<Longrightarrow> mon_reachable lock trylock unlock anyone ob0 (s, F, ob0, \<lambda>_. Outside)"
| mon_next: "mon_reachable lock trylock unlock anyone ob0 x \<Longrightarrow> mon_step lock trylock unlock anyone x y \<Longrightarrow>
    mon_reachable lock trylock unlock anyone ob0 y"

text \<open>The tasks that were woken and have not yet re-checked the condition.\<close>

definition woken_set :: "wait_queue \<Rightarrow> (nat \<Rightarrow> phase) \<Rightarrow> nat set" where
  "woken_set wq ph = {t. ph t = Trying \<and> t \<notin> set wq}"

definition mon_inv :: "('o \<Rightarrow> wait_queue) \<Rightarrow> ('o \<Rightarrow> int) \<Rightarrow> 'o mon \<Rightarrow> bool" where
  "mon_inv wq avail x \<longleftrightarrow> (case x of (s, F, ob, ph) \<Rightarrow>
     sched_inv s F \<and> parked_queue s (wq ob) \<and>
     (\<forall>t. ph t = Trying \<longrightarrow> t < SCHED_MAX_TASKS \<and> (is_blocked s t \<longleftrightarrow> t \<in> set (wq ob))) \<and>
     (\<forall>t \<in> set (wq ob). ph t = Trying) \<and>
     (wq ob \<noteq> [] \<longrightarrow> avail ob \<le> int (card (woken_set (wq ob) ph))))"

section \<open>The shared contract\<close>

locale monitor =
  fixes wq :: "'o \<Rightarrow> wait_queue"
    and avail :: "'o \<Rightarrow> int"
    and lock :: "sched \<Rightarrow> 'o \<Rightarrow> nat \<Rightarrow> nat \<Rightarrow> bool \<times> 'o \<times> sched"
    and trylock :: "sched \<Rightarrow> 'o \<Rightarrow> nat \<Rightarrow> bool \<times> 'o"
    and unlock :: "sched \<Rightarrow> 'o \<Rightarrow> nat \<Rightarrow> nat \<Rightarrow> 'o \<times> sched"
    and anyone :: bool
  assumes lock_free: "avail ob > 0 \<Longrightarrow> lock s ob cpu now = (ok, ob', s') \<Longrightarrow>
      ok \<and> s' = s \<and> wq ob' = wq ob \<and> avail ob' = avail ob - 1"
    and lock_busy: "avail ob \<le> 0 \<Longrightarrow> lock s ob cpu now = (ok, ob', s') \<Longrightarrow>
      \<not> ok \<and> avail ob' = avail ob \<and> (\<exists>parked. wait_block_locked s (wq ob) cpu now = (parked, wq ob', s'))"
    and try_law: "trylock s ob cpu = (ok, ob') \<Longrightarrow> wq ob' = wq ob \<and> avail ob' = avail ob - (if ok then 1 else 0)"
    and unlock_law: "unlock s ob cpu now = (ob', s') \<Longrightarrow>
      wait_wake_one s (wq ob) cpu now = (wq ob', s') \<and> avail ob' \<le> avail ob + 1"
begin

lemma finite_woken:
  assumes "\<And>t. ph t = Trying \<Longrightarrow> t < SCHED_MAX_TASKS"
  shows "finite (woken_set q ph)"
  by (rule finite_subset [of _ "{0..<SCHED_MAX_TASKS}"]) (use assms in \<open>auto simp: woken_set_def\<close>)

lemma lock_keeps:
  assumes inv: "mon_inv wq avail (s, F, ob, ph)" and run: "runs_on s cpu t" and ph: "ph t \<noteq> Holding"
    and call: "lock s ob cpu now = (ok, ob', s')"
  shows "mon_inv wq avail (s', F, ob', ph(t := if ok then Holding else Trying))"
proof -
  have si: "sched_inv s F" and q: "parked_queue s (wq ob)" and tr: "\<And>u. ph u = Trying \<Longrightarrow> u < SCHED_MAX_TASKS"
    and r: "cpu < SMP_MAX_CPUS" "cpu_current s cpu = Some t" "tstate (tasks s t) = TASK_RUNNING"
    using inv run by (auto simp: mon_inv_def runs_on_def)
  have nq: "t \<notin> set (wq ob)" using q running_not_blocked [OF r(3)] by (auto simp: parked_queue_def)
  have tl: "t < SCHED_MAX_TASKS" by (rule inv_task_less [OF si r(1,2)])
  show ?thesis
  proof (cases "avail ob > 0")
    case True
    note l = lock_free [OF True call]
    have "woken_set (wq ob) ph - {t} \<subseteq> woken_set (wq ob) (ph(t := Holding))" by (auto simp: woken_set_def)
    then have "card (woken_set (wq ob) ph - {t}) \<le> card (woken_set (wq ob) (ph(t := Holding)))"
      by (intro card_mono finite_woken) (auto simp: tr split: if_splits)
    moreover have "card (woken_set (wq ob) ph) - 1 \<le> card (woken_set (wq ob) ph - {t})"
      by (simp add: card_Diff_singleton_if)
    ultimately show ?thesis using inv l nq by (auto simp: mon_inv_def)
  next
    case False
    then obtain parked where l: "\<not> ok" "avail ob' = avail ob" "wait_block_locked s (wq ob) cpu now = (parked, wq ob', s')"
      using lock_busy [OF _ call] by auto
    obtain s2 where b: "wait_block_locked s (wq ob) cpu now = (True, wq ob @ [t], s2)" "sched_inv s2 F" "parked_queue s2 (wq ob @ [t])"
      "is_blocked s2 t" "\<forall>u. u \<noteq> t \<longrightarrow> tasks s2 u = tasks s u"
      using wait_block_spec [OF si r q, of now] by auto
    have eq: "s' = s2" "wq ob' = wq ob @ [t]" using l(3) b(1) by auto
    have "avail ob' \<le> 0" using False l(2) by simp
    then have "avail ob' \<le> int (card (woken_set (wq ob') (ph(t := Trying))))" by simp
    moreover have "is_blocked s2 v \<longleftrightarrow> v \<in> set (wq ob)" if "ph v = Trying" "v \<noteq> t" for v
      using that inv b(5) is_blocked_cong [of s2 v s] by (auto simp: mon_inv_def)
    ultimately show ?thesis using inv l(1) b(2-4) tl eq by (auto simp: mon_inv_def)
  qed
qed

lemma trylock_keeps:
  assumes inv: "mon_inv wq avail (s, F, ob, ph)" and ph: "ph t = Outside" and call: "trylock s ob cpu = (ok, ob')" and nb: "\<not> is_blocked s t"
  shows "mon_inv wq avail (s, F, ob', if ok then ph(t := Holding) else ph)"
proof -
  have "t \<notin> set (wq ob)" using inv nb by (auto simp: mon_inv_def parked_queue_def)
  moreover have "woken_set (wq ob) (ph(t := Holding)) = woken_set (wq ob) ph" using ph by (auto simp: woken_set_def)
  ultimately show ?thesis using inv try_law [OF call] by (auto simp: mon_inv_def)
qed

lemma unlock_keeps:
  assumes inv: "mon_inv wq avail (s, F, ob, ph)" and call: "unlock s ob cpu now = (ob', s')" and ph: "ph t \<noteq> Trying"
  shows "mon_inv wq avail (s', F, ob', ph(t := Outside))"
proof -
  have si: "sched_inv s F" and q: "parked_queue s (wq ob)" and tr: "\<And>u. ph u = Trying \<Longrightarrow> u < SCHED_MAX_TASKS"
    using inv by (auto simp: mon_inv_def)
  note u = unlock_law [OF call]
  note w = wait_wake_one_spec [OF si q, OF conjunct1 [OF u]]
  show ?thesis
  proof (cases "wq ob")
    case Nil
    then show ?thesis using w inv ph by (auto simp: mon_inv_def)
  next
    case (Cons h ws)
    then have ob': "wq ob' = ws" and h: "\<not> is_blocked s' h" "\<And>u. u \<noteq> h \<Longrightarrow> tasks s' u = tasks s u" using w by auto
    have hp: "ph h = Trying" "h \<notin> set ws" using inv Cons q by (auto simp: mon_inv_def parked_queue_def)
    have "woken_set ws (ph(t := Outside)) = insert h (woken_set (wq ob) ph)"
      using hp ph Cons by (auto simp: woken_set_def)
    moreover have "finite (woken_set (wq ob) ph)" by (rule finite_woken) (rule tr)
    moreover have "h \<notin> woken_set (wq ob) ph" using Cons by (simp add: woken_set_def)
    ultimately have "card (woken_set ws (ph(t := Outside))) = Suc (card (woken_set (wq ob) ph))" by simp
    moreover have "avail ob \<le> int (card (woken_set (wq ob) ph))" using inv Cons by (auto simp: mon_inv_def)
    ultimately have "avail ob' \<le> int (card (woken_set (wq ob') (ph(t := Outside))))" using u ob' by simp
    moreover have "is_blocked s' v \<longleftrightarrow> v \<in> set ws" if "ph v = Trying" for v
      using inv that h hp(2) Cons is_blocked_cong [of s' v s] by (cases "v = h") (auto simp: mon_inv_def)
    ultimately show ?thesis using w inv hp ph tr Cons ob' by (auto simp: mon_inv_def)
  qed
qed

lemma step_keeps:
  assumes "mon_inv wq avail x" "mon_step lock trylock unlock anyone x y"
  shows "mon_inv wq avail y"
  using assms(2,1)
proof (cases rule: mon_step.cases)
  case (mon_lock s cpu t ph ob now ok ob' s' F)
  then show ?thesis using lock_keeps assms(1) by metis
next
  case (mon_trylock s cpu t ph ob ok ob' F)
  then show ?thesis using trylock_keeps assms(1) running_not_blocked by (metis runs_on_def)
next
  case (mon_unlock s cpu t ph ob now ob' s' F)
  then show ?thesis using unlock_keeps [of s F ob ph cpu now ob' s' t] assms(1) by simp
next
  case (mon_post s cpu t ph ob now ob' s' F)
  then have "mon_inv wq avail (s', F, ob', ph(t := Outside))" using unlock_keeps assms(1) by simp
  moreover have "ph(t := Outside) = ph" using mon_post by auto
  ultimately show ?thesis using mon_post by simp
next
  case (mon_sched s F s' F' ph ob)
  then have "sched_inv s' F'" using step_inv [of s F "(s', F')"] assms(1) by (simp add: mon_inv_def)
  then show ?thesis using mon_sched assms(1) by (auto simp: mon_inv_def parked_queue_def)
qed

lemma reach_keeps:
  assumes "mon_reachable lock trylock unlock anyone ob0 x" "wq ob0 = []"
  shows "mon_inv wq avail x"
  using assms(1)
proof (induction rule: mon_reachable.induct)
  case (mon_start s F)
  then show ?case using reachable_inv assms(2) by (fastforce simp: mon_inv_def parked_queue_def)
next
  case (mon_next x y)
  then show ?case using step_keeps by blast
qed

end

section \<open>The mutex and the semaphore\<close>

interpretation mtx: monitor mutex_wq "\<lambda>m. if mutex_locked m then 0 else 1" mutex_lock mutex_trylock mutex_unlock False
  by unfold_locales
    (auto simp: mutex_lock_def mutex_trylock_def mutex_unlock_def split: if_splits prod.splits)

lemma sint_inc: "sint (x + 1 :: 32 word) \<le> sint x + 1"
  using sint_greater_eq [of x] by (simp add: sint_word_ariths signed_take_bit_int_less_eq_self_iff)

lemma sint_dec: "0 < sint (x :: 32 word) \<Longrightarrow> sint (x - 1) = sint x - 1"
  using sint_less [of x] by (simp add: sint_word_ariths signed_take_bit_int_eq_self_iff)

interpretation sem: monitor sem_wq "\<lambda>m. sint (sem_count m)" semaphore_wait semaphore_trywait semaphore_post True
  by unfold_locales
    (auto simp: semaphore_wait_def semaphore_trywait_def semaphore_post_def sint_inc sint_dec split: if_splits prod.splits)

abbreviation mutex_reachable :: "mutex mon \<Rightarrow> bool" where
  "mutex_reachable \<equiv> mon_reachable mutex_lock mutex_trylock mutex_unlock False mutex_init"

abbreviation semaphore_reachable :: "32 word \<Rightarrow> semaphore mon \<Rightarrow> bool" where
  "semaphore_reachable initial \<equiv> mon_reachable semaphore_wait semaphore_trywait semaphore_post True (semaphore_init initial)"

text \<open>The holder of the mutex is its recorded owner.\<close>

definition owner_inv :: "mutex mon \<Rightarrow> bool" where
  "owner_inv x \<longleftrightarrow> (case x of (s, F, m, ph) \<Rightarrow>
     (\<forall>t. ph t = Holding \<longleftrightarrow> mutex_locked m \<and> mutex_owner m = Some t) \<and> (mutex_locked m \<longrightarrow> mutex_owner m \<noteq> None))"

lemma owner_step:
  assumes inv: "owner_inv x" and step: "mon_step mutex_lock mutex_trylock mutex_unlock False x y"
  shows "owner_inv y"
  using step inv
proof (cases rule: mon_step.cases)
  case (mon_lock s cpu t ph ob now ok ob' s' F)
  then have "smp_current_task_id s cpu = Some t" by (auto simp: runs_on_def smp_current_task_id_def)
  moreover have "ph u = Holding \<longleftrightarrow> mutex_locked ob \<and> mutex_owner ob = Some u" "mutex_locked ob \<Longrightarrow> mutex_owner ob \<noteq> None" for u
    using inv mon_lock(1) by (simp_all add: owner_inv_def)
  moreover have "if mutex_locked ob then \<not> ok \<and> mutex_locked ob' \<and> mutex_owner ob' = mutex_owner ob
      else ok \<and> mutex_locked ob' \<and> mutex_owner ob' = smp_current_task_id s cpu"
    using mon_lock(5) by (auto simp: mutex_lock_def split: prod.splits if_splits)
  ultimately show ?thesis using mon_lock(2,4) by (cases "mutex_locked ob") (simp_all add: owner_inv_def)
next
  case (mon_trylock s cpu t ph ob ok ob' F)
  then have "smp_current_task_id s cpu = Some t" by (auto simp: runs_on_def smp_current_task_id_def)
  then show ?thesis using mon_trylock inv by (auto simp: owner_inv_def mutex_trylock_def split: if_splits)
next
  case (mon_unlock s cpu t ph ob now ob' s' F)
  then show ?thesis using inv by (auto simp: owner_inv_def mutex_unlock_def split: prod.splits)
qed (use inv in \<open>auto simp: owner_inv_def\<close>)

lemma owner_reachable: "mutex_reachable x \<Longrightarrow> owner_inv x"
proof (induction rule: mon_reachable.induct)
  case (mon_start s F)
  then show ?case by (simp add: owner_inv_def mutex_init_def)
next
  case (mon_next x y)
  then show ?case using owner_step by blast
qed

text \<open>
  C4. The mutex in every interleaving of its clients with each other and with the scheduler:
  at most one task holds it, and exactly the recorded owner does when it is locked; a task
  that sleeps in \<open>mutex_lock\<close> is in the wait queue, so the next unlock can find it, and no
  queue slot is ever missing; and whenever the mutex is free although tasks sleep on it, some
  woken task is on its way to take it: a wake-up is never lost.
\<close>

theorem mutex_correct:
  assumes "mutex_reachable (s, F, m, ph)"
  shows "(\<forall>t u. ph t = Holding \<and> ph u = Holding \<longrightarrow> t = u) \<and>
     (\<forall>t. ph t = Holding \<longleftrightarrow> mutex_locked m \<and> mutex_owner m = Some t) \<and>
     (\<forall>t. ph t = Trying \<and> is_blocked s t \<longleftrightarrow> t \<in> set (mutex_wq m)) \<and>
     distinct (mutex_wq m) \<and> length (mutex_wq m) \<le> WAIT_QUEUE_CAPACITY \<and>
     (\<not> mutex_locked m \<and> mutex_wq m \<noteq> [] \<longrightarrow> (\<exists>t. ph t = Trying \<and> \<not> is_blocked s t))"
proof -
  have own: "owner_inv (s, F, m, ph)" by (rule owner_reachable [OF assms])
  have inv: "mon_inv mutex_wq (\<lambda>m. if mutex_locked m then 0 else 1) (s, F, m, ph)"
    by (rule mtx.reach_keeps [OF assms]) (simp add: mutex_init_def wait_queue_init_def)
  have "\<exists>t. ph t = Trying \<and> \<not> is_blocked s t" if "\<not> mutex_locked m" "mutex_wq m \<noteq> []"
  proof -
    have "woken_set (mutex_wq m) ph \<noteq> {}" using inv that by (auto simp: mon_inv_def)
    then show ?thesis using inv by (auto simp: mon_inv_def woken_set_def)
  qed
  moreover have "set (mutex_wq m) \<subseteq> {0..<SCHED_MAX_TASKS}" "distinct (mutex_wq m)"
    using inv by (auto simp: mon_inv_def parked_queue_def)
  then have "distinct (mutex_wq m) \<and> length (mutex_wq m) \<le> WAIT_QUEUE_CAPACITY"
    using card_mono [of "{0..<SCHED_MAX_TASKS}" "set (mutex_wq m)"] by (simp add: distinct_card)
  ultimately show ?thesis using own inv by (auto simp: owner_inv_def mon_inv_def parked_queue_def)
qed

text \<open>The boot thread takes the mutex.\<close>

definition held_mutex :: mutex where
  "held_mutex = fst (snd (mutex_lock two_tasks mutex_init 0 0))"

theorem mutex_correct_witness:
  "mutex_reachable (two_tasks, {}, held_mutex, (\<lambda>_. Outside)(0 := Holding)) \<and> mutex_owner held_mutex = Some 0"
proof -
  have run: "runs_on two_tasks 0 0"
    by (simp add: runs_on_def two_tasks_def unblock_enqueue_def runq_push_def fill_slot_def find_slot_def boot_sched_def
        tasking_init_def runq_init_def Let_def)
  have call: "mutex_lock two_tasks mutex_init 0 0 = (True, held_mutex, two_tasks)"
    by (simp add: held_mutex_def mutex_lock_def mutex_init_def)
  have "mutex_reachable (two_tasks, {}, held_mutex, (\<lambda>_. Outside)(0 := if True then Holding else Trying))"
    by (rule mon_next [OF mon_start [OF two_tasks_reachable]]) (rule mon_lock [where now = 0, OF run], simp, rule call)
  then have r: "mutex_reachable (two_tasks, {}, held_mutex, (\<lambda>_. Outside)(0 := Holding))" by simp
  from mutex_correct [OF r] have "mutex_owner held_mutex = Some 0" by (metis fun_upd_same)
  with r show ?thesis by simp
qed

text \<open>
  C30. The semaphore in every interleaving: as long as tasks sleep on it, at least as many
  woken tasks are on their way as units are available, so no unit is left unused while a task
  sleeps for want of a wake-up; every sleeping client is in the queue.
\<close>

theorem semaphore_correct:
  assumes "semaphore_reachable initial (s, F, m, ph)"
  shows "(\<forall>t. ph t = Trying \<and> is_blocked s t \<longleftrightarrow> t \<in> set (sem_wq m)) \<and>
     (sem_wq m \<noteq> [] \<longrightarrow> sint (sem_count m) \<le> int (card {t. ph t = Trying \<and> \<not> is_blocked s t}))"
proof -
  have inv: "mon_inv sem_wq (\<lambda>m. sint (sem_count m)) (s, F, m, ph)"
    by (rule sem.reach_keeps [OF assms]) (simp add: semaphore_init_def wait_queue_init_def)
  then have "woken_set (sem_wq m) ph = {t. ph t = Trying \<and> \<not> is_blocked s t}"
    by (auto simp: mon_inv_def woken_set_def)
  with inv show ?thesis by (auto simp: mon_inv_def parked_queue_def)
qed

definition blocked_sem :: "bool \<times> semaphore \<times> sched" where
  "blocked_sem = semaphore_wait two_tasks (semaphore_init 0) 0 0"

theorem semaphore_correct_witness:
  "\<exists>s m. blocked_sem = (False, m, s) \<and> sem_wq m = [0] \<and> is_blocked s 0 \<and>
     semaphore_reachable 0 (s, {}, m, (\<lambda>_. Outside)(0 := Trying))"
proof -
  have run: "runs_on two_tasks 0 0"
    by (simp add: runs_on_def two_tasks_def unblock_enqueue_def runq_push_def fill_slot_def find_slot_def boot_sched_def
        tasking_init_def runq_init_def Let_def)
  have inv: "sched_inv two_tasks {}" using reachable_inv [OF two_tasks_reachable] by simp
  obtain s where "wait_block_locked two_tasks [] 0 0 = (True, [0], s)"
    using wait_block_spec [OF inv, of 0 0 "[]" 0] run by (auto simp: runs_on_def parked_queue_def)
  then have call: "blocked_sem = (False, \<lparr>sem_wq = [0], sem_count = 0\<rparr>, s)"
    by (simp add: blocked_sem_def semaphore_wait_def semaphore_init_def wait_queue_init_def)
  have "semaphore_reachable 0 (s, {}, \<lparr>sem_wq = [0], sem_count = 0\<rparr>, (\<lambda>_. Outside)(0 := if False then Holding else Trying))"
    by (rule mon_next [OF mon_start [OF two_tasks_reachable]])
      (rule mon_lock [where now = 0, OF run], simp, rule call [unfolded blocked_sem_def])
  then have r: "semaphore_reachable 0 (s, {}, \<lparr>sem_wq = [0], sem_count = 0\<rparr>, (\<lambda>_. Outside)(0 := Trying))" by simp
  from semaphore_correct [OF r] have "is_blocked s 0" by (auto dest: spec [of _ 0])
  with call r show ?thesis by (intro exI [of _ s] exI [of _ "\<lparr>sem_wq = [0], sem_count = 0\<rparr>"]) simp
qed

text \<open>
  A broadcast on a condition variable returns after waking every waiter: the queue is
  empty, none of the waiters is blocked any more, and no other task is touched.
\<close>

theorem condvar_broadcast_correct:
  assumes "sched_reachable (s, F)" "parked_queue s c"
  shows "\<exists>s'. condvar_broadcast s c cpu now = ([], s') \<and>
     (\<forall>t \<in> set c. tstate (tasks s' t) \<noteq> TASK_SLEEPING \<and> tstate (tasks s' t) \<noteq> TASK_BLOCKED) \<and>
     (\<forall>u. u \<notin> set c \<longrightarrow> tasks s' u = tasks s u)"
  using wait_wake_all_spec [OF _ assms(2), of F cpu now] reachable_inv [OF assms(1)]
  by (auto simp: condvar_broadcast_def is_blocked_def)

theorem condvar_broadcast_correct_witness:
  "sched_reachable (sleeping_boot, {}) \<and> parked_queue sleeping_boot [0] \<and>
   (\<exists>s'. condvar_broadcast sleeping_boot [0] 0 70 = ([], s') \<and> tstate (tasks s' 0) \<noteq> TASK_SLEEPING)"
proof -
  have reach: "sched_reachable (sleeping_boot, {})"
    unfolding sleeping_boot_def by (rule reach_step [OF two_tasks_reachable]) (rule step_sleep)
  have q: "parked_queue sleeping_boot [0]"
    by (simp add: parked_queue_def is_blocked_def sleeping_boot_def sleep_mark_def block_prepare_def smp_current_task_id_def two_tasks_def
        unblock_enqueue_def runq_push_def fill_slot_def find_slot_def boot_sched_def tasking_init_def runq_init_def Let_def)
  from condvar_broadcast_correct [OF reach q, of 0 70] reach q show ?thesis by auto
qed

end
