(* ===== verification/Pmm.thy ===== *)
theory Pmm
  imports Kernel_Prelude
begin

text \<open>
  The physical memory manager, \<^verbatim>\<open>kernel/pmm.c\<close>: one bit per 4 KiB frame, a next-free hint,
  an \<open>O(1)\<close> counter of used frames. Every function of the file runs under \<open>pmm_lock\<close>
  (or before the other CPUs start) and is one atomic step of the model.
\<close>

section \<open>State and bitmap helpers\<close>

abbreviation PAGE_SIZE :: nat where
  "PAGE_SIZE \<equiv> 4096"

abbreviation LOW_ZONE_PAGES :: nat where
  "LOW_ZONE_PAGES \<equiv> 18432"

abbreviation PHYS_NULL :: u64 where
  "PHYS_NULL \<equiv> 0"

text \<open>
  The file-scope variables. Counters and page numbers are \<open>nat\<close>: a page number is at most
  \<open>2 ^ 64 div 4096\<close>, so no increment of the code can wrap. \<open>pmm_bitmap\<close> is \<open>None\<close> for
  the null pointer before initialisation.
\<close>

record pmm_state =
  pmm_bitmap :: "u8 list option"
  bitmap_bytes :: nat
  bitmap_pages :: nat
  real_total_ram :: nat
  total_pages :: nat
  used_pages :: nat
  next_free_hint :: nat

definition pmm_boot :: pmm_state where
  "pmm_boot = \<lparr>pmm_bitmap = None, bitmap_bytes = 0, bitmap_pages = 0, real_total_ram = 0,
     total_pages = 0, used_pages = 0, next_free_hint = 0\<rparr>"

definition bitmap_set :: "u8 list \<Rightarrow> nat \<Rightarrow> u8 list" where
  "bitmap_set bm b = bm[b div 8 := (bm ! (b div 8)) OR push_bit (b mod 8) 1]"

definition bitmap_clear_bit :: "u8 list \<Rightarrow> nat \<Rightarrow> u8 list" where
  "bitmap_clear_bit bm b = bm[b div 8 := (bm ! (b div 8)) AND NOT (push_bit (b mod 8) 1)]"

definition bitmap_test :: "u8 list \<Rightarrow> nat \<Rightarrow> bool" where
  "bitmap_test bm b = ((bm ! (b div 8)) AND push_bit (b mod 8) 1 \<noteq> 0)"

section \<open>Initialisation from the boot memory map\<close>

record limine_memmap_entry =
  e_base :: u64
  e_length :: u64
  e_type :: u64

definition LIMINE_MEMMAP_USABLE :: u64 where
  "LIMINE_MEMMAP_USABLE = 0"

definition entry_usable :: "limine_memmap_entry \<Rightarrow> bool" where
  "entry_usable e = (e_type e = LIMINE_MEMMAP_USABLE)"

text \<open>Phase 1: the highest end address of a usable region.\<close>

fun find_highest :: "limine_memmap_entry list \<Rightarrow> u64 \<Rightarrow> u64" where
  "find_highest [] h = h"
| "find_highest (e # es) h =
     (let end = e_base e + e_length e
      in find_highest es (if entry_usable e \<and> end > h then end else h))"

text \<open>A base that is not page aligned is rounded up, with 64-bit arithmetic.\<close>

definition page_align_up :: "u64 \<Rightarrow> u64" where
  "page_align_up a = (if a AND 4095 \<noteq> 0 then (a + 4095) AND NOT 4095 else a)"

text \<open>Phase 2: the first usable region above 72 MiB that holds the bitmap.\<close>

fun find_bitmap_home :: "limine_memmap_entry list \<Rightarrow> nat \<Rightarrow> u64 option" where
  "find_bitmap_home [] need = None"
| "find_bitmap_home (e # es) need =
     (if \<not> entry_usable e then find_bitmap_home es need
      else
        let base0 = page_align_up (e_base e);
            end = e_base e + e_length e;
            base = (if base0 < 0x4800000 then 0x4800000 else base0)
        in if base \<ge> end then find_bitmap_home es need
           else if unat (end - base) \<ge> need then Some base
           else find_bitmap_home es need)"

text \<open>
  Phase 3, step B: \<open>for (addr = start; addr < end; addr += PAGE_SIZE)\<close>. The loop variable
  is 64 bits wide: when \<open>end\<close> lies in the last page of the address space the variable
  wraps to 0 and the loop never ends, which is the result \<open>None\<close>.
\<close>

function free_range :: "u8 list \<Rightarrow> nat \<Rightarrow> nat \<Rightarrow> nat \<Rightarrow> u8 list" where
  "free_range bm pages addr end =
     (if addr < end
      then free_range (if addr div PAGE_SIZE < pages then bitmap_clear_bit bm (addr div PAGE_SIZE) else bm)
             pages (addr + PAGE_SIZE) end
      else bm)"
  by pat_completeness auto
termination
  by (relation "measure (\<lambda>(bm, pages, addr, end). end - addr)") auto

declare free_range.simps [simp del]

definition free_entry :: "nat \<Rightarrow> limine_memmap_entry \<Rightarrow> u8 list \<Rightarrow> u8 list option" where
  "free_entry pages e bm =
     (if \<not> entry_usable e then Some bm
      else
        let start = page_align_up (e_base e);
            end = e_base e + e_length e
        in if start < end \<and> end > 0xFFFFFFFFFFFFF000 then None
           else Some (free_range bm pages (unat start) (unat end)))"

fun free_usable :: "nat \<Rightarrow> limine_memmap_entry list \<Rightarrow> u8 list \<Rightarrow> u8 list option" where
  "free_usable pages [] bm = Some bm"
| "free_usable pages (e # es) bm =
     (case free_entry pages e bm of None \<Rightarrow> None | Some bm' \<Rightarrow> free_usable pages es bm')"

text \<open>Steps C and D: \<open>for (i = 0; i < n && from + i < pages; i++) bitmap_set(from + i)\<close>.\<close>

fun lock_pages :: "u8 list \<Rightarrow> nat \<Rightarrow> nat \<Rightarrow> nat \<Rightarrow> u8 list" where
  "lock_pages bm pages from 0 = bm"
| "lock_pages bm pages from (Suc n) =
     (if from < pages then lock_pages (bitmap_set bm from) pages (Suc from) n else bm)"

text \<open>Phase 4: count the used pages.\<close>

fun count_used :: "u8 list \<Rightarrow> nat \<Rightarrow> nat" where
  "count_used bm 0 = 0"
| "count_used bm (Suc n) = count_used bm n + (if bitmap_test bm n then 1 else 0)"

text \<open>
  \<open>pmm_init_dynamic\<close>: \<open>None\<close> when it does not return (the two halts for a memory map
  without usable memory, and the endless loop above).
\<close>

definition pmm_init_dynamic :: "limine_memmap_entry list \<Rightarrow> pmm_state option" where
  "pmm_init_dynamic entries =
     (let highest = find_highest entries 0
      in if highest = 0 then None
         else
           let pages_needed = unat highest div PAGE_SIZE;
               needed_bytes = (pages_needed + 7) div 8;
               alloc_bytes = (needed_bytes + PAGE_SIZE - 1) div PAGE_SIZE * PAGE_SIZE;
               alloc_pages = alloc_bytes div PAGE_SIZE
           in case find_bitmap_home entries alloc_bytes of
                None \<Rightarrow> None
              | Some bitmap_phys \<Rightarrow>
                  (case free_usable pages_needed entries (replicate alloc_bytes 0xFF) of
                     None \<Rightarrow> None
                   | Some bm1 \<Rightarrow>
                       let bm2 = lock_pages bm1 pages_needed 0 LOW_ZONE_PAGES;
                           bm3 = lock_pages bm2 pages_needed (unat bitmap_phys div PAGE_SIZE) alloc_pages;
                           total = unat highest div PAGE_SIZE;
                           total' = (if total > pages_needed then pages_needed else total)
                       in Some \<lparr>pmm_bitmap = Some bm3, bitmap_bytes = alloc_bytes,
                            bitmap_pages = pages_needed, real_total_ram = unat highest,
                            total_pages = total', used_pages = count_used bm3 total',
                            next_free_hint = LOW_ZONE_PAGES\<rparr>))"

section \<open>Allocation and release\<close>

function pmm_scan :: "u8 list \<Rightarrow> nat \<Rightarrow> nat \<Rightarrow> nat option" where
  "pmm_scan bm i mx =
     (if i < mx then if \<not> bitmap_test bm i then Some i else pmm_scan bm (Suc i) mx else None)"
  by pat_completeness auto
termination
  by (relation "measure (\<lambda>(bm, i, mx). mx - i)") auto

declare pmm_scan.simps [simp del]

definition pmm_take :: "pmm_state \<Rightarrow> u8 list \<Rightarrow> nat \<Rightarrow> u64 \<times> pmm_state" where
  "pmm_take s bm i =
     (of_nat (i * PAGE_SIZE),
      s\<lparr>pmm_bitmap := Some (bitmap_set bm i), used_pages := used_pages s + 1,
        next_free_hint := i + 1\<rparr>)"

definition pmm_alloc_page :: "pmm_state \<Rightarrow> u64 \<times> pmm_state" where
  "pmm_alloc_page s =
     (case pmm_bitmap s of
        None \<Rightarrow> (PHYS_NULL, s)
      | Some bm \<Rightarrow>
          (case pmm_scan bm (next_free_hint s) (total_pages s) of
             Some i \<Rightarrow> pmm_take s bm i
           | None \<Rightarrow>
               let wrap_end = (if next_free_hint s < total_pages s then next_free_hint s else total_pages s)
               in case pmm_scan bm 0 wrap_end of
                    Some i \<Rightarrow> pmm_take s bm i
                  | None \<Rightarrow> (PHYS_NULL, s)))"

text \<open>\<open>pmm_free_page\<close> reports a rejected address on the console and returns.\<close>

datatype pmm_warning = FreeNull | FreeUnaligned | FreeOutOfRange | FreeLowReserved | DoubleFree

definition pmm_free_page :: "pmm_state \<Rightarrow> u64 \<Rightarrow> pmm_warning option \<times> pmm_state" where
  "pmm_free_page s addr =
     (if addr = PHYS_NULL then (Some FreeNull, s)
      else if addr AND 4095 \<noteq> 0 then (Some FreeUnaligned, s)
      else
        let b = unat addr div PAGE_SIZE
        in case pmm_bitmap s of
             None \<Rightarrow> (Some FreeOutOfRange, s)
           | Some bm \<Rightarrow>
               if b \<ge> bitmap_pages s then (Some FreeOutOfRange, s)
               else if addr < 0x4800000 then (Some FreeLowReserved, s)
               else if \<not> bitmap_test bm b then (Some DoubleFree, s)
               else (None,
                     s\<lparr>pmm_bitmap := Some (bitmap_clear_bit bm b),
                       used_pages := (if used_pages s > 0 then used_pages s - 1 else used_pages s),
                       next_free_hint := (if b < next_free_hint s then b else next_free_hint s)\<rparr>))"

definition pmm_owns_page :: "pmm_state \<Rightarrow> u64 \<Rightarrow> bool" where
  "pmm_owns_page s addr =
     (if addr = PHYS_NULL \<or> addr AND 4095 \<noteq> 0 then False
      else case pmm_bitmap s of
             None \<Rightarrow> False
           | Some bm \<Rightarrow>
               if unat addr div PAGE_SIZE \<ge> bitmap_pages s then False
               else bitmap_test bm (unat addr div PAGE_SIZE))"

section \<open>Statistics\<close>

definition pmm_get_used_pages :: "pmm_state \<Rightarrow> nat" where
  "pmm_get_used_pages s = used_pages s"

definition pmm_get_total_pages :: "pmm_state \<Rightarrow> nat" where
  "pmm_get_total_pages s = total_pages s"

definition pmm_get_used_ram :: "pmm_state \<Rightarrow> nat" where
  "pmm_get_used_ram s = pmm_get_used_pages s * PAGE_SIZE"

definition pmm_get_total_ram :: "pmm_state \<Rightarrow> nat" where
  "pmm_get_total_ram s = real_total_ram s"

definition pmm_get_free_ram :: "pmm_state \<Rightarrow> nat" where
  "pmm_get_free_ram s =
     (let total = pmm_get_total_ram s; used = pmm_get_used_ram s
      in if total > used then total - used else 0)"

definition pmm_set_total_ram :: "pmm_state \<Rightarrow> nat \<Rightarrow> pmm_state" where
  "pmm_set_total_ram s sz =
     (let total = sz div PAGE_SIZE
      in s\<lparr>real_total_ram := sz,
           total_pages := (if total > bitmap_pages s then bitmap_pages s else total)\<rparr>)"

section \<open>Bitmap laws\<close>

lemma bitmap_test_bit: "bitmap_test bm b = bit (bm ! (b div 8)) (b mod 8)"
  by (simp add: bitmap_test_def push_bit_of_1 and_exp_eq_0_iff_not_bit)

lemma length_bitmap_set [simp]: "length (bitmap_set bm b) = length bm"
  by (simp add: bitmap_set_def)

lemma length_bitmap_clear_bit [simp]: "length (bitmap_clear_bit bm b) = length bm"
  by (simp add: bitmap_clear_bit_def)

lemma div_mod_8_eq: "(a::nat) div 8 = b div 8 \<Longrightarrow> a mod 8 = b mod 8 \<Longrightarrow> a = b"
  by (metis div_mult_mod_eq)

lemma bitmap_test_set:
  assumes "b < 8 * length bm"
  shows "bitmap_test (bitmap_set bm b) c = (c = b \<or> bitmap_test bm c)"
proof -
  have "b div 8 < length bm" using assms by auto
  moreover have "c mod 8 < 8" "b mod 8 < 8" by auto
  ultimately show ?thesis
    by (auto simp: bitmap_test_bit bitmap_set_def nth_list_update_if bit_simps
        dest: div_mod_8_eq)
qed

lemma bitmap_test_clear:
  assumes "b < 8 * length bm"
  shows "bitmap_test (bitmap_clear_bit bm b) c = (c \<noteq> b \<and> bitmap_test bm c)"
proof -
  have "b div 8 < length bm" using assms by auto
  moreover have "c mod 8 < 8" "b mod 8 < 8" by auto
  ultimately show ?thesis
    by (auto simp: bitmap_test_bit bitmap_clear_bit_def nth_list_update_if bit_simps
        dest: div_mod_8_eq)
qed

lemma pmm_scan_find: "pmm_scan bm i mx = find (\<lambda>j. \<not> bitmap_test bm j) [i..<mx]"
proof (induction bm i mx rule: pmm_scan.induct)
  case (1 bm i mx)
  then show ?case
    by (subst pmm_scan.simps) (simp add: upt_conv_Cons)
qed

lemma count_used_card: "count_used bm n = card {i. i < n \<and> bitmap_test bm i}"
proof (induction n)
  case (Suc n)
  have "{i. i < Suc n \<and> bitmap_test bm i} =
        (if bitmap_test bm n then insert n {i. i < n \<and> bitmap_test bm i}
         else {i. i < n \<and> bitmap_test bm i})"
    by (auto simp: less_Suc_eq)
  with Suc show ?case by simp
qed simp

section \<open>Invariant\<close>

definition pmm_inv :: "pmm_state \<Rightarrow> bool" where
  "pmm_inv s =
     (case pmm_bitmap s of
        None \<Rightarrow> False
      | Some bm \<Rightarrow>
          length bm = bitmap_bytes s \<and> bitmap_pages s \<le> 8 * length bm \<and>
          bitmap_pages s \<le> 2 ^ 52 \<and> total_pages s = bitmap_pages s \<and>
          used_pages s = card {i. i < total_pages s \<and> bitmap_test bm i} \<and>
          (\<forall>i < bitmap_pages s. i < LOW_ZONE_PAGES \<longrightarrow> bitmap_test bm i))"

text \<open>The frames the allocator considers in use, by page number.\<close>

definition used_set :: "pmm_state \<Rightarrow> nat set" where
  "used_set s = {i. i < bitmap_pages s \<and> bitmap_test (the (pmm_bitmap s)) i}"

lemma pmm_invE:
  assumes "pmm_inv s"
  obtains bm where "pmm_bitmap s = Some bm" "length bm = bitmap_bytes s"
    "bitmap_pages s \<le> 8 * length bm" "bitmap_pages s \<le> 2 ^ 52" "total_pages s = bitmap_pages s"
    "used_pages s = card {i. i < total_pages s \<and> bitmap_test bm i}"
    "\<And>i. i < bitmap_pages s \<Longrightarrow> i < LOW_ZONE_PAGES \<Longrightarrow> bitmap_test bm i"
  using assms by (auto simp: pmm_inv_def split: option.splits)

lemma used_pages_card: "pmm_inv s \<Longrightarrow> used_pages s = card (used_set s)"
  by (erule pmm_invE) (simp add: used_set_def)

lemma used_set_finite [simp]: "finite (used_set s)"
  by (simp add: used_set_def)

lemma page_addr:
  assumes "i < 2 ^ 52"
  shows "unat (of_nat (i * PAGE_SIZE) :: u64) = i * PAGE_SIZE"
  using assms by (intro unat_of_nat_small) simp

lemma pmm_owns_page_iff:
  assumes "pmm_inv s"
  shows "pmm_owns_page s a \<longleftrightarrow> a \<noteq> 0 \<and> PAGE_SIZE dvd unat a \<and> unat a div PAGE_SIZE \<in> used_set s"
  using assms by (elim pmm_invE) (auto simp: pmm_owns_page_def used_set_def page_aligned_iff)

lemma pmm_owns_frame_number:
  assumes "pmm_inv s" "i < 2 ^ 52"
  shows "pmm_owns_page s (of_nat (i * PAGE_SIZE)) \<longleftrightarrow> 0 < i \<and> i \<in> used_set s"
proof -
  have "unat (of_nat (i * PAGE_SIZE) :: u64) = i * PAGE_SIZE"
    by (rule page_addr) (rule assms)
  moreover from this have "(of_nat (i * PAGE_SIZE) :: u64) = 0 \<longleftrightarrow> i = 0"
    by (metis mult_eq_0_iff of_nat_0 unat_eq_zero zero_neq_numeral)
  ultimately show ?thesis
    using assms(1) by (simp add: pmm_owns_page_iff)
qed

lemma owned_frame_above_72MB:
  assumes "pmm_inv s" "i \<notin> used_set s" "i < bitmap_pages s"
  shows "LOW_ZONE_PAGES \<le> i"
proof (rule ccontr)
  assume "\<not> LOW_ZONE_PAGES \<le> i"
  with assms show False by (elim pmm_invE) (simp add: used_set_def)
qed

section \<open>Allocation\<close>

text \<open>What the two scans find: the first free page at or after the hint, else the first of all.\<close>

definition next_free :: "pmm_state \<Rightarrow> nat option" where
  "next_free s =
     (case find (\<lambda>i. i \<notin> used_set s) [next_free_hint s..<total_pages s] of
        Some i \<Rightarrow> Some i
      | None \<Rightarrow> find (\<lambda>i. i \<notin> used_set s) [0..<min (next_free_hint s) (total_pages s)])"

lemma scan_used_set:
  assumes "pmm_inv s" "pmm_bitmap s = Some bm" "mx \<le> total_pages s"
  shows "pmm_scan bm i mx = find (\<lambda>j. j \<notin> used_set s) [i..<mx]"
  unfolding pmm_scan_find
  by (rule find_cong) (use assms in \<open>auto simp: used_set_def pmm_inv_def\<close>)

lemma pmm_alloc_page_next_free:
  assumes "pmm_inv s" "pmm_bitmap s = Some bm"
  shows "pmm_alloc_page s =
           (case next_free s of Some i \<Rightarrow> pmm_take s bm i | None \<Rightarrow> (PHYS_NULL, s))"
proof -
  have "pmm_scan bm (next_free_hint s) (total_pages s) =
      find (\<lambda>j. j \<notin> used_set s) [next_free_hint s..<total_pages s]"
    by (rule scan_used_set [OF assms]) simp
  moreover have "pmm_scan bm 0 (if next_free_hint s < total_pages s then next_free_hint s else total_pages s)
      = find (\<lambda>j. j \<notin> used_set s) [0..<min (next_free_hint s) (total_pages s)]"
    by (cases "next_free_hint s < total_pages s") (simp_all add: scan_used_set [OF assms])
  ultimately show ?thesis
    by (simp add: pmm_alloc_page_def next_free_def assms(2) Let_def split: option.split split del: if_split)
qed

lemma next_free_Some:
  assumes "next_free s = Some i"
  shows "i \<notin> used_set s" "i < total_pages s"
  using assms by (auto simp: next_free_def find_upt_Some split: option.splits)

lemma next_free_None:
  "next_free s = None \<longleftrightarrow> (\<forall>i < total_pages s. i \<in> used_set s)"
proof
  assume "next_free s = None"
  then have "\<forall>i. next_free_hint s \<le> i \<and> i < total_pages s \<longrightarrow> i \<in> used_set s"
      "\<forall>i. i < min (next_free_hint s) (total_pages s) \<longrightarrow> i \<in> used_set s"
    by (auto simp: next_free_def find_upt_None split: option.splits)
  then show "\<forall>i < total_pages s. i \<in> used_set s"
    by (metis min_less_iff_conj not_le)
next
  assume "\<forall>i < total_pages s. i \<in> used_set s"
  then show "next_free s = None"
    by (auto simp: next_free_def find_upt_None split: option.splits dest: next_free_Some)
qed

lemma pmm_take_spec:
  assumes inv: "pmm_inv s" and bm: "pmm_bitmap s = Some bm"
    and i: "i \<notin> used_set s" "i < total_pages s"
    and s': "s' = snd (pmm_take s bm i)"
  shows "pmm_inv s'" "used_set s' = insert i (used_set s)" "used_pages s' = used_pages s + 1"
proof -
  from inv bm have b: "bitmap_pages s \<le> 8 * length bm" "total_pages s = bitmap_pages s"
    by (auto elim: pmm_invE)
  with i have t: "bitmap_test (bitmap_set bm i) j = (j = i \<or> bitmap_test bm j)" for j
    by (intro bitmap_test_set) simp
  show us: "used_set s' = insert i (used_set s)"
    using i b bm by (auto simp: s' pmm_take_def used_set_def t)
  show up: "used_pages s' = used_pages s + 1"
    by (simp add: s' pmm_take_def)
  have "used_pages s' = card (used_set s')"
    using i up us inv by (simp add: used_pages_card)
  with inv bm i show "pmm_inv s'"
    by (auto simp: pmm_inv_def s' pmm_take_def used_set_def t)
qed

lemma pmm_alloc_page_cases:
  assumes "pmm_inv s"
  obtains (oom) "pmm_alloc_page s = (PHYS_NULL, s)" "\<forall>i < total_pages s. i \<in> used_set s"
  | (frame) i s' where "pmm_alloc_page s = (of_nat (i * PAGE_SIZE), s')"
      "i \<notin> used_set s" "LOW_ZONE_PAGES \<le> i" "i < total_pages s" "i < 2 ^ 52"
      "pmm_inv s'" "used_set s' = insert i (used_set s)" "used_pages s' = used_pages s + 1"
      "bitmap_pages s' = bitmap_pages s" "total_pages s' = total_pages s"
proof -
  obtain bm where bm: "pmm_bitmap s = Some bm" and tp: "total_pages s = bitmap_pages s"
      "bitmap_pages s \<le> 2 ^ 52"
    using assms by (auto elim: pmm_invE)
  show ?thesis
  proof (cases "next_free s")
    case None
    with oom show ?thesis
      by (simp add: pmm_alloc_page_next_free [OF assms bm] next_free_None)
  next
    case (Some i)
    note i = next_free_Some [OF Some]
    have "LOW_ZONE_PAGES \<le> i"
      using owned_frame_above_72MB [OF assms i(1)] i(2) tp by simp
    with i tp pmm_take_spec [OF assms bm i refl] show ?thesis
      by (intro frame [of i "snd (pmm_take s bm i)"])
        (simp_all add: pmm_alloc_page_next_free [OF assms bm] Some pmm_take_def)
  qed
qed

section \<open>Release\<close>

lemma pmm_free_page_accept:
  assumes inv: "pmm_inv s" and own: "pmm_owns_page s a" and hi: "0x4800000 \<le> a"
    and s': "s' = snd (pmm_free_page s a)"
  shows "fst (pmm_free_page s a) = None" "pmm_inv s'"
    "used_set s' = used_set s - {unat a div PAGE_SIZE}" "used_pages s' + 1 = used_pages s"
    "bitmap_pages s' = bitmap_pages s"
proof -
  let ?b = "unat a div PAGE_SIZE"
  from inv obtain bm where bm: "pmm_bitmap s = Some bm"
    and b: "bitmap_pages s \<le> 8 * length bm" "total_pages s = bitmap_pages s"
    by (auto elim: pmm_invE)
  from own inv have o: "a \<noteq> 0" "a AND 4095 = 0" "?b \<in> used_set s"
    by (auto simp: pmm_owns_page_iff page_aligned_iff)
  then have ob: "?b < bitmap_pages s" "bitmap_test bm ?b"
    by (auto simp: used_set_def bm)
  from hi have "\<not> a < 0x4800000" by simp
  with o ob have eq: "pmm_free_page s a =
      (None, s\<lparr>pmm_bitmap := Some (bitmap_clear_bit bm ?b),
               used_pages := (if used_pages s > 0 then used_pages s - 1 else used_pages s),
               next_free_hint := (if ?b < next_free_hint s then ?b else next_free_hint s)\<rparr>)"
    by (simp add: pmm_free_page_def bm Let_def)
  then show "fst (pmm_free_page s a) = None" "bitmap_pages s' = bitmap_pages s"
    by (simp_all add: s')
  from ob b have t: "bitmap_test (bitmap_clear_bit bm ?b) j = (j \<noteq> ?b \<and> bitmap_test bm j)" for j
    by (intro bitmap_test_clear) simp
  show us: "used_set s' = used_set s - {?b}"
    by (auto simp: s' eq used_set_def t bm)
  have "0 < card (used_set s)"
    using o(3) by (auto simp: card_gt_0_iff)
  then show up: "used_pages s' + 1 = used_pages s"
    using inv by (simp add: s' eq used_pages_card)
  have "used_pages s' = card (used_set s')"
    using up us o(3) inv by (simp add: used_pages_card)
  moreover have "LOW_ZONE_PAGES \<le> ?b"
    using hi by (simp add: word_le_nat_alt)
  ultimately show "pmm_inv s'"
    using inv bm by (auto simp: pmm_inv_def s' eq used_set_def t)
qed

lemma pmm_free_page_reject:
  assumes "pmm_inv s" "\<not> (pmm_owns_page s a \<and> 0x4800000 \<le> a)"
  shows "snd (pmm_free_page s a) = s" "fst (pmm_free_page s a) \<noteq> None"
  using assms
  by (auto simp: pmm_free_page_def pmm_owns_page_def Let_def not_le split: option.splits if_splits elim: pmm_invE)

section \<open>The contract of a frame allocator\<close>

text \<open>
  What the page-table code and the user heap rely on: an allocated frame is non-null, page
  aligned, was owned by nobody and is owned afterwards; nothing else changes hands.
\<close>

locale frame_pool =
  fixes ok :: "'s \<Rightarrow> bool"
    and owns :: "'s \<Rightarrow> u64 \<Rightarrow> bool"
    and alloc :: "'s \<Rightarrow> u64 \<times> 's"
    and release :: "'s \<Rightarrow> u64 \<Rightarrow> 's"
    and releasable :: "u64 \<Rightarrow> bool"
  assumes alloc_ok: "ok s \<Longrightarrow> ok (snd (alloc s))"
    and alloc_fresh: "ok s \<Longrightarrow> fst (alloc s) \<noteq> 0 \<Longrightarrow> \<not> owns s (fst (alloc s))"
    and alloc_owns: "ok s \<Longrightarrow> fst (alloc s) \<noteq> 0 \<Longrightarrow>
          owns (snd (alloc s)) a \<longleftrightarrow> a = fst (alloc s) \<or> owns s a"
    and alloc_null: "ok s \<Longrightarrow> fst (alloc s) = 0 \<Longrightarrow> snd (alloc s) = s"
    and alloc_aligned: "ok s \<Longrightarrow> fst (alloc s) AND 4095 = 0"
    and alloc_releasable: "ok s \<Longrightarrow> fst (alloc s) \<noteq> 0 \<Longrightarrow> releasable (fst (alloc s))"
    and release_ok: "ok s \<Longrightarrow> ok (release s a)"
    and release_owns: "ok s \<Longrightarrow> owns s a \<Longrightarrow> releasable a \<Longrightarrow>
          owns (release s a) b \<longleftrightarrow> b \<noteq> a \<and> owns s b"
    and release_refused: "ok s \<Longrightarrow> \<not> (owns s a \<and> releasable a) \<Longrightarrow> release s a = s"
begin

lemma alloc_then_release:
  assumes "ok s" "fst (alloc s) \<noteq> 0"
  shows "owns (release (snd (alloc s)) (fst (alloc s))) b \<longleftrightarrow> owns s b"
proof -
  have "owns (snd (alloc s)) (fst (alloc s))"
    using assms by (simp add: alloc_owns)
  then have "owns (release (snd (alloc s)) (fst (alloc s))) b \<longleftrightarrow>
      b \<noteq> fst (alloc s) \<and> owns (snd (alloc s)) b"
    by (rule release_owns [OF alloc_ok [OF assms(1)] _ alloc_releasable [OF assms]])
  with assms show ?thesis by (auto simp: alloc_owns alloc_fresh)
qed

lemma release_twice: "ok s \<Longrightarrow> release (release s a) a = release s a"
  by (metis release_ok release_owns release_refused)

lemma alloc_owned_grows: "ok s \<Longrightarrow> owns s a \<Longrightarrow> owns (snd (alloc s)) a"
  by (cases "fst (alloc s) = 0") (simp_all add: alloc_null alloc_owns)

end

definition pmm_release :: "pmm_state \<Rightarrow> u64 \<Rightarrow> pmm_state" where
  "pmm_release s a = snd (pmm_free_page s a)"

interpretation pmm: frame_pool pmm_inv pmm_owns_page pmm_alloc_page pmm_release "\<lambda>a. 0x4800000 \<le> a"
proof (unfold_locales, goal_cases)
  case (1 s)
  from 1 show ?case by (cases rule: pmm_alloc_page_cases) (use 1 in simp_all)
next
  case (2 s)
  from 2(1) show ?case
  proof (cases rule: pmm_alloc_page_cases)
    case (frame i s')
    with pmm_owns_frame_number [OF 2(1) frame(5)] show ?thesis by simp
  qed (use 2(2) in simp)
next
  case (3 s a)
  from 3(1) show ?case
  proof (cases rule: pmm_alloc_page_cases)
    case (frame i s')
    have "unat a div PAGE_SIZE = i \<and> PAGE_SIZE dvd unat a \<longleftrightarrow> a = of_nat (i * PAGE_SIZE)"
      using page_addr [OF frame(5)] by (metis dvd_div_mult_self dvd_triv_right nonzero_mult_div_cancel_right
          word_unat_eq_iff zero_neq_numeral)
    moreover have "(of_nat (i * PAGE_SIZE) :: u64) \<noteq> 0"
      using 3(2) frame(1) by simp
    ultimately show ?thesis
      using 3(1) frame by (auto simp: pmm_owns_page_iff)
  qed (use 3(2) in simp)
next
  case (4 s)
  from 4(1) show ?case
  proof (cases rule: pmm_alloc_page_cases)
    case (frame i s')
    with page_addr [OF frame(5)] 4(2) show ?thesis by simp
  qed simp
next
  case (5 s)
  then show ?case
  proof (cases rule: pmm_alloc_page_cases)
    case (frame i s')
    with page_addr [OF frame(5)] show ?thesis by (simp only: page_aligned_iff fst_conv) simp
  qed simp
next
  case (6 s)
  from 6(1) show ?case
  proof (cases rule: pmm_alloc_page_cases)
    case (frame i s')
    with page_addr [OF frame(5)] show ?thesis
      by (simp only: fst_conv word_le_nat_alt) simp
  qed (use 6(2) in simp)
next
  case (7 s a)
  then show ?case
    by (cases "pmm_owns_page s a \<and> 0x4800000 \<le> a")
      (auto simp: pmm_release_def pmm_free_page_accept(2) pmm_free_page_reject(1))
next
  case (8 s a b)
  note acc = pmm_free_page_accept(2,3) [OF 8(1-3) refl]
  have same: "unat b div PAGE_SIZE = unat a div PAGE_SIZE \<longleftrightarrow> b = a" if "PAGE_SIZE dvd unat b"
  proof -
    have "PAGE_SIZE dvd unat a" using 8 by (simp add: pmm_owns_page_iff)
    with that show ?thesis by (metis dvd_div_mult_self word_unat_eq_iff)
  qed
  have "pmm_owns_page (pmm_release s a) b \<longleftrightarrow>
      b \<noteq> 0 \<and> PAGE_SIZE dvd unat b \<and> unat b div PAGE_SIZE \<in> used_set s - {unat a div PAGE_SIZE}"
    unfolding pmm_release_def pmm_owns_page_iff [OF acc(1)] acc(2) ..
  also have "\<dots> \<longleftrightarrow> b \<noteq> a \<and> pmm_owns_page s b"
    unfolding pmm_owns_page_iff [OF 8(1)] using same by blast
  finally show ?case .
next
  case (9 s a)
  then show ?case by (simp add: pmm_release_def pmm_free_page_reject(1))
qed

section \<open>Initialisation\<close>

text \<open>
  The boot loader's memory map, as the Limine protocol documents it: physical addresses
  are below \<open>2 ^ 52\<close>, so the end of a region does not wrap.
\<close>

definition memmap_ok :: "limine_memmap_entry list \<Rightarrow> bool" where
  "memmap_ok es = (\<forall>e \<in> set es. unat (e_base e) + unat (e_length e) \<le> 2 ^ 52)"

text \<open>Page \<open>i\<close> starts inside the usable region \<open>e\<close>, at or above its first page boundary.\<close>

definition covers :: "limine_memmap_entry \<Rightarrow> nat \<Rightarrow> bool" where
  "covers e i =
     (entry_usable e \<and> unat (page_align_up (e_base e)) \<le> i * PAGE_SIZE \<and>
      i * PAGE_SIZE < unat (e_base e + e_length e))"

definition bitmap_size :: "limine_memmap_entry list \<Rightarrow> nat" where
  "bitmap_size es =
     ((unat (find_highest es 0) div PAGE_SIZE + 7) div 8 + PAGE_SIZE - 1) div PAGE_SIZE * PAGE_SIZE"

lemma page_align_up_aligned: "PAGE_SIZE dvd unat (page_align_up a)"
proof -
  have "(x AND NOT 4095) AND 4095 = 0" for x :: u64
    by (simp only: and.assoc and.left_commute [of "NOT 4095"] and.commute [of "NOT 4095"] bit.conj_cancel_right)
      simp
  then have "page_align_up a AND 4095 = 0"
    by (auto simp only: page_align_up_def split: if_splits)
  then show ?thesis by (simp only: page_aligned_iff)
qed

lemma length_free_range [simp]: "length (free_range bm pages a e) = length bm"
  by (induction bm pages a e rule: free_range.induct) (subst free_range.simps, simp)

lemma bitmap_test_free_range:
  assumes "pages \<le> 8 * length bm" "PAGE_SIZE dvd a"
  shows "bitmap_test (free_range bm pages a e) j =
           (bitmap_test bm j \<and> \<not> (j < pages \<and> a \<le> j * PAGE_SIZE \<and> j * PAGE_SIZE < e))"
  using assms
proof (induction bm pages a e rule: free_range.induct)
  case (1 bm pages a e)
  show ?case
  proof (cases "a < e")
    case False
    then show ?thesis by (subst free_range.simps) auto
  next
    case True
    let ?bm = "if a div PAGE_SIZE < pages then bitmap_clear_bit bm (a div PAGE_SIZE) else bm"
    from "1.prems"(2) obtain k where k: "a = k * PAGE_SIZE" by (auto elim: dvdE)
    have t: "bitmap_test ?bm j = (bitmap_test bm j \<and> \<not> (j < pages \<and> j = k))"
      using "1.prems"(1) k by (auto simp: bitmap_test_clear)
    have "bitmap_test (free_range bm pages a e) j = bitmap_test (free_range ?bm pages (a + PAGE_SIZE) e) j"
      using True by (subst free_range.simps) simp
    also have "\<dots> = (bitmap_test ?bm j \<and> \<not> (j < pages \<and> a + PAGE_SIZE \<le> j * PAGE_SIZE \<and> j * PAGE_SIZE < e))"
      using "1.prems" by (intro "1.IH") (simp_all add: True)
    also have "\<dots> = (bitmap_test bm j \<and> \<not> (j < pages \<and> a \<le> j * PAGE_SIZE \<and> j * PAGE_SIZE < e))"
      using True k unfolding t by auto
    finally show ?thesis .
  qed
qed

lemma free_usable_spec:
  assumes "memmap_ok es" "pages \<le> 8 * length bm"
  shows "\<exists>bm'. free_usable pages es bm = Some bm' \<and> length bm' = length bm \<and>
           (\<forall>j. bitmap_test bm' j = (bitmap_test bm j \<and> \<not> (j < pages \<and> (\<exists>e \<in> set es. covers e j))))"
  using assms
proof (induction es arbitrary: bm)
  case (Cons e es)
  have le: "unat (e_base e) + unat (e_length e) \<le> 2 ^ 52"
    using Cons.prems(1) by (simp add: memmap_ok_def)
  then have "unat (e_base e + e_length e) \<le> 2 ^ 52"
    by (simp add: unat_word_ariths)
  then have nw: "\<not> e_base e + e_length e > 0xFFFFFFFFFFFFF000"
    by (simp add: word_less_nat_alt)
  obtain bm1 where b1: "free_entry pages e bm = Some bm1" "length bm1 = length bm"
      "\<forall>j. bitmap_test bm1 j = (bitmap_test bm j \<and> \<not> (j < pages \<and> covers e j))"
  proof (cases "entry_usable e")
    case True
    show thesis
    proof (rule that)
      show "free_entry pages e bm =
          Some (free_range bm pages (unat (page_align_up (e_base e))) (unat (e_base e + e_length e)))"
        using True nw by (simp add: free_entry_def Let_def)
    qed (use True bitmap_test_free_range [OF Cons.prems(2) page_align_up_aligned [of "e_base e"]]
          in \<open>simp_all add: covers_def\<close>)
  next
    case False
    with that [of bm] show thesis by (simp add: free_entry_def covers_def)
  qed
  obtain bm' where "free_usable pages es bm1 = Some bm'" "length bm' = length bm1"
      "\<forall>j. bitmap_test bm' j = (bitmap_test bm1 j \<and> \<not> (j < pages \<and> (\<exists>e \<in> set es. covers e j)))"
    using Cons.IH [of bm1] Cons.prems b1(2) by (auto simp: memmap_ok_def)
  with b1 show ?case by auto
qed simp

lemma lock_pages_spec:
  assumes "pages \<le> 8 * length bm"
  shows "length (lock_pages bm pages f n) = length bm \<and>
    (bitmap_test (lock_pages bm pages f n) j = (bitmap_test bm j \<or> (f \<le> j \<and> j < f + n \<and> j < pages)))"
  using assms
proof (induction n arbitrary: bm f)
  case (Suc n)
  show ?case
  proof (cases "f < pages")
    case True
    then have "bitmap_test (bitmap_set bm f) j = (j = f \<or> bitmap_test bm j)"
      using Suc.prems by (intro bitmap_test_set) simp
    with True Suc.IH [of "bitmap_set bm f" "Suc f"] Suc.prems show ?thesis by auto
  qed auto
qed auto

lemma pmm_init_dynamic_spec:
  assumes ok: "memmap_ok es" and hi: "find_highest es 0 \<noteq> 0"
    and home: "find_bitmap_home es (bitmap_size es) = Some home"
  shows "\<exists>s. pmm_init_dynamic es = Some s \<and> pmm_inv s \<and>
           bitmap_pages s = unat (find_highest es 0) div PAGE_SIZE \<and>
           (\<forall>i < bitmap_pages s. i \<notin> used_set s \<longleftrightarrow>
              (\<exists>e \<in> set es. covers e i) \<and> LOW_ZONE_PAGES \<le> i \<and>
              \<not> (unat home div PAGE_SIZE \<le> i \<and>
                 i < unat home div PAGE_SIZE + bitmap_size es div PAGE_SIZE))"
proof -
  let ?pages = "unat (find_highest es 0) div PAGE_SIZE"
  let ?n = "bitmap_size es"
  have pn: "?pages \<le> 8 * ?n"
    unfolding bitmap_size_def by simp
  have "?pages \<le> 2 ^ 52"
    using unat_lt64 [of "find_highest es 0"] by simp
  have ff: "bitmap_test (replicate ?n 0xFF) j" if "j < ?pages" for j
  proof -
    have "j div 8 < ?n" using that pn by simp
    moreover have "bit (0xFF :: u8) m" if "m < 8" for m
    proof -
      have "(0xFF :: u8) = mask 8" by (simp add: mask_eq_exp_minus_1)
      then show ?thesis using that by (simp only: bit_mask_iff) simp
    qed
    ultimately show ?thesis by (simp add: bitmap_test_bit)
  qed
  obtain bm1 where b1: "free_usable ?pages es (replicate ?n 0xFF) = Some bm1" "length bm1 = ?n"
      "\<forall>j < ?pages. bitmap_test bm1 j = (\<not> (\<exists>e \<in> set es. covers e j))"
    using free_usable_spec [OF ok, of ?pages "replicate ?n 0xFF"] pn ff by auto
  define bm2 where "bm2 = lock_pages bm1 ?pages 0 LOW_ZONE_PAGES"
  define bm3 where "bm3 = lock_pages bm2 ?pages (unat home div PAGE_SIZE) (?n div PAGE_SIZE)"
  have b2: "length bm2 = ?n" "bitmap_test bm2 j = (bitmap_test bm1 j \<or> (j < LOW_ZONE_PAGES \<and> j < ?pages))" for j
    using lock_pages_spec [of ?pages bm1 0 LOW_ZONE_PAGES j] b1(2) pn by (simp_all add: bm2_def)
  have b3: "length bm3 = ?n" "bitmap_test bm3 j = (bitmap_test bm2 j \<or> (unat home div PAGE_SIZE \<le> j \<and>
      j < unat home div PAGE_SIZE + ?n div PAGE_SIZE \<and> j < ?pages))" for j
    using lock_pages_spec [of ?pages bm2 "unat home div PAGE_SIZE" "?n div PAGE_SIZE" j] b2(1) pn
    by (simp_all add: bm3_def)
  define s where "s = \<lparr>pmm_bitmap = Some bm3, bitmap_bytes = ?n, bitmap_pages = ?pages,
    real_total_ram = unat (find_highest es 0), total_pages = ?pages,
    used_pages = count_used bm3 ?pages, next_free_hint = LOW_ZONE_PAGES\<rparr>"
  have "pmm_init_dynamic es = Some s"
    unfolding pmm_init_dynamic_def Let_def bitmap_size_def [symmetric]
    using hi home b1(1) by (simp add: s_def bm2_def bm3_def)
  moreover have "pmm_inv s"
    using pn \<open>?pages \<le> 2 ^ 52\<close> b3 b2 by (simp add: pmm_inv_def s_def count_used_card)
  moreover have "i \<notin> used_set s \<longleftrightarrow> (\<exists>e \<in> set es. covers e i) \<and> LOW_ZONE_PAGES \<le> i \<and>
      \<not> (unat home div PAGE_SIZE \<le> i \<and> i < unat home div PAGE_SIZE + ?n div PAGE_SIZE)"
    if "i < ?pages" for i
    using that b1(3) b2(2) b3(2) by (auto simp: used_set_def s_def)
  ultimately show ?thesis by (auto simp: s_def)
qed

section \<open>Sequences of calls\<close>

datatype pmm_op = PmmAlloc | PmmFree u64

fun pmm_exec :: "pmm_op \<Rightarrow> pmm_state \<Rightarrow> pmm_state" where
  "pmm_exec PmmAlloc s = snd (pmm_alloc_page s)"
| "pmm_exec (PmmFree a) s = pmm_release s a"

interpretation pmm_calls: machine pmm_exec "\<lambda>_ _. True" pmm_inv
proof
  fix s op
  assume "pmm_inv s"
  then show "pmm_inv (pmm_exec op s)"
    by (cases op) (simp_all add: pmm.alloc_ok pmm.release_ok)
qed

lemma pmm_all_admissible: "admissible pmm_exec (\<lambda>_ _. True) ops s"
  by (induction ops arbitrary: s) auto

text \<open>A 16 MiB machine above the 72 MiB line: the witness input.\<close>

definition small_memmap :: "limine_memmap_entry list" where
  "small_memmap = [\<lparr>e_base = 0x4800000, e_length = 0x1000000, e_type = 0\<rparr>]"

lemma small_memmap_facts:
  "memmap_ok small_memmap" "find_highest small_memmap 0 = 0x5800000"
  "bitmap_size small_memmap = 4096"
  "find_bitmap_home small_memmap (bitmap_size small_memmap) = Some 0x4800000"
proof -
  show *: "memmap_ok small_memmap" "find_highest small_memmap 0 = 0x5800000"
    by (simp_all add: small_memmap_def memmap_ok_def entry_usable_def LIMINE_MEMMAP_USABLE_def)
  then show **: "bitmap_size small_memmap = 4096"
    by (simp add: bitmap_size_def)
  have "page_align_up 0x4800000 = 0x4800000"
    by (simp add: page_align_up_def)
  with ** show "find_bitmap_home small_memmap (bitmap_size small_memmap) = Some 0x4800000"
    by (simp add: small_memmap_def entry_usable_def LIMINE_MEMMAP_USABLE_def)
qed

lemma small_pmm:
  obtains s where "pmm_init_dynamic small_memmap = Some s" "pmm_inv s"
    "bitmap_pages s = 22528" "\<And>i. 18433 \<le> i \<Longrightarrow> i < 22528 \<Longrightarrow> i \<notin> used_set s"
proof -
  have nz: "find_highest small_memmap 0 \<noteq> 0"
    by (simp add: small_memmap_facts)
  obtain s where s: "pmm_init_dynamic small_memmap = Some s" "pmm_inv s"
      "bitmap_pages s = unat (find_highest small_memmap 0) div PAGE_SIZE"
      "\<forall>i < bitmap_pages s. i \<notin> used_set s \<longleftrightarrow>
              (\<exists>e \<in> set small_memmap. covers e i) \<and> LOW_ZONE_PAGES \<le> i \<and>
              \<not> (unat (0x4800000 :: u64) div PAGE_SIZE \<le> i \<and>
                 i < unat (0x4800000 :: u64) div PAGE_SIZE + bitmap_size small_memmap div PAGE_SIZE)"
    using pmm_init_dynamic_spec [OF small_memmap_facts(1) nz small_memmap_facts(4)] by blast
  have bp: "bitmap_pages s = 22528"
    using s(3) by (simp add: small_memmap_facts)
  have "i \<notin> used_set s" if "18433 \<le> i" "i < 22528" for i
  proof -
    have "page_align_up 0x4800000 = 0x4800000"
      by (simp add: page_align_up_def)
    then have "\<exists>e \<in> set small_memmap. covers e i"
      using that by (simp add: small_memmap_def covers_def entry_usable_def LIMINE_MEMMAP_USABLE_def)
    with that s(4) bp show ?thesis by (simp add: small_memmap_facts)
  qed
  with s(1,2) bp that show ?thesis by blast
qed

lemma pmm_alloc_null_iff:
  assumes "pmm_inv s"
  shows "fst (pmm_alloc_page s) = PHYS_NULL \<longleftrightarrow> (\<forall>i < total_pages s. i \<in> used_set s)"
  using assms
proof (cases rule: pmm_alloc_page_cases)
  case (frame i t)
  then have "fst (pmm_alloc_page s) \<noteq> PHYS_NULL"
    using page_addr [OF frame(5)] by auto
  with frame(2,4) show ?thesis by blast
qed simp

lemma pmm_alloc_used_pages:
  assumes "pmm_inv s" "fst (pmm_alloc_page s) \<noteq> PHYS_NULL"
  shows "used_pages (snd (pmm_alloc_page s)) = used_pages s + 1"
  using assms(1) by (cases rule: pmm_alloc_page_cases) (use assms(2) in simp_all)

section \<open>Properties\<close>

text \<open>
  C25. \<open>pmm_alloc_page\<close> is correct: it fails exactly when every tracked frame is in use (the
  two scans together miss none) and then changes nothing; otherwise the frame it returns
  is page aligned, at or above 72 MiB, was in use by nobody, is in use afterwards, no other
  frame changes hands, the used counter grows by one and the invariant is kept.
\<close>

theorem pmm_alloc_page_correct:
  assumes "pmm_inv s" "pmm_alloc_page s = (a, s')"
  shows "(a = PHYS_NULL \<longleftrightarrow> (\<forall>i < total_pages s. i \<in> used_set s)) \<and>
    (a = PHYS_NULL \<longrightarrow> s' = s) \<and>
    (a \<noteq> PHYS_NULL \<longrightarrow>
       a AND 4095 = 0 \<and> 0x4800000 \<le> a \<and> \<not> pmm_owns_page s a \<and>
       (\<forall>b. pmm_owns_page s' b \<longleftrightarrow> b = a \<or> pmm_owns_page s b) \<and>
       pmm_get_used_pages s' = pmm_get_used_pages s + 1) \<and>
    pmm_inv s'"
  using pmm_alloc_null_iff [OF assms(1)] pmm_alloc_used_pages [OF assms(1)]
    pmm.alloc_null [OF assms(1)] pmm.alloc_aligned [OF assms(1)] pmm.alloc_releasable [OF assms(1)]
    pmm.alloc_fresh [OF assms(1)] pmm.alloc_owns [OF assms(1)] pmm.alloc_ok [OF assms(1)]
  by (auto simp: assms(2) pmm_get_used_pages_def)

theorem pmm_alloc_page_correct_witness:
  "\<exists>s a s'. pmm_init_dynamic small_memmap = Some s \<and> pmm_alloc_page s = (a, s') \<and>
     a \<noteq> PHYS_NULL \<and> \<not> pmm_owns_page s a \<and> pmm_owns_page s' a \<and> pmm_inv s'"
proof -
  obtain s where s: "pmm_init_dynamic small_memmap = Some s" "pmm_inv s" "bitmap_pages s = 22528"
      "\<And>i. 18433 \<le> i \<Longrightarrow> i < 22528 \<Longrightarrow> i \<notin> used_set s"
    by (rule small_pmm) blast
  obtain a s' where as': "pmm_alloc_page s = (a, s')" by fastforce
  have "total_pages s = 22528" using s(2,3) by (auto elim: pmm_invE)
  then have "\<not> (\<forall>i < total_pages s. i \<in> used_set s)"
    using s(4) [of 18433] by (auto intro!: exI [of _ 18433])
  with pmm_alloc_page_correct [OF s(2) as'] have "a \<noteq> PHYS_NULL \<and> \<not> pmm_owns_page s a \<and> pmm_owns_page s' a \<and> pmm_inv s'"
    by simp
  with s(1) as' show ?thesis by blast
qed

text \<open>
  \<open>pmm_free_page\<close> on every branch: it accepts exactly the frames the allocator handed
  out above 72 MiB (aligned, in range, marked used); an accepted frame is released, nothing
  else changes hands and the counter drops by one; every other address (null, unaligned,
  out of range, low zone, double free) is reported and leaves the state unchanged.
\<close>

theorem pmm_free_page_correct:
  assumes "pmm_inv s" "pmm_free_page s a = (w, s')"
  shows "(w = None \<longleftrightarrow> pmm_owns_page s a \<and> 0x4800000 \<le> a) \<and>
    (w = None \<longrightarrow>
       (\<forall>b. pmm_owns_page s' b \<longleftrightarrow> b \<noteq> a \<and> pmm_owns_page s b) \<and>
       pmm_get_used_pages s' + 1 = pmm_get_used_pages s) \<and>
    (w \<noteq> None \<longrightarrow> s' = s) \<and> pmm_inv s'"
proof (cases "pmm_owns_page s a \<and> 0x4800000 \<le> a")
  case True
  with pmm_free_page_accept [OF assms(1) _ _ refl, of a] pmm.release_owns [OF assms(1), of a] assms(2)
  show ?thesis by (auto simp: pmm_release_def pmm_get_used_pages_def)
next
  case False
  with pmm_free_page_reject [OF assms(1) False] assms show ?thesis by auto
qed

theorem pmm_free_page_correct_witness:
  "\<exists>s. pmm_init_dynamic small_memmap = Some s \<and> snd (pmm_free_page s 0x5000000) = s \<and>
     fst (pmm_free_page s 0x5000000) \<noteq> None \<and> pmm_inv (snd (pmm_free_page s 0x5000000))"
proof -
  obtain s where s: "pmm_init_dynamic small_memmap = Some s" "pmm_inv s" "bitmap_pages s = 22528"
      "\<And>i. 18433 \<le> i \<Longrightarrow> i < 22528 \<Longrightarrow> i \<notin> used_set s"
    by (rule small_pmm) blast
  have "\<not> pmm_owns_page s 0x5000000"
    using s(4) [of 20480] by (simp add: pmm_owns_page_iff [OF s(2)])
  with pmm_free_page_correct [OF s(2) prod.collapse [symmetric], of "0x5000000"]
  have "fst (pmm_free_page s 0x5000000) \<noteq> None" "snd (pmm_free_page s 0x5000000) = s"
    by blast+
  with s(1,2) show ?thesis by simp
qed



text \<open>
  Statistics stay true: after any sequence of allocations and releases (valid or not),
  \<open>pmm_get_used_pages\<close> is the number of frames marked used in the bitmap and the low 72 MiB
  are never handed out.
\<close>

theorem pmm_calls_keep_statistics:
  assumes "pmm_inv s"
  shows "let t = run_calls pmm_exec ops s
         in pmm_inv t \<and> pmm_get_used_pages t = card (used_set t) \<and>
            pmm_get_used_ram t = card (used_set t) * PAGE_SIZE \<and>
            (\<forall>i < bitmap_pages t. i < LOW_ZONE_PAGES \<longrightarrow> i \<in> used_set t)"
proof -
  have t: "pmm_inv (run_calls pmm_exec ops s)"
    by (rule pmm_calls.run_ok [OF assms pmm_all_admissible])
  then have "i \<in> used_set (run_calls pmm_exec ops s)"
    if "i < bitmap_pages (run_calls pmm_exec ops s)" "i < LOW_ZONE_PAGES" for i
    using owned_frame_above_72MB [OF t _ that(1)] that(2) by auto
  with t used_pages_card [OF t] show ?thesis
    by (simp add: pmm_get_used_pages_def pmm_get_used_ram_def Let_def)
qed

theorem pmm_calls_keep_statistics_witness:
  "\<exists>s. pmm_init_dynamic small_memmap = Some s \<and>
     pmm_inv (run_calls pmm_exec [PmmAlloc, PmmFree 0x4801000, PmmFree 0x4801000, PmmAlloc] s)"
proof -
  obtain s where s: "pmm_init_dynamic small_memmap = Some s" "pmm_inv s"
    by (rule small_pmm) blast
  with pmm_calls_keep_statistics [OF s(2), of "[PmmAlloc, PmmFree 0x4801000, PmmFree 0x4801000, PmmAlloc]"]
  show ?thesis by (auto simp: Let_def)
qed

end
