(* ===== verification/Paging.thy ===== *)
theory Paging
  imports Pmm
begin

text \<open>
  The virtual memory manager, \<^verbatim>\<open>kernel/paging.c\<close>: four-level page tables in physical memory.
  The kernel reads and writes the tables through the higher-half direct map, so the model
  indexes memory by physical address: \<open>pmem\<close> gives the 64-bit word at an address. Every
  function runs under \<open>paging_lock\<close> and is one atomic step. TLB invalidation is not state
  of the model.
\<close>

section \<open>State\<close>

abbreviation PAGE_MASK :: u64 where
  "PAGE_MASK \<equiv> 0xFFFFFFFFFFFFF000"

text \<open>
  \<open>current_pml4\<close> is the table the kernel pointer of that name designates (\<open>None\<close> before
  \<open>init_paging\<close>), as a physical address; \<open>cr3\<close> is the register of the running CPU and
  \<open>percpu_cr3\<close> the copy the scheduler keeps of it.
\<close>

record vmm_state =
  frames :: pmm_state
  pmem :: "u64 \<Rightarrow> u64"
  current_pml4 :: "u64 option"
  kernel_pml4_phys :: u64
  cr3 :: u64
  percpu_cr3 :: u64

definition PML4_IDX :: "u64 \<Rightarrow> u64" where "PML4_IDX va = drop_bit 39 va AND 0x1FF"
definition PDPT_IDX :: "u64 \<Rightarrow> u64" where "PDPT_IDX va = drop_bit 30 va AND 0x1FF"
definition PD_IDX :: "u64 \<Rightarrow> u64" where "PD_IDX va = drop_bit 21 va AND 0x1FF"
definition PT_IDX :: "u64 \<Rightarrow> u64" where "PT_IDX va = drop_bit 12 va AND 0x1FF"

text \<open>Address of entry \<open>i\<close> of the table in frame \<open>f\<close>; the two flag bits the code tests.\<close>

definition ent :: "u64 \<Rightarrow> u64 \<Rightarrow> u64" where
  "ent f i = f + 8 * i"

definition present :: "u64 \<Rightarrow> bool" where
  "present e = (e AND 1 \<noteq> 0)"

definition huge :: "u64 \<Rightarrow> bool" where
  "huge e = (e AND 0x80 \<noteq> 0)"

definition rd :: "vmm_state \<Rightarrow> u64 \<Rightarrow> u64 \<Rightarrow> u64" where
  "rd v f i = pmem v (ent f i)"

definition wr :: "vmm_state \<Rightarrow> u64 \<Rightarrow> u64 \<Rightarrow> u64 \<Rightarrow> vmm_state" where
  "wr v f i x = v\<lparr>pmem := (pmem v)(ent f i := x)\<rparr>"

section \<open>Allocation of tables and mapping\<close>

text \<open>\<open>alloc_page_virt\<close>: a zeroed frame; \<open>None\<close> for the null pointer.\<close>

definition alloc_page_virt :: "vmm_state \<Rightarrow> u64 option \<times> vmm_state" where
  "alloc_page_virt v =
     (let (phys, fr) = pmm_alloc_page (frames v)
      in if phys = PHYS_NULL then (None, v\<lparr>frames := fr\<rparr>)
         else (Some phys,
               v\<lparr>frames := fr, pmem := (\<lambda>a. if a AND PAGE_MASK = phys then 0 else pmem v a)\<rparr>))"

text \<open>
  One level of the walk in \<open>vmm_map_page_into\<close>: an absent entry gets a fresh table, then
  the entry is read back and masked.
\<close>

definition ensure_table :: "vmm_state \<Rightarrow> u64 \<Rightarrow> u64 \<Rightarrow> u64 option \<times> vmm_state" where
  "ensure_table v f i =
     (if \<not> present (rd v f i)
      then (case alloc_page_virt v of
              (None, v1) \<Rightarrow> (None, v1)
            | (Some t, v1) \<Rightarrow> let v2 = wr v1 f i (t OR 7) in (Some (rd v2 f i AND PAGE_MASK), v2))
      else (Some (rd v f i AND PAGE_MASK), v))"

definition vmm_map_page_into :: "vmm_state \<Rightarrow> u64 \<Rightarrow> u64 \<Rightarrow> u64 \<Rightarrow> u64 \<Rightarrow> bool \<times> vmm_state" where
  "vmm_map_page_into v vaddr paddr flags target =
     (if target = PHYS_NULL then (False, v)
      else
        case ensure_table v target (PML4_IDX vaddr) of
          (None, v1) \<Rightarrow> (False, v1)
        | (Some pdpt, v1) \<Rightarrow>
            if huge (rd v1 pdpt (PDPT_IDX vaddr)) then (False, v1)
            else case ensure_table v1 pdpt (PDPT_IDX vaddr) of
              (None, v2) \<Rightarrow> (False, v2)
            | (Some pd, v2) \<Rightarrow>
                if huge (rd v2 pd (PD_IDX vaddr)) then (False, v2)
                else case ensure_table v2 pd (PD_IDX vaddr) of
                  (None, v3) \<Rightarrow> (False, v3)
                | (Some pt, v3) \<Rightarrow>
                    (True, wr v3 pt (PT_IDX vaddr) ((paddr AND PAGE_MASK) OR flags)))"

text \<open>\<open>vmm_map_page\<close> has the same body with \<open>current_pml4\<close> as the root.\<close>

definition vmm_map_page :: "vmm_state \<Rightarrow> u64 \<Rightarrow> u64 \<Rightarrow> u64 \<Rightarrow> bool \<times> vmm_state" where
  "vmm_map_page v vaddr paddr flags =
     (case current_pml4 v of
        None \<Rightarrow> (False, v)
      | Some root \<Rightarrow>
          case ensure_table v root (PML4_IDX vaddr) of
            (None, v1) \<Rightarrow> (False, v1)
          | (Some pdpt, v1) \<Rightarrow>
              if huge (rd v1 pdpt (PDPT_IDX vaddr)) then (False, v1)
              else case ensure_table v1 pdpt (PDPT_IDX vaddr) of
                (None, v2) \<Rightarrow> (False, v2)
              | (Some pd, v2) \<Rightarrow>
                  if huge (rd v2 pd (PD_IDX vaddr)) then (False, v2)
                  else case ensure_table v2 pd (PD_IDX vaddr) of
                    (None, v3) \<Rightarrow> (False, v3)
                  | (Some pt, v3) \<Rightarrow>
                      (True, wr v3 pt (PT_IDX vaddr) ((paddr AND PAGE_MASK) OR flags)))"

section \<open>Unmapping and queries\<close>

definition root_of :: "vmm_state \<Rightarrow> u64 \<Rightarrow> u64 option" where
  "root_of v pml4_phys = (if pml4_phys \<noteq> PHYS_NULL then Some pml4_phys else current_pml4 v)"

definition vmm_unmap_page_from :: "vmm_state \<Rightarrow> u64 \<Rightarrow> u64 \<Rightarrow> u64 \<times> vmm_state" where
  "vmm_unmap_page_from v vaddr target =
     (case root_of v target of
        None \<Rightarrow> (PHYS_NULL, v)
      | Some pml4 \<Rightarrow>
          let e4 = rd v pml4 (PML4_IDX vaddr)
          in if \<not> present e4 then (PHYS_NULL, v)
             else let pdpt = e4 AND PAGE_MASK; e3 = rd v pdpt (PDPT_IDX vaddr)
             in if \<not> present e3 \<or> huge e3 then (PHYS_NULL, v)
                else let pd = e3 AND PAGE_MASK; e2 = rd v pd (PD_IDX vaddr)
                in if \<not> present e2 \<or> huge e2 then (PHYS_NULL, v)
                   else let pt = e2 AND PAGE_MASK; e1 = rd v pt (PT_IDX vaddr)
                   in if \<not> present e1 then (PHYS_NULL, v)
                      else (e1 AND PAGE_MASK, wr v pt (PT_IDX vaddr) 0))"

definition vmm_unmap_page :: "vmm_state \<Rightarrow> u64 \<Rightarrow> bool \<times> vmm_state" where
  "vmm_unmap_page v vaddr =
     (case current_pml4 v of
        None \<Rightarrow> (False, v)
      | Some pml4 \<Rightarrow>
          let e4 = rd v pml4 (PML4_IDX vaddr)
          in if \<not> present e4 then (False, v)
             else let pdpt = e4 AND PAGE_MASK; e3 = rd v pdpt (PDPT_IDX vaddr)
             in if \<not> present e3 then (False, v)
                else if huge e3 then (False, v)
                else let pd = e3 AND PAGE_MASK; e2 = rd v pd (PD_IDX vaddr)
                in if \<not> present e2 then (False, v)
                   else if huge e2 then (False, v)
                   else let pt = e2 AND PAGE_MASK; e1 = rd v pt (PT_IDX vaddr)
                   in if \<not> present e1 then (False, v)
                      else (True, wr v pt (PT_IDX vaddr) 0))"

definition paging_is_mapped_into :: "vmm_state \<Rightarrow> u64 \<Rightarrow> u64 \<Rightarrow> bool" where
  "paging_is_mapped_into v vaddr pml4_phys =
     (case root_of v pml4_phys of
        None \<Rightarrow> False
      | Some pml4 \<Rightarrow>
          let e4 = rd v pml4 (PML4_IDX vaddr)
          in if \<not> present e4 then False
             else let pdpt = e4 AND PAGE_MASK; e3 = rd v pdpt (PDPT_IDX vaddr)
             in if \<not> present e3 then False
                else if huge e3 then True
                else let pd = e3 AND PAGE_MASK; e2 = rd v pd (PD_IDX vaddr)
                in if \<not> present e2 then False
                   else if huge e2 then True
                   else let pt = e2 AND PAGE_MASK
                   in present (rd v pt (PT_IDX vaddr)))"

definition paging_is_mapped :: "vmm_state \<Rightarrow> u64 \<Rightarrow> bool" where
  "paging_is_mapped v vaddr = paging_is_mapped_into v vaddr PHYS_NULL"

section \<open>Allocate and map\<close>

definition vmm_free :: "vmm_state \<Rightarrow> u64 \<Rightarrow> vmm_state" where
  "vmm_free v a = v\<lparr>frames := snd (pmm_free_page (frames v) a)\<rparr>"

definition vmm_alloc_page_into :: "vmm_state \<Rightarrow> u64 \<Rightarrow> u64 \<Rightarrow> u64 \<Rightarrow> bool \<times> vmm_state" where
  "vmm_alloc_page_into v vaddr flags target =
     (let (paddr, fr) = pmm_alloc_page (frames v); v1 = v\<lparr>frames := fr\<rparr>
      in if paddr = PHYS_NULL then (False, v1)
         else let (ok, v2) = (if target \<noteq> PHYS_NULL then vmm_map_page_into v1 vaddr paddr flags target
                              else vmm_map_page v1 vaddr paddr flags)
              in if \<not> ok then (False, vmm_free v2 paddr) else (True, v2))"

definition vmm_alloc_page :: "vmm_state \<Rightarrow> u64 \<Rightarrow> u64 \<Rightarrow> bool \<times> vmm_state" where
  "vmm_alloc_page v vaddr flags = vmm_alloc_page_into v vaddr flags PHYS_NULL"

definition paging_map_region :: "vmm_state \<Rightarrow> u64 \<Rightarrow> bool \<times> vmm_state" where
  "paging_map_region v vaddr = vmm_alloc_page v vaddr 7"

definition vmm_map_page_kernel :: "vmm_state \<Rightarrow> u64 \<Rightarrow> u64 \<Rightarrow> u64 \<Rightarrow> bool \<times> vmm_state" where
  "vmm_map_page_kernel v vaddr paddr flags = vmm_map_page_into v vaddr paddr flags (kernel_pml4_phys v)"

definition vmm_alloc_page_kernel :: "vmm_state \<Rightarrow> u64 \<Rightarrow> u64 \<Rightarrow> bool \<times> vmm_state" where
  "vmm_alloc_page_kernel v vaddr flags =
     (let (paddr, fr) = pmm_alloc_page (frames v); v1 = v\<lparr>frames := fr\<rparr>
      in if paddr = PHYS_NULL then (False, v1)
         else let (ok, v2) = vmm_map_page_kernel v1 vaddr paddr flags
              in if \<not> ok then (False, vmm_free v2 paddr) else (True, v2))"

section \<open>Address spaces\<close>

definition vmm_get_kernel_pml4_phys :: "vmm_state \<Rightarrow> u64" where
  "vmm_get_kernel_pml4_phys v = kernel_pml4_phys v"

definition vmm_read_cr3 :: "vmm_state \<Rightarrow> u64" where
  "vmm_read_cr3 v = cr3 v AND PAGE_MASK"

text \<open>\<open>init_paging\<close>: \<open>None\<close> when the pre-population runs out of memory (kernel panic).\<close>

fun prepopulate :: "u64 \<Rightarrow> nat list \<Rightarrow> vmm_state \<Rightarrow> vmm_state option" where
  "prepopulate root [] v = Some v"
| "prepopulate root (i # is) v =
     (if present (rd v root (of_nat i)) then prepopulate root is v
      else case alloc_page_virt v of
             (None, v1) \<Rightarrow> None
           | (Some pdpt, v1) \<Rightarrow> prepopulate root is (wr v1 root (of_nat i) (pdpt OR 7)))"

definition init_paging :: "vmm_state \<Rightarrow> vmm_state option" where
  "init_paging v =
     (let phys_pml4 = cr3 v AND PAGE_MASK
      in prepopulate phys_pml4 [256..<512]
           (v\<lparr>current_pml4 := Some phys_pml4, kernel_pml4_phys := phys_pml4\<rparr>))"

fun clone_entries :: "u64 \<Rightarrow> u64 \<Rightarrow> nat list \<Rightarrow> vmm_state \<Rightarrow> vmm_state" where
  "clone_entries src dst [] v = v"
| "clone_entries src dst (i # is) v =
     clone_entries src dst is (wr v dst (of_nat i) (rd v src (of_nat i)))"

definition vmm_create_address_space :: "vmm_state \<Rightarrow> u64 \<times> vmm_state" where
  "vmm_create_address_space v =
     (case current_pml4 v of
        None \<Rightarrow> (PHYS_NULL, v)
      | Some kroot \<Rightarrow>
          (case alloc_page_virt v of
             (None, v1) \<Rightarrow> (PHYS_NULL, v1)
           | (Some new_pml4, v1) \<Rightarrow> (new_pml4, clone_entries kroot new_pml4 [256..<512] v1)))"

definition free_if_owned :: "vmm_state \<Rightarrow> u64 \<Rightarrow> vmm_state" where
  "free_if_owned v a = (if pmm_owns_page (frames v) a then vmm_free v a else v)"

text \<open>The four nested loops of \<open>vmm_destroy_address_space\<close>, innermost first.\<close>

fun destroy_pt :: "u64 \<Rightarrow> nat list \<Rightarrow> vmm_state \<Rightarrow> vmm_state" where
  "destroy_pt pt [] v = v"
| "destroy_pt pt (p1 # ps) v =
     (let e = rd v pt (of_nat p1)
      in if \<not> present e then destroy_pt pt ps v
         else destroy_pt pt ps (wr (free_if_owned v (e AND PAGE_MASK)) pt (of_nat p1) 0))"

fun destroy_pd :: "u64 \<Rightarrow> nat list \<Rightarrow> vmm_state \<Rightarrow> vmm_state" where
  "destroy_pd pd [] v = v"
| "destroy_pd pd (p2 # ps) v =
     (let e = rd v pd (of_nat p2)
      in if \<not> present e then destroy_pd pd ps v
         else if huge e then destroy_pd pd ps (wr v pd (of_nat p2) 0)
         else
           let pt = e AND PAGE_MASK;
               v1 = destroy_pt pt [0..<512] v
           in destroy_pd pd ps (wr (free_if_owned v1 pt) pd (of_nat p2) 0))"

fun destroy_pdpt :: "u64 \<Rightarrow> nat list \<Rightarrow> vmm_state \<Rightarrow> vmm_state" where
  "destroy_pdpt pdpt [] v = v"
| "destroy_pdpt pdpt (p3 # ps) v =
     (let e = rd v pdpt (of_nat p3)
      in if \<not> present e then destroy_pdpt pdpt ps v
         else if huge e then destroy_pdpt pdpt ps (wr v pdpt (of_nat p3) 0)
         else
           let pd = e AND PAGE_MASK;
               v1 = destroy_pd pd [0..<512] v
           in destroy_pdpt pdpt ps (wr (free_if_owned v1 pd) pdpt (of_nat p3) 0))"

fun destroy_pml4 :: "u64 \<Rightarrow> nat list \<Rightarrow> vmm_state \<Rightarrow> vmm_state" where
  "destroy_pml4 pml4 [] v = v"
| "destroy_pml4 pml4 (p4 # ps) v =
     (let e = rd v pml4 (of_nat p4)
      in if \<not> present e then destroy_pml4 pml4 ps v
         else if huge e then destroy_pml4 pml4 ps (wr v pml4 (of_nat p4) 0)
         else
           let pdpt = e AND PAGE_MASK;
               v1 = destroy_pdpt pdpt [0..<512] v
           in destroy_pml4 pml4 ps (wr (free_if_owned v1 pdpt) pml4 (of_nat p4) 0))"

definition vmm_destroy_address_space :: "vmm_state \<Rightarrow> u64 \<Rightarrow> bool \<Rightarrow> vmm_state" where
  "vmm_destroy_address_space v pml4_phys free_pml4 =
     (if pml4_phys = PHYS_NULL then v
      else
        let v1 = destroy_pml4 pml4_phys [0..<256] v
        in if free_pml4 then free_if_owned v1 pml4_phys else v1)"

definition vmm_switch_pml4 :: "vmm_state \<Rightarrow> u64 \<Rightarrow> vmm_state" where
  "vmm_switch_pml4 v pml4_phys =
     (if pml4_phys = PHYS_NULL then v else v\<lparr>cr3 := pml4_phys, percpu_cr3 := pml4_phys\<rparr>)"

definition vmm_switch_to_kernel_as :: "vmm_state \<Rightarrow> vmm_state" where
  "vmm_switch_to_kernel_as v =
     (if kernel_pml4_phys v = PHYS_NULL then v
      else v\<lparr>cr3 := kernel_pml4_phys v, percpu_cr3 := kernel_pml4_phys v\<rparr>)"

definition vmm_destroy_task_as :: "vmm_state \<Rightarrow> u64 \<Rightarrow> vmm_state" where
  "vmm_destroy_task_as v pml4_phys =
     (if pml4_phys = PHYS_NULL then v
      else vmm_destroy_address_space (vmm_switch_to_kernel_as v) pml4_phys True)"

end
