(* ===== verification/Page_Walk.thy ===== *)
theory Page_Walk
  imports Paging
begin

text \<open>
  Correctness of the page tables of \<^verbatim>\<open>kernel/paging.c\<close>. A root table denotes a translation from
  index paths to entries (\<open>walk\<close>); its tables form a tree of distinct frames (\<open>tree_ok\<close>).
  Mapping a page changes the translation of that page only, unmapping removes it, a new
  address space shares the kernel half, and destroying one empties its user half and gives
  its frames back.
\<close>

section \<open>Table entries as addresses\<close>

definition frame_aligned :: "u64 \<Rightarrow> bool" where
  "frame_aligned f = (4096 dvd unat f)"

lemma aligned_room: "frame_aligned f \<Longrightarrow> unat f + 4096 \<le> 2 ^ 64"
  using unat_lt64 [of f] by (auto simp: frame_aligned_def elim!: dvdE)

lemma unat_ent:
  assumes "frame_aligned f" "i < 512"
  shows "unat (ent f i) = unat f + 8 * unat i"
proof -
  have i: "unat i < 512" using assms(2) by (simp add: word_less_nat_alt)
  then have "unat (8 * i) = 8 * unat i" by (simp add: unat_word_ariths)
  with i aligned_room [OF assms(1)] show ?thesis
    by (simp add: ent_def unat_word_ariths)
qed

lemma ent_inject:
  assumes "frame_aligned f" "frame_aligned g" "i < 512" "j < 512"
  shows "ent f i = ent g j \<longleftrightarrow> f = g \<and> i = j"
proof
  assume "ent f i = ent g j"
  then have e: "unat f + 8 * unat i = unat g + 8 * unat j"
    using unat_ent assms by metis
  have i: "unat i < 512" "unat j < 512" using assms(3,4) by (simp_all add: word_less_nat_alt)
  obtain k l where kl: "unat f = 4096 * k" "unat g = 4096 * l"
    using assms(1,2) by (auto simp: frame_aligned_def elim!: dvdE)
  with e have e': "4096 * k + 8 * unat i = 4096 * l + 8 * unat j" by simp
  then have "(4096 * k + 8 * unat i) div 4096 = (4096 * l + 8 * unat j) div 4096" by simp
  with i have "k = l" by simp
  with e' have "unat i = unat j" by simp
  with kl \<open>k = l\<close> show "f = g \<and> i = j" by (simp add: word_unat_eq_iff)
qed simp

lemma PAGE_MASK_not: "PAGE_MASK = NOT (mask 12 :: u64)"
  by (simp add: mask_eq_exp_minus_1)

lemma unat_page: "unat (a AND PAGE_MASK) = unat a div 4096 * 4096"
proof -
  have "a AND PAGE_MASK = push_bit 12 (drop_bit 12 a)"
    unfolding PAGE_MASK_not by (rule bit_word_eqI) (auto simp: bit_simps)
  moreover have "unat (drop_bit 12 a) = unat a div 4096"
    by (simp add: unat_drop_bit_eq drop_bit_nat_def)
  moreover from this have "unat (drop_bit 12 a) < 2 ^ 52"
    using unat_lt64 [of a] by simp
  ultimately show ?thesis
    by (simp add: push_bit_eq_mult unat_word_ariths)
qed

lemma page_aligned [simp]: "frame_aligned (a AND PAGE_MASK)"
  by (simp add: frame_aligned_def unat_page)

lemma page_of_ent:
  assumes "frame_aligned f" "i < 512"
  shows "ent f i AND PAGE_MASK = f"
proof -
  have "unat i < 512" using assms(2) by (simp add: word_less_nat_alt)
  then have "unat (ent f i AND PAGE_MASK) = unat f"
    using assms by (auto simp: unat_page unat_ent frame_aligned_def elim!: dvdE)
  then show ?thesis by (simp add: word_unat_eq_iff)
qed

lemma page_frame: "frame_aligned f \<Longrightarrow> f AND PAGE_MASK = f"
  using page_of_ent [of f 0] by (simp add: ent_def)

lemma aligned_low_bits:
  assumes "frame_aligned t" "n < 12"
  shows "\<not> bit t n"
proof -
  have "take_bit 12 t = 0"
    using assms(1) page_aligned_iff [of t] take_bit_eq_mask [of 12 t]
    by (simp add: frame_aligned_def mask_eq_exp_minus_1)
  then have "\<not> bit (take_bit 12 t) n" by simp
  with assms(2) show ?thesis by (simp add: bit_take_bit_iff)
qed

lemma present_bit: "present e = bit e 0"
  by (simp add: present_def and_one_eq bit_0 odd_iff_mod_2_eq_one)

lemma huge_bit: "huge e = bit e 7"
proof -
  have "(0x80 :: u64) = 2 ^ 7" by simp
  then show ?thesis by (simp only: huge_def and_exp_eq_0_iff_not_bit not_not)
qed

lemma bit_7: "bit (7 :: u64) n \<longleftrightarrow> n < 3"
proof -
  have "(7 :: u64) = mask 3" by (simp add: mask_eq_exp_minus_1)
  then show ?thesis by (simp only: bit_mask_iff) auto
qed

lemma table_entry:
  assumes "frame_aligned t"
  shows "present (t OR 7)" "\<not> huge (t OR 7)" "(t OR 7) AND PAGE_MASK = t"
proof -
  show "present (t OR 7)" "\<not> huge (t OR 7)"
    using aligned_low_bits [OF assms, of 7] by (simp_all add: present_bit huge_bit bit_7 bit_or_iff)
  show "(t OR 7) AND PAGE_MASK = t"
    unfolding PAGE_MASK_not
  proof (rule bit_word_eqI)
    fix n
    assume "n < LENGTH(64)"
    then show "bit ((t OR 7) AND NOT (mask 12)) n = bit t n"
      using aligned_low_bits [OF assms, of n] bit_7 [of n]
      by (auto simp: bit_and_iff bit_or_iff bit_not_iff bit_mask_iff)
  qed
qed

lemma frame_flags:
  assumes "frame_aligned f" "flags < 4096"
  shows "(f OR flags) AND PAGE_MASK = f"
proof -
  have "take_bit 12 flags = flags"
    using assms(2) by (simp add: word_unat_eq_iff unsigned_take_bit_eq take_bit_nat_def word_less_nat_alt)
  then have "\<not> bit flags n" if "12 \<le> n" for n
    using that by (metis bit_take_bit_iff not_le)
  then have "flags AND PAGE_MASK = 0"
    unfolding PAGE_MASK_not
    by (intro bit_word_eqI) (auto simp: bit_and_iff bit_not_iff bit_mask_iff not_less [symmetric])
  then show ?thesis by (simp add: bit.conj_disj_distrib2 page_frame [OF assms(1)])
qed

lemma not_present_0 [simp]: "\<not> present 0" "\<not> huge 0"
  by (simp_all add: present_def huge_def)

lemma owned_aligned: "pmm_inv s \<Longrightarrow> pmm_owns_page s f \<Longrightarrow> frame_aligned f"
  by (simp add: pmm_owns_page_iff frame_aligned_def)

lemma rd_wr:
  assumes "frame_aligned f" "frame_aligned g" "i < 512" "j < 512"
  shows "rd (wr v f i x) g j = (if g = f \<and> j = i then x else rd v g j)"
  using ent_inject [OF assms(2,1,4,3)] by (simp add: rd_def wr_def)

lemma frames_wr [simp]: "frames (wr v f i x) = frames v"
  by (simp add: wr_def)

section \<open>The tree of tables and the translation\<close>

text \<open>The table reached from \<open>f\<close> along a path of indices; the translation of a full path.\<close>

fun node :: "vmm_state \<Rightarrow> u64 \<Rightarrow> u64 list \<Rightarrow> u64 option" where
  "node v f [] = Some f"
| "node v f (i # is) =
     (if present (rd v f i) \<and> \<not> huge (rd v f i) then node v (rd v f i AND PAGE_MASK) is else None)"

datatype xlate = Unmapped | HugePage u64 | Page u64

definition leaf :: "u64 \<Rightarrow> xlate" where
  "leaf e = (if present e then Page e else Unmapped)"

fun walk :: "vmm_state \<Rightarrow> u64 \<Rightarrow> u64 list \<Rightarrow> xlate" where
  "walk v f [] = Unmapped"
| "walk v f [i] = leaf (rd v f i)"
| "walk v f (i # j # is) =
     (if \<not> present (rd v f i) then Unmapped
      else if huge (rd v f i) then HugePage (rd v f i)
      else walk v (rd v f i AND PAGE_MASK) (j # is))"

definition page_path :: "u64 \<Rightarrow> u64 list" where
  "page_path va = [PML4_IDX va, PDPT_IDX va, PD_IDX va, PT_IDX va]"

abbreviation idx_ok :: "u64 list \<Rightarrow> bool" where
  "idx_ok q \<equiv> \<forall>i \<in> set q. i < 512"

definition tree_ok :: "vmm_state \<Rightarrow> u64 \<Rightarrow> bool" where
  "tree_ok v root \<longleftrightarrow>
     pmm_inv (frames v) \<and> (\<forall>i < 512. \<not> huge (rd v root i)) \<and>
     (\<forall>p f. length p \<le> 3 \<longrightarrow> idx_ok p \<longrightarrow> node v root p = Some f \<longrightarrow> pmm_owns_page (frames v) f) \<and>
     (\<forall>p q f. length p \<le> 3 \<longrightarrow> length q \<le> 3 \<longrightarrow> idx_ok p \<longrightarrow> idx_ok q \<longrightarrow>
        node v root p = Some f \<longrightarrow> node v root q = Some f \<longrightarrow> p = q)"

lemma idx_and: "a AND 0x1FF < (512 :: u64)"
proof -
  have "a AND 0x1FF \<le> (0x1FF :: u64)" by (rule word_and_le1)
  also have "\<dots> < 512" by simp
  finally show ?thesis .
qed

lemma page_path_ok [simp]: "idx_ok (page_path va)" "length (page_path va) = 4"
  using idx_and by (simp_all add: page_path_def PML4_IDX_def PDPT_IDX_def PD_IDX_def PT_IDX_def)

lemma IDX_less [simp]: "PML4_IDX va < 512" "PDPT_IDX va < 512" "PD_IDX va < 512" "PT_IDX va < 512"
  by (simp_all add: PML4_IDX_def PDPT_IDX_def PD_IDX_def PT_IDX_def idx_and)

text \<open>Two addresses have the same path exactly when they lie in the same page of the
  48-bit address space.\<close>

lemma drop_and_take: "drop_bit k va AND (0x1FF :: u64) = take_bit 9 (drop_bit k va)"
  using take_bit_eq_mask [of 9 "drop_bit k va"] by (simp add: mask_eq_exp_minus_1)

lemma page_path_eq_iff:
  "page_path a = page_path b \<longleftrightarrow> take_bit 48 a AND PAGE_MASK = take_bit 48 b AND PAGE_MASK"
proof -
  have f: "take_bit 9 (drop_bit k a) = take_bit 9 (drop_bit k b) \<longleftrightarrow>
      (\<forall>n. k \<le> n \<and> n < k + 9 \<longrightarrow> bit a n = bit b n)" for k and a b :: u64
  proof
    assume e: "take_bit 9 (drop_bit k a) = take_bit 9 (drop_bit k b)"
    show "\<forall>n. k \<le> n \<and> n < k + 9 \<longrightarrow> bit a n = bit b n"
    proof (intro allI impI)
      fix n
      assume "k \<le> n \<and> n < k + 9"
      with e have "bit (take_bit 9 (drop_bit k a)) (n - k) = bit (take_bit 9 (drop_bit k b)) (n - k)"
        by simp
      moreover from \<open>k \<le> n \<and> n < k + 9\<close> have "n - k < 9" by linarith
      ultimately show "bit a n = bit b n"
        using \<open>k \<le> n \<and> n < k + 9\<close> by (simp add: bit_simps)
    qed
  qed (rule bit_word_eqI, auto simp: bit_simps)
  have g: "take_bit 48 a AND PAGE_MASK = take_bit 48 b AND PAGE_MASK \<longleftrightarrow>
      (\<forall>n. 12 \<le> n \<and> n < 48 \<longrightarrow> bit a n = bit b n)"
    unfolding PAGE_MASK_not
  proof
    assume e: "take_bit 48 a AND NOT (mask 12) = take_bit 48 b AND NOT (mask 12)"
    show "\<forall>n. 12 \<le> n \<and> n < 48 \<longrightarrow> bit a n = bit b n"
    proof (intro allI impI)
      fix n
      assume n: "12 \<le> n \<and> n < (48 :: nat)"
      from e have "bit (take_bit 48 a AND NOT (mask 12)) n = bit (take_bit 48 b AND NOT (mask 12)) n"
        by simp
      with n show "bit a n = bit b n" by (simp add: bit_simps)
    qed
  qed (rule bit_word_eqI, auto simp: bit_simps)
  have "12 \<le> n \<and> n < 48 \<longleftrightarrow>
      39 \<le> n \<and> n < 48 \<or> 30 \<le> n \<and> n < 39 \<or> 21 \<le> n \<and> n < 30 \<or> 12 \<le> n \<and> n < (21 :: nat)" for n
    by linarith
  then have "(\<forall>n. 12 \<le> n \<and> n < 48 \<longrightarrow> P n) \<longleftrightarrow>
      (\<forall>n. 39 \<le> n \<and> n < 48 \<longrightarrow> P n) \<and> (\<forall>n. 30 \<le> n \<and> n < 39 \<longrightarrow> P n) \<and>
      (\<forall>n. 21 \<le> n \<and> n < 30 \<longrightarrow> P n) \<and> (\<forall>n. 12 \<le> n \<and> n < (21 :: nat) \<longrightarrow> P n)" for P
    by meson
  then show ?thesis
    unfolding g by (simp add: page_path_def PML4_IDX_def PDPT_IDX_def PD_IDX_def PT_IDX_def drop_and_take f)
qed

section \<open>Paths\<close>

lemma node_append:
  "node v f (p @ q) = (case node v f p of None \<Rightarrow> None | Some g \<Rightarrow> node v g q)"
  by (induction p arbitrary: f) auto

text \<open>A path keeps its meaning while the entries along it are kept.\<close>

lemma node_cong:
  assumes "\<And>r j s g. q = r @ j # s \<Longrightarrow> node v f r = Some g \<Longrightarrow> rd v' g j = rd v g j"
  shows "node v' f q = node v f q"
  using assms
proof (induction q arbitrary: f)
  case (Cons i js)
  have hd: "rd v' f i = rd v f i"
    using Cons.prems [of "[]" i js f] by simp
  moreover have "node v' (rd v f i AND PAGE_MASK) js = node v (rd v f i AND PAGE_MASK) js"
    if "present (rd v f i)" "\<not> huge (rd v f i)"
  proof (rule Cons.IH)
    fix r j s g
    assume "js = r @ j # s" "node v (rd v f i AND PAGE_MASK) r = Some g"
    with that show "rd v' g j = rd v g j" using Cons.prems [of "i # r" j s g] by simp
  qed
  ultimately show ?case by simp
qed simp

lemma tree_owned:
  "tree_ok v root \<Longrightarrow> length p \<le> 3 \<Longrightarrow> idx_ok p \<Longrightarrow> node v root p = Some f \<Longrightarrow> pmm_owns_page (frames v) f"
  by (simp add: tree_ok_def)

lemma tree_inj:
  "tree_ok v root \<Longrightarrow> length p \<le> 3 \<Longrightarrow> length q \<le> 3 \<Longrightarrow> idx_ok p \<Longrightarrow> idx_ok q \<Longrightarrow>
   node v root p = Some f \<Longrightarrow> node v root q = Some f \<Longrightarrow> p = q"
  by (simp add: tree_ok_def)

lemma tree_pmm: "tree_ok v root \<Longrightarrow> pmm_inv (frames v)"
  by (simp add: tree_ok_def)

lemma tree_aligned:
  "tree_ok v root \<Longrightarrow> length p \<le> 3 \<Longrightarrow> idx_ok p \<Longrightarrow> node v root p = Some f \<Longrightarrow> frame_aligned f"
  by (rule owned_aligned [OF tree_pmm tree_owned])

lemma walk_append:
  "q \<noteq> [] \<Longrightarrow> node v f p = Some g \<Longrightarrow> walk v f (p @ q) = walk v g q"
proof (induction p arbitrary: f)
  case (Cons i p)
  then show ?case by (cases "p @ q") (auto split: if_splits)
qed simp

lemma walk_cong:
  assumes "\<And>r j s g. q = r @ j # s \<Longrightarrow> node v f r = Some g \<Longrightarrow> rd v' g j = rd v g j"
  shows "walk v' f q = walk v f q"
  using assms
proof (induction v f q rule: walk.induct)
  case (2 v f i)
  then show ?case using "2.prems" [of "[]" i "[]" f] by simp
next
  case (3 v f i j js)
  have hd: "rd v' f i = rd v f i"
    using "3.prems" [of "[]" i "j # js" f] by simp
  moreover have "walk v' (rd v f i AND PAGE_MASK) (j # js) = walk v (rd v f i AND PAGE_MASK) (j # js)"
    if "present (rd v f i)" "\<not> huge (rd v f i)"
  proof (rule "3.IH")
    fix r k s g
    assume "j # js = r @ k # s" "node v (rd v f i AND PAGE_MASK) r = Some g"
    with that show "rd v' g k = rd v g k" using "3.prems" [of "i # r" k s g] by simp
  qed (use that in auto)
  ultimately show ?case by simp
qed simp

section \<open>Writing one entry\<close>

text \<open>
  In a tree, a write to entry \<open>i\<close> of the table at path \<open>p\<close> is invisible to every path that
  does not continue \<open>p @ [i]\<close>.
\<close>

lemma write_invisible:
  assumes t: "tree_ok v root" and p: "length p \<le> 3" "idx_ok p" "node v root p = Some f" and i: "i < 512"
    and other: "\<And>g j. frame_aligned g \<Longrightarrow> pmm_owns_page (frames v) g \<Longrightarrow> j < 512 \<Longrightarrow> (g, j) \<noteq> (f, i) \<Longrightarrow> rd v' g j = rd v g j"
    and q: "idx_ok q" "length q \<le> 4" "\<nexists>s. q = p @ i # s"
    and r: "q = r @ j # s" "node v root r = Some g"
  shows "rd v' g j = rd v g j"
proof -
  have len: "length r \<le> 3" "idx_ok r" "j < 512"
    using q(1,2) r(1) by auto
  have "(g, j) \<noteq> (f, i)"
  proof
    assume gj: "(g, j) = (f, i)"
    then have "r = p" using tree_inj [OF t len(1) p(1) len(2) p(2)] r(2) p(3) by simp
    with gj r(1) q(3) show False by simp
  qed
  then show ?thesis
    by (rule other [OF tree_aligned [OF t len(1,2) r(2)] tree_owned [OF t len(1,2) r(2)] len(3)])
qed

lemma write_apart:
  assumes "tree_ok v root" "length p \<le> 3" "idx_ok p" "node v root p = Some f" "i < 512"
    and "\<And>g j. frame_aligned g \<Longrightarrow> pmm_owns_page (frames v) g \<Longrightarrow> j < 512 \<Longrightarrow> (g, j) \<noteq> (f, i) \<Longrightarrow> rd v' g j = rd v g j"
    and "idx_ok q" "length q \<le> 4" "\<nexists>s. q = p @ i # s"
  shows "node v' root q = node v root q" "walk v' root q = walk v root q"
proof -
  have "rd v' g j = rd v g j" if "q = r @ j # s" "node v root r = Some g" for r j s g
    using write_invisible [OF assms that] .
  then show "node v' root q = node v root q" "walk v' root q = walk v root q"
    by (blast intro: node_cong walk_cong)+
qed

section \<open>Fresh tables\<close>

lemma alloc_page_virt_cases:
  assumes "pmm_inv (frames v)"
  obtains (oom) "alloc_page_virt v = (None, v)" "fst (pmm_alloc_page (frames v)) = PHYS_NULL"
  | (fresh) t v1 where "alloc_page_virt v = (Some t, v1)" "frame_aligned t" "t \<noteq> 0"
      "\<not> pmm_owns_page (frames v) t" "pmm_inv (frames v1)"
      "\<And>b. pmm_owns_page (frames v1) b \<longleftrightarrow> b = t \<or> pmm_owns_page (frames v) b"
      "\<And>j. j < 512 \<Longrightarrow> rd v1 t j = 0"
      "\<And>a. a AND PAGE_MASK \<noteq> t \<Longrightarrow> pmem v1 a = pmem v a"
      "v1 = v\<lparr>frames := frames v1, pmem := pmem v1\<rparr>" "0x4800000 \<le> t"
proof (cases "fst (pmm_alloc_page (frames v)) = PHYS_NULL")
  case True
  with pmm.alloc_null [OF assms] have "alloc_page_virt v = (None, v)"
    by (cases "pmm_alloc_page (frames v)") (simp add: alloc_page_virt_def)
  from this True show ?thesis by (rule oom)
next
  case False
  obtain t fr where tf: "pmm_alloc_page (frames v) = (t, fr)" by fastforce
  let ?v1 = "v\<lparr>frames := fr, pmem := (\<lambda>a. if a AND PAGE_MASK = t then 0 else pmem v a)\<rparr>"
  have t: "frame_aligned t"
    using pmm.alloc_aligned [OF assms] tf by (simp add: frame_aligned_def page_aligned_iff)
  show ?thesis
    by (rule fresh [of t ?v1])
      (use False tf t pmm.alloc_fresh [OF assms False] pmm.alloc_owns [OF assms False]
        pmm.alloc_ok [OF assms] pmm.alloc_releasable [OF assms False] in
        \<open>simp_all add: alloc_page_virt_def rd_def page_of_ent\<close>)
qed

text \<open>The frames that are tables of an address space.\<close>

definition table_of :: "vmm_state \<Rightarrow> u64 \<Rightarrow> u64 \<Rightarrow> bool" where
  "table_of v root f \<longleftrightarrow> (\<exists>q. idx_ok q \<and> length q \<le> 3 \<and> node v root q = Some f)"

text \<open>Every frame taken on the way is a table of the address space.\<close>

definition no_leak :: "u64 \<Rightarrow> vmm_state \<Rightarrow> vmm_state \<Rightarrow> bool" where
  "no_leak root v v' \<longleftrightarrow> (\<forall>b. pmm_owns_page (frames v') b \<longrightarrow> pmm_owns_page (frames v) b \<or> table_of v' root b)"

text \<open>What the walk of \<open>vmm_map_page_into\<close> may do to an address space: add empty tables.\<close>

definition grown :: "u64 \<Rightarrow> vmm_state \<Rightarrow> vmm_state \<Rightarrow> bool" where
  "grown root v v' \<longleftrightarrow>
     tree_ok v' root \<and>
     (\<forall>q. idx_ok q \<longrightarrow> length q = 4 \<longrightarrow> walk v' root q = walk v root q) \<and>
     (\<forall>q f. idx_ok q \<longrightarrow> length q \<le> 3 \<longrightarrow> node v root q = Some f \<longrightarrow> node v' root q = Some f) \<and>
     (\<forall>q f. idx_ok q \<longrightarrow> length q \<le> 3 \<longrightarrow> node v' root q = Some f \<longrightarrow>
        node v root q = Some f \<or> \<not> pmm_owns_page (frames v) f) \<and>
     (\<forall>b. pmm_owns_page (frames v) b \<longrightarrow> pmm_owns_page (frames v') b) \<and>
     (\<forall>a. pmm_owns_page (frames v) (a AND PAGE_MASK) \<longrightarrow>
        (\<forall>q. idx_ok q \<longrightarrow> length q \<le> 3 \<longrightarrow> node v root q \<noteq> Some (a AND PAGE_MASK)) \<longrightarrow>
        pmem v' a = pmem v a) \<and>
     no_leak root v v' \<and> v' = v\<lparr>frames := frames v', pmem := pmem v'\<rparr>"

lemma grown_refl: "tree_ok v root \<Longrightarrow> grown root v v"
  by (simp add: grown_def no_leak_def)

text \<open>The new table \<open>t\<close> hangs below entry \<open>i\<close> of table \<open>f\<close>; all else is as before.\<close>

definition linked :: "vmm_state \<Rightarrow> u64 \<Rightarrow> u64 \<Rightarrow> u64 \<Rightarrow> vmm_state \<Rightarrow> bool" where
  "linked v f i t v' \<longleftrightarrow>
     frame_aligned t \<and> \<not> pmm_owns_page (frames v) t \<and> pmm_inv (frames v') \<and>
     (\<forall>b. pmm_owns_page (frames v') b \<longleftrightarrow> b = t \<or> pmm_owns_page (frames v) b) \<and>
     (\<forall>j < 512. rd v' t j = 0) \<and>
     (\<forall>g j. pmm_owns_page (frames v) g \<longrightarrow> j < 512 \<longrightarrow>
        rd v' g j = (if g = f \<and> j = i then t OR 7 else rd v g j)) \<and>
     (\<forall>a. pmm_owns_page (frames v) (a AND PAGE_MASK) \<longrightarrow> a AND PAGE_MASK \<noteq> f \<longrightarrow> pmem v' a = pmem v a) \<and>
     v' = v\<lparr>frames := frames v', pmem := pmem v'\<rparr>"

lemma ensure_table_cases:
  assumes inv: "pmm_inv (frames v)" and f: "pmm_owns_page (frames v) f" and i: "i < 512"
  obtains (oom) "ensure_table v f i = (None, v)" "fst (pmm_alloc_page (frames v)) = PHYS_NULL"
  | (there) "ensure_table v f i = (Some (rd v f i AND PAGE_MASK), v)" "present (rd v f i)"
  | (fresh) t v' where "ensure_table v f i = (Some t, v')" "\<not> present (rd v f i)" "linked v f i t v'"
proof (cases "present (rd v f i)")
  case True
  then show ?thesis by (intro there) (simp_all add: ensure_table_def)
next
  case False
  from inv show ?thesis
  proof (cases rule: alloc_page_virt_cases)
    case oom
    with False show ?thesis by (intro that(1)) (simp_all add: ensure_table_def)
  next
    case (fresh t v1)
    let ?v2 = "wr v1 f i (t OR 7)"
    have al: "frame_aligned f" by (rule owned_aligned [OF inv f])
    have ft: "f \<noteq> t" using f fresh(4) by blast
    have old: "rd v1 g j = rd v g j" if "pmm_owns_page (frames v) g" "j < 512" for g j
      unfolding rd_def
      by (rule fresh(8)) (use fresh(4) that owned_aligned [OF inv that(1)] in \<open>auto simp: page_of_ent\<close>)
    have "linked v f i t ?v2"
      unfolding linked_def
    proof (intro conjI allI impI)
      fix j :: u64
      assume "j < 512"
      with al fresh(2) i ft fresh(7) show "rd ?v2 t j = 0" by (simp add: rd_wr)
    next
      fix g j :: u64
      assume "pmm_owns_page (frames v) g" "j < 512"
      with al i owned_aligned [OF inv] old show "rd ?v2 g j = (if g = f \<and> j = i then t OR 7 else rd v g j)"
        by (simp add: rd_wr)
    next
      fix a
      assume "pmm_owns_page (frames v) (a AND PAGE_MASK)" "a AND PAGE_MASK \<noteq> f"
      moreover from this have "a \<noteq> ent f i" using page_of_ent [OF al i] by blast
      moreover have "pmem v1 a = pmem v a"
        by (rule fresh(8)) (use fresh(4) \<open>pmm_owns_page (frames v) (a AND PAGE_MASK)\<close> in blast)
      ultimately show "pmem ?v2 a = pmem v a" by (simp add: wr_def)
    next
      show "?v2 = v\<lparr>frames := frames ?v2, pmem := pmem ?v2\<rparr>"
        by (subst fresh(9)) (simp add: wr_def)
    qed (use fresh in simp_all)
    moreover have "ensure_table v f i = (Some t, ?v2)"
      using False fresh(1) table_entry [OF fresh(2)] rd_wr [OF al al i i, of v1 "t OR 7"]
      by (simp add: ensure_table_def Let_def)
    ultimately show ?thesis using False that(3) by blast
  qed
qed

lemma linked_node:
  assumes tree: "tree_ok v root" and p: "length p \<le> 2" "idx_ok p" "node v root p = Some f"
    and i: "i < 512" and absent: "\<not> present (rd v f i)" and l: "linked v f i t v'"
    and q: "idx_ok q" "length q \<le> 4"
  shows "node v' root q = (if q = p @ [i] then Some t else node v root q)"
    and "length q = 4 \<Longrightarrow> walk v' root q = walk v root q"
proof -
  have other: "rd v' g j = rd v g j"
    if "frame_aligned g" "pmm_owns_page (frames v) g" "j < 512" "(g, j) \<noteq> (f, i)" for g j
    using l that by (auto simp: linked_def)
  have own: "pmm_owns_page (frames v) f" by (rule tree_owned [OF tree _ p(2,3)]) (use p in simp)
  then have new: "rd v' f i = t OR 7" using l i by (simp add: linked_def)
  have zero: "rd v' t j = 0" if "j < 512" for j using l that by (simp add: linked_def)
  have al: "frame_aligned t" using l by (simp add: linked_def)
  have len: "length p \<le> 3" using p(1) by simp
  have np: "node v' root p = Some f"
    using write_apart(1) [OF tree len p(2,3) i other p(2)] p by simp
  have "node v' root q = (if q = p @ [i] then Some t else node v root q) \<and>
      (length q = 4 \<longrightarrow> walk v' root q = walk v root q)"
  proof (cases "\<exists>s. q = p @ i # s")
    case True
    then obtain s where s: "q = p @ i # s" by blast
    show ?thesis
    proof (cases s)
      case Nil
      with s np p(1,3) absent new table_entry [OF al] show ?thesis by (simp add: node_append)
    next
      case (Cons j r)
      then have j: "j < 512" using q(1) s by simp
      have "node v' root (p @ [i]) = Some t"
        using np new table_entry [OF al] by (simp add: node_append)
      moreover have "node v' t s = None" "walk v' t s = Unmapped"
        using zero [OF j] Cons by (cases r; simp add: leaf_def)+
      moreover have "node v root q = None" "walk v root q = Unmapped"
        using s Cons absent p(3) walk_append [of "i # s" v root p f] by (simp_all add: node_append)
      ultimately show ?thesis
        using s Cons node_append [of v' root "p @ [i]" s] walk_append [of s v' root "p @ [i]" t] by simp
    qed
  next
    case False
    then have "node v' root q = node v root q" "walk v' root q = walk v root q"
      by (blast intro: write_apart [OF tree len p(2,3) i other q])+
    with False show ?thesis by auto
  qed
  then show "node v' root q = (if q = p @ [i] then Some t else node v root q)"
    and "length q = 4 \<Longrightarrow> walk v' root q = walk v root q" by blast+
qed

lemma linked_grown:
  assumes tree: "tree_ok v root" and p: "length p \<le> 2" "idx_ok p" "node v root p = Some f"
    and i: "i < 512" and absent: "\<not> present (rd v f i)" and l: "linked v f i t v'"
  shows "grown root v v' \<and> node v' root (p @ [i]) = Some t"
proof -
  note nd = linked_node(1) [OF tree p i absent l]
  have len: "length p \<le> 3" using p(1) by simp
  have old: "pmm_owns_page (frames v) g" if "length q \<le> 3" "idx_ok q" "node v root q = Some g" for q g
    by (rule tree_owned [OF tree that])
  have root: "pmm_owns_page (frames v) root" by (rule old [of "[]"]) simp_all
  have own: "pmm_owns_page (frames v') g" if "length q \<le> 3" "idx_ok q" "node v' root q = Some g" for q g
    using nd [OF that(2)] that old l by (auto simp: linked_def split: if_splits)
  have fresh: "node v root q \<noteq> Some t" if "length q \<le> 3" "idx_ok q" for q
    using old [OF that] l by (auto simp: linked_def)
  have "q = q'" if "length q \<le> 3" "length q' \<le> 3" "idx_ok q" "idx_ok q'"
      "node v' root q = Some g" "node v' root q' = Some g" for q q' g
    using that nd [OF that(3)] nd [OF that(4)] fresh [OF that(1,3)] fresh [OF that(2,4)]
      tree_inj [OF tree that(1-4)] by (auto split: if_splits)
  moreover have "\<not> huge (rd v' root j)" if "j < 512" for j
    using tree l root that table_entry(2) [of t] by (auto simp: tree_ok_def linked_def)
  moreover have "pmm_inv (frames v')" using l by (simp add: linked_def)
  ultimately have "tree_ok v' root"
    using own by (simp add: tree_ok_def)
  moreover have "walk v' root q = walk v root q" if "idx_ok q" "length q = 4" for q
    using linked_node(2) [OF tree p i absent l that(1)] that(2) by simp
  moreover have "node v' root q = Some g" if "idx_ok q" "length q \<le> 3" "node v root q = Some g" for q g
  proof -
    have "q \<noteq> p @ [i]" using that(3) absent p(3) by (auto simp: node_append)
    with nd [OF that(1)] that(2,3) show ?thesis by simp
  qed
  moreover have "node v root q = Some g \<or> \<not> pmm_owns_page (frames v) g"
      if "idx_ok q" "length q \<le> 3" "node v' root q = Some g" for q g
    using nd [OF that(1)] that(2,3) l by (auto simp: linked_def split: if_splits)
  moreover have "pmem v' a = pmem v a" if "pmm_owns_page (frames v) (a AND PAGE_MASK)"
      "\<forall>q. idx_ok q \<longrightarrow> length q \<le> 3 \<longrightarrow> node v root q \<noteq> Some (a AND PAGE_MASK)" for a
    using l that p(2,3) len by (auto simp: linked_def)
  moreover have nt: "node v' root (p @ [i]) = Some t"
    using nd [of "p @ [i]"] p(1,2) i by simp
  moreover have lo: "pmm_owns_page (frames v') b \<longleftrightarrow> b = t \<or> pmm_owns_page (frames v) b" for b
    using l by (simp add: linked_def)
  moreover have "table_of v' root t" using p(1,2) i nt unfolding table_of_def by (intro exI [of _ "p @ [i]"]) simp
  then have "no_leak root v v'" using lo by (auto simp: no_leak_def)
  moreover have "pmm_owns_page (frames v') b" if "pmm_owns_page (frames v) b" for b
    using lo that by simp
  moreover have "v' = v\<lparr>frames := frames v', pmem := pmem v'\<rparr>" using l unfolding linked_def by blast
  ultimately show ?thesis unfolding grown_def by blast
qed

lemma grown_trans:
  assumes "grown root u v" "grown root v w"
  shows "grown root u w"
  unfolding grown_def
proof (intro conjI allI impI)
  fix a
  assume a: "pmm_owns_page (frames u) (a AND PAGE_MASK)"
    and n: "\<forall>q. idx_ok q \<longrightarrow> length q \<le> 3 \<longrightarrow> node u root q \<noteq> Some (a AND PAGE_MASK)"
  have "node v root q \<noteq> Some (a AND PAGE_MASK)" if "idx_ok q" "length q \<le> 3" for q
    using assms(1) a n that unfolding grown_def by blast
  moreover have "pmm_owns_page (frames v) (a AND PAGE_MASK)"
    using assms(1) a by (simp add: grown_def)
  ultimately have "pmem w a = pmem v a" using assms(2) by (simp add: grown_def)
  also have "\<dots> = pmem u a" using assms(1) a n by (simp add: grown_def)
  finally show "pmem w a = pmem u a" .
next
  have "w = v\<lparr>frames := frames w, pmem := pmem w\<rparr>" using assms(2) by (simp only: grown_def)
  also have "v = u\<lparr>frames := frames v, pmem := pmem v\<rparr>" using assms(1) by (simp only: grown_def)
  finally show "w = u\<lparr>frames := frames w, pmem := pmem w\<rparr>" by simp
next
  show "tree_ok w root" using assms(2) by (simp add: grown_def)
next
  fix q f
  assume "idx_ok q" "length q \<le> 3" "node w root q = Some f"
  then show "node u root q = Some f \<or> \<not> pmm_owns_page (frames u) f"
    using assms unfolding grown_def by blast
next
  fix q f
  assume "idx_ok q" "length q \<le> 3" "node u root q = Some f"
  then show "node w root q = Some f"
    using assms unfolding grown_def by blast
next
  fix q
  assume "idx_ok q" "length q = 4"
  then show "walk w root q = walk u root q"
    using assms by (simp add: grown_def)
next
  fix b
  assume "pmm_owns_page (frames u) b"
  then show "pmm_owns_page (frames w) b"
    using assms by (simp add: grown_def)
next
  have "table_of w root b" if "table_of v root b" for b using assms(2) that unfolding grown_def table_of_def by blast
  moreover have "no_leak root u v" "no_leak root v w" using assms unfolding grown_def by blast+
  ultimately show "no_leak root u w" unfolding no_leak_def by blast
qed

lemma ensure_table_grown:
  assumes tree: "tree_ok v root" and p: "length p \<le> 2" "idx_ok p" "node v root p = Some f"
    and i: "i < 512" "\<not> huge (rd v f i)" and e: "ensure_table v f i = (r, v')"
  shows "grown root v v'" and "r = Some t \<Longrightarrow> node v' root (p @ [i]) = Some t" and "r = None \<Longrightarrow> fst (pmm_alloc_page (frames v')) = PHYS_NULL"
proof -
  have own: "pmm_owns_page (frames v) f" by (rule tree_owned [OF tree _ p(2,3)]) (use p in simp)
  have "grown root v v' \<and> (r = Some t \<longrightarrow> node v' root (p @ [i]) = Some t) \<and>
      (r = None \<longrightarrow> fst (pmm_alloc_page (frames v')) = PHYS_NULL)"
    using tree_pmm [OF tree] own i(1)
  proof (cases rule: ensure_table_cases)
    case (fresh t v')
    with linked_grown [OF tree p i(1) fresh(2,3)] e show ?thesis by auto
  qed (use e tree i(2) p(3) in \<open>auto simp: grown_refl node_append\<close>)
  then show "grown root v v'" and "r = Some t \<Longrightarrow> node v' root (p @ [i]) = Some t"
    and "r = None \<Longrightarrow> fst (pmm_alloc_page (frames v')) = PHYS_NULL" by blast+
qed

section \<open>Mapping a page\<close>

text \<open>The table walk shared by \<open>vmm_map_page_into\<close> and \<open>vmm_map_page\<close>.\<close>

definition map_walk :: "vmm_state \<Rightarrow> u64 \<Rightarrow> u64 \<Rightarrow> u64 \<Rightarrow> u64 \<Rightarrow> bool \<times> vmm_state" where
  "map_walk v va pa flags root =
     (case ensure_table v root (PML4_IDX va) of
        (None, v1) \<Rightarrow> (False, v1)
      | (Some pdpt, v1) \<Rightarrow>
          if huge (rd v1 pdpt (PDPT_IDX va)) then (False, v1)
          else case ensure_table v1 pdpt (PDPT_IDX va) of
            (None, v2) \<Rightarrow> (False, v2)
          | (Some pd, v2) \<Rightarrow>
              if huge (rd v2 pd (PD_IDX va)) then (False, v2)
              else case ensure_table v2 pd (PD_IDX va) of
                (None, v3) \<Rightarrow> (False, v3)
              | (Some pt, v3) \<Rightarrow> (True, wr v3 pt (PT_IDX va) ((pa AND PAGE_MASK) OR flags)))"

lemma map_page_walks:
  "vmm_map_page_into v va pa flags root = (if root = 0 then (False, v) else map_walk v va pa flags root)"
  "vmm_map_page v va pa flags =
     (case current_pml4 v of None \<Rightarrow> (False, v) | Some root \<Rightarrow> map_walk v va pa flags root)"
  by (simp_all add: vmm_map_page_into_def vmm_map_page_def map_walk_def cong: option.case_cong)

text \<open>A walk is refused by a huge-page bit on the way or when the frames have run out.\<close>

definition map_blocked :: "vmm_state \<Rightarrow> u64 \<Rightarrow> u64 \<Rightarrow> bool" where
  "map_blocked v va root \<longleftrightarrow>
     fst (pmm_alloc_page (frames v)) = PHYS_NULL \<or>
     (\<exists>pdpt. node v root [PML4_IDX va] = Some pdpt \<and> huge (rd v pdpt (PDPT_IDX va))) \<or>
     (\<exists>pd. node v root [PML4_IDX va, PDPT_IDX va] = Some pd \<and> huge (rd v pd (PD_IDX va)))"

lemma map_walk_cases:
  assumes tree: "tree_ok v root"
  obtains (refused) v' where "map_walk v va pa flags root = (False, v')" "grown root v v'"
      "map_blocked v' va root"
  | (mapped) v' pt where
      "map_walk v va pa flags root = (True, wr v' pt (PT_IDX va) ((pa AND PAGE_MASK) OR flags))"
      "grown root v v'" "node v' root [PML4_IDX va, PDPT_IDX va, PD_IDX va] = Some pt"
proof -
  obtain r1 v1 where 1: "ensure_table v root (PML4_IDX va) = (r1, v1)" by fastforce
  have h: "\<not> huge (rd v root (PML4_IDX va))" using tree by (simp add: tree_ok_def)
  note e1 = ensure_table_grown [OF tree _ _ _ _ h 1, of "[]"]
  have g1: "grown root v v1" by (rule e1(1)) simp_all
  show ?thesis
  proof (cases r1)
    case None
    with 1 g1 e1(3) show ?thesis by (intro refused [of v1]) (simp_all add: map_walk_def map_blocked_def)
  next
    case (Some pdpt)
    then have n1: "node v1 root [PML4_IDX va] = Some pdpt" using e1(2) by simp
    show ?thesis
    proof (cases "huge (rd v1 pdpt (PDPT_IDX va))")
      case True
      with 1 g1 n1 Some show ?thesis by (intro refused [of v1]) (simp_all add: map_walk_def map_blocked_def)
    next
      case False
      obtain r2 v2 where 2: "ensure_table v1 pdpt (PDPT_IDX va) = (r2, v2)" by fastforce
      have t1: "tree_ok v1 root" using g1 by (simp add: grown_def)
      note e2 = ensure_table_grown [OF t1 _ _ n1 _ False 2]
      have g2: "grown root v v2" by (rule grown_trans [OF g1 e2(1)]) simp_all
      show ?thesis
      proof (cases r2)
        case None
        with 1 2 g2 e2(3) Some False show ?thesis
          by (intro refused [of v2]) (simp_all add: map_walk_def map_blocked_def)
      next
        case S2: (Some pd)
        then have n2: "node v2 root [PML4_IDX va, PDPT_IDX va] = Some pd" using e2(2) by simp
        obtain r3 v3 where 3: "ensure_table v2 pd (PD_IDX va) = (r3, v3)" by fastforce
        show ?thesis
        proof (cases "huge (rd v2 pd (PD_IDX va))")
          case True
          with 1 2 g2 n2 Some S2 False show ?thesis
            by (intro refused [of v2]) (simp_all add: map_walk_def map_blocked_def)
        next
          case F2: False
          have t2: "tree_ok v2 root" using g2 by (simp add: grown_def)
          note e3 = ensure_table_grown [OF t2 _ _ n2 _ F2 3]
          have g3: "grown root v v3" by (rule grown_trans [OF g2 e3(1)]) simp_all
          show ?thesis
          proof (cases r3)
            case None
            with 1 2 3 g3 e3(3) Some S2 False F2 show ?thesis
              by (intro refused [of v3]) (simp_all add: map_walk_def map_blocked_def)
          next
            case S3: (Some pt)
            with e3(2) have "node v3 root [PML4_IDX va, PDPT_IDX va, PD_IDX va] = Some pt" by simp
            with 1 2 3 g3 Some S2 S3 False F2 show ?thesis
              by (intro mapped [of v3 pt]) (simp_all add: map_walk_def)
          qed
        qed
      qed
    qed
  qed
qed

text \<open>Writing an entry of a last-level table changes one translation and no table.\<close>

lemma write_pt:
  assumes tree: "tree_ok v root" and p: "length p = 3" "idx_ok p" "node v root p = Some f" and i: "i < 512"
  shows "tree_ok (wr v f i x) root"
    and "idx_ok q \<Longrightarrow> length q = 4 \<Longrightarrow>
         walk (wr v f i x) root q = (if q = p @ [i] then leaf x else walk v root q)"
    and "idx_ok q \<Longrightarrow> length q \<le> 3 \<Longrightarrow> node (wr v f i x) root q = node v root q"
proof -
  have len: "length p \<le> 3" using p(1) by simp
  have al: "frame_aligned f" by (rule tree_aligned [OF tree len p(2,3)])
  have other: "rd (wr v f i x) g j = rd v g j"
    if "frame_aligned g" "pmm_owns_page (frames v) g" "j < 512" "(g, j) \<noteq> (f, i)" for g j
    using that al i by (auto simp: rd_wr)
  have apart: "node (wr v f i x) root q = node v root q" "walk (wr v f i x) root q = walk v root q"
    if "idx_ok q" "length q \<le> 4" "\<nexists>s. q = p @ i # s" for q
    by (rule write_apart [OF tree len p(2,3) i other that]; assumption)+
  show nd: "node (wr v f i x) root q = node v root q" if "idx_ok q" "length q \<le> 3" for q
    by (rule apart(1)) (use that p(1) in auto)
  show "walk (wr v f i x) root q = (if q = p @ [i] then leaf x else walk v root q)"
    if "idx_ok q" "length q = 4"
  proof (cases "q = p @ [i]")
    case True
    have "rd (wr v f i x) f i = x" using al i by (simp add: rd_wr)
    moreover have "node (wr v f i x) root p = Some f" using nd [OF p(2) len] p(3) by simp
    ultimately show ?thesis using True walk_append [of "[i]" "wr v f i x" root p f] by simp
  next
    case False
    then have "\<nexists>s. q = p @ i # s" using that(2) p(1) by auto
    then show ?thesis using apart(2) [OF that(1)] that(2) False by simp
  qed
  have root: "pmm_owns_page (frames v) root" by (rule tree_owned [OF tree, of "[]"]) simp_all
  have "f \<noteq> root" using tree_inj [OF tree len _ p(2), of "[]" f] p(1,3) by auto
  then have "rd (wr v f i x) root j = rd v root j" if "j < 512" for j
    using other [OF owned_aligned [OF tree_pmm [OF tree] root] root that] by simp
  with tree nd show "tree_ok (wr v f i x) root" by (auto simp: tree_ok_def)
qed

lemma grown_walk: "grown root v v' \<Longrightarrow> walk v' root (page_path va) = walk v root (page_path va)"
  by (simp add: grown_def)

lemma grown_node_back:
  "grown root v v' \<Longrightarrow> idx_ok q \<Longrightarrow> length q \<le> 3 \<Longrightarrow> node v' root q = Some f \<Longrightarrow>
   node v root q = Some f \<or> \<not> pmm_owns_page (frames v) f"
  by (simp add: grown_def)

lemma idx3: "idx_ok [PML4_IDX va, PDPT_IDX va, PD_IDX va]" "length [PML4_IDX va, PDPT_IDX va, PD_IDX va] \<le> 3"
  by simp_all

lemma page_path_split: "page_path va = [PML4_IDX va, PDPT_IDX va, PD_IDX va] @ [PT_IDX va]"
  by (simp add: page_path_def)

text \<open>Everything a successful or refused mapping may change.\<close>

definition foreign :: "vmm_state \<Rightarrow> u64 \<Rightarrow> u64 \<Rightarrow> bool" where
  "foreign v root a \<longleftrightarrow> pmm_owns_page (frames v) (a AND PAGE_MASK) \<and>
     (\<forall>q. idx_ok q \<longrightarrow> length q \<le> 3 \<longrightarrow> node v root q \<noteq> Some (a AND PAGE_MASK))"

lemma map_walk_spec:
  assumes tree: "tree_ok v root" and m: "map_walk v va pa flags root = (ok, v')"
  shows "tree_ok v' root"
    and "walk v' root (page_path va') =
           (if ok \<and> page_path va' = page_path va then leaf ((pa AND PAGE_MASK) OR flags)
            else walk v root (page_path va'))"
    and "ok \<or> map_blocked v' va root"
    and "pmm_owns_page (frames v) b \<Longrightarrow> pmm_owns_page (frames v') b"
    and "foreign v root a \<Longrightarrow> pmem v' a = pmem v a"
    and "v' = v\<lparr>frames := frames v', pmem := pmem v'\<rparr>"
    and "idx_ok q \<Longrightarrow> length q \<le> 3 \<Longrightarrow> node v' root q = Some f \<Longrightarrow>
         node v root q = Some f \<or> \<not> pmm_owns_page (frames v) f"
proof -
  have "tree_ok v' root \<and>
      walk v' root (page_path va') =
        (if ok \<and> page_path va' = page_path va then leaf ((pa AND PAGE_MASK) OR flags)
         else walk v root (page_path va')) \<and>
      (ok \<or> map_blocked v' va root) \<and>
      (pmm_owns_page (frames v) b \<longrightarrow> pmm_owns_page (frames v') b) \<and>
      (foreign v root a \<longrightarrow> pmem v' a = pmem v a) \<and> v' = v\<lparr>frames := frames v', pmem := pmem v'\<rparr> \<and>
      (idx_ok q \<longrightarrow> length q \<le> 3 \<longrightarrow> node v' root q = Some f \<longrightarrow>
         node v root q = Some f \<or> \<not> pmm_owns_page (frames v) f)"
    using tree
  proof (cases rule: map_walk_cases [where va = va and pa = pa and flags = flags])
    case (refused v1)
    then have "v' = v1" "\<not> ok" using m by simp_all
    moreover have "v1 = v\<lparr>frames := frames v1, pmem := pmem v1\<rparr>" using refused(2) by (simp only: grown_def)
    moreover have "idx_ok q \<longrightarrow> length q \<le> 3 \<longrightarrow> node v1 root q = Some f \<longrightarrow>
        node v root q = Some f \<or> \<not> pmm_owns_page (frames v) f"
      using grown_node_back [OF refused(2)] by blast
    moreover have "tree_ok v1 root" "pmm_owns_page (frames v) b \<longrightarrow> pmm_owns_page (frames v1) b"
        "foreign v root a \<longrightarrow> pmem v1 a = pmem v a"
      using refused(2) unfolding grown_def foreign_def by blast+
    ultimately show ?thesis using refused(3) grown_walk [OF refused(2)] by simp
  next
    case (mapped v1 pt)
    let ?p = "[PML4_IDX va, PDPT_IDX va, PD_IDX va]"
    have v': "v' = wr v1 pt (PT_IDX va) ((pa AND PAGE_MASK) OR flags)" "ok" using m mapped(1) by simp_all
    have t1: "tree_ok v1 root" using mapped(2) by (simp add: grown_def)
    note w = write_pt [OF t1 _ _ mapped(3) IDX_less(4) [of va], where x = "(pa AND PAGE_MASK) OR flags"]
    have "pmem v' a = pmem v a" if "foreign v root a"
    proof -
      have "node v root ?p = Some pt \<or> \<not> pmm_owns_page (frames v) pt"
        by (rule grown_node_back [OF mapped(2) _ _ mapped(3)]) simp_all
      moreover have "node v root ?p \<noteq> Some (a AND PAGE_MASK)"
        using that unfolding foreign_def using idx3 by blast
      ultimately have "a AND PAGE_MASK \<noteq> pt" using that unfolding foreign_def by blast
      moreover have "frame_aligned pt" by (rule tree_aligned [OF t1 _ _ mapped(3)]) simp_all
      ultimately have "a \<noteq> ent pt (PT_IDX va)" using page_of_ent IDX_less(4) by blast
      then have "pmem v' a = pmem v1 a" by (simp add: v' wr_def)
      with mapped(2) that show ?thesis by (simp add: grown_def foreign_def)
    qed
    moreover have "v' = v\<lparr>frames := frames v', pmem := pmem v'\<rparr>"
    proof -
      have "v1 = v\<lparr>frames := frames v1, pmem := pmem v1\<rparr>" using mapped(2) by (simp only: grown_def)
      then show ?thesis by (cases v; cases v1) (simp add: v' wr_def)
    qed
    moreover have "walk v' root (page_path va') =
        (if page_path va' = page_path va then leaf ((pa AND PAGE_MASK) OR flags) else walk v root (page_path va'))"
      unfolding v' grown_walk [OF mapped(2), symmetric] page_path_split [of va]
      by (rule w(2)) simp_all
    moreover have "idx_ok q \<longrightarrow> length q \<le> 3 \<longrightarrow> node v' root q = Some f \<longrightarrow>
        node v root q = Some f \<or> \<not> pmm_owns_page (frames v) f"
      using grown_node_back [OF mapped(2)] w(3) v'(1) by simp
    moreover have "tree_ok v' root" using v'(1) w(1) by simp
    moreover have "pmm_owns_page (frames v) b \<longrightarrow> pmm_owns_page (frames v') b"
      using v'(1) mapped(2) unfolding grown_def by simp
    ultimately show ?thesis using v'(2) by simp
  qed
  then show "tree_ok v' root"
    and "walk v' root (page_path va') =
           (if ok \<and> page_path va' = page_path va then leaf ((pa AND PAGE_MASK) OR flags)
            else walk v root (page_path va'))"
    and "ok \<or> map_blocked v' va root"
    and "pmm_owns_page (frames v) b \<Longrightarrow> pmm_owns_page (frames v') b"
    and "foreign v root a \<Longrightarrow> pmem v' a = pmem v a"
    and "v' = v\<lparr>frames := frames v', pmem := pmem v'\<rparr>"
    and "idx_ok q \<Longrightarrow> length q \<le> 3 \<Longrightarrow> node v' root q = Some f \<Longrightarrow>
         node v root q = Some f \<or> \<not> pmm_owns_page (frames v) f" by blast+
qed

section \<open>Unmapping and queries\<close>

lemma root_of_tree: "tree_ok v root \<Longrightarrow> root_of v root = Some root"
  using tree_owned [of v root "[]" root] by (auto simp: root_of_def pmm_owns_page_def)

lemma is_mapped_walk:
  assumes "tree_ok v root"
  shows "paging_is_mapped_into v va root \<longleftrightarrow> walk v root (page_path va) \<noteq> Unmapped"
proof -
  have "\<not> huge (rd v root (PML4_IDX va))" using assms by (simp add: tree_ok_def)
  then show ?thesis
    by (simp add: paging_is_mapped_into_def root_of_tree [OF assms] page_path_def Let_def leaf_def)
qed

lemma unmap_cases:
  assumes tree: "tree_ok v root"
  obtains (page) e pt where "walk v root (page_path va) = Page e" "present e"
      "node v root [PML4_IDX va, PDPT_IDX va, PD_IDX va] = Some pt"
      "vmm_unmap_page_from v va root = (e AND PAGE_MASK, wr v pt (PT_IDX va) 0)"
  | (none) "\<nexists>e. walk v root (page_path va) = Page e" "vmm_unmap_page_from v va root = (PHYS_NULL, v)"
proof -
  have h: "\<not> huge (rd v root (PML4_IDX va))" using tree by (simp add: tree_ok_def)
  show ?thesis
  proof (cases "node v root [PML4_IDX va, PDPT_IDX va, PD_IDX va]")
    case None
    with h show ?thesis
      by (intro none; auto simp: vmm_unmap_page_from_def root_of_tree [OF tree] page_path_def Let_def split: if_splits)
  next
    case (Some pt)
    have w: "walk v root (page_path va) = leaf (rd v pt (PT_IDX va))"
      using walk_append [OF _ Some, of "[PT_IDX va]"] by (simp add: page_path_split)
    have u: "vmm_unmap_page_from v va root =
        (if present (rd v pt (PT_IDX va))
         then (rd v pt (PT_IDX va) AND PAGE_MASK, wr v pt (PT_IDX va) 0) else (PHYS_NULL, v))"
      using Some by (simp add: vmm_unmap_page_from_def root_of_tree [OF tree] Let_def split: if_splits)
    show ?thesis
    proof (cases "present (rd v pt (PT_IDX va))")
      case True
      with w u Some show ?thesis by (intro page) (simp_all add: leaf_def)
    next
      case False
      with w u show ?thesis by (intro none) (simp_all add: leaf_def)
    qed
  qed
qed

lemma unmap_spec:
  assumes tree: "tree_ok v root" and u: "vmm_unmap_page_from v va root = (pa, v')"
  shows "tree_ok v' root"
    and "walk v root (page_path va) = Page e \<Longrightarrow> pa = e AND PAGE_MASK"
    and "walk v root (page_path va) = Page e \<Longrightarrow>
         walk v' root (page_path va') =
           (if page_path va' = page_path va then Unmapped else walk v root (page_path va'))"
    and "\<nexists>e. walk v root (page_path va) = Page e \<Longrightarrow> pa = PHYS_NULL \<and> v' = v"
    and "frames v' = frames v"
proof -
  have "tree_ok v' root \<and>
      (walk v root (page_path va) = Page e \<longrightarrow> pa = e AND PAGE_MASK \<and>
         walk v' root (page_path va') =
           (if page_path va' = page_path va then Unmapped else walk v root (page_path va'))) \<and>
      ((\<nexists>e. walk v root (page_path va) = Page e) \<longrightarrow> pa = PHYS_NULL \<and> v' = v) \<and> frames v' = frames v"
    using tree
  proof (cases rule: unmap_cases [where va = va])
    case (page e' pt)
    note w = write_pt [OF tree _ _ page(3) IDX_less(4) [of va], where x = 0]
    from page(1,4) u have "v' = wr v pt (PT_IDX va) 0" "pa = e' AND PAGE_MASK" by simp_all
    with page(1) w(1) w(2) [of "page_path va'"] show ?thesis
      by (simp add: page_path_split [of va] leaf_def)
  qed (use tree u in simp)
  then show "tree_ok v' root"
    and "walk v root (page_path va) = Page e \<Longrightarrow> pa = e AND PAGE_MASK"
    and "walk v root (page_path va) = Page e \<Longrightarrow>
         walk v' root (page_path va') =
           (if page_path va' = page_path va then Unmapped else walk v root (page_path va'))"
    and "\<nexists>e. walk v root (page_path va) = Page e \<Longrightarrow> pa = PHYS_NULL \<and> v' = v"
    and "frames v' = frames v" by blast+
qed

section \<open>A new address space\<close>

lemma clone_entries_spec:
  assumes "frame_aligned src" "frame_aligned dst" "src \<noteq> dst" "\<forall>i \<in> set is. i < 512"
  shows "(\<forall>g j. frame_aligned g \<longrightarrow> j < 512 \<longrightarrow>
           rd (clone_entries src dst is v) g j =
             (if g = dst \<and> unat j \<in> set is then rd v src j else rd v g j)) \<and>
         (\<forall>a. a AND PAGE_MASK \<noteq> dst \<longrightarrow> pmem (clone_entries src dst is v) a = pmem v a) \<and>
         clone_entries src dst is v = v\<lparr>pmem := pmem (clone_entries src dst is v)\<rparr>"
  using assms
proof (induction "is" arbitrary: v)
  case (Cons i js)
  let ?i = "of_nat i :: u64" and ?v = "wr v dst (of_nat i) (rd v src (of_nat i))"
  let ?c = "clone_entries src dst js ?v"
  have i: "unat ?i = i" "?i < 512" using Cons.prems(4) by (auto simp: word_less_nat_alt)
  have IH: "rd ?c g j = (if g = dst \<and> unat j \<in> set js then rd ?v src j else rd ?v g j)"
      "a AND PAGE_MASK \<noteq> dst \<Longrightarrow> pmem ?c a = pmem ?v a" "?c = ?v\<lparr>pmem := pmem ?c\<rparr>"
    if "frame_aligned g" "j < 512" for g j a
    using Cons.IH [OF Cons.prems(1-3), of ?v] Cons.prems(4) that by auto
  have "rd ?c g j = (if g = dst \<and> unat j \<in> set (i # js) then rd v src j else rd v g j)"
    if "frame_aligned g" "j < 512" for g j
  proof -
    have "j = ?i \<longleftrightarrow> unat j = i" using i(1) by (auto simp: word_unat_eq_iff)
    then show ?thesis
      using IH(1) [OF that] rd_wr [OF Cons.prems(2) _ i(2) that(2)] that(1) Cons.prems(1,3) by auto
  qed
  moreover have "pmem ?c a = pmem v a" if "a AND PAGE_MASK \<noteq> dst" for a
  proof -
    have "a \<noteq> ent dst ?i" using page_of_ent [OF Cons.prems(2) i(2)] that by blast
    then have "pmem ?v a = pmem v a" by (simp add: wr_def)
    then show ?thesis using IH(2) [OF Cons.prems(1) i(2) that] by simp
  qed
  moreover have "?c = v\<lparr>pmem := pmem ?c\<rparr>"
    using IH(3) [OF Cons.prems(1) i(2)] by (cases v) (simp add: wr_def)
  ultimately show ?case by simp
qed simp

text \<open>
  The new root holds the kernel's entries 256 to 511 and nothing below: every kernel-half
  address translates as it does under the kernel's own table.
\<close>

lemma create_address_space_spec:
  assumes tree: "tree_ok v kroot" and k: "current_pml4 v = Some kroot"
    and c: "vmm_create_address_space v = (root, v')" "root \<noteq> PHYS_NULL"
  shows "\<not> pmm_owns_page (frames v) root \<and> frame_aligned root \<and> pmm_inv (frames v') \<and>
    (\<forall>b. pmm_owns_page (frames v') b \<longleftrightarrow> b = root \<or> pmm_owns_page (frames v) b) \<and>
    (\<forall>j < 512. rd v' root j = (if unat j < 256 then 0 else rd v kroot j)) \<and>
    (\<forall>a. pmm_owns_page (frames v) (a AND PAGE_MASK) \<longrightarrow> pmem v' a = pmem v a) \<and>
    current_pml4 v' = current_pml4 v"
proof -
  have ko: "pmm_owns_page (frames v) kroot" by (rule tree_owned [OF tree, of "[]"]) simp_all
  have inv: "pmm_inv (frames v)" by (rule tree_pmm [OF tree])
  from inv show ?thesis
  proof (cases rule: alloc_page_virt_cases)
    case oom
    with c k show ?thesis by (simp add: vmm_create_address_space_def del: upt_rec_numeral)
  next
    case (fresh t v1)
    have r: "root = t" "v' = clone_entries kroot t [256..<512] v1"
      using c(1) k fresh(1) by (auto simp add: vmm_create_address_space_def simp del: upt_rec_numeral)
    have al: "frame_aligned kroot" "kroot \<noteq> t"
      using owned_aligned [OF inv ko] ko fresh(4) by auto
    have "\<forall>i \<in> set [256..<512]. i < 512" by (simp only: set_upt) simp
    note cs = clone_entries_spec [OF al(1) fresh(2) al(2) this, of v1, folded r(2), unfolded set_upt]
    have cl: "\<And>g j. frame_aligned g \<Longrightarrow> j < 512 \<Longrightarrow>
        rd v' g j = (if g = t \<and> 256 \<le> unat j \<and> unat j < 512 then rd v1 kroot j else rd v1 g j)"
      "\<And>a. a AND PAGE_MASK \<noteq> t \<Longrightarrow> pmem v' a = pmem v1 a" "v' = v1\<lparr>pmem := pmem v'\<rparr>"
      using cs [THEN conjunct1] apply simp
      using cs [THEN conjunct2, THEN conjunct1] apply simp
      using cs by (elim conjE)
    have fr: "frames v' = frames v1" by (subst cl(3)) simp
    have "current_pml4 v' = current_pml4 v" by (subst cl(3), subst fresh(9)) simp
    moreover have keep: "pmem v' a = pmem v a" if "pmm_owns_page (frames v) (a AND PAGE_MASK)" for a
    proof -
      have "a AND PAGE_MASK \<noteq> t" using that fresh(4) by blast
      with cl(2) fresh(8) [of a] show ?thesis by simp
    qed
    moreover have "rd v' root j = (if unat j < 256 then 0 else rd v kroot j)" if "j < 512" for j
    proof -
      have "unat j < 512" using that by (simp add: word_less_nat_alt)
      moreover have "rd v1 kroot j = rd v kroot j"
        unfolding rd_def by (rule fresh(8)) (use page_of_ent [OF al(1) that] al(2) in simp)
      ultimately show ?thesis using cl(1) [OF fresh(2) that] fresh(7) [OF that] r(1) by simp
    qed
    ultimately show ?thesis using fresh(2,4,5,6) fr r(1) by simp
  qed
qed

section \<open>Mapping succeeds while frames last\<close>

definition pmm_room :: "pmm_state \<Rightarrow> nat" where
  "pmm_room s = card ({..<total_pages s} - used_set s)"

lemma alloc_room:
  assumes "pmm_inv s" "0 < pmm_room s"
  shows "fst (pmm_alloc_page s) \<noteq> PHYS_NULL" "pmm_room s \<le> Suc (pmm_room (snd (pmm_alloc_page s)))"
proof -
  have "\<not> (\<forall>i < total_pages s. i \<in> used_set s)"
    using assms(2) by (auto simp: pmm_room_def card_gt_0_iff)
  then show "fst (pmm_alloc_page s) \<noteq> PHYS_NULL" by (simp add: pmm_alloc_null_iff [OF assms(1)])
  from assms(1) show "pmm_room s \<le> Suc (pmm_room (snd (pmm_alloc_page s)))"
  proof (cases rule: pmm_alloc_page_cases)
    case (frame i s')
    then have "{..<total_pages s} - used_set s = insert i ({..<total_pages s'} - used_set s')"
      unfolding frame(7,10) by blast
    then have "pmm_room s \<le> Suc (pmm_room s')" by (simp add: pmm_room_def card_insert_if)
    with frame(1) show ?thesis by simp
  qed simp
qed

lemma ensure_table_room:
  assumes "pmm_inv (frames v)" "pmm_owns_page (frames v) f" "i < 512" "0 < pmm_room (frames v)"
  obtains t v' where "ensure_table v f i = (Some t, v')" "pmm_room (frames v) \<le> Suc (pmm_room (frames v'))"
    "v' = v \<and> present (rd v f i) \<and> t = rd v f i AND PAGE_MASK \<or> (\<forall>j < 512. rd v' t j = 0)"
  using assms(1-3)
proof (cases rule: ensure_table_cases)
  case oom
  with alloc_room(1) [OF assms(1,4)] show ?thesis by simp
next
  case there
  show ?thesis by (rule that [OF there(1)]) (use there(2) in simp_all)
next
  case (fresh t v')
  have "frames v' = snd (pmm_alloc_page (frames v))"
    using fresh(1,2) by (cases "pmm_alloc_page (frames v)")
      (auto simp: ensure_table_def alloc_page_virt_def Let_def wr_def split: if_splits)
  then have "pmm_room (frames v) \<le> Suc (pmm_room (frames v'))" using alloc_room(2) [OF assms(1,4)] by simp
  moreover have "\<forall>j < 512. rd v' t j = 0" using fresh(3) unfolding linked_def by blast
  ultimately show ?thesis using that [OF fresh(1)] by blast
qed

definition huge_on_path :: "vmm_state \<Rightarrow> u64 \<Rightarrow> u64 \<Rightarrow> bool" where
  "huge_on_path v va root \<longleftrightarrow>
     (\<exists>pdpt. node v root [PML4_IDX va] = Some pdpt \<and> huge (rd v pdpt (PDPT_IDX va))) \<or>
     (\<exists>pd. node v root [PML4_IDX va, PDPT_IDX va] = Some pd \<and> huge (rd v pd (PD_IDX va)))"

lemma map_walk_succeeds:
  assumes tree: "tree_ok v root" and room: "3 \<le> pmm_room (frames v)" and h: "\<not> huge_on_path v va root"
  shows "fst (map_walk v va pa flags root)"
proof -
  have own: "pmm_owns_page (frames v) root" by (rule tree_owned [OF tree, of "[]"]) simp_all
  have h4: "\<not> huge (rd v root (PML4_IDX va))" using tree by (simp add: tree_ok_def)
  obtain pdpt v1 where 1: "ensure_table v root (PML4_IDX va) = (Some pdpt, v1)"
      "pmm_room (frames v) \<le> Suc (pmm_room (frames v1))"
      "v1 = v \<and> present (rd v root (PML4_IDX va)) \<and> pdpt = rd v root (PML4_IDX va) AND PAGE_MASK \<or>
       (\<forall>j < 512. rd v1 pdpt j = 0)"
    using ensure_table_room [OF tree_pmm [OF tree] own, of "PML4_IDX va"] room by auto
  note e1 = ensure_table_grown [OF tree _ _ _ _ h4 1(1), of "[]"]
  have t1: "tree_ok v1 root" and n1: "node v1 root [PML4_IDX va] = Some pdpt"
    using e1(1,2) by (simp_all add: grown_def)
  have h3: "\<not> huge (rd v1 pdpt (PDPT_IDX va))"
    using 1(3) h n1 unfolding huge_on_path_def by (auto simp del: node.simps)
  have own1: "pmm_owns_page (frames v1) pdpt" by (rule tree_owned [OF t1 _ _ n1]) simp_all
  obtain pd v2 where 2: "ensure_table v1 pdpt (PDPT_IDX va) = (Some pd, v2)"
      "pmm_room (frames v1) \<le> Suc (pmm_room (frames v2))"
      "v2 = v1 \<and> present (rd v1 pdpt (PDPT_IDX va)) \<and> pd = rd v1 pdpt (PDPT_IDX va) AND PAGE_MASK \<or>
       (\<forall>j < 512. rd v2 pd j = 0)"
    using ensure_table_room [OF tree_pmm [OF t1] own1, of "PDPT_IDX va"] room 1(2) by auto
  note e2 = ensure_table_grown [OF t1 _ _ n1 _ h3 2(1)]
  have t2: "tree_ok v2 root" and n2: "node v2 root [PML4_IDX va, PDPT_IDX va] = Some pd"
    using e2(1,2) by (simp_all add: grown_def)
  have h2: "\<not> huge (rd v2 pd (PD_IDX va))"
    using 1(3) 2(3) h n2 unfolding huge_on_path_def by (auto simp del: node.simps)
  have own2: "pmm_owns_page (frames v2) pd" by (rule tree_owned [OF t2 _ _ n2]) simp_all
  obtain pt v3 where "ensure_table v2 pd (PD_IDX va) = (Some pt, v3)"
    by (rule ensure_table_room [OF tree_pmm [OF t2] own2, of "PD_IDX va"]) (use room 1(2) 2(2) in auto)
  with 1(1) 2(1) h3 h2 show ?thesis by (simp add: map_walk_def)
qed

section \<open>Allocate and map\<close>

lemma rd_frames [simp]: "rd (v\<lparr>frames := fr\<rparr>) = rd v"
  by (simp add: rd_def fun_eq_iff)

lemma node_frames [simp]: "node (v\<lparr>frames := fr\<rparr>) root q = node v root q"
  by (rule node_cong) simp

lemma walk_frames [simp]: "walk (v\<lparr>frames := fr\<rparr>) root q = walk v root q"
  by (rule walk_cong) simp

lemma tree_ok_frames:
  assumes "tree_ok v root" "pmm_inv fr"
    and "\<And>q f. length q \<le> 3 \<Longrightarrow> idx_ok q \<Longrightarrow> node v root q = Some f \<Longrightarrow> pmm_owns_page fr f"
  shows "tree_ok (v\<lparr>frames := fr\<rparr>) root"
  using assms unfolding tree_ok_def by simp

text \<open>
  The common body of \<open>vmm_alloc_page_into\<close> and \<open>vmm_alloc_page_kernel\<close>: on failure the frame
  is given back, so that only empty tables may remain of the attempt.
\<close>

definition alloc_walk :: "vmm_state \<Rightarrow> u64 \<Rightarrow> u64 \<Rightarrow> u64 \<Rightarrow> bool \<times> vmm_state" where
  "alloc_walk v va flags root =
     (let (paddr, fr) = pmm_alloc_page (frames v); v1 = v\<lparr>frames := fr\<rparr>
      in if paddr = PHYS_NULL then (False, v1)
         else let (ok, v2) = map_walk v1 va paddr flags root
              in if \<not> ok then (False, vmm_free v2 paddr) else (True, v2))"

lemma alloc_page_walks:
  "root \<noteq> 0 \<Longrightarrow> vmm_alloc_page_into v va flags root = alloc_walk v va flags root"
  "kernel_pml4_phys v \<noteq> 0 \<Longrightarrow> vmm_alloc_page_kernel v va flags = alloc_walk v va flags (kernel_pml4_phys v)"
  by (simp_all add: vmm_alloc_page_into_def vmm_alloc_page_kernel_def vmm_map_page_kernel_def alloc_walk_def
      map_page_walks Let_def split: prod.split)

lemma alloc_walk_spec:
  assumes tree: "tree_ok v root" and m: "alloc_walk v va flags root = (ok, v')"
  shows "tree_ok v' root" and "v' = v\<lparr>frames := frames v', pmem := pmem v'\<rparr>"
    and "\<not> ok \<Longrightarrow> walk v' root (page_path va') = walk v root (page_path va')"
    and "ok \<Longrightarrow> \<exists>pa. pa = fst (pmm_alloc_page (frames v)) \<and> pa \<noteq> 0 \<and> frame_aligned pa \<and> \<not> pmm_owns_page (frames v) pa \<and> pmm_owns_page (frames v') pa \<and>
           (\<forall>q. idx_ok q \<longrightarrow> length q \<le> 3 \<longrightarrow> node v' root q \<noteq> Some pa) \<and>
           (\<forall>va'. walk v' root (page_path va') =
             (if page_path va' = page_path va then leaf (pa OR flags) else walk v root (page_path va')))"
    and "pmm_owns_page (frames v) b \<Longrightarrow> pmm_owns_page (frames v') b"
    and "foreign v root a \<Longrightarrow> pmem v' a = pmem v a"
    and "idx_ok q \<Longrightarrow> length q \<le> 3 \<Longrightarrow> node v' root q = Some f \<Longrightarrow>
         node v root q = Some f \<or> \<not> pmm_owns_page (frames v) f"
proof -
  have inv: "pmm_inv (frames v)" by (rule tree_pmm [OF tree])
  obtain pa fr where pf: "pmm_alloc_page (frames v) = (pa, fr)" by fastforce
  let ?v1 = "v\<lparr>frames := fr\<rparr>"
  have "tree_ok v' root \<and> v' = v\<lparr>frames := frames v', pmem := pmem v'\<rparr> \<and>
      (\<not> ok \<longrightarrow> walk v' root (page_path va') = walk v root (page_path va')) \<and>
      (ok \<longrightarrow> (\<exists>pa. pa = fst (pmm_alloc_page (frames v)) \<and> pa \<noteq> 0 \<and> frame_aligned pa \<and> \<not> pmm_owns_page (frames v) pa \<and> pmm_owns_page (frames v') pa \<and>
           (\<forall>q. idx_ok q \<longrightarrow> length q \<le> 3 \<longrightarrow> node v' root q \<noteq> Some pa) \<and>
           (\<forall>va'. walk v' root (page_path va') =
             (if page_path va' = page_path va then leaf (pa OR flags) else walk v root (page_path va'))))) \<and>
      (pmm_owns_page (frames v) b \<longrightarrow> pmm_owns_page (frames v') b) \<and>
      (foreign v root a \<longrightarrow> pmem v' a = pmem v a) \<and>
      (idx_ok q \<longrightarrow> length q \<le> 3 \<longrightarrow> node v' root q = Some f \<longrightarrow>
         node v root q = Some f \<or> \<not> pmm_owns_page (frames v) f)"
  proof (cases "pa = PHYS_NULL")
    case True
    then have "fr = frames v" using pmm.alloc_null [OF inv] pf by simp
    with True m pf tree show ?thesis by (auto simp: alloc_walk_def)
  next
    case False
    have fr: "pmm_inv fr" "\<not> pmm_owns_page (frames v) pa"
        "\<And>b. pmm_owns_page fr b \<longleftrightarrow> b = pa \<or> pmm_owns_page (frames v) b"
        "0x4800000 \<le> pa" "frame_aligned pa"
      using pmm.alloc_ok [OF inv] pmm.alloc_fresh [OF inv] pmm.alloc_owns [OF inv]
        pmm.alloc_releasable [OF inv] pmm.alloc_aligned [OF inv] pf False
      by (simp_all add: frame_aligned_def page_aligned_iff)
    have t1: "tree_ok ?v1 root"
      by (rule tree_ok_frames [OF tree fr(1)]) (use fr(3) tree_owned [OF tree] in blast)
    obtain k v2 where mw: "map_walk ?v1 va pa flags root = (k, v2)" by fastforce
    note ms = map_walk_spec [OF t1 mw]
    have v2: "v2 = v\<lparr>frames := frames v2, pmem := pmem v2\<rparr>" using ms(6) by simp
    have own: "pmm_owns_page (frames v2) b" if "b = pa \<or> pmm_owns_page (frames v) b" for b
      using ms(4) [of b] fr(3) that by simp
    have mem: "pmem v2 a = pmem v a" if "foreign v root a" for a
      using ms(5) [of a] that fr(3) by (simp add: foreign_def)
    have notpa: "node v2 root q \<noteq> Some pa" if "length q \<le> 3" "idx_ok q" for q
    proof
      assume "node v2 root q = Some pa"
      then have "node v root q = Some pa \<or> \<not> pmm_owns_page fr pa"
        using ms(7) [OF that(2,1)] by simp
      then show False using tree_owned [OF tree that] fr(2,3) by blast
    qed
    have nback: "idx_ok q \<longrightarrow> length q \<le> 3 \<longrightarrow> node v2 root q = Some f \<longrightarrow>
        node v root q = Some f \<or> \<not> pmm_owns_page (frames v) f"
      using ms(7) [of q f] fr(3) by auto
    show ?thesis
    proof (cases k)
      case True
      then have ok: "ok" "v' = v2" using m pf False mw by (simp_all add: alloc_walk_def)
      have "walk v2 root (page_path va') =
          (if page_path va' = page_path va then leaf (pa OR flags) else walk v root (page_path va'))" for va'
        using ms(2) [of va'] True page_frame [OF fr(5)] by simp
      moreover have "pa = fst (pmm_alloc_page (frames v))" "pmm_owns_page (frames v2) pa" using pf own by simp_all
      ultimately have "\<exists>pa. pa = fst (pmm_alloc_page (frames v)) \<and> pa \<noteq> 0 \<and> frame_aligned pa \<and> \<not> pmm_owns_page (frames v) pa \<and>
           pmm_owns_page (frames v') pa \<and> (\<forall>q. idx_ok q \<longrightarrow> length q \<le> 3 \<longrightarrow> node v' root q \<noteq> Some pa) \<and>
           (\<forall>va'. walk v' root (page_path va') =
             (if page_path va' = page_path va then leaf (pa OR flags) else walk v root (page_path va')))"
        unfolding ok(2) using fr(2,5) False notpa by (intro exI [of _ pa] conjI) auto
      moreover have "pmm_owns_page (frames v) b \<longrightarrow> pmm_owns_page (frames v') b" "foreign v root a \<longrightarrow> pmem v' a = pmem v a"
        unfolding ok(2) using own mem by auto
      ultimately show ?thesis using ms(1) v2 nback ok by blast
    next
      case k: False
      have v': "\<not> ok" "v' = vmm_free v2 pa" using m pf False mw k by (simp_all add: alloc_walk_def)
      let ?f = "pmm_release (frames v2) pa"
      have vf: "v' = v2\<lparr>frames := ?f\<rparr>" using v'(2) by (simp add: vmm_free_def pmm_release_def)
      have inv2: "pmm_inv (frames v2)" by (rule tree_pmm [OF ms(1)])
      have rel: "pmm_owns_page ?f b \<longleftrightarrow> b \<noteq> pa \<and> pmm_owns_page (frames v2) b" for b
        by (rule pmm.release_owns [OF inv2 own fr(4)]) simp
      have "tree_ok v' root"
        unfolding vf using rel notpa tree_owned [OF ms(1)] pmm.release_ok [OF inv2]
        by (intro tree_ok_frames [OF ms(1)]) auto
      moreover have "v' = v\<lparr>frames := frames v', pmem := pmem v'\<rparr>"
        unfolding vf using v2 by (cases v; cases v2) simp
      moreover have "walk v' root (page_path va') = walk v root (page_path va')"
        unfolding vf using ms(2) [of va'] k by simp
      moreover have "pmm_owns_page (frames v) b \<longrightarrow> pmm_owns_page (frames v') b"
        unfolding vf using rel own fr(2) by auto
      moreover have "foreign v root a \<longrightarrow> pmem v' a = pmem v a" unfolding vf using mem by simp
      moreover have "idx_ok q \<longrightarrow> length q \<le> 3 \<longrightarrow> node v' root q = Some f \<longrightarrow>
          node v root q = Some f \<or> \<not> pmm_owns_page (frames v) f"
        unfolding vf using nback by simp
      ultimately show ?thesis using v'(1) by blast
    qed
  qed
  then show "tree_ok v' root" and "v' = v\<lparr>frames := frames v', pmem := pmem v'\<rparr>"
    and "\<not> ok \<Longrightarrow> walk v' root (page_path va') = walk v root (page_path va')"
    and "ok \<Longrightarrow> \<exists>pa. pa = fst (pmm_alloc_page (frames v)) \<and> pa \<noteq> 0 \<and> frame_aligned pa \<and> \<not> pmm_owns_page (frames v) pa \<and> pmm_owns_page (frames v') pa \<and>
           (\<forall>q. idx_ok q \<longrightarrow> length q \<le> 3 \<longrightarrow> node v' root q \<noteq> Some pa) \<and>
           (\<forall>va'. walk v' root (page_path va') =
             (if page_path va' = page_path va then leaf (pa OR flags) else walk v root (page_path va')))"
    and "pmm_owns_page (frames v) b \<Longrightarrow> pmm_owns_page (frames v') b"
    and "foreign v root a \<Longrightarrow> pmem v' a = pmem v a"
    and "idx_ok q \<Longrightarrow> length q \<le> 3 \<Longrightarrow> node v' root q = Some f \<Longrightarrow>
         node v root q = Some f \<or> \<not> pmm_owns_page (frames v) f" by blast+
qed

section \<open>A small address space\<close>

text \<open>The witness input: an empty root table in frame 1 of the 16 MiB machine.\<close>

definition empty_vmm :: "pmm_state \<Rightarrow> vmm_state" where
  "empty_vmm s = \<lparr>frames = s, pmem = (\<lambda>_. 0), current_pml4 = Some 0x1000, kernel_pml4_phys = 0x1000,
     cr3 = 0x1000, percpu_cr3 = 0x1000\<rparr>"

lemma empty_vmm_node: "node (empty_vmm s) root p = Some f \<longleftrightarrow> p = [] \<and> f = root"
  by (cases p) (auto simp: empty_vmm_def rd_def)

lemma empty_vmm_walk [simp]: "walk (empty_vmm s) root p = Unmapped"
  by (cases "(empty_vmm s, root, p)" rule: walk.cases) (auto simp: empty_vmm_def rd_def leaf_def)

lemma empty_vmm_tree:
  assumes "pmm_inv s" "pmm_owns_page s root"
  shows "tree_ok (empty_vmm s) root"
  unfolding tree_ok_def empty_vmm_node using assms by (simp add: empty_vmm_def rd_def)

lemma empty_vmm_state:
  obtains s where "pmm_init_dynamic small_memmap = Some s" "pmm_inv s" "pmm_owns_page s 0x1000"
    "tree_ok (empty_vmm s) 0x1000" "4 \<le> pmm_room s" "\<And>va. \<not> huge_on_path (empty_vmm s) va 0x1000"
proof -
  obtain s where s: "pmm_init_dynamic small_memmap = Some s" "pmm_inv s" "bitmap_pages s = 22528"
      "\<And>i. 18433 \<le> i \<Longrightarrow> i < 22528 \<Longrightarrow> i \<notin> used_set s"
    by (rule small_pmm) blast
  have "1 \<in> used_set s"
    using s(2,3) by (elim pmm_invE) (simp add: used_set_def)
  then have own: "pmm_owns_page s 0x1000" by (simp add: pmm_owns_page_iff [OF s(2)])
  have "total_pages s = 22528" using s(2,3) by (auto elim: pmm_invE)
  then have "{18433..<18437} \<subseteq> {..<total_pages s} - used_set s" using s(4) by auto
  then have "card {18433..<18437 :: nat} \<le> pmm_room s" unfolding pmm_room_def by (intro card_mono) auto
  moreover have "\<not> huge_on_path (empty_vmm s) va 0x1000" for va
    unfolding huge_on_path_def empty_vmm_node by simp
  ultimately show ?thesis using that s(1,2) own empty_vmm_tree [OF s(2) own] by simp
qed

section \<open>Properties of mapping and unmapping\<close>

abbreviation same_page :: "u64 \<Rightarrow> u64 \<Rightarrow> bool" where
  "same_page a b \<equiv> take_bit 48 a AND PAGE_MASK = take_bit 48 b AND PAGE_MASK"

text \<open>
  C6. \<open>vmm_map_page_into\<close> is correct: on success the page of \<open>va\<close> translates to the frame of
  \<open>pa\<close> with the given flags, every other address of the space translates as before, no
  memory outside the page tables is written, and the tables still form a tree of distinct
  allocated frames. It fails only when a huge page is in the way or the frames have run
  out, and then no translation changes; with three free frames and no huge page on the path
  it succeeds.
\<close>

theorem vmm_map_page_into_correct:
  assumes "tree_ok v root" "vmm_map_page_into v va pa flags root = (ok, v')"
  shows "tree_ok v' root \<and>
    (\<forall>va'. walk v' root (page_path va') =
       (if ok \<and> same_page va' va then leaf ((pa AND PAGE_MASK) OR flags) else walk v root (page_path va'))) \<and>
    (ok \<or> map_blocked v' va root) \<and>
    (3 \<le> pmm_room (frames v) \<and> \<not> huge_on_path v va root \<longrightarrow> ok) \<and>
    (\<forall>a. foreign v root a \<longrightarrow> pmem v' a = pmem v a) \<and>
    (\<forall>b. pmm_owns_page (frames v) b \<longrightarrow> pmm_owns_page (frames v') b)"
proof -
  have "root \<noteq> 0" using tree_owned [OF assms(1), of "[]"] by (auto simp: pmm_owns_page_def)
  then have m: "map_walk v va pa flags root = (ok, v')" using assms(2) by (simp add: map_page_walks)
  show ?thesis
    using map_walk_spec [OF assms(1) m] map_walk_succeeds [OF assms(1), of va pa flags] m
    unfolding page_path_eq_iff by auto
qed

theorem vmm_map_page_into_correct_witness:
  "\<exists>s. pmm_init_dynamic small_memmap = Some s \<and>
     fst (vmm_map_page_into (empty_vmm s) 0x400000 0x5000000 7 0x1000) \<and>
     tree_ok (snd (vmm_map_page_into (empty_vmm s) 0x400000 0x5000000 7 0x1000)) 0x1000 \<and>
     walk (snd (vmm_map_page_into (empty_vmm s) 0x400000 0x5000000 7 0x1000)) 0x1000 (page_path 0x600000) = Unmapped"
proof -
  obtain s where s: "pmm_init_dynamic small_memmap = Some s" "tree_ok (empty_vmm s) 0x1000"
      "4 \<le> pmm_room s" "\<not> huge_on_path (empty_vmm s) 0x400000 0x1000"
    by (rule empty_vmm_state) blast
  have "3 \<le> pmm_room (frames (empty_vmm s))" using s(3) by (simp add: empty_vmm_def)
  with vmm_map_page_into_correct [OF s(2) prod.collapse [symmetric], of "0x400000" "0x5000000" 7] s(1,4)
  show ?thesis by (auto simp: take_bit_eq_mask mask_eq_exp_minus_1)
qed

text \<open>
  \<open>vmm_unmap_page_from\<close> returns the frame the page was mapped to and removes exactly that
  translation; on a page that is unmapped or inside a huge page it returns null and changes
  nothing. \<open>paging_is_mapped_into\<close> reports exactly the addresses that translate.
\<close>

theorem vmm_unmap_page_from_correct:
  assumes "tree_ok v root" "vmm_unmap_page_from v va root = (pa, v')"
  shows "tree_ok v' root \<and> frames v' = frames v \<and>
    (case walk v root (page_path va) of
       Page e \<Rightarrow> pa = e AND PAGE_MASK \<and>
         (\<forall>va'. walk v' root (page_path va') =
            (if same_page va' va then Unmapped else walk v root (page_path va')))
     | _ \<Rightarrow> pa = PHYS_NULL \<and> v' = v) \<and>
    (\<forall>va'. paging_is_mapped_into v' va' root \<longleftrightarrow> walk v' root (page_path va') \<noteq> Unmapped)"
proof -
  note u = unmap_spec [OF assms]
  have "\<forall>va'. paging_is_mapped_into v' va' root \<longleftrightarrow> walk v' root (page_path va') \<noteq> Unmapped"
    using is_mapped_walk [OF u(1)] by blast
  with u show ?thesis unfolding page_path_eq_iff by (auto split: xlate.split)
qed

theorem vmm_unmap_page_from_correct_witness:
  "\<exists>s. pmm_init_dynamic small_memmap = Some s \<and>
     vmm_unmap_page_from (empty_vmm s) 0x400000 0x1000 = (PHYS_NULL, empty_vmm s) \<and>
     \<not> paging_is_mapped_into (empty_vmm s) 0x400000 0x1000"
proof -
  obtain s where s: "pmm_init_dynamic small_memmap = Some s" "tree_ok (empty_vmm s) 0x1000"
    by (rule empty_vmm_state) blast
  obtain pa v' where u: "vmm_unmap_page_from (empty_vmm s) 0x400000 0x1000 = (pa, v')" by fastforce
  from vmm_unmap_page_from_correct [OF s(2) u] have "pa = PHYS_NULL" "v' = empty_vmm s"
      "paging_is_mapped_into v' 0x400000 0x1000 \<longleftrightarrow> walk v' 0x1000 (page_path 0x400000) \<noteq> Unmapped"
    by (simp, simp, blast)
  with u s(1) show ?thesis by simp
qed

text \<open>
  Map, query and unmap are inverse: a page mapped with the present flag is reported as
  mapped, unmapping it returns the frame it was mapped to, and afterwards every address
  that was not in that page translates as before the mapping.
\<close>

theorem vmm_map_unmap_roundtrip:
  assumes "tree_ok v root" "vmm_map_page_into v va pa flags root = (True, v1)"
    and "pa AND 4095 = 0" "flags < 4096" "present flags"
    and "vmm_unmap_page_from v1 va root = (pa', v2)"
  shows "paging_is_mapped_into v1 va root \<and> pa' = pa \<and> \<not> paging_is_mapped_into v2 va root \<and>
    (\<forall>va'. \<not> same_page va' va \<longrightarrow> walk v2 root (page_path va') = walk v root (page_path va'))"
proof -
  have "root \<noteq> 0" using tree_owned [OF assms(1), of "[]"] by (auto simp: pmm_owns_page_def)
  then have m: "map_walk v va pa flags root = (True, v1)" using assms(2) by (simp add: map_page_walks)
  have t1: "tree_ok v1 root"
    and w1: "\<And>va'. walk v1 root (page_path va') =
      (if page_path va' = page_path va then leaf ((pa AND PAGE_MASK) OR flags) else walk v root (page_path va'))"
    using map_walk_spec(1,2) [OF assms(1) m] by auto
  have al: "frame_aligned pa" using assms(3) by (simp add: frame_aligned_def page_aligned_iff)
  then have pa: "pa AND PAGE_MASK = pa" by (rule page_frame)
  have pr: "present (pa OR flags)" using assms(5) by (simp add: present_bit bit_or_iff)
  then have w: "walk v1 root (page_path va) = Page (pa OR flags)" using w1 by (simp add: pa leaf_def)
  note u = unmap_spec [OF t1 assms(6)]
  have "walk v2 root (page_path va) = Unmapped" using u(3) [OF w, of va] by simp
  with u(1) have "\<not> paging_is_mapped_into v2 va root" by (simp add: is_mapped_walk)
  moreover have "paging_is_mapped_into v1 va root" using t1 w by (simp add: is_mapped_walk)
  moreover have "pa' = pa" using u(2) [OF w] frame_flags [OF al assms(4)] by simp
  ultimately show ?thesis using u(3) [OF w] w1 by (simp add: page_path_eq_iff)
qed

theorem vmm_map_unmap_roundtrip_witness:
  "\<exists>s v1. pmm_init_dynamic small_memmap = Some s \<and>
     vmm_map_page_into (empty_vmm s) 0x400000 0x5000000 7 0x1000 = (True, v1) \<and>
     paging_is_mapped_into v1 0x400000 0x1000 \<and> fst (vmm_unmap_page_from v1 0x400000 0x1000) = 0x5000000"
proof -
  obtain s where s: "pmm_init_dynamic small_memmap = Some s" "tree_ok (empty_vmm s) 0x1000"
      "4 \<le> pmm_room s" "\<not> huge_on_path (empty_vmm s) 0x400000 0x1000"
    by (rule empty_vmm_state) blast
  have "3 \<le> pmm_room (frames (empty_vmm s))" using s(3) by (simp add: empty_vmm_def)
  from map_walk_succeeds [OF s(2) this s(4), of "0x5000000" 7]
  obtain v1 where v1: "vmm_map_page_into (empty_vmm s) 0x400000 0x5000000 7 0x1000 = (True, v1)"
    by (cases "map_walk (empty_vmm s) 0x400000 0x5000000 7 0x1000") (simp add: map_page_walks)
  have "present (7 :: u64)" by (simp add: present_def)
  from vmm_map_unmap_roundtrip [OF s(2) v1 _ _ this prod.collapse [symmetric]] s(1) v1
  show ?thesis by auto
qed

end
