(* ===== verification/Kernel_String.thy ===== *)
theory Kernel_String
  imports Kernel_Prelude
begin

text \<open>
  The memory and string routines of \<^verbatim>\<open>kernel/string.c\<close>, over a store of bytes indexed by
  address. A string loop with no terminating zero never returns: those functions are
  partial, with value \<open>None\<close> for such a run.
\<close>

section \<open>Memory\<close>

type_synonym bytes = "nat \<Rightarrow> u8"

fun memcpy :: "nat \<Rightarrow> nat \<Rightarrow> nat \<Rightarrow> bytes \<Rightarrow> bytes" where
  "memcpy dst src 0 m = m"
| "memcpy dst src (Suc n) m = memcpy (Suc dst) (Suc src) n (m(dst := m src))"

fun copy_backward :: "nat \<Rightarrow> nat \<Rightarrow> nat \<Rightarrow> bytes \<Rightarrow> bytes" where
  "copy_backward d s 0 m = m"
| "copy_backward d s (Suc i) m = copy_backward d s i (m(d + i := m (s + i)))"

definition memmove :: "nat \<Rightarrow> nat \<Rightarrow> nat \<Rightarrow> bytes \<Rightarrow> bytes" where
  "memmove d s n m =
     (if d = s \<or> n = 0 then m
      else if d < s \<or> d \<ge> s + n then memcpy d s n m
      else copy_backward d s n m)"

fun memset :: "nat \<Rightarrow> int \<Rightarrow> nat \<Rightarrow> bytes \<Rightarrow> bytes" where
  "memset p c 0 m = m"
| "memset p c (Suc n) m = memset (Suc p) c n (m(p := of_int c))"

fun memcmp :: "bytes \<Rightarrow> nat \<Rightarrow> nat \<Rightarrow> nat \<Rightarrow> int" where
  "memcmp m p1 p2 0 = 0"
| "memcmp m p1 p2 (Suc n) =
     (if m p1 \<noteq> m p2 then uint (m p1) - uint (m p2) else memcmp m (Suc p1) (Suc p2) n)"

section \<open>Strings\<close>

partial_function (option) strlen_from :: "bytes \<Rightarrow> nat \<Rightarrow> nat \<Rightarrow> nat option" where
  "strlen_from m s len = (if m (s + len) \<noteq> 0 then strlen_from m s (Suc len) else Some len)"

definition strlen :: "bytes \<Rightarrow> nat \<Rightarrow> nat option" where
  "strlen m s = strlen_from m s 0"

partial_function (option) strcmp :: "bytes \<Rightarrow> nat \<Rightarrow> nat \<Rightarrow> int option" where
  "strcmp m s1 s2 =
     (if m s1 \<noteq> 0 \<and> m s1 = m s2 then strcmp m (Suc s1) (Suc s2)
      else Some (uint (m s1) - uint (m s2)))"

fun strncmp :: "bytes \<Rightarrow> nat \<Rightarrow> nat \<Rightarrow> nat \<Rightarrow> int" where
  "strncmp m s1 s2 0 = 0"
| "strncmp m s1 s2 (Suc n) =
     (if m s1 \<noteq> 0 \<and> m s1 = m s2 then strncmp m (Suc s1) (Suc s2) n
      else uint (m s1) - uint (m s2))"

fun strncpy :: "nat \<Rightarrow> nat \<Rightarrow> nat \<Rightarrow> bytes \<Rightarrow> bytes" where
  "strncpy dst src 0 m = m"
| "strncpy dst src (Suc n) m =
     (if m src \<noteq> 0 then strncpy (Suc dst) (Suc src) n (m(dst := m src))
      else memset dst 0 (Suc n) m)"

section \<open>Memory laws\<close>

lemma memcpy_eq:
  assumes "dst < src \<or> src + n \<le> dst"
  shows "memcpy dst src n m a = (if dst \<le> a \<and> a < dst + n then m (src + (a - dst)) else m a)"
  using assms
proof (induction n arbitrary: dst src m)
  case (Suc n)
  have "memcpy (Suc dst) (Suc src) n (m(dst := m src)) a =
      (if Suc dst \<le> a \<and> a < Suc dst + n then (m(dst := m src)) (Suc src + (a - Suc dst)) else (m(dst := m src)) a)"
    by (rule Suc.IH) (use Suc.prems in auto)
  moreover have "Suc src + (a - Suc dst) = src + (a - dst)" if "Suc dst \<le> a" using that by simp
  ultimately show ?case using Suc.prems by (cases "a = dst") auto
qed auto

lemma copy_backward_eq:
  assumes "src \<le> dst"
  shows "copy_backward dst src n m a = (if dst \<le> a \<and> a < dst + n then m (src + (a - dst)) else m a)"
proof (induction n arbitrary: m)
  case (Suc n)
  show ?case
    unfolding copy_backward.simps Suc.IH using assms by (cases "a = dst + n") auto
qed auto

lemma memset_eq: "memset p c n m a = (if p \<le> a \<and> a < p + n then of_int c else m a)"
  by (induction n arbitrary: p m) auto

lemma memcmp_eq_0: "memcmp m p q n = 0 \<longleftrightarrow> (\<forall>i < n. m (p + i) = m (q + i))"
proof (induction n arbitrary: p q)
  case (Suc n)
  have "(\<forall>i < Suc n. m (p + i) = m (q + i)) \<longleftrightarrow> m p = m q \<and> (\<forall>i < n. m (Suc p + i) = m (Suc q + i))"
    by (auto simp: less_Suc_eq_0_disj)
  with Suc show ?case by (auto simp: word_uint_eq_iff)
qed simp

section \<open>String laws\<close>

text \<open>The zero-terminated string \<open>xs\<close> is stored at \<open>s\<close>.\<close>

fun cstr :: "bytes \<Rightarrow> nat \<Rightarrow> u8 list \<Rightarrow> bool" where
  "cstr m s [] \<longleftrightarrow> m s = 0"
| "cstr m s (x # xs) \<longleftrightarrow> x \<noteq> 0 \<and> m s = x \<and> cstr m (Suc s) xs"

lemma cstr_cong:
  "cstr m s xs \<Longrightarrow> (\<And>i. i \<le> length xs \<Longrightarrow> m' (s + i) = m (s + i)) \<Longrightarrow> cstr m' s xs"
proof (induction xs arbitrary: s)
  case Nil
  then show ?case using Nil.prems(2) [of 0] by simp
next
  case (Cons x xs)
  have "m' s = m s" using Cons.prems(2) [of 0] by simp
  moreover have "m' (Suc s + i) = m (Suc s + i)" if "i \<le> length xs" for i
    using Cons.prems(2) [of "Suc i"] that by simp
  ultimately show ?case using Cons by auto
qed

lemma strlen_from_cstr: "cstr m (s + k) xs \<Longrightarrow> strlen_from m s k = Some (k + length xs)"
  by (induction xs arbitrary: k) (subst strlen_from.simps, simp)+

text \<open>Comparison of byte strings in the order of their unsigned bytes.\<close>

fun str_less :: "u8 list \<Rightarrow> u8 list \<Rightarrow> bool" where
  "str_less [] ys \<longleftrightarrow> ys \<noteq> []"
| "str_less (x # xs) [] \<longleftrightarrow> False"
| "str_less (x # xs) (y # ys) \<longleftrightarrow> x < y \<or> (x = y \<and> str_less xs ys)"

lemma uint_pos: "(y :: u8) \<noteq> 0 \<Longrightarrow> 0 < uint y"
  by (simp add: word_neq_0_conv word_less_def)

lemma strcmp_cstr:
  "cstr m s xs \<Longrightarrow> cstr m t ys \<Longrightarrow>
   \<exists>r. strcmp m s t = Some r \<and> (r = 0 \<longleftrightarrow> xs = ys) \<and> (r < 0 \<longleftrightarrow> str_less xs ys)"
proof (induction xs ys arbitrary: s t rule: str_less.induct)
  case (1 ys)
  then show ?case
    by (subst strcmp.simps) (cases ys; auto simp: uint_pos word_uint_eq_iff)
next
  case (2 x xs)
  then show ?case
    by (subst strcmp.simps) (auto simp: uint_pos word_uint_eq_iff)
next
  case (3 x xs y ys)
  show ?case
  proof (cases "x = y")
    case True
    with 3 obtain r where "strcmp m (Suc s) (Suc t) = Some r" "r = 0 \<longleftrightarrow> xs = ys" "r < 0 \<longleftrightarrow> str_less xs ys"
      by auto
    with True 3(2,3) show ?thesis by (subst strcmp.simps) auto
  next
    case False
    with 3(2,3) have "strcmp m s t = Some (uint x - uint y)" by (subst strcmp.simps) auto
    with False show ?thesis by (auto simp: word_less_def word_uint_eq_iff)
  qed
qed

lemma strncpy_eq:
  assumes "cstr m src xs" "src + length xs < dst \<or> dst + n \<le> src"
  shows "strncpy dst src n m a =
    (if dst \<le> a \<and> a < dst + n then if a - dst < length xs then xs ! (a - dst) else 0 else m a)"
  using assms
proof (induction n arbitrary: dst src xs m)
  case (Suc n)
  show ?case
  proof (cases xs)
    case Nil
    with Suc.prems show ?thesis by (auto simp: memset_eq simp del: memset.simps)
  next
    case (Cons x ys)
    have "cstr (m(dst := m src)) (Suc src) ys"
      by (rule cstr_cong [of m]) (use Suc.prems Cons in auto)
    then have "strncpy (Suc dst) (Suc src) n (m(dst := m src)) a =
        (if Suc dst \<le> a \<and> a < Suc dst + n then if a - Suc dst < length ys then ys ! (a - Suc dst) else 0
         else (m(dst := m src)) a)"
      by (rule Suc.IH) (use Suc.prems(2) Cons in auto)
    moreover have "a - dst = Suc (a - Suc dst)" if "Suc dst \<le> a" using that by simp
    ultimately show ?thesis using Suc.prems(1) Cons by (cases "a = dst") auto
  qed
qed auto

section \<open>Properties\<close>

text \<open>
  \<open>memmove\<close> copies as if through a temporary, whether or not the two regions overlap:
  every destination byte gets the byte the source held before the call and no other byte
  changes.
\<close>

theorem memmove_correct:
  "memmove dst src n m a = (if dst \<le> a \<and> a < dst + n then m (src + (a - dst)) else m a)"
  unfolding memmove_def using memcpy_eq [of dst src n m a] copy_backward_eq [of src dst n m a] by auto

text \<open>
  On zero-terminated strings \<open>strlen\<close> and \<open>strcmp\<close> return: the length, and an integer that
  is zero exactly for equal strings and negative exactly when the first string precedes
  the second in the order of unsigned bytes.
\<close>

theorem strlen_strcmp_correct:
  assumes "cstr m s xs" "cstr m t ys"
  shows "strlen m s = Some (length xs) \<and>
    (\<exists>r. strcmp m s t = Some r \<and> (r = 0 \<longleftrightarrow> xs = ys) \<and> (r < 0 \<longleftrightarrow> str_less xs ys))"
  using strcmp_cstr [OF assms] strlen_from_cstr [of m s 0 xs] assms by (simp add: strlen_def)

theorem strlen_strcmp_correct_witness:
  "let m = (\<lambda>a. if a = 10 then 65 else if a = 20 then 65 else if a = 21 then 66 else 0)
   in strlen m 20 = Some 2 \<and> (\<exists>r. strcmp m 20 10 = Some r \<and> \<not> r < 0 \<and> r \<noteq> 0)"
  using strlen_strcmp_correct [of "\<lambda>a. if a = 10 then 65 else if a = 20 then 65 else if a = 21 then 66 else 0"
      20 "[65, 66]" 10 "[65]"] by auto

text \<open>
  \<open>strncpy\<close> writes exactly \<open>n\<close> bytes at the destination: the source string cut at \<open>n\<close>
  bytes and padded with zeros (without a terminator when the string is that long).
\<close>

theorem strncpy_correct:
  assumes "cstr m src xs" "src + length xs < dst \<or> dst + n \<le> src"
  shows "strncpy dst src n m a =
    (if dst \<le> a \<and> a < dst + n then if a - dst < length xs then xs ! (a - dst) else 0 else m a)"
  by (rule strncpy_eq [OF assms])

theorem strncpy_correct_witness:
  "strncpy 40 10 4 (\<lambda>a. if a = 10 then 65 else 0) 40 = 65 \<and> strncpy 40 10 4 (\<lambda>a. if a = 10 then 65 else 0) 42 = 0"
  using strncpy_correct [of "\<lambda>a. if a = 10 then 65 else 0" 10 "[65]" 40 4 40]
    strncpy_correct [of "\<lambda>a. if a = 10 then 65 else 0" 10 "[65]" 40 4 42] by simp

end
