(* ===== verification/Kernel_Heap.thy ===== *)
theory Kernel_Heap
  imports Page_Walk Kernel_String "HOL-Library.Monad_Syntax"
begin

text \<open>
  The kernel heap, \<^verbatim>\<open>kernel/heap.c\<close>: a first-fit free list whose block headers lie in the heap
  itself, grown page by page through the virtual memory manager. Addresses and sizes are
  \<open>nat\<close>; where the code's 64-bit arithmetic can wrap, the reduction is written out. Headers
  and payload bytes are two stores indexed by address: a header field is only reached
  through a block pointer, a payload byte only through an allocated pointer. Loops over the
  list follow \<open>next\<close> pointers and may not end on a corrupt list: they are partial functions
  whose value \<open>None\<close> is a run that never returns.
\<close>

section \<open>State\<close>

abbreviation HEAP_MAGIC :: nat where "HEAP_MAGIC \<equiv> 0xDEADC0DE"
abbreviation HEAP_START_VADDR :: nat where "HEAP_START_VADDR \<equiv> 0xFFFF900000000000"
abbreviation HDR :: nat where "HDR \<equiv> 32"
abbreviation W64 :: nat where "W64 \<equiv> 18446744073709551616"

record heap_block =
  magic :: nat
  bsize :: nat
  is_free :: bool
  nxt :: "nat option"

record heap_state =
  hmem :: "nat \<Rightarrow> heap_block"
  hbytes :: "nat \<Rightarrow> u8"
  heap_head :: "nat option"
  current_heap_end :: nat
  vm :: vmm_state

text \<open>\<open>kernel_panic\<close> does not return: its argument is the address of the corrupt header.\<close>

datatype 'a outcome = Panic nat | Ret 'a

definition init_heap :: "heap_state \<Rightarrow> heap_state" where
  "init_heap h = h\<lparr>heap_head := None\<rparr>"

section \<open>Growing the heap\<close>

fun expand_pages :: "nat \<Rightarrow> vmm_state \<Rightarrow> nat \<Rightarrow> bool \<times> vmm_state \<times> nat" where
  "expand_pages 0 v e = (True, v, e)"
| "expand_pages (Suc k) v e =
     (let (ok, v1) = vmm_alloc_page_kernel v (of_nat e) 3
      in if ok then expand_pages k v1 ((e + 4096) mod W64) else (False, v1, e))"

text \<open>The roll back of a failed expansion: \<open>n\<close> pages from \<open>a\<close> are unmapped and freed.\<close>

fun rollback_pages :: "nat \<Rightarrow> vmm_state \<Rightarrow> nat \<Rightarrow> vmm_state" where
  "rollback_pages 0 v a = v"
| "rollback_pages (Suc n) v a =
     (let (pa, v1) = vmm_unmap_page_from v (of_nat a) (vmm_get_kernel_pml4_phys v)
      in rollback_pages n (if pa \<noteq> PHYS_NULL then vmm_free v1 pa else v1) (a + 4096))"

partial_function (option) list_tail :: "(nat \<Rightarrow> heap_block) \<Rightarrow> nat \<Rightarrow> nat option" where
  "list_tail m b = (case nxt (m b) of None \<Rightarrow> Some b | Some c \<Rightarrow> list_tail m c)"

definition expand_heap :: "heap_state \<Rightarrow> nat \<Rightarrow> (nat option \<times> heap_state) option" where
  "expand_heap h required_size =
     (let total_size = (required_size + HDR) mod W64;
          pages_needed = total_size div 4096 + (if total_size mod 4096 \<noteq> 0 then 1 else 0);
          start = current_heap_end h
      in case expand_pages pages_needed (vm h) start of
           (False, v1, e1) \<Rightarrow>
             let mapped = (e1 + W64 - start) mod W64
             in Some (None, h\<lparr>vm := rollback_pages (mapped div 4096) v1 start\<rparr>)
         | (True, v1, e1) \<Rightarrow>
             let blk = \<lparr>magic = HEAP_MAGIC, bsize = (pages_needed * 4096 + W64 - HDR) mod W64,
                        is_free = True, nxt = None\<rparr>;
                 m = (hmem h)(start := blk);
                 h1 = h\<lparr>hmem := m, vm := v1, current_heap_end := e1\<rparr>
             in case heap_head h of
                  None \<Rightarrow> Some (Some start, h1\<lparr>heap_head := Some start\<rparr>)
                | Some b \<Rightarrow>
                    (case list_tail m b of
                       None \<Rightarrow> None
                     | Some t \<Rightarrow> Some (Some start, h1\<lparr>hmem := m(t := (m t)\<lparr>nxt := Some start\<rparr>)\<rparr>)))"

section \<open>Allocation\<close>

partial_function (option) first_fit :: "(nat \<Rightarrow> heap_block) \<Rightarrow> nat option \<Rightarrow> nat \<Rightarrow> nat option outcome option" where
  "first_fit m cur n =
     (case cur of
        None \<Rightarrow> Some (Ret None)
      | Some b \<Rightarrow>
          if magic (m b) \<noteq> HEAP_MAGIC then Some (Panic b)
          else if is_free (m b) \<and> bsize (m b) \<ge> n then Some (Ret (Some b))
          else first_fit m (nxt (m b)) n)"

text \<open>Claim block \<open>b\<close> for \<open>n\<close> bytes, splitting off the rest when it is large enough.\<close>

definition take_block :: "(nat \<Rightarrow> heap_block) \<Rightarrow> nat \<Rightarrow> nat \<Rightarrow> (nat \<Rightarrow> heap_block)" where
  "take_block m b n =
     (let m1 = (if bsize (m b) > (n + HDR + 1) mod W64
                then m(b + HDR + n := \<lparr>magic = HEAP_MAGIC, bsize = (bsize (m b) + 2 * W64 - n - HDR) mod W64,
                                       is_free = True, nxt = nxt (m b)\<rparr>,
                       b := (m b)\<lparr>bsize := n, nxt := Some (b + HDR + n)\<rparr>)
                else m)
      in m1(b := (m1 b)\<lparr>is_free := False\<rparr>))"

partial_function (option) kmalloc :: "heap_state \<Rightarrow> u64 \<Rightarrow> (nat option outcome \<times> heap_state) option" where
  "kmalloc h sz =
     (if sz = 0 then Some (Ret None, h)
      else
        let n = unat ((sz + 15) AND NOT 15)
        in do {
          r \<leftarrow> first_fit (hmem h) (heap_head h) n;
          case r of
            Panic b \<Rightarrow> Some (Panic b, h)
          | Ret (Some b) \<Rightarrow> Some (Ret (Some (b + HDR)), h\<lparr>hmem := take_block (hmem h) b n\<rparr>)
          | Ret None \<Rightarrow>
              do {
                e \<leftarrow> expand_heap h n;
                case e of
                  (None, h1) \<Rightarrow> Some (Ret None, h1)
                | (Some f, h1) \<Rightarrow> kmalloc h1 (of_nat n)
              }
        })"

section \<open>Release\<close>

partial_function (option) coalesce :: "(nat \<Rightarrow> heap_block) \<Rightarrow> nat option \<Rightarrow> (unit outcome \<times> (nat \<Rightarrow> heap_block)) option" where
  "coalesce m cur =
     (case cur of
        None \<Rightarrow> Some (Ret (), m)
      | Some b \<Rightarrow>
          if magic (m b) \<noteq> HEAP_MAGIC then Some (Panic b, m)
          else
            case nxt (m b) of
              Some c \<Rightarrow>
                if is_free (m b) \<and> is_free (m c) \<and> c = (b + HDR + bsize (m b)) mod W64
                then coalesce (m(b := (m b)\<lparr>bsize := (bsize (m b) + bsize (m c) + HDR) mod W64, nxt := nxt (m c)\<rparr>)) (Some b)
                else coalesce m (Some c)
            | None \<Rightarrow> coalesce m None)"

definition kfree :: "heap_state \<Rightarrow> nat option \<Rightarrow> (unit outcome \<times> heap_state) option" where
  "kfree h ptr =
     (case ptr of
        None \<Rightarrow> Some (Ret (), h)
      | Some p \<Rightarrow>
          let b = (p + W64 - HDR) mod W64; m = hmem h
          in if magic (m b) \<noteq> HEAP_MAGIC then Some (Panic b, h)
             else
               (case coalesce (m(b := (m b)\<lparr>is_free := True\<rparr>)) (heap_head h) of
                  None \<Rightarrow> None
                | Some (r, m') \<Rightarrow> Some (r, h\<lparr>hmem := m'\<rparr>)))"

definition krealloc :: "heap_state \<Rightarrow> nat option \<Rightarrow> nat \<Rightarrow> u64 \<Rightarrow> (nat option outcome \<times> heap_state) option" where
  "krealloc h ptr old_size new_size =
     (if new_size = 0
      then do {
        (r, h1) \<leftarrow> kfree h ptr;
        case r of Panic b \<Rightarrow> Some (Panic b, h1) | Ret _ \<Rightarrow> Some (Ret None, h1)
      }
      else
        case ptr of
          None \<Rightarrow> kmalloc h new_size
        | Some p \<Rightarrow>
            do {
              (r, h1) \<leftarrow> kmalloc h new_size;
              case r of
                Panic b \<Rightarrow> Some (Panic b, h1)
              | Ret None \<Rightarrow> Some (Ret None, h1)
              | Ret (Some q) \<Rightarrow>
                  let copied = (if old_size < unat new_size then old_size else unat new_size);
                      h2 = h1\<lparr>hbytes := memcpy q p copied (hbytes h1)\<rparr>
                  in do {
                    (r2, h3) \<leftarrow> kfree h2 (Some p);
                    case r2 of Panic b \<Rightarrow> Some (Panic b, h3) | Ret _ \<Rightarrow> Some (Ret (Some q), h3)
                  }
            })"

section \<open>The list of blocks\<close>

definition hd_or :: "nat list \<Rightarrow> nat option \<Rightarrow> nat option" where
  "hd_or bs d = (case bs of [] \<Rightarrow> d | b # _ \<Rightarrow> Some b)"

lemma hd_or_simps [simp]: "hd_or [] d = d" "hd_or (b # bs) d = Some b"
  by (simp_all add: hd_or_def)

text \<open>
  \<open>chain m a e d bs\<close>: the blocks \<open>bs\<close> tile the addresses from \<open>a\<close> to \<open>e\<close> without gaps, are
  linked in this order, and the last one points to \<open>d\<close>.
\<close>

fun chain :: "(nat \<Rightarrow> heap_block) \<Rightarrow> nat \<Rightarrow> nat \<Rightarrow> nat option \<Rightarrow> nat list \<Rightarrow> bool" where
  "chain m a e d [] \<longleftrightarrow> a = e"
| "chain m a e d (b # bs) \<longleftrightarrow>
     b = a \<and> magic (m b) = HEAP_MAGIC \<and> 16 dvd bsize (m b) \<and> nxt (m b) = hd_or bs d \<and>
     chain m (b + HDR + bsize (m b)) e d bs"

lemma chain_cong:
  "(\<And>b. b \<in> set bs \<Longrightarrow> m' b = m b) \<Longrightarrow> chain m' a e d bs = chain m a e d bs"
  by (induction bs arbitrary: a) auto

lemma chain_append:
  "chain m a e d (xs @ ys) \<longleftrightarrow> (\<exists>c. chain m a c (hd_or ys d) xs \<and> chain m c e d ys)"
  by (induction xs arbitrary: a) (auto simp: hd_or_def split: list.splits)

lemma chain_le: "chain m a e d bs \<Longrightarrow> a \<le> e"
  by (induction bs arbitrary: a) fastforce+

lemma chain_range:
  "chain m a e d bs \<Longrightarrow> b \<in> set bs \<Longrightarrow> a \<le> b \<and> b + HDR + bsize (m b) \<le> e"
proof (induction bs arbitrary: a)
  case (Cons c bs)
  then show ?case using chain_le [of m "c + HDR + bsize (m c)" e d bs] by fastforce
qed simp

lemma chain_distinct: "chain m a e d bs \<Longrightarrow> distinct bs"
proof (induction bs arbitrary: a)
  case (Cons b bs)
  then have "b \<notin> set bs" using chain_range [of m "b + HDR + bsize (m b)" e d bs b] by auto
  with Cons show ?case by auto
qed simp

lemma chain_apart:
  "chain m a e d bs \<Longrightarrow> b \<in> set bs \<Longrightarrow> c \<in> set bs \<Longrightarrow> b < c \<Longrightarrow> b + HDR + bsize (m b) \<le> c"
proof (induction bs arbitrary: a)
  case (Cons x bs)
  then have ch: "chain m (x + HDR + bsize (m x)) e d bs" by auto
  from Cons.prems(2-4) consider "b = x" "c \<in> set bs" | "b \<in> set bs" "c = x" | "b \<in> set bs" "c \<in> set bs" by auto
  then show ?case
  proof cases
    case 1
    with chain_range [OF ch] show ?thesis by auto
  next
    case 2
    with chain_range [OF ch] Cons.prems(4) show ?thesis by fastforce
  next
    case 3
    with Cons.IH [OF ch] Cons.prems(4) show ?thesis by blast
  qed
qed simp

lemma chain_unique: "chain m a e None bs \<Longrightarrow> chain m a e None bs' \<Longrightarrow> hd_or bs None = hd_or bs' None \<Longrightarrow> bs = bs'"
proof (induction bs arbitrary: a bs')
  case Nil
  then show ?case by (cases bs') auto
next
  case (Cons b bs)
  then show ?case by (cases bs') auto
qed

lemma first_fit_chain:
  "chain m a e None bs \<Longrightarrow>
   first_fit m (hd_or bs None) n = Some (Ret (find (\<lambda>b. is_free (m b) \<and> bsize (m b) \<ge> n) bs))"
proof (induction bs arbitrary: a)
  case Nil
  then show ?case by (simp add: first_fit.simps)
next
  case (Cons b bs)
  then have "first_fit m (hd_or bs None) n = Some (Ret (find (\<lambda>b. is_free (m b) \<and> bsize (m b) \<ge> n) bs))"
    by auto
  with Cons.prems show ?case by (subst first_fit.simps) auto
qed

lemma list_tail_chain:
  "chain m a e None bs \<Longrightarrow> bs \<noteq> [] \<Longrightarrow> list_tail m (hd bs) = Some (last bs)"
proof (induction bs arbitrary: a)
  case (Cons b bs)
  then show ?case by (subst list_tail.simps) (cases bs; auto)
qed simp

section \<open>Representation and live blocks\<close>

definition heap_rep :: "heap_state \<Rightarrow> nat list \<Rightarrow> bool" where
  "heap_rep h bs \<longleftrightarrow>
     heap_head h = hd_or bs None \<and> chain (hmem h) HEAP_START_VADDR (current_heap_end h) None bs"

definition live_in :: "(nat \<Rightarrow> heap_block) \<Rightarrow> nat list \<Rightarrow> (nat \<times> nat) set" where
  "live_in m bs = {(b + HDR, bsize (m b)) | b. b \<in> set bs \<and> \<not> is_free (m b)}"

lemma live_in_simps [simp]:
  "live_in m [] = {}"
  "live_in m (b # bs) = (if is_free (m b) then {} else {(b + HDR, bsize (m b))}) \<union> live_in m bs"
  "live_in m (xs @ ys) = live_in m xs \<union> live_in m ys"
  by (auto simp: live_in_def)

lemma live_in_cong: "(\<And>b. b \<in> set bs \<Longrightarrow> m' b = m b) \<Longrightarrow> live_in m' bs = live_in m bs"
  by (induction bs) auto

text \<open>The allocated regions of a heap: start of the payload and its size.\<close>

definition live :: "heap_state \<Rightarrow> (nat \<times> nat) set" where
  "live h = {r. \<exists>bs. heap_rep h bs \<and> r \<in> live_in (hmem h) bs}"

lemma heap_rep_unique: "heap_rep h bs \<Longrightarrow> heap_rep h bs' \<Longrightarrow> bs = bs'"
  unfolding heap_rep_def by (metis chain_unique)

lemma live_rep: "heap_rep h bs \<Longrightarrow> live h = live_in (hmem h) bs"
  unfolding live_def using heap_rep_unique by blast

definition heap_mapped :: "heap_state \<Rightarrow> bool" where
  "heap_mapped h \<longleftrightarrow>
     (\<forall>a. HEAP_START_VADDR \<le> a \<longrightarrow> a < current_heap_end h \<longrightarrow>
        (\<exists>e. walk (vm h) (kernel_pml4_phys (vm h)) (page_path (of_nat a)) = Page e))"

text \<open>
  The invariant: the blocks tile the heap, whose end is page aligned and below the top of
  the address space, and every page of it is mapped by the kernel's tables.
\<close>

definition heap_inv :: "heap_state \<Rightarrow> bool" where
  "heap_inv h \<longleftrightarrow>
     (\<exists>bs. heap_rep h bs) \<and> 4096 dvd current_heap_end h \<and> current_heap_end h < W64 \<and>
     tree_ok (vm h) (kernel_pml4_phys (vm h)) \<and> heap_mapped h"

section \<open>Claiming a block\<close>

lemma take_block_whole:
  assumes "bsize (m b) < W64 - 64" "n \<le> bsize (m b)" "bsize (m b) \<le> n + HDR + 1"
  shows "take_block m b n = m(b := (m b)\<lparr>is_free := False\<rparr>)"
  using assms by (simp add: take_block_def)

lemma take_block_split:
  assumes "bsize (m b) < W64 - 64" "n + HDR + 1 < bsize (m b)"
  shows "take_block m b n =
    m(b + HDR + n := \<lparr>magic = HEAP_MAGIC, bsize = bsize (m b) - n - HDR, is_free = True, nxt = nxt (m b)\<rparr>,
      b := (m b)\<lparr>bsize := n, nxt := Some (b + HDR + n), is_free := False\<rparr>)"
proof -
  have "(bsize (m b) + 2 * W64 - n - HDR) mod W64 = bsize (m b) - n - HDR"
  proof -
    have "bsize (m b) + 2 * W64 - n - HDR = (bsize (m b) - n - HDR) + 2 * W64" using assms by simp
    moreover have "bsize (m b) - n - HDR < W64" using assms by simp
    ultimately show ?thesis by (metis mod_less mod_mult_self1)
  qed
  with assms show ?thesis by (simp add: take_block_def fun_eq_iff)
qed

lemma take_block_chain:
  assumes ch: "chain m a e None (xs @ b # ys)" and f: "is_free (m b)" and n: "n \<le> bsize (m b)" "16 dvd n"
    and small: "e < a + W64 - 64"
  shows "\<exists>zs. chain (take_block m b n) a e None (xs @ b # zs) \<and>
    n \<le> bsize (take_block m b n b) \<and> bsize (take_block m b n b) \<le> bsize (m b) \<and>
    live_in (take_block m b n) (xs @ b # zs) =
      insert (b + HDR, bsize (take_block m b n b)) (live_in m (xs @ b # ys))"
proof -
  have dist: "distinct (xs @ b # ys)" by (rule chain_distinct [OF ch])
  obtain c where c: "chain m a c (Some b) xs" "chain m c e None (b # ys)"
    using ch unfolding chain_append by auto
  then have b: "c = b" "magic (m b) = HEAP_MAGIC" "16 dvd bsize (m b)" "nxt (m b) = hd_or ys None"
      "chain m (b + HDR + bsize (m b)) e None ys" by auto
  have rg: "a \<le> b" "b + HDR + bsize (m b) \<le> e" using chain_range [OF ch, of b] by auto
  then have sz: "bsize (m b) < W64 - 64" using small by simp
  have keep: "chain (take_block m b n) a b (Some b) xs" "chain (take_block m b n) (b + HDR + bsize (m b)) e None ys"
      "\<And>x. x \<in> set xs \<union> set ys \<Longrightarrow> take_block m b n x = m x"
  proof -
    have *: "x \<noteq> b + HDR + n" if "x \<in> set xs \<union> set ys" "n + HDR + 1 < bsize (m b)" for x
      using that chain_range [OF c(1), of x] chain_range [OF b(5), of x] b(1) by auto
    show same: "take_block m b n x = m x" if "x \<in> set xs \<union> set ys" for x
    proof (cases "bsize (m b) \<le> n + HDR + 1")
      case True
      then show ?thesis using that dist by (auto simp: take_block_whole [of m b n, OF sz n(1) True])
    next
      case False
      then show ?thesis using that dist * [OF that] by (auto simp: take_block_split [of m b n, OF sz])
    qed
    show "chain (take_block m b n) a b (Some b) xs"
      using c(1) b(1) same by (subst chain_cong [of _ _ m]) auto
    show "chain (take_block m b n) (b + HDR + bsize (m b)) e None ys"
      using b(5) same by (subst chain_cong [of _ _ m]) auto
  qed
  show ?thesis
  proof (cases "bsize (m b) \<le> n + HDR + 1")
    case True
    note t = take_block_whole [of m b n, OF sz n(1) True]
    have "chain (take_block m b n) a e None (xs @ b # ys)"
      unfolding chain_append using keep b by (intro exI [of _ b]) (simp add: t)
    moreover have "live_in (take_block m b n) (xs @ b # ys) =
        insert (b + HDR, bsize (take_block m b n b)) (live_in m (xs @ b # ys))"
      using f live_in_cong [of xs "take_block m b n" m] live_in_cong [of ys "take_block m b n" m] keep(3)
      by (simp add: t)
    ultimately show ?thesis using n by (intro exI [of _ ys]) (simp add: t)
  next
    case False
    then have lt: "n + HDR + 1 < bsize (m b)" by simp
    note t = take_block_split [of m b n, OF sz lt]
    let ?c = "b + HDR + n"
    have d: "16 dvd bsize (m b) - n - HDR"
      using b(3) n(2) by (simp add: dvd_diff_nat)
    have cb: "?c \<noteq> b" by simp
    have "chain (take_block m b n) ?c e None (?c # ys)"
      using keep(2) lt b(4) d by (simp add: t ac_simps)
    then have "chain (take_block m b n) a e None (xs @ b # ?c # ys)"
      unfolding chain_append using keep(1) b n(2) by (intro exI [of _ b]) (simp add: t)
    moreover have "?c \<notin> set xs \<union> set ys"
      using lt chain_range [OF c(1), of ?c] chain_range [OF b(5), of ?c] b(1) by auto
    then have "live_in (take_block m b n) (xs @ b # ?c # ys) =
        insert (b + HDR, bsize (take_block m b n b)) (live_in m (xs @ b # ys))"
      using f live_in_cong [of xs "take_block m b n" m] live_in_cong [of ys "take_block m b n" m] keep(3)
      by (simp add: t)
    ultimately show ?thesis using lt by (intro exI [of _ "?c # ys"]) (simp add: t)
  qed
qed

section \<open>Coalescing\<close>

definition no_adjacent_free :: "(nat \<Rightarrow> heap_block) \<Rightarrow> nat list \<Rightarrow> bool" where
  "no_adjacent_free m bs \<longleftrightarrow> (\<forall>i. Suc i < length bs \<longrightarrow> \<not> (is_free (m (bs ! i)) \<and> is_free (m (bs ! Suc i))))"

lemma no_adjacent_free_Cons:
  "no_adjacent_free m (b # c # bs) \<longleftrightarrow> \<not> (is_free (m b) \<and> is_free (m c)) \<and> no_adjacent_free m (c # bs)"
  unfolding no_adjacent_free_def by (auto simp: nth_Cons split: nat.splits)

lemma no_adjacent_free_cong:
  "(\<And>b. b \<in> set bs \<Longrightarrow> is_free (m b) = is_free (m' b)) \<Longrightarrow> no_adjacent_free m bs = no_adjacent_free m' bs"
  unfolding no_adjacent_free_def by auto

lemma coalesce_chain:
  assumes "chain m a e None bs" "e < W64"
  shows "\<exists>m' bs'. coalesce m (hd_or bs None) = Some (Ret (), m') \<and> chain m' a e None bs' \<and>
    hd_or bs' None = hd_or bs None \<and> set bs' \<subseteq> set bs \<and> (\<forall>x. x \<notin> set bs \<longrightarrow> m' x = m x) \<and>
    live_in m' bs' = live_in m bs \<and> no_adjacent_free m' bs' \<and>
    (bs \<noteq> [] \<longrightarrow> is_free (m' (hd bs)) = is_free (m (hd bs)))"
  using assms
proof (induction "length bs" arbitrary: m a bs rule: less_induct)
  case less
  consider "bs = []" | b where "bs = [b]" | b c cs where "bs = b # c # cs"
    by (cases bs; cases "tl bs") auto
  then show ?case
  proof cases
    case 1
    with less.prems show ?thesis by (subst coalesce.simps) (auto simp: no_adjacent_free_def intro: exI [of _ "[]"])
  next
    case (2 b)
    have "coalesce m None = Some (Ret (), m)" by (subst coalesce.simps) simp
    with 2 less.prems have "coalesce m (hd_or bs None) = Some (Ret (), m)"
      by (subst coalesce.simps) auto
    with 2 less.prems show ?thesis by (auto simp: no_adjacent_free_def intro!: exI [of _ "[b]"])
  next
    case (3 b c cs)
    have ch: "magic (m b) = HEAP_MAGIC" "16 dvd bsize (m b)" "nxt (m b) = Some c" "b = a"
        "c = b + HDR + bsize (m b)" "16 dvd bsize (m c)" "nxt (m c) = hd_or cs None"
        "chain m (b + HDR + bsize (m b)) e None (c # cs)"
        "chain m (c + HDR + bsize (m c)) e None cs"
      using less.prems(1) 3 by auto
    have le: "c + HDR + bsize (m c) \<le> e" by (rule chain_le [OF ch(9)])
    have dist: "b \<notin> set (c # cs)" "c \<notin> set cs" using chain_distinct [OF less.prems(1)] 3 by auto
    have exp: "c = (b + HDR + bsize (m b)) mod W64" using ch(5) le less.prems(2) by simp
    show ?thesis
    proof (cases "is_free (m b) \<and> is_free (m c)")
      case True
      let ?m = "m(b := (m b)\<lparr>bsize := (bsize (m b) + bsize (m c) + HDR) mod W64, nxt := nxt (m c)\<rparr>)"
      have sz: "(bsize (m b) + bsize (m c) + HDR) mod W64 = bsize (m b) + bsize (m c) + HDR"
        using ch(5) le less.prems(2) by simp
      have step: "coalesce m (hd_or bs None) = coalesce ?m (Some b)"
        using 3 ch(1,3) True exp by (subst coalesce.simps) simp
      have "chain ?m (c + HDR + bsize (m c)) e None cs"
        using ch(9) dist by (subst chain_cong [of _ _ m]) auto
      moreover have "b + HDR + (bsize (m b) + bsize (m c) + HDR) = c + HDR + bsize (m c)" using ch(5) by simp
      ultimately have "chain ?m (b + HDR + (bsize (m b) + bsize (m c) + HDR)) e None cs" by (simp only:)
      then have c1: "chain ?m a e None (b # cs)"
        using ch(1,2,4,6,7) sz by (simp add: dvd_add)
      have "length (b # cs) < length bs" using 3 by simp
      from less.hyps [OF this c1 less.prems(2)] obtain m' bs' where IH:
          "coalesce ?m (hd_or (b # cs) None) = Some (Ret (), m')" "chain m' a e None bs'"
          "hd_or bs' None = hd_or (b # cs) None" "set bs' \<subseteq> set (b # cs)"
          "\<forall>x. x \<notin> set (b # cs) \<longrightarrow> m' x = ?m x" "live_in m' bs' = live_in ?m (b # cs)"
          "no_adjacent_free m' bs'" "is_free (m' b) = is_free (?m b)" by fastforce
      have "live_in ?m cs = live_in m cs" by (rule live_in_cong) (use dist in auto)
      then have "live_in ?m (b # cs) = live_in m bs" using True 3 by simp
      moreover have "\<forall>x. x \<notin> set bs \<longrightarrow> m' x = m x" using IH(5) 3 by simp
      ultimately show ?thesis
        using IH step 3 by (intro exI [of _ m'] exI [of _ bs']) auto
    next
      case False
      have step: "coalesce m (hd_or bs None) = coalesce m (Some c)"
        using 3 ch(1,3) False exp by (subst coalesce.simps) auto
      have "length (c # cs) < length bs" using 3 by simp
      from less.hyps [OF this ch(8) less.prems(2)] obtain m' bs' where IH:
          "coalesce m (hd_or (c # cs) None) = Some (Ret (), m')" "chain m' (b + HDR + bsize (m b)) e None bs'"
          "hd_or bs' None = hd_or (c # cs) None" "set bs' \<subseteq> set (c # cs)"
          "\<forall>x. x \<notin> set (c # cs) \<longrightarrow> m' x = m x" "live_in m' bs' = live_in m (c # cs)"
          "no_adjacent_free m' bs'" "is_free (m' c) = is_free (m c)" by fastforce
      have mb: "m' b = m b" using IH(5) dist by blast
      obtain cs' where cs': "bs' = c # cs'" using IH(3) by (cases bs') auto
      have "chain m' a e None (b # bs')" using ch(1-4) IH(2,3) mb by simp
      moreover have "live_in m' (b # bs') = live_in m bs"
        using IH(6) mb 3 by simp
      moreover have "no_adjacent_free m' (b # bs')"
        unfolding cs' no_adjacent_free_Cons using IH(7,8) False mb cs' by simp
      ultimately show ?thesis
        using IH step 3 mb by (intro exI [of _ m'] exI [of _ "b # bs'"]) auto
    qed
  qed
qed

section \<open>Growing: pages of the heap\<close>

lemma page_path_number:
  "page_path a = page_path b \<longleftrightarrow> unat a div 4096 mod 2 ^ 36 = unat b div 4096 mod 2 ^ 36"
proof -
  have "unat (take_bit 48 a AND PAGE_MASK) = unat a div 4096 mod 2 ^ 36 * 4096" for a :: u64
  proof -
    have "unat (take_bit 48 a) = unat a mod (4096 * 2 ^ 36)"
      by (simp add: unsigned_take_bit_eq take_bit_nat_def)
    also have "\<dots> = 4096 * (unat a div 4096 mod 2 ^ 36) + unat a mod 4096"
      by (rule mod_mult2_eq)
    finally show ?thesis by (simp add: unat_page)
  qed
  then show ?thesis by (simp add: page_path_eq_iff word_unat_eq_iff)
qed

lemma page_path_heap:
  assumes "HEAP_START_VADDR \<le> a" "a < W64" "HEAP_START_VADDR \<le> b" "b < W64"
  shows "page_path (of_nat a) = page_path (of_nat b) \<longleftrightarrow> a div 4096 = b div 4096"
proof -
  have u: "unat (of_nat a :: u64) = a" "unat (of_nat b :: u64) = b" using assms by simp_all
  have "a div 4096 div 2 ^ 36 = 0xFFFF" "b div 4096 div 2 ^ 36 = 0xFFFF"
    using assms by (simp_all add: div_mult2_eq [symmetric])
  then show ?thesis
    unfolding page_path_number u by (metis div_mod_decomp)
qed

text \<open>A mapped page whose frame is not one of the tables.\<close>

definition data_page :: "vmm_state \<Rightarrow> u64 \<Rightarrow> nat \<Rightarrow> bool" where
  "data_page v root a \<longleftrightarrow>
     (\<exists>e. walk v root (page_path (of_nat a)) = Page e \<and>
        (\<forall>q. idx_ok q \<longrightarrow> length q \<le> 3 \<longrightarrow> node v root q \<noteq> Some (e AND PAGE_MASK)))"

definition owned_page :: "vmm_state \<Rightarrow> u64 \<Rightarrow> nat \<Rightarrow> bool" where
  "owned_page v root a \<longleftrightarrow>
     (\<exists>e. walk v root (page_path (of_nat a)) = Page e \<and> pmm_owns_page (frames v) (e AND PAGE_MASK) \<and>
        (\<forall>q. idx_ok q \<longrightarrow> length q \<le> 3 \<longrightarrow> node v root q \<noteq> Some (e AND PAGE_MASK)))"

lemma owned_data: "owned_page v root a \<Longrightarrow> data_page v root a"
  unfolding owned_page_def data_page_def by blast

lemma kernel_root_nonzero: "tree_ok v (kernel_pml4_phys v) \<Longrightarrow> kernel_pml4_phys v \<noteq> 0"
  using tree_owned [of v "kernel_pml4_phys v" "[]"] by (auto simp: pmm_owns_page_def)

lemma alloc_kernel_step:
  assumes tree: "tree_ok v (kernel_pml4_phys v)" and s: "vmm_alloc_page_kernel v va 3 = (ok, v')"
  shows "kernel_pml4_phys v' = kernel_pml4_phys v" "tree_ok v' (kernel_pml4_phys v)"
    "ok \<Longrightarrow> page_path (of_nat a) = page_path va \<Longrightarrow> owned_page v' (kernel_pml4_phys v) a"
    "owned_page v (kernel_pml4_phys v) a \<Longrightarrow> page_path (of_nat a) \<noteq> page_path va \<Longrightarrow>
      owned_page v' (kernel_pml4_phys v) a"
    "\<not> ok \<or> page_path x \<noteq> page_path va \<Longrightarrow>
      walk v' (kernel_pml4_phys v) (page_path x) = walk v (kernel_pml4_phys v) (page_path x)"
proof -
  let ?r = "kernel_pml4_phys v"
  have aw: "alloc_walk v va 3 ?r = (ok, v')" using s kernel_root_nonzero [OF tree] by (simp add: alloc_page_walks)
  note sp = alloc_walk_spec [OF tree aw]
  show "kernel_pml4_phys v' = ?r" by (subst sp(2)) simp
  show "tree_ok v' ?r" by (rule sp(1))
  show w: "walk v' ?r (page_path x) = walk v ?r (page_path x)" if "\<not> ok \<or> page_path x \<noteq> page_path va" for x
  proof (cases ok)
    case False
    then show ?thesis by (rule sp(3))
  next
    case True
    with sp(4) that show ?thesis by auto
  qed
  show "owned_page v' ?r a" if ok: "ok" and pp: "page_path (of_nat a) = page_path va"
  proof -
    obtain pa where pa: "frame_aligned pa" "pmm_owns_page (frames v') pa"
        "\<forall>q. idx_ok q \<longrightarrow> length q \<le> 3 \<longrightarrow> node v' ?r q \<noteq> Some pa"
        "\<forall>va'. walk v' ?r (page_path va') = (if page_path va' = page_path va then leaf (pa OR 3) else walk v ?r (page_path va'))"
      using sp(4) [OF ok] by blast
    have "bit (3 :: u64) 0" by (simp add: bit_0)
    then have "present (pa OR 3)" unfolding present_bit bit_or_iff by blast
    then have "walk v' ?r (page_path (of_nat a)) = Page (pa OR 3)" using pa(4) pp by (simp add: leaf_def)
    moreover have "(pa OR 3) AND PAGE_MASK = pa" by (rule frame_flags [OF pa(1)]) simp
    ultimately show ?thesis unfolding owned_page_def using pa(2,3) by auto
  qed
  show "owned_page v' ?r a" if o: "owned_page v ?r a" and pp: "page_path (of_nat a) \<noteq> page_path va"
  proof -
    obtain e where e: "walk v ?r (page_path (of_nat a)) = Page e" "pmm_owns_page (frames v) (e AND PAGE_MASK)"
        "\<forall>q. idx_ok q \<longrightarrow> length q \<le> 3 \<longrightarrow> node v ?r q \<noteq> Some (e AND PAGE_MASK)"
      using o unfolding owned_page_def by blast
    have "node v' ?r q \<noteq> Some (e AND PAGE_MASK)" if "idx_ok q" "length q \<le> 3" for q
      using sp(7) [OF that] e(2,3) that by blast
    then show ?thesis
      unfolding owned_page_def using w [of "of_nat a"] pp e(1) sp(5) [OF e(2)] by auto
  qed
qed

lemma expand_pages_spec:
  assumes "tree_ok v (kernel_pml4_phys v)" "expand_pages k v e = (ok, v', e')"
    and "4096 dvd e" "HEAP_START_VADDR \<le> e" "e + k * 4096 < W64"
  shows "kernel_pml4_phys v' = kernel_pml4_phys v \<and> tree_ok v' (kernel_pml4_phys v) \<and>
    (\<exists>j \<le> k. e' = e + j * 4096 \<and> (ok \<longleftrightarrow> j = k)) \<and>
    (\<forall>a. e \<le> a \<longrightarrow> a < e' \<longrightarrow> owned_page v' (kernel_pml4_phys v) a) \<and>
    (\<forall>a. HEAP_START_VADDR \<le> a \<longrightarrow> a < e \<longrightarrow>
       walk v' (kernel_pml4_phys v) (page_path (of_nat a)) = walk v (kernel_pml4_phys v) (page_path (of_nat a))) \<and>
    (\<forall>a. HEAP_START_VADDR \<le> a \<longrightarrow> a < e \<longrightarrow> owned_page v (kernel_pml4_phys v) a \<longrightarrow>
       owned_page v' (kernel_pml4_phys v) a)"
  using assms
proof (induction k arbitrary: v e)
  case 0
  then show ?case by auto
next
  case (Suc k)
  let ?r = "kernel_pml4_phys v"
  obtain ok1 v1 where s: "vmm_alloc_page_kernel v (of_nat e) 3 = (ok1, v1)" by fastforce
  note st = alloc_kernel_step [OF Suc.prems(1) s]
  have e: "e < W64" "(e + 4096) mod W64 = e + 4096" using Suc.prems(5) by simp_all
  have other: "page_path (of_nat a) \<noteq> page_path (of_nat e :: u64)" if "HEAP_START_VADDR \<le> a" "a < e" for a
  proof -
    have "a div 4096 \<noteq> e div 4096" using that Suc.prems(3) by (auto elim!: dvdE)
    then show ?thesis using page_path_heap [of a e] that e(1) Suc.prems(4) by simp
  qed
  show ?case
  proof (cases ok1)
    case False
    then have "ok = False" "v' = v1" "e' = e" using Suc.prems(2) s by auto
    with False st(1,2,5) other show ?thesis
      by (auto intro!: exI [of _ 0] st(4))
  next
    case True
    then have rest: "expand_pages k v1 (e + 4096) = (ok, v', e')" using Suc.prems(2) s e(2) by simp
    have tree1: "tree_ok v1 (kernel_pml4_phys v1)" using st(1,2) by simp
    have "4096 dvd e + 4096" using Suc.prems(3) by simp
    note IH = Suc.IH [OF tree1 rest this, unfolded st(1)]
    have same: "page_path (of_nat a) = page_path (of_nat e :: u64)" if "e \<le> a" "a < e + 4096" for a
    proof -
      have "a div 4096 = e div 4096" using that Suc.prems(3) by (auto elim!: dvdE simp: div_nat_eqI)
      then show ?thesis using page_path_heap [of a e] that e(1) Suc.prems(4,5) by simp
    qed
    have here: "owned_page v1 ?r a" if "e \<le> a" "a < e + 4096" for a
      using st(3) [OF True same [OF that]] .
    have I: "kernel_pml4_phys v' = ?r \<and> tree_ok v' ?r"
        "\<exists>j \<le> k. e' = e + 4096 + j * 4096 \<and> (ok \<longleftrightarrow> j = k)"
        "\<And>a. e + 4096 \<le> a \<Longrightarrow> a < e' \<Longrightarrow> owned_page v' ?r a"
        "\<And>a. HEAP_START_VADDR \<le> a \<Longrightarrow> a < e + 4096 \<Longrightarrow>
           walk v' ?r (page_path (of_nat a)) = walk v1 ?r (page_path (of_nat a))"
        "\<And>a. HEAP_START_VADDR \<le> a \<Longrightarrow> a < e + 4096 \<Longrightarrow> owned_page v1 ?r a \<Longrightarrow> owned_page v' ?r a"
      using IH Suc.prems(4,5) by auto
    obtain j where j: "j \<le> k" "e' = e + 4096 + j * 4096" "ok \<longleftrightarrow> j = k" using I(2) by blast
    have "owned_page v' ?r a" if "e \<le> a" "a < e'" for a
      using that I(3,5) here Suc.prems(4) by (cases "a < e + 4096") auto
    moreover have "walk v' ?r (page_path (of_nat a)) = walk v ?r (page_path (of_nat a))"
      if "HEAP_START_VADDR \<le> a" "a < e" for a
      using I(4) [OF that(1)] st(5) other [OF that] that(2) by simp
    moreover have "owned_page v' ?r a" if "HEAP_START_VADDR \<le> a" "a < e" "owned_page v ?r a" for a
      using I(5) [OF that(1)] st(4) [OF that(3) other [OF that(1,2)]] that(2) by simp
    ultimately show ?thesis
      using I(1) j by (auto intro!: exI [of _ "Suc j"])
  qed
qed

text \<open>One turn of the roll back: a page is unmapped and its frame given back.\<close>

lemma rollback_step:
  assumes tree: "tree_ok v r" and root: "kernel_pml4_phys v = r" and data: "data_page v r e"
    and u: "vmm_unmap_page_from v (of_nat e) r = (pa, v1)" and v2: "v2 = (if pa \<noteq> PHYS_NULL then vmm_free v1 pa else v1)"
  shows "tree_ok v2 r" "kernel_pml4_phys v2 = r" "idx_ok q \<Longrightarrow> length q \<le> 3 \<Longrightarrow> node v2 r q = node v r q"
    "walk v2 r (page_path x) = (if page_path x = page_path (of_nat e) then Unmapped else walk v r (page_path x))"
    "frame_aligned f \<Longrightarrow> (\<forall>q. idx_ok q \<longrightarrow> length q \<le> 3 \<longrightarrow> node v r q \<noteq> Some f) \<Longrightarrow> j < 512 \<Longrightarrow> rd v2 f j = rd v f j"
proof -
  obtain y where y: "walk v r (page_path (of_nat e)) = Page y"
      "\<forall>q. idx_ok q \<longrightarrow> length q \<le> 3 \<longrightarrow> node v r q \<noteq> Some (y AND PAGE_MASK)"
    using data unfolding data_page_def by blast
  note us = unmap_spec [OF tree u]
  have pa: "pa = y AND PAGE_MASK" by (rule us(2) [OF y(1)])
  obtain pt where pt: "v1 = wr v pt (PT_IDX (of_nat e)) 0" "node v r [PML4_IDX (of_nat e), PDPT_IDX (of_nat e), PD_IDX (of_nat e)] = Some pt"
    using tree by (cases rule: unmap_cases [where va = "of_nat e"]) (use u y(1) in auto)
  have nd: "node v1 r q = node v r q" if "idx_ok q" "length q \<le> 3" for q
    using write_pt(3) [OF tree _ _ pt(2) IDX_less(4)] that pt(1) by simp
  have v2': "v2 = v1\<lparr>frames := frames v2\<rparr>" by (simp add: v2 vmm_free_def)
  show "kernel_pml4_phys v2 = r" using root pt(1) by (simp add: v2 vmm_free_def wr_def)
  show "node v2 r q = node v r q" if "idx_ok q" "length q \<le> 3" by (subst v2') (simp add: nd [OF that])
  show "walk v2 r (page_path x) = (if page_path x = page_path (of_nat e) then Unmapped else walk v r (page_path x))"
    using us(3) [OF y(1), of x] by (subst v2') simp
  show "tree_ok v2 r"
  proof (cases "pa = PHYS_NULL")
    case False
    have inv: "pmm_inv (frames v1)" by (rule tree_pmm [OF us(1)])
    have "pmm_owns_page (pmm_release (frames v1) pa) f"
      if "length q \<le> 3" "idx_ok q" "node v1 r q = Some f" for q f
    proof -
      have "f \<noteq> pa" using y(2) nd [OF that(2,1)] that pa by auto
      with tree_owned [OF us(1) that] show ?thesis
        by (metis inv pmm.release_owns pmm.release_refused)
    qed
    then have "tree_ok (v1\<lparr>frames := pmm_release (frames v1) pa\<rparr>) r"
      by (intro tree_ok_frames [OF us(1) pmm.release_ok [OF inv]])
    with False show ?thesis by (simp add: v2 vmm_free_def pmm_release_def)
  qed (use us(1) v2 in simp)
  show "rd v2 f j = rd v f j" if f: "frame_aligned f" "\<forall>q. idx_ok q \<longrightarrow> length q \<le> 3 \<longrightarrow> node v r q \<noteq> Some f" "j < 512"
  proof -
    have "idx_ok [PML4_IDX (of_nat e), PDPT_IDX (of_nat e), PD_IDX (of_nat e)]" by simp
    then have "f \<noteq> pt" using pt(2) f(2) by (auto simp del: node.simps)
    moreover have "frame_aligned pt" by (rule tree_aligned [OF tree _ _ pt(2)]) simp_all
    ultimately have "rd v1 f j = rd v f j" using f(1,3) by (simp add: pt(1) rd_wr)
    then show ?thesis by (subst v2') simp
  qed
qed

lemma rollback_pages_spec:
  assumes "tree_ok v (kernel_pml4_phys v)" "\<And>a. e \<le> a \<Longrightarrow> a < e + k * 4096 \<Longrightarrow> data_page v (kernel_pml4_phys v) a"
    and "4096 dvd e" "HEAP_START_VADDR \<le> e" "e + k * 4096 < W64"
  shows "kernel_pml4_phys (rollback_pages k v e) = kernel_pml4_phys v \<and>
    tree_ok (rollback_pages k v e) (kernel_pml4_phys v) \<and>
    (\<forall>a. HEAP_START_VADDR \<le> a \<longrightarrow> a < e \<longrightarrow>
       walk (rollback_pages k v e) (kernel_pml4_phys v) (page_path (of_nat a)) =
       walk v (kernel_pml4_phys v) (page_path (of_nat a)))"
  using assms
proof (induction k arbitrary: v e)
  case (Suc k)
  let ?r = "kernel_pml4_phys v"
  obtain pa v1 where u: "vmm_unmap_page_from v (of_nat e) ?r = (pa, v1)" by fastforce
  have data: "data_page v ?r e" using Suc.prems(2) [of e] by simp
  let ?v2 = "if pa \<noteq> PHYS_NULL then vmm_free v1 pa else v1"
  note st = rollback_step [OF Suc.prems(1) refl data u refl]
  note t2 = st(1) and r2 = st(2) and n2 = st(3)
  have far: "page_path (of_nat a) \<noteq> page_path (of_nat e :: u64)"
    if "HEAP_START_VADDR \<le> a" "a < W64" "a < e \<or> e + 4096 \<le> a" for a
  proof -
    have "a div 4096 \<noteq> e div 4096" using that(3) Suc.prems(3) by (auto elim!: dvdE)
    then show ?thesis using page_path_heap [of a e] that(1,2) Suc.prems(4,5) by simp
  qed
  have wk: "walk ?v2 ?r (page_path (of_nat a)) = walk v ?r (page_path (of_nat a))"
    if "HEAP_START_VADDR \<le> a" "a < W64" "a < e \<or> e + 4096 \<le> a" for a
    using st(4) [of "of_nat a"] far [OF that] by simp
  have "data_page ?v2 ?r a" if "e + 4096 \<le> a" "a < e + 4096 + k * 4096" for a
  proof -
    have "data_page v ?r a" using Suc.prems(2) [of a] that by simp
    moreover have "walk ?v2 ?r (page_path (of_nat a)) = walk v ?r (page_path (of_nat a))"
      by (rule wk) (use that Suc.prems(4,5) in simp_all)
    ultimately show ?thesis unfolding data_page_def using n2 by simp
  qed
  then have "kernel_pml4_phys (rollback_pages k ?v2 (e + 4096)) = ?r \<and> tree_ok (rollback_pages k ?v2 (e + 4096)) ?r \<and>
      (\<forall>a. HEAP_START_VADDR \<le> a \<longrightarrow> a < e + 4096 \<longrightarrow>
         walk (rollback_pages k ?v2 (e + 4096)) ?r (page_path (of_nat a)) = walk ?v2 ?r (page_path (of_nat a)))"
    using Suc.IH [of ?v2 "e + 4096"] t2 Suc.prems(3-5) unfolding r2 by simp
  moreover have "rollback_pages (Suc k) v e = rollback_pages k ?v2 (e + 4096)"
    using u by (simp add: vmm_get_kernel_pml4_phys_def)
  ultimately show ?case using wk Suc.prems(5) by simp
qed simp

section \<open>Growing: the new block\<close>

lemma chain_relink:
  assumes "chain m a e None bs" "bs \<noteq> []"
  shows "chain (m(last bs := (m (last bs))\<lparr>nxt := Some d\<rparr>)) a e (Some d) bs"
proof -
  obtain xs t where bs: "bs = xs @ [t]" using assms(2) by (metis append_butlast_last_id)
  from assms(1) obtain c where c: "chain m a c (Some t) xs" "chain m c e None [t]"
    unfolding bs chain_append by auto
  have "t \<notin> set xs" using chain_distinct [OF assms(1)] bs by simp
  then have "chain (m(t := (m t)\<lparr>nxt := Some d\<rparr>)) a c (Some t) xs"
    using c(1) by (subst chain_cong [of _ _ m]) auto
  with c(2) show ?thesis unfolding bs chain_append by (auto intro!: exI [of _ c])
qed

definition pages_for :: "nat \<Rightarrow> nat" where
  "pages_for n = (n + HDR) div 4096 + (if (n + HDR) mod 4096 \<noteq> 0 then 1 else 0)"

lemma pages_for_bounds: "n + HDR \<le> pages_for n * 4096" "pages_for n * 4096 < n + HDR + 4096" "0 < pages_for n"
proof -
  define q m where "q = (n + HDR) div 4096" and "m = (n + HDR) mod 4096"
  have *: "n + HDR = 4096 * q + m" unfolding q_def m_def by (simp only: mult_div_mod_eq)
  have "m < 4096" by (simp add: m_def)
  moreover have "pages_for n = q + (if m \<noteq> 0 then 1 else 0)" by (simp only: pages_for_def q_def m_def)
  ultimately show "n + HDR \<le> pages_for n * 4096" "pages_for n * 4096 < n + HDR + 4096"
    using * by (cases "m = 0"; simp)+
  then show "0 < pages_for n" by (cases "pages_for n") auto
qed

lemma heap_end_ge: "heap_rep h bs \<Longrightarrow> HEAP_START_VADDR \<le> current_heap_end h"
  unfolding heap_rep_def using chain_le by blast

lemma expand_heap_spec:
  assumes inv: "heap_inv h" and rep: "heap_rep h bs" and room: "current_heap_end h + n + 8192 < W64"
  obtains (oom) h' where "expand_heap h n = Some (None, h')" "heap_inv h'" "heap_rep h' bs" "hmem h' = hmem h"
      "hbytes h' = hbytes h" "current_heap_end h' = current_heap_end h"
  | (grown) h' where "expand_heap h n = Some (Some (current_heap_end h), h')" "heap_inv h'"
      "heap_rep h' (bs @ [current_heap_end h])" "is_free (hmem h' (current_heap_end h))"
      "n \<le> bsize (hmem h' (current_heap_end h))" "hbytes h' = hbytes h"
      "\<And>b. b \<in> set bs \<Longrightarrow> is_free (hmem h' b) = is_free (hmem h b) \<and> bsize (hmem h' b) = bsize (hmem h b)"
      "current_heap_end h' < current_heap_end h + n + 8192"
proof -
  let ?s = "current_heap_end h" and ?k = "pages_for n" and ?r = "kernel_pml4_phys (vm h)"
  note pb = pages_for_bounds [of n]
  have ch: "chain (hmem h) HEAP_START_VADDR ?s None bs" and hd: "heap_head h = hd_or bs None"
    using rep by (simp_all add: heap_rep_def)
  have ge: "HEAP_START_VADDR \<le> ?s" by (rule heap_end_ge [OF rep])
  have i: "4096 dvd ?s" "tree_ok (vm h) ?r" "heap_mapped h" using inv by (simp_all add: heap_inv_def)
  have tot: "(n + HDR) mod W64 = n + HDR" using room by simp
  obtain ok v1 e1 where ep: "expand_pages ?k (vm h) ?s = (ok, v1, e1)" by (metis prod_cases3)
  have lt: "?s + ?k * 4096 < W64" using pb(2) room by simp
  note es = expand_pages_spec [OF i(2) ep i(1) ge lt]
  obtain j where j: "j \<le> ?k" "e1 = ?s + j * 4096" "ok \<longleftrightarrow> j = ?k" using es by blast
  have old: "\<exists>e. walk v1 ?r (page_path (of_nat a)) = Page e" if "HEAP_START_VADDR \<le> a" "a < ?s" for a
    using es i(3) that unfolding heap_mapped_def by metis
  show ?thesis
  proof (cases ok)
    case False
    have "(e1 + W64 - ?s) mod W64 = j * 4096" using j lt by simp
    then have m: "(e1 + W64 - ?s) mod W64 div 4096 = j" by simp
    let ?v = "rollback_pages j v1 ?s"
    have tree1: "tree_ok v1 (kernel_pml4_phys v1)" using es by simp
    have js: "?s + j * 4096 < W64" using j(1) lt by (meson add_le_cancel_left le_less_trans mult_le_mono1)
    have "data_page v1 (kernel_pml4_phys v1) a" if "?s \<le> a" "a < ?s + j * 4096" for a
      using es j(2) that owned_data by simp
    note rs = rollback_pages_spec [OF tree1 this i(1) ge js]
    let ?h = "h\<lparr>vm := ?v\<rparr>"
    have k: "kernel_pml4_phys ?v = ?r" using rs es by simp
    have "heap_mapped ?h"
      unfolding heap_mapped_def using rs old es by simp
    moreover have "tree_ok ?v ?r" using rs es by simp
    moreover have r: "heap_rep ?h bs" using rep by (simp add: heap_rep_def)
    ultimately have "heap_inv ?h" using inv k unfolding heap_inv_def by auto
    moreover have "expand_heap h n = Some (None, ?h)"
      unfolding expand_heap_def tot Let_def pages_for_def [symmetric] ep using False m by simp
    ultimately show ?thesis using r by (intro oom [of ?h]) simp_all
  next
    case True
    then have e1: "e1 = ?s + ?k * 4096" using j by simp
    let ?blk = "\<lparr>magic = HEAP_MAGIC, bsize = ?k * 4096 - HDR, is_free = True, nxt = None\<rparr>"
    let ?m = "(hmem h)(?s := ?blk)"
    have bs: "(?k * 4096 + W64 - HDR) mod W64 = ?k * 4096 - HDR"
    proof -
      have "?k * 4096 + W64 - HDR = (?k * 4096 - HDR) + W64" using pb(1) by simp
      then have "(?k * 4096 + W64 - HDR) mod W64 = (?k * 4096 - HDR) mod W64" by (simp only: mod_add_self2)
      also have "\<dots> = ?k * 4096 - HDR" using lt by (intro mod_less) simp
      finally show ?thesis .
    qed
    have out: "?s \<notin> set bs" using chain_range [OF ch, of ?s] by auto
    have chm: "chain ?m HEAP_START_VADDR ?s None bs" using ch out by (subst chain_cong [of _ _ "hmem h"]) auto
    have d16: "16 dvd ?k * 4096 - HDR" by (simp add: dvd_diff_nat)
    define m2 where "m2 = (if bs = [] then ?m else ?m(last bs := (?m (last bs))\<lparr>nxt := Some ?s\<rparr>))"
    let ?h = "h\<lparr>hmem := m2, vm := v1, current_heap_end := e1, heap_head := hd_or (bs @ [?s]) None\<rparr>"
    have e: "expand_heap h n = Some (Some ?s, ?h)"
    proof (cases bs)
      case Nil
      then show ?thesis
        unfolding expand_heap_def tot Let_def pages_for_def [symmetric] ep
        using True hd bs by (simp add: m2_def)
    next
      case (Cons b cs)
      then have "list_tail ?m b = Some (last bs)" using list_tail_chain [OF chm] by simp
      then show ?thesis
        unfolding expand_heap_def tot Let_def pages_for_def [symmetric] ep
        using True hd bs Cons by (simp add: m2_def)
    qed
    have lb: "bs \<noteq> [] \<Longrightarrow> last bs \<noteq> ?s" using out by (metis last_in_set)
    then have m2s: "m2 ?s = ?blk" by (auto simp: m2_def)
    have "chain m2 HEAP_START_VADDR ?s (Some ?s) bs"
      using chain_relink [OF chm] ch by (cases "bs = []") (simp_all add: m2_def)
    moreover have "?s + HDR + (?k * 4096 - HDR) = e1" using pb(1) e1 by simp
    ultimately have "chain m2 HEAP_START_VADDR e1 None (bs @ [?s])"
      unfolding chain_append using d16 m2s by (intro exI [of _ ?s]) simp
    then have r: "heap_rep ?h (bs @ [?s])" by (simp add: heap_rep_def)
    have "heap_mapped ?h"
      unfolding heap_mapped_def
    proof (intro allI impI)
      fix a
      assume a: "HEAP_START_VADDR \<le> a" "a < current_heap_end ?h"
      have "owned_page v1 ?r a" if "?s \<le> a" using es that a(2) by simp
      then have "\<exists>e. walk v1 ?r (page_path (of_nat a)) = Page e"
        using old [OF a(1)] unfolding owned_page_def by (cases "a < ?s") auto
      then show "\<exists>e. walk (vm ?h) (kernel_pml4_phys (vm ?h)) (page_path (of_nat a)) = Page e" using es by simp
    qed
    moreover have "4096 dvd e1" using i(1) e1 by simp
    moreover have "e1 < W64" using e1 lt by simp
    moreover have "tree_ok v1 (kernel_pml4_phys v1)" using es by simp
    ultimately have "heap_inv ?h" unfolding heap_inv_def using exI [of "heap_rep ?h", OF r] by simp
    moreover have "is_free (m2 b) = is_free (hmem h b) \<and> bsize (m2 b) = bsize (hmem h b)" if "b \<in> set bs" for b
    proof -
      have "b \<noteq> ?s" using that out by metis
      moreover have "bs \<noteq> []" using that by auto
      ultimately show ?thesis using lb by (cases "b = last bs") (simp_all add: m2_def)
    qed
    moreover have "n \<le> ?k * 4096 - HDR" "e1 < ?s + n + 8192" using pb e1 by simp_all
    ultimately show ?thesis
      using m2s by (intro grown [OF e _ r]) simp_all
  qed
qed

section \<open>kmalloc and kfree\<close>

text \<open>The rounding of the request, 64 bits wide, to a multiple of 16.\<close>

definition round16 :: "u64 \<Rightarrow> nat" where
  "round16 sz = unat ((sz + 15) AND NOT 15)"

lemma round16_eq:
  assumes "unat sz + 15 < W64"
  shows "round16 sz = (unat sz + 15) div 16 * 16"
proof -
  have m: "(15 :: u64) = mask 4" by (simp add: mask_eq_exp_minus_1)
  have "(sz + 15) AND NOT (mask 4) = push_bit 4 (drop_bit 4 (sz + 15))"
    by (rule bit_word_eqI) (auto simp: bit_simps)
  moreover have u: "unat (drop_bit 4 (sz + 15)) = (unat sz + 15) div 16"
    using assms by (simp add: unat_drop_bit_eq drop_bit_nat_def unat_word_ariths)
  moreover have "(unat sz + 15) div 16 * 16 < W64" using assms by linarith
  ultimately have "unat ((sz + 15) AND NOT (mask 4)) = (unat sz + 15) div 16 * 16"
    by (simp add: push_bit_eq_mult unat_word_ariths mult.commute)
  then show ?thesis unfolding round16_def m .
qed

lemma round16_bounds:
  assumes "unat sz + 15 < W64"
  shows "unat sz \<le> round16 sz" "round16 sz < unat sz + 16" "16 dvd round16 sz"
  using round16_eq [OF assms] by (auto simp: algebra_simps)

lemma round16_round: "16 dvd n \<Longrightarrow> n + 15 < W64 \<Longrightarrow> round16 (of_nat n) = n"
  by (subst round16_eq) (auto elim!: dvdE)

lemma kmalloc_unfold:
  assumes "sz \<noteq> 0"
  shows "kmalloc h sz = first_fit (hmem h) (heap_head h) (round16 sz) \<bind> (\<lambda>r.
    case r of
      Panic b \<Rightarrow> Some (Panic b, h)
    | Ret (Some b) \<Rightarrow> Some (Ret (Some (b + HDR)), h\<lparr>hmem := take_block (hmem h) b (round16 sz)\<rparr>)
    | Ret None \<Rightarrow> expand_heap h (round16 sz) \<bind> (\<lambda>e.
        case e of (None, h1) \<Rightarrow> Some (Ret None, h1) | (Some f, h1) \<Rightarrow> kmalloc h1 (of_nat (round16 sz))))"
  by (subst kmalloc.simps) (simp only: assms round16_def Let_def if_False)

lemma find_snoc: "find P xs = None \<Longrightarrow> find P (xs @ [x]) = (if P x then Some x else None)"
  by (induction xs) (auto split: if_splits)

definition fits :: "heap_state \<Rightarrow> nat \<Rightarrow> nat \<Rightarrow> bool" where
  "fits h n b \<longleftrightarrow> is_free (hmem h b) \<and> n \<le> bsize (hmem h b)"

lemma kmalloc_found:
  assumes inv: "heap_inv h" and rep: "heap_rep h bs" and sz: "sz \<noteq> 0" "unat sz + 15 < W64"
    and f: "find (fits h (round16 sz)) bs = Some b"
  shows "\<exists>h' s. kmalloc h sz = Some (Ret (Some (b + HDR)), h') \<and> heap_inv h' \<and>
    live h' = insert (b + HDR, s) (live h) \<and> round16 sz \<le> s \<and> s \<le> bsize (hmem h b) \<and>
    b \<in> set bs \<and> is_free (hmem h b) \<and> hbytes h' = hbytes h \<and> current_heap_end h' = current_heap_end h"
proof -
  let ?n = "round16 sz" and ?m = "take_block (hmem h) b (round16 sz)"
  have ch: "chain (hmem h) HEAP_START_VADDR (current_heap_end h) None bs" and hd: "heap_head h = hd_or bs None"
    using rep by (simp_all add: heap_rep_def)
  have b: "fits h ?n b" "b \<in> set bs" using f by (auto simp: find_Some_iff)
  obtain xs ys where bs: "bs = xs @ b # ys" using b(2) by (meson split_list)
  have small: "current_heap_end h < HEAP_START_VADDR + W64 - 64" using inv by (simp add: heap_inv_def)
  obtain zs where z: "chain ?m HEAP_START_VADDR (current_heap_end h) None (xs @ b # zs)"
      "?n \<le> bsize (?m b)" "bsize (?m b) \<le> bsize (hmem h b)"
      "live_in ?m (xs @ b # zs) = insert (b + HDR, bsize (?m b)) (live_in (hmem h) bs)"
    using take_block_chain [OF ch [unfolded bs] _ _ round16_bounds(3) [OF sz(2)] small] b(1) bs
    by (auto simp: fits_def)
  let ?h = "h\<lparr>hmem := ?m\<rparr>"
  have "hd_or (xs @ b # zs) None = hd_or bs None" using bs by (cases xs) simp_all
  then have "heap_rep ?h (xs @ b # zs)" using z(1) hd unfolding heap_rep_def by (simp del: chain.simps)
  moreover from this have "heap_inv ?h" using inv by (auto simp: heap_inv_def heap_mapped_def)
  moreover have "first_fit (hmem h) (heap_head h) ?n = Some (Ret (Some b))"
    using first_fit_chain [OF ch, of ?n] f hd by (simp add: fits_def [abs_def])
  then have "kmalloc h sz = Some (Ret (Some (b + HDR)), ?h)"
    using sz(1) by (simp add: kmalloc_unfold)
  ultimately show ?thesis
    using z live_rep b live_rep [OF rep] by (intro exI [of _ ?h] exI [of _ "bsize (?m b)"]) (simp add: fits_def)
qed

lemma kmalloc_spec:
  assumes inv: "heap_inv h" and sz: "sz \<noteq> 0" and room: "current_heap_end h + unat sz + 16384 < W64"
  shows "\<exists>r h'. kmalloc h sz = Some (Ret r, h') \<and> heap_inv h' \<and> hbytes h' = hbytes h \<and>
    current_heap_end h' \<le> current_heap_end h + unat sz + 16384 \<and>
    (case r of
       None \<Rightarrow> live h' = live h
     | Some p \<Rightarrow> \<exists>s. round16 sz \<le> s \<and> live h' = insert (p, s) (live h) \<and> (\<forall>s'. (p, s') \<notin> live h))"
proof -
  let ?n = "round16 sz"
  obtain bs where rep: "heap_rep h bs" using inv by (auto simp: heap_inv_def)
  have sz15: "unat sz + 15 < W64" using room by simp
  note rb = round16_bounds [OF sz15]
  have fresh: "(b + HDR, s') \<notin> live_in m bs" if "is_free (m b)" for b s' m bs
    using that by (auto simp: live_in_def)
  show ?thesis
  proof (cases "find (fits h ?n) bs")
    case (Some b)
    obtain h' s where k: "kmalloc h sz = Some (Ret (Some (b + HDR)), h')" "heap_inv h'"
        "live h' = insert (b + HDR, s) (live h)" "?n \<le> s" "is_free (hmem h b)" "hbytes h' = hbytes h"
        "current_heap_end h' = current_heap_end h"
      using kmalloc_found [OF inv rep sz sz15 Some] by blast
    then show ?thesis using fresh [of "hmem h" b, OF k(5)] live_rep [OF rep]
      by (intro exI [of _ "Some (b + HDR)"] exI [of _ h']) auto
  next
    case None
    have ff: "first_fit (hmem h) (heap_head h) ?n = Some (Ret None)"
      using first_fit_chain [of "hmem h" HEAP_START_VADDR "current_heap_end h" bs ?n] rep None
      by (simp add: heap_rep_def fits_def [abs_def])
    have room': "current_heap_end h + ?n + 8192 < W64" using rb(2) room by simp
    from inv rep room' show ?thesis
    proof (cases rule: expand_heap_spec)
      case (oom h')
      then have "kmalloc h sz = Some (Ret None, h')"
        using sz ff by (simp add: kmalloc_unfold)
      with oom live_rep [OF rep] live_rep [OF oom(3)] show ?thesis
        by (intro exI [of _ None] exI [of _ h']) simp
    next
      case (grown h1)
      let ?b = "current_heap_end h"
      have step: "kmalloc h sz = kmalloc h1 (of_nat ?n)"
        using sz ff grown(1) by (subst kmalloc_unfold) simp_all
      have n: "?n < W64" "?n + 15 < W64" using room' by simp_all
      have un: "unat (of_nat ?n :: u64) = ?n" using n(1) by simp
      have rr: "round16 (of_nat ?n) = ?n" by (rule round16_round [OF rb(3) n(2)])
      have n0: "(of_nat ?n :: u64) \<noteq> 0"
        using un rb(1) sz by (metis le_zero_eq unat_0 unat_eq_zero)
      have "find (fits h1 ?n) bs = None"
        using None grown(7) unfolding find_None_iff fits_def by auto
      then have "find (fits h1 ?n) (bs @ [?b]) = Some ?b"
        using grown(4,5) by (simp add: find_snoc fits_def)
      then obtain h' s where k: "kmalloc h1 (of_nat ?n) = Some (Ret (Some (?b + HDR)), h')" "heap_inv h'"
          "live h' = insert (?b + HDR, s) (live h1)" "?n \<le> s" "hbytes h' = hbytes h1"
          "current_heap_end h' = current_heap_end h1"
        using kmalloc_found [OF grown(2,3) n0] un n(2) rr by auto
      have "live_in (hmem h1) bs = live_in (hmem h) bs" using grown(7) by (auto simp: live_in_def)
      then have l: "live h1 = live h" using live_rep [OF grown(3)] live_rep [OF rep] grown(4) by simp
      have "?b \<notin> set bs"
        using chain_range [of "hmem h" HEAP_START_VADDR ?b None bs ?b] rep by (auto simp: heap_rep_def)
      then have "(?b + HDR, s') \<notin> live h" for s' unfolding live_rep [OF rep] by (auto simp: live_in_def)
      moreover have "current_heap_end h' \<le> ?b + unat sz + 16384" using k(6) grown(8) rb(2) by simp
      ultimately show ?thesis using k l step grown(6)
        by (intro exI [of _ "Some (?b + HDR)"] exI [of _ h']) auto
    qed
  qed
qed

lemma kfree_spec:
  assumes inv: "heap_inv h" and p: "(p, s) \<in> live h"
  shows "\<exists>h' bs'. kfree h (Some p) = Some (Ret (), h') \<and> heap_inv h' \<and> live h' = live h - {(p, s)} \<and>
    heap_rep h' bs' \<and> no_adjacent_free (hmem h') bs' \<and> hbytes h' = hbytes h"
proof -
  obtain bs where rep: "heap_rep h bs" using inv by (auto simp: heap_inv_def)
  obtain b where b: "p = b + HDR" "s = bsize (hmem h b)" "b \<in> set bs" "\<not> is_free (hmem h b)"
    using p live_rep [OF rep] by (auto simp: live_in_def)
  have ch: "chain (hmem h) HEAP_START_VADDR (current_heap_end h) None bs" and hd: "heap_head h = hd_or bs None"
    using rep by (simp_all add: heap_rep_def)
  have lt: "current_heap_end h < W64" using inv by (simp add: heap_inv_def)
  have rg: "b + HDR + bsize (hmem h b) \<le> current_heap_end h" using chain_range [OF ch b(3)] by simp
  obtain xs ys where bs: "bs = xs @ b # ys" using b(3) by (meson split_list)
  let ?m = "(hmem h)(b := (hmem h b)\<lparr>is_free := True\<rparr>)"
  obtain c where c: "chain (hmem h) HEAP_START_VADDR c (Some b) xs" "chain (hmem h) c (current_heap_end h) None (b # ys)"
    using ch unfolding bs chain_append by auto
  have dist: "b \<notin> set xs" "b \<notin> set ys" using chain_distinct [OF ch] bs by auto
  have "chain ?m HEAP_START_VADDR c (Some b) xs" using c(1) dist by (subst chain_cong [of _ _ "hmem h"]) auto
  moreover have "chain ?m c (current_heap_end h) None (b # ys)"
  proof -
    have "chain ?m a e d ys = chain (hmem h) a e d ys" for a e d by (rule chain_cong) (use dist in auto)
    then show ?thesis using c(2) by auto
  qed
  ultimately have chm: "chain ?m HEAP_START_VADDR (current_heap_end h) None bs"
    unfolding bs chain_append by auto
  have "live_in ?m xs = live_in (hmem h) xs" "live_in ?m ys = live_in (hmem h) ys"
    by (rule live_in_cong; use dist in auto)+
  moreover have "(b + HDR, x) \<notin> live_in (hmem h) xs" "(b + HDR, x) \<notin> live_in (hmem h) ys" for x
    using dist by (auto simp: live_in_def)
  ultimately have lv: "live_in ?m bs = live_in (hmem h) bs - {(p, s)}"
    using b(4) unfolding bs b(1,2) by auto
  obtain m' bs' where co: "coalesce ?m (hd_or bs None) = Some (Ret (), m')"
      "chain m' HEAP_START_VADDR (current_heap_end h) None bs'" "hd_or bs' None = hd_or bs None"
      "live_in m' bs' = live_in ?m bs" "no_adjacent_free m' bs'"
    using coalesce_chain [OF chm lt] by blast
  have mg: "magic (hmem h b) = HEAP_MAGIC" using c(2) by auto
  have "(p + W64 - HDR) mod W64 = b" using b(1) rg lt by simp
  then have kf: "kfree h (Some p) = Some (Ret (), h\<lparr>hmem := m'\<rparr>)"
    using mg co(1) hd by (simp add: kfree_def)
  let ?h = "h\<lparr>hmem := m'\<rparr>"
  have r: "heap_rep ?h bs'" using co(2,3) hd by (simp add: heap_rep_def)
  then have "heap_inv ?h" using inv by (auto simp: heap_inv_def heap_mapped_def)
  moreover have "live ?h = live h - {(p, s)}"
    using live_rep [OF r] live_rep [OF rep] co(4) lv by simp
  ultimately show ?thesis using kf r co(5) by (intro exI [of _ ?h] exI [of _ bs']) simp
qed

lemma live_region:
  assumes "heap_inv h" "(p, s) \<in> live h"
  shows "HEAP_START_VADDR + HDR \<le> p" "p + s \<le> current_heap_end h" "16 dvd p"
proof -
  obtain bs where rep: "heap_rep h bs" using assms(1) by (auto simp: heap_inv_def)
  then have ch: "chain (hmem h) HEAP_START_VADDR (current_heap_end h) None bs" by (simp add: heap_rep_def)
  obtain b where b: "p = b + HDR" "s = bsize (hmem h b)" "b \<in> set bs"
    using assms(2) live_rep [OF rep] by (auto simp: live_in_def)
  show "HEAP_START_VADDR + HDR \<le> p" "p + s \<le> current_heap_end h"
    using chain_range [OF ch b(3)] b by simp_all
  have "16 dvd b" if "chain m a e d bs" "16 dvd a" "b \<in> set bs" for m a e d
    using that by (induction bs arbitrary: a) (auto simp: dvd_add)
  from this [OF ch _ b(3)] b(1) show "16 dvd p" by simp
qed

lemma live_disjoint:
  assumes "heap_inv h" "(p, s) \<in> live h" "(q, t) \<in> live h" "(p, s) \<noteq> (q, t)"
  shows "p + s \<le> q \<or> q + t \<le> p"
proof -
  obtain bs where rep: "heap_rep h bs" using assms(1) by (auto simp: heap_inv_def)
  then have ch: "chain (hmem h) HEAP_START_VADDR (current_heap_end h) None bs" by (simp add: heap_rep_def)
  obtain b c where b: "p = b + HDR" "s = bsize (hmem h b)" "b \<in> set bs"
      "q = c + HDR" "t = bsize (hmem h c)" "c \<in> set bs"
    using assms(2,3) live_rep [OF rep] by (auto simp: live_in_def)
  then have "b \<noteq> c" using assms(4) by auto
  then show ?thesis
    using chain_apart [OF ch b(3,6)] chain_apart [OF ch b(6,3)] b by (cases "b < c") auto
qed

section \<open>The contract of an allocator\<close>

text \<open>
  What the rest of the kernel relies on: the regions handed out are disjoint, lie in mapped
  memory, and only the region named by \<open>free\<close> goes away.
\<close>

locale allocator =
  fixes ok :: "'s \<Rightarrow> bool"
    and regions :: "'s \<Rightarrow> (nat \<times> nat) set"
    and can_grow :: "'s \<Rightarrow> u64 \<Rightarrow> bool"
    and alloc :: "'s \<Rightarrow> u64 \<Rightarrow> (nat option outcome \<times> 's) option"
    and free :: "'s \<Rightarrow> nat option \<Rightarrow> (unit outcome \<times> 's) option"
  assumes apart: "ok s \<Longrightarrow> (p, m) \<in> regions s \<Longrightarrow> (q, n) \<in> regions s \<Longrightarrow> (p, m) \<noteq> (q, n) \<Longrightarrow>
      p + m \<le> q \<or> q + n \<le> p"
    and alloc_law: "ok s \<Longrightarrow> sz \<noteq> 0 \<Longrightarrow> can_grow s sz \<Longrightarrow>
      \<exists>r s'. alloc s sz = Some (Ret r, s') \<and> ok s' \<and>
        (case r of None \<Rightarrow> regions s' = regions s
         | Some p \<Rightarrow> \<exists>n \<ge> unat sz. regions s' = insert (p, n) (regions s) \<and> (\<forall>n'. (p, n') \<notin> regions s))"
    and free_law: "ok s \<Longrightarrow> (p, m) \<in> regions s \<Longrightarrow>
      \<exists>s'. free s (Some p) = Some (Ret (), s') \<and> ok s' \<and> regions s' = regions s - {(p, m)}"
begin

lemma alloc_free_restores:
  assumes "ok s" "sz \<noteq> 0" "can_grow s sz" "alloc s sz = Some (Ret (Some p), s')"
  shows "\<exists>s''. free s' (Some p) = Some (Ret (), s'') \<and> ok s'' \<and> regions s'' = regions s"
proof -
  obtain n where n: "ok s'" "regions s' = insert (p, n) (regions s)" "(p, n) \<notin> regions s"
    using alloc_law [OF assms(1-3)] assms(4) by auto
  then show ?thesis using free_law [OF n(1), of p n] by auto
qed

lemma alloc_apart:
  assumes "ok s" "sz \<noteq> 0" "can_grow s sz" "alloc s sz = Some (Ret (Some p), s')" "(q, n) \<in> regions s"
  shows "p + unat sz \<le> q \<or> q + n \<le> p"
proof -
  obtain m where m: "ok s'" "m \<ge> unat sz" "regions s' = insert (p, m) (regions s)" "(p, n) \<notin> regions s"
    using alloc_law [OF assms(1-3)] assms(4) by auto
  moreover from m(4) assms(5) have "(p, m) \<noteq> (q, n)" by auto
  ultimately show ?thesis using apart [OF m(1), of p m q n] assms(5) by auto
qed

end

definition heap_can_grow :: "heap_state \<Rightarrow> u64 \<Rightarrow> bool" where
  "heap_can_grow h sz \<longleftrightarrow> current_heap_end h + unat sz + 16384 < W64"

interpretation kheap: allocator heap_inv live heap_can_grow kmalloc kfree
proof (unfold_locales, goal_cases)
  case (1 s p m q n)
  then show ?case by (rule live_disjoint)
next
  case (2 s sz)
  have "unat sz \<le> round16 sz" using 2(3) by (intro round16_bounds(1)) (simp add: heap_can_grow_def)
  then show ?case
  proof -
    obtain r h' where k: "kmalloc s sz = Some (Ret r, h')" "heap_inv h'"
        "case r of None \<Rightarrow> live h' = live s
         | Some p \<Rightarrow> \<exists>n. round16 sz \<le> n \<and> live h' = insert (p, n) (live s) \<and> (\<forall>n'. (p, n') \<notin> live s)"
      using kmalloc_spec [OF 2(1,2)] 2(3) unfolding heap_can_grow_def by blast
    have "case r of None \<Rightarrow> live h' = live s
        | Some p \<Rightarrow> \<exists>n \<ge> unat sz. live h' = insert (p, n) (live s) \<and> (\<forall>n'. (p, n') \<notin> live s)"
    proof (cases r)
      case (Some p)
      then obtain n where "round16 sz \<le> n" "live h' = insert (p, n) (live s)" "\<forall>n'. (p, n') \<notin> live s"
        using k(3) by auto
      with Some \<open>unat sz \<le> round16 sz\<close> show ?thesis by (auto intro!: exI [of _ n])
    qed (use k(3) in simp)
    with k(1,2) show ?thesis by blast
  qed
next
  case (3 s p m)
  then show ?case using kfree_spec by blast
qed

lemma krealloc_spec:
  assumes "heap_inv h" "(p, n) \<in> live h" "old \<le> n" "sz \<noteq> 0" "heap_can_grow h sz"
  shows "\<exists>r h'. krealloc h (Some p) old sz = Some (Ret r, h') \<and> heap_inv h' \<and>
    (\<forall>a < HEAP_START_VADDR. hbytes h' a = hbytes h a) \<and>
    (case r of
       None \<Rightarrow> live h' = live h \<and> hbytes h' = hbytes h
     | Some q \<Rightarrow> \<exists>m \<ge> unat sz. live h' = insert (q, m) (live h - {(p, n)}) \<and> (\<forall>n'. (q, n') \<notin> live h) \<and>
         (\<forall>i < min old (unat sz). hbytes h' (q + i) = hbytes h (p + i)) \<and>
         (\<forall>(t, l) \<in> live h. \<forall>a. t \<le> a \<longrightarrow> a < t + l \<longrightarrow> hbytes h' a = hbytes h a))"
proof -
  obtain r h1 where k: "kmalloc h sz = Some (Ret r, h1)" "heap_inv h1" "hbytes h1 = hbytes h"
      "case r of None \<Rightarrow> live h1 = live h
       | Some p \<Rightarrow> \<exists>n. round16 sz \<le> n \<and> live h1 = insert (p, n) (live h) \<and> (\<forall>n'. (p, n') \<notin> live h)"
    using kmalloc_spec [OF assms(1,4)] assms(5) unfolding heap_can_grow_def by blast
  have r16: "unat sz \<le> round16 sz" using assms(5) by (intro round16_bounds(1)) (simp add: heap_can_grow_def)
  show ?thesis
  proof (cases r)
    case None
    then show ?thesis using k assms(4)
      by (intro exI [of _ None] exI [of _ h1]) (simp add: krealloc_def)
  next
    case (Some q)
    then obtain m where m: "round16 sz \<le> m" "live h1 = insert (q, m) (live h)" "\<forall>n'. (q, n') \<notin> live h"
      using k(4) by auto
    let ?c = "min old (unat sz)"
    let ?h2 = "h1\<lparr>hbytes := memcpy q p ?c (hbytes h1)\<rparr>"
    have rep2: "heap_rep ?h2 bs = heap_rep h1 bs" for bs by (simp add: heap_rep_def)
    then have h2: "heap_inv ?h2" "live ?h2 = live h1"
      using k(2) by (simp_all add: heap_inv_def live_def heap_mapped_def)
    have pn: "(p, n) \<in> live ?h2" using h2(2) m(2) assms(2) by simp
    obtain h3 where h3: "kfree ?h2 (Some p) = Some (Ret (), h3)" "heap_inv h3"
        "live h3 = live ?h2 - {(p, n)}" "hbytes h3 = hbytes ?h2"
      using kfree_spec [OF h2(1) pn] by blast
    have apart: "q + m \<le> t \<or> t + l \<le> q" if "(t, l) \<in> live h" for t l
      using live_disjoint [OF k(2), of q m t l] m(2,3) that by auto
    have cm: "?c \<le> m" "?c \<le> n" using r16 m(1) assms(3) by simp_all
    have cp: "memcpy q p ?c (hbytes h1) a = (if q \<le> a \<and> a < q + ?c then hbytes h (p + (a - q)) else hbytes h a)" for a
    proof -
      have "0 < unat sz" using assms(4) by (simp add: unat_gt_0)
      then have "q < p \<or> p + ?c \<le> q" using apart [OF assms(2)] cm r16 m(1) by linarith
      from memcpy_eq [OF this] k(3) show ?thesis by simp
    qed
    have "krealloc h (Some p) old sz = Some (Ret (Some q), h3)"
      using k(1) Some assms(4) h3(1) unfolding krealloc_def min_def
      by (auto simp: Let_def split: if_splits)
    moreover have "live h3 = insert (q, m) (live h - {(p, n)})"
      using h3(3) h2(2) m(2,3) assms(2) by auto
    moreover have "\<forall>(t, l) \<in> live h. \<forall>a. t \<le> a \<longrightarrow> a < t + l \<longrightarrow> hbytes h3 a = hbytes h a"
    proof safe
      fix t l a
      assume "(t, l) \<in> live h" "t \<le> a" "a < t + l"
      then show "hbytes h3 a = hbytes h a" using apart [of t l] cp [of a] cm(1) h3(4) by auto
    qed
    moreover have "\<forall>i < min old (unat sz). hbytes h3 (q + i) = hbytes h (p + i)" using cp h3(4) by simp
    moreover have "unat sz \<le> m" using m(1) r16 by simp
    moreover have "\<forall>a < HEAP_START_VADDR. hbytes h3 a = hbytes h a"
    proof -
      have "HEAP_START_VADDR \<le> q" using live_region(1) [OF k(2), of q m] m(2) by simp
      then show ?thesis using h3(4) cp by simp
    qed
    ultimately show ?thesis
      using h3(2) m(3) by (intro exI [of _ "Some q"] exI [of _ h3]) (simp, blast)
  qed
qed

section \<open>Properties\<close>

text \<open>The witness input: a heap of one page, allocated as one block, on the 16 MiB machine.\<close>

definition one_block_heap :: "vmm_state \<Rightarrow> heap_state" where
  "one_block_heap v =
     \<lparr>hmem = (\<lambda>_. \<lparr>magic = HEAP_MAGIC, bsize = 4064, is_free = False, nxt = None\<rparr>), hbytes = (\<lambda>_. 0),
      heap_head = Some HEAP_START_VADDR, current_heap_end = HEAP_START_VADDR + 4096, vm = v\<rparr>"

lemma one_block_heap_state:
  obtains v where "heap_inv (one_block_heap v)" "(HEAP_START_VADDR + HDR, 4064) \<in> live (one_block_heap v)"
    "heap_can_grow (one_block_heap v) 100" "tree_ok v 0x1000"
    "\<And>va. page_path va \<noteq> page_path (of_nat HEAP_START_VADDR) \<Longrightarrow> walk v 0x1000 (page_path va) = Unmapped"
    "\<exists>s. pmm_init_dynamic small_memmap = Some s \<and> map_walk (empty_vmm s) (of_nat HEAP_START_VADDR) 0x5000000 3 0x1000 = (True, v)"
proof -
  obtain s where s: "tree_ok (empty_vmm s) 0x1000" "4 \<le> pmm_room s"
      "\<not> huge_on_path (empty_vmm s) (of_nat HEAP_START_VADDR) 0x1000" "pmm_init_dynamic small_memmap = Some s"
    by (rule empty_vmm_state) blast
  have "3 \<le> pmm_room (frames (empty_vmm s))" using s(2) by (simp add: empty_vmm_def)
  from map_walk_succeeds [OF s(1) this s(3), of "0x5000000" 3]
  obtain v where v: "map_walk (empty_vmm s) (of_nat HEAP_START_VADDR) 0x5000000 3 0x1000 = (True, v)"
    by (metis (full_types) prod.collapse)
  note ms = map_walk_spec [OF s(1) v]
  let ?h = "one_block_heap v"
  have root: "kernel_pml4_phys v = 0x1000" by (subst ms(6)) (simp add: empty_vmm_def)
  have rep: "heap_rep ?h [HEAP_START_VADDR]" by (simp add: heap_rep_def one_block_heap_def)
  have "heap_mapped ?h"
    unfolding heap_mapped_def
  proof (intro allI impI)
    fix a
    assume a: "HEAP_START_VADDR \<le> a" "a < current_heap_end ?h"
    then have lt: "a < HEAP_START_VADDR + 4096" by (simp add: one_block_heap_def)
    then have "a div 4096 = HEAP_START_VADDR div 4096" using a(1) by (simp add: div_nat_eqI)
    then have "page_path (of_nat a) = page_path (of_nat HEAP_START_VADDR :: u64)"
      using page_path_heap [of a HEAP_START_VADDR] a(1) lt by simp
    then show "\<exists>e. walk (vm ?h) (kernel_pml4_phys (vm ?h)) (page_path (of_nat a)) = Page e"
      using ms(2) [of "of_nat a"] root by (simp add: one_block_heap_def leaf_def present_def)
  qed
  then have "heap_inv ?h"
    unfolding heap_inv_def using exI [of "heap_rep ?h", OF rep] ms(1) root by (simp add: one_block_heap_def)
  moreover have "(HEAP_START_VADDR + HDR, 4064) \<in> live ?h"
    unfolding live_rep [OF rep] by (simp add: one_block_heap_def)
  moreover have "heap_can_grow ?h 100" by (simp add: heap_can_grow_def one_block_heap_def)
  moreover have "walk v 0x1000 (page_path va) = Unmapped" if "page_path va \<noteq> page_path (of_nat HEAP_START_VADDR)" for va
    using ms(2) [of va] that by simp
  ultimately show ?thesis using ms(1) v s(4) by (intro that [of v] exI [of _ s] conjI)
qed

text \<open>
  C8. \<open>kfree\<close> of an allocated pointer returns without a panic, removes exactly that region,
  keeps every other region and all payload bytes, and leaves no two free blocks adjacent
  anywhere in the heap.
\<close>

theorem kfree_correct:
  assumes "heap_inv h" "(p, n) \<in> live h"
  shows "\<exists>h' bs. kfree h (Some p) = Some (Ret (), h') \<and> heap_inv h' \<and> live h' = live h - {(p, n)} \<and>
    hbytes h' = hbytes h \<and> heap_rep h' bs \<and> no_adjacent_free (hmem h') bs"
  using kfree_spec [OF assms] by blast

theorem kfree_correct_witness:
  "\<exists>v h'. kfree (one_block_heap v) (Some (HEAP_START_VADDR + HDR)) = Some (Ret (), h') \<and> heap_inv h' \<and>
     (HEAP_START_VADDR + HDR, 4064) \<notin> live h'"
proof -
  obtain v where "heap_inv (one_block_heap v)" "(HEAP_START_VADDR + HDR, 4064) \<in> live (one_block_heap v)"
    by (rule one_block_heap_state) blast
  from kfree_correct [OF this] show ?thesis by blast
qed

text \<open>
  C28. \<open>krealloc\<close> of an allocated pointer: when it returns a new pointer, the new region holds
  the old contents up to the smaller of the two sizes, the old region is released and no
  other region or byte of it changes; when memory runs out the old region is kept intact.
\<close>

theorem krealloc_correct:
  assumes "heap_inv h" "(p, n) \<in> live h" "old \<le> n" "sz \<noteq> 0" "heap_can_grow h sz"
  shows "\<exists>r h'. krealloc h (Some p) old sz = Some (Ret r, h') \<and> heap_inv h' \<and>
    (case r of
       None \<Rightarrow> live h' = live h \<and> hbytes h' = hbytes h
     | Some q \<Rightarrow> \<exists>m \<ge> unat sz. live h' = insert (q, m) (live h - {(p, n)}) \<and>
         (\<forall>i < min old (unat sz). hbytes h' (q + i) = hbytes h (p + i)) \<and>
         (\<forall>(t, l) \<in> live h. \<forall>a. t \<le> a \<longrightarrow> a < t + l \<longrightarrow> hbytes h' a = hbytes h a))"
proof -
  obtain r h' where k: "krealloc h (Some p) old sz = Some (Ret r, h')" "heap_inv h'"
      "case r of None \<Rightarrow> live h' = live h \<and> hbytes h' = hbytes h
       | Some q \<Rightarrow> \<exists>m \<ge> unat sz. live h' = insert (q, m) (live h - {(p, n)}) \<and> (\<forall>n'. (q, n') \<notin> live h) \<and>
           (\<forall>i < min old (unat sz). hbytes h' (q + i) = hbytes h (p + i)) \<and>
           (\<forall>(t, l) \<in> live h. \<forall>a. t \<le> a \<longrightarrow> a < t + l \<longrightarrow> hbytes h' a = hbytes h a)"
    using krealloc_spec [OF assms] by blast
  then show ?thesis by (intro exI [of _ r] exI [of _ h']) (auto split: option.splits)
qed

theorem krealloc_correct_witness:
  "\<exists>v r h'. krealloc (one_block_heap v) (Some (HEAP_START_VADDR + HDR)) 64 100 = Some (Ret r, h') \<and> heap_inv h'"
proof -
  obtain v where v: "heap_inv (one_block_heap v)" "(HEAP_START_VADDR + HDR, 4064) \<in> live (one_block_heap v)"
      "heap_can_grow (one_block_heap v) 100"
    by (rule one_block_heap_state) blast
  from krealloc_correct [OF v(1,2) _ _ v(3), of 64] show ?thesis by fastforce
qed

end
