(* ===== verification/User_Heap.thy ===== *)
theory User_Heap
  imports Kernel_Heap
begin

text \<open>
  The per-process user heap \<^verbatim>\<open>kernel/uheap.c\<close>: page-granular regions in the caller's address
  space between \<open>UHEAP_BASE\<close> and \<open>UHEAP_END\<close>, with an unmapped guard page after each. The
  state is the fields of the task, the kernel heap that holds the region nodes and the
  page tables behind it. The list of nodes is the list \<open>uheap_regions\<close>, newest first, each
  with the address of its node. User bytes are the virtual bytes under the caller's tables,
  in the same store as the bytes of the kernel heap: the \<open>memset\<close> of a fresh frame through the
  direct map clears the frame and thereby the user page it was just mapped at.
\<close>

section \<open>State\<close>

abbreviation UHEAP_BASE :: u64 where "UHEAP_BASE \<equiv> 0x10000000"
abbreviation UHEAP_END :: u64 where "UHEAP_END \<equiv> 0x40000000"
abbreviation UHEAP_MAX_ALLOC :: u64 where "UHEAP_MAX_ALLOC \<equiv> 0x4000000"

text \<open>\<open>sizeof(uheap_region_t)\<close>: three words and a pointer.\<close>

abbreviation NODE_SIZE :: u64 where "NODE_SIZE \<equiv> 32"

record uheap_region =
  rnode :: nat
  rbase :: u64
  rsize :: u64
  rpages :: u64

record utask =
  utask_pml4 :: u64
  uheap_brk :: u64
  uheap_regions :: "uheap_region list"
  kheap :: heap_state

section \<open>Pages\<close>

definition zero_frame :: "vmm_state \<Rightarrow> u64 \<Rightarrow> vmm_state" where
  "zero_frame v pa = v\<lparr>pmem := (\<lambda>a. if a AND PAGE_MASK = pa then 0 else pmem v a)\<rparr>"

text \<open>The loop over \<open>i < pages\<close> of \<open>uheap_unmap_range\<close>, from \<open>i\<close> on.\<close>

fun uheap_unmap_range :: "nat \<Rightarrow> vmm_state \<Rightarrow> u64 \<Rightarrow> u64 \<Rightarrow> nat \<Rightarrow> vmm_state" where
  "uheap_unmap_range 0 v root base i = v"
| "uheap_unmap_range (Suc k) v root base i =
     (let (pa, v1) = vmm_unmap_page_from v (base + of_nat i * 4096) root
      in uheap_unmap_range k (if pa \<noteq> PHYS_NULL \<and> pmm_owns_page (frames v1) pa then vmm_free v1 pa else v1) root base (Suc i))"

text \<open>The mapping loop of \<open>uheap_alloc\<close>, from \<open>i\<close> on: the index it failed at, if any.\<close>

fun map_user_pages :: "nat \<Rightarrow> heap_state \<Rightarrow> u64 \<Rightarrow> u64 \<Rightarrow> nat \<Rightarrow> nat option \<times> heap_state" where
  "map_user_pages 0 h root brk i = (None, h)"
| "map_user_pages (Suc k) h root brk i =
     (let (pa, fr) = pmm_alloc_page (frames (vm h));
          v1 = (vm h)\<lparr>frames := fr\<rparr>;
          va = brk + of_nat i * 4096
      in if pa = PHYS_NULL then (Some i, h\<lparr>vm := v1\<rparr>)
         else
           let (ok, v2) = vmm_map_page_into v1 va pa 7 root
           in if \<not> ok then (Some i, h\<lparr>vm := vmm_free v2 pa\<rparr>)
              else map_user_pages k (h\<lparr>vm := zero_frame v2 pa, hbytes := memset (unat va) 0 4096 (hbytes h)\<rparr>) root brk (Suc i))"

section \<open>Operations\<close>

definition uheap_alloc :: "utask \<Rightarrow> u64 \<Rightarrow> (u64 outcome \<times> utask) option" where
  "uheap_alloc t sz =
     (if utask_pml4 t = PHYS_NULL then Some (Ret 0, t)
      else if sz = 0 \<or> sz > UHEAP_MAX_ALLOC then Some (Ret 0, t)
      else
        let brk = (if uheap_brk t \<noteq> 0 then uheap_brk t else UHEAP_BASE);
            pages = (sz + 4095) div 4096
        in if brk + pages * 4096 + 4096 > UHEAP_END then Some (Ret 0, t)
           else
             (case kmalloc (kheap t) NODE_SIZE of
                None \<Rightarrow> None
              | Some (Panic b, h) \<Rightarrow> Some (Panic b, t\<lparr>kheap := h\<rparr>)
              | Some (Ret None, h) \<Rightarrow> Some (Ret 0, t\<lparr>kheap := h\<rparr>)
              | Some (Ret (Some nd), h) \<Rightarrow>
                  (case map_user_pages (unat pages) h (utask_pml4 t) brk 0 of
                     (Some i, h1) \<Rightarrow>
                       (case kfree (h1\<lparr>vm := uheap_unmap_range i (vm h1) (utask_pml4 t) brk 0\<rparr>) (Some nd) of
                          None \<Rightarrow> None
                        | Some (Panic b, h2) \<Rightarrow> Some (Panic b, t\<lparr>kheap := h2\<rparr>)
                        | Some (Ret _, h2) \<Rightarrow> Some (Ret 0, t\<lparr>kheap := h2\<rparr>))
                   | (None, h1) \<Rightarrow>
                       Some (Ret brk, t\<lparr>kheap := h1,
                         uheap_regions := \<lparr>rnode = nd, rbase = brk, rsize = sz, rpages = pages\<rparr> # uheap_regions t,
                         uheap_brk := brk + pages * 4096 + 4096\<rparr>))))"

text \<open>The loop over the list: the first node with the base \<open>uaddr\<close> is taken out.\<close>

definition uheap_free :: "utask \<Rightarrow> u64 \<Rightarrow> (bool outcome \<times> utask) option" where
  "uheap_free t uaddr =
     (if uaddr = 0 then Some (Ret False, t)
      else
        case find (\<lambda>n. rbase n = uaddr) (uheap_regions t) of
          None \<Rightarrow> Some (Ret False, t)
        | Some n \<Rightarrow>
            let h = kheap t;
                h1 = h\<lparr>vm := uheap_unmap_range (unat (rpages n)) (vm h) (utask_pml4 t) (rbase n) 0\<rparr>;
                t1 = t\<lparr>uheap_regions := remove1 n (uheap_regions t)\<rparr>
            in (case kfree h1 (Some (rnode n)) of
                  None \<Rightarrow> None
                | Some (Panic b, h2) \<Rightarrow> Some (Panic b, t1\<lparr>kheap := h2\<rparr>)
                | Some (Ret _, h2) \<Rightarrow> Some (Ret True, t1\<lparr>kheap := h2\<rparr>)))"

definition uheap_realloc :: "utask \<Rightarrow> u64 \<Rightarrow> u64 \<Rightarrow> (u64 outcome \<times> utask) option" where
  "uheap_realloc t uaddr new_size =
     (if uaddr = 0 then uheap_alloc t new_size
      else if new_size = 0 then
        (case uheap_free t uaddr of
           None \<Rightarrow> None
         | Some (Panic b, t1) \<Rightarrow> Some (Panic b, t1)
         | Some (Ret _, t1) \<Rightarrow> Some (Ret 0, t1))
      else if new_size > UHEAP_MAX_ALLOC then Some (Ret 0, t)
      else
        case find (\<lambda>n. rbase n = uaddr) (uheap_regions t) of
          None \<Rightarrow> Some (Ret 0, t)
        | Some n \<Rightarrow>
            if new_size \<le> rpages n * 4096
            then Some (Ret (rbase n),
                   t\<lparr>uheap_regions := map (\<lambda>r. if r = n then r\<lparr>rsize := new_size\<rparr> else r) (uheap_regions t)\<rparr>)
            else
              (case uheap_alloc t new_size of
                 None \<Rightarrow> None
               | Some (Panic b, t1) \<Rightarrow> Some (Panic b, t1)
               | Some (Ret new_base, t1) \<Rightarrow>
                   if new_base = 0 then Some (Ret 0, t1)
                   else
                     let copy = (if rsize n < new_size then rsize n else new_size);
                         h = kheap t1;
                         t2 = t1\<lparr>kheap := h\<lparr>hbytes := memcpy (unat new_base) (unat uaddr) (unat copy) (hbytes h)\<rparr>\<rparr>
                     in (case uheap_free t2 uaddr of
                           None \<Rightarrow> None
                         | Some (Panic b, t3) \<Rightarrow> Some (Panic b, t3)
                         | Some (Ret _, t3) \<Rightarrow> Some (Ret new_base, t3))))"

fun free_nodes :: "heap_state \<Rightarrow> uheap_region list \<Rightarrow> (unit outcome \<times> heap_state) option" where
  "free_nodes h [] = Some (Ret (), h)"
| "free_nodes h (n # ns) =
     (case kfree h (Some (rnode n)) of
        None \<Rightarrow> None
      | Some (Panic b, h1) \<Rightarrow> Some (Panic b, h1)
      | Some (Ret _, h1) \<Rightarrow> free_nodes h1 ns)"

definition uheap_reset :: "utask \<Rightarrow> (unit outcome \<times> utask) option" where
  "uheap_reset t =
     (case free_nodes (kheap t) (uheap_regions t) of
        None \<Rightarrow> None
      | Some (Panic b, h) \<Rightarrow> Some (Panic b, t\<lparr>kheap := h\<rparr>)
      | Some (Ret _, h) \<Rightarrow> Some (Ret (), t\<lparr>kheap := h, uheap_regions := [], uheap_brk := UHEAP_BASE\<rparr>))"

section \<open>Pages of the user half\<close>

text \<open>Page \<open>n\<close> of a range that starts at \<open>base\<close>.\<close>

definition pg :: "u64 \<Rightarrow> nat \<Rightarrow> u64" where
  "pg base n = base + of_nat n * 4096"

lemma unat_pg: "unat base + n * 4096 < 2 ^ 64 \<Longrightarrow> unat (pg base n) = unat base + n * 4096"
proof -
  assume "unat base + n * 4096 < 2 ^ 64"
  moreover have pg: "pg base n = of_nat (unat base + n * 4096)" by (simp add: pg_def)
  ultimately show ?thesis unfolding pg by (intro unat_of_nat_small) simp
qed

lemma pg_inject:
  assumes "unat base + m * 4096 < 2 ^ 47" "unat base + n * 4096 < 2 ^ 47"
  shows "page_path (pg base m) = page_path (pg base n) \<longleftrightarrow> m = n"
proof -
  have "(unat base + k * 4096) div 4096 < 2 ^ 36" if "unat base + k * 4096 < 2 ^ 47" for k
    using that by (simp add: div_less_iff_less_mult)
  then show ?thesis unfolding page_path_number using assms by (simp add: unat_pg)
qed

text \<open>A page mapped to a frame that is no table, and one with all user rights and an allocated frame.\<close>

definition mapped_page :: "vmm_state \<Rightarrow> u64 \<Rightarrow> u64 \<Rightarrow> bool" where
  "mapped_page v root va \<longleftrightarrow>
     (\<exists>e. walk v root (page_path va) = Page e \<and> (\<forall>q. idx_ok q \<longrightarrow> length q \<le> 3 \<longrightarrow> node v root q \<noteq> Some (e AND PAGE_MASK)))"

definition user_page :: "vmm_state \<Rightarrow> u64 \<Rightarrow> u64 \<Rightarrow> bool" where
  "user_page v root va \<longleftrightarrow>
     (\<exists>pa. walk v root (page_path va) = Page (pa OR 7) \<and> frame_aligned pa \<and> pmm_owns_page (frames v) pa \<and> 0x4800000 \<le> pa \<and>
        (\<forall>q. idx_ok q \<longrightarrow> length q \<le> 3 \<longrightarrow> node v root q \<noteq> Some pa))"

text \<open>The frame behind an address.\<close>

definition frame_at :: "vmm_state \<Rightarrow> u64 \<Rightarrow> u64 \<Rightarrow> u64 option" where
  "frame_at v root va = (case walk v root (page_path va) of Page e \<Rightarrow> Some (e AND PAGE_MASK) | _ \<Rightarrow> None)"

lemma user_mapped: "user_page v root va \<Longrightarrow> mapped_page v root va"
  unfolding user_page_def mapped_page_def using table_entry(3) by metis

lemma zero_frame_spec:
  assumes tree: "tree_ok v root" and pa: "\<forall>q. idx_ok q \<longrightarrow> length q \<le> 3 \<longrightarrow> node v root q \<noteq> Some pa"
  shows "tree_ok (zero_frame v pa) root" "idx_ok q \<Longrightarrow> length q \<le> 3 \<Longrightarrow> node (zero_frame v pa) root q = node v root q"
    "walk (zero_frame v pa) root (page_path va) = walk v root (page_path va)" "frames (zero_frame v pa) = frames v"
proof -
  have same: "rd (zero_frame v pa) g j = rd v g j" if "q = r @ j # s" "node v root r = Some g" "idx_ok q" "length q \<le> 4" for q r j s g
  proof -
    have r: "idx_ok r" "length r \<le> 3" "j < 512" using that by auto
    then have "g \<noteq> pa" "frame_aligned g" using pa that(2) tree_aligned [OF tree] by auto
    then show ?thesis using r(3) by (simp add: rd_def zero_frame_def page_of_ent)
  qed
  show nd: "node (zero_frame v pa) root q = node v root q" if "idx_ok q" "length q \<le> 3" for q
    by (rule node_cong) (use same that in simp)
  show "walk (zero_frame v pa) root (page_path va) = walk v root (page_path va)"
  proof (rule walk_cong)
    fix r j s g
    assume "page_path va = r @ j # s" "node v root r = Some g"
    then show "rd (zero_frame v pa) g j = rd v g j" by (rule same [OF _ _ page_path_ok(1)]) simp
  qed
  show fr: "frames (zero_frame v pa) = frames v" by (simp add: zero_frame_def)
  have "rd (zero_frame v pa) root i = rd v root i" if "i < 512" for i
    by (rule same [of "[i]" "[]"]) (use that in simp_all)
  then show "tree_ok (zero_frame v pa) root"
    using tree nd unfolding tree_ok_def fr by simp
qed

text \<open>One turn of the mapping loop: \<open>alloc_walk\<close>, then the frame is cleared.\<close>

lemma map_user_step:
  assumes tree: "tree_ok v root" and a: "pmm_alloc_page (frames v) = (pa, fr)"
  shows "pa = PHYS_NULL \<Longrightarrow> v\<lparr>frames := fr\<rparr> = v"
    and "pa \<noteq> PHYS_NULL \<Longrightarrow> vmm_map_page_into (v\<lparr>frames := fr\<rparr>) va pa 7 root = (ok, v2) \<Longrightarrow>
      alloc_walk v va 7 root = (ok, if ok then v2 else vmm_free v2 pa)"
    and "pa \<noteq> PHYS_NULL \<Longrightarrow> frame_aligned pa"
proof -
  have inv: "pmm_inv (frames v)" by (rule tree_pmm [OF tree])
  show "v\<lparr>frames := fr\<rparr> = v" if "pa = PHYS_NULL" using pmm.alloc_null [OF inv] a that by simp
  have "root \<noteq> 0" using tree_owned [OF tree, of "[]"] by (auto simp: pmm_owns_page_def)
  then show "alloc_walk v va 7 root = (ok, if ok then v2 else vmm_free v2 pa)"
    if "pa \<noteq> PHYS_NULL" "vmm_map_page_into (v\<lparr>frames := fr\<rparr>) va pa 7 root = (ok, v2)"
    using a that by (simp add: alloc_walk_def map_page_walks)
  show "frame_aligned pa" if "pa \<noteq> PHYS_NULL"
    using pmm.alloc_aligned [OF inv] a by (simp add: frame_aligned_def page_aligned_iff)
qed

lemma map_user_one:
  assumes tree: "tree_ok v root" and aw: "alloc_walk v va 7 root = (True, v2)"
    and a: "pmm_alloc_page (frames v) = (pa, fr)" "pa \<noteq> PHYS_NULL"
  shows "tree_ok (zero_frame v2 pa) root" "page_path x = page_path va \<Longrightarrow> user_page (zero_frame v2 pa) root x"
    "walk (zero_frame v2 pa) root (page_path x) =
       (if page_path x = page_path va then Page (pa OR 7) else walk v root (page_path x))"
    "user_page v root x \<Longrightarrow> page_path x \<noteq> page_path va \<Longrightarrow> user_page (zero_frame v2 pa) root x"
    "pmm_owns_page (frames v) b \<Longrightarrow> pmm_owns_page (frames (zero_frame v2 pa)) b"
    "\<not> pmm_owns_page (frames v) pa" "pmm_owns_page (frames (zero_frame v2 pa)) pa" "frame_at (zero_frame v2 pa) root va = Some pa"
proof -
  note sp = alloc_walk_spec [OF tree aw]
  have pa: "frame_aligned pa" "pmm_owns_page (frames v2) pa" "\<forall>q. idx_ok q \<longrightarrow> length q \<le> 3 \<longrightarrow> node v2 root q \<noteq> Some pa"
      "\<forall>va'. walk v2 root (page_path va') = (if page_path va' = page_path va then leaf (pa OR 7) else walk v root (page_path va'))"
      "\<not> pmm_owns_page (frames v) pa"
    using sp(4) a(1) by auto
  have rel: "0x4800000 \<le> pa" using pmm.alloc_releasable [OF tree_pmm [OF tree]] a by simp
  note z = zero_frame_spec [OF sp(1) pa(3)]
  have lf: "leaf (pa OR 7) = Page (pa OR 7)" using table_entry(1) [OF pa(1)] by (simp add: leaf_def)
  show "tree_ok (zero_frame v2 pa) root" by (rule z(1))
  show w: "walk (zero_frame v2 pa) root (page_path x) = (if page_path x = page_path va then Page (pa OR 7) else walk v root (page_path x))" for x
    using pa(4) lf z(3) by simp
  show "frame_at (zero_frame v2 pa) root va = Some pa" unfolding frame_at_def w using table_entry(3) [OF pa(1)] by simp
  show "pmm_owns_page (frames (zero_frame v2 pa)) b" if "pmm_owns_page (frames v) b" using sp(5) [OF that] z(4) by simp
  show "\<not> pmm_owns_page (frames v) pa" "pmm_owns_page (frames (zero_frame v2 pa)) pa" using pa(2,5) z(4) by simp_all
  show "user_page (zero_frame v2 pa) root x" if "page_path x = page_path va"
    unfolding user_page_def w z(4) using that pa(1-3) rel z(2) by auto
  show "user_page (zero_frame v2 pa) root x" if u: "user_page v root x" "page_path x \<noteq> page_path va"
  proof -
    obtain pb where pb: "walk v root (page_path x) = Page (pb OR 7)" "frame_aligned pb" "pmm_owns_page (frames v) pb" "0x4800000 \<le> pb"
        "\<forall>q. idx_ok q \<longrightarrow> length q \<le> 3 \<longrightarrow> node v root q \<noteq> Some pb"
      using u(1) unfolding user_page_def by blast
    have "node v2 root q \<noteq> Some pb" if "idx_ok q" "length q \<le> 3" for q using sp(7) [OF that] pb(3,5) that by blast
    then show ?thesis unfolding user_page_def w z(4) using u(2) pb(1,2,4) sp(5) [OF pb(3)] z(2) by auto
  qed
qed

lemma user_page_keep:
  assumes u: "user_page v root x" and w: "walk v' root (page_path x) = walk v root (page_path x)"
    and o: "\<And>b. pmm_owns_page (frames v) b \<Longrightarrow> pmm_owns_page (frames v') b"
    and n: "\<And>q f. idx_ok q \<Longrightarrow> length q \<le> 3 \<Longrightarrow> node v' root q = Some f \<Longrightarrow> node v root q = Some f \<or> \<not> pmm_owns_page (frames v) f"
  shows "user_page v' root x"
proof -
  obtain pa where pa: "walk v root (page_path x) = Page (pa OR 7)" "frame_aligned pa" "pmm_owns_page (frames v) pa" "0x4800000 \<le> pa"
      "\<forall>q. idx_ok q \<longrightarrow> length q \<le> 3 \<longrightarrow> node v root q \<noteq> Some pa"
    using u unfolding user_page_def by blast
  have "node v' root q \<noteq> Some pa" if "idx_ok q" "length q \<le> 3" for q using n [OF that] pa(3,5) that by blast
  with pa w o [OF pa(3)] show ?thesis unfolding user_page_def by auto
qed

lemma map_user_pages_spec:
  assumes "tree_ok (vm h) root" "map_user_pages k h root brk i = (r, h')" "unat brk + (i + k) * 4096 \<le> 2 ^ 47"
  shows "tree_ok (vm h') root \<and> h' = h\<lparr>vm := vm h', hbytes := hbytes h'\<rparr> \<and>
    (\<exists>j \<le> k. r = (if j = k then None else Some (i + j)) \<and>
      (\<forall>n. i \<le> n \<longrightarrow> n < i + j \<longrightarrow> user_page (vm h') root (pg brk n)) \<and>
      (\<forall>x. (\<forall>n. i \<le> n \<longrightarrow> n < i + j \<longrightarrow> page_path x \<noteq> page_path (pg brk n)) \<longrightarrow>
         walk (vm h') root (page_path x) = walk (vm h) root (page_path x) \<and> (user_page (vm h) root x \<longrightarrow> user_page (vm h') root x)) \<and>
      (\<forall>a. hbytes h' a = (if unat brk + i * 4096 \<le> a \<and> a < unat brk + (i + j) * 4096 then 0 else hbytes h a)) \<and>
      (\<forall>b. pmm_owns_page (frames (vm h)) b \<longrightarrow> pmm_owns_page (frames (vm h')) b) \<and>
      (\<forall>n b. i \<le> n \<longrightarrow> n < i + j \<longrightarrow> frame_at (vm h') root (pg brk n) = Some b \<longrightarrow> \<not> pmm_owns_page (frames (vm h)) b) \<and>
      (\<forall>m n. i \<le> m \<longrightarrow> m < n \<longrightarrow> n < i + j \<longrightarrow> frame_at (vm h') root (pg brk m) \<noteq> frame_at (vm h') root (pg brk n)))"
  using assms
proof (induction k arbitrary: h i)
  case 0
  then show ?case by auto
next
  case (Suc k)
  obtain pa fr where a: "pmm_alloc_page (frames (vm h)) = (pa, fr)" by fastforce
  note st = map_user_step [OF Suc.prems(1) a]
  show ?case
  proof (cases "pa = PHYS_NULL")
    case True
    with a st(1) have "r = Some i" "h' = h" using Suc.prems(2) by auto
    with Suc.prems(1) show ?thesis by (auto intro!: exI [of _ 0])
  next
    case False
    obtain ok v2 where m: "vmm_map_page_into ((vm h)\<lparr>frames := fr\<rparr>) (pg brk i) pa 7 root = (ok, v2)" by fastforce
    note aw = st(2) [OF False m]
    show ?thesis
    proof (cases ok)
      case ok: False
      then have r: "r = Some i" "h' = h\<lparr>vm := vmm_free v2 pa\<rparr>" using Suc.prems(2) a False m by (auto simp: pg_def)
      have aw': "alloc_walk (vm h) (pg brk i) 7 root = (False, vm h')" using aw ok r(2) by simp
      note sp = alloc_walk_spec [OF Suc.prems(1) aw']
      have "user_page (vm h') root x" if "user_page (vm h) root x" for x
        using user_page_keep [OF that] sp(3,5,7) by simp
      then show ?thesis using sp(1,3,5) r by (intro conjI exI [of _ 0]) auto
    next
      case True
      have aw': "alloc_walk (vm h) (pg brk i) 7 root = (True, v2)" using aw True by simp
      note one = map_user_one [OF Suc.prems(1) aw' a False]
      define h1 where "h1 = h\<lparr>vm := zero_frame v2 pa, hbytes := memset (unat (pg brk i)) 0 4096 (hbytes h)\<rparr>"
      have t1: "tree_ok (vm h1) root" by (simp add: h1_def one(1))
      have c: "map_user_pages k h1 root brk (Suc i) = (r, h')"
        using Suc.prems(2) a False m True by (simp add: pg_def h1_def)
      have bd: "unat brk + (Suc i + k) * 4096 \<le> 2 ^ 47" using Suc.prems(3) by simp
      from Suc.IH [OF t1 c bd] obtain j where I: "tree_ok (vm h') root" "h' = h1\<lparr>vm := vm h', hbytes := hbytes h'\<rparr>"
          "j \<le> k" "r = (if j = k then None else Some (Suc i + j))"
          "\<And>n. Suc i \<le> n \<Longrightarrow> n < Suc i + j \<Longrightarrow> user_page (vm h') root (pg brk n)"
          "\<And>x. \<forall>n. Suc i \<le> n \<longrightarrow> n < Suc i + j \<longrightarrow> page_path x \<noteq> page_path (pg brk n) \<Longrightarrow>
             walk (vm h') root (page_path x) = walk (vm h1) root (page_path x) \<and> (user_page (vm h1) root x \<longrightarrow> user_page (vm h') root x)"
          "\<And>a. hbytes h' a = (if unat brk + Suc i * 4096 \<le> a \<and> a < unat brk + (Suc i + j) * 4096 then 0 else hbytes h1 a)"
          "\<And>b. pmm_owns_page (frames (vm h1)) b \<Longrightarrow> pmm_owns_page (frames (vm h')) b"
          "\<And>n b. Suc i \<le> n \<Longrightarrow> n < Suc i + j \<Longrightarrow> frame_at (vm h') root (pg brk n) = Some b \<Longrightarrow> \<not> pmm_owns_page (frames (vm h1)) b"
          "\<And>m n. Suc i \<le> m \<Longrightarrow> m < n \<Longrightarrow> n < Suc i + j \<Longrightarrow> frame_at (vm h') root (pg brk m) \<noteq> frame_at (vm h') root (pg brk n)"
        by blast
      have here: "user_page (vm h') root (pg brk i)" "frame_at (vm h') root (pg brk i) = Some pa"
      proof -
        have "page_path (pg brk i) \<noteq> page_path (pg brk n)" if "Suc i \<le> n" "n < Suc i + j" for n
          using pg_inject [of brk i n] that I(3) bd by simp
        moreover have "user_page (vm h1) root (pg brk i)" using one(2) by (simp add: h1_def)
        ultimately have "walk (vm h') root (page_path (pg brk i)) = walk (vm h1) root (page_path (pg brk i)) \<and> user_page (vm h') root (pg brk i)"
          using I(6) [of "pg brk i"] by blast
        then show "user_page (vm h') root (pg brk i)" "frame_at (vm h') root (pg brk i) = Some pa"
          using one(8) by (simp_all add: frame_at_def h1_def)
      qed
      have o1: "pmm_owns_page (frames (vm h)) b \<Longrightarrow> pmm_owns_page (frames (vm h1)) b" for b using one(5) by (simp add: h1_def)
      have fresh: "\<not> pmm_owns_page (frames (vm h)) b" if "i \<le> n" "n < i + Suc j" "frame_at (vm h') root (pg brk n) = Some b" for n b
        using I(9) [of n b] here(2) one(6) o1 that by (cases "n = i") auto
      have inj: "frame_at (vm h') root (pg brk m) \<noteq> frame_at (vm h') root (pg brk n)" if "i \<le> m" "m < n" "n < i + Suc j" for m n
      proof (cases "m = i")
        case True
        have "pmm_owns_page (frames (vm h1)) pa" using one(7) by (simp add: h1_def)
        then show ?thesis using I(9) [of n pa] here(2) True that by auto
      qed (use I(10) that in simp)
      have u: "user_page (vm h') root (pg brk n)" if "i \<le> n" "n < i + Suc j" for n
        using here(1) I(5) that by (cases "n = i") auto
      have w: "walk (vm h') root (page_path x) = walk (vm h) root (page_path x) \<and> (user_page (vm h) root x \<longrightarrow> user_page (vm h') root x)"
        if x: "\<forall>n. i \<le> n \<longrightarrow> n < i + Suc j \<longrightarrow> page_path x \<noteq> page_path (pg brk n)" for x
      proof -
        have "page_path x \<noteq> page_path (pg brk i)" using x by simp
        moreover have "\<forall>n. Suc i \<le> n \<longrightarrow> n < Suc i + j \<longrightarrow> page_path x \<noteq> page_path (pg brk n)" using x by simp
        ultimately show ?thesis using I(6) [of x] one(3,4) [of x] by (simp add: h1_def)
      qed
      have b: "hbytes h' a = (if unat brk + i * 4096 \<le> a \<and> a < unat brk + (i + Suc j) * 4096 then 0 else hbytes h a)" for a
      proof -
        have "unat (pg brk i) = unat brk + i * 4096" using bd by (intro unat_pg) simp
        then have "hbytes h1 a = (if unat brk + i * 4096 \<le> a \<and> a < unat brk + i * 4096 + 4096 then 0 else hbytes h a)"
          by (simp add: h1_def memset_eq)
        then show ?thesis using I(7) [of a] by auto
      qed
      have "h' = h\<lparr>vm := vm h', hbytes := hbytes h'\<rparr>" by (subst I(2)) (simp add: h1_def)
      moreover have "Suc j \<le> Suc k" "r = (if Suc j = Suc k then None else Some (i + Suc j))" using I(3,4) by simp_all
      moreover have "\<forall>b. pmm_owns_page (frames (vm h)) b \<longrightarrow> pmm_owns_page (frames (vm h')) b" using o1 I(8) by blast
      ultimately show ?thesis using I(1) u w b fresh inj by blast
    qed
  qed
qed

lemma unmap_free_step:
  assumes tree: "tree_ok v root" and u: "vmm_unmap_page_from v va root = (pa, v1)"
    and e: "walk v root (page_path va) = Page e" "\<forall>q. idx_ok q \<longrightarrow> length q \<le> 3 \<longrightarrow> node v root q \<noteq> Some (e AND PAGE_MASK)"
    and v2: "v2 = (if pa \<noteq> PHYS_NULL \<and> pmm_owns_page (frames v1) pa then vmm_free v1 pa else v1)"
  shows "tree_ok v2 root" "idx_ok q \<Longrightarrow> length q \<le> 3 \<Longrightarrow> node v2 root q = node v root q"
    "walk v2 root (page_path x) = (if page_path x = page_path va then Unmapped else walk v root (page_path x))"
    "pmm_owns_page (frames v2) b \<Longrightarrow> pmm_owns_page (frames v) b"
    "b \<noteq> e AND PAGE_MASK \<Longrightarrow> pmm_owns_page (frames v) b \<Longrightarrow> pmm_owns_page (frames v2) b"
    "0x4800000 \<le> e AND PAGE_MASK \<Longrightarrow> \<not> pmm_owns_page (frames v2) (e AND PAGE_MASK)"
proof -
  note us = unmap_spec [OF tree u]
  have pa: "pa = e AND PAGE_MASK" by (rule us(2) [OF e(1)])
  have inv: "pmm_inv (frames v1)" by (rule tree_pmm [OF us(1)])
  define fr where "fr = (if pa \<noteq> PHYS_NULL \<and> pmm_owns_page (frames v1) pa then pmm_release (frames v1) pa else frames v1)"
  have v2': "v2 = v1\<lparr>frames := fr\<rparr>" by (simp add: v2 fr_def vmm_free_def pmm_release_def)
  have nd: "node v1 root q = node v root q" if "idx_ok q" "length q \<le> 3" for q
    using tree
  proof (cases rule: unmap_cases [where va = va])
    case (page e' pt)
    then have "v1 = wr v pt (PT_IDX va) 0" using u by simp
    then show ?thesis using write_pt(3) [OF tree _ _ page(3) IDX_less(4)] that by simp
  qed (use u in simp)
  have own: "pmm_owns_page fr b \<Longrightarrow> pmm_owns_page (frames v1) b" "b \<noteq> pa \<Longrightarrow> pmm_owns_page fr b \<longleftrightarrow> pmm_owns_page (frames v1) b"
    "0x4800000 \<le> pa \<Longrightarrow> \<not> pmm_owns_page fr pa" for b
  proof -
    have nz: "pa \<noteq> PHYS_NULL" if "pmm_owns_page (frames v1) pa" using that by (auto simp: pmm_owns_page_def)
    have "(pmm_owns_page fr b \<longrightarrow> pmm_owns_page (frames v1) b) \<and> (b \<noteq> pa \<longrightarrow> pmm_owns_page fr b = pmm_owns_page (frames v1) b) \<and>
        (0x4800000 \<le> pa \<longrightarrow> \<not> pmm_owns_page fr pa)"
    proof (cases "pmm_owns_page (frames v1) pa \<and> 0x4800000 \<le> pa")
      case True
      then show ?thesis unfolding fr_def using nz pmm.release_owns [OF inv, of pa] by simp
    next
      case False
      then show ?thesis unfolding fr_def using pmm.release_refused [OF inv, of pa] by auto
    qed
    then show "pmm_owns_page fr b \<Longrightarrow> pmm_owns_page (frames v1) b" "b \<noteq> pa \<Longrightarrow> pmm_owns_page fr b \<longleftrightarrow> pmm_owns_page (frames v1) b"
      "0x4800000 \<le> pa \<Longrightarrow> \<not> pmm_owns_page fr pa" by blast+
  qed
  have ifr: "pmm_inv fr" unfolding fr_def using inv pmm.release_ok [OF inv] by simp
  have "pmm_owns_page fr f" if "length q \<le> 3" "idx_ok q" "node v1 root q = Some f" for q f
  proof -
    have "f \<noteq> pa" using e(2) nd [OF that(2,1)] that pa by auto
    then show ?thesis using own(2) tree_owned [OF us(1) that] by simp
  qed
  then show "tree_ok v2 root" unfolding v2' by (rule tree_ok_frames [OF us(1) ifr])
  show "node v2 root q = node v root q" if "idx_ok q" "length q \<le> 3" for q unfolding v2' using nd [OF that] by simp
  show "walk v2 root (page_path x) = (if page_path x = page_path va then Unmapped else walk v root (page_path x))"
    unfolding v2' using us(3) [OF e(1)] by simp
  show "pmm_owns_page (frames v) b" if "pmm_owns_page (frames v2) b" using own(1) that us(5) by (simp add: v2')
  show "pmm_owns_page (frames v2) b" if "b \<noteq> e AND PAGE_MASK" "pmm_owns_page (frames v) b" using own(2) that us(5) pa by (simp add: v2')
  show "\<not> pmm_owns_page (frames v2) (e AND PAGE_MASK)" if "0x4800000 \<le> e AND PAGE_MASK" using own(3) that pa by (simp add: v2')
qed

lemma unmap_range_spec:
  assumes "tree_ok v root" "\<forall>n. i \<le> n \<longrightarrow> n < i + k \<longrightarrow> mapped_page v root (pg base n)" "unat base + (i + k) * 4096 \<le> 2 ^ 47"
    and "v' = uheap_unmap_range k v root base i"
  shows "tree_ok v' root \<and>
    (\<forall>x. walk v' root (page_path x) =
       (if \<exists>n. i \<le> n \<and> n < i + k \<and> page_path x = page_path (pg base n) then Unmapped else walk v root (page_path x))) \<and>
    (\<forall>b. pmm_owns_page (frames v') b \<longrightarrow> pmm_owns_page (frames v) b) \<and>
    (\<forall>n b. i \<le> n \<longrightarrow> n < i + k \<longrightarrow> frame_at v root (pg base n) = Some b \<longrightarrow> 0x4800000 \<le> b \<longrightarrow> \<not> pmm_owns_page (frames v') b) \<and>
    (\<forall>q. idx_ok q \<longrightarrow> length q \<le> 3 \<longrightarrow> node v' root q = node v root q) \<and>
    (\<forall>b. pmm_owns_page (frames v) b \<longrightarrow> (\<forall>n. i \<le> n \<longrightarrow> n < i + k \<longrightarrow> frame_at v root (pg base n) \<noteq> Some b) \<longrightarrow> pmm_owns_page (frames v') b)"
  using assms
proof (induction k arbitrary: v i)
  case 0
  then show ?case by auto
next
  case (Suc k)
  obtain e where e: "walk v root (page_path (pg base i)) = Page e"
      "\<forall>q. idx_ok q \<longrightarrow> length q \<le> 3 \<longrightarrow> node v root q \<noteq> Some (e AND PAGE_MASK)"
    using Suc.prems(2) unfolding mapped_page_def by fastforce
  obtain pa v1 where u: "vmm_unmap_page_from v (pg base i) root = (pa, v1)" by fastforce
  define v2 where "v2 = (if pa \<noteq> PHYS_NULL \<and> pmm_owns_page (frames v1) pa then vmm_free v1 pa else v1)"
  note st = unmap_free_step [OF Suc.prems(1) u e v2_def]
  have other: "page_path (pg base n) \<noteq> page_path (pg base i)" if "Suc i \<le> n" "n < Suc i + k" for n
    using pg_inject [of base n i] that Suc.prems(3) by simp
  have "mapped_page v2 root (pg base n)" if n: "Suc i \<le> n" "n < Suc i + k" for n
  proof -
    have "mapped_page v root (pg base n)" using Suc.prems(2) n by simp
    then show ?thesis unfolding mapped_page_def st(3) using other [OF n] st(2) by simp
  qed
  moreover have c: "v' = uheap_unmap_range k v2 root base (Suc i)" using Suc.prems(4) u by (simp add: v2_def pg_def)
  moreover have "unat base + (Suc i + k) * 4096 \<le> 2 ^ 47" using Suc.prems(3) by simp
  ultimately have I: "tree_ok v' root"
    "\<And>x. walk v' root (page_path x) =
       (if \<exists>n. Suc i \<le> n \<and> n < Suc i + k \<and> page_path x = page_path (pg base n) then Unmapped else walk v2 root (page_path x))"
    "\<And>b. pmm_owns_page (frames v') b \<Longrightarrow> pmm_owns_page (frames v2) b"
    "\<And>n b. Suc i \<le> n \<Longrightarrow> n < Suc i + k \<Longrightarrow> frame_at v2 root (pg base n) = Some b \<Longrightarrow> 0x4800000 \<le> b \<Longrightarrow> \<not> pmm_owns_page (frames v') b"
    "\<And>q. idx_ok q \<Longrightarrow> length q \<le> 3 \<Longrightarrow> node v' root q = node v2 root q"
    "\<And>b. pmm_owns_page (frames v2) b \<Longrightarrow> \<forall>n. Suc i \<le> n \<longrightarrow> n < Suc i + k \<longrightarrow> frame_at v2 root (pg base n) \<noteq> Some b \<Longrightarrow>
       pmm_owns_page (frames v') b"
    using Suc.IH [OF st(1), of "Suc i"] by blast+
  have range: "(\<exists>n. i \<le> n \<and> n < i + Suc k \<and> P n) \<longleftrightarrow> P i \<or> (\<exists>n. Suc i \<le> n \<and> n < Suc i + k \<and> P n)" for P
  proof -
    have "i \<le> n \<and> n < i + Suc k \<longleftrightarrow> n = i \<or> Suc i \<le> n \<and> n < Suc i + k" for n by auto
    then have "(\<exists>n. (i \<le> n \<and> n < i + Suc k) \<and> P n) \<longleftrightarrow> (\<exists>n. (n = i \<or> Suc i \<le> n \<and> n < Suc i + k) \<and> P n)" by presburger
    then show ?thesis by (simp only: conj_assoc conj_disj_distribR ex_disj_distrib simp_thms)
  qed
  have "walk v' root (page_path x) =
      (if \<exists>n. i \<le> n \<and> n < i + Suc k \<and> page_path x = page_path (pg base n) then Unmapped else walk v root (page_path x))" for x
    unfolding range I(2) st(3) by auto
  moreover have fi: "frame_at v root (pg base i) = Some (e AND PAGE_MASK)" using e(1) by (simp add: frame_at_def)
  have f2: "frame_at v2 root (pg base n) = frame_at v root (pg base n)" if "Suc i \<le> n" "n < Suc i + k" for n
    using st(3) other [OF that] by (simp add: frame_at_def)
  have "\<not> pmm_owns_page (frames v') b"
    if n: "i \<le> n" "n < i + Suc k" "frame_at v root (pg base n) = Some b" "0x4800000 \<le> b" for n b
  proof (cases "n = i")
    case True
    then show ?thesis using fi n(3,4) I(3) st(6) by auto
  next
    case False
    then show ?thesis using I(4) [of n b] n f2 [of n] by simp
  qed
  moreover have "pmm_owns_page (frames v') b"
    if b: "pmm_owns_page (frames v) b" "\<forall>n. i \<le> n \<longrightarrow> n < i + Suc k \<longrightarrow> frame_at v root (pg base n) \<noteq> Some b" for b
    using I(6) [of b] st(5) b fi f2 by auto
  moreover have "node v' root q = node v root q" if "idx_ok q" "length q \<le> 3" for q using I(5) [OF that] st(2) [OF that] by simp
  ultimately show ?case using I(1,3) st(4) by blast
qed

end
