(* ===== verification/User_Heap_Correct.thy ===== *)
theory User_Heap_Correct
  imports User_Heap
begin

text \<open>
  What the user heap promises: the regions of a task are page aligned, separated by guard
  pages and mapped to frames of their own, and nothing else of the heap range is mapped;
  allocation hands out fresh zeroed memory, and a bad pointer is refused.
\<close>

section \<open>Invariant\<close>

definition cur_brk :: "utask \<Rightarrow> u64" where
  "cur_brk t = (if uheap_brk t \<noteq> 0 then uheap_brk t else UHEAP_BASE)"

definition in_region :: "uheap_region \<Rightarrow> nat \<Rightarrow> bool" where
  "in_region r a \<longleftrightarrow> unat (rbase r) \<le> a \<and> a < unat (rbase r) + unat (rpages r) * 4096"

text \<open>The end of a region, its guard page included.\<close>

definition rend :: "uheap_region \<Rightarrow> nat" where
  "rend r = unat (rbase r) + unat (rpages r) * 4096 + 4096"

definition region_ok :: "nat \<Rightarrow> uheap_region \<Rightarrow> bool" where
  "region_ok brk r \<longleftrightarrow> 4096 dvd unat (rbase r) \<and> 0x10000000 \<le> unat (rbase r) \<and> rpages r \<noteq> 0 \<and>
     unat (rsize r) \<le> unat (rpages r) * 4096 \<and> rend r \<le> brk"

definition layout :: "utask \<Rightarrow> bool" where
  "layout t \<longleftrightarrow>
     4096 dvd unat (cur_brk t) \<and> 0x10000000 \<le> unat (cur_brk t) \<and> unat (cur_brk t) \<le> 0x40000000 \<and>
     (\<forall>r \<in> set (uheap_regions t). region_ok (unat (cur_brk t)) r) \<and>
     sorted_wrt (\<lambda>r q. rend q \<le> unat (rbase r)) (uheap_regions t)"

definition user_addr :: "nat \<Rightarrow> bool" where
  "user_addr a \<longleftrightarrow> 4096 dvd a \<and> 0x10000000 \<le> a \<and> a < 0x40000000"

definition pages_ok :: "utask \<Rightarrow> vmm_state \<Rightarrow> bool" where
  "pages_ok t v \<longleftrightarrow>
     tree_ok v (utask_pml4 t) \<and>
     (\<forall>a. user_addr a \<longrightarrow>
        (if \<exists>r \<in> set (uheap_regions t). in_region r a then user_page v (utask_pml4 t) (of_nat a)
         else walk v (utask_pml4 t) (page_path (of_nat a)) = Unmapped)) \<and>
     (\<forall>a b. user_addr a \<longrightarrow> user_addr b \<longrightarrow> a \<noteq> b \<longrightarrow> frame_at v (utask_pml4 t) (of_nat a) \<noteq> None \<longrightarrow>
        frame_at v (utask_pml4 t) (of_nat a) \<noteq> frame_at v (utask_pml4 t) (of_nat b))"

text \<open>The blocks of a heap are in order, whatever its page tables.\<close>

definition heap_shape :: "heap_state \<Rightarrow> bool" where
  "heap_shape h \<longleftrightarrow> (\<exists>v. heap_inv (h\<lparr>vm := v\<rparr>))"

definition nodes_ok :: "utask \<Rightarrow> bool" where
  "nodes_ok t \<longleftrightarrow> distinct (map rnode (uheap_regions t)) \<and> (\<forall>r \<in> set (uheap_regions t). \<exists>n. (rnode r, n) \<in> live (kheap t))"

definition uheap_inv :: "utask \<Rightarrow> bool" where
  "uheap_inv t \<longleftrightarrow> layout t \<and> pages_ok t (vm (kheap t)) \<and> heap_shape (kheap t) \<and> nodes_ok t"

section \<open>Addresses\<close>

lemma low_page:
  assumes "user_addr a"
  shows "unat (of_nat a :: u64) = a" "a < 2 ^ 47"
  using assms by (simp_all add: user_addr_def)

lemma low_pages_differ:
  assumes "user_addr a" "unat base + n * 4096 < 2 ^ 47" "4096 dvd unat base"
  shows "page_path (of_nat a) = page_path (pg base n) \<longleftrightarrow> a = unat base + n * 4096"
proof -
  have u: "unat (pg base n) = unat base + n * 4096" using assms(2) by (intro unat_pg) simp
  have "a div 4096 < 2 ^ 36" "(unat base + n * 4096) div 4096 < 2 ^ 36"
    using low_page(2) [OF assms(1)] assms(2) by (simp_all add: div_less_iff_less_mult)
  moreover have "a div 4096 = (unat base + n * 4096) div 4096 \<longleftrightarrow> a = unat base + n * 4096"
  proof -
    have "4096 dvd unat base + n * 4096" "4096 dvd a" using assms by (simp_all add: user_addr_def)
    then show ?thesis by (metis dvd_div_mult_self)
  qed
  ultimately show ?thesis unfolding page_path_number u low_page(1) [OF assms(1)] by simp
qed

lemma low_pages_inject:
  assumes "user_addr a" "user_addr b"
  shows "page_path (of_nat a) = page_path (of_nat b :: u64) \<longleftrightarrow> a = b"
  using low_pages_differ [OF assms(1), of "of_nat b" 0] low_page [OF assms(2)] assms(2) by (simp add: pg_def user_addr_def)

text \<open>The pages of a range, by index and by address.\<close>

lemma range_index:
  fixes base a :: nat
  assumes "4096 dvd base" "4096 dvd a"
  shows "base \<le> a \<and> a < base + k * 4096 \<longleftrightarrow> (\<exists>n < k. a = base + n * 4096)"
proof
  assume a: "base \<le> a \<and> a < base + k * 4096"
  obtain x y where "base = 4096 * x" "a = 4096 * y" using assms by (auto elim!: dvdE)
  with a show "\<exists>n < k. a = base + n * 4096" by (intro exI [of _ "y - x"]) auto
qed auto

lemma page_at: "of_nat (unat base + n * 4096) = pg base n"
  by (simp add: pg_def)

section \<open>The kernel heap behind it\<close>

lemma kfree_frame:
  "kfree (h\<lparr>vm := v, hbytes := b\<rparr>) p = map_option (\<lambda>(r, h'). (r, h'\<lparr>vm := v, hbytes := b\<rparr>)) (kfree h p)"
  by (cases p) (auto simp: kfree_def Let_def split: option.splits)

lemma live_frame [simp]: "live (h\<lparr>vm := v\<rparr>) = live h" "live (h\<lparr>hbytes := b\<rparr>) = live h"
  by (simp_all add: live_def heap_rep_def)

lemma heap_shapeI: "heap_inv h \<Longrightarrow> heap_shape (h\<lparr>vm := v, hbytes := b\<rparr>)"
proof -
  assume "heap_inv h"
  then have "heap_inv ((h\<lparr>vm := v, hbytes := b\<rparr>)\<lparr>vm := vm h\<rparr>)"
    by (simp add: heap_inv_def heap_rep_def heap_mapped_def)
  then show ?thesis unfolding heap_shape_def by blast
qed

lemma kfree_shape:
  assumes "heap_shape h" "(p, n) \<in> live h"
  obtains h' where "kfree h (Some p) = Some (Ret (), h')" "heap_shape h'" "live h' = live h - {(p, n)}"
    "vm h' = vm h" "hbytes h' = hbytes h"
proof -
  obtain v where v: "heap_inv (h\<lparr>vm := v\<rparr>)" using assms(1) by (auto simp: heap_shape_def)
  have "(p, n) \<in> live (h\<lparr>vm := v\<rparr>)" using assms(2) by simp
  then obtain h1 where h1: "kfree (h\<lparr>vm := v\<rparr>) (Some p) = Some (Ret (), h1)" "heap_inv h1" "live h1 = live h - {(p, n)}"
    using kfree_spec [OF v] by (metis live_frame(1))
  have "kfree h (Some p) = Some (Ret (), h1\<lparr>vm := vm h, hbytes := hbytes h\<rparr>)"
    using kfree_frame [where h = "h\<lparr>vm := v\<rparr>" and v = "vm h" and b = "hbytes h" and p = "Some p"] h1(1) by simp
  then show thesis by (rule that) (use heap_shapeI [OF h1(2)] h1(3) in simp_all)
qed

section \<open>Mapping and unmapping a range\<close>

lemma user_page_frame:
  assumes "user_page v root x"
  obtains b where "frame_at v root x = Some b" "pmm_owns_page (frames v) b" "0x4800000 \<le> b"
  using assms table_entry(3) unfolding user_page_def frame_at_def by force

lemma pages_okD:
  assumes "pages_ok t v" "user_addr a"
  shows "tree_ok v (utask_pml4 t)"
    "r \<in> set (uheap_regions t) \<Longrightarrow> in_region r a \<Longrightarrow> user_page v (utask_pml4 t) (of_nat a)"
    "\<forall>r \<in> set (uheap_regions t). \<not> in_region r a \<Longrightarrow> walk v (utask_pml4 t) (page_path (of_nat a)) = Unmapped"
    "frame_at v (utask_pml4 t) (of_nat a) = Some b \<Longrightarrow> pmm_owns_page (frames v) b"
    "user_addr c \<Longrightarrow> a \<noteq> c \<Longrightarrow> frame_at v (utask_pml4 t) (of_nat a) \<noteq> None \<Longrightarrow>
       frame_at v (utask_pml4 t) (of_nat a) \<noteq> frame_at v (utask_pml4 t) (of_nat c)"
proof -
  have p: "if \<exists>r \<in> set (uheap_regions t). in_region r a then user_page v (utask_pml4 t) (of_nat a)
      else walk v (utask_pml4 t) (page_path (of_nat a)) = Unmapped"
    using assms unfolding pages_ok_def by blast
  show "tree_ok v (utask_pml4 t)" using assms(1) by (simp add: pages_ok_def)
  show "user_page v (utask_pml4 t) (of_nat a)" if "r \<in> set (uheap_regions t)" "in_region r a" using p that by (metis (full_types))
  show "walk v (utask_pml4 t) (page_path (of_nat a)) = Unmapped" if "\<forall>r \<in> set (uheap_regions t). \<not> in_region r a" using p that by auto
  show "pmm_owns_page (frames v) b" if f: "frame_at v (utask_pml4 t) (of_nat a) = Some b"
  proof -
    have "user_page v (utask_pml4 t) (of_nat a)" using p f by (auto simp: frame_at_def split: if_splits)
    then show ?thesis by (rule user_page_frame) (use f in simp)
  qed
  show "frame_at v (utask_pml4 t) (of_nat a) \<noteq> frame_at v (utask_pml4 t) (of_nat c)"
    if "user_addr c" "a \<noteq> c" "frame_at v (utask_pml4 t) (of_nat a) \<noteq> None"
    using assms that unfolding pages_ok_def by blast
qed

text \<open>Above the break nothing is mapped.\<close>

lemma above_brk:
  assumes "layout t" "unat (cur_brk t) \<le> a" "r \<in> set (uheap_regions t)"
  shows "\<not> in_region r a"
  using assms by (auto simp: layout_def region_ok_def rend_def in_region_def)

text \<open>What the mapping loop does to the pages of the heap range, \<open>j\<close> being the number of pages it mapped.\<close>

definition mapped_upto :: "utask \<Rightarrow> nat \<Rightarrow> vmm_state \<Rightarrow> vmm_state \<Rightarrow> bool" where
  "mapped_upto t j v v' \<longleftrightarrow>
     tree_ok v' (utask_pml4 t) \<and>
     (\<forall>n < j. user_page v' (utask_pml4 t) (pg (cur_brk t) n)) \<and>
     (\<forall>a. user_addr a \<longrightarrow> \<not> (unat (cur_brk t) \<le> a \<and> a < unat (cur_brk t) + j * 4096) \<longrightarrow>
        walk v' (utask_pml4 t) (page_path (of_nat a)) = walk v (utask_pml4 t) (page_path (of_nat a)) \<and>
        (user_page v (utask_pml4 t) (of_nat a) \<longrightarrow> user_page v' (utask_pml4 t) (of_nat a))) \<and>
     (\<forall>n < j. \<forall>b. frame_at v' (utask_pml4 t) (pg (cur_brk t) n) = Some b \<longrightarrow> \<not> pmm_owns_page (frames v) b) \<and>
     (\<forall>m n. m < n \<longrightarrow> n < j \<longrightarrow> frame_at v' (utask_pml4 t) (pg (cur_brk t) m) \<noteq> frame_at v' (utask_pml4 t) (pg (cur_brk t) n)) \<and>
     (\<forall>b. pmm_owns_page (frames v) b \<longrightarrow> pmm_owns_page (frames v') b)"

lemma map_range:
  assumes lay: "layout t" and pok: "pages_ok t (vm h)" and room: "unat (cur_brk t) + P * 4096 \<le> 0x40000000"
    and m: "map_user_pages P h (utask_pml4 t) (cur_brk t) 0 = (r, h')"
  obtains j where "j \<le> P" "r = (if j = P then None else Some j)" "mapped_upto t j (vm h) (vm h')" "h' = h\<lparr>vm := vm h', hbytes := hbytes h'\<rparr>"
    "\<forall>a. hbytes h' a = (if unat (cur_brk t) \<le> a \<and> a < unat (cur_brk t) + j * 4096 then 0 else hbytes h a)"
proof -
  let ?U = "unat (cur_brk t)" and ?R = "utask_pml4 t"
  have U: "4096 dvd ?U" "0x10000000 \<le> ?U" using lay by (simp_all add: layout_def)
  have tree: "tree_ok (vm h) ?R" using pok by (simp add: pages_ok_def)
  have bd: "?U + (0 + P) * 4096 \<le> 2 ^ 47" using room by simp
  from map_user_pages_spec [OF tree m bd] obtain j where S: "tree_ok (vm h') ?R" "h' = h\<lparr>vm := vm h', hbytes := hbytes h'\<rparr>"
      "j \<le> P" "r = (if j = P then None else Some j)"
      "\<And>n. n < j \<Longrightarrow> user_page (vm h') ?R (pg (cur_brk t) n)"
      "\<And>x. \<forall>n < j. page_path x \<noteq> page_path (pg (cur_brk t) n) \<Longrightarrow>
         walk (vm h') ?R (page_path x) = walk (vm h) ?R (page_path x) \<and> (user_page (vm h) ?R x \<longrightarrow> user_page (vm h') ?R x)"
      "\<And>a. hbytes h' a = (if ?U \<le> a \<and> a < ?U + j * 4096 then 0 else hbytes h a)"
      "\<And>b. pmm_owns_page (frames (vm h)) b \<Longrightarrow> pmm_owns_page (frames (vm h')) b"
      "\<And>n b. n < j \<Longrightarrow> frame_at (vm h') ?R (pg (cur_brk t) n) = Some b \<Longrightarrow> \<not> pmm_owns_page (frames (vm h)) b"
      "\<And>m n. m < n \<Longrightarrow> n < j \<Longrightarrow> frame_at (vm h') ?R (pg (cur_brk t) m) \<noteq> frame_at (vm h') ?R (pg (cur_brk t) n)"
    by auto
  have outside: "walk (vm h') ?R (page_path (of_nat a)) = walk (vm h) ?R (page_path (of_nat a)) \<and>
      (user_page (vm h) ?R (of_nat a) \<longrightarrow> user_page (vm h') ?R (of_nat a))" if a: "user_addr a" "\<not> (?U \<le> a \<and> a < ?U + j * 4096)" for a
  proof (rule S(6), intro allI impI)
    fix n assume n: "n < j"
    then have "a \<noteq> ?U + n * 4096" using a(2) by auto
    then show "page_path (of_nat a) \<noteq> page_path (pg (cur_brk t) n)"
      using low_pages_differ [OF a(1) _ U(1), of n] n S(3) bd by simp
  qed
  then have "mapped_upto t j (vm h) (vm h')" unfolding mapped_upto_def using S(1,5,8,9,10) by blast
  then show thesis using that [OF S(3,4) _ S(2)] S(7) by blast
qed

lemma mapped_uptoD:
  assumes lay: "layout t" and pok: "pages_ok t v" and M: "mapped_upto t j v v'"
  shows "user_addr a \<Longrightarrow> unat (cur_brk t) \<le> a \<Longrightarrow> a < unat (cur_brk t) + j * 4096 \<Longrightarrow>
      \<exists>n < j. of_nat a = pg (cur_brk t) n \<and> a = unat (cur_brk t) + n * 4096"
    "user_addr a \<Longrightarrow> \<not> (unat (cur_brk t) \<le> a \<and> a < unat (cur_brk t) + j * 4096) \<Longrightarrow>
      frame_at v' (utask_pml4 t) (of_nat a) = frame_at v (utask_pml4 t) (of_nat a)"
    "user_addr a \<Longrightarrow> unat (cur_brk t) \<le> a \<Longrightarrow> a < unat (cur_brk t) + j * 4096 \<Longrightarrow> user_addr c \<Longrightarrow>
      frame_at v' (utask_pml4 t) (of_nat a) \<noteq> frame_at v (utask_pml4 t) (of_nat c)"
proof -
  let ?U = "unat (cur_brk t)" and ?R = "utask_pml4 t"
  have U: "4096 dvd ?U" using lay by (simp add: layout_def)
  show inside: "\<exists>n < j. of_nat a = pg (cur_brk t) n \<and> a = ?U + n * 4096" if "user_addr a" "?U \<le> a" "a < ?U + j * 4096" for a
    using range_index [OF U, of a j] that page_at [of "cur_brk t"] by (auto simp: user_addr_def)
  show "frame_at v' ?R (of_nat a) = frame_at v ?R (of_nat a)" if "user_addr a" "\<not> (?U \<le> a \<and> a < ?U + j * 4096)" for a
    using M that by (simp add: frame_at_def mapped_upto_def)
  show "frame_at v' ?R (of_nat a) \<noteq> frame_at v ?R (of_nat c)"
    if a: "user_addr a" "?U \<le> a" "a < ?U + j * 4096" "user_addr c" for a c
  proof -
    obtain n where n: "n < j" "of_nat a = pg (cur_brk t) n" using inside [OF a(1-3)] by blast
    then have "user_page v' ?R (pg (cur_brk t) n)" using M by (simp add: mapped_upto_def)
    then obtain b where b: "frame_at v' ?R (pg (cur_brk t) n) = Some b" using user_page_frame by metis
    then have "\<not> pmm_owns_page (frames v) b" using M n(1) by (simp add: mapped_upto_def)
    then show ?thesis using b pages_okD(4) [OF pok a(4)] n(2) by auto
  qed
qed

text \<open>All pages mapped: the new region is part of the heap.\<close>

lemma mapped_all:
  assumes lay: "layout t" and pok: "pages_ok t v" and M: "mapped_upto t P v v'"
    and r: "rbase r = cur_brk t" "unat (rpages r) = P"
  shows "pages_ok (t\<lparr>uheap_regions := r # uheap_regions t\<rparr>) v'"
proof -
  let ?U = "unat (cur_brk t)" and ?R = "utask_pml4 t"
  note D = mapped_uptoD [OF lay pok M]
  have inr: "in_region r a \<longleftrightarrow> ?U \<le> a \<and> a < ?U + P * 4096" for a using r by (simp add: in_region_def)
  have "if in_region r a \<or> (\<exists>r \<in> set (uheap_regions t). in_region r a) then user_page v' ?R (of_nat a)
      else walk v' ?R (page_path (of_nat a)) = Unmapped" if a: "user_addr a" for a
  proof (cases "in_region r a")
    case True
    then show ?thesis using D(1) [OF a] M inr by (auto simp: mapped_upto_def)
  next
    case False
    then have "walk v' ?R (page_path (of_nat a)) = walk v ?R (page_path (of_nat a)) \<and> (user_page v ?R (of_nat a) \<longrightarrow> user_page v' ?R (of_nat a))"
      using M a inr by (simp add: mapped_upto_def)
    with False show ?thesis using pages_okD(2,3) [OF pok a] by auto
  qed
  moreover have "frame_at v' ?R (of_nat a) \<noteq> frame_at v' ?R (of_nat c)"
    if a: "user_addr a" "user_addr c" "a \<noteq> c" "frame_at v' ?R (of_nat a) \<noteq> None" for a c
  proof (cases "in_region r a"; cases "in_region r c")
    assume "in_region r a" "in_region r c"
    then obtain m n where "m < P" "n < P" "of_nat a = pg (cur_brk t) m" "of_nat c = pg (cur_brk t) n" "m \<noteq> n"
      using D(1) [of a] D(1) [of c] a(1-3) inr by blast
    then show ?thesis using M unfolding mapped_upto_def by (metis nat_neq_iff)
  next
    assume "in_region r a" "\<not> in_region r c"
    then show ?thesis using D(3) [OF a(1) _ _ a(2)] D(2) [OF a(2)] inr by simp
  next
    assume "\<not> in_region r a" "in_region r c"
    then show ?thesis using D(3) [OF a(2) _ _ a(1)] D(2) [OF a(1)] inr by auto
  next
    assume "\<not> in_region r a" "\<not> in_region r c"
    then show ?thesis using D(2) [OF a(1)] D(2) [OF a(2)] inr pages_okD(5) [OF pok a(1-3)] a(4) by simp
  qed
  moreover have "tree_ok v' ?R" using M by (simp add: mapped_upto_def)
  ultimately show ?thesis unfolding pages_ok_def by simp
qed

text \<open>The roll back restores the heap range.\<close>

lemma mapped_rollback:
  assumes lay: "layout t" and pok: "pages_ok t v" and M: "mapped_upto t j v v'" and j: "unat (cur_brk t) + j * 4096 \<le> 0x40000000"
    and v2: "v2 = uheap_unmap_range j v' (utask_pml4 t) (cur_brk t) 0"
  shows "pages_ok t v2"
proof -
  let ?U = "unat (cur_brk t)" and ?R = "utask_pml4 t"
  have U: "4096 dvd ?U" using lay by (simp add: layout_def)
  note D = mapped_uptoD [OF lay pok M]
  have tree: "tree_ok v' ?R" using M by (simp add: mapped_upto_def)
  have mp: "\<forall>n. 0 \<le> n \<longrightarrow> n < 0 + j \<longrightarrow> mapped_page v' ?R (pg (cur_brk t) n)" using M user_mapped by (simp add: mapped_upto_def)
  have bj: "?U + (0 + j) * 4096 \<le> 2 ^ 47" using j by simp
  have V: "tree_ok v2 ?R"
      "\<And>x. walk v2 ?R (page_path x) = (if \<exists>n < j. page_path x = page_path (pg (cur_brk t) n) then Unmapped else walk v' ?R (page_path x))"
      "\<And>q. idx_ok q \<Longrightarrow> length q \<le> 3 \<Longrightarrow> node v2 ?R q = node v' ?R q"
      "\<And>b. pmm_owns_page (frames v') b \<Longrightarrow> \<forall>n < j. frame_at v' ?R (pg (cur_brk t) n) \<noteq> Some b \<Longrightarrow> pmm_owns_page (frames v2) b"
    using unmap_range_spec [OF tree mp bj v2] by auto
  have same: "walk v2 ?R (page_path (of_nat a)) = walk v ?R (page_path (of_nat a))" if a: "user_addr a" for a
  proof (cases "?U \<le> a \<and> a < ?U + j * 4096")
    case True
    then obtain n where "n < j" "of_nat a = pg (cur_brk t) n" using D(1) [OF a] by blast
    then have "walk v2 ?R (page_path (of_nat a)) = Unmapped" using V(2) by auto
    moreover have "walk v ?R (page_path (of_nat a)) = Unmapped" using pages_okD(3) [OF pok a] above_brk [OF lay] True by blast
    ultimately show ?thesis by simp
  next
    case False
    have "page_path (of_nat a) \<noteq> page_path (pg (cur_brk t) n)" if "n < j" for n
      using low_pages_differ [OF a _ U, of n] that False bj by auto
    then have "\<not> (\<exists>n < j. page_path (of_nat a) = page_path (pg (cur_brk t) n))" by blast
    then have "walk v2 ?R (page_path (of_nat a)) = walk v' ?R (page_path (of_nat a))" by (simp only: V(2) if_False)
    then show ?thesis using M a False by (simp add: mapped_upto_def)
  qed
  have "user_page v2 ?R (of_nat a)" if a: "user_addr a" "in_region r a" "r \<in> set (uheap_regions t)" for a r
  proof -
    have out: "\<not> (?U \<le> a \<and> a < ?U + j * 4096)" using above_brk [OF lay _ a(3)] a(2) by blast
    then have "user_page v' ?R (of_nat a)" using M a(1) pages_okD(2) [OF pok a(1,3,2)] by (simp add: mapped_upto_def)
    then obtain pa where pa: "walk v' ?R (page_path (of_nat a)) = Page (pa OR 7)" "frame_aligned pa" "pmm_owns_page (frames v') pa" "0x4800000 \<le> pa"
        "\<forall>q. idx_ok q \<longrightarrow> length q \<le> 3 \<longrightarrow> node v' ?R q \<noteq> Some pa"
      unfolding user_page_def by blast
    have "frame_at v ?R (of_nat a) = Some pa"
      using D(2) [OF a(1) out] pa(1) table_entry(3) [OF pa(2)] by (simp add: frame_at_def)
    then have "pmm_owns_page (frames v) pa" by (rule pages_okD(4) [OF pok a(1)])
    then have "\<forall>n < j. frame_at v' ?R (pg (cur_brk t) n) \<noteq> Some pa" using M by (auto simp: mapped_upto_def)
    then have "pmm_owns_page (frames v2) pa" by (rule V(4) [OF pa(3)])
    moreover have "walk v2 ?R (page_path (of_nat a)) = Page (pa OR 7)" using same [OF a(1)] M a(1) out pa(1) by (simp add: mapped_upto_def)
    ultimately show ?thesis unfolding user_page_def using pa(2,4,5) V(3) by auto
  qed
  moreover have "frame_at v2 ?R (of_nat a) = frame_at v ?R (of_nat a)" if "user_addr a" for a using same [OF that] by (simp add: frame_at_def)
  ultimately show ?thesis using pok V(1) same unfolding pages_ok_def by (metis (full_types))
qed

section \<open>Properties\<close>

lemma uheap_sizes:
  assumes "sz \<noteq> 0" "\<not> sz > UHEAP_MAX_ALLOC" "pages = (sz + 4095) div 4096"
  shows "unat pages = (unat sz + 4095) div 4096" "unat sz \<le> unat pages * 4096" "pages \<noteq> 0" "unat pages \<le> 16384"
proof -
  have le: "unat sz \<le> 0x4000000" using assms(2) by (simp add: not_less word_le_nat_alt)
  then have "unat (sz + 4095) = unat sz + 4095" by (simp add: unat_word_ariths)
  then show p: "unat pages = (unat sz + 4095) div 4096" using assms(3) by (simp add: unat_div)
  show "unat sz \<le> unat pages * 4096" "unat pages \<le> 16384" unfolding p using le by (auto simp: div_le_mono [of _ "0x4000000 + 4095", simplified])
  have "0 < unat sz" using assms(1) by (simp add: unat_gt_0)
  then have "0 < unat pages" unfolding p by (simp add: div_greater_zero_iff)
  then show "pages \<noteq> 0" by auto
qed

lemma brk_sum:
  assumes "unat (b :: u64) \<le> 0x40000000" "unat (p :: u64) \<le> 16384"
  shows "unat (b + p * 4096 + 4096) = unat b + unat p * 4096 + 4096"
  using assms by (simp add: unat_word_ariths)

lemma uheap_invD:
  assumes "uheap_inv t"
  shows "layout t" "pages_ok t (vm (kheap t))" "heap_shape (kheap t)" "nodes_ok t"
  using assms by (simp_all add: uheap_inv_def)

lemma kheap_indep [simp]:
  "cur_brk (t\<lparr>kheap := h\<rparr>) = cur_brk t" "pages_ok (t\<lparr>kheap := h\<rparr>) v = pages_ok t v" "pages_ok (t\<lparr>uheap_brk := b\<rparr>) v = pages_ok t v"
  by (simp_all add: cur_brk_def pages_ok_def)

lemma pages_ok_cong:
  "utask_pml4 t' = utask_pml4 t \<Longrightarrow> uheap_regions t' = uheap_regions t \<Longrightarrow> pages_ok t' v = pages_ok t v"
  by (simp only: pages_ok_def)

lemma layout_kheap [simp]: "layout (t\<lparr>kheap := h\<rparr>) = layout t"
  by (simp add: layout_def)

lemma new_heap_inv:
  "uheap_inv t \<Longrightarrow> pages_ok t (vm h) \<Longrightarrow> heap_shape h \<Longrightarrow> live h = live (kheap t) \<Longrightarrow> uheap_inv (t\<lparr>kheap := h\<rparr>)"
  by (simp add: uheap_inv_def nodes_ok_def)

text \<open>A region entered at the break.\<close>

lemma new_region_inv:
  assumes inv: "uheap_inv t" and r: "rbase r = cur_brk t" "rpages r \<noteq> 0" "unat (rsize r) \<le> unat (rpages r) * 4096" "unat (rpages r) \<le> 16384"
    and room: "unat (cur_brk t) + unat (rpages r) * 4096 + 4096 \<le> 0x40000000"
    and pok: "pages_ok (t\<lparr>uheap_regions := r # uheap_regions t\<rparr>) (vm h)" and h: "heap_shape h" "live h = insert (rnode r, n) (live (kheap t))"
    and fresh: "\<forall>n. (rnode r, n) \<notin> live (kheap t)"
    and t': "t' = t\<lparr>kheap := h, uheap_regions := r # uheap_regions t, uheap_brk := cur_brk t + rpages r * 4096 + 4096\<rparr>"
  shows "uheap_inv t'"
proof -
  note lay = uheap_invD(1) [OF inv] and nodes = uheap_invD(4) [OF inv]
  have U: "4096 dvd unat (cur_brk t)" "0x10000000 \<le> unat (cur_brk t)" "unat (cur_brk t) \<le> 0x40000000"
      "\<And>q. q \<in> set (uheap_regions t) \<Longrightarrow> region_ok (unat (cur_brk t)) q" "sorted_wrt (\<lambda>r q. rend q \<le> unat (rbase r)) (uheap_regions t)"
    using lay by (simp_all add: layout_def)
  have sum: "unat (cur_brk t + rpages r * 4096 + 4096) = rend r" using brk_sum [OF U(3) r(4)] r(1) by (simp add: rend_def)
  then have "cur_brk t + rpages r * 4096 + 4096 \<noteq> 0" by (auto simp: rend_def)
  then have "cur_brk t' = cur_brk t + rpages r * 4096 + 4096" unfolding cur_brk_def [of t'] by (simp add: t')
  then have brk: "unat (cur_brk t') = rend r" using sum by simp
  have le: "unat (cur_brk t) \<le> rend r" using r(1) by (simp add: rend_def)
  have "region_ok (rend r) q" if "q \<in> set (uheap_regions t)" for q using U(4) [OF that] le by (simp add: region_ok_def)
  moreover have "rend q \<le> unat (rbase r)" if "q \<in> set (uheap_regions t)" for q using U(4) [OF that] r(1) by (simp add: region_ok_def)
  moreover have "region_ok (rend r) r" using U(1,2) r by (simp add: region_ok_def)
  moreover have "4096 dvd rend r" "0x10000000 \<le> rend r" "rend r \<le> 0x40000000" using U(1,2) room r(1) by (simp_all add: rend_def)
  ultimately have "layout t'" using U(5) unfolding layout_def brk by (auto simp: t')
  moreover have "rnode r \<notin> rnode ` set (uheap_regions t)" using nodes fresh by (force simp: nodes_ok_def)
  then have "nodes_ok t'" using nodes h(2) by (auto simp: nodes_ok_def t')
  moreover have "pages_ok t' (vm h)" using pages_ok_cong [of t' "t\<lparr>uheap_regions := r # uheap_regions t\<rparr>"] pok by (simp add: t')
  moreover have "kheap t' = h" by (simp add: t')
  ultimately show ?thesis using h(1) by (simp add: uheap_inv_def)
qed

lemma uheap_alloc_spec:
  assumes inv: "uheap_inv t" and heap: "heap_inv (kheap t)" "heap_can_grow (kheap t) NODE_SIZE"
    and keep: "\<forall>r h. kmalloc (kheap t) NODE_SIZE = Some (Ret r, h) \<longrightarrow> pages_ok t (vm h)"
  shows "\<exists>r t'. uheap_alloc t sz = Some (Ret r, t') \<and> uheap_inv t' \<and>
    (if r = 0 then uheap_regions t' = uheap_regions t \<and> uheap_brk t' = uheap_brk t \<and> live (kheap t') = live (kheap t)
     else r = cur_brk t \<and> (\<exists>nd n. live (kheap t') = insert (nd, n) (live (kheap t)) \<and>
            uheap_regions t' = \<lparr>rnode = nd, rbase = r, rsize = sz, rpages = (sz + 4095) div 4096\<rparr> # uheap_regions t) \<and>
       (\<forall>a. hbytes (kheap t') a = (if in_region (hd (uheap_regions t')) a then 0 else hbytes (kheap t) a)))"
proof -
  let ?pages = "(sz + 4095) div 4096"
  have stay: ?thesis if "uheap_alloc t sz = Some (Ret 0, t)" using that inv by auto
  show ?thesis
  proof (cases "utask_pml4 t = PHYS_NULL \<or> sz = 0 \<or> sz > UHEAP_MAX_ALLOC \<or> cur_brk t + ?pages * 4096 + 4096 > UHEAP_END")
    case True
    then have "uheap_alloc t sz = Some (Ret 0, t)" by (auto simp: uheap_alloc_def Let_def cur_brk_def)
    then show ?thesis by (rule stay)
  next
    case False
    then have ps: "sz \<noteq> 0" "\<not> sz > UHEAP_MAX_ALLOC" "\<not> cur_brk t + ?pages * 4096 + 4096 > UHEAP_END" "utask_pml4 t \<noteq> PHYS_NULL" by auto
    note P = uheap_sizes [OF ps(1,2) refl]
    have lay: "layout t" by (rule uheap_invD(1) [OF inv])
    have room: "unat (cur_brk t) + unat ?pages * 4096 + 4096 \<le> 0x40000000"
      using ps(3) brk_sum [of "cur_brk t" ?pages] lay P(4) by (simp add: layout_def not_less word_le_nat_alt)
    obtain k h where k: "kmalloc (kheap t) NODE_SIZE = Some (Ret k, h)" "heap_inv h" "hbytes h = hbytes (kheap t)"
        "case k of None \<Rightarrow> live h = live (kheap t)
         | Some p \<Rightarrow> \<exists>s. round16 NODE_SIZE \<le> s \<and> live h = insert (p, s) (live (kheap t)) \<and> (\<forall>s'. (p, s') \<notin> live (kheap t))"
      using kmalloc_spec [OF heap(1), of NODE_SIZE] heap(2) unfolding heap_can_grow_def by auto
    have pok: "pages_ok t (vm h)" using keep k(1) by blast
    have shape: "heap_shape h" using heap_shapeI [OF k(2), where v = "vm h" and b = "hbytes h"] by simp
    show ?thesis
    proof (cases k)
      case None
      have "uheap_alloc t sz = Some (Ret 0, t\<lparr>kheap := h\<rparr>)"
        using ps k(1) None by (simp add: uheap_alloc_def Let_def cur_brk_def [symmetric])
      moreover have "uheap_inv (t\<lparr>kheap := h\<rparr>)"
        using new_heap_inv [OF inv pok shape] k(4) None by simp
      ultimately show ?thesis using k(4) None by (intro exI [of _ 0] exI [of _ "t\<lparr>kheap := h\<rparr>"]) simp
    next
      case (Some nd)
      then obtain n where n: "live h = insert (nd, n) (live (kheap t))" "\<forall>n'. (nd, n') \<notin> live (kheap t)" using k(4) by auto
      obtain r h' where m: "map_user_pages (unat ?pages) h (utask_pml4 t) (cur_brk t) 0 = (r, h')" by fastforce
      have room': "unat (cur_brk t) + unat ?pages * 4096 \<le> 0x40000000" using room by simp
      obtain j where j: "j \<le> unat ?pages" "r = (if j = unat ?pages then None else Some j)" "mapped_upto t j (vm h) (vm h')"
          "h' = h\<lparr>vm := vm h', hbytes := hbytes h'\<rparr>"
          "\<forall>a. hbytes h' a = (if unat (cur_brk t) \<le> a \<and> a < unat (cur_brk t) + j * 4096 then 0 else hbytes h a)"
        by (rule map_range [OF lay pok room' m])
      have lv: "live h' = live h"
      proof -
        have "live h' = live (h\<lparr>vm := vm h', hbytes := hbytes h'\<rparr>)" using j(4) by (rule arg_cong)
        then show ?thesis by (simp only: live_frame)
      qed
      have sh: "heap_shape (h'\<lparr>vm := v\<rparr>)" for v
      proof -
        have "h'\<lparr>vm := v\<rparr> = (h\<lparr>vm := vm h', hbytes := hbytes h'\<rparr>)\<lparr>vm := v\<rparr>" using j(4) by (rule arg_cong)
        also have "\<dots> = h\<lparr>vm := v, hbytes := hbytes h'\<rparr>" by simp
        finally show ?thesis using heap_shapeI [OF k(2)] by (simp only:)
      qed
      note start = uheap_alloc_def Let_def cur_brk_def [symmetric]
      show ?thesis
      proof (cases "j = unat ?pages")
        case True
        let ?r = "\<lparr>rnode = nd, rbase = cur_brk t, rsize = sz, rpages = ?pages\<rparr>"
        let ?t = "t\<lparr>kheap := h', uheap_regions := ?r # uheap_regions t, uheap_brk := cur_brk t + ?pages * 4096 + 4096\<rparr>"
        have call: "uheap_alloc t sz = Some (Ret (cur_brk t), ?t)" using ps k(1) Some m j(2) True by (simp add: start)
        have "uheap_inv ?t"
        proof (rule new_region_inv [OF inv, of ?r])
          show "pages_ok (t\<lparr>uheap_regions := ?r # uheap_regions t\<rparr>) (vm h')"
            by (rule mapped_all [OF lay pok j(3) [unfolded True]]) simp_all
          show "heap_shape h'" using sh [of "vm h'"] by simp
          show "live h' = insert (rnode ?r, n) (live (kheap t))" using lv n(1) by simp
        qed (use P room n(2) in simp_all)
        moreover have "cur_brk t \<noteq> 0" using lay by (auto simp: layout_def)
        ultimately show ?thesis using call n lv j(5) k(3) True
          by (intro exI [of _ "cur_brk t"] exI [of _ ?t]) (auto simp: in_region_def)
      next
        case False
        let ?v = "uheap_unmap_range j (vm h') (utask_pml4 t) (cur_brk t) 0"
        have "unat (cur_brk t) + j * 4096 \<le> 0x40000000" using room' j(1) by (meson add_left_mono mult_le_mono1 order_trans)
        then have pok2: "pages_ok t ?v" by (rule mapped_rollback [OF lay pok j(3) _ refl])
        have "(nd, n) \<in> live (h'\<lparr>vm := ?v\<rparr>)" using lv n(1) by simp
        then obtain h2 where h2: "kfree (h'\<lparr>vm := ?v\<rparr>) (Some nd) = Some (Ret (), h2)" "heap_shape h2" "live h2 = live (h'\<lparr>vm := ?v\<rparr>) - {(nd, n)}"
            "vm h2 = ?v"
          by (rule kfree_shape [OF sh]) simp
        have l2: "live h2 = live (kheap t)" using h2(3) lv n by auto
        have "uheap_alloc t sz = Some (Ret 0, t\<lparr>kheap := h2\<rparr>)" using ps k(1) Some m j(2) False h2(1) by (simp add: start)
        moreover have "uheap_inv (t\<lparr>kheap := h2\<rparr>)"
          using new_heap_inv [OF inv _ h2(2) l2] pok2 h2(4) by simp
        ultimately show ?thesis using l2 by (intro exI [of _ 0] exI [of _ "t\<lparr>kheap := h2\<rparr>"]) simp
      qed
    qed
  qed
qed

lemma sorted_wrt_pair: "sorted_wrt Q xs \<Longrightarrow> x \<in> set xs \<Longrightarrow> y \<in> set xs \<Longrightarrow> x \<noteq> y \<Longrightarrow> Q x y \<or> Q y x"
  by (induction xs) auto

lemma sorted_wrt_remove1: "sorted_wrt Q xs \<Longrightarrow> sorted_wrt Q (remove1 x xs)"
  by (induction xs) (auto dest: notin_set_remove1)

lemma regions_distinct:
  assumes "layout t"
  shows "distinct (uheap_regions t)"
    "q \<in> set (uheap_regions t) \<Longrightarrow> r \<in> set (uheap_regions t) \<Longrightarrow> q \<noteq> r \<Longrightarrow> in_region q a \<Longrightarrow> \<not> in_region r a"
proof -
  have s: "sorted_wrt (\<lambda>r q. rend q \<le> unat (rbase r)) (uheap_regions t)" using assms by (simp add: layout_def)
  have "sorted_wrt (\<lambda>r q. rend q \<le> unat (rbase r)) xs \<Longrightarrow> distinct xs" for xs
    by (induction xs) (auto simp: rend_def)
  then show "distinct (uheap_regions t)" using s by blast
  show "\<not> in_region r a" if "q \<in> set (uheap_regions t)" "r \<in> set (uheap_regions t)" "q \<noteq> r" "in_region q a"
    using sorted_wrt_pair [OF s that(1-3)] that(4) by (auto simp: rend_def in_region_def)
qed

text \<open>The pages of a region are given back.\<close>

lemma pages_remove:
  assumes lay: "layout t" and pok: "pages_ok t v" and r: "r \<in> set (uheap_regions t)"
    and v': "v' = uheap_unmap_range (unat (rpages r)) v (utask_pml4 t) (rbase r) 0"
  shows "pages_ok (t\<lparr>uheap_regions := remove1 r (uheap_regions t)\<rparr>) v'"
    "user_addr a \<Longrightarrow> in_region r a \<Longrightarrow> frame_at v (utask_pml4 t) (of_nat a) = Some b \<Longrightarrow> \<not> pmm_owns_page (frames v') b"
    "user_addr a \<Longrightarrow> walk v' (utask_pml4 t) (page_path (of_nat a)) =
       (if in_region r a then Unmapped else walk v (utask_pml4 t) (page_path (of_nat a)))"
    "pmm_owns_page (frames v) b \<Longrightarrow> \<forall>a. user_addr a \<longrightarrow> in_region r a \<longrightarrow> frame_at v (utask_pml4 t) (of_nat a) \<noteq> Some b \<Longrightarrow>
       pmm_owns_page (frames v') b"
proof -
  let ?R = "utask_pml4 t" and ?B = "unat (rbase r)" and ?P = "unat (rpages r)"
  have B: "4096 dvd ?B" "0x10000000 \<le> ?B" "?B + ?P * 4096 + 4096 \<le> 0x40000000"
    using lay r by (auto simp: layout_def region_ok_def rend_def)
  have tree: "tree_ok v ?R" using pok by (simp add: pages_ok_def)
  have idx: "in_region r a \<longleftrightarrow> (\<exists>n < ?P. a = ?B + n * 4096)" if "user_addr a" for a
    using range_index [OF B(1), of a ?P] that by (simp add: in_region_def user_addr_def)
  have ua: "user_addr (?B + n * 4096)" "in_region r (?B + n * 4096)" if "n < ?P" for n
    using B that by (auto simp: user_addr_def in_region_def)
  have up: "user_page v ?R (pg (rbase r) n)" if "n < ?P" for n
    using pages_okD(2) [OF pok ua(1) [OF that] r ua(2) [OF that]] page_at [of "rbase r" n] by simp
  then have mp: "\<forall>n. 0 \<le> n \<longrightarrow> n < 0 + ?P \<longrightarrow> mapped_page v ?R (pg (rbase r) n)" using user_mapped by simp
  have bd: "?B + (0 + ?P) * 4096 \<le> 2 ^ 47" using B(3) by simp
  have V: "tree_ok v' ?R"
      "\<And>x. walk v' ?R (page_path x) = (if \<exists>n < ?P. page_path x = page_path (pg (rbase r) n) then Unmapped else walk v ?R (page_path x))"
      "\<And>n b. n < ?P \<Longrightarrow> frame_at v ?R (pg (rbase r) n) = Some b \<Longrightarrow> 0x4800000 \<le> b \<Longrightarrow> \<not> pmm_owns_page (frames v') b"
      "\<And>q. idx_ok q \<Longrightarrow> length q \<le> 3 \<Longrightarrow> node v' ?R q = node v ?R q"
      "\<And>b. pmm_owns_page (frames v) b \<Longrightarrow> \<forall>n < ?P. frame_at v ?R (pg (rbase r) n) \<noteq> Some b \<Longrightarrow> pmm_owns_page (frames v') b"
    using unmap_range_spec [OF tree mp bd v'] by auto
  have wk: "walk v' ?R (page_path (of_nat a)) = (if in_region r a then Unmapped else walk v ?R (page_path (of_nat a)))" if a: "user_addr a" for a
  proof -
    have "page_path (of_nat a) = page_path (pg (rbase r) n) \<longleftrightarrow> a = ?B + n * 4096" if "n < ?P" for n
      using low_pages_differ [OF a _ B(1), of n] that bd by simp
    then have "(\<exists>n < ?P. page_path (of_nat a) = page_path (pg (rbase r) n)) \<longleftrightarrow> in_region r a" using idx [OF a] by blast
    then show ?thesis by (simp only: V(2))
  qed
  have keep: "user_page v' ?R (of_nat a)" if a: "user_addr a" "\<not> in_region r a" "user_page v ?R (of_nat a)" for a
  proof -
    obtain pa where pa: "walk v ?R (page_path (of_nat a)) = Page (pa OR 7)" "frame_aligned pa" "pmm_owns_page (frames v) pa" "0x4800000 \<le> pa"
        "\<forall>q. idx_ok q \<longrightarrow> length q \<le> 3 \<longrightarrow> node v ?R q \<noteq> Some pa"
      using a(3) unfolding user_page_def by blast
    have fa: "frame_at v ?R (of_nat a) = Some pa" using pa(1) table_entry(3) [OF pa(2)] by (simp add: frame_at_def)
    have "frame_at v ?R (pg (rbase r) n) \<noteq> Some pa" if "n < ?P" for n
    proof -
      have "a \<noteq> ?B + n * 4096" using ua(2) [OF that] a(2) by auto
      then show ?thesis using pages_okD(5) [OF pok a(1) ua(1) [OF that]] fa page_at [of "rbase r" n] by auto
    qed
    then have "pmm_owns_page (frames v') pa" using V(5) [OF pa(3)] by blast
    then show ?thesis unfolding user_page_def using wk [OF a(1)] a(2) pa(1,2,4,5) V(4) by auto
  qed
  have rs: "set (remove1 r (uheap_regions t)) = set (uheap_regions t) - {r}" using regions_distinct(1) [OF lay] by simp
  have "if \<exists>q \<in> set (uheap_regions t) - {r}. in_region q a then user_page v' ?R (of_nat a) else walk v' ?R (page_path (of_nat a)) = Unmapped"
    if a: "user_addr a" for a
  proof (cases "in_region r a")
    case True
    then show ?thesis using regions_distinct(2) [OF lay _ r] wk [OF a] by auto
  next
    case False
    then show ?thesis using wk [OF a] keep [OF a] pages_okD(2,3) [OF pok a] by auto
  qed
  moreover have "frame_at v' ?R (of_nat a) \<noteq> frame_at v' ?R (of_nat c)"
    if a: "user_addr a" "user_addr c" "a \<noteq> c" "frame_at v' ?R (of_nat a) \<noteq> None" for a c
    using pages_okD(5) [OF pok a(1-3)] a(4) wk [OF a(1)] wk [OF a(2)] by (auto simp: frame_at_def split: if_splits)
  ultimately show "pages_ok (t\<lparr>uheap_regions := remove1 r (uheap_regions t)\<rparr>) v'"
    using V(1) unfolding pages_ok_def by (simp add: rs)
  show "walk v' ?R (page_path (of_nat a)) = (if in_region r a then Unmapped else walk v ?R (page_path (of_nat a)))" if "user_addr a"
    by (rule wk [OF that])
  show "pmm_owns_page (frames v') b"
    if b: "pmm_owns_page (frames v) b" "\<forall>a. user_addr a \<longrightarrow> in_region r a \<longrightarrow> frame_at v ?R (of_nat a) \<noteq> Some b"
  proof (rule V(5) [OF b(1)], intro allI impI)
    fix n
    assume n: "n < ?P"
    then show "frame_at v ?R (pg (rbase r) n) \<noteq> Some b" using b(2) ua [OF n] page_at [of "rbase r" n] by auto
  qed
  show "\<not> pmm_owns_page (frames v') b" if a: "user_addr a" "in_region r a" "frame_at v ?R (of_nat a) = Some b"
  proof -
    obtain n where n: "n < ?P" "a = ?B + n * 4096" using idx a(1,2) by blast
    then have f: "frame_at v ?R (pg (rbase r) n) = Some b" using a(3) page_at [of "rbase r" n] by simp
    moreover have "0x4800000 \<le> b" using user_page_frame [OF up [OF n(1)]] f by (metis option.inject)
    ultimately show ?thesis using V(3) n(1) by blast
  qed
qed

section \<open>A kernel heap of one free page\<close>

definition free_block_heap :: "vmm_state \<Rightarrow> heap_state" where
  "free_block_heap v = (one_block_heap v)\<lparr>hmem := (\<lambda>_. \<lparr>magic = HEAP_MAGIC, bsize = 4064, is_free = True, nxt = None\<rparr>)\<rparr>"

end
