(* ===== verification/Page_Apart.thy ===== *)
theory Page_Apart
  imports User_Heap_Correct
begin

text \<open>
  The kernel heap grows through the tables of the kernel root only. A user address space whose own
  tables are frames of its own, apart from the kernel's, therefore translates as before when the
  kernel allocates memory.
\<close>

section \<open>Frames the kernel tables do not use\<close>

definition off_kernel :: "vmm_state \<Rightarrow> u64 \<Rightarrow> bool" where
  "off_kernel v f \<longleftrightarrow> (\<forall>q. idx_ok q \<longrightarrow> length q \<le> 3 \<longrightarrow> node v (kernel_pml4_phys v) q \<noteq> Some f)"

lemma alloc_kernel_apart:
  assumes tree: "tree_ok v (kernel_pml4_phys v)" and s: "vmm_alloc_page_kernel v va fl = (ok, v')"
    and f: "pmm_owns_page (frames v) f" "off_kernel v f"
  shows "pmm_owns_page (frames v') f" "off_kernel v' f" "j < 512 \<Longrightarrow> rd v' f j = rd v f j"
proof -
  let ?r = "kernel_pml4_phys v"
  have aw: "alloc_walk v va fl ?r = (ok, v')" using s kernel_root_nonzero [OF tree] by (simp add: alloc_page_walks)
  note sp = alloc_walk_spec [OF tree aw]
  have r: "kernel_pml4_phys v' = ?r" by (subst sp(2)) simp
  show "pmm_owns_page (frames v') f" by (rule sp(5) [OF f(1)])
  show "off_kernel v' f" unfolding off_kernel_def r
  proof (intro allI impI notI)
    fix q :: "u64 list"
    assume q: "idx_ok q" "length q \<le> 3" "node v' ?r q = Some f"
    from sp(7) [OF q] f q(1,2) show False by (auto simp: off_kernel_def)
  qed
  show "rd v' f j = rd v f j" if "j < 512"
  proof -
    have "ent f j AND PAGE_MASK = f" by (rule page_of_ent [OF owned_aligned [OF tree_pmm [OF tree] f(1)] that])
    then show ?thesis unfolding rd_def by (intro sp(6)) (use f in \<open>simp add: foreign_def off_kernel_def\<close>)
  qed
qed

lemma expand_pages_apart:
  assumes "tree_ok v (kernel_pml4_phys v)" "expand_pages k v e = (ok, v', e')" "pmm_owns_page (frames v) f" "off_kernel v f" "j < 512"
  shows "off_kernel v' f \<and> rd v' f j = rd v f j"
  using assms
proof (induction k arbitrary: v e)
  case (Suc k)
  obtain ok1 v1 where s: "vmm_alloc_page_kernel v (of_nat e) 3 = (ok1, v1)" by fastforce
  note a = alloc_kernel_apart [OF Suc.prems(1) s Suc.prems(3,4)]
  have t: "tree_ok v1 (kernel_pml4_phys v1)" using alloc_kernel_step(1,2) [OF Suc.prems(1) s] by simp
  show ?case
  proof (cases ok1)
    case True
    then have "expand_pages k v1 ((e + 4096) mod W64) = (ok, v', e')" using Suc.prems(2) s by simp
    from Suc.IH [OF t this a(1,2) Suc.prems(5)] a(3) [OF Suc.prems(5)] show ?thesis by simp
  next
    case False
    then have "v' = v1" using Suc.prems(2) s by simp
    then show ?thesis using a(2) a(3) [OF Suc.prems(5)] by simp
  qed
qed simp

lemma rollback_pages_apart:
  assumes "tree_ok v (kernel_pml4_phys v)" "\<And>a. e \<le> a \<Longrightarrow> a < e + k * 4096 \<Longrightarrow> data_page v (kernel_pml4_phys v) a"
    and "4096 dvd e" "HEAP_START_VADDR \<le> e" "e + k * 4096 < W64" and "frame_aligned f" "off_kernel v f" "j < 512"
  shows "rd (rollback_pages k v e) f j = rd v f j"
  using assms
proof (induction k arbitrary: v e)
  case (Suc k)
  let ?r = "kernel_pml4_phys v"
  obtain pa v1 where u: "vmm_unmap_page_from v (of_nat e) ?r = (pa, v1)" by fastforce
  have data: "data_page v ?r e" using Suc.prems(2) [of e] by simp
  let ?v2 = "if pa \<noteq> PHYS_NULL then vmm_free v1 pa else v1"
  note st = rollback_step [OF Suc.prems(1) refl data u refl]
  have far: "page_path (of_nat a) \<noteq> page_path (of_nat e :: u64)" if "e + 4096 \<le> a" "a < e + 4096 + k * 4096" for a
  proof -
    have "a div 4096 \<noteq> e div 4096" using that(1) Suc.prems(3) by (auto elim!: dvdE)
    then show ?thesis using page_path_heap [of a e] that Suc.prems(4,5) by simp
  qed
  have "data_page ?v2 ?r a" if "e + 4096 \<le> a" "a < e + 4096 + k * 4096" for a
  proof -
    have "data_page v ?r a" using Suc.prems(2) [of a] that by simp
    then show ?thesis unfolding data_page_def using st(3) st(4) [of "of_nat a"] far [OF that] by simp
  qed
  moreover have "off_kernel ?v2 f" using Suc.prems(7) st(2,3) by (simp add: off_kernel_def)
  ultimately have "rd (rollback_pages k ?v2 (e + 4096)) f j = rd ?v2 f j"
    using Suc.IH [of ?v2 "e + 4096"] st(1) Suc.prems(3-6,8) unfolding st(2) by simp
  also have "rd ?v2 f j = rd v f j" by (rule st(5) [OF Suc.prems(6) _ Suc.prems(8)]) (use Suc.prems(7) in \<open>simp add: off_kernel_def\<close>)
  finally show ?case using u by (simp add: vmm_get_kernel_pml4_phys_def)
qed simp

lemma expand_heap_apart:
  assumes inv: "heap_inv h" and room: "current_heap_end h + n + 8192 < W64" and e: "expand_heap h n = Some (r, h')"
    and f: "pmm_owns_page (frames (vm h)) f" "off_kernel (vm h) f" "j < 512"
  shows "rd (vm h') f j = rd (vm h) f j"
proof -
  let ?s = "current_heap_end h" and ?k = "pages_for n" and ?r = "kernel_pml4_phys (vm h)"
  note pb = pages_for_bounds [of n]
  obtain bs where rep: "heap_rep h bs" using inv by (auto simp: heap_inv_def)
  have ge: "HEAP_START_VADDR \<le> ?s" by (rule heap_end_ge [OF rep])
  have i: "4096 dvd ?s" "tree_ok (vm h) ?r" using inv by (simp_all add: heap_inv_def)
  have tot: "(n + HDR) mod W64 = n + HDR" using room by simp
  obtain ok v1 e1 where ep: "expand_pages ?k (vm h) ?s = (ok, v1, e1)" by (metis prod_cases3)
  have lt: "?s + ?k * 4096 < W64" using pb(2) room by simp
  note es = expand_pages_spec [OF i(2) ep i(1) ge lt]
  note ea = expand_pages_apart [OF i(2) ep f]
  note unf = e [unfolded expand_heap_def tot Let_def pages_for_def [symmetric] ep]
  show ?thesis
  proof (cases ok)
    case True
    then have "vm h' = v1" using unf by (auto split: option.splits)
    then show ?thesis using ea by simp
  next
    case False
    obtain m where m: "m \<le> ?k" "e1 = ?s + m * 4096" using es by blast
    have "(e1 + W64 - ?s) mod W64 = m * 4096"
      using m lt by (simp add: le_less_trans [OF mult_le_mono1 [OF m(1), of 4096]])
    then have h': "vm h' = rollback_pages m v1 ?s" using unf False by auto
    have tree1: "tree_ok v1 (kernel_pml4_phys v1)" using es by simp
    have js: "?s + m * 4096 < W64" using m(1) lt by (meson add_le_cancel_left le_less_trans mult_le_mono1)
    have data: "data_page v1 (kernel_pml4_phys v1) a" if "?s \<le> a" "a < ?s + m * 4096" for a
      using es m(2) that owned_data by simp
    have al: "frame_aligned f" by (rule owned_aligned [OF tree_pmm [OF i(2)] f(1)])
    have "rd (rollback_pages m v1 ?s) f j = rd v1 f j"
      by (rule rollback_pages_apart [OF tree1 data i(1) ge js al _ f(3)]) (use ea in simp_all)
    then show ?thesis using ea h' by simp
  qed
qed

lemma kmalloc_apart:
  assumes inv: "heap_inv h" and sz: "sz \<noteq> 0" and grow: "heap_can_grow h sz" and k: "kmalloc h sz = Some (Ret r, h')"
    and f: "pmm_owns_page (frames (vm h)) f" "off_kernel (vm h) f" "j < 512"
  shows "rd (vm h') f j = rd (vm h) f j"
proof -
  let ?n = "round16 sz"
  have room: "current_heap_end h + unat sz + 16384 < W64" using grow by (simp add: heap_can_grow_def)
  obtain bs where rep: "heap_rep h bs" using inv by (auto simp: heap_inv_def)
  have sz15: "unat sz + 15 < W64" using room by simp
  note rb = round16_bounds [OF sz15]
  have ffc: "first_fit (hmem g) (heap_head g) ?n = Some (Ret (find (fits g ?n) cs))" if "heap_rep g cs" for g cs
    using first_fit_chain [of "hmem g" HEAP_START_VADDR "current_heap_end g" cs ?n] that by (simp add: heap_rep_def fits_def [abs_def])
  show ?thesis
  proof (cases "find (fits h ?n) bs")
    case (Some b)
    then have "vm h' = vm h" using k sz ffc [OF rep] by (auto simp: kmalloc_unfold)
    then show ?thesis by simp
  next
    case None
    then have ff: "first_fit (hmem h) (heap_head h) ?n = Some (Ret None)" using ffc [OF rep] by simp
    have room': "current_heap_end h + ?n + 8192 < W64" using rb(2) room by simp
    from inv rep room' show ?thesis
    proof (cases rule: expand_heap_spec)
      case (oom h1)
      then have "h' = h1" using k sz ff by (simp add: kmalloc_unfold)
      then show ?thesis using expand_heap_apart [OF inv room' oom(1) f] by simp
    next
      case (grown h1)
      let ?b = "current_heap_end h"
      have step: "kmalloc h sz = kmalloc h1 (of_nat ?n)" using sz ff grown(1) by (subst kmalloc_unfold) simp_all
      have n: "?n < W64" "?n + 15 < W64" using room' by simp_all
      have un: "unat (of_nat ?n :: u64) = ?n" using n(1) by simp
      have rr: "round16 (of_nat ?n) = ?n" by (rule round16_round [OF rb(3) n(2)])
      have n0: "(of_nat ?n :: u64) \<noteq> 0" using un rb(1) sz by (metis le_zero_eq unat_0 unat_eq_zero)
      have "find (fits h1 ?n) bs = None" using None grown(7) unfolding find_None_iff fits_def by auto
      then have "find (fits h1 ?n) (bs @ [?b]) = Some ?b" using grown(4,5) by (simp add: find_snoc fits_def)
      then have "vm h' = vm h1" using k step ffc [OF grown(3)] rr n0 by (auto simp: kmalloc_unfold)
      then show ?thesis using expand_heap_apart [OF inv room' grown(1) f] by simp
    qed
  qed
qed

section \<open>The user half\<close>

text \<open>The tables a user address space has for itself: its root and the tables of the user half.\<close>

definition user_table :: "vmm_state \<Rightarrow> u64 \<Rightarrow> u64 \<Rightarrow> bool" where
  "user_table v root f \<longleftrightarrow> f = root \<or> (\<exists>i q. i < 256 \<and> idx_ok q \<and> length q \<le> 2 \<and> node v root (i # q) = Some f)"

definition own_half :: "vmm_state \<Rightarrow> u64 \<Rightarrow> bool" where
  "own_half v root \<longleftrightarrow> root \<noteq> PHYS_NULL \<and> (\<forall>i < 256. \<not> huge (rd v root i)) \<and>
     (\<forall>f. user_table v root f \<longrightarrow> pmm_owns_page (frames v) f \<and> off_kernel v f)"

lemma half_index: "unat va < 2 ^ 47 \<Longrightarrow> PML4_IDX va < 256"
proof -
  assume va: "unat va < 2 ^ 47"
  have "unat (PML4_IDX va) \<le> unat (drop_bit 39 va)" unfolding PML4_IDX_def by (metis word_and_le2 word_le_nat_alt)
  also have "\<dots> = unat va div 2 ^ 39" by (simp add: drop_bit_eq_div unat_div)
  also have "\<dots> < 256" using va by (simp add: div_less_iff_less_mult)
  finally show ?thesis by (simp add: word_less_nat_alt)
qed

lemma mapped_iff_walk:
  assumes "root \<noteq> PHYS_NULL" "\<not> huge (rd v root (PML4_IDX va))"
  shows "paging_is_mapped_into v va root \<longleftrightarrow> walk v root (page_path va) \<noteq> Unmapped"
  using assms by (simp add: paging_is_mapped_into_def root_of_def page_path_def Let_def leaf_def)

lemma kmalloc_user_half:
  assumes inv: "heap_inv h" and sz: "sz \<noteq> 0" and grow: "heap_can_grow h sz" and k: "kmalloc h sz = Some (Ret r, h')"
    and own: "own_half (vm h) root" and va: "unat va < 2 ^ 47"
  shows "walk (vm h') root (page_path va) = walk (vm h) root (page_path va)"
    "paging_is_mapped_into (vm h') va root = paging_is_mapped_into (vm h) va root"
proof -
  have same: "rd (vm h') f j = rd (vm h) f j" if "user_table (vm h) root f" "j < 512" for f j
    using kmalloc_apart [OF inv sz grow k] own that by (simp add: own_half_def)
  have hi: "PML4_IDX va < 256" by (rule half_index [OF va])
  show w: "walk (vm h') root (page_path va) = walk (vm h) root (page_path va)"
  proof (rule walk_cong)
    fix t j u g
    assume split: "page_path va = t @ j # u" and n: "node (vm h) root t = Some g"
    have j: "j < 512" and t: "idx_ok t" "length t \<le> 3" using page_path_ok [of va] unfolding split by auto
    have "user_table (vm h) root g"
    proof (cases t)
      case Nil
      then show ?thesis using n by (simp add: user_table_def)
    next
      case (Cons i q)
      have "i = PML4_IDX va" using split Cons by (simp add: page_path_def)
      then have "i < 256 \<and> idx_ok q \<and> length q \<le> 2 \<and> node (vm h) root (i # q) = Some g" using hi t n Cons by auto
      then show ?thesis unfolding user_table_def by blast
    qed
    then show "rd (vm h') g j = rd (vm h) g j" by (rule same [OF _ j])
  qed
  have "rd (vm h') root (PML4_IDX va) = rd (vm h) root (PML4_IDX va)" by (rule same) (simp_all add: user_table_def)
  then show "paging_is_mapped_into (vm h') va root = paging_is_mapped_into (vm h) va root"
    using own hi w by (simp add: mapped_iff_walk own_half_def)
qed

end
