(* ===== verification/Page_Ready.thy ===== *)
theory Page_Ready
  imports Page_Walk
begin

text \<open>
  When mapping must succeed: while frames last and no entry on the way carries the huge-page
  bit. One page costs at most four frames, its own and three tables.
\<close>

section \<open>No huge pages below some entries of the root\<close>

definition no_huge :: "u64 set \<Rightarrow> vmm_state \<Rightarrow> u64 \<Rightarrow> bool" where
  "no_huge I v root \<longleftrightarrow>
     (\<forall>i q f j. i \<in> I \<longrightarrow> idx_ok q \<longrightarrow> length q \<le> 1 \<longrightarrow> node v root (i # q) = Some f \<longrightarrow> j < 512 \<longrightarrow> \<not> huge (rd v f j))"

lemma no_hugeD:
  "no_huge I v root \<Longrightarrow> i \<in> I \<Longrightarrow> idx_ok q \<Longrightarrow> length q \<le> 1 \<Longrightarrow> node v root (i # q) = Some f \<Longrightarrow> j < 512 \<Longrightarrow> \<not> huge (rd v f j)"
  unfolding no_huge_def by blast

lemma no_huge_cong:
  assumes "no_huge I v root" and n: "I \<subseteq> {..<512}" and "\<And>q. idx_ok q \<Longrightarrow> length q \<le> 2 \<Longrightarrow> node v' root q = node v root q"
    and "\<And>q f j. idx_ok q \<Longrightarrow> length q \<le> 2 \<Longrightarrow> node v root q = Some f \<Longrightarrow> j < 512 \<Longrightarrow> rd v' f j = rd v f j"
  shows "no_huge I v' root"
  unfolding no_huge_def
proof (intro allI impI)
  fix i j :: u64 and q f
  assume a: "i \<in> I" "idx_ok q" "length q \<le> 1" "node v' root (i # q) = Some f" "j < 512"
  have iq: "idx_ok (i # q)" "length (i # q) \<le> 2" using a subsetD [OF n a(1)] by simp_all
  then have o: "node v root (i # q) = Some f" using a(4) assms(3) by metis
  then have "\<not> huge (rd v f j)" by (rule no_hugeD [OF assms(1) a(1-3) _ a(5)])
  then show "\<not> huge (rd v' f j)" using assms(4) [OF iq o a(5)] by simp
qed

text \<open>One level of the walk, with frames to spare.\<close>

lemma ensure_table_ready:
  assumes tree: "tree_ok v root" and nh: "no_huge I v root" and n: "I \<subseteq> {..<512}" and p: "length p \<le> 2" "idx_ok p" "node v root p = Some f"
    and i: "i < 512" "\<not> huge (rd v f i)" and room: "0 < pmm_room (frames v)" and q: "q = p @ [i]"
  obtains t v' where "ensure_table v f i = (Some t, v')" "tree_ok v' root" "no_huge I v' root" "node v' root q = Some t"
    "pmm_room (frames v) \<le> Suc (pmm_room (frames v'))"
proof -
  have own: "pmm_owns_page (frames v) f" by (rule tree_owned [OF tree _ p(2,3)]) (use p in simp)
  obtain t v' where e: "ensure_table v f i = (Some t, v')" "pmm_room (frames v) \<le> Suc (pmm_room (frames v'))"
    by (rule ensure_table_room [OF tree_pmm [OF tree] own i(1) room])
  note g = ensure_table_grown [OF tree p i e(1)]
  have "no_huge I v' root"
    using tree_pmm [OF tree] own i(1)
  proof (cases rule: ensure_table_cases)
    case (fresh t' w)
    then have l: "linked v f i t v'" using e(1) by simp
    show ?thesis
      unfolding no_huge_def
    proof (intro allI impI)
      fix k j :: u64 and q g
      assume a: "k \<in> I" "idx_ok q" "length q \<le> 1" "node v' root (k # q) = Some g" "j < 512"
      have kq: "idx_ok (k # q)" "length (k # q) \<le> 4" "length (k # q) \<le> 3" using a subsetD [OF n a(1)] by simp_all
      have t: "(if k # q = p @ [i] then Some t else node v root (k # q)) = Some g"
        using linked_node(1) [OF tree p i(1) fresh(2) l kq(1,2)] a(4) by simp
      show "\<not> huge (rd v' g j)"
      proof (cases "k # q = p @ [i]")
        case True
        then have "rd v' g j = 0" using t l a(5) by (simp add: linked_def)
        then show ?thesis by (simp add: huge_def)
      next
        case False
        then have o: "node v root (k # q) = Some g" using t by simp
        have "pmm_owns_page (frames v) g" by (rule tree_owned [OF tree kq(3,1) o])
        then have "rd v' g j = (if g = f \<and> j = i then t OR 7 else rd v g j)" using l a(5) by (simp add: linked_def)
        moreover have "\<not> huge (t OR 7)" using l table_entry(2) by (simp add: linked_def)
        ultimately show ?thesis using no_hugeD [OF nh a(1-3) o a(5)] by simp
      qed
    qed
  qed (use e nh in simp_all)
  then show thesis using that e g(1,2) q by (simp add: grown_def)
qed

lemma map_walk_ready:
  assumes tree: "tree_ok v root" and nh: "no_huge I v root" and n: "I \<subseteq> {..<512}" and hd: "PML4_IDX va \<in> I" and room: "3 \<le> pmm_room (frames v)"
  obtains v' where "map_walk v va pa flags root = (True, v')" "no_huge I v' root" "pmm_room (frames v) \<le> 3 + pmm_room (frames v')"
proof -
  have l: "length [] \<le> (2 :: nat)" "length [PML4_IDX va] \<le> 2" "length [PML4_IDX va, PDPT_IDX va] \<le> 2" by simp_all
  have ix: "idx_ok []" "idx_ok [PML4_IDX va]" "idx_ok [PML4_IDX va, PDPT_IDX va]" by simp_all
  have sn: "[PML4_IDX va, PDPT_IDX va] = [PML4_IDX va] @ [PDPT_IDX va]"
    "[PML4_IDX va, PDPT_IDX va, PD_IDX va] = [PML4_IDX va, PDPT_IDX va] @ [PD_IDX va]" by simp_all
  have r0: "0 < pmm_room (frames v)" using room by simp
  have h4: "\<not> huge (rd v root (PML4_IDX va))" using tree by (simp add: tree_ok_def)
  obtain pdpt v1 where 1: "ensure_table v root (PML4_IDX va) = (Some pdpt, v1)" "tree_ok v1 root" "no_huge I v1 root"
      "node v1 root [PML4_IDX va] = Some pdpt" "pmm_room (frames v) \<le> Suc (pmm_room (frames v1))"
    by (rule ensure_table_ready [OF tree nh n l(1) ix(1) node.simps(1) IDX_less(1) h4 r0 append_Nil [symmetric]])
  have h3: "\<not> huge (rd v1 pdpt (PDPT_IDX va))" by (rule no_hugeD [OF 1(3) hd ix(1) _ 1(4) IDX_less(2)]) simp
  have r1: "0 < pmm_room (frames v1)" using room 1(5) by simp
  obtain pd v2 where 2: "ensure_table v1 pdpt (PDPT_IDX va) = (Some pd, v2)" "tree_ok v2 root" "no_huge I v2 root"
      "node v2 root [PML4_IDX va, PDPT_IDX va] = Some pd" "pmm_room (frames v1) \<le> Suc (pmm_room (frames v2))"
    by (rule ensure_table_ready [OF 1(2,3) n l(2) ix(2) 1(4) IDX_less(2) h3 r1 sn(1)])
  have h2: "\<not> huge (rd v2 pd (PD_IDX va))" by (rule no_hugeD [OF 2(3) hd _ _ 2(4) IDX_less(3)]) simp_all
  have r2: "0 < pmm_room (frames v2)" using room 1(5) 2(5) by simp
  obtain pt v3 where 3: "ensure_table v2 pd (PD_IDX va) = (Some pt, v3)" "tree_ok v3 root" "no_huge I v3 root"
      "node v3 root [PML4_IDX va, PDPT_IDX va, PD_IDX va] = Some pt" "pmm_room (frames v2) \<le> Suc (pmm_room (frames v3))"
    by (rule ensure_table_ready [OF 2(2,3) n l(3) ix(3) 2(4) IDX_less(3) h2 r2 sn(2)])
  let ?w = "wr v3 pt (PT_IDX va) ((pa AND PAGE_MASK) OR flags)"
  have al: "frame_aligned pt" by (rule tree_aligned [OF 3(2) _ _ 3(4)]) simp_all
  have "no_huge I ?w root"
  proof (rule no_huge_cong [OF 3(3) n])
    fix q :: "u64 list"
    assume q: "idx_ok q" "length q \<le> 2"
    show "node ?w root q = node v3 root q" by (rule write_pt(3) [OF 3(2) _ _ 3(4)]) (use q in simp_all)
    fix f j :: u64
    assume f: "node v3 root q = Some f" "j < 512"
    have "f \<noteq> pt" using tree_inj [OF 3(2) _ _ q(1) _ _ 3(4)] q f(1) by fastforce
    moreover have "frame_aligned f" by (rule tree_aligned [OF 3(2) _ q(1) f(1)]) (use q in simp)
    ultimately show "rd ?w f j = rd v3 f j" using al f(2) by (simp add: rd_wr)
  qed
  moreover have "map_walk v va pa flags root = (True, ?w)" using 1(1) 2(1) 3(1) h3 h2 by (simp add: map_walk_def)
  ultimately show thesis using that [of ?w] 1(5) 2(5) 3(5) by simp
qed

lemma alloc_walk_ready:
  assumes tree: "tree_ok v root" and nh: "no_huge I v root" and n: "I \<subseteq> {..<512}" and hd: "PML4_IDX va \<in> I" and room: "4 \<le> pmm_room (frames v)"
  obtains v' where "alloc_walk v va flags root = (True, v')" "no_huge I v' root" "pmm_room (frames v) \<le> 4 + pmm_room (frames v')"
proof -
  obtain pa fr where a: "pmm_alloc_page (frames v) = (pa, fr)" by fastforce
  have inv: "pmm_inv (frames v)" by (rule tree_pmm [OF tree])
  have ar: "pa \<noteq> PHYS_NULL" "pmm_room (frames v) \<le> Suc (pmm_room fr)" using alloc_room [OF inv] room a by simp_all
  have fr: "pmm_inv fr" "\<And>b. pmm_owns_page fr b \<longleftrightarrow> b = pa \<or> pmm_owns_page (frames v) b"
    using pmm.alloc_ok [OF inv] pmm.alloc_owns [OF inv] a ar(1) by simp_all
  let ?v1 = "v\<lparr>frames := fr\<rparr>"
  have t1: "tree_ok ?v1 root" by (rule tree_ok_frames [OF tree fr(1)]) (use fr(2) tree_owned [OF tree] in blast)
  have n1: "no_huge I ?v1 root" by (rule no_huge_cong [OF nh n]) simp_all
  obtain v' where "map_walk ?v1 va pa flags root = (True, v')" "no_huge I v' root" "pmm_room fr \<le> 3 + pmm_room (frames v')"
    using map_walk_ready [OF t1 n1 n hd] room ar(2) by auto
  then show thesis using that [of v'] a ar by (simp add: alloc_walk_def)
qed

section \<open>Nothing leaks\<close>

text \<open>A frame taken while mapping is a table afterwards, or the frame of the page that was mapped.\<close>

lemma map_walk_tables:
  assumes tree: "tree_ok v root" and m: "map_walk v va pa flags root = (ok, v')"
  shows "pmm_owns_page (frames v') b \<Longrightarrow> pmm_owns_page (frames v) b \<or> table_of v' root b"
    "idx_ok q \<Longrightarrow> length q \<le> 3 \<Longrightarrow> node v root q = Some b \<Longrightarrow> node v' root q = Some b"
proof -
  have g: "(pmm_owns_page (frames w) b \<longrightarrow> pmm_owns_page (frames v) b \<or> table_of w root b) \<and>
      (idx_ok q \<longrightarrow> length q \<le> 3 \<longrightarrow> node v root q = Some b \<longrightarrow> node w root q = Some b)" if "grown root v w" for w
    using that unfolding grown_def no_leak_def by blast
  have "(pmm_owns_page (frames v') b \<longrightarrow> pmm_owns_page (frames v) b \<or> table_of v' root b) \<and>
      (idx_ok q \<longrightarrow> length q \<le> 3 \<longrightarrow> node v root q = Some b \<longrightarrow> node v' root q = Some b)"
    using tree
  proof (cases rule: map_walk_cases [where va = va and pa = pa and flags = flags])
    case (refused w)
    then show ?thesis using m g by simp
  next
    case (mapped w pt)
    then have v': "v' = wr w pt (PT_IDX va) ((pa AND PAGE_MASK) OR flags)" using m by simp
    have t: "tree_ok w root" using mapped(2) by (simp add: grown_def)
    have nd: "node v' root q = node w root q" if "idx_ok q" "length q \<le> 3" for q
      unfolding v' by (rule write_pt(3) [OF t _ _ mapped(3)]) (use that in simp_all)
    then have "table_of v' root b = table_of w root b" unfolding table_of_def by auto
    then show ?thesis using g [OF mapped(2)] nd by (simp add: v')
  qed
  then show "pmm_owns_page (frames v') b \<Longrightarrow> pmm_owns_page (frames v) b \<or> table_of v' root b"
    "idx_ok q \<Longrightarrow> length q \<le> 3 \<Longrightarrow> node v root q = Some b \<Longrightarrow> node v' root q = Some b" by blast+
qed

lemma alloc_walk_tables:
  assumes tree: "tree_ok v root" and m: "alloc_walk v va flags root = (ok, v')"
  shows "pmm_owns_page (frames v') b \<Longrightarrow>
      pmm_owns_page (frames v) b \<or> table_of v' root b \<or> ok \<and> b = fst (pmm_alloc_page (frames v))"
    "idx_ok q \<Longrightarrow> length q \<le> 3 \<Longrightarrow> node v root q = Some b \<Longrightarrow> node v' root q = Some b"
    "table_of v root b \<Longrightarrow> table_of v' root b"
proof -
  have inv: "pmm_inv (frames v)" by (rule tree_pmm [OF tree])
  obtain pa fr where pf: "pmm_alloc_page (frames v) = (pa, fr)" by fastforce
  let ?v1 = "v\<lparr>frames := fr\<rparr>"
  have A: "(pmm_owns_page (frames v') b \<longrightarrow> pmm_owns_page (frames v) b \<or> table_of v' root b \<or> ok \<and> b = pa) \<and>
      (idx_ok q \<longrightarrow> length q \<le> 3 \<longrightarrow> node v root q = Some b \<longrightarrow> node v' root q = Some b)" for b q
  proof (cases "pa = PHYS_NULL")
    case True
    then have "fr = frames v" using pmm.alloc_null [OF inv] pf by simp
    with True m pf show ?thesis by (auto simp: alloc_walk_def)
  next
    case False
    have fr: "pmm_inv fr" "\<And>b. pmm_owns_page fr b \<longleftrightarrow> b = pa \<or> pmm_owns_page (frames v) b" "0x4800000 \<le> pa"
      using pmm.alloc_ok [OF inv] pmm.alloc_owns [OF inv] pmm.alloc_releasable [OF inv] pf False by simp_all
    have t1: "tree_ok ?v1 root"
      by (rule tree_ok_frames [OF tree fr(1)]) (use fr(2) tree_owned [OF tree] in blast)
    obtain k v2 where mw: "map_walk ?v1 va pa flags root = (k, v2)" by fastforce
    note mt = map_walk_tables [OF t1 mw]
    note ms = map_walk_spec [OF t1 mw]
    have v': "ok = k" "v' = (if k then v2 else vmm_free v2 pa)" using m pf False mw by (auto simp: alloc_walk_def split: if_splits)
    have nd: "node v' root q = node v2 root q" for q unfolding v'(2) by (simp add: vmm_free_def)
    then have tb: "table_of v' root b = table_of v2 root b" by (simp add: table_of_def)
    have "pmm_owns_page (frames v2) pa" using ms(4) [of pa] fr(2) by simp
    then have rel: "pmm_owns_page (pmm_release (frames v2) pa) b \<longleftrightarrow> b \<noteq> pa \<and> pmm_owns_page (frames v2) b"
      by (rule pmm.release_owns [OF tree_pmm [OF ms(1)] _ fr(3)])
    have "frames v' = (if k then frames v2 else pmm_release (frames v2) pa)"
      unfolding v'(2) by (simp add: vmm_free_def pmm_release_def)
    then show ?thesis using mt(1) [of b] mt(2) [of q b] rel fr(2) tb nd v'(1) by auto
  qed
  show "pmm_owns_page (frames v') b \<Longrightarrow>
      pmm_owns_page (frames v) b \<or> table_of v' root b \<or> ok \<and> b = fst (pmm_alloc_page (frames v))"
    "idx_ok q \<Longrightarrow> length q \<le> 3 \<Longrightarrow> node v root q = Some b \<Longrightarrow> node v' root q = Some b" using A pf by auto
  show "table_of v root b \<Longrightarrow> table_of v' root b" unfolding table_of_def using A by blast
qed

lemma no_huge_mono: "no_huge I v root \<Longrightarrow> J \<subseteq> I \<Longrightarrow> no_huge J v root"
  unfolding no_huge_def by blast

lemma no_huge_empty: "no_huge I (empty_vmm s) root"
  unfolding no_huge_def empty_vmm_node by simp

end
