(* ===== verification/Page_Room.thy ===== *)
theory Page_Room
  imports Page_Apart Page_Ready
begin

text \<open>
  The mapping loop of the user heap succeeds while frames last and no entry of the user half
  carries the huge-page bit.
\<close>

lemma map_user_pages_ready:
  assumes "tree_ok (vm h) root" "no_huge {..<256} (vm h) root" "unat brk + (i + k) * 4096 \<le> 2 ^ 47" "4 * k \<le> pmm_room (frames (vm h))"
  shows "fst (map_user_pages k h root brk i) = None"
  using assms
proof (induction k arbitrary: h i)
  case (Suc k)
  let ?v = "vm h"
  have bd: "unat (pg brk i) < 2 ^ 47" using Suc.prems(3) by (subst unat_pg) simp_all
  obtain v2 where v2: "alloc_walk ?v (pg brk i) 7 root = (True, v2)" "no_huge {..<256} v2 root" "pmm_room (frames ?v) \<le> 4 + pmm_room (frames v2)"
    by (rule alloc_walk_ready [OF Suc.prems(1,2)]) (use half_index [OF bd] Suc.prems(4) in auto)
  obtain pa fr where a: "pmm_alloc_page (frames ?v) = (pa, fr)" by fastforce
  have nz: "pa \<noteq> PHYS_NULL" using alloc_room(1) [OF tree_pmm [OF Suc.prems(1)]] Suc.prems(4) a by simp
  obtain ok w where m: "vmm_map_page_into (?v\<lparr>frames := fr\<rparr>) (pg brk i) pa 7 root = (ok, w)" by fastforce
  have ok: "ok" "w = v2" using map_user_step(2) [OF Suc.prems(1) a nz m] v2(1) by (auto split: if_splits)
  define h1 where "h1 = h\<lparr>vm := zero_frame v2 pa, hbytes := memset (unat (pg brk i)) 0 4096 (hbytes h)\<rparr>"
  note one = map_user_one [OF Suc.prems(1) v2(1) a nz]
  note sp = alloc_walk_spec [OF Suc.prems(1) v2(1)]
  have pa: "\<forall>q. idx_ok q \<longrightarrow> length q \<le> 3 \<longrightarrow> node v2 root q \<noteq> Some pa" using sp(4) a by auto
  have "no_huge {..<256} (zero_frame v2 pa) root"
  proof (rule no_huge_cong [OF v2(2)], simp)
    fix q :: "u64 list"
    assume q: "idx_ok q" "length q \<le> 2"
    show "node (zero_frame v2 pa) root q = node v2 root q" by (rule zero_frame_spec(2) [OF sp(1) pa]) (use q in simp_all)
    fix f j :: u64
    assume f: "node v2 root q = Some f" "j < 512"
    have "f \<noteq> pa" using pa q f(1) by auto
    moreover have "frame_aligned f" by (rule tree_aligned [OF sp(1) _ q(1) f(1)]) (use q in simp)
    ultimately show "rd (zero_frame v2 pa) f j = rd v2 f j" using f(2) by (simp add: rd_def zero_frame_def page_of_ent)
  qed
  then have "fst (map_user_pages k h1 root brk (Suc i)) = None"
    by (intro Suc.IH) (use one(1) v2(3) Suc.prems(3,4) in \<open>simp_all add: h1_def zero_frame_def\<close>)
  then show ?case using a nz m ok by (simp add: h1_def pg_def)
qed simp

end
