(* ===== verification/Heap_Memory.thy ===== *)
theory Heap_Memory
  imports Kernel_Heap Page_Ready
begin

text \<open>
  When the kernel heap must serve a request, and what is left behind when it cannot. A request fails
  only when no free block fits and there is no memory to grow into; the pages mapped by the
  attempt are then unmapped and their frames given back, so that only empty page tables remain.
\<close>

section \<open>Memory to grow into\<close>

text \<open>The entries of the root table that serve \<open>p\<close> pages from address \<open>e\<close>.\<close>

definition heap_rows :: "nat \<Rightarrow> nat \<Rightarrow> u64 set" where
  "heap_rows e p = {PML4_IDX (of_nat a) | a. e \<le> a \<and> a < e + p * 4096}"

lemma heap_rows_range: "heap_rows e p \<subseteq> {..<512}"
  by (auto simp: heap_rows_def)

lemma heap_rows_first: "PML4_IDX (of_nat e) \<in> heap_rows e (Suc p)"
  unfolding heap_rows_def by fastforce

lemma heap_rows_mono: "e \<le> e' \<Longrightarrow> e' + p' * 4096 \<le> e + p * 4096 \<Longrightarrow> heap_rows e' p' \<subseteq> heap_rows e p"
  unfolding heap_rows_def by fastforce

text \<open>
  Memory for \<open>p\<close> more pages: four free frames for each, its own and three tables, and no huge page
  where the heap would grow.
\<close>

definition memory_for :: "heap_state \<Rightarrow> nat \<Rightarrow> bool" where
  "memory_for h p \<longleftrightarrow> 4 * p \<le> pmm_room (frames (vm h)) \<and>
     no_huge (heap_rows (current_heap_end h) p) (vm h) (kernel_pml4_phys (vm h))"

lemma memory_for_mono: "memory_for h p \<Longrightarrow> q \<le> p \<Longrightarrow> memory_for h q"
  unfolding memory_for_def using no_huge_mono heap_rows_mono [of "current_heap_end h" "current_heap_end h" q p] by fastforce

lemma memory_for_cong: "vm h' = vm h \<Longrightarrow> current_heap_end h' = current_heap_end h \<Longrightarrow> memory_for h' p = memory_for h p"
  by (simp add: memory_for_def)

definition has_fit :: "heap_state \<Rightarrow> nat \<Rightarrow> bool" where
  "has_fit h n \<longleftrightarrow> (\<exists>bs. heap_rep h bs \<and> (\<exists>b \<in> set bs. fits h n b))"

text \<open>Out of memory for a request: no free block is large enough and the heap cannot grow by it.\<close>

definition heap_exhausted :: "heap_state \<Rightarrow> u64 \<Rightarrow> bool" where
  "heap_exhausted h sz \<longleftrightarrow> \<not> has_fit h (round16 sz) \<and> \<not> memory_for h (pages_for (round16 sz))"

lemma expand_pages_ready:
  assumes "tree_ok v (kernel_pml4_phys v)" "no_huge I v (kernel_pml4_phys v)" "I \<subseteq> {..<512}" "heap_rows e k \<subseteq> I"
    and "e + k * 4096 < W64" "4 * k \<le> pmm_room (frames v)"
  shows "\<exists>v'. expand_pages k v e = (True, v', e + k * 4096) \<and> no_huge I v' (kernel_pml4_phys v) \<and>
    pmm_room (frames v) \<le> 4 * k + pmm_room (frames v')"
  using assms
proof (induction k arbitrary: v e)
  case (Suc k)
  let ?r = "kernel_pml4_phys v"
  have "PML4_IDX (of_nat e) \<in> I" using Suc.prems(4) heap_rows_first by blast
  moreover have "4 \<le> pmm_room (frames v)" using Suc.prems(6) by simp
  ultimately obtain v1 where v1: "alloc_walk v (of_nat e) 3 ?r = (True, v1)" "no_huge I v1 ?r"
      "pmm_room (frames v) \<le> 4 + pmm_room (frames v1)"
    by (rule alloc_walk_ready [OF Suc.prems(1-3)])
  then have s: "vmm_alloc_page_kernel v (of_nat e) 3 = (True, v1)"
    using kernel_root_nonzero [OF Suc.prems(1)] by (simp add: alloc_page_walks)
  note st = alloc_kernel_step(1,2) [OF Suc.prems(1) s]
  have "heap_rows (e + 4096) k \<subseteq> I" using heap_rows_mono [of e "e + 4096" k "Suc k"] Suc.prems(4) by simp
  then have "\<exists>v'. expand_pages k v1 (e + 4096) = (True, v', e + 4096 + k * 4096) \<and> no_huge I v' ?r \<and>
      pmm_room (frames v1) \<le> 4 * k + pmm_room (frames v')"
    using Suc.IH [of v1 "e + 4096"] st v1(2,3) Suc.prems(3,5,6) by simp
  then obtain v' where v': "expand_pages k v1 (e + 4096) = (True, v', e + 4096 + k * 4096)" "no_huge I v' ?r"
      "pmm_room (frames v1) \<le> 4 * k + pmm_room (frames v')" by blast
  have "(e + 4096) mod W64 = e + 4096" using Suc.prems(5) by simp
  then have "expand_pages (Suc k) v e = (True, v', e + Suc k * 4096)" using s v'(1) by simp
  moreover have "pmm_room (frames v) \<le> 4 * Suc k + pmm_room (frames v')" using v1(3) v'(3) by simp
  ultimately show ?case using v'(2) by blast
qed simp

section \<open>The frames of an expansion\<close>

text \<open>The paths of the pages in a range of addresses.\<close>

definition range_paths :: "nat \<Rightarrow> nat \<Rightarrow> u64 list set" where
  "range_paths e e' = (\<lambda>a. page_path (of_nat a)) ` {e..<e'}"

lemma range_paths_empty [simp]: "range_paths e e = {}"
  by (simp add: range_paths_def)

lemma range_pathsE:
  assumes "p \<in> range_paths e e'"
  obtains a where "p = page_path (of_nat a)" "e \<le> a" "a < e'"
  using assms unfolding range_paths_def by (elim imageE) simp

lemma same_heap_page:
  assumes "4096 dvd e" "HEAP_START_VADDR \<le> e" "e + 4096 < W64" "e \<le> a" "a < e + 4096"
  shows "page_path (of_nat a) = page_path (of_nat e :: u64)"
proof -
  have "a div 4096 = e div 4096" using assms(1,4,5) by (auto elim!: dvdE simp: div_nat_eqI)
  then show ?thesis using page_path_heap [of a e] assms by simp
qed

lemma range_paths_step:
  assumes "4096 dvd e" "HEAP_START_VADDR \<le> e" "e + 4096 \<le> e'" "e' < W64"
  shows "range_paths e e' = insert (page_path (of_nat e)) (range_paths (e + 4096) e')"
    "page_path (of_nat e) \<notin> range_paths (e + 4096) e'"
proof -
  have same: "page_path (of_nat a) = page_path (of_nat e :: u64)" if "a \<in> {e..<e + 4096}" for a
    by (rule same_heap_page [OF assms(1,2)]) (use assms(3,4) that in simp_all)
  have "range_paths e (e + 4096) = (\<lambda>a. page_path (of_nat e)) ` {e..<e + 4096}"
    unfolding range_paths_def by (rule image_cong [OF refl same])
  also have "\<dots> = {page_path (of_nat e)}" by (intro image_constant [of e]) simp
  finally have one: "range_paths e (e + 4096) = {page_path (of_nat e)}" .
  have "{e..<e'} = {e..<e + 4096} \<union> {e + 4096..<e'}" using assms(3) by auto
  then have "range_paths e e' = range_paths e (e + 4096) \<union> range_paths (e + 4096) e'"
    by (simp only: range_paths_def image_Un)
  then show "range_paths e e' = insert (page_path (of_nat e)) (range_paths (e + 4096) e')" using one by simp
  show "page_path (of_nat e) \<notin> range_paths (e + 4096) e'"
  proof
    assume "page_path (of_nat e) \<in> range_paths (e + 4096) e'"
    then obtain a where a: "page_path (of_nat e) = page_path (of_nat a :: u64)" "e + 4096 \<le> a" "a < e'"
      by (rule range_pathsE)
    have "a div 4096 \<noteq> e div 4096" using a(2) assms(1) by (auto elim!: dvdE)
    then show False using page_path_heap [of e a] a assms by simp
  qed
qed

text \<open>
  After mapping from \<open>e\<close> to \<open>e'\<close>: other translations are as before, the pages have fresh frames, and
  every frame taken is one of these or a table.
\<close>

definition expanded :: "vmm_state \<Rightarrow> nat \<Rightarrow> nat \<Rightarrow> vmm_state \<Rightarrow> u64 \<Rightarrow> bool" where
  "expanded v e e' v' r \<longleftrightarrow>
     (\<forall>va. page_path va \<notin> range_paths e e' \<longrightarrow> walk v' r (page_path va) = walk v r (page_path va)) \<and>
     (\<forall>p \<in> range_paths e e'. \<exists>y. walk v' r p = Page y \<and> \<not> pmm_owns_page (frames v) (y AND PAGE_MASK) \<and> 0x4800000 \<le> y AND PAGE_MASK) \<and>
     (\<forall>f. pmm_owns_page (frames v) f \<longrightarrow> pmm_owns_page (frames v') f) \<and>
     (\<forall>f. table_of v r f \<longrightarrow> table_of v' r f) \<and>
     (\<forall>f. pmm_owns_page (frames v') f \<longrightarrow> pmm_owns_page (frames v) f \<or> table_of v' r f \<or>
        (\<exists>p \<in> range_paths e e'. \<exists>y. walk v' r p = Page y \<and> y AND PAGE_MASK = f))"

lemma expandedD:
  assumes "expanded v e e' v' r"
  shows "page_path va \<notin> range_paths e e' \<Longrightarrow> walk v' r (page_path va) = walk v r (page_path va)"
    "p \<in> range_paths e e' \<Longrightarrow> \<exists>y. walk v' r p = Page y \<and> \<not> pmm_owns_page (frames v) (y AND PAGE_MASK) \<and> 0x4800000 \<le> y AND PAGE_MASK"
    "pmm_owns_page (frames v) f \<Longrightarrow> pmm_owns_page (frames v') f"
    "table_of v r f \<Longrightarrow> table_of v' r f"
    "pmm_owns_page (frames v') f \<Longrightarrow> pmm_owns_page (frames v) f \<or> table_of v' r f \<or>
       (\<exists>p \<in> range_paths e e'. \<exists>y. walk v' r p = Page y \<and> y AND PAGE_MASK = f)"
  using assms unfolding expanded_def by blast+

lemma expanded_refl: "expanded v e e v r"
  by (simp add: expanded_def)

lemma alloc_kernel_expanded:
  assumes tree: "tree_ok v (kernel_pml4_phys v)" and s: "vmm_alloc_page_kernel v (of_nat e) 3 = (ok, v')"
    and e: "4096 dvd e" "HEAP_START_VADDR \<le> e" "e + 4096 < W64"
  shows "expanded v e (if ok then e + 4096 else e) v' (kernel_pml4_phys v)"
proof -
  let ?r = "kernel_pml4_phys v"
  have aw: "alloc_walk v (of_nat e) 3 ?r = (ok, v')" using s kernel_root_nonzero [OF tree] by (simp add: alloc_page_walks)
  note sp = alloc_walk_spec [OF tree aw] and tb = alloc_walk_tables(1,3) [OF tree aw]
  show ?thesis
  proof (cases ok)
    case False
    then show ?thesis using sp(3,5) tb unfolding expanded_def by auto
  next
    case True
    let ?pa = "fst (pmm_alloc_page (frames v))"
    have pa: "?pa \<noteq> 0" "frame_aligned ?pa" "\<not> pmm_owns_page (frames v) ?pa"
        "\<forall>va'. walk v' ?r (page_path va') = (if page_path va' = page_path (of_nat e) then leaf (?pa OR 3) else walk v ?r (page_path va'))"
      using sp(4) [OF True] by auto
    have rel: "0x4800000 \<le> ?pa" using pmm.alloc_releasable [OF tree_pmm [OF tree]] pa(1) by (metis prod.collapse)
    have "bit (3 :: u64) 0" by (simp add: bit_0)
    then have "present (?pa OR 3)" unfolding present_bit bit_or_iff by blast
    then have lf: "leaf (?pa OR 3) = Page (?pa OR 3)" by (simp add: leaf_def)
    have mk: "(?pa OR 3) AND PAGE_MASK = ?pa" by (rule frame_flags [OF pa(2)]) simp
    have "range_paths e (e + 4096) = {page_path (of_nat e)}"
      using range_paths_step(1) [OF e(1,2) order_refl e(3)] by simp
    then show ?thesis unfolding expanded_def using True sp(5) tb pa lf mk rel by auto
  qed
qed

lemma expanded_step:
  assumes a: "expanded v e (e + 4096) v1 r" and b: "expanded v1 (e + 4096) e' v' r"
    and e: "4096 dvd e" "HEAP_START_VADDR \<le> e" "e + 4096 \<le> e'" "e' < W64"
  shows "expanded v e e' v' r"
proof -
  note st = range_paths_step [OF e]
  have one: "range_paths e (e + 4096) = {page_path (of_nat e)}"
    using range_paths_step(1) [OF e(1,2) order_refl] e(3,4) by simp
  have keep: "walk v' r (page_path (of_nat e)) = walk v1 r (page_path (of_nat e))"
    using b st(2) unfolding expanded_def by blast
  obtain y where y: "walk v1 r (page_path (of_nat e)) = Page y" "\<not> pmm_owns_page (frames v) (y AND PAGE_MASK)" "0x4800000 \<le> y AND PAGE_MASK"
    using a one unfolding expanded_def by blast
  show ?thesis
    unfolding expanded_def
  proof (intro conjI allI impI ballI)
    fix va
    assume n: "page_path va \<notin> range_paths e e'"
    then have "walk v' r (page_path va) = walk v1 r (page_path va)" using b st(1) unfolding expanded_def by blast
    also have "\<dots> = walk v r (page_path va)" using a n one st(1) unfolding expanded_def by blast
    finally show "walk v' r (page_path va) = walk v r (page_path va)" .
  next
    fix p
    assume "p \<in> range_paths e e'"
    then consider "p = page_path (of_nat e)" | "p \<in> range_paths (e + 4096) e'" using st(1) by blast
    then show "\<exists>y. walk v' r p = Page y \<and> \<not> pmm_owns_page (frames v) (y AND PAGE_MASK) \<and> 0x4800000 \<le> y AND PAGE_MASK"
    proof cases
      case 1
      then show ?thesis using keep y by auto
    next
      case 2
      then show ?thesis using a b unfolding expanded_def by blast
    qed
  next
    fix f
    show "pmm_owns_page (frames v') f" if "pmm_owns_page (frames v) f" using a b that unfolding expanded_def by blast
    show "table_of v' r f" if "table_of v r f" using a b that unfolding expanded_def by blast
    assume "pmm_owns_page (frames v') f"
    then consider "pmm_owns_page (frames v1) f" | "table_of v' r f" | "\<exists>p \<in> range_paths (e + 4096) e'. \<exists>y. walk v' r p = Page y \<and> y AND PAGE_MASK = f"
      using b unfolding expanded_def by blast
    then show "pmm_owns_page (frames v) f \<or> table_of v' r f \<or> (\<exists>p \<in> range_paths e e'. \<exists>y. walk v' r p = Page y \<and> y AND PAGE_MASK = f)"
    proof cases
      case 1
      then consider "pmm_owns_page (frames v) f" | "table_of v1 r f" | "y AND PAGE_MASK = f"
        using expandedD(5) [OF a 1] one y(1) by auto
      then show ?thesis
      proof cases
        case 3
        then show ?thesis using keep y(1) st(1) by auto
      qed (use expandedD(4) [OF b] in simp_all)
    qed (use st(1) in blast)+
  qed
qed

lemma expand_pages_expanded:
  assumes "tree_ok v (kernel_pml4_phys v)" "expand_pages k v e = (ok, v', e')"
    and "4096 dvd e" "HEAP_START_VADDR \<le> e" "e + k * 4096 < W64"
  shows "expanded v e e' v' (kernel_pml4_phys v)"
  using assms
proof (induction k arbitrary: v e)
  case (Suc k)
  obtain ok1 v1 where s: "vmm_alloc_page_kernel v (of_nat e) 3 = (ok1, v1)" by fastforce
  note st = alloc_kernel_step(1,2) [OF Suc.prems(1) s]
  have e: "(e + 4096) mod W64 = e + 4096" "e + 4096 < W64" using Suc.prems(5) by simp_all
  note one = alloc_kernel_expanded [OF Suc.prems(1) s Suc.prems(3,4) e(2)]
  show ?case
  proof (cases ok1)
    case True
    then have rest: "expand_pages k v1 (e + 4096) = (ok, v', e')" using Suc.prems(2) s e(1) by simp
    have t1: "tree_ok v1 (kernel_pml4_phys v1)" using st by simp
    have h: "4096 dvd e + 4096" "HEAP_START_VADDR \<le> e + 4096" "e + 4096 + k * 4096 < W64" using Suc.prems(3-5) by simp_all
    have "expanded v1 (e + 4096) e' v' (kernel_pml4_phys v)" using Suc.IH [OF t1 rest h] st(1) by simp
    moreover obtain j where "j \<le> k" "e' = e + 4096 + j * 4096" using expand_pages_spec [OF t1 rest h] by blast
    then have "e + 4096 \<le> e'" "e' < W64" using h(3) by simp_all
    ultimately show ?thesis using expanded_step one True Suc.prems(3,4) by simp
  next
    case False
    then show ?thesis using Suc.prems(2) s one by simp
  qed
qed (simp add: expanded_refl)

section \<open>The roll back\<close>

text \<open>After unmapping from \<open>e\<close> to \<open>e'\<close>: these pages are unmapped, and exactly their frames are free.\<close>

lemma rollback_pages_exact:
  assumes "tree_ok v r" "kernel_pml4_phys v = r" "4096 dvd e" "HEAP_START_VADDR \<le> e" "e + k * 4096 < W64"
    and "\<forall>p \<in> range_paths e (e + k * 4096). \<exists>y. walk v r p = Page y \<and> 0x4800000 \<le> y AND PAGE_MASK \<and> \<not> table_of v r (y AND PAGE_MASK)"
  shows "(\<forall>va. walk (rollback_pages k v e) r (page_path va) =
       (if page_path va \<in> range_paths e (e + k * 4096) then Unmapped else walk v r (page_path va))) \<and>
    (\<forall>q. idx_ok q \<longrightarrow> length q \<le> 3 \<longrightarrow> node (rollback_pages k v e) r q = node v r q) \<and>
    (\<forall>f. pmm_owns_page (frames (rollback_pages k v e)) f \<longleftrightarrow> pmm_owns_page (frames v) f \<and>
       (\<forall>p \<in> range_paths e (e + k * 4096). \<forall>y. walk v r p = Page y \<longrightarrow> y AND PAGE_MASK \<noteq> f))"
  using assms
proof (induction k arbitrary: v e)
  case (Suc k)
  let ?e = "e + 4096" and ?e' = "e + Suc k * 4096"
  obtain pa v1 where u: "vmm_unmap_page_from v (of_nat e) r = (pa, v1)" by fastforce
  define v2 where "v2 = (if pa \<noteq> PHYS_NULL then vmm_free v1 pa else v1)"
  have le: "?e \<le> ?e'" "?e + k * 4096 = ?e'" "?e' < W64" using Suc.prems(5) by simp_all
  note st = range_paths_step [OF Suc.prems(3,4) le(1,3)]
  obtain y where y: "walk v r (page_path (of_nat e)) = Page y" "0x4800000 \<le> y AND PAGE_MASK" "\<not> table_of v r (y AND PAGE_MASK)"
    using Suc.prems(6) st(1) by blast
  have "data_page v r e" unfolding data_page_def using y(1,3) by (auto simp: table_of_def)
  note rs = rollback_step [OF Suc.prems(1,2) this u v2_def]
  have tb: "table_of v2 r f = table_of v r f" for f unfolding table_of_def using rs(3) by auto
  have pa: "pa = y AND PAGE_MASK" by (rule unmap_spec(2) [OF Suc.prems(1) u y(1)])
  have fr: "frames v1 = frames v" by (rule unmap_spec(5) [OF Suc.prems(1) u])
  have inv: "pmm_inv (frames v)" by (rule tree_pmm [OF Suc.prems(1)])
  have nz: "pa \<noteq> PHYS_NULL" using y(2) pa by auto
  have own: "pmm_owns_page (frames v2) f \<longleftrightarrow> pmm_owns_page (frames v) f \<and> f \<noteq> y AND PAGE_MASK" for f
  proof (cases "pmm_owns_page (frames v) pa")
    case True
    from pmm.release_owns [OF inv True y(2) [folded pa]] show ?thesis using nz fr pa by (simp add: v2_def vmm_free_def pmm_release_def conj_commute)
  next
    case False
    then have "\<not> (pmm_owns_page (frames v) pa \<and> 0x4800000 \<le> pa)" by simp
    from pmm.release_refused [OF inv this] show ?thesis using False nz fr pa by (auto simp: v2_def vmm_free_def pmm_release_def)
  qed
  have wk: "walk v2 r p = walk v r p" if p: "p \<in> range_paths ?e ?e'" for p
  proof -
    obtain a where "p = page_path (of_nat a)" using range_pathsE [OF p] by blast
    then show ?thesis using rs(4) [of "of_nat a"] st(2) p by auto
  qed
  have "\<exists>y. walk v2 r p = Page y \<and> 0x4800000 \<le> y AND PAGE_MASK \<and> \<not> table_of v2 r (y AND PAGE_MASK)" if "p \<in> range_paths ?e ?e'" for p
    using Suc.prems(6) st(1) wk [OF that] tb that by simp
  then have IH: "(\<forall>va. walk (rollback_pages k v2 ?e) r (page_path va) =
       (if page_path va \<in> range_paths ?e ?e' then Unmapped else walk v2 r (page_path va))) \<and>
    (\<forall>q. idx_ok q \<longrightarrow> length q \<le> 3 \<longrightarrow> node (rollback_pages k v2 ?e) r q = node v2 r q) \<and>
    (\<forall>f. pmm_owns_page (frames (rollback_pages k v2 ?e)) f \<longleftrightarrow> pmm_owns_page (frames v2) f \<and>
       (\<forall>p \<in> range_paths ?e ?e'. \<forall>y. walk v2 r p = Page y \<longrightarrow> y AND PAGE_MASK \<noteq> f))"
    using Suc.IH [OF rs(1,2), of ?e] Suc.prems(3,4) le by simp
  have eq: "rollback_pages (Suc k) v e = rollback_pages k v2 ?e"
    using u Suc.prems(2) by (simp add: v2_def vmm_get_kernel_pml4_phys_def)
  show ?case unfolding eq
  proof (intro conjI allI impI)
    fix va
    show "walk (rollback_pages k v2 ?e) r (page_path va) = (if page_path va \<in> range_paths e ?e' then Unmapped else walk v r (page_path va))"
      using IH rs(4) [of va] rs(4) [of "of_nat e"] st(1) by (simp del: mult_Suc)
  next
    fix q :: "u64 list"
    assume "idx_ok q" "length q \<le> 3"
    then show "node (rollback_pages k v2 ?e) r q = node v r q" using IH rs(3) by simp
  next
    fix f
    have "(\<forall>p \<in> range_paths ?e ?e'. \<forall>y. walk v2 r p = Page y \<longrightarrow> y AND PAGE_MASK \<noteq> f) \<longleftrightarrow>
        (\<forall>p \<in> range_paths ?e ?e'. \<forall>y. walk v r p = Page y \<longrightarrow> y AND PAGE_MASK \<noteq> f)" using wk by simp
    then show "pmm_owns_page (frames (rollback_pages k v2 ?e)) f \<longleftrightarrow> pmm_owns_page (frames v) f \<and>
       (\<forall>p \<in> range_paths e ?e'. \<forall>y. walk v r p = Page y \<longrightarrow> y AND PAGE_MASK \<noteq> f)"
      using IH own [of f] y(1) unfolding st(1) by auto
  qed
qed simp

section \<open>Requests\<close>

text \<open>The two ways an expansion ends.\<close>

lemma expand_heap_runs:
  assumes inv: "heap_inv h" and room: "current_heap_end h + n + 8192 < W64" and e: "expand_heap h n = Some (r, h')"
  obtains ok v1 j where "expand_pages (pages_for n) (vm h) (current_heap_end h) = (ok, v1, current_heap_end h + j * 4096)"
    "j \<le> pages_for n" "ok \<longleftrightarrow> j = pages_for n" "ok \<longleftrightarrow> r \<noteq> None"
    "ok \<Longrightarrow> vm h' = v1 \<and> current_heap_end h' = current_heap_end h + j * 4096"
    "\<not> ok \<Longrightarrow> h' = h\<lparr>vm := rollback_pages j v1 (current_heap_end h)\<rparr>"
proof -
  let ?s = "current_heap_end h" and ?k = "pages_for n" and ?r = "kernel_pml4_phys (vm h)"
  obtain bs where rep: "heap_rep h bs" using inv by (auto simp: heap_inv_def)
  have ge: "HEAP_START_VADDR \<le> ?s" by (rule heap_end_ge [OF rep])
  have i: "4096 dvd ?s" "tree_ok (vm h) ?r" using inv by (simp_all add: heap_inv_def)
  have tot: "(n + HDR) mod W64 = n + HDR" using room by simp
  obtain ok v1 e1 where ep: "expand_pages ?k (vm h) ?s = (ok, v1, e1)" by (metis prod_cases3)
  have lt: "?s + ?k * 4096 < W64" using pages_for_bounds(2) [of n] room by simp
  obtain j where j: "j \<le> ?k" "e1 = ?s + j * 4096" "ok \<longleftrightarrow> j = ?k" using expand_pages_spec [OF i(2) ep i(1) ge lt] by blast
  have "(e1 + W64 - ?s) mod W64 = j * 4096"
    using j lt by (simp add: le_less_trans [OF mult_le_mono1 [OF j(1), of 4096]])
  then have mapped: "(e1 + W64 - ?s) mod W64 div 4096 = j" by simp
  note unf = e [unfolded expand_heap_def tot Let_def pages_for_def [symmetric] ep]
  show thesis
  proof (rule that [OF ep [unfolded j(2)] j(1,3)])
    show "ok \<longleftrightarrow> r \<noteq> None" using unf by (cases ok) (auto split: option.splits)
    show "vm h' = v1 \<and> current_heap_end h' = ?s + j * 4096" if ok using unf that j(2) by (auto split: option.splits)
    show "h' = h\<lparr>vm := rollback_pages j v1 ?s\<rparr>" if "\<not> ok" using unf that mapped by auto
  qed
qed

lemma kmalloc_runs:
  assumes inv: "heap_inv h" and sz: "sz \<noteq> 0" and grow: "heap_can_grow h sz" and k: "kmalloc h sz = Some (Ret r, h')"
  obtains (found) "has_fit h (round16 sz)" "r \<noteq> None" "vm h' = vm h" "current_heap_end h' = current_heap_end h"
  | (expanded) h1 where "\<not> has_fit h (round16 sz)" "r \<noteq> None" "expand_heap h (round16 sz) = Some (Some (current_heap_end h), h1)"
      "vm h' = vm h1" "current_heap_end h' = current_heap_end h1"
  | (null) "\<not> has_fit h (round16 sz)" "r = None" "expand_heap h (round16 sz) = Some (None, h')"
proof -
  let ?n = "round16 sz"
  have room: "current_heap_end h + unat sz + 16384 < W64" using grow by (simp add: heap_can_grow_def)
  obtain bs where rep: "heap_rep h bs" using inv by (auto simp: heap_inv_def)
  have sz15: "unat sz + 15 < W64" using room by simp
  note rb = round16_bounds [OF sz15]
  have ffc: "first_fit (hmem g) (heap_head g) ?n = Some (Ret (find (fits g ?n) cs))" if "heap_rep g cs" for g cs
    using first_fit_chain [of "hmem g" HEAP_START_VADDR "current_heap_end g" cs ?n] that by (simp add: heap_rep_def fits_def [abs_def])
  have fit: "has_fit h ?n \<longleftrightarrow> find (fits h ?n) bs \<noteq> None"
    unfolding has_fit_def find_None_iff using rep heap_rep_unique by metis
  show thesis
  proof (cases "find (fits h ?n) bs")
    case (Some b)
    then show ?thesis using found k sz ffc [OF rep] fit by (auto simp: kmalloc_unfold)
  next
    case None
    then have ff: "first_fit (hmem h) (heap_head h) ?n = Some (Ret None)" using ffc [OF rep] by simp
    have room': "current_heap_end h + ?n + 8192 < W64" using rb(2) room by simp
    from inv rep room' show ?thesis
    proof (cases rule: expand_heap_spec)
      case (oom h1)
      then have "h' = h1" "r = None" using k sz ff by (simp_all add: kmalloc_unfold)
      then show ?thesis using null oom(1) fit None by simp
    next
      case (grown h1)
      let ?b = "current_heap_end h"
      have step: "kmalloc h sz = kmalloc h1 (of_nat ?n)" using sz ff grown(1) by (subst kmalloc_unfold) simp_all
      have n: "?n < W64" "?n + 15 < W64" using room' by simp_all
      have un: "unat (of_nat ?n :: u64) = ?n" using n(1) by simp
      have rr: "round16 (of_nat ?n) = ?n" by (rule round16_round [OF rb(3) n(2)])
      have n0: "(of_nat ?n :: u64) \<noteq> 0" using un rb(1) sz by (metis le_zero_eq unat_0 unat_eq_zero)
      have "find (fits h1 ?n) bs = None" using None grown(7) unfolding find_None_iff fits_def by auto
      then have "find (fits h1 ?n) (bs @ [?b]) = Some ?b" using grown(4,5) by (simp add: find_snoc fits_def)
      then have "r \<noteq> None" "vm h' = vm h1" "current_heap_end h' = current_heap_end h1"
        using k step ffc [OF grown(3)] rr n0 by (auto simp: kmalloc_unfold)
      then show ?thesis using expanded grown(1) fit None by blast
    qed
  qed
qed

text \<open>With memory for the request, and \<open>p\<close> pages more, it is served and the \<open>p\<close> pages remain.\<close>

lemma kmalloc_memory:
  assumes inv: "heap_inv h" and sz: "sz \<noteq> 0" and grow: "heap_can_grow h sz" and k: "kmalloc h sz = Some (Ret r, h')"
    and mem: "has_fit h (round16 sz) \<and> memory_for h p \<or> memory_for h (pages_for (round16 sz) + p)"
  shows "r \<noteq> None" "memory_for h' p"
proof -
  let ?n = "round16 sz" and ?s = "current_heap_end h" and ?r = "kernel_pml4_phys (vm h)"
  have room: "?s + unat sz + 16384 < W64" using grow by (simp add: heap_can_grow_def)
  then have sz15: "unat sz + 15 < W64" by simp
  have room': "?s + ?n + 8192 < W64" using round16_bounds(2) [OF sz15] room by simp
  have lt: "?s + pages_for ?n * 4096 < W64" using pages_for_bounds(2) [of ?n] room' by simp
  have tree: "tree_ok (vm h) ?r" using inv by (simp add: heap_inv_def)
  have "r \<noteq> None \<and> memory_for h' p" using inv sz grow k
  proof (cases rule: kmalloc_runs)
    case found
    then show ?thesis using mem memory_for_mono memory_for_cong [of h' h] by auto
  next
    case (expanded h1)
    then have m: "memory_for h (pages_for ?n + p)" using mem by blast
    let ?I = "heap_rows ?s (pages_for ?n + p)"
    have nh: "no_huge ?I (vm h) ?r" "4 * (pages_for ?n + p) \<le> pmm_room (frames (vm h))" using m by (simp_all add: memory_for_def)
    have rows: "heap_rows ?s (pages_for ?n) \<subseteq> ?I" "heap_rows (?s + pages_for ?n * 4096) p \<subseteq> ?I" by (rule heap_rows_mono; simp)+
    obtain v' where v': "expand_pages (pages_for ?n) (vm h) ?s = (True, v', ?s + pages_for ?n * 4096)" "no_huge ?I v' ?r"
        "pmm_room (frames (vm h)) \<le> 4 * pages_for ?n + pmm_room (frames v')"
      using expand_pages_ready [OF tree nh(1) heap_rows_range rows(1) lt] nh(2) by auto
    obtain ok v1 j where ex: "expand_pages (pages_for ?n) (vm h) ?s = (ok, v1, ?s + j * 4096)" "ok \<longleftrightarrow> j = pages_for ?n"
        "ok \<Longrightarrow> vm h1 = v1 \<and> current_heap_end h1 = ?s + j * 4096"
      using expand_heap_runs [OF inv room' expanded(3)] by metis
    have h1: "vm h1 = v'" "current_heap_end h1 = ?s + pages_for ?n * 4096" using v'(1) ex by auto
    have ge: "HEAP_START_VADDR \<le> ?s" "4096 dvd ?s" using inv heap_end_ge by (auto simp: heap_inv_def)
    have "kernel_pml4_phys v' = ?r" using expand_pages_spec [OF tree v'(1) ge(2,1) lt] by simp
    then have "memory_for h1 p" unfolding memory_for_def h1
      using v'(3) nh(2) no_huge_mono [OF v'(2) rows(2)] by simp
    then show ?thesis using expanded(2,4,5) memory_for_cong [of h' h1] by simp
  next
    case null
    then have m: "memory_for h (pages_for ?n)" using mem memory_for_mono le_add1 by blast
    have nh: "no_huge (heap_rows ?s (pages_for ?n)) (vm h) ?r" "4 * pages_for ?n \<le> pmm_room (frames (vm h))" using m by (simp_all add: memory_for_def)
    obtain v' where "expand_pages (pages_for ?n) (vm h) ?s = (True, v', ?s + pages_for ?n * 4096)"
      using expand_pages_ready [OF tree nh(1) heap_rows_range order_refl lt nh(2)] by blast
    moreover obtain ok v1 j where "expand_pages (pages_for ?n) (vm h) ?s = (ok, v1, ?s + j * 4096)" "\<not> ok"
      using expand_heap_runs [OF inv room' null(3)] by metis
    ultimately show ?thesis by simp
  qed
  then show "r \<noteq> None" "memory_for h' p" by simp_all
qed

text \<open>A request that fails leaves the blocks as they are, maps nothing and leaks no frame.\<close>

definition nothing_left :: "heap_state \<Rightarrow> nat \<Rightarrow> heap_state \<Rightarrow> bool" where
  "nothing_left h p h' \<longleftrightarrow> h' = h\<lparr>vm := vm h'\<rparr> \<and> kernel_pml4_phys (vm h') = kernel_pml4_phys (vm h) \<and>
     (\<forall>va. walk (vm h') (kernel_pml4_phys (vm h)) (page_path va) = walk (vm h) (kernel_pml4_phys (vm h)) (page_path va) \<or>
        walk (vm h') (kernel_pml4_phys (vm h)) (page_path va) = Unmapped \<and>
        page_path va \<in> range_paths (current_heap_end h) (current_heap_end h + p * 4096)) \<and>
     (\<forall>f. pmm_owns_page (frames (vm h)) f \<longrightarrow> pmm_owns_page (frames (vm h')) f) \<and>
     (\<forall>f. pmm_owns_page (frames (vm h')) f \<longrightarrow>
        pmm_owns_page (frames (vm h)) f \<or> table_of (vm h') (kernel_pml4_phys (vm h)) f)"

text \<open>The pages an expansion mapped are ready to be rolled back.\<close>

lemma rollback_ready:
  assumes inv: "heap_inv h" and lt: "current_heap_end h + p * 4096 < W64"
    and ex: "expand_pages p (vm h) (current_heap_end h) = (ok, v1, current_heap_end h + j * 4096)" "j \<le> p"
  shows "tree_ok v1 (kernel_pml4_phys (vm h))" "kernel_pml4_phys v1 = kernel_pml4_phys (vm h)" "4096 dvd current_heap_end h"
    "HEAP_START_VADDR \<le> current_heap_end h" "current_heap_end h + j * 4096 < W64"
    "\<forall>q \<in> range_paths (current_heap_end h) (current_heap_end h + j * 4096).
       \<exists>y. walk v1 (kernel_pml4_phys (vm h)) q = Page y \<and> 0x4800000 \<le> y AND PAGE_MASK \<and> \<not> table_of v1 (kernel_pml4_phys (vm h)) (y AND PAGE_MASK)"
proof -
  let ?s = "current_heap_end h" and ?r = "kernel_pml4_phys (vm h)"
  have tree: "tree_ok (vm h) ?r" "4096 dvd ?s" using inv by (simp_all add: heap_inv_def)
  have ge: "HEAP_START_VADDR \<le> ?s" using inv heap_end_ge by (auto simp: heap_inv_def)
  note es = expand_pages_spec [OF tree(1) ex(1) tree(2) ge lt]
  note ed = expandedD [OF expand_pages_expanded [OF tree(1) ex(1) tree(2) ge lt]]
  have "?s + j * 4096 \<le> ?s + p * 4096" using ex(2) by simp
  then show "?s + j * 4096 < W64" using lt by (rule le_less_trans)
  show "tree_ok v1 ?r" "kernel_pml4_phys v1 = ?r" "4096 dvd ?s" "HEAP_START_VADDR \<le> ?s" using es tree(2) ge by simp_all
  show "\<forall>q \<in> range_paths ?s (?s + j * 4096). \<exists>y. walk v1 ?r q = Page y \<and> 0x4800000 \<le> y AND PAGE_MASK \<and> \<not> table_of v1 ?r (y AND PAGE_MASK)"
  proof
    fix q
    assume q: "q \<in> range_paths ?s (?s + j * 4096)"
    obtain a where a: "q = page_path (of_nat a)" "?s \<le> a" "a < ?s + j * 4096" using q by (rule range_pathsE)
    have "owned_page v1 ?r a" using es a(2,3) by blast
    then show "\<exists>y. walk v1 ?r q = Page y \<and> 0x4800000 \<le> y AND PAGE_MASK \<and> \<not> table_of v1 ?r (y AND PAGE_MASK)"
      using ed(2) [OF q] unfolding owned_page_def table_of_def a(1) by fastforce
  qed
qed

lemma kmalloc_null:
  assumes inv: "heap_inv h" and sz: "sz \<noteq> 0" and grow: "heap_can_grow h sz" and k: "kmalloc h sz = Some (Ret None, h')"
  shows "heap_exhausted h sz" "nothing_left h (pages_for (round16 sz)) h'"
proof -
  let ?n = "round16 sz" and ?s = "current_heap_end h" and ?r = "kernel_pml4_phys (vm h)"
  have room: "?s + unat sz + 16384 < W64" using grow by (simp add: heap_can_grow_def)
  then have sz15: "unat sz + 15 < W64" by simp
  have room': "?s + ?n + 8192 < W64" using round16_bounds(2) [OF sz15] room by simp
  have lt: "?s + pages_for ?n * 4096 < W64" using pages_for_bounds(2) [of ?n] room' by simp
  have tree: "tree_ok (vm h) ?r" "4096 dvd ?s" using inv by (simp_all add: heap_inv_def)
  have ge: "HEAP_START_VADDR \<le> ?s" using inv heap_end_ge by (auto simp: heap_inv_def)
  have e: "expand_heap h ?n = Some (None, h')" "\<not> has_fit h ?n" using inv sz grow k by (cases rule: kmalloc_runs; simp)+
  have "\<not> memory_for h (pages_for ?n)" using kmalloc_memory(1) [OF inv sz grow k, of 0] by auto
  with e(2) show "heap_exhausted h sz" by (simp add: heap_exhausted_def)
  obtain ok v1 j where ex: "expand_pages (pages_for ?n) (vm h) ?s = (ok, v1, ?s + j * 4096)" "j \<le> pages_for ?n"
      "h' = h\<lparr>vm := rollback_pages j v1 ?s\<rparr>"
    using expand_heap_runs [OF inv room' e(1)] by metis
  note es = expand_pages_spec [OF tree(1) ex(1) tree(2) ge lt]
  note ed = expandedD [OF expand_pages_expanded [OF tree(1) ex(1) tree(2) ge lt]]
  note rr = rollback_ready [OF inv lt ex(1,2)]
  note rb = rollback_pages_exact [OF rr]
  have jl: "?s + j * 4096 \<le> ?s + pages_for ?n * 4096" using ex(2) by simp
  have t1: "tree_ok v1 ?r" "kernel_pml4_phys v1 = ?r" by (rule rr)+
  have tb: "table_of (rollback_pages j v1 ?s) ?r f \<longleftrightarrow> table_of v1 ?r f" for f using rb unfolding table_of_def by metis
  have sub: "range_paths ?s (?s + j * 4096) \<subseteq> range_paths ?s (?s + pages_for ?n * 4096)"
    unfolding range_paths_def by (rule image_mono) (use jl in simp)
  have data: "data_page v1 (kernel_pml4_phys v1) a" if "?s \<le> a" "a < ?s + j * 4096" for a
    using es that owned_data t1(2) by simp
  have "kernel_pml4_phys (rollback_pages j v1 ?s) = ?r"
    using rollback_pages_spec [OF _ data tree(2) ge] t1 jl lt by simp
  moreover have "walk (rollback_pages j v1 ?s) ?r (page_path va) = walk (vm h) ?r (page_path va) \<or>
      walk (rollback_pages j v1 ?s) ?r (page_path va) = Unmapped \<and> page_path va \<in> range_paths ?s (?s + pages_for ?n * 4096)" for va
    using rb sub ed(1) [of va] by (cases "page_path va \<in> range_paths ?s (?s + j * 4096)") auto
  moreover have "pmm_owns_page (frames (rollback_pages j v1 ?s)) f" if "pmm_owns_page (frames (vm h)) f" for f
    using rb ed(2) ed(3) [OF that] that by fastforce
  moreover have "pmm_owns_page (frames (vm h)) f \<or> table_of (rollback_pages j v1 ?s) ?r f"
    if "pmm_owns_page (frames (rollback_pages j v1 ?s)) f" for f
    using rb ed(5) [of f] that tb by blast
  ultimately show "nothing_left h (pages_for ?n) h'" unfolding nothing_left_def ex(3) by simp
qed

text \<open>The tables of the kernel stay where they are, and new ones are frames that were free.\<close>

definition tables_grown :: "u64 \<Rightarrow> vmm_state \<Rightarrow> vmm_state \<Rightarrow> bool" where
  "tables_grown r v v' \<longleftrightarrow>
     (\<forall>q f. idx_ok q \<longrightarrow> length q \<le> 3 \<longrightarrow> node v r q = Some f \<longrightarrow> node v' r q = Some f) \<and>
     (\<forall>q f. idx_ok q \<longrightarrow> length q \<le> 3 \<longrightarrow> node v' r q = Some f \<longrightarrow> node v r q = Some f \<or> \<not> pmm_owns_page (frames v) f)"

lemma tables_grown_trans:
  assumes a: "tables_grown r u v" and b: "tables_grown r v w" and o: "\<And>b. pmm_owns_page (frames u) b \<Longrightarrow> pmm_owns_page (frames v) b"
  shows "tables_grown r u w"
  unfolding tables_grown_def
proof (intro conjI allI impI)
  fix q f
  assume q: "idx_ok q" "length q \<le> 3"
  show "node w r q = Some f" if n: "node u r q = Some f"
  proof -
    have "node v r q = Some f" using a q n unfolding tables_grown_def by blast
    then show ?thesis using b q unfolding tables_grown_def by blast
  qed
  show "node u r q = Some f \<or> \<not> pmm_owns_page (frames u) f" if n: "node w r q = Some f"
  proof -
    have "node v r q = Some f \<or> \<not> pmm_owns_page (frames v) f" using b q n unfolding tables_grown_def by blast
    then show ?thesis
    proof
      assume "node v r q = Some f"
      then show ?thesis using a q unfolding tables_grown_def by blast
    qed (use o in blast)
  qed
qed

lemma alloc_walk_grown:
  assumes tree: "tree_ok v root" and m: "alloc_walk v va flags root = (ok, v')"
  shows "tables_grown root v v'"
  unfolding tables_grown_def
proof (intro conjI allI impI)
  fix q f
  assume q: "idx_ok q" "length q \<le> 3"
  show "node v' root q = Some f" if "node v root q = Some f" by (rule alloc_walk_tables(2) [OF tree m q that])
  show "node v root q = Some f \<or> \<not> pmm_owns_page (frames v) f" if "node v' root q = Some f"
    by (rule alloc_walk_spec(7) [OF tree m q that])
qed

lemma expand_pages_tables:
  assumes "tree_ok v (kernel_pml4_phys v)" "expand_pages k v e = (ok, v', e')"
  shows "tables_grown (kernel_pml4_phys v) v v'"
  using assms
proof (induction k arbitrary: v e)
  case (Suc k)
  let ?r = "kernel_pml4_phys v"
  obtain ok1 v1 where s: "vmm_alloc_page_kernel v (of_nat e) 3 = (ok1, v1)" by fastforce
  note st = alloc_kernel_step(1,2) [OF Suc.prems(1) s]
  have aw: "alloc_walk v (of_nat e) 3 ?r = (ok1, v1)" using s kernel_root_nonzero [OF Suc.prems(1)] by (simp add: alloc_page_walks)
  note g1 = alloc_walk_grown [OF Suc.prems(1) aw]
  show ?case
  proof (cases ok1)
    case True
    then have rest: "expand_pages k v1 ((e + 4096) mod W64) = (ok, v', e')" using Suc.prems(2) s by simp
    have "tables_grown ?r v1 v'" using Suc.IH [OF _ rest] st by simp
    then show ?thesis by (rule tables_grown_trans [OF g1]) (rule alloc_walk_spec(5) [OF Suc.prems(1) aw])
  next
    case False
    then show ?thesis using Suc.prems(2) s g1 by simp
  qed
qed (simp add: tables_grown_def)

lemma kmalloc_tables:
  assumes inv: "heap_inv h" and sz: "sz \<noteq> 0" and grow: "heap_can_grow h sz" and k: "kmalloc h sz = Some (Ret r, h')"
  shows "tables_grown (kernel_pml4_phys (vm h)) (vm h) (vm h')" "kernel_pml4_phys (vm h') = kernel_pml4_phys (vm h)"
    "pmm_owns_page (frames (vm h)) b \<Longrightarrow> pmm_owns_page (frames (vm h')) b"
proof -
  let ?n = "round16 sz" and ?s = "current_heap_end h" and ?r = "kernel_pml4_phys (vm h)"
  have room: "?s + unat sz + 16384 < W64" using grow by (simp add: heap_can_grow_def)
  then have sz15: "unat sz + 15 < W64" by simp
  have room': "?s + ?n + 8192 < W64" using round16_bounds(2) [OF sz15] room by simp
  have lt: "?s + pages_for ?n * 4096 < W64" using pages_for_bounds(2) [of ?n] room' by simp
  have tree: "tree_ok (vm h) ?r" "4096 dvd ?s" using inv by (simp_all add: heap_inv_def)
  have ge: "HEAP_START_VADDR \<le> ?s" using inv heap_end_ge by (auto simp: heap_inv_def)
  have "tables_grown ?r (vm h) (vm h') \<and> kernel_pml4_phys (vm h') = ?r \<and> (pmm_owns_page (frames (vm h)) b \<longrightarrow> pmm_owns_page (frames (vm h')) b)"
    using inv sz grow k
  proof (cases rule: kmalloc_runs)
    case found
    then show ?thesis by (simp add: tables_grown_def)
  next
    case (expanded h1)
    obtain ok v1 j where ex: "expand_pages (pages_for ?n) (vm h) ?s = (ok, v1, ?s + j * 4096)" "vm h1 = v1"
      using expand_heap_runs [OF inv room' expanded(3)] by (metis option.discI)
    then show ?thesis unfolding expanded(4) ex(2)
      using expand_pages_tables [OF tree(1) ex(1)] expand_pages_spec [OF tree(1) ex(1) tree(2) ge lt]
        expandedD(3) [OF expand_pages_expanded [OF tree(1) ex(1) tree(2) ge lt]] by blast
  next
    case null
    have nl: "nothing_left h (pages_for ?n) h'" using kmalloc_null(2) [OF inv sz grow] k null(2) by simp
    obtain ok v1 j where ex: "expand_pages (pages_for ?n) (vm h) ?s = (ok, v1, ?s + j * 4096)" "j \<le> pages_for ?n"
        "h' = h\<lparr>vm := rollback_pages j v1 ?s\<rparr>"
      using expand_heap_runs [OF inv room' null(3)] by metis
    have "node (rollback_pages j v1 ?s) ?r q = node v1 ?r q" if "idx_ok q" "length q \<le> 3" for q
      using rollback_pages_exact [OF rollback_ready [OF inv lt ex(1,2)]] that by blast
    then show ?thesis using nl expand_pages_tables [OF tree(1) ex(1)] unfolding nothing_left_def ex(3) tables_grown_def by simp
  qed
  then show "tables_grown ?r (vm h) (vm h')" "kernel_pml4_phys (vm h') = ?r" "pmm_owns_page (frames (vm h)) b \<Longrightarrow> pmm_owns_page (frames (vm h')) b"
    by blast+
qed

text \<open>A served request takes at most four frames for each page of its block.\<close>

lemma kmalloc_room:
  assumes inv: "heap_inv h" and sz: "sz \<noteq> 0" and grow: "heap_can_grow h sz" and k: "kmalloc h sz = Some (Ret r, h')"
    and mem: "\<not> heap_exhausted h sz"
  shows "pmm_room (frames (vm h)) \<le> 4 * pages_for (round16 sz) + pmm_room (frames (vm h'))"
proof -
  let ?n = "round16 sz" and ?s = "current_heap_end h" and ?r = "kernel_pml4_phys (vm h)"
  have room: "?s + unat sz + 16384 < W64" using grow by (simp add: heap_can_grow_def)
  then have sz15: "unat sz + 15 < W64" by simp
  have room': "?s + ?n + 8192 < W64" using round16_bounds(2) [OF sz15] room by simp
  have lt: "?s + pages_for ?n * 4096 < W64" using pages_for_bounds(2) [of ?n] room' by simp
  have tree: "tree_ok (vm h) ?r" using inv by (simp add: heap_inv_def)
  show ?thesis using inv sz grow k
  proof (cases rule: kmalloc_runs)
    case (expanded h1)
    then have "memory_for h (pages_for ?n)" using mem by (simp add: heap_exhausted_def)
    then have nh: "no_huge (heap_rows ?s (pages_for ?n)) (vm h) ?r" "4 * pages_for ?n \<le> pmm_room (frames (vm h))" by (simp_all add: memory_for_def)
    obtain v' where v': "expand_pages (pages_for ?n) (vm h) ?s = (True, v', ?s + pages_for ?n * 4096)"
        "pmm_room (frames (vm h)) \<le> 4 * pages_for ?n + pmm_room (frames v')"
      using expand_pages_ready [OF tree nh(1) heap_rows_range order_refl lt nh(2)] by blast
    obtain ok v1 j where "expand_pages (pages_for ?n) (vm h) ?s = (ok, v1, ?s + j * 4096)" "vm h1 = v1"
      using expand_heap_runs [OF inv room' expanded(3)] by (metis option.discI)
    then show ?thesis using v' expanded(4) by simp
  next
    case null
    then show ?thesis using mem kmalloc_null(1) [OF inv sz grow] k by simp
  qed simp
qed

lemma krealloc_memory:
  assumes inv: "heap_inv h" and sz: "sz \<noteq> 0" and grow: "heap_can_grow h sz" and k: "krealloc h (Some p) old sz = Some (Ret r, h')"
    and mem: "memory_for h (pages_for (round16 sz))"
  shows "r \<noteq> None"
proof -
  obtain q h1 where q: "kmalloc h sz = Some (Ret q, h1)"
    using kmalloc_spec [OF inv sz] grow unfolding heap_can_grow_def by blast
  have "q \<noteq> None" using kmalloc_memory(1) [OF inv sz grow q, of 0] mem by simp
  then show ?thesis using k q sz
    by (auto simp: krealloc_def Let_def bind_eq_Some_conv split: outcome.splits prod.splits) (metis old.unit.exhaust outcome.exhaust)
qed

lemma pages_for_mono: "m \<le> n \<Longrightarrow> pages_for m \<le> pages_for n"
proof -
  assume "m \<le> n"
  have "pages_for m * 4096 < m + HDR + 4096" "n + HDR \<le> pages_for n * 4096" by (rule pages_for_bounds)+
  then have "pages_for m * 4096 < (pages_for n + 1) * 4096" using \<open>m \<le> n\<close> by simp
  then show ?thesis by simp
qed

section \<open>A small machine with memory\<close>

lemma small_machine_room:
  assumes s: "pmm_init_dynamic small_memmap = Some s" and m: "map_walk (empty_vmm s) (of_nat HEAP_START_VADDR) 0x5000000 3 0x1000 = (True, v)"
  shows "no_huge {..<512} v 0x1000" "4000 \<le> pmm_room (frames v)" "kernel_pml4_phys v = 0x1000"
proof -
  obtain s' where s': "pmm_init_dynamic small_memmap = Some s'" "tree_ok (empty_vmm s') 0x1000" "pmm_inv s'"
    by (rule empty_vmm_state) blast
  obtain s2 where s2: "pmm_init_dynamic small_memmap = Some s2" "bitmap_pages s2 = 22528" "\<And>i. 18433 \<le> i \<Longrightarrow> i < 22528 \<Longrightarrow> i \<notin> used_set s2"
    by (rule small_pmm) blast
  have eq: "s' = s" "s2 = s" using s(1) s'(1) s2(1) by simp_all
  have tree: "tree_ok (empty_vmm s) 0x1000" using s'(2) eq by simp
  have "total_pages s = 22528" using s'(3) s2(2) eq by (auto elim: pmm_invE)
  then have "{18433..<22528} \<subseteq> {..<total_pages s} - used_set s" using s2(3) eq by auto
  then have "card {18433..<22528 :: nat} \<le> pmm_room s" unfolding pmm_room_def by (intro card_mono) auto
  then have room: "4003 \<le> pmm_room (frames (empty_vmm s))" by (simp add: empty_vmm_def)
  obtain w where w: "map_walk (empty_vmm s) (of_nat HEAP_START_VADDR) 0x5000000 3 0x1000 = (True, w)" "no_huge {..<512} w 0x1000"
      "pmm_room (frames (empty_vmm s)) \<le> 3 + pmm_room (frames w)"
    by (rule map_walk_ready [OF tree no_huge_empty order_refl]) (use room IDX_less(1) in auto)
  have "w = v" using w(1) m by simp
  then show "no_huge {..<512} v 0x1000" "4000 \<le> pmm_room (frames v)" using w(2,3) room by simp_all
  show "kernel_pml4_phys v = 0x1000" by (subst map_walk_spec(6) [OF tree m]) (simp add: empty_vmm_def)
qed

lemma one_block_memory:
  obtains v where "heap_inv (one_block_heap v)" "live (one_block_heap v) = {(HEAP_START_VADDR + HDR, 4064)}"
    "heap_can_grow (one_block_heap v) 100" "memory_for (one_block_heap v) 1000" "tree_ok v 0x1000"
    "\<And>va. page_path va \<noteq> page_path (of_nat HEAP_START_VADDR) \<Longrightarrow> walk v 0x1000 (page_path va) = Unmapped"
proof -
  obtain v where v: "heap_inv (one_block_heap v)" "heap_can_grow (one_block_heap v) 100" "tree_ok v 0x1000"
      "\<And>va. page_path va \<noteq> page_path (of_nat HEAP_START_VADDR) \<Longrightarrow> walk v 0x1000 (page_path va) = Unmapped"
      "\<exists>s. pmm_init_dynamic small_memmap = Some s \<and> map_walk (empty_vmm s) (of_nat HEAP_START_VADDR) 0x5000000 3 0x1000 = (True, v)"
    by (rule one_block_heap_state) blast
  have r: "no_huge {..<512} v 0x1000" "4000 \<le> pmm_room (frames v)" "kernel_pml4_phys v = 0x1000"
    using small_machine_room v(5) by blast+
  have "memory_for (one_block_heap v) 1000"
    using r no_huge_mono [OF r(1) heap_rows_range] by (simp add: memory_for_def one_block_heap_def)
  moreover have "heap_rep (one_block_heap v) [HEAP_START_VADDR]" by (simp add: heap_rep_def one_block_heap_def)
  from live_rep [OF this] have "live (one_block_heap v) = {(HEAP_START_VADDR + HDR, 4064)}" by (simp add: one_block_heap_def)
  ultimately show thesis using that v(1-4) by blast
qed

section \<open>Property\<close>

text \<open>
  C2. \<open>kmalloc\<close> always returns on a sound heap, without a panic: either a 16-byte aligned pointer to
  a region of at least the requested size that lies inside the mapped heap and overlaps no
  region handed out before, or null. It is null only when no free block fits and there is no
  memory for the pages of a new block; then the blocks, the end of the heap and the allocated
  regions are as before, every kernel address translates as before (a page past the end of
  the heap may have become unmapped), and every frame still taken by the attempt is a page
  table. The heap stays sound and no payload byte is written.
\<close>

theorem kmalloc_correct:
  assumes "heap_inv h" "sz \<noteq> 0" "heap_can_grow h sz"
  shows "\<exists>r h'. kmalloc h sz = Some (Ret r, h') \<and> heap_inv h' \<and> hbytes h' = hbytes h \<and>
    (case r of
       None \<Rightarrow> live h' = live h \<and> heap_exhausted h sz \<and> nothing_left h (pages_for (round16 sz)) h'
     | Some p \<Rightarrow> \<exists>n \<ge> unat sz. live h' = insert (p, n) (live h) \<and> 16 dvd p \<and>
         (\<forall>(q, m) \<in> live h. p + n \<le> q \<or> q + m \<le> p) \<and>
         (\<forall>a. p \<le> a \<longrightarrow> a < p + n \<longrightarrow>
            (\<exists>e. walk (vm h') (kernel_pml4_phys (vm h')) (page_path (of_nat a)) = Page e)))"
proof -
  obtain r h' where k: "kmalloc h sz = Some (Ret r, h')" "heap_inv h'" "hbytes h' = hbytes h"
      "case r of None \<Rightarrow> live h' = live h
       | Some p \<Rightarrow> \<exists>n. round16 sz \<le> n \<and> live h' = insert (p, n) (live h) \<and> (\<forall>n'. (p, n') \<notin> live h)"
    using kmalloc_spec [OF assms(1,2)] assms(3) unfolding heap_can_grow_def by blast
  have "unat sz \<le> round16 sz" using assms(3) by (intro round16_bounds(1)) (simp add: heap_can_grow_def)
  then have "\<exists>n \<ge> unat sz. live h' = insert (p, n) (live h) \<and> 16 dvd p \<and>
         (\<forall>(q, m) \<in> live h. p + n \<le> q \<or> q + m \<le> p) \<and>
         (\<forall>a. p \<le> a \<longrightarrow> a < p + n \<longrightarrow>
            (\<exists>e. walk (vm h') (kernel_pml4_phys (vm h')) (page_path (of_nat a)) = Page e))" if "r = Some p" for p
  proof -
    obtain n where n: "round16 sz \<le> n" "live h' = insert (p, n) (live h)" "\<forall>n'. (p, n') \<notin> live h"
      using k(4) \<open>r = Some p\<close> by auto
    then have pn: "(p, n) \<in> live h'" by simp
    have "p + n \<le> q \<or> q + m \<le> p" if "(q, m) \<in> live h" for q m
      by (rule kheap.apart [OF k(2) pn]) (use n that in auto)
    moreover have "\<exists>e. walk (vm h') (kernel_pml4_phys (vm h')) (page_path (of_nat a)) = Page e"
      if "p \<le> a" "a < p + n" for a
      using k(2) live_region(1,2) [OF k(2) pn] that by (simp add: heap_inv_def heap_mapped_def)
    ultimately show ?thesis using n live_region(3) [OF k(2) pn] \<open>unat sz \<le> round16 sz\<close>
      by (intro exI [of _ n]) auto
  qed
  moreover have "heap_exhausted h sz \<and> nothing_left h (pages_for (round16 sz)) h'" if "r = None"
    using kmalloc_null [OF assms] k(1) that by blast
  ultimately show ?thesis using k by (auto split: option.splits)
qed

theorem kmalloc_correct_witness:
  "\<exists>v p n h'. kmalloc (one_block_heap v) 100 = Some (Ret (Some p), h') \<and> heap_inv h' \<and> 100 \<le> n \<and>
     live h' = {(p, n), (HEAP_START_VADDR + HDR, 4064)} \<and> (p + n \<le> HEAP_START_VADDR + HDR \<or> HEAP_START_VADDR + HDR + 4064 \<le> p)"
proof -
  obtain v where v: "heap_inv (one_block_heap v)" "live (one_block_heap v) = {(HEAP_START_VADDR + HDR, 4064)}"
      "heap_can_grow (one_block_heap v) 100" "memory_for (one_block_heap v) 1000"
    by (rule one_block_memory) blast
  have "pages_for (round16 100) = 1" by (simp add: pages_for_def round16_def)
  then have "\<not> heap_exhausted (one_block_heap v) 100"
    using memory_for_mono [OF v(4), of 1] by (simp add: heap_exhausted_def)
  with kmalloc_correct [OF v(1) _ v(3)] v(2) show ?thesis by (fastforce split: option.splits)
qed

end
