(* ===== verification/User_Alloc.thy ===== *)
theory User_Alloc
  imports Page_Room Heap_Memory
begin

text \<open>
  Allocation in the user heap of a task whose address space stands beside the kernel's: its user
  half is its own and its kernel half is the kernel's. Allocating the node of a region then keeps the
  user pages, the pages are mapped whenever there is memory for them, and a failed attempt gives
  every frame back but those that became page tables.
\<close>

section \<open>An address space beside the kernel\<close>

text \<open>Its user half is its own, and the entries of its kernel half lead to the kernel's tables.\<close>

definition beside_kernel :: "vmm_state \<Rightarrow> u64 \<Rightarrow> bool" where
  "beside_kernel v root \<longleftrightarrow> own_half v root \<and>
     (\<forall>i. 256 \<le> i \<longrightarrow> i < 512 \<longrightarrow> node v root [i] = None \<or> node v root [i] = node v (kernel_pml4_phys v) [i])"

lemma node_Cons: "node v f (i # q) = (case node v f [i] of None \<Rightarrow> None | Some g \<Rightarrow> node v g q)"
  by simp

lemma own_tables:
  assumes "own_half v root" "idx_ok q" "length q \<le> 3" "node v root q = Some f" "q = [] \<or> hd q < 256"
  shows "user_table v root f" "pmm_owns_page (frames v) f" "off_kernel v f"
proof -
  show u: "user_table v root f" using assms(2-5) by (cases q) (auto simp: user_table_def simp del: node.simps(2))
  then show "pmm_owns_page (frames v) f" "off_kernel v f" using assms(1) by (auto simp: own_half_def)
qed

text \<open>A state of the page tables after kernel memory was taken.\<close>

definition kernel_growth :: "u64 \<Rightarrow> vmm_state \<Rightarrow> vmm_state \<Rightarrow> bool" where
  "kernel_growth root v v' \<longleftrightarrow> beside_kernel v root \<and> tree_ok v' (kernel_pml4_phys v) \<and>
     (\<forall>b. pmm_owns_page (frames v) b \<longrightarrow> pmm_owns_page (frames v') b) \<and>
     tables_grown (kernel_pml4_phys v) v v' \<and>
     (\<forall>f j. user_table v root f \<longrightarrow> j < 512 \<longrightarrow> rd v' f j = rd v f j)"

lemma kernel_growthD:
  assumes "kernel_growth root v v'"
  shows "beside_kernel v root" "own_half v root" "tree_ok v' (kernel_pml4_phys v)"
    "pmm_owns_page (frames v) b \<Longrightarrow> pmm_owns_page (frames v') b"
    "tables_grown (kernel_pml4_phys v) v v'" "user_table v root f \<Longrightarrow> j < 512 \<Longrightarrow> rd v' f j = rd v f j"
  using assms unfolding kernel_growth_def beside_kernel_def by blast+

lemma low_node:
  assumes g: "kernel_growth root v v'" and path: "idx_ok q" "length q \<le> 4" "q = [] \<or> hd q < 256"
  shows "node v' root q = node v root q"
proof (rule node_cong)
  fix r j s h
  assume q: "q = r @ j # s" and n: "node v root r = Some h"
  have "idx_ok r" "length r \<le> 3" "j < 512" "r = [] \<or> hd r < 256" using path q by (cases r; auto)+
  then show "rd v' h j = rd v h j" using kernel_growthD(6) [OF g] own_tables(1) [OF kernel_growthD(2) [OF g]] n by blast
qed

lemma high_node:
  assumes kg: "kernel_growth root v v'" and path: "256 \<le> i" "i < 512" "idx_ok q" "length q \<le> 2" "node v' root (i # q) = Some f"
  shows "node v' (kernel_pml4_phys v) (i # q) = Some f"
    "node v root (i # q) = Some f \<or> \<not> pmm_owns_page (frames v) f"
proof -
  let ?k = "kernel_pml4_phys v"
  have rt: "rd v' root i = rd v root i" using kernel_growthD(6) [OF kg] path(2) by (simp add: user_table_def)
  then have one: "node v' root [i] = node v root [i]" by simp
  obtain g where g: "node v' root [i] = Some g" "node v' g q = Some f"
    using trans [OF node_Cons [symmetric] path(5)] by (auto split: option.splits simp del: node.simps)
  have k: "node v ?k [i] = Some g" using kernel_growthD(1) [OF kg] path(1,2) g(1) one unfolding beside_kernel_def by (metis option.discI)
  then have k': "node v' ?k [i] = Some g" using kernel_growthD(5) [OF kg] path(2) unfolding tables_grown_def by (auto simp del: node.simps)
  show kf: "node v' ?k (i # q) = Some f" by (subst node_Cons) (use k' g(2) in \<open>simp del: node.simps\<close>)
  have "node v ?k (i # q) = Some f \<or> \<not> pmm_owns_page (frames v) f"
    using kernel_growthD(5) [OF kg] path(2-4) kf unfolding tables_grown_def by (auto simp del: node.simps)
  moreover have "node v root (i # q) = node v ?k (i # q)"
    by (subst (1 2) node_Cons) (use k g(1) one in \<open>simp del: node.simps\<close>)
  ultimately show "node v root (i # q) = Some f \<or> \<not> pmm_owns_page (frames v) f" by simp
qed

lemma old_or_new:
  assumes kg: "kernel_growth root v v'" and path: "idx_ok q" "length q \<le> 3" "node v' root q = Some f"
  shows "node v root q = Some f \<or> \<not> pmm_owns_page (frames v) f"
proof (cases q)
  case (Cons i p)
  then show ?thesis using high_node(2) [OF kg, of i p f] low_node [OF kg, of q] path by (cases "i < 256") (auto simp del: node.simps)
qed (use path in simp)

text \<open>A node is one of the user half, as before, or a node of the kernel at the same place.\<close>

lemma low_or_kernel:
  assumes kg: "kernel_growth root v v'" and path: "idx_ok q" "length q \<le> 3" "node v' root q = Some f"
  obtains "node v root q = Some f" "pmm_owns_page (frames v) f" "off_kernel v f"
    | "node v' (kernel_pml4_phys v) q = Some f"
proof (cases "q = [] \<or> hd q < 256")
  case True
  have n: "node v root q = Some f" using low_node [OF kg path(1) _ True] path by simp
  then show thesis using that(1) own_tables [OF kernel_growthD(2) [OF kg] path(1,2) n True] by blast
next
  case False
  then obtain i p where "q = i # p" "256 \<le> i" by (cases q) (auto simp: not_less)
  then show thesis using that(2) high_node(1) [OF kg, of i p f] path by (simp del: node.simps)
qed

lemma growth_tree:
  assumes kg: "kernel_growth root v v'" and tree: "tree_ok v root"
  shows "tree_ok v' root"
  unfolding tree_ok_def
proof (intro conjI allI impI)
  show "pmm_inv (frames v')" using kernel_growthD(3) [OF kg] by (rule tree_pmm)
  show "\<not> huge (rd v' root i)" if "i < 512" for i
    using kernel_growthD(6) [OF kg, of root i] tree that by (simp add: user_table_def tree_ok_def)
  show "pmm_owns_page (frames v') f" if "length p \<le> 3" "idx_ok p" "node v' root p = Some f" for p f
    by (rule low_or_kernel [OF kg that(2,1,3)]) (use kernel_growthD(4) [OF kg] tree_owned [OF kernel_growthD(3) [OF kg] that(1,2)] in auto)
  fix p q f
  assume p: "length p \<le> 3" "length q \<le> 3" "idx_ok p" "idx_ok q" "node v' root p = Some f" "node v' root q = Some f"
  have clash: False if "node v' (kernel_pml4_phys v) r = Some f" "idx_ok r" "length r \<le> 3" "pmm_owns_page (frames v) f" "off_kernel v f" for r
    using kernel_growthD(5) [OF kg] that unfolding tables_grown_def off_kernel_def by blast
  show "p = q"
  proof (rule low_or_kernel [OF kg p(3,1,5)]; rule low_or_kernel [OF kg p(4,2,6)])
    assume "node v root p = Some f" "node v root q = Some f"
    then show ?thesis by (rule tree_inj [OF tree p(1,2,3,4)])
  next
    assume "node v' (kernel_pml4_phys v) p = Some f" "node v' (kernel_pml4_phys v) q = Some f"
    then show ?thesis by (rule tree_inj [OF kernel_growthD(3) [OF kg] p(1,2,3,4)])
  qed (use clash p in blast)+
qed

lemma growth_no_huge:
  assumes kg: "kernel_growth root v v'" and nh: "no_huge {..<256} v root"
  shows "no_huge {..<256} v' root"
  unfolding no_huge_def
proof (intro allI impI)
  fix i j :: u64 and q f
  assume a: "i \<in> {..<256}" "idx_ok q" "length q \<le> 1" "node v' root (i # q) = Some f" "j < 512"
  have i: "i < 512" using a(1) by (auto intro: less_trans)
  have n: "node v root (i # q) = Some f" using low_node [OF kg, of "i # q"] a i by (simp del: node.simps)
  have "user_table v root f" using own_tables(1) [OF kernel_growthD(2) [OF kg], of "i # q" f] n a i by (simp del: node.simps)
  then show "\<not> huge (rd v' f j)" using kernel_growthD(6) [OF kg] a(5) no_hugeD [OF nh a(1-3) n a(5)] by simp
qed

lemma kmalloc_growth:
  assumes inv: "heap_inv h" and sz: "sz \<noteq> 0" and grow: "heap_can_grow h sz" and k: "kmalloc h sz = Some (Ret r, h')"
    and beside: "beside_kernel (vm h) root"
  shows "kernel_growth root (vm h) (vm h')"
proof -
  note kt = kmalloc_tables [OF inv sz grow k]
  have "heap_inv h'" using kmalloc_spec [OF inv sz] grow k unfolding heap_can_grow_def by auto
  then have "tree_ok (vm h') (kernel_pml4_phys (vm h))" using kt(2) by (simp add: heap_inv_def)
  moreover have "rd (vm h') f j = rd (vm h) f j" if "user_table (vm h) root f" "j < 512" for f j
    using kmalloc_apart [OF inv sz grow k _ _ that(2)] that(1) beside by (simp add: beside_kernel_def own_half_def)
  ultimately show ?thesis unfolding kernel_growth_def using beside kt(1,3) by blast
qed

text \<open>The user pages of a task survive the allocation of a node.\<close>

lemma kmalloc_pages_ok:
  assumes inv: "heap_inv h" and sz: "sz \<noteq> 0" and grow: "heap_can_grow h sz" and k: "kmalloc h sz = Some (Ret r, h')"
    and beside: "beside_kernel (vm h) (utask_pml4 t)" and pok: "pages_ok t (vm h)"
  shows "pages_ok t (vm h')"
proof -
  let ?R = "utask_pml4 t"
  note kg = kmalloc_growth [OF inv sz grow k beside]
  have own: "own_half (vm h) ?R" using beside by (simp add: beside_kernel_def)
  have same: "walk (vm h') ?R (page_path (of_nat a)) = walk (vm h) ?R (page_path (of_nat a))" if "user_addr a" for a
    using kmalloc_user_half(1) [OF inv sz grow k own] low_page [OF that] by simp
  have "user_page (vm h') ?R (of_nat a)" if "user_addr a" "user_page (vm h) ?R (of_nat a)" for a
    by (rule user_page_keep [OF that(2) same [OF that(1)] kernel_growthD(4) [OF kg] old_or_new [OF kg]])
  moreover have "tree_ok (vm h') ?R" using growth_tree [OF kg] pok by (simp add: pages_ok_def)
  moreover have "frame_at (vm h') ?R (of_nat a) = frame_at (vm h) ?R (of_nat a)" if "user_addr a" for a
    using same [OF that] by (simp add: frame_at_def)
  ultimately show ?thesis using pok same unfolding pages_ok_def by (metis (full_types))
qed

section \<open>The frames of the mapping loop\<close>

lemma table_of_cong:
  "(\<And>q. idx_ok q \<Longrightarrow> length q \<le> 3 \<Longrightarrow> node v' root q = node v root q) \<Longrightarrow> table_of v' root b = table_of v root b"
  unfolding table_of_def by (metis (no_types, lifting))

text \<open>A frame taken by the loop is a table of the task or behind one of the pages that were mapped.\<close>

lemma map_user_pages_frames:
  assumes "tree_ok (vm h) root" "map_user_pages k h root brk i = (r, h')" "unat brk + (i + k) * 4096 \<le> 2 ^ 47"
  shows "(\<forall>b. table_of (vm h) root b \<longrightarrow> table_of (vm h') root b) \<and>
    (\<forall>b. pmm_owns_page (frames (vm h')) b \<longrightarrow> pmm_owns_page (frames (vm h)) b \<or> table_of (vm h') root b \<or>
       (\<exists>n. i \<le> n \<and> n < (case r of None \<Rightarrow> i + k | Some m \<Rightarrow> m) \<and> frame_at (vm h') root (pg brk n) = Some b))"
  using assms
proof (induction k arbitrary: h i)
  case (Suc k)
  obtain pa fr where a: "pmm_alloc_page (frames (vm h)) = (pa, fr)" by fastforce
  note st = map_user_step [OF Suc.prems(1) a]
  show ?case
  proof (cases "pa = PHYS_NULL")
    case True
    with a st(1) have "h' = h" using Suc.prems(2) by auto
    then show ?thesis by simp
  next
    case False
    obtain ok v2 where m: "vmm_map_page_into ((vm h)\<lparr>frames := fr\<rparr>) (pg brk i) pa 7 root = (ok, v2)" by fastforce
    note aw = st(2) [OF False m]
    note at = alloc_walk_tables [OF Suc.prems(1) aw, unfolded a fst_conv]
    show ?thesis
    proof (cases ok)
      case ok: False
      then have "vm h' = (if ok then v2 else vmm_free v2 pa)" using Suc.prems(2) a False m by (auto simp: pg_def)
      then show ?thesis using at(1,3) ok by auto
    next
      case True
      have aw': "alloc_walk (vm h) (pg brk i) 7 root = (True, v2)" using aw True by simp
      note one = map_user_one [OF Suc.prems(1) aw' a False]
      note sp = alloc_walk_spec [OF Suc.prems(1) aw']
      define h1 where "h1 = h\<lparr>vm := zero_frame v2 pa, hbytes := memset (unat (pg brk i)) 0 4096 (hbytes h)\<rparr>"
      have v1: "vm h1 = zero_frame v2 pa" by (simp add: h1_def)
      have pa: "\<forall>q. idx_ok q \<longrightarrow> length q \<le> 3 \<longrightarrow> node v2 root q \<noteq> Some pa" using sp(4) a by auto
      note z = zero_frame_spec [OF sp(1) pa]
      have t1: "tree_ok (vm h1) root" by (simp add: v1 one(1))
      have c: "map_user_pages k h1 root brk (Suc i) = (r, h')" using Suc.prems(2) a False m True by (simp add: pg_def h1_def)
      have bd: "unat brk + (Suc i + k) * 4096 \<le> 2 ^ 47" using Suc.prems(3) by simp
      have tb1: "table_of (vm h1) root b = table_of v2 root b" for b unfolding v1 by (rule table_of_cong) (rule z(2))
      from map_user_pages_spec [OF t1 c bd] obtain j where j: "j \<le> k" "r = (if j = k then None else Some (Suc i + j))"
          "\<And>x. \<forall>n. Suc i \<le> n \<longrightarrow> n < Suc i + j \<longrightarrow> page_path x \<noteq> page_path (pg brk n) \<Longrightarrow>
             walk (vm h') root (page_path x) = walk (vm h1) root (page_path x)"
        by blast
      have "page_path (pg brk i) \<noteq> page_path (pg brk n)" if "Suc i \<le> n" "n < Suc i + j" for n
        using pg_inject [of brk i n] that j(1) bd by simp
      then have here: "frame_at (vm h') root (pg brk i) = Some pa" using j(3) [of "pg brk i"] one(8) by (simp add: frame_at_def v1)
      have last: "(case r of None \<Rightarrow> Suc i + k | Some m \<Rightarrow> m) = Suc i + j" using j(2) by simp
      note I = Suc.IH [OF t1 c bd, unfolded last]
      have eq: "(case r of None \<Rightarrow> i + Suc k | Some m \<Rightarrow> m) = Suc i + j" using j(2) by simp
      have tm: "table_of (vm h') root b" if "table_of v2 root b" for b using I tb1 that by blast
      have "pmm_owns_page (frames (vm h)) b \<or> table_of (vm h') root b \<or> (\<exists>n. i \<le> n \<and> n < Suc i + j \<and> frame_at (vm h') root (pg brk n) = Some b)"
        if b: "pmm_owns_page (frames (vm h')) b" for b
      proof -
        consider "pmm_owns_page (frames (vm h1)) b" | "table_of (vm h') root b"
          | n where "Suc i \<le> n" "n < Suc i + j" "frame_at (vm h') root (pg brk n) = Some b"
          using I b by blast
        then show ?thesis
        proof cases
          case 1
          then have "pmm_owns_page (frames v2) b" using z(4) by (simp add: v1)
          then have "pmm_owns_page (frames (vm h)) b \<or> table_of v2 root b \<or> b = pa" using at(1) True by simp
          then show ?thesis using tm here by (metis le_add1 less_add_Suc1 order_refl add_Suc less_Suc_eq_le)
        next
          case (3 n)
          then have "i \<le> n \<and> n < Suc i + j \<and> frame_at (vm h') root (pg brk n) = Some b" by simp
          then show ?thesis by blast
        qed simp
      qed
      moreover have "table_of (vm h') root b" if "table_of (vm h) root b" for b using tm at(3) True that by simp
      ultimately show ?thesis unfolding eq by blast
    qed
  qed
qed simp

text \<open>
  Where the frames of a step went: none was lost, and each new one is a table of the task or is
  behind one of the user pages \<open>P\<close>.
\<close>

definition frames_accounted :: "u64 \<Rightarrow> (nat \<Rightarrow> bool) \<Rightarrow> vmm_state \<Rightarrow> vmm_state \<Rightarrow> bool" where
  "frames_accounted root P v v' \<longleftrightarrow>
     (\<forall>b. pmm_owns_page (frames v) b \<longrightarrow> pmm_owns_page (frames v') b) \<and>
     (\<forall>b. pmm_owns_page (frames v') b \<longrightarrow> pmm_owns_page (frames v) b \<or> table_of v' root b \<or>
        (\<exists>a. user_addr a \<and> P a \<and> frame_at v' root (of_nat a) = Some b))"

lemma low_path:
  assumes "unat va < 2 ^ 47" "unat base + n * 4096 < 2 ^ 47" "4096 dvd unat base"
  shows "page_path va = page_path (pg base n) \<longleftrightarrow> unat base + n * 4096 \<le> unat va \<and> unat va < unat base + n * 4096 + 4096"
proof -
  obtain x where x: "unat base = 4096 * x" using assms(3) by (elim dvdE)
  have u: "unat (pg base n) = 4096 * (x + n)" using assms(2) x by (subst unat_pg) simp_all
  have "unat va div 4096 < 2 ^ 36" "x + n < 2 ^ 36" using assms(1,2) x by (simp_all add: div_less_iff_less_mult)
  then have "page_path va = page_path (pg base n) \<longleftrightarrow> unat va div 4096 = x + n" unfolding page_path_number u by simp
  also have "\<dots> \<longleftrightarrow> 4096 * (x + n) \<le> unat va \<and> unat va < 4096 * (x + n) + 4096"
  proof
    assume e: "unat va div 4096 = x + n"
    have "unat va = 4096 * (unat va div 4096) + unat va mod 4096" by simp
    moreover have "unat va mod 4096 < 4096" by simp
    ultimately show "4096 * (x + n) \<le> unat va \<and> unat va < 4096 * (x + n) + 4096" unfolding e by linarith
  qed (rule div_nat_eqI, simp_all)
  finally show ?thesis using x by (simp add: mult.commute)
qed

lemma range_page:
  fixes a base :: nat
  assumes "base \<le> a" "a < base + k * 4096"
  obtains n where "n < k" "base + n * 4096 \<le> a" "a < base + n * 4096 + 4096"
proof (rule that [of "(a - base) div 4096"])
  show "(a - base) div 4096 < k" using assms by (simp add: div_less_iff_less_mult)
  have "(a - base) div 4096 * 4096 + (a - base) mod 4096 = a - base" "(a - base) mod 4096 < 4096" by simp_all
  then show "base + (a - base) div 4096 * 4096 \<le> a" "a < base + (a - base) div 4096 * 4096 + 4096" using assms(1) by linarith+
qed

text \<open>What the mapping loop leaves, when it ends and when it is undone.\<close>

lemma mapping_done:
  assumes lay: "layout t" and tree: "tree_ok (vm h) (utask_pml4 t)" and room: "unat (cur_brk t) + P * 4096 \<le> 0x40000000"
    and m: "map_user_pages P h (utask_pml4 t) (cur_brk t) 0 = (None, h')" and r: "rbase r = cur_brk t" "unat (rpages r) = P"
  shows "frames_accounted (utask_pml4 t) (in_region r) (vm h) (vm h')"
    "unat va < 2 ^ 47 \<Longrightarrow> \<not> in_region r (unat va) \<Longrightarrow>
       walk (vm h') (utask_pml4 t) (page_path va) = walk (vm h) (utask_pml4 t) (page_path va)"
proof -
  let ?U = "unat (cur_brk t)" and ?R = "utask_pml4 t"
  have U: "4096 dvd ?U" "0x10000000 \<le> ?U" using lay by (simp_all add: layout_def)
  have bd: "?U + (0 + P) * 4096 \<le> 2 ^ 47" using room by simp
  have S: "\<And>x. \<forall>n < P. page_path x \<noteq> page_path (pg (cur_brk t) n) \<Longrightarrow> walk (vm h') ?R (page_path x) = walk (vm h) ?R (page_path x)"
      "\<And>b. pmm_owns_page (frames (vm h)) b \<Longrightarrow> pmm_owns_page (frames (vm h')) b"
    using map_user_pages_spec [OF tree m bd] by (auto split: if_splits)
  have inr: "in_region r a \<longleftrightarrow> ?U \<le> a \<and> a < ?U + P * 4096" for a using r by (simp add: in_region_def)
  show "walk (vm h') ?R (page_path va) = walk (vm h) ?R (page_path va)" if "unat va < 2 ^ 47" "\<not> in_region r (unat va)"
  proof (rule S(1), intro allI impI)
    fix n
    assume n: "n < P"
    then have "n * 4096 + 4096 \<le> P * 4096" by simp
    then show "page_path va \<noteq> page_path (pg (cur_brk t) n)"
      using low_path [OF that(1) _ U(1), of n] that(2) bd unfolding inr by auto
  qed
  have "\<exists>a. user_addr a \<and> in_region r a \<and> frame_at (vm h') ?R (of_nat a) = Some b"
    if "n < P" "frame_at (vm h') ?R (pg (cur_brk t) n) = Some b" for n b
  proof -
    have "user_addr (?U + n * 4096)" "in_region r (?U + n * 4096)" using U room that(1) by (auto simp: user_addr_def inr)
    then show ?thesis using that(2) page_at [of "cur_brk t" n] by (intro exI [of _ "?U + n * 4096"]) simp
  qed
  note pages = this
  have fr: "pmm_owns_page (frames (vm h)) b \<or> table_of (vm h') ?R b \<or> (\<exists>n < P. frame_at (vm h') ?R (pg (cur_brk t) n) = Some b)"
    if "pmm_owns_page (frames (vm h')) b" for b
    using conjunct2 [OF map_user_pages_frames [OF tree m bd]] that by (simp only: option.case le0 simp_thms add_0)
  show "frames_accounted ?R (in_region r) (vm h) (vm h')" unfolding frames_accounted_def
  proof (intro conjI allI impI)
    show "pmm_owns_page (frames (vm h')) b" if "pmm_owns_page (frames (vm h)) b" for b by (rule S(2) [OF that])
    show "pmm_owns_page (frames (vm h)) b \<or> table_of (vm h') ?R b \<or> (\<exists>a. user_addr a \<and> in_region r a \<and> frame_at (vm h') ?R (of_nat a) = Some b)"
      if "pmm_owns_page (frames (vm h')) b" for b using fr [OF that] pages by blast
  qed
qed

lemma mapping_undone:
  assumes lay: "layout t" and pok: "pages_ok t (vm h)" and room: "unat (cur_brk t) + P * 4096 \<le> 0x40000000"
    and m: "map_user_pages P h (utask_pml4 t) (cur_brk t) 0 = (Some j, h')"
    and v2: "v2 = uheap_unmap_range j (vm h') (utask_pml4 t) (cur_brk t) 0"
  shows "frames_accounted (utask_pml4 t) (\<lambda>_. False) (vm h) v2"
    "unat va < 2 ^ 47 \<Longrightarrow> walk v2 (utask_pml4 t) (page_path va) = walk (vm h) (utask_pml4 t) (page_path va)"
    "\<not> (unat (cur_brk t) \<le> a \<and> a < unat (cur_brk t) + P * 4096) \<Longrightarrow> hbytes h' a = hbytes h a"
proof -
  let ?U = "unat (cur_brk t)" and ?R = "utask_pml4 t"
  have U: "4096 dvd ?U" "0x10000000 \<le> ?U" using lay by (simp_all add: layout_def)
  have tree: "tree_ok (vm h) ?R" using pok by (simp add: pages_ok_def)
  have bd: "?U + (0 + P) * 4096 \<le> 2 ^ 47" using room by simp
  have S: "tree_ok (vm h') ?R" "j < P" "\<And>n. n < j \<Longrightarrow> user_page (vm h') ?R (pg (cur_brk t) n)"
      "\<And>x. \<forall>n < j. page_path x \<noteq> page_path (pg (cur_brk t) n) \<Longrightarrow> walk (vm h') ?R (page_path x) = walk (vm h) ?R (page_path x)"
      "\<And>a. hbytes h' a = (if ?U \<le> a \<and> a < ?U + j * 4096 then 0 else hbytes h a)"
      "\<And>b. pmm_owns_page (frames (vm h)) b \<Longrightarrow> pmm_owns_page (frames (vm h')) b"
      "\<And>n b. n < j \<Longrightarrow> frame_at (vm h') ?R (pg (cur_brk t) n) = Some b \<Longrightarrow> \<not> pmm_owns_page (frames (vm h)) b"
    using map_user_pages_spec [OF tree m bd] by (auto split: if_splits)
  have jP: "j * 4096 \<le> P * 4096" using S(2) by simp
  have bj: "?U + (0 + j) * 4096 \<le> 2 ^ 47" using jP bd by simp
  have mp: "\<forall>n. 0 \<le> n \<longrightarrow> n < 0 + j \<longrightarrow> mapped_page (vm h') ?R (pg (cur_brk t) n)" using S(3) user_mapped by simp
  have V: "\<And>x. walk v2 ?R (page_path x) = (if \<exists>n < j. page_path x = page_path (pg (cur_brk t) n) then Unmapped else walk (vm h') ?R (page_path x))"
      "\<And>b. pmm_owns_page (frames v2) b \<Longrightarrow> pmm_owns_page (frames (vm h')) b"
      "\<And>n b. n < j \<Longrightarrow> frame_at (vm h') ?R (pg (cur_brk t) n) = Some b \<Longrightarrow> 0x4800000 \<le> b \<Longrightarrow> \<not> pmm_owns_page (frames v2) b"
      "\<And>q. idx_ok q \<Longrightarrow> length q \<le> 3 \<Longrightarrow> node v2 ?R q = node (vm h') ?R q"
      "\<And>b. pmm_owns_page (frames (vm h')) b \<Longrightarrow> \<forall>n < j. frame_at (vm h') ?R (pg (cur_brk t) n) \<noteq> Some b \<Longrightarrow> pmm_owns_page (frames v2) b"
    using unmap_range_spec [OF S(1) mp bj v2] by auto
  show "hbytes h' a = hbytes h a" if "\<not> (?U \<le> a \<and> a < ?U + P * 4096)" using S(5) [of a] that jP by auto
  show "walk v2 ?R (page_path va) = walk (vm h) ?R (page_path va)" if va: "unat va < 2 ^ 47"
  proof (cases "\<exists>n < j. page_path va = page_path (pg (cur_brk t) n)")
    case True
    then obtain n where n: "n < j" "page_path va = page_path (pg (cur_brk t) n)" by blast
    have ua: "user_addr (?U + n * 4096)" using U room n(1) S(2) by (auto simp: user_addr_def)
    have "walk (vm h) ?R (page_path (of_nat (?U + n * 4096))) = Unmapped"
      by (rule pages_okD(3) [OF pok ua]) (use above_brk [OF lay] in auto)
    then show ?thesis using V(1) [of va] True n(2) page_at [of "cur_brk t" n] by simp
  next
    case False
    then have "walk v2 ?R (page_path va) = walk (vm h') ?R (page_path va)" by (simp only: V(1) if_False)
    moreover have "\<forall>n < j. page_path va \<noteq> page_path (pg (cur_brk t) n)" using False by blast
    then have "walk (vm h') ?R (page_path va) = walk (vm h) ?R (page_path va)" by (rule S(4))
    ultimately show ?thesis by simp
  qed
  have "pmm_owns_page (frames v2) b" if "pmm_owns_page (frames (vm h)) b" for b
    by (rule V(5) [OF S(6) [OF that]]) (use S(7) that in blast)
  moreover have "pmm_owns_page (frames (vm h)) b \<or> table_of v2 ?R b" if b: "pmm_owns_page (frames v2) b" for b
  proof -
    have gone: "frame_at (vm h') ?R (pg (cur_brk t) n) \<noteq> Some b" if "n < j" for n
      using user_page_frame [OF S(3) [OF that]] V(3) [OF that, of b] b by (metis option.inject)
    have "table_of v2 ?R b = table_of (vm h') ?R b" by (rule table_of_cong) (rule V(4))
    moreover have "pmm_owns_page (frames (vm h)) b \<or> table_of (vm h') ?R b \<or> (\<exists>n < j. frame_at (vm h') ?R (pg (cur_brk t) n) = Some b)"
      using conjunct2 [OF map_user_pages_frames [OF tree m bd]] V(2) [OF b] by (simp only: option.case le0 simp_thms)
    ultimately show ?thesis using gone by blast
  qed
  ultimately show "frames_accounted ?R (\<lambda>_. False) (vm h) v2" unfolding frames_accounted_def by blast
qed

section \<open>When allocation succeeds\<close>

text \<open>A request the heap never serves: no address space, no or too many bytes, or the range is used up.\<close>

definition bad_request :: "utask \<Rightarrow> u64 \<Rightarrow> bool" where
  "bad_request t sz \<longleftrightarrow> utask_pml4 t = PHYS_NULL \<or> unat sz = 0 \<or> 0x4000000 < unat sz \<or>
     0x40000000 < unat (cur_brk t) + (unat sz + 4095) div 4096 * 4096 + 4096"

text \<open>Memory for the node and for \<open>p\<close> pages, each with a frame and at most three tables.\<close>

definition uheap_memory :: "utask \<Rightarrow> nat \<Rightarrow> bool" where
  "uheap_memory t p \<longleftrightarrow> \<not> heap_exhausted (kheap t) NODE_SIZE \<and> 4 * (p + 1) \<le> pmm_room (frames (vm (kheap t))) \<and>
     no_huge {..<256} (vm (kheap t)) (utask_pml4 t)"

lemma bad_request_code:
  assumes "layout t"
  shows "bad_request t sz \<longleftrightarrow> utask_pml4 t = PHYS_NULL \<or> sz = 0 \<or> sz > UHEAP_MAX_ALLOC \<or>
    cur_brk t + (sz + 4095) div 4096 * 4096 + 4096 > UHEAP_END"
proof (cases "sz = 0 \<or> sz > UHEAP_MAX_ALLOC")
  case True
  then show ?thesis by (auto simp: bad_request_def word_less_nat_alt)
next
  case False
  note P = uheap_sizes [of sz, OF _ _ refl]
  have "unat (cur_brk t + (sz + 4095) div 4096 * 4096 + 4096) = unat (cur_brk t) + unat ((sz + 4095) div 4096) * 4096 + 4096"
    by (rule brk_sum) (use assms P(4) False in \<open>simp_all add: layout_def\<close>)
  then show ?thesis using False P(1) by (auto simp: bad_request_def word_less_nat_alt unat_eq_0)
qed

lemma kfree_tables:
  assumes "kfree h p = Some (Ret u, h')"
  shows "vm h' = vm h \<and> hbytes h' = hbytes h"
proof -
  have e: "h' = h'\<lparr>vm := vm h, hbytes := hbytes h\<rparr>"
    using kfree_frame [where h = h and v = "vm h" and b = "hbytes h" and p = p] assms by simp
  show ?thesis by (subst (1 2) e) simp
qed

text \<open>How a request runs once it is not refused.\<close>

lemma uheap_alloc_runs:
  assumes c: "uheap_alloc t sz = Some (Ret r, t')" and lay: "layout t" and ok: "\<not> bad_request t sz"
    and P: "P = unat ((sz + 4095) div 4096)"
  obtains h where "kmalloc (kheap t) NODE_SIZE = Some (Ret None, h)" "r = 0" "kheap t' = h"
    | nd h j h1 h2 where "kmalloc (kheap t) NODE_SIZE = Some (Ret (Some nd), h)"
      "map_user_pages P h (utask_pml4 t) (cur_brk t) 0 = (Some j, h1)" "r = 0" "kheap t' = h2"
      "vm h2 = uheap_unmap_range j (vm h1) (utask_pml4 t) (cur_brk t) 0" "hbytes h2 = hbytes h1"
    | nd h h1 where "kmalloc (kheap t) NODE_SIZE = Some (Ret (Some nd), h)"
      "map_user_pages P h (utask_pml4 t) (cur_brk t) 0 = (None, h1)" "r = cur_brk t" "kheap t' = h1"
      "hd (uheap_regions t') = \<lparr>rnode = nd, rbase = cur_brk t, rsize = sz, rpages = (sz + 4095) div 4096\<rparr>"
  using c ok unfolding bad_request_code [OF lay] uheap_alloc_def Let_def cur_brk_def [symmetric] P
  by (auto split: if_splits option.splits prod.splits outcome.splits dest: kfree_tables)

text \<open>With memory for the node and the pages the request is served.\<close>

lemma uheap_alloc_ready:
  assumes inv: "uheap_inv t" and heap: "heap_inv (kheap t)" "heap_can_grow (kheap t) NODE_SIZE"
    and beside: "beside_kernel (vm (kheap t)) (utask_pml4 t)"
    and ok: "\<not> bad_request t sz" and mem: "uheap_memory t ((unat sz + 4095) div 4096)"
    and c: "uheap_alloc t sz = Some (Ret r, t')"
  shows "r \<noteq> 0"
proof -
  note lay = uheap_invD(1) [OF inv] and pok = uheap_invD(2) [OF inv]
  have sz: "sz \<noteq> 0" "\<not> sz > UHEAP_MAX_ALLOC" using ok bad_request_code [OF lay] by simp_all
  note P = uheap_sizes [OF sz refl]
  have nz: "NODE_SIZE \<noteq> 0" "pages_for (round16 NODE_SIZE) = 1" by (simp_all add: pages_for_def round16_def)
  have M: "\<not> heap_exhausted (kheap t) NODE_SIZE" "4 * (unat ((sz + 4095) div 4096) + 1) \<le> pmm_room (frames (vm (kheap t)))"
      "no_huge {..<256} (vm (kheap t)) (utask_pml4 t)"
    using mem P(1) by (simp_all add: uheap_memory_def)
  from c lay ok refl show ?thesis
  proof (cases rule: uheap_alloc_runs)
    case (1 h)
    then show ?thesis using kmalloc_null(1) [OF heap(1) nz(1) heap(2)] M(1) by blast
  next
    case (2 nd h j h1 h2)
    note kg = kmalloc_growth [OF heap(1) nz(1) heap(2) 2(1) beside]
    have "tree_ok (vm h) (utask_pml4 t)" using growth_tree [OF kg] pok by (simp add: pages_ok_def)
    moreover have "4 * unat ((sz + 4095) div 4096) \<le> pmm_room (frames (vm h))"
      using kmalloc_room [OF heap(1) nz(1) heap(2) 2(1) M(1)] M(2) nz(2) by simp
    moreover have "unat (cur_brk t) + (0 + unat ((sz + 4095) div 4096)) * 4096 \<le> 2 ^ 47"
      using ok P(1) by (simp add: bad_request_def)
    ultimately have "fst (map_user_pages (unat ((sz + 4095) div 4096)) h (utask_pml4 t) (cur_brk t) 0) = None"
      by (intro map_user_pages_ready growth_no_huge [OF kg M(3)])
    then show ?thesis using 2(2) by simp
  next
    case 3
    have "0x10000000 \<le> unat (cur_brk t)" using lay by (simp add: layout_def)
    then show ?thesis using 3(3) by auto
  qed
qed

text \<open>What a request does to the pages and the frames, served or not.\<close>

lemma uheap_alloc_pages:
  assumes inv: "uheap_inv t" and heap: "heap_inv (kheap t)" "heap_can_grow (kheap t) NODE_SIZE"
    and beside: "beside_kernel (vm (kheap t)) (utask_pml4 t)" and ok: "\<not> bad_request t sz"
    and c: "uheap_alloc t sz = Some (Ret r, t')"
  shows "r = 0 \<Longrightarrow> unat va < 2 ^ 47 \<Longrightarrow>
      walk (vm (kheap t')) (utask_pml4 t) (page_path va) = walk (vm (kheap t)) (utask_pml4 t) (page_path va)"
    "r = 0 \<Longrightarrow> \<not> (unat (cur_brk t) \<le> a \<and> a < unat (cur_brk t) + (unat sz + 4095) div 4096 * 4096) \<Longrightarrow>
      hbytes (kheap t') a = hbytes (kheap t) a"
    "r \<noteq> 0 \<Longrightarrow> unat va < 2 ^ 47 \<Longrightarrow> \<not> in_region (hd (uheap_regions t')) (unat va) \<Longrightarrow>
      walk (vm (kheap t')) (utask_pml4 t) (page_path va) = walk (vm (kheap t)) (utask_pml4 t) (page_path va)"
    "\<exists>k h. kmalloc (kheap t) NODE_SIZE = Some (Ret k, h) \<and>
      frames_accounted (utask_pml4 t) (\<lambda>a. r \<noteq> 0 \<and> in_region (hd (uheap_regions t')) a) (vm h) (vm (kheap t'))"
proof -
  let ?R = "utask_pml4 t" and ?P = "unat ((sz + 4095) div 4096)"
  note lay = uheap_invD(1) [OF inv] and pok = uheap_invD(2) [OF inv]
  have sz: "sz \<noteq> 0" "\<not> sz > UHEAP_MAX_ALLOC" using ok bad_request_code [OF lay] by simp_all
  note P = uheap_sizes [OF sz refl]
  have room: "unat (cur_brk t) + ?P * 4096 \<le> 0x40000000" using ok P(1) by (simp add: bad_request_def)
  have nz: "NODE_SIZE \<noteq> 0" by simp
  have own: "own_half (vm (kheap t)) ?R" using beside by (simp add: beside_kernel_def)
  have node: "hbytes h = hbytes (kheap t) \<and> pages_ok t (vm h) \<and>
      (\<forall>va. unat va < 2 ^ 47 \<longrightarrow> walk (vm h) ?R (page_path va) = walk (vm (kheap t)) ?R (page_path va))"
    if k: "kmalloc (kheap t) NODE_SIZE = Some (Ret q, h)" for q h
    using kmalloc_spec [OF heap(1) nz] heap(2) k kmalloc_pages_ok [OF heap(1) nz heap(2) k beside pok]
      kmalloc_user_half(1) [OF heap(1) nz heap(2) k own] unfolding heap_can_grow_def by auto
  let ?A = "\<exists>k h. kmalloc (kheap t) NODE_SIZE = Some (Ret k, h) \<and>
      frames_accounted ?R (\<lambda>a. r \<noteq> 0 \<and> in_region (hd (uheap_regions t')) a) (vm h) (vm (kheap t'))"
  have "?A \<and> (r = 0 \<longrightarrow>
      (\<forall>va. unat va < 2 ^ 47 \<longrightarrow> walk (vm (kheap t')) ?R (page_path va) = walk (vm (kheap t)) ?R (page_path va)) \<and>
      (\<forall>a. \<not> (unat (cur_brk t) \<le> a \<and> a < unat (cur_brk t) + ?P * 4096) \<longrightarrow> hbytes (kheap t') a = hbytes (kheap t) a)) \<and>
    (r \<noteq> 0 \<longrightarrow> (\<forall>va. unat va < 2 ^ 47 \<longrightarrow> \<not> in_region (hd (uheap_regions t')) (unat va) \<longrightarrow>
      walk (vm (kheap t')) ?R (page_path va) = walk (vm (kheap t)) ?R (page_path va)))"
    using c lay ok refl
  proof (cases rule: uheap_alloc_runs)
    case (1 h)
    then show ?thesis using node [OF 1(1)] by (auto simp: frames_accounted_def)
  next
    case (2 nd h j h1 h2)
    note n = node [OF 2(1)]
    note u = mapping_undone [OF lay _ room 2(2,5)]
    have "pages_ok t (vm h)" using n by simp
    note u = u [OF this]
    have ?A using 2(1,3,4) u(1) by auto
    then show ?thesis using 2(3,4,6) u(2,3) n by simp
  next
    case (3 nd h h1)
    note n = node [OF 3(1)]
    have tree: "tree_ok (vm h) ?R" using n by (simp add: pages_ok_def)
    have rg: "rbase (hd (uheap_regions t')) = cur_brk t" "unat (rpages (hd (uheap_regions t'))) = ?P" using 3(5) by simp_all
    note d = mapping_done [OF lay tree room 3(2) rg]
    have "0x10000000 \<le> unat (cur_brk t)" using lay by (simp add: layout_def)
    then have r: "r \<noteq> 0" using 3(3) by auto
    have ?A using 3(1,4) d(1) r by auto
    then show ?thesis using r 3(4) d(2) n by simp
  qed
  note all = this
  show ?A using all by blast
  show "walk (vm (kheap t')) ?R (page_path va) = walk (vm (kheap t)) ?R (page_path va)" if "r = 0" "unat va < 2 ^ 47"
    using all that by blast
  show "hbytes (kheap t') a = hbytes (kheap t) a" if "r = 0" "\<not> (unat (cur_brk t) \<le> a \<and> a < unat (cur_brk t) + (unat sz + 4095) div 4096 * 4096)"
    using all that P(1) by simp
  show "walk (vm (kheap t')) ?R (page_path va) = walk (vm (kheap t)) ?R (page_path va)"
    if "r \<noteq> 0" "unat va < 2 ^ 47" "\<not> in_region (hd (uheap_regions t')) (unat va)"
    using all that by blast
qed

section \<open>A fresh task\<close>

text \<open>
  The witness input: a task with an empty address space and an empty user heap, beside a kernel with a heap
  of one free page.
\<close>

definition fresh_task :: "vmm_state \<Rightarrow> utask" where
  "fresh_task v = \<lparr>utask_pml4 = 0x2000, uheap_brk = 0, uheap_regions = [], kheap = free_block_heap v\<rparr>"

lemma empty_root:
  assumes "\<forall>j. j < 512 \<longrightarrow> rd v root j = 0"
  shows "idx_ok q \<Longrightarrow> node v root q = (if q = [] then Some root else None)" "walk v root (page_path va) = Unmapped"
proof -
  show "node v root q = (if q = [] then Some root else None)" if "idx_ok q" using assms that by (cases q) (simp_all add: present_def)
  have "rd v root (PML4_IDX va) = 0" using assms by simp
  then show "walk v root (page_path va) = Unmapped" unfolding page_path_def by (simp add: present_def del: IDX_less)
qed

lemma fresh_task_state:
  obtains v where "uheap_inv (fresh_task v)" "heap_inv (kheap (fresh_task v))" "heap_can_grow (kheap (fresh_task v)) NODE_SIZE"
    "beside_kernel (vm (kheap (fresh_task v))) (utask_pml4 (fresh_task v))" "uheap_memory (fresh_task v) 2"
proof -
  obtain v where v: "heap_inv (one_block_heap v)"
      "\<exists>s. pmm_init_dynamic small_memmap = Some s \<and> map_walk (empty_vmm s) (of_nat HEAP_START_VADDR) 0x5000000 3 0x1000 = (True, v)"
    by (rule one_block_heap_state) blast
  then obtain s where s: "pmm_init_dynamic small_memmap = Some s"
      and m: "map_walk (empty_vmm s) (of_nat HEAP_START_VADDR) 0x5000000 3 0x1000 = (True, v)" by blast
  have es: "pmm_inv s" "tree_ok (empty_vmm s) 0x1000" by (rule empty_vmm_state; use s in simp)+
  have bp: "bitmap_pages s = 22528" by (rule small_pmm) (use s in simp)
  note ms = map_walk_spec [OF es(2) m] and room = small_machine_room [OF s m]
  have own0: "pmm_owns_page s 0x2000" "frame_aligned 0x2000"
    using es(1) bp by (auto simp: pmm_owns_page_iff used_set_def frame_aligned_def elim: pmm_invE)
  have own: "pmm_owns_page (frames v) 0x2000" using ms(4) [of "0x2000"] own0(1) by (simp add: empty_vmm_def)
  have off: "node v 0x1000 q \<noteq> Some 0x2000" if "idx_ok q" "length q \<le> 3" for q
    using ms(7) [OF that, of "0x2000"] own0(1) by (auto simp: empty_vmm_node simp del: node.simps) (auto simp: empty_vmm_def)
  have zero: "\<forall>j. j < 512 \<longrightarrow> rd v 0x2000 j = 0"
  proof (intro allI impI)
    fix j :: u64
    assume j: "j < 512"
    have pg: "ent 0x2000 j AND PAGE_MASK = 0x2000" by (rule page_of_ent [OF own0(2) j])
    have "foreign (empty_vmm s) 0x1000 (ent 0x2000 j)"
      unfolding foreign_def pg empty_vmm_node using own0(1) by (auto simp: empty_vmm_def)
    from ms(5) [OF this] show "rd v 0x2000 j = 0" by (simp add: rd_def empty_vmm_def)
  qed
  note er = empty_root [OF zero]
  let ?h = "free_block_heap v" and ?t = "fresh_task v"
  have rep: "heap_rep ?h [HEAP_START_VADDR]" by (simp add: heap_rep_def free_block_heap_def one_block_heap_def)
  have inv: "heap_inv ?h"
    using v(1) exI [of "heap_rep ?h", OF rep] by (simp add: heap_inv_def heap_mapped_def free_block_heap_def one_block_heap_def)
  have t: "vm (kheap ?t) = v" "utask_pml4 ?t = 0x2000" "kheap ?t = ?h" by (simp_all add: fresh_task_def free_block_heap_def one_block_heap_def)
  have tree: "tree_ok v 0x2000" unfolding tree_ok_def
  proof (intro conjI allI impI)
    show "pmm_inv (frames v)" by (rule tree_pmm [OF ms(1)])
    show "\<not> huge (rd v 0x2000 i)" if "i < 512" for i using zero that by (simp add: huge_def)
  qed (use er(1) own in \<open>auto split: if_splits simp del: node.simps\<close>)
  have "pages_ok ?t v" using tree er(2) by (simp add: pages_ok_def fresh_task_def frame_at_def)
  moreover have "layout ?t" by (simp add: layout_def fresh_task_def cur_brk_def)
  moreover have "heap_shape ?h" using inv unfolding heap_shape_def by (intro exI [of _ "vm ?h"]) simp
  ultimately have u: "uheap_inv ?t" using t by (simp add: uheap_inv_def nodes_ok_def fresh_task_def)
  have low: "f = 0x2000" if "user_table v 0x2000 f" for f
  proof -
    have "i < 512" if "i < (256 :: u64)" for i using that by (rule less_trans) simp
    then show ?thesis using that er(1) unfolding user_table_def by (auto simp del: node.simps split: if_splits)
  qed
  have "own_half v 0x2000" unfolding own_half_def
  proof (intro conjI allI impI)
    show "\<not> huge (rd v 0x2000 i)" if "i < 256" for i
      using zero less_trans [OF that, of 512] by (simp add: huge_def)
    show "pmm_owns_page (frames v) f" "off_kernel v f" if "user_table v 0x2000 f" for f
      using low [OF that] own off room(3) by (simp_all add: off_kernel_def)
  qed simp
  then have b: "beside_kernel v 0x2000" unfolding beside_kernel_def using er(1) by (auto simp del: node.simps)
  have "no_huge {..<256} v 0x2000" unfolding no_huge_def
  proof (intro allI impI)
    fix i q f j
    assume a: "i \<in> {..<256}" "idx_ok q" "node v 0x2000 (i # q) = Some f"
    have "i < 512" using a(1) by (auto intro: less_trans)
    then show "\<not> huge (rd v f j)" using er(1) [of "i # q"] a(2,3) by (simp del: node.simps)
  qed
  moreover have "has_fit ?h (round16 NODE_SIZE)"
    unfolding has_fit_def by (intro exI [of _ "[HEAP_START_VADDR]"] conjI rep) (simp add: fits_def free_block_heap_def round16_def)
  ultimately have "uheap_memory ?t 2" using room(2) t by (simp add: uheap_memory_def heap_exhausted_def)
  moreover have "heap_can_grow ?h NODE_SIZE" by (simp add: heap_can_grow_def free_block_heap_def one_block_heap_def)
  ultimately show thesis using that [of v] u inv b t by simp
qed

section \<open>Properties\<close>

text \<open>
  C24. Allocation in the user heap always returns. On success the result is the old break, a
  page-aligned address of the heap range; the pages of the region, and only these, are newly
  mapped, each with full user rights to a zeroed frame of its own, and the guard page and
  everything above stay unmapped. The result is 0 only for a request
  that is never served (then nothing changes) or when the kernel heap has no memory for the node,
  fewer than four frames for each page and one more are free, or a huge page stands in the user half;
  then, also half way through the pages, the regions, the break, every translation of the user half and the
  allocated regions of the kernel heap are as before. Apart from what the kernel heap took for
  the node, no frame is lost and every frame taken is a page table of the task or behind a page
  of the new region: a failed attempt leaks none. No byte outside the pages asked for changes.
\<close>

theorem uheap_alloc_correct:
  assumes inv: "uheap_inv t" and heap: "heap_inv (kheap t)" "heap_can_grow (kheap t) NODE_SIZE"
    and beside: "beside_kernel (vm (kheap t)) (utask_pml4 t)"
  shows "\<exists>r t'. uheap_alloc t sz = Some (Ret r, t') \<and> uheap_inv t' \<and>
    (if r = 0
     then uheap_regions t' = uheap_regions t \<and> uheap_brk t' = uheap_brk t \<and> live (kheap t') = live (kheap t) \<and>
       (if bad_request t sz then t' = t else \<not> uheap_memory t ((unat sz + 4095) div 4096)) \<and>
       (\<forall>va. unat va < 2 ^ 47 \<longrightarrow>
          walk (vm (kheap t')) (utask_pml4 t) (page_path va) = walk (vm (kheap t)) (utask_pml4 t) (page_path va)) \<and>
       (\<forall>a. \<not> (unat (cur_brk t) \<le> a \<and> a < unat (cur_brk t) + (unat sz + 4095) div 4096 * 4096) \<longrightarrow>
          hbytes (kheap t') a = hbytes (kheap t) a)
     else \<not> bad_request t sz \<and> r = cur_brk t \<and> (\<exists>nd n. live (kheap t') = insert (nd, n) (live (kheap t)) \<and>
            uheap_regions t' = \<lparr>rnode = nd, rbase = r, rsize = sz, rpages = (sz + 4095) div 4096\<rparr> # uheap_regions t) \<and>
       (\<forall>a. hbytes (kheap t') a = (if in_region (hd (uheap_regions t')) a then 0 else hbytes (kheap t) a)) \<and>
       (\<forall>va. unat va < 2 ^ 47 \<longrightarrow> \<not> in_region (hd (uheap_regions t')) (unat va) \<longrightarrow>
          walk (vm (kheap t')) (utask_pml4 t) (page_path va) = walk (vm (kheap t)) (utask_pml4 t) (page_path va))) \<and>
    (bad_request t sz \<or> (\<exists>k h. kmalloc (kheap t) NODE_SIZE = Some (Ret k, h) \<and>
       frames_accounted (utask_pml4 t) (\<lambda>a. r \<noteq> 0 \<and> in_region (hd (uheap_regions t')) a) (vm h) (vm (kheap t'))))"
proof -
  note lay = uheap_invD(1) [OF inv] and pok = uheap_invD(2) [OF inv]
  have keep: "\<forall>r h. kmalloc (kheap t) NODE_SIZE = Some (Ret r, h) \<longrightarrow> pages_ok t (vm h)"
    using kmalloc_pages_ok [OF heap(1) _ heap(2) _ beside pok] by auto
  obtain r t' where c: "uheap_alloc t sz = Some (Ret r, t')" "uheap_inv t'" and post:
    "if r = 0 then uheap_regions t' = uheap_regions t \<and> uheap_brk t' = uheap_brk t \<and> live (kheap t') = live (kheap t)
     else r = cur_brk t \<and> (\<exists>nd n. live (kheap t') = insert (nd, n) (live (kheap t)) \<and>
            uheap_regions t' = \<lparr>rnode = nd, rbase = r, rsize = sz, rpages = (sz + 4095) div 4096\<rparr> # uheap_regions t) \<and>
       (\<forall>a. hbytes (kheap t') a = (if in_region (hd (uheap_regions t')) a then 0 else hbytes (kheap t) a))"
    using uheap_alloc_spec [OF inv heap keep] by blast
  show ?thesis
  proof (cases "bad_request t sz")
    case True
    then have "uheap_alloc t sz = Some (Ret 0, t)"
      unfolding bad_request_code [OF lay] by (auto simp: uheap_alloc_def Let_def cur_brk_def)
    then show ?thesis using True inv by simp
  next
    case False
    note pg = uheap_alloc_pages [OF inv heap beside False c(1)] and mem = uheap_alloc_ready [OF inv heap beside False _ c(1)]
    show ?thesis
    proof (cases "r = 0")
      case True
      then show ?thesis using c False post mem pg(1,2,4) by (intro exI [of _ r] exI [of _ t']) auto
    next
      case nz: False
      then show ?thesis using c False post pg(3,4) by (intro exI [of _ r] exI [of _ t']) auto
    qed
  qed
qed

theorem uheap_alloc_witness:
  "\<exists>v t' nd. uheap_alloc (fresh_task v) 5000 = Some (Ret UHEAP_BASE, t') \<and> uheap_inv t' \<and>
     uheap_regions t' = [\<lparr>rnode = nd, rbase = UHEAP_BASE, rsize = 5000, rpages = 2\<rparr>] \<and> hbytes (kheap t') 0x10001FFF = 0"
proof -
  obtain v where v: "uheap_inv (fresh_task v)" "heap_inv (kheap (fresh_task v))" "heap_can_grow (kheap (fresh_task v)) NODE_SIZE"
    "beside_kernel (vm (kheap (fresh_task v))) (utask_pml4 (fresh_task v))" "uheap_memory (fresh_task v) 2"
    by (rule fresh_task_state)
  have f: "cur_brk (fresh_task v) = UHEAP_BASE" "uheap_regions (fresh_task v) = []" "utask_pml4 (fresh_task v) = 0x2000"
    by (simp_all add: cur_brk_def fresh_task_def)
  have ok: "\<not> bad_request (fresh_task v) 5000" by (simp add: bad_request_def f)
  have n: "(unat (5000 :: u64) + 4095) div 4096 = 2" "(5000 + 4095) div 4096 = (2 :: u64)" by simp_all
  obtain r t' where c: "uheap_alloc (fresh_task v) 5000 = Some (Ret r, t')" "uheap_inv t'" "r \<noteq> 0" "r = UHEAP_BASE"
      "\<exists>nd. uheap_regions t' = [\<lparr>rnode = nd, rbase = r, rsize = 5000, rpages = 2\<rparr>]"
      "\<forall>a. in_region (hd (uheap_regions t')) a \<longrightarrow> hbytes (kheap t') a = 0"
    using uheap_alloc_correct [OF v(1-4), of 5000] ok v(5) unfolding n f by (auto split: if_splits)
  then obtain nd where nd: "uheap_regions t' = [\<lparr>rnode = nd, rbase = r, rsize = 5000, rpages = 2\<rparr>]" by blast
  have "hbytes (kheap t') 0x10001FFF = 0" using c(4,6) nd by (simp add: in_region_def)
  then show ?thesis using c(1,2,4) nd by blast
qed

text \<open>
  C39. Freeing in the user heap always returns. An address that is not the base of a region of
  the task is refused and changes nothing. Otherwise exactly this region is taken out:
  its pages are unmapped, exactly their frames are released, its node, an allocated region of the kernel
  heap, is freed, and every other page keeps its translation.
\<close>

theorem uheap_free_correct:
  assumes inv: "uheap_inv t"
  shows "\<exists>ok t'. uheap_free t ua = Some (Ret ok, t') \<and> uheap_inv t' \<and>
    (if \<exists>r \<in> set (uheap_regions t). rbase r = ua
     then ok \<and> (\<exists>r n. r \<in> set (uheap_regions t) \<and> rbase r = ua \<and> uheap_regions t' = remove1 r (uheap_regions t) \<and>
       (rnode r, n) \<in> live (kheap t) \<and> live (kheap t') = live (kheap t) - {(rnode r, n)} \<and> hbytes (kheap t') = hbytes (kheap t) \<and>
       (\<forall>a. user_addr a \<longrightarrow> walk (vm (kheap t')) (utask_pml4 t) (page_path (of_nat a)) =
          (if in_region r a then Unmapped else walk (vm (kheap t)) (utask_pml4 t) (page_path (of_nat a)))) \<and>
       (\<forall>b. pmm_owns_page (frames (vm (kheap t))) b \<longrightarrow> (pmm_owns_page (frames (vm (kheap t'))) b \<longleftrightarrow>
          \<not> (\<exists>a. user_addr a \<and> in_region r a \<and> frame_at (vm (kheap t)) (utask_pml4 t) (of_nat a) = Some b))))
     else \<not> ok \<and> t' = t)"
proof (cases "find (\<lambda>n. rbase n = ua) (uheap_regions t)")
  case None
  then have "uheap_free t ua = Some (Ret False, t)" "\<not> (\<exists>r \<in> set (uheap_regions t). rbase r = ua)"
    by (simp add: uheap_free_def, auto simp: find_None_iff)
  then show ?thesis using inv by auto
next
  case (Some r)
  note lay = uheap_invD(1) [OF inv] and pok = uheap_invD(2) [OF inv] and nodes = uheap_invD(4) [OF inv]
  have r: "r \<in> set (uheap_regions t)" "rbase r = ua" using find_SomeD [OF Some] by auto
  have "0x10000000 \<le> unat ua" using lay r by (auto simp: layout_def region_ok_def)
  then have nz: "ua \<noteq> 0" by auto
  let ?v = "uheap_unmap_range (unat (rpages r)) (vm (kheap t)) (utask_pml4 t) (rbase r) 0"
  note pr = pages_remove [OF lay pok r(1) refl]
  obtain n where n: "(rnode r, n) \<in> live (kheap t)" using nodes r(1) by (auto simp: nodes_ok_def)
  obtain v0 where "heap_inv ((kheap t)\<lparr>vm := v0\<rparr>)" using uheap_invD(3) [OF inv] by (auto simp: heap_shape_def)
  then have "heap_shape ((kheap t)\<lparr>vm := ?v\<rparr>)" unfolding heap_shape_def by (intro exI [of _ v0]) simp
  then obtain h where h: "kfree ((kheap t)\<lparr>vm := ?v\<rparr>) (Some (rnode r)) = Some (Ret (), h)" "heap_shape h"
      "live h = live (kheap t) - {(rnode r, n)}" "vm h = ?v" "hbytes h = hbytes (kheap t)"
    by (rule kfree_shape [of _ "rnode r" n]) (use n in simp_all)
  let ?t = "t\<lparr>uheap_regions := remove1 r (uheap_regions t), kheap := h\<rparr>"
  have call: "uheap_free t ua = Some (Ret True, ?t)" using Some nz h(1) by (simp add: uheap_free_def Let_def)
  have rs: "set (remove1 r (uheap_regions t)) = set (uheap_regions t) - {r}" using regions_distinct(1) [OF lay] by simp
  have "layout ?t"
  proof -
    have "cur_brk ?t = cur_brk t" by (simp add: cur_brk_def)
    moreover have "sorted_wrt (\<lambda>r q. rend q \<le> unat (rbase r)) (remove1 r (uheap_regions t))"
      using lay by (simp add: layout_def sorted_wrt_remove1)
    ultimately show ?thesis using lay rs unfolding layout_def by simp
  qed
  moreover have "nodes_ok ?t"
  proof -
    have "rnode q \<noteq> rnode r" if "q \<in> set (uheap_regions t) - {r}" for q
      using nodes r(1) that by (auto simp: nodes_ok_def distinct_map dest: inj_onD)
    moreover have "distinct (map rnode (remove1 r (uheap_regions t)))"
      using nodes by (simp add: nodes_ok_def distinct_map inj_on_def rs)
    ultimately show ?thesis using nodes h(3) rs by (auto simp: nodes_ok_def)
  qed
  moreover have "pages_ok ?t (vm h)" using pr(1) pages_ok_cong [of ?t "t\<lparr>uheap_regions := remove1 r (uheap_regions t)\<rparr>"] h(4) by simp
  ultimately have "uheap_inv ?t" using h(2) by (simp add: uheap_inv_def)
  moreover have "pmm_owns_page (frames (vm h)) b \<longleftrightarrow> \<not> (\<exists>a. user_addr a \<and> in_region r a \<and> frame_at (vm (kheap t)) (utask_pml4 t) (of_nat a) = Some b)"
    if "pmm_owns_page (frames (vm (kheap t))) b" for b
    unfolding h(4) using pr(2) pr(4) [OF that] by blast
  moreover have "walk (vm h) (utask_pml4 t) (page_path (of_nat a)) = (if in_region r a then Unmapped else walk (vm (kheap t)) (utask_pml4 t) (page_path (of_nat a)))"
    if "user_addr a" for a unfolding h(4) by (rule pr(3) [OF that])
  ultimately show ?thesis using call r n h(3,5)
    by (intro exI [of _ True] exI [of _ ?t]) (auto intro!: exI [of _ r] exI [of _ n])
qed

theorem uheap_free_witness:
  "\<exists>v t1 t2. uheap_alloc (fresh_task v) 5000 = Some (Ret UHEAP_BASE, t1) \<and> uheap_free t1 UHEAP_BASE = Some (Ret True, t2) \<and>
     uheap_inv t2 \<and> uheap_regions t1 \<noteq> [] \<and> uheap_regions t2 = []"
proof -
  obtain v where v: "uheap_inv (fresh_task v)" "heap_inv (kheap (fresh_task v))" "heap_can_grow (kheap (fresh_task v)) NODE_SIZE"
    "beside_kernel (vm (kheap (fresh_task v))) (utask_pml4 (fresh_task v))" "uheap_memory (fresh_task v) 2"
    by (rule fresh_task_state)
  have f: "cur_brk (fresh_task v) = UHEAP_BASE" "uheap_regions (fresh_task v) = []" "utask_pml4 (fresh_task v) = 0x2000"
    by (simp_all add: cur_brk_def fresh_task_def)
  have ok: "\<not> bad_request (fresh_task v) 5000" by (simp add: bad_request_def f)
  have n: "(unat (5000 :: u64) + 4095) div 4096 = 2" by simp
  have keep: "\<forall>r h. kmalloc (kheap (fresh_task v)) NODE_SIZE = Some (Ret r, h) \<longrightarrow> pages_ok (fresh_task v) (vm h)"
    using kmalloc_pages_ok [OF v(2) _ v(3) _ v(4) uheap_invD(2) [OF v(1)]] by auto
  obtain r t1 where t1: "uheap_alloc (fresh_task v) 5000 = Some (Ret r, t1)" "uheap_inv t1" "r = 0 \<or> r = UHEAP_BASE"
      "r \<noteq> 0 \<longrightarrow> (\<exists>q. uheap_regions t1 = [q] \<and> rbase q = UHEAP_BASE)"
    using uheap_alloc_spec [OF v(1-3) keep, of 5000] unfolding f by (auto split: if_splits)
  have "r \<noteq> 0" by (rule uheap_alloc_ready [OF v(1-4) ok _ t1(1)]) (use v(5) n in simp)
  then obtain q where q: "uheap_regions t1 = [q]" "rbase q = UHEAP_BASE" "r = UHEAP_BASE" using t1(3,4) by blast
  have "\<exists>t2. uheap_free t1 UHEAP_BASE = Some (Ret True, t2) \<and> uheap_inv t2 \<and> uheap_regions t2 = []"
    using uheap_free_correct [OF t1(2), of UHEAP_BASE] q(1,2) by auto
  moreover have "uheap_regions t1 \<noteq> []" using q(1) by simp
  ultimately show ?thesis using t1(1) unfolding q(3) by blast
qed

end
