(* ===== verification/Ring_Buffer.thy ===== *)
theory Ring_Buffer
  imports Kernel_Prelude
begin

text \<open>
  Circular buffers with a producer index and a consumer index and one slot left unused, the
  shape of the per-task event queues (\<^verbatim>\<open>kernel/event.c\<close>) and of the keyboard buffer
  (\<^verbatim>\<open>drivers/keyboard.c\<close>). The contents are a list; the laws of the two index moves are
  proved once, for any capacity.
\<close>

definition ring_list :: "nat \<Rightarrow> 'a list \<Rightarrow> nat \<Rightarrow> nat \<Rightarrow> 'a list" where
  "ring_list n slots head tail = map (\<lambda>k. slots ! ((tail + k) mod n)) [0..<(head + n - tail) mod n]"

locale ring =
  fixes n :: nat
  assumes n_gt_1: "1 < n"
begin

lemma length_ring_list: "length (ring_list n slots h t) = (h + n - t) mod n"
  by (simp add: ring_list_def)

lemma length_ring_list_less: "length (ring_list n slots h t) < n"
  using n_gt_1 by (simp add: length_ring_list)

lemma succ_less: "(i + 1) mod n < n"
  using n_gt_1 by simp

lemma ring_distance:
  assumes "h < n" "t < n"
  shows "(h + n - t) mod n = (if t \<le> h then h - t else h + n - t)"
  using assms by (auto simp: le_mod_geq)

lemma ring_empty_iff:
  assumes "h < n" "t < n"
  shows "ring_list n slots h t = [] \<longleftrightarrow> h = t"
  using assms by (auto simp: ring_list_def ring_distance split: if_splits)

lemma ring_same [simp]: "ring_list n slots t t = []"
  using n_gt_1 by (simp add: ring_list_def)

lemma succ_cases:
  assumes "h < n"
  shows "Suc h mod n = (if h = n - 1 then 0 else Suc h)"
  using assms n_gt_1 by auto

lemma succ_neq: "h < n \<Longrightarrow> (h + 1) mod n \<noteq> h"
  using n_gt_1 by (auto simp: succ_cases)

lemma ring_full_iff:
  assumes "h < n" "t < n"
  shows "length (ring_list n slots h t) = n - 1 \<longleftrightarrow> (h + 1) mod n = t"
  using assms n_gt_1 by (auto simp: length_ring_list ring_distance succ_cases)

lemma ring_push:
  assumes "h < n" "t < n" "length slots = n" "(h + 1) mod n \<noteq> t"
  shows "ring_list n (slots[h := x]) ((h + 1) mod n) t = ring_list n slots h t @ [x]"
proof -
  let ?d = "(h + n - t) mod n"
  have d: "((h + 1) mod n + n - t) mod n = Suc ?d"
    unfolding ring_distance [OF succ_less assms(2)] ring_distance [OF assms(1,2)]
    using assms n_gt_1 by (auto simp: succ_cases)
  have at_h: "(t + ?d) mod n = h"
    using assms by (auto simp: ring_distance)
  have off_h: "(t + k) mod n \<noteq> h" if "k < ?d" for k
  proof
    assume "(t + k) mod n = h"
    moreover have "t + k < 2 * n" using that assms by (auto simp: ring_distance split: if_splits)
    then have "(t + k) mod n = (if t + k < n then t + k else t + k - n)"
      by (simp add: le_mod_geq)
    ultimately show False
      using that assms by (auto simp: ring_distance split: if_splits)
  qed
  have "ring_list n (slots[h := x]) ((h + 1) mod n) t =
      map (\<lambda>k. (slots[h := x]) ! ((t + k) mod n)) [0..<?d] @ [(slots[h := x]) ! ((t + ?d) mod n)]"
    unfolding ring_list_def d by simp
  moreover have "map (\<lambda>k. (slots[h := x]) ! ((t + k) mod n)) [0..<?d] = ring_list n slots h t"
    unfolding ring_list_def
    by (rule map_cong [OF refl]) (metis off_h nth_list_update_neq atLeastLessThan_iff set_upt)
  ultimately show ?thesis
    using at_h assms by simp
qed

lemma ring_pop:
  assumes "h < n" "t < n" "h \<noteq> t"
  shows "ring_list n slots h t = slots ! t # ring_list n slots h ((t + 1) mod n)"
proof -
  let ?d = "(h + n - (t + 1) mod n) mod n"
  have d: "(h + n - t) mod n = Suc ?d"
    using assms n_gt_1 by (auto simp: ring_distance succ_cases)
  have "map (\<lambda>k. slots ! ((t + k) mod n)) [0..<Suc ?d] =
      slots ! (t mod n) # map (\<lambda>k. slots ! ((t + Suc k) mod n)) [0..<?d]"
    by (simp add: upt_conv_Cons map_Suc_upt [symmetric] comp_def del: upt_Suc)
  moreover have "(t + Suc k) mod n = ((t + 1) mod n + k) mod n" for k
    by (simp add: mod_simps ac_simps)
  ultimately show ?thesis
    unfolding ring_list_def d using assms by simp
qed

end

end
