(* ===== verification/Event_Queue.thy ===== *)
theory Event_Queue
  imports Ring_Buffer
begin

text \<open>
  The per-task input event queues, \<^verbatim>\<open>kernel/event.c\<close>: one ring of 64 slots per task, filled by
  the keyboard and mouse interrupt handlers after the window manager has chosen the target,
  drained by system call 29, flushed at every change of the task's life cycle. Each
  function runs under \<open>event_lock\<close> and is one atomic step.
\<close>

section \<open>State and operations\<close>

abbreviation MAX_TASKS :: nat where
  "MAX_TASKS \<equiv> 16"

abbreviation EVENT_QUEUE_SIZE :: nat where
  "EVENT_QUEUE_SIZE \<equiv> 64"

record kyuzen_event =
  ev_type :: u32
  param1 :: int
  param2 :: int
  param3 :: int
  ev_win_id :: int

record event_state =
  task_queues :: "kyuzen_event list list"
  eq_head :: "nat list"
  eq_tail :: "nat list"

definition event_init :: event_state where
  "event_init =
     \<lparr>task_queues = replicate MAX_TASKS
        (replicate EVENT_QUEUE_SIZE \<lparr>ev_type = 0, param1 = 0, param2 = 0, param3 = 0, ev_win_id = 0\<rparr>),
      eq_head = replicate MAX_TASKS 0, eq_tail = replicate MAX_TASKS 0\<rparr>"

definition valid_task :: "int \<Rightarrow> bool" where
  "valid_task task_id = (0 \<le> task_id \<and> task_id < int MAX_TASKS)"

definition push_event_to :: "event_state \<Rightarrow> int \<Rightarrow> u32 \<Rightarrow> int \<Rightarrow> int \<Rightarrow> int \<Rightarrow> int \<Rightarrow> event_state" where
  "push_event_to s task_id ty p1 p2 p3 win_id =
     (if task_id < 0 \<or> task_id \<ge> int MAX_TASKS then s
      else
        let i = nat task_id;
            next_head = (eq_head s ! i + 1) mod EVENT_QUEUE_SIZE;
            tails = (if next_head = eq_tail s ! i
                     then (eq_tail s)[i := (eq_tail s ! i + 1) mod EVENT_QUEUE_SIZE]
                     else eq_tail s);
            ev = \<lparr>ev_type = ty, param1 = p1, param2 = p2, param3 = p3, ev_win_id = win_id\<rparr>
        in s\<lparr>task_queues := (task_queues s)[i := (task_queues s ! i)[eq_head s ! i := ev]],
             eq_tail := tails,
             eq_head := (eq_head s)[i := next_head]\<rparr>)"

definition pop_event :: "event_state \<Rightarrow> int \<Rightarrow> kyuzen_event option \<times> event_state" where
  "pop_event s task_id =
     (if task_id < 0 \<or> task_id \<ge> int MAX_TASKS then (None, s)
      else
        let i = nat task_id
        in if eq_head s ! i = eq_tail s ! i then (None, s)
           else (Some (task_queues s ! i ! (eq_tail s ! i)),
                 s\<lparr>eq_tail := (eq_tail s)[i := (eq_tail s ! i + 1) mod EVENT_QUEUE_SIZE]\<rparr>))"

definition flush_event_queue :: "event_state \<Rightarrow> int \<Rightarrow> event_state" where
  "flush_event_queue s task_id =
     (if task_id < 0 \<or> task_id \<ge> int MAX_TASKS then s
      else s\<lparr>eq_head := (eq_head s)[nat task_id := 0], eq_tail := (eq_tail s)[nat task_id := 0]\<rparr>)"

section \<open>Invariant and contents\<close>

definition event_inv :: "event_state \<Rightarrow> bool" where
  "event_inv s =
     (length (task_queues s) = MAX_TASKS \<and> length (eq_head s) = MAX_TASKS \<and> length (eq_tail s) = MAX_TASKS \<and>
      (\<forall>i < MAX_TASKS. length (task_queues s ! i) = EVENT_QUEUE_SIZE \<and>
         eq_head s ! i < EVENT_QUEUE_SIZE \<and> eq_tail s ! i < EVENT_QUEUE_SIZE))"

definition queue_of :: "event_state \<Rightarrow> int \<Rightarrow> kyuzen_event list" where
  "queue_of s t =
     ring_list EVENT_QUEUE_SIZE (task_queues s ! nat t) (eq_head s ! nat t) (eq_tail s ! nat t)"

text \<open>The specification of a push: a bounded queue that forgets its oldest element.\<close>

definition enq_bounded :: "nat \<Rightarrow> 'a list \<Rightarrow> 'a \<Rightarrow> 'a list" where
  "enq_bounded cap q x = (if length q < cap then q @ [x] else tl q @ [x])"

interpretation ev_ring: ring EVENT_QUEUE_SIZE
  by unfold_locales simp

lemma event_inv_at:
  assumes "event_inv s" "valid_task t"
  shows "nat t < MAX_TASKS" "length (task_queues s) = MAX_TASKS" "length (eq_head s) = MAX_TASKS"
    "length (eq_tail s) = MAX_TASKS" "length (task_queues s ! nat t) = EVENT_QUEUE_SIZE"
    "eq_head s ! nat t < EVENT_QUEUE_SIZE" "eq_tail s ! nat t < EVENT_QUEUE_SIZE"
  using assms by (auto simp: event_inv_def valid_task_def)

lemma invalid_task [simp]:
  assumes "\<not> valid_task t"
  shows "push_event_to s t ty a b c w = s" "pop_event s t = (None, s)" "flush_event_queue s t = s"
  using assms by (auto simp: valid_task_def push_event_to_def pop_event_def flush_event_queue_def)

lemma push_event_inv [kinv]: "event_inv s \<Longrightarrow> event_inv (push_event_to s t ty a b c w)"
  by (cases "valid_task t")
    (auto simp: push_event_to_def event_inv_def valid_task_def Let_def nth_list_update_if)

lemma pop_event_inv [kinv]: "event_inv s \<Longrightarrow> event_inv (snd (pop_event s t))"
  by (cases "valid_task t")
    (auto simp: pop_event_def event_inv_def valid_task_def Let_def nth_list_update_if)

lemma flush_event_inv [kinv]: "event_inv s \<Longrightarrow> event_inv (flush_event_queue s t)"
  by (cases "valid_task t")
    (auto simp: flush_event_queue_def event_inv_def valid_task_def nth_list_update_if)

lemma event_init_inv: "event_inv event_init"
  by (simp add: event_inv_def event_init_def)

lemma queue_of_bound: "length (queue_of s t) < EVENT_QUEUE_SIZE"
  unfolding queue_of_def by (rule ev_ring.length_ring_list_less)

section \<open>Refinement of a list per task\<close>

lemma queue_of_push:
  assumes "event_inv s" "valid_task t"
  shows "queue_of (push_event_to s t ty a b c w) t =
    enq_bounded 63 (queue_of s t) \<lparr>ev_type = ty, param1 = a, param2 = b, param3 = c, ev_win_id = w\<rparr>"
proof -
  let ?ev = "\<lparr>ev_type = ty, param1 = a, param2 = b, param3 = c, ev_win_id = w\<rparr>"
  let ?i = "nat t" and ?h = "eq_head s ! nat t" and ?t = "eq_tail s ! nat t"
  let ?q = "task_queues s ! nat t"
  note at = event_inv_at [OF assms]
  have nt: "\<not> (t < 0 \<or> t \<ge> int MAX_TASKS)" using assms(2) by (auto simp: valid_task_def)
  show ?thesis
  proof (cases "(?h + 1) mod EVENT_QUEUE_SIZE = ?t")
    case False
    then have "length (queue_of s t) \<noteq> 63"
      using ev_ring.ring_full_iff [OF at(6,7), of ?q] by (simp add: queue_of_def)
    then have "length (queue_of s t) < 63"
      using queue_of_bound [of s t] by simp
    moreover have "queue_of (push_event_to s t ty a b c w) t = queue_of s t @ [?ev]"
      using False nt at ev_ring.ring_push [OF at(6,7,5) False, of ?ev]
      by (simp add: push_event_to_def queue_of_def Let_def)
    ultimately show ?thesis by (simp add: enq_bounded_def)
  next
    case True
    have ne: "?h \<noteq> ?t" using ev_ring.succ_neq [OF at(6)] True by metis
    let ?t' = "(?t + 1) mod EVENT_QUEUE_SIZE"
    have ne': "(?h + 1) mod EVENT_QUEUE_SIZE \<noteq> ?t'"
      using ev_ring.succ_neq [OF at(7)] True by metis
    have "queue_of (push_event_to s t ty a b c w) t =
        ring_list EVENT_QUEUE_SIZE (?q[?h := ?ev]) ((?h + 1) mod EVENT_QUEUE_SIZE) ?t'"
      using True nt at by (simp add: push_event_to_def queue_of_def Let_def)
    also have "\<dots> = ring_list EVENT_QUEUE_SIZE ?q ?h ?t' @ [?ev]"
      by (rule ev_ring.ring_push [OF at(6) _ at(5) ne']) simp
    also have "ring_list EVENT_QUEUE_SIZE ?q ?h ?t' = tl (queue_of s t)"
      using ev_ring.ring_pop [OF at(6,7) ne, of ?q] by (simp add: queue_of_def)
    finally show ?thesis
      using ev_ring.ring_full_iff [OF at(6,7), of ?q] True by (simp add: enq_bounded_def queue_of_def)
  qed
qed

lemma queue_of_pop:
  assumes "event_inv s" "valid_task t"
  shows "fst (pop_event s t) = (case queue_of s t of [] \<Rightarrow> None | e # _ \<Rightarrow> Some e) \<and>
         queue_of (snd (pop_event s t)) t = tl (queue_of s t)"
proof (cases "eq_head s ! nat t = eq_tail s ! nat t")
  case True
  with assms show ?thesis by (auto simp: pop_event_def queue_of_def valid_task_def)
next
  case False
  note at = event_inv_at [OF assms]
  have nt: "\<not> (t < 0 \<or> t \<ge> int MAX_TASKS)" using assms(2) by (auto simp: valid_task_def)
  show ?thesis
    using False nt at ev_ring.ring_pop [OF at(6,7) False, of "task_queues s ! nat t"]
    by (simp add: pop_event_def queue_of_def Let_def)
qed

lemma queue_of_flush:
  "event_inv s \<Longrightarrow> valid_task t \<Longrightarrow> queue_of (flush_event_queue s t) t = []"
  using event_inv_at [of s t] by (auto simp: flush_event_queue_def queue_of_def valid_task_def)

lemma task_index_neq: "valid_task u \<Longrightarrow> valid_task t \<Longrightarrow> u \<noteq> t \<Longrightarrow> nat t \<noteq> nat u"
  by (auto simp: valid_task_def)

lemma queue_of_push_other [kframe]:
  assumes "u \<noteq> t" "valid_task u"
  shows "queue_of (push_event_to s t ty a b c w) u = queue_of s u"
proof (cases "valid_task t")
  case True
  with task_index_neq [OF assms(2) True assms(1)] show ?thesis
    by (simp add: push_event_to_def queue_of_def Let_def)
qed simp

lemma queue_of_pop_other [kframe]:
  assumes "u \<noteq> t" "valid_task u"
  shows "queue_of (snd (pop_event s t)) u = queue_of s u"
proof (cases "valid_task t")
  case True
  with task_index_neq [OF assms(2) True assms(1)] show ?thesis
    by (simp add: pop_event_def queue_of_def Let_def)
qed simp

lemma queue_of_flush_other [kframe]:
  assumes "u \<noteq> t" "valid_task u"
  shows "queue_of (flush_event_queue s t) u = queue_of s u"
proof (cases "valid_task t")
  case True
  with task_index_neq [OF assms(2) True assms(1)] show ?thesis
    by (simp add: flush_event_queue_def queue_of_def)
qed simp

section \<open>Sequences of calls\<close>

datatype event_op =
    EvPush int kyuzen_event
  | EvPop int
  | EvFlush int

text \<open>A call and what it returns; only \<open>pop_event\<close> returns something.\<close>

fun event_call :: "event_op \<Rightarrow> event_state \<Rightarrow> kyuzen_event option \<times> event_state" where
  "event_call (EvPush t e) s = (None, push_event_to s t (ev_type e) (param1 e) (param2 e) (param3 e) (ev_win_id e))"
| "event_call (EvPop t) s = pop_event s t"
| "event_call (EvFlush t) s = (None, flush_event_queue s t)"

fun event_op_task :: "event_op \<Rightarrow> int" where
  "event_op_task (EvPush t e) = t"
| "event_op_task (EvPop t) = t"
| "event_op_task (EvFlush t) = t"

text \<open>The same call on the specification, a list for one task.\<close>

fun event_spec :: "event_op \<Rightarrow> kyuzen_event list \<Rightarrow> kyuzen_event option \<times> kyuzen_event list" where
  "event_spec (EvPush u e) q = (None, enq_bounded 63 q e)"
| "event_spec (EvPop u) q = (case q of [] \<Rightarrow> (None, []) | e # es \<Rightarrow> (Some e, es))"
| "event_spec (EvFlush u) q = (None, [])"

text \<open>Running calls in order, with the list of what each returned.\<close>

fun run_outputs :: "('op \<Rightarrow> 's \<Rightarrow> 'r \<times> 's) \<Rightarrow> 'op list \<Rightarrow> 's \<Rightarrow> 'r list \<times> 's" where
  "run_outputs call [] s = ([], s)"
| "run_outputs call (op # ops) s =
     (let (r, s1) = call op s; (rs, s2) = run_outputs call ops s1 in (r # rs, s2))"

text \<open>What the calls of task \<open>t\<close> returned in such a run.\<close>

definition returned_to :: "int \<Rightarrow> event_op list \<Rightarrow> kyuzen_event option list \<Rightarrow> kyuzen_event option list" where
  "returned_to t ops rs = map snd (filter (\<lambda>(op, r). event_op_task op = t) (zip ops rs))"

interpretation event_calls: machine "\<lambda>op s. snd (event_call op s)" "\<lambda>_ _. True" event_inv
proof
  fix s op
  assume "event_inv s"
  then show "event_inv (snd (event_call op s))"
    by (cases op) (simp_all add: kinv)
qed

lemma event_eta:
  "\<lparr>ev_type = ev_type e, param1 = param1 e, param2 = param2 e, param3 = param3 e,
     ev_win_id = ev_win_id e\<rparr> = (e :: kyuzen_event)"
  by (cases e) simp

lemma event_call_refines:
  assumes "event_inv s" "valid_task t" "event_op_task op = t"
  shows "(fst (event_call op s), queue_of (snd (event_call op s)) t) = event_spec op (queue_of s t)"
proof (cases op)
  case (EvPop u)
  then show ?thesis using queue_of_pop [OF assms(1,2)] assms(3) by (cases "queue_of s t") auto
qed (use assms in \<open>auto simp: queue_of_push queue_of_flush event_eta\<close>)

lemma event_call_other:
  assumes "valid_task t" "event_op_task op \<noteq> t"
  shows "queue_of (snd (event_call op s)) t = queue_of s t"
  using assms by (cases op) (auto simp: kframe)

section \<open>Properties\<close>

text \<open>
  C26. Refinement: for every task, the rings implement a bounded FIFO queue of 63 events that
  forgets the oldest event when full. In any sequence of pushes, pops and flushes on any
  tasks, every pop of task \<open>t\<close> returns exactly what the same calls of \<open>t\<close> return on a list, its
  oldest pending event or nothing when none is pending, and the queue of \<open>t\<close> at the end is that list:
  calls on other tasks have no effect on it.
\<close>

theorem event_queue_refines_bounded_fifo:
  assumes "event_inv s" "valid_task t" "run_outputs event_call ops s = (rs, s')"
  shows "event_inv s' \<and>
    (returned_to t ops rs, queue_of s' t) = run_outputs event_spec (filter (\<lambda>op. event_op_task op = t) ops) (queue_of s t)"
  using assms
proof (induction ops arbitrary: s rs)
  case (Cons op ops)
  obtain r s1 where c: "event_call op s = (r, s1)" by fastforce
  obtain rs1 where o: "run_outputs event_call ops s1 = (rs1, s')" "rs = r # rs1"
    using Cons.prems(3) by (auto simp: c split: prod.splits)
  have "event_inv s1" using event_calls.exec_ok [OF Cons.prems(1), of op] by (simp add: c)
  note IH = Cons.IH [OF this Cons.prems(2) o(1)]
  show ?case
  proof (cases "event_op_task op = t")
    case True
    from event_call_refines [OF Cons.prems(1,2) True] IH o(2) True show ?thesis
      by (auto simp: c returned_to_def split: prod.splits)
  next
    case False
    with IH o(2) event_call_other [OF Cons.prems(2) False, of s] show ?thesis by (simp add: c returned_to_def)
  qed
qed (simp add: returned_to_def)

theorem event_queue_refines_bounded_fifo_witness:
  "let e = \<lparr>ev_type = 1, param1 = 65, param2 = 0, param3 = 30, ev_win_id = 2\<rparr>;
       f = \<lparr>ev_type = 2, param1 = 5, param2 = 6, param3 = 0, ev_win_id = 2\<rparr>;
       ops = [EvPush 3 e, EvPush 4 e, EvPush 3 f, EvPop 4, EvPop 3, EvFlush 5];
       (rs, s) = run_outputs event_call ops event_init
   in returned_to 3 ops rs = [None, None, Some e] \<and> queue_of s 3 = [f]"
proof -
  let ?e = "\<lparr>ev_type = 1, param1 = 65, param2 = 0, param3 = 30, ev_win_id = 2\<rparr>"
  let ?f = "\<lparr>ev_type = 2, param1 = 5, param2 = 6, param3 = 0, ev_win_id = 2\<rparr>"
  let ?ops = "[EvPush 3 ?e, EvPush 4 ?e, EvPush 3 ?f, EvPop 4, EvPop 3, EvFlush 5]"
  obtain rs s where r: "run_outputs event_call ?ops event_init = (rs, s)" by fastforce
  have v: "valid_task 3" by (simp add: valid_task_def)
  have q: "queue_of event_init 3 = []" by (simp add: queue_of_def event_init_def)
  have "(returned_to 3 ?ops rs, queue_of s 3) = run_outputs event_spec (filter (\<lambda>op. event_op_task op = 3) ?ops) (queue_of event_init 3)"
    by (rule conjunct2 [OF event_queue_refines_bounded_fifo [OF event_init_inv v r]])
  then show ?thesis unfolding Let_def r q by (simp add: enq_bounded_def)
qed

text \<open>
  \<open>pop_event\<close> hands a task its events in the order they were pushed: with at most 63
  pending events nothing is lost, the first pop returns the oldest event, and it reports
  an empty queue exactly when nothing is pending.
\<close>

theorem pop_event_fifo:
  assumes "event_inv s" "valid_task t"
  shows "fst (pop_event s t) = (case queue_of s t of [] \<Rightarrow> None | e # _ \<Rightarrow> Some e) \<and>
         queue_of (snd (pop_event s t)) t = tl (queue_of s t) \<and>
         length (queue_of s t) \<le> 63 \<and>
         (\<forall>u. valid_task u \<and> u \<noteq> t \<longrightarrow> queue_of (snd (pop_event s t)) u = queue_of s u)"
  using queue_of_pop [OF assms] queue_of_bound [of s t] by (auto simp: kframe)

theorem pop_event_fifo_witness:
  "let e = \<lparr>ev_type = 1, param1 = 65, param2 = 0, param3 = 30, ev_win_id = 2\<rparr>
   in fst (pop_event (push_event_to event_init 3 1 65 0 30 2) 3) = Some e"
proof -
  let ?e = "\<lparr>ev_type = 1, param1 = 65, param2 = 0, param3 = 30, ev_win_id = 2\<rparr>"
  let ?s = "push_event_to event_init 3 1 65 0 30 2"
  have v: "valid_task 3" by (simp add: valid_task_def)
  have "queue_of event_init 3 = []" by (simp add: queue_of_def event_init_def)
  then have "queue_of ?s 3 = [?e]"
    by (simp add: queue_of_push [OF event_init_inv v] enq_bounded_def)
  with pop_event_fifo [OF push_event_inv [OF event_init_inv] v, of 3 1 65 0 30 2] show ?thesis by simp
qed

end
