(* ===== verification/Kyuzen_Fs.thy ===== *)
theory Kyuzen_Fs
  imports Kernel_Prelude
begin

text \<open>
  The file system \<^verbatim>\<open>kernel/kyuzenfs.c\<close>: a FAT of 32-bit links, directories as chains of sectors
  of sixteen 32-byte entries, a header in sector 0. The disk is a sector array behind
  \<open>ata_read_sector\<close> and \<open>ata_write_sector\<close>; the capacity the drive reports is an argument. Each
  public function runs under \<open>fs_lock\<close>, so it is one step. Scratch buffers from \<open>kmalloc(512)\<close> are
  local values and console messages are left out. C strings are byte lists without the
  terminator. A walk along the FAT may not end on a corrupted disk: it is a partial function,
  whose value \<open>None\<close> is not returning.
\<close>

section \<open>Bytes\<close>

type_synonym bytes = "u8 list"

definition le32 :: "u32 \<Rightarrow> bytes" where
  "le32 w = [ucast w, ucast (drop_bit 8 w), ucast (drop_bit 16 w), ucast (drop_bit 24 w)]"

definition un_le32 :: "bytes \<Rightarrow> u32" where
  "un_le32 b = ucast (b ! 0) OR push_bit 8 (ucast (b ! 1)) OR push_bit 16 (ucast (b ! 2)) OR push_bit 24 (ucast (b ! 3))"

lemma length_le32 [simp]: "length (le32 w) = 4"
  by (simp add: le32_def)

lemma un_le32_le32 [simp]: "un_le32 (le32 w) = w"
  unfolding un_le32_def le32_def
proof (rule bit_word_eqI)
  fix n assume n: "n < LENGTH(32)"
  have *: "24 + (n - 24) = n \<or> n < 24" by arith
  show "bit (ucast ([ucast w, ucast (drop_bit 8 w), ucast (drop_bit 16 w), ucast (drop_bit 24 w)] ! 0 :: u8) OR
      push_bit 8 (ucast ([ucast w, ucast (drop_bit 8 w), ucast (drop_bit 16 w), ucast (drop_bit 24 w)] ! 1 :: u8)) OR
      push_bit 16 (ucast ([ucast w, ucast (drop_bit 8 w), ucast (drop_bit 16 w), ucast (drop_bit 24 w)] ! 2 :: u8)) OR
      push_bit 24 (ucast ([ucast w, ucast (drop_bit 8 w), ucast (drop_bit 16 w), ucast (drop_bit 24 w)] ! 3 :: u8)) :: u32) n
    = bit w n"
    using n * by (auto simp: bit_simps)
qed

text \<open>The C string that starts at the head of a byte list.\<close>

definition cstr :: "bytes \<Rightarrow> bytes" where
  "cstr b = takeWhile (\<lambda>c. c \<noteq> 0) b"

section \<open>On-disk structures\<close>

abbreviation FAT_FREE :: u32 where "FAT_FREE \<equiv> 0"
abbreviation FAT_EOF :: u32 where "FAT_EOF \<equiv> 0xFFFFFFFF"
abbreviation FLAG_EMPTY :: u8 where "FLAG_EMPTY \<equiv> 0"
abbreviation FLAG_FILE :: u8 where "FLAG_FILE \<equiv> 1"
abbreviation FLAG_FOLDER :: u8 where "FLAG_FOLDER \<equiv> 2"

record kfs_file_entry =
  filename :: bytes
  flags :: u8
  start_sector :: u32
  size_bytes :: u32

definition entry_bytes :: "kfs_file_entry \<Rightarrow> bytes" where
  "entry_bytes e = filename e @ [flags e] @ le32 (start_sector e) @ le32 (size_bytes e)"

text \<open>\<open>entries[i]\<close> of a sector buffer, read and written.\<close>

definition entry_at :: "bytes \<Rightarrow> nat \<Rightarrow> kfs_file_entry" where
  "entry_at buf i =
     (let b = take 32 (drop (32 * i) buf)
      in \<lparr>filename = take 23 b, flags = b ! 23, start_sector = un_le32 (drop 24 b), size_bytes = un_le32 (drop 28 b)\<rparr>)"

definition put_entry :: "bytes \<Rightarrow> nat \<Rightarrow> kfs_file_entry \<Rightarrow> bytes" where
  "put_entry buf i e = take (32 * i) buf @ entry_bytes e @ drop (32 * i + 32) buf"

record kfs =
  disk :: "nat \<Rightarrow> bytes"
  fat_table :: "nat \<Rightarrow> u32"
  total_disk_sectors :: nat
  fat_sectors_needed :: nat
  magic :: bytes
  root_dir_sector :: u32
  total_files :: u32
  padding :: bytes

abbreviation root :: "kfs \<Rightarrow> nat" where
  "root s \<equiv> unat (root_dir_sector s)"

definition ata_write_sector :: "kfs \<Rightarrow> nat \<Rightarrow> bytes \<Rightarrow> kfs" where
  "ata_write_sector s lba b = s\<lparr>disk := (disk s)(lba := b)\<rparr>"

abbreviation set_fat :: "kfs \<Rightarrow> nat \<Rightarrow> u32 \<Rightarrow> kfs" where
  "set_fat s i v \<equiv> s\<lparr>fat_table := (fat_table s)(i := v)\<rparr>"

section \<open>The FAT\<close>

text \<open>The 512 bytes of the table that live in FAT sector \<open>k\<close>.\<close>

definition fat_sector :: "kfs \<Rightarrow> nat \<Rightarrow> bytes" where
  "fat_sector s k = concat (map (\<lambda>j. le32 (fat_table s (128 * k + j))) [0..<128])"

definition kfs_sync_fat :: "kfs \<Rightarrow> nat \<Rightarrow> kfs" where
  "kfs_sync_fat s i =
     (if i \<ge> total_disk_sectors s then s
      else ata_write_sector s (1 + i div 128) (fat_sector s (i div 128)))"

definition find_free_sector :: "kfs \<Rightarrow> nat" where
  "find_free_sector s =
     (case find (\<lambda>i. fat_table s i = FAT_FREE) [root s + 1..<total_disk_sectors s] of Some i \<Rightarrow> i | None \<Rightarrow> 0)"

definition header_bytes :: "kfs \<Rightarrow> bytes" where
  "header_bytes s = magic s @ le32 (root_dir_sector s) @ le32 (total_files s) @ padding s"

definition write_header :: "kfs \<Rightarrow> kfs" where
  "write_header s = ata_write_sector s 0 (header_bytes s)"

section \<open>Directories\<close>

text \<open>A slot of a directory sector that holds the given name.\<close>

definition slot_matches :: "bytes \<Rightarrow> bytes \<Rightarrow> nat \<Rightarrow> bool" where
  "slot_matches buf name i \<longleftrightarrow> flags (entry_at buf i) \<noteq> FLAG_EMPTY \<and> cstr (drop (32 * i) buf) = name"

partial_function (option) find_entry_loop :: "kfs \<Rightarrow> u32 \<Rightarrow> bytes \<Rightarrow> (kfs_file_entry \<times> nat \<times> nat) option option" where
  "find_entry_loop s cur name =
     (if cur = FAT_EOF \<or> cur = FAT_FREE then Some None
      else
        case find (slot_matches (disk s (unat cur)) name) [0..<16] of
          Some i \<Rightarrow> Some (Some (entry_at (disk s (unat cur)) i, unat cur, i))
        | None \<Rightarrow> find_entry_loop s (fat_table s (unat cur)) name)"

definition find_entry_in :: "kfs \<Rightarrow> u32 \<Rightarrow> bytes \<Rightarrow> (kfs_file_entry \<times> nat \<times> nat) option option" where
  "find_entry_in s dir name = (if dir < 2 then Some None else find_entry_loop s dir name)"

text \<open>The scan of \<open>insert_dir_entry\<close>: a free slot, or the last sector of a full chain.\<close>

partial_function (option) free_slot_loop :: "kfs \<Rightarrow> u32 \<Rightarrow> u32 \<Rightarrow> ((u32 \<times> nat) + u32) option" where
  "free_slot_loop s dir last_sec =
     (if dir = FAT_EOF \<or> dir = FAT_FREE then Some (Inr last_sec)
      else
        case find (\<lambda>i. flags (entry_at (disk s (unat dir)) i) = FLAG_EMPTY) [0..<16] of
          Some i \<Rightarrow> Some (Inl (dir, i))
        | None \<Rightarrow> free_slot_loop s (fat_table s (unat dir)) dir)"

text \<open>\<open>entries[found_idx] = *new_entry; filename[22] = 0\<close>.\<close>

definition terminated :: "kfs_file_entry \<Rightarrow> kfs_file_entry" where
  "terminated e = e\<lparr>filename := (filename e)[22 := 0]\<rparr>"

definition insert_dir_entry :: "kfs \<Rightarrow> u32 \<Rightarrow> kfs_file_entry \<Rightarrow> (bool \<times> kfs) option" where
  "insert_dir_entry s dir e =
     (case free_slot_loop s dir dir of
        None \<Rightarrow> None
      | Some (Inl (sec, i)) \<Rightarrow>
          Some (True, ata_write_sector s (unat sec) (put_entry (disk s (unat sec)) i (terminated e)))
      | Some (Inr last_sec) \<Rightarrow>
          let new_sec = find_free_sector s
          in if new_sec = 0 then Some (False, s)
             else
               let s1 = set_fat (set_fat s (unat last_sec) (of_nat new_sec)) new_sec FAT_EOF;
                   s2 = kfs_sync_fat (kfs_sync_fat s1 (unat last_sec)) new_sec
               in Some (True, ata_write_sector s2 new_sec (put_entry (replicate 512 FLAG_EMPTY) 0 (terminated e))))"

section \<open>Paths\<close>

abbreviation slash :: u8 where "slash \<equiv> 47"

lemma dropWhile_length_less:
  "dropWhile P xs \<noteq> [] \<Longrightarrow> length (dropWhile (\<lambda>c. \<not> P c) (dropWhile P xs)) < length xs"
proof -
  assume ne: "dropWhile P xs \<noteq> []"
  have "length (dropWhile (\<lambda>c. \<not> P c) (dropWhile P xs)) < length (dropWhile P xs)"
    using hd_dropWhile [OF ne] ne by (cases "dropWhile P xs") (auto intro: le_less_trans [OF length_dropWhile_le])
  also have "\<dots> \<le> length xs" by (rule length_dropWhile_le)
  finally show ?thesis .
qed

text \<open>\<open>resolve_dir_nolock\<close>: \<open>Some None\<close> is the failure return \<open>0\<close>.\<close>

function resolve_dir :: "kfs \<Rightarrow> u32 \<Rightarrow> bytes \<Rightarrow> u32 option option" where
  "resolve_dir s dir path =
     (let p = dropWhile (\<lambda>c. c = slash) path
      in if p = [] then Some (Some dir)
         else
           let comp = takeWhile (\<lambda>c. c \<noteq> slash) p;
               rest = dropWhile (\<lambda>c. c \<noteq> slash) p
           in if length comp > 22 then Some None
              else
                case find_entry_in s dir comp of
                  None \<Rightarrow> None
                | Some None \<Rightarrow> Some None
                | Some (Some (e, _, _)) \<Rightarrow>
                    if flags e \<noteq> FLAG_FOLDER then Some None else resolve_dir s (start_sector e) rest)"
  by pat_completeness auto
termination
  by (relation "measure (\<lambda>(s, dir, path). length path)") (auto simp: dropWhile_length_less)

declare resolve_dir.simps [simp del]

text \<open>The part after the last separator, and the directory part before it, cut to 127 characters.\<close>

definition last_name :: "bytes \<Rightarrow> bytes" where
  "last_name path = rev (takeWhile (\<lambda>c. c \<noteq> slash) (rev path))"

definition parent_path :: "bytes \<Rightarrow> bytes" where
  "parent_path path =
     (let pos = length path - length (last_name path);
          plen = (if pos > 0 then pos - 1 else pos);
          plen' = (if plen > 127 then 127 else plen)
      in take plen' path)"

definition split_last :: "kfs \<Rightarrow> bytes \<Rightarrow> (u32 \<times> bytes) option option" where
  "split_last s path =
     (if last_name path = [] then Some None
      else
        case resolve_dir s (root_dir_sector s) (parent_path path) of
          None \<Rightarrow> None
        | Some None \<Rightarrow> Some None
        | Some (Some sec) \<Rightarrow> Some (Some (sec, last_name path)))"

text \<open>\<open>split_last_nolock\<close> followed by \<open>find_entry_in\<close>, as every lookup begins.\<close>

definition lookup :: "kfs \<Rightarrow> bytes \<Rightarrow> (kfs_file_entry \<times> nat \<times> nat) option option" where
  "lookup s path =
     (case split_last s path of
        None \<Rightarrow> None
      | Some None \<Rightarrow> Some None
      | Some (Some (parent, name)) \<Rightarrow> find_entry_in s parent name)"

section \<open>Formatting and mounting\<close>

definition geometry :: "kfs \<Rightarrow> u32 \<Rightarrow> kfs" where
  "geometry s ata_total =
     (let total = (if ata_total = 0 then 204800 else ata_total)
      in s\<lparr>total_disk_sectors := unat total, fat_sectors_needed := unat ((total * 4 + 511) div 512)\<rparr>)"

definition kfs_format :: "kfs \<Rightarrow> u32 \<Rightarrow> kfs" where
  "kfs_format s ata_total =
     (let s1 = geometry s ata_total;
          n = fat_sectors_needed s1;
          s2 = s1\<lparr>magic := [75, 90, 70, 83], root_dir_sector := 1 + of_nat n, total_files := 0\<rparr>;
          r = root s2;
          s3 = s2\<lparr>fat_table := (\<lambda>i. if i \<le> n \<or> i = r then FAT_EOF
                                    else if i < total_disk_sectors s2 then FAT_FREE else fat_table s2 i)\<rparr>;
          s4 = write_header s3;
          s5 = fold (\<lambda>k s. ata_write_sector s (1 + k) (fat_sector s3 k)) [0..<n] s4
      in ata_write_sector s5 r (replicate 512 FLAG_EMPTY))"

definition kfs_format_nolock :: "kfs \<Rightarrow> u32 \<Rightarrow> kfs" where
  "kfs_format_nolock s ata_total =
     (let s1 = geometry s ata_total;
          n = fat_sectors_needed s1;
          s2 = s1\<lparr>magic := [75, 90, 70, 83], root_dir_sector := 1 + of_nat n, total_files := 0\<rparr>;
          r = root s2;
          s3 = s2\<lparr>fat_table := (\<lambda>i. if i \<le> n \<or> i = r then FAT_EOF
                                    else if i < total_disk_sectors s2 then FAT_FREE else fat_table s2 i)\<rparr>;
          s4 = write_header s3;
          s5 = fold (\<lambda>k s. ata_write_sector s (1 + k) (fat_sector s3 k)) [0..<n] s4
      in ata_write_sector s5 r (replicate 512 FLAG_EMPTY))"

lemma kfs_format_nolock_eq [simp]: "kfs_format_nolock = kfs_format"
  by (intro ext) (simp add: kfs_format_nolock_def kfs_format_def)

text \<open>The FAT loaded from its sectors on disk.\<close>

definition load_fat :: "kfs \<Rightarrow> kfs" where
  "load_fat s = s\<lparr>fat_table := (\<lambda>i. if i < 128 * fat_sectors_needed s
       then un_le32 (drop (4 * (i mod 128)) (disk s (1 + i div 128))) else fat_table s i)\<rparr>"

definition kfs_init :: "kfs \<Rightarrow> u32 \<Rightarrow> kfs" where
  "kfs_init s ata_total =
     (let b = disk s 0;
          s1 = s\<lparr>magic := take 4 b, root_dir_sector := un_le32 (drop 4 b), total_files := un_le32 (drop 8 b),
                 padding := take 500 (drop 12 b)\<rparr>
      in if magic s1 ! 0 \<noteq> 75 \<or> magic s1 ! 1 \<noteq> 90 then kfs_format_nolock s1 ata_total
         else load_fat (geometry s1 ata_total))"

section \<open>Files and folders\<close>

text \<open>
  The allocation loop of \<open>kfs_create_file\<close>: \<open>n\<close> sectors are left to write, \<open>start\<close> and \<open>prev\<close> are
  0 before the first one. The first component is \<open>None\<close> when the disk is full.
\<close>

fun write_chain :: "kfs \<Rightarrow> nat \<Rightarrow> nat \<Rightarrow> nat \<Rightarrow> bytes \<Rightarrow> nat option \<times> kfs" where
  "write_chain s 0 start prev data = (Some start, s)"
| "write_chain s (Suc n) start prev data =
     (let free_sec = find_free_sector s
      in if free_sec = 0 then (None, s)
         else
           let s1 = set_fat s free_sec FAT_EOF;
               s2 = (if start = 0 then s1 else kfs_sync_fat (set_fat s1 prev (of_nat free_sec)) prev);
               s3 = kfs_sync_fat s2 free_sec;
               chunk = take 512 data;
               s4 = ata_write_sector s3 free_sec (chunk @ replicate (512 - length chunk) 0)
           in write_chain s4 n (if start = 0 then free_sec else start) free_sec (drop 512 data))"

text \<open>\<open>stk\<close> is the stack memory of the uninitialised entry: the copy loop stops after the
  terminator, or after 22 characters.\<close>

definition new_name :: "bytes \<Rightarrow> bytes \<Rightarrow> bytes" where
  "new_name stk name = (let c = take 22 (name @ [0]) in (c @ drop (length c) stk)[22 := 0])"

definition sectors_for :: "u32 \<Rightarrow> nat" where
  "sectors_for sz = (if sz = 0 then 1 else unat ((sz + 511) div 512))"

definition kfs_create_file :: "kfs \<Rightarrow> u32 \<Rightarrow> bytes \<Rightarrow> bytes \<Rightarrow> bytes \<Rightarrow> (bool \<times> kfs) option" where
  "kfs_create_file s0 ata_total stk path data =
     (let s = (if root_dir_sector s0 < 2 then kfs_format_nolock s0 ata_total else s0);
          sz = of_nat (length data) :: u32
      in case split_last s path of
           None \<Rightarrow> None
         | Some None \<Rightarrow> Some (False, s)
         | Some (Some (parent, name)) \<Rightarrow>
             (case find_entry_in s parent name of
                None \<Rightarrow> None
              | Some (Some _) \<Rightarrow> Some (False, s)
              | Some None \<Rightarrow>
                  (case write_chain s (sectors_for sz) 0 0 data of
                     (None, s1) \<Rightarrow> Some (False, s1)
                   | (Some start, s1) \<Rightarrow>
                       (case insert_dir_entry s1 parent
                               \<lparr>filename = new_name stk name, flags = FLAG_FILE, start_sector = of_nat start, size_bytes = sz\<rparr> of
                          None \<Rightarrow> None
                        | Some (False, s2) \<Rightarrow> Some (False, s2)
                        | Some (True, s2) \<Rightarrow> Some (True, write_header (s2\<lparr>total_files := total_files s2 + 1\<rparr>))))))"

text \<open>The loop of \<open>kfs_delete_file\<close> that frees a chain.\<close>

partial_function (option) free_chain :: "kfs \<Rightarrow> u32 \<Rightarrow> kfs option" where
  "free_chain s cur =
     (if cur = FAT_EOF \<or> cur = FAT_FREE then Some s
      else free_chain (kfs_sync_fat (set_fat s (unat cur) FAT_FREE) (unat cur)) (fat_table s (unat cur)))"

definition kfs_delete_file :: "kfs \<Rightarrow> bytes \<Rightarrow> kfs option" where
  "kfs_delete_file s path =
     (case lookup s path of
        None \<Rightarrow> None
      | Some None \<Rightarrow> Some s
      | Some (Some (e, sec, i)) \<Rightarrow>
          if flags e = FLAG_FOLDER then Some s
          else
            case free_chain s (start_sector e) of
              None \<Rightarrow> None
            | Some s1 \<Rightarrow>
                let buf = disk s1 sec;
                    s2 = ata_write_sector s1 sec (buf[32 * i + 23 := FLAG_EMPTY])
                in Some (write_header (s2\<lparr>total_files := total_files s2 - 1\<rparr>)))"

definition kfs_exists :: "kfs \<Rightarrow> bytes \<Rightarrow> bool option" where
  "kfs_exists s path = map_option (\<lambda>r. r \<noteq> None) (lookup s path)"

definition kfs_get_file_size :: "kfs \<Rightarrow> bytes \<Rightarrow> u32 option" where
  "kfs_get_file_size s path =
     map_option (\<lambda>r. case r of Some (e, _, _) \<Rightarrow> size_bytes e | None \<Rightarrow> 0) (lookup s path)"

text \<open>The copy loop: what it appends to the output buffer.\<close>

partial_function (option) read_chain :: "kfs \<Rightarrow> u32 \<Rightarrow> nat \<Rightarrow> bytes \<Rightarrow> bytes option" where
  "read_chain s cur remaining out =
     (if cur = FAT_EOF \<or> cur = FAT_FREE \<or> remaining = 0 then Some out
      else
        let chunk = (if remaining > 512 then 512 else remaining)
        in read_chain s (fat_table s (unat cur)) (remaining - chunk) (out @ take chunk (disk s (unat cur))))"

text \<open>\<open>kfs_read_to_buffer\<close>: \<open>Some None\<close> is the failure return \<open>0\<close>, otherwise the bytes stored at
  the start of the buffer.\<close>

definition kfs_read_to_buffer :: "kfs \<Rightarrow> bytes \<Rightarrow> u32 \<Rightarrow> bytes option option" where
  "kfs_read_to_buffer s path capacity =
     (case lookup s path of
        None \<Rightarrow> None
      | Some None \<Rightarrow> Some None
      | Some (Some (e, _, _)) \<Rightarrow>
          if size_bytes e > capacity then Some None
          else map_option Some (read_chain s (start_sector e) (unat (size_bytes e)) []))"

definition kfs_get_total_space :: "kfs \<Rightarrow> u32" where
  "kfs_get_total_space s = of_nat (total_disk_sectors s) * 512"

definition kfs_get_used_space :: "kfs \<Rightarrow> u32" where
  "kfs_get_used_space s =
     (let free_sec = length (filter (\<lambda>i. fat_table s i = FAT_FREE) [root s + 1..<total_disk_sectors s])
      in (of_nat (total_disk_sectors s) - of_nat free_sec) * 512)"

definition kfs_resolve_dir :: "kfs \<Rightarrow> bytes \<Rightarrow> u32 option option" where
  "kfs_resolve_dir s path = resolve_dir s (root_dir_sector s) path"

definition kfs_create_folder :: "kfs \<Rightarrow> bytes \<Rightarrow> bytes \<Rightarrow> (bool \<times> kfs) option" where
  "kfs_create_folder s stk path =
     (case split_last s path of
        None \<Rightarrow> None
      | Some None \<Rightarrow> Some (False, s)
      | Some (Some (parent, name)) \<Rightarrow>
          (case find_entry_in s parent name of
             None \<Rightarrow> None
           | Some (Some _) \<Rightarrow> Some (False, s)
           | Some None \<Rightarrow>
               let new_sec = find_free_sector s
               in if new_sec = 0 then Some (False, s)
                  else
                    let s1 = ata_write_sector (kfs_sync_fat (set_fat s new_sec FAT_EOF) new_sec) new_sec (replicate 512 FLAG_EMPTY)
                    in case insert_dir_entry s1 parent
                              \<lparr>filename = new_name stk name, flags = FLAG_FOLDER, start_sector = of_nat new_sec, size_bytes = 0\<rparr> of
                         None \<Rightarrow> None
                       | Some (False, s2) \<Rightarrow> Some (False, set_fat s2 new_sec FAT_FREE)
                       | Some (True, s2) \<Rightarrow> Some (True, write_header (s2\<lparr>total_files := total_files s2 + 1\<rparr>))))"

text \<open>The entries of a directory listed for the file manager: name, size and folder flag.\<close>

definition list_sector :: "bytes \<Rightarrow> (bytes \<times> u32 \<times> bool) list" where
  "list_sector buf =
     map (\<lambda>i. let e = entry_at buf i in (cstr (take 22 (filename e)), size_bytes e, flags e = FLAG_FOLDER))
       (filter (\<lambda>i. flags (entry_at buf i) \<noteq> FLAG_EMPTY) [0..<16])"

partial_function (option) file_list_loop :: "kfs \<Rightarrow> u32 \<Rightarrow> nat \<Rightarrow> (bytes \<times> u32 \<times> bool) list \<Rightarrow> (bytes \<times> u32 \<times> bool) list option" where
  "file_list_loop s cur max_entries out =
     (if cur = FAT_EOF \<or> cur = FAT_FREE \<or> length out \<ge> max_entries then Some out
      else file_list_loop s (fat_table s (unat cur)) max_entries
             (out @ take (max_entries - length out) (list_sector (disk s (unat cur)))))"

definition kfs_get_file_list :: "kfs \<Rightarrow> bytes \<Rightarrow> nat \<Rightarrow> (bytes \<times> u32 \<times> bool) list option" where
  "kfs_get_file_list s path max_entries =
     (case resolve_dir s (root_dir_sector s) path of
        None \<Rightarrow> None
      | Some None \<Rightarrow> Some []
      | Some (Some dir) \<Rightarrow> file_list_loop s dir max_entries [])"

end
