(* ===== verification/Vfs_Fd.thy ===== *)
theory Vfs_Fd
  imports Kernel_Heap Kyuzen_Fs
begin

text \<open>
  The file-descriptor layer \<^verbatim>\<open>kernel/vfs_fd.c\<close>: each task has sixteen descriptors in a common pool,
  and an open file lives in a buffer of the kernel heap that is written back to KyuzenFS when
  it is closed. The state holds the pool, the kernel heap and the file system; \<open>me\<close> is
  \<open>smp_current_task_id()\<close>. \<open>drive_sectors\<close> and \<open>stack_mem\<close> are the inputs of the file system
  that do not come from the caller. Results are those of the heap: \<open>None\<close> for a call that does
  not return, \<open>Panic\<close> for a panic. A section under \<open>vfs_lock\<close> is one step.
\<close>

section \<open>State\<close>

abbreviation VFS_MAX_FDS :: nat where "VFS_MAX_FDS \<equiv> 16"
abbreviation VFS_TASKS :: nat where "VFS_TASKS \<equiv> 16"
abbreviation VFS_MAX_PATH :: nat where "VFS_MAX_PATH \<equiv> 23"
abbreviation VFS_O_WRONLY :: u32 where "VFS_O_WRONLY \<equiv> 1"
abbreviation VFS_O_RDWR :: u32 where "VFS_O_RDWR \<equiv> 2"
abbreviation VFS_O_CREAT :: u32 where "VFS_O_CREAT \<equiv> 4"
abbreviation VFS_O_TRUNC :: u32 where "VFS_O_TRUNC \<equiv> 8"
abbreviation VFS_O_APPEND :: u32 where "VFS_O_APPEND \<equiv> 16"

record vfs_file =
  used :: bool
  vf_owner :: int
  vf_path :: bytes
  vf_buf :: "nat option"
  vf_size :: u32
  vf_cap :: u32
  vf_pos :: u32
  vf_flags :: u32
  vf_dirty :: bool

record vfs =
  fds :: "vfs_file list"
  vfs_heap :: heap_state
  vfs_fs :: kfs
  drive_sectors :: u32
  stack_mem :: bytes

abbreviation fd_at :: "vfs \<Rightarrow> nat \<Rightarrow> vfs_file" where
  "fd_at s i \<equiv> fds s ! i"

abbreviation set_fd :: "vfs \<Rightarrow> nat \<Rightarrow> vfs_file \<Rightarrow> vfs" where
  "set_fd s i f \<equiv> s\<lparr>fds := (fds s)[i := f]\<rparr>"

text \<open>The address in a pointer, 0 for null.\<close>

definition ptr :: "nat option \<Rightarrow> nat" where
  "ptr p = (case p of None \<Rightarrow> 0 | Some a \<Rightarrow> a)"

text \<open>Storing and reading a run of bytes.\<close>

definition put_bytes :: "(nat \<Rightarrow> u8) \<Rightarrow> nat \<Rightarrow> bytes \<Rightarrow> (nat \<Rightarrow> u8)" where
  "put_bytes m a data = (\<lambda>x. if a \<le> x \<and> x < a + length data then data ! (x - a) else m x)"

definition get_bytes :: "(nat \<Rightarrow> u8) \<Rightarrow> nat \<Rightarrow> nat \<Rightarrow> bytes" where
  "get_bytes m a n = map (\<lambda>i. m (a + i)) [0..<n]"

section \<open>Descriptors\<close>

definition vfs_init :: "vfs \<Rightarrow> vfs" where
  "vfs_init s = s\<lparr>fds := map (\<lambda>f. f\<lparr>used := False, vf_buf := None\<rparr>) (fds s)\<rparr>"

definition path_copy :: "bytes \<Rightarrow> bytes" where
  "path_copy src = take (VFS_MAX_PATH - 1) src"

definition slot_of :: "int \<Rightarrow> int \<Rightarrow> int" where
  "slot_of task_id fd =
     (if task_id < 0 \<or> task_id \<ge> int VFS_TASKS then - 1
      else if fd < 0 \<or> fd \<ge> int VFS_MAX_FDS then - 1
      else task_id * int VFS_MAX_FDS + fd)"

definition resolve :: "vfs \<Rightarrow> int \<Rightarrow> int \<Rightarrow> nat option" where
  "resolve s me fd =
     (let i = slot_of me fd
      in if i < 0 then None
         else if \<not> used (fd_at s (nat i)) \<or> vf_owner (fd_at s (nat i)) \<noteq> me then None
         else Some (nat i))"

text \<open>\<open>kfree\<close> of a buffer on the way to the return value \<open>r\<close>.\<close>

definition vfs_kfree :: "vfs \<Rightarrow> nat option \<Rightarrow> 'a \<Rightarrow> ('a outcome \<times> vfs) option" where
  "vfs_kfree s p r =
     (case kfree (vfs_heap s) p of
        None \<Rightarrow> None
      | Some (Panic b, h) \<Rightarrow> Some (Panic b, s\<lparr>vfs_heap := h\<rparr>)
      | Some (Ret _, h) \<Rightarrow> Some (Ret r, s\<lparr>vfs_heap := h\<rparr>))"

text \<open>The locked part of \<open>vfs_open\<close>: the buffer is entered in the first free descriptor of the task.\<close>

definition install_fd :: "vfs \<Rightarrow> int \<Rightarrow> bytes \<Rightarrow> u32 \<Rightarrow> bool \<Rightarrow> nat \<Rightarrow> u32 \<Rightarrow> u32 \<Rightarrow> (int outcome \<times> vfs) option" where
  "install_fd s me path flgs ex buf fsize cap =
     (let base = nat me * VFS_MAX_FDS
      in case find (\<lambda>i. \<not> used (fd_at s (base + i))) [0..<VFS_MAX_FDS] of
           None \<Rightarrow> vfs_kfree s (Some buf) (- 1)
         | Some fd \<Rightarrow>
             Some (Ret (int fd), set_fd s (base + fd)
               \<lparr>used = True, vf_owner = me, vf_path = path_copy path, vf_buf = Some buf, vf_size = fsize, vf_cap = cap,
                vf_pos = (if flgs AND VFS_O_APPEND \<noteq> 0 then fsize else 0), vf_flags = flgs,
                vf_dirty = (\<not> ex \<or> flgs AND VFS_O_TRUNC \<noteq> 0)\<rparr>))"

definition vfs_open :: "vfs \<Rightarrow> int \<Rightarrow> bytes option \<Rightarrow> u32 \<Rightarrow> (int outcome \<times> vfs) option" where
  "vfs_open s me path_arg flgs =
     (case path_arg of
        None \<Rightarrow> Some (Ret (- 1), s)
      | Some path \<Rightarrow>
          if path = [] \<or> me < 0 \<or> me \<ge> int VFS_TASKS then Some (Ret (- 1), s)
          else
            case kfs_exists (vfs_fs s) path of
              None \<Rightarrow> None
            | Some ex \<Rightarrow>
                if \<not> ex \<and> flgs AND VFS_O_CREAT = 0 then Some (Ret (- 1), s)
                else
                  (case (if ex then kfs_get_file_size (vfs_fs s) path else Some 0) of
                     None \<Rightarrow> None
                   | Some fsize \<Rightarrow>
                       let cap = (if fsize < 64 then 64 else fsize)
                       in (case kmalloc (vfs_heap s) (ucast cap) of
                             None \<Rightarrow> None
                           | Some (Panic b, h) \<Rightarrow> Some (Panic b, s\<lparr>vfs_heap := h\<rparr>)
                           | Some (Ret None, h) \<Rightarrow> Some (Ret (- 1), s\<lparr>vfs_heap := h\<rparr>)
                           | Some (Ret (Some buf), h) \<Rightarrow>
                               let s1 = s\<lparr>vfs_heap := h\<rparr>
                               in if ex \<and> flgs AND VFS_O_TRUNC = 0 \<and> fsize > 0 then
                                    (case kfs_read_to_buffer (vfs_fs s) path cap of
                                       None \<Rightarrow> None
                                     | Some None \<Rightarrow> vfs_kfree s1 (Some buf) (- 1)
                                     | Some (Some data) \<Rightarrow>
                                         install_fd (s1\<lparr>vfs_heap := h\<lparr>hbytes := put_bytes (hbytes h) buf data\<rparr>\<rparr>)
                                           me path flgs ex buf fsize cap)
                                  else install_fd s1 me path flgs ex buf 0 cap)))"

section \<open>Reading and writing\<close>

text \<open>The return value, the bytes stored in the caller's buffer and the new state.\<close>

definition vfs_read :: "vfs \<Rightarrow> int \<Rightarrow> int \<Rightarrow> bool \<Rightarrow> u32 \<Rightarrow> int \<times> bytes \<times> vfs" where
  "vfs_read s me fd null_buf cnt =
     (if null_buf then (- 1, [], s)
      else
        case resolve s me fd of
          None \<Rightarrow> (- 1, [], s)
        | Some i \<Rightarrow>
            let f = fd_at s i
            in if vf_flags f AND VFS_O_WRONLY \<noteq> 0 then (- 1, [], s)
               else
                 let avail = (if vf_pos f < vf_size f then vf_size f - vf_pos f else 0);
                     n = (if cnt < avail then cnt else avail)
                 in (sint n, map (\<lambda>k. hbytes (vfs_heap s) (ptr (vf_buf f) + unat (vf_pos f + of_nat k))) [0..<unat n],
                     set_fd s i (f\<lparr>vf_pos := vf_pos f + n\<rparr>)))"

text \<open>The doubling loop of \<open>ensure_cap\<close>; \<open>None\<close> is the bail-out on overflow.\<close>

function grow_cap :: "u64 \<Rightarrow> u32 \<Rightarrow> u32 option" where
  "grow_cap need newcap =
     (if ucast newcap < need then
        if newcap * 2 \<le> newcap then None else grow_cap need (newcap * 2)
      else Some newcap)"
  by pat_completeness auto
termination
  by (relation "measure (\<lambda>(need, n). 2 ^ 32 - unat n)")
    (auto simp: word_le_nat_alt not_le diff_less_mono2 intro: diff_less_mono2 unat_lt32 [simplified])

declare grow_cap.simps [simp del]

definition ensure_cap :: "vfs \<Rightarrow> nat \<Rightarrow> u64 \<Rightarrow> (bool outcome \<times> vfs) option" where
  "ensure_cap s i need =
     (let f = fd_at s i
      in if need \<le> ucast (vf_cap f) then Some (Ret True, s)
         else if need > 0xFFFFFFFF then Some (Ret False, s)
         else
           case grow_cap need (if vf_cap f \<noteq> 0 then vf_cap f else 64) of
             None \<Rightarrow> Some (Ret False, s)
           | Some newcap \<Rightarrow>
               (case krealloc (vfs_heap s) (vf_buf f) (unat (vf_cap f)) (ucast newcap) of
                  None \<Rightarrow> None
                | Some (Panic b, h) \<Rightarrow> Some (Panic b, s\<lparr>vfs_heap := h\<rparr>)
                | Some (Ret None, h) \<Rightarrow> Some (Ret False, s\<lparr>vfs_heap := h\<rparr>)
                | Some (Ret (Some nb), h) \<Rightarrow>
                    Some (Ret True, set_fd (s\<lparr>vfs_heap := h\<rparr>) i (f\<lparr>vf_buf := Some nb, vf_cap := newcap\<rparr>))))"

text \<open>The bytes to write are given as a list; \<open>None\<close> is a null pointer.\<close>

definition vfs_write :: "vfs \<Rightarrow> int \<Rightarrow> int \<Rightarrow> bytes option \<Rightarrow> (int outcome \<times> vfs) option" where
  "vfs_write s me fd src =
     (case src of
        None \<Rightarrow> Some (Ret (- 1), s)
      | Some data \<Rightarrow>
          (case resolve s me fd of
             None \<Rightarrow> Some (Ret (- 1), s)
           | Some i \<Rightarrow>
               if vf_flags (fd_at s i) AND (VFS_O_WRONLY OR VFS_O_RDWR) = 0 then Some (Ret (- 1), s)
               else
                 let cnt = of_nat (length data) :: u32;
                     s1 = (if vf_flags (fd_at s i) AND VFS_O_APPEND \<noteq> 0
                           then set_fd s i (fd_at s i\<lparr>vf_pos := vf_size (fd_at s i)\<rparr>) else s);
                     fin = ucast (vf_pos (fd_at s1 i)) + ucast cnt :: u64
                 in (case ensure_cap s1 i fin of
                       None \<Rightarrow> None
                     | Some (Panic b, s2) \<Rightarrow> Some (Panic b, s2)
                     | Some (Ret False, s2) \<Rightarrow> Some (Ret (- 1), s2)
                     | Some (Ret True, s2) \<Rightarrow>
                         let f = fd_at s2 i;
                             h = vfs_heap s2;
                             m = fold (\<lambda>k m. m(ptr (vf_buf f) + unat (vf_pos f + of_nat k) := data ! k)) [0..<length data] (hbytes h);
                             pos = vf_pos f + cnt
                         in Some (Ret (sint cnt), set_fd (s2\<lparr>vfs_heap := h\<lparr>hbytes := m\<rparr>\<rparr>) i
                              (f\<lparr>vf_pos := pos, vf_size := (if pos > vf_size f then pos else vf_size f), vf_dirty := True\<rparr>)))))"

definition vfs_lseek :: "vfs \<Rightarrow> int \<Rightarrow> int \<Rightarrow> u32 \<Rightarrow> int \<Rightarrow> int \<times> vfs" where
  "vfs_lseek s me fd offset whence =
     (case resolve s me fd of
        None \<Rightarrow> (- 1, s)
      | Some i \<Rightarrow>
          let f = fd_at s i;
              base = (if whence = 1 then uint (vf_pos f) else if whence = 2 then uint (vf_size f) else 0);
              np = base + sint offset
          in if np < 0 \<or> np > 0xFFFFFFFF then (- 1, s)
             else (sint (of_int np :: u32), set_fd s i (f\<lparr>vf_pos := of_int np\<rparr>)))"

section \<open>Closing\<close>

definition flush_locked :: "vfs \<Rightarrow> nat \<Rightarrow> vfs option" where
  "flush_locked s i =
     (let f = fd_at s i
      in if vf_dirty f then
           case kfs_exists (vfs_fs s) (vf_path f) of
             None \<Rightarrow> None
           | Some ex \<Rightarrow>
               (case (if ex then kfs_delete_file (vfs_fs s) (vf_path f) else Some (vfs_fs s)) of
                  None \<Rightarrow> None
                | Some fs1 \<Rightarrow>
                    (case kfs_create_file fs1 (drive_sectors s) (stack_mem s) (vf_path f)
                            (get_bytes (hbytes (vfs_heap s)) (ptr (vf_buf f)) (unat (vf_size f))) of
                       None \<Rightarrow> None
                     | Some (_, fs2) \<Rightarrow> Some (set_fd (s\<lparr>vfs_fs := fs2\<rparr>) i (f\<lparr>vf_dirty := False\<rparr>))))
         else Some s)"

definition close_slot :: "vfs \<Rightarrow> nat \<Rightarrow> (unit outcome \<times> vfs) option" where
  "close_slot s i =
     (case flush_locked s i of
        None \<Rightarrow> None
      | Some s1 \<Rightarrow>
          (case vfs_kfree s1 (vf_buf (fd_at s1 i)) () of
             None \<Rightarrow> None
           | Some (Panic b, s2) \<Rightarrow> Some (Panic b, s2)
           | Some (Ret _, s2) \<Rightarrow> Some (Ret (), set_fd s2 i (fd_at s2 i\<lparr>vf_buf := None, used := False\<rparr>))))"

definition vfs_close :: "vfs \<Rightarrow> int \<Rightarrow> int \<Rightarrow> (int outcome \<times> vfs) option" where
  "vfs_close s me fd =
     (case resolve s me fd of
        None \<Rightarrow> Some (Ret (- 1), s)
      | Some i \<Rightarrow>
          (case close_slot s i of
             None \<Rightarrow> None
           | Some (Panic b, s1) \<Rightarrow> Some (Panic b, s1)
           | Some (Ret _, s1) \<Rightarrow> Some (Ret 0, s1)))"

fun close_slots :: "vfs \<Rightarrow> nat list \<Rightarrow> (unit outcome \<times> vfs) option" where
  "close_slots s [] = Some (Ret (), s)"
| "close_slots s (i # is) =
     (if used (fd_at s i)
      then (case close_slot s i of
              None \<Rightarrow> None
            | Some (Panic b, s1) \<Rightarrow> Some (Panic b, s1)
            | Some (Ret _, s1) \<Rightarrow> close_slots s1 is)
      else close_slots s is)"

definition vfs_close_all :: "vfs \<Rightarrow> int \<Rightarrow> (unit outcome \<times> vfs) option" where
  "vfs_close_all s task_id =
     (if task_id < 0 \<or> task_id \<ge> int VFS_TASKS then Some (Ret (), s)
      else close_slots s (map (\<lambda>k. nat task_id * VFS_MAX_FDS + k) [0..<VFS_MAX_FDS]))"

end
