(* ===== verification/Kfs_Chain.thy ===== *)
theory Kfs_Chain
  imports Kyuzen_Fs
begin

text \<open>
  Chains of the FAT: the loops of the file system along a chain, related to functions on the
  list of its sectors, and what allocating and freeing do to the table, the disk and the copy of
  the table on disk.
\<close>

section \<open>Chains\<close>

fun linked :: "(nat \<Rightarrow> u32) \<Rightarrow> nat list \<Rightarrow> bool" where
  "linked f [] = False"
| "linked f [x] = (f x = FAT_EOF)"
| "linked f (x # y # ys) = (f x = of_nat y \<and> linked f (y # ys))"

definition geo_ok :: "kfs \<Rightarrow> bool" where
  "geo_ok s \<longleftrightarrow> 2 \<le> root s \<and> root s = 1 + fat_sectors_needed s \<and> total_disk_sectors s \<le> 128 * fat_sectors_needed s \<and>
     root s < total_disk_sectors s \<and> total_disk_sectors s \<le> 0xFFFFFFFF"

definition in_data :: "kfs \<Rightarrow> nat \<Rightarrow> bool" where
  "in_data s x \<longleftrightarrow> root s \<le> x \<and> x < total_disk_sectors s"

definition chain :: "kfs \<Rightarrow> nat list \<Rightarrow> bool" where
  "chain s xs \<longleftrightarrow> linked (fat_table s) xs \<and> distinct xs \<and> (\<forall>x \<in> set xs. in_data s x)"

lemma sector_word:
  assumes "geo_ok s" "in_data s x"
  shows "unat (of_nat x :: u32) = x" "(of_nat x :: u32) \<noteq> FAT_EOF" "(of_nat x :: u32) \<noteq> FAT_FREE" "\<not> (of_nat x :: u32) < 2"
proof -
  have x: "2 \<le> x" "x < 4294967295" using assms by (auto simp: geo_ok_def in_data_def)
  then show u: "unat (of_nat x :: u32) = x" by (simp add: unat_of_nat_small)
  show "(of_nat x :: u32) \<noteq> FAT_EOF"
  proof
    assume "(of_nat x :: u32) = FAT_EOF"
    then have "unat (of_nat x :: u32) = 4294967295" by simp
    with u x show False by simp
  qed
  show "(of_nat x :: u32) \<noteq> FAT_FREE"
  proof
    assume "(of_nat x :: u32) = FAT_FREE"
    then have "unat (of_nat x :: u32) = 0" by simp
    with u x show False by simp
  qed
  show "\<not> (of_nat x :: u32) < 2" using u x by (simp add: word_less_nat_alt)
qed

lemma linked_ne: "linked f xs \<Longrightarrow> xs \<noteq> []"
  by auto

lemma linked_cong: "linked f xs \<Longrightarrow> (\<And>x. x \<in> set xs \<Longrightarrow> g x = f x) \<Longrightarrow> linked g xs"
  by (induction f xs rule: linked.induct) auto

lemma linked_snoc:
  "linked f (xs @ [y]) \<Longrightarrow> y \<notin> set xs \<Longrightarrow> z \<notin> set (xs @ [y]) \<Longrightarrow> distinct xs \<Longrightarrow>
   linked (f(y := of_nat z, z := FAT_EOF)) (xs @ [y, z])"
proof (induction f xs rule: linked.induct)
  case (3 f a b ys)
  then show ?case by auto
qed auto

lemma chain_ne: "chain s xs \<Longrightarrow> xs \<noteq> []"
  by (auto simp: chain_def)

lemma chain_not_free:
  assumes "geo_ok s" "chain s xs" "x \<in> set xs"
  shows "fat_table s x \<noteq> FAT_FREE"
proof -
  have "linked f xs \<Longrightarrow> x \<in> set xs \<Longrightarrow> \<forall>y \<in> set xs. (of_nat y :: u32) \<noteq> FAT_FREE \<Longrightarrow> f x \<noteq> FAT_FREE" for f
    by (induction f xs rule: linked.induct) auto
  then show ?thesis using assms sector_word(3) [OF assms(1)] by (auto simp: chain_def)
qed

lemma chain_induct [consumes 2, case_names one more]:
  assumes geo: "geo_ok s" and c: "chain s xs"
    and one: "\<And>x. in_data s x \<Longrightarrow> fat_table s x = FAT_EOF \<Longrightarrow> P [x]"
    and more: "\<And>x y ys. in_data s x \<Longrightarrow> fat_table s x = of_nat y \<Longrightarrow> x \<notin> set (y # ys) \<Longrightarrow> chain s (y # ys) \<Longrightarrow>
       P (y # ys) \<Longrightarrow> P (x # y # ys)"
  shows "P xs"
  using c
proof (induction xs)
  case Nil
  then show ?case by (simp add: chain_def)
next
  case (Cons x xs)
  show ?case
  proof (cases xs)
    case Nil
    then show ?thesis using Cons.prems one by (simp add: chain_def)
  next
    case (Cons y ys)
    then show ?thesis using Cons.prems Cons.IH more by (auto simp: chain_def)
  qed
qed

section \<open>Walks along a chain\<close>

abbreviation slots :: "nat list \<Rightarrow> (nat \<times> nat) list" where
  "slots xs \<equiv> List.product xs [0..<16]"

definition find_in :: "kfs \<Rightarrow> bytes \<Rightarrow> nat list \<Rightarrow> (kfs_file_entry \<times> nat \<times> nat) option" where
  "find_in s name xs = map_option (\<lambda>(sec, i). (entry_at (disk s sec) i, sec, i))
     (find (\<lambda>(sec, i). slot_matches (disk s sec) name i) (slots xs))"

lemma find_append: "find P (xs @ ys) = (case find P xs of Some x \<Rightarrow> Some x | None \<Rightarrow> find P ys)"
  by (induction xs) auto

lemma find_map_pair: "find (\<lambda>(a, b). P a b) (map (Pair x) ys) = map_option (Pair x) (find (P x) ys)"
  by (induction ys) auto

lemma find_entry_chain:
  assumes "geo_ok s" "chain s xs"
  shows "find_entry_loop s (of_nat (hd xs)) name = Some (find_in s name xs)"
  using assms
proof (induction rule: chain_induct)
  case (one x)
  have "find_entry_loop s FAT_EOF name = Some None" by (subst find_entry_loop.simps) simp
  then show ?case using one sector_word [OF assms(1) one(1)]
    by (subst find_entry_loop.simps) (auto simp: find_in_def find_append find_map_pair split: option.splits)
next
  case (more x y ys)
  then show ?case using sector_word [OF assms(1) more(1)]
    by (subst find_entry_loop.simps) (auto simp: find_in_def find_append find_map_pair split: option.splits)
qed

lemma find_entry_in_chain:
  assumes "geo_ok s" "chain s xs" "x = hd xs"
  shows "find_entry_in s (of_nat x) name = Some (find_in s name xs)"
proof -
  have "in_data s (hd xs)" using assms(2) chain_ne [OF assms(2)] by (simp add: chain_def)
  then show ?thesis using find_entry_chain [OF assms(1,2)] sector_word(4) [OF assms(1)] assms(3) by (simp add: find_entry_in_def)
qed

definition free_in :: "kfs \<Rightarrow> nat list \<Rightarrow> (nat \<times> nat) option" where
  "free_in s xs = find (\<lambda>(sec, i). flags (entry_at (disk s sec) i) = FLAG_EMPTY) (slots xs)"

lemma free_slot_chain:
  assumes "geo_ok s" "chain s xs"
  shows "free_slot_loop s (of_nat (hd xs)) l =
    Some (case free_in s xs of Some (sec, i) \<Rightarrow> Inl (of_nat sec, i) | None \<Rightarrow> Inr (of_nat (last xs)))"
  using assms
proof (induction arbitrary: l rule: chain_induct)
  case (one x)
  have "free_slot_loop s FAT_EOF (of_nat x) = Some (Inr (of_nat x))" by (subst free_slot_loop.simps) simp
  then show ?case using one sector_word [OF assms(1) one(1)]
    by (subst free_slot_loop.simps) (auto simp: free_in_def find_append find_map_pair split: option.splits)
next
  case (more x y ys)
  then show ?case using sector_word [OF assms(1) more(1)]
    by (subst free_slot_loop.simps) (auto simp: free_in_def find_append find_map_pair split: option.splits)
qed

definition content :: "kfs \<Rightarrow> nat list \<Rightarrow> bytes" where
  "content s xs = concat (map (disk s) xs)"

lemma read_chain_content:
  assumes "geo_ok s" "chain s xs" "\<forall>x \<in> set xs. length (disk s x) = 512"
  shows "read_chain s (of_nat (hd xs)) n out = Some (out @ take n (content s xs))"
  using assms
proof (induction arbitrary: n out rule: chain_induct)
  case (one x)
  have e: "read_chain s FAT_EOF k out' = Some out'" for k out' by (subst read_chain.simps) simp
  show ?case using one e sector_word [OF assms(1) one(1)]
    by (subst read_chain.simps) (auto simp: content_def Let_def)
next
  case (more x y ys)
  then show ?case using sector_word [OF assms(1) more(1)]
    by (subst read_chain.simps) (auto simp: content_def Let_def)
qed

section \<open>The copy of the FAT on disk\<close>

definition fat_synced :: "kfs \<Rightarrow> bool" where
  "fat_synced s \<longleftrightarrow> (\<forall>k < fat_sectors_needed s. disk s (1 + k) = fat_sector s k)"

text \<open>A change of the table, its copy and the data sectors in \<open>Y\<close> only.\<close>

definition same_data :: "nat set \<Rightarrow> kfs \<Rightarrow> kfs \<Rightarrow> bool" where
  "same_data Y s s' \<longleftrightarrow> s' = s\<lparr>disk := disk s', fat_table := fat_table s'\<rparr> \<and>
     (\<forall>x. x = 0 \<or> root s \<le> x \<and> x \<notin> Y \<longrightarrow> disk s' x = disk s x)"

lemma sync_frame [simp]:
  "fat_table (kfs_sync_fat s i) = fat_table s" "total_disk_sectors (kfs_sync_fat s i) = total_disk_sectors s"
  "fat_sectors_needed (kfs_sync_fat s i) = fat_sectors_needed s" "root_dir_sector (kfs_sync_fat s i) = root_dir_sector s"
  "magic (kfs_sync_fat s i) = magic s" "total_files (kfs_sync_fat s i) = total_files s" "padding (kfs_sync_fat s i) = padding s"
  by (simp_all add: kfs_sync_fat_def ata_write_sector_def)

lemma sync_disk:
  assumes "geo_ok s" "x = 0 \<or> root s \<le> x"
  shows "disk (kfs_sync_fat s i) x = disk s x"
proof -
  have "i < total_disk_sectors s \<Longrightarrow> i div 128 < fat_sectors_needed s"
    using assms(1) by (auto simp: geo_ok_def less_mult_imp_div_less)
  then show ?thesis using assms by (auto simp: kfs_sync_fat_def ata_write_sector_def geo_ok_def)
qed

lemma fat_sector_upd: "i div 128 \<noteq> k \<Longrightarrow> fat_sector (set_fat s i v) k = fat_sector s k"
proof -
  assume ne: "i div 128 \<noteq> k"
  then have "128 * k + j \<noteq> i" if "j < 128" for j using that by auto
  then show ?thesis
    unfolding fat_sector_def by (intro arg_cong [where f = concat] map_cong) (auto simp del: upt_rec_numeral)
qed

lemma fat_sector_cong: "fat_table s' = fat_table s \<Longrightarrow> fat_sector s' = fat_sector s"
  by (simp add: fat_sector_def fun_eq_iff)

lemma sync_synced:
  assumes "geo_ok s" "fat_synced s" "i < total_disk_sectors s"
  shows "fat_synced (kfs_sync_fat (set_fat s i v) i)"
  unfolding fat_synced_def
proof (intro allI impI)
  fix k assume "k < fat_sectors_needed (kfs_sync_fat (set_fat s i v) i)"
  then have k: "k < fat_sectors_needed s" by simp
  have f: "fat_sector (kfs_sync_fat (set_fat s i v) i) k = fat_sector (set_fat s i v) k"
    by (rule fun_cong [OF fat_sector_cong]) simp
  show "disk (kfs_sync_fat (set_fat s i v) i) (1 + k) = fat_sector (kfs_sync_fat (set_fat s i v) i) k"
  proof (cases "k = i div 128")
    case True
    then show ?thesis using assms(3) unfolding f by (simp add: kfs_sync_fat_def ata_write_sector_def)
  next
    case False
    then show ?thesis using assms(2,3) k fat_sector_upd [of i k s v] unfolding f
      by (simp add: kfs_sync_fat_def ata_write_sector_def fat_synced_def)
  qed
qed

text \<open>One update of the table, with its sector written back.\<close>

lemma set_sync:
  assumes "geo_ok s" "i < total_disk_sectors s" "s' = kfs_sync_fat (set_fat s i v) i"
  shows "same_data Y s s'" "fat_table s' = (fat_table s)(i := v)" "geo_ok s'" "fat_synced s \<Longrightarrow> fat_synced s'"
proof -
  have geo: "geo_ok (set_fat s i v)" using assms(1) by (simp add: geo_ok_def)
  show "fat_table s' = (fat_table s)(i := v)" using assms(3) by simp
  show "same_data Y s s'" using sync_disk [OF geo] unfolding same_data_def assms(3)
    by (auto simp: kfs_sync_fat_def ata_write_sector_def)
  show "geo_ok s'" using assms(1) unfolding assms(3) by (simp add: geo_ok_def)
  show "fat_synced s \<Longrightarrow> fat_synced s'" unfolding assms(3) by (rule sync_synced [OF assms(1) _ assms(2)])
qed

lemma same_data_refl [simp]: "same_data Y s s"
  by (simp add: same_data_def)

lemma same_data_fields:
  assumes "same_data Y s s'"
  shows "total_disk_sectors s' = total_disk_sectors s" "fat_sectors_needed s' = fat_sectors_needed s"
    "root_dir_sector s' = root_dir_sector s" "magic s' = magic s" "total_files s' = total_files s" "padding s' = padding s"
    "x = 0 \<or> root s \<le> x \<and> x \<notin> Y \<Longrightarrow> disk s' x = disk s x" "in_data s' = in_data s" "geo_ok s' = geo_ok s"
proof -
  have e: "s' = s\<lparr>disk := disk s', fat_table := fat_table s'\<rparr>" using assms by (simp only: same_data_def)
  show f: "total_disk_sectors s' = total_disk_sectors s" "fat_sectors_needed s' = fat_sectors_needed s"
    "root_dir_sector s' = root_dir_sector s" "magic s' = magic s" "total_files s' = total_files s" "padding s' = padding s"
    by (subst e, simp)+
  show "x = 0 \<or> root s \<le> x \<and> x \<notin> Y \<Longrightarrow> disk s' x = disk s x" using assms by (auto simp only: same_data_def)
  show "in_data s' = in_data s" "geo_ok s' = geo_ok s" using f by (simp_all add: in_data_def geo_ok_def fun_eq_iff)
qed

lemma same_data_trans:
  assumes "same_data Y s s1" "same_data Z s1 s2" "Y \<subseteq> W" "Z \<subseteq> W"
  shows "same_data W s s2"
proof -
  have "s2 = s1\<lparr>disk := disk s2, fat_table := fat_table s2\<rparr>" "s1 = s\<lparr>disk := disk s1, fat_table := fat_table s1\<rparr>"
    using assms(1,2) by (simp_all only: same_data_def)
  then have e: "s2 = s\<lparr>disk := disk s2, fat_table := fat_table s2\<rparr>"
    by (metis kfs.surjective kfs.update_convs(1,2))
  have "disk s2 x = disk s x" if "x = 0 \<or> root s \<le> x \<and> x \<notin> W" for x
    using same_data_fields(7) [OF assms(1), of x] same_data_fields(7) [OF assms(2), of x] same_data_fields(3) [OF assms(1)] that assms(3,4)
    by (metis subsetD)
  with e show ?thesis unfolding same_data_def by blast
qed

lemma write_same_data: "root s \<le> x \<Longrightarrow> x \<noteq> 0 \<Longrightarrow> x \<in> Y \<Longrightarrow> same_data Y s (ata_write_sector s x b)"
  by (auto simp: same_data_def ata_write_sector_def)

lemma write_synced:
  assumes "geo_ok s" "x = 0 \<or> root s \<le> x" "fat_synced s"
  shows "fat_synced (ata_write_sector s x b)"
  using assms fat_sector_cong [of "ata_write_sector s x b" s]
  by (auto simp: fat_synced_def ata_write_sector_def geo_ok_def)

section \<open>Freeing a chain\<close>

lemma free_chain_spec:
  assumes "geo_ok s" "chain s xs"
  shows "\<exists>s'. free_chain s (of_nat (hd xs)) = Some s' \<and> same_data {} s s' \<and> (fat_synced s \<longrightarrow> fat_synced s') \<and>
    fat_table s' = (\<lambda>x. if x \<in> set xs then FAT_FREE else fat_table s x)"
  using assms
proof (induction xs arbitrary: s)
  case Nil
  then show ?case by (simp add: chain_def)
next
  case (Cons x xs)
  let ?s = "kfs_sync_fat (set_fat s x FAT_FREE) x"
  have x: "in_data s x" "x < total_disk_sectors s" using Cons.prems(2) by (auto simp: chain_def in_data_def)
  note w = sector_word [OF Cons.prems(1) x(1)]
  note u = set_sync [OF Cons.prems(1) x(2) refl, where v = FAT_FREE]
  have step: "free_chain s (of_nat x) = free_chain ?s (fat_table s x)"
    using w by (subst free_chain.simps) simp
  have e: "free_chain t FAT_EOF = Some t" for t by (subst free_chain.simps) simp
  show ?case
  proof (cases xs)
    case Nil
    then have "fat_table s x = FAT_EOF" using Cons.prems(2) by (simp add: chain_def)
    then show ?thesis using step e u Nil by (auto simp: fun_eq_iff)
  next
    case Xs: (Cons y ys)
    have "fat_table s x = of_nat y" using Cons.prems(2) Xs by (simp add: chain_def)
    have "linked (fat_table ?s) xs"
      by (rule linked_cong [of "fat_table s"]) (use Cons.prems(2) Xs in \<open>auto simp: chain_def\<close>)
    then have c: "chain ?s xs"
      using Cons.prems(2) same_data_fields(8) [OF u(1) [where Y = "{}"]] by (auto simp: chain_def)
    from Cons.IH [OF u(3) c] obtain s' where
      s': "free_chain ?s (of_nat (hd xs)) = Some s'" "same_data {} ?s s'" "fat_synced ?s \<longrightarrow> fat_synced s'"
        "fat_table s' = (\<lambda>z. if z \<in> set xs then FAT_FREE else fat_table ?s z)" by auto
    have "fat_table s' = (\<lambda>z. if z \<in> set (x # xs) then FAT_FREE else fat_table s z)"
      unfolding s'(4) u(2) by (auto simp: fun_eq_iff)
    then show ?thesis
      using s'(1-3) step same_data_trans [OF u(1) [where Y = "{}"] s'(2) order_refl order_refl] u(4) \<open>fat_table s x = of_nat y\<close> Xs by auto
  qed
qed

section \<open>Allocating a chain\<close>

lemma find_free_spec:
  assumes "find_free_sector s \<noteq> 0"
  shows "root s < find_free_sector s" "find_free_sector s < total_disk_sectors s" "fat_table s (find_free_sector s) = FAT_FREE"
proof -
  obtain x where "find (\<lambda>i. fat_table s i = FAT_FREE) [root s + 1..<total_disk_sectors s] = Some x" "find_free_sector s = x"
    using assms by (auto simp: find_free_sector_def split: option.splits)
  then show "root s < find_free_sector s" "find_free_sector s < total_disk_sectors s" "fat_table s (find_free_sector s) = FAT_FREE"
    unfolding find_upt_Some by auto
qed

definition allocated :: "kfs \<Rightarrow> kfs \<Rightarrow> nat list \<Rightarrow> bytes \<Rightarrow> bool" where
  "allocated s s' ys data \<longleftrightarrow>
     distinct ys \<and> (\<forall>y \<in> set ys. root s < y \<and> y < total_disk_sectors s \<and> fat_table s y = FAT_FREE) \<and>
     same_data (set ys) s s' \<and> (\<forall>y \<in> set ys. length (disk s' y) = 512) \<and>
     take (length data) (content s' ys) = take (512 * length ys) data \<and> (fat_synced s \<longrightarrow> fat_synced s')"

lemma write_one:
  assumes geo: "geo_ok s" and x: "x = find_free_sector s" "x \<noteq> 0"
    and s1: "s1 = kfs_sync_fat s0 x" "same_data {} s s0" "fat_table s0 = f" "fat_synced s \<longrightarrow> fat_synced s1"
    and s2: "s2 = ata_write_sector s1 x (take 512 data @ replicate (512 - length (take 512 data)) 0)"
  shows "same_data {x} s s2" "fat_table s2 = f" "geo_ok s2" "fat_synced s \<longrightarrow> fat_synced s2"
    "length (disk s2 x) = 512" "take (length data) (disk s2 x) = take 512 data"
proof -
  have geo0: "geo_ok s0" using same_data_fields(9) [OF s1(2)] geo by simp
  have d1: "same_data {} s0 s1"
    using sync_disk [OF geo0] unfolding s1(1) same_data_def by (auto simp: kfs_sync_fat_def ata_write_sector_def)
  note d = same_data_trans [OF s1(2) d1 order_refl order_refl]
  note xx = find_free_spec [of s, folded x(1), OF x(2)]
  have r1: "root s1 = root s" "geo_ok s1" using same_data_fields [OF d] geo by simp_all
  show "same_data {x} s s2"
    unfolding s2 by (rule same_data_trans [OF d write_same_data [of s1 x "{x}"]]) (use xx r1 x in auto)
  show "fat_table s2 = f" using s1(1,3) s2 by (simp add: ata_write_sector_def)
  show "geo_ok s2" using r1(2) s2 by (simp add: geo_ok_def ata_write_sector_def)
  show "fat_synced s \<longrightarrow> fat_synced s2"
    using s1(4) write_synced [OF r1(2), of x] xx r1(1) s2 by simp
  show "length (disk s2 x) = 512" "take (length data) (disk s2 x) = take 512 data"
    using s2 by (cases "length data \<le> 512"; simp add: ata_write_sector_def)+
qed

text \<open>Two entries of the table updated, then the sectors of both written back.\<close>

lemma sync_two:
  assumes geo: "geo_ok s" and p: "p < total_disk_sectors s" and x: "x < total_disk_sectors s"
    and f: "\<And>z. z \<noteq> p \<Longrightarrow> z \<noteq> x \<Longrightarrow> f z = fat_table s z"
    and s': "s' = kfs_sync_fat (kfs_sync_fat (s\<lparr>fat_table := f\<rparr>) p) x"
  shows "same_data {} s s'" "fat_table s' = f" "fat_synced s \<longrightarrow> fat_synced s'" "same_data {} s (kfs_sync_fat (s\<lparr>fat_table := f\<rparr>) p)"
proof -
  let ?a = "s\<lparr>fat_table := f\<rparr>" and ?b = "kfs_sync_fat (s\<lparr>fat_table := f\<rparr>) p"
  have geo1: "geo_ok ?a" "geo_ok ?b" using geo by (simp_all add: geo_ok_def)
  show "fat_table s' = f" using s' by simp
  show d: "same_data {} s ?b" using sync_disk [OF geo1(1)] unfolding same_data_def
    by (auto simp: kfs_sync_fat_def ata_write_sector_def)
  have "same_data {} ?b s'" using sync_disk [OF geo1(2)] unfolding same_data_def s'
    by (auto simp: kfs_sync_fat_def ata_write_sector_def)
  with d show "same_data {} s s'" using same_data_trans by blast
  show "fat_synced s \<longrightarrow> fat_synced s'"
  proof
    assume syn: "fat_synced s"
    show "fat_synced s'" unfolding fat_synced_def
    proof (intro allI impI)
      fix k assume "k < fat_sectors_needed s'"
      then have k: "k < fat_sectors_needed s" using s' by simp
      have fs: "fat_sector s' k = fat_sector ?a k" "fat_sector ?b k = fat_sector ?a k"
        by (rule fun_cong [OF fat_sector_cong], simp add: s')+
      have same: "fat_sector ?a k = fat_sector s k" if "k \<noteq> p div 128" "k \<noteq> x div 128"
      proof -
        have "128 * k + j \<noteq> p \<and> 128 * k + j \<noteq> x" if "j < 128" for j using that \<open>k \<noteq> p div 128\<close> \<open>k \<noteq> x div 128\<close> by auto
        then show ?thesis unfolding fat_sector_def
          by (intro arg_cong [where f = concat] map_cong) (auto simp: f simp del: upt_rec_numeral)
      qed
      show "disk s' (1 + k) = fat_sector s' k"
        using p x syn k same fs unfolding s'
        by (cases "k = x div 128"; cases "k = p div 128") (auto simp: kfs_sync_fat_def ata_write_sector_def fat_synced_def)
    qed
  qed
qed

lemma content_cong: "(\<And>x. x \<in> set xs \<Longrightarrow> disk s' x = disk s x) \<Longrightarrow> content s' xs = content s xs"
  by (simp add: content_def cong: map_cong)

lemma allocated_Nil: "allocated s s [] data"
  by (simp add: allocated_def content_def)

lemma allocated_Cons:
  assumes geo: "geo_ok s" and x: "x = find_free_sector s" "x \<noteq> 0" and s1: "same_data {x} s s1" "fat_synced s \<longrightarrow> fat_synced s1"
    "length (disk s1 x) = 512" "take (length data) (disk s1 x) = take 512 data"
    and fat: "\<And>z. fat_table s1 z = FAT_FREE \<Longrightarrow> z \<noteq> x \<and> fat_table s z = FAT_FREE"
    and al: "allocated s1 s' ys (drop 512 data)"
  shows "allocated s s' (x # ys) data"
proof -
  note xx = find_free_spec [of s, folded x(1), OF x(2)]
  note sf = same_data_fields [OF s1(1)]
  have ys: "root s < y" "y < total_disk_sectors s" "fat_table s y = FAT_FREE" "y \<noteq> x" if "y \<in> set ys" for y
    using al that sf fat [of y] by (auto simp: allocated_def)
  have al2: "same_data (set ys) s1 s'" "fat_synced s1 \<longrightarrow> fat_synced s'" "\<And>y. y \<in> set ys \<Longrightarrow> length (disk s' y) = 512"
    "take (length data - 512) (content s' ys) = take (512 * length ys) (drop 512 data)" "distinct ys"
    using al by (auto simp: allocated_def)
  have dx: "disk s' x = disk s1 x"
    using same_data_fields(7) [OF al2(1), of x] ys(4) sf(3) xx(1) by auto
  have "same_data (set (x # ys)) s s'" by (rule same_data_trans [OF s1(1) al2(1)]) auto
  moreover have "take (length data) (content s' (x # ys)) = take (512 * length (x # ys)) data"
  proof -
    have "take (length data) (content s' (x # ys)) = take (length data) (disk s1 x) @ take (length data - 512) (content s' ys)"
      using dx s1(3) by (simp add: content_def)
    also have "\<dots> = take 512 data @ take (512 * length ys) (drop 512 data)" using s1(4) al2(4) by simp
    also have "\<dots> = take (512 * length (x # ys)) data" by (simp add: take_add)
    finally show ?thesis .
  qed
  ultimately show ?thesis
    unfolding allocated_def using xx ys al2 s1(2,3) dx by auto
qed

lemma write_chain_tail:
  assumes "geo_ok s" "in_data s prev" "fat_table s prev = FAT_EOF" "start \<noteq> 0" "write_chain s n start prev data = (r, s')"
  shows "\<exists>ys. allocated s s' ys data \<and> prev \<notin> set ys \<and> linked (fat_table s') (prev # ys) \<and>
    (\<forall>x. x \<notin> set (prev # ys) \<longrightarrow> fat_table s' x = fat_table s x) \<and>
    (case r of None \<Rightarrow> find_free_sector s' = 0 \<and> length ys < n | Some st \<Rightarrow> st = start \<and> length ys = n)"
  using assms
proof (induction n arbitrary: s prev data)
  case 0
  then show ?case by (intro exI [of _ "[]"]) (auto simp: allocated_Nil)
next
  case (Suc n)
  let ?x = "find_free_sector s"
  show ?case
  proof (cases "?x = 0")
    case True
    then show ?thesis using Suc.prems by (intro exI [of _ "[]"]) (auto simp: allocated_Nil)
  next
    case False
    note xx = find_free_spec [OF False]
    let ?f = "(fat_table s)(?x := FAT_EOF, prev := of_nat ?x)"
    let ?s2 = "kfs_sync_fat (s\<lparr>fat_table := ?f\<rparr>) prev"
    define s4 where "s4 = ata_write_sector (kfs_sync_fat ?s2 ?x) ?x (take 512 data @ replicate (512 - length (take 512 data)) 0)"
    have px: "prev < total_disk_sectors s" "prev \<noteq> ?x" using Suc.prems(2,3) xx(3) by (auto simp: in_data_def)
    note two = sync_two [OF Suc.prems(1) px(1) xx(2) _ refl, where f = ?f]
    have fz: "\<And>z. z \<noteq> prev \<Longrightarrow> z \<noteq> ?x \<Longrightarrow> ?f z = fat_table s z" by simp
    note w = write_one [OF Suc.prems(1) refl False refl two(4) [OF fz] _ two(3) [OF fz] s4_def, of ?f, simplified]
    have eq: "write_chain s (Suc n) start prev data = write_chain s4 n start ?x (drop 512 data)"
      using False Suc.prems(4) by (simp add: Let_def s4_def)
    have call4: "write_chain s4 n start ?x (drop 512 data) = (r, s')" using Suc.prems(5) unfolding eq .
    have in4: "in_data s4 ?x" using xx same_data_fields(8) [OF w(1)] by (auto simp: in_data_def)
    have eof4: "fat_table s4 ?x = FAT_EOF" using w(2) px by simp
    obtain ys where ys: "allocated s4 s' ys (drop 512 data)" "?x \<notin> set ys" "linked (fat_table s') (?x # ys)"
      "\<forall>z. z \<notin> set (?x # ys) \<longrightarrow> fat_table s' z = fat_table s4 z" "case r of None \<Rightarrow> find_free_sector s' = 0 \<and> length ys < n | Some st \<Rightarrow> st = start \<and> length ys = n"
      using Suc.IH [OF w(3) in4 eof4 Suc.prems(4) call4] by (elim exE conjE) (rule that)
    have ofx: "(of_nat ?x :: u32) \<noteq> FAT_FREE" using sector_word(3) [OF Suc.prems(1)] xx by (auto simp: in_data_def)
    have "allocated s s' (?x # ys) data"
      by (rule allocated_Cons [OF Suc.prems(1) refl False w(1,4-6) _ ys(1)])
        (use w(2) ofx in \<open>auto split: if_splits\<close>)
    moreover have py: "prev \<notin> set ys" using ys(1) w(2) ofx by (auto simp: allocated_def)
    moreover have "fat_table s' prev = of_nat ?x" using ys(4) py px w(2) by simp
    ultimately show ?thesis using ys(3-5) w(2) px
      by (intro exI [of _ "?x # ys"]) (auto split: option.splits)
  qed
qed

lemma write_chain_spec:
  assumes geo: "geo_ok s" and n: "0 < n" and call: "write_chain s n 0 0 data = (r, s')"
  shows "\<exists>ys. allocated s s' ys data \<and> (\<forall>x. x \<notin> set ys \<longrightarrow> fat_table s' x = fat_table s x) \<and>
    (case r of None \<Rightarrow> find_free_sector s' = 0 \<and> length ys < n | Some st \<Rightarrow> length ys = n \<and> st = hd ys \<and> linked (fat_table s') ys)"
proof -
  obtain m where m: "n = Suc m" using n by (cases n) auto
  let ?x = "find_free_sector s"
  show ?thesis
  proof (cases "?x = 0")
    case True
    then show ?thesis using call m by (intro exI [of _ "[]"]) (auto simp: allocated_Nil)
  next
    case False
    note xx = find_free_spec [OF False]
    define s4 where "s4 = ata_write_sector (kfs_sync_fat (set_fat s ?x FAT_EOF) ?x) ?x (take 512 data @ replicate (512 - length (take 512 data)) 0)"
    note one = set_sync [OF geo xx(2) refl, where v = FAT_EOF]
    have d0: "same_data {} s (set_fat s ?x FAT_EOF)" by (simp add: same_data_def)
    note w = write_one [OF geo refl False refl d0 refl impI [OF one(4)] s4_def, simplified]
    have eq: "write_chain s n 0 0 data = write_chain s4 m ?x ?x (drop 512 data)" using False m by (simp add: Let_def s4_def)
    have call4: "write_chain s4 m ?x ?x (drop 512 data) = (r, s')" using call unfolding eq .
    have in4: "in_data s4 ?x" using xx same_data_fields(8) [OF w(1)] by (auto simp: in_data_def)
    have eof4: "fat_table s4 ?x = FAT_EOF" using w(2) by simp
    obtain ys where ys: "allocated s4 s' ys (drop 512 data)" "?x \<notin> set ys" "linked (fat_table s') (?x # ys)"
      "\<forall>z. z \<notin> set (?x # ys) \<longrightarrow> fat_table s' z = fat_table s4 z" "case r of None \<Rightarrow> find_free_sector s' = 0 \<and> length ys < m | Some st \<Rightarrow> st = ?x \<and> length ys = m"
      using write_chain_tail [OF w(3) in4 eof4 False call4] by (elim exE conjE) (rule that)
    have "allocated s s' (?x # ys) data"
      by (rule allocated_Cons [OF geo refl False w(1,4-6) _ ys(1)]) (use w(2) in \<open>auto split: if_splits\<close>)
    then show ?thesis using ys(3-5) w(2) m by (intro exI [of _ "?x # ys"]) (auto split: option.splits)
  qed
qed

text \<open>The sectors a file can still get.\<close>

definition free_sectors :: "kfs \<Rightarrow> nat set" where
  "free_sectors s = {y. root s < y \<and> y < total_disk_sectors s \<and> fat_table s y = FAT_FREE}"

lemma find_free_none: "find_free_sector s = 0 \<longleftrightarrow> free_sectors s = {}"
proof (cases "find (\<lambda>i. fat_table s i = FAT_FREE) [root s + 1..<total_disk_sectors s]")
  case None
  have "find_free_sector s = 0" unfolding find_free_sector_def None by simp
  moreover have "free_sectors s = {}" using None unfolding find_None_iff by (auto simp: free_sectors_def)
  ultimately show ?thesis by simp
next
  case (Some x)
  then have "x \<in> free_sectors s" unfolding find_upt_Some by (auto simp: free_sectors_def)
  moreover have "x \<noteq> 0" using Some unfolding find_upt_Some by simp
  ultimately show ?thesis using Some by (auto simp: find_free_sector_def)
qed

lemma allocated_all:
  assumes al: "allocated s s' ys data" and fr: "\<forall>x. x \<notin> set ys \<longrightarrow> fat_table s' x = fat_table s x" and full: "find_free_sector s' = 0"
  shows "card (free_sectors s) \<le> length ys"
proof -
  have "free_sectors s \<subseteq> set ys"
    using full al fr same_data_fields(1,3) [of "set ys" s s'] unfolding find_free_none by (auto simp: free_sectors_def allocated_def)
  then have "card (free_sectors s) \<le> card (set ys)" by (rule card_mono [rotated]) simp
  also have "\<dots> \<le> length ys" by (rule card_length)
  finally show ?thesis .
qed

end
