(* ===== verification/Kfs_Invariant.thy ===== *)
theory Kfs_Invariant
  imports Kfs_Chain
begin

text \<open>
  The invariant of the file system. Ghost state: \<open>C\<close> maps the first sector of every file and
  directory to its chain, \<open>D\<close> is the set of directories. Chains are disjoint, every used slot
  of a directory names its own chain, names are unique within a directory.
\<close>

section \<open>Entries in a sector buffer\<close>

lemma entry_bytes_length [simp]: "length (filename e) = 23 \<Longrightarrow> length (entry_bytes e) = 32"
  by (simp add: entry_bytes_def)

lemma put_entry_length [simp]:
  "length buf = 512 \<Longrightarrow> i < 16 \<Longrightarrow> length (filename e) = 23 \<Longrightarrow> length (put_entry buf i e) = 512"
  by (simp add: put_entry_def)

lemma entry_at_put:
  assumes "length buf = 512" "i < 16" "length (filename e) = 23"
  shows "entry_at (put_entry buf i e) i = e"
proof -
  have "take 32 (drop (32 * i) (put_entry buf i e)) = entry_bytes e"
    using assms by (simp add: put_entry_def)
  moreover have "take 23 (entry_bytes e) = filename e" "entry_bytes e ! 23 = flags e"
    "drop 24 (entry_bytes e) = le32 (start_sector e) @ le32 (size_bytes e)" "drop 28 (entry_bytes e) = le32 (size_bytes e)"
    using assms(3) by (simp_all add: entry_bytes_def nth_append)
  moreover have "un_le32 (le32 a @ b) = un_le32 (le32 a)" for a b by (simp add: un_le32_def le32_def)
  ultimately show ?thesis by (simp add: entry_at_def)
qed

lemma entry_at_put_other:
  assumes "length buf = 512" "i < 16" "j < 16" "j \<noteq> i" "length (filename e) = 23"
  shows "entry_at (put_entry buf i e) j = entry_at buf j"
proof -
  have "take 32 (drop (32 * j) (put_entry buf i e)) = take 32 (drop (32 * j) buf)"
  proof (cases "j < i")
    case True
    then have "32 * j + 32 \<le> 32 * i" by simp
    then show ?thesis using assms by (simp add: put_entry_def take_drop)
  next
    case False
    then have "32 * i + 32 \<le> 32 * j" using assms(4) by simp
    then obtain k where "32 * j = 32 * i + 32 + k" using le_Suc_ex by blast
    then show ?thesis using assms by (simp add: put_entry_def ac_simps)
  qed
  then show ?thesis by (simp add: entry_at_def)
qed

lemma entry_at_clear:
  assumes "length buf = 512" "i < 16" "j < 16"
  shows "entry_at (buf[32 * i + 23 := FLAG_EMPTY]) j = (if j = i then (entry_at buf i)\<lparr>flags := FLAG_EMPTY\<rparr> else entry_at buf j)"
proof (cases "j = i")
  case True
  have "take 32 (drop (32 * i) (buf[32 * i + 23 := FLAG_EMPTY])) = (take 32 (drop (32 * i) buf))[23 := FLAG_EMPTY]"
    using assms by (simp add: drop_update_swap take_update_swap)
  moreover have "length (take 32 (drop (32 * i) buf)) = 32" using assms by simp
  ultimately show ?thesis using True assms
    by (simp add: entry_at_def Let_def take_update_swap drop_update_cancel list_update_beyond)
next
  case False
  have "take 32 (drop (32 * j) (buf[32 * i + 23 := FLAG_EMPTY])) = take 32 (drop (32 * j) buf)"
  proof (cases "i < j")
    case True
    then show ?thesis by (simp add: drop_update_cancel)
  next
    case False
    then have "32 * j + 32 \<le> 32 * i + 23" "32 * j \<le> 32 * i + 23" using \<open>j \<noteq> i\<close> by auto
    then show ?thesis by (simp add: drop_update_swap take_update_cancel)
  qed
  then show ?thesis using False by (simp add: entry_at_def)
qed

lemma entry_at_zero: "i < 16 \<Longrightarrow> flags (entry_at (replicate 512 FLAG_EMPTY) i) = FLAG_EMPTY"
  by (simp add: entry_at_def Let_def)

definition name_of :: "kfs_file_entry \<Rightarrow> bytes" where
  "name_of e = cstr (filename e)"

lemma slot_matches_iff:
  assumes "0 \<in> set (filename (entry_at buf i))"
  shows "slot_matches buf n i \<longleftrightarrow> flags (entry_at buf i) \<noteq> FLAG_EMPTY \<and> name_of (entry_at buf i) = n"
proof -
  have f: "filename (entry_at buf i) = take 23 (drop (32 * i) buf)" by (simp add: entry_at_def Let_def)
  then have "cstr (drop (32 * i) buf) = cstr (filename (entry_at buf i))"
    using takeWhile_append1 [of 0 "take 23 (drop (32 * i) buf)" "\<lambda>c. c \<noteq> 0" "drop 23 (drop (32 * i) buf)"] assms
    unfolding f cstr_def append_take_drop_id by simp
  then show ?thesis unfolding slot_matches_def name_of_def by simp
qed

section \<open>The invariant\<close>

type_synonym chains = "nat \<Rightarrow> nat list option"

abbreviation entry_in :: "kfs \<Rightarrow> nat \<Rightarrow> nat \<Rightarrow> kfs_file_entry" where
  "entry_in s sec i \<equiv> entry_at (disk s sec) i"

definition dir_slot :: "kfs \<Rightarrow> chains \<Rightarrow> nat \<Rightarrow> nat \<Rightarrow> nat \<Rightarrow> bool" where
  "dir_slot s C d sec i \<longleftrightarrow> (\<exists>xs. C d = Some xs \<and> sec \<in> set xs) \<and> i < 16 \<and> flags (entry_in s sec i) \<noteq> FLAG_EMPTY"

definition entry_ok :: "kfs \<Rightarrow> chains \<Rightarrow> nat set \<Rightarrow> kfs_file_entry \<Rightarrow> bool" where
  "entry_ok s C D e \<longleftrightarrow> 0 \<in> set (filename e) \<and> unat (start_sector e) \<noteq> root s \<and>
     (\<exists>xs. C (unat (start_sector e)) = Some xs \<and> (flags e \<noteq> FLAG_FOLDER \<longrightarrow> unat (size_bytes e) \<le> 512 * length xs)) \<and>
     (flags e = FLAG_FOLDER \<longleftrightarrow> unat (start_sector e) \<in> D)"

definition chains_ok :: "kfs \<Rightarrow> chains \<Rightarrow> bool" where
  "chains_ok s C \<longleftrightarrow>
     (\<forall>x xs. C x = Some xs \<longrightarrow> chain s xs \<and> hd xs = x \<and> (\<forall>y \<in> set xs. length (disk s y) = 512)) \<and>
     (\<forall>x y xs ys z. C x = Some xs \<longrightarrow> C y = Some ys \<longrightarrow> z \<in> set xs \<longrightarrow> z \<in> set ys \<longrightarrow> x = y)"

definition entries_ok :: "kfs \<Rightarrow> chains \<Rightarrow> nat set \<Rightarrow> bool" where
  "entries_ok s C D \<longleftrightarrow>
     (\<forall>d \<in> D. \<forall>sec i. dir_slot s C d sec i \<longrightarrow> entry_ok s C D (entry_in s sec i)) \<and>
     (\<forall>d \<in> D. \<forall>e \<in> D. \<forall>sec i sec' i'. dir_slot s C d sec i \<longrightarrow> dir_slot s C e sec' i' \<longrightarrow>
        start_sector (entry_in s sec i) = start_sector (entry_in s sec' i') \<longrightarrow> sec = sec' \<and> i = i') \<and>
     (\<forall>d \<in> D. \<forall>sec i sec' i'. dir_slot s C d sec i \<longrightarrow> dir_slot s C d sec' i' \<longrightarrow>
        name_of (entry_in s sec i) = name_of (entry_in s sec' i') \<longrightarrow> sec = sec' \<and> i = i')"

definition kfs_inv :: "kfs \<Rightarrow> chains \<Rightarrow> nat set \<Rightarrow> bool" where
  "kfs_inv s C D \<longleftrightarrow> geo_ok s \<and> chains_ok s C \<and> D \<subseteq> dom C \<and> root s \<in> D \<and> entries_ok s C D"

lemma kfs_invD:
  assumes "kfs_inv s C D"
  shows "geo_ok s" "chains_ok s C" "D \<subseteq> dom C" "root s \<in> D" "entries_ok s C D"
  using assms by (simp_all add: kfs_inv_def)

lemma chainD:
  assumes "kfs_inv s C D" "C x = Some xs"
  shows "chain s xs" "hd xs = x" "y \<in> set xs \<Longrightarrow> length (disk s y) = 512" "y \<in> set xs \<Longrightarrow> fat_table s y \<noteq> FAT_FREE"
    "y \<in> set xs \<Longrightarrow> in_data s y" "x \<in> set xs"
proof -
  have c: "chain s xs \<and> hd xs = x \<and> (\<forall>y \<in> set xs. length (disk s y) = 512)"
    using kfs_invD(2) [OF assms(1)] assms(2) by (simp add: chains_ok_def)
  then show "chain s xs" "hd xs = x" "y \<in> set xs \<Longrightarrow> length (disk s y) = 512" by auto
  show "y \<in> set xs \<Longrightarrow> fat_table s y \<noteq> FAT_FREE" using chain_not_free [OF kfs_invD(1) [OF assms(1)]] c by blast
  show "y \<in> set xs \<Longrightarrow> in_data s y" using c by (auto simp: chain_def)
  show "x \<in> set xs" using c chain_ne by fastforce
qed

lemma chain_disjoint:
  "kfs_inv s C D \<Longrightarrow> C x = Some xs \<Longrightarrow> C y = Some ys \<Longrightarrow> z \<in> set xs \<Longrightarrow> z \<in> set ys \<Longrightarrow> x = y"
  using kfs_invD(2) [of s C D] unfolding chains_ok_def by blast

lemma dir_chain: "kfs_inv s C D \<Longrightarrow> d \<in> D \<Longrightarrow> \<exists>xs. C d = Some xs"
  using kfs_invD(3) by fastforce

lemma slotD:
  assumes "kfs_inv s C D" "d \<in> D" "dir_slot s C d sec i"
  shows "entry_ok s C D (entry_in s sec i)"
  using kfs_invD(5) [OF assms(1)] assms(2,3) by (simp add: entries_ok_def)

section \<open>Lookup in a directory\<close>

lemma find_in_spec:
  assumes inv: "kfs_inv s C D" and d: "d \<in> D" and c: "C d = Some xs"
  shows "(find_in s n xs = None \<longleftrightarrow> (\<forall>sec i. dir_slot s C d sec i \<longrightarrow> name_of (entry_in s sec i) \<noteq> n)) \<and>
    (find_in s n xs = Some (e, sec, i) \<longleftrightarrow> dir_slot s C d sec i \<and> name_of (entry_in s sec i) = n \<and> e = entry_in s sec i)"
proof -
  have m: "slot_matches (disk s y) n j \<longleftrightarrow> dir_slot s C d y j \<and> name_of (entry_in s y j) = n" if "y \<in> set xs" "j < 16" for y j
    using slotD [OF inv d, of y j] slot_matches_iff [of "disk s y" j n] that c
    by (cases "dir_slot s C d y j") (auto simp: entry_ok_def dir_slot_def slot_matches_def)
  have none: "find_in s n xs = None \<longleftrightarrow> (\<forall>sec i. dir_slot s C d sec i \<longrightarrow> name_of (entry_in s sec i) \<noteq> n)"
    using m c by (auto simp: find_in_def find_None_iff dir_slot_def)
  have some: "dir_slot s C d y j \<and> name_of (entry_in s y j) = n \<and> e' = entry_in s y j" if "find_in s n xs = Some (e', y, j)" for e' y j
  proof -
    have "find (\<lambda>(sec, i). slot_matches (disk s sec) n i) (slots xs) = Some (y, j)" "e' = entry_in s y j"
      using that by (auto simp: find_in_def)
    then have "y \<in> set xs \<and> j < 16 \<and> slot_matches (disk s y) n j"
      using find_SomeD by force
    with m \<open>e' = entry_in s y j\<close> show ?thesis by blast
  qed
  have "find_in s n xs = Some (e, sec, i)" if h: "dir_slot s C d sec i \<and> name_of (entry_in s sec i) = n \<and> e = entry_in s sec i"
  proof (cases "find_in s n xs")
    case None
    with none h show ?thesis by blast
  next
    case (Some p)
    obtain e' y j where p: "p = (e', y, j)" by (cases p) auto
    note q = some [OF Some [unfolded p]]
    have "y = sec \<and> j = i" using kfs_invD(5) [OF inv] d q h unfolding entries_ok_def by blast
    with q h Some p show ?thesis by simp
  qed
  with none some show ?thesis by blast
qed

lemma find_entry_spec:
  assumes inv: "kfs_inv s C D" and d: "d \<in> D"
  shows "find_entry_in s (of_nat d) n = Some None \<longleftrightarrow> (\<forall>sec i. dir_slot s C d sec i \<longrightarrow> name_of (entry_in s sec i) \<noteq> n)"
    and "find_entry_in s (of_nat d) n = Some (Some (e, sec, i)) \<longleftrightarrow>
      dir_slot s C d sec i \<and> name_of (entry_in s sec i) = n \<and> e = entry_in s sec i"
    and "find_entry_in s (of_nat d) n \<noteq> None"
proof -
  obtain xs where c: "C d = Some xs" using dir_chain [OF inv d] by blast
  have "find_entry_in s (of_nat d) n = Some (find_in s n xs)"
    by (rule find_entry_in_chain [OF kfs_invD(1) [OF inv] chainD(1) [OF inv c]]) (simp add: chainD(2) [OF inv c])
  then show "find_entry_in s (of_nat d) n = Some None \<longleftrightarrow> (\<forall>sec i. dir_slot s C d sec i \<longrightarrow> name_of (entry_in s sec i) \<noteq> n)"
    "find_entry_in s (of_nat d) n = Some (Some (e, sec, i)) \<longleftrightarrow>
      dir_slot s C d sec i \<and> name_of (entry_in s sec i) = n \<and> e = entry_in s sec i"
    "find_entry_in s (of_nat d) n \<noteq> None"
    using find_in_spec [OF inv d c, of n e sec i] by auto
qed

end
