(* ===== verification/Kfs_Update.thy ===== *)
theory Kfs_Update
  imports Kfs_Invariant
begin

text \<open>
  The elementary changes of the file system and how each keeps the invariant: a change outside
  all chains, a new chain, a longer directory, a new entry, a removed entry. \<open>grows\<close> says that
  every entry and every file of the old state is in the new one.
\<close>

section \<open>Preserved entries and files\<close>

definition grows :: "kfs \<Rightarrow> chains \<Rightarrow> kfs \<Rightarrow> chains \<Rightarrow> nat set \<Rightarrow> bool" where
  "grows s C s' C' D \<longleftrightarrow> root_dir_sector s' = root_dir_sector s \<and>
     (\<forall>d \<in> D. \<forall>sec i. dir_slot s C d sec i \<longrightarrow> dir_slot s' C' d sec i \<and> entry_in s' sec i = entry_in s sec i) \<and>
     (\<forall>x xs. x \<notin> D \<longrightarrow> C x = Some xs \<longrightarrow> C' x = Some xs \<and> (\<forall>y \<in> set xs. disk s' y = disk s y))"

lemma grows_refl: "grows s C s C D"
  by (simp add: grows_def)

lemma grows_trans: "grows s C s1 C1 D \<Longrightarrow> grows s1 C1 s2 C2 D \<Longrightarrow> grows s C s2 C2 D"
  by (fastforce simp: grows_def)

text \<open>Slots may only disappear.\<close>

lemma entries_sub:
  assumes old: "entries_ok s C D"
    and sub: "\<And>d sec i. d \<in> D \<Longrightarrow> dir_slot s' C' d sec i \<Longrightarrow> dir_slot s C d sec i \<and> entry_in s' sec i = entry_in s sec i"
    and ok: "\<And>d sec i. d \<in> D \<Longrightarrow> dir_slot s' C' d sec i \<Longrightarrow> entry_ok s C D (entry_in s sec i) \<Longrightarrow> entry_ok s' C' D (entry_in s sec i)"
  shows "entries_ok s' C' D"
  unfolding entries_ok_def
proof (intro conjI ballI allI impI)
  fix d sec i assume h: "d \<in> D" "dir_slot s' C' d sec i"
  have "entry_ok s C D (entry_in s sec i)" using old h(1) sub [OF h] unfolding entries_ok_def by blast
  then show "entry_ok s' C' D (entry_in s' sec i)" using ok [OF h] sub [OF h] by simp
next
  fix d e sec i sec' i'
  assume h: "d \<in> D" "e \<in> D" "dir_slot s' C' d sec i" "dir_slot s' C' e sec' i'"
    "start_sector (entry_in s' sec i) = start_sector (entry_in s' sec' i')"
  have "sec = sec' \<and> i = i'"
    using old h(1,2,5) sub [OF h(1,3)] sub [OF h(2,4)] unfolding entries_ok_def by metis
  then show "sec = sec'" "i = i'" by auto
next
  fix d sec i sec' i'
  assume h: "d \<in> D" "dir_slot s' C' d sec i" "dir_slot s' C' d sec' i'"
    "name_of (entry_in s' sec i) = name_of (entry_in s' sec' i')"
  have "sec = sec' \<and> i = i'"
    using old h(1,4) sub [OF h(1,2)] sub [OF h(1,3)] unfolding entries_ok_def by metis
  then show "sec = sec'" "i = i'" by auto
qed

section \<open>Changes outside the chains\<close>

lemma agree_inv:
  assumes inv: "kfs_inv s C D"
    and eq: "root_dir_sector s' = root_dir_sector s" "total_disk_sectors s' = total_disk_sectors s" "fat_sectors_needed s' = fat_sectors_needed s"
    and fr: "\<And>x xs y. C x = Some xs \<Longrightarrow> y \<in> set xs \<Longrightarrow> fat_table s' y = fat_table s y \<and> disk s' y = disk s y"
  shows "kfs_inv s' C D" "dir_slot s' C d sec i = dir_slot s C d sec i" "grows s C s' C D"
proof -
  have geo: "geo_ok s'" "in_data s' = in_data s" using kfs_invD(1) [OF inv] eq by (simp_all add: geo_ok_def in_data_def fun_eq_iff)
  have ch: "chain s' xs" if "C x = Some xs" for x xs
  proof -
    have "linked (fat_table s') xs" using chainD(1) [OF inv that] fr [OF that] by (auto simp: chain_def intro: linked_cong)
    then show ?thesis using chainD(1) [OF inv that] geo(2) by (simp add: chain_def)
  qed
  have cok: "chains_ok s' C"
    unfolding chains_ok_def
  proof (intro conjI allI impI)
    fix x xs assume c: "C x = Some xs"
    show "chain s' xs" by (rule ch [OF c])
    show "hd xs = x" by (rule chainD(2) [OF inv c])
    show "\<forall>y \<in> set xs. length (disk s' y) = 512" using chainD(3) [OF inv c] fr [OF c] by simp
  qed (rule chain_disjoint [OF inv])
  have sl: "dir_slot s' C d sec i \<longleftrightarrow> dir_slot s C d sec i" for d sec i using fr by (auto simp: dir_slot_def)
  then show "dir_slot s' C d sec i = dir_slot s C d sec i" .
  have en: "entry_in s' sec i = entry_in s sec i" if "dir_slot s C d sec i" for d sec i
    using that fr by (auto simp: dir_slot_def)
  have eok: "entry_ok s' C D e = entry_ok s C D e" for e using eq(1) by (simp add: entry_ok_def)
  have "entries_ok s' C D"
    by (rule entries_sub [OF kfs_invD(5) [OF inv]]) (use sl en eok in auto)
  then show "kfs_inv s' C D" using geo(1) cok inv eq(1) by (simp add: kfs_inv_def)
  show "grows s C s' C D" using eq(1) sl en fr by (auto simp: grows_def)
qed

section \<open>A new chain\<close>

lemma add_chain_inv:
  assumes inv: "kfs_inv s C D" and c: "chain s ys" and len: "\<forall>y \<in> set ys. length (disk s y) = 512"
    and new': "\<forall>x xs y. C x = Some xs \<longrightarrow> y \<in> set xs \<longrightarrow> y \<notin> set ys"
  shows "kfs_inv s (C(hd ys := Some ys)) D" "hd ys \<notin> dom C" "grows s C s (C(hd ys := Some ys)) D"
    "d \<in> D \<Longrightarrow> dir_slot s (C(hd ys := Some ys)) d sec i = dir_slot s C d sec i"
proof -
  let ?C = "C(hd ys := Some ys)"
  have new: "y \<notin> set ys" if "C x = Some xs" "y \<in> set xs" for x xs y using new' that by blast
  have hd: "hd ys \<in> set ys" using chain_ne [OF c] by simp
  show nd: "hd ys \<notin> dom C"
  proof
    assume "hd ys \<in> dom C"
    then obtain xs where x: "C (hd ys) = Some xs" by auto
    then have "hd ys \<in> set xs" by (rule chainD(6) [OF inv])
    with new [OF x] hd show False by blast
  qed
  have D: "d \<noteq> hd ys" if "d \<in> D" for d using that nd kfs_invD(3) [OF inv] by blast
  have sl: "dir_slot s ?C d sec i = dir_slot s C d sec i" if "d \<in> D" for d sec i using D [OF that] by (simp add: dir_slot_def)
  then show "d \<in> D \<Longrightarrow> dir_slot s ?C d sec i = dir_slot s C d sec i" .
  have "chains_ok s ?C"
    unfolding chains_ok_def
  proof (intro conjI allI impI)
    fix x xs assume x: "?C x = Some xs"
    then have "chain s xs \<and> hd xs = x \<and> (\<forall>y \<in> set xs. length (disk s y) = 512)"
      using c len chainD(1-3) [OF inv, of x xs] by (auto split: if_splits)
    then show "chain s xs" "hd xs = x" "\<forall>y \<in> set xs. length (disk s y) = 512" by auto
  next
    fix x y xs zs z
    assume "?C x = Some xs" "?C y = Some zs" "z \<in> set xs" "z \<in> set zs"
    then show "x = y" using new chain_disjoint [OF inv, of x xs y zs z] by (auto split: if_splits)
  qed
  moreover have "entry_ok s ?C D e" if "entry_ok s C D e" for e
    using that nd by (auto simp: entry_ok_def domIff)
  then have "entries_ok s ?C D"
    by (intro entries_sub [OF kfs_invD(5) [OF inv]]) (use sl in auto)
  ultimately show "kfs_inv s ?C D" using inv by (auto simp: kfs_inv_def)
  show "grows s C s ?C D" using sl nd by (auto simp: grows_def domIff)
qed

section \<open>A longer directory\<close>

lemma extend_dir_inv:
  assumes inv: "kfs_inv s C D" and d: "d \<in> D" and c: "C d = Some xs"
    and z: "root s < z" "z < total_disk_sectors s" "fat_table s z = FAT_FREE"
    and s': "same_data {z} s s'" "fat_table s' = (fat_table s)(last xs := of_nat z, z := FAT_EOF)" "disk s' z = replicate 512 FLAG_EMPTY"
  shows "kfs_inv s' (C(d := Some (xs @ [z]))) D" "grows s C s' (C(d := Some (xs @ [z]))) D"
    "e \<in> D \<Longrightarrow> dir_slot s' (C(d := Some (xs @ [z]))) e sec i = dir_slot s C e sec i"
proof -
  let ?C = "C(d := Some (xs @ [z]))"
  note sf = same_data_fields [OF s'(1)]
  have zn: "z \<notin> set ws" if "C w = Some ws" for w ws using chainD(4) [OF inv that] z(3) by blast
  have dsk: "disk s' y = disk s y" if "C w = Some ws" "y \<in> set ws" for w ws y
  proof -
    have "root s \<le> y" using chainD(5) [OF inv that] by (simp add: in_data_def)
    with that zn [OF that(1)] show ?thesis by (intro sf(7)) auto
  qed
  have xs: "chain s xs" "hd xs = d" "xs \<noteq> []" using chainD [OF inv c] chain_ne by auto
  obtain ys l where l: "xs = ys @ [l]" using xs(3) by (cases xs rule: rev_cases) auto
  have new: "chain s' (xs @ [z])"
  proof -
    have "linked (fat_table s') (ys @ [l, z])"
      unfolding s'(2) l last_snoc by (rule linked_snoc) (use xs(1) zn [OF c] l in \<open>auto simp: chain_def\<close>)
    then show ?thesis using xs(1) l zn [OF c] z sf(8) by (auto simp: chain_def in_data_def)
  qed
  have old: "chain s' ws" if "C w = Some ws" "w \<noteq> d" for w ws
  proof -
    have "last xs \<notin> set ws" using chain_disjoint [OF inv that(1) c] that(2) xs(3) last_in_set by blast
    then have "linked (fat_table s') ws" using chainD(1) [OF inv that(1)] zn [OF that(1)] s'(2)
      by (auto simp: chain_def intro!: linked_cong [of "fat_table s" ws])
    then show ?thesis using chainD(1) [OF inv that(1)] sf(8) by (simp add: chain_def)
  qed
  have "chains_ok s' ?C"
    unfolding chains_ok_def
  proof (intro conjI allI impI)
    fix w ws assume w: "?C w = Some ws"
    show "chain s' ws" using w new old by (auto split: if_splits)
    show "hd ws = w" using w xs chainD(2) [OF inv, of w ws] by (auto split: if_splits)
    show "\<forall>y \<in> set ws. length (disk s' y) = 512"
      using w s'(3) dsk [OF c] chainD(3) [OF inv c] dsk [of w ws] chainD(3) [OF inv, of w ws] by (auto split: if_splits)
  next
    fix w v ws vs y
    assume h: "?C w = Some ws" "?C v = Some vs" "y \<in> set ws" "y \<in> set vs"
    consider "w = d" "v = d" | "w = d" "v \<noteq> d" | "w \<noteq> d" "v = d" | "w \<noteq> d" "v \<noteq> d" by blast
    then show "w = v"
    proof cases
      case 2
      then have "C v = Some vs" "y \<in> set xs" using h zn [of v vs] by auto
      then show ?thesis using chain_disjoint [OF inv c, of v vs y] h(4) 2(1) by blast
    next
      case 3
      then have "C w = Some ws" "y \<in> set xs" using h zn [of w ws] by auto
      then show ?thesis using chain_disjoint [OF inv _ c, of w ws y] h(3) 3(2) by blast
    next
      case 4
      then show ?thesis using h chain_disjoint [OF inv, of w ws v vs y] by simp
    qed simp
  qed
  moreover have sl: "dir_slot s' ?C e sec i = dir_slot s C e sec i" for e sec i
  proof (cases "e = d")
    case True
    then show ?thesis using c dsk [OF c] s'(3) entry_at_zero zn [OF c] by (auto simp: dir_slot_def)
  next
    case False
    then show ?thesis using dsk by (auto simp: dir_slot_def)
  qed
  moreover have en: "entry_in s' sec i = entry_in s sec i" if "dir_slot s C e sec i" for e sec i
    using that dsk by (auto simp: dir_slot_def)
  moreover have eok: "entry_ok s' ?C D e" if "entry_ok s C D e" for e
    using that d sf(3) by (auto simp: entry_ok_def)
  then have "entries_ok s' ?C D"
    by (intro entries_sub [OF kfs_invD(5) [OF inv]]) (use sl en in auto)
  ultimately show "kfs_inv s' ?C D" using inv sf(3,9) by (auto simp: kfs_inv_def)
  show "grows s C s' ?C D" using sl en dsk sf(3) d by (auto simp: grows_def)
  show "e \<in> D \<Longrightarrow> dir_slot s' ?C e sec i = dir_slot s C e sec i" by (rule sl)
qed

section \<open>A new entry\<close>

lemma put_entry_inv:
  assumes inv: "kfs_inv s C D" and d: "d \<in> D" and c: "C d = Some xs" and sec: "sec \<in> set xs" and i: "i < 16"
    and free: "flags (entry_in s sec i) = FLAG_EMPTY"
    and e: "length (filename e) = 23" "flags e \<noteq> FLAG_EMPTY" "entry_ok s C D e"
    and start: "\<And>b sec' j. b \<in> D \<Longrightarrow> dir_slot s C b sec' j \<Longrightarrow> start_sector (entry_in s sec' j) \<noteq> start_sector e"
    and name: "\<And>sec' j. dir_slot s C d sec' j \<Longrightarrow> name_of (entry_in s sec' j) \<noteq> name_of e"
    and s': "s' = ata_write_sector s sec (put_entry (disk s sec) i e)"
  shows "kfs_inv s' C D" "grows s C s' C D" "dir_slot s' C d sec i" "entry_in s' sec i = e"
proof -
  have len: "length (disk s sec) = 512" by (rule chainD(3) [OF inv c sec])
  have fat: "fat_table s' = fat_table s" "root_dir_sector s' = root_dir_sector s" "total_disk_sectors s' = total_disk_sectors s"
    "fat_sectors_needed s' = fat_sectors_needed s" using s' by (simp_all add: ata_write_sector_def)
  show new: "entry_in s' sec i = e" using entry_at_put [OF len i e(1)] s' by (simp add: ata_write_sector_def)
  have old: "entry_in s' sec' j = entry_in s sec' j" if "j < 16" "sec' \<noteq> sec \<or> j \<noteq> i" for sec' j
    using that entry_at_put_other [OF len i that(1) _ e(1)] s' by (auto simp: ata_write_sector_def)
  have own: "b = d" if "C b = Some ys" "sec \<in> set ys" for b ys using chain_disjoint [OF inv that(1) c that(2) sec] .
  have sl: "dir_slot s' C b sec' j \<longleftrightarrow> dir_slot s C b sec' j \<or> b = d \<and> sec' = sec \<and> j = i" for b sec' j
  proof (cases "sec' = sec \<and> j = i")
    case True
    have "dir_slot s' C b sec i \<longleftrightarrow> (\<exists>ys. C b = Some ys \<and> sec \<in> set ys)" using i e(2) by (simp add: dir_slot_def new)
    also have "\<dots> \<longleftrightarrow> b = d" using own c sec by blast
    finally show ?thesis using True free by (simp add: dir_slot_def)
  next
    case False
    then show ?thesis using old [of j sec'] by (auto simp: dir_slot_def)
  qed
  have nold: "\<not> dir_slot s C b sec i" for b using free by (simp add: dir_slot_def)
  show "dir_slot s' C d sec i" by (simp add: sl)
  have en: "entry_in s' sec' j = entry_in s sec' j" if "dir_slot s C b sec' j" for b sec' j
    using that old [of j sec'] nold by (auto simp: dir_slot_def)
  have eok: "entry_ok s' C D x = entry_ok s C D x" for x using fat(2) by (simp add: entry_ok_def)
  have dsk: "disk s' y = disk s y" if "y \<noteq> sec" for y using that s' by (simp add: ata_write_sector_def)
  have lens: "length (disk s' y) = length (disk s y)" for y using len i e(1) s' by (cases "y = sec") (simp_all add: ata_write_sector_def)
  have "chain s' = chain s" by (intro ext) (simp add: chain_def in_data_def fat)
  then have "chains_ok s' C" using kfs_invD(2) [OF inv] lens by (simp add: chains_ok_def)
  moreover have "geo_ok s'" using kfs_invD(1) [OF inv] fat by (simp add: geo_ok_def)
  moreover have "entries_ok s' C D"
    unfolding entries_ok_def
  proof (intro conjI ballI allI impI)
    fix b sec' j assume "b \<in> D" "dir_slot s' C b sec' j"
    then show "entry_ok s' C D (entry_in s' sec' j)" unfolding eok sl using slotD [OF inv] en new e(3) by auto
  next
    fix b b' s1 i1 s2 i2
    assume h: "b \<in> D" "b' \<in> D" "dir_slot s' C b s1 i1" "dir_slot s' C b' s2 i2"
      "start_sector (entry_in s' s1 i1) = start_sector (entry_in s' s2 i2)"
    have "s1 = s2 \<and> i1 = i2"
    proof (cases "dir_slot s C b s1 i1"; cases "dir_slot s C b' s2 i2")
      assume o: "dir_slot s C b s1 i1" "dir_slot s C b' s2 i2"
      then show ?thesis using kfs_invD(5) [OF inv] h(1,2,5) en [OF o(1)] en [OF o(2)] unfolding entries_ok_def by metis
    qed (use h sl start new en in \<open>metis\<close>)+
    then show "s1 = s2" "i1 = i2" by auto
  next
    fix b s1 i1 s2 i2
    assume h: "b \<in> D" "dir_slot s' C b s1 i1" "dir_slot s' C b s2 i2"
      "name_of (entry_in s' s1 i1) = name_of (entry_in s' s2 i2)"
    have "s1 = s2 \<and> i1 = i2"
    proof (cases "dir_slot s C b s1 i1"; cases "dir_slot s C b s2 i2")
      assume o: "dir_slot s C b s1 i1" "dir_slot s C b s2 i2"
      then show ?thesis using kfs_invD(5) [OF inv] h(1,4) en [OF o(1)] en [OF o(2)] unfolding entries_ok_def by metis
    qed (use h sl name new en in \<open>metis\<close>)+
    then show "s1 = s2" "i1 = i2" by auto
  qed
  ultimately show "kfs_inv s' C D" using inv fat(2) by (simp add: kfs_inv_def)
  show "grows s C s' C D"
    unfolding grows_def
  proof (intro conjI ballI allI impI)
    fix x zs y assume "x \<notin> D" "C x = Some zs" "y \<in> set zs"
    then have "y \<noteq> sec" using own d by blast
    then show "disk s' y = disk s y" by (rule dsk)
  qed (use fat sl en in auto)
qed

section \<open>Removing a file\<close>

lemma remove_file_inv:
  assumes inv: "kfs_inv s C D" and d: "d \<in> D" and slot: "dir_slot s C d sec i" and fil: "flags (entry_in s sec i) \<noteq> FLAG_FOLDER"
    and x: "x = unat (start_sector (entry_in s sec i))" "C x = Some xs"
    and s1: "same_data {} s s1" "fat_table s1 = (\<lambda>y. if y \<in> set xs then FAT_FREE else fat_table s y)"
    and s': "s' = ata_write_sector s1 sec ((disk s1 sec)[32 * i + 23 := FLAG_EMPTY])"
  shows "kfs_inv s' (C(x := None)) D"
    "b \<in> D \<Longrightarrow> dir_slot s' (C(x := None)) b sec' j \<longleftrightarrow> dir_slot s C b sec' j \<and> (sec', j) \<noteq> (sec, i)"
    "b \<in> D \<Longrightarrow> dir_slot s' (C(x := None)) b sec' j \<Longrightarrow> entry_in s' sec' j = entry_in s sec' j"
    "z \<notin> D \<Longrightarrow> z \<noteq> x \<Longrightarrow> C z = Some zs \<Longrightarrow> y \<in> set zs \<Longrightarrow> disk s' y = disk s y"
proof -
  let ?C = "C(x := None)"
  note sf = same_data_fields [OF s1(1)]
  obtain ds where ds: "C d = Some ds" "sec \<in> set ds" "i < 16" using slot by (auto simp: dir_slot_def)
  have ok: "entry_ok s C D (entry_in s sec i)" by (rule slotD [OF inv d slot])
  have xD: "x \<notin> D" and xr: "x \<noteq> root s" using ok fil x(1) by (auto simp: entry_ok_def)
  have fields: "root_dir_sector s' = root_dir_sector s" "total_disk_sectors s' = total_disk_sectors s"
    "fat_sectors_needed s' = fat_sectors_needed s" "fat_table s' = fat_table s1"
    using sf s' by (simp_all add: ata_write_sector_def)
  have d1: "disk s1 y = disk s y" if "C z = Some zs" "y \<in> set zs" for z zs y
    using chainD(5) [OF inv that] by (intro sf(7)) (simp add: in_data_def)
  have ds': "disk s' y = (if y = sec then (disk s sec)[32 * i + 23 := FLAG_EMPTY] else disk s y)" if "C z = Some zs" "y \<in> set zs" for z zs y
    using d1 [OF that] d1 [OF ds(1,2)] s' by (simp add: ata_write_sector_def)
  have len: "length (disk s sec) = 512" by (rule chainD(3) [OF inv ds(1,2)])
  have ent: "entry_in s' y j = (if y = sec \<and> j = i then (entry_in s sec i)\<lparr>flags := FLAG_EMPTY\<rparr> else entry_in s y j)"
    if "C z = Some zs" "y \<in> set zs" "j < 16" for z zs y j
    using ds' [OF that(1,2)] entry_at_clear [OF len ds(3) that(3)] by auto
  have sl: "dir_slot s' ?C b sec' j \<longleftrightarrow> dir_slot s C b sec' j \<and> (sec', j) \<noteq> (sec, i)" if "b \<in> D" for b sec' j
  proof -
    have "?C b = C b" using that xD by auto
    then show ?thesis using ent [of b _ sec' j] by (cases "sec' = sec \<and> j = i") (auto simp: dir_slot_def)
  qed
  then show "b \<in> D \<Longrightarrow> dir_slot s' ?C b sec' j \<longleftrightarrow> dir_slot s C b sec' j \<and> (sec', j) \<noteq> (sec, i)" .
  have en: "entry_in s' sec' j = entry_in s sec' j" if "b \<in> D" "dir_slot s' ?C b sec' j" for b sec' j
    using that sl [OF that(1)] ent [of b _ sec' j] by (auto simp: dir_slot_def)
  then show "b \<in> D \<Longrightarrow> dir_slot s' ?C b sec' j \<Longrightarrow> entry_in s' sec' j = entry_in s sec' j" .
  show "z \<notin> D \<Longrightarrow> z \<noteq> x \<Longrightarrow> C z = Some zs \<Longrightarrow> y \<in> set zs \<Longrightarrow> disk s' y = disk s y"
    using ds' [of z zs y] chain_disjoint [OF inv, of z zs d ds sec] ds(1,2) d by auto
  have geo: "geo_ok s'" "in_data s' = in_data s" using kfs_invD(1) [OF inv] fields by (simp_all add: geo_ok_def in_data_def fun_eq_iff)
  have "chains_ok s' ?C"
    unfolding chains_ok_def
  proof (intro conjI allI impI)
    fix z zs assume "?C z = Some zs"
    then have z: "z \<noteq> x" "C z = Some zs" by (auto split: if_splits)
    have "y \<notin> set xs" if "y \<in> set zs" for y using chain_disjoint [OF inv z(2) x(2) that] z(1) by blast
    then have "linked (fat_table s') zs"
      using chainD(1) [OF inv z(2)] fields(4) s1(2) by (auto simp: chain_def intro!: linked_cong [of "fat_table s" zs])
    then show "chain s' zs" using chainD(1) [OF inv z(2)] geo(2) by (simp add: chain_def)
    show "hd zs = z" by (rule chainD(2) [OF inv z(2)])
    show "\<forall>y \<in> set zs. length (disk s' y) = 512" using ds' [OF z(2)] chainD(3) [OF inv z(2)] by auto
  next
    fix z w zs ws y
    assume "?C z = Some zs" "?C w = Some ws" "y \<in> set zs" "y \<in> set ws"
    then show "z = w" using chain_disjoint [OF inv, of z zs w ws y] by (simp split: if_splits)
  qed
  moreover have "entries_ok s' ?C D"
  proof (rule entries_sub [OF kfs_invD(5) [OF inv]])
    fix b sec' j assume h: "b \<in> D" "dir_slot s' ?C b sec' j"
    show "dir_slot s C b sec' j \<and> entry_in s' sec' j = entry_in s sec' j" using sl [OF h(1)] h en [OF h] by blast
    assume e: "entry_ok s C D (entry_in s sec' j)"
    have "start_sector (entry_in s sec' j) \<noteq> start_sector (entry_in s sec i)"
      using kfs_invD(5) [OF inv] d h slot sl [OF h(1)] unfolding entries_ok_def by blast
    then have "unat (start_sector (entry_in s sec' j)) \<noteq> x" using x(1) by (metis word_unat_eq_iff)
    then show "entry_ok s' ?C D (entry_in s sec' j)" using e fields(1) by (auto simp: entry_ok_def)
  qed
  ultimately show "kfs_inv s' ?C D" using inv geo(1) fields(1) xD by (auto simp: kfs_inv_def)
qed

end
