(* ===== verification/Kfs_Correct.thy ===== *)
theory Kfs_Correct
  imports Kfs_Update
begin

text \<open>
  The file system keeps what it is given: creating, reading back and deleting files through
  paths, for every directory depth, with all other files untouched, and every change present
  on disk for the next mount.
\<close>

section \<open>Path resolution\<close>

lemma unat_start: "unat (start_sector e) = x \<Longrightarrow> start_sector e = of_nat x"
  by auto

lemma resolve_total:
  assumes inv: "kfs_inv s C D" and d: "d \<in> D"
  shows "\<exists>r. resolve_dir s (of_nat d) p = Some r \<and> (case r of None \<Rightarrow> True | Some x \<Rightarrow> \<exists>d' \<in> D. x = of_nat d')"
  using d
proof (induction "length p" arbitrary: p d rule: less_induct)
  case less
  let ?p = "dropWhile (\<lambda>c. c = slash) p"
  let ?c = "takeWhile (\<lambda>c. c \<noteq> slash) ?p" and ?r = "dropWhile (\<lambda>c. c \<noteq> slash) ?p"
  show ?case
  proof (cases "?p = [] \<or> length ?c > 22")
    case True
    then show ?thesis using less.prems by (subst resolve_dir.simps) (auto simp: Let_def)
  next
    case False
    show ?thesis
    proof (cases "find_entry_in s (of_nat d) ?c")
      case None
      with find_entry_spec(3) [OF inv less.prems] show ?thesis by blast
    next
      case (Some q)
      show ?thesis
      proof (cases q)
        case None
        then show ?thesis using Some False by (subst resolve_dir.simps) (auto simp: Let_def)
      next
        case e: (Some t)
        obtain e sec i where t: "t = (e, sec, i)" by (cases t) auto
        have sl: "dir_slot s C d sec i" "e = entry_in s sec i"
          using find_entry_spec(2) [OF inv less.prems] Some e t by auto
        have ok: "entry_ok s C D e" using slotD [OF inv less.prems sl(1)] sl(2) by simp
        show ?thesis
        proof (cases "flags e = FLAG_FOLDER")
          case True
          then have "unat (start_sector e) \<in> D" using ok by (simp add: entry_ok_def)
          moreover have "length ?r < length p" using dropWhile_length_less [of "\<lambda>c. c = slash" p] False by simp
          ultimately have "\<exists>r. resolve_dir s (of_nat (unat (start_sector e))) ?r = Some r \<and>
              (case r of None \<Rightarrow> True | Some x \<Rightarrow> \<exists>d' \<in> D. x = of_nat d')" using less.hyps by blast
          moreover have "resolve_dir s (of_nat d) p = resolve_dir s (start_sector e) ?r"
            using Some e t True False by (subst resolve_dir.simps) (auto simp: Let_def)
          ultimately show ?thesis by simp
        next
          case False
          then show ?thesis using Some e t \<open>\<not> (?p = [] \<or> length ?c > 22)\<close> by (subst resolve_dir.simps) (auto simp: Let_def)
        qed
      qed
    qed
  qed
qed

text \<open>A path that resolves still resolves, to the same directory, as long as all folder entries stay.\<close>

lemma resolve_keeps:
  assumes inv: "kfs_inv s C D" and inv': "kfs_inv s' C' D'" and sub: "D \<subseteq> D'" and d: "d \<in> D"
    and g: "\<And>d sec i. d \<in> D \<Longrightarrow> dir_slot s C d sec i \<Longrightarrow> flags (entry_in s sec i) = FLAG_FOLDER \<Longrightarrow>
      dir_slot s' C' d sec i \<and> entry_in s' sec i = entry_in s sec i"
    and r: "resolve_dir s (of_nat d) p = Some (Some x)"
  shows "resolve_dir s' (of_nat d) p = Some (Some x)"
  using d r
proof (induction "length p" arbitrary: p d rule: less_induct)
  case less
  let ?p = "dropWhile (\<lambda>c. c = slash) p"
  let ?c = "takeWhile (\<lambda>c. c \<noteq> slash) ?p" and ?r = "dropWhile (\<lambda>c. c \<noteq> slash) ?p"
  show ?case
  proof (cases "?p = []")
    case True
    then show ?thesis using less.prems(2) by (simp add: resolve_dir.simps [of s _ p] resolve_dir.simps [of s' _ p] Let_def)
  next
    case False
    obtain e sec i where e: "\<not> length ?c > 22" "find_entry_in s (of_nat d) ?c = Some (Some (e, sec, i))" "flags e = FLAG_FOLDER"
        "resolve_dir s (start_sector e) ?r = Some (Some x)"
      using less.prems(2) False by (subst (asm) resolve_dir.simps) (auto simp: Let_def split: if_splits option.splits)
    have sl: "dir_slot s C d sec i" "name_of (entry_in s sec i) = ?c" "e = entry_in s sec i"
      using find_entry_spec(2) [OF inv less.prems(1)] e(2) by auto
    have sl': "dir_slot s' C' d sec i" "entry_in s' sec i = entry_in s sec i"
      using g [OF less.prems(1) sl(1)] e(3) sl(3) by auto
    have d': "d \<in> D'" using sub less.prems(1) by blast
    have f': "find_entry_in s' (of_nat d) ?c = Some (Some (e, sec, i))"
      using find_entry_spec(2) [OF inv' d', of ?c e sec i] sl sl' by simp
    have "unat (start_sector e) \<in> D" using slotD [OF inv less.prems(1) sl(1)] sl(3) e(3) by (simp add: entry_ok_def)
    moreover have "length ?r < length p" using dropWhile_length_less [of "\<lambda>c. c = slash" p] False by simp
    ultimately have "resolve_dir s' (of_nat (unat (start_sector e))) ?r = Some (Some x)"
      using less.hyps [of ?r "unat (start_sector e)"] e(4) by simp
    then show ?thesis using e f' False by (subst resolve_dir.simps) (auto simp: Let_def)
  qed
qed

lemma root_of_nat: "root_dir_sector s = of_nat (root s)"
  by simp

lemma split_last_total:
  assumes inv: "kfs_inv s C D"
  shows "split_last s p = Some None \<or> (\<exists>d \<in> D. split_last s p = Some (Some (of_nat d, last_name p)) \<and> last_name p \<noteq> [] \<and>
    resolve_dir s (root_dir_sector s) (parent_path p) = Some (Some (of_nat d)))"
proof -
  obtain r where "resolve_dir s (root_dir_sector s) (parent_path p) = Some r" "case r of None \<Rightarrow> True | Some x \<Rightarrow> \<exists>d' \<in> D. x = of_nat d'"
    using resolve_total [OF inv kfs_invD(4) [OF inv], of "parent_path p"] by auto
  then show ?thesis by (auto simp: split_last_def split: option.splits)
qed

lemma lookup_total:
  assumes inv: "kfs_inv s C D"
  obtains (absent) "lookup s p = Some None"
  | (present) e sec i d where "lookup s p = Some (Some (e, sec, i))" "d \<in> D" "dir_slot s C d sec i" "e = entry_in s sec i"
      "split_last s p = Some (Some (of_nat d, last_name p))" "name_of e = last_name p"
proof -
  consider "split_last s p = Some None" | d where "d \<in> D" "split_last s p = Some (Some (of_nat d, last_name p))"
    using split_last_total [OF inv] by blast
  then show thesis
  proof cases
    case 1
    then show ?thesis by (intro absent) (simp add: lookup_def)
  next
    case (2 d)
    then have l: "lookup s p = find_entry_in s (of_nat d) (last_name p)" by (simp add: lookup_def)
    show ?thesis
    proof (cases "find_entry_in s (of_nat d) (last_name p)")
      case None
      with find_entry_spec(3) [OF inv 2(1)] show ?thesis by blast
    next
      case (Some q)
      show ?thesis
      proof (cases q)
        case None
        with Some l show ?thesis by (intro absent) simp
      next
        case (Some t)
        obtain e sec i where "t = (e, sec, i)" by (cases t) auto
        with Some \<open>find_entry_in s (of_nat d) (last_name p) = Some q\<close> have f: "find_entry_in s (of_nat d) (last_name p) = Some (Some (e, sec, i))"
          by simp
        with find_entry_spec(2) [OF inv 2(1)] have sl: "dir_slot s C d sec i" "name_of (entry_in s sec i) = last_name p" "e = entry_in s sec i"
          by auto
        show ?thesis by (rule present [OF _ 2(1) sl(1,3) 2(2)]) (use f l sl in auto)
      qed
    qed
  qed
qed

lemma lookup_keeps:
  assumes inv: "kfs_inv s C D" and inv': "kfs_inv s' C' D'" and sub: "D \<subseteq> D'" and rt: "root_dir_sector s' = root_dir_sector s"
    and g: "\<forall>d sec i. d \<in> D \<longrightarrow> dir_slot s C d sec i \<longrightarrow> flags (entry_in s sec i) = FLAG_FOLDER \<longrightarrow>
      dir_slot s' C' d sec i \<and> entry_in s' sec i = entry_in s sec i"
    and l: "lookup s p = Some (Some (e, sec, i))"
    and k: "\<forall>d \<in> D. dir_slot s C d sec i \<longrightarrow> dir_slot s' C' d sec i \<and> entry_in s' sec i = entry_in s sec i"
  shows "lookup s' p = Some (Some (e, sec, i))"
proof -
  obtain d where d: "d \<in> D" "resolve_dir s (root_dir_sector s) (parent_path p) = Some (Some (of_nat d))" "last_name p \<noteq> []"
      "find_entry_in s (of_nat d) (last_name p) = Some (Some (e, sec, i))"
    using split_last_total [OF inv, of p] l by (auto simp: lookup_def)
  have "resolve_dir s' (root_dir_sector s') (parent_path p) = Some (Some (of_nat d))"
    using resolve_keeps [OF inv inv' sub kfs_invD(4) [OF inv]] g d(2) rt by simp
  moreover have "find_entry_in s' (of_nat d) (last_name p) = Some (Some (e, sec, i))"
  proof -
    have sl: "dir_slot s C d sec i" "name_of (entry_in s sec i) = last_name p" "e = entry_in s sec i"
      using find_entry_spec(2) [OF inv d(1)] d(4) by auto
    moreover have "d \<in> D'" using sub d(1) by blast
    ultimately show ?thesis using find_entry_spec(2) [OF inv', of d "last_name p" e sec i] k d(1) by simp
  qed
  ultimately show ?thesis using d(3) by (simp add: lookup_def split_last_def)
qed

lemma lookup_slot:
  assumes inv: "kfs_inv s C D" and l: "lookup s p = Some (Some (e, sec, i))"
  obtains d where "d \<in> D" "dir_slot s C d sec i" "e = entry_in s sec i" "entry_ok s C D e" "name_of e = last_name p"
    "split_last s p = Some (Some (of_nat d, last_name p))"
proof (cases rule: lookup_total [OF inv, of p])
  case 1
  with l show ?thesis by simp
next
  case (2 e' sec' i' d)
  have "entry_ok s C D e'" "e' = e" "sec' = sec" "i' = i" using l slotD [OF inv 2(2,3)] 2 by auto
  with 2 show ?thesis by (intro that [of d]) auto
qed

section \<open>Reading\<close>

lemma read_spec:
  assumes inv: "kfs_inv s C D" and l: "lookup s p = Some (Some (e, sec, i))"
  obtains xs where "C (unat (start_sector e)) = Some xs"
    "kfs_read_to_buffer s p cap = Some (if size_bytes e > cap then None else Some (take (unat (size_bytes e)) (content s xs)))"
proof -
  have "entry_ok s C D e" by (rule lookup_slot [OF inv l])
  then obtain xs where c: "C (unat (start_sector e)) = Some xs" by (auto simp: entry_ok_def)
  have "read_chain s (of_nat (hd xs)) (unat (size_bytes e)) [] = Some ([] @ take (unat (size_bytes e)) (content s xs))"
    by (rule read_chain_content [OF kfs_invD(1) [OF inv] chainD(1) [OF inv c]]) (use chainD(3) [OF inv c] in blast)
  moreover have "of_nat (hd xs) = start_sector e" using chainD(2) [OF inv c] by simp
  ultimately show thesis using that c l by (simp add: kfs_read_to_buffer_def)
qed

lemma read_keeps:
  assumes inv: "kfs_inv s C D" and inv': "kfs_inv s' C' D'"
    and l: "lookup s p = Some (Some (e, sec, i))" "lookup s' p = Some (Some (e, sec, i))"
    and f: "\<forall>xs. C (unat (start_sector e)) = Some xs \<longrightarrow> C' (unat (start_sector e)) = Some xs \<and> (\<forall>y \<in> set xs. disk s' y = disk s y)"
  shows "kfs_read_to_buffer s' p cap = kfs_read_to_buffer s p cap"
proof -
  obtain xs where xs: "C (unat (start_sector e)) = Some xs"
    "kfs_read_to_buffer s p cap = Some (if size_bytes e > cap then None else Some (take (unat (size_bytes e)) (content s xs)))"
    by (rule read_spec [OF inv l(1)])
  obtain ys where ys: "C' (unat (start_sector e)) = Some ys"
    "kfs_read_to_buffer s' p cap = Some (if size_bytes e > cap then None else Some (take (unat (size_bytes e)) (content s' ys)))"
    by (rule read_spec [OF inv' l(2)])
  have "ys = xs" "\<And>y. y \<in> set xs \<Longrightarrow> disk s' y = disk s y" using f xs(1) ys(1) by auto
  then show ?thesis using xs(2) ys(2) content_cong [of xs s' s] by simp
qed

lemma read_grows:
  assumes inv: "kfs_inv s C D" and inv': "kfs_inv s' C' D'" and sub: "D \<subseteq> D'" and g: "grows s C s' C' D"
    and l: "lookup s p = Some (Some (e, sec, i))" and fl: "flags e \<noteq> FLAG_FOLDER"
  shows "kfs_read_to_buffer s' p cap = kfs_read_to_buffer s p cap"
proof (rule read_keeps [OF inv inv' l])
  show "lookup s' p = Some (Some (e, sec, i))" by (rule lookup_keeps [OF inv inv' sub _ _ l]) (use g in \<open>auto simp: grows_def\<close>)
  obtain d where "entry_ok s C D e" by (rule lookup_slot [OF inv l])
  with fl g show "\<forall>xs. C (unat (start_sector e)) = Some xs \<longrightarrow> C' (unat (start_sector e)) = Some xs \<and> (\<forall>y \<in> set xs. disk s' y = disk s y)"
    by (auto simp: entry_ok_def grows_def)
qed

section \<open>Inserting an entry\<close>

lemma terminated_fields [simp]:
  "flags (terminated e) = flags e" "start_sector (terminated e) = start_sector e" "size_bytes (terminated e) = size_bytes e"
  "length (filename (terminated e)) = length (filename e)"
  by (simp_all add: terminated_def)

lemma insert_in_place:
  assumes inv: "kfs_inv s C D" and c: "C d = Some xs" and f: "free_in s xs = Some (sec, i)"
  shows "insert_dir_entry s (of_nat d) e = Some (True, ata_write_sector s sec (put_entry (disk s sec) i (terminated e)))"
    and "sec \<in> set xs" "i < 16" "flags (entry_in s sec i) = FLAG_EMPTY"
proof -
  show sec: "sec \<in> set xs" and "i < 16" "flags (entry_in s sec i) = FLAG_EMPTY"
    using f find_SomeD [of _ "slots xs" "(sec, i)"] by (auto simp: free_in_def)
  have "unat (of_nat sec :: u32) = sec" by (rule sector_word(1) [OF kfs_invD(1) [OF inv] chainD(5) [OF inv c sec]])
  then show "insert_dir_entry s (of_nat d) e = Some (True, ata_write_sector s sec (put_entry (disk s sec) i (terminated e)))"
    using free_slot_chain [OF kfs_invD(1) [OF inv] chainD(1) [OF inv c], of "of_nat d"] chainD(2) [OF inv c] f
    by (simp add: insert_dir_entry_def)
qed

lemma insert_extend:
  assumes inv: "kfs_inv s C D" and c: "C d = Some xs" and f: "free_in s xs = None" and z: "z = find_free_sector s" "z \<noteq> 0"
  obtains s2 where "insert_dir_entry s (of_nat d) e = Some (True, ata_write_sector s2 z (put_entry (replicate 512 FLAG_EMPTY) 0 (terminated e)))"
    "same_data {} s s2" "fat_table s2 = (fat_table s)(last xs := of_nat z, z := FAT_EOF)" "fat_synced s \<longrightarrow> fat_synced s2"
proof -
  let ?f = "(fat_table s)(last xs := of_nat z, z := FAT_EOF)"
  let ?s2 = "kfs_sync_fat (kfs_sync_fat (s\<lparr>fat_table := ?f\<rparr>) (last xs)) z"
  have geo: "geo_ok s" by (rule kfs_invD(1) [OF inv])
  have l: "in_data s (last xs)" using chainD(5) [OF inv c] chain_ne [OF chainD(1) [OF inv c]] by simp
  then have lt: "last xs < total_disk_sectors s" by (simp add: in_data_def)
  have "z < total_disk_sectors s" using find_free_spec(2) [of s] z by simp
  note two = sync_two [OF geo lt this _ refl, of ?f]
  have "insert_dir_entry s (of_nat d) e = Some (True, ata_write_sector ?s2 z (put_entry (replicate 512 FLAG_EMPTY) 0 (terminated e)))"
    using free_slot_chain [OF geo chainD(1) [OF inv c], of "of_nat d"] chainD(2) [OF inv c] f z sector_word(1) [OF geo l]
    by (simp add: insert_dir_entry_def Let_def)
  then show thesis by (rule that) (use two in auto)
qed

lemma insert_spec:
  assumes inv: "kfs_inv s C D" and d: "d \<in> D"
    and e: "length (filename e) = 23" "flags e \<noteq> FLAG_EMPTY" "entry_ok s C D (terminated e)"
    and start: "\<forall>b sec' j. b \<in> D \<longrightarrow> dir_slot s C b sec' j \<longrightarrow> start_sector (entry_in s sec' j) \<noteq> start_sector e"
    and name: "\<forall>sec' j. dir_slot s C d sec' j \<longrightarrow> name_of (entry_in s sec' j) \<noteq> name_of (terminated e)"
  obtains (full) "insert_dir_entry s (of_nat d) e = Some (False, s)" "find_free_sector s = 0"
  | (stored) s' C' sec i where "insert_dir_entry s (of_nat d) e = Some (True, s')" "kfs_inv s' C' D" "grows s C s' C' D"
      "dir_slot s' C' d sec i" "entry_in s' sec i = terminated e" "same_data UNIV s s'" "fat_synced s \<longrightarrow> fat_synced s'"
proof -
  have geo: "geo_ok s" by (rule kfs_invD(1) [OF inv])
  obtain xs where c: "C d = Some xs" using dir_chain [OF inv d] by blast
  show thesis
  proof (cases "free_in s xs")
    case (Some p)
    obtain sec i where p: "p = (sec, i)" by (cases p) auto
    note f = insert_in_place [OF inv c Some [unfolded p]]
    let ?s = "ata_write_sector s sec (put_entry (disk s sec) i (terminated e))"
    have n: "kfs_inv ?s C D" "grows s C ?s C D" "dir_slot ?s C d sec i" "entry_in ?s sec i = terminated e"
      by (rule put_entry_inv [OF inv d c f(2-4) _ _ e(3)]; use e start name in simp)+
    have r: "root s \<le> sec" "sec \<noteq> 0" using chainD(5) [OF inv c f(2)] geo by (auto simp: in_data_def geo_ok_def)
    show thesis
      by (rule stored [OF f(1) n]) (use r write_same_data [of s sec UNIV] write_synced [OF geo, of sec] in auto)
  next
    case None
    let ?z = "find_free_sector s"
    show thesis
    proof (cases "?z = 0")
      case True
      then have "insert_dir_entry s (of_nat d) e = Some (False, s)"
        using free_slot_chain [OF geo chainD(1) [OF inv c], of "of_nat d"] chainD(2) [OF inv c] None
        by (simp add: insert_dir_entry_def)
      then show thesis using True by (rule full)
    next
      case False
      note z = find_free_spec [OF False]
      obtain s2 where s2: "insert_dir_entry s (of_nat d) e = Some (True, ata_write_sector s2 ?z (put_entry (replicate 512 FLAG_EMPTY) 0 (terminated e)))"
        "same_data {} s s2" "fat_table s2 = (fat_table s)(last xs := of_nat ?z, ?z := FAT_EOF)" "fat_synced s \<longrightarrow> fat_synced s2"
        using insert_extend [OF inv c None refl False] by blast
      note f2 = same_data_fields [OF s2(2)]
      define s3 where "s3 = ata_write_sector s2 ?z (replicate 512 FLAG_EMPTY)"
      have d3: "same_data {?z} s s3"
        unfolding s3_def by (rule same_data_trans [OF s2(2) write_same_data [of s2 ?z "{?z}"]]) (use z f2 False in auto)
      let ?C = "C(d := Some (xs @ [?z]))"
      note ext = extend_dir_inv [OF inv d c z d3]
      have ext_ok: "fat_table s3 = (fat_table s)(last xs := of_nat ?z, ?z := FAT_EOF)" "disk s3 ?z = replicate 512 FLAG_EMPTY"
        using s2(3) by (simp_all add: s3_def ata_write_sector_def)
      note inv3 = ext(1) [OF ext_ok] and g3 = ext(2) [OF ext_ok] and sl3 = ext(3) [OF ext_ok]
      have en3: "entry_in s3 sec' j = entry_in s sec' j" if "b \<in> D" "dir_slot s C b sec' j" for b sec' j
        using g3 that by (auto simp: grows_def)
      let ?s = "ata_write_sector s3 ?z (put_entry (disk s3 ?z) 0 (terminated e))"
      have same: "?s = ata_write_sector s2 ?z (put_entry (replicate 512 FLAG_EMPTY) 0 (terminated e))"
        by (simp add: s3_def ata_write_sector_def)
      have free3: "flags (entry_in s3 ?z 0) = FLAG_EMPTY" using ext_ok(2) entry_at_zero by simp
      have ok3: "entry_ok s3 ?C D (terminated e)"
        using e(3) d same_data_fields(3) [OF d3] by (auto simp: entry_ok_def)
      have st3: "\<And>b sec' j. b \<in> D \<Longrightarrow> dir_slot s3 ?C b sec' j \<Longrightarrow> start_sector (entry_in s3 sec' j) \<noteq> start_sector (terminated e)"
        using start sl3 en3 by simp
      have nm3: "\<And>sec' j. dir_slot s3 ?C d sec' j \<Longrightarrow> name_of (entry_in s3 sec' j) \<noteq> name_of (terminated e)"
        using name sl3 [OF d] en3 [OF d] by simp
      have c3: "?C d = Some (xs @ [?z])" by simp
      have n: "kfs_inv ?s ?C D" "grows s3 ?C ?s ?C D" "dir_slot ?s ?C d ?z 0" "entry_in ?s ?z 0 = terminated e"
        by (rule put_entry_inv [OF inv3 d c3 _ _ free3 _ _ ok3 st3 nm3 refl]; use e in simp)+
      have r3: "root s3 = root s" "geo_ok s3" using same_data_fields [OF d3] geo by simp_all
      have sd: "same_data UNIV s ?s"
        by (rule same_data_trans [OF d3 write_same_data [of s3 ?z UNIV]]) (use z r3 False in auto)
      have "fat_synced s \<longrightarrow> fat_synced ?s"
        unfolding same using s2(4) write_synced [of s2 ?z] f2(3,9) geo z(1) by auto
      then show thesis
        by (intro stored [of ?s ?C ?z 0]) (use s2(1) n grows_trans [OF g3 n(2)] sd same in auto)
    qed
  qed
qed

end
