(* ===== verification/Kfs_Theorems.thy ===== *)
theory Kfs_Theorems
  imports Kfs_Correct
begin

text \<open>
  The properties of the file system: what a created file reads back as, also after a remount,
  what deletion frees, and that nothing else changes.
\<close>

section \<open>Formatting\<close>

definition disk_size :: "u32 \<Rightarrow> nat" where
  "disk_size ata_total = unat (if ata_total = 0 then 204800 else ata_total)"

lemma geometry_fields:
  assumes "4 * disk_size t + 511 < 2 ^ 32"
  shows "total_disk_sectors (geometry s t) = disk_size t" "fat_sectors_needed (geometry s t) = (4 * disk_size t + 511) div 512"
proof -
  let ?t = "if t = 0 then 204800 else t"
  have u: "unat ?t = disk_size t" by (simp add: disk_size_def)
  have "unat (?t * 4) = 4 * disk_size t"
    using assms u by (subst unat_mult_lem [THEN iffD1]) (auto simp: mult.commute)
  moreover have "unat (?t * 4 + 511) = unat (?t * 4) + 511"
    by (subst unat_add_lem [THEN iffD1]) (use assms calculation in auto)
  ultimately have "unat ((?t * 4 + 511) div 512) = (4 * disk_size t + 511) div 512"
    by (simp add: unat_div_distrib)
  then show "total_disk_sectors (geometry s t) = disk_size t" "fat_sectors_needed (geometry s t) = (4 * disk_size t + 511) div 512"
    using u by (simp_all add: geometry_def Let_def)
qed

lemma fold_write:
  "disk (fold (\<lambda>k s. ata_write_sector s (1 + k) (g k)) [0..<n] s) x = (if 1 \<le> x \<and> x \<le> n then g (x - 1) else disk s x)"
  "\<exists>d. fold (\<lambda>k s. ata_write_sector s (1 + k) (g k)) [0..<n] s = s\<lparr>disk := d\<rparr>"
proof (induction n)
  case 0
  case 1 show ?case by auto
  case 2 show ?case by (auto intro: exI [of _ "disk s"])
next
  case (Suc n)
  case 1 show ?case using Suc by (auto simp: ata_write_sector_def)
  case 2 show ?case using Suc by (auto simp: ata_write_sector_def)
qed

definition size_ok :: "u32 \<Rightarrow> bool" where
  "size_ok t \<longleftrightarrow> 3 \<le> disk_size t \<and> 4 * disk_size t + 511 < 2 ^ 32"

lemma size_okD:
  assumes "size_ok t"
  shows "4 * disk_size t + 511 < 2 ^ 32" "3 \<le> disk_size t"
  using assms by (simp_all add: size_ok_def)

lemma format_fields:
  assumes "size_ok t" and s': "s' = kfs_format s t" and n: "n = (4 * disk_size t + 511) div 512"
  shows "total_disk_sectors s' = disk_size t" "fat_sectors_needed s' = n" "root s' = 1 + n"
    "fat_table s' i = (if i \<le> 1 + n then FAT_EOF else if i < disk_size t then FAT_FREE else fat_table s i)"
    "disk s' (1 + n) = replicate 512 FLAG_EMPTY" "disk s' 0 = header_bytes s'" "fat_synced s'"
    "magic s' = [75, 90, 70, 83]" "padding s' = padding s"
proof -
  have n32: "1 + n < 2 ^ 32" using size_okD [OF assms(1)] n by auto
  define s1 where "s1 = geometry s t"
  have g: "total_disk_sectors s1 = disk_size t" "fat_sectors_needed s1 = n"
    using geometry_fields [OF size_okD(1) [OF assms(1)], of s] n by (simp_all add: s1_def)
  define s2 where "s2 = s1\<lparr>magic := [75, 90, 70, 83], root_dir_sector := 1 + of_nat n, total_files := 0\<rparr>"
  have r2: "root s2 = 1 + n" using n32 unat_of_nat_small [of "Suc n", where 'a = 32] by (simp add: s2_def)
  define s3 where "s3 = s2\<lparr>fat_table := (\<lambda>i. if i \<le> n \<or> i = root s2 then FAT_EOF
      else if i < total_disk_sectors s2 then FAT_FREE else fat_table s2 i)\<rparr>"
  obtain d where d: "fold (\<lambda>k s. ata_write_sector s (1 + k) (fat_sector s3 k)) [0..<n] (write_header s3) = (write_header s3)\<lparr>disk := d\<rparr>"
    using fold_write(2) by blast
  have dd: "d x = (if 1 \<le> x \<and> x \<le> n then fat_sector s3 (x - 1) else disk (write_header s3) x)" for x
    using fold_write(1) [of "fat_sector s3" n "write_header s3" x] d by simp
  have f: "s' = ata_write_sector ((write_header s3)\<lparr>disk := d\<rparr>) (root s2) (replicate 512 FLAG_EMPTY)"
  proof -
    have "s' = ata_write_sector (fold (\<lambda>k s. ata_write_sector s (1 + k) (fat_sector s3 k)) [0..<n] (write_header s3))
        (root s2) (replicate 512 FLAG_EMPTY)"
      unfolding s' kfs_format_def Let_def s3_def s2_def s1_def g(2) [unfolded s1_def] by (rule refl)
    then show ?thesis unfolding d .
  qed
  note fs = f write_header_def ata_write_sector_def
  show "total_disk_sectors s' = disk_size t" "fat_sectors_needed s' = n" "magic s' = [75, 90, 70, 83]" "padding s' = padding s"
    using g by (simp_all add: fs s3_def s2_def s1_def geometry_def Let_def)
  show "root s' = 1 + n" using r2 by (simp add: fs s3_def)
  show "fat_table s' i = (if i \<le> 1 + n then FAT_EOF else if i < disk_size t then FAT_FREE else fat_table s i)"
    using g r2 by (simp add: fs s3_def s2_def s1_def geometry_def Let_def le_Suc_eq)
  show "disk s' (1 + n) = replicate 512 FLAG_EMPTY" using r2 by (simp add: fs)
  show "disk s' 0 = header_bytes s'" using dd [of 0] r2 by (simp add: fs header_bytes_def)
  have "fat_sector s' = fat_sector s3" by (rule fat_sector_cong) (simp add: fs)
  then show "fat_synced s'" using dd r2 g by (auto simp: fat_synced_def fs s3_def s2_def)
qed

lemma format_inv:
  assumes "size_ok t" "s' = kfs_format s t"
  shows "kfs_inv s' [root s' \<mapsto> [root s']] {root s'}"
proof -
  define n where "n = (4 * disk_size t + 511) div 512"
  note f = format_fields [OF assms n_def]
  have n: "1 \<le> n" "disk_size t \<le> 128 * n" "1 + n < disk_size t" using size_okD [OF assms(1)] by (auto simp: n_def)
  have geo: "geo_ok s'" using f n size_okD [OF assms(1)] by (auto simp: geo_ok_def)
  have no: "\<not> dir_slot s' [root s' \<mapsto> [root s']] d sec i" for d sec i
    using f(3,5) entry_at_zero by (auto simp: dir_slot_def)
  have "chains_ok s' [root s' \<mapsto> [root s']]"
    using f n by (auto simp: chains_ok_def chain_def in_data_def split: if_splits)
  then show ?thesis using geo no by (auto simp: kfs_inv_def entries_ok_def)
qed

section \<open>Creating a file\<close>

lemma sectors_for_spec:
  assumes "length data + 511 < 2 ^ 32" "sz = (of_nat (length data) :: u32)"
  shows "0 < sectors_for sz" "length data \<le> 512 * sectors_for sz" "unat sz = length data"
proof -
  show u: "unat sz = length data" using assms by (simp add: unat_of_nat_small)
  have "unat (sz + 511) = length data + 511" using assms u by (subst unat_add_lem [THEN iffD1]) auto
  then have "unat ((sz + 511) div 512) = (length data + 511) div 512" by (simp add: unat_div_distrib)
  then show "0 < sectors_for sz" "length data \<le> 512 * sectors_for sz"
    using u by (cases data; auto simp: sectors_for_def unat_eq_0 [symmetric] div_greater_zero_iff)+
qed

lemma new_name_spec:
  assumes "length stk = 23" "length name \<le> 22" "0 \<notin> set name"
  shows "length (new_name stk name) = 23" "0 \<in> set (new_name stk name)" "cstr (new_name stk name) = name"
    "(new_name stk name)[22 := 0] = new_name stk name"
proof -
  show len: "length (new_name stk name) = 23" using assms by (simp add: new_name_def Let_def)
  show "(new_name stk name)[22 := 0] = new_name stk name" by (simp add: new_name_def Let_def)
  have "\<exists>rest. new_name stk name = name @ 0 # rest"
  proof (cases "length name < 22")
    case True
    then have "new_name stk name = (name @ 0 # drop (Suc (length name)) stk)[22 := 0]" by (simp add: new_name_def Let_def)
    also have "\<dots> = name @ 0 # (drop (Suc (length name)) stk)[21 - length name := 0]"
    proof -
      have "22 - length name = Suc (21 - length name)" using True by simp
      then show ?thesis using True by (simp add: list_update_append)
    qed
    finally show ?thesis by blast
  next
    case False
    then have l: "length name = 22" using assms(2) by simp
    have "length (drop 22 stk) = 1" using assms(1) by simp
    then obtain x where "drop 22 stk = [x]" by (metis One_nat_def length_0_conv length_Suc_conv)
    then have "new_name stk name = name @ [0]" using l by (simp add: new_name_def Let_def list_update_append)
    then show ?thesis by blast
  qed
  then obtain rest where r: "new_name stk name = name @ 0 # rest" ..
  show "0 \<in> set (new_name stk name)" by (simp add: r)
  have "takeWhile (\<lambda>c. c \<noteq> 0) (name @ 0 # rest) = name" using assms(3) by (subst takeWhile_append2) auto
  then show "cstr (new_name stk name) = name" by (simp add: cstr_def r)
qed

lemma header_step:
  assumes inv: "kfs_inv s C D" and s': "s' = write_header (s\<lparr>total_files := k\<rparr>)"
  shows "kfs_inv s' C D" "grows s C s' C D" "fat_synced s \<Longrightarrow> fat_synced s'" "disk s' 0 = header_bytes s'"
proof -
  have f: "root_dir_sector s' = root_dir_sector s" "total_disk_sectors s' = total_disk_sectors s"
    "fat_sectors_needed s' = fat_sectors_needed s" "fat_table s' = fat_table s" "\<And>y. y \<noteq> 0 \<Longrightarrow> disk s' y = disk s y"
    using s' by (simp_all add: write_header_def ata_write_sector_def)
  have nz: "y \<noteq> 0" if "C x = Some xs" "y \<in> set xs" for x xs y
    using chainD(5) [OF inv that] kfs_invD(1) [OF inv] by (auto simp: in_data_def geo_ok_def)
  show "kfs_inv s' C D" "grows s C s' C D" using agree_inv(1,3) [OF inv f(1-3)] f(4,5) nz by auto
  show "fat_synced s \<Longrightarrow> fat_synced s'" using f fat_sector_cong [OF f(4)] by (simp add: fat_synced_def)
  show "disk s' 0 = header_bytes s'" using s' by (simp add: write_header_def ata_write_sector_def header_bytes_def)
qed

text \<open>The new state after the sectors of a file have been written, before its entry exists.\<close>

lemma allocated_inv:
  assumes inv: "kfs_inv s C D" and al: "allocated s s' ys data" and fr: "\<forall>x. x \<notin> set ys \<longrightarrow> fat_table s' x = fat_table s x"
  shows "kfs_inv s' C D" "grows s C s' C D" "dir_slot s' C d sec i = dir_slot s C d sec i"
    "\<forall>x xs y. C x = Some xs \<longrightarrow> y \<in> set xs \<longrightarrow> y \<notin> set ys"
proof -
  have sd: "same_data (set ys) s s'" using al by (simp add: allocated_def)
  have out: "y \<notin> set ys" if "C x = Some xs" "y \<in> set xs" for x xs y
    using chainD(4) [OF inv that] al by (auto simp: allocated_def)
  then show "\<forall>x xs y. C x = Some xs \<longrightarrow> y \<in> set xs \<longrightarrow> y \<notin> set ys" by blast
  have frm: "fat_table s' y = fat_table s y \<and> disk s' y = disk s y" if "C x = Some xs" "y \<in> set xs" for x xs y
    using fr out [OF that] same_data_fields(7) [OF sd] chainD(5) [OF inv that] by (simp add: in_data_def)
  note sf = same_data_fields(3,1,2) [OF sd]
  show "kfs_inv s' C D" by (rule agree_inv(1) [OF inv sf]) (rule frm)
  show "dir_slot s' C d sec i = dir_slot s C d sec i" by (rule agree_inv(2) [OF inv sf]) (rule frm)
  show "grows s C s' C D" by (rule agree_inv(3) [OF inv sf]) (rule frm)
qed

text \<open>A file whose sectors are written and whose name is free gets its entry.\<close>

lemma enter_file:
  assumes inv: "kfs_inv s C D" and d: "d \<in> D" and absent: "\<forall>sec i. dir_slot s C d sec i \<longrightarrow> name_of (entry_in s sec i) \<noteq> name"
    and al: "allocated s s1 ys data" and fr: "\<forall>x. x \<notin> set ys \<longrightarrow> fat_table s1 x = fat_table s x" and lk: "linked (fat_table s1) ys"
    and stk: "length stk = 23" and nm: "length name \<le> 22" "0 \<notin> set name" and len: "length data \<le> 512 * length ys" "length data < 2 ^ 32"
    and e: "e = \<lparr>filename = new_name stk name, flags = FLAG_FILE, start_sector = of_nat (hd ys), size_bytes = of_nat (length data)\<rparr>"
  obtains (full) "insert_dir_entry s1 (of_nat d) e = Some (False, s1)" "find_free_sector s1 = 0"
  | (stored) s2 C2 sec i where "insert_dir_entry s1 (of_nat d) e = Some (True, s2)" "kfs_inv s2 C2 D" "grows s C s2 C2 D"
      "dir_slot s2 C2 d sec i" "entry_in s2 sec i = e" "name_of e = name" "C2 (unat (start_sector e)) = Some ys" "unat (start_sector e) \<notin> D"
      "content s2 ys = content s1 ys" "same_data UNIV s s2" "fat_synced s \<longrightarrow> fat_synced s2"
proof -
  note a = allocated_inv [OF inv al fr]
  have al2: "same_data (set ys) s s1" "\<forall>y \<in> set ys. length (disk s1 y) = 512" "fat_synced s \<longrightarrow> fat_synced s1"
    "distinct ys" "\<And>y. y \<in> set ys \<Longrightarrow> in_data s y"
    using al by (auto simp: allocated_def in_data_def)
  have ch: "chain s1 ys" using lk al2 same_data_fields(8) [OF al2(1)] by (auto simp: chain_def)
  let ?C = "C(hd ys := Some ys)"
  note n = add_chain_inv [OF a(1) ch al2(2) a(4)]
  have hd: "hd ys \<in> set ys" using linked_ne [OF lk] by simp
  have u: "unat (start_sector e) = hd ys" using sector_word(1) [OF kfs_invD(1) [OF inv] al2(5) [OF hd]] e by simp
  have hD: "hd ys \<notin> D" using n(2) kfs_invD(3) [OF inv] by blast
  note nn = new_name_spec [OF stk nm]
  have te: "terminated e = e" using nn(4) e by (simp add: terminated_def)
  have ne: "name_of e = name" using nn(3) e by (simp add: name_of_def)
  have en1: "entry_in s1 sec i = entry_in s sec i" if "b \<in> D" "dir_slot s C b sec i" for b sec i using a(2) that by (auto simp: grows_def)
  have sz: "unat (size_bytes e) = length data" using len(2) e by (simp add: unat_of_nat_small)
  have ok: "entry_ok s1 ?C D (terminated e)"
    using nn(2) e u hD kfs_invD(4) [OF a(1)] sz len(1) unfolding te by (auto simp: entry_ok_def)
  have st: "\<forall>b sec i. b \<in> D \<longrightarrow> dir_slot s1 ?C b sec i \<longrightarrow> start_sector (entry_in s1 sec i) \<noteq> start_sector e"
  proof (intro allI impI)
    fix b sec i assume that: "b \<in> D" "dir_slot s1 ?C b sec i"
    have sl: "dir_slot s1 C b sec i" using that n(4) by blast
    have "unat (start_sector (entry_in s1 sec i)) \<in> dom C" using slotD [OF a(1) that(1) sl] by (auto simp: entry_ok_def)
    with n(2) u show "start_sector (entry_in s1 sec i) \<noteq> start_sector e" by auto
  qed
  have nf: "\<forall>sec i. dir_slot s1 ?C d sec i \<longrightarrow> name_of (entry_in s1 sec i) \<noteq> name_of (terminated e)"
    using n(4) [OF d] a(3) absent en1 [OF d] unfolding te ne by metis
  have le: "length (filename e) = 23" "flags e \<noteq> FLAG_EMPTY" using nn(1) e by auto
  show thesis
  proof (cases rule: insert_spec [OF n(1) d le ok st nf])
    case 1
    then show ?thesis by (rule full)
  next
    case (2 s2 C2 sec i)
    have g: "grows s C s2 C2 D" using grows_trans [OF grows_trans [OF a(2) n(3)] 2(3)] .
    have y2: "C2 (hd ys) = Some ys" "\<And>y. y \<in> set ys \<Longrightarrow> disk s2 y = disk s1 y" using 2(3) hD by (auto simp: grows_def)
    have sd: "same_data UNIV s s2" by (rule same_data_trans [OF al2(1) 2(6)]) auto
    show ?thesis
      by (rule stored [OF 2(1,2) g 2(4)])
        (use 2(5,7) te ne u y2(1) hD content_cong [of ys s2 s1] y2(2) sd al2(3) in auto)
  qed
qed

text \<open>What a call of \<open>kfs_create_file\<close> leads to.\<close>

lemma create_file_cases:
  assumes inv: "kfs_inv s C D" and stk: "length stk = 23" and nm: "length (last_name path) \<le> 22" "0 \<notin> set path"
    and len: "length data + 511 < 2 ^ 32"
  obtains (refused) s' C' where "kfs_create_file s t stk path data = Some (False, s')" "kfs_inv s' C' D" "grows s C s' C' D"
      "split_last s path = Some None \<or> lookup s path \<noteq> Some None \<or> card (free_sectors s) \<le> sectors_for (of_nat (length data))"
  | (created) s' C' where "kfs_create_file s t stk path data = Some (True, s')" "kfs_inv s' C' D" "grows s C s' C' D"
      "\<forall>cap \<ge> of_nat (length data). kfs_read_to_buffer s' path cap = Some (Some data)"
      "fat_synced s \<longrightarrow> fat_synced s'" "disk s' 0 = header_bytes s'"
      "total_disk_sectors s' = total_disk_sectors s" "fat_sectors_needed s' = fat_sectors_needed s"
      "magic s' = magic s" "padding s' = padding s"
      "\<exists>e sec i. lookup s' path = Some (Some (e, sec, i)) \<and> flags e \<noteq> FLAG_FOLDER"
proof -
  let ?sz = "of_nat (length data) :: u32" and ?nm = "last_name path"
  have geo: "geo_ok s" by (rule kfs_invD(1) [OF inv])
  have nf: "\<not> root_dir_sector s < 2" using geo by (simp add: geo_ok_def word_less_nat_alt)
  note sp = sectors_for_spec [OF len refl]
  note call = kfs_create_file_def [of s t stk path data] nf
  consider "split_last s path = Some None"
    | d where "d \<in> D" "split_last s path = Some (Some (of_nat d, ?nm))" "?nm \<noteq> []"
        "resolve_dir s (root_dir_sector s) (parent_path path) = Some (Some (of_nat d))"
    using split_last_total [OF inv] by blast
  then show thesis
  proof cases
    case 1
    then show ?thesis by (intro refused [of s C]) (use call inv grows_refl in \<open>auto simp: Let_def\<close>)
  next
    case (2 d)
    have nz: "0 \<notin> set ?nm" using nm(2) set_takeWhileD [of 0 _ "rev path"] by (auto simp: last_name_def)
    show ?thesis
    proof (cases "find_entry_in s (of_nat d) ?nm = Some None")
      case False
      then obtain x where "find_entry_in s (of_nat d) ?nm = Some (Some x)" using find_entry_spec(3) [OF inv 2(1)] by (metis not_None_eq)
      then show ?thesis by (intro refused [of s C]) (use call inv grows_refl 2 in \<open>auto simp: Let_def lookup_def\<close>)
    next
      case True
      have absent: "\<forall>sec i. dir_slot s C d sec i \<longrightarrow> name_of (entry_in s sec i) \<noteq> ?nm"
        using find_entry_spec(1) [OF inv 2(1)] True by blast
      obtain r s1 where w: "write_chain s (sectors_for ?sz) 0 0 data = (r, s1)" by fastforce
      obtain ys where ys: "allocated s s1 ys data" "\<forall>x. x \<notin> set ys \<longrightarrow> fat_table s1 x = fat_table s x"
        "case r of None \<Rightarrow> find_free_sector s1 = 0 \<and> length ys < sectors_for ?sz | Some st \<Rightarrow> length ys = sectors_for ?sz \<and> st = hd ys \<and> linked (fat_table s1) ys"
        using write_chain_spec [OF geo sp(1) w] by blast
      note a = allocated_inv [OF inv ys(1) ys(2)]
      show ?thesis
      proof (cases r)
        case None
        then have "card (free_sectors s) \<le> sectors_for ?sz" using allocated_all [OF ys(1,2)] ys(3) by simp
        then show ?thesis using None by (intro refused [of s1 C]) (use call 2 True w a in \<open>auto simp: Let_def\<close>)
      next
        case (Some st)
        then have st: "length ys = sectors_for ?sz" "st = hd ys" "linked (fat_table s1) ys" using ys(3) by auto
        define e where "e = \<lparr>filename = new_name stk ?nm, flags = FLAG_FILE, start_sector = of_nat (hd ys), size_bytes = ?sz\<rparr>"
        have lens: "length data \<le> 512 * length ys" "length data < 2 ^ 32" using sp(2) st(1) len by auto
        have cre: "kfs_create_file s t stk path data = (case insert_dir_entry s1 (of_nat d) e of
             None \<Rightarrow> None | Some (False, s2) \<Rightarrow> Some (False, s2)
           | Some (True, s2) \<Rightarrow> Some (True, write_header (s2\<lparr>total_files := total_files s2 + 1\<rparr>)))"
          using call 2 True w Some st(2) by (simp add: Let_def e_def)
        show ?thesis
        proof (cases rule: enter_file [OF inv 2(1) absent ys(1) ys(2) st(3) stk nm(1) nz lens e_def])
          case 1
          have "card (free_sectors s) \<le> sectors_for ?sz" using allocated_all [OF ys(1,2) 1(2)] st(1) by simp
          then show ?thesis by (intro refused [of s1 C]) (use cre a 1(1) in auto)
        next
          case s2: (2 s2 C2 sec i)
          define s' where "s' = write_header (s2\<lparr>total_files := total_files s2 + 1\<rparr>)"
          note h = header_step [OF s2(2) s'_def]
          have g: "grows s C s' C2 D" by (rule grows_trans [OF s2(3) h(2)])
          have sl: "dir_slot s' C2 d sec i" "entry_in s' sec i = e" using h(2) s2(4,5) 2(1) by (auto simp: grows_def)
          have rt: "root_dir_sector s' = root_dir_sector s" using g by (simp add: grows_def)
          have "resolve_dir s' (root_dir_sector s') (parent_path path) = Some (Some (of_nat d))"
            using resolve_keeps [OF inv h(1) order_refl kfs_invD(4) [OF inv]] g 2(4) rt by (simp add: grows_def)
          moreover have "find_entry_in s' (of_nat d) ?nm = Some (Some (e, sec, i))"
            using find_entry_spec(2) [OF h(1) 2(1)] sl s2(6) by simp
          ultimately have lk: "lookup s' path = Some (Some (e, sec, i))" using 2(3) by (simp add: lookup_def split_last_def)
          have rd: "kfs_read_to_buffer s' path cap = Some (Some data)" if "?sz \<le> cap" for cap
          proof -
            obtain xs where xs: "C2 (unat (start_sector e)) = Some xs" "kfs_read_to_buffer s' path cap =
                Some (if size_bytes e > cap then None else Some (take (unat (size_bytes e)) (content s' xs)))"
              by (rule read_spec [OF h(1) lk])
            have "content s' ys = content s2 ys" using h(2) s2(7,8) by (intro content_cong) (auto simp: grows_def)
            then have "take (length data) (content s' xs) = data"
              using xs(1) s2(7,9) ys(1) lens(1) by (simp add: allocated_def)
            then show ?thesis using xs(2) that sp(3) by (simp add: e_def not_less)
          qed
          note f2 = same_data_fields [OF s2(10)]
          have f': "total_disk_sectors s' = total_disk_sectors s" "fat_sectors_needed s' = fat_sectors_needed s"
            "magic s' = magic s" "padding s' = padding s"
            using f2 by (simp_all add: s'_def write_header_def ata_write_sector_def)
          show ?thesis
            by (rule created [of s' C2]) (use cre s2(1,11) h(1,3,4) g rd f' lk e_def in \<open>auto simp: s'_def\<close>)
        qed
      qed
    qed
  qed
qed

text \<open>
  C1. Creating a file through any path whose last component fits in a directory entry always
  returns and keeps the file system consistent. It succeeds whenever the parent directory
  exists, the name is free and the disk has one sector more than the data needs. When it succeeds, reading the path back with
  a large enough buffer gives exactly the bytes that were stored; whether it succeeds or not,
  every file that existed before reads back as before.
\<close>

theorem kfs_create_file_correct:
  assumes inv: "kfs_inv s C D" and stk: "length stk = 23" and nm: "length (last_name path) \<le> 22" "0 \<notin> set path"
    and len: "length data + 511 < 2 ^ 32"
  shows "\<exists>ok s' C'. kfs_create_file s t stk path data = Some (ok, s') \<and> kfs_inv s' C' D \<and>
     (split_last s path \<noteq> Some None \<and> lookup s path = Some None \<and> sectors_for (of_nat (length data)) < card (free_sectors s) \<longrightarrow> ok) \<and>
     (ok \<longrightarrow> (\<forall>cap \<ge> of_nat (length data). kfs_read_to_buffer s' path cap = Some (Some data))) \<and>
     (\<forall>p e sec i cap. lookup s p = Some (Some (e, sec, i)) \<and> flags e \<noteq> FLAG_FOLDER \<longrightarrow>
        kfs_read_to_buffer s' p cap = kfs_read_to_buffer s p cap)"
proof (cases rule: create_file_cases [OF assms, of t])
  case (1 s' C')
  then show ?thesis using read_grows [OF inv 1(2) order_refl 1(3)] by (metis not_le)
next
  case (2 s' C')
  then show ?thesis using read_grows [OF inv 2(2) order_refl 2(3)] by blast
qed

section \<open>Deleting a file\<close>

lemma root_not_in_chain:
  assumes inv: "kfs_inv s C D" and c: "C x = Some xs" "x \<noteq> root s" and y: "y \<in> set xs"
  shows "root s < y"
proof -
  obtain rs where rs: "C (root s) = Some rs" using dir_chain [OF inv kfs_invD(4) [OF inv]] by blast
  have "root s \<in> set rs" using chainD(1,2) [OF inv rs] chain_ne [of s rs] by (metis hd_in_set)
  then have "y \<noteq> root s" using kfs_invD(2) [OF inv] c y rs unfolding chains_ok_def by metis
  then show ?thesis using chainD(5) [OF inv c(1) y] by (simp add: in_data_def)
qed

lemma delete_file_spec:
  assumes inv: "kfs_inv s C D" and l: "lookup s path = Some (Some (e, sec, i))" and fl: "flags e \<noteq> FLAG_FOLDER"
    and x: "x = unat (start_sector e)" "C x = Some xs"
  obtains s' where "kfs_delete_file s path = Some s'" "kfs_inv s' (C(x := None)) D"
    "\<forall>b sec' j. b \<in> D \<longrightarrow> dir_slot s' (C(x := None)) b sec' j = (dir_slot s C b sec' j \<and> (sec', j) \<noteq> (sec, i))"
    "\<forall>b sec' j. b \<in> D \<longrightarrow> dir_slot s' (C(x := None)) b sec' j \<longrightarrow> entry_in s' sec' j = entry_in s sec' j"
    "\<forall>z zs y. z \<notin> D \<longrightarrow> z \<noteq> x \<longrightarrow> C z = Some zs \<longrightarrow> y \<in> set zs \<longrightarrow> disk s' y = disk s y"
    "fat_table s' = (\<lambda>y. if y \<in> set xs then FAT_FREE else fat_table s y)" "fat_synced s \<longrightarrow> fat_synced s'"
    "root_dir_sector s' = root_dir_sector s" "total_disk_sectors s' = total_disk_sectors s"
proof -
  obtain d where d: "d \<in> D" "dir_slot s C d sec i" "e = entry_in s sec i" using lookup_slot [OF inv l] by metis
  note c = chainD [OF inv x(2)]
  have st: "of_nat (hd xs) = start_sector e" using c(2) x(1) by simp
  obtain s1 where s1: "free_chain s (start_sector e) = Some s1" "same_data {} s s1" "fat_synced s \<longrightarrow> fat_synced s1"
      "fat_table s1 = (\<lambda>y. if y \<in> set xs then FAT_FREE else fat_table s y)"
    using free_chain_spec [OF kfs_invD(1) [OF inv] c(1)] unfolding st by blast
  define s2 where "s2 = ata_write_sector s1 sec ((disk s1 sec)[32 * i + 23 := FLAG_EMPTY])"
  define s' where "s' = write_header (s2\<lparr>total_files := total_files s2 - 1\<rparr>)"
  note r = remove_file_inv [OF inv d(1,2) fl [unfolded d(3)] x [unfolded d(3)] s1(2,4) s2_def]
  note h = header_step [OF r(1) s'_def]
  note sf = same_data_fields [OF s1(2)]
  have call: "kfs_delete_file s path = Some s'"
    using l fl s1(1) by (simp add: kfs_delete_file_def Let_def s'_def s2_def)
  have f: "fat_table s' = fat_table s1" "root_dir_sector s' = root_dir_sector s" "total_disk_sectors s' = total_disk_sectors s"
    using sf by (simp_all add: s'_def s2_def write_header_def ata_write_sector_def)
  obtain ds where ds: "C d = Some ds" "sec \<in> set ds" using d(2) by (auto simp: dir_slot_def)
  have in1: "root s \<le> sec" using chainD(5) [OF inv ds] by (simp add: in_data_def)
  have syn: "fat_synced s \<longrightarrow> fat_synced s'"
    using s1(3) h(3) write_synced [of s1 sec] in1 sf kfs_invD(1) [OF inv] by (auto simp: s2_def geo_ok_def)
  have nz: "y \<noteq> 0" if "C z = Some zs" "y \<in> set zs" for z zs y
    using chainD(5) [OF inv that] kfs_invD(1) [OF inv] by (auto simp: in_data_def geo_ok_def)
  have d': "disk s' y = disk s2 y" if "y \<noteq> 0" for y using that by (simp add: s'_def write_header_def ata_write_sector_def)
  have en: "dir_slot s' (C(x := None)) b sec' j = dir_slot s2 (C(x := None)) b sec' j"
    "dir_slot s2 (C(x := None)) b sec' j \<Longrightarrow> entry_in s' sec' j = entry_in s2 sec' j" for b sec' j
    using d' nz by (auto simp: dir_slot_def split: if_splits)
  have en3: "entry_in s' sec' j = entry_in s sec' j" if "b \<in> D" "dir_slot s' (C(x := None)) b sec' j" for b sec' j
    using en(2) r(3) [OF that(1)] that(2) unfolding en(1) by simp
  have sl: "dir_slot s' (C(x := None)) b sec' j = (dir_slot s C b sec' j \<and> (sec', j) \<noteq> (sec, i))" if "b \<in> D" for b sec' j
    using en(1) r(2) [OF that] by simp
  have kp: "disk s' y = disk s y" if "z \<notin> D" "z \<noteq> x" "C z = Some zs" "y \<in> set zs" for z zs y
    using d' nz that r(4) by simp
  have ft: "fat_table s' = (\<lambda>y. if y \<in> set xs then FAT_FREE else fat_table s y)" using f(1) s1(4) by simp
  show thesis
    by (rule that [OF call h(1) _ _ _ ft syn f(2,3)]; intro allI impI) (fact sl, fact en3, fact kp)
qed

lemma delete_file_effect:
  assumes inv: "kfs_inv s C D" and l: "lookup s path = Some (Some (e, sec, i))" and fl: "flags e \<noteq> FLAG_FOLDER"
    and c: "C (unat (start_sector e)) = Some xs"
  obtains s' C' where "kfs_delete_file s path = Some s'" "kfs_inv s' C' D" "lookup s' path = Some None" "split_last s' path \<noteq> Some None"
    "free_sectors s' = free_sectors s \<union> set xs" "fat_synced s \<longrightarrow> fat_synced s'"
    "\<And>p e' sec' i' cap. lookup s p = Some (Some (e', sec', i')) \<Longrightarrow> flags e' \<noteq> FLAG_FOLDER \<Longrightarrow> (sec', i') \<noteq> (sec, i) \<Longrightarrow>
        lookup s' p = Some (Some (e', sec', i')) \<and> kfs_read_to_buffer s' p cap = kfs_read_to_buffer s p cap"
proof -
  define x where "x = unat (start_sector e)"
  note cx = c [folded x_def]
  obtain s' where s': "kfs_delete_file s path = Some s'" "kfs_inv s' (C(x := None)) D"
    "\<forall>b sec' j. b \<in> D \<longrightarrow> dir_slot s' (C(x := None)) b sec' j = (dir_slot s C b sec' j \<and> (sec', j) \<noteq> (sec, i))"
    "\<forall>b sec' j. b \<in> D \<longrightarrow> dir_slot s' (C(x := None)) b sec' j \<longrightarrow> entry_in s' sec' j = entry_in s sec' j"
    "\<forall>z zs y. z \<notin> D \<longrightarrow> z \<noteq> x \<longrightarrow> C z = Some zs \<longrightarrow> y \<in> set zs \<longrightarrow> disk s' y = disk s y"
    "fat_table s' = (\<lambda>y. if y \<in> set xs then FAT_FREE else fat_table s y)" "fat_synced s \<longrightarrow> fat_synced s'"
    "root_dir_sector s' = root_dir_sector s" "total_disk_sectors s' = total_disk_sectors s"
    by (rule delete_file_spec [OF inv l fl x_def cx])
  obtain d where d: "d \<in> D" "dir_slot s C d sec i" "e = entry_in s sec i" "entry_ok s C D e" "name_of e = last_name path"
      "split_last s path = Some (Some (of_nat d, last_name path))"
    using lookup_slot [OF inv l] by metis
  have xr: "x \<noteq> root s" using d(4) by (simp add: x_def entry_ok_def)
  have fld: "dir_slot s' (C(x := None)) b sec' j \<and> entry_in s' sec' j = entry_in s sec' j"
    if "b \<in> D" "dir_slot s C b sec' j" "(sec', j) \<noteq> (sec, i)" for b sec' j
    using s'(3,4) that by auto
  have keepf: "\<forall>b sec' j. b \<in> D \<longrightarrow> dir_slot s C b sec' j \<longrightarrow> flags (entry_in s sec' j) = FLAG_FOLDER \<longrightarrow>
      dir_slot s' (C(x := None)) b sec' j \<and> entry_in s' sec' j = entry_in s sec' j"
    using fld fl d(3) by (metis prod.inject)
  have gone: "lookup s' path = Some None" "split_last s' path \<noteq> Some None"
  proof -
    have "resolve_dir s (root_dir_sector s) (parent_path path) = Some (Some (of_nat d))" "last_name path \<noteq> []"
      using d(6) by (auto simp: split_last_def split: if_splits option.splits)
    then have "split_last s' path = Some (Some (of_nat d, last_name path))"
      using resolve_keeps [OF inv s'(2) order_refl kfs_invD(4) [OF inv]] keepf s'(8) by (simp add: split_last_def)
    moreover have "name_of (entry_in s' sec' j) \<noteq> last_name path" if "dir_slot s' (C(x := None)) d sec' j" for sec' j
      using kfs_invD(5) [OF inv] that d s'(3,4) unfolding entries_ok_def by metis
    then have "find_entry_in s' (of_nat d) (last_name path) = Some None" using find_entry_spec(1) [OF s'(2) d(1)] by blast
    ultimately show "lookup s' path = Some None" "split_last s' path \<noteq> Some None" by (simp_all add: lookup_def)
  qed
  have "root s < y \<and> y < total_disk_sectors s" if "y \<in> set xs" for y
    using root_not_in_chain [OF inv cx xr that] chainD(5) [OF inv cx that] by (simp add: in_data_def)
  then have fr: "free_sectors s' = free_sectors s \<union> set xs" using s'(6,8,9) by (auto simp: free_sectors_def)
  have lk: "lookup s' p = Some (Some (e', sec', i'))"
    if p: "lookup s p = Some (Some (e', sec', i'))" "(sec', i') \<noteq> (sec, i)" for p e' sec' i'
    by (rule lookup_keeps [OF inv s'(2) order_refl s'(8) keepf p(1)]) (use fld p(2) in blast)
  have rd: "kfs_read_to_buffer s' p cap = kfs_read_to_buffer s p cap"
    if p: "lookup s p = Some (Some (e', sec', i'))" "flags e' \<noteq> FLAG_FOLDER" "(sec', i') \<noteq> (sec, i)" for p e' sec' i' cap
  proof (rule read_keeps [OF inv s'(2) p(1)])
    show "lookup s' p = Some (Some (e', sec', i'))" by (rule lk [OF p(1,3)])
    obtain b where b: "b \<in> D" "dir_slot s C b sec' i'" "e' = entry_in s sec' i'" "entry_ok s C D e'" using lookup_slot [OF inv p(1)] by metis
    have "start_sector e' \<noteq> start_sector e" using kfs_invD(5) [OF inv] b d p(3) unfolding entries_ok_def by metis
    then have "unat (start_sector e') \<noteq> x" unfolding x_def by (metis unsigned_word_eqI)
    moreover have "unat (start_sector e') \<notin> D" using b(4) p(2) by (simp add: entry_ok_def)
    ultimately show "\<forall>zs. C (unat (start_sector e')) = Some zs \<longrightarrow> (C(x := None)) (unat (start_sector e')) = Some zs \<and> (\<forall>y \<in> set zs. disk s' y = disk s y)"
      using s'(5) by auto
  qed
  show thesis using that [OF s'(1,2) gone fr s'(7)] lk rd by blast
qed

text \<open>
  C29. Deleting a file always returns and keeps the file system consistent. Afterwards the path
  does not exist, exactly the sectors of the file's chain have become free, the FAT on disk
  still agrees with the FAT in memory, and every other file reads back as before.
\<close>

theorem kfs_delete_file_correct:
  assumes inv: "kfs_inv s C D" and l: "lookup s path = Some (Some (e, sec, i))" and fl: "flags e \<noteq> FLAG_FOLDER"
    and c: "C (unat (start_sector e)) = Some xs"
  shows "\<exists>s'. kfs_delete_file s path = Some s' \<and> (\<exists>C'. kfs_inv s' C' D) \<and> kfs_exists s' path = Some False \<and>
     free_sectors s' = free_sectors s \<union> set xs \<and> (fat_synced s \<longrightarrow> fat_synced s') \<and>
     (\<forall>p e' sec' i' cap. lookup s p = Some (Some (e', sec', i')) \<and> flags e' \<noteq> FLAG_FOLDER \<and> (sec', i') \<noteq> (sec, i) \<longrightarrow>
        kfs_read_to_buffer s' p cap = kfs_read_to_buffer s p cap)"
  by (rule delete_file_effect [OF assms]) (auto simp: kfs_exists_def)

section \<open>Mounting again\<close>

lemma drop_concat: "\<forall>b \<in> set xss. length b = 4 \<Longrightarrow> drop (4 * j) (concat xss) = concat (drop j xss)"
proof (induction xss arbitrary: j)
  case (Cons b xss)
  then show ?case by (cases j) (auto simp: drop_append)
qed simp

lemma un_le32_append [simp]: "un_le32 (le32 a @ b) = a"
proof -
  have "un_le32 (le32 a @ b) = un_le32 (le32 a)" by (simp add: un_le32_def le32_def)
  then show ?thesis by simp
qed

lemma fat_sector_entry:
  assumes "j < 128"
  shows "un_le32 (drop (4 * j) (fat_sector s k)) = fat_table s (128 * k + j)"
proof -
  have "drop (4 * j) (fat_sector s k) = concat (drop j (map (\<lambda>j. le32 (fat_table s (128 * k + j))) [0..<128]))"
    unfolding fat_sector_def by (rule drop_concat) auto
  also have "\<dots> = le32 (fat_table s (128 * k + j)) @ concat (map (\<lambda>j. le32 (fat_table s (128 * k + j))) [Suc j..<128])"
    unfolding drop_map drop_upt by (subst upt_conv_Cons) (use assms in \<open>simp_all del: upt_Suc upt.simps\<close>)
  finally show ?thesis by simp
qed

text \<open>A consistent state whose disk holds everything a mount reads.\<close>

definition on_disk :: "kfs \<Rightarrow> u32 \<Rightarrow> bool" where
  "on_disk s t \<longleftrightarrow> size_ok t \<and> fat_synced s \<and> disk s 0 = header_bytes s \<and> magic s = [75, 90, 70, 83] \<and> length (padding s) = 500 \<and>
     total_disk_sectors s = disk_size t \<and> fat_sectors_needed s = (4 * disk_size t + 511) div 512"

lemma remount_fields:
  assumes od: "on_disk s t" and d: "disk s0 = disk s" and s1: "s1 = kfs_init s0 t"
  shows "disk s1 = disk s" "root_dir_sector s1 = root_dir_sector s" "total_disk_sectors s1 = total_disk_sectors s"
    "fat_sectors_needed s1 = fat_sectors_needed s" "magic s1 = magic s" "padding s1 = padding s" "total_files s1 = total_files s"
    "i < 128 * fat_sectors_needed s \<Longrightarrow> fat_table s1 i = fat_table s i"
proof -
  note o = od [unfolded on_disk_def]
  define s2 where "s2 = s0\<lparr>magic := magic s, root_dir_sector := root_dir_sector s, total_files := total_files s, padding := padding s\<rparr>"
  have b: "take 4 (disk s0 0) = magic s" "un_le32 (drop 4 (disk s0 0)) = root_dir_sector s"
    "un_le32 (drop 8 (disk s0 0)) = total_files s" "take 500 (drop 12 (disk s0 0)) = padding s"
    using o d by (simp_all add: header_bytes_def)
  have m: "magic s ! 0 = 75" "magic s ! 1 = 90" using o by simp_all
  have s1': "s1 = load_fat (geometry s2 t)" unfolding s1 kfs_init_def s2_def Let_def b by (simp add: m del: One_nat_def)
  note g = geometry_fields [OF size_okD(1), of t s2]
  have gd: "disk (geometry s2 t) = disk s" using d by (simp add: geometry_def s2_def Let_def)
  show "disk s1 = disk s" "root_dir_sector s1 = root_dir_sector s" "magic s1 = magic s" "padding s1 = padding s" "total_files s1 = total_files s"
    using gd by (simp_all add: s1' load_fat_def geometry_def s2_def Let_def)
  show "total_disk_sectors s1 = total_disk_sectors s" "fat_sectors_needed s1 = fat_sectors_needed s"
    using g o by (simp_all add: s1' load_fat_def)
  assume i: "i < 128 * fat_sectors_needed s"
  then have "disk s (1 + i div 128) = fat_sector s (i div 128)" using o by (simp add: fat_synced_def div_less_iff_less_mult mult.commute)
  then show "fat_table s1 i = fat_table s i"
    using i g o gd fat_sector_entry [of "i mod 128" s "i div 128"] by (simp add: s1' load_fat_def)
qed

lemma remount:
  assumes inv: "kfs_inv s C D" and od: "on_disk s t" and d: "disk s0 = disk s" and s1: "s1 = kfs_init s0 t"
  shows "kfs_inv s1 C D" "grows s C s1 C D" "on_disk s1 t"
proof -
  note f = remount_fields [OF od d s1]
  have ft: "fat_table s1 y = fat_table s y \<and> disk s1 y = disk s y" if "C x = Some xs" "y \<in> set xs" for x xs y
    using chainD(5) [OF inv that] kfs_invD(1) [OF inv] f by (auto simp: in_data_def geo_ok_def)
  show "kfs_inv s1 C D" by (rule agree_inv(1) [OF inv f(2-4)]) (rule ft)
  show "grows s C s1 C D" by (rule agree_inv(3) [OF inv f(2-4)]) (rule ft)
  have "fat_sector s1 k = fat_sector s k" if "k < fat_sectors_needed s" for k
    unfolding fat_sector_def by (rule arg_cong [of _ _ concat], rule map_cong) (use f(8) that in auto)
  then show "on_disk s1 t" using od f(1-7) by (simp add: on_disk_def fat_synced_def header_bytes_def)
qed

text \<open>
  C11. What \<open>kfs_create_file\<close> acknowledged survives a reboot: mounting the disk image it left,
  starting from any memory contents, gives a consistent mounted file system in which the new
  path reads back as the stored bytes and every older file reads back as before.
\<close>

theorem kfs_create_file_durable:
  assumes inv: "kfs_inv s C D" and od: "on_disk s t" and stk: "length stk = 23" and nm: "length (last_name path) \<le> 22" "0 \<notin> set path"
    and len: "length data + 511 < 2 ^ 32" and ok: "kfs_create_file s t stk path data = Some (True, s')" and d: "disk s0 = disk s'"
  shows "on_disk (kfs_init s0 t) t \<and> (\<exists>C'. kfs_inv (kfs_init s0 t) C' D) \<and>
     (\<forall>cap \<ge> of_nat (length data). kfs_read_to_buffer (kfs_init s0 t) path cap = Some (Some data)) \<and>
     (\<forall>p e sec i cap. lookup s p = Some (Some (e, sec, i)) \<and> flags e \<noteq> FLAG_FOLDER \<longrightarrow>
        kfs_read_to_buffer (kfs_init s0 t) p cap = kfs_read_to_buffer s p cap)"
  using ok
proof (cases rule: create_file_cases [OF inv stk nm len, of t])
  case (1 s'' C')
  then show ?thesis using ok by simp
next
  case (2 s'' C')
  have s'': "s'' = s'" using 2(1) ok by simp
  note c = 2(2-) [unfolded s'']
  have od': "on_disk s' t" using od c by (simp add: on_disk_def)
  note r = remount [OF c(1) od' d refl]
  have "kfs_read_to_buffer (kfs_init s0 t) path cap = Some (Some data)" if cap: "of_nat (length data) \<le> cap" for cap
  proof -
    have rd: "kfs_read_to_buffer s' path cap = Some (Some data)" using c(3) cap by blast
    obtain e sec i where "lookup s' path = Some (Some (e, sec, i))" "flags e \<noteq> FLAG_FOLDER" using c(10) by blast
    then show ?thesis using read_grows [OF c(1) r(1) order_refl r(2)] rd by simp
  qed
  moreover have "kfs_read_to_buffer (kfs_init s0 t) p cap = kfs_read_to_buffer s p cap"
    if "lookup s p = Some (Some (e, sec, i))" "flags e \<noteq> FLAG_FOLDER" for p e sec i cap
    by (rule read_grows [OF inv r(1) order_refl grows_trans [OF c(2) r(2)] that])
  ultimately show ?thesis using r(1,3) by blast
qed

section \<open>A freshly formatted disk\<close>

definition blank_fs :: kfs where
  "blank_fs = kfs_format \<lparr>disk = (\<lambda>_. replicate 512 0), fat_table = (\<lambda>_. 0), total_disk_sectors = 0, fat_sectors_needed = 0,
     magic = [0, 0, 0, 0], root_dir_sector = 0, total_files = 0, padding = replicate 500 0\<rparr> 100"

lemma blank_size: "size_ok 100" "disk_size 100 = 100"
  by (simp_all add: size_ok_def disk_size_def)

lemmas blank_fields = format_fields [OF blank_size(1) blank_fs_def refl, unfolded blank_size(2), simplified]

lemma blank_root: "root blank_fs = 2" "root_dir_sector blank_fs = 2"
proof -
  show r: "root blank_fs = 2" using blank_fields(3) by simp
  show "root_dir_sector blank_fs = 2" using root_of_nat [of blank_fs] unfolding r by simp
qed

lemma blank_inv: "kfs_inv blank_fs [2 \<mapsto> [2]] {2}"
  using format_inv [OF blank_size(1) blank_fs_def] unfolding blank_root by simp

lemma blank_on_disk: "on_disk blank_fs 100"
  using blank_fields blank_size by (simp add: on_disk_def)

lemma blank_free: "free_sectors blank_fs = {3..<100}"
  using blank_fields(1,3,4) by (auto simp: free_sectors_def)

lemma blank_lookup: "split_last blank_fs [47, 97] = Some (Some (2, [97]))" "lookup blank_fs [47, 97] = Some None"
proof -
  show s: "split_last blank_fs [47, 97] = Some (Some (2, [97]))"
    by (simp add: blank_root split_last_def parent_path_def last_name_def resolve_dir.simps)
  have no: "\<not> dir_slot blank_fs [2 \<mapsto> [2]] 2 sec i" for sec i using blank_fields(5) entry_at_zero by (auto simp: dir_slot_def numeral_2_eq_2)
  show "lookup blank_fs [47, 97] = Some None"
    using find_entry_spec(1) [OF blank_inv, of 2 "[97]"] no s by (simp add: lookup_def)
qed

lemma one_sector: "sectors_for (of_nat (length [1, 2, 3 :: u8])) = 1"
  by (simp add: sectors_for_def)

lemma small_file:
  "length (replicate 23 (0 :: u8)) = 23" "length (last_name [47, 97]) \<le> 22" "0 \<notin> set [47, 97 :: u8]" "length [1, 2, 3 :: u8] + 511 < 2 ^ 32"
  by (simp_all add: last_name_def)

theorem kfs_create_file_witness:
  "\<exists>s' C'. kfs_create_file blank_fs 100 (replicate 23 0) [47, 97] [1, 2, 3] = Some (True, s') \<and> kfs_inv s' C' {2} \<and>
     kfs_read_to_buffer s' [47, 97] 4 = Some (Some [1, 2, 3])"
  using kfs_create_file_correct [OF blank_inv small_file, of 100] blank_lookup one_sector blank_free by auto

theorem kfs_delete_file_witness:
  "\<exists>s1 s2. kfs_create_file blank_fs 100 (replicate 23 0) [47, 97] [1, 2, 3] = Some (True, s1) \<and>
     kfs_delete_file s1 [47, 97] = Some s2 \<and> kfs_exists s2 [47, 97] = Some False"
proof (cases rule: create_file_cases [OF blank_inv small_file, of 100])
  case 1
  then show ?thesis using blank_lookup one_sector blank_free by simp
next
  case (2 s1 C1)
  obtain e sec i where l: "lookup s1 [47, 97] = Some (Some (e, sec, i))" "flags e \<noteq> FLAG_FOLDER" using 2(11) by blast
  obtain xs where "C1 (unat (start_sector e)) = Some xs" using read_spec [OF 2(2) l(1)] by metis
  from kfs_delete_file_correct [OF 2(2) l this] 2(1) show ?thesis by blast
qed

theorem kfs_create_file_durable_witness:
  "\<exists>s'. kfs_create_file blank_fs 100 (replicate 23 0) [47, 97] [1, 2, 3] = Some (True, s') \<and>
     kfs_read_to_buffer (kfs_init s' 100) [47, 97] 3 = Some (Some [1, 2, 3])"
proof (cases rule: create_file_cases [OF blank_inv small_file, of 100])
  case 1
  then show ?thesis using blank_lookup one_sector blank_free by simp
next
  case (2 s1 C1)
  from kfs_create_file_durable [OF blank_inv blank_on_disk small_file 2(1) refl] 2(1) show ?thesis by auto
qed

end
