(* ===== verification/Vfs_Correct.thy ===== *)
theory Vfs_Correct
  imports Vfs_Fd Kfs_Theorems Heap_Memory
begin

text \<open>
  What the descriptor layer promises: every open descriptor owns a heap region of its own that
  holds the file, reads and writes act on it like on a byte sequence with a position, and
  closing a descriptor stores it in the file system.
\<close>

section \<open>Invariant\<close>

definition fd_ok :: "heap_state \<Rightarrow> nat \<Rightarrow> vfs_file \<Rightarrow> bool" where
  "fd_ok h i f \<longleftrightarrow>
     (\<exists>p n. vf_buf f = Some p \<and> (p, n) \<in> live h \<and> unat (vf_cap f) \<le> n) \<and>
     vf_size f \<le> vf_cap f \<and> vf_cap f \<noteq> 0 \<and> length (vf_path f) \<le> 22 \<and> 0 \<notin> set (vf_path f)"

definition vfs_inv :: "vfs \<Rightarrow> bool" where
  "vfs_inv s \<longleftrightarrow>
     length (fds s) = VFS_TASKS * VFS_MAX_FDS \<and> heap_inv (vfs_heap s) \<and>
     (\<forall>i < length (fds s). used (fd_at s i) \<longrightarrow> fd_ok (vfs_heap s) i (fd_at s i)) \<and>
     (\<forall>i < length (fds s). \<forall>j < length (fds s). used (fd_at s i) \<longrightarrow> used (fd_at s j) \<longrightarrow>
        vf_buf (fd_at s i) = vf_buf (fd_at s j) \<longrightarrow> i = j)"

text \<open>The file as the descriptor sees it.\<close>

definition fd_content :: "vfs \<Rightarrow> nat \<Rightarrow> bytes" where
  "fd_content s i = get_bytes (hbytes (vfs_heap s)) (ptr (vf_buf (fd_at s i))) (unat (vf_size (fd_at s i)))"

text \<open>Every descriptor but \<open>i\<close> keeps its fields and its contents.\<close>

definition others_kept :: "vfs \<Rightarrow> nat \<Rightarrow> vfs \<Rightarrow> bool" where
  "others_kept s i s' \<longleftrightarrow>
     (\<forall>j < length (fds s). j \<noteq> i \<longrightarrow> fd_at s' j = fd_at s j \<and> (used (fd_at s j) \<longrightarrow> fd_content s' j = fd_content s j))"

text \<open>\<open>new\<close> is \<open>old\<close> with \<open>data\<close> stored at \<open>pos\<close>; bytes between the old end and \<open>pos\<close> are not determined.\<close>

definition written :: "bytes \<Rightarrow> nat \<Rightarrow> bytes \<Rightarrow> bytes \<Rightarrow> bool" where
  "written old pos data new \<longleftrightarrow>
     length new = max (length old) (pos + length data) \<and>
     (\<forall>k < length data. new ! (pos + k) = data ! k) \<and>
     (\<forall>k < length old. k < pos \<or> pos + length data \<le> k \<longrightarrow> new ! k = old ! k)"

definition heap_room :: "vfs \<Rightarrow> bool" where
  "heap_room s \<longleftrightarrow> current_heap_end (vfs_heap s) + 2 ^ 33 < W64"

lemma vfs_invD:
  assumes "vfs_inv s"
  shows "length (fds s) = 256" "heap_inv (vfs_heap s)"
    "i < 256 \<Longrightarrow> used (fd_at s i) \<Longrightarrow> fd_ok (vfs_heap s) i (fd_at s i)"
    "i < 256 \<Longrightarrow> j < 256 \<Longrightarrow> used (fd_at s i) \<Longrightarrow> used (fd_at s j) \<Longrightarrow> vf_buf (fd_at s i) = vf_buf (fd_at s j) \<Longrightarrow> i = j"
  using assms by (simp_all add: vfs_inv_def)

lemma fd_okD:
  assumes "vfs_inv s" "i < 256" "used (fd_at s i)"
  obtains p n where "vf_buf (fd_at s i) = Some p" "(p, n) \<in> live (vfs_heap s)" "unat (vf_cap (fd_at s i)) \<le> n"
    "unat (vf_size (fd_at s i)) \<le> unat (vf_cap (fd_at s i))" "vf_cap (fd_at s i) \<noteq> 0"
    "length (vf_path (fd_at s i)) \<le> 22" "0 \<notin> set (vf_path (fd_at s i))"
  using vfs_invD(3) [OF assms] by (auto simp: fd_ok_def word_le_nat_alt)

lemma resolveD:
  assumes "vfs_inv s" "resolve s me fd = Some i"
  shows "i < 256" "used (fd_at s i)" "vf_owner (fd_at s i) = me" "i = nat (me * 16 + fd)" "0 \<le> me" "me < 16" "0 \<le> fd" "fd < 16"
proof -
  have g: "0 \<le> me \<and> me < 16 \<and> 0 \<le> fd \<and> fd < 16 \<and> i = nat (me * 16 + fd) \<and> used (fd_at s i) \<and> vf_owner (fd_at s i) = me"
    using assms(2) by (auto simp: resolve_def slot_of_def Let_def split: if_splits)
  then show "i < 256" "used (fd_at s i)" "vf_owner (fd_at s i) = me" "i = nat (me * 16 + fd)" "0 \<le> me" "me < 16" "0 \<le> fd" "fd < 16"
    by auto
qed

text \<open>Resolving depends on the one slot only.\<close>

lemma resolve_slot:
  assumes "resolve s me fd = Some i"
  shows "resolve s' me fd = (if used (fd_at s' i) \<and> vf_owner (fd_at s' i) = me then Some i else None)"
  using assms by (auto simp: resolve_def Let_def split: if_splits)

section \<open>Bytes of the heap\<close>

lemma heap_bytes_free:
  "heap_inv (h\<lparr>hbytes := m\<rparr>) = heap_inv h" "live (h\<lparr>hbytes := m\<rparr>) = live h"
proof -
  have rep: "heap_rep (h\<lparr>hbytes := m\<rparr>) bs = heap_rep h bs" for bs by (simp add: heap_rep_def)
  then show "heap_inv (h\<lparr>hbytes := m\<rparr>) = heap_inv h" "live (h\<lparr>hbytes := m\<rparr>) = live h"
    by (simp_all add: heap_inv_def live_def heap_mapped_def)
qed

lemma get_bytes_length [simp]: "length (get_bytes m a n) = n"
  by (simp add: get_bytes_def)

lemma get_bytes_nth [simp]: "k < n \<Longrightarrow> get_bytes m a n ! k = m (a + k)"
  by (simp add: get_bytes_def)

lemma get_bytes_cong: "(\<And>x. a \<le> x \<Longrightarrow> x < a + n \<Longrightarrow> m' x = m x) \<Longrightarrow> get_bytes m' a n = get_bytes m a n"
  by (simp add: get_bytes_def)

lemma get_put_bytes: "get_bytes (put_bytes m a data) a (length data) = data"
  by (rule nth_equalityI) (simp_all add: put_bytes_def)

lemma fold_store:
  "fold (\<lambda>k m. m(a + k := data ! k)) [0..<n] m = (\<lambda>x. if a \<le> x \<and> x < a + n then data ! (x - a) else m x)"
proof (induction n)
  case (Suc n)
  then show ?case by (auto simp: fun_eq_iff)
qed (auto simp: fun_eq_iff)

lemma unat_add_small: "unat (pos :: u32) + k < 2 ^ 32 \<Longrightarrow> unat (pos + of_nat k) = unat pos + k"
  by (simp add: unat_word_ariths unat_of_nat take_bit_nat_def)

text \<open>The store loop of \<open>vfs_write\<close>, when the position does not wrap.\<close>

lemma store_loop:
  assumes "unat (pos :: u32) + length data < 2 ^ 32"
  shows "fold (\<lambda>k m. m(a + unat (pos + of_nat k) := data ! k)) [0..<length data] m = put_bytes m (a + unat pos) data"
proof -
  have "fold (\<lambda>k m. m(a + unat (pos + of_nat k) := data ! k)) [0..<length data] m =
      fold (\<lambda>k m. m(a + unat pos + k := data ! k)) [0..<length data] m"
    by (rule fold_cong) (use assms in \<open>simp_all add: unat_add_small add.assoc\<close>)
  then show ?thesis by (simp add: fold_store put_bytes_def fun_eq_iff)
qed

section \<open>Growing the buffer\<close>

lemma ucast_le64: "(ucast (x :: u32) :: u64) < y \<longleftrightarrow> unat x < unat y" "(y :: u64) \<le> ucast x \<longleftrightarrow> unat y \<le> unat x"
proof -
  have "unat (ucast x :: u64) = unat x" by transfer (simp add: take_bit_take_bit)
  then show "(ucast x :: u64) < y \<longleftrightarrow> unat x < unat y" "y \<le> ucast x \<longleftrightarrow> unat y \<le> unat x"
    by (simp_all add: word_less_nat_alt word_le_nat_alt)
qed

lemma grow_cap_spec: "grow_cap need n = Some c \<Longrightarrow> unat need \<le> unat c \<and> unat n \<le> unat c"
proof (induction need n rule: grow_cap.induct)
  case (1 need n)
  show ?case
  proof (cases "unat n < unat need")
    case True
    then have nw: "\<not> n * 2 \<le> n" "grow_cap need (n * 2) = Some c"
      using 1(2) by (auto simp: ucast_le64 grow_cap.simps [of need n] split: if_splits)
    then have "unat need \<le> unat c \<and> unat (n * 2) \<le> unat c" using 1(1) True by (simp add: ucast_le64)
    with nw(1) show ?thesis by (simp add: word_le_nat_alt)
  next
    case False
    then show ?thesis using 1(2) by (simp add: ucast_le64 grow_cap.simps [of need n])
  qed
qed

text \<open>The doubling stays below twice the need, and does not overflow while that is at most 2 GiB.\<close>

lemma grow_cap_small:
  "0 < unat n \<Longrightarrow> unat n < 2 * unat need \<Longrightarrow> unat need \<le> 2 ^ 31 \<Longrightarrow> \<exists>c. grow_cap need n = Some c \<and> unat c < 2 * unat need"
proof (induction need n rule: grow_cap.induct)
  case (1 need n)
  show ?case
  proof (cases "unat n < unat need")
    case True
    have "unat (n * 2) = unat n * 2" using True 1(4) by (simp add: unat_word_ariths)
    then have "\<not> n * 2 \<le> n" "0 < unat (n * 2)" "unat (n * 2) < 2 * unat need" using 1(2) True by (simp_all add: word_le_nat_alt)
    moreover from this have "\<exists>c. grow_cap need (n * 2) = Some c \<and> unat c < 2 * unat need"
      by (intro 1(1)) (use True 1(4) in \<open>simp_all add: ucast_le64\<close>)
    ultimately show ?thesis using True by (simp add: ucast_le64 grow_cap.simps [of need n])
  next
    case False
    then show ?thesis using 1(3) by (simp add: ucast_le64 grow_cap.simps [of need n])
  qed
qed

text \<open>
  Room for a write that ends at \<open>fin\<close>, with \<open>p\<close> pages of the heap in use for something else: it fits the
  buffer, or it ends within 2 GiB and there is memory for a buffer twice that size.
\<close>

definition write_pages :: "vfs \<Rightarrow> nat \<Rightarrow> nat \<Rightarrow> nat" where
  "write_pages s i fin = (if fin \<le> unat (vf_cap (fd_at s i)) then 0 else pages_for (2 * fin + 16))"

definition can_write :: "vfs \<Rightarrow> nat \<Rightarrow> nat \<Rightarrow> nat \<Rightarrow> bool" where
  "can_write s i fin p \<longleftrightarrow> memory_for (vfs_heap s) (p + write_pages s i fin) \<and> (fin \<le> unat (vf_cap (fd_at s i)) \<or> fin \<le> 2 ^ 31)"

text \<open>A heap region that survives a call, with its bytes.\<close>

definition region_kept :: "heap_state \<Rightarrow> heap_state \<Rightarrow> nat \<Rightarrow> bool" where
  "region_kept h h' q \<longleftrightarrow>
     (\<forall>n. (q, n) \<in> live h \<longrightarrow> (q, n) \<in> live h' \<and> (\<forall>a. q \<le> a \<longrightarrow> a < q + n \<longrightarrow> hbytes h' a = hbytes h a))"

lemma region_kept_refl [simp]: "region_kept h h q"
  by (simp add: region_kept_def)

lemma put_bytes_kept:
  assumes "heap_inv h" "(p, n) \<in> live h" "p \<le> a" "a + length data \<le> p + n" "q \<noteq> p"
  shows "region_kept h (h\<lparr>hbytes := put_bytes (hbytes h) a data\<rparr>) q"
  unfolding region_kept_def heap_bytes_free
proof (intro allI impI conjI)
  fix l x
  assume l: "(q, l) \<in> live h"
  then show "(q, l) \<in> live h" .
  assume x: "q \<le> x" "x < q + l"
  have "p + n \<le> q \<or> q + l \<le> p" using live_disjoint [OF assms(1,2) l] assms(5) by blast
  then show "hbytes (h\<lparr>hbytes := put_bytes (hbytes h) a data\<rparr>) x = hbytes h x"
    using x assms(3,4) by (auto simp: put_bytes_def)
qed

text \<open>The one update of all operations: slot \<open>i\<close> becomes \<open>f\<close> while the buffers of the others survive.\<close>

lemma slot_update:
  assumes inv: "vfs_inv s" and i: "i < 256" and h: "heap_inv h'" and f: "used f \<Longrightarrow> fd_ok h' i f"
    and keep: "\<And>j q. j < 256 \<Longrightarrow> j \<noteq> i \<Longrightarrow> used (fd_at s j) \<Longrightarrow> vf_buf (fd_at s j) = Some q \<Longrightarrow>
      region_kept (vfs_heap s) h' q \<and> (used f \<longrightarrow> vf_buf f \<noteq> Some q)"
    and s': "fds s' = (fds s)[i := f]" "vfs_heap s' = h'"
  shows "vfs_inv s'" "others_kept s i s'"
proof -
  note len = vfs_invD(1) [OF inv]
  have at: "fd_at s' j = (if j = i then f else fd_at s j)" for j using s'(1) len i by (simp add: nth_list_update_if)
  have ok: "fd_ok h' j (fd_at s j)" if j: "j < 256" "j \<noteq> i" "used (fd_at s j)" for j
  proof -
    obtain p n where p: "vf_buf (fd_at s j) = Some p" "(p, n) \<in> live (vfs_heap s)" "unat (vf_cap (fd_at s j)) \<le> n"
      using fd_okD [OF inv j(1,3)] by metis
    then have "(p, n) \<in> live h'" using keep [OF j p(1)] by (auto simp: region_kept_def)
    then show ?thesis using vfs_invD(3) [OF inv j(1,3)] p(1,3) by (auto simp: fd_ok_def)
  qed
  have ne: "vf_buf f \<noteq> vf_buf (fd_at s j)" if j: "used f" "j < 256" "j \<noteq> i" "used (fd_at s j)" for j
  proof -
    obtain p where "vf_buf (fd_at s j) = Some p" using fd_okD [OF inv j(2,4)] by metis
    then show ?thesis using keep j by metis
  qed
  have "j = k" if "j < 256" "k < 256" "used (fd_at s' j)" "used (fd_at s' k)" "vf_buf (fd_at s' j) = vf_buf (fd_at s' k)" for j k
    using that vfs_invD(4) [OF inv, of j k] ne [of j] ne [of k] unfolding at by (cases "j = i"; cases "k = i") simp_all
  moreover have "\<forall>j < 256. used (fd_at s' j) \<longrightarrow> fd_ok h' j (fd_at s' j)" unfolding at using ok f by simp
  ultimately show "vfs_inv s'" using h s' len by (simp add: vfs_inv_def)
  have "fd_content s' j = fd_content s j" if j: "j < 256" "j \<noteq> i" "used (fd_at s j)" for j
  proof -
    obtain p n where p: "vf_buf (fd_at s j) = Some p" "(p, n) \<in> live (vfs_heap s)" "unat (vf_cap (fd_at s j)) \<le> n"
        "unat (vf_size (fd_at s j)) \<le> unat (vf_cap (fd_at s j))"
      using fd_okD [OF inv j(1,3)] by metis
    have "hbytes h' x = hbytes (vfs_heap s) x" if "p \<le> x" "x < p + unat (vf_size (fd_at s j))" for x
      using keep [OF j p(1)] p(2-4) that unfolding region_kept_def by auto
    then show ?thesis unfolding fd_content_def at using j(2) p(1) s'(2) by (simp add: ptr_def get_bytes_def)
  qed
  with at len show "others_kept s i s'" by (simp add: others_kept_def)
qed

definition rest_kept :: "vfs \<Rightarrow> vfs \<Rightarrow> bool" where
  "rest_kept s s' \<longleftrightarrow> vfs_fs s' = vfs_fs s \<and> drive_sectors s' = drive_sectors s \<and> stack_mem s' = stack_mem s"

lemma ensure_cap_spec:
  assumes inv: "vfs_inv s" and i: "i < 256" "used (fd_at s i)" and room: "heap_room s"
  obtains ok s' where "ensure_cap s i need = Some (Ret ok, s')" "vfs_inv s'" "others_kept s i s'" "rest_kept s s'"
    "fd_content s' i = fd_content s i" "ok \<Longrightarrow> unat need \<le> unat (vf_cap (fd_at s' i))"
    "unat need \<le> unat (vf_cap (fd_at s i)) \<or> can_write s i (unat need) 0 \<Longrightarrow> ok"
    "\<exists>b c. fd_at s' i = (fd_at s i)\<lparr>vf_buf := b, vf_cap := c\<rparr>"
    "\<forall>t l. (t, l) \<in> live (vfs_heap s) \<longrightarrow> vf_buf (fd_at s i) \<noteq> Some t \<longrightarrow> (t, l) \<in> live (vfs_heap s') \<and> vf_buf (fd_at s' i) \<noteq> Some t"
    "\<forall>a < HEAP_START_VADDR. hbytes (vfs_heap s') a = hbytes (vfs_heap s) a"
proof -
  let ?f = "fd_at s i" and ?h = "vfs_heap s"
  have same: "others_kept s i s" "rest_kept s s" "\<exists>b c. ?f = ?f\<lparr>vf_buf := b, vf_cap := c\<rparr>"
    by (auto simp: others_kept_def rest_kept_def intro!: exI [of _ "vf_buf ?f"] exI [of _ "vf_cap ?f"])
  obtain p n where p: "vf_buf ?f = Some p" "(p, n) \<in> live ?h" "unat (vf_cap ?f) \<le> n" "unat (vf_size ?f) \<le> unat (vf_cap ?f)" "vf_cap ?f \<noteq> 0"
      "length (vf_path ?f) \<le> 22" "0 \<notin> set (vf_path ?f)"
    using fd_okD [OF inv i] by metis
  consider (fits) "unat need \<le> unat (vf_cap ?f)" | (big) "\<not> unat need \<le> unat (vf_cap ?f)" "need > 0xFFFFFFFF \<or> grow_cap need (vf_cap ?f) = None"
    | (grow) c where "\<not> unat need \<le> unat (vf_cap ?f)" "\<not> need > 0xFFFFFFFF" "grow_cap need (vf_cap ?f) = Some c"
    by force
  then show thesis
  proof cases
    case fits
    then have "ensure_cap s i need = Some (Ret True, s)" by (simp add: ensure_cap_def ucast_le64)
    with inv same fits show thesis by (intro that) auto
  next
    case big
    then have "ensure_cap s i need = Some (Ret False, s)" using p(5) by (auto simp: ensure_cap_def ucast_le64 Let_def)
    moreover have "\<not> can_write s i (unat need) 0"
      using big p(5) grow_cap_small [of "vf_cap ?f" need] by (auto simp: can_write_def word_less_nat_alt unat_gt_0)
    ultimately show thesis using inv same big(1) by (intro that) auto
  next
    case grow
    note gc = grow_cap_spec [OF grow(3)]
    let ?c = "ucast c :: u64"
    have uc: "unat ?c = unat c" by transfer (simp add: take_bit_take_bit)
    have cnz: "?c \<noteq> 0" using gc grow(1) uc by (metis le_zero_eq unsigned_0 nat_le_linear)
    have cg: "heap_can_grow ?h ?c" using room unat_lt32 [of c] uc by (simp add: heap_can_grow_def heap_room_def)
    obtain r h' where k: "krealloc ?h (Some p) (unat (vf_cap ?f)) ?c = Some (Ret r, h')" "heap_inv h'"
        "\<forall>a < HEAP_START_VADDR. hbytes h' a = hbytes ?h a"
        "case r of None \<Rightarrow> live h' = live ?h \<and> hbytes h' = hbytes ?h
         | Some q \<Rightarrow> \<exists>m \<ge> unat ?c. live h' = insert (q, m) (live ?h - {(p, n)}) \<and> (\<forall>n'. (q, n') \<notin> live ?h) \<and>
             (\<forall>i < min (unat (vf_cap ?f)) (unat ?c). hbytes h' (q + i) = hbytes ?h (p + i)) \<and>
             (\<forall>(t, l) \<in> live ?h. \<forall>a. t \<le> a \<longrightarrow> a < t + l \<longrightarrow> hbytes h' a = hbytes ?h a)"
      using krealloc_spec [OF vfs_invD(2) [OF inv] p(2,3) cnz cg] by blast
    have other: "q \<noteq> p" if "j < 256" "j \<noteq> i" "used (fd_at s j)" "vf_buf (fd_at s j) = Some q" for j q
      using vfs_invD(4) [OF inv i(1) that(1) i(2) that(3)] that p(1) by auto
    show thesis
    proof (cases r)
      case None
      let ?s = "s\<lparr>vfs_heap := h'\<rparr>"
      have e: "ensure_cap s i need = Some (Ret False, ?s)"
        using grow k(1) None p(1,5) by (simp add: ensure_cap_def ucast_le64)
      have full: "\<not> can_write s i (unat need) 0"
      proof
        assume c: "can_write s i (unat need) 0"
        then have "unat c < 2 * unat need"
          using grow_cap_small [of "vf_cap ?f" need] p(5) grow(1,3) by (auto simp: can_write_def unat_gt_0)
        then have "round16 ?c \<le> 2 * unat need + 16"
          using round16_bounds(2) [of ?c] cg uc by (simp add: heap_can_grow_def)
        then have "pages_for (round16 ?c) \<le> pages_for (2 * unat need + 16)" by (rule pages_for_mono)
        moreover have "memory_for ?h (pages_for (2 * unat need + 16))" using c grow(1) by (simp add: can_write_def write_pages_def)
        ultimately have "memory_for ?h (pages_for (round16 ?c))" by (metis memory_for_mono)
        then show False using krealloc_memory [OF vfs_invD(2) [OF inv] cnz cg k(1)] None by simp
      qed
      have "region_kept ?h h' q" for q using k(4) None by (simp add: region_kept_def)
      moreover have "fd_ok h' i ?f" using vfs_invD(3) [OF inv i] k(4) None by (simp add: fd_ok_def)
      ultimately have "vfs_inv ?s" "others_kept s i ?s"
        using slot_update [OF inv i(1) k(2), of ?f ?s] other p(1) by auto
      moreover have "fd_content ?s i = fd_content s i" using k(4) None by (simp add: fd_content_def)
      ultimately show thesis using grow(1) full same k(3,4) None by (intro that [OF e]) (auto simp: rest_kept_def)
    next
      case (Some q)
      then obtain m where m: "unat c \<le> m" "live h' = insert (q, m) (live ?h - {(p, n)})" "\<forall>n'. (q, n') \<notin> live ?h"
          "\<forall>i < min (unat (vf_cap ?f)) (unat c). hbytes h' (q + i) = hbytes ?h (p + i)"
          "\<forall>(t, l) \<in> live ?h. \<forall>a. t \<le> a \<longrightarrow> a < t + l \<longrightarrow> hbytes h' a = hbytes ?h a"
        using k(4) uc by auto
      let ?g = "?f\<lparr>vf_buf := Some q, vf_cap := c\<rparr>"
      let ?s = "set_fd (s\<lparr>vfs_heap := h'\<rparr>) i ?g"
      have at: "fd_at ?s i = ?g" using vfs_invD(1) [OF inv] i(1) by simp
      have e: "ensure_cap s i need = Some (Ret True, ?s)"
        using grow k(1) Some p(1,5) by (simp add: ensure_cap_def ucast_le64)
      have ok: "fd_ok h' i ?g" using m(1,2) gc grow(1) p cnz by (auto simp: fd_ok_def word_le_nat_alt)
      have kp: "region_kept ?h h' t \<and> t \<noteq> q" if "t \<noteq> p" "(t, l) \<in> live ?h" for t l
        using m(2,3,5) that by (auto simp: region_kept_def)
      have "region_kept ?h h' t \<and> (used ?g \<longrightarrow> vf_buf ?g \<noteq> Some t)"
        if j: "j < 256" "j \<noteq> i" "used (fd_at s j)" "vf_buf (fd_at s j) = Some t" for j t
      proof -
        obtain l where "(t, l) \<in> live ?h" using fd_okD [OF inv j(1,3)] j(4) by (metis option.inject)
        then show ?thesis using kp other [OF j] by auto
      qed
      then have "vfs_inv ?s" "others_kept s i ?s"
        using slot_update [OF inv i(1) k(2), of ?g ?s] ok by auto
      moreover have "fd_content ?s i = fd_content s i"
        unfolding fd_content_def at using m(4) p gc by (intro nth_equalityI) (auto simp: ptr_def)
      moreover have "\<forall>t l. (t, l) \<in> live ?h \<longrightarrow> vf_buf ?f \<noteq> Some t \<longrightarrow> (t, l) \<in> live (vfs_heap ?s) \<and> vf_buf (fd_at ?s i) \<noteq> Some t"
        unfolding at using m(2,3) p(1) by auto
      moreover have "\<forall>a < HEAP_START_VADDR. hbytes (vfs_heap ?s) a = hbytes ?h a" using k(3) by simp
      moreover have "\<exists>b ca. fd_at ?s i = ?f\<lparr>vf_buf := b, vf_cap := ca\<rparr>" unfolding at by blast
      moreover have "unat need \<le> unat (vf_cap (fd_at ?s i))" unfolding at using gc by simp
      moreover have "rest_kept s ?s" by (simp add: rest_kept_def)
      ultimately show thesis by (intro that [OF e]) (assumption | rule TrueI)+
    qed
  qed
qed

section \<open>Reading and writing\<close>

lemma of_nat_unat_eq: "unat (x :: u32) = n \<Longrightarrow> x = of_nat n"
  by auto

lemma vfs_read_eq:
  assumes inv: "vfs_inv s" and r: "resolve s me fd = Some i" "vf_flags (fd_at s i) AND VFS_O_WRONLY = 0"
    and n: "n = min (unat cnt) (unat (vf_size (fd_at s i)) - unat (vf_pos (fd_at s i)))"
  shows "vfs_read s me fd False cnt =
    (sint (of_nat n :: u32), take n (drop (unat (vf_pos (fd_at s i))) (fd_content s i)),
     set_fd s i (fd_at s i\<lparr>vf_pos := vf_pos (fd_at s i) + of_nat n\<rparr>))"
proof -
  let ?f = "fd_at s i"
  let ?avail = "if vf_pos ?f < vf_size ?f then vf_size ?f - vf_pos ?f else 0"
  let ?n = "if cnt < ?avail then cnt else ?avail"
  have "unat ?avail = unat (vf_size ?f) - unat (vf_pos ?f)"
    by (simp add: unat_sub word_less_nat_alt word_le_nat_alt)
  then have un: "unat ?n = n" unfolding n by (simp add: word_less_nat_alt)
  then have wn: "?n = of_nat n" by (rule of_nat_unat_eq)
  have lt: "unat (vf_pos ?f) + k < 2 ^ 32" if "k < n" for k
    using that unat_lt32 [of "vf_size ?f"] unfolding n by (simp add: less_diff_conv)
  have "map (\<lambda>k. hbytes (vfs_heap s) (ptr (vf_buf ?f) + unat (vf_pos ?f + of_nat k))) [0..<n] =
      take n (drop (unat (vf_pos ?f)) (fd_content s i))"
  proof (rule nth_equalityI)
    show "length (map (\<lambda>k. hbytes (vfs_heap s) (ptr (vf_buf ?f) + unat (vf_pos ?f + of_nat k))) [0..<n]) =
        length (take n (drop (unat (vf_pos ?f)) (fd_content s i)))"
      unfolding n by (simp add: fd_content_def)
    fix k
    assume "k < length (map (\<lambda>k. hbytes (vfs_heap s) (ptr (vf_buf ?f) + unat (vf_pos ?f + of_nat k))) [0..<n])"
    then have k: "k < n" by simp
    then have "unat (vf_pos ?f) + k < unat (vf_size ?f)" unfolding n by (simp add: less_diff_conv)
    with k lt show "map (\<lambda>k. hbytes (vfs_heap s) (ptr (vf_buf ?f) + unat (vf_pos ?f + of_nat k))) [0..<n] ! k =
        take n (drop (unat (vf_pos ?f)) (fd_content s i)) ! k"
      by (simp add: fd_content_def unat_add_small add.assoc)
  qed
  then show ?thesis using r un wn unfolding vfs_read_def by (simp add: Let_def)
qed

lemma vfs_seek_set:
  assumes "resolve s me fd = Some i" "pos < 2 ^ 31"
  shows "vfs_lseek s me fd (of_nat pos) 0 = (int pos, set_fd s i (fd_at s i\<lparr>vf_pos := of_nat pos\<rparr>))"
proof -
  have "sint (of_nat pos :: u32) = int pos"
    using assms(2) by (simp add: sint_uint unsigned_of_nat take_bit_nat_eq_self signed_take_bit_int_eq_self)
  then show ?thesis using assms by (simp add: vfs_lseek_def Let_def)
qed

lemma kept_trans:
  "others_kept s i s1 \<Longrightarrow> others_kept s1 i s2 \<Longrightarrow> length (fds s1) = length (fds s) \<Longrightarrow> others_kept s i s2"
  "rest_kept s s1 \<Longrightarrow> rest_kept s1 s2 \<Longrightarrow> rest_kept s s2"
  by (auto simp: others_kept_def rest_kept_def)

text \<open>An update of the position and the flags of a descriptor.\<close>

lemma reposition:
  assumes inv: "vfs_inv s" and i: "i < 256" "used (fd_at s i)"
    and f: "used f" "vf_buf f = vf_buf (fd_at s i)" "vf_size f = vf_size (fd_at s i)" "vf_cap f = vf_cap (fd_at s i)"
      "vf_path f = vf_path (fd_at s i)"
    and s': "s' = set_fd s i f"
  shows "vfs_inv s'" "others_kept s i s'" "fd_content s' i = fd_content s i"
proof -
  have ok: "fd_ok (vfs_heap s) i f" using vfs_invD(3) [OF inv i] f by (simp add: fd_ok_def)
  have ne: "region_kept (vfs_heap s) (vfs_heap s) q \<and> (used f \<longrightarrow> vf_buf f \<noteq> Some q)"
    if "j < 256" "j \<noteq> i" "used (fd_at s j)" "vf_buf (fd_at s j) = Some q" for j q
    using vfs_invD(4) [OF inv i(1) that(1) i(2) that(3)] that f(2) by auto
  show "vfs_inv s'" "others_kept s i s'"
    by (rule slot_update [OF inv i(1) vfs_invD(2) [OF inv] ok ne]; simp add: s')+
  show "fd_content s' i = fd_content s i" using vfs_invD(1) [OF inv] i(1) f by (simp add: s' fd_content_def)
qed

text \<open>The store of \<open>vfs_write\<close> once the buffer is large enough.\<close>

lemma store_spec:
  fixes s i data
  defines "f \<equiv> fd_at s i" and "h \<equiv> vfs_heap s"
  defines "pos \<equiv> vf_pos f + of_nat (length data)"
  defines "f' \<equiv> f\<lparr>vf_pos := pos, vf_size := (if pos > vf_size f then pos else vf_size f), vf_dirty := True\<rparr>"
  defines "h' \<equiv> h\<lparr>hbytes := fold (\<lambda>k m. m(ptr (vf_buf f) + unat (vf_pos f + of_nat k) := data ! k)) [0..<length data] (hbytes h)\<rparr>"
  assumes inv: "vfs_inv s" and i: "i < 256" "used (fd_at s i)" and fit: "unat (vf_pos f) + length data \<le> unat (vf_cap f)"
    and s': "s' = set_fd (s\<lparr>vfs_heap := h'\<rparr>) i f'"
  shows "vfs_inv s'" "others_kept s i s'" "written (fd_content s i) (unat (vf_pos f)) data (fd_content s' i)" "fd_at s' i = f'"
    "live (vfs_heap s') = live h" "\<forall>a < HEAP_START_VADDR. hbytes (vfs_heap s') a = hbytes h a"
    "vf_buf (fd_at s' i) = vf_buf f"
proof -
  obtain p n where p: "vf_buf f = Some p" "(p, n) \<in> live h" "unat (vf_cap f) \<le> n"
      "unat (vf_size f) \<le> unat (vf_cap f)" "vf_cap f \<noteq> 0" "length (vf_path f) \<le> 22" "0 \<notin> set (vf_path f)"
    unfolding f_def h_def by (rule fd_okD [OF inv i])
  have lt: "unat (vf_pos f) + length data < 2 ^ 32" using fit unat_lt32 [of "vf_cap f"] by simp
  have up: "unat pos = unat (vf_pos f) + length data" using unat_add_small [OF lt] by (simp add: pos_def)
  have h': "h' = h\<lparr>hbytes := put_bytes (hbytes h) (p + unat (vf_pos f)) data\<rparr>"
    unfolding h'_def store_loop [OF lt] by (simp add: p(1) ptr_def)
  show at: "fd_at s' i = f'" using vfs_invD(1) [OF inv] i(1) by (simp add: s')
  show "vf_buf (fd_at s' i) = vf_buf f" unfolding at by (simp add: f'_def)
  have sz: "unat (vf_size f') = max (unat (vf_size f)) (unat (vf_pos f) + length data)"
    using up by (simp add: f'_def word_less_nat_alt max_def)
  have ok: "fd_ok h' i f'" using p sz fit by (auto simp: fd_ok_def h' heap_bytes_free f'_def word_le_nat_alt)
  have kept: "region_kept (vfs_heap s) h' q \<and> (used f' \<longrightarrow> vf_buf f' \<noteq> Some q)"
    if "j < 256" "j \<noteq> i" "used (fd_at s j)" "vf_buf (fd_at s j) = Some q" for j q
  proof -
    have "q \<noteq> p" using vfs_invD(4) [OF inv i(1) that(1) i(2) that(3)] that p(1) by (auto simp: f_def)
    then show ?thesis unfolding h' f'_def h_def [symmetric]
      using put_bytes_kept [OF vfs_invD(2) [OF inv, folded h_def] p(2), of "p + unat (vf_pos f)" data q] fit p(1,3) by auto
  qed
  have hi: "heap_inv h'" using vfs_invD(2) [OF inv] by (simp add: h' h_def heap_bytes_free)
  show "live (vfs_heap s') = live h" by (simp add: s' h' heap_bytes_free)
  have "HEAP_START_VADDR \<le> p" using live_region(1) [OF vfs_invD(2) [OF inv] p(2) [unfolded h_def]] by simp
  then show "\<forall>a < HEAP_START_VADDR. hbytes (vfs_heap s') a = hbytes h a" by (simp add: s' h' put_bytes_def)
  show "vfs_inv s'" "others_kept s i s'"
    by (rule slot_update [OF inv i(1) hi ok kept]; simp add: s')+
  have "fd_content s i = get_bytes (hbytes h) p (unat (vf_size f))"
    using p(1) by (simp add: fd_content_def ptr_def f_def h_def)
  moreover have "vfs_heap s' = h'" by (simp add: s')
  then have "fd_content s' i = get_bytes (put_bytes (hbytes h) (p + unat (vf_pos f)) data) p (unat (vf_size f'))"
    unfolding fd_content_def at using p(1) by (simp add: ptr_def h' f'_def)
  ultimately show "written (fd_content s i) (unat (vf_pos f)) data (fd_content s' i)"
    unfolding written_def sz by (auto simp: put_bytes_def)
qed

lemma read_back:
  assumes inv: "vfs_inv s" and r: "resolve s me fd = Some i" "vf_flags (fd_at s i) AND VFS_O_WRONLY = 0" and pos: "pos < 2 ^ 31"
    and w: "written old pos data (fd_content s i)" and len: "length data < 2 ^ 32"
  shows "\<exists>s1 s2. vfs_lseek s me fd (of_nat pos) 0 = (int pos, s1) \<and>
    vfs_read s1 me fd False (of_nat (length data)) = (sint (of_nat (length data) :: u32), data, s2)"
proof -
  define f where "f = fd_at s i\<lparr>vf_pos := of_nat pos\<rparr>"
  define s1 where "s1 = set_fd s i f"
  note i = resolveD(1-3) [OF inv r(1)]
  have at: "fd_at s1 i = f" using vfs_invD(1) [OF inv] i(1) by (simp add: s1_def)
  have s1: "vfs_inv s1" "fd_content s1 i = fd_content s i"
    using reposition [OF inv i(1,2) _ _ _ _ _ s1_def] i(2) by (simp_all add: f_def)
  have r1: "resolve s1 me fd = Some i" using resolve_slot [OF r(1), of s1] i by (simp add: at f_def)
  have "take (length data) (drop pos (fd_content s i)) = data"
    using w by (intro nth_equalityI) (auto simp: written_def)
  moreover have "length (fd_content s i) = unat (vf_size f)" by (simp add: fd_content_def f_def)
  then have "length data = min (unat (of_nat (length data) :: u32)) (unat (vf_size (fd_at s1 i)) - unat (vf_pos (fd_at s1 i)))"
    using len pos w unfolding written_def at by (simp add: f_def)
  ultimately have "\<exists>s2. vfs_read s1 me fd False (of_nat (length data)) = (sint (of_nat (length data) :: u32), data, s2)"
    using vfs_read_eq [OF s1(1) r1, of "length data" "of_nat (length data)"] r(2) pos s1(2) by (simp add: at f_def)
  with vfs_seek_set [OF r(1) pos, folded f_def, folded s1_def] show ?thesis by blast
qed

lemma vfs_write_spec:
  assumes inv: "vfs_inv s" and r: "resolve s me fd = Some i" and wr: "vf_flags (fd_at s i) AND (VFS_O_WRONLY OR VFS_O_RDWR) \<noteq> 0"
    and room: "heap_room s" and len: "length data < 2 ^ 32"
    and pos: "pos = unat (if vf_flags (fd_at s i) AND VFS_O_APPEND \<noteq> 0 then vf_size (fd_at s i) else vf_pos (fd_at s i))"
  shows "\<exists>ret s'. vfs_write s me fd (Some data) = Some (Ret ret, s') \<and> vfs_inv s' \<and> others_kept s i s' \<and> rest_kept s s' \<and> used (fd_at s' i) \<and>
    (\<forall>t l. (t, l) \<in> live (vfs_heap s) \<longrightarrow> vf_buf (fd_at s i) \<noteq> Some t \<longrightarrow> (t, l) \<in> live (vfs_heap s') \<and> vf_buf (fd_at s' i) \<noteq> Some t) \<and>
    (\<forall>a < HEAP_START_VADDR. hbytes (vfs_heap s') a = hbytes (vfs_heap s) a) \<and>
    (ret = - 1 \<and> fd_content s' i = fd_content s i \<and> unat (vf_cap (fd_at s i)) < pos + length data \<and> \<not> can_write s i (pos + length data) 0 \<or>
     ret = sint (of_nat (length data) :: u32) \<and> written (fd_content s i) pos data (fd_content s' i) \<and>
     (vf_flags (fd_at s i) AND VFS_O_WRONLY = 0 \<and> pos < 2 ^ 31 \<longrightarrow>
        (\<exists>s1 s2. vfs_lseek s' me fd (of_nat pos) 0 = (int pos, s1) \<and>
           vfs_read s1 me fd False (of_nat (length data)) = (sint (of_nat (length data) :: u32), data, s2))))"
proof -
  note i = resolveD(1-3) [OF inv r]
  let ?f = "fd_at s i"
  define f1 where "f1 = (if vf_flags ?f AND VFS_O_APPEND \<noteq> 0 then ?f\<lparr>vf_pos := vf_size ?f\<rparr> else ?f)"
  define s1 where "s1 = set_fd s i f1"
  have at1: "fd_at s1 i = f1" and f1: "vf_cap f1 = vf_cap ?f" "unat (vf_pos f1) = pos" "used f1" "vf_flags f1 = vf_flags ?f" "vf_owner f1 = me"
    using vfs_invD(1) [OF inv] i by (simp_all add: s1_def f1_def pos)
  have s1: "vfs_inv s1" "others_kept s i s1" "fd_content s1 i = fd_content s i"
    by (rule reposition [OF inv i(1,2) _ _ _ _ _ s1_def]; use i(2) in \<open>simp add: f1_def\<close>)+
  have rest1: "rest_kept s s1" "heap_room s1" using room by (simp_all add: rest_kept_def heap_room_def s1_def)
  define fin where "fin = (ucast (vf_pos f1) + ucast (of_nat (length data) :: u32) :: u64)"
  have fin: "unat fin = pos + length data"
  proof -
    have u: "unat (ucast x :: u64) = unat x" for x :: u32 by transfer (simp add: take_bit_take_bit)
    have "unat (of_nat (length data) :: u32) = length data" using len by simp
    then show ?thesis unfolding fin_def using unat_lt32 [of "vf_pos f1"] len f1(2) by (simp add: unat_word_ariths u)
  qed
  obtain ok s2 where e: "ensure_cap s1 i fin = Some (Ret ok, s2)" "vfs_inv s2" "others_kept s1 i s2" "rest_kept s1 s2"
    "fd_content s2 i = fd_content s1 i" "ok \<Longrightarrow> unat fin \<le> unat (vf_cap (fd_at s2 i))"
    "unat fin \<le> unat (vf_cap (fd_at s1 i)) \<or> can_write s1 i (unat fin) 0 \<Longrightarrow> ok"
    "\<exists>b c. fd_at s2 i = (fd_at s1 i)\<lparr>vf_buf := b, vf_cap := c\<rparr>"
    "\<forall>t l. (t, l) \<in> live (vfs_heap s1) \<longrightarrow> vf_buf (fd_at s1 i) \<noteq> Some t \<longrightarrow> (t, l) \<in> live (vfs_heap s2) \<and> vf_buf (fd_at s2 i) \<noteq> Some t"
    "\<forall>a < HEAP_START_VADDR. hbytes (vfs_heap s2) a = hbytes (vfs_heap s1) a"
    by (rule ensure_cap_spec [OF s1(1) i(1) _ rest1(2)]) (use at1 f1 in auto)
  have s1': "s1 = (if vf_flags ?f AND VFS_O_APPEND \<noteq> 0 then set_fd s i (?f\<lparr>vf_pos := vf_size ?f\<rparr>) else s)"
    by (simp add: s1_def f1_def)
  have k2: "others_kept s i s2" "rest_kept s s2"
    using kept_trans(1) [OF s1(2) e(3)] kept_trans(2) [OF rest1(1) e(4)] vfs_invD(1) [OF inv] vfs_invD(1) [OF s1(1)] by auto
  have h1: "vfs_heap s1 = vfs_heap s" "vf_buf (fd_at s1 i) = vf_buf ?f" by (simp_all add: at1) (simp_all add: s1_def f1_def)
  have keep2: "\<forall>t l. (t, l) \<in> live (vfs_heap s) \<longrightarrow> vf_buf ?f \<noteq> Some t \<longrightarrow> (t, l) \<in> live (vfs_heap s2) \<and> vf_buf (fd_at s2 i) \<noteq> Some t"
      "\<forall>a < HEAP_START_VADDR. hbytes (vfs_heap s2) a = hbytes (vfs_heap s) a"
    using e(9,10) unfolding h1 by blast+
  note call = vfs_write_def option.case r wr if_False s1' [symmetric] Let_def at1 fin_def [symmetric] e(1) prod.case outcome.case
  show ?thesis
  proof (cases ok)
    case False
    have "vfs_write s me fd (Some data) = Some (Ret (- 1), s2)" by (simp only: call False bool.case)
    moreover have "unat (vf_cap ?f) < pos + length data" using e(7) False fin at1 f1(1) by (metis not_le)
    moreover have "can_write s1 i x 0 = can_write s i x 0" for x using h1(1) at1 f1(1) by (simp add: can_write_def write_pages_def)
    then have "\<not> can_write s i (pos + length data) 0" using e(7) False fin by auto
    moreover have "used (fd_at s2 i)" using e(8) at1 f1 by auto
    ultimately show ?thesis using e(2,5) k2 s1(3) keep2 by (intro exI [of _ "- 1"] exI [of _ s2] conjI) auto
  next
    case True
    have g: "vf_pos (fd_at s2 i) = vf_pos f1" "vf_flags (fd_at s2 i) = vf_flags f1" "vf_owner (fd_at s2 i) = me" "used (fd_at s2 i)"
      using e(8) at1 f1 by auto
    have fit: "unat (vf_pos (fd_at s2 i)) + length data \<le> unat (vf_cap (fd_at s2 i))" using e(6) [OF True] fin g(1) f1(2) by simp
    define s3 where "s3 = snd (the (vfs_write s me fd (Some data)))"
    have w: "vfs_write s me fd (Some data) = Some (Ret (sint (of_nat (length data) :: u32)), s3)"
      by (simp only: s3_def call True bool.case option.sel snd_conv)
    note st = store_spec [OF e(2) i(1) g(4) fit, of s3]
    have s3: "vfs_inv s3" "others_kept s2 i s3" "written (fd_content s2 i) (unat (vf_pos (fd_at s2 i))) data (fd_content s3 i)"
        "used (fd_at s3 i)" "vf_owner (fd_at s3 i) = me" "vf_flags (fd_at s3 i) = vf_flags ?f" "rest_kept s2 s3"
      by (rule st; simp only: s3_def call True bool.case option.sel snd_conv)+
        (use st(4) g f1(4) in \<open>simp_all only: s3_def call True bool.case option.sel snd_conv, simp_all add: rest_kept_def\<close>)
    have k3: "others_kept s i s3" "rest_kept s s3"
      using kept_trans(1) [OF k2(1) s3(2)] kept_trans(2) [OF k2(2) s3(7)] vfs_invD(1) [OF inv] vfs_invD(1) [OF e(2)] by auto
    have wr3: "written (fd_content s i) pos data (fd_content s3 i)" using s3(3) e(5) s1(3) g(1) f1(2) by simp
    have r3: "resolve s3 me fd = Some i" using resolve_slot [OF r, of s3] s3(4,5) by simp
    have h3: "live (vfs_heap s3) = live (vfs_heap s2)"
      by (rule st(5); simp only: s3_def call True bool.case option.sel snd_conv)
    have h4: "\<forall>a < HEAP_START_VADDR. hbytes (vfs_heap s3) a = hbytes (vfs_heap s2) a"
      by (rule st(6); simp only: s3_def call True bool.case option.sel snd_conv)
    have h5: "vf_buf (fd_at s3 i) = vf_buf (fd_at s2 i)"
      by (rule st(7); simp only: s3_def call True bool.case option.sel snd_conv)
    have keep3: "\<forall>t l. (t, l) \<in> live (vfs_heap s) \<longrightarrow> vf_buf ?f \<noteq> Some t \<longrightarrow> (t, l) \<in> live (vfs_heap s3) \<and> vf_buf (fd_at s3 i) \<noteq> Some t"
      using keep2(1) unfolding h3 h5 by blast
    have user3: "\<forall>a < HEAP_START_VADDR. hbytes (vfs_heap s3) a = hbytes (vfs_heap s) a" using keep2(2) h4 by simp
    show ?thesis using w s3(1,4,6) k3 wr3 read_back [OF s3(1) r3 _ _ wr3 len] keep3 user3
      by (intro exI [of _ "sint (of_nat (length data) :: u32)"] exI [of _ s3] conjI) auto
  qed
qed

text \<open>
  C9. Writing through a descriptor always returns on a sound heap and keeps all descriptors
  sound. Either nothing can be stored, then the file is as before, the request did not fit
  the buffer, and it ends beyond 2 GiB or there is no memory for a larger buffer, or the file is the old one with the bytes stored at the position (at the end
  in append mode), and seeking back there and reading returns exactly these bytes. No
  other descriptor, and nothing on disk, changes.
\<close>

theorem vfs_write_correct:
  assumes inv: "vfs_inv s" and r: "resolve s me fd = Some i" and wr: "vf_flags (fd_at s i) AND (VFS_O_WRONLY OR VFS_O_RDWR) \<noteq> 0"
    and room: "heap_room s" and len: "length data < 2 ^ 32"
    and pos: "pos = unat (if vf_flags (fd_at s i) AND VFS_O_APPEND \<noteq> 0 then vf_size (fd_at s i) else vf_pos (fd_at s i))"
  shows "\<exists>ret s'. vfs_write s me fd (Some data) = Some (Ret ret, s') \<and> vfs_inv s' \<and> others_kept s i s' \<and> rest_kept s s' \<and>
    (ret = - 1 \<and> fd_content s' i = fd_content s i \<and> unat (vf_cap (fd_at s i)) < pos + length data \<and> \<not> can_write s i (pos + length data) 0 \<or>
     ret = sint (of_nat (length data) :: u32) \<and> written (fd_content s i) pos data (fd_content s' i) \<and>
     (vf_flags (fd_at s i) AND VFS_O_WRONLY = 0 \<and> pos < 2 ^ 31 \<longrightarrow>
        (\<exists>s1 s2. vfs_lseek s' me fd (of_nat pos) 0 = (int pos, s1) \<and>
           vfs_read s1 me fd False (of_nat (length data)) = (sint (of_nat (length data) :: u32), data, s2))))"
  using vfs_write_spec [OF assms] by blast

section \<open>Opening\<close>

lemma heap_change:
  assumes inv: "vfs_inv s" and h: "heap_inv h'"
    and keep: "\<And>j q. j < 256 \<Longrightarrow> used (fd_at s j) \<Longrightarrow> vf_buf (fd_at s j) = Some q \<Longrightarrow> region_kept (vfs_heap s) h' q"
    and s': "s' = s\<lparr>vfs_heap := h'\<rparr>"
  shows "vfs_inv s'" "others_kept s i s'" "rest_kept s s'"
proof -
  have ok: "fd_ok h' j (fd_at s j)" if j: "j < 256" "used (fd_at s j)" for j
  proof -
    obtain p n where "vf_buf (fd_at s j) = Some p" "(p, n) \<in> live (vfs_heap s)" "unat (vf_cap (fd_at s j)) \<le> n"
      using fd_okD [OF inv j] by metis
    then show ?thesis using vfs_invD(3) [OF inv j] keep [OF j] by (auto simp: fd_ok_def region_kept_def)
  qed
  have ne: "region_kept (vfs_heap s) h' q \<and> (used (fd_at s i) \<longrightarrow> vf_buf (fd_at s i) \<noteq> Some q)"
    if "i < 256" "j < 256" "j \<noteq> i" "used (fd_at s j)" "vf_buf (fd_at s j) = Some q" for i j q
    using keep that vfs_invD(4) [OF inv that(1,2)] by auto
  have upd: "vfs_inv s'" "others_kept s i s'" if "i < 256" for i
    by (rule slot_update [OF inv that h ok [OF that] ne [OF that]]; simp add: s')+
  show "vfs_inv s'" by (rule upd(1) [of 0]) simp
  show "others_kept s i s'"
  proof (cases "i < 256")
    case False
    have "others_kept s 0 s'" "others_kept s 1 s'" by (rule upd(2); simp)+
    then show ?thesis unfolding others_kept_def by (metis zero_neq_one)
  qed (rule upd(2))
  show "rest_kept s s'" by (simp add: rest_kept_def s')
qed

lemma kfree_change:
  assumes inv: "vfs_inv s" and p: "(p, n) \<in> live (vfs_heap s)"
  obtains h' where "vfs_kfree s (Some p) r = Some (Ret r, s\<lparr>vfs_heap := h'\<rparr>)" "heap_inv h'" "live h' = live (vfs_heap s) - {(p, n)}"
    "\<And>q. q \<noteq> p \<Longrightarrow> region_kept (vfs_heap s) h' q" "hbytes h' = hbytes (vfs_heap s)"
proof -
  obtain h' where k: "kfree (vfs_heap s) (Some p) = Some (Ret (), h')" "heap_inv h'" "live h' = live (vfs_heap s) - {(p, n)}"
      "hbytes h' = hbytes (vfs_heap s)"
    using kfree_spec [OF vfs_invD(2) [OF inv] p] by blast
  show thesis by (rule that [of h']) (use k in \<open>auto simp: vfs_kfree_def region_kept_def\<close>)
qed

definition new_fd :: "int \<Rightarrow> bytes \<Rightarrow> u32 \<Rightarrow> bool \<Rightarrow> nat \<Rightarrow> u32 \<Rightarrow> u32 \<Rightarrow> vfs_file" where
  "new_fd me path flgs ex buf fsize cap =
     \<lparr>used = True, vf_owner = me, vf_path = path_copy path, vf_buf = Some buf, vf_size = fsize, vf_cap = cap,
      vf_pos = (if flgs AND VFS_O_APPEND \<noteq> 0 then fsize else 0), vf_flags = flgs,
      vf_dirty = (\<not> ex \<or> flgs AND VFS_O_TRUNC \<noteq> 0)\<rparr>"

lemma install_fd_cases:
  assumes inv: "vfs_inv s" and me: "0 \<le> me" "me < 16" and buf: "(buf, n) \<in> live (vfs_heap s)" "unat cap \<le> n" "fsize \<le> cap" "cap \<noteq> 0"
    and fresh: "\<forall>j < 256. used (fd_at s j) \<longrightarrow> vf_buf (fd_at s j) \<noteq> Some buf" and path: "0 \<notin> set path"
  obtains (full) s' where "install_fd s me path flgs ex buf fsize cap = Some (Ret (- 1), s')" "vfs_inv s'" "\<And>i. others_kept s i s'" "rest_kept s s'"
      "\<forall>k < 16. used (fd_at s (nat me * 16 + k))"
  | (entered) s' fd i where "install_fd s me path flgs ex buf fsize cap = Some (Ret (int fd), s')" "vfs_inv s'" "others_kept s i s'" "rest_kept s s'"
      "fd < 16" "i = nat me * 16 + fd" "\<not> used (fd_at s i)" "fd_at s' i = new_fd me path flgs ex buf fsize cap" "vfs_heap s' = vfs_heap s"
proof (cases "find (\<lambda>i. \<not> used (fd_at s (nat me * 16 + i))) [0..<16]")
  case None
  obtain h' where k: "vfs_kfree s (Some buf) (- 1 :: int) = Some (Ret (- 1), s\<lparr>vfs_heap := h'\<rparr>)" "heap_inv h'" "\<And>q. q \<noteq> buf \<Longrightarrow> region_kept (vfs_heap s) h' q"
    by (rule kfree_change [OF inv buf(1), where r = "- 1 :: int"]) blast
  have kp: "region_kept (vfs_heap s) h' q" if "j < 256" "used (fd_at s j)" "vf_buf (fd_at s j) = Some q" for j q
    using fresh that k(3) by auto
  have call: "install_fd s me path flgs ex buf fsize cap = Some (Ret (- 1), s\<lparr>vfs_heap := h'\<rparr>)"
    using None k(1) by (simp add: install_fd_def Let_def)
  have "\<forall>k < 16. used (fd_at s (nat me * 16 + k))" using None by (simp add: find_upt_None)
  moreover have "vfs_inv (s\<lparr>vfs_heap := h'\<rparr>)" "others_kept s i (s\<lparr>vfs_heap := h'\<rparr>)" "rest_kept s (s\<lparr>vfs_heap := h'\<rparr>)" for i
    by (rule heap_change [OF inv k(2) kp refl]; assumption)+
  ultimately show thesis by (intro full [OF call])
next
  case (Some fd)
  then have fd: "fd < 16" "\<not> used (fd_at s (nat me * 16 + fd))" by (auto simp: find_upt_Some)
  let ?i = "nat me * 16 + fd" and ?f = "new_fd me path flgs ex buf fsize cap"
  let ?s = "set_fd s ?i ?f"
  have i: "?i < 256" using me fd(1) by simp
  have ok: "fd_ok (vfs_heap s) ?i ?f" using buf path by (auto simp: fd_ok_def new_fd_def path_copy_def dest: in_set_takeD)
  have upd: "vfs_inv ?s" "others_kept s ?i ?s"
    by (rule slot_update [OF inv i vfs_invD(2) [OF inv] ok]; use fresh in \<open>auto simp: new_fd_def\<close>)+
  show thesis
    by (rule entered [OF _ upd _ fd(1) refl fd(2)])
      (use Some i vfs_invD(1) [OF inv] in \<open>simp_all add: install_fd_def new_fd_def rest_kept_def\<close>)
qed

text \<open>A path that names no folder.\<close>

definition no_folder :: "kfs \<Rightarrow> bytes \<Rightarrow> bool" where
  "no_folder fs path \<longleftrightarrow> (case lookup fs path of Some (Some (e, _, _)) \<Rightarrow> flags e \<noteq> FLAG_FOLDER | _ \<Rightarrow> True)"

lemma file_cases:
  assumes inv: "kfs_inv fs C D" and nf: "no_folder fs path"
  obtains (absent) "lookup fs path = Some None" "kfs_exists fs path = Some False"
  | (present) e sec k data where "lookup fs path = Some (Some (e, sec, k))" "kfs_exists fs path = Some True" "flags e \<noteq> FLAG_FOLDER"
      "kfs_get_file_size fs path = Some (size_bytes e)" "length data = unat (size_bytes e)"
      "\<And>cap. kfs_read_to_buffer fs path cap = Some (if size_bytes e > cap then None else Some data)"
proof (cases rule: lookup_total [OF inv, of path])
  case 1
  then show thesis by (intro absent) (auto simp: kfs_exists_def)
next
  case (2 e sec k d)
  have fl: "flags e \<noteq> FLAG_FOLDER" using nf 2(1) by (simp add: no_folder_def)
  have "entry_ok fs C D e" by (rule lookup_slot [OF inv 2(1)])
  then obtain xs where xs: "C (unat (start_sector e)) = Some xs" "unat (size_bytes e) \<le> 512 * length xs"
    using fl by (auto simp: entry_ok_def)
  have "length (content fs xs) = 512 * length xs"
    using chainD(3) [OF inv xs(1)] by (auto simp: content_def length_concat sum_list_triv cong: map_cong)
  moreover have "kfs_read_to_buffer fs path cap =
      Some (if size_bytes e > cap then None else Some (take (unat (size_bytes e)) (content fs xs)))" for cap
    using read_spec [OF inv 2(1), of cap] xs(1) by (metis option.inject)
  ultimately show thesis
    by (intro present [OF 2(1) _ fl, of "take (unat (size_bytes e)) (content fs xs)"])
      (use 2(1) xs(2) in \<open>simp_all add: kfs_exists_def kfs_get_file_size_def\<close>)
qed

text \<open>The allocation of a buffer, as \<open>vfs_open\<close> uses it.\<close>

lemma kmalloc_change:
  assumes inv: "vfs_inv s" and room: "heap_room s" and cap: "cap \<noteq> 0"
  obtains (none) h' where "kmalloc (vfs_heap s) (ucast (cap :: u32)) = Some (Ret None, h')" "vfs_inv (s\<lparr>vfs_heap := h'\<rparr>)"
      "\<And>i. others_kept s i (s\<lparr>vfs_heap := h'\<rparr>)" "heap_exhausted (vfs_heap s) (ucast cap)"
  | (some) h' buf n where "kmalloc (vfs_heap s) (ucast cap) = Some (Ret (Some buf), h')" "vfs_inv (s\<lparr>vfs_heap := h'\<rparr>)"
      "\<And>i. others_kept s i (s\<lparr>vfs_heap := h'\<rparr>)" "(buf, n) \<in> live h'" "unat cap \<le> n"
      "\<And>j. j < 256 \<Longrightarrow> used (fd_at s j) \<Longrightarrow> vf_buf (fd_at s j) \<noteq> Some buf"
proof -
  let ?c = "ucast cap :: u64"
  have uc: "unat ?c = unat cap" by transfer (simp add: take_bit_take_bit)
  then have nz: "?c \<noteq> 0" using cap by (metis unat_eq_0)
  have cg: "heap_can_grow (vfs_heap s) ?c" using room unat_lt32 [of cap] uc by (simp add: heap_can_grow_def heap_room_def)
  then have le: "unat ?c \<le> round16 ?c" by (intro round16_bounds(1)) (simp add: heap_can_grow_def)
  obtain r h' where k: "kmalloc (vfs_heap s) ?c = Some (Ret r, h')" "heap_inv h'" "hbytes h' = hbytes (vfs_heap s)"
      "case r of None \<Rightarrow> live h' = live (vfs_heap s)
       | Some p \<Rightarrow> \<exists>n. round16 ?c \<le> n \<and> live h' = insert (p, n) (live (vfs_heap s)) \<and> (\<forall>n'. (p, n') \<notin> live (vfs_heap s))"
    using kmalloc_spec [OF vfs_invD(2) [OF inv] nz] cg unfolding heap_can_grow_def by blast
  have kp: "region_kept (vfs_heap s) h' q" for q using k(3,4) by (cases r) (auto simp: region_kept_def)
  note ch = heap_change(1,2) [OF inv k(2) kp refl]
  show thesis
  proof (cases r)
    case None
    with k(1) ch kmalloc_null(1) [OF vfs_invD(2) [OF inv] nz cg] show thesis by (intro none) auto
  next
    case (Some p)
    then obtain n where n: "round16 ?c \<le> n" "live h' = insert (p, n) (live (vfs_heap s))" "\<forall>n'. (p, n') \<notin> live (vfs_heap s)"
      using k(4) by auto
    have "vf_buf (fd_at s j) \<noteq> Some p" if j: "j < 256" "used (fd_at s j)" for j
      using fd_okD [OF inv j] n(3) by (metis option.inject)
    with k(1) ch Some n le uc show thesis by (intro some [of p h' n]) auto
  qed
qed

text \<open>What a successful \<open>vfs_open\<close> leaves: a new descriptor at the start or end of \<open>data\<close>.\<close>

definition opened :: "vfs \<Rightarrow> int \<Rightarrow> bytes \<Rightarrow> u32 \<Rightarrow> bytes \<Rightarrow> int \<Rightarrow> vfs \<Rightarrow> bool" where
  "opened s me path flgs data r s' \<longleftrightarrow>
     resolve s me r = None \<and>
     (\<exists>i. resolve s' me r = Some i \<and> others_kept s i s' \<and> fd_content s' i = data \<and>
        vf_path (fd_at s' i) = path_copy path \<and> vf_flags (fd_at s' i) = flgs \<and>
        vf_pos (fd_at s' i) = (if flgs AND VFS_O_APPEND \<noteq> 0 then of_nat (length data) else 0))"

text \<open>The end of \<open>vfs_open\<close>: the loaded buffer is entered in the table.\<close>

lemma open_tail:
  assumes inv: "vfs_inv s" and me: "0 \<le> me" "me < 16" and h: "vfs_inv (s\<lparr>vfs_heap := h\<rparr>)" "\<And>i. others_kept s i (s\<lparr>vfs_heap := h\<rparr>)"
    and buf: "(buf, n) \<in> live h" "unat cap \<le> n" "length data \<le> unat cap" "cap \<noteq> 0"
    and fresh: "\<And>j. j < 256 \<Longrightarrow> used (fd_at s j) \<Longrightarrow> vf_buf (fd_at s j) \<noteq> Some buf" and path: "0 \<notin> set path"
    and s2: "s2 = s\<lparr>vfs_heap := h\<lparr>hbytes := put_bytes (hbytes h) buf data\<rparr>\<rparr>"
  obtains r s' where "install_fd s2 me path flgs ex buf (of_nat (length data)) cap = Some (Ret r, s')" "vfs_inv s'" "rest_kept s s'"
    "r = - 1 \<and> (\<forall>i. others_kept s i s') \<and> (\<forall>k < 16. used (fd_at s (nat me * 16 + k))) \<or> opened s me path flgs data r s'"
proof -
  let ?s1 = "s\<lparr>vfs_heap := h\<rparr>" and ?h2 = "h\<lparr>hbytes := put_bytes (hbytes h) buf data\<rparr>"
  have hi: "heap_inv h" using vfs_invD(2) [OF h(1)] by simp
  have "region_kept (vfs_heap ?s1) ?h2 q" if "j < 256" "used (fd_at ?s1 j)" "vf_buf (fd_at ?s1 j) = Some q" for j q
    using put_bytes_kept [OF hi buf(1), of buf data q] buf(2,3) fresh [of j] that by auto
  then have s2': "vfs_inv s2" "others_kept ?s1 i s2" "rest_kept ?s1 s2" for i
    using heap_change [OF h(1), of ?h2] hi by (simp_all add: heap_bytes_free s2)
  have ok2: "others_kept s i s2" for i
    by (rule kept_trans(1) [OF h(2) s2'(2)]) simp
  have fs: "unat (of_nat (length data) :: u32) = length data" using buf(3) unat_lt32 [of cap] by simp
  have lv: "(buf, n) \<in> live (vfs_heap s2)" using buf(1) by (simp add: s2 heap_bytes_free)
  have le: "of_nat (length data) \<le> cap" using buf(3) fs by (simp add: word_le_nat_alt)
  have fds2: "fds s2 = fds s" by (simp add: s2)
  have fresh2: "\<forall>j < 256. used (fd_at s2 j) \<longrightarrow> vf_buf (fd_at s2 j) \<noteq> Some buf" using fresh by (simp add: fds2)
  show thesis
  proof (cases rule: install_fd_cases [OF s2'(1) me lv buf(2) le buf(4) fresh2 path, of flgs ex])
    case (1 s')
    have "others_kept s i s'" for i by (rule kept_trans(1) [OF ok2 1(3)]) (simp add: fds2)
    with 1 show thesis by (intro that [OF 1(1,2)]) (auto simp: rest_kept_def s2)
  next
    case (2 s' fd i)
    have k: "others_kept s i s'" by (rule kept_trans(1) [OF ok2 2(3)]) (simp add: fds2)
    have sl: "slot_of me (int fd) = int i" using me 2(5,6) by (simp add: slot_of_def)
    have "resolve s me (int fd) = None" using 2(7) sl by (simp add: resolve_def fds2)
    moreover have "resolve s' me (int fd) = Some i" using 2(8) sl by (simp add: resolve_def new_fd_def)
    moreover have "fd_content s' i = data"
      unfolding fd_content_def 2(8,9) using fs get_put_bytes [of "hbytes h" buf data] by (simp add: new_fd_def ptr_def s2)
    ultimately have "opened s me path flgs data (int fd) s'" using k 2(8) by (auto simp: opened_def new_fd_def)
    then show thesis using 2 by (intro that [OF 2(1,2)]) (auto simp: rest_kept_def s2)
  qed
qed

lemma put_bytes_nil: "h\<lparr>hbytes := put_bytes (hbytes h) a []\<rparr> = h"
proof -
  have "put_bytes (hbytes h) a [] = hbytes h" by (rule ext) (auto simp: put_bytes_def)
  then show ?thesis by simp
qed

lemma open_buffer:
  assumes inv: "vfs_inv s" and room: "heap_room s" and me: "0 \<le> me" "me < 16" and path: "0 \<notin> set path"
    and cap: "length data \<le> unat cap" "cap \<noteq> 0"
  obtains r s' where
    "(case kmalloc (vfs_heap s) (ucast cap) of
        None \<Rightarrow> None
      | Some (Panic b, h) \<Rightarrow> Some (Panic b, s\<lparr>vfs_heap := h\<rparr>)
      | Some (Ret None, h) \<Rightarrow> Some (Ret (- 1), s\<lparr>vfs_heap := h\<rparr>)
      | Some (Ret (Some buf), h) \<Rightarrow>
          install_fd (s\<lparr>vfs_heap := h\<lparr>hbytes := put_bytes (hbytes h) buf data\<rparr>\<rparr>) me path flgs ex buf (of_nat (length data)) cap) =
     Some (Ret r, s')" "vfs_inv s'" "rest_kept s s'"
    "r = - 1 \<and> (\<forall>i. others_kept s i s') \<and>
       ((\<forall>k < 16. used (fd_at s (nat me * 16 + k))) \<or> heap_exhausted (vfs_heap s) (ucast cap)) \<or>
     opened s me path flgs data r s'"
proof (cases rule: kmalloc_change [OF inv room cap(2)])
  case (1 h)
  then show thesis by (intro that [of "- 1" "s\<lparr>vfs_heap := h\<rparr>"]) (auto simp: rest_kept_def)
next
  case (2 h buf n)
  obtain r s' where "install_fd (s\<lparr>vfs_heap := h\<lparr>hbytes := put_bytes (hbytes h) buf data\<rparr>\<rparr>) me path flgs ex buf (of_nat (length data)) cap =
      Some (Ret r, s')" "vfs_inv s'" "rest_kept s s'"
      "r = - 1 \<and> (\<forall>i. others_kept s i s') \<and> (\<forall>k < 16. used (fd_at s (nat me * 16 + k))) \<or> opened s me path flgs data r s'"
    by (rule open_tail [OF inv me 2(2,3,4,5) cap 2(6) path refl])
  with 2(1) show thesis by (intro that [of r s']) auto
qed

text \<open>
  C38. Opening a file always returns on a consistent file system and a sound heap, and keeps all
  descriptors sound and the disk unchanged. A failure changes no descriptor and has one
  of three reasons: the file does not exist and may not be created, the sixteen descriptors of the task
  are in use, or the kernel heap has neither a free block nor memory for a buffer of the size of the file
  (64 bytes at least). On success a descriptor of the task that was closed
  before now stands at the start (or end, in append mode) of exactly the bytes of the file,
  or of the empty file when it is new or truncated; all other descriptors are untouched.
\<close>

theorem vfs_open_correct:
  assumes inv: "vfs_inv s" and fs: "kfs_inv (vfs_fs s) C D" and room: "heap_room s" and me: "0 \<le> me" "me < 16"
    and path: "path \<noteq> []" "0 \<notin> set path" "no_folder (vfs_fs s) path"
  shows "\<exists>r s'. vfs_open s me (Some path) flgs = Some (Ret r, s') \<and> vfs_inv s' \<and> rest_kept s s' \<and>
    (r = - 1 \<and> (\<forall>i. others_kept s i s') \<and>
       (kfs_exists (vfs_fs s) path = Some False \<and> flgs AND VFS_O_CREAT = 0 \<or> (\<forall>k < 16. used (fd_at s (nat me * 16 + k))) \<or>
        (\<exists>n. (if kfs_exists (vfs_fs s) path = Some True then kfs_get_file_size (vfs_fs s) path = Some n else n = 0) \<and>
           heap_exhausted (vfs_heap s) (ucast (if n < 64 then 64 else n)))) \<or>
     (\<exists>data. opened s me path flgs data r s' \<and>
        (if kfs_exists (vfs_fs s) path = Some True \<and> flgs AND VFS_O_TRUNC = 0
         then \<forall>cap \<ge> of_nat (length data). kfs_read_to_buffer (vfs_fs s) path cap = Some (Some data) else data = [])))"
proof (cases rule: file_cases [OF fs path(3)])
  case 1
  show ?thesis
  proof (cases "flgs AND VFS_O_CREAT = 0")
    case True
    have "vfs_open s me (Some path) flgs = Some (Ret (- 1), s)" using True 1(2) path(1) me by (simp add: vfs_open_def)
    moreover have "others_kept s i s" for i by (simp add: others_kept_def)
    ultimately show ?thesis using True 1(2) inv by (intro exI conjI) (auto simp: rest_kept_def)
  next
    case False
    then have "vfs_open s me (Some path) flgs =
        (case kmalloc (vfs_heap s) (ucast (64 :: u32)) of
           None \<Rightarrow> None
         | Some (Panic b, h) \<Rightarrow> Some (Panic b, s\<lparr>vfs_heap := h\<rparr>)
         | Some (Ret None, h) \<Rightarrow> Some (Ret (- 1), s\<lparr>vfs_heap := h\<rparr>)
         | Some (Ret (Some buf), h) \<Rightarrow>
             install_fd (s\<lparr>vfs_heap := h\<lparr>hbytes := put_bytes (hbytes h) buf []\<rparr>\<rparr>) me path flgs False buf (of_nat (length ([] :: bytes))) 64)"
      using 1(2) path(1) me by (simp add: vfs_open_def put_bytes_nil cong: option.case_cong outcome.case_cong)
    then show ?thesis
      using 1(2) by (rule_tac open_buffer [OF inv room me path(2), of "[]" 64 flgs False]) auto
  qed
next
  case (2 e sec k data)
  let ?cap = "if size_bytes e < 64 then 64 else size_bytes e"
  let ?data = "if flgs AND VFS_O_TRUNC = 0 then data else []"
  have "vfs_open s me (Some path) flgs =
      (case kmalloc (vfs_heap s) (ucast ?cap) of
         None \<Rightarrow> None
       | Some (Panic b, h) \<Rightarrow> Some (Panic b, s\<lparr>vfs_heap := h\<rparr>)
       | Some (Ret None, h) \<Rightarrow> Some (Ret (- 1), s\<lparr>vfs_heap := h\<rparr>)
       | Some (Ret (Some buf), h) \<Rightarrow>
           install_fd (s\<lparr>vfs_heap := h\<lparr>hbytes := put_bytes (hbytes h) buf ?data\<rparr>\<rparr>) me path flgs True buf (of_nat (length ?data)) ?cap)"
  proof -
    have rd: "kfs_read_to_buffer (vfs_fs s) path ?cap = Some (Some data)" using 2(6) [of ?cap] by (auto simp: not_less dest: less_imp_le)
    have sz: "of_nat (length data) = size_bytes e" using 2(5) by simp
    show ?thesis
    proof (cases "flgs AND VFS_O_TRUNC = 0 \<and> size_bytes e > 0")
      case True
      then show ?thesis using rd sz 2(2,4) path(1) me unfolding vfs_open_def Let_def
        by (cases "size_bytes e < 64") (simp_all cong: option.case_cong outcome.case_cong)
    next
      case False
      then have "?data = []" using 2(5) by (auto simp: word_gt_0)
      then show ?thesis using False 2(2,4) path(1) me unfolding vfs_open_def Let_def
        by (cases "size_bytes e < 64"; cases "flgs AND VFS_O_TRUNC = 0")
          (simp_all add: put_bytes_nil cong: option.case_cong outcome.case_cong)
    qed
  qed
  moreover have "length ?data \<le> unat ?cap" "?cap \<noteq> 0" using 2(5) by (auto simp: word_less_nat_alt)
  moreover have "\<forall>cap \<ge> of_nat (length data). kfs_read_to_buffer (vfs_fs s) path cap = Some (Some data)"
    using 2(5,6) by (auto simp: not_less)
  ultimately show ?thesis
    using 2(2,4) by (rule_tac open_buffer [OF inv room me path(2), of ?data ?cap flgs True]) auto
qed

section \<open>Closing\<close>

lemma length_last_name: "length (last_name p) \<le> length p"
  by (simp add: last_name_def length_takeWhile_le order_trans [OF length_takeWhile_le])

lemma finite_free_sectors: "finite (free_sectors fs)"
  by (simp add: free_sectors_def)

text \<open>The file of every path but those that lead to the same entry as \<open>path\<close> reads as before.\<close>

definition other_files_kept :: "kfs \<Rightarrow> bytes \<Rightarrow> kfs \<Rightarrow> bool" where
  "other_files_kept fs path fs' \<longleftrightarrow>
     (\<forall>p e sec k cap. lookup fs p = Some (Some (e, sec, k)) \<longrightarrow> flags e \<noteq> FLAG_FOLDER \<longrightarrow> lookup fs path \<noteq> Some (Some (e, sec, k)) \<longrightarrow>
        kfs_read_to_buffer fs' p cap = kfs_read_to_buffer fs p cap)"

text \<open>Delete, then create: the replacement of a file as \<open>flush_locked\<close> performs it.\<close>

lemma delete_if_present:
  assumes inv: "kfs_inv fs C D" and nf: "no_folder fs path"
  obtains ex fs1 C1 where "kfs_exists fs path = Some ex" "(if ex then kfs_delete_file fs path else Some fs) = Some fs1" "kfs_inv fs1 C1 D"
    "lookup fs1 path = Some None" "split_last fs path \<noteq> Some None \<longrightarrow> split_last fs1 path \<noteq> Some None" "free_sectors fs \<subseteq> free_sectors fs1"
    "\<And>p e sec k cap. lookup fs p = Some (Some (e, sec, k)) \<Longrightarrow> flags e \<noteq> FLAG_FOLDER \<Longrightarrow> lookup fs path \<noteq> Some (Some (e, sec, k)) \<Longrightarrow>
        lookup fs1 p = Some (Some (e, sec, k)) \<and> kfs_read_to_buffer fs1 p cap = kfs_read_to_buffer fs p cap"
proof (cases rule: file_cases [OF inv nf])
  case 1
  then show thesis by (intro that [of False fs C]) (use inv in auto)
next
  case (2 e sec k data)
  have "entry_ok fs C D e" and e: "e = entry_in fs sec k" by (rule lookup_slot [OF inv 2(1)]; assumption)+
  then obtain xs where c: "C (unat (start_sector e)) = Some xs" by (auto simp: entry_ok_def)
  have same: "(sec', k') \<noteq> (sec, k)" if "lookup fs p = Some (Some (e', sec', k'))" "lookup fs path \<noteq> Some (Some (e', sec', k'))" for p e' sec' k'
  proof -
    have "e' = entry_in fs sec' k'" by (rule lookup_slot [OF inv that(1)])
    with e that(2) 2(1) show ?thesis by auto
  qed
  obtain fs1 C1 where d: "kfs_delete_file fs path = Some fs1" "kfs_inv fs1 C1 D" "lookup fs1 path = Some None" "split_last fs1 path \<noteq> Some None"
    "free_sectors fs1 = free_sectors fs \<union> set xs"
    "\<And>p e' sec' k' cap. lookup fs p = Some (Some (e', sec', k')) \<Longrightarrow> flags e' \<noteq> FLAG_FOLDER \<Longrightarrow> (sec', k') \<noteq> (sec, k) \<Longrightarrow>
        lookup fs1 p = Some (Some (e', sec', k')) \<and> kfs_read_to_buffer fs1 p cap = kfs_read_to_buffer fs p cap"
    by (rule delete_file_effect [OF inv 2(1,3) c]) blast
  show thesis by (rule that [OF 2(2) _ d(2,3)]) (use d(1,4,5) in simp_all, use d(6) same in blast)
qed

lemma replace_file:
  assumes inv: "kfs_inv fs C D" and nf: "no_folder fs path" and stk: "length stk = 23" and nm: "length path \<le> 22" "0 \<notin> set path"
    and len: "length data + 511 < 2 ^ 32"
  obtains ex fs1 ok fs2 C2 where "kfs_exists fs path = Some ex" "(if ex then kfs_delete_file fs path else Some fs) = Some fs1"
    "kfs_create_file fs1 t stk path data = Some (ok, fs2)" "kfs_inv fs2 C2 D" "other_files_kept fs path fs2"
    "split_last fs path \<noteq> Some None \<longrightarrow> sectors_for (of_nat (length data)) < card (free_sectors fs) \<longrightarrow>
      (\<forall>cap \<ge> of_nat (length data). kfs_read_to_buffer fs2 path cap = Some (Some data))"
proof -
  obtain ex fs1 C1 where d: "kfs_exists fs path = Some ex" "(if ex then kfs_delete_file fs path else Some fs) = Some fs1" "kfs_inv fs1 C1 D"
    "lookup fs1 path = Some None" "split_last fs path \<noteq> Some None \<longrightarrow> split_last fs1 path \<noteq> Some None" "free_sectors fs \<subseteq> free_sectors fs1"
    "\<And>p e sec k cap. lookup fs p = Some (Some (e, sec, k)) \<Longrightarrow> flags e \<noteq> FLAG_FOLDER \<Longrightarrow> lookup fs path \<noteq> Some (Some (e, sec, k)) \<Longrightarrow>
        lookup fs1 p = Some (Some (e, sec, k)) \<and> kfs_read_to_buffer fs1 p cap = kfs_read_to_buffer fs p cap"
    by (rule delete_if_present [OF inv nf]) blast
  have cd: "card (free_sectors fs) \<le> card (free_sectors fs1)" by (rule card_mono [OF finite_free_sectors d(6)])
  have nm': "length (last_name path) \<le> 22" using length_last_name [of path] nm(1) by simp
  have kp: "other_files_kept fs path fs2" if "kfs_inv fs2 C2 D" "grows fs1 C1 fs2 C2 D" for fs2 C2
    unfolding other_files_kept_def using read_grows [OF d(3) that(1) order_refl that(2)] d(7) by (metis (no_types, lifting))
  show thesis
  proof (cases rule: create_file_cases [OF d(3) stk nm' nm(2) len, of t])
    case (1 fs2 C2)
    have "split_last fs1 path = Some None \<or> card (free_sectors fs1) \<le> sectors_for (of_nat (length data))" using 1(4) d(4) by blast
    then show thesis using 1 d(5) cd by (intro that [OF d(1,2) 1(1,2) kp [OF 1(2,3)]]) auto
  next
    case (2 fs2 C2)
    then show thesis by (intro that [OF d(1,2) 2(1,2) kp [OF 2(2,3)]]) auto
  qed
qed

text \<open>
  C37. Closing a descriptor always returns, releases exactly its buffer and leaves the number
  invalid, every other descriptor as before and the file system consistent. When the file was
  changed, its directory exists and enough sectors are free, the file system afterwards
  holds exactly the bytes of the descriptor under its path; otherwise an unchanged
  file is not touched. Every file reached by another entry reads as before.
\<close>

theorem vfs_close_correct:
  assumes inv: "vfs_inv s" and r: "resolve s me fd = Some i" and fs: "kfs_inv (vfs_fs s) C D" and stk: "length (stack_mem s) = 23"
    and size: "unat (vf_size (fd_at s i)) + 511 < 2 ^ 32" and nf: "no_folder (vfs_fs s) (vf_path (fd_at s i))"
  shows "\<exists>s' p n C'. vfs_close s me fd = Some (Ret 0, s') \<and> vfs_inv s' \<and> others_kept s i s' \<and> resolve s' me fd = None \<and>
    vf_buf (fd_at s i) = Some p \<and> live (vfs_heap s') = live (vfs_heap s) - {(p, n)} \<and> (p, n) \<in> live (vfs_heap s) \<and>
    kfs_inv (vfs_fs s') C' D \<and> other_files_kept (vfs_fs s) (vf_path (fd_at s i)) (vfs_fs s') \<and>
    (if vf_dirty (fd_at s i)
     then split_last (vfs_fs s) (vf_path (fd_at s i)) \<noteq> Some None \<and> sectors_for (vf_size (fd_at s i)) < card (free_sectors (vfs_fs s)) \<longrightarrow>
       (\<forall>cap \<ge> vf_size (fd_at s i). kfs_read_to_buffer (vfs_fs s') (vf_path (fd_at s i)) cap = Some (Some (fd_content s i)))
     else vfs_fs s' = vfs_fs s)"
proof -
  note i = resolveD(1,2) [OF inv r]
  let ?f = "fd_at s i"
  obtain p n where p: "vf_buf ?f = Some p" "(p, n) \<in> live (vfs_heap s)" "unat (vf_cap ?f) \<le> n" "unat (vf_size ?f) \<le> unat (vf_cap ?f)"
      "vf_cap ?f \<noteq> 0" "length (vf_path ?f) \<le> 22" "0 \<notin> set (vf_path ?f)"
    by (rule fd_okD [OF inv i])
  have ct: "length (fd_content s i) = unat (vf_size ?f)" "of_nat (length (fd_content s i)) = vf_size ?f" by (simp_all add: fd_content_def)
  obtain fs2 C2 where fl: "flush_locked s i = Some (set_fd (s\<lparr>vfs_fs := fs2\<rparr>) i (?f\<lparr>vf_dirty := False\<rparr>))" "kfs_inv fs2 C2 D"
      "other_files_kept (vfs_fs s) (vf_path ?f) fs2"
      "if vf_dirty ?f then split_last (vfs_fs s) (vf_path ?f) \<noteq> Some None \<and> sectors_for (vf_size ?f) < card (free_sectors (vfs_fs s)) \<longrightarrow>
         (\<forall>cap \<ge> vf_size ?f. kfs_read_to_buffer fs2 (vf_path ?f) cap = Some (Some (fd_content s i)))
       else fs2 = vfs_fs s"
  proof (cases "vf_dirty ?f")
    case True
    have len: "length (fd_content s i) + 511 < 2 ^ 32" using size ct(1) by simp
    show thesis
      by (rule replace_file [OF fs nf stk p(6,7) len, where t = "drive_sectors s"])
        (rule that, use True ct(2) in \<open>auto simp: flush_locked_def Let_def fd_content_def\<close>)
  next
    case False
    then have "?f\<lparr>vf_dirty := False\<rparr> = ?f" by simp
    then have "set_fd s i (?f\<lparr>vf_dirty := False\<rparr>) = s" by (simp only: list_update_id) simp
    with False fs show thesis by (intro that [of "vfs_fs s" C]) (simp_all add: flush_locked_def other_files_kept_def)
  qed
  obtain h' where k: "kfree (vfs_heap s) (Some p) = Some (Ret (), h')" "heap_inv h'" "live h' = live (vfs_heap s) - {(p, n)}"
      "hbytes h' = hbytes (vfs_heap s)"
    using kfree_spec [OF vfs_invD(2) [OF inv] p(2)] by blast
  let ?g = "?f\<lparr>vf_dirty := False, vf_buf := None, used := False\<rparr>"
  define s' where "s' = set_fd (s\<lparr>vfs_fs := fs2, vfs_heap := h'\<rparr>) i ?g"
  have "vfs_close s me fd = Some (Ret 0, s')"
    using r fl(1) k(1) p(1) vfs_invD(1) [OF inv] i(1) by (simp add: vfs_close_def close_slot_def vfs_kfree_def s'_def)
  moreover have "vfs_inv s'" "others_kept s i s'"
  proof -
    have "region_kept (vfs_heap s) h' q \<and> (used ?g \<longrightarrow> vf_buf ?g \<noteq> Some q)"
      if "j < 256" "j \<noteq> i" "used (fd_at s j)" "vf_buf (fd_at s j) = Some q" for j q
      using vfs_invD(4) [OF inv i(1) that(1) i(2) that(3)] that p(1) k(3,4) by (auto simp: region_kept_def)
    then show "vfs_inv s'" "others_kept s i s'"
      using slot_update [OF inv i(1) k(2), of ?g s'] by (simp_all add: s'_def)
  qed
  moreover have "resolve s' me fd = None"
    using resolve_slot [OF r, of s'] vfs_invD(1) [OF inv] i(1) by (simp add: s'_def)
  moreover have "vfs_heap s' = h'" "vfs_fs s' = fs2" by (simp_all add: s'_def)
  ultimately show ?thesis using p(1,2) k(3) fl(2-4) by (intro exI [of _ s'] exI [of _ p] exI [of _ n] exI [of _ C2]) simp
qed

section \<open>An open file\<close>

text \<open>The witness input: descriptor 0 of task 0 is the changed file \<open>/a\<close> of three bytes, on a freshly
  formatted disk.\<close>

definition one_open_file :: "vmm_state \<Rightarrow> vfs" where
  "one_open_file v =
     \<lparr>fds = (replicate 256 \<lparr>used = False, vf_owner = 0, vf_path = [], vf_buf = None, vf_size = 0, vf_cap = 0, vf_pos = 0,
        vf_flags = 0, vf_dirty = False\<rparr>)
       [0 := \<lparr>used = True, vf_owner = 0, vf_path = [47, 97], vf_buf = Some (HEAP_START_VADDR + HDR), vf_size = 3, vf_cap = 64,
              vf_pos = 1, vf_flags = VFS_O_RDWR, vf_dirty = True\<rparr>],
      vfs_heap = one_block_heap v, vfs_fs = blank_fs, drive_sectors = 100, stack_mem = replicate 23 0\<rparr>"

lemma one_open_file_state:
  obtains v where "vfs_inv (one_open_file v)" "heap_room (one_open_file v)" "memory_for (vfs_heap (one_open_file v)) 1000"
proof -
  obtain v where v: "heap_inv (one_block_heap v)" "live (one_block_heap v) = {(HEAP_START_VADDR + HDR, 4064)}" "memory_for (one_block_heap v) 1000"
    by (rule one_block_memory)
  have "vfs_inv (one_open_file v)"
    using v by (auto simp: vfs_inv_def one_open_file_def fd_ok_def nth_list_update_if)
  moreover have "heap_room (one_open_file v)" by (simp add: heap_room_def one_open_file_def one_block_heap_def)
  moreover have "memory_for (vfs_heap (one_open_file v)) 1000" using v(3) by (simp add: one_open_file_def)
  ultimately show thesis by (rule that)
qed

lemma one_open_file_fields:
  "resolve (one_open_file v) 0 0 = Some 0" "vfs_fs (one_open_file v) = blank_fs" "stack_mem (one_open_file v) = replicate 23 0"
  "vf_path (fd_at (one_open_file v) 0) = [47, 97]" "vf_size (fd_at (one_open_file v) 0) = 3" "vf_pos (fd_at (one_open_file v) 0) = 1"
  "vf_flags (fd_at (one_open_file v) 0) = VFS_O_RDWR" "vf_dirty (fd_at (one_open_file v) 0)" "vf_cap (fd_at (one_open_file v) 0) = 64"
  "fd_content (one_open_file v) 0 = [0, 0, 0]"
  by (simp_all add: resolve_def slot_of_def fd_content_def one_open_file_def one_block_heap_def get_bytes_def map_replicate_const)
    (simp add: numeral_3_eq_3)

lemma blank_no_folder: "no_folder blank_fs [47, 97]"
  using blank_lookup by (simp add: no_folder_def)

theorem vfs_write_witness:
  "\<exists>v s' s1 s2. vfs_write (one_open_file v) 0 0 (Some [7, 8, 9, 10]) = Some (Ret 4, s') \<and> fd_content s' 0 = [0, 7, 8, 9, 10] \<and>
     vfs_lseek s' 0 0 1 0 = (1, s1) \<and> vfs_read s1 0 0 False 4 = (4, [7, 8, 9, 10], s2)"
proof -
  obtain v where v: "vfs_inv (one_open_file v)" "heap_room (one_open_file v)" by (rule one_open_file_state)
  have h: "vf_flags (fd_at (one_open_file v) 0) AND (VFS_O_WRONLY OR VFS_O_RDWR) \<noteq> 0" "length [7, 8, 9, 10 :: u8] < 2 ^ 32"
      "1 = unat (if vf_flags (fd_at (one_open_file v) 0) AND VFS_O_APPEND \<noteq> 0 then vf_size (fd_at (one_open_file v) 0)
        else vf_pos (fd_at (one_open_file v) 0))"
    by (simp_all add: one_open_file_fields)
  obtain s' where s': "vfs_write (one_open_file v) 0 0 (Some [7, 8, 9, 10]) = Some (Ret 4, s')"
      "written [0, 0, 0] 1 [7, 8, 9, 10] (fd_content s' 0)"
      "\<exists>s1 s2. vfs_lseek s' 0 0 1 0 = (1, s1) \<and> vfs_read s1 0 0 False 4 = (4, [7, 8, 9, 10], s2)"
  proof -
    have n: "of_nat (length [7, 8, 9, 10 :: u8]) = (4 :: u32)" "sint (4 :: u32) = 4" "of_nat 1 = (1 :: u32)" "int 1 = 1"
      "\<not> unat (64 :: u32) < 1 + length [7, 8, 9, 10 :: u8]" "VFS_O_RDWR AND VFS_O_WRONLY = 0 \<and> (1 :: nat) < 2 ^ 31"
      by simp_all
    show thesis using vfs_write_correct [OF v(1) one_open_file_fields(1) h(1) v(2) h(2,3)] that
      unfolding one_open_file_fields n(1-4) using n(5,6) by blast
  qed
  have "length (fd_content s' 0) = 5" "fd_content s' 0 ! 0 = 0" "\<forall>k < 4. fd_content s' 0 ! Suc k = [7, 8, 9, 10] ! k"
    using s'(2) by (simp_all add: written_def)
  then have "fd_content s' 0 ! k = [0, 7, 8, 9, 10] ! k" if "k < 5" for k using that by (cases k) simp_all
  then have "fd_content s' 0 = [0, 7, 8, 9, 10]" using \<open>length (fd_content s' 0) = 5\<close> by (intro nth_equalityI) simp_all
  with s' show ?thesis by blast
qed

theorem vfs_open_witness:
  "\<exists>v r s' i. vfs_open (one_open_file v) 0 (Some [47, 97]) 6 = Some (Ret r, s') \<and> resolve s' 0 r = Some i \<and>
     fd_content s' i = [] \<and> vf_path (fd_at s' i) = [47, 97] \<and> fd_content s' 0 = [0, 0, 0]"
proof -
  obtain v where v: "vfs_inv (one_open_file v)" "heap_room (one_open_file v)" "memory_for (vfs_heap (one_open_file v)) 1000"
    by (rule one_open_file_state)
  let ?s = "one_open_file v"
  have ex: "kfs_exists blank_fs [47, 97] = Some False" using blank_lookup by (simp add: kfs_exists_def)
  have free: "\<not> (\<forall>k < 16. used (fd_at ?s (nat 0 * 16 + k)))" by (auto intro!: exI [of _ 1] simp: one_open_file_def)
  have "pages_for (round16 (ucast (64 :: u32))) = 1" by (simp add: pages_for_def round16_def)
  then have mem: "\<not> heap_exhausted (vfs_heap ?s) (ucast (if 0 < (64 :: u32) then 64 else 0 :: u32))"
    using memory_for_mono [OF v(3), of 1] by (simp add: heap_exhausted_def)
  obtain r s' where o: "vfs_open ?s 0 (Some [47, 97]) 6 = Some (Ret r, s')" "opened ?s 0 [47, 97] 6 [] r s'"
    using vfs_open_correct [OF v(1) _ v(2), of _ _ 0 "[47, 97]" 6] blank_inv blank_no_folder ex free mem
    unfolding one_open_file_fields by fastforce
  then obtain i where i: "resolve ?s 0 r = None" "resolve s' 0 r = Some i" "others_kept ?s i s'" "fd_content s' i = []" "vf_path (fd_at s' i) = [47, 97]"
    by (auto simp: opened_def path_copy_def)
  have "r \<noteq> 0" using i(1) one_open_file_fields(1) by auto
  then have "i \<noteq> 0" using i(2) by (auto simp: resolve_def slot_of_def Let_def split: if_splits)
  moreover have "used (fd_at ?s 0)" "0 < length (fds ?s)" by (simp_all add: one_open_file_def)
  ultimately have "fd_content s' 0 = [0, 0, 0]" using i(3) by (auto simp: others_kept_def one_open_file_fields(10))
  then show ?thesis using o(1) i by blast
qed

theorem vfs_close_witness:
  "\<exists>v s'. vfs_close (one_open_file v) 0 0 = Some (Ret 0, s') \<and> resolve s' 0 0 = None \<and>
     kfs_read_to_buffer (vfs_fs s') [47, 97] 3 = Some (Some [0, 0, 0])"
proof -
  obtain v where v: "vfs_inv (one_open_file v)" by (rule one_open_file_state)
  have "sectors_for 3 = 1" by (simp add: sectors_for_def)
  then show ?thesis
    using vfs_close_correct [OF v one_open_file_fields(1), of "[2 \<mapsto> [2]]" "{2}"] blank_inv blank_no_folder blank_lookup(1) blank_free
    by (simp add: one_open_file_fields) blast
qed

end
