(* ===== verification/Page_Teardown.thy ===== *)
theory Page_Teardown
  imports Page_Walk
begin

text \<open>
  Destroying an address space (\<open>vmm_destroy_address_space\<close> of \<^verbatim>\<open>kernel/paging.c\<close>). Its four nested
  loops are one recursion over the level of the table; one induction over it gives which
  entries are cleared, which memory is left alone and which frames are given back.
\<close>

section \<open>The four loops as one recursion\<close>

fun destroy_lvl :: "nat \<Rightarrow> u64 \<Rightarrow> nat list \<Rightarrow> vmm_state \<Rightarrow> vmm_state" where
  "destroy_lvl k f [] v = v"
| "destroy_lvl 0 f (j # js) v =
     (let e = rd v f (of_nat j)
      in if \<not> present e then destroy_lvl 0 f js v
         else destroy_lvl 0 f js (wr (free_if_owned v (e AND PAGE_MASK)) f (of_nat j) 0))"
| "destroy_lvl (Suc k) f (j # js) v =
     (let e = rd v f (of_nat j)
      in if \<not> present e then destroy_lvl (Suc k) f js v
         else if huge e then destroy_lvl (Suc k) f js (wr v f (of_nat j) 0)
         else destroy_lvl (Suc k) f js
                (wr (free_if_owned (destroy_lvl k (e AND PAGE_MASK) [0..<512] v) (e AND PAGE_MASK))
                   f (of_nat j) 0))"

lemma destroy_levels:
  "destroy_pt f js v = destroy_lvl 0 f js v"
  "destroy_pd f js v = destroy_lvl 1 f js v"
  "destroy_pdpt f js v = destroy_lvl 2 f js v"
  "destroy_pml4 f js v = destroy_lvl 3 f js v"
proof -
  show 0: "destroy_pt f js v = destroy_lvl 0 f js v" for f js v
    by (induction js arbitrary: v) (simp_all add: Let_def)
  show 1: "destroy_pd f js v = destroy_lvl 1 f js v" for f js v
    by (induction js arbitrary: v) (simp_all add: Let_def 0 del: upt_rec_numeral)
  show 2: "destroy_pdpt f js v = destroy_lvl 2 f js v" for f js v
    by (induction js arbitrary: v) (simp_all add: Let_def 1 numeral_2_eq_2 del: upt_rec_numeral)
  show "destroy_pml4 f js v = destroy_lvl 3 f js v"
    by (induction js arbitrary: v) (simp_all add: Let_def 2 numeral_2_eq_2 numeral_3_eq_3 del: upt_rec_numeral)
qed

section \<open>What lies below a table\<close>

text \<open>Tables and pages reached from \<open>f\<close>, \<open>k\<close> levels above the last, through entries \<open>js\<close>.\<close>

definition tabs :: "vmm_state \<Rightarrow> nat \<Rightarrow> u64 \<Rightarrow> nat list \<Rightarrow> u64 set" where
  "tabs v k f js = {g. \<exists>j \<in> set js. \<exists>q. idx_ok q \<and> length q < k \<and> node v f (of_nat j # q) = Some g}"

definition pages :: "vmm_state \<Rightarrow> nat \<Rightarrow> u64 \<Rightarrow> nat list \<Rightarrow> u64 set" where
  "pages v k f js =
     {a. \<exists>e. a = e AND PAGE_MASK \<and>
        (\<exists>j \<in> set js. \<exists>q. idx_ok q \<and> length q = k \<and> walk v f (of_nat j # q) = Page e)}"

definition subtree_ok :: "vmm_state \<Rightarrow> nat \<Rightarrow> u64 \<Rightarrow> bool" where
  "subtree_ok v k f \<longleftrightarrow>
     (\<forall>p g. length p \<le> k \<longrightarrow> idx_ok p \<longrightarrow> node v f p = Some g \<longrightarrow> frame_aligned g) \<and>
     (\<forall>p q g. length p \<le> k \<longrightarrow> length q \<le> k \<longrightarrow> idx_ok p \<longrightarrow> idx_ok q \<longrightarrow>
        node v f p = Some g \<longrightarrow> node v f q = Some g \<longrightarrow> p = q)"

lemma tree_subtree: "tree_ok v root \<Longrightarrow> subtree_ok v 3 root"
  using tree_aligned tree_inj unfolding subtree_ok_def by metis

lemma subtree_root: "subtree_ok v k f \<Longrightarrow> frame_aligned f"
  unfolding subtree_ok_def by (metis bot_nat_0.extremum empty_iff list.set(1) list.size(3) node.simps(1))

lemma subtree_child:
  assumes "subtree_ok v (Suc k) f" "present (rd v f i)" "\<not> huge (rd v f i)" "i < 512"
  shows "subtree_ok v k (rd v f i AND PAGE_MASK)"
proof -
  have *: "node v f (i # q) = node v (rd v f i AND PAGE_MASK) q" for q
    using assms(2,3) by simp
  show ?thesis
    unfolding subtree_ok_def
  proof (intro conjI allI impI)
    fix p g
    assume "length p \<le> k" "idx_ok p" "node v (rd v f i AND PAGE_MASK) p = Some g"
    then show "frame_aligned g"
      using assms(1,4) * [of p] unfolding subtree_ok_def
      by (metis Suc_le_mono length_Cons set_ConsD)
  next
    fix p q g
    assume "length p \<le> k" "length q \<le> k" "idx_ok p" "idx_ok q"
      "node v (rd v f i AND PAGE_MASK) p = Some g" "node v (rd v f i AND PAGE_MASK) q = Some g"
    then have "i # p = i # q"
      using assms(1,4) * [of p] * [of q] unfolding subtree_ok_def
      by (metis Suc_le_mono length_Cons set_ConsD)
    then show "p = q" by simp
  qed
qed

lemma idx_of_nat: "j < 512 \<Longrightarrow> (of_nat j :: u64) < 512" "j < 512 \<Longrightarrow> unat (of_nat j :: u64) = j"
  by (simp_all add: word_less_nat_alt)

lemma all_idx: "(i :: u64) < 512 \<Longrightarrow> \<exists>j \<in> set [0..<512]. i = of_nat j"
  by (rule bexI [of _ "unat i"]) (simp_all only: set_upt, simp_all add: word_less_nat_alt)

section \<open>Tables and pages entry by entry\<close>

lemma tabs_Cons_skip:
  assumes "\<not> present (rd v f (of_nat j)) \<or> huge (rd v f (of_nat j)) \<or> k = 0"
  shows "tabs v k f (j # js) = tabs v k f js"
  using assms by (auto simp: tabs_def)

lemma pages_Cons_skip:
  assumes "\<not> present (rd v f (of_nat j)) \<or> (huge (rd v f (of_nat j)) \<and> k > 0)"
  shows "pages v k f (j # js) = pages v k f js"
proof -
  have "walk v f (of_nat j # q) \<noteq> Page e" if "length q = k" for q e
    using assms that by (cases q) (auto simp: leaf_def)
  then show ?thesis unfolding pages_def by auto
qed

lemma pages_Cons_leaf:
  assumes "present (rd v f (of_nat j))"
  shows "pages v 0 f (j # js) = insert (rd v f (of_nat j) AND PAGE_MASK) (pages v 0 f js)"
  using assms by (auto simp: pages_def leaf_def)

lemma tabs_Cons_table:
  assumes "present (rd v f (of_nat j))" "\<not> huge (rd v f (of_nat j))"
  shows "tabs v (Suc k) f (j # js) =
    insert (rd v f (of_nat j) AND PAGE_MASK) (tabs v k (rd v f (of_nat j) AND PAGE_MASK) [0..<512]) \<union> tabs v (Suc k) f js"
proof -
  let ?g = "rd v f (of_nat j) AND PAGE_MASK"
  have "(\<exists>q. idx_ok q \<and> length q < Suc k \<and> node v ?g q = Some h) \<longleftrightarrow>
      h = ?g \<or> h \<in> tabs v k ?g [0..<512]" for h
  proof
    assume "\<exists>q. idx_ok q \<and> length q < Suc k \<and> node v ?g q = Some h"
    then obtain q where q: "idx_ok q" "length q < Suc k" "node v ?g q = Some h" by blast
    show "h = ?g \<or> h \<in> tabs v k ?g [0..<512]"
    proof (cases q)
      case (Cons i r)
      moreover from this q(1) obtain j' where "j' \<in> set [0..<512]" "i = of_nat j'"
        using all_idx by fastforce
      ultimately have "\<exists>j \<in> set [0..<512]. \<exists>q. idx_ok q \<and> length q < k \<and> node v ?g (of_nat j # q) = Some h"
        using q by (intro bexI [of _ j'] exI [of _ r]) (simp_all del: upt_rec_numeral)
      then show ?thesis unfolding tabs_def by blast
    qed (use q in simp)
  next
    assume "h = ?g \<or> h \<in> tabs v k ?g [0..<512]"
    then show "\<exists>q. idx_ok q \<and> length q < Suc k \<and> node v ?g q = Some h"
    proof
      assume "h = ?g"
      then show ?thesis by (intro exI [of _ "[]"]) simp
    next
      assume "h \<in> tabs v k ?g [0..<512]"
      then obtain j' q where "j' \<in> set [0..<512]" "idx_ok q" "length q < k" "node v ?g (of_nat j' # q) = Some h"
        unfolding tabs_def by blast
      moreover from this(1) have "(of_nat j' :: u64) < 512"
        unfolding set_upt by (simp add: idx_of_nat)
      ultimately show ?thesis by (intro exI [of _ "of_nat j' # q"]) simp
    qed
  qed
  then show ?thesis
    using assms unfolding tabs_def by (auto simp del: upt_rec_numeral)
qed

lemma pages_Cons_table:
  assumes "present (rd v f (of_nat j))" "\<not> huge (rd v f (of_nat j))"
  shows "pages v (Suc k) f (j # js) = pages v k (rd v f (of_nat j) AND PAGE_MASK) [0..<512] \<union> pages v (Suc k) f js"
proof -
  let ?g = "rd v f (of_nat j) AND PAGE_MASK"
  have "(\<exists>q. idx_ok q \<and> length q = Suc k \<and> walk v f (of_nat j # q) = Page e) \<longleftrightarrow>
      (\<exists>j' \<in> set [0..<512]. \<exists>q. idx_ok q \<and> length q = k \<and> walk v ?g (of_nat j' # q) = Page e)" for e
  proof
    assume "\<exists>q. idx_ok q \<and> length q = Suc k \<and> walk v f (of_nat j # q) = Page e"
    then obtain i r where r: "i < 512" "idx_ok r" "length r = k" "walk v f (of_nat j # i # r) = Page e"
      by (auto simp: length_Suc_conv)
    moreover from r(1) obtain j' where "j' \<in> set [0..<512]" "i = of_nat j'" using all_idx by blast
    ultimately show "\<exists>j' \<in> set [0..<512]. \<exists>q. idx_ok q \<and> length q = k \<and> walk v ?g (of_nat j' # q) = Page e"
      using assms by (intro bexI [of _ j'] exI [of _ r]) (simp_all del: upt_rec_numeral)
  next
    assume "\<exists>j' \<in> set [0..<512]. \<exists>q. idx_ok q \<and> length q = k \<and> walk v ?g (of_nat j' # q) = Page e"
    then obtain j' q where "j' < 512" "idx_ok q" "length q = k" "walk v ?g (of_nat j' # q) = Page e"
      unfolding set_upt by auto
    then show "\<exists>q. idx_ok q \<and> length q = Suc k \<and> walk v f (of_nat j # q) = Page e"
      using assms idx_of_nat(1) [of j'] by (intro exI [of _ "of_nat j' # q"]) simp
  qed
  note here = this
  show ?thesis unfolding pages_def list.set(2) bex_simps here by blast
qed

section \<open>Writes and releases\<close>

lemma vmm_free_owns:
  assumes "pmm_inv (frames v)"
  shows "pmm_inv (frames (free_if_owned v a))"
    and "pmm_owns_page (frames (free_if_owned v a)) b \<longleftrightarrow>
         pmm_owns_page (frames v) b \<and> \<not> (b = a \<and> 0x4800000 \<le> b)"
    and "pmem (free_if_owned v a) = pmem v"
    and "free_if_owned v a = v\<lparr>frames := frames (free_if_owned v a)\<rparr>"
proof -
  have "free_if_owned v a = v\<lparr>frames := (if pmm_owns_page (frames v) a then pmm_release (frames v) a else frames v)\<rparr>"
    by (simp add: free_if_owned_def vmm_free_def pmm_release_def)
  then show "pmm_inv (frames (free_if_owned v a))"
    and "pmm_owns_page (frames (free_if_owned v a)) b \<longleftrightarrow>
         pmm_owns_page (frames v) b \<and> \<not> (b = a \<and> 0x4800000 \<le> b)"
    and "pmem (free_if_owned v a) = pmem v"
    and "free_if_owned v a = v\<lparr>frames := frames (free_if_owned v a)\<rparr>"
    using assms pmm.release_ok [of "frames v" a] pmm.release_owns [of "frames v" a b]
      pmm.release_refused [of "frames v" a] by (cases "0x4800000 \<le> a"; auto)+
qed

lemma rd_free [simp]: "pmm_inv (frames v) \<Longrightarrow> rd (free_if_owned v a) = rd v"
  by (simp add: rd_def fun_eq_iff vmm_free_owns(3))

text \<open>
  Paths that leave \<open>f\<close> by another entry than \<open>j\<close> do not see writes to entry \<open>j\<close> and to the
  tables below it.
\<close>

lemma sibling_unseen:
  assumes t: "subtree_ok v k f" and j: "j < 512" "j' < 512" "j' \<noteq> j" and q: "idx_ok q"
    and same: "\<And>h i. frame_aligned h \<Longrightarrow> i < 512 \<Longrightarrow> h \<notin> tabs v k f [j] \<Longrightarrow> (h, i) \<noteq> (f, of_nat j) \<Longrightarrow>
      rd v' h i = rd v h i"
    and r: "of_nat j' # q = r @ i # s" "node v f r = Some h" "length q \<le> k"
  shows "rd v' h i = rd v h i"
proof -
  have "length (of_nat j' # q) = length (r @ i # s)" by (simp only: r(1))
  then have len: "length r \<le> k" using r(3) by simp
  have "unat (of_nat j' :: u64) \<noteq> unat (of_nat j :: u64)" using j by (simp add: idx_of_nat)
  then have jj: "(of_nat j' :: u64) < 512" "(of_nat j' :: u64) \<noteq> of_nat j"
    using idx_of_nat(1) [OF j(2)] by auto
  have "idx_ok (of_nat j' # q)" using q jj(1) by simp
  then have idx: "idx_ok r" "i < 512" unfolding r(1) by simp_all
  have al: "frame_aligned h" using t len idx(1) r(2) unfolding subtree_ok_def by blast
  have inj: "p = r" if "length p \<le> k" "idx_ok p" "node v f p = Some h" for p
    using t that len idx(1) r(2) unfolding subtree_ok_def by blast
  have "h \<notin> tabs v k f [j]"
  proof
    assume "h \<in> tabs v k f [j]"
    then obtain p where "idx_ok p" "length p < k" "node v f (of_nat j # p) = Some h"
      unfolding tabs_def by auto
    then have "of_nat j # p = r" using idx_of_nat(1) [OF j(1)] by (intro inj) simp_all
    with r(1) jj(2) show False by (cases r) auto
  qed
  moreover have "(h, i) \<noteq> (f, of_nat j)"
  proof
    assume hi: "(h, i) = (f, of_nat j)"
    then have "[] = r" by (intro inj) simp_all
    with r(1) hi jj(2) show False by simp
  qed
  ultimately show ?thesis by (rule same [OF al idx(2)])
qed

lemma sibling_same:
  assumes "subtree_ok v k f" "j < 512" "j' < 512" "j' \<noteq> j" "idx_ok q"
    and "\<And>h i. frame_aligned h \<Longrightarrow> i < 512 \<Longrightarrow> h \<notin> tabs v k f [j] \<Longrightarrow> (h, i) \<noteq> (f, of_nat j) \<Longrightarrow>
      rd v' h i = rd v h i"
    and "length q \<le> k"
  shows "node v' f (of_nat j' # q) = node v f (of_nat j' # q)"
    and "walk v' f (of_nat j' # q) = walk v f (of_nat j' # q)"
proof -
  have "rd v' h i = rd v h i" if "of_nat j' # q = r @ i # s" "node v f r = Some h" for r i s h
    by (rule sibling_unseen [OF assms(1-6) that assms(7)])
  then show "node v' f (of_nat j' # q) = node v f (of_nat j' # q)"
    and "walk v' f (of_nat j' # q) = walk v f (of_nat j' # q)"
    by (blast intro: node_cong walk_cong)+
qed

text \<open>Clearing entry \<open>j\<close> with everything below it leaves the rest of the subtree in place.\<close>

lemma cleared_entry:
  assumes t: "subtree_ok v k f" and j: "j < 512" "j \<notin> set js" "\<forall>i \<in> set js. i < 512"
    and same: "\<And>h i. frame_aligned h \<Longrightarrow> i < 512 \<Longrightarrow> h \<notin> tabs v k f [j] \<Longrightarrow> (h, i) \<noteq> (f, of_nat j) \<Longrightarrow>
      rd v' h i = rd v h i"
    and gone: "\<not> present (rd v' f (of_nat j))"
  shows "subtree_ok v' k f" "tabs v' k f js = tabs v k f js" "pages v' k f js = pages v k f js"
proof -
  note sib = sibling_same [OF t j(1) _ _ _ same]
  have nd: "node v' f p = Some g \<Longrightarrow> node v f p = Some g" if "length p \<le> k" "idx_ok p" for p g
  proof (cases p)
    case (Cons i q)
    then have "i < 512" using that by simp
    then obtain j' where j': "j' < 512" "i = of_nat j'" using all_idx [of i] unfolding set_upt by auto
    assume *: "node v' f p = Some g"
    then have "j' \<noteq> j" using gone Cons j' by (auto split: if_splits)
    then have "node v' f p = node v f p"
      using sib(1) [OF j'(1)] that Cons j'(2) by simp
    with * show ?thesis by simp
  qed simp
  then show "subtree_ok v' k f"
    using t unfolding subtree_ok_def by blast
  have eqn: "node v' f (of_nat i # q) = node v f (of_nat i # q)" "walk v' f (of_nat i # q) = walk v f (of_nat i # q)"
    if "i \<in> set js" "idx_ok q" "length q \<le> k" for i q
    by (rule sib; use that j(2,3) in blast)+
  show "tabs v' k f js = tabs v k f js"
    unfolding tabs_def
    by (intro Collect_cong bex_cong [OF refl] ex_cong1 conj_cong [OF refl]) (simp only: eqn less_imp_le)
  show "pages v' k f js = pages v k f js"
    unfolding pages_def
    by (intro Collect_cong bex_cong [OF refl] ex_cong1 conj_cong [OF refl]) (simp only: eqn eq_imp_le)
qed

section \<open>The whole teardown\<close>

definition torn_down :: "vmm_state \<Rightarrow> nat \<Rightarrow> u64 \<Rightarrow> nat list \<Rightarrow> vmm_state \<Rightarrow> bool" where
  "torn_down v k f js v' \<longleftrightarrow>
     pmm_inv (frames v') \<and>
     (\<forall>b. pmm_owns_page (frames v') b \<longleftrightarrow>
        pmm_owns_page (frames v) b \<and> \<not> (b \<in> tabs v k f js \<union> pages v k f js \<and> 0x4800000 \<le> b)) \<and>
     (\<forall>h i. frame_aligned h \<longrightarrow> i < 512 \<longrightarrow> h \<notin> tabs v k f js \<longrightarrow>
        (h = f \<longrightarrow> unat i \<notin> set js) \<longrightarrow> rd v' h i = rd v h i) \<and>
     (\<forall>j \<in> set js. \<not> present (rd v' f (of_nat j)))"

lemma torn_down_Cons:
  assumes t: "subtree_ok v k f" and j: "j < 512" "j \<notin> set js" "\<forall>i \<in> set js. i < 512"
    and inv: "pmm_inv (frames v1)"
    and own: "\<And>b. pmm_owns_page (frames v1) b \<longleftrightarrow>
      pmm_owns_page (frames v) b \<and> \<not> (b \<in> tabs v k f [j] \<union> pages v k f [j] \<and> 0x4800000 \<le> b)"
    and same: "\<And>h i. frame_aligned h \<Longrightarrow> i < 512 \<Longrightarrow> h \<notin> tabs v k f [j] \<Longrightarrow> (h, i) \<noteq> (f, of_nat j) \<Longrightarrow>
      rd v1 h i = rd v h i"
    and gone: "\<not> present (rd v1 f (of_nat j))"
    and rest: "subtree_ok v1 k f \<Longrightarrow> torn_down v1 k f js v'"
  shows "torn_down v k f (j # js) v'"
proof -
  have c: "subtree_ok v1 k f" "tabs v1 k f js = tabs v k f js" "pages v1 k f js = pages v k f js"
    using cleared_entry [OF t j same gone] by simp_all
  note td = rest [OF c(1), unfolded torn_down_def c(2,3)]
  have un: "tabs v k f (j # js) = tabs v k f [j] \<union> tabs v k f js"
      "pages v k f (j # js) = pages v k f [j] \<union> pages v k f js"
    unfolding tabs_def pages_def list.set bex_simps by blast+
  have f: "frame_aligned f" by (rule subtree_root [OF t])
  have "f \<notin> tabs v k f js"
  proof
    assume "f \<in> tabs v k f js"
    then obtain i q where i: "i \<in> set js" "idx_ok q" "length q < k" "node v f (of_nat i # q) = Some f"
      unfolding tabs_def by blast
    have "of_nat i # q = []"
      using t i j(3) idx_of_nat(1) [of i] unfolding subtree_ok_def
      by (metis Suc_leI bot_nat_0.extremum empty_iff length_Cons list.set(1) list.size(3) node.simps(1) set_ConsD)
    then show False by simp
  qed
  then have "rd v' f (of_nat j) = rd v1 f (of_nat j)"
    using td f idx_of_nat [OF j(1)] j(2) by simp
  moreover have "rd v' h i = rd v h i"
    if "frame_aligned h" "i < 512" "h \<notin> tabs v k f (j # js)" "h = f \<longrightarrow> unat i \<notin> set (j # js)" for h i
  proof -
    have "(h, i) \<noteq> (f, of_nat j)" using that(4) idx_of_nat(2) [OF j(1)] by auto
    then have "rd v1 h i = rd v h i" using same that(1-3) un(1) by simp
    moreover have "rd v' h i = rd v1 h i" using td that un(1) by simp
    ultimately show ?thesis by simp
  qed
  ultimately show ?thesis
    using td gone own unfolding torn_down_def un by auto
qed

lemma torn_down_skip:
  assumes "subtree_ok v k f" "j < 512" "j \<notin> set js" "\<forall>i \<in> set js. i < 512" "pmm_inv (frames v)"
    and "torn_down v k f js v'" "\<not> present (rd v f (of_nat j))"
  shows "torn_down v k f (j # js) v'"
proof (rule torn_down_Cons [OF assms(1-5)])
  have "tabs v k f [] = {}" "pages v k f [] = {}" by (simp_all add: tabs_def pages_def)
  with assms(7) show "pmm_owns_page (frames v) b \<longleftrightarrow>
      pmm_owns_page (frames v) b \<and> \<not> (b \<in> tabs v k f [j] \<union> pages v k f [j] \<and> 0x4800000 \<le> b)" for b
    by (simp add: tabs_Cons_skip pages_Cons_skip)
qed (use assms(6,7) in simp_all)

lemma destroy_lvl_spec:
  assumes "subtree_ok v k f" "pmm_inv (frames v)" "distinct js" "\<forall>i \<in> set js. i < 512"
  shows "torn_down v k f js (destroy_lvl k f js v)"
  using assms
proof (induction k f js v rule: destroy_lvl.induct)
  case (1 k f v)
  then show ?case by (simp add: torn_down_def tabs_def pages_def)
next
  case (2 f j js v)
  let ?e = "rd v f (of_nat j)"
  have j: "j < 512" "j \<notin> set js" "\<forall>i \<in> set js. i < 512" using "2.prems" by auto
  have f: "frame_aligned f" by (rule subtree_root [OF "2.prems"(1)])
  show ?case
  proof (cases "present ?e")
    case False
    have "torn_down v 0 f js (destroy_lvl 0 f js v)"
      by (rule "2.IH"(1)) (use False "2.prems" in auto)
    with False show ?thesis by (simp add: Let_def torn_down_skip [OF "2.prems"(1) j "2.prems"(2)])
  next
    case True
    let ?u = "free_if_owned v (?e AND PAGE_MASK)"
    let ?v1 = "wr ?u f (of_nat j) 0"
    have r: "rd ?v1 h i = (if h = f \<and> i = of_nat j then 0 else rd v h i)" if "frame_aligned h" "i < 512" for h i
      using rd_wr [OF f that(1) idx_of_nat(1) [OF j(1)] that(2)] "2.prems"(2) by simp
    have "torn_down v 0 f (j # js) (destroy_lvl 0 f js ?v1)"
    proof (rule torn_down_Cons [OF "2.prems"(1) j])
      show "pmm_inv (frames ?v1)" using vmm_free_owns(1) [OF "2.prems"(2)] by simp
      show "pmm_owns_page (frames ?v1) b \<longleftrightarrow>
          pmm_owns_page (frames v) b \<and> \<not> (b \<in> tabs v 0 f [j] \<union> pages v 0 f [j] \<and> 0x4800000 \<le> b)" for b
        using vmm_free_owns(2) [OF "2.prems"(2)] True
        by (simp add: pages_Cons_leaf) (simp add: tabs_def pages_def)
      show "\<not> present (rd ?v1 f (of_nat j))" using r [OF f] idx_of_nat(1) [OF j(1)] by simp
      assume "subtree_ok ?v1 0 f"
      then show "torn_down ?v1 0 f js (destroy_lvl 0 f js ?v1)"
        by (intro "2.IH"(2) [OF refl _ _ _ _ _]) (use True "2.prems" vmm_free_owns(1) [OF "2.prems"(2)] in auto)
    qed (use r in auto)
    with True show ?thesis by (simp add: Let_def)
  qed
next
  case (3 k f j js v)
  let ?e = "rd v f (of_nat j)"
  have j: "j < 512" "j \<notin> set js" "\<forall>i \<in> set js. i < 512" using "3.prems" by auto
  have f: "frame_aligned f" by (rule subtree_root [OF "3.prems"(1)])
  have nil: "tabs v (Suc k) f [] = {}" "pages v (Suc k) f [] = {}" by (simp_all add: tabs_def pages_def)
  show ?case
  proof (cases "present ?e")
    case False
    have "torn_down v (Suc k) f js (destroy_lvl (Suc k) f js v)"
      by (rule "3.IH"(1)) (use False "3.prems" in auto)
    with False show ?thesis by (simp add: Let_def torn_down_skip [OF "3.prems"(1) j "3.prems"(2)])
  next
    case True
    show ?thesis
    proof (cases "huge ?e")
      case huge: True
      let ?v1 = "wr v f (of_nat j) 0"
      have r: "rd ?v1 h i = (if h = f \<and> i = of_nat j then 0 else rd v h i)" if "frame_aligned h" "i < 512" for h i
        by (rule rd_wr [OF f that(1) idx_of_nat(1) [OF j(1)] that(2)])
      have "torn_down v (Suc k) f (j # js) (destroy_lvl (Suc k) f js ?v1)"
      proof (rule torn_down_Cons [OF "3.prems"(1) j])
        show "pmm_owns_page (frames ?v1) b \<longleftrightarrow>
            pmm_owns_page (frames v) b \<and> \<not> (b \<in> tabs v (Suc k) f [j] \<union> pages v (Suc k) f [j] \<and> 0x4800000 \<le> b)" for b
          using huge nil by (simp add: tabs_Cons_skip pages_Cons_skip)
        show "\<not> present (rd ?v1 f (of_nat j))" using r [OF f] idx_of_nat(1) [OF j(1)] by simp
        assume "subtree_ok ?v1 (Suc k) f"
        then show "torn_down ?v1 (Suc k) f js (destroy_lvl (Suc k) f js ?v1)"
          by (intro "3.IH"(2) [OF refl]) (use True huge "3.prems" in auto)
      qed (use r "3.prems"(2) in auto)
      with True huge show ?thesis by (simp add: Let_def)
    next
      case table: False
      let ?g = "?e AND PAGE_MASK"
      let ?u = "destroy_lvl k ?g [0..<512] v"
      let ?v1 = "wr (free_if_owned ?u ?g) f (of_nat j) 0"
      have sub: "subtree_ok v k ?g" by (rule subtree_child [OF "3.prems"(1) True table idx_of_nat(1) [OF j(1)]])
      have td: "torn_down v k ?g [0..<512] ?u"
        by (rule "3.IH"(3) [OF refl]) (use True table sub "3.prems"(2) in \<open>simp_all only: distinct_upt set_upt not_not\<close>, simp_all)
      then have inv: "pmm_inv (frames ?u)" by (simp add: torn_down_def)
      have T: "tabs v (Suc k) f [j] = insert ?g (tabs v k ?g [0..<512])"
          "pages v (Suc k) f [j] = pages v k ?g [0..<512]"
        using tabs_Cons_table [OF True table, of k "[]"] pages_Cons_table [OF True table, of k "[]"] nil by blast+
      have r: "rd ?v1 h i = (if h = f \<and> i = of_nat j then 0 else rd ?u h i)" if "frame_aligned h" "i < 512" for h i
        using rd_wr [OF f that(1) idx_of_nat(1) [OF j(1)] that(2)] inv by simp
      have "torn_down v (Suc k) f (j # js) (destroy_lvl (Suc k) f js ?v1)"
      proof (rule torn_down_Cons [OF "3.prems"(1) j])
        show "pmm_inv (frames ?v1)" using vmm_free_owns(1) [OF inv] by simp
        show "pmm_owns_page (frames ?v1) b \<longleftrightarrow>
            pmm_owns_page (frames v) b \<and> \<not> (b \<in> tabs v (Suc k) f [j] \<union> pages v (Suc k) f [j] \<and> 0x4800000 \<le> b)" for b
          unfolding T frames_wr vmm_free_owns(2) [OF inv] using td unfolding torn_down_def by blast
        show "rd ?v1 h i = rd v h i"
          if "frame_aligned h" "i < 512" "h \<notin> tabs v (Suc k) f [j]" "(h, i) \<noteq> (f, of_nat j)" for h i
          using r [OF that(1,2)] that td unfolding T torn_down_def by auto
        show "\<not> present (rd ?v1 f (of_nat j))" using r [OF f] idx_of_nat(1) [OF j(1)] by simp
        assume "subtree_ok ?v1 (Suc k) f"
        then show "torn_down ?v1 (Suc k) f js (destroy_lvl (Suc k) f js ?v1)"
          by (intro "3.IH"(4) [OF refl])
            (use True table "3.prems" vmm_free_owns(1) [OF inv] in \<open>auto simp del: upt_rec_numeral\<close>)
      qed
      with True table show ?thesis by (simp add: Let_def del: upt_rec_numeral)
    qed
  qed
qed

section \<open>Properties of address spaces\<close>

text \<open>The user half of a root: its tables and the frames of its pages.\<close>

definition user_tables :: "vmm_state \<Rightarrow> u64 \<Rightarrow> u64 set" where
  "user_tables v root = tabs v 3 root [0..<256]"

definition user_pages :: "vmm_state \<Rightarrow> u64 \<Rightarrow> u64 set" where
  "user_pages v root = pages v 3 root [0..<256]"

lemma teardown_spec:
  assumes tree: "tree_ok v root"
  shows "torn_down v 3 root [0..<256] (destroy_pml4 root [0..<256] v)"
  unfolding destroy_levels
  by (rule destroy_lvl_spec [OF tree_subtree [OF tree] tree_pmm [OF tree] distinct_upt])
    (simp only: set_upt atLeastLessThan_iff, simp)

text \<open>Every path through a kernel-half entry keeps its translation.\<close>

lemma teardown_kernel_half:
  assumes tree: "tree_ok v root" and td: "torn_down v 3 root [0..<256] v'"
    and q: "idx_ok q" "length q = 4" "256 \<le> unat (hd q)"
  shows "walk v' root q = walk v root q"
proof (rule walk_cong)
  fix r j s g
  assume r: "q = r @ j # s" "node v root r = Some g"
  have len: "length r \<le> 3" "idx_ok r" "j < 512" using q(1,2) r(1) by auto
  have al: "frame_aligned g" by (rule tree_aligned [OF tree len(1,2) r(2)])
  have "g \<notin> tabs v 3 root [0..<256]"
  proof
    assume "g \<in> tabs v 3 root [0..<256]"
    then obtain i p where p: "i < 256" "idx_ok p" "length p < 3" "node v root (of_nat i # p) = Some g"
      unfolding tabs_def set_upt by auto
    have "of_nat i # p = r"
      by (rule tree_inj [OF tree _ len(1) _ len(2) p(4) r(2)]) (use p idx_of_nat(1) [of i] in simp_all)
    then have "unat (hd q) = i" using r(1) p(1) by auto
    with q(3) p(1) show False by simp
  qed
  moreover have "unat j \<notin> set [0..<256]" if "g = root"
  proof -
    have "r = []" using tree_inj [OF tree len(1) _ len(2) _ r(2), of "[]"] that by simp
    then show ?thesis using q(3) r(1) unfolding set_upt by simp
  qed
  ultimately show "rd v' g j = rd v g j"
    using td al len(3) unfolding torn_down_def by blast
qed

text \<open>
  C7. \<open>vmm_destroy_address_space\<close> is complete and safe: afterwards no user-half address
  translates, every kernel-half address translates as before, and the frames given back are
  exactly the user half's tables and 4 KiB pages (and the root when asked) that the
  allocator had handed out; every other frame keeps its owner.
\<close>

theorem vmm_destroy_address_space_correct:
  assumes "tree_ok v root" "v' = vmm_destroy_address_space v root free_pml4"
  shows "(\<forall>q. idx_ok q \<longrightarrow> length q = 4 \<longrightarrow>
       walk v' root q = (if unat (hd q) < 256 then Unmapped else walk v root q)) \<and>
    pmm_inv (frames v') \<and>
    (\<forall>b. pmm_owns_page (frames v') b \<longleftrightarrow>
       pmm_owns_page (frames v) b \<and>
       \<not> (b \<in> user_tables v root \<union> user_pages v root \<union> (if free_pml4 then {root} else {}) \<and> 0x4800000 \<le> b))"
proof -
  let ?u = "destroy_pml4 root [0..<256] v"
  note td = teardown_spec [OF assms(1)]
  have inv: "pmm_inv (frames ?u)" using td unfolding torn_down_def by blast
  have "root \<noteq> 0" using tree_owned [OF assms(1), of "[]"] by (auto simp: pmm_owns_page_def)
  then have v': "v' = (if free_pml4 then free_if_owned ?u root else ?u)"
    using assms(2) unfolding vmm_destroy_address_space_def Let_def by (simp del: upt_rec_numeral)
  have mem: "rd v' = rd ?u" using v' rd_free [OF inv, of root] by simp
  then have w: "walk v' root q = walk ?u root q" for q by (intro walk_cong) simp
  have "walk ?u root q = Unmapped" if q: "idx_ok q" "length q = 4" "unat (hd q) < 256" for q
  proof -
    obtain i r where ir: "q = i # r" using q(2) by (cases q) auto
    have "unat i \<in> set [0..<256]" using q(3) ir unfolding set_upt by simp
    then have "\<not> present (rd ?u root (of_nat (unat i)))" using td unfolding torn_down_def by blast
    then have "\<not> present (rd ?u root i)" by simp
    with ir q(2) show ?thesis by (cases r) simp_all
  qed
  with w teardown_kernel_half [OF assms(1) td] have
    "\<forall>q. idx_ok q \<longrightarrow> length q = 4 \<longrightarrow> walk v' root q = (if unat (hd q) < 256 then Unmapped else walk v root q)"
    by (simp del: upt_rec_numeral)
  moreover have "pmm_inv (frames v')" using v' inv vmm_free_owns(1) [OF inv] by simp
  moreover have "pmm_owns_page (frames v') b \<longleftrightarrow> pmm_owns_page (frames v) b \<and>
      \<not> (b \<in> user_tables v root \<union> user_pages v root \<union> (if free_pml4 then {root} else {}) \<and> 0x4800000 \<le> b)" for b
    using td vmm_free_owns(2) [OF inv, of root b]
    unfolding v' torn_down_def user_tables_def user_pages_def by (cases free_pml4) auto
  ultimately show ?thesis by blast
qed

theorem vmm_destroy_address_space_correct_witness:
  "\<exists>s. pmm_init_dynamic small_memmap = Some s \<and>
     pmm_inv (frames (vmm_destroy_address_space (empty_vmm s) 0x1000 False)) \<and>
     pmm_owns_page (frames (vmm_destroy_address_space (empty_vmm s) 0x1000 True)) 0x1000"
proof -
  obtain s where s: "pmm_init_dynamic small_memmap = Some s" "pmm_owns_page s 0x1000"
      "tree_ok (empty_vmm s) 0x1000"
    by (rule empty_vmm_state) blast
  have "frames (empty_vmm s) = s" by (simp add: empty_vmm_def)
  with s vmm_destroy_address_space_correct [OF s(3) refl, of False]
    vmm_destroy_address_space_correct [OF s(3) refl, of True]
  show ?thesis by auto
qed

lemma create_node:
  assumes tree: "tree_ok v kroot"
    and half: "\<And>j. j < 512 \<Longrightarrow> rd v' root j = (if unat j < 256 then 0 else rd v kroot j)"
    and keep: "\<And>a. pmm_owns_page (frames v) (a AND PAGE_MASK) \<Longrightarrow> pmem v' a = pmem v a"
    and q: "idx_ok (i # r)" "length (i # r) \<le> 4"
  shows "node v' root (i # r) = (if unat i < 256 then None else node v kroot (i # r))"
    and "r \<noteq> [] \<Longrightarrow> walk v' root (i # r) = (if unat i < 256 then Unmapped else walk v kroot (i # r))"
proof -
  let ?e = "rd v kroot i" and ?g = "rd v kroot i AND PAGE_MASK"
  have i: "rd v' root i = (if unat i < 256 then 0 else ?e)" using half q(1) by simp
  have same: "rd v' h j = rd v h j"
    if "present ?e" "\<not> huge ?e" "r = r1 @ j # s" "node v ?g r1 = Some h" for r1 j s h
  proof -
    have n: "node v kroot (i # r1) = Some h" using that by simp
    have len: "length (i # r1) \<le> 3" "idx_ok (i # r1)" "j < 512" using q that(3) by auto
    have "frame_aligned h" by (rule tree_aligned [OF tree len(1,2) n])
    then show ?thesis
      unfolding rd_def using keep tree_owned [OF tree len(1,2) n] len(3) by (simp add: page_of_ent)
  qed
  have "node v' ?g r = node v ?g r" "walk v' ?g r = walk v ?g r" if "present ?e" "\<not> huge ?e"
    using same [OF that] by (blast intro: node_cong walk_cong)+
  with i show "node v' root (i # r) = (if unat i < 256 then None else node v kroot (i # r))"
    and "r \<noteq> [] \<Longrightarrow> walk v' root (i # r) = (if unat i < 256 then Unmapped else walk v kroot (i # r))"
    by (auto simp: neq_Nil_conv)
qed

lemma create_tree:
  assumes tree: "tree_ok v kroot" and inv: "pmm_inv (frames v')"
    and fresh: "\<not> pmm_owns_page (frames v) root"
    and own: "\<And>b. pmm_owns_page (frames v') b \<longleftrightarrow> b = root \<or> pmm_owns_page (frames v) b"
    and half: "\<And>j. j < 512 \<Longrightarrow> rd v' root j = (if unat j < 256 then 0 else rd v kroot j)"
    and keep: "\<And>a. pmm_owns_page (frames v) (a AND PAGE_MASK) \<Longrightarrow> pmem v' a = pmem v a"
  shows "tree_ok v' root"
proof -
  have sub: "node v kroot p = Some g \<and> pmm_owns_page (frames v) g"
    if "p \<noteq> []" "length p \<le> 3" "idx_ok p" "node v' root p = Some g" for p g
  proof (cases p)
    case (Cons i r)
    then have "node v kroot p = Some g"
      using create_node(1) [OF tree half keep, of i r] that by (auto split: if_splits)
    with tree_owned [OF tree that(2,3)] show ?thesis by simp
  qed (use that in simp)
  have "p = q" if "length p \<le> 3" "length q \<le> 3" "idx_ok p" "idx_ok q"
      "node v' root p = Some g" "node v' root q = Some g" for p q g
  proof (cases "p = [] \<or> q = []")
    case True
    then have "g = root" using that(5,6) by auto
    with sub [OF _ that(1,3,5)] sub [OF _ that(2,4,6)] fresh True show ?thesis by auto
  next
    case False
    with sub [OF _ that(1,3,5)] sub [OF _ that(2,4,6)] show ?thesis
      using tree_inj [OF tree that(1-4)] by blast
  qed
  moreover have "pmm_owns_page (frames v') g" if "length p \<le> 3" "idx_ok p" "node v' root p = Some g" for p g
    using sub [OF _ that] own that(3) by (cases "p = []") auto
  moreover have "\<not> huge (rd v' root j)" if "j < 512" for j
    using half [OF that] tree that by (auto simp: tree_ok_def)
  ultimately show ?thesis
    unfolding tree_ok_def using inv by blast
qed

text \<open>
  \<open>vmm_create_address_space\<close> returns a fresh frame as the new root: no user-half address
  translates under it, every kernel-half address translates as under the kernel's root,
  and no memory in use before is written. Its tree of tables is again well formed.
\<close>

theorem vmm_create_address_space_correct:
  assumes "tree_ok v kroot" "current_pml4 v = Some kroot"
    and "vmm_create_address_space v = (root, v')" "root \<noteq> PHYS_NULL"
  shows "\<not> pmm_owns_page (frames v) root \<and> pmm_owns_page (frames v') root \<and> tree_ok v' root \<and>
    (\<forall>q. idx_ok q \<longrightarrow> length q = 4 \<longrightarrow>
       walk v' root q = (if unat (hd q) < 256 then Unmapped else walk v kroot q)) \<and>
    (\<forall>a. pmm_owns_page (frames v) (a AND PAGE_MASK) \<longrightarrow> pmem v' a = pmem v a)"
proof -
  note c = create_address_space_spec [OF assms]
  have half: "\<And>j. j < 512 \<Longrightarrow> rd v' root j = (if unat j < 256 then 0 else rd v kroot j)"
    and keep: "\<And>a. pmm_owns_page (frames v) (a AND PAGE_MASK) \<Longrightarrow> pmem v' a = pmem v a"
    using c by blast+
  have "tree_ok v' root"
    by (rule create_tree [OF assms(1) _ _ _ half keep]) (use c in blast)+
  moreover have "walk v' root q = (if unat (hd q) < 256 then Unmapped else walk v kroot q)"
    if q: "idx_ok q" "length q = 4" for q
  proof -
    obtain i j r where "q = i # j # r" using q(2) by (cases q; cases "tl q") auto
    then show ?thesis using create_node(2) [OF assms(1) half keep, of i "j # r"] q by simp
  qed
  ultimately show ?thesis using c by blast
qed

theorem vmm_create_address_space_correct_witness:
  "\<exists>s. pmm_init_dynamic small_memmap = Some s \<and>
     tree_ok (snd (vmm_create_address_space (empty_vmm s))) (fst (vmm_create_address_space (empty_vmm s)))"
proof -
  obtain s where s: "pmm_init_dynamic small_memmap = Some s" "pmm_inv s" "tree_ok (empty_vmm s) 0x1000"
      "4 \<le> pmm_room s"
    by (rule empty_vmm_state) blast
  have v: "current_pml4 (empty_vmm s) = Some 0x1000" "frames (empty_vmm s) = s"
    by (simp_all add: empty_vmm_def)
  have "fst (vmm_create_address_space (empty_vmm s)) \<noteq> PHYS_NULL"
    using alloc_room(1) [OF s(2)] s(4)
    unfolding vmm_create_address_space_def alloc_page_virt_def v
    by (cases "pmm_alloc_page s") (simp del: upt_rec_numeral)
  from vmm_create_address_space_correct [OF s(3) v(1) prod.collapse [symmetric] this] s(1)
  show ?thesis by blast
qed

end
