(* ===== verification/Task_Life.thy ===== *)
theory Task_Life
  imports Sched_Switch User_Heap_Correct Event_Queue Vfs_Correct Page_Teardown
begin

text \<open>
  The life of a task, \<^verbatim>\<open>kernel/sched/lifecycle.c\<close>: the per-CPU stacks, the creation of kernel and of
  ring-3 tasks with their fake interrupt frame, and the exit of a task. The operations compose
  the scheduler, the kernel heap, the user heap, the event queues, the descriptors and the page
  tables. The state holds each component once: the kernel heap is the one inside \<open>kvfs\<close>, the
  page tables the ones inside the heap, \<open>cpu_rsp\<close> is the stack pointer a CPU idles with. A call
  runs without interference between its critical sections; \<open>sched_step\<close> interleaves them.
\<close>

section \<open>State\<close>

abbreviation TASK_STACK_SIZE :: nat where "TASK_STACK_SIZE \<equiv> 16384"
abbreviation SYSCALL_STACK_SIZE :: nat where "SYSCALL_STACK_SIZE \<equiv> 16384"

record kernel =
  ksched :: sched
  kvfs :: vfs
  kevents :: event_state
  kbrk :: "nat \<Rightarrow> u64"
  kregions :: "nat \<Rightarrow> uheap_region list"
  knames :: "nat \<Rightarrow> bytes"
  idle_stack_tops :: "nat \<Rightarrow> u64"
  cpu_rsp :: "nat \<Rightarrow> u64"

abbreviation kernel_heap :: "kernel \<Rightarrow> heap_state" where
  "kernel_heap k \<equiv> vfs_heap (kvfs k)"

definition set_heap :: "kernel \<Rightarrow> heap_state \<Rightarrow> kernel" where
  "set_heap k h = k\<lparr>kvfs := (kvfs k)\<lparr>vfs_heap := h\<rparr>\<rparr>"

text \<open>The interrupt frame in the order of its fields from the lowest address.\<close>

record registers =
  reg_r15 :: u64
  reg_r14 :: u64
  reg_r13 :: u64
  reg_r12 :: u64
  reg_r11 :: u64
  reg_r10 :: u64
  reg_r9 :: u64
  reg_r8 :: u64
  reg_rdi :: u64
  reg_rsi :: u64
  reg_rbp :: u64
  reg_rdx :: u64
  reg_rcx :: u64
  reg_rbx :: u64
  reg_rax :: u64
  int_num :: u64
  error_code :: u64
  reg_rip :: u64
  reg_cs :: u64
  reg_rflags :: u64
  reg_rsp :: u64
  reg_ss :: u64

section \<open>Calls into the other components\<close>

text \<open>Sequencing of calls that may diverge (\<open>None\<close>) or end in a panic.\<close>

definition and_then :: "('a outcome \<times> 's) option \<Rightarrow> ('a \<Rightarrow> 's \<Rightarrow> ('b outcome \<times> 's) option) \<Rightarrow> ('b outcome \<times> 's) option" where
  "and_then r f =
     (case r of
        None \<Rightarrow> None
      | Some (Panic b, s) \<Rightarrow> Some (Panic b, s)
      | Some (Ret x, s) \<Rightarrow> f x s)"

lemma and_then_Ret [simp]: "and_then (Some (Ret x, s)) f = f x s"
  by (simp add: and_then_def)

definition on_heap :: "kernel \<Rightarrow> ('a outcome \<times> heap_state) option \<Rightarrow> ('a outcome \<times> kernel) option" where
  "on_heap k r = map_option (\<lambda>(x, h). (x, set_heap k h)) r"

definition on_vfs :: "kernel \<Rightarrow> ('a outcome \<times> vfs) option \<Rightarrow> ('a outcome \<times> kernel) option" where
  "on_vfs k r = map_option (\<lambda>(x, v). (x, k\<lparr>kvfs := v\<rparr>)) r"

text \<open>\<open>uheap_reset(&tasks[t])\<close>.\<close>

definition utask_of :: "kernel \<Rightarrow> nat \<Rightarrow> utask" where
  "utask_of k t = \<lparr>utask_pml4 = pml4_phys (tasks (ksched k) t), uheap_brk = kbrk k t, uheap_regions = kregions k t,
     kheap = kernel_heap k\<rparr>"

definition reset_uheap :: "kernel \<Rightarrow> nat \<Rightarrow> (unit outcome \<times> kernel) option" where
  "reset_uheap k t =
     map_option (\<lambda>(x, u). (x, (set_heap k (kheap u))\<lparr>kbrk := (kbrk k)(t := uheap_brk u), kregions := (kregions k)(t := uheap_regions u)\<rparr>))
       (uheap_reset (utask_of k t))"

section \<open>Stacks and frames\<close>

definition task_idle_stack_top :: "kernel \<Rightarrow> nat \<Rightarrow> u64" where
  "task_idle_stack_top k cpu = idle_stack_tops k (if cpu \<ge> SMP_MAX_CPUS then 0 else cpu)"

text \<open>The copy loop of \<open>task_strncpy\<close> into an array of \<open>n\<close> bytes; the rest of the array is kept.\<close>

definition task_strncpy :: "bytes \<Rightarrow> bytes \<Rightarrow> nat \<Rightarrow> bytes" where
  "task_strncpy dst src n = (let s = take (n - 1) (takeWhile (\<lambda>c. c \<noteq> 0) src) in s @ [0] @ drop (Suc (length s)) dst)"

text \<open>The two loops of \<open>sched_stacks_init\<close>: \<open>put\<close> stores the top of the stack of one CPU.\<close>

fun alloc_stacks :: "u64 \<Rightarrow> (nat \<Rightarrow> u64 \<Rightarrow> kernel \<Rightarrow> kernel) \<Rightarrow> nat list \<Rightarrow> kernel \<Rightarrow> (unit outcome \<times> kernel) option" where
  "alloc_stacks sz put [] k = Some (Ret (), k)"
| "alloc_stacks sz put (i # is) k =
     and_then (on_heap k (kmalloc (kernel_heap k) sz)) (\<lambda>r k1.
       case r of
         None \<Rightarrow> Some (Panic i, k1)
       | Some s \<Rightarrow> alloc_stacks sz put is (put i ((of_nat s + sz) AND NOT 15) k1))"

definition sched_stacks_init :: "kernel \<Rightarrow> (unit outcome \<times> kernel) option" where
  "sched_stacks_init k =
     and_then (alloc_stacks (of_nat TASK_STACK_SIZE) (\<lambda>i top k. k\<lparr>idle_stack_tops := (idle_stack_tops k)(i := top)\<rparr>) [0..<SMP_MAX_CPUS] k) (\<lambda>_ k1.
     and_then (alloc_stacks (of_nat SYSCALL_STACK_SIZE)
         (\<lambda>i top k. k\<lparr>ksched := (ksched k)\<lparr>syscall_stack_tops := (syscall_stack_tops (ksched k))(i := top)\<rparr>\<rparr>) [0..<SMP_MAX_CPUS] k1) (\<lambda>_ k2.
       Some (Ret (), k2\<lparr>ksched := (ksched k2)\<lparr>rsp0 := (rsp0 (ksched k2))(0 := syscall_stack_tops (ksched k2) 0)\<rparr>\<rparr>)))"

text \<open>
  \<open>tasking_init\<close> with its effects outside the task table. The loops over the table and the CPUs come
  first in the code and only set fields that the allocations do not read.
\<close>

definition boot_tasks :: "kernel \<Rightarrow> u64 \<Rightarrow> (unit outcome \<times> kernel) option" where
  "boot_tasks k boot_cr3 =
     and_then (sched_stacks_init (k\<lparr>kbrk := (\<lambda>t. if t < SCHED_MAX_TASKS then 0 else kbrk k t),
         kregions := (\<lambda>t. if t < SCHED_MAX_TASKS then [] else kregions k t)\<rparr>)) (\<lambda>_ k1.
       Some (Ret (), k1\<lparr>ksched := tasking_init (ksched k) (syscall_stack_tops (ksched k1)) boot_cr3,
         knames := (knames k1)(0 := task_strncpy (knames k1 0) [107, 109, 97, 105, 110] 16)\<rparr>))"

text \<open>Words in memory, lowest byte first, and \<open>*(--p) = w\<close>.\<close>

definition store64 :: "(nat \<Rightarrow> u8) \<Rightarrow> nat \<Rightarrow> u64 \<Rightarrow> (nat \<Rightarrow> u8)" where
  "store64 m a w = (\<lambda>x. if a \<le> x \<and> x < a + 8 then ucast (drop_bit (8 * (x - a)) w) else m x)"

definition load64 :: "(nat \<Rightarrow> u8) \<Rightarrow> nat \<Rightarrow> u64" where
  "load64 m a = foldr (\<lambda>i w. push_bit 8 w OR ucast (m (a + i))) [0..<8] 0"

fun push_words :: "(nat \<Rightarrow> u8) \<Rightarrow> nat \<Rightarrow> u64 list \<Rightarrow> nat \<times> (nat \<Rightarrow> u8)" where
  "push_words m p [] = (p, m)"
| "push_words m p (w # ws) = push_words (store64 m (p - 8) w) (p - 8) ws"

text \<open>The frame in the order in which the code pushes it.\<close>

definition isr_frame :: "u64 \<Rightarrow> u64 \<Rightarrow> u64 \<Rightarrow> u64 \<Rightarrow> u64 \<Rightarrow> u64 list" where
  "isr_frame ss sp cs ip rdi =
     [ss, sp, 0x202, cs, ip,
      0, 0,
      0, 0, 0, 0, 0, 0, rdi, 0, 0, 0, 0, 0, 0, 0, 0]"

text \<open>What \<open>POPA64\<close>, the skip of two words and \<open>iretq\<close> load from the frame at \<open>p\<close>.\<close>

definition resume_frame :: "(nat \<Rightarrow> u8) \<Rightarrow> nat \<Rightarrow> registers" where
  "resume_frame m p =
     (let w = (\<lambda>i. load64 m (p + 8 * i))
      in \<lparr>reg_r15 = w 0, reg_r14 = w 1, reg_r13 = w 2, reg_r12 = w 3, reg_r11 = w 4, reg_r10 = w 5, reg_r9 = w 6, reg_r8 = w 7,
          reg_rdi = w 8, reg_rsi = w 9, reg_rbp = w 10, reg_rdx = w 11, reg_rcx = w 12, reg_rbx = w 13, reg_rax = w 14,
          int_num = w 15, error_code = w 16, reg_rip = w 17, reg_cs = w 18, reg_rflags = w 19, reg_rsp = w 20, reg_ss = w 21\<rparr>)"

section \<open>Creation\<close>

text \<open>
  \<open>create_task_prio\<close> and \<open>create_user_task\<close> differ in the words of the frame, the fields of the
  slot and in \<open>clr\<close>, which tells whether a full run queue also clears \<open>stack_base\<close>. First what
  both do once the frame of the new stack is built at \<open>p\<close>: the slot is chosen, rid of its
  old owner, filled and queued. The result is the slot, or \<open>-1\<close>.
\<close>

definition enter_task :: "kernel \<Rightarrow> nat \<Rightarrow> nat \<Rightarrow> u64 \<Rightarrow> u32 \<Rightarrow> nat \<Rightarrow> task_kind \<Rightarrow> bytes \<Rightarrow> bool \<Rightarrow> nat \<Rightarrow> nat \<Rightarrow> (int outcome \<times> kernel) option" where
  "enter_task k stack p pml4 ck prio kd name clr cpu now =
     (case find_slot (ksched k) of
        (None, _) \<Rightarrow> and_then (on_heap k (kfree (kernel_heap k) (Some stack))) (\<lambda>_ k1. Some (Ret (- 1), k1))
      | (Some slot, s) \<Rightarrow>
          let k1 = k\<lparr>ksched := s\<rparr>
          in and_then (if stack_base (tasks (ksched k1) slot) \<noteq> 0
                       then on_heap k1 (kfree (kernel_heap k1) (Some (unat (stack_base (tasks (ksched k1) slot)))))
                       else Some (Ret (), k1)) (\<lambda>_ k2.
             and_then (reset_uheap k2 slot) (\<lambda>_ k3.
               let k4 = k3\<lparr>kevents := flush_event_queue (kevents k3) (int slot),
                           ksched := fill_slot (ksched k3) slot (of_nat p) (of_nat stack) pml4 ck prio kd,
                           knames := (knames k3)(slot := task_strncpy (knames k3 slot) name 16)\<rparr>;
                   target = pick_target_cpu (ksched k4);
                   (ok, s5) = runq_push (ksched k4) target slot now
               in if \<not> ok
                  then and_then (on_heap (k4\<lparr>ksched := upd_task slot (\<lambda>t. t\<lparr>tstate := TASK_DEAD, rsp := 0,
                           stack_base := (if clr then 0 else stack_base t)\<rparr>) s5\<rparr>) (kfree (kernel_heap k4) (Some stack)))
                         (\<lambda>_ k6. Some (Ret (- 1), k6))
                  else Some (Ret (int slot), k4\<lparr>ksched :=
                         (if target \<noteq> cpu then s5\<lparr>resched := (resched s5)(target := True)\<rparr> else s5)\<rparr>))))"

text \<open>The whole creation: \<open>frame\<close> gives the words to push from the top of the new stack.\<close>

definition new_task :: "kernel \<Rightarrow> (u64 \<Rightarrow> u64 list) \<Rightarrow> u64 \<Rightarrow> u32 \<Rightarrow> nat \<Rightarrow> task_kind \<Rightarrow> bytes \<Rightarrow> bool \<Rightarrow> nat \<Rightarrow> nat \<Rightarrow> (int outcome \<times> kernel) option" where
  "new_task k frame pml4 ck prio kd name clr cpu now =
     and_then (on_heap k (kmalloc (kernel_heap k) (of_nat TASK_STACK_SIZE))) (\<lambda>r k1.
       case r of
         None \<Rightarrow> Some (Ret (- 1), k1)
       | Some stack \<Rightarrow>
           let h = kernel_heap k1;
               top = stack + TASK_STACK_SIZE;
               (p, m) = push_words (memset stack 0 TASK_STACK_SIZE (hbytes h)) top (frame (of_nat top))
           in enter_task (set_heap k1 (h\<lparr>hbytes := m\<rparr>)) stack p pml4 ck prio kd name clr cpu now)"

text \<open>\<open>trampoline\<close> is the address of \<open>task_entry_trampoline\<close>; a null name becomes \<open>task\<close> or \<open>app\<close>.\<close>

definition create_task_prio :: "kernel \<Rightarrow> u64 \<Rightarrow> u64 \<Rightarrow> bytes option \<Rightarrow> nat \<Rightarrow> nat \<Rightarrow> nat \<Rightarrow> (int outcome \<times> kernel) option" where
  "create_task_prio k trampoline func name prio cpu now =
     new_task k (\<lambda>top. isr_frame 0x10 top 0x08 trampoline func) PHYS_NULL 0 prio TASK_KIND_KERNEL
       (case name of None \<Rightarrow> [116, 97, 115, 107] | Some nm \<Rightarrow> nm) False cpu now"

definition create_task :: "kernel \<Rightarrow> u64 \<Rightarrow> u64 \<Rightarrow> bytes option \<Rightarrow> nat \<Rightarrow> nat \<Rightarrow> (int outcome \<times> kernel) option" where
  "create_task k trampoline func name cpu now = create_task_prio k trampoline func name 1 cpu now"

definition create_user_task :: "kernel \<Rightarrow> u64 \<Rightarrow> u64 \<Rightarrow> u64 \<Rightarrow> u32 \<Rightarrow> bytes option \<Rightarrow> nat \<Rightarrow> nat \<Rightarrow> (int outcome \<times> kernel) option" where
  "create_user_task k entry_rip user_rsp pml4 ck name cpu now =
     new_task k (\<lambda>top. isr_frame 0x23 user_rsp 0x1B entry_rip 0) pml4 ck 1 TASK_KIND_SPAWNED
       (case name of None \<Rightarrow> [97, 112, 112] | Some nm \<Rightarrow> nm) True cpu now"

section \<open>Exit\<close>

text \<open>
  \<open>task_exit_via_idle\<close> loads the stack pointer of the idle stack and jumps here; the loop that
  follows never returns, \<open>idle_round\<close> is its first round.
\<close>

definition task_exit_finish_on_idle :: "kernel \<Rightarrow> u64 \<Rightarrow> nat \<Rightarrow> (unit outcome \<times> kernel) option" where
  "task_exit_finish_on_idle k old_stack cpu =
     and_then (if old_stack \<noteq> 0 then on_heap k (kfree (kernel_heap k) (Some (unat old_stack))) else Some (Ret (), k)) (\<lambda>_ k1.
       Some (Ret (), k1\<lparr>ksched := idle_round (ksched k1) cpu\<rparr>))"

definition task_exit :: "kernel \<Rightarrow> nat \<Rightarrow> (unit outcome \<times> kernel) option" where
  "task_exit k cpu =
     (let me = (case smp_current_task_id (ksched k) cpu of None \<Rightarrow> - 1 | Some t \<Rightarrow> int t)
      in and_then (on_vfs k (vfs_close_all (kvfs k) me)) (\<lambda>_ k1.
           let k2 = k1\<lparr>kevents := flush_event_queue (kevents k1) me\<rparr>;
               (old_stack, dead_pml4, s) = exit_mark (ksched k2) cpu
           in and_then (case smp_current_task_id (ksched k2) cpu of
                          None \<Rightarrow> Some (Ret (), k2)
                        | Some cur \<Rightarrow> if 0 < cur \<and> cur < task_count (ksched k2) then reset_uheap k2 cur else Some (Ret (), k2)) (\<lambda>_ k3.
                let k4 = k3\<lparr>ksched := s\<rparr>;
                    h = kernel_heap k4;
                    k5 = (if dead_pml4 \<noteq> PHYS_NULL
                          then set_heap k4 (h\<lparr>vm := vmm_destroy_address_space (vm h) dead_pml4 True\<rparr>) else k4)
                in task_exit_finish_on_idle (k5\<lparr>cpu_rsp := (cpu_rsp k5)(cpu := task_idle_stack_top k5 cpu)\<rparr>) old_stack cpu)))"

end
