(* ===== verification/Elf_Loader.thy ===== *)
theory Elf_Loader
  imports Task_Life
begin

text \<open>
  The program loader \<^verbatim>\<open>kernel/elf.c\<close>: it reads a file into a heap buffer, checks the headers, maps and
  fills the segments of an ELF64 image in the target address space and gives it a zeroed stack;
  the old ELF32 path is kept as the code has it. The state is the kernel heap with its page tables;
  user bytes are the virtual bytes under the target's tables, as in the model of the user heap.
  A page that is mapped to a fresh frame shows what the frame held: \<open>dirt\<close> gives the bytes
  left in a frame.
\<close>

section \<open>Headers\<close>

abbreviation USER_STACK_SIZE :: u64 where "USER_STACK_SIZE \<equiv> 0x40000"
abbreviation USER_STACK_TOP :: u64 where "USER_STACK_TOP \<equiv> 0x0C000000"
abbreviation ELFCLASS32 :: u8 where "ELFCLASS32 \<equiv> 1"
abbreviation ELFCLASS64 :: u8 where "ELFCLASS64 \<equiv> 2"

definition load16 :: "(nat \<Rightarrow> u8) \<Rightarrow> nat \<Rightarrow> u16" where
  "load16 m a = foldr (\<lambda>i w. push_bit 8 w OR ucast (m (a + i))) [0..<2] 0"

definition load32 :: "(nat \<Rightarrow> u8) \<Rightarrow> nat \<Rightarrow> u32" where
  "load32 m a = foldr (\<lambda>i w. push_bit 8 w OR ucast (m (a + i))) [0..<4] 0"

text \<open>The fields the loader reads, at their offsets in the packed structures.\<close>

record elf64_ehdr =
  e_entry :: u64
  e_phoff :: u64
  e_phnum :: u16

definition ehdr64_at :: "(nat \<Rightarrow> u8) \<Rightarrow> nat \<Rightarrow> elf64_ehdr" where
  "ehdr64_at m a = \<lparr>e_entry = load64 m (a + 24), e_phoff = load64 m (a + 32), e_phnum = load16 m (a + 56)\<rparr>"

record elf64_phdr =
  p_type :: u32
  p_offset :: u64
  p_vaddr :: u64
  p_filesz :: u64
  p_memsz :: u64

definition phdr64_at :: "(nat \<Rightarrow> u8) \<Rightarrow> nat \<Rightarrow> elf64_phdr" where
  "phdr64_at m a = \<lparr>p_type = load32 m a, p_offset = load64 m (a + 8), p_vaddr = load64 m (a + 16),
     p_filesz = load64 m (a + 32), p_memsz = load64 m (a + 40)\<rparr>"

record elf32_ehdr =
  e32_entry :: u32
  e32_phoff :: u32
  e32_phnum :: u16

definition ehdr32_at :: "(nat \<Rightarrow> u8) \<Rightarrow> nat \<Rightarrow> elf32_ehdr" where
  "ehdr32_at m a = \<lparr>e32_entry = load32 m (a + 24), e32_phoff = load32 m (a + 28), e32_phnum = load16 m (a + 44)\<rparr>"

record elf32_phdr =
  p32_type :: u32
  p32_offset :: u32
  p32_vaddr :: u32
  p32_filesz :: u32
  p32_memsz :: u32

definition phdr32_at :: "(nat \<Rightarrow> u8) \<Rightarrow> nat \<Rightarrow> elf32_phdr" where
  "phdr32_at m a = \<lparr>p32_type = load32 m a, p32_offset = load32 m (a + 4), p32_vaddr = load32 m (a + 8),
     p32_filesz = load32 m (a + 16), p32_memsz = load32 m (a + 20)\<rparr>"

text \<open>A bare name is looked for in \<^verbatim>\<open>/apps/\<close>, cut to the 71 characters of the local array.\<close>

definition elf_path :: "bytes \<Rightarrow> bytes" where
  "elf_path fname =
     (if fname \<noteq> [] \<and> hd fname = 47 then fname
      else take 71 ([47, 97, 112, 112, 115, 47] @ fname))"

section \<open>Segments\<close>

text \<open>A fresh page appears at \<open>va\<close> with the contents of its frame.\<close>

definition show_page :: "(nat \<Rightarrow> u8) \<Rightarrow> u64 \<Rightarrow> (nat \<Rightarrow> u8) \<Rightarrow> (nat \<Rightarrow> u8)" where
  "show_page m va f = (\<lambda>a. if unat va \<le> a \<and> a < unat va + 4096 then f (a - unat va) else m a)"

text \<open>\<open>vmm_alloc_page_into(va, 7, target_pml4)\<close> as the loader sees it.\<close>

definition alloc_user_page :: "(u64 \<Rightarrow> nat \<Rightarrow> u8) \<Rightarrow> heap_state \<Rightarrow> u64 \<Rightarrow> u64 \<Rightarrow> bool \<times> heap_state" where
  "alloc_user_page dirt h va tgt =
     (let (ok, v) = vmm_alloc_page_into (vm h) va 7 tgt
      in (ok, if ok then h\<lparr>vm := v, hbytes := show_page (hbytes h) va (dirt (fst (pmm_alloc_page (frames (vm h)))))\<rparr>
              else h\<lparr>vm := v\<rparr>))"

text \<open>The loop over the pages of an ELF64 segment; the counter wraps.\<close>

partial_function (option) map_segment :: "(u64 \<Rightarrow> nat \<Rightarrow> u8) \<Rightarrow> u64 \<Rightarrow> u64 \<Rightarrow> u64 \<Rightarrow> heap_state \<Rightarrow> (bool \<times> heap_state) option" where
  "map_segment dirt tgt seg_end page h =
     (if page < seg_end then
        if paging_is_mapped_into (vm h) page tgt then map_segment dirt tgt seg_end (page + 4096) h
        else
          let (ok, h1) = alloc_user_page dirt h page tgt
          in if \<not> ok then Some (False, h1) else map_segment dirt tgt seg_end (page + 4096) h1
      else Some (True, h))"

text \<open>The loop over the program headers; their number is read again in each round. \<open>False\<close> is one of the
  error exits.\<close>

partial_function (option) load_segments64 :: "(u64 \<Rightarrow> nat \<Rightarrow> u8) \<Rightarrow> u64 \<Rightarrow> nat \<Rightarrow> u32 \<Rightarrow> u64 \<Rightarrow> nat \<Rightarrow> heap_state \<Rightarrow> (bool \<times> heap_state) option" where
  "load_segments64 dirt tgt buf fsize phoff i h =
     (if i \<ge> unat (e_phnum (ehdr64_at (hbytes h) buf)) then Some (True, h)
      else
      let ph = phdr64_at (hbytes h) (buf + unat phoff + 56 * i)
      in if p_type ph \<noteq> 1 then load_segments64 dirt tgt buf fsize phoff (Suc i) h
         else if p_memsz ph > 0xFFFFFFFFFFFFFFFF - p_vaddr ph then Some (False, h)
         else if p_offset ph > ucast fsize \<or> p_filesz ph > ucast fsize - p_offset ph then Some (False, h)
         else
           (case map_segment dirt tgt (p_vaddr ph + p_memsz ph) (p_vaddr ph AND PAGE_MASK) h of
              None \<Rightarrow> None
            | Some (ok, h1) \<Rightarrow>
                if \<not> ok then Some (False, h1) else
                let m1 = memcpy (unat (p_vaddr ph)) (buf + unat (p_offset ph)) (unat (ucast (p_filesz ph) :: u32)) (hbytes h1);
                    m2 = (if p_memsz ph > p_filesz ph
                          then memset (unat (p_vaddr ph + p_filesz ph)) 0 (unat (ucast (p_memsz ph - p_filesz ph) :: u32)) m1
                          else m1)
                in load_segments64 dirt tgt buf fsize phoff (Suc i) (h1\<lparr>hbytes := m2\<rparr>)))"

text \<open>One page for each block of 4 MiB, in 32 bits.\<close>

partial_function (option) map_blocks32 :: "(u64 \<Rightarrow> nat \<Rightarrow> u8) \<Rightarrow> u64 \<Rightarrow> u32 \<Rightarrow> u32 \<Rightarrow> heap_state \<Rightarrow> (bool \<times> heap_state) option" where
  "map_blocks32 dirt tgt seg_end block h =
     (if block < seg_end then
        let (ok, h1) = alloc_user_page dirt h (ucast block) tgt
        in if \<not> ok then Some (False, h1) else map_blocks32 dirt tgt seg_end (block + 0x400000) h1
      else Some (True, h))"

partial_function (option) load_segments32 :: "(u64 \<Rightarrow> nat \<Rightarrow> u8) \<Rightarrow> u64 \<Rightarrow> nat \<Rightarrow> u32 \<Rightarrow> u32 \<Rightarrow> nat \<Rightarrow> heap_state \<Rightarrow> (bool \<times> heap_state) option" where
  "load_segments32 dirt tgt buf fsize phoff i h =
     (if i \<ge> unat (e32_phnum (ehdr32_at (hbytes h) buf)) then Some (True, h)
      else
      let ph = phdr32_at (hbytes h) (buf + unat phoff + 32 * i)
      in if p32_type ph \<noteq> 1 then load_segments32 dirt tgt buf fsize phoff (Suc i) h
         else if p32_offset ph > fsize \<or> p32_filesz ph > fsize - p32_offset ph then Some (False, h)
         else
           (case map_blocks32 dirt tgt (p32_vaddr ph + p32_memsz ph) (p32_vaddr ph AND 0xFFC00000) h of
              None \<Rightarrow> None
            | Some (ok, h1) \<Rightarrow>
                if \<not> ok then Some (False, h1) else
                let m1 = memcpy (unat (p32_vaddr ph)) (buf + unat (p32_offset ph)) (unat (p32_filesz ph)) (hbytes h1);
                    m2 = (if p32_memsz ph > p32_filesz ph
                          then memset (unat (p32_vaddr ph) + unat (p32_filesz ph)) 0 (unat (p32_memsz ph - p32_filesz ph)) m1
                          else m1)
                in load_segments32 dirt tgt buf fsize phoff (Suc i) (h1\<lparr>hbytes := m2\<rparr>)))"

section \<open>The loader\<close>

text \<open>\<open>kfree(file_buffer)\<close> on the way to the return value \<open>r\<close>: entry point and stack top.\<close>

definition elf_free :: "heap_state \<Rightarrow> nat \<Rightarrow> 'a \<Rightarrow> ('a outcome \<times> heap_state) option" where
  "elf_free h buf r = and_then (kfree h (Some buf)) (\<lambda>_ h1. Some (Ret r, h1))"

definition load_elf64 :: "(u64 \<Rightarrow> nat \<Rightarrow> u8) \<Rightarrow> heap_state \<Rightarrow> nat \<Rightarrow> u32 \<Rightarrow> bool \<Rightarrow> u64 \<Rightarrow> ((u64 \<times> u64) outcome \<times> heap_state) option" where
  "load_elf64 dirt h buf fsize want_stack tgt =
     (let hdr = ehdr64_at (hbytes h) buf
      in if tgt = PHYS_NULL then elf_free h buf (0, 0)
         else if e_phoff hdr > ucast fsize \<or> ucast (e_phnum hdr) * 56 > ucast fsize - e_phoff hdr then elf_free h buf (0, 0)
         else
           (case load_segments64 dirt tgt buf fsize (e_phoff hdr) 0 h of
              None \<Rightarrow> None
            | Some (False, h1) \<Rightarrow> elf_free h1 buf (0, 0)
            | Some (True, h1) \<Rightarrow>
                let entry = e_entry (ehdr64_at (hbytes h1) buf)
                in and_then (elf_free h1 buf ()) (\<lambda>_ h2.
                     if want_stack then
                       (case map_user_pages 64 h2 tgt (USER_STACK_TOP - USER_STACK_SIZE) 0 of
                          (Some _, h3) \<Rightarrow> Some (Ret (0, 0), h3)
                        | (None, h3) \<Rightarrow> Some (Ret (entry, USER_STACK_TOP), h3))
                     else Some (Ret (entry, 0), h2))))"

text \<open>The entry point of the ELF32 path is read after the buffer was freed.\<close>

definition load_elf32 :: "(u64 \<Rightarrow> nat \<Rightarrow> u8) \<Rightarrow> heap_state \<Rightarrow> nat \<Rightarrow> u32 \<Rightarrow> u64 \<Rightarrow> ((u64 \<times> u64) outcome \<times> heap_state) option" where
  "load_elf32 dirt h buf fsize tgt =
     (let hdr = ehdr32_at (hbytes h) buf
      in if tgt = PHYS_NULL then elf_free h buf (0, 0)
         else if e32_phoff hdr > fsize \<or> (ucast (e32_phnum hdr) * 32 :: u64) > ucast (fsize - e32_phoff hdr) then elf_free h buf (0, 0)
         else
           (case load_segments32 dirt tgt buf fsize (e32_phoff hdr) 0 h of
              None \<Rightarrow> None
            | Some (False, h1) \<Rightarrow> elf_free h1 buf (0, 0)
            | Some (True, h1) \<Rightarrow>
                and_then (elf_free h1 buf ()) (\<lambda>_ h2. Some (Ret (ucast (e32_entry (ehdr32_at (hbytes h2) buf)), 0), h2))))"

text \<open>\<open>want_stack\<close> tells whether \<open>out_stack_top\<close> is not null; the second result is what is stored there.\<close>

definition elf_load_file :: "(u64 \<Rightarrow> nat \<Rightarrow> u8) \<Rightarrow> heap_state \<Rightarrow> kfs \<Rightarrow> bytes \<Rightarrow> bool \<Rightarrow> u64 \<Rightarrow> ((u64 \<times> u64) outcome \<times> heap_state) option" where
  "elf_load_file dirt h fs fname want_stack tgt =
     (let path = elf_path fname
      in case kfs_get_file_size fs path of
           None \<Rightarrow> None
         | Some fsize \<Rightarrow>
             if fsize = 0 then Some (Ret (0, 0), h)
             else
               and_then (kmalloc h (ucast fsize)) (\<lambda>r h1.
                 case r of
                   None \<Rightarrow> Some (Ret (0, 0), h1)
                 | Some buf \<Rightarrow>
                     (case kfs_read_to_buffer fs path fsize of
                        None \<Rightarrow> None
                      | Some got \<Rightarrow>
                          let h2 = (case got of None \<Rightarrow> h1 | Some data \<Rightarrow> h1\<lparr>hbytes := put_bytes (hbytes h1) buf data\<rparr>);
                              b = hbytes h2
                          in if b buf \<noteq> 0x7F \<or> b (buf + 1) \<noteq> 69 \<or> b (buf + 2) \<noteq> 76 \<or> b (buf + 3) \<noteq> 70 then elf_free h2 buf (0, 0)
                             else if b (buf + 4) = ELFCLASS64 then load_elf64 dirt h2 buf fsize want_stack tgt
                             else if b (buf + 4) = ELFCLASS32 then load_elf32 dirt h2 buf fsize tgt
                             else elf_free h2 buf (0, 0))))"

end
