(* ===== verification/Task_Life_Correct.thy ===== *)
theory Task_Life_Correct
  imports Task_Life
begin

text \<open>
  What task creation and exit promise: the frame of a new task resumes where the caller asked,
  its stack is a heap region of its own, a slot is never shared, and an exiting task gives back
  its descriptors, events, user heap, address space and stack exactly once.
\<close>

section \<open>Frames\<close>

lemma bit_load64: "bit (load64 m a) n \<longleftrightarrow> n < 64 \<and> bit (m (a + n div 8)) (n mod 8)"
proof -
  have fold: "bit (foldr (\<lambda>i w. push_bit 8 w OR ucast (m (a + i))) [i..<i + l] (0 :: u64)) n \<longleftrightarrow>
      n < 64 \<and> n div 8 < l \<and> bit (m (a + i + n div 8)) (n mod 8)" for i l n
  proof (induction l arbitrary: i n)
    case (Suc l)
    have u: "[i..<i + Suc l] = i # [Suc i..<Suc i + l]" by (simp add: upt_conv_Cons)
    have b: "bit (ucast (m (a + i)) :: u64) n \<longleftrightarrow> n < 8 \<and> bit (m (a + i)) n"
      by (auto simp: bit_simps dest: bit_imp_le_length)
    show ?case
    proof (cases "n < 8")
      case True
      then show ?thesis using b unfolding u by (simp add: bit_simps)
    next
      case False
      then have d: "n div 8 = Suc ((n - 8) div 8)" "n mod 8 = (n - 8) mod 8" by (simp_all add: le_div_geq le_mod_geq)
      have "(n - 8) < 64" if "n < 64" using that by simp
      then show ?thesis using False b Suc [of "Suc i" "n - 8"] d unfolding u by (auto simp: bit_simps)
    qed
  qed simp
  have "n div 8 < 8 \<longleftrightarrow> n < 64" by auto
  then show ?thesis unfolding load64_def using fold [of 0 8 n] by simp
qed

lemma load_store [simp]: "load64 (store64 m a w) a = w"
proof (rule bit_eqI)
  fix n
  assume "possible_bit TYPE(u64) n"
  then have n: "n < 64" by simp
  have "a \<le> a + n div 8 \<and> a + n div 8 < a + 8" using n by linarith
  then have "store64 m a w (a + n div 8) = ucast (drop_bit (8 * (n div 8)) w)"
    unfolding store64_def by (simp only: if_True simp_thms diff_add_inverse)
  then show "bit (load64 (store64 m a w) a) n = bit w n" unfolding bit_load64 using n by (simp add: bit_simps)
qed

lemma load_store_other: "b + 8 \<le> a \<or> a + 8 \<le> b \<Longrightarrow> load64 (store64 m a w) b = load64 m b"
proof (rule bit_eqI)
  fix n
  assume ab: "b + 8 \<le> a \<or> a + 8 \<le> b" and "possible_bit TYPE(u64) n"
  then have "n div 8 < 8" by auto
  then show "bit (load64 (store64 m a w) b) n = bit (load64 m b) n" unfolding bit_load64 using ab by (auto simp: store64_def)
qed

lemma push_words_spec:
  assumes "push_words m p ws = (q, m')" "8 * length ws \<le> p"
  shows "q = p - 8 * length ws" "\<forall>x. x < q \<or> p \<le> x \<longrightarrow> m' x = m x"
    "\<forall>b. b + 8 \<le> q \<or> p \<le> b \<longrightarrow> load64 m' b = load64 m b" "\<forall>i < length ws. load64 m' (q + 8 * i) = ws ! (length ws - 1 - i)"
proof -
  have "q = p - 8 * length ws \<and> (\<forall>x. x < q \<or> p \<le> x \<longrightarrow> m' x = m x) \<and> (\<forall>b. b + 8 \<le> q \<or> p \<le> b \<longrightarrow> load64 m' b = load64 m b) \<and>
      (\<forall>i < length ws. load64 m' (q + 8 * i) = ws ! (length ws - 1 - i))"
    using assms
  proof (induction ws arbitrary: m p)
    case (Cons w ws)
    let ?m = "store64 m (p - 8) w"
    have len: "8 * length ws \<le> p - 8" "8 \<le> p" using Cons.prems(2) by simp_all
    have run: "push_words ?m (p - 8) ws = (q, m')" using Cons.prems(1) by simp
    note IH = Cons.IH [OF run len(1)]
    then have q: "q = p - 8 * length (w # ws)" "q + 8 * length ws = p - 8" using len by simp_all
    have "load64 m' (q + 8 * i) = (w # ws) ! (length ws - i)" if "i < Suc (length ws)" for i
    proof (cases "i = length ws")
      case True
      then have "load64 m' (q + 8 * i) = load64 ?m (p - 8)" using IH q(2) by simp
      then show ?thesis using True by simp
    next
      case False
      with that have "i < length ws" "length ws - i = Suc (length ws - 1 - i)" by simp_all
      moreover have "\<forall>i < length ws. load64 m' (q + 8 * i) = ws ! (length ws - 1 - i)" using IH by blast
      ultimately show ?thesis by simp
    qed
    moreover have "m' x = m x" if "x < q \<or> p \<le> x" for x
      using IH q that len by (auto simp: store64_def)
    moreover have "load64 m' b = load64 m b" if "b + 8 \<le> q \<or> p \<le> b" for b
    proof -
      have "load64 m' b = load64 ?m b" using IH q that by auto
      also have "... = load64 m b" by (rule load_store_other) (use q len that in auto)
      finally show ?thesis .
    qed
    ultimately show ?case using q by simp
  qed simp
  then show "q = p - 8 * length ws" "\<forall>x. x < q \<or> p \<le> x \<longrightarrow> m' x = m x"
    "\<forall>b. b + 8 \<le> q \<or> p \<le> b \<longrightarrow> load64 m' b = load64 m b" "\<forall>i < length ws. load64 m' (q + 8 * i) = ws ! (length ws - 1 - i)"
    by blast+
qed

text \<open>The registers a frame of \<open>isr_frame\<close> stands for.\<close>

definition entry_regs :: "u64 \<Rightarrow> u64 \<Rightarrow> u64 \<Rightarrow> u64 \<Rightarrow> u64 \<Rightarrow> registers" where
  "entry_regs ss sp cs ip rdi =
     \<lparr>reg_r15 = 0, reg_r14 = 0, reg_r13 = 0, reg_r12 = 0, reg_r11 = 0, reg_r10 = 0, reg_r9 = 0, reg_r8 = 0,
      reg_rdi = rdi, reg_rsi = 0, reg_rbp = 0, reg_rdx = 0, reg_rcx = 0, reg_rbx = 0, reg_rax = 0,
      int_num = 0, error_code = 0, reg_rip = ip, reg_cs = cs, reg_rflags = 0x202, reg_rsp = sp, reg_ss = ss\<rparr>"

lemma isr_frame_length [simp]: "length (isr_frame ss sp cs ip rdi) = 22"
  by (simp add: isr_frame_def)

lemma resume_pushed:
  assumes "push_words m p (isr_frame ss sp cs ip rdi) = (q, m')" "176 \<le> p"
  shows "resume_frame m' q = entry_regs ss sp cs ip rdi" "q = p - 176" "\<forall>x. x < q \<or> p \<le> x \<longrightarrow> m' x = m x"
proof -
  note sp = push_words_spec [OF assms(1)]
  have w: "load64 m' (q + 8 * i) = isr_frame ss sp cs ip rdi ! (21 - i)" if "i < 22" for i
    using sp(4) assms(2) that by simp
  show "resume_frame m' q = entry_regs ss sp cs ip rdi"
    unfolding resume_frame_def Let_def entry_regs_def
    using w [of 0] w [of 1] w [of 2] w [of 3] w [of 4] w [of 5] w [of 6] w [of 7] w [of 8] w [of 9] w [of 10] w [of 11] w [of 12]
      w [of 13] w [of 14] w [of 15] w [of 16] w [of 17] w [of 18] w [of 19] w [of 20] w [of 21]
    by (simp add: isr_frame_def)
  show "q = p - 176" "\<forall>x. x < q \<or> p \<le> x \<longrightarrow> m' x = m x" using sp(1,2) assms(2) by simp_all
qed

section \<open>Ownership\<close>

text \<open>Who holds a region of the kernel heap: the stack of a task, node \<open>i\<close> of its user heap, the buffer
  of a descriptor, the idle stack and the system call stack of a CPU.\<close>

datatype owner = Stack nat | Node nat nat | Buf nat | Idle nat | Sys nat

fun owns :: "kernel \<Rightarrow> owner \<rightharpoonup> nat" where
  "owns k (Stack t) = (if t < SCHED_MAX_TASKS \<and> stack_base (tasks (ksched k) t) \<noteq> 0
     then Some (unat (stack_base (tasks (ksched k) t))) else None)"
| "owns k (Node t i) = (if i < length (kregions k t) then Some (rnode (kregions k t ! i)) else None)"
| "owns k (Buf i) = (if i < 256 \<and> used (fd_at (kvfs k) i) then vf_buf (fd_at (kvfs k) i) else None)"
| "owns k (Idle c) = (if idle_stack_tops k c \<noteq> 0 then Some (unat (idle_stack_tops k c) - TASK_STACK_SIZE) else None)"
| "owns k (Sys c) = (if syscall_stack_tops (ksched k) c \<noteq> 0
     then Some (unat (syscall_stack_tops (ksched k) c) - SYSCALL_STACK_SIZE) else None)"

definition owners_ok :: "(owner \<rightharpoonup> nat) \<Rightarrow> (nat \<times> nat) set \<Rightarrow> bool" where
  "owners_ok own L \<longleftrightarrow>
     (\<forall>x a. own x = Some a \<longrightarrow> (\<exists>n. (a, n) \<in> L)) \<and> (\<forall>x y a. own x = Some a \<longrightarrow> own y = Some a \<longrightarrow> x = y)"

text \<open>The regions that remain when the owners in \<open>S\<close> give theirs back.\<close>

definition remaining :: "(owner \<rightharpoonup> nat) \<Rightarrow> owner set \<Rightarrow> (nat \<times> nat) set \<Rightarrow> (nat \<times> nat) set" where
  "remaining own S L = {(a, n) \<in> L. \<forall>x \<in> S. own x \<noteq> Some a}"

lemma owners_drop: "owners_ok own L \<Longrightarrow> owners_ok (own |` (- S)) (remaining own S L)"
  unfolding owners_ok_def remaining_def restrict_map_def by (auto split: if_splits) blast

lemma owners_new: "owners_ok own L \<Longrightarrow> \<forall>n. (p, n) \<notin> L \<Longrightarrow> owners_ok (own(x \<mapsto> p)) (insert (p, n) L)"
  unfolding owners_ok_def by (auto split: if_splits) blast+

lemma remaining_empty [simp]: "remaining own {} L = L"
  by (simp add: remaining_def)

lemma remaining_Un: "remaining (own |` (- S)) T (remaining own S L) = remaining own (S \<union> T) L"
  unfolding remaining_def restrict_map_def by (auto split: if_splits)

lemma live_unique: "heap_inv h \<Longrightarrow> (a, m) \<in> live h \<Longrightarrow> (a, n) \<in> live h \<Longrightarrow> m = n"
  using live_rep by (auto simp: heap_inv_def live_in_def)

lemma remaining_one: "heap_inv h \<Longrightarrow> own x = Some a \<Longrightarrow> (a, n) \<in> live h \<Longrightarrow> remaining own {x} (live h) = live h - {(a, n)}"
  unfolding remaining_def using live_unique by auto

section \<open>The invariant of the kernel\<close>

text \<open>The heap and its owners; during a call \<open>own\<close> runs ahead of the tables.\<close>

definition kernel_ok :: "(owner \<rightharpoonup> nat) \<Rightarrow> kernel \<Rightarrow> bool" where
  "kernel_ok own k \<longleftrightarrow>
     vfs_inv (kvfs k) \<and> owners_ok own (live (kernel_heap k)) \<and>
     (\<forall>i < 256. used (fd_at (kvfs k) i) \<longrightarrow> own (Buf i) = vf_buf (fd_at (kvfs k) i))"

definition kernel_inv :: "kernel \<Rightarrow> bool" where
  "kernel_inv k \<longleftrightarrow> kernel_ok (owns k) k \<and> sched_inv (ksched k) {} \<and> event_inv (kevents k)"

lemma kernel_ok_cong: "kvfs k' = kvfs k \<Longrightarrow> kernel_ok own k' = kernel_ok own k"
  by (simp add: kernel_ok_def)

lemma kernel_okD:
  assumes "kernel_ok own k"
  shows "vfs_inv (kvfs k)" "owners_ok own (live (kernel_heap k))" "heap_inv (kernel_heap k)"
    "i < 256 \<Longrightarrow> used (fd_at (kvfs k) i) \<Longrightarrow> own (Buf i) = vf_buf (fd_at (kvfs k) i)"
  using assms by (auto simp: kernel_ok_def dest: vfs_invD(2))

lemma set_heap_fields [simp]:
  "kernel_heap (set_heap k h) = h" "ksched (set_heap k h) = ksched k" "kevents (set_heap k h) = kevents k"
  "kbrk (set_heap k h) = kbrk k" "kregions (set_heap k h) = kregions k" "knames (set_heap k h) = knames k"
  "idle_stack_tops (set_heap k h) = idle_stack_tops k" "cpu_rsp (set_heap k h) = cpu_rsp k"
  "fds (kvfs (set_heap k h)) = fds (kvfs k)" "vfs_fs (kvfs (set_heap k h)) = vfs_fs (kvfs k)"
  "set_heap (set_heap k h) h' = set_heap k h'"
  by (simp_all add: set_heap_def)

lemma owns_set_heap [simp]: "owns (set_heap k h) = owns k"
proof
  show "owns (set_heap k h) x = owns k x" for x by (cases x) simp_all
qed

text \<open>The heap changes while every owner's region and its bytes stay.\<close>

lemma heap_step:
  assumes ok: "kernel_ok own k" and h: "heap_inv h'" and own: "owners_ok own' (live h')"
    and buf: "\<And>i q. own (Buf i) = Some q \<Longrightarrow> own' (Buf i) = Some q \<and> region_kept (kernel_heap k) h' q"
  shows "kernel_ok own' (set_heap k h')"
proof -
  note k = kernel_okD [OF ok]
  have b: "own (Buf i) = Some q" if "i < 256" "used (fd_at (kvfs k) i)" "vf_buf (fd_at (kvfs k) i) = Some q" for i q
    using k(4) [OF that(1,2)] that(3) by simp
  have "vfs_inv ((kvfs k)\<lparr>vfs_heap := h'\<rparr>)"
    by (rule heap_change(1) [OF k(1) h _ refl]) (use b buf in blast)
  moreover have "own' (Buf i) = vf_buf (fd_at (kvfs k) i)" if "i < 256" "used (fd_at (kvfs k) i)" for i
    using fd_okD [OF k(1) that] b [OF that] buf by metis
  ultimately show ?thesis using ok own unfolding kernel_ok_def by (simp add: set_heap_def)
qed

lemma free_step:
  assumes ok: "kernel_ok own k" and x: "own x = Some a" "\<forall>i. x \<noteq> Buf i"
  obtains h' where "kfree (kernel_heap k) (Some a) = Some (Ret (), h')" "kernel_ok (own |` (- {x})) (set_heap k h')"
    "live h' = remaining own {x} (live (kernel_heap k))" "hbytes h' = hbytes (kernel_heap k)"
proof -
  note k = kernel_okD [OF ok]
  obtain n where n: "(a, n) \<in> live (kernel_heap k)" using k(2) x(1) unfolding owners_ok_def by blast
  obtain h' where h: "kfree (kernel_heap k) (Some a) = Some (Ret (), h')" "heap_inv h'" "live h' = live (kernel_heap k) - {(a, n)}"
      "hbytes h' = hbytes (kernel_heap k)"
    using kfree_spec [OF k(3) n] by blast
  have rm: "live h' = remaining own {x} (live (kernel_heap k))" using remaining_one [where own = own, OF k(3) x(1) n] h(3) by simp
  have "kernel_ok (own |` (- {x})) (set_heap k h')"
  proof (rule heap_step [OF ok h(2)])
    show "owners_ok (own |` (- {x})) (live h')" unfolding rm by (rule owners_drop [OF k(2)])
    fix i q
    assume q: "own (Buf i) = Some q"
    then have "q \<noteq> a" using k(2) x unfolding owners_ok_def by metis
    then show "(own |` (- {x})) (Buf i) = Some q \<and> region_kept (kernel_heap k) h' q"
      using q x(2) h(3,4) by (auto simp: restrict_map_def region_kept_def)
  qed
  then show thesis by (rule that [OF h(1) _ rm h(4)])
qed

lemma alloc_step:
  assumes ok: "kernel_ok own k" and sz: "sz \<noteq> 0" and room: "heap_can_grow (kernel_heap k) sz" and x: "own x = None" "\<forall>i. x \<noteq> Buf i"
  obtains (none) h' where "kmalloc (kernel_heap k) sz = Some (Ret None, h')" "kernel_ok own (set_heap k h')" "live h' = live (kernel_heap k)"
      "heap_exhausted (kernel_heap k) sz"
  | (some) h' p n where "kmalloc (kernel_heap k) sz = Some (Ret (Some p), h')" "kernel_ok (own(x \<mapsto> p)) (set_heap k h')"
      "live h' = insert (p, n) (live (kernel_heap k))" "unat sz \<le> n" "\<forall>n'. (p, n') \<notin> live (kernel_heap k)"
      "current_heap_end h' \<le> current_heap_end (kernel_heap k) + unat sz + 16384"
      "\<forall>q. memory_for (kernel_heap k) (pages_for (round16 sz) + q) \<longrightarrow> memory_for h' q"
proof -
  note k = kernel_okD [OF ok]
  have rm: "current_heap_end (kernel_heap k) + unat sz + 16384 < W64" using room by (simp add: heap_can_grow_def)
  have le: "unat sz \<le> round16 sz" using rm by (intro round16_bounds(1)) simp
  obtain r h' where h: "kmalloc (kernel_heap k) sz = Some (Ret r, h')" "heap_inv h'" "hbytes h' = hbytes (kernel_heap k)"
      and ce: "current_heap_end h' \<le> current_heap_end (kernel_heap k) + unat sz + 16384" and h4: "case r of None \<Rightarrow> live h' = live (kernel_heap k)
       | Some p \<Rightarrow> \<exists>n. round16 sz \<le> n \<and> live h' = insert (p, n) (live (kernel_heap k)) \<and> (\<forall>n'. (p, n') \<notin> live (kernel_heap k))"
    using kmalloc_spec [OF k(3) sz rm] by blast
  have kp: "region_kept (kernel_heap k) h' q" for q using h(3) h4 by (cases r) (auto simp: region_kept_def)
  show thesis
  proof (cases r)
    case None
    then have lv: "live h' = live (kernel_heap k)" using h4 by simp
    have "kernel_ok own (set_heap k h')" by (rule heap_step [OF ok h(2)]) (use lv k(2) kp in auto)
    with h(1) None lv kmalloc_null(1) [OF k(3) sz room] show thesis by (intro none [of h']) auto
  next
    case (Some p)
    then obtain n where n: "round16 sz \<le> n" "live h' = insert (p, n) (live (kernel_heap k))" "\<forall>n'. (p, n') \<notin> live (kernel_heap k)"
      using h4 by auto
    have "kernel_ok (own(x \<mapsto> p)) (set_heap k h')"
      by (rule heap_step [OF ok h(2)]) (use n(2,3) owners_new [OF k(2)] x(2) kp in auto)
    moreover have "\<forall>q. memory_for (kernel_heap k) (pages_for (round16 sz) + q) \<longrightarrow> memory_for h' q"
      using kmalloc_memory(2) [OF k(3) sz room h(1)] by blast
    ultimately show thesis using h(1) Some n le ce by (intro some [of p h' n]) auto
  qed
qed

lemma bytes_step:
  assumes ok: "kernel_ok own k" and x: "own x = Some p" "\<forall>i. x \<noteq> Buf i" and n: "(p, n) \<in> live (kernel_heap k)"
    and m: "\<forall>a. a < p \<or> p + n \<le> a \<longrightarrow> m a = hbytes (kernel_heap k) a"
  shows "kernel_ok own (set_heap k ((kernel_heap k)\<lparr>hbytes := m\<rparr>))"
proof (rule heap_step [OF ok])
  note k = kernel_okD [OF ok]
  show "heap_inv ((kernel_heap k)\<lparr>hbytes := m\<rparr>)" "owners_ok own (live ((kernel_heap k)\<lparr>hbytes := m\<rparr>))"
    using k(2,3) by (simp_all add: heap_bytes_free)
  fix i q
  assume q: "own (Buf i) = Some q"
  then have "q \<noteq> p" using k(2) x unfolding owners_ok_def by metis
  then have "q + l \<le> p \<or> p + n \<le> q" if "(q, l) \<in> live (kernel_heap k)" for l
    using live_disjoint [OF k(3) that n] by auto
  then show "own (Buf i) = Some q \<and> region_kept (kernel_heap k) ((kernel_heap k)\<lparr>hbytes := m\<rparr>) q"
    using q m unfolding region_kept_def by fastforce
qed

lemma free_nodes_step:
  assumes "kernel_ok own k" "\<forall>j < length ns. own (Node t (b + j)) = Some (rnode (ns ! j))" "S = Node t ` {b..<b + length ns}"
  shows "\<exists>h'. free_nodes (kernel_heap k) ns = Some (Ret (), h') \<and> kernel_ok (own |` (- S)) (set_heap k h') \<and>
    live h' = remaining own S (live (kernel_heap k)) \<and> hbytes h' = hbytes (kernel_heap k)"
  using assms
proof (induction ns arbitrary: own k b S)
  case Nil
  then show ?case by (simp add: set_heap_def restrict_map_def)
next
  case (Cons n ns)
  have x: "own (Node t b) = Some (rnode n)" using Cons.prems(2) by force
  obtain h1 where h1: "kfree (kernel_heap k) (Some (rnode n)) = Some (Ret (), h1)" "kernel_ok (own |` (- {Node t b})) (set_heap k h1)"
      "live h1 = remaining own {Node t b} (live (kernel_heap k))" "hbytes h1 = hbytes (kernel_heap k)"
    by (rule free_step [OF Cons.prems(1) x]) auto
  let ?S = "Node t ` {Suc b..<Suc b + length ns}"
  have nx: "(own |` (- {Node t b})) (Node t (Suc b + j)) = Some (rnode (ns ! j))" if "j < length ns" for j
    using Cons.prems(2) [rule_format, of "Suc j"] that by (simp add: restrict_map_def)
  obtain h' where h': "free_nodes h1 ns = Some (Ret (), h')" "kernel_ok (own |` (- {Node t b}) |` (- ?S)) (set_heap k h')"
      "live h' = remaining (own |` (- {Node t b})) ?S (live h1)" "hbytes h' = hbytes h1"
    using Cons.IH [OF h1(2), of "Suc b" ?S] nx by auto
  have S: "- {Node t b} \<inter> - ?S = - S" "{Node t b} \<union> ?S = S"
    unfolding Cons.prems(3) by (auto simp: image_iff Bex_def)
  show ?case using h1 h' S by (simp add: remaining_Un)
qed

lemma reset_step:
  assumes ok: "kernel_ok own k" and own: "\<forall>i. own (Node t i) = owns k (Node t i)"
  obtains h' where "reset_uheap k t = Some (Ret (), (set_heap k h')\<lparr>kbrk := (kbrk k)(t := UHEAP_BASE), kregions := (kregions k)(t := [])\<rparr>)"
    "kernel_ok (own |` (- range (Node t))) (set_heap k h')" "live h' = remaining own (range (Node t)) (live (kernel_heap k))"
    "hbytes h' = hbytes (kernel_heap k)"
proof -
  let ?S = "Node t ` {0..<0 + length (kregions k t)}"
  have eq: "own |` (- ?S) = own |` (- range (Node t))" "remaining own ?S L = remaining own (range (Node t)) L" for L
    using own by (auto simp: restrict_map_def fun_eq_iff remaining_def image_iff split: if_splits) (force split: if_splits)+
  have "\<forall>j < length (kregions k t). own (Node t (0 + j)) = Some (rnode (kregions k t ! j))" using own by simp
  from free_nodes_step [OF ok this refl] obtain h' where h': "free_nodes (kernel_heap k) (kregions k t) = Some (Ret (), h')"
      "kernel_ok (own |` (- range (Node t))) (set_heap k h')" "live h' = remaining own (range (Node t)) (live (kernel_heap k))"
      "hbytes h' = hbytes (kernel_heap k)"
    unfolding eq by blast
  show thesis
    by (rule that [OF _ h'(2-4)]) (simp add: reset_uheap_def uheap_reset_def utask_of_def h'(1))
qed

section \<open>Boot\<close>

text \<open>The CPU stacks: \<open>x i\<close> owns the stack of CPU \<open>i\<close>, and \<open>put\<close> only stores its top.\<close>

lemma stack_top:
  assumes "heap_inv h" "(s, n) \<in> live h" "16384 \<le> n"
  shows "unat ((of_nat s + 16384 :: u64) AND NOT 15) = s + 16384" "((of_nat s + 16384 :: u64) AND NOT 15) \<noteq> 0"
proof -
  have s: "16 dvd s" "s + 16384 < W64" using live_region [OF assms(1,2)] assms by (auto simp: heap_inv_def)
  have u: "unat (of_nat (s + 16384) :: u64) = s + 16384" by (rule unat_of_nat_small) (use s(2) in simp)
  have d: "(s + 16384) mod 16 = 0" using s(1) by presburger
  have z: "(of_nat (s + 16384) :: u64) AND 15 = 0"
  proof -
    have "(of_nat (s + 16384) :: u64) AND 15 = take_bit 4 (of_nat (s + 16384))"
      using take_bit_eq_mask [of 4 "of_nat (s + 16384) :: u64"] by (simp add: mask_eq_exp_minus_1)
    moreover have "unat (take_bit 4 (of_nat (s + 16384) :: u64)) = (s + 16384) mod 16"
      unfolding unsigned_take_bit_eq u by (simp add: take_bit_nat_def)
    ultimately show ?thesis using d by (metis unat_eq_0)
  qed
  have "(of_nat (s + 16384) :: u64) AND NOT 15 = of_nat (s + 16384)"
  proof (rule bit_eqI)
    show "bit ((of_nat (s + 16384) :: u64) AND NOT 15) n = bit (of_nat (s + 16384) :: u64) n" if "possible_bit TYPE(u64) n" for n
      using arg_cong [OF z, of "\<lambda>w. bit w n"] that unfolding bit_and_iff bit_not_iff by auto
  qed
  then show "unat ((of_nat s + 16384 :: u64) AND NOT 15) = s + 16384" "((of_nat s + 16384 :: u64) AND NOT 15) \<noteq> 0"
    using u by (auto simp: unat_eq_0 [symmetric])
qed

text \<open>The pages of the kernel heap that one stack may need.\<close>

abbreviation stack_pages :: nat where "stack_pages \<equiv> pages_for (round16 (of_nat TASK_STACK_SIZE))"

text \<open>\<open>tops\<close> reads the table that \<open>put\<close> fills, \<open>rest\<close> is what it leaves alone.\<close>

lemma alloc_stacks_spec:
  assumes put: "\<And>i a k. kvfs (put i a k) = kvfs k" "\<And>i a k. tops (put i a k) = (tops k)(i := a)" "\<And>i a k. rest (put i a k) = rest k"
    and hp: "\<And>k h. tops (set_heap k h) = tops k" "\<And>k h. rest (set_heap k h) = rest k" and x: "inj x" "\<And>i j. x i \<noteq> Buf j"
    and "kernel_ok own k" "current_heap_end (kernel_heap k) + length is * 32768 < W64" "distinct is" "\<forall>i \<in> set is. own (x i) = None"
  shows "(\<exists>i k'. alloc_stacks (of_nat TASK_STACK_SIZE) put is k = Some (Panic i, k')) \<and> \<not> memory_for (kernel_heap k) (length is * stack_pages) \<or>
    (\<exists>k'. alloc_stacks (of_nat TASK_STACK_SIZE) put is k = Some (Ret (), k') \<and> rest k' = rest k \<and> fds (kvfs k') = fds (kvfs k) \<and>
       kernel_ok (\<lambda>y. if y \<in> x ` set is then Some (unat (tops k' (inv x y)) - TASK_STACK_SIZE) else own y) k' \<and>
       current_heap_end (kernel_heap k') \<le> current_heap_end (kernel_heap k) + length is * 32768 \<and> live (kernel_heap k) \<subseteq> live (kernel_heap k') \<and>
       (\<forall>q. memory_for (kernel_heap k) (length is * stack_pages + q) \<longrightarrow> memory_for (kernel_heap k') q) \<and>
       (\<forall>i. i \<notin> set is \<longrightarrow> tops k' i = tops k i) \<and>
       (\<forall>i \<in> set is. tops k' i \<noteq> 0 \<and> (\<exists>n \<ge> TASK_STACK_SIZE. (unat (tops k' i) - TASK_STACK_SIZE, n) \<in> live (kernel_heap k'))))"
  using assms(8-)
proof (induction "is" arbitrary: own k)
  case (Cons i "is")
  have sz: "(of_nat TASK_STACK_SIZE :: u64) \<noteq> 0" "unat (of_nat TASK_STACK_SIZE :: u64) = TASK_STACK_SIZE" by simp_all
  have room: "heap_can_grow (kernel_heap k) (of_nat TASK_STACK_SIZE)" using Cons.prems(2) sz(2) by (simp add: heap_can_grow_def)
  have o: "own (x i) = None" using Cons.prems(4) by simp
  show ?case
  proof (cases rule: alloc_step [OF Cons.prems(1) sz(1) room o])
    case 1
    show ?case using x(2) by blast
  next
    case (2 h)
    then have "alloc_stacks (of_nat TASK_STACK_SIZE) put (i # is) k = Some (Panic i, set_heap k h)" by (simp add: on_heap_def)
    moreover have "\<not> memory_for (kernel_heap k) (length (i # is) * stack_pages)"
      using 2(4) memory_for_mono [of "kernel_heap k" "length (i # is) * stack_pages" stack_pages] unfolding heap_exhausted_def by auto
    ultimately show ?thesis by blast
  next
    case (3 h s n)
    define a where "a = (of_nat s + of_nat TASK_STACK_SIZE :: u64) AND NOT 15"
    define k1 where "k1 = put i a (set_heap k h)"
    have k1: "kernel_ok (own(x i \<mapsto> s)) k1" "kernel_heap k1 = h" "tops k1 = (tops k)(i := a)" "rest k1 = rest k" "fds (kvfs k1) = fds (kvfs k)"
      using 3(2) kernel_ok_cong [of k1 "set_heap k h"] put hp by (simp_all add: k1_def)
    have inv: "heap_inv h" using kernel_okD(3) [OF k1(1)] k1(2) by simp
    have n: "(s, n) \<in> live h" "TASK_STACK_SIZE \<le> n" using 3(3,4) sz(2) by simp_all
    have a: "unat a = s + TASK_STACK_SIZE" "a \<noteq> 0" using stack_top [OF inv n] by (simp_all add: a_def)
    have pre: "current_heap_end (kernel_heap k1) + length is * 32768 < W64" "distinct is" "\<forall>j \<in> set is. (own(x i \<mapsto> s)) (x j) = None"
      using Cons.prems(2-4) 3(6) sz(2) k1(2) injD [OF x(1)] by (auto simp: inj_eq [OF x(1)])
    have run: "alloc_stacks (of_nat TASK_STACK_SIZE) put (i # is) k = alloc_stacks (of_nat TASK_STACK_SIZE) put is k1"
      using 3(1) by (simp add: on_heap_def k1_def a_def)
    have mem: "memory_for (kernel_heap k) (length (i # is) * stack_pages + q) \<longrightarrow> memory_for (kernel_heap k1) (length is * stack_pages + q)" for q
      using 3(7) k1(2) by (simp add: add.assoc)
    show ?thesis
      using Cons.IH [OF k1(1) pre]
    proof (elim disjE exE conjE)
      fix j k'
      assume "alloc_stacks (of_nat TASK_STACK_SIZE) put is k1 = Some (Panic j, k')" "\<not> memory_for (kernel_heap k1) (length is * stack_pages)"
      then show ?thesis unfolding run using mem [of 0] by auto
    next
      fix k'
      let ?own = "\<lambda>y. if y \<in> x ` set is then Some (unat (tops k' (inv x y)) - TASK_STACK_SIZE) else (own(x i \<mapsto> s)) y"
      assume k': "alloc_stacks (of_nat TASK_STACK_SIZE) put is k1 = Some (Ret (), k')" "rest k' = rest k1" "fds (kvfs k') = fds (kvfs k1)"
        "kernel_ok ?own k'" "current_heap_end (kernel_heap k') \<le> current_heap_end (kernel_heap k1) + length is * 32768"
        "live (kernel_heap k1) \<subseteq> live (kernel_heap k')" "\<forall>i. i \<notin> set is \<longrightarrow> tops k' i = tops k1 i"
        "\<forall>i \<in> set is. tops k' i \<noteq> 0 \<and> (\<exists>n \<ge> TASK_STACK_SIZE. (unat (tops k' i) - TASK_STACK_SIZE, n) \<in> live (kernel_heap k'))"
      assume mem': "\<forall>q. memory_for (kernel_heap k1) (length is * stack_pages + q) \<longrightarrow> memory_for (kernel_heap k') q"
      have ti: "tops k' i = a" "i \<notin> set is" using k'(7) k1(3) Cons.prems(3) by simp_all
      have eq: "?own = (\<lambda>y. if y \<in> x ` set (i # is) then Some (unat (tops k' (inv x y)) - TASK_STACK_SIZE) else own y)"
        using ti a(1) inv_f_f [OF x(1)] inj_image_mem_iff [OF x(1)] by (auto simp: fun_eq_iff)
      show ?thesis
      proof (rule disjI2, rule exI [of _ k'], intro conjI)
        show "kernel_ok (\<lambda>y. if y \<in> x ` set (i # is) then Some (unat (tops k' (inv x y)) - TASK_STACK_SIZE) else own y) k'"
          using k'(4) unfolding eq .
        show "live (kernel_heap k) \<subseteq> live (kernel_heap k')" using k'(6) 3(3) k1(2) by auto
        show "\<forall>q. memory_for (kernel_heap k) (length (i # is) * stack_pages + q) \<longrightarrow> memory_for (kernel_heap k') q" using mem mem' by blast
        show "\<forall>j \<in> set (i # is). tops k' j \<noteq> 0 \<and> (\<exists>n \<ge> TASK_STACK_SIZE. (unat (tops k' j) - TASK_STACK_SIZE, n) \<in> live (kernel_heap k'))"
          using k'(6,8) ti(1) a n k1(2) by auto
      qed (use k' k1 run 3(6) sz(2) Cons.prems(3) in \<open>simp_all\<close>)
    qed
  qed
qed (simp add: image_def)

section \<open>Creation\<close>

lemma owners_rename:
  assumes "owners_ok own L" "own x = Some p" "own y = None"
  shows "owners_ok ((own |` (- {x}))(y \<mapsto> p)) L"
  using assms unfolding owners_ok_def restrict_map_def by (auto split: if_splits)

text \<open>The slot beyond the table stands for the stack whose slot is not chosen yet.\<close>

abbreviation new_owner :: owner where "new_owner \<equiv> Stack SCHED_MAX_TASKS"

lemma fresh_stack:
  assumes ok: "kernel_ok (owns k) k" and room: "heap_can_grow (kernel_heap k) (of_nat TASK_STACK_SIZE)"
    and f: "\<And>top. frame top = isr_frame ss (sp top) cs ip rdi"
  obtains (none) h' where "kmalloc (kernel_heap k) (of_nat TASK_STACK_SIZE) = Some (Ret None, h')" "kernel_ok (owns k) (set_heap k h')"
      "live h' = live (kernel_heap k)"
  | (some) h' st n q m where "kmalloc (kernel_heap k) (of_nat TASK_STACK_SIZE) = Some (Ret (Some st), h')"
      "push_words (memset st 0 TASK_STACK_SIZE (hbytes h')) (st + TASK_STACK_SIZE) (frame (of_nat (st + TASK_STACK_SIZE))) = (q, m)"
      "kernel_ok ((owns k)(new_owner \<mapsto> st)) (set_heap k (h'\<lparr>hbytes := m\<rparr>))" "live h' = insert (st, n) (live (kernel_heap k))"
      "TASK_STACK_SIZE \<le> n" "\<forall>n'. (st, n') \<notin> live (kernel_heap k)" "q + 176 = st + TASK_STACK_SIZE" "0 < st" "st + TASK_STACK_SIZE < W64"
      "resume_frame m q = entry_regs ss (sp (of_nat (st + TASK_STACK_SIZE))) cs ip rdi"
proof -
  have sz: "(of_nat TASK_STACK_SIZE :: u64) \<noteq> 0" "unat (of_nat TASK_STACK_SIZE :: u64) = TASK_STACK_SIZE" by simp_all
  have o: "owns k new_owner = None" "\<forall>i. new_owner \<noteq> Buf i" by simp_all
  show thesis
  proof (cases rule: alloc_step [OF ok sz(1) room o])
    case (1 h')
    show thesis by (rule none [OF 1(1-3)])
  next
    case (2 h' st n)
    let ?k = "set_heap k h'"
    obtain q m where pw: "push_words (memset st 0 TASK_STACK_SIZE (hbytes h')) (st + TASK_STACK_SIZE)
        (frame (of_nat (st + TASK_STACK_SIZE))) = (q, m)" by fastforce
    note rs = resume_pushed [OF pw [unfolded f]]
    have inv: "heap_inv h'" using kernel_okD(3) [OF 2(2)] by simp
    have n: "(st, n) \<in> live h'" "TASK_STACK_SIZE \<le> n" using 2(3,4) sz(2) by simp_all
    have "current_heap_end h' < W64" using inv by (simp add: heap_inv_def)
    then have b: "0 < st" "st + TASK_STACK_SIZE < W64" using live_region(1,2) [OF inv n(1)] n(2) by linarith+
    have q: "q + 176 = st + TASK_STACK_SIZE" using rs(2) by simp
    have out: "\<forall>a. a < st \<or> st + n \<le> a \<longrightarrow> m a = hbytes h' a" using rs(3) q n(2) by (auto simp: memset_eq)
    have o2: "((owns k)(new_owner \<mapsto> st)) new_owner = Some st" by simp
    have "kernel_ok ((owns k)(new_owner \<mapsto> st)) (set_heap k (h'\<lparr>hbytes := m\<rparr>))"
      by (rule bytes_step [OF 2(2) o2 o(2), unfolded set_heap_fields, OF n(1) out])
    then show thesis
      by (rule some [OF 2(1) pw _ 2(3) n(2) 2(5) q b]) (use rs(1) in simp)
  qed
qed

text \<open>The reaper: the old stack and the old user heap of the slot are released.\<close>

definition slot_owners :: "nat \<Rightarrow> owner set" where
  "slot_owners t = insert (Stack t) (range (Node t))"

lemma reap_slot:
  assumes ok: "kernel_ok own k" and st: "own (Stack t) = owns k (Stack t)" "t < SCHED_MAX_TASKS" and nd: "\<forall>i. own (Node t i) = owns k (Node t i)"
  obtains h1 h' where "(if stack_base (tasks (ksched k) t) \<noteq> 0
        then on_heap k (kfree (kernel_heap k) (Some (unat (stack_base (tasks (ksched k) t))))) else Some (Ret (), k)) =
      Some (Ret (), set_heap k h1)"
    "reset_uheap (set_heap k h1) t =
      Some (Ret (), (set_heap k h')\<lparr>kbrk := (kbrk k)(t := UHEAP_BASE), kregions := (kregions k)(t := [])\<rparr>)"
    "kernel_ok (own |` (- slot_owners t)) (set_heap k h')" "live h' = remaining own (slot_owners t) (live (kernel_heap k))"
    "hbytes h' = hbytes (kernel_heap k)"
proof -
  let ?b = "stack_base (tasks (ksched k) t)"
  obtain h1 where h1: "(if ?b \<noteq> 0 then on_heap k (kfree (kernel_heap k) (Some (unat ?b))) else Some (Ret (), k)) = Some (Ret (), set_heap k h1)"
      "kernel_ok (own |` (- {Stack t})) (set_heap k h1)" "live h1 = remaining own {Stack t} (live (kernel_heap k))"
      "hbytes h1 = hbytes (kernel_heap k)"
  proof (cases "?b = 0")
    case True
    then have "own |` (- {Stack t}) = own" "remaining own {Stack t} L = L" for L
      using st by (auto simp: restrict_map_def fun_eq_iff remaining_def)
    with True ok show thesis by (intro that [of "kernel_heap k"]) (simp_all add: set_heap_def)
  next
    case False
    then have x: "own (Stack t) = Some (unat ?b)" using st by simp
    show thesis by (rule free_step [OF ok x]) (use False in \<open>auto simp: on_heap_def intro: that\<close>)
  qed
  have own1: "\<forall>i. (own |` (- {Stack t})) (Node t i) = owns (set_heap k h1) (Node t i)" using nd by (simp add: restrict_map_def)
  obtain h' where h': "reset_uheap (set_heap k h1) t = Some (Ret (), (set_heap k h')\<lparr>kbrk := (kbrk k)(t := UHEAP_BASE), kregions := (kregions k)(t := [])\<rparr>)"
      "kernel_ok (own |` (- {Stack t}) |` (- range (Node t))) (set_heap k h')" "live h' = remaining (own |` (- {Stack t})) (range (Node t)) (live h1)"
      "hbytes h' = hbytes h1"
    by (rule reset_step [OF h1(2) own1]) simp
  have "- {Stack t} \<inter> - range (Node t) = - slot_owners t" "{Stack t} \<union> range (Node t) = slot_owners t" by (auto simp: slot_owners_def)
  with h1 h' show thesis by (intro that [of h1 h']) (simp_all add: remaining_Un)
qed

text \<open>What a successful creation establishes for \<open>slot\<close>.\<close>

definition spawned :: "kernel \<Rightarrow> nat \<Rightarrow> (u64 \<Rightarrow> registers) \<Rightarrow> u64 \<Rightarrow> u32 \<Rightarrow> nat \<Rightarrow> task_kind \<Rightarrow> nat \<Rightarrow> kernel \<Rightarrow> bool" where
  "spawned k slot regs pml4 ck prio kd now k' \<longleftrightarrow>
     (\<exists>st n. slot < SCHED_MAX_TASKS \<and> tstate (tasks (ksched k) slot) = TASK_DEAD \<and> TASK_STACK_SIZE \<le> n \<and> st + TASK_STACK_SIZE < W64 \<and> (\<forall>n'. (st, n') \<notin> live (kernel_heap k)) \<and>
        live (kernel_heap k') = insert (st, n) (remaining (owns k) (slot_owners slot) (live (kernel_heap k))) \<and>
        tasks (ksched k') = (tasks (ksched k))(slot :=
          \<lparr>tid = slot, rsp = of_nat (st + TASK_STACK_SIZE - 176), stack_base = of_nat st, tstate = TASK_READY, pml4_phys = pml4, cookie = ck,
           wake_at_ms = 0, priority = prio, enqueue_ms = now, kind = kd\<rparr>) \<and>
        resume_frame (hbytes (kernel_heap k')) (unat (rsp (tasks (ksched k') slot))) = regs (of_nat (st + TASK_STACK_SIZE)) \<and>
        (\<exists>c < SMP_MAX_CPUS. runqs (ksched k') = (runqs (ksched k))(c := runqs (ksched k) c @ [slot])) \<and>
        kregions k' = (kregions k)(slot := []) \<and> queue_of (kevents k') (int slot) = [])"

lemma flush_empty: "event_inv e \<Longrightarrow> t < MAX_TASKS \<Longrightarrow> event_inv (flush_event_queue e (int t)) \<and> queue_of (flush_event_queue e (int t)) (int t) = []"
  by (auto simp: event_inv_def flush_event_queue_def queue_of_def ring_list_def nth_list_update_if)

text \<open>From the choice of the slot to the run queue: the push never fails.\<close>

lemma enqueue_new:
  assumes inv: "sched_inv s {}" and f: "find_slot s = (Some slot, s1)" and p: "p \<noteq> 0"
  obtains target s2 where "target < SMP_MAX_CPUS" "pick_target_cpu (fill_slot s1 slot p st pml4 ck prio kd) = target"
    "runq_push (fill_slot s1 slot p st pml4 ck prio kd) target slot now = (True, s2)" "sched_inv s2 {}"
    "slot < SCHED_MAX_TASKS" "tstate (tasks s slot) = TASK_DEAD"
    "tasks s2 = (tasks s)(slot := \<lparr>tid = slot, rsp = p, stack_base = st, tstate = TASK_READY, pml4_phys = pml4, cookie = ck,
       wake_at_ms = 0, priority = prio, enqueue_ms = now, kind = kd\<rparr>)"
    "runqs s2 = (runqs s)(target := runqs s target @ [slot])" "tasks s1 = tasks s" "syscall_stack_tops s2 = syscall_stack_tops s"
proof -
  let ?s = "fill_slot s1 slot p st pml4 ck prio kd" and ?c = "pick_target_cpu (fill_slot s1 slot p st pml4 ck prio kd)"
  have iv: "sched_inv ?s {slot}" using create_inv [OF inv f p] by simp
  have c: "?c < SMP_MAX_CPUS" by (rule pick_target_less)
  obtain s2 where s2: "runq_push ?s ?c slot now = (True, s2)" "sched_inv s2 ({slot} - {slot})"
      "s2 = upd_task slot (\<lambda>k. k\<lparr>enqueue_ms := now\<rparr>) ?s\<lparr>runqs := (runqs ?s)(?c := runqs ?s ?c @ [slot])\<rparr>"
    using push_inv [OF iv _ c, of slot now] by auto
  have fs: "slot < SCHED_MAX_TASKS" "tstate (tasks s slot) = TASK_DEAD" "tasks s1 = tasks s" "runqs s1 = runqs s"
      "syscall_stack_tops s1 = syscall_stack_tops s"
  proof -
    have tk: "task_count s \<le> SCHED_MAX_TASKS" "slot \<ge> task_count s \<Longrightarrow> slot < SCHED_MAX_TASKS \<Longrightarrow> tstate (tasks s slot) = TASK_DEAD"
      using inv unfolding sched_inv_def task_ok_def by blast+
    from find_slot_cases [OF f] consider "slot < task_count s" "tstate (tasks s slot) = TASK_DEAD" "s1 = s"
      | "slot = task_count s" "task_count s < SCHED_MAX_TASKS" "s1 = s\<lparr>task_count := Suc (task_count s)\<rparr>" by blast
    then show "slot < SCHED_MAX_TASKS" "tstate (tasks s slot) = TASK_DEAD" "tasks s1 = tasks s" "runqs s1 = runqs s"
        "syscall_stack_tops s1 = syscall_stack_tops s"
      using tk by (cases; simp)+
  qed
  show thesis
  proof (rule that [OF c refl s2(1) _ fs(1,2) _ _ fs(3)])
    show "sched_inv s2 {}" using s2(2) by simp
    show "tasks s2 = (tasks s)(slot := \<lparr>tid = slot, rsp = p, stack_base = st, tstate = TASK_READY, pml4_phys = pml4, cookie = ck,
       wake_at_ms = 0, priority = prio, enqueue_ms = now, kind = kd\<rparr>)"
      unfolding s2(3) using fs(3) by (simp add: fill_slot_def fun_eq_iff)
    show "runqs s2 = (runqs s)(?c := runqs s ?c @ [slot])" "syscall_stack_tops s2 = syscall_stack_tops s"
      unfolding s2(3) using fs(4,5) by (simp_all add: fill_slot_def)
  qed
qed

text \<open>Once the tables show the new stack, the owner that stood for it is the slot.\<close>

lemma settle_owner:
  assumes ok: "kernel_ok ((owns k)(new_owner \<mapsto> st) |` (- slot_owners slot)) k1" and v: "kvfs k' = kvfs k1" "fds (kvfs k') = fds (kvfs k)"
    and t: "tasks (ksched k') = (tasks (ksched k))(slot := x)" "stack_base x = of_nat st" "0 < st" "st < W64" "slot < SCHED_MAX_TASKS"
    and r: "kregions k' = (kregions k)(slot := [])" "idle_stack_tops k' = idle_stack_tops k"
      "syscall_stack_tops (ksched k') = syscall_stack_tops (ksched k)"
  shows "kernel_ok (owns k') k'"
proof -
  let ?own = "(owns k)(new_owner \<mapsto> st) |` (- slot_owners slot)"
  have st: "unat (stack_base x) = st" "stack_base x \<noteq> 0"
  proof -
    show u: "unat (stack_base x) = st" using t(2,4) by simp
    show "stack_base x \<noteq> 0" using u t(3) by auto
  qed
  have x: "?own new_owner = Some st" "?own (Stack slot) = None" using t(5) by (auto simp: slot_owners_def restrict_map_def)
  have eq: "owns k' = (?own |` (- {new_owner}))(Stack slot \<mapsto> st)"
  proof
    show "owns k' y = ((?own |` (- {new_owner}))(Stack slot \<mapsto> st)) y" for y
      using t st r v(2) by (cases y) (auto simp: slot_owners_def restrict_map_def)
  qed
  have "owners_ok (owns k') (live (kernel_heap k1))" unfolding eq by (rule owners_rename [OF kernel_okD(2) [OF ok] x])
  moreover have "owns k' (Buf i) = vf_buf (fd_at (kvfs k') i)" if "i < 256" "used (fd_at (kvfs k') i)" for i using that by simp
  ultimately show ?thesis using ok v(1) unfolding kernel_ok_def by simp
qed

lemma enter_task_full:
  assumes ok: "kernel_ok ((owns k)(new_owner \<mapsto> st)) k" and f: "fst (find_slot (ksched k)) = None"
  obtains h' where "enter_task k st p pml4 ck prio kd name clr cpu now = Some (Ret (- 1), set_heap k h')" "kernel_ok (owns k) (set_heap k h')"
    "live h' = remaining ((owns k)(new_owner \<mapsto> st)) {new_owner} (live (kernel_heap k))"
proof -
  let ?own = "(owns k)(new_owner \<mapsto> st)"
  obtain h' where h': "kfree (kernel_heap k) (Some st) = Some (Ret (), h')" "kernel_ok (?own |` (- {new_owner})) (set_heap k h')"
      "live h' = remaining ?own {new_owner} (live (kernel_heap k))"
    by (rule free_step [OF ok, of new_owner st]) auto
  have "?own |` (- {new_owner}) = owns k" by (auto simp: restrict_map_def fun_eq_iff)
  then show thesis
    using h' f by (intro that [of h']) (auto simp: enter_task_def on_heap_def split: prod.splits)
qed

text \<open>What entering the stack \<open>st\<close> with the frame at \<open>p\<close> establishes.\<close>

definition entered :: "kernel \<Rightarrow> nat \<Rightarrow> nat \<Rightarrow> nat \<Rightarrow> u64 \<Rightarrow> u32 \<Rightarrow> nat \<Rightarrow> task_kind \<Rightarrow> nat \<Rightarrow> kernel \<Rightarrow> bool" where
  "entered k slot st p pml4 ck prio kd now k' \<longleftrightarrow>
     slot < SCHED_MAX_TASKS \<and> tstate (tasks (ksched k) slot) = TASK_DEAD \<and>
     tasks (ksched k') = (tasks (ksched k))(slot :=
       \<lparr>tid = slot, rsp = of_nat p, stack_base = of_nat st, tstate = TASK_READY, pml4_phys = pml4, cookie = ck,
        wake_at_ms = 0, priority = prio, enqueue_ms = now, kind = kd\<rparr>) \<and>
     (\<exists>c < SMP_MAX_CPUS. runqs (ksched k') = (runqs (ksched k))(c := runqs (ksched k) c @ [slot])) \<and>
     kregions k' = (kregions k)(slot := []) \<and> queue_of (kevents k') (int slot) = [] \<and>
     hbytes (kernel_heap k') = hbytes (kernel_heap k) \<and>
     live (kernel_heap k') = remaining ((owns k)(new_owner \<mapsto> st)) (slot_owners slot) (live (kernel_heap k))"

lemma enter_task_spec:
  assumes ok: "kernel_ok ((owns k)(new_owner \<mapsto> st)) k" and si: "sched_inv (ksched k) {}" and ev: "event_inv (kevents k)"
    and st: "0 < st" "st < W64" and p: "(of_nat p :: u64) \<noteq> 0" and fs: "find_slot (ksched k) = (Some slot, s)"
  obtains k' where "enter_task k st p pml4 ck prio kd name clr cpu now = Some (Ret (int slot), k')" "kernel_inv k'"
    "entered k slot st p pml4 ck prio kd now k'"
proof -
  let ?own = "(owns k)(new_owner \<mapsto> st)"
    and ?t = "\<lparr>tid = slot, rsp = of_nat p, stack_base = of_nat st, tstate = TASK_READY, pml4_phys = pml4, cookie = ck,
        wake_at_ms = 0, priority = prio, enqueue_ms = now, kind = kd\<rparr>"
  obtain target s2 where t: "target < SMP_MAX_CPUS" "pick_target_cpu (fill_slot s slot (of_nat p) (of_nat st) pml4 ck prio kd) = target"
      "runq_push (fill_slot s slot (of_nat p) (of_nat st) pml4 ck prio kd) target slot now = (True, s2)" "sched_inv s2 {}"
      "slot < SCHED_MAX_TASKS" "tstate (tasks (ksched k) slot) = TASK_DEAD" "tasks s2 = (tasks (ksched k))(slot := ?t)"
      "runqs s2 = (runqs (ksched k))(target := runqs (ksched k) target @ [slot])" "tasks s = tasks (ksched k)"
      "syscall_stack_tops s2 = syscall_stack_tops (ksched k)"
    by (rule enqueue_new [OF si fs p, where now = now])
  define k1 where "k1 = k\<lparr>ksched := s\<rparr>"
  have k1: "kernel_ok ?own k1" "kvfs k1 = kvfs k" "tasks (ksched k1) = tasks (ksched k)" "kregions k1 = kregions k"
      "idle_stack_tops k1 = idle_stack_tops k" "kevents k1 = kevents k" "ksched k1 = s" "kbrk k1 = kbrk k"
    using ok t(9) kernel_ok_cong [of k1 k] by (simp_all add: k1_def)
  have o: "?own (Stack slot) = owns k1 (Stack slot)" "\<forall>i. ?own (Node slot i) = owns k1 (Node slot i)" using t(5) k1(3,4) by simp_all
  obtain h1 h' where h1: "(if stack_base (tasks (ksched k1) slot) \<noteq> 0
        then on_heap k1 (kfree (kernel_heap k1) (Some (unat (stack_base (tasks (ksched k1) slot))))) else Some (Ret (), k1)) =
      Some (Ret (), set_heap k1 h1)"
    and h': "reset_uheap (set_heap k1 h1) slot =
        Some (Ret (), (set_heap k1 h')\<lparr>kbrk := (kbrk k1)(slot := UHEAP_BASE), kregions := (kregions k1)(slot := [])\<rparr>)"
      "kernel_ok (?own |` (- slot_owners slot)) (set_heap k1 h')" "live h' = remaining ?own (slot_owners slot) (live (kernel_heap k1))"
      "hbytes h' = hbytes (kernel_heap k1)"
    by (rule reap_slot [OF k1(1) o(1) t(5) o(2)])
  define k' where "k' = (set_heap k1 h')\<lparr>kbrk := (kbrk k1)(slot := UHEAP_BASE), kregions := (kregions k1)(slot := []),
      kevents := flush_event_queue (kevents k1) (int slot), knames := (knames k1)(slot := task_strncpy (knames k1 slot) name 16),
      ksched := (if target \<noteq> cpu then s2\<lparr>resched := (resched s2)(target := True)\<rparr> else s2)\<rparr>"
  have run: "enter_task k st p pml4 ck prio kd name clr cpu now = Some (Ret (int slot), k')"
    unfolding enter_task_def fs prod.case option.case Let_def k1_def [symmetric] h1 and_then_Ret h'(1) by (simp add: t(2,3) k1(7) k'_def)
  have k': "kvfs k' = kvfs (set_heap k1 h')" "tasks (ksched k') = (tasks (ksched k))(slot := ?t)" "runqs (ksched k') = runqs s2"
      "kregions k' = (kregions k)(slot := [])" "kernel_heap k' = h'" "kevents k' = flush_event_queue (kevents k) (int slot)"
      "idle_stack_tops k' = idle_stack_tops k" "syscall_stack_tops (ksched k') = syscall_stack_tops (ksched k)" "sched_inv (ksched k') {}"
      "fds (kvfs k') = fds (kvfs k)"
    using t(4,7,10) k1 by (simp_all add: k'_def)
  have "kernel_ok (owns k') k'"
    by (rule settle_owner [OF h'(2) k'(1,10,2) _ st t(5) k'(4,7,8)]) simp
  then have "kernel_inv k'" using k'(6,9) flush_empty [OF ev t(5)] by (simp add: kernel_inv_def)
  moreover have "entered k slot st p pml4 ck prio kd now k'"
    unfolding entered_def using t(1,5,6,8) k' h'(3,4) k1(2) flush_empty [OF ev t(5)] by (intro conjI exI [of _ target]) simp_all
  ultimately show thesis by (rule that [OF run])
qed

lemma new_task_spec:
  assumes inv: "kernel_inv k" and room: "heap_can_grow (kernel_heap k) (of_nat TASK_STACK_SIZE)"
    and f: "\<And>top. frame top = isr_frame ss (sp top) cs ip rdi"
  obtains (failed) k' where "new_task k frame pml4 ck prio kd name clr cpu now = Some (Ret (- 1), k')" "kernel_inv k'" "ksched k' = ksched k"
      "live (kernel_heap k') = live (kernel_heap k)"
  | (created) slot k' where "new_task k frame pml4 ck prio kd name clr cpu now = Some (Ret (int slot), k')" "kernel_inv k'"
      "spawned k slot (\<lambda>top. entry_regs ss (sp top) cs ip rdi) pml4 ck prio kd now k'"
proof -
  have ok: "kernel_ok (owns k) k" and si: "sched_inv (ksched k) {}" and ev: "event_inv (kevents k)" using inv by (auto simp: kernel_inv_def)
  show thesis
  proof (cases rule: fresh_stack [where frame = frame, OF ok room f])
    case (1 h')
    have "kernel_inv (set_heap k h')" using 1(2) si ev by (simp add: kernel_inv_def)
    moreover have "new_task k frame pml4 ck prio kd name clr cpu now = Some (Ret (- 1), set_heap k h')"
      by (simp only: new_task_def on_heap_def 1(1) option.map prod.case and_then_Ret option.case)
    ultimately show thesis using 1(3) by (intro failed [of "set_heap k h'"]) auto
  next
    case (2 h1 st n q m)
    define k2 where "k2 = set_heap k (h1\<lparr>hbytes := m\<rparr>)"
    have k2: "kernel_ok ((owns k2)(new_owner \<mapsto> st)) k2" "live (kernel_heap k2) = insert (st, n) (live (kernel_heap k))" "hbytes (kernel_heap k2) = m"
        "ksched k2 = ksched k" "kevents k2 = kevents k" "kregions k2 = kregions k" "owns k2 = owns k"
      using 2(3,4) by (simp_all add: k2_def heap_bytes_free)
    have run: "new_task k frame pml4 ck prio kd name clr cpu now = enter_task k2 st q pml4 ck prio kd name clr cpu now"
      by (simp only: new_task_def on_heap_def 2(1,2) option.map prod.case and_then_Ret option.case Let_def set_heap_fields k2_def)
    show thesis
    proof (cases "fst (find_slot (ksched k2))")
      case None
      obtain h' where h': "enter_task k2 st q pml4 ck prio kd name clr cpu now = Some (Ret (- 1), set_heap k2 h')" "kernel_ok (owns k2) (set_heap k2 h')"
          "live h' = remaining ((owns k2)(new_owner \<mapsto> st)) {new_owner} (live (kernel_heap k2))"
        by (rule enter_task_full [OF k2(1) None])
      have "remaining ((owns k2)(new_owner \<mapsto> st)) {new_owner} (insert (st, n) (live (kernel_heap k))) = live (kernel_heap k)"
        unfolding remaining_def using 2(6) by auto
      then have "live h' = live (kernel_heap k)" unfolding h'(3) k2(2) .
      moreover have "kernel_inv (set_heap k2 h')" unfolding kernel_inv_def owns_set_heap set_heap_fields k2(4,5) using h'(2) si ev by blast
      ultimately show thesis by (intro failed [OF run [unfolded h'(1)]]) (simp_all only: set_heap_fields k2(4))
    next
      case (Some slot)
      then obtain s where fs: "find_slot (ksched k2) = (Some slot, s)" by (cases "find_slot (ksched k2)") auto
      have q: "q < W64" "0 < q" "q = st + TASK_STACK_SIZE - 176" using 2(7-9) by simp_all
      have u: "unat (of_nat q :: u64) = q" using q(1) by simp
      then have q0: "(of_nat q :: u64) \<noteq> 0" using q(2) by auto
      have st: "st < W64" using 2(9) by simp
      obtain k' where k': "enter_task k2 st q pml4 ck prio kd name clr cpu now = Some (Ret (int slot), k')" "kernel_inv k'"
          "entered k2 slot st q pml4 ck prio kd now k'"
        by (rule enter_task_spec [OF k2(1) si [folded k2(4)] ev [folded k2(5)] 2(8) st q0 fs])
      note en = k'(3) [unfolded entered_def k2(2-4,6,7)]
      have "remaining ((owns k)(new_owner \<mapsto> st)) (slot_owners slot) (insert (st, n) (live (kernel_heap k))) =
          insert (st, n) (remaining (owns k) (slot_owners slot) (live (kernel_heap k)))"
      proof -
        have "owns k x \<noteq> Some st" for x using kernel_okD(2) [OF ok] 2(6) unfolding owners_ok_def by metis
        moreover have "slot < SCHED_MAX_TASKS" using en by (rule conjunct1)
        then have "new_owner \<notin> slot_owners slot" by (auto simp: slot_owners_def)
        ultimately show ?thesis by (auto simp: remaining_def)
      qed
      then have "spawned k slot (\<lambda>top. entry_regs ss (sp top) cs ip rdi) pml4 ck prio kd now k'"
        unfolding spawned_def using en 2(5,6,9,10) u q(3) by - (rule exI [of _ st], rule exI [of _ n], simp)
      then show thesis using created k'(1,2) run by simp
    qed
  qed
qed

end
