(* ===== verification/Elf_Correct.thy ===== *)
theory Elf_Correct
  imports Elf_Loader Page_Room Task_Life_Correct Vfs_Correct
begin

text \<open>
  What the program loader promises: a sound image is brought into the target address space, each
  segment with its bytes of the file followed by zeros, on pages of its own, together with a zeroed
  stack; the file buffer is given back and the kernel heap is as before. What is not such an
  image is refused.
\<close>

section \<open>Images\<close>

text \<open>A file as memory from address 0, its headers and its segments of type \<open>PT_LOAD\<close>.\<close>

definition bytes_of :: "bytes \<Rightarrow> nat \<Rightarrow> u8" where
  "bytes_of data a = (if a < length data then data ! a else 0)"

definition ehdr_of :: "bytes \<Rightarrow> elf64_ehdr" where
  "ehdr_of data = ehdr64_at (bytes_of data) 0"

definition phdr_of :: "bytes \<Rightarrow> nat \<Rightarrow> elf64_phdr" where
  "phdr_of data i = phdr64_at (bytes_of data) (unat (e_phoff (ehdr_of data)) + 56 * i)"

definition segs_from :: "bytes \<Rightarrow> nat \<Rightarrow> elf64_phdr list" where
  "segs_from data i = filter (\<lambda>p. p_type p = 1) (map (phdr_of data) [i..<unat (e_phnum (ehdr_of data))])"

definition seg_lo :: "elf64_phdr \<Rightarrow> nat" where
  "seg_lo p = unat (p_vaddr p)"

definition seg_hi :: "elf64_phdr \<Rightarrow> nat" where
  "seg_hi p = unat (p_vaddr p) + unat (p_memsz p)"

definition in_seg :: "elf64_phdr \<Rightarrow> nat \<Rightarrow> bool" where
  "in_seg p a \<longleftrightarrow> seg_lo p \<le> a \<and> a < seg_hi p"

text \<open>The byte a segment has at an address, and the numbers of the pages it touches.\<close>

definition seg_byte :: "bytes \<Rightarrow> elf64_phdr \<Rightarrow> nat \<Rightarrow> u8" where
  "seg_byte data p a = (if a < seg_lo p + unat (p_filesz p) then data ! (unat (p_offset p) + (a - seg_lo p)) else 0)"

definition seg_pages :: "elf64_phdr \<Rightarrow> nat set" where
  "seg_pages p = {seg_lo p div 4096..<(seg_hi p + 4095) div 4096}"

definition seg_cost :: "elf64_phdr \<Rightarrow> nat" where
  "seg_cost p = (seg_hi p + 4095) div 4096 - seg_lo p div 4096"

definition seg_ok :: "nat \<Rightarrow> elf64_phdr \<Rightarrow> bool" where
  "seg_ok len p \<longleftrightarrow> seg_hi p \<le> 2 ^ 47 \<and> p_filesz p \<le> p_memsz p \<and> unat (p_memsz p) < 2 ^ 32 \<and>
     unat (p_offset p) + unat (p_filesz p) \<le> len"

definition seg_apart :: "elf64_phdr \<Rightarrow> elf64_phdr \<Rightarrow> bool" where
  "seg_apart p q \<longleftrightarrow> seg_hi p \<le> seg_lo q \<or> seg_hi q \<le> seg_lo p"

text \<open>An ELF64 file whose headers and segments lie in the file, its segments apart from each other, in the
  user half and off the pages of the stack.\<close>

definition elf64_image :: "bytes \<Rightarrow> bool" where
  "elf64_image data \<longleftrightarrow>
     64 \<le> length data \<and> length data < 2 ^ 32 \<and> take 5 data = [0x7F, 69, 76, 70, 2] \<and>
     unat (e_phoff (ehdr_of data)) + 56 * unat (e_phnum (ehdr_of data)) \<le> length data \<and>
     (\<forall>p \<in> set (segs_from data 0). seg_ok (length data) p \<and> seg_pages p \<inter> {0xBFC0..<0xC000} = {}) \<and>
     sorted_wrt seg_apart (segs_from data 0)"

section \<open>Reading headers\<close>

lemma load_agree:
  "(\<forall>i < 8. m (a + i) = m' (b + i)) \<Longrightarrow> load64 m a = load64 m' b"
  "(\<forall>i < 4. m (a + i) = m' (b + i)) \<Longrightarrow> load32 m a = load32 m' b"
  "(\<forall>i < 2. m (a + i) = m' (b + i)) \<Longrightarrow> load16 m a = load16 m' b"
  unfolding load64_def load32_def load16_def by (rule foldr_cong; simp)+

text \<open>The buffer holds the file.\<close>

definition holds :: "(nat \<Rightarrow> u8) \<Rightarrow> nat \<Rightarrow> bytes \<Rightarrow> bool" where
  "holds m buf data \<longleftrightarrow> (\<forall>i < length data. m (buf + i) = data ! i)"

lemma ehdr_held:
  assumes "holds m buf data" "64 \<le> length data"
  shows "ehdr64_at m buf = ehdr_of data"
  unfolding ehdr64_at_def ehdr_of_def
  using assms by (auto simp: holds_def bytes_of_def add.assoc intro!: load_agree)

lemma phdr_held:
  assumes "holds m buf data" "unat (e_phoff (ehdr_of data)) + 56 * Suc i \<le> length data"
  shows "phdr64_at m (buf + unat (e_phoff (ehdr_of data)) + 56 * i) = phdr_of data i"
  unfolding phdr64_at_def phdr_of_def
  using assms by (auto simp: holds_def bytes_of_def add.assoc intro!: load_agree)

lemma segs_from_Cons:
  assumes "i < unat (e_phnum (ehdr_of data))"
  shows "segs_from data i = (if p_type (phdr_of data i) = 1 then phdr_of data i # segs_from data (Suc i) else segs_from data (Suc i))"
  unfolding segs_from_def using assms by (simp add: upt_conv_Cons)

section \<open>User pages\<close>

definition pgno :: "nat \<Rightarrow> u64" where
  "pgno k = of_nat (k * 4096)"

text \<open>In the user half exactly the pages with numbers in \<open>S\<close> are mapped, each to a frame of its own kind.\<close>

definition user_pages :: "vmm_state \<Rightarrow> u64 \<Rightarrow> nat set \<Rightarrow> bool" where
  "user_pages v tgt S \<longleftrightarrow>
     (\<forall>k < 2 ^ 35. if k \<in> S then user_page v tgt (pgno k) else walk v tgt (page_path (pgno k)) = Unmapped)"

lemma unat_pgno: "k \<le> 2 ^ 35 \<Longrightarrow> unat (pgno k) = k * 4096"
  unfolding pgno_def by (rule unat_of_nat_small) simp

lemma pgno_inject: "k < 2 ^ 35 \<Longrightarrow> l < 2 ^ 35 \<Longrightarrow> page_path (pgno k) = page_path (pgno l) \<longleftrightarrow> k = l"
  by (simp add: page_path_number unat_pgno)

lemma user_page_mapped: "user_page v tgt x \<Longrightarrow> walk v tgt (page_path x) \<noteq> Unmapped"
  by (auto simp: user_page_def)

lemma alloc_user_page_spec:
  assumes tree: "tree_ok (vm h) tgt" and nh: "no_huge {..<256} (vm h) tgt" and k: "k < 2 ^ 35" and room: "4 \<le> pmm_room (frames (vm h))"
    and pages: "user_pages (vm h) tgt S" and new: "k \<notin> S"
  obtains h' where "alloc_user_page dirt h (pgno k) tgt = (True, h')" "tree_ok (vm h') tgt" "no_huge {..<256} (vm h') tgt"
    "pmm_room (frames (vm h)) \<le> 4 + pmm_room (frames (vm h'))" "user_pages (vm h') tgt (insert k S)"
    "h' = h\<lparr>vm := vm h', hbytes := hbytes h'\<rparr>" "\<forall>a. a div 4096 \<noteq> k \<longrightarrow> hbytes h' a = hbytes h a"
proof -
  have lt: "unat (pgno k) < 2 ^ 47" using k by (simp add: unat_pgno)
  obtain v' where v: "alloc_walk (vm h) (pgno k) 7 tgt = (True, v')" "no_huge {..<256} v' tgt" "pmm_room (frames (vm h)) \<le> 4 + pmm_room (frames v')"
    by (rule alloc_walk_ready [OF tree nh _ _ room]) (use half_index [OF lt] in auto)
  note sp = alloc_walk_spec [OF tree v(1)]
  have "tgt \<noteq> 0" using tree_owned [OF tree, of "[]"] by (auto simp: pmm_owns_page_def)
  then have al: "vmm_alloc_page_into (vm h) (pgno k) 7 tgt = (True, v')" using v(1) by (simp add: alloc_page_walks)
  define h' where "h' = h\<lparr>vm := v', hbytes := show_page (hbytes h) (pgno k) (dirt (fst (pmm_alloc_page (frames (vm h)))))\<rparr>"
  obtain pa where pa: "pa = fst (pmm_alloc_page (frames (vm h)))" "pa \<noteq> 0" "frame_aligned pa" "pmm_owns_page (frames v') pa"
      "\<forall>q. idx_ok q \<longrightarrow> length q \<le> 3 \<longrightarrow> node v' tgt q \<noteq> Some pa"
      "\<forall>x. walk v' tgt (page_path x) = (if page_path x = page_path (pgno k) then leaf (pa OR 7) else walk (vm h) tgt (page_path x))"
    using sp(4) by auto
  have rel: "0x4800000 \<le> pa" using pmm.alloc_releasable [OF tree_pmm [OF tree]] pa(1,2) by simp
  have lf: "leaf (pa OR 7) = Page (pa OR 7)" using table_entry(1) [OF pa(3)] by (simp add: leaf_def)
  have "user_pages v' tgt (insert k S)"
    unfolding user_pages_def
  proof (intro allI impI)
    fix j :: nat
    assume j: "j < 2 ^ 35"
    show "if j \<in> insert k S then user_page v' tgt (pgno j) else walk v' tgt (page_path (pgno j)) = Unmapped"
    proof (cases "j = k")
      case True
      then show ?thesis using pa(3-6) rel lf unfolding user_page_def by auto
    next
      case False
      then have w: "walk v' tgt (page_path (pgno j)) = walk (vm h) tgt (page_path (pgno j))" using pa(6) pgno_inject [OF j k] by simp
      have p: "if j \<in> S then user_page (vm h) tgt (pgno j) else walk (vm h) tgt (page_path (pgno j)) = Unmapped"
        using pages j by (simp add: user_pages_def)
      show ?thesis
      proof (cases "j \<in> S")
        case True
        then have "user_page v' tgt (pgno j)" using user_page_keep [OF _ w] sp(5,7) p by simp
        with True show ?thesis by simp
      qed (use False w p in simp)
    qed
  qed
  moreover have "hbytes h' a = hbytes h a" if "a div 4096 \<noteq> k" for a
  proof -
    have "\<not> (k * 4096 \<le> a \<and> a < k * 4096 + 4096)" using that div_nat_eqI [of 4096 k a] by (auto simp: mult.commute)
    then show ?thesis unfolding h'_def using k by (auto simp: show_page_def unat_pgno)
  qed
  moreover have "alloc_user_page dirt h (pgno k) tgt = (True, h')" by (simp add: alloc_user_page_def al h'_def)
  ultimately show thesis using that [of h'] v(2,3) sp(1) by (simp add: h'_def)
qed

section \<open>Loading a segment\<close>

text \<open>Soundness of an address space while segments are loaded, with frames left for \<open>n\<close> more pages.\<close>

definition loading :: "heap_state \<Rightarrow> u64 \<Rightarrow> nat set \<Rightarrow> nat \<Rightarrow> bool" where
  "loading h tgt S n \<longleftrightarrow>
     tree_ok (vm h) tgt \<and> no_huge {..<256} (vm h) tgt \<and> user_pages (vm h) tgt S \<and> 4 * n \<le> pmm_room (frames (vm h))"

lemma map_segment_spec:
  assumes "loading h tgt S (n - k + r)" "page = pgno k" "unat se \<le> 2 ^ 47" "n = (unat se + 4095) div 4096" "k \<le> 2 ^ 35"
  shows "\<exists>h'. map_segment dirt tgt se page h = Some (True, h') \<and> loading h' tgt (S \<union> {k..<n}) r \<and>
    h' = h\<lparr>vm := vm h', hbytes := hbytes h'\<rparr> \<and> (\<forall>a. a div 4096 \<notin> {k..<n} - S \<longrightarrow> hbytes h' a = hbytes h a)"
  using assms
proof (induction "n - k" arbitrary: k page h S)
  case 0
  have "unat page = k * 4096" using 0(3,6) by (simp add: unat_pgno)
  then have "\<not> page < se" using 0(1,5) by (simp add: word_less_nat_alt)
  then show ?case using 0 by (intro exI [of _ h]) (simp add: map_segment.simps)
next
  case (Suc x)
  have k: "k < n" "n \<le> 2 ^ 35" "k < 2 ^ 35" using Suc.hyps(2) Suc.prems(3,4) by auto
  have pg: "unat page = k * 4096" using Suc.prems(2) k(3) by (simp add: unat_pgno)
  have less: "page < se" using k(1) pg Suc.prems(4) by (simp add: word_less_nat_alt)
  have x: "x = n - Suc k" "Suc k \<le> 2 ^ 35" using Suc.hyps(2) k by simp_all
  have nxt: "page + 4096 = pgno (Suc k)" using Suc.prems(2) by (simp add: pgno_def)
  have L: "tree_ok (vm h) tgt" "no_huge {..<256} (vm h) tgt" "user_pages (vm h) tgt S" "4 * (n - k + r) \<le> pmm_room (frames (vm h))"
    using Suc.prems(1) by (simp_all add: loading_def)
  show ?case
  proof (cases "k \<in> S")
    case True
    then have "paging_is_mapped_into (vm h) page tgt"
      using L(1,3) k(3) user_page_mapped Suc.prems(2) by (auto simp: is_mapped_walk user_pages_def)
    then have step: "map_segment dirt tgt se page h = map_segment dirt tgt se (pgno (Suc k)) h"
      using less nxt by (subst map_segment.simps) simp
    have l: "loading h tgt S (n - Suc k + r)" using L k(1) by (simp add: loading_def)
    have sets: "S \<union> {Suc k..<n} = S \<union> {k..<n}" "{Suc k..<n} - S = {k..<n} - S" using True k(1) by (auto simp: Suc_le_eq le_less)
    show ?thesis unfolding step
      using Suc.hyps(1) [OF x(1) l refl Suc.prems(3,4) x(2)] unfolding sets .
  next
    case False
    then have nm: "\<not> paging_is_mapped_into (vm h) page tgt"
      using L(1,3) k(3) Suc.prems(2) by (auto simp: is_mapped_walk user_pages_def)
    have room: "4 \<le> pmm_room (frames (vm h))" using L(4) k(1) by simp
    obtain h1 where h1: "alloc_user_page dirt h (pgno k) tgt = (True, h1)" "tree_ok (vm h1) tgt" "no_huge {..<256} (vm h1) tgt"
        "pmm_room (frames (vm h)) \<le> 4 + pmm_room (frames (vm h1))" "user_pages (vm h1) tgt (insert k S)"
        "h1 = h\<lparr>vm := vm h1, hbytes := hbytes h1\<rparr>" "\<forall>a. a div 4096 \<noteq> k \<longrightarrow> hbytes h1 a = hbytes h a"
      by (rule alloc_user_page_spec [OF L(1,2) k(3) room L(3) False])
    have step: "map_segment dirt tgt se page h = map_segment dirt tgt se (pgno (Suc k)) h1"
      using less nxt nm h1(1) Suc.prems(2) by (subst map_segment.simps) simp
    have l: "loading h1 tgt (insert k S) (n - Suc k + r)" using h1(2-5) L(4) k(1) by (simp add: loading_def)
    have sets: "insert k S \<union> {Suc k..<n} = S \<union> {k..<n}" using k(1) by (auto simp: Suc_le_eq le_less)
    obtain h' where h': "map_segment dirt tgt se (pgno (Suc k)) h1 = Some (True, h')" "loading h' tgt (S \<union> {k..<n}) r"
        "h' = h1\<lparr>vm := vm h', hbytes := hbytes h'\<rparr>" "\<forall>a. a div 4096 \<notin> {Suc k..<n} - insert k S \<longrightarrow> hbytes h' a = hbytes h1 a"
      using Suc.hyps(1) [OF x(1) l refl Suc.prems(3,4) x(2)] unfolding sets by blast
    have "hbytes h' a = hbytes h a" if "a div 4096 \<notin> {k..<n} - S" for a
      using that h'(4) h1(7) k(1) False by (metis DiffD1 DiffD2 DiffI Suc_leD atLeastLessThan_iff insertI2 order_refl)
    moreover have "h' = h\<lparr>vm := vm h', hbytes := hbytes h'\<rparr>" by (subst h'(3), subst h1(6)) simp
    ultimately show ?thesis unfolding step using h'(1,2) by blast
  qed
qed

text \<open>A segment in place: its bytes, on mapped pages.\<close>

definition placed :: "bytes \<Rightarrow> heap_state \<Rightarrow> nat set \<Rightarrow> elf64_phdr \<Rightarrow> bool" where
  "placed data h S p \<longleftrightarrow> seg_pages p \<subseteq> S \<and> (\<forall>a. in_seg p a \<longrightarrow> hbytes h a = seg_byte data p a)"

lemma in_seg_page: "in_seg p a \<Longrightarrow> a div 4096 \<in> seg_pages p"
proof -
  assume a: "in_seg p a"
  have "Suc (a div 4096) = (a + 4096) div 4096" by simp
  also have "\<dots> \<le> (seg_hi p + 4095) div 4096" by (rule div_le_mono) (use a in \<open>simp add: in_seg_def\<close>)
  finally show ?thesis using a by (simp add: in_seg_def seg_pages_def div_le_mono)
qed

definition fill_segment :: "nat \<Rightarrow> elf64_phdr \<Rightarrow> (nat \<Rightarrow> u8) \<Rightarrow> (nat \<Rightarrow> u8)" where
  "fill_segment buf ph m =
     (let m1 = memcpy (unat (p_vaddr ph)) (buf + unat (p_offset ph)) (unat (ucast (p_filesz ph) :: u32)) m
      in if p_memsz ph > p_filesz ph
         then memset (unat (p_vaddr ph + p_filesz ph)) 0 (unat (ucast (p_memsz ph - p_filesz ph) :: u32)) m1
         else m1)"

lemma fill_segment_eq:
  assumes ok: "seg_ok (length data) p" and held: "holds m buf data" and buf: "2 ^ 47 \<le> buf"
  shows "fill_segment buf p m a = (if in_seg p a then seg_byte data p a else m a)"
proof -
  have o: "unat (p_vaddr p) + unat (p_memsz p) \<le> 2 ^ 47" "unat (p_filesz p) \<le> unat (p_memsz p)" "unat (p_memsz p) < 2 ^ 32"
      "unat (p_offset p) + unat (p_filesz p) \<le> length data"
    using ok by (simp_all add: seg_ok_def seg_hi_def word_le_nat_alt)
  have u: "unat (ucast (p_filesz p) :: u32) = unat (p_filesz p)"
      "unat (ucast (p_memsz p - p_filesz p) :: u32) = unat (p_memsz p) - unat (p_filesz p)"
      "unat (p_vaddr p + p_filesz p) = unat (p_vaddr p) + unat (p_filesz p)"
    using o by (simp_all add: unsigned_ucast_eq take_bit_nat_eq_self unat_sub word_le_nat_alt unat_word_ariths)
  have cp: "memcpy (unat (p_vaddr p)) (buf + unat (p_offset p)) (unat (p_filesz p)) m a =
      (if unat (p_vaddr p) \<le> a \<and> a < unat (p_vaddr p) + unat (p_filesz p) then m (buf + unat (p_offset p) + (a - unat (p_vaddr p))) else m a)" for a
    using o(1,2) buf by (intro memcpy_eq) linarith
  have src: "m (buf + unat (p_offset p) + (a - unat (p_vaddr p))) = data ! (unat (p_offset p) + (a - unat (p_vaddr p)))"
    if "unat (p_vaddr p) \<le> a" "a < unat (p_vaddr p) + unat (p_filesz p)"
  proof -
    have "unat (p_offset p) + (a - unat (p_vaddr p)) < length data" using o(4) that by linarith
    then show ?thesis using held unfolding holds_def add.assoc by blast
  qed
  show ?thesis
  proof (cases "unat (p_filesz p) < unat (p_memsz p)")
    case True
    then show ?thesis
      unfolding fill_segment_def Let_def u using src
      by (simp add: cp memset_eq in_seg_def seg_byte_def seg_lo_def seg_hi_def word_less_nat_alt)
  next
    case False
    then have "unat (p_memsz p) = unat (p_filesz p)" using o(2) by simp
    then show ?thesis
      unfolding fill_segment_def Let_def u using src
      by (simp add: cp in_seg_def seg_byte_def seg_lo_def seg_hi_def word_less_nat_alt)
  qed
qed

lemma holds_cong:
  assumes "holds m buf data" "2 ^ 47 \<le> buf" "\<forall>a \<ge> 2 ^ 47. m' a = m a"
  shows "holds m' buf data"
  using assms by (simp add: holds_def)

text \<open>One segment: earlier segments stay in place and the upper half is not written.\<close>

lemma load_segment:
  assumes ok: "seg_ok (length data) p" and held: "holds (hbytes h) buf data" and buf: "2 ^ 47 \<le> buf"
    and l: "loading h tgt S (seg_cost p + r)" and old: "\<forall>q \<in> D. placed data h S q \<and> seg_apart q p"
  obtains h1 h' where "map_segment dirt tgt (p_vaddr p + p_memsz p) (p_vaddr p AND PAGE_MASK) h = Some (True, h1)"
    "h' = h1\<lparr>hbytes := fill_segment buf p (hbytes h1)\<rparr>" "h' = h\<lparr>vm := vm h', hbytes := hbytes h'\<rparr>"
    "loading h' tgt (S \<union> seg_pages p) r" "\<forall>q \<in> insert p D. placed data h' (S \<union> seg_pages p) q"
    "\<forall>a \<ge> 2 ^ 47. hbytes h' a = hbytes h a"
proof -
  let ?k = "seg_lo p div 4096" and ?n = "(seg_hi p + 4095) div 4096"
  have hi: "seg_hi p \<le> 2 ^ 47" using ok by (simp add: seg_ok_def)
  have se: "unat (p_vaddr p + p_memsz p) = seg_hi p" using hi by (simp add: seg_hi_def unat_word_ariths)
  have lo: "seg_lo p \<le> seg_hi p" by (simp add: seg_lo_def seg_hi_def)
  have k: "?k \<le> 2 ^ 35" using lo hi by simp
  have page: "p_vaddr p AND PAGE_MASK = pgno ?k"
    unfolding word_unat_eq_iff using k by (simp add: unat_pgno unat_page seg_lo_def)
  obtain h1 where h1: "map_segment dirt tgt (p_vaddr p + p_memsz p) (p_vaddr p AND PAGE_MASK) h = Some (True, h1)"
      "loading h1 tgt (S \<union> {?k..<?n}) r" "h1 = h\<lparr>vm := vm h1, hbytes := hbytes h1\<rparr>"
      "\<forall>a. a div 4096 \<notin> {?k..<?n} - S \<longrightarrow> hbytes h1 a = hbytes h a"
    using map_segment_spec [OF l [unfolded seg_cost_def] page, of "p_vaddr p + p_memsz p" dirt, unfolded se, OF hi refl k] by blast
  have up: "hbytes h1 a = hbytes h a" if "2 ^ 47 \<le> a" for a
  proof -
    have "?n \<le> 2 ^ 35" using hi by simp
    also have "\<dots> \<le> a div 4096" using div_le_mono [OF that, of 4096] by simp
    finally show ?thesis using h1(4) by simp
  qed
  have held1: "holds (hbytes h1) buf data" by (rule holds_cong [OF held buf]) (use up in blast)
  note fs = fill_segment_eq [OF ok held1 buf]
  define h' where "h' = h1\<lparr>hbytes := fill_segment buf p (hbytes h1)\<rparr>"
  have b: "hbytes h' a = (if in_seg p a then seg_byte data p a else hbytes h1 a)" for a by (simp add: h'_def fs)
  have "placed data h' (S \<union> seg_pages p) q" if q: "q \<in> D" for q
    unfolding placed_def
  proof (intro conjI allI impI)
    show "seg_pages q \<subseteq> S \<union> seg_pages p" using old q by (auto simp: placed_def)
    fix a
    assume a: "in_seg q a"
    have "seg_pages q \<subseteq> S" using old q by (simp add: placed_def)
    then have "a div 4096 \<in> S" using in_seg_page [OF a] by blast
    moreover have "\<not> in_seg p a" using a old q by (auto simp: seg_apart_def in_seg_def)
    ultimately show "hbytes h' a = seg_byte data q a" using b h1(4) old q a by (simp add: placed_def)
  qed
  moreover have "placed data h' (S \<union> seg_pages p) p" by (simp add: placed_def b)
  moreover have "hbytes h' a = hbytes h a" if "2 ^ 47 \<le> a" for a using b up [OF that] that hi by (simp add: in_seg_def)
  moreover have "loading h' tgt (S \<union> seg_pages p) r" using h1(2) by (simp add: loading_def h'_def seg_pages_def)
  moreover have "h' = h\<lparr>vm := vm h', hbytes := hbytes h'\<rparr>" unfolding h'_def by (subst h1(3)) simp
  ultimately show thesis using that [OF h1(1) h'_def] by blast
qed

section \<open>The loop over the segments\<close>

definition pages_of :: "elf64_phdr list \<Rightarrow> nat set" where
  "pages_of ps = (\<Union>p \<in> set ps. seg_pages p)"

definition cost_of :: "elf64_phdr list \<Rightarrow> nat" where
  "cost_of ps = sum_list (map seg_cost ps)"

lemma load_segments64_spec:
  assumes fits: "64 \<le> length data" "length data < 2 ^ 32"
      "unat (e_phoff (ehdr_of data)) + 56 * unat (e_phnum (ehdr_of data)) \<le> length data"
    and buf: "2 ^ 47 \<le> buf"
    and "holds (hbytes h) buf data" "loading h tgt S (cost_of (segs_from data i) + r)" "\<forall>q \<in> D. placed data h S q"
    and "\<forall>p \<in> set (segs_from data i). seg_ok (length data) p \<and> (\<forall>q \<in> D. seg_apart q p)" "sorted_wrt seg_apart (segs_from data i)"
  shows "\<exists>h'. load_segments64 dirt tgt buf (of_nat (length data)) (e_phoff (ehdr_of data)) i h = Some (True, h') \<and>
    h' = h\<lparr>vm := vm h', hbytes := hbytes h'\<rparr> \<and> loading h' tgt (S \<union> pages_of (segs_from data i)) r \<and>
    (\<forall>q \<in> D \<union> set (segs_from data i). placed data h' (S \<union> pages_of (segs_from data i)) q) \<and> (\<forall>a \<ge> 2 ^ 47. hbytes h' a = hbytes h a)"
  using assms(5-)
proof (induction "unat (e_phnum (ehdr_of data)) - i" arbitrary: i h S D)
  case 0
  then have e: "segs_from data i = []" "i \<ge> unat (e_phnum (ehdr_of data))" by (simp_all add: segs_from_def)
  have "load_segments64 dirt tgt buf (of_nat (length data)) (e_phoff (ehdr_of data)) i h = Some (True, h)"
    using e(2) ehdr_held [OF 0(2) fits(1)] by (subst load_segments64.simps) simp
  then show ?case using 0 e(1) by (intro exI [of _ h]) (simp add: pages_of_def cost_of_def)
next
  case (Suc x)
  let ?N = "unat (e_phnum (ehdr_of data))" and ?p = "phdr_of data i"
  have i: "i < ?N" "x = ?N - Suc i" using Suc.hyps(2) by simp_all
  have in_file: "unat (e_phoff (ehdr_of data)) + 56 * Suc i \<le> length data" using fits(3) mult_le_mono2 [OF Suc_leI [OF i(1)], of 56] by linarith
  note hd = ehdr_held [OF Suc.prems(1) fits(1)] and ph = phdr_held [OF Suc.prems(1) in_file] and sg = segs_from_Cons [OF i(1)]
  note unf = load_segments64.simps [of dirt tgt buf "of_nat (length data)" "e_phoff (ehdr_of data)" i h, unfolded hd ph Let_def]
  show ?case
  proof (cases "p_type ?p = 1")
    case False
    then have "load_segments64 dirt tgt buf (of_nat (length data)) (e_phoff (ehdr_of data)) i h =
        load_segments64 dirt tgt buf (of_nat (length data)) (e_phoff (ehdr_of data)) (Suc i) h"
      using unf i(1) by simp
    then show ?thesis using Suc.hyps(1) [OF i(2)] Suc.prems sg False by simp
  next
    case True
    then have s: "segs_from data i = ?p # segs_from data (Suc i)" using sg by simp
    have ok: "seg_ok (length data) ?p" using Suc.prems(4) s by simp
    have l: "loading h tgt S (seg_cost ?p + (cost_of (segs_from data (Suc i)) + r))"
      using Suc.prems(2) s by (simp add: cost_of_def add.assoc)
    have old: "\<forall>q \<in> D. placed data h S q \<and> seg_apart q ?p" using Suc.prems(3,4) s by simp
    obtain h1 h2 where h2: "map_segment dirt tgt (p_vaddr ?p + p_memsz ?p) (p_vaddr ?p AND PAGE_MASK) h = Some (True, h1)"
        "h2 = h1\<lparr>hbytes := fill_segment buf ?p (hbytes h1)\<rparr>" "h2 = h\<lparr>vm := vm h2, hbytes := hbytes h2\<rparr>"
        "loading h2 tgt (S \<union> seg_pages ?p) (cost_of (segs_from data (Suc i)) + r)" "\<forall>q \<in> insert ?p D. placed data h2 (S \<union> seg_pages ?p) q"
        "\<forall>a \<ge> 2 ^ 47. hbytes h2 a = hbytes h a"
      by (rule load_segment [OF ok Suc.prems(1) buf l old])
    have guards: "\<not> p_memsz ?p > 0xFFFFFFFFFFFFFFFF - p_vaddr ?p"
      "\<not> (p_offset ?p > ucast (of_nat (length data) :: u32) \<or> p_filesz ?p > ucast (of_nat (length data) :: u32) - p_offset ?p)"
    proof -
      have "unat (0xFFFFFFFFFFFFFFFF - p_vaddr ?p :: u64) = 0xFFFFFFFFFFFFFFFF - unat (p_vaddr ?p)"
        using unsigned_less [where ?'a = nat, of "p_vaddr ?p"] by (subst unat_sub) (simp_all add: word_le_nat_alt)
      then show "\<not> p_memsz ?p > 0xFFFFFFFFFFFFFFFF - p_vaddr ?p"
        using ok by (auto simp: seg_ok_def seg_hi_def word_less_nat_alt)
      have len: "unat (ucast (of_nat (length data) :: u32) :: u64) = length data"
        using fits(2) by (simp add: unsigned_ucast_eq take_bit_nat_eq_self unat_of_nat)
      have "p_offset ?p \<le> ucast (of_nat (length data) :: u32)" using ok len by (simp add: seg_ok_def word_le_nat_alt)
      then show "\<not> (p_offset ?p > ucast (of_nat (length data) :: u32) \<or> p_filesz ?p > ucast (of_nat (length data) :: u32) - p_offset ?p)"
        using ok len by (auto simp: seg_ok_def word_less_nat_alt unat_sub word_le_nat_alt not_less)
    qed
    have step: "load_segments64 dirt tgt buf (of_nat (length data)) (e_phoff (ehdr_of data)) i h =
        load_segments64 dirt tgt buf (of_nat (length data)) (e_phoff (ehdr_of data)) (Suc i) h2"
      using unf i(1) True guards h2(1,2) by (simp add: fill_segment_def Let_def)
    have held: "holds (hbytes h2) buf data" by (rule holds_cong [OF Suc.prems(1) buf h2(6)])
    have rest: "\<forall>p \<in> set (segs_from data (Suc i)). seg_ok (length data) p \<and> (\<forall>q \<in> insert ?p D. seg_apart q p)"
        "sorted_wrt seg_apart (segs_from data (Suc i))"
      using Suc.prems(4,5) s by simp_all
    have sets: "S \<union> seg_pages ?p \<union> pages_of (segs_from data (Suc i)) = S \<union> pages_of (segs_from data i)"
        "insert ?p D \<union> set (segs_from data (Suc i)) = D \<union> set (segs_from data i)"
      using s by (auto simp: pages_of_def)
    obtain h' where h': "load_segments64 dirt tgt buf (of_nat (length data)) (e_phoff (ehdr_of data)) (Suc i) h2 = Some (True, h')"
        "h' = h2\<lparr>vm := vm h', hbytes := hbytes h'\<rparr>" "loading h' tgt (S \<union> pages_of (segs_from data i)) r"
        "\<forall>q \<in> D \<union> set (segs_from data i). placed data h' (S \<union> pages_of (segs_from data i)) q" "\<forall>a \<ge> 2 ^ 47. hbytes h' a = hbytes h2 a"
      using Suc.hyps(1) [OF i(2) held h2(4,5) rest] unfolding sets by blast
    have "h' = h\<lparr>vm := vm h', hbytes := hbytes h'\<rparr>" by (subst h'(2), subst h2(3)) simp
    then show ?thesis unfolding step using h'(1,3,4,5) h2(6) by auto
  qed
qed

section \<open>The stack\<close>

abbreviation stack_pages :: "nat set" where
  "stack_pages \<equiv> {0xBFC0..<0xC000}"

lemma map_stack:
  assumes l: "loading h tgt S 64" and off: "S \<inter> stack_pages = {}"
  obtains h' where "map_user_pages 64 h tgt (USER_STACK_TOP - USER_STACK_SIZE) 0 = (None, h')" "h' = h\<lparr>vm := vm h', hbytes := hbytes h'\<rparr>"
    "tree_ok (vm h') tgt" "user_pages (vm h') tgt (S \<union> stack_pages)"
    "\<forall>a. hbytes h' a = (if 0xBFC0000 \<le> a \<and> a < 0xC000000 then 0 else hbytes h a)"
proof -
  let ?b = "USER_STACK_TOP - USER_STACK_SIZE"
  have L: "tree_ok (vm h) tgt" "no_huge {..<256} (vm h) tgt" "user_pages (vm h) tgt S" "4 * 64 \<le> pmm_room (frames (vm h))"
    using l by (simp_all add: loading_def)
  have bd: "unat ?b + (0 + 64) * 4096 \<le> 2 ^ 47" by simp
  obtain h' where m: "map_user_pages 64 h tgt ?b 0 = (None, h')"
    using map_user_pages_ready [OF L(1,2) bd L(4)] by (metis prod.collapse)
  from map_user_pages_spec [OF L(1) m bd] obtain j where J: "tree_ok (vm h') tgt" "h' = h\<lparr>vm := vm h', hbytes := hbytes h'\<rparr>"
      "j \<le> 64" "None = (if j = 64 then None else Some (0 + j))" "\<And>n. n < j \<Longrightarrow> user_page (vm h') tgt (pg ?b n)"
      "\<And>x. \<forall>n < j. page_path x \<noteq> page_path (pg ?b n) \<Longrightarrow>
         walk (vm h') tgt (page_path x) = walk (vm h) tgt (page_path x) \<and> (user_page (vm h) tgt x \<longrightarrow> user_page (vm h') tgt x)"
      "\<And>a. hbytes h' a = (if unat ?b \<le> a \<and> a < unat ?b + j * 4096 then 0 else hbytes h a)"
    by (elim conjE exE) simp
  have j: "j = 64" using J(4) by (cases "j = 64") simp_all
  have pg: "pg ?b n = pgno (0xBFC0 + n)" for n by (simp add: pg_def pgno_def)
  have "user_pages (vm h') tgt (S \<union> stack_pages)"
    unfolding user_pages_def
  proof (intro allI impI)
    fix k :: nat
    assume k: "k < 2 ^ 35"
    show "if k \<in> S \<union> stack_pages then user_page (vm h') tgt (pgno k) else walk (vm h') tgt (page_path (pgno k)) = Unmapped"
    proof (cases "k \<in> stack_pages")
      case True
      then have "user_page (vm h') tgt (pg ?b (k - 0xBFC0))" by (intro J(5)) (auto simp: j)
      with True show ?thesis unfolding pg by simp
    next
      case False
      have "page_path (pgno k) \<noteq> page_path (pg ?b n)" if "n < 64" for n
        unfolding pg using pgno_inject [OF k, of "0xBFC0 + n"] False that by auto
      then have "walk (vm h') tgt (page_path (pgno k)) = walk (vm h) tgt (page_path (pgno k))"
          "user_page (vm h) tgt (pgno k) \<longrightarrow> user_page (vm h') tgt (pgno k)" using J(6) j by simp_all
      with False L(3) k show ?thesis by (auto simp: user_pages_def)
    qed
  qed
  then show thesis using that [OF m J(2,1)] J(7) j by simp
qed

section \<open>The loader\<close>

lemma heap_shape_cong: "heap_shape h \<Longrightarrow> heap_shape (h\<lparr>vm := v, hbytes := b\<rparr>)"
proof -
  assume "heap_shape h"
  then obtain w where "heap_inv (h\<lparr>vm := w\<rparr>)" by (auto simp: heap_shape_def)
  from heap_shapeI [OF this, where v = v and b = b] show ?thesis by simp
qed

lemma elf_free_spec:
  assumes "heap_shape h" "(buf, n) \<in> live h"
  obtains h' where "elf_free h buf r = Some (Ret r, h')" "heap_shape h'" "live h' = live h - {(buf, n)}" "vm h' = vm h" "hbytes h' = hbytes h"
proof -
  obtain h' where "kfree h (Some buf) = Some (Ret (), h')" "heap_shape h'" "live h' = live h - {(buf, n)}" "vm h' = vm h" "hbytes h' = hbytes h"
    by (rule kfree_shape [OF assms])
  then show thesis using that [of h'] by (simp add: elf_free_def)
qed

text \<open>The address space holds the image: mapped pages, segments, stack.\<close>

definition image_in :: "bytes \<Rightarrow> bool \<Rightarrow> heap_state \<Rightarrow> u64 \<Rightarrow> bool" where
  "image_in data want_stack h tgt \<longleftrightarrow>
     tree_ok (vm h) tgt \<and>
     user_pages (vm h) tgt (pages_of (segs_from data 0) \<union> (if want_stack then stack_pages else {})) \<and>
     (\<forall>p \<in> set (segs_from data 0). \<forall>a. in_seg p a \<longrightarrow> hbytes h a = seg_byte data p a) \<and>
     (want_stack \<longrightarrow> (\<forall>a. 0xBFC0000 \<le> a \<longrightarrow> a < 0xC000000 \<longrightarrow> hbytes h a = 0))"

lemma load_elf64_spec:
  assumes img: "elf64_image data" and shape: "heap_shape h" and own: "(buf, n) \<in> live h" and buf: "2 ^ 47 \<le> buf"
    and held: "holds (hbytes h) buf data" and l: "loading h tgt {} (cost_of (segs_from data 0) + (if want then 64 else 0))"
  obtains h' where "load_elf64 dirt h buf (of_nat (length data)) want tgt = Some (Ret (e_entry (ehdr_of data), if want then USER_STACK_TOP else 0), h')"
    "heap_shape h'" "live h' = live h - {(buf, n)}" "image_in data want h' tgt" "\<forall>a \<ge> 2 ^ 47. hbytes h' a = hbytes h a"
proof -
  let ?P = "segs_from data 0" and ?r = "if want then 64 else (0 :: nat)"
  have I: "64 \<le> length data" "length data < 2 ^ 32" "unat (e_phoff (ehdr_of data)) + 56 * unat (e_phnum (ehdr_of data)) \<le> length data"
      "\<forall>p \<in> set ?P. seg_ok (length data) p \<and> (\<forall>q \<in> {}. seg_apart q p)" "sorted_wrt seg_apart ?P" "\<forall>p \<in> set ?P. seg_pages p \<inter> stack_pages = {}"
    using img by (auto simp: elf64_image_def)
  have none: "\<forall>q \<in> {}. placed data h {} q" by simp
  obtain h1 where h1: "load_segments64 dirt tgt buf (of_nat (length data)) (e_phoff (ehdr_of data)) 0 h = Some (True, h1)"
      "h1 = h\<lparr>vm := vm h1, hbytes := hbytes h1\<rparr>" "loading h1 tgt (pages_of ?P) ?r" "\<forall>q \<in> set ?P. placed data h1 (pages_of ?P) q"
      "\<forall>a \<ge> 2 ^ 47. hbytes h1 a = hbytes h a"
    using load_segments64_spec [OF I(1-3) buf held l none I(4,5), where dirt = dirt] unfolding Un_empty_left by blast
  have shape1: "heap_shape h1" by (subst h1(2)) (rule heap_shape_cong [OF shape])
  have live1: "live h1 = live h" by (subst h1(2)) simp
  obtain h2 where h2: "elf_free h1 buf () = Some (Ret (), h2)" "heap_shape h2" "live h2 = live h - {(buf, n)}" "vm h2 = vm h1" "hbytes h2 = hbytes h1"
    using elf_free_spec [OF shape1, of buf n "()"] own unfolding live1 by blast
  have tgt: "tgt \<noteq> PHYS_NULL" using l tree_owned [of "vm h" tgt "[]"] by (auto simp: loading_def pmm_owns_page_def)
  have hd: "ehdr64_at (hbytes h) buf = ehdr_of data" "ehdr64_at (hbytes h1) buf = ehdr_of data"
    using ehdr_held [OF held I(1)] ehdr_held [OF holds_cong [OF held buf h1(5)] I(1)] by simp_all
  have guard: "\<not> (e_phoff (ehdr_of data) > ucast (of_nat (length data) :: u32) \<or>
      ucast (e_phnum (ehdr_of data)) * 56 > ucast (of_nat (length data) :: u32) - e_phoff (ehdr_of data))"
  proof -
    have len: "unat (ucast (of_nat (length data) :: u32) :: u64) = length data"
      using I(2) by (simp add: unsigned_ucast_eq take_bit_nat_eq_self unat_of_nat)
    have le: "e_phoff (ehdr_of data) \<le> ucast (of_nat (length data) :: u32)" using I(3) len by (simp add: word_le_nat_alt)
    have nu: "unat (ucast (e_phnum (ehdr_of data)) * 56 :: u64) = unat (e_phnum (ehdr_of data)) * 56"
    proof -
      have "unat (e_phnum (ehdr_of data)) < 2 ^ 16" using unsigned_less [where ?'a = nat, of "e_phnum (ehdr_of data)"] by simp
      then show ?thesis by (simp add: unat_word_ariths unsigned_ucast_eq take_bit_nat_eq_self)
    qed
    show ?thesis using le len nu I(3) by (simp add: word_less_nat_alt unat_sub word_le_nat_alt not_less)
  qed
  have call: "load_elf64 dirt h buf (of_nat (length data)) want tgt =
      (if want then (case map_user_pages 64 h2 tgt (USER_STACK_TOP - USER_STACK_SIZE) 0 of
          (Some _, h3) \<Rightarrow> Some (Ret (0, 0), h3) | (None, h3) \<Rightarrow> Some (Ret (e_entry (ehdr_of data), USER_STACK_TOP), h3))
       else Some (Ret (e_entry (ehdr_of data), 0), h2))"
    unfolding load_elf64_def Let_def hd using tgt guard h1(1) h2(1) hd(2) by (simp cong: prod.case_cong option.case_cong)
  show thesis
  proof (cases want)
    case False
    have "image_in data want h2 tgt" using False h1(3,4) h2(4,5) by (simp add: image_in_def loading_def placed_def)
    then show thesis using that [of h2] call False h2(2,3,5) h1(5) by simp
  next
    case True
    have l2: "loading h2 tgt (pages_of ?P) 64" using h1(3) h2(4) True by (simp add: loading_def)
    have off: "pages_of ?P \<inter> stack_pages = {}" using I(6) by (auto simp: pages_of_def)
    obtain h3 where h3: "map_user_pages 64 h2 tgt (USER_STACK_TOP - USER_STACK_SIZE) 0 = (None, h3)" "h3 = h2\<lparr>vm := vm h3, hbytes := hbytes h3\<rparr>"
        "tree_ok (vm h3) tgt" "user_pages (vm h3) tgt (pages_of ?P \<union> stack_pages)"
        "\<forall>a. hbytes h3 a = (if 0xBFC0000 \<le> a \<and> a < 0xC000000 then 0 else hbytes h2 a)"
      by (rule map_stack [OF l2 off])
    have "hbytes h3 a = seg_byte data p a" if p: "p \<in> set ?P" "in_seg p a" for p a
    proof -
      have "a div 4096 \<notin> stack_pages" using in_seg_page [OF p(2)] I(6) p(1) by blast
      then have "\<not> (0xBFC0000 \<le> a \<and> a < 0xC000000)" using div_le_mono [of "0xBFC0000" a 4096] by (auto simp: div_less_iff_less_mult)
      then have "hbytes h3 a = hbytes h1 a" using h3(5) h2(5) by auto
      then show ?thesis using h1(4) p by (simp add: placed_def)
    qed
    then have "image_in data want h3 tgt" using True h3(3-5) by (simp add: image_in_def)
    moreover have "heap_shape h3" "live h3 = live h - {(buf, n)}" using heap_shape_cong [OF h2(2)] h2(3) by (subst h3(2), simp)+
    ultimately show thesis using that [of h3] call True h3(1,5) h2(5) h1(5) by simp
  qed
qed

text \<open>The buffer: allocated, filled with the file, and what the loader does with it.\<close>

definition elf_dispatch :: "(u64 \<Rightarrow> nat \<Rightarrow> u8) \<Rightarrow> heap_state \<Rightarrow> nat \<Rightarrow> u32 \<Rightarrow> bool \<Rightarrow> u64 \<Rightarrow> ((u64 \<times> u64) outcome \<times> heap_state) option" where
  "elf_dispatch dirt h buf fsize want tgt =
     (let b = hbytes h
      in if b buf \<noteq> 0x7F \<or> b (buf + 1) \<noteq> 69 \<or> b (buf + 2) \<noteq> 76 \<or> b (buf + 3) \<noteq> 70 then elf_free h buf (0, 0)
         else if b (buf + 4) = ELFCLASS64 then load_elf64 dirt h buf fsize want tgt
         else if b (buf + 4) = ELFCLASS32 then load_elf32 dirt h buf fsize tgt
         else elf_free h buf (0, 0))"

lemma elf_buffer:
  assumes inv: "heap_inv h" and grow: "heap_can_grow h (of_nat (length data))" and len: "0 < length data" "length data < 2 ^ 32"
    and size: "kfs_get_file_size fs (elf_path fname) = Some (of_nat (length data))"
    and read: "kfs_read_to_buffer fs (elf_path fname) (of_nat (length data)) = Some (Some data)"
  obtains (none) h1 where "kmalloc h (of_nat (length data)) = Some (Ret None, h1)" "heap_inv h1" "live h1 = live h" "hbytes h1 = hbytes h"
      "elf_load_file dirt h fs fname want tgt = Some (Ret (0, 0), h1)"
  | (buffer) buf n h1 h2 where "kmalloc h (of_nat (length data)) = Some (Ret (Some buf), h1)" "heap_shape h2" "(buf, n) \<in> live h2"
      "live h2 - {(buf, n)} = live h" "2 ^ 47 \<le> buf" "holds (hbytes h2) buf data" "vm h2 = vm h1"
      "\<forall>(q, l) \<in> live h. \<forall>a. q \<le> a \<longrightarrow> a < q + l \<longrightarrow> 2 ^ 47 \<le> a \<and> hbytes h2 a = hbytes h a"
      "elf_load_file dirt h fs fname want tgt = elf_dispatch dirt h2 buf (of_nat (length data)) want tgt"
proof -
  let ?sz = "of_nat (length data) :: u64"
  have u: "unat ?sz = length data" "ucast (of_nat (length data) :: u32) = ?sz"
  proof -
    show "unat ?sz = length data" using len(2) by (simp add: unat_of_nat)
    have "unat (ucast (of_nat (length data) :: u32) :: u64) = unat ?sz"
      using len(2) by (simp add: unsigned_ucast_eq take_bit_nat_eq_self unat_of_nat)
    then show "ucast (of_nat (length data) :: u32) = ?sz" by (rule word_unat_eq_iff [THEN iffD2])
  qed
  have nz: "?sz \<noteq> 0" "of_nat (length data) \<noteq> (0 :: u32)" using len by (simp_all add: word_unat_eq_iff unat_of_nat)
  obtain r h1 where k: "kmalloc h ?sz = Some (Ret r, h1)" "heap_inv h1" "hbytes h1 = hbytes h"
      "case r of None \<Rightarrow> live h1 = live h | Some p \<Rightarrow> \<exists>s. round16 ?sz \<le> s \<and> live h1 = insert (p, s) (live h) \<and> (\<forall>s'. (p, s') \<notin> live h)"
    using kmalloc_spec [OF inv nz(1)] grow unfolding heap_can_grow_def by blast
  show thesis
  proof (cases r)
    case None
    have "elf_load_file dirt h fs fname want tgt = Some (Ret (0, 0), h1)"
      using size nz u(2) k(1) None by (simp add: elf_load_file_def)
    then show thesis using none [of h1] k None by simp
  next
    case (Some buf)
    then obtain n where n: "round16 ?sz \<le> n" "live h1 = insert (buf, n) (live h)" "\<forall>s'. (buf, s') \<notin> live h" using k(4) by auto
    have le: "length data \<le> n" using n(1) round16_bounds(1) [of ?sz] grow u(1) by (simp add: heap_can_grow_def)
    define h2 where "h2 = h1\<lparr>hbytes := put_bytes (hbytes h1) buf data\<rparr>"
    have own: "(buf, n) \<in> live h1" using n(2) by simp
    have up: "HEAP_START_VADDR \<le> q" if "(q, l) \<in> live h1" for q l using live_region(1) [OF k(2) that] by simp
    have "2 ^ 47 \<le> buf" using up [OF own] by simp
    moreover have "holds (hbytes h2) buf data" by (simp add: holds_def h2_def put_bytes_def)
    moreover have "\<forall>(q, l) \<in> live h. \<forall>a. q \<le> a \<longrightarrow> a < q + l \<longrightarrow> 2 ^ 47 \<le> a \<and> hbytes h2 a = hbytes h a"
    proof safe
      fix q l a
      assume q: "(q, l) \<in> live h" "q \<le> a" "a < q + l"
      then have "(q, l) \<in> live h1" "(q, l) \<noteq> (buf, n)" using n(2,3) by auto
      then have "buf + n \<le> q \<or> q + l \<le> buf" "HEAP_START_VADDR \<le> q" using live_disjoint [OF k(2) own] up by auto
      then show "2 ^ 47 \<le> a" "hbytes h2 a = hbytes h a" using q(2,3) le k(3) by (auto simp: h2_def put_bytes_def)
    qed
    moreover have "heap_shape h2" using heap_shapeI [OF k(2), where v = "vm h1"] by (simp add: h2_def)
    moreover have "elf_load_file dirt h fs fname want tgt = elf_dispatch dirt h2 buf (of_nat (length data)) want tgt"
      using size nz u(2) k(1) Some read by (simp add: elf_load_file_def elf_dispatch_def h2_def Let_def)
    ultimately show thesis using buffer [of buf h1 h2 n] k(1) Some n own by (simp add: h2_def)
  qed
qed

section \<open>Properties\<close>

text \<open>
  C13. \<open>elf_load_file\<close> on a file that is a sound ELF64 image, with an empty user half and frames
  enough in the target space: unless the heap has no room for the file buffer, it returns the entry
  point and, when asked, the top of the stack; then exactly the pages of the segments and of the stack are
  mapped in the user half, each segment holds its bytes of the file followed by zeros, and the stack is
  zero. In both cases the file buffer is given back, and neither the set of allocated regions nor
  a byte of one has changed.
\<close>

theorem elf_load_file_correct:
  assumes "heap_inv h" "heap_can_grow h (of_nat (length data))" "elf64_image data"
    "kfs_get_file_size fs (elf_path fname) = Some (of_nat (length data))"
    "kfs_read_to_buffer fs (elf_path fname) (of_nat (length data)) = Some (Some data)"
    "\<forall>p h1. kmalloc h (of_nat (length data)) = Some (Ret (Some p), h1) \<longrightarrow>
       loading h1 tgt {} (cost_of (segs_from data 0) + (if want_stack then 64 else 0))"
  shows "\<exists>r h'. elf_load_file dirt h fs fname want_stack tgt = Some (Ret r, h') \<and> live h' = live h \<and> heap_shape h' \<and>
    (\<forall>(q, l) \<in> live h. \<forall>a. q \<le> a \<longrightarrow> a < q + l \<longrightarrow> hbytes h' a = hbytes h a) \<and>
    (if \<exists>h1. kmalloc h (of_nat (length data)) = Some (Ret None, h1) then r = (0, 0)
     else r = (e_entry (ehdr_of data), if want_stack then USER_STACK_TOP else 0) \<and> image_in data want_stack h' tgt)"
proof -
  have len: "0 < length data" "length data < 2 ^ 32" using assms(3) by (auto simp: elf64_image_def)
  from assms(1,2) len assms(4,5) show ?thesis
  proof (cases rule: elf_buffer [where dirt = dirt and want = want_stack and tgt = tgt])
    case (none h1)
    have "heap_shape h1" using heap_shapeI [OF none(2), where v = "vm h1" and b = "hbytes h1"] by simp
    then show ?thesis using none by auto
  next
    case (buffer buf n h1 h2)
    have l: "loading h2 tgt {} (cost_of (segs_from data 0) + (if want_stack then 64 else 0))"
      using assms(6) buffer(1,7) by (simp add: loading_def)
    obtain h' where h': "load_elf64 dirt h2 buf (of_nat (length data)) want_stack tgt =
          Some (Ret (e_entry (ehdr_of data), if want_stack then USER_STACK_TOP else 0), h')"
        "heap_shape h'" "live h' = live h2 - {(buf, n)}" "image_in data want_stack h' tgt" "\<forall>a \<ge> 2 ^ 47. hbytes h' a = hbytes h2 a"
      by (rule load_elf64_spec [OF assms(3) buffer(2,3,5,6) l])
    have id: "hbytes h2 (buf + i) = [0x7F, 69, 76, 70, 2] ! i" if "i < 5" for i
    proof -
      have "hbytes h2 (buf + i) = data ! i" using buffer(6) assms(3) that by (simp add: holds_def elf64_image_def)
      also have "\<dots> = take 5 data ! i" using that by simp
      also have "take 5 data = [0x7F, 69, 76, 70, 2]" using assms(3) unfolding elf64_image_def by blast
      finally show ?thesis .
    qed
    have "elf_dispatch dirt h2 buf (of_nat (length data)) want_stack tgt = load_elf64 dirt h2 buf (of_nat (length data)) want_stack tgt"
      using id [of 0] id [of 1] id [of 2] id [of 3] id [of 4] by (simp add: elf_dispatch_def)
    then have call: "elf_load_file dirt h fs fname want_stack tgt =
        Some (Ret (e_entry (ehdr_of data), if want_stack then USER_STACK_TOP else 0), h')"
      using buffer(9) h'(1) by simp
    have "\<forall>(q, l) \<in> live h. \<forall>a. q \<le> a \<longrightarrow> a < q + l \<longrightarrow> hbytes h' a = hbytes h a" using buffer(8) h'(5) by fastforce
    moreover have "\<not> (\<exists>h1. kmalloc h (of_nat (length data)) = Some (Ret None, h1))" using buffer(1) by simp
    ultimately show ?thesis using call h'(2-4) buffer(4) by (intro exI [of _ "(e_entry (ehdr_of data), if want_stack then USER_STACK_TOP else 0)"] exI [of _ h']) simp
  qed
qed

text \<open>Files the loader refuses before it maps a page.\<close>

definition ehdr32_of :: "bytes \<Rightarrow> elf32_ehdr" where
  "ehdr32_of data = ehdr32_at (bytes_of data) 0"

definition refused :: "bytes \<Rightarrow> u64 \<Rightarrow> bool" where
  "refused data tgt \<longleftrightarrow>
     take 4 data \<noteq> [0x7F, 69, 76, 70] \<or> (data ! 4 \<noteq> ELFCLASS64 \<and> data ! 4 \<noteq> ELFCLASS32) \<or> tgt = PHYS_NULL \<or>
     (data ! 4 = ELFCLASS64 \<and> length data < unat (e_phoff (ehdr_of data)) + 56 * unat (e_phnum (ehdr_of data))) \<or>
     (data ! 4 = ELFCLASS32 \<and> length data < unat (e32_phoff (ehdr32_of data)) + 32 * unat (e32_phnum (ehdr32_of data)))"

lemma ehdr32_held:
  assumes "holds m buf data" "64 \<le> length data"
  shows "ehdr32_at m buf = ehdr32_of data"
  unfolding ehdr32_at_def ehdr32_of_def
  using assms by (auto simp: holds_def bytes_of_def add.assoc intro!: load_agree)

lemma phnum_size: "unat (ucast (n :: u16) * 56 :: u64) = 56 * unat n" "unat (ucast n * 32 :: u64) = 32 * unat n"
proof -
  have "unat n < 2 ^ 16" using unsigned_less [where ?'a = nat, of n] by simp
  then show "unat (ucast n * 56 :: u64) = 56 * unat n" "unat (ucast n * 32 :: u64) = 32 * unat n"
    by (simp_all add: unat_word_ariths unsigned_ucast_eq take_bit_nat_eq_self)
qed

lemma dispatch_refused:
  assumes r: "refused data tgt" and held: "holds (hbytes h) buf data" and len: "64 \<le> length data" "length data < 2 ^ 32"
  shows "elf_dispatch dirt h buf (of_nat (length data)) want tgt = elf_free h buf (0, 0)"
proof -
  have b: "hbytes h (buf + i) = data ! i" if "i < 64" for i using held len that by (simp add: holds_def)
  have bs: "hbytes h buf = data ! 0" "hbytes h (buf + 1) = data ! 1" "hbytes h (buf + 2) = data ! 2"
      "hbytes h (buf + 3) = data ! 3" "hbytes h (buf + 4) = data ! 4"
    using b [of 0] b [of 1] b [of 2] b [of 3] b [of 4] by simp_all
  have tk: "take 4 data = [data ! 0, data ! 1, data ! 2, data ! 3]"
  proof -
    have "take 4 data = map ((!) data) [0..<4]" using len by (intro nth_equalityI) simp_all
    also have "[0..<4] = [0, 1, 2, 3 :: nat]" by (simp add: upt_rec)
    finally show ?thesis by simp
  qed
  have L: "unat (of_nat (length data) :: u32) = length data" "unat (ucast (of_nat (length data) :: u32) :: u64) = length data"
    using len(2) by (simp_all add: unsigned_ucast_eq take_bit_nat_eq_self unat_of_nat)
  have g64: "load_elf64 dirt h buf (of_nat (length data)) want tgt = elf_free h buf (0, 0)"
    if "tgt = PHYS_NULL \<or> length data < unat (e_phoff (ehdr_of data)) + 56 * unat (e_phnum (ehdr_of data))"
  proof (cases "tgt = PHYS_NULL \<or> e_phoff (ehdr_of data) > ucast (of_nat (length data) :: u32)")
    case False
    then have "unat (ucast (of_nat (length data) :: u32) - e_phoff (ehdr_of data)) = length data - unat (e_phoff (ehdr_of data))"
      using L by (simp add: unat_sub not_less)
    then have "ucast (e_phnum (ehdr_of data)) * 56 > ucast (of_nat (length data) :: u32) - e_phoff (ehdr_of data)"
      unfolding word_less_nat_alt phnum_size using that False L by (auto simp: word_less_nat_alt)
    then show ?thesis using ehdr_held [OF held len(1)] by (simp add: load_elf64_def Let_def)
  qed (use ehdr_held [OF held len(1)] in \<open>auto simp: load_elf64_def Let_def\<close>)
  have g32: "load_elf32 dirt h buf (of_nat (length data)) tgt = elf_free h buf (0, 0)"
    if "tgt = PHYS_NULL \<or> length data < unat (e32_phoff (ehdr32_of data)) + 32 * unat (e32_phnum (ehdr32_of data))"
  proof (cases "tgt = PHYS_NULL \<or> e32_phoff (ehdr32_of data) > of_nat (length data)")
    case False
    then have "unat (ucast (of_nat (length data) - e32_phoff (ehdr32_of data)) :: u64) = length data - unat (e32_phoff (ehdr32_of data))"
      using L(1) len(2) by (simp add: unat_sub not_less unsigned_ucast_eq take_bit_nat_eq_self)
    then have "(ucast (e32_phnum (ehdr32_of data)) * 32 :: u64) > ucast (of_nat (length data) - e32_phoff (ehdr32_of data))"
      unfolding word_less_nat_alt phnum_size using that False L by (auto simp: word_less_nat_alt)
    then show ?thesis using ehdr32_held [OF held len(1)] by (simp add: load_elf32_def Let_def)
  qed (use ehdr32_held [OF held len(1)] in \<open>auto simp: load_elf32_def Let_def\<close>)
  show ?thesis
    unfolding elf_dispatch_def Let_def bs using r g64 g32 by (auto simp: refused_def tk)
qed

text \<open>
  A file that is empty or absent, that is no ELF file, whose class is unknown, whose program headers do
  not lie in the file, or that is to be loaded without an address space is refused: \<open>elf_load_file\<close>
  returns 0 and no stack, maps nothing, and leaves the allocated regions and their bytes as they were.
\<close>

theorem elf_load_file_refuses:
  assumes "heap_inv h" "heap_can_grow h (of_nat (length data))" "length data < 2 ^ 32" "data = [] \<or> 64 \<le> length data \<and> refused data tgt"
    "kfs_get_file_size fs (elf_path fname) = Some (of_nat (length data))"
    "kfs_read_to_buffer fs (elf_path fname) (of_nat (length data)) = Some (Some data)"
  shows "\<exists>h'. elf_load_file dirt h fs fname want_stack tgt = Some (Ret (0, 0), h') \<and> live h' = live h \<and> heap_shape h' \<and>
    (\<forall>(q, l) \<in> live h. \<forall>a. q \<le> a \<longrightarrow> a < q + l \<longrightarrow> hbytes h' a = hbytes h a) \<and>
    (\<exists>r h1. (data = [] \<and> h1 = h \<or> kmalloc h (of_nat (length data)) = Some (Ret r, h1)) \<and> vm h' = vm h1)"
proof (cases "data = []")
  case True
  have "heap_shape h" using heap_shapeI [OF assms(1), where v = "vm h" and b = "hbytes h"] by simp
  with True assms(5) show ?thesis by (auto simp: elf_load_file_def)
next
  case False
  then have r: "64 \<le> length data" "refused data tgt" and len: "0 < length data" using assms(4) by auto
  from assms(1,2) len assms(3,5,6) show ?thesis
  proof (cases rule: elf_buffer [where dirt = dirt and want = want_stack and tgt = tgt])
    case (none h1)
    have "heap_shape h1" using heap_shapeI [OF none(2), where v = "vm h1" and b = "hbytes h1"] by simp
    then show ?thesis using none by auto
  next
    case (buffer buf n h1 h2)
    obtain h' where h': "elf_free h2 buf (0 :: u64, 0 :: u64) = Some (Ret (0, 0), h')" "heap_shape h'" "live h' = live h2 - {(buf, n)}"
        "vm h' = vm h2" "hbytes h' = hbytes h2"
      by (rule elf_free_spec [OF buffer(2,3)])
    have "elf_load_file dirt h fs fname want_stack tgt = Some (Ret (0, 0), h')"
      using buffer(9) dispatch_refused [OF r(2) buffer(6) r(1) assms(3)] h'(1) by simp
    moreover have "\<forall>(q, l) \<in> live h. \<forall>a. q \<le> a \<longrightarrow> a < q + l \<longrightarrow> hbytes h' a = hbytes h a" using buffer(8) h'(5) by fastforce
    ultimately show ?thesis using h'(2-4) buffer(1,4,7) by auto
  qed
qed

section \<open>A program on a small disk\<close>

text \<open>The witness input: an ELF64 file with one segment of four bytes and twelve zeros at 4 MiB.\<close>

definition demo_elf :: bytes where
  "demo_elf = [0x7F, 69, 76, 70, 2] @ replicate 19 0 @ [0, 0, 0x40, 0, 0, 0, 0, 0] @ [64, 0, 0, 0, 0, 0, 0, 0] @ replicate 16 0 @
     [1, 0] @ replicate 6 0 @ [1, 0, 0, 0, 0, 0, 0, 0] @ [120, 0, 0, 0, 0, 0, 0, 0] @ [0, 0, 0x40, 0, 0, 0, 0, 0] @ replicate 8 0 @
     [4, 0, 0, 0, 0, 0, 0, 0] @ [16, 0, 0, 0, 0, 0, 0, 0] @ replicate 8 0 @ [1, 2, 3, 4]"

lemma demo_header: "length demo_elf = 124" "ehdr_of demo_elf = \<lparr>e_entry = 0x400000, e_phoff = 64, e_phnum = 1\<rparr>"
  by code_simp+

lemma demo_byte: "demo_elf ! 123 = 4"
  by code_simp

lemma demo_segs: "segs_from demo_elf 0 = [\<lparr>p_type = 1, p_offset = 120, p_vaddr = 0x400000, p_filesz = 4, p_memsz = 16\<rparr>]"
  by code_simp

lemma demo_image: "elf64_image demo_elf" "cost_of (segs_from demo_elf 0) = 1"
  unfolding elf64_image_def demo_segs demo_header
  by (simp_all add: seg_ok_def seg_hi_def seg_lo_def seg_pages_def cost_of_def seg_cost_def demo_elf_def)

lemma file_on_disk:
  assumes len: "length data + 511 < 2 ^ 32" and one: "sectors_for (of_nat (length data)) = 1"
  obtains fs where "kfs_create_file blank_fs 100 (replicate 23 0) [47, 97] data = Some (True, fs)"
    "kfs_get_file_size fs (elf_path [47, 97]) = Some (of_nat (length data))"
    "kfs_read_to_buffer fs (elf_path [47, 97]) (of_nat (length data)) = Some (Some data)"
proof -
  show thesis
  proof (cases rule: create_file_cases [OF blank_inv small_file(1-3) len, of 100])
    case 1
    then show ?thesis using blank_lookup one blank_free by simp
  next
    case (2 fs C1)
    let ?n = "of_nat (length data) :: u32"
    obtain e sec i where l: "lookup fs [47, 97] = Some (Some (e, sec, i))" using 2(11) by blast
    have rd: "kfs_read_to_buffer fs [47, 97] ?n = Some (Some data)" using 2(4) by simp
    obtain xs where "kfs_read_to_buffer fs [47, 97] ?n =
        Some (if size_bytes e > ?n then None else Some (take (unat (size_bytes e)) (content fs xs)))"
      by (rule read_spec [OF 2(2) l])
    with rd have le: "size_bytes e \<le> ?n" and data: "data = take (unat (size_bytes e)) (content fs xs)" by (auto split: if_splits)
    have "length data \<le> unat (size_bytes e)" by (subst data) simp
    moreover have "unat (size_bytes e) \<le> length data" using le len by (simp add: word_le_nat_alt unat_of_nat)
    ultimately have "size_bytes e = ?n" using len by (simp add: word_unat_eq_iff unat_of_nat)
    then have "kfs_get_file_size fs [47, 97] = Some ?n" using l by (simp add: kfs_get_file_size_def)
    with 2(1) rd show ?thesis by (intro that [of fs]) (simp_all add: elf_path_def)
  qed
qed

lemma demo_heap:
  obtains v where "heap_inv (free_block_heap v)" "heap_can_grow (free_block_heap v) 124" "heap_can_grow (free_block_heap v) 64"
    "\<forall>p h1. kmalloc (free_block_heap v) 124 = Some (Ret p, h1) \<longrightarrow> p \<noteq> None \<and> loading h1 0x1000 {} 65"
proof -
  obtain v where v: "heap_inv (one_block_heap v)" "tree_ok v 0x1000"
      "\<And>va. page_path va \<noteq> page_path (of_nat HEAP_START_VADDR) \<Longrightarrow> walk v 0x1000 (page_path va) = Unmapped"
      "\<exists>s. pmm_init_dynamic small_memmap = Some s \<and> map_walk (empty_vmm s) (of_nat HEAP_START_VADDR) 0x5000000 3 0x1000 = (True, v)"
    by (rule one_block_heap_state) blast
  let ?h = "free_block_heap v"
  have rep: "heap_rep ?h [HEAP_START_VADDR]" by (simp add: heap_rep_def free_block_heap_def one_block_heap_def)
  have inv: "heap_inv ?h"
    using v(1) exI [of "heap_rep ?h", OF rep] by (simp add: heap_inv_def heap_mapped_def free_block_heap_def one_block_heap_def)
  have grow: "heap_can_grow ?h 124" "heap_can_grow ?h 64" by (simp_all add: heap_can_grow_def free_block_heap_def one_block_heap_def)
  obtain s where s: "pmm_init_dynamic small_memmap = Some s" "map_walk (empty_vmm s) (of_nat HEAP_START_VADDR) 0x5000000 3 0x1000 = (True, v)"
    using v(4) by blast
  note sm = small_machine_room [OF s]
  have room: "4000 \<le> pmm_room (frames v)" by (rule sm(2))
  have "no_huge {..<256} v 0x1000" by (rule no_huge_mono [OF sm(1)]) auto
  moreover have "user_pages v 0x1000 {}"
    unfolding user_pages_def
  proof (intro allI impI)
    fix k :: nat
    assume k: "k < 2 ^ 35"
    have "page_path (pgno k) \<noteq> page_path (of_nat HEAP_START_VADDR)" unfolding page_path_number using k by (simp add: unat_pgno)
    then show "if k \<in> {} then user_page v 0x1000 (pgno k) else walk v 0x1000 (page_path (pgno k)) = Unmapped" using v(3) by simp
  qed
  moreover have "p \<noteq> None \<and> vm h1 = v" if "kmalloc ?h 124 = Some (Ret p, h1)" for p h1
  proof -
    have "first_fit (hmem ?h) (heap_head ?h) (round16 124) = Some (Ret (Some HEAP_START_VADDR))"
      by (simp add: first_fit.simps free_block_heap_def one_block_heap_def round16_def)
    then show ?thesis using that by (auto simp: kmalloc_unfold free_block_heap_def one_block_heap_def)
  qed
  ultimately show thesis using that [OF inv grow] v(2) room by (simp add: loading_def)
qed

theorem elf_load_file_witness:
  "\<exists>v fs h'. kfs_create_file blank_fs 100 (replicate 23 0) [47, 97] demo_elf = Some (True, fs) \<and>
     elf_load_file (\<lambda>_ _. 0xCC) (free_block_heap v) fs [47, 97] True 0x1000 = Some (Ret (0x400000, 0xC000000), h') \<and>
     live h' = {} \<and> hbytes h' 0x400003 = 4 \<and> hbytes h' 0x400004 = 0 \<and> hbytes h' 0xBFFFFFF = 0"
proof -
  obtain v where v: "heap_inv (free_block_heap v)" "heap_can_grow (free_block_heap v) 124"
      "\<forall>p h1. kmalloc (free_block_heap v) 124 = Some (Ret p, h1) \<longrightarrow> p \<noteq> None \<and> loading h1 0x1000 {} 65"
    by (rule demo_heap) blast
  have f: "length demo_elf + 511 < 2 ^ 32" "sectors_for (of_nat (length demo_elf)) = 1" by (simp_all add: demo_header sectors_for_def)
  obtain fs where fs: "kfs_create_file blank_fs 100 (replicate 23 0) [47, 97] demo_elf = Some (True, fs)"
      "kfs_get_file_size fs (elf_path [47, 97]) = Some (of_nat (length demo_elf))"
      "kfs_read_to_buffer fs (elf_path [47, 97]) (of_nat (length demo_elf)) = Some (Some demo_elf)"
    by (rule file_on_disk [OF f])
  have l: "\<forall>p h1. kmalloc (free_block_heap v) (of_nat (length demo_elf)) = Some (Ret (Some p), h1) \<longrightarrow>
      loading h1 0x1000 {} (cost_of (segs_from demo_elf 0) + (if True then 64 else 0))"
    using v(3) by (simp add: demo_header demo_image(2))
  have grow: "heap_can_grow (free_block_heap v) (of_nat (length demo_elf))" using v(2) by (simp add: demo_header)
  have some: "\<not> (\<exists>h1. kmalloc (free_block_heap v) (of_nat (length demo_elf)) = Some (Ret None, h1))"
    using v(3) by (auto simp: demo_header)
  have lv: "live (free_block_heap v) = {}"
  proof -
    have "heap_rep (free_block_heap v) [HEAP_START_VADDR]" by (simp add: heap_rep_def free_block_heap_def one_block_heap_def)
    from live_rep [OF this] show ?thesis by (simp add: free_block_heap_def one_block_heap_def)
  qed
  obtain r h' where h': "elf_load_file (\<lambda>_ _. 0xCC) (free_block_heap v) fs [47, 97] True 0x1000 = Some (Ret r, h')" "live h' = {}"
      "r = (0x400000, 0xC000000)" "image_in demo_elf True h' 0x1000"
    using elf_load_file_correct [OF v(1) grow demo_image(1) fs(2,3) l, of "\<lambda>_ _. 0xCC"] some lv by (auto simp: demo_header)
  have "in_seg \<lparr>p_type = 1, p_offset = 120, p_vaddr = 0x400000, p_filesz = 4, p_memsz = 16\<rparr> a \<longrightarrow>
      hbytes h' a = seg_byte demo_elf \<lparr>p_type = 1, p_offset = 120, p_vaddr = 0x400000, p_filesz = 4, p_memsz = 16\<rparr> a" for a
    using h'(4) unfolding image_in_def demo_segs by simp
  from this [of "0x400003"] this [of "0x400004"] have "hbytes h' 0x400003 = 4" "hbytes h' 0x400004 = 0"
    by (simp_all add: in_seg_def seg_lo_def seg_hi_def seg_byte_def demo_byte)
  moreover have "hbytes h' 0xBFFFFFF = 0" using h'(4) by (simp add: image_in_def)
  ultimately show ?thesis using fs(1) h'(1-3) by blast
qed

theorem elf_load_file_refuses_witness:
  "\<exists>v fs h'. kfs_create_file blank_fs 100 (replicate 23 0) [47, 97] (replicate 64 0) = Some (True, fs) \<and>
     elf_load_file (\<lambda>_ _. 0xCC) (free_block_heap v) fs [47, 97] True 0x1000 = Some (Ret (0, 0), h') \<and> live h' = live (free_block_heap v)"
proof -
  obtain v where v: "heap_inv (free_block_heap v)" "heap_can_grow (free_block_heap v) 64" by (rule demo_heap) blast
  let ?d = "replicate 64 (0 :: u8)"
  have f: "length ?d + 511 < 2 ^ 32" "sectors_for (of_nat (length ?d)) = 1" by (simp_all add: sectors_for_def)
  obtain fs where fs: "kfs_create_file blank_fs 100 (replicate 23 0) [47, 97] ?d = Some (True, fs)"
      "kfs_get_file_size fs (elf_path [47, 97]) = Some (of_nat (length ?d))"
      "kfs_read_to_buffer fs (elf_path [47, 97]) (of_nat (length ?d)) = Some (Some ?d)"
    by (rule file_on_disk [OF f])
  have r: "?d = [] \<or> 64 \<le> length ?d \<and> refused ?d 0x1000" by (simp add: refused_def)
  have grow: "heap_can_grow (free_block_heap v) (of_nat (length ?d))" using v(2) by simp
  have len: "length ?d < 2 ^ 32" by simp
  from elf_load_file_refuses [OF v(1) grow len r fs(2,3), of "\<lambda>_ _. 0xCC" True] fs(1) show ?thesis by blast
qed

end
