(* ===== verification/User_Copy.thy ===== *)
theory User_Copy
  imports Page_Walk Kernel_String
begin

text \<open>
  The boundary between user and kernel memory, \<^verbatim>\<open>kernel/usercopy.c\<close>: validation of user
  pointers and the three copy routines. The byte store is the virtual memory under the
  caller's page tables (a system call does not switch CR3); the SMAP window around a
  dereference has no effect on the values read and written.
\<close>

section \<open>Definitions\<close>

abbreviation UC_USER_VA_MAX :: u64 where "UC_USER_VA_MAX \<equiv> 0x0000800000000000"
abbreviation UC_MAX_RANGE :: u64 where "UC_MAX_RANGE \<equiv> 0x4000000"

record ucopy_ctx =
  from_user :: bool
  uc_pml4 :: u64

text \<open>
  \<open>ucopy_ctx_init\<close>: the caller's privilege from the saved code segment, its address space
  from the task table (\<open>pml4s\<close> lists the \<open>pml4_phys\<close> fields of the tasks created so far).
\<close>

definition ucopy_ctx_init :: "u64 \<Rightarrow> int \<Rightarrow> u64 list \<Rightarrow> ucopy_ctx" where
  "ucopy_ctx_init cs task_id pml4s =
     \<lparr>from_user = (cs AND 3 = 3),
      uc_pml4 = (if 0 \<le> task_id \<and> task_id < int (length pml4s) then pml4s ! nat task_id else PHYS_NULL)\<rparr>"

partial_function (option) pages_mapped :: "vmm_state \<Rightarrow> u64 \<Rightarrow> u64 \<Rightarrow> u64 \<Rightarrow> bool option" where
  "pages_mapped v pml4 p lst =
     (if \<not> paging_is_mapped_into v p pml4 then Some False
      else if p = lst then Some True
      else pages_mapped v pml4 (p + 0x1000) lst)"

definition user_range_ok :: "vmm_state \<Rightarrow> ucopy_ctx \<Rightarrow> u64 \<Rightarrow> u64 \<Rightarrow> bool option" where
  "user_range_ok v ctx uaddr len =
     (if uaddr = 0 then Some False
      else if len = 0 then Some True
      else if len > UC_MAX_RANGE then Some False
      else if uaddr + len < uaddr then Some False
      else if \<not> from_user ctx then Some True
      else if uaddr \<ge> UC_USER_VA_MAX \<or> len > UC_USER_VA_MAX - uaddr then Some False
      else pages_mapped v (uc_pml4 ctx) (uaddr AND PAGE_MASK) ((uaddr + len - 1) AND PAGE_MASK))"

definition copy_from_user :: "vmm_state \<Rightarrow> ucopy_ctx \<Rightarrow> nat \<Rightarrow> u64 \<Rightarrow> u64 \<Rightarrow> bytes \<Rightarrow> (int \<times> bytes) option" where
  "copy_from_user v ctx kdst usrc len m =
     (case user_range_ok v ctx usrc len of
        None \<Rightarrow> None
      | Some False \<Rightarrow> Some (-1, m)
      | Some True \<Rightarrow> Some (0, memcpy kdst (unat usrc) (unat len) m))"

definition copy_to_user :: "vmm_state \<Rightarrow> ucopy_ctx \<Rightarrow> u64 \<Rightarrow> nat \<Rightarrow> u64 \<Rightarrow> bytes \<Rightarrow> (int \<times> bytes) option" where
  "copy_to_user v ctx udst ksrc len m =
     (case user_range_ok v ctx udst len of
        None \<Rightarrow> None
      | Some False \<Rightarrow> Some (-1, m)
      | Some True \<Rightarrow> Some (0, memcpy (unat udst) ksrc (unat len) m))"

text \<open>
  \<open>strncpy_from_user\<close>: the two loops, with \<open>n\<close> the rest of \<open>cap - 1\<close> and \<open>i\<close> the bytes copied
  so far. The result is the length, or \<open>None\<close> for the failure of the second loop.
\<close>

fun strncpy_kernel :: "nat \<Rightarrow> nat \<Rightarrow> nat \<Rightarrow> nat \<Rightarrow> bytes \<Rightarrow> nat \<times> bytes" where
  "strncpy_kernel kdst s i 0 m = (i, m)"
| "strncpy_kernel kdst s i (Suc n) m =
     (if m (s + i) \<noteq> 0 then strncpy_kernel kdst s (Suc i) n (m(kdst + i := m (s + i))) else (i, m))"

fun strncpy_user :: "vmm_state \<Rightarrow> u64 \<Rightarrow> nat \<Rightarrow> u64 \<Rightarrow> nat \<Rightarrow> nat \<Rightarrow> u64 \<Rightarrow> bytes \<Rightarrow> nat option \<times> bytes" where
  "strncpy_user v pml4 kdst usrc i 0 checked m = (Some i, m)"
| "strncpy_user v pml4 kdst usrc i (Suc n) checked m =
     (let addr = usrc + of_nat i; page = addr AND PAGE_MASK
      in if addr < usrc then (None, m)
         else if page \<noteq> checked \<and> page \<ge> UC_USER_VA_MAX then (None, m)
         else if page \<noteq> checked \<and> \<not> paging_is_mapped_into v page pml4 then (None, m)
         else
           let c = m (unat addr)
           in if c = 0 then (Some i, m)
              else strncpy_user v pml4 kdst usrc (Suc i) n page (m(kdst + i := c)))"

definition strncpy_from_user :: "vmm_state \<Rightarrow> ucopy_ctx \<Rightarrow> nat \<Rightarrow> u64 \<Rightarrow> nat \<Rightarrow> bytes \<Rightarrow> int \<times> bytes" where
  "strncpy_from_user v ctx kdst usrc cap m =
     (if usrc = 0 \<or> cap = 0 then (-1, m)
      else if \<not> from_user ctx
      then let (i, m1) = strncpy_kernel kdst (unat usrc) 0 (cap - 1) m in (int i, m1(kdst + i := 0))
      else
        case strncpy_user v (uc_pml4 ctx) kdst usrc 0 (cap - 1) 1 m of
          (None, m1) \<Rightarrow> (-1, m1)
        | (Some i, m1) \<Rightarrow> (int i, m1(kdst + i := 0)))"

section \<open>Validation of a range\<close>

text \<open>What a successful validation promises about a ring-3 range.\<close>

definition user_bytes :: "vmm_state \<Rightarrow> u64 \<Rightarrow> nat \<Rightarrow> nat \<Rightarrow> bool" where
  "user_bytes v pml4 a n \<longleftrightarrow>
     a + n \<le> unat UC_USER_VA_MAX \<and>
     (\<forall>i < n. paging_is_mapped_into v (of_nat (a + i) AND PAGE_MASK) pml4)"

lemma pages_mapped_spec:
  assumes "unat lst = unat p + k * 4096" "frame_aligned p"
  shows "pages_mapped v pml4 p lst = Some (\<forall>j \<le> k. paging_is_mapped_into v (p + of_nat j * 0x1000) pml4)"
  using assms
proof (induction k arbitrary: p)
  case 0
  then have "lst = p" by (simp add: word_unat_eq_iff)
  then show ?case by (subst pages_mapped.simps) simp
next
  case (Suc k)
  have ne: "p \<noteq> lst" using Suc.prems(1) by auto
  have lt: "unat p + 4096 < W64" if "W64 = 2 ^ 64" for W64 :: nat
    using Suc.prems(1) unat_lt64 [of lst] that by simp
  then have u: "unat (p + 0x1000) = unat p + 4096" by (simp add: unat_word_ariths)
  have "pages_mapped v pml4 (p + 0x1000) lst =
      Some (\<forall>j \<le> k. paging_is_mapped_into v (p + 0x1000 + of_nat j * 0x1000) pml4)"
    by (rule Suc.IH) (use Suc.prems u in \<open>simp_all add: frame_aligned_def\<close>)
  moreover have "(\<forall>j \<le> Suc k. P j) \<longleftrightarrow> P 0 \<and> (\<forall>j \<le> k. P (Suc j))" for P
    by (metis Suc_le_mono le0 not0_implies_Suc)
  ultimately show ?case
    using ne by (subst pages_mapped.simps) (simp add: algebra_simps)
qed

lemma unat_eqI: "unat (x :: u64) = n \<Longrightarrow> x = of_nat n"
  by auto

lemma range_pages:
  assumes n: "0 < n" and le: "unat a + n \<le> unat UC_USER_VA_MAX"
  shows "\<exists>k. unat ((a + of_nat n - 1) AND PAGE_MASK) = unat (a AND PAGE_MASK) + k * 4096 \<and>
    (\<forall>P. (\<forall>j \<le> k. P ((a AND PAGE_MASK) + of_nat j * 0x1000)) \<longleftrightarrow>
         (\<forall>i < n. P (of_nat (unat a + i) AND PAGE_MASK)))"
proof -
  have max: "unat UC_USER_VA_MAX = 0x800000000000" by simp
  have n64: "n < 2 ^ 64" "unat a + n - 1 < 2 ^ 64" using le max by simp_all
  have "a + of_nat n - 1 = of_nat (unat a + n - 1)"
    using n by (simp add: of_nat_diff)
  then have last: "unat ((a + of_nat n - 1) AND PAGE_MASK) = (unat a + n - 1) div 4096 * 4096"
    using n64(2) by (simp add: unat_page)
  let ?k = "(unat a + n - 1) div 4096 - unat a div 4096"
  have le_div: "unat a div 4096 \<le> (unat a + n - 1) div 4096" using n by (intro div_le_mono) simp
  have page: "(a AND PAGE_MASK) + of_nat j * 0x1000 = of_nat ((unat a div 4096 + j) * 4096)" if "j \<le> ?k" for j
  proof -
    have "a AND PAGE_MASK = of_nat (unat a div 4096 * 4096)"
      by (rule unat_eqI) (rule unat_page)
    then show ?thesis by (simp add: algebra_simps)
  qed
  have byte: "(of_nat (unat a + i) :: u64) AND PAGE_MASK = of_nat ((unat a + i) div 4096 * 4096)" if "i < n" for i
  proof -
    have "unat a + i < 2 ^ 64" using that n64 by simp
    then have "unat ((of_nat (unat a + i) :: u64) AND PAGE_MASK) = (unat a + i) div 4096 * 4096"
      unfolding unat_page using unat_of_nat_small [of "unat a + i", where 'a = 64] by simp
    then show ?thesis by (rule unat_eqI)
  qed
  have "(\<forall>j \<le> ?k. P ((a AND PAGE_MASK) + of_nat j * 0x1000)) \<longleftrightarrow> (\<forall>i < n. P (of_nat (unat a + i) AND PAGE_MASK))" for P
  proof
    assume all: "\<forall>j \<le> ?k. P ((a AND PAGE_MASK) + of_nat j * 0x1000)"
    show "\<forall>i < n. P (of_nat (unat a + i) AND PAGE_MASK)"
    proof (intro allI impI)
      fix i assume i: "i < n"
      have "unat a div 4096 \<le> (unat a + i) div 4096" "(unat a + i) div 4096 \<le> (unat a + n - 1) div 4096"
        using i by (auto intro!: div_le_mono)
      then have "(unat a + i) div 4096 - unat a div 4096 \<le> ?k"
          "unat a div 4096 + ((unat a + i) div 4096 - unat a div 4096) = (unat a + i) div 4096"
        by (auto intro: diff_le_mono)
      with all page byte [OF i] show "P (of_nat (unat a + i) AND PAGE_MASK)" by metis
    qed
  next
    assume all: "\<forall>i < n. P (of_nat (unat a + i) AND PAGE_MASK)"
    show "\<forall>j \<le> ?k. P ((a AND PAGE_MASK) + of_nat j * 0x1000)"
    proof (intro allI impI)
      fix j assume j: "j \<le> ?k"
      define x where "x = max (unat a) ((unat a div 4096 + j) * 4096)"
      have xd: "x div 4096 = unat a div 4096 + j"
      proof (cases j)
        case 0
        then have "x = unat a" by (simp add: x_def max_absorb1)
        with 0 show ?thesis by simp
      next
        case (Suc i)
        have "unat a < (unat a div 4096 + j) * 4096"
          using Suc dividend_less_div_times [of 4096 "unat a"] by (simp add: algebra_simps)
        then show ?thesis by (simp add: x_def)
      qed
      have "unat a div 4096 + j \<le> (unat a + n - 1) div 4096" using j le_div by linarith
      then have "(unat a div 4096 + j) * 4096 \<le> unat a + n - 1"
        by (metis div_times_less_eq_dividend le_trans mult_le_mono1)
      then have "x \<le> unat a + n - 1" using n by (simp add: x_def)
      then have "x - unat a < n" "unat a + (x - unat a) = x" using n by (auto simp: x_def)
      with all byte [of "x - unat a"] xd page [OF j] show "P ((a AND PAGE_MASK) + of_nat j * 0x1000)"
        by metis
    qed
  qed
  moreover have "unat ((a + of_nat n - 1) AND PAGE_MASK) = unat (a AND PAGE_MASK) + ?k * 4096"
  proof -
    have "(unat a + n - 1) div 4096 * 4096 = (unat a div 4096 + ?k) * 4096"
      by (simp only: le_add_diff_inverse [OF le_div])
    then show ?thesis by (simp only: last unat_page [of a] distrib_right)
  qed
  ultimately show ?thesis by blast
qed

lemma user_range_ok_ring3:
  assumes "from_user ctx" "uaddr \<noteq> 0" "len \<noteq> 0"
  shows "user_range_ok v ctx uaddr len =
    Some (len \<le> UC_MAX_RANGE \<and> user_bytes v (uc_pml4 ctx) (unat uaddr) (unat len))"
proof (cases "len > UC_MAX_RANGE")
  case True
  with assms show ?thesis by (simp add: user_range_ok_def not_le [symmetric])
next
  case False
  have max: "unat UC_USER_VA_MAX = 0x800000000000" by simp
  have len: "unat len \<le> 0x4000000" using False by (simp add: word_le_nat_alt not_less)
  have pos: "0 < unat len" using assms(3) by (simp add: unat_gt_0)
  show ?thesis
  proof (cases "unat uaddr + unat len \<le> unat UC_USER_VA_MAX")
    case out: False
    have "user_range_ok v ctx uaddr len = Some False"
    proof (cases "uaddr \<ge> UC_USER_VA_MAX")
      case True
      with assms False show ?thesis by (simp add: user_range_ok_def)
    next
      case lo: False
      then have "unat uaddr < unat UC_USER_VA_MAX" by (simp add: word_less_nat_alt not_le)
      then have "unat (UC_USER_VA_MAX - uaddr) = unat UC_USER_VA_MAX - unat uaddr"
        by (intro unat_sub) (simp add: word_le_nat_alt)
      then have "unat (UC_USER_VA_MAX - uaddr) < unat len"
        using out \<open>unat uaddr < unat UC_USER_VA_MAX\<close> by linarith
      then have "len > UC_USER_VA_MAX - uaddr" by (simp add: word_less_nat_alt)
      with assms False show ?thesis by (simp add: user_range_ok_def)
    qed
    with out show ?thesis by (simp add: user_bytes_def)
  next
    case ok: True
    have nw: "unat (uaddr + len) = unat uaddr + unat len"
      using ok max by (simp add: unat_word_ariths)
    then have "\<not> uaddr + len < uaddr" by (simp add: word_less_nat_alt)
    moreover have lo: "uaddr < UC_USER_VA_MAX" using ok pos by (simp add: word_less_nat_alt)
    have "unat (UC_USER_VA_MAX - uaddr) = unat UC_USER_VA_MAX - unat uaddr"
      by (rule unat_sub [OF less_imp_le [OF lo]])
    then have "\<not> len > UC_USER_VA_MAX - uaddr" using ok by (simp add: word_less_nat_alt)
    ultimately have "user_range_ok v ctx uaddr len =
        pages_mapped v (uc_pml4 ctx) (uaddr AND PAGE_MASK) ((uaddr + len - 1) AND PAGE_MASK)"
      using assms False lo [unfolded not_le [symmetric]] unfolding user_range_ok_def by simp
    moreover obtain k where k: "unat ((uaddr + len - 1) AND PAGE_MASK) = unat (uaddr AND PAGE_MASK) + k * 4096"
        "\<And>P. (\<forall>j \<le> k. P ((uaddr AND PAGE_MASK) + of_nat j * 0x1000)) \<longleftrightarrow>
           (\<forall>i < unat len. P (of_nat (unat uaddr + i) AND PAGE_MASK))"
      using range_pages [OF pos ok] by auto
    ultimately show ?thesis
      using pages_mapped_spec [OF k(1) page_aligned] k(2) ok False
      by (simp add: user_bytes_def not_less)
  qed
qed

section \<open>Strings\<close>

text \<open>Only bytes of the destination buffer are written.\<close>

lemma strncpy_kernel_frame:
  "strncpy_kernel kdst s i n m = (j, m') \<Longrightarrow> i \<le> j \<and> j \<le> i + n \<and> (\<forall>a. \<not> (kdst + i \<le> a \<and> a < kdst + j) \<longrightarrow> m' a = m a)"
proof (induction n arbitrary: i m)
  case (Suc n)
  show ?case
  proof (cases "m (s + i) = 0")
    case True
    with Suc.prems show ?thesis by simp
  next
    case False
    then have "strncpy_kernel kdst s (Suc i) n (m(kdst + i := m (s + i))) = (j, m')" using Suc.prems by simp
    from Suc.IH [OF this] show ?thesis by auto
  qed
qed simp

text \<open>A byte the loop may read: below the user limit and mapped.\<close>

definition user_byte :: "vmm_state \<Rightarrow> u64 \<Rightarrow> nat \<Rightarrow> bool" where
  "user_byte v pml4 a \<longleftrightarrow> a < unat UC_USER_VA_MAX \<and> paging_is_mapped_into v (of_nat a AND PAGE_MASK) pml4"

lemma user_byte_page:
  assumes "a < 2 ^ 64"
  shows "user_byte v pml4 a \<longleftrightarrow>
    (of_nat a :: u64) AND PAGE_MASK < UC_USER_VA_MAX \<and> paging_is_mapped_into v (of_nat a AND PAGE_MASK) pml4"
proof -
  have u: "unat ((of_nat a :: u64) AND PAGE_MASK) = a div 4096 * 4096"
    unfolding unat_page using unat_of_nat_small [of a, where 'a = 64] assms by simp
  have "a div 4096 * 4096 < 34359738368 * 4096 \<longleftrightarrow> a div 4096 < 34359738368" by simp
  also have "\<dots> \<longleftrightarrow> a < 34359738368 * 4096" by (rule div_less_iff_less_mult) simp
  finally have "a div 4096 * 4096 < 0x800000000000 \<longleftrightarrow> a < 0x800000000000" by simp
  then show ?thesis by (simp add: user_byte_def word_less_nat_alt u)
qed

text \<open>
  The loop from \<open>i\<close> on, when the string ends or is cut at \<open>j\<close>: it succeeds exactly when every byte it
  reads, the terminator included, may be read.
\<close>

lemma strncpy_user_spec:
  assumes "strncpy_user v pml4 kdst usrc i n checked m = (r, m')"
    and "kdst + i + n < unat usrc \<or> unat usrc + i + n \<le> kdst"
    and "unat usrc + i + n < 2 ^ 64"
    and "checked = 1 \<or> checked < UC_USER_VA_MAX \<and> paging_is_mapped_into v checked pml4"
    and "i \<le> j" "j \<le> i + n" "\<forall>x. i \<le> x \<longrightarrow> x < j \<longrightarrow> m (unat usrc + x) \<noteq> 0" "j < i + n \<longrightarrow> m (unat usrc + j) = 0"
  shows "(\<forall>a. \<not> (kdst + i \<le> a \<and> a < kdst + i + n) \<longrightarrow> m' a = m a) \<and>
    (if \<forall>x. i \<le> x \<longrightarrow> x \<le> j \<longrightarrow> x < i + n \<longrightarrow> user_byte v pml4 (unat usrc + x)
     then r = Some j \<and> (\<forall>x. i \<le> x \<longrightarrow> x < j \<longrightarrow> m' (kdst + x) = m (unat usrc + x))
     else r = None)"
  using assms
proof (induction n arbitrary: i checked m)
  case (Suc n)
  let ?addr = "usrc + of_nat i" and ?page = "(usrc + of_nat i) AND PAGE_MASK"
  have addr: "?addr = of_nat (unat usrc + i)" by simp
  have ua: "unat ?addr = unat usrc + i" unfolding addr using Suc.prems(3) by (intro unat_of_nat_small) simp
  have p1: "?page \<noteq> 1"
  proof
    assume "?page = 1"
    then have "unat ?page = 1" by simp
    then show False by (simp add: unat_page)
  qed
  have nw: "\<not> ?addr < usrc" using ua by (simp add: word_less_nat_alt)
  have lt: "unat usrc + i < 2 ^ 64" using Suc.prems(3) by simp
  have ub: "user_byte v pml4 (unat usrc + i) \<longleftrightarrow> ?page < UC_USER_VA_MAX \<and> paging_is_mapped_into v ?page pml4"
    unfolding user_byte_page [OF lt] addr ..
  show ?case
  proof (cases "user_byte v pml4 (unat usrc + i)")
    case False
    then have bad: "?page \<ge> UC_USER_VA_MAX \<or> \<not> paging_is_mapped_into v ?page pml4" unfolding ub by auto
    then have "?page \<noteq> checked" using Suc.prems(4) p1 by (metis not_le)
    then have "strncpy_user v pml4 kdst usrc i (Suc n) checked m = (None, m)"
      using nw bad by (auto simp: Let_def)
    then have "r = None" "m' = m" using Suc.prems(1) by simp_all
    moreover have "\<not> (\<forall>x. i \<le> x \<longrightarrow> x \<le> j \<longrightarrow> x < i + Suc n \<longrightarrow> user_byte v pml4 (unat usrc + x))"
      using False Suc.prems(5) by auto
    ultimately show ?thesis by simp
  next
    case good: True
    then have g: "?page < UC_USER_VA_MAX" "paging_is_mapped_into v ?page pml4" unfolding ub by auto
    have step: "strncpy_user v pml4 kdst usrc i (Suc n) checked m =
        (if m (unat usrc + i) = 0 then (Some i, m)
         else strncpy_user v pml4 kdst usrc (Suc i) n ?page (m(kdst + i := m (unat usrc + i))))"
      using g nw ua unfolding strncpy_user.simps Let_def by (simp add: not_le [symmetric])
    show ?thesis
    proof (cases "m (unat usrc + i) = 0")
      case True
      then have "j = i" using Suc.prems(5,7) by (metis le_neq_implies_less order_refl)
      moreover have "r = Some i" "m' = m" using Suc.prems(1) step True by simp_all
      moreover have "\<forall>x. i \<le> x \<longrightarrow> x \<le> i \<longrightarrow> x < i + Suc n \<longrightarrow> user_byte v pml4 (unat usrc + x)"
        using good le_antisym by blast
      ultimately show ?thesis by simp
    next
      case False
      let ?m = "m(kdst + i := m (unat usrc + i))"
      have run: "strncpy_user v pml4 kdst usrc (Suc i) n ?page ?m = (r, m')" using Suc.prems(1) step False by simp
      have same: "?m (unat usrc + x) = m (unat usrc + x)" if "Suc i \<le> x" "x < Suc i + n" for x
        using Suc.prems(2) that by auto
      have j: "Suc i \<le> j" "j \<le> Suc i + n" using Suc.prems(5,6,8) False by (auto simp: le_less Suc_le_eq)
      have str: "\<forall>x. Suc i \<le> x \<longrightarrow> x < j \<longrightarrow> ?m (unat usrc + x) \<noteq> 0" "j < Suc i + n \<longrightarrow> ?m (unat usrc + j) = 0"
        using Suc.prems(7,8) same j by auto
      have IH: "(\<forall>a. \<not> (kdst + Suc i \<le> a \<and> a < kdst + Suc i + n) \<longrightarrow> m' a = ?m a) \<and>
        (if \<forall>x. Suc i \<le> x \<longrightarrow> x \<le> j \<longrightarrow> x < Suc i + n \<longrightarrow> user_byte v pml4 (unat usrc + x)
         then r = Some j \<and> (\<forall>x. Suc i \<le> x \<longrightarrow> x < j \<longrightarrow> m' (kdst + x) = ?m (unat usrc + x))
         else r = None)"
        by (rule Suc.IH [OF run _ _ _ j str]) (use Suc.prems(2,3) g in auto)
      have all: "(\<forall>x. i \<le> x \<longrightarrow> x \<le> j \<longrightarrow> x < i + Suc n \<longrightarrow> user_byte v pml4 (unat usrc + x)) \<longleftrightarrow>
          (\<forall>x. Suc i \<le> x \<longrightarrow> x \<le> j \<longrightarrow> x < Suc i + n \<longrightarrow> user_byte v pml4 (unat usrc + x))"
      proof (intro iffI allI impI)
        fix x
        assume a: "\<forall>x. Suc i \<le> x \<longrightarrow> x \<le> j \<longrightarrow> x < Suc i + n \<longrightarrow> user_byte v pml4 (unat usrc + x)" "i \<le> x" "x \<le> j" "x < i + Suc n"
        then show "user_byte v pml4 (unat usrc + x)" using good by (cases "x = i") auto
      qed simp
      have keep: "m' (kdst + i) = m (unat usrc + i)" using IH by simp
      have frame: "\<forall>a. \<not> (kdst + i \<le> a \<and> a < kdst + i + Suc n) \<longrightarrow> m' a = m a" using IH by auto
      have copied: "m' (kdst + x) = m (unat usrc + x)"
        if "\<forall>x. Suc i \<le> x \<longrightarrow> x < j \<longrightarrow> m' (kdst + x) = ?m (unat usrc + x)" "i \<le> x" "x < j" for x
        using that keep same [of x] j(2) by (cases "x = i") auto
      show ?thesis using IH frame copied unfolding all by (simp split: if_splits)
    qed
  qed
qed (auto split: if_splits)

text \<open>The length of the string at \<open>u\<close>, cut to \<open>k\<close>.\<close>

definition strnlen :: "bytes \<Rightarrow> nat \<Rightarrow> nat \<Rightarrow> nat" where
  "strnlen m u k = length (takeWhile (\<lambda>x. m (u + x) \<noteq> 0) [0..<k])"

lemma strnlen_spec:
  "strnlen m u k \<le> k" "x < strnlen m u k \<Longrightarrow> m (u + x) \<noteq> 0" "strnlen m u k < k \<Longrightarrow> m (u + strnlen m u k) = 0"
proof -
  let ?P = "\<lambda>x. m (u + x) \<noteq> 0"
  show le: "strnlen m u k \<le> k" unfolding strnlen_def using length_takeWhile_le [of ?P "[0..<k]"] by simp
  show "m (u + x) \<noteq> 0" if x: "x < strnlen m u k"
  proof -
    have "takeWhile ?P [0..<k] ! x \<in> set (takeWhile ?P [0..<k])" using x unfolding strnlen_def by (rule nth_mem)
    then have "?P (takeWhile ?P [0..<k] ! x)" by (blast dest: set_takeWhileD)
    moreover have "takeWhile ?P [0..<k] ! x = x"
      using takeWhile_nth [of x ?P "[0..<k]"] x le unfolding strnlen_def by simp
    ultimately show ?thesis by simp
  qed
  show "m (u + strnlen m u k) = 0" if "strnlen m u k < k"
    using nth_length_takeWhile [of ?P "[0..<k]"] that unfolding strnlen_def by simp
qed

section \<open>Properties\<close>

text \<open>
  \<open>user_range_ok\<close> always returns and, for a ring-3 caller and a nonempty range, accepts
  exactly the ranges of at most 64 MiB that lie below the user limit, without wrapping, and
  whose every byte is mapped in the caller's address space.
\<close>

theorem user_range_ok_correct:
  assumes "from_user ctx" "uaddr \<noteq> 0" "len \<noteq> 0"
  shows "user_range_ok v ctx uaddr len =
    Some (len \<le> UC_MAX_RANGE \<and> unat uaddr + unat len \<le> unat UC_USER_VA_MAX \<and>
      (\<forall>i < unat len. paging_is_mapped_into v (of_nat (unat uaddr + i) AND PAGE_MASK) (uc_pml4 ctx)))"
  using user_range_ok_ring3 [OF assms] by (simp add: user_bytes_def)

theorem user_range_ok_correct_witness:
  "\<exists>s. user_range_ok (empty_vmm s) \<lparr>from_user = True, uc_pml4 = 0x1000\<rparr> 0xFFFF900000000000 16 = Some False"
  using user_range_ok_correct [of "\<lparr>from_user = True, uc_pml4 = 0x1000\<rparr>" "0xFFFF900000000000" 16 "empty_vmm pmm_boot"]
  by auto

text \<open>
  C10. \<open>copy_to_user\<close> on behalf of ring 3 never touches memory outside the validated user range:
  it either reports failure and writes nothing, or writes exactly the \<open>len\<close> bytes at the
  destination, all of them below the user limit and mapped for the caller, so that no byte
  of the kernel half changes.
\<close>

theorem copy_to_user_confined:
  assumes "from_user ctx" "copy_to_user v ctx udst ksrc len m = Some (r, m')"
    and "unat udst < ksrc \<or> ksrc + unat len \<le> unat udst"
  shows "(r = -1 \<and> m' = m) \<or>
    (r = 0 \<and> (\<forall>i < unat len. m' (unat udst + i) = m (ksrc + i)) \<and>
     (\<forall>a. \<not> (unat udst \<le> a \<and> a < unat udst + unat len) \<longrightarrow> m' a = m a) \<and>
     (\<forall>a \<ge> unat UC_USER_VA_MAX. m' a = m a) \<and>
     (\<forall>i < unat len. paging_is_mapped_into v (of_nat (unat udst + i) AND PAGE_MASK) (uc_pml4 ctx)))"
proof (cases "udst = 0 \<or> len = 0")
  case True
  with assms show ?thesis by (auto simp: copy_to_user_def user_range_ok_def split: if_splits)
next
  case False
  then have u: "user_range_ok v ctx udst len =
      Some (len \<le> UC_MAX_RANGE \<and> user_bytes v (uc_pml4 ctx) (unat udst) (unat len))"
    using user_range_ok_ring3 [OF assms(1)] by blast
  show ?thesis
  proof (cases "len \<le> UC_MAX_RANGE \<and> user_bytes v (uc_pml4 ctx) (unat udst) (unat len)")
    case ok: True
    then have "r = 0" "m' = memcpy (unat udst) ksrc (unat len) m"
      using u assms(2) by (simp_all add: copy_to_user_def)
    with ok memcpy_eq [OF assms(3), of m] show ?thesis by (auto simp: user_bytes_def)
  next
    case bad: False
    with u assms(2) show ?thesis by (simp add: copy_to_user_def)
  qed
qed

theorem copy_to_user_confined_witness:
  "\<exists>s. copy_to_user (empty_vmm s) \<lparr>from_user = True, uc_pml4 = 0x1000\<rparr> 0xFFFF900000000000 8 16 (\<lambda>_. 7) = Some (-1, \<lambda>_. 7)"
proof -
  let ?ctx = "\<lparr>from_user = True, uc_pml4 = 0x1000\<rparr>"
  obtain b where b: "user_range_ok (empty_vmm pmm_boot) ?ctx 0xFFFF900000000000 16 = Some b"
    using user_range_ok_ring3 [of ?ctx "0xFFFF900000000000" 16 "empty_vmm pmm_boot"] by auto
  obtain r m' where c: "copy_to_user (empty_vmm pmm_boot) ?ctx 0xFFFF900000000000 8 16 (\<lambda>_. 7) = Some (r, m')"
    unfolding copy_to_user_def b by (cases b) simp_all
  have "\<not> paging_is_mapped_into (empty_vmm pmm_boot) (of_nat (unat (0xFFFF900000000000 :: u64) + 0) AND PAGE_MASK) 0x1000"
    by (simp add: paging_is_mapped_into_def root_of_def empty_vmm_def rd_def)
  moreover have "0 < unat (16 :: u64)" by simp
  ultimately have "r = -1" "m' = (\<lambda>_. 7)" using copy_to_user_confined [OF _ c] by fastforce+
  with c show ?thesis by blast
qed

text \<open>
  C31. \<open>strncpy_from_user\<close> for ring 3, with a kernel buffer of \<open>cap\<close> bytes apart from the source, on
  every branch. The string at the address, cut to \<open>cap - 1\<close> bytes, is copied with a
  terminating zero and its length returned exactly when every byte that is read, the user's
  terminator included, lies below the user limit on a mapped page of the caller; otherwise, and
  for a null address or an empty buffer, the result is \<open>-1\<close>. No byte outside the buffer is ever written.
\<close>

theorem strncpy_from_user_correct:
  assumes "from_user ctx" "strncpy_from_user v ctx kdst usrc cap m = (r, m')"
    and "kdst + cap \<le> unat usrc \<or> unat usrc + cap \<le> kdst" "unat usrc + cap < 2 ^ 64"
    and "j = strnlen m (unat usrc) (cap - 1)"
  shows "(\<forall>a. \<not> (kdst \<le> a \<and> a < kdst + cap) \<longrightarrow> m' a = m a) \<and>
    (if usrc \<noteq> 0 \<and> cap \<noteq> 0 \<and>
        (\<forall>x \<le> j. x < cap - 1 \<longrightarrow> unat usrc + x < unat UC_USER_VA_MAX \<and>
           paging_is_mapped_into v (of_nat (unat usrc + x) AND PAGE_MASK) (uc_pml4 ctx))
     then r = int j \<and> (\<forall>x < j. m' (kdst + x) = m (unat usrc + x)) \<and> m' (kdst + j) = 0
     else r = -1)"
proof (cases "usrc = 0 \<or> cap = 0")
  case True
  with assms(2) show ?thesis by (auto simp: strncpy_from_user_def)
next
  case False
  obtain q m1 where s: "strncpy_user v (uc_pml4 ctx) kdst usrc 0 (cap - 1) 1 m = (q, m1)" by fastforce
  note j = strnlen_spec [where m = m and u = "unat usrc" and k = "cap - 1", folded assms(5)]
  have "(\<forall>a. \<not> (kdst + 0 \<le> a \<and> a < kdst + 0 + (cap - 1)) \<longrightarrow> m1 a = m a) \<and>
    (if \<forall>x. 0 \<le> x \<longrightarrow> x \<le> j \<longrightarrow> x < 0 + (cap - 1) \<longrightarrow> user_byte v (uc_pml4 ctx) (unat usrc + x)
     then q = Some j \<and> (\<forall>x. 0 \<le> x \<longrightarrow> x < j \<longrightarrow> m1 (kdst + x) = m (unat usrc + x))
     else q = None)"
    by (rule strncpy_user_spec [OF s]) (use assms(3,4) False j in auto)
  then have sp: "\<And>a. \<not> (kdst \<le> a \<and> a < kdst + (cap - 1)) \<Longrightarrow> m1 a = m a"
    "if \<forall>x \<le> j. x < cap - 1 \<longrightarrow> user_byte v (uc_pml4 ctx) (unat usrc + x)
     then q = Some j \<and> (\<forall>x < j. m1 (kdst + x) = m (unat usrc + x)) else q = None" by auto
  have jc: "j < cap" using j(1) False by linarith
  have st: "strncpy_from_user v ctx kdst usrc cap m = (case q of None \<Rightarrow> (-1, m1) | Some i \<Rightarrow> (int i, m1(kdst + i := 0)))"
    using s assms(1) False by (simp add: strncpy_from_user_def split: option.split)
  show ?thesis
  proof (cases q)
    case None
    with st assms(2) have "m' = m1" "r = -1" by simp_all
    with sp None False show ?thesis unfolding user_byte_def by (auto split: if_splits)
  next
    case (Some i)
    with sp(2) have "i = j" by (simp split: if_splits)
    with st assms(2) Some have m': "m' = m1(kdst + j := 0)" "r = int j" by simp_all
    have all: "\<forall>x \<le> j. x < cap - 1 \<longrightarrow> user_byte v (uc_pml4 ctx) (unat usrc + x)"
      and cp: "\<forall>x < j. m1 (kdst + x) = m (unat usrc + x)" using sp(2) Some by (simp_all split: if_splits)
    have "m' a = m a" if "\<not> (kdst \<le> a \<and> a < kdst + cap)" for a using sp(1) [of a] that jc m'(1) by auto
    moreover have "m' (kdst + x) = m (unat usrc + x)" if "x < j" for x using cp that m'(1) by simp
    moreover have "m' (kdst + j) = 0" using m'(1) by simp
    ultimately show ?thesis using all m'(2) False unfolding user_byte_def by simp
  qed
qed

theorem strncpy_from_user_correct_witness:
  "\<exists>v m m'. strncpy_from_user v \<lparr>from_user = True, uc_pml4 = 0x1000\<rparr> 8 0x400000 32 m = (2, m') \<and>
     m' 8 = 65 \<and> m' 9 = 66 \<and> m' 10 = 0 \<and> m' 40 = 7"
proof -
  obtain s where s: "tree_ok (empty_vmm s) 0x1000" "4 \<le> pmm_room s" "\<not> huge_on_path (empty_vmm s) (of_nat 0xFFFF900000000000) 0x1000"
    by (rule empty_vmm_state) blast
  have "\<not> huge_on_path (empty_vmm s) 0x400000 0x1000" unfolding huge_on_path_def empty_vmm_node by simp
  then obtain v where v: "map_walk (empty_vmm s) 0x400000 0x5000000 7 0x1000 = (True, v)"
    using map_walk_succeeds [OF s(1) _, of "0x400000" "0x5000000" 7] s(2)
    by (cases "map_walk (empty_vmm s) 0x400000 0x5000000 7 0x1000") (simp add: empty_vmm_def)
  note ms = map_walk_spec [OF s(1) v]
  let ?ctx = "\<lparr>from_user = True, uc_pml4 = 0x1000\<rparr>"
  define m :: bytes where "m = (\<lambda>_. 7)(0x400000 := 65, 0x400001 := 66, 0x400002 := 0)"
  have j: "2 = strnlen m (unat (0x400000 :: u64)) (32 - 1)"
  proof -
    have "[0..<32 - 1] = [0, 1, 2] @ [3..<31 :: nat]" by (simp add: upt_rec)
    then show ?thesis unfolding strnlen_def m_def by simp
  qed
  have pg: "unat (0x400000 :: u64) + x < unat UC_USER_VA_MAX \<and>
      paging_is_mapped_into v (of_nat (unat (0x400000 :: u64) + x) AND PAGE_MASK) (uc_pml4 ?ctx)" if "x \<le> 2" for x
  proof -
    have "unat ((of_nat (0x400000 + x) :: u64) AND PAGE_MASK) = unat (0x400000 :: u64)"
    proof -
      have "unat (of_nat (0x400000 + x) :: u64) = 0x400000 + x" by (rule unat_of_nat_small) (use that in simp)
      then show ?thesis using that by (simp add: unat_page)
    qed
    then have p: "(of_nat (0x400000 + x) :: u64) AND PAGE_MASK = 0x400000" by (simp only: word_unat_eq_iff)
    have "walk v 0x1000 (page_path 0x400000) \<noteq> Unmapped" using ms(2) [of "0x400000"] by (simp add: leaf_def present_def)
    then show ?thesis using that is_mapped_walk [OF ms(1)] p by simp
  qed
  obtain r m' where c: "strncpy_from_user v ?ctx 8 0x400000 32 m = (r, m')" by fastforce
  have "(\<forall>a. \<not> (8 \<le> a \<and> a < 8 + 32) \<longrightarrow> m' a = m a) \<and> r = int 2 \<and> (\<forall>x < 2. m' (8 + x) = m (unat (0x400000 :: u64) + x)) \<and> m' (8 + 2) = 0"
    using strncpy_from_user_correct [OF _ c _ _ j] pg by (auto split: if_splits)
  then have "r = 2" "m' (8 + 0) = m 0x400000" "m' (8 + 1) = m 0x400001" "m' 10 = 0" "m' 40 = m 40"
    using spec [of "\<lambda>x. x < 2 \<longrightarrow> m' (8 + x) = m (unat (0x400000 :: u64) + x)" 0]
      spec [of "\<lambda>x. x < 2 \<longrightarrow> m' (8 + x) = m (unat (0x400000 :: u64) + x)" 1] by auto
  then show ?thesis using c by (auto simp: m_def)
qed

end
