(* ===== verification/Syscall.thy ===== *)
theory Syscall
  imports Elf_Loader User_Copy
begin

text \<open>
  Branches of \<^verbatim>\<open>syscall_handler\<close> (\<^verbatim>\<open>kernel/syscall.c\<close>): memory, files, descriptors, identity and the
  start of a new program. Each definition is the body of one branch: it takes the kernel, the
  context \<open>ucopy_ctx\<close> of the call and the argument registers, and gives the value stored in
  \<open>rax\<close> and the new kernel. \<open>me\<close> is \<open>smp_current_task_id()\<close> (\<open>-1\<close> for none), \<open>ks\<close> the address of the
  local array the branch copies a string into. User bytes are the virtual bytes under the tables of
  the caller.
\<close>

section \<open>Context\<close>

abbreviation UC_MAX_FNAME :: nat where "UC_MAX_FNAME \<equiv> 64"
abbreviation UC_MAX_FILE :: u32 where "UC_MAX_FILE \<equiv> 0x800000"
abbreviation UC_MAX_IO :: u32 where "UC_MAX_IO \<equiv> 0x100000"

abbreviation kernel_vm :: "kernel \<Rightarrow> vmm_state" where
  "kernel_vm k \<equiv> vm (kernel_heap k)"

definition set_bytes :: "kernel \<Rightarrow> (nat \<Rightarrow> u8) \<Rightarrow> kernel" where
  "set_bytes k m = set_heap k ((kernel_heap k)\<lparr>hbytes := m\<rparr>)"

definition set_vm :: "kernel \<Rightarrow> vmm_state \<Rightarrow> kernel" where
  "set_vm k v = set_heap k ((kernel_heap k)\<lparr>vm := v\<rparr>)"

definition syscall_current_task :: "kernel \<Rightarrow> int \<Rightarrow> nat option" where
  "syscall_current_task k me = (if me < 0 \<or> me \<ge> int (task_count (ksched k)) then None else Some (nat me))"

definition syscall_ctx :: "kernel \<Rightarrow> u64 \<Rightarrow> int \<Rightarrow> ucopy_ctx" where
  "syscall_ctx k cs me = ucopy_ctx_init cs me (map (\<lambda>t. pml4_phys (tasks (ksched k) t)) [0..<task_count (ksched k)])"

text \<open>\<open>(int)r->rbx\<close> and \<open>(uint64_t)(int64_t)n\<close>.\<close>

definition reg_int :: "u64 \<Rightarrow> int" where
  "reg_int w = sint (ucast w :: u32)"

definition ret_int :: "int \<Rightarrow> u64" where
  "ret_int n = of_int n"

text \<open>\<open>strncpy_from_user(&uc, kf, rbx, sizeof(kf))\<close>: the length or \<open>-1\<close>, and the string now in the array.\<close>

definition copy_name :: "kernel \<Rightarrow> ucopy_ctx \<Rightarrow> nat \<Rightarrow> u64 \<Rightarrow> int \<times> bytes \<times> kernel" where
  "copy_name k uc ks rbx =
     (let (n, m) = strncpy_from_user (kernel_vm k) uc ks rbx UC_MAX_FNAME (hbytes (kernel_heap k))
      in (n, get_bytes m ks (nat n), set_bytes k m))"

section \<open>Memory\<close>

text \<open>A call of the user heap of task \<open>t\<close>; a null task is refused by the callee.\<close>

definition on_uheap :: "kernel \<Rightarrow> nat \<Rightarrow> ('a outcome \<times> utask) option \<Rightarrow> ('a outcome \<times> kernel) option" where
  "on_uheap k t r =
     map_option (\<lambda>(x, u). (x, (set_heap k (kheap u))\<lparr>kbrk := (kbrk k)(t := uheap_brk u), kregions := (kregions k)(t := uheap_regions u)\<rparr>)) r"

definition ptr_word :: "nat option \<Rightarrow> u64" where
  "ptr_word p = of_nat (ptr p)"

definition sys_alloc :: "kernel \<Rightarrow> ucopy_ctx \<Rightarrow> int \<Rightarrow> u64 \<Rightarrow> (u64 outcome \<times> kernel) option" where
  "sys_alloc k uc me rbx =
     (if from_user uc then
        (case syscall_current_task k me of
           None \<Rightarrow> Some (Ret 0, k)
         | Some t \<Rightarrow> on_uheap k t (uheap_alloc (utask_of k t) rbx))
      else and_then (on_heap k (kmalloc (kernel_heap k) (ucast (ucast rbx :: u32)))) (\<lambda>p k1. Some (Ret (ptr_word p), k1)))"

definition sys_free :: "kernel \<Rightarrow> ucopy_ctx \<Rightarrow> int \<Rightarrow> u64 \<Rightarrow> (u64 outcome \<times> kernel) option" where
  "sys_free k uc me rbx =
     (if from_user uc then
        (case syscall_current_task k me of
           None \<Rightarrow> Some (Ret 0, k)
         | Some t \<Rightarrow> and_then (on_uheap k t (uheap_free (utask_of k t) rbx)) (\<lambda>_ k1. Some (Ret 0, k1)))
      else and_then (on_heap k (kfree (kernel_heap k) (if rbx = 0 then None else Some (unat rbx)))) (\<lambda>_ k1. Some (Ret 0, k1)))"

definition sys_realloc :: "kernel \<Rightarrow> ucopy_ctx \<Rightarrow> int \<Rightarrow> u64 \<Rightarrow> u64 \<Rightarrow> u64 \<Rightarrow> (u64 outcome \<times> kernel) option" where
  "sys_realloc k uc me rbx rcx rdx =
     (if from_user uc then
        (case syscall_current_task k me of
           None \<Rightarrow> Some (Ret 0, k)
         | Some t \<Rightarrow> on_uheap k t (uheap_realloc (utask_of k t) rbx rdx))
      else and_then (on_heap k (krealloc (kernel_heap k) (if rbx = 0 then None else Some (unat rbx))
             (unat (ucast rcx :: u32)) (ucast (ucast rdx :: u32)))) (\<lambda>p k1. Some (Ret (ptr_word p), k1)))"

section \<open>Files by name\<close>

definition set_fs :: "kernel \<Rightarrow> kfs \<Rightarrow> kernel" where
  "set_fs k fs = k\<lparr>kvfs := (kvfs k)\<lparr>vfs_fs := fs\<rparr>\<rparr>"

definition sys_fs_delete :: "kernel \<Rightarrow> ucopy_ctx \<Rightarrow> nat \<Rightarrow> u64 \<Rightarrow> (u64 outcome \<times> kernel) option" where
  "sys_fs_delete k uc ks rbx =
     (let (n, kf, k1) = copy_name k uc ks rbx
      in if n \<ge> 0 then map_option (\<lambda>fs. (Ret 0, set_fs k1 fs)) (kfs_delete_file (vfs_fs (kvfs k1)) kf) else Some (Ret 0, k1))"

definition sys_file_exists :: "kernel \<Rightarrow> ucopy_ctx \<Rightarrow> nat \<Rightarrow> u64 \<Rightarrow> (u64 outcome \<times> kernel) option" where
  "sys_file_exists k uc ks rbx =
     (let (n, kf, k1) = copy_name k uc ks rbx
      in if n \<ge> 0 then map_option (\<lambda>ex. (Ret (of_bool ex), k1)) (kfs_exists (vfs_fs (kvfs k1)) kf) else Some (Ret 0, k1))"

definition sys_file_size :: "kernel \<Rightarrow> ucopy_ctx \<Rightarrow> nat \<Rightarrow> u64 \<Rightarrow> (u64 outcome \<times> kernel) option" where
  "sys_file_size k uc ks rbx =
     (let (n, kf, k1) = copy_name k uc ks rbx
      in if n \<ge> 0 then map_option (\<lambda>sz. (Ret (ucast sz), k1)) (kfs_get_file_size (vfs_fs (kvfs k1)) kf) else Some (Ret 0, k1))"

text \<open>The file is read into a heap buffer and copied out of it; \<open>0\<close> is returned when a step fails.\<close>

definition sys_read_file_to_buffer :: "kernel \<Rightarrow> ucopy_ctx \<Rightarrow> nat \<Rightarrow> u64 \<Rightarrow> u64 \<Rightarrow> u64 \<Rightarrow> (u64 outcome \<times> kernel) option" where
  "sys_read_file_to_buffer k uc ks rbx rcx rdx =
     (let (n, kf, k1) = copy_name k uc ks rbx;
          fs = vfs_fs (kvfs k1);
          cap = ucast rdx :: u32
      in if n < 0 then Some (Ret 0, k1)
         else
           case kfs_get_file_size fs kf of
             None \<Rightarrow> None
           | Some fsize \<Rightarrow>
               if fsize = 0 then map_option (\<lambda>ex. (Ret (of_bool ex), k1)) (kfs_exists fs kf)
               else if fsize > cap \<or> fsize > UC_MAX_FILE then Some (Ret 0, k1)
               else
                 (case user_range_ok (kernel_vm k1) uc rcx (ucast fsize) of
                    None \<Rightarrow> None
                  | Some ok \<Rightarrow>
                      if \<not> ok then Some (Ret 0, k1)
                      else
                        and_then (on_heap k1 (kmalloc (kernel_heap k1) (ucast fsize))) (\<lambda>p k2.
                          case p of
                            None \<Rightarrow> Some (Ret 0, k2)
                          | Some bounce \<Rightarrow>
                              (case kfs_read_to_buffer fs kf fsize of
                                 None \<Rightarrow> None
                               | Some None \<Rightarrow> and_then (on_heap k2 (kfree (kernel_heap k2) (Some bounce))) (\<lambda>_ k3. Some (Ret 0, k3))
                               | Some (Some data) \<Rightarrow>
                                   let k3 = set_bytes k2 (put_bytes (hbytes (kernel_heap k2)) bounce data)
                                   in (case copy_to_user (kernel_vm k3) uc rcx bounce (ucast fsize) (hbytes (kernel_heap k3)) of
                                         None \<Rightarrow> None
                                       | Some (c, m) \<Rightarrow>
                                           let k4 = set_bytes k3 m
                                           in and_then (on_heap k4 (kfree (kernel_heap k4) (Some bounce))) (\<lambda>_ k5.
                                                Some (Ret (if c = 0 then 1 else 0), k5)))))))"

definition sys_create_file :: "kernel \<Rightarrow> ucopy_ctx \<Rightarrow> nat \<Rightarrow> u64 \<Rightarrow> u64 \<Rightarrow> u64 \<Rightarrow> (u64 outcome \<times> kernel) option" where
  "sys_create_file k uc ks rbx rcx rdx =
     (let (n, kf, k1) = copy_name k uc ks rbx;
          sz = ucast rdx :: u32;
          create = (\<lambda>k data. map_option (\<lambda>(ok, fs). (of_bool ok :: u64, set_fs k fs))
            (kfs_create_file (vfs_fs (kvfs k)) (drive_sectors (kvfs k)) (stack_mem (kvfs k)) kf data))
      in if n < 0 \<or> sz > UC_MAX_FILE then Some (Ret 0, k1)
         else if sz = 0 then map_option (\<lambda>(r, k2). (Ret r, k2)) (create k1 [])
         else
           and_then (on_heap k1 (kmalloc (kernel_heap k1) (ucast sz))) (\<lambda>p k2.
             case p of
               None \<Rightarrow> Some (Ret 0, k2)
             | Some bounce \<Rightarrow>
                 (case copy_from_user (kernel_vm k2) uc bounce rcx (ucast sz) (hbytes (kernel_heap k2)) of
                    None \<Rightarrow> None
                  | Some (c, m) \<Rightarrow>
                      let k3 = set_bytes k2 m
                      in (case (if c = 0 then create k3 (get_bytes m bounce (unat sz)) else Some (0, k3)) of
                            None \<Rightarrow> None
                          | Some (r, k4) \<Rightarrow> and_then (on_heap k4 (kfree (kernel_heap k4) (Some bounce))) (\<lambda>_ k5. Some (Ret r, k5))))))"

definition sys_mkdir :: "kernel \<Rightarrow> ucopy_ctx \<Rightarrow> nat \<Rightarrow> u64 \<Rightarrow> (u64 outcome \<times> kernel) option" where
  "sys_mkdir k uc ks rbx =
     (let (n, kf, k1) = copy_name k uc ks rbx
      in if n \<ge> 0
         then map_option (\<lambda>(ok, fs). (Ret (of_bool ok), set_fs k1 fs)) (kfs_create_folder (vfs_fs (kvfs k1)) (stack_mem (kvfs k1)) kf)
         else Some (Ret 0, k1))"

section \<open>Descriptors\<close>

definition sys_open :: "kernel \<Rightarrow> ucopy_ctx \<Rightarrow> int \<Rightarrow> nat \<Rightarrow> u64 \<Rightarrow> u64 \<Rightarrow> (u64 outcome \<times> kernel) option" where
  "sys_open k uc me ks rbx rcx =
     (let (n, kpath, k1) = copy_name k uc ks rbx
      in if n > 0
         then and_then (on_vfs k1 (vfs_open (kvfs k1) me (Some kpath) (ucast rcx))) (\<lambda>fd k2. Some (Ret (ret_int fd), k2))
         else Some (Ret (ret_int (- 1)), k1))"

definition sys_read :: "kernel \<Rightarrow> ucopy_ctx \<Rightarrow> int \<Rightarrow> u64 \<Rightarrow> u64 \<Rightarrow> u64 \<Rightarrow> (u64 outcome \<times> kernel) option" where
  "sys_read k uc me rbx rcx rdx =
     (let cnt = (if (ucast rdx :: u32) > UC_MAX_IO then UC_MAX_IO else ucast rdx)
      in if cnt = 0 then
           let (n, _, s) = vfs_read (kvfs k) me (reg_int rbx) False 0 in Some (Ret (ret_int n), k\<lparr>kvfs := s\<rparr>)
         else
           case user_range_ok (kernel_vm k) uc rcx (ucast cnt) of
             None \<Rightarrow> None
           | Some ok \<Rightarrow>
               if \<not> ok then Some (Ret (ret_int (- 1)), k)
               else
                 and_then (on_heap k (kmalloc (kernel_heap k) (ucast cnt))) (\<lambda>p k1.
                   case p of
                     None \<Rightarrow> Some (Ret (ret_int (- 1)), k1)
                   | Some bounce \<Rightarrow>
                       let (n, data, s) = vfs_read (kvfs k1) me (reg_int rbx) False cnt;
                           k2 = k1\<lparr>kvfs := s\<rparr>;
                           k3 = set_bytes k2 (put_bytes (hbytes (kernel_heap k2)) bounce data)
                       in (case (if n > 0 then map_option snd (copy_to_user (kernel_vm k3) uc rcx bounce (ucast (of_int n :: u32)) (hbytes (kernel_heap k3)))
                                 else Some (hbytes (kernel_heap k3))) of
                             None \<Rightarrow> None
                           | Some m \<Rightarrow>
                               let k4 = set_bytes k3 m
                               in and_then (on_heap k4 (kfree (kernel_heap k4) (Some bounce))) (\<lambda>_ k5. Some (Ret (ret_int n), k5)))))"

definition sys_write :: "kernel \<Rightarrow> ucopy_ctx \<Rightarrow> int \<Rightarrow> u64 \<Rightarrow> u64 \<Rightarrow> u64 \<Rightarrow> (u64 outcome \<times> kernel) option" where
  "sys_write k uc me rbx rcx rdx =
     (let cnt = ucast rdx :: u32
      in if cnt = 0 then
           and_then (on_vfs k (vfs_write (kvfs k) me (reg_int rbx) (Some []))) (\<lambda>n k1. Some (Ret (ret_int n), k1))
         else if cnt > UC_MAX_IO then Some (Ret (ret_int (- 1)), k)
         else
           case user_range_ok (kernel_vm k) uc rcx (ucast cnt) of
             None \<Rightarrow> None
           | Some ok \<Rightarrow>
               if \<not> ok then Some (Ret (ret_int (- 1)), k)
               else
                 and_then (on_heap k (kmalloc (kernel_heap k) (ucast cnt))) (\<lambda>p k1.
                   case p of
                     None \<Rightarrow> Some (Ret (ret_int (- 1)), k1)
                   | Some bounce \<Rightarrow>
                       (case copy_from_user (kernel_vm k1) uc bounce rcx (ucast cnt) (hbytes (kernel_heap k1)) of
                          None \<Rightarrow> None
                        | Some (_, m) \<Rightarrow>
                            let k2 = set_bytes k1 m
                            in and_then (on_vfs k2 (vfs_write (kvfs k2) me (reg_int rbx) (Some (get_bytes m bounce (unat cnt))))) (\<lambda>n k3.
                                 and_then (on_heap k3 (kfree (kernel_heap k3) (Some bounce))) (\<lambda>_ k4. Some (Ret (ret_int n), k4))))))"

definition sys_lseek :: "kernel \<Rightarrow> int \<Rightarrow> u64 \<Rightarrow> u64 \<Rightarrow> u64 \<Rightarrow> u64 \<times> kernel" where
  "sys_lseek k me rbx rcx rdx =
     (let (n, s) = vfs_lseek (kvfs k) me (reg_int rbx) (ucast rcx) (reg_int rdx) in (ret_int n, k\<lparr>kvfs := s\<rparr>))"

definition sys_close :: "kernel \<Rightarrow> int \<Rightarrow> u64 \<Rightarrow> (u64 outcome \<times> kernel) option" where
  "sys_close k me rbx = and_then (on_vfs k (vfs_close (kvfs k) me (reg_int rbx))) (\<lambda>n k1. Some (Ret (ret_int n), k1))"

section \<open>Identity\<close>

definition sys_is_mapped :: "kernel \<Rightarrow> int \<Rightarrow> u64 \<Rightarrow> u64" where
  "sys_is_mapped k me rbx =
     (let pml4 = (case syscall_current_task k me of None \<Rightarrow> PHYS_NULL | Some t \<Rightarrow> pml4_phys (tasks (ksched k) t))
      in of_bool (paging_is_mapped_into (kernel_vm k) rbx pml4))"

definition sys_get_pid :: "kernel \<Rightarrow> int \<Rightarrow> u64" where
  "sys_get_pid k me = (case syscall_current_task k me of None \<Rightarrow> 0 | Some t \<Rightarrow> ucast (cookie (tasks (ksched k) t)))"

section \<open>Starting programs\<close>

text \<open>\<open>as_cookie_next\<close>: the number handed out is the new value of the counter.\<close>

definition as_cookie_next :: "u32 \<Rightarrow> u32" where
  "as_cookie_next counter = counter + 1"

text \<open>
  \<open>sys_spawn\<close>: the caller's \<open>pml4_phys\<close> is lent to the new address space for the time of the load, so
  that it is unchanged at the end. \<open>cpu\<close>, \<open>now\<close> are the inputs of \<open>create_user_task\<close>; the counter of
  the address-space cookies is threaded through.
\<close>

definition sys_spawn :: "(u64 \<Rightarrow> nat \<Rightarrow> u8) \<Rightarrow> kernel \<Rightarrow> u32 \<Rightarrow> ucopy_ctx \<Rightarrow> nat \<Rightarrow> u64 \<Rightarrow> nat \<Rightarrow> nat \<Rightarrow> (u64 outcome \<times> u32 \<times> kernel) option" where
  "sys_spawn dirt k counter uc ks rbx cpu now =
     (let (n, kfname, k1) = copy_name k uc ks rbx
      in if n < 0 then Some (Ret (ret_int (- 1)), counter, k1)
         else
           let (child_pml4, v) = vmm_create_address_space (kernel_vm k1);
               k2 = set_vm k1 v
           in if child_pml4 = PHYS_NULL then Some (Ret (ret_int (- 1)), counter, k2)
              else
                let saved_cr3 = vmm_read_cr3 (kernel_vm k2);
                    k3 = set_vm k2 (vmm_switch_pml4 (kernel_vm k2) child_pml4);
                    orphan = (\<lambda>counter k. Some (Ret (ret_int (- 1)), counter, set_vm k (vmm_destroy_task_as (kernel_vm k) child_pml4)))
                in (case on_heap k3 (elf_load_file dirt (kernel_heap k3) (vfs_fs (kvfs k3)) kfname True child_pml4) of
                      None \<Rightarrow> None
                    | Some (Panic b, k4) \<Rightarrow> Some (Panic b, counter, k4)
                    | Some (Ret (entry, child_stack_top), k4) \<Rightarrow>
                        let k5 = set_vm k4 (vmm_switch_pml4 (kernel_vm k4) saved_cr3)
                        in if entry \<noteq> 0 \<and> child_stack_top \<noteq> 0 then
                             (case create_user_task k5 entry child_stack_top child_pml4 (as_cookie_next counter) (Some kfname) cpu now of
                                None \<Rightarrow> None
                              | Some (Panic b, k6) \<Rightarrow> Some (Panic b, as_cookie_next counter, k6)
                              | Some (Ret t, k6) \<Rightarrow>
                                  if t \<ge> 0 then Some (Ret (ret_int t), as_cookie_next counter, k6)
                                  else orphan (as_cookie_next counter) k6)
                           else orphan counter k5))"

end
