(* ===== verification/Vfs_Close.thy ===== *)
theory Vfs_Close
  imports Vfs_Correct
begin

text \<open>
  Closing all descriptors of a task, as \<open>task_exit\<close> does: every flush ends, also of a path that names
  a folder or that does not fit on the disk, exactly the buffers of the task are released, and
  the descriptors of the other tasks are as before.
\<close>

section \<open>One descriptor\<close>

text \<open>What the flush of a descriptor needs: its size can be rounded up to sectors.\<close>

definition flushable :: "vfs_file \<Rightarrow> bool" where
  "flushable f \<longleftrightarrow> unat (vf_size f) + 511 < 2 ^ 32"

lemma kfree_vm: "kfree h p = Some (r, h') \<Longrightarrow> vm h' = vm h"
  by (auto simp: kfree_def Let_def split: option.splits if_splits)

lemma flush_keeps:
  assumes inv: "vfs_inv s" and i: "i < 256" "used (fd_at s i)" and fs: "kfs_inv (vfs_fs s) C D" and stk: "length (stack_mem s) = 23"
    and size: "flushable (fd_at s i)"
  obtains fs2 C2 where "flush_locked s i = Some (set_fd (s\<lparr>vfs_fs := fs2\<rparr>) i (fd_at s i\<lparr>vf_dirty := False\<rparr>))" "kfs_inv fs2 C2 D"
proof (cases "vf_dirty (fd_at s i)")
  case True
  let ?f = "fd_at s i" and ?data = "get_bytes (hbytes (vfs_heap s)) (ptr (vf_buf (fd_at s i))) (unat (vf_size (fd_at s i)))"
  have nm: "length (vf_path ?f) \<le> 22" "0 \<notin> set (vf_path ?f)" using fd_okD [OF inv i] by metis+
  have len: "length ?data + 511 < 2 ^ 32" using size by (simp add: flushable_def)
  show thesis
  proof (cases "no_folder (vfs_fs s) (vf_path ?f)")
    case nf: True
    show thesis
      by (rule replace_file [OF fs nf stk nm len, where t = "drive_sectors s"])
        (rule that, use True in \<open>auto simp: flush_locked_def Let_def\<close>)
  next
    case False
    then obtain e sec k where l: "lookup (vfs_fs s) (vf_path ?f) = Some (Some (e, sec, k))" "flags e = FLAG_FOLDER"
      by (auto simp: no_folder_def split: option.splits prod.splits)
    then have ex: "kfs_exists (vfs_fs s) (vf_path ?f) = Some True" "kfs_delete_file (vfs_fs s) (vf_path ?f) = Some (vfs_fs s)"
      by (simp_all add: kfs_exists_def kfs_delete_file_def)
    have nm': "length (last_name (vf_path ?f)) \<le> 22" using length_last_name [of "vf_path ?f"] nm(1) by simp
    show thesis
      by (cases rule: create_file_cases [OF fs stk nm' nm(2) len, of "drive_sectors s"])
        (rule that, use True ex in \<open>auto simp: flush_locked_def Let_def\<close>)+
  qed
next
  case False
  then have "fd_at s i\<lparr>vf_dirty := False\<rparr> = fd_at s i" by simp
  then have "set_fd s i (fd_at s i\<lparr>vf_dirty := False\<rparr>) = s" by (simp only: list_update_id) simp
  with False fs show thesis by (intro that [of "vfs_fs s" C]) (simp_all add: flush_locked_def)
qed

text \<open>The parts of the state that closing leaves alone.\<close>

definition close_frame :: "vfs \<Rightarrow> vfs \<Rightarrow> bool" where
  "close_frame s s' \<longleftrightarrow> stack_mem s' = stack_mem s \<and> drive_sectors s' = drive_sectors s \<and>
     hbytes (vfs_heap s') = hbytes (vfs_heap s) \<and> vm (vfs_heap s') = vm (vfs_heap s)"

lemma close_slot_keeps:
  assumes inv: "vfs_inv s" and i: "i < 256" "used (fd_at s i)" and fs: "kfs_inv (vfs_fs s) C D" and stk: "length (stack_mem s) = 23"
    and size: "flushable (fd_at s i)"
  obtains s' p n C' where "close_slot s i = Some (Ret (), s')" "vfs_inv s'" "\<not> used (fd_at s' i)" "\<forall>j. j \<noteq> i \<longrightarrow> fd_at s' j = fd_at s j"
    "vf_buf (fd_at s i) = Some p" "(p, n) \<in> live (vfs_heap s)" "live (vfs_heap s') = live (vfs_heap s) - {(p, n)}"
    "kfs_inv (vfs_fs s') C' D" "close_frame s s'"
proof -
  let ?f = "fd_at s i"
  obtain p n where p: "vf_buf ?f = Some p" "(p, n) \<in> live (vfs_heap s)" by (rule fd_okD [OF inv i])
  obtain fs2 C2 where fl: "flush_locked s i = Some (set_fd (s\<lparr>vfs_fs := fs2\<rparr>) i (?f\<lparr>vf_dirty := False\<rparr>))" "kfs_inv fs2 C2 D"
    by (rule flush_keeps [OF assms])
  obtain h' where k: "kfree (vfs_heap s) (Some p) = Some (Ret (), h')" "heap_inv h'" "live h' = live (vfs_heap s) - {(p, n)}"
      "hbytes h' = hbytes (vfs_heap s)"
    using kfree_spec [OF vfs_invD(2) [OF inv] p(2)] by blast
  let ?g = "?f\<lparr>vf_dirty := False, vf_buf := None, used := False\<rparr>"
  define s' where "s' = set_fd (s\<lparr>vfs_fs := fs2, vfs_heap := h'\<rparr>) i ?g"
  have s': "vfs_heap s' = h'" "vfs_fs s' = fs2" "fds s' = (fds s)[i := ?g]" "stack_mem s' = stack_mem s" "drive_sectors s' = drive_sectors s"
    by (simp_all add: s'_def)
  have run: "close_slot s i = Some (Ret (), s')"
    using fl(1) k(1) p(1) vfs_invD(1) [OF inv] i(1) by (simp add: close_slot_def vfs_kfree_def s'_def)
  have kp: "region_kept (vfs_heap s) h' q \<and> (used ?g \<longrightarrow> vf_buf ?g \<noteq> Some q)"
    if "j < 256" "j \<noteq> i" "used (fd_at s j)" "vf_buf (fd_at s j) = Some q" for j q
    using vfs_invD(4) [OF inv i(1) that(1) i(2) that(3)] that p(1) k(3,4) by (auto simp: region_kept_def)
  have iv: "vfs_inv s'" by (rule slot_update(1) [OF inv i(1) k(2) _ kp s'(3,1)]) simp_all
  have len: "i < length (fds s)" using vfs_invD(1) [OF inv] i(1) by simp
  have "close_frame s s'" unfolding close_frame_def s'(1,4,5) using k(4) kfree_vm [OF k(1)] by simp
  then show thesis
    by (intro that [OF run iv _ _ p _ _]) (use s'(1-3) k(3) fl(2) len in \<open>auto simp: nth_list_update_if\<close>)
qed

section \<open>All descriptors\<close>

text \<open>The buffers of the open descriptors in \<open>I\<close>.\<close>

definition buffers :: "vfs \<Rightarrow> nat set \<Rightarrow> nat set" where
  "buffers s I = {p. \<exists>i \<in> I. used (fd_at s i) \<and> vf_buf (fd_at s i) = Some p}"

lemma close_slots_keep:
  assumes "vfs_inv s" "distinct is" "set is \<subseteq> {..<256}" "kfs_inv (vfs_fs s) C D" "length (stack_mem s) = 23"
    "\<forall>i \<in> set is. used (fd_at s i) \<longrightarrow> flushable (fd_at s i)"
  shows "\<exists>s' C'. close_slots s is = Some (Ret (), s') \<and> vfs_inv s' \<and> (\<forall>i \<in> set is. \<not> used (fd_at s' i)) \<and>
    (\<forall>j. j \<notin> set is \<longrightarrow> fd_at s' j = fd_at s j) \<and> live (vfs_heap s') = {(a, n) \<in> live (vfs_heap s). a \<notin> buffers s (set is)} \<and>
    kfs_inv (vfs_fs s') C' D \<and> close_frame s s'"
  using assms
proof (induction "is" arbitrary: s C)
  case Nil
  then show ?case by (auto simp: buffers_def close_frame_def)
next
  case (Cons i "is")
  show ?case
  proof (cases "used (fd_at s i)")
    case False
    then have "buffers s (set (i # is)) = buffers s (set is)" by (auto simp: buffers_def)
    moreover obtain s' C' where "close_slots s is = Some (Ret (), s')" "vfs_inv s'" "\<forall>i \<in> set is. \<not> used (fd_at s' i)"
        "\<forall>j. j \<notin> set is \<longrightarrow> fd_at s' j = fd_at s j" "live (vfs_heap s') = {(a, n) \<in> live (vfs_heap s). a \<notin> buffers s (set is)}"
        "kfs_inv (vfs_fs s') C' D" "close_frame s s'"
      using Cons.IH [OF Cons.prems(1) _ _ Cons.prems(4,5)] Cons.prems(2,3,6) by auto
    ultimately show ?thesis using False Cons.prems(2) by (intro exI [of _ s'] exI [of _ C']) auto
  next
    case True
    have i: "i < 256" "i \<notin> set is" "flushable (fd_at s i)" using Cons.prems(2,3,6) True by auto
    obtain s1 p n C1 where s1: "close_slot s i = Some (Ret (), s1)" "vfs_inv s1" "\<not> used (fd_at s1 i)" "\<forall>j. j \<noteq> i \<longrightarrow> fd_at s1 j = fd_at s j"
        "vf_buf (fd_at s i) = Some p" "(p, n) \<in> live (vfs_heap s)" "live (vfs_heap s1) = live (vfs_heap s) - {(p, n)}"
        "kfs_inv (vfs_fs s1) C1 D" "close_frame s s1"
      by (rule close_slot_keeps [OF Cons.prems(1) i(1) True Cons.prems(4,5) i(3)])
    have pre: "distinct is" "set is \<subseteq> {..<256}" "length (stack_mem s1) = 23" "\<forall>j \<in> set is. used (fd_at s1 j) \<longrightarrow> flushable (fd_at s1 j)"
      using Cons.prems(2,3,5,6) s1(4,9) i(2) by (auto simp: close_frame_def)
    obtain s' C' where s': "close_slots s1 is = Some (Ret (), s')" "vfs_inv s'" "\<forall>i \<in> set is. \<not> used (fd_at s' i)"
        "\<forall>j. j \<notin> set is \<longrightarrow> fd_at s' j = fd_at s1 j" "live (vfs_heap s') = {(a, n) \<in> live (vfs_heap s1). a \<notin> buffers s1 (set is)}"
        "kfs_inv (vfs_fs s') C' D" "close_frame s1 s'"
      using Cons.IH [OF s1(2) pre(1,2) s1(8) pre(3,4)] by blast
    have b: "buffers s (set (i # is)) = insert p (buffers s1 (set is))"
      using True s1(4,5) i(2) unfolding buffers_def by auto metis+
    have "live (vfs_heap s') = {(a, m) \<in> live (vfs_heap s). a \<notin> buffers s (set (i # is))}"
    proof -
      have "m = n" if "(p, m) \<in> live (vfs_heap s)" for m
        using live_disjoint [OF vfs_invD(2) [OF Cons.prems(1)] that s1(6)] live_rep that s1(6) vfs_invD(2) [OF Cons.prems(1)]
        by (auto simp: heap_inv_def live_in_def)
      then show ?thesis unfolding s'(5) s1(7) b by auto
    qed
    moreover have "close_slots s (i # is) = Some (Ret (), s')" using True s1(1) s'(1) by simp
    moreover have "close_frame s s'" using s1(9) s'(7) by (simp add: close_frame_def)
    moreover have "\<forall>j \<in> set (i # is). \<not> used (fd_at s' j)" "\<forall>j. j \<notin> set (i # is) \<longrightarrow> fd_at s' j = fd_at s j"
      using s'(3,4) s1(3,4) i(2) by auto
    ultimately show ?thesis using s'(2,6) by blast
  qed
qed

text \<open>The descriptors of task \<open>t\<close>.\<close>

definition fd_slots :: "nat \<Rightarrow> nat set" where
  "fd_slots t = {t * VFS_MAX_FDS..<t * VFS_MAX_FDS + VFS_MAX_FDS}"

lemma close_all_keeps:
  assumes "vfs_inv s" "t < VFS_TASKS" "kfs_inv (vfs_fs s) C D" "length (stack_mem s) = 23"
    "\<forall>i \<in> fd_slots t. used (fd_at s i) \<longrightarrow> flushable (fd_at s i)"
  shows "\<exists>s' C'. vfs_close_all s (int t) = Some (Ret (), s') \<and> vfs_inv s' \<and> (\<forall>i \<in> fd_slots t. \<not> used (fd_at s' i)) \<and>
    (\<forall>j. j \<notin> fd_slots t \<longrightarrow> fd_at s' j = fd_at s j) \<and> live (vfs_heap s') = {(a, n) \<in> live (vfs_heap s). a \<notin> buffers s (fd_slots t)} \<and>
    kfs_inv (vfs_fs s') C' D \<and> close_frame s s'"
proof -
  let ?is = "map (\<lambda>k. t * VFS_MAX_FDS + k) [0..<VFS_MAX_FDS]"
  have img: "(+) a ` {0..<n} = {a..<a + n}" for a n :: nat by (simp add: image_add_atLeastLessThan add.commute)
  have st: "set ?is = fd_slots t" unfolding fd_slots_def set_map set_upt using img [of "t * VFS_MAX_FDS" VFS_MAX_FDS] by simp
  have d: "distinct ?is" unfolding distinct_map by (simp add: inj_on_def del: upt_rec_numeral)
  have sub: "set ?is \<subseteq> {..<256}" unfolding st fd_slots_def using assms(2) by auto
  have "vfs_close_all s (int t) = close_slots s ?is" using assms(2) by (simp add: vfs_close_all_def del: upt_rec_numeral)
  then show ?thesis using close_slots_keep [OF assms(1) d sub assms(3,4)] assms(5) unfolding st by simp
qed

end
