(* ===== verification/Task_Exit.thy ===== *)
theory Task_Exit
  imports Task_Life_Correct Vfs_Close
begin

text \<open>
  The exit of a task: what it gives back, and that the address spaces, stacks and files of the rest
  of the system are untouched. At the end the properties of creation and exit.
\<close>

section \<open>Destroying one address space next to another\<close>

text \<open>No table of the tree at \<open>kr\<close> belongs to the user half of the space \<open>r\<close>.\<close>

definition spaces_apart :: "vmm_state \<Rightarrow> u64 \<Rightarrow> u64 \<Rightarrow> bool" where
  "spaces_apart v kr r \<longleftrightarrow>
     (\<forall>q f. idx_ok q \<longrightarrow> length q \<le> 3 \<longrightarrow> node v kr q = Some f \<longrightarrow> f \<notin> user_tables v r \<union> user_pages v r \<union> {r})"

lemma destroy_kernel_root: "kernel_pml4_phys (vmm_destroy_address_space v r fl) = kernel_pml4_phys v"
proof -
  have "kernel_pml4_phys (destroy_lvl k f js v) = kernel_pml4_phys v" for k f js
    by (induction k f js v rule: destroy_lvl.induct) (simp_all add: free_if_owned_def wr_def vmm_free_def Let_def)
  then show ?thesis by (simp add: vmm_destroy_address_space_def destroy_levels free_if_owned_def vmm_free_def Let_def del: upt_rec_numeral)
qed

lemma teardown_other:
  assumes r: "tree_ok v r" and kr: "tree_ok v kr" and ap: "spaces_apart v kr r" and v': "v' = vmm_destroy_address_space v r True"
  shows "tree_ok v' kr" "walk v' kr (page_path va) = walk v kr (page_path va)"
proof -
  let ?u = "destroy_pml4 r [0..<256] v"
  note td = teardown_spec [OF r]
  have inv: "pmm_inv (frames ?u)" using td unfolding torn_down_def by blast
  have "r \<noteq> 0" using tree_owned [OF r, of "[]"] by (auto simp: pmm_owns_page_def)
  then have u: "v' = free_if_owned ?u r"
    using v' unfolding vmm_destroy_address_space_def Let_def by (simp del: upt_rec_numeral)
  have same: "rd v' g j = rd v g j" if "node v kr q = Some g" "idx_ok q" "length q \<le> 3" "j < 512" for q g j
  proof -
    have g: "g \<notin> user_tables v r" "g \<noteq> r" using ap that(1-3) unfolding spaces_apart_def by blast+
    have al: "frame_aligned g" by (rule tree_aligned [OF kr that(3,2,1)])
    have "rd ?u g j = rd v g j" using td g al that(4) unfolding torn_down_def user_tables_def by blast
    then show ?thesis unfolding u rd_free [OF inv] .
  qed
  have nd: "node v' kr q = node v kr q" if "idx_ok q" "length q \<le> 4" for q
  proof (rule node_cong)
    fix x j s g
    assume x: "q = x @ j # s" "node v kr x = Some g"
    then show "rd v' g j = rd v g j" using same [of x g j] that by auto
  qed
  show "walk v' kr (page_path va) = walk v kr (page_path va)"
  proof (rule walk_cong)
    fix x j s g
    assume x: "page_path va = x @ j # s" "node v kr x = Some g"
    have "idx_ok (page_path va)" "length (page_path va) = 4" by (rule page_path_ok)+
    then show "rd v' g j = rd v g j" using same [of x g j] x by auto
  qed
  have own: "pmm_owns_page (frames v') b" if "pmm_owns_page (frames v) b" "b \<notin> user_tables v r \<union> user_pages v r \<union> {r}" for b
    using td vmm_free_owns(2) [OF inv, of r b] that unfolding u torn_down_def user_tables_def user_pages_def by auto
  have "rd v' kr i = rd v kr i" if "i < 512" for i by (rule same [of "[]"]) (use that in simp_all)
  moreover have "pmm_inv (frames v')" unfolding u by (rule vmm_free_owns(1) [OF inv])
  ultimately show "tree_ok v' kr"
    using kr nd own ap unfolding tree_ok_def spaces_apart_def by simp
qed

lemma teardown_frames:
  assumes r: "tree_ok v r" and v': "v' = vmm_destroy_address_space v r True"
  shows "pmm_owns_page (frames v') b \<longleftrightarrow>
    pmm_owns_page (frames v) b \<and> \<not> (b \<in> user_tables v r \<union> user_pages v r \<union> {r} \<and> 0x4800000 \<le> b)"
proof -
  note td = teardown_spec [OF r]
  have inv: "pmm_inv (frames (destroy_pml4 r [0..<256] v))" using td unfolding torn_down_def by blast
  have "r \<noteq> 0" using tree_owned [OF r, of "[]"] by (auto simp: pmm_owns_page_def)
  then have u: "v' = free_if_owned (destroy_pml4 r [0..<256] v) r"
    using v' unfolding vmm_destroy_address_space_def Let_def by (simp del: upt_rec_numeral)
  show ?thesis
    using td vmm_free_owns(2) [OF inv, of r b] unfolding u torn_down_def user_tables_def user_pages_def by auto
qed

lemma heap_survives:
  assumes inv: "heap_inv h" and r: "tree_ok (vm h) r" and ap: "spaces_apart (vm h) (kernel_pml4_phys (vm h)) r"
  shows "heap_inv (h\<lparr>vm := vmm_destroy_address_space (vm h) r True\<rparr>)"
proof -
  let ?v = "vmm_destroy_address_space (vm h) r True"
  have kr: "tree_ok (vm h) (kernel_pml4_phys (vm h))" using inv by (simp add: heap_inv_def)
  note td = teardown_other [OF r kr ap refl]
  have "heap_rep (h\<lparr>vm := ?v\<rparr>) = heap_rep h" by (simp add: heap_rep_def fun_eq_iff)
  then show ?thesis
    using inv td unfolding heap_inv_def heap_mapped_def by (simp add: destroy_kernel_root)
qed

section \<open>The parts of the exit\<close>

lemma free_nodes_vm: "free_nodes h ns = Some (r, h') \<Longrightarrow> vm h' = vm h"
proof (induction ns arbitrary: h)
  case (Cons n ns)
  then obtain x h1 where k: "kfree h (Some (rnode n)) = Some (x, h1)" by (auto split: option.splits)
  show ?case using Cons.prems Cons.IH [of h1] kfree_vm [OF k] by (cases x) (simp_all add: k)
qed simp

lemma reset_vm: "reset_uheap k t = Some (r, k') \<Longrightarrow> vm (kernel_heap k') = vm (kernel_heap k)"
proof -
  assume r: "reset_uheap k t = Some (r, k')"
  then obtain x h where f: "free_nodes (kernel_heap k) (kregions k t) = Some (x, h)"
    by (auto simp: reset_uheap_def uheap_reset_def utask_of_def split: option.splits)
  show ?thesis using r free_nodes_vm [OF f] by (cases x) (auto simp: reset_uheap_def uheap_reset_def utask_of_def f)
qed

text \<open>The descriptors are closed: their buffers leave the ownership.\<close>

lemma close_step:
  assumes ok: "kernel_ok (owns k) k" and t: "t < VFS_TASKS" and fs: "kfs_inv (vfs_fs (kvfs k)) C D" "length (stack_mem (kvfs k)) = 23"
    and fl: "\<forall>i \<in> fd_slots t. used (fd_at (kvfs k) i) \<longrightarrow> flushable (fd_at (kvfs k) i)"
  obtains v C' where "vfs_close_all (kvfs k) (int t) = Some (Ret (), v)" "kernel_ok (owns k |` (- (Buf ` fd_slots t))) (k\<lparr>kvfs := v\<rparr>)"
    "live (vfs_heap v) = remaining (owns k) (Buf ` fd_slots t) (live (kernel_heap k))" "\<forall>i \<in> fd_slots t. \<not> used (fd_at v i)"
    "\<forall>j. j \<notin> fd_slots t \<longrightarrow> fd_at v j = fd_at (kvfs k) j" "kfs_inv (vfs_fs v) C' D" "close_frame (kvfs k) v"
proof -
  note k = kernel_okD [OF ok]
  obtain v C' where v: "vfs_close_all (kvfs k) (int t) = Some (Ret (), v)" "vfs_inv v" "\<forall>i \<in> fd_slots t. \<not> used (fd_at v i)"
      "\<forall>j. j \<notin> fd_slots t \<longrightarrow> fd_at v j = fd_at (kvfs k) j"
      "live (vfs_heap v) = {(a, n) \<in> live (kernel_heap k). a \<notin> buffers (kvfs k) (fd_slots t)}" "kfs_inv (vfs_fs v) C' D" "close_frame (kvfs k) v"
    using close_all_keeps [OF k(1) t fs fl] by blast
  have "i < 256" if "i \<in> fd_slots t" for i using that t by (simp add: fd_slots_def)
  then have "a \<in> buffers (kvfs k) (fd_slots t) \<longleftrightarrow> (\<exists>x \<in> Buf ` fd_slots t. owns k x = Some a)" for a
    by (auto simp: buffers_def split: if_splits)
  then have lv: "live (vfs_heap v) = remaining (owns k) (Buf ` fd_slots t) (live (kernel_heap k))"
    unfolding v(5) remaining_def by auto
  have "owners_ok (owns k |` (- (Buf ` fd_slots t))) (live (vfs_heap v))" unfolding lv by (rule owners_drop [OF k(2)])
  moreover have "(owns k |` (- (Buf ` fd_slots t))) (Buf i) = vf_buf (fd_at v i)" if i: "i < 256" "used (fd_at v i)" for i
  proof -
    have "i \<notin> fd_slots t" using v(3) i(2) by blast
    then show ?thesis using v(4) i by (auto simp: restrict_map_def)
  qed
  ultimately have "kernel_ok (owns k |` (- (Buf ` fd_slots t))) (k\<lparr>kvfs := v\<rparr>)" using v(2) by (simp add: kernel_ok_def)
  then show thesis by (rule that [OF v(1) _ lv v(3,4,6,7)])
qed

text \<open>The address space goes away.\<close>

lemma space_step:
  assumes ok: "kernel_ok own k" and r: "tree_ok (vm (kernel_heap k)) r" "spaces_apart (vm (kernel_heap k)) (kernel_pml4_phys (vm (kernel_heap k))) r"
  shows "kernel_ok own (set_heap k ((kernel_heap k)\<lparr>vm := vmm_destroy_address_space (vm (kernel_heap k)) r True\<rparr>))"
  by (rule heap_step [OF ok heap_survives [OF kernel_okD(3) [OF ok] r]])
    (use kernel_okD(2) [OF ok] in \<open>simp_all add: region_kept_def\<close>)

text \<open>The locked section of the exit for task \<open>t\<close> on its CPU.\<close>

lemma exit_mark_fields:
  assumes "cpu < SMP_MAX_CPUS" "cpu_current s cpu = Some t" "0 < t" "t < task_count s" "exit_mark s cpu = (st, dead, s')"
  shows "st = stack_base (tasks s t)" "dead = pml4_phys (tasks s t)" "cpu_current s' = (cpu_current s)(cpu := None)"
    "tasks s' = (tasks s)(t := tasks s t\<lparr>stack_base := 0, pml4_phys := 0, tstate := TASK_DEAD, rsp := 0\<rparr>)" "runqs s' = runqs s"
    "syscall_stack_tops s' = syscall_stack_tops s"
    "s' = s\<lparr>tasks := tasks s', cpu_current := cpu_current s', sched_cr3 := sched_cr3 s', sched_percpu_cr3 := sched_percpu_cr3 s'\<rparr>"
    "sched_cr3 s' = (if pml4_phys (tasks s t) \<noteq> 0 \<and> kernel_root s \<noteq> 0 then (sched_cr3 s)(cpu := kernel_root s) else sched_cr3 s)"
    "sched_percpu_cr3 s' =
      (if pml4_phys (tasks s t) \<noteq> 0 \<and> kernel_root s \<noteq> 0 then (sched_percpu_cr3 s)(cpu := kernel_root s) else sched_percpu_cr3 s)"
  using assms by (auto simp: exit_mark_def Let_def)

section \<open>The whole exit\<close>

text \<open>Everything of the heap that task \<open>t\<close> owns.\<close>

definition task_owners :: "nat \<Rightarrow> owner set" where
  "task_owners t = slot_owners t \<union> Buf ` fd_slots t"

text \<open>What is left of task \<open>t\<close>, which ran on \<open>cpu\<close>, in \<open>k'\<close>.\<close>

definition task_gone :: "kernel \<Rightarrow> nat \<Rightarrow> nat \<Rightarrow> kernel \<Rightarrow> bool" where
  "task_gone k cpu t k' \<longleftrightarrow>
     tasks (ksched k') = (tasks (ksched k))(t := tasks (ksched k) t\<lparr>stack_base := 0, pml4_phys := 0, tstate := TASK_DEAD, rsp := 0\<rparr>) \<and>
     cpu_current (ksched k') = (cpu_current (ksched k))(cpu := None) \<and> runqs (ksched k') = runqs (ksched k) \<and>
     live (kernel_heap k') = remaining (owns k) (task_owners t) (live (kernel_heap k)) \<and>
     (\<forall>i \<in> fd_slots t. \<not> used (fd_at (kvfs k') i)) \<and> (\<forall>j. j \<notin> fd_slots t \<longrightarrow> fd_at (kvfs k') j = fd_at (kvfs k) j) \<and>
     kregions k' = (kregions k)(t := []) \<and> queue_of (kevents k') (int t) = [] \<and>
     vm (kernel_heap k') = (if pml4_phys (tasks (ksched k) t) \<noteq> PHYS_NULL
       then vmm_destroy_address_space (vm (kernel_heap k)) (pml4_phys (tasks (ksched k) t)) True else vm (kernel_heap k))"

text \<open>
  What the exit leaves alone: the bytes of the heap and of user memory, the events of the other tasks,
  the break of their user heaps, their names, the stacks of the CPUs, and of the scheduler all but the
  task's slot and the address space of this CPU, which is the kernel's when the task had one of its own.
\<close>

definition rest_of_kernel :: "kernel \<Rightarrow> nat \<Rightarrow> nat \<Rightarrow> kernel \<Rightarrow> bool" where
  "rest_of_kernel k cpu t k' \<longleftrightarrow>
     hbytes (kernel_heap k') = hbytes (kernel_heap k) \<and>
     (\<forall>u. valid_task u \<longrightarrow> u \<noteq> int t \<longrightarrow> queue_of (kevents k') u = queue_of (kevents k) u) \<and>
     kbrk k' = (kbrk k)(t := UHEAP_BASE) \<and> knames k' = knames k \<and> idle_stack_tops k' = idle_stack_tops k \<and>
     cpu_rsp k' = (cpu_rsp k)(cpu := idle_stack_tops k cpu) \<and>
     ksched k' = (ksched k)\<lparr>tasks := tasks (ksched k'), cpu_current := cpu_current (ksched k'),
       sched_cr3 := sched_cr3 (ksched k'), sched_percpu_cr3 := sched_percpu_cr3 (ksched k')\<rparr> \<and>
     (let own = pml4_phys (tasks (ksched k) t) \<noteq> PHYS_NULL \<and> kernel_root (ksched k) \<noteq> PHYS_NULL
      in sched_cr3 (ksched k') = (if own then (sched_cr3 (ksched k))(cpu := kernel_root (ksched k)) else sched_cr3 (ksched k)) \<and>
         sched_percpu_cr3 (ksched k') =
           (if own then (sched_percpu_cr3 (ksched k))(cpu := kernel_root (ksched k)) else sched_percpu_cr3 (ksched k)))"

lemma running_task:
  assumes "sched_inv s F" "cpu < SMP_MAX_CPUS" "cpu_current s cpu = Some t"
  shows "t < task_count s" "t < SCHED_MAX_TASKS"
proof -
  have "on_cpu s t" using assms(2,3) unfolding on_cpu_def by blast
  then show t: "t < task_count s" using assms(1) unfolding sched_inv_def task_ok_def by blast
  then show "t < SCHED_MAX_TASKS" using assms(1) unfolding sched_inv_def by linarith
qed

text \<open>The stack goes last, when the CPU stands on its idle stack.\<close>

lemma stack_step:
  assumes ok: "kernel_ok (owns k |` (- S)) k5" and st: "st = stack_base (tasks (ksched k) t)" "t < SCHED_MAX_TASKS" "Stack t \<notin> S"
    and lv: "live (kernel_heap k5) = remaining (owns k) S L"
  obtains h6 where "(if st \<noteq> 0 then on_heap k5 (kfree (kernel_heap k5) (Some (unat st))) else Some (Ret (), k5)) = Some (Ret (), set_heap k5 h6)"
    "kernel_ok (owns k |` (- insert (Stack t) S)) (set_heap k5 h6)" "live h6 = remaining (owns k) (insert (Stack t) S) L" "vm h6 = vm (kernel_heap k5)"
    "hbytes h6 = hbytes (kernel_heap k5)"
proof -
  have S: "- S \<inter> - {Stack t} = - insert (Stack t) S" "S \<union> {Stack t} = insert (Stack t) S" by auto
  have x: "(owns k |` (- S)) (Stack t) = (if st \<noteq> 0 then Some (unat st) else None)" using st by (auto simp: restrict_map_def)
  show thesis
  proof (cases "st = 0")
    case True
    then have "owns k |` (- S) = owns k |` (- insert (Stack t) S)" using x st by (auto simp: restrict_map_def fun_eq_iff)
    moreover have "remaining (owns k) S L = remaining (owns k) (insert (Stack t) S) L" using True st by (auto simp: remaining_def)
    ultimately show thesis using True ok lv by (intro that [of "kernel_heap k5"]) (auto simp: set_heap_def)
  next
    case False
    then have "(owns k |` (- S)) (Stack t) = Some (unat st)" using x by simp
    then obtain h6 where h: "kfree (kernel_heap k5) (Some (unat st)) = Some (Ret (), h6)"
        "kernel_ok (owns k |` (- S) |` (- {Stack t})) (set_heap k5 h6)" "live h6 = remaining (owns k |` (- S)) {Stack t} (live (kernel_heap k5))"
        and hb: "hbytes h6 = hbytes (kernel_heap k5)"
      by (rule free_step [OF ok]) auto
    show thesis using False h hb kfree_vm [OF h(1)] lv S
      by (intro that [of h6]) (simp_all only: on_heap_def remaining_Un restrict_restrict option.map prod.case if_True not_False_eq_True simp_thms)
  qed
qed

lemma kernel_fields_swap: "k\<lparr>kbrk := b, kregions := r, ksched := s, kvfs := v\<rparr> = k\<lparr>kvfs := v, kbrk := b, kregions := r, ksched := s\<rparr>"
  by (cases k) simp

lemma task_exit_spec:
  assumes inv: "kernel_inv k" and cpu: "cpu < SMP_MAX_CPUS" "cpu_current (ksched k) cpu = Some t" "0 < t"
    and fs: "kfs_inv (vfs_fs (kvfs k)) C D" "length (stack_mem (kvfs k)) = 23"
    and fl: "\<forall>i \<in> fd_slots t. used (fd_at (kvfs k) i) \<longrightarrow> flushable (fd_at (kvfs k) i)"
    and sp: "pml4_phys (tasks (ksched k) t) \<noteq> PHYS_NULL \<longrightarrow> tree_ok (vm (kernel_heap k)) (pml4_phys (tasks (ksched k) t)) \<and>
      spaces_apart (vm (kernel_heap k)) (kernel_pml4_phys (vm (kernel_heap k))) (pml4_phys (tasks (ksched k) t))"
  obtains k' C' where "task_exit k cpu = Some (Ret (), k')" "kernel_inv k'" "task_gone k cpu t k'" "kfs_inv (vfs_fs (kvfs k')) C' D"
    "rest_of_kernel k cpu t k'"
proof -
  have ok: "kernel_ok (owns k) k" and si: "sched_inv (ksched k) {}" and ev: "event_inv (kevents k)" using inv by (auto simp: kernel_inv_def)
  note t = running_task [OF si cpu(1,2)]
  let ?S1 = "Buf ` fd_slots t" and ?p = "pml4_phys (tasks (ksched k) t)" and ?st = "stack_base (tasks (ksched k) t)"
  obtain v C' where v: "vfs_close_all (kvfs k) (int t) = Some (Ret (), v)" "kernel_ok (owns k |` (- ?S1)) (k\<lparr>kvfs := v\<rparr>)"
      "live (vfs_heap v) = remaining (owns k) ?S1 (live (kernel_heap k))" "\<forall>i \<in> fd_slots t. \<not> used (fd_at v i)"
      "\<forall>j. j \<notin> fd_slots t \<longrightarrow> fd_at v j = fd_at (kvfs k) j" "kfs_inv (vfs_fs v) C' D" "close_frame (kvfs k) v"
    by (rule close_step [OF ok t(2) fs fl])
  define k2 where "k2 = k\<lparr>kvfs := v, kevents := flush_event_queue (kevents k) (int t)\<rparr>"
  have k2: "kernel_ok (owns k |` (- ?S1)) k2" "kvfs k2 = v" "ksched k2 = ksched k" "kregions k2 = kregions k" "kbrk k2 = kbrk k"
      "idle_stack_tops k2 = idle_stack_tops k" "kevents k2 = flush_event_queue (kevents k) (int t)" "cpu_rsp k2 = cpu_rsp k" "knames k2 = knames k"
    using v(2) kernel_ok_cong [of k2 "k\<lparr>kvfs := v\<rparr>"] by (simp_all add: k2_def)
  obtain st dead s where em: "exit_mark (ksched k) cpu = (st, dead, s)" by (cases "exit_mark (ksched k) cpu") auto
  note ef = exit_mark_fields [OF cpu t(1) em]
  have si': "sched_inv s {}" using exit_mark_inv [OF si cpu(1)] cpu(2,3) em by simp
  have o2: "\<forall>i. (owns k |` (- ?S1)) (Node t i) = owns k2 (Node t i)" using k2(4) by (auto simp: restrict_map_def)
  obtain h3 where h3: "reset_uheap k2 t = Some (Ret (), (set_heap k2 h3)\<lparr>kbrk := (kbrk k2)(t := UHEAP_BASE), kregions := (kregions k2)(t := [])\<rparr>)"
      "kernel_ok (owns k |` (- ?S1) |` (- range (Node t))) (set_heap k2 h3)"
      "live h3 = remaining (owns k |` (- ?S1)) (range (Node t)) (live (kernel_heap k2))" "hbytes h3 = hbytes (kernel_heap k2)"
    by (rule reset_step [OF k2(1) o2])
  let ?S2 = "?S1 \<union> range (Node t)"
  have vm3: "vm h3 = vm (kernel_heap k)" using reset_vm [OF h3(1)] v(7) k2(2) by (simp add: close_frame_def)
  have ok3: "kernel_ok (owns k |` (- ?S2)) (set_heap k2 h3)" using h3(2) by (simp add: Compl_Un)
  have lv3: "live h3 = remaining (owns k) ?S2 (live (kernel_heap k))" using h3(3) v(3) k2(2) by (simp add: remaining_Un)
  define h4 where "h4 = (if ?p \<noteq> PHYS_NULL then h3\<lparr>vm := vmm_destroy_address_space (vm h3) ?p True\<rparr> else h3)"
  have h4: "kernel_ok (owns k |` (- ?S2)) (set_heap k2 h4)" "live h4 = live h3"
    using space_step [OF ok3, of ?p] sp vm3 ok3 by (auto simp: h4_def)
  define k5 where "k5 = (set_heap k2 h4)\<lparr>kbrk := (kbrk k2)(t := UHEAP_BASE), kregions := (kregions k2)(t := []), ksched := s,
    cpu_rsp := (cpu_rsp k2)(cpu := task_idle_stack_top k2 cpu)\<rparr>"
  have k5: "kernel_ok (owns k |` (- ?S2)) k5" "kernel_heap k5 = h4" "ksched k5 = s"
    using h4(1) kernel_ok_cong [of k5 "set_heap k2 h4"] by (simp_all add: k5_def)
  have run: "task_exit k cpu = task_exit_finish_on_idle k5 ?st cpu"
    unfolding task_exit_def smp_current_task_id_def
    using cpu t(1) v(1) em h3(1) ef(1,2)
    by (simp add: on_vfs_def k2_def [symmetric] k2(3) task_idle_stack_top_def k5_def h4_def set_heap_def kernel_fields_swap)
  have lv5: "live (kernel_heap k5) = remaining (owns k) ?S2 (live (kernel_heap k))" using h4(2) lv3 k5(2) by simp
  obtain h6 where h6: "(if ?st \<noteq> 0 then on_heap k5 (kfree (kernel_heap k5) (Some (unat ?st))) else Some (Ret (), k5)) = Some (Ret (), set_heap k5 h6)"
      "kernel_ok (owns k |` (- insert (Stack t) ?S2)) (set_heap k5 h6)" "live h6 = remaining (owns k) (insert (Stack t) ?S2) (live (kernel_heap k))"
      "vm h6 = vm (kernel_heap k5)" "hbytes h6 = hbytes (kernel_heap k5)"
    by (rule stack_step [OF k5(1) refl t(2) _ lv5]) auto
  have S: "insert (Stack t) ?S2 = task_owners t" by (auto simp: task_owners_def slot_owners_def)
  note h6 = h6 [unfolded S k5(2)]
  define k' where "k' = (set_heap k5 h6)\<lparr>ksched := idle_round s cpu\<rparr>"
  have idle: "idle_round s cpu = s" using ef(3) by (simp add: idle_round_def fun_upd_idem)
  have fin: "task_exit k cpu = Some (Ret (), k')"
    unfolding run task_exit_finish_on_idle_def k5(2) h6(1) and_then_Ret k'_def using k5(3) by simp
  have k': "kvfs k' = kvfs (set_heap k5 h6)" "ksched k' = s" "kregions k' = (kregions k)(t := [])" "idle_stack_tops k' = idle_stack_tops k"
      "kevents k' = flush_event_queue (kevents k) (int t)" "kernel_heap k' = h6" "fds (kvfs k') = fds v" "vfs_fs (kvfs k') = vfs_fs v"
      "kbrk k' = (kbrk k)(t := UHEAP_BASE)" "cpu_rsp k' = (cpu_rsp k)(cpu := idle_stack_tops k cpu)" "knames k' = knames k"
    using k2 cpu(1) idle by (simp_all add: k'_def k5_def task_idle_stack_top_def)
  have own: "owns k' = owns k |` (- task_owners t)"
  proof
    show "owns k' x = (owns k |` (- task_owners t)) x" for x
      using ef k' v(4,5) t(2) by (cases x) (auto simp: task_owners_def slot_owners_def restrict_map_def)
  qed
  have "kernel_inv k'"
    unfolding kernel_inv_def own using h6(2) kernel_ok_cong [OF k'(1)] k'(2,5) si' flush_empty [OF ev t(2)] by simp
  moreover have "vm h6 = (if ?p \<noteq> PHYS_NULL then vmm_destroy_address_space (vm (kernel_heap k)) ?p True else vm (kernel_heap k))"
    using h6(4) vm3 by (simp add: h4_def)
  then have "task_gone k cpu t k'"
    unfolding task_gone_def k'(2-7) using ef v(4,5) h6(3) flush_empty [OF ev t(2)] by simp
  moreover have "kfs_inv (vfs_fs (kvfs k')) C' D" using v(6) k'(8) by simp
  moreover have "rest_of_kernel k cpu t k'"
  proof -
    have "hbytes h6 = hbytes (kernel_heap k)" using h6(5) h3(4) v(7) k2(2) by (simp add: h4_def close_frame_def)
    moreover have "queue_of (flush_event_queue (kevents k) (int t)) u = queue_of (kevents k) u" if "valid_task u" "u \<noteq> int t" for u
      by (rule queue_of_flush_other [OF that(2,1)])
    ultimately show ?thesis unfolding rest_of_kernel_def k'(2,4-6,9-11) Let_def using ef(7-9) by blast
  qed
  ultimately show thesis by (rule that [OF fin])
qed

section \<open>Boot\<close>

abbreviation cpus :: "nat list" where "cpus \<equiv> [0..<SMP_MAX_CPUS]"

lemma sched_stacks_init_spec:
  assumes ok: "kernel_ok Map.empty k" and room: "current_heap_end (kernel_heap k) + 2 * SMP_MAX_CPUS * 32768 < W64"
  shows "(\<exists>i k'. sched_stacks_init k = Some (Panic i, k')) \<and> \<not> memory_for (kernel_heap k) (2 * SMP_MAX_CPUS * stack_pages) \<or>
    (\<exists>k'. sched_stacks_init k = Some (Ret (), k') \<and> fds (kvfs k') = fds (kvfs k) \<and> kregions k' = kregions k \<and> kevents k' = kevents k \<and>
       tasks (ksched k') = tasks (ksched k) \<and>
       kernel_ok (\<lambda>y. case y of Idle c \<Rightarrow> if c < SMP_MAX_CPUS then Some (unat (idle_stack_tops k' c) - TASK_STACK_SIZE) else None
          | Sys c \<Rightarrow> if c < SMP_MAX_CPUS then Some (unat (syscall_stack_tops (ksched k') c) - SYSCALL_STACK_SIZE) else None | _ \<Rightarrow> None) k' \<and>
       (\<forall>c \<ge> SMP_MAX_CPUS. idle_stack_tops k' c = idle_stack_tops k c \<and> syscall_stack_tops (ksched k') c = syscall_stack_tops (ksched k) c) \<and>
       (\<forall>c < SMP_MAX_CPUS. idle_stack_tops k' c \<noteq> 0 \<and> syscall_stack_tops (ksched k') c \<noteq> 0 \<and>
          (\<exists>n \<ge> TASK_STACK_SIZE. (unat (idle_stack_tops k' c) - TASK_STACK_SIZE, n) \<in> live (kernel_heap k')) \<and>
          (\<exists>n \<ge> SYSCALL_STACK_SIZE. (unat (syscall_stack_tops (ksched k') c) - SYSCALL_STACK_SIZE, n) \<in> live (kernel_heap k'))))"
    (is "?panic \<or> (\<exists>k'. ?good k')")
proof -
  let ?put1 = "\<lambda>i a (k :: kernel). k\<lparr>idle_stack_tops := (idle_stack_tops k)(i := a)\<rparr>"
    and ?put2 = "\<lambda>i a (k :: kernel). k\<lparr>ksched := (ksched k)\<lparr>syscall_stack_tops := (syscall_stack_tops (ksched k))(i := a)\<rparr>\<rparr>"
    and ?rest1 = "\<lambda>k :: kernel. (ksched k, kregions k, kevents k)" and ?rest2 = "\<lambda>k :: kernel. (tasks (ksched k), kregions k, kevents k, idle_stack_tops k)"
  have cp: "distinct cpus" "length cpus = SMP_MAX_CPUS" "set cpus = {..<SMP_MAX_CPUS}" by (auto simp del: upt_rec_numeral)
  have inj: "inj Idle" "inj Sys" by (simp_all add: inj_def)
  note [simp] = inv_f_f [OF inj(1)] inv_f_f [OF inj(2)]
  have r1: "current_heap_end (kernel_heap k) + length cpus * 32768 < W64" unfolding cp(2) using room by simp
  have two: "2 * SMP_MAX_CPUS * stack_pages = length cpus * stack_pages + length cpus * stack_pages" unfolding cp(2) by simp
  show ?thesis
    using alloc_stacks_spec [of ?put1 idle_stack_tops ?rest1 Idle, OF _ _ _ _ _ inj(1) _ ok r1 cp(1)]
  proof (elim meta_impE disjE exE conjE)
    fix j k'
    assume p: "alloc_stacks (of_nat TASK_STACK_SIZE) ?put1 cpus k = Some (Panic j, k')" "\<not> memory_for (kernel_heap k) (length cpus * stack_pages)"
    have "\<not> memory_for (kernel_heap k) (2 * SMP_MAX_CPUS * stack_pages)" unfolding two using p(2) memory_for_mono le_add1 by blast
    with p(1) have ?panic unfolding sched_stacks_init_def by (auto simp: and_then_def simp del: upt_rec_numeral)
    then show ?thesis by blast
  next
    fix k1 :: kernel
    let ?own = "\<lambda>y. if y \<in> Idle ` set cpus then Some (unat (idle_stack_tops k1 (inv Idle y)) - TASK_STACK_SIZE) else None"
    assume k1: "alloc_stacks (of_nat TASK_STACK_SIZE) ?put1 cpus k = Some (Ret (), k1)" "?rest1 k1 = ?rest1 k" "fds (kvfs k1) = fds (kvfs k)"
      "kernel_ok ?own k1" "current_heap_end (kernel_heap k1) \<le> current_heap_end (kernel_heap k) + length cpus * 32768"
      "\<forall>i. i \<notin> set cpus \<longrightarrow> idle_stack_tops k1 i = idle_stack_tops k i"
      "\<forall>i \<in> set cpus. idle_stack_tops k1 i \<noteq> 0 \<and> (\<exists>n \<ge> TASK_STACK_SIZE. (unat (idle_stack_tops k1 i) - TASK_STACK_SIZE, n) \<in> live (kernel_heap k1))"
    assume m1: "\<forall>q. memory_for (kernel_heap k) (length cpus * stack_pages + q) \<longrightarrow> memory_for (kernel_heap k1) q"
    have r2: "current_heap_end (kernel_heap k1) + length cpus * 32768 < W64" using k1(5) room unfolding cp(2) by simp
    have o2: "\<forall>i \<in> set cpus. ?own (Sys i) = None" by auto
    show ?thesis
      using alloc_stacks_spec [of ?put2 "\<lambda>k. syscall_stack_tops (ksched k)" ?rest2 Sys, OF _ _ _ _ _ inj(2) _ k1(4) r2 cp(1) o2]
    proof (elim meta_impE disjE exE conjE)
      fix j k'
      assume p: "alloc_stacks (of_nat TASK_STACK_SIZE) ?put2 cpus k1 = Some (Panic j, k')" "\<not> memory_for (kernel_heap k1) (length cpus * stack_pages)"
      have "\<not> memory_for (kernel_heap k) (2 * SMP_MAX_CPUS * stack_pages)" unfolding two using p(2) m1 by blast
      with p(1) have ?panic unfolding sched_stacks_init_def k1(1) and_then_Ret by (auto simp: and_then_def simp del: upt_rec_numeral)
      then show ?thesis by blast
    next
      fix k2 :: kernel
      let ?tops = "syscall_stack_tops (ksched k2)"
      let ?own2 = "\<lambda>y. if y \<in> Sys ` set cpus then Some (unat (?tops (inv Sys y)) - TASK_STACK_SIZE) else ?own y"
      assume k2: "alloc_stacks (of_nat TASK_STACK_SIZE) ?put2 cpus k1 = Some (Ret (), k2)" "?rest2 k2 = ?rest2 k1" "fds (kvfs k2) = fds (kvfs k1)"
        "kernel_ok ?own2 k2" "live (kernel_heap k1) \<subseteq> live (kernel_heap k2)"
        "\<forall>i. i \<notin> set cpus \<longrightarrow> ?tops i = syscall_stack_tops (ksched k1) i"
        "\<forall>i \<in> set cpus. ?tops i \<noteq> 0 \<and> (\<exists>n \<ge> TASK_STACK_SIZE. (unat (?tops i) - TASK_STACK_SIZE, n) \<in> live (kernel_heap k2))"
      define k' where "k' = k2\<lparr>ksched := (ksched k2)\<lparr>rsp0 := (rsp0 (ksched k2))(0 := ?tops 0)\<rparr>\<rparr>"
      have run: "sched_stacks_init k = Some (Ret (), k')" unfolding sched_stacks_init_def k1(1) and_then_Ret k2(1) k'_def ..
      have k': "kvfs k' = kvfs k2" "kregions k' = kregions k2" "kevents k' = kevents k2" "tasks (ksched k') = tasks (ksched k2)"
          "idle_stack_tops k' = idle_stack_tops k1" "syscall_stack_tops (ksched k') = ?tops"
        using k2(2) by (simp_all add: k'_def)
      have own: "?own2 y = (case y of Idle c \<Rightarrow> if c < SMP_MAX_CPUS then Some (unat (idle_stack_tops k' c) - TASK_STACK_SIZE) else None
          | Sys c \<Rightarrow> if c < SMP_MAX_CPUS then Some (unat (syscall_stack_tops (ksched k') c) - SYSCALL_STACK_SIZE) else None | _ \<Rightarrow> None)" for y
        unfolding cp(3) k'(5,6) by (cases y) auto
      have idle: "idle_stack_tops k' c \<noteq> 0" "\<exists>n \<ge> TASK_STACK_SIZE. (unat (idle_stack_tops k' c) - TASK_STACK_SIZE, n) \<in> live (kernel_heap k')"
        if "c < SMP_MAX_CPUS" for c
        using k1(7) k2(5) that unfolding cp(3) k'(1,5) by blast+
      have "?good k'"
        using run k1(2,3,6) k2(2,3,6,7) k2(4) [unfolded own] kernel_ok_cong [OF k'(1)] k' idle unfolding cp(3) by auto
      then show ?thesis by blast
    qed simp_all
  qed simp_all
qed

section \<open>Properties\<close>

text \<open>
  C40. \<open>tasking_init\<close> sets the system up: from a sound heap of which nothing is owned yet and empty
  descriptor tables it returns, or stops with a panic when there is no memory for the two stacks
  of each CPU. It returns with the invariant of the kernel, on which creation and exit of tasks rest: the boot
  thread runs as task 0 on CPU 0, every run queue is empty, and each CPU has an idle stack and a system call
  stack that are heap regions of their own.
\<close>

theorem boot_tasks_correct:
  assumes "vfs_inv (kvfs k)" "event_inv (kevents k)" "owns k = Map.empty"
    and "current_heap_end (kernel_heap k) + 2 * SMP_MAX_CPUS * 32768 < W64"
  shows "(\<exists>i k'. boot_tasks k boot_cr3 = Some (Panic i, k')) \<and> \<not> memory_for (kernel_heap k) (2 * SMP_MAX_CPUS * stack_pages) \<or>
    (\<exists>k'. boot_tasks k boot_cr3 = Some (Ret (), k') \<and> kernel_inv k' \<and> cpu_current (ksched k') 0 = Some 0 \<and>
       (\<forall>c < SMP_MAX_CPUS. runqs (ksched k') c = []) \<and>
       (\<forall>c < SMP_MAX_CPUS. (\<exists>n \<ge> TASK_STACK_SIZE. (unat (idle_stack_tops k' c) - TASK_STACK_SIZE, n) \<in> live (kernel_heap k')) \<and>
          (\<exists>n \<ge> SYSCALL_STACK_SIZE. (unat (syscall_stack_tops (ksched k') c) - SYSCALL_STACK_SIZE, n) \<in> live (kernel_heap k'))))"
proof -
  define k0 where "k0 = k\<lparr>kbrk := (\<lambda>t. if t < SCHED_MAX_TASKS then 0 else kbrk k t), kregions := (\<lambda>t. if t < SCHED_MAX_TASKS then [] else kregions k t)\<rparr>"
  have none: "owns k y = None" for y using assms(3) by simp
  have reg: "kregions k t = []" for t
  proof -
    have "kregions k t = []" if "kregions k t \<noteq> []" using none [of "Node t 0"] that by (simp split: if_splits)
    then show ?thesis by blast
  qed
  have zero: "t < SCHED_MAX_TASKS \<Longrightarrow> stack_base (tasks (ksched k) t) = 0" "i < 256 \<Longrightarrow> \<not> used (fd_at (kvfs k) i)"
      "idle_stack_tops k c = 0" "syscall_stack_tops (ksched k) c = 0" for t i c
  proof -
    show "t < SCHED_MAX_TASKS \<Longrightarrow> stack_base (tasks (ksched k) t) = 0" using none [of "Stack t"] by (simp split: if_splits)
    show "\<not> used (fd_at (kvfs k) i)" if i: "i < 256"
    proof
      assume u: "used (fd_at (kvfs k) i)"
      obtain p where "vf_buf (fd_at (kvfs k) i) = Some p" by (rule fd_okD [OF assms(1) i u])
      then show False using none [of "Buf i"] u i by simp
    qed
    show "idle_stack_tops k c = 0" "syscall_stack_tops (ksched k) c = 0"
      using none [of "Idle c"] none [of "Sys c"] by (simp_all split: if_splits)
  qed
  have "kernel_ok Map.empty k0" using assms(1) zero(2) by (simp add: k0_def kernel_ok_def owners_ok_def)
  moreover have "current_heap_end (kernel_heap k0) + 2 * SMP_MAX_CPUS * 32768 < W64" using assms(4) by (simp add: k0_def)
  ultimately consider (panic) i k' where "sched_stacks_init k0 = Some (Panic i, k')" "\<not> memory_for (kernel_heap k) (2 * SMP_MAX_CPUS * stack_pages)"
    | (ok) k1 where "sched_stacks_init k0 = Some (Ret (), k1)" "fds (kvfs k1) = fds (kvfs k)" "kregions k1 = kregions k0" "kevents k1 = kevents k"
      "kernel_ok (\<lambda>y. case y of Idle c \<Rightarrow> if c < SMP_MAX_CPUS then Some (unat (idle_stack_tops k1 c) - TASK_STACK_SIZE) else None
          | Sys c \<Rightarrow> if c < SMP_MAX_CPUS then Some (unat (syscall_stack_tops (ksched k1) c) - SYSCALL_STACK_SIZE) else None | _ \<Rightarrow> None) k1"
      "\<forall>c \<ge> SMP_MAX_CPUS. idle_stack_tops k1 c = idle_stack_tops k c \<and> syscall_stack_tops (ksched k1) c = syscall_stack_tops (ksched k) c"
      "\<forall>c < SMP_MAX_CPUS. idle_stack_tops k1 c \<noteq> 0 \<and> syscall_stack_tops (ksched k1) c \<noteq> 0 \<and>
          (\<exists>n \<ge> TASK_STACK_SIZE. (unat (idle_stack_tops k1 c) - TASK_STACK_SIZE, n) \<in> live (kernel_heap k1)) \<and>
          (\<exists>n \<ge> SYSCALL_STACK_SIZE. (unat (syscall_stack_tops (ksched k1) c) - SYSCALL_STACK_SIZE, n) \<in> live (kernel_heap k1))"
    using sched_stacks_init_spec [of k0] by (auto simp: k0_def)
  then show ?thesis
  proof cases
    case panic
    then show ?thesis by (auto simp: boot_tasks_def k0_def and_then_def)
  next
    case ok
    define k' where "k' = k1\<lparr>ksched := tasking_init (ksched k) (syscall_stack_tops (ksched k1)) boot_cr3,
      knames := (knames k1)(0 := task_strncpy (knames k1 0) [107, 109, 97, 105, 110] 16)\<rparr>"
    have run: "boot_tasks k boot_cr3 = Some (Ret (), k')" using ok(1) by (simp add: boot_tasks_def k0_def k'_def)
    have s: "t < SCHED_MAX_TASKS \<Longrightarrow> stack_base (tasks (ksched k') t) = 0"
        "syscall_stack_tops (ksched k') = syscall_stack_tops (ksched k1)" "cpu_current (ksched k') 0 = Some 0"
        "c < SMP_MAX_CPUS \<Longrightarrow> runqs (ksched k') c = []" for t c
      using zero(1) by (simp_all add: k'_def tasking_init_def runq_init_def Let_def)
    have f: "kvfs k' = kvfs k1" "kregions k' t = []" "idle_stack_tops k' = idle_stack_tops k1" "kevents k' = kevents k" for t
      using ok(3,4) reg by (simp_all add: k'_def k0_def)
    have own: "owns k' y = (case y of Idle c \<Rightarrow> if c < SMP_MAX_CPUS then Some (unat (idle_stack_tops k1 c) - TASK_STACK_SIZE) else None
          | Sys c \<Rightarrow> if c < SMP_MAX_CPUS then Some (unat (syscall_stack_tops (ksched k1) c) - SYSCALL_STACK_SIZE) else None | _ \<Rightarrow> None)" for y
      using s(1,2) f ok(2,6,7) zero(2-4) by (cases y) (auto simp: not_less, metis not_le)
    have "kernel_ok (owns k') k'" using ok(5) kernel_ok_cong [OF f(1)] unfolding own [abs_def] by simp
    moreover have "sched_inv (ksched k') {}" by (simp add: k'_def tasking_init_inv)
    ultimately have "kernel_inv k'" using assms(2) f(4) by (simp add: kernel_inv_def)
    then show ?thesis using run s(2-4) f(1,3) ok(7) by (intro disjI2 exI [of _ k']) simp
  qed
qed

text \<open>
  C12. Creating a ring-3 task in a consistent kernel always returns, without a panic, and keeps the
  kernel consistent. Either it reports \<open>-1\<close> and no task and no heap region changed, or a dead slot
  became a ready task in exactly one run queue: its kernel stack is a fresh heap region apart from
  all others, the frame saved at its stack pointer resumes at the entry point in ring 3 on the given
  user stack with interrupts enabled, address space and cookie were set before, the stack
  and user heap nodes the slot still held were released, its event queue is empty, and no other task changed.
\<close>

theorem create_user_task_correct:
  assumes "kernel_inv k" "heap_can_grow (kernel_heap k) (of_nat TASK_STACK_SIZE)"
  shows "\<exists>r k'. create_user_task k entry user_rsp pml4 ck name cpu now = Some (Ret r, k') \<and> kernel_inv k' \<and>
    (r = - 1 \<and> ksched k' = ksched k \<and> live (kernel_heap k') = live (kernel_heap k) \<or>
     (\<exists>slot. r = int slot \<and> spawned k slot (\<lambda>_. entry_regs 0x23 user_rsp 0x1B entry 0) pml4 ck 1 TASK_KIND_SPAWNED now k'))"
  unfolding create_user_task_def
  by (cases rule: new_task_spec [OF assms, where frame = "\<lambda>top. isr_frame 0x23 user_rsp 0x1B entry 0" and sp = "\<lambda>_. user_rsp"]; blast)

text \<open>
  The same for kernel tasks: the new task starts in \<open>task_entry_trampoline\<close> with the function as
  argument, in ring 0 on the top of its own stack.
\<close>

theorem create_task_prio_correct:
  assumes "kernel_inv k" "heap_can_grow (kernel_heap k) (of_nat TASK_STACK_SIZE)"
  shows "\<exists>r k'. create_task_prio k trampoline func name prio cpu now = Some (Ret r, k') \<and> kernel_inv k' \<and>
    (r = - 1 \<and> ksched k' = ksched k \<and> live (kernel_heap k') = live (kernel_heap k) \<or>
     (\<exists>slot. r = int slot \<and> spawned k slot (\<lambda>top. entry_regs 0x10 top 0x08 trampoline func) PHYS_NULL 0 prio TASK_KIND_KERNEL now k'))"
  unfolding create_task_prio_def
  by (cases rule: new_task_spec [OF assms, where frame = "\<lambda>top. isr_frame 0x10 top 0x08 trampoline func" and sp = "\<lambda>top. top"]; blast)

text \<open>
  C5. A task other than the boot thread that exits on its CPU gives back exactly what it owns: its
  descriptors are closed with their buffers, its events dropped, the nodes of its user heap and its
  stack freed once, the frames of its address space returned, and its slot is dead and on no CPU,
  which goes on from its idle stack in the kernel's address space. The kernel and the file system stay
  consistent. Nothing of any other task changes: its slot, its events, the regions and break of its user
  heap, its name, its descriptors and their contents, and every byte of memory are as before, and
  so are the translations of the kernel and of every address space that shares no table with the user
  half of the one destroyed. Assumed of the address space of the task, if there is one: it is a well-formed tree
  whose user half shares no table with the kernel's tables.
\<close>

theorem task_exit_correct:
  assumes "kernel_inv k" "cpu < SMP_MAX_CPUS" "cpu_current (ksched k) cpu = Some t" "0 < t"
    and "kfs_inv (vfs_fs (kvfs k)) C D" "length (stack_mem (kvfs k)) = 23"
    and "\<forall>i \<in> fd_slots t. used (fd_at (kvfs k) i) \<longrightarrow> flushable (fd_at (kvfs k) i)"
    and "pml4_phys (tasks (ksched k) t) \<noteq> PHYS_NULL \<longrightarrow> tree_ok (vm (kernel_heap k)) (pml4_phys (tasks (ksched k) t)) \<and>
      spaces_apart (vm (kernel_heap k)) (kernel_pml4_phys (vm (kernel_heap k))) (pml4_phys (tasks (ksched k) t))"
  shows "\<exists>k' C'. task_exit k cpu = Some (Ret (), k') \<and> kernel_inv k' \<and> task_gone k cpu t k' \<and> rest_of_kernel k cpu t k' \<and>
    kfs_inv (vfs_fs (kvfs k')) C' D \<and> (\<forall>j. j \<notin> fd_slots t \<longrightarrow> fd_content (kvfs k') j = fd_content (kvfs k) j) \<and>
    (\<forall>r va. tree_ok (vm (kernel_heap k)) r \<longrightarrow>
       (pml4_phys (tasks (ksched k) t) \<noteq> PHYS_NULL \<longrightarrow> spaces_apart (vm (kernel_heap k)) r (pml4_phys (tasks (ksched k) t))) \<longrightarrow>
       walk (vm (kernel_heap k')) r (page_path va) = walk (vm (kernel_heap k)) r (page_path va)) \<and>
    (\<forall>va. walk (vm (kernel_heap k')) (kernel_pml4_phys (vm (kernel_heap k'))) (page_path va) =
       walk (vm (kernel_heap k)) (kernel_pml4_phys (vm (kernel_heap k))) (page_path va)) \<and>
    (pml4_phys (tasks (ksched k) t) \<noteq> PHYS_NULL \<longrightarrow>
      (\<forall>b. pmm_owns_page (frames (vm (kernel_heap k'))) b \<longleftrightarrow> pmm_owns_page (frames (vm (kernel_heap k))) b \<and>
         \<not> (b \<in> user_tables (vm (kernel_heap k)) (pml4_phys (tasks (ksched k) t)) \<union>
              user_pages (vm (kernel_heap k)) (pml4_phys (tasks (ksched k) t)) \<union> {pml4_phys (tasks (ksched k) t)} \<and> 0x4800000 \<le> b)))"
proof -
  let ?p = "pml4_phys (tasks (ksched k) t)" and ?v = "vm (kernel_heap k)"
  obtain k' C' where k': "task_exit k cpu = Some (Ret (), k')" "kernel_inv k'" "task_gone k cpu t k'" "kfs_inv (vfs_fs (kvfs k')) C' D"
      "rest_of_kernel k cpu t k'"
    by (rule task_exit_spec [OF assms])
  have vm: "vm (kernel_heap k') = (if ?p \<noteq> PHYS_NULL then vmm_destroy_address_space ?v ?p True else ?v)"
    using k'(3) by (simp add: task_gone_def)
  have kr: "tree_ok ?v (kernel_pml4_phys ?v)" using assms(1) kernel_okD(3) [of "owns k" k] by (simp add: kernel_inv_def heap_inv_def)
  have "walk (vm (kernel_heap k')) (kernel_pml4_phys (vm (kernel_heap k'))) (page_path va) = walk ?v (kernel_pml4_phys ?v) (page_path va)" for va
    unfolding vm using teardown_other(2) [OF _ kr _ refl, of ?p va] assms(8) by (simp add: destroy_kernel_root)
  moreover have "pmm_owns_page (frames (vm (kernel_heap k'))) b \<longleftrightarrow> pmm_owns_page (frames ?v) b \<and>
      \<not> (b \<in> user_tables ?v ?p \<union> user_pages ?v ?p \<union> {?p} \<and> 0x4800000 \<le> b)" if "?p \<noteq> PHYS_NULL" for b
    unfolding vm using teardown_frames [OF _ refl, of ?v ?p b] assms(8) that by simp
  moreover have "fd_content (kvfs k') j = fd_content (kvfs k) j" if "j \<notin> fd_slots t" for j
    using k'(3,5) that by (simp add: task_gone_def rest_of_kernel_def fd_content_def)
  moreover have "walk (vm (kernel_heap k')) r (page_path va) = walk ?v r (page_path va)"
    if "tree_ok ?v r" "?p \<noteq> PHYS_NULL \<longrightarrow> spaces_apart ?v r ?p" for r va
    unfolding vm using teardown_other(2) [OF _ that(1) _ refl, of ?p va] assms(8) that(2) by simp
  ultimately show ?thesis using k' by (intro exI [of _ k'] exI [of _ C'] conjI) (assumption | blast)+
qed

section \<open>A running task with an open file\<close>

definition running_sched :: sched where
  "running_sched =
     \<lparr>tasks = (\<lambda>t. null_task\<lparr>tid := t, tstate := (if t < 2 then TASK_RUNNING else TASK_DEAD)\<rparr>), task_count = 2, current_task = 0,
      cpu_current = (\<lambda>c. if c < 2 then Some c else None), runqs = (\<lambda>_. []), online = 2, resched = (\<lambda>_. False), sched_cr3 = (\<lambda>_. 0x1000),
      sched_percpu_cr3 = (\<lambda>_. 0x1000), rsp0 = (\<lambda>_. 0), kernel_root = 0x1000, syscall_stack_tops = (\<lambda>_. 0)\<rparr>"

definition running_kernel :: "vmm_state \<Rightarrow> kernel" where
  "running_kernel v =
     \<lparr>ksched = running_sched,
      kvfs = (one_open_file v)\<lparr>fds := (fds (one_open_file v))[16 := fd_at (one_open_file v) 0, 0 := fd_at (one_open_file v) 1]\<rparr>,
      kevents = event_init, kbrk = (\<lambda>_. 0), kregions = (\<lambda>_. []), knames = (\<lambda>_. replicate 16 0), idle_stack_tops = (\<lambda>_. 0), cpu_rsp = (\<lambda>_. 0)\<rparr>"

lemma running_sched_inv: "sched_inv running_sched {}"
proof -
  have "task_ok running_sched {} t" for t
    unfolding task_ok_def queued_def on_cpu_def runnable_def
    by (auto simp: running_sched_def null_task_def intro: exI [of _ t])
  then show ?thesis by (simp add: sched_inv_def queues_ok_def cpus_ok_def running_sched_def)
qed

lemma running_kernel_state:
  obtains v where "kernel_inv (running_kernel v)" "heap_can_grow (kernel_heap (running_kernel v)) (of_nat TASK_STACK_SIZE)"
proof -
  obtain v where v: "heap_inv (one_block_heap v)" "(HEAP_START_VADDR + HDR, 4064) \<in> live (one_block_heap v)"
    by (rule one_block_heap_state)
  let ?k = "running_kernel v"
  have h: "kernel_heap ?k = one_block_heap v" by (simp add: running_kernel_def one_open_file_def)
  have fd: "used (fd_at (kvfs ?k) i) \<longleftrightarrow> i = 16" if "i < 256" for i
    using that by (auto simp: running_kernel_def one_open_file_def nth_list_update_if)
  have f16: "fd_at (kvfs ?k) 16 = \<lparr>used = True, vf_owner = 0, vf_path = [47, 97], vf_buf = Some (HEAP_START_VADDR + HDR), vf_size = 3, vf_cap = 64,
       vf_pos = 1, vf_flags = VFS_O_RDWR, vf_dirty = True\<rparr>" and len: "length (fds (kvfs ?k)) = 256"
    by (simp_all add: running_kernel_def one_open_file_def)
  have "fd_ok (one_block_heap v) 16 (fd_at (kvfs ?k) 16)" unfolding f16 using v(2) by (auto simp: fd_ok_def)
  then have vi: "vfs_inv (kvfs ?k)" using v(1) fd len h by (auto simp: vfs_inv_def)
  have own: "owns ?k x = (if x = Buf 16 then Some (HEAP_START_VADDR + HDR) else None)" for x
    using fd f16 by (cases x) (auto simp: running_kernel_def running_sched_def null_task_def)
  have "owners_ok (owns ?k) (live (one_block_heap v))" unfolding owners_ok_def own using v(2) by auto
  then have "kernel_ok (owns ?k) ?k" using vi h unfolding kernel_ok_def by simp
  moreover have "ksched ?k = running_sched" "kevents ?k = event_init" by (simp_all add: running_kernel_def)
  ultimately have "kernel_inv ?k" using running_sched_inv event_init_inv by (simp add: kernel_inv_def)
  moreover have "heap_can_grow (kernel_heap ?k) (of_nat TASK_STACK_SIZE)" unfolding h by (simp add: heap_can_grow_def one_block_heap_def)
  ultimately show thesis by (rule that)
qed

theorem create_user_task_witness:
  "\<exists>v r k'. create_user_task (running_kernel v) 0x400000 0xC000000 0x5000 7 None 0 60 = Some (Ret r, k') \<and> kernel_inv k'"
proof -
  obtain v where v: "kernel_inv (running_kernel v)" "heap_can_grow (kernel_heap (running_kernel v)) (of_nat TASK_STACK_SIZE)"
    by (rule running_kernel_state)
  show ?thesis using create_user_task_correct [OF v] by blast
qed

theorem create_task_prio_witness:
  "\<exists>v r k'. create_task_prio (running_kernel v) 0xFFFFFFFF80001000 0xFFFFFFFF80002000 None 2 0 60 = Some (Ret r, k') \<and> kernel_inv k'"
proof -
  obtain v where v: "kernel_inv (running_kernel v)" "heap_can_grow (kernel_heap (running_kernel v)) (of_nat TASK_STACK_SIZE)"
    by (rule running_kernel_state)
  show ?thesis using create_task_prio_correct [OF v] by blast
qed

theorem task_exit_witness:
  "\<exists>v k'. task_exit (running_kernel v) 1 = Some (Ret (), k') \<and> kernel_inv k' \<and> tstate (tasks (ksched k') 1) = TASK_DEAD \<and>
     \<not> used (fd_at (kvfs k') 16)"
proof -
  obtain v where v: "kernel_inv (running_kernel v)" by (rule running_kernel_state)
  let ?k = "running_kernel v"
  have f: "cpu_current (ksched ?k) 1 = Some 1" "vfs_fs (kvfs ?k) = blank_fs" "length (stack_mem (kvfs ?k)) = 23" "pml4_phys (tasks (ksched ?k) 1) = 0"
    by (simp_all add: running_kernel_def running_sched_def one_open_file_def null_task_def)
  have bi: "kfs_inv (vfs_fs (kvfs ?k)) [2 \<mapsto> [2]] {2}" unfolding f(2) by (rule blank_inv)
  have fl: "\<forall>i \<in> fd_slots 1. used (fd_at (kvfs ?k) i) \<longrightarrow> flushable (fd_at (kvfs ?k) i)"
    by (auto simp: running_kernel_def one_open_file_def nth_list_update_if flushable_def fd_slots_def)
  obtain k' where k': "task_exit ?k 1 = Some (Ret (), k')" "kernel_inv k'" "task_gone ?k 1 1 k'"
    using task_exit_correct [OF v _ f(1) _ bi f(3) fl] f(4) by auto
  have "16 \<in> fd_slots 1" by (simp add: fd_slots_def)
  then have "tstate (tasks (ksched k') 1) = TASK_DEAD" "\<not> used (fd_at (kvfs k') 16)" using k'(3) unfolding task_gone_def by simp_all
  with k' show ?thesis by blast
qed

text \<open>The same kernel before boot, with all descriptors closed.\<close>

definition boot_kernel :: "vmm_state \<Rightarrow> kernel" where
  "boot_kernel v = (running_kernel v)\<lparr>kvfs := (one_open_file v)\<lparr>fds := replicate 256 (fd_at (one_open_file v) 1)\<rparr>\<rparr>"

theorem boot_tasks_witness:
  "\<exists>v k'. boot_tasks (boot_kernel v) 0x1000 = Some (Ret (), k') \<and> kernel_inv k' \<and> cpu_current (ksched k') 0 = Some 0"
proof -
  obtain v where v: "heap_inv (one_block_heap v)" "memory_for (one_block_heap v) 1000" by (rule one_block_memory)
  have fd: "\<not> used (fd_at (kvfs (boot_kernel v)) i)" if "i < 256" for i using that by (simp add: boot_kernel_def one_open_file_def)
  have h: "kernel_heap (boot_kernel v) = one_block_heap v" "length (fds (kvfs (boot_kernel v))) = 256"
    by (simp_all add: boot_kernel_def one_open_file_def)
  have "vfs_inv (kvfs (boot_kernel v))" using v(1) fd h by (auto simp: vfs_inv_def)
  moreover have "event_inv (kevents (boot_kernel v))" using event_init_inv by (simp add: boot_kernel_def running_kernel_def)
  moreover have "owns (boot_kernel v) y = None" for y
    using fd by (cases y) (auto simp: boot_kernel_def running_kernel_def running_sched_def null_task_def)
  moreover have "current_heap_end (kernel_heap (boot_kernel v)) + 2 * SMP_MAX_CPUS * 32768 < W64" unfolding h by (simp add: one_block_heap_def)
  moreover have "stack_pages = 5" by (simp add: pages_for_def round16_def)
  then have "memory_for (kernel_heap (boot_kernel v)) (2 * SMP_MAX_CPUS * stack_pages)" unfolding h using memory_for_mono [OF v(2)] by simp
  ultimately show ?thesis
    using boot_tasks_correct [of "boot_kernel v" "0x1000"] by (auto simp: fun_eq_iff)
qed

end
