(* ===== verification/Syscall_Correct.thy ===== *)
theory Syscall_Correct
  imports Syscall Page_Apart Task_Exit
begin

text \<open>
  Reading and writing a descriptor from ring 3: a bad buffer is refused before anything happens, the
  bytes pass through a kernel buffer that is given back, and nothing else changes on either side of
  the boundary.
\<close>

section \<open>The kernel behind a call\<close>

lemma kernel_eq [simp]:
  "kvfs (set_heap k h) = (kvfs k)\<lparr>vfs_heap := h\<rparr>"
  "kvfs (set_bytes k m) = (kvfs k)\<lparr>vfs_heap := (kernel_heap k)\<lparr>hbytes := m\<rparr>\<rparr>"
  by (simp_all add: set_heap_def set_bytes_def)

lemma set_kvfs_twice [simp]:
  "set_heap (k\<lparr>kvfs := s\<rparr>) h = k\<lparr>kvfs := s\<lparr>vfs_heap := h\<rparr>\<rparr>" "set_bytes (k\<lparr>kvfs := s\<rparr>) m = k\<lparr>kvfs := s\<lparr>vfs_heap := (vfs_heap s)\<lparr>hbytes := m\<rparr>\<rparr>\<rparr>"
  "set_heap k h = k\<lparr>kvfs := (kvfs k)\<lparr>vfs_heap := h\<rparr>\<rparr>"
  by (simp_all add: set_heap_def set_bytes_def)

text \<open>The range check of a ring-3 caller before and after the kernel buffer was allocated.\<close>

lemma range_after_kmalloc:
  assumes inv: "heap_inv h" and sz: "sz \<noteq> 0" and grow: "heap_can_grow h sz" and k: "kmalloc h sz = Some (Ret r, h')"
    and own: "own_half (vm h) (uc_pml4 uc)" and ok: "user_bytes (vm h) (uc_pml4 uc) a n" and le: "m \<le> n"
  shows "user_bytes (vm h') (uc_pml4 uc) a m"
proof -
  have max: "unat UC_USER_VA_MAX = 2 ^ 47" by simp
  have "paging_is_mapped_into (vm h') (of_nat (a + i) AND PAGE_MASK) (uc_pml4 uc)" if i: "i < m" for i
  proof -
    have lt: "a + i < 2 ^ 47" using ok i le max by (simp add: user_bytes_def)
    have "unat ((of_nat (a + i) :: u64) AND PAGE_MASK) \<le> unat (of_nat (a + i) :: u64)" by (metis word_and_le2 word_le_nat_alt)
    also have "\<dots> = a + i" by (rule unat_of_nat_small) (use lt in simp)
    finally have "unat ((of_nat (a + i) :: u64) AND PAGE_MASK) < 2 ^ 47" using lt by simp
    from kmalloc_user_half(2) [OF inv sz grow k own this] show ?thesis using ok i le by (simp add: user_bytes_def)
  qed
  then show ?thesis using ok le by (simp add: user_bytes_def)
qed

section \<open>Kernel buffers\<close>

lemma heap_high: "heap_inv h \<Longrightarrow> (p, n) \<in> live h \<Longrightarrow> 2 ^ 47 \<le> p"
  using live_region(1) [of h p n] by simp

text \<open>All descriptors and their files are as before.\<close>

abbreviation files_kept :: "vfs \<Rightarrow> vfs \<Rightarrow> bool" where
  "files_kept s s' \<equiv> others_kept s 256 s'"

lemma files_keptD:
  assumes "vfs_inv s" "files_kept s s'" "j < 256"
  shows "fd_at s' j = fd_at s j" "used (fd_at s j) \<Longrightarrow> fd_content s' j = fd_content s j"
  using assms vfs_invD(1) [OF assms(1)] by (auto simp: others_kept_def)

text \<open>The buffer is a region no descriptor uses.\<close>

definition bounce :: "vfs \<Rightarrow> nat \<Rightarrow> nat \<Rightarrow> bool" where
  "bounce s p m \<longleftrightarrow> (p, m) \<in> live (vfs_heap s) \<and> (\<forall>j < 256. used (fd_at s j) \<longrightarrow> vf_buf (fd_at s j) \<noteq> Some p)"

lemma bounce_alloc:
  assumes inv: "vfs_inv s" and room: "heap_room s" and cap: "cap \<noteq> (0 :: u32)"
  obtains (none) h1 where "kmalloc (vfs_heap s) (ucast cap) = Some (Ret None, h1)" "vfs_inv (s\<lparr>vfs_heap := h1\<rparr>)"
      "files_kept s (s\<lparr>vfs_heap := h1\<rparr>)" "live h1 = live (vfs_heap s)" "hbytes h1 = hbytes (vfs_heap s)"
      "heap_exhausted (vfs_heap s) (ucast cap)"
  | (some) h1 p m where "kmalloc (vfs_heap s) (ucast cap) = Some (Ret (Some p), h1)" "vfs_inv (s\<lparr>vfs_heap := h1\<rparr>)"
      "files_kept s (s\<lparr>vfs_heap := h1\<rparr>)" "live h1 - {(p, m)} = live (vfs_heap s)" "hbytes h1 = hbytes (vfs_heap s)"
      "bounce (s\<lparr>vfs_heap := h1\<rparr>) p m" "unat cap \<le> m" "current_heap_end h1 \<le> current_heap_end (vfs_heap s) + unat cap + 16384"
      "\<forall>q. memory_for (vfs_heap s) (pages_for (round16 (ucast cap)) + q) \<longrightarrow> memory_for h1 q"
proof -
  let ?c = "ucast cap :: u64"
  have uc: "unat ?c = unat cap" by transfer (simp add: take_bit_take_bit)
  then have nz: "?c \<noteq> 0" using cap by (metis unat_eq_0)
  have cg: "current_heap_end (vfs_heap s) + unat ?c + 16384 < W64" using room unat_lt32 [of cap] uc by (simp add: heap_room_def)
  then have le: "unat ?c \<le> round16 ?c" by (intro round16_bounds(1)) simp
  obtain r h1 where k: "kmalloc (vfs_heap s) ?c = Some (Ret r, h1)" "heap_inv h1" "hbytes h1 = hbytes (vfs_heap s)"
      "case r of None \<Rightarrow> live h1 = live (vfs_heap s)
       | Some p \<Rightarrow> \<exists>n. round16 ?c \<le> n \<and> live h1 = insert (p, n) (live (vfs_heap s)) \<and> (\<forall>n'. (p, n') \<notin> live (vfs_heap s))"
      "current_heap_end h1 \<le> current_heap_end (vfs_heap s) + unat ?c + 16384"
    using kmalloc_spec [OF vfs_invD(2) [OF inv] nz cg] by blast
  have kp: "region_kept (vfs_heap s) h1 q" for q using k(3,4) by (cases r) (auto simp: region_kept_def)
  note ch = heap_change(1,2) [OF inv k(2) kp refl]
  show thesis
  proof (cases r)
    case None
    with k(4) have "live h1 = live (vfs_heap s)" by simp
    moreover have "heap_exhausted (vfs_heap s) ?c"
      using kmalloc_null(1) [OF vfs_invD(2) [OF inv] nz] k(1) None cg by (simp add: heap_can_grow_def)
    ultimately show thesis using k(1,3) ch None by (intro none [of h1]) simp_all
  next
    case (Some p)
    then obtain n where n: "round16 ?c \<le> n" "live h1 = insert (p, n) (live (vfs_heap s))" "\<forall>n'. (p, n') \<notin> live (vfs_heap s)"
      using k(4) by auto
    have "vf_buf (fd_at s j) \<noteq> Some p" if j: "j < 256" "used (fd_at s j)" for j
      using fd_okD [OF inv j] n(3) by (metis option.inject)
    then have "bounce (s\<lparr>vfs_heap := h1\<rparr>) p n" using n(2) by (simp add: bounce_def)
    moreover have "\<forall>q. memory_for (vfs_heap s) (pages_for (round16 ?c) + q) \<longrightarrow> memory_for h1 q"
      using kmalloc_memory(2) [OF vfs_invD(2) [OF inv] nz _ k(1)] cg by (auto simp: heap_can_grow_def)
    ultimately show thesis using k(1,3,5) ch Some n le uc by (intro some [of p h1 n]) auto
  qed
qed

text \<open>Bytes outside the files may change.\<close>

lemma bounce_bytes:
  assumes inv: "vfs_inv s" and b: "bounce s p m"
    and same: "\<And>a. 2 ^ 47 \<le> a \<Longrightarrow> \<not> (p \<le> a \<and> a < p + m) \<Longrightarrow> m' a = hbytes (vfs_heap s) a"
    and s': "s' = s\<lparr>vfs_heap := (vfs_heap s)\<lparr>hbytes := m'\<rparr>\<rparr>"
  shows "vfs_inv s'" "files_kept s s'" "bounce s' p m"
proof -
  let ?h = "vfs_heap s"
  have own: "(p, m) \<in> live ?h" using b by (simp add: bounce_def)
  have hi: "heap_inv ?h" by (rule vfs_invD(2) [OF inv])
  have kp: "region_kept ?h (?h\<lparr>hbytes := m'\<rparr>) q" if j: "j < 256" "used (fd_at s j)" "vf_buf (fd_at s j) = Some q" for j q
    unfolding region_kept_def heap_bytes_free
  proof (intro allI impI conjI)
    fix l a
    assume l: "(q, l) \<in> live ?h"
    then show "(q, l) \<in> live ?h" .
    assume a: "q \<le> a" "a < q + l"
    have "q \<noteq> p" using b j by (auto simp: bounce_def)
    then have "p + m \<le> q \<or> q + l \<le> p" using live_disjoint [OF hi own l] by blast
    moreover have "2 ^ 47 \<le> q" by (rule heap_high [OF hi l])
    ultimately show "hbytes (?h\<lparr>hbytes := m'\<rparr>) a = hbytes ?h a" using a same [of a] by auto
  qed
  have hi': "heap_inv (?h\<lparr>hbytes := m'\<rparr>)" using hi by (simp add: heap_bytes_free)
  show "vfs_inv s'" by (rule heap_change(1) [OF inv hi' kp s'])
  show "files_kept s s'" by (rule heap_change(2) [OF inv hi' kp s'])
  show "bounce s' p m" using b by (simp add: bounce_def s' heap_bytes_free)
qed

lemma bounce_free:
  assumes inv: "vfs_inv s" and b: "bounce s p m"
  obtains h1 where "kfree (vfs_heap s) (Some p) = Some (Ret (), h1)" "vfs_inv (s\<lparr>vfs_heap := h1\<rparr>)" "files_kept s (s\<lparr>vfs_heap := h1\<rparr>)"
    "live h1 = live (vfs_heap s) - {(p, m)}" "hbytes h1 = hbytes (vfs_heap s)"
proof -
  have own: "(p, m) \<in> live (vfs_heap s)" using b by (simp add: bounce_def)
  obtain h1 where k: "kfree (vfs_heap s) (Some p) = Some (Ret (), h1)" "heap_inv h1" "live h1 = live (vfs_heap s) - {(p, m)}"
      "hbytes h1 = hbytes (vfs_heap s)"
    using kfree_spec [OF vfs_invD(2) [OF inv] own] by blast
  have kp: "region_kept (vfs_heap s) h1 q" if "j < 256" "used (fd_at s j)" "vf_buf (fd_at s j) = Some q" for j q
    using that b k(3,4) by (auto simp: region_kept_def bounce_def)
  note ch = heap_change(1,2) [OF inv k(2) kp refl]
  show thesis by (rule that [OF k(1) ch(1) ch(2) k(3,4)])
qed

section \<open>Reading\<close>

lemma kept_files: "others_kept s i s1 \<Longrightarrow> files_kept s1 s2 \<Longrightarrow> length (fds s1) = length (fds s) \<Longrightarrow> length (fds s) = 256 \<Longrightarrow> others_kept s i s2"
  by (simp add: others_kept_def)

text \<open>The bytes pass from the file through the buffer at \<open>p\<close> to the user's buffer at \<open>a\<close>.\<close>

lemma read_through:
  assumes inv: "vfs_inv s" and r: "resolve s me fd = Some i" "vf_flags (fd_at s i) AND VFS_O_WRONLY = 0"
    and n: "n = min (unat cw) (unat (vf_size (fd_at s i)) - unat (vf_pos (fd_at s i)))" "n < 2 ^ 31"
    and s1: "s1 = s\<lparr>vfs_heap := h1\<rparr>" "vfs_inv s1" "files_kept s s1" "live h1 - {(p, m)} = live (vfs_heap s)" "hbytes h1 = hbytes (vfs_heap s)"
      "bounce s1 p m" "unat cw \<le> m" and a: "a + n \<le> 2 ^ 47"
    and data: "data = take n (drop (unat (vf_pos (fd_at s i))) (fd_content s i))"
    and m4: "m4 = (if 0 < n then memcpy a p n (put_bytes (hbytes h1) p data) else put_bytes (hbytes h1) p data)"
  obtains s2 h5 where "vfs_read s1 me fd False cw = (int n, data, s2)" "vfs_heap s2 = h1"
    "kfree (h1\<lparr>hbytes := m4\<rparr>) (Some p) = Some (Ret (), h5)" "vfs_inv (s2\<lparr>vfs_heap := h5\<rparr>)" "others_kept s i (s2\<lparr>vfs_heap := h5\<rparr>)"
    "fd_content (s2\<lparr>vfs_heap := h5\<rparr>) i = fd_content s i" "fd_at s2 i = (fd_at s i)\<lparr>vf_pos := vf_pos (fd_at s i) + of_nat n\<rparr>"
    "live h5 = live (vfs_heap s)" "get_bytes (hbytes h5) a n = data"
    "\<forall>x < 2 ^ 47. \<not> (a \<le> x \<and> x < a + n) \<longrightarrow> hbytes h5 x = hbytes (vfs_heap s) x"
proof -
  let ?f = "fd_at s i" and ?f' = "(fd_at s i)\<lparr>vf_pos := vf_pos (fd_at s i) + of_nat n\<rparr>"
  note i = resolveD(1,2) [OF inv r(1)] and len = vfs_invD(1) [OF inv]
  have at1: "fd_at s1 j = fd_at s j" "fd_content s1 j = fd_content s j" for j using s1(1,5) by (simp_all add: fd_content_def)
  have r1: "resolve s1 me fd = Some i" using r(1) s1(1) by (auto simp: resolve_def Let_def split: if_splits)
  have "sint (of_nat n :: u32) = int n"
    using n(2) by (simp add: sint_uint unsigned_of_nat take_bit_nat_eq_self signed_take_bit_int_eq_self)
  then have rd: "vfs_read s1 me fd False cw = (int n, data, set_fd s1 i ?f')"
    using vfs_read_eq [OF s1(2) r1] r(2) n(1) data by (simp add: at1)
  define s2 where "s2 = set_fd s1 i ?f'"
  have s2: "vfs_inv s2" "others_kept s1 i s2" "fd_content s2 i = fd_content s1 i"
    by (rule reposition [OF s1(2) i(1) _ _ _ _ _ _ s2_def]; use i(2) in \<open>simp add: at1\<close>)+
  have f2: "fd_at s2 i = ?f'" "vfs_heap s2 = h1" using len i(1) s1(1) by (simp_all add: s2_def)
  have b2: "bounce s2 p m" using s1(1,6) i len f2 by (auto simp: bounce_def s2_def nth_list_update_if)
  have ld: "length data = n" using n(1) by (simp add: data fd_content_def)
  have p47: "2 ^ 47 \<le> p" using heap_high [OF vfs_invD(2) [OF s1(2)], of p m] s1(6) by (simp add: bounce_def)
  have nm: "n \<le> m" using n(1) s1(7) by simp
  have m4eq: "m4 x = (if a \<le> x \<and> x < a + n then data ! (x - a) else put_bytes (hbytes h1) p data x)" for x
  proof (cases "0 < n")
    case True
    have "memcpy a p n (put_bytes (hbytes h1) p data) x =
        (if a \<le> x \<and> x < a + n then put_bytes (hbytes h1) p data (p + (x - a)) else put_bytes (hbytes h1) p data x)"
      by (rule memcpy_eq) (use a p47 True in linarith)
    then show ?thesis unfolding m4 using True ld by (auto simp: put_bytes_def)
  qed (auto simp: m4)
  have same: "m4 x = hbytes (vfs_heap s2) x" if "2 ^ 47 \<le> x" "\<not> (p \<le> x \<and> x < p + m)" for x
    using that a ld nm unfolding m4eq f2 by (auto simp: put_bytes_def)
  define s4 where "s4 = s2\<lparr>vfs_heap := (vfs_heap s2)\<lparr>hbytes := m4\<rparr>\<rparr>"
  have s4: "vfs_inv s4" "files_kept s2 s4" "bounce s4 p m" by (rule bounce_bytes [OF s2(1) b2 same s4_def]; assumption)+
  obtain h5 where h5: "kfree (vfs_heap s4) (Some p) = Some (Ret (), h5)" "vfs_inv (s4\<lparr>vfs_heap := h5\<rparr>)" "files_kept s4 (s4\<lparr>vfs_heap := h5\<rparr>)"
      "live h5 = live (vfs_heap s4) - {(p, m)}" "hbytes h5 = hbytes (vfs_heap s4)"
    by (rule bounce_free [OF s4(1,3)])
  have h4: "vfs_heap s4 = h1\<lparr>hbytes := m4\<rparr>" "s4\<lparr>vfs_heap := h5\<rparr> = s2\<lparr>vfs_heap := h5\<rparr>" by (simp_all add: s4_def f2)
  note k4 = files_keptD [OF s2(1) s4(2) i(1)] and k5 = files_keptD [OF s4(1) h5(3) i(1)]
  have u2: "used (fd_at s2 i)" using f2 i by simp
  have fk: "files_kept s2 (s4\<lparr>vfs_heap := h5\<rparr>)"
    by (rule kept_trans(1) [OF s4(2) h5(3)]) (simp add: vfs_invD(1) [OF s2(1)] vfs_invD(1) [OF s4(1)])
  have "others_kept s i s2" by (rule kept_trans(1) [of s i s1]) (use s1(3) s2(2) len s1(1) at1 in \<open>auto simp: others_kept_def\<close>)
  then have ok: "others_kept s i (s2\<lparr>vfs_heap := h5\<rparr>)" using kept_files fk len s1(1) unfolding h4(2) by (simp add: s2_def)
  have c: "fd_content (s2\<lparr>vfs_heap := h5\<rparr>) i = fd_content s i"
    using files_keptD(2) [OF s2(1) fk i(1) u2] s2(3) at1 unfolding h4(2) by simp
  have lv: "live h5 = live (vfs_heap s)" using h5(4) s1(4) by (simp add: h4 heap_bytes_free)
  have hb: "hbytes h5 = m4" using h5(5) by (simp add: h4)
  have got: "get_bytes (hbytes h5) a n = data" using ld by (intro nth_equalityI) (simp_all add: hb m4eq)
  have rest: "hbytes h5 x = hbytes (vfs_heap s) x" if "x < 2 ^ 47" "\<not> (a \<le> x \<and> x < a + n)" for x
    using that p47 s1(5) by (auto simp: hb m4eq put_bytes_def)
  show thesis using that [OF rd [folded s2_def] f2(2) _ _ ok c f2(1) lv got] h5(1,2) rest unfolding h4 by blast
qed

text \<open>
  C14. \<open>sys_read\<close> from ring 3 on a readable descriptor. A buffer that is not mapped user memory is
  refused and nothing changes. Otherwise either the kernel heap has no free block and no memory for its
  own buffer, then \<open>-1\<close> is returned and file and user memory are as before, or the user's buffer holds exactly the
  next bytes of the file, as many as were asked for (at most 1 MiB) and are left, and the position
  moves past them. No other user byte, no other descriptor and no allocated region changes.
\<close>

theorem sys_read_correct:
  assumes inv: "vfs_inv (kvfs k)" and room: "heap_room (kvfs k)" and own: "own_half (kernel_vm k) (uc_pml4 uc)"
    and u: "from_user uc" "rcx \<noteq> 0"
    and r: "resolve (kvfs k) me (reg_int rbx) = Some i" "vf_flags (fd_at (kvfs k) i) AND VFS_O_WRONLY = 0"
    and cnt: "cnt = min (unat (ucast rdx :: u32)) 0x100000" "0 < cnt"
    and n: "n = min cnt (unat (vf_size (fd_at (kvfs k) i)) - unat (vf_pos (fd_at (kvfs k) i)))"
  shows "\<exists>ret k'. sys_read k uc me rbx rcx rdx = Some (Ret ret, k') \<and> vfs_inv (kvfs k') \<and>
    live (kernel_heap k') = live (kernel_heap k) \<and> others_kept (kvfs k) i (kvfs k') \<and> fd_content (kvfs k') i = fd_content (kvfs k) i \<and>
    (if user_bytes (kernel_vm k) (uc_pml4 uc) (unat rcx) cnt then
       ret = - 1 \<and> heap_exhausted (kernel_heap k) (of_nat cnt) \<and>
       fd_at (kvfs k') i = fd_at (kvfs k) i \<and> hbytes (kernel_heap k') = hbytes (kernel_heap k) \<or>
       ret = of_nat n \<and> get_bytes (hbytes (kernel_heap k')) (unat rcx) n = take n (drop (unat (vf_pos (fd_at (kvfs k) i))) (fd_content (kvfs k) i)) \<and>
       fd_at (kvfs k') i = (fd_at (kvfs k) i)\<lparr>vf_pos := vf_pos (fd_at (kvfs k) i) + of_nat n\<rparr> \<and>
       (\<forall>a < 2 ^ 47. \<not> (unat rcx \<le> a \<and> a < unat rcx + n) \<longrightarrow> hbytes (kernel_heap k') a = hbytes (kernel_heap k) a)
     else ret = - 1 \<and> k' = k)"
proof -
  let ?s = "kvfs k" and ?f = "fd_at (kvfs k) i" and ?fd = "reg_int rbx"
  let ?data = "take n (drop (unat (vf_pos ?f)) (fd_content ?s i))"
  define cw where "cw = (if (ucast rdx :: u32) > UC_MAX_IO then UC_MAX_IO else ucast rdx)"
  have ucw: "unat cw = cnt" unfolding cw_def cnt(1) by (simp add: word_less_nat_alt min_def)
  have cw0: "cw \<noteq> 0" using ucw cnt(2) by auto
  let ?c = "ucast cw :: u64"
  have uc: "unat ?c = cnt" "?c \<noteq> 0" "?c \<le> UC_MAX_RANGE"
  proof -
    show "unat ?c = cnt" using ucw by transfer (simp add: take_bit_take_bit)
    then show "?c \<noteq> 0" "?c \<le> UC_MAX_RANGE" using cnt by (auto simp: word_le_nat_alt)
  qed
  have rng: "user_range_ok (kernel_vm k) uc rcx ?c = Some (user_bytes (kernel_vm k) (uc_pml4 uc) (unat rcx) cnt)"
    using user_range_ok_ring3 [OF u uc(2)] uc(1,3) by simp
  note unf = sys_read_def [of k uc me rbx rcx rdx, folded cw_def, unfolded Let_def rng]
  note i = resolveD(1,2) [OF inv r(1)]
  have m1: "ret_int (- 1) = - 1" by (simp add: ret_int_def)
  have refl: "others_kept ?s i ?s" by (simp add: others_kept_def)
  show ?thesis
  proof (cases "user_bytes (kernel_vm k) (uc_pml4 uc) (unat rcx) cnt")
    case False
    then have "sys_read k uc me rbx rcx rdx = Some (Ret (- 1), k)" using unf cw0 m1 by simp
    with False inv refl show ?thesis by (intro exI [of _ "- 1"] exI [of _ k]) simp
  next
    case ok: True
    from inv room cw0 show ?thesis
    proof (cases rule: bounce_alloc)
      case (none h1)
      have "sys_read k uc me rbx rcx rdx = Some (Ret (- 1), k\<lparr>kvfs := ?s\<lparr>vfs_heap := h1\<rparr>\<rparr>)"
        using unf cw0 ok none(1) m1 by (simp add: on_heap_def)
      moreover have "others_kept ?s i (?s\<lparr>vfs_heap := h1\<rparr>)" "fd_content (?s\<lparr>vfs_heap := h1\<rparr>) i = fd_content ?s i"
        using none(3) files_keptD [OF inv none(3) i(1)] i(2) vfs_invD(1) [OF inv] by (auto simp: others_kept_def)
      moreover have "?c = of_nat cnt" unfolding uc(1) [symmetric] by simp
      then have "heap_exhausted (kernel_heap k) (of_nat cnt)" using none(6) by simp
      ultimately show ?thesis using ok none(2,4,5)
        by (intro exI [of _ "- 1"] exI [of _ "k\<lparr>kvfs := ?s\<lparr>vfs_heap := h1\<rparr>\<rparr>"]) simp
    next
      case (some h1 p m)
      let ?m4 = "if 0 < n then memcpy (unat rcx) p n (put_bytes (hbytes h1) p ?data) else put_bytes (hbytes h1) p ?data"
      have nn: "n \<le> cnt" "n = min (unat cw) (unat (vf_size ?f) - unat (vf_pos ?f))" "n < 2 ^ 31"
      proof -
        show "n \<le> cnt" "n = min (unat cw) (unat (vf_size ?f) - unat (vf_pos ?f))" using n ucw by simp_all
        then show "n < 2 ^ 31" using cnt(1) by simp
      qed
      have a: "unat rcx + n \<le> 2 ^ 47" using ok nn(1) by (simp add: user_bytes_def)
      obtain s2 h5 where t: "vfs_read (?s\<lparr>vfs_heap := h1\<rparr>) me ?fd False cw = (int n, ?data, s2)" "vfs_heap s2 = h1"
          "kfree (h1\<lparr>hbytes := ?m4\<rparr>) (Some p) = Some (Ret (), h5)" "vfs_inv (s2\<lparr>vfs_heap := h5\<rparr>)" "others_kept ?s i (s2\<lparr>vfs_heap := h5\<rparr>)"
          "fd_content (s2\<lparr>vfs_heap := h5\<rparr>) i = fd_content ?s i" "fd_at s2 i = ?f\<lparr>vf_pos := vf_pos ?f + of_nat n\<rparr>"
          "live h5 = live (kernel_heap k)" "get_bytes (hbytes h5) (unat rcx) n = ?data"
          "\<forall>x < 2 ^ 47. \<not> (unat rcx \<le> x \<and> x < unat rcx + n) \<longrightarrow> hbytes h5 x = hbytes (kernel_heap k) x"
        by (rule read_through [OF inv r nn(2,3) HOL.refl some(2-6) _ a HOL.refl HOL.refl]) (use some(7) in simp_all)
      have grow: "heap_can_grow (kernel_heap k) ?c" using room uc(1) cnt(1) by (simp add: heap_can_grow_def heap_room_def)
      have w: "unat (ucast (of_nat n :: u32) :: u64) = n"
        using nn(3) by (simp add: unsigned_ucast_eq take_bit_nat_eq_self unat_of_nat)
      have cp: "copy_to_user (vm h1) uc rcx p (ucast (of_nat n :: u32)) b = Some (0, memcpy (unat rcx) p n b)" if "0 < n" for b
      proof -
        have nz: "(ucast (of_nat n :: u32) :: u64) \<noteq> 0" using w that by (metis less_irrefl unat_0)
        have "user_bytes (vm h1) (uc_pml4 uc) (unat rcx) n"
          by (rule range_after_kmalloc [OF vfs_invD(2) [OF inv] uc(2) grow some(1) own ok nn(1)])
        moreover have "(ucast (of_nat n :: u32) :: u64) \<le> UC_MAX_RANGE" using w nn(1) cnt(1) by (simp add: word_le_nat_alt)
        ultimately have "user_range_ok (vm h1) uc rcx (ucast (of_nat n :: u32)) = Some True"
          using user_range_ok_ring3 [OF u nz] w by simp
        then show ?thesis using w by (simp add: copy_to_user_def)
      qed
      have call: "sys_read k uc me rbx rcx rdx = Some (Ret (of_nat n), k\<lparr>kvfs := s2\<lparr>vfs_heap := h5\<rparr>\<rparr>)"
        using unf cw0 ok some(1) t(1-3) cp by (cases "0 < n") (simp_all add: on_heap_def ret_int_def)
      show ?thesis using call ok t(4-10)
        by (intro exI [of _ "of_nat n"] exI [of _ "k\<lparr>kvfs := s2\<lparr>vfs_heap := h5\<rparr>\<rparr>"]) simp
    qed
  qed
qed

section \<open>Writing\<close>

text \<open>The user's bytes are in the buffer at \<open>p\<close> and pass from there into the file.\<close>

lemma write_through:
  assumes inv: "vfs_inv s" and r: "resolve s me fd = Some i" "vf_flags (fd_at s i) AND (VFS_O_WRONLY OR VFS_O_RDWR) \<noteq> 0"
    and pos: "pos = unat (if vf_flags (fd_at s i) AND VFS_O_APPEND \<noteq> 0 then vf_size (fd_at s i) else vf_pos (fd_at s i))"
    and s1: "s1 = s\<lparr>vfs_heap := h1\<rparr>" "vfs_inv s1" "files_kept s s1" "hbytes h1 = hbytes (vfs_heap s)" "bounce s1 p m" "cnt \<le> m"
    and room: "current_heap_end h1 + 2 ^ 33 < W64" and a: "a + cnt \<le> 2 ^ 47" and cnt: "cnt < 2 ^ 32"
    and m2: "m2 = memcpy p a cnt (hbytes h1)" and data: "data = get_bytes (hbytes (vfs_heap s)) a cnt"
  obtains n s3 h4 where "vfs_write (s\<lparr>vfs_heap := h1\<lparr>hbytes := m2\<rparr>\<rparr>) me fd (Some (get_bytes m2 p cnt)) = Some (Ret n, s3)"
    "kfree (vfs_heap s3) (Some p) = Some (Ret (), h4)" "vfs_inv (s3\<lparr>vfs_heap := h4\<rparr>)" "others_kept s i (s3\<lparr>vfs_heap := h4\<rparr>)"
    "rest_kept s (s3\<lparr>vfs_heap := h4\<rparr>)" "\<forall>x < 2 ^ 47. hbytes h4 x = hbytes (vfs_heap s) x"
    "n = - 1 \<and> fd_content (s3\<lparr>vfs_heap := h4\<rparr>) i = fd_content s i \<and> \<not> can_write s1 i (pos + cnt) 0 \<or>
     n = sint (of_nat cnt :: u32) \<and> written (fd_content s i) pos data (fd_content (s3\<lparr>vfs_heap := h4\<rparr>) i)"
proof -
  note i = resolveD(1,2) [OF inv r(1)] and len = vfs_invD(1) [OF inv]
  define s2 where "s2 = s1\<lparr>vfs_heap := (vfs_heap s1)\<lparr>hbytes := m2\<rparr>\<rparr>"
  have s2_eq: "s2 = s\<lparr>vfs_heap := h1\<lparr>hbytes := m2\<rparr>\<rparr>" by (simp add: s2_def s1(1))
  have p47: "2 ^ 47 \<le> p" using heap_high [OF vfs_invD(2) [OF s1(2)], of p m] s1(5) by (simp add: bounce_def)
  have m2eq: "m2 x = (if p \<le> x \<and> x < p + cnt then hbytes h1 (a + (x - p)) else hbytes h1 x)" for x
    unfolding m2 by (rule memcpy_eq) (use a p47 in linarith)
  have same: "m2 x = hbytes (vfs_heap s1) x" if "2 ^ 47 \<le> x" "\<not> (p \<le> x \<and> x < p + m)" for x
    using that s1(1,6) unfolding m2eq by auto
  have s2: "vfs_inv s2" "files_kept s1 s2" "bounce s2 p m" by (rule bounce_bytes [OF s1(2,5) same s2_def]; assumption)+
  have fds2: "fd_at s2 j = fd_at s j" for j by (simp add: s2_eq)
  have r2: "resolve s2 me fd = Some i" using r(1) by (auto simp: s2_eq resolve_def Let_def split: if_splits)
  have got: "get_bytes m2 p cnt = data" unfolding data by (intro nth_equalityI) (simp_all add: m2eq s1(4))
  have hr: "heap_room s2" using room by (simp add: heap_room_def s2_eq)
  have ld: "length data = cnt" by (simp add: data)
  obtain n s3 where w: "vfs_write s2 me fd (Some data) = Some (Ret n, s3)" "vfs_inv s3" "others_kept s2 i s3" "rest_kept s2 s3"
      "\<forall>t l. (t, l) \<in> live (vfs_heap s2) \<longrightarrow> vf_buf (fd_at s2 i) \<noteq> Some t \<longrightarrow> (t, l) \<in> live (vfs_heap s3) \<and> vf_buf (fd_at s3 i) \<noteq> Some t"
      "\<forall>x < HEAP_START_VADDR. hbytes (vfs_heap s3) x = hbytes (vfs_heap s2) x"
      "n = - 1 \<and> fd_content s3 i = fd_content s2 i \<and> \<not> can_write s2 i (pos + cnt) 0 \<or> n = sint (of_nat cnt :: u32) \<and> written (fd_content s2 i) pos data (fd_content s3 i)"
      and u3: "used (fd_at s3 i)"
    using vfs_write_spec [OF s2(1) r2, of data pos] r(2) pos hr cnt unfolding fds2 ld by blast
  have b3: "bounce s3 p m" unfolding bounce_def
  proof (intro conjI allI impI)
    have "vf_buf (fd_at s2 i) \<noteq> Some p" "(p, m) \<in> live (vfs_heap s2)" using s2(3) i by (simp_all add: bounce_def fds2)
    then have buf: "vf_buf (fd_at s3 i) \<noteq> Some p" and own: "(p, m) \<in> live (vfs_heap s3)" using w(5) by blast+
    show "(p, m) \<in> live (vfs_heap s3)" by (rule own)
    fix j
    assume j: "j < 256" "used (fd_at s3 j)"
    then show "vf_buf (fd_at s3 j) \<noteq> Some p"
      using buf s2(3) w(3) vfs_invD(1) [OF s2(1)] by (cases "j = i") (auto simp: bounce_def others_kept_def)
  qed
  obtain h4 where h4: "kfree (vfs_heap s3) (Some p) = Some (Ret (), h4)" "vfs_inv (s3\<lparr>vfs_heap := h4\<rparr>)" "files_kept s3 (s3\<lparr>vfs_heap := h4\<rparr>)"
      "live h4 = live (vfs_heap s3) - {(p, m)}" "hbytes h4 = hbytes (vfs_heap s3)"
    by (rule bounce_free [OF w(2) b3])
  have lens: "length (fds s1) = 256" "length (fds s2) = 256" "length (fds s3) = 256" using vfs_invD(1) s1(2) s2(1) w(2) by blast+
  have keep2: "others_kept s i s2"
    using s1(3) s2(2) len lens fds2 by (auto simp: others_kept_def)
  have keep4: "others_kept s i (s3\<lparr>vfs_heap := h4\<rparr>)"
    using kept_files [OF kept_trans(1) [OF keep2 w(3)] h4(3)] len lens by simp
  have c2: "fd_content s2 i = fd_content s i"
    using files_keptD(2) [OF s1(2) s2(2) i(1)] files_keptD(2) [OF inv s1(3) i(1)] i(2) s1(1) by simp
  have c4: "fd_content (s3\<lparr>vfs_heap := h4\<rparr>) i = fd_content s3 i" by (rule files_keptD(2) [OF w(2) h4(3) i(1) u3])
  have cw: "can_write s2 i x 0 = can_write s1 i x 0" for x by (simp add: can_write_def write_pages_def s2_def memory_for_def)
  have "rest_kept s s2" by (simp add: rest_kept_def s2_eq)
  then have rest: "rest_kept s (s3\<lparr>vfs_heap := h4\<rparr>)" using w(4) by (simp add: rest_kept_def)
  have low: "\<forall>x < 2 ^ 47. hbytes h4 x = hbytes (vfs_heap s) x"
    using h4(5) w(6) p47 by (auto simp: s2_eq m2eq s1(4))
  show thesis
    by (rule that [OF w(1) [folded got, unfolded s2_eq] h4(1,2) keep4 rest low]) (use w(7) c2 c4 cw in simp)
qed

text \<open>
  C15. \<open>sys_write\<close> from ring 3 on a writable descriptor. A request of more than 1 MiB and a buffer
  that is not mapped user memory are refused and nothing changes. Otherwise either there is no memory
  for the kernel's buffer and for a file buffer of twice the new size, or the write would pass 2 GiB,
  then \<open>-1\<close> is returned and the file is as before, or the file is the old one with the user's bytes
  stored at the position (at the end in append mode). No user byte, no other descriptor and nothing
  on disk changes.
\<close>

theorem sys_write_correct:
  assumes inv: "vfs_inv (kvfs k)" and room: "current_heap_end (kernel_heap k) + 2 ^ 34 < W64" and own: "own_half (kernel_vm k) (uc_pml4 uc)"
    and u: "from_user uc" "rcx \<noteq> 0"
    and r: "resolve (kvfs k) me (reg_int rbx) = Some i" "vf_flags (fd_at (kvfs k) i) AND (VFS_O_WRONLY OR VFS_O_RDWR) \<noteq> 0"
    and cnt: "cnt = unat (ucast rdx :: u32)" "0 < cnt"
    and pos: "pos = unat (if vf_flags (fd_at (kvfs k) i) AND VFS_O_APPEND \<noteq> 0 then vf_size (fd_at (kvfs k) i) else vf_pos (fd_at (kvfs k) i))"
  shows "\<exists>ret k'. sys_write k uc me rbx rcx rdx = Some (Ret ret, k') \<and> vfs_inv (kvfs k') \<and>
    others_kept (kvfs k) i (kvfs k') \<and> rest_kept (kvfs k) (kvfs k') \<and>
    (\<forall>a < 2 ^ 47. hbytes (kernel_heap k') a = hbytes (kernel_heap k) a) \<and>
    (if cnt \<le> 0x100000 \<and> user_bytes (kernel_vm k) (uc_pml4 uc) (unat rcx) cnt then
       ret = - 1 \<and> fd_content (kvfs k') i = fd_content (kvfs k) i \<and> \<not> can_write (kvfs k) i (pos + cnt) (pages_for (round16 (of_nat cnt))) \<or>
       ret = of_nat cnt \<and> written (fd_content (kvfs k) i) pos (get_bytes (hbytes (kernel_heap k)) (unat rcx) cnt) (fd_content (kvfs k') i)
     else ret = - 1 \<and> k' = k)"
proof -
  let ?s = "kvfs k" and ?f = "fd_at (kvfs k) i" and ?fd = "reg_int rbx" and ?cw = "ucast rdx :: u32"
  let ?data = "get_bytes (hbytes (kernel_heap k)) (unat rcx) cnt" and ?c = "ucast (ucast rdx :: u32) :: u64"
  have cw0: "?cw \<noteq> 0" using cnt by auto
  have uc: "unat ?c = cnt" unfolding cnt(1) by transfer (simp add: take_bit_take_bit)
  have c0: "?c \<noteq> 0" using uc cnt(2) by (metis less_irrefl unat_0)
  have cof: "of_nat cnt = ?c" unfolding uc [symmetric] by simp
  have big: "?cw > UC_MAX_IO \<longleftrightarrow> \<not> cnt \<le> 0x100000" by (simp add: word_less_nat_alt cnt(1) not_le)
  have lim: "cnt \<le> 0x100000 \<Longrightarrow> ?c \<le> UC_MAX_RANGE" using uc by (simp add: word_le_nat_alt)
  have rng: "user_range_ok (kernel_vm k) uc rcx ?c = Some (?c \<le> UC_MAX_RANGE \<and> user_bytes (kernel_vm k) (uc_pml4 uc) (unat rcx) cnt)"
    using user_range_ok_ring3 [OF u c0] uc by simp
  note unf = sys_write_def [of k uc me rbx rcx rdx, unfolded Let_def rng]
  note i = resolveD(1,2) [OF inv r(1)]
  have m1: "ret_int (- 1) = - 1" by (simp add: ret_int_def)
  have refl: "others_kept ?s i ?s" "rest_kept ?s ?s" by (simp_all add: others_kept_def rest_kept_def)
  show ?thesis
  proof (cases "cnt \<le> 0x100000 \<and> user_bytes (kernel_vm k) (uc_pml4 uc) (unat rcx) cnt")
    case False
    then have "sys_write k uc me rbx rcx rdx = Some (Ret (- 1), k)" using unf cw0 m1 big by auto
    with False inv refl show ?thesis by (intro exI [of _ "- 1"] exI [of _ k]) auto
  next
    case ok: True
    have room1: "heap_room ?s" using room by (simp add: heap_room_def)
    from inv room1 cw0 show ?thesis
    proof (cases rule: bounce_alloc)
      case (none h1)
      have "sys_write k uc me rbx rcx rdx = Some (Ret (- 1), k\<lparr>kvfs := ?s\<lparr>vfs_heap := h1\<rparr>\<rparr>)"
        using unf cw0 ok none(1) m1 big lim by (simp add: on_heap_def)
      moreover have "others_kept ?s i (?s\<lparr>vfs_heap := h1\<rparr>)" "fd_content (?s\<lparr>vfs_heap := h1\<rparr>) i = fd_content ?s i"
        using none(3) files_keptD [OF inv none(3) i(1)] i(2) vfs_invD(1) [OF inv] by (auto simp: others_kept_def)
      moreover have "\<not> can_write ?s i (pos + cnt) (pages_for (round16 ?c))"
        using none(6) memory_for_mono le_add1 unfolding heap_exhausted_def can_write_def by blast
      ultimately show ?thesis using ok none(2,5) cof
        by (intro exI [of _ "- 1"] exI [of _ "k\<lparr>kvfs := ?s\<lparr>vfs_heap := h1\<rparr>\<rparr>"]) (simp add: rest_kept_def)
    next
      case (some h1 p m)
      let ?m2 = "memcpy p (unat rcx) cnt (hbytes h1)"
      have a: "unat rcx + cnt \<le> 2 ^ 47" using ok by (simp add: user_bytes_def)
      have le: "cnt \<le> m" "cnt < 2 ^ 32" using some(7) cnt(1) ok by simp_all
      have room2: "current_heap_end h1 + 2 ^ 33 < W64" using some(8) room ok cnt(1) by simp
      obtain n s3 h4 where t: "vfs_write (?s\<lparr>vfs_heap := h1\<lparr>hbytes := ?m2\<rparr>\<rparr>) me ?fd (Some (get_bytes ?m2 p cnt)) = Some (Ret n, s3)"
          "kfree (vfs_heap s3) (Some p) = Some (Ret (), h4)" "vfs_inv (s3\<lparr>vfs_heap := h4\<rparr>)" "others_kept ?s i (s3\<lparr>vfs_heap := h4\<rparr>)"
          "rest_kept ?s (s3\<lparr>vfs_heap := h4\<rparr>)" "\<forall>x < 2 ^ 47. hbytes h4 x = hbytes (kernel_heap k) x"
          "n = - 1 \<and> fd_content (s3\<lparr>vfs_heap := h4\<rparr>) i = fd_content ?s i \<and> \<not> can_write (?s\<lparr>vfs_heap := h1\<rparr>) i (pos + cnt) 0 \<or>
           n = sint (of_nat cnt :: u32) \<and> written (fd_content ?s i) pos ?data (fd_content (s3\<lparr>vfs_heap := h4\<rparr>) i)"
        by (rule write_through [OF inv r pos HOL.refl some(2,3,5,6) le(1) room2 a le(2) HOL.refl HOL.refl])
      have grow: "heap_can_grow (kernel_heap k) ?c" using room uc ok by (simp add: heap_can_grow_def)
      have "user_bytes (vm h1) (uc_pml4 uc) (unat rcx) cnt"
        by (rule range_after_kmalloc [OF vfs_invD(2) [OF inv] c0 grow some(1) own _ order.refl]) (use ok in simp)
      then have "user_range_ok (vm h1) uc rcx ?c = Some True"
        using user_range_ok_ring3 [OF u c0] uc lim ok by simp
      then have cp: "copy_from_user (vm h1) uc p rcx ?c b = Some (0, memcpy p (unat rcx) cnt b)" for b
        by (simp add: copy_from_user_def uc)
      have call: "sys_write k uc me rbx rcx rdx = Some (Ret (ret_int n), k\<lparr>kvfs := s3\<lparr>vfs_heap := h4\<rparr>\<rparr>)"
        using unf cw0 ok big lim some(1) t(1,2) cp cnt(1) by (simp add: on_heap_def on_vfs_def)
      have "sint (of_nat cnt :: u32) = int cnt"
        using ok by (simp add: sint_uint unsigned_of_nat take_bit_nat_eq_self signed_take_bit_int_eq_self)
      then have "ret_int (sint (of_nat cnt :: u32)) = of_nat cnt" by (simp add: ret_int_def)
      moreover have "can_write ?s i x (pages_for (round16 ?c)) \<longrightarrow> can_write (?s\<lparr>vfs_heap := h1\<rparr>) i x 0" for x
        using some(9) by (simp add: can_write_def write_pages_def)
      ultimately show ?thesis using call ok t(3-7) m1 cof
        by (intro exI [of _ "ret_int n"] exI [of _ "k\<lparr>kvfs := s3\<lparr>vfs_heap := h4\<rparr>\<rparr>"]) auto
    qed
  qed
qed

section \<open>A caller with one page\<close>

text \<open>Words written outside the kernel tables leave the kernel heap sound.\<close>

lemma heap_inv_vm:
  assumes inv: "heap_inv h" and v': "frames v' = frames (vm h)" "kernel_pml4_phys v' = kernel_pml4_phys (vm h)"
    and same: "\<And>q f j. idx_ok q \<Longrightarrow> length q \<le> 3 \<Longrightarrow> node (vm h) (kernel_pml4_phys (vm h)) q = Some f \<Longrightarrow> j < 512 \<Longrightarrow> rd v' f j = rd (vm h) f j"
  shows "heap_inv (h\<lparr>vm := v'\<rparr>)" "idx_ok q \<Longrightarrow> length q \<le> 3 \<Longrightarrow> node v' (kernel_pml4_phys (vm h)) q = node (vm h) (kernel_pml4_phys (vm h)) q"
proof -
  let ?r = "kernel_pml4_phys (vm h)"
  have at: "rd v' g j = rd (vm h) g j" if "idx_ok q" "length q \<le> 4" "q = t @ j # u" "node (vm h) ?r t = Some g" for q t j u g
    using same [of t g j] that by auto
  have n: "node v' ?r q = node (vm h) ?r q" if "idx_ok q" "length q \<le> 3" for q
    using at [OF that(1)] that(2) by (intro node_cong) auto
  have w: "walk v' ?r (page_path va) = walk (vm h) ?r (page_path va)" for va
    by (rule walk_cong) (rule at [OF page_path_ok(1) eq_refl [OF page_path_ok(2)]])
  have r: "rd v' ?r j = rd (vm h) ?r j" if "j < 512" for j using same [of "[]" ?r j] that by simp
  have "tree_ok (vm h) ?r" using inv by (simp add: heap_inv_def)
  then have "tree_ok v' ?r" unfolding tree_ok_def v'(1) using n r by auto
  then show "heap_inv (h\<lparr>vm := v'\<rparr>)"
    using inv unfolding heap_inv_def heap_mapped_def heap_rep_def by (simp add: v'(2) w)
  show "idx_ok q \<Longrightarrow> length q \<le> 3 \<Longrightarrow> node v' ?r q = node (vm h) ?r q" by (rule n)
qed

text \<open>The witness input: a user root in frame 2 whose page \<open>0x10000\<close> is frame 6, beside the kernel of
  \<open>one_block_heap\<close>.\<close>

definition user_vmm :: "vmm_state \<Rightarrow> vmm_state" where
  "user_vmm v = wr (wr (wr (wr v 0x2000 0 0x3007) 0x3000 0 0x4007) 0x4000 0 0x5007) 0x5000 16 0x6007"

lemma user_vmm_fields: "frames (user_vmm v) = frames v" "kernel_pml4_phys (user_vmm v) = kernel_pml4_phys v"
  by (simp_all add: user_vmm_def wr_def)

lemma user_vmm_rd:
  assumes "frame_aligned f" "j < 512"
  shows "rd (user_vmm v) f j =
    (if f = 0x5000 \<and> j = 16 then 0x6007 else if f = 0x4000 \<and> j = 0 then 0x5007 else if f = 0x3000 \<and> j = 0 then 0x4007
     else if f = 0x2000 \<and> j = 0 then 0x3007 else rd v f j)"
  using assms by (simp add: user_vmm_def rd_wr frame_aligned_def)

lemma user_vmm_nodes:
  assumes zero: "\<And>f j. f \<in> {0x2000, 0x3000, 0x4000, 0x5000} \<Longrightarrow> j < 512 \<Longrightarrow> rd v f j = 0"
    and q: "idx_ok q" "length q \<le> 3" "node (user_vmm v) 0x2000 q = Some f"
  shows "f \<in> {0x2000, 0x3000, 0x4000, 0x5000}"
proof -
  have al: "frame_aligned 0x2000" "frame_aligned 0x3000" "frame_aligned 0x4000" by (simp_all add: frame_aligned_def)
  have e: "rd (user_vmm v) 0x2000 j = (if j = 0 then 0x3007 else 0)" "rd (user_vmm v) 0x3000 j = (if j = 0 then 0x4007 else 0)"
    "rd (user_vmm v) 0x4000 j = (if j = 0 then 0x5007 else 0)" if "j < 512" for j
    using that zero by (simp_all add: user_vmm_rd al)
  consider "q = []" | i where "q = [i]" | i j where "q = [i, j]" | i j l where "q = [i, j, l]"
    using q(2) by (cases q rule: remdups_adj.cases; cases "tl (tl q)") auto
  then show ?thesis using q(1,3) by cases (auto simp: e present_def split: if_splits)
qed

lemma user_page_state:
  obtains v where "vfs_inv (one_open_file v)" "own_half v 0x2000" "user_bytes v 0x2000 0x10000 16"
    "memory_for (vfs_heap (one_open_file v)) 1000"
proof -
  obtain v where v: "heap_inv (one_block_heap v)" "(HEAP_START_VADDR + HDR, 4064) \<in> live (one_block_heap v)"
      "\<exists>s. pmm_init_dynamic small_memmap = Some s \<and> map_walk (empty_vmm s) (of_nat HEAP_START_VADDR) 0x5000000 3 0x1000 = (True, v)"
    by (rule one_block_heap_state)
  then obtain s where s: "pmm_init_dynamic small_memmap = Some s"
      and m: "map_walk (empty_vmm s) (of_nat HEAP_START_VADDR) 0x5000000 3 0x1000 = (True, v)" by blast
  have es: "pmm_inv s" "tree_ok (empty_vmm s) 0x1000" by (rule empty_vmm_state; use s in simp)+
  have bp: "bitmap_pages s = 22528" by (rule small_pmm) (use s in simp)
  let ?low = "{0x2000, 0x3000, 0x4000, 0x5000} :: u64 set"
  note ms = map_walk_spec [OF es(2) m]
  have root: "kernel_pml4_phys v = 0x1000" by (subst ms(6)) (simp add: empty_vmm_def)
  have own0: "pmm_owns_page s f" "frame_aligned f" if "f \<in> ?low" for f
    using that es(1) bp by (auto simp: pmm_owns_page_iff used_set_def frame_aligned_def elim: pmm_invE)
  have own: "pmm_owns_page (frames v) f" if "f \<in> ?low" for f using ms(4) [of f] own0(1) [OF that] by (simp add: empty_vmm_def)
  have off: "node v 0x1000 q \<noteq> Some f" if "f \<in> ?low" "idx_ok q" "length q \<le> 3" for f q
    using ms(7) [OF that(2,3), of f] own0(1) [OF that(1)] that(1) by (auto simp: empty_vmm_node simp del: node.simps) (auto simp: empty_vmm_def)
  have zero: "rd v f j = 0" if "f \<in> ?low" "j < 512" for f j
  proof -
    have pg: "ent f j AND PAGE_MASK = f" by (rule page_of_ent [OF own0(2) [OF that(1)] that(2)])
    have "foreign (empty_vmm s) 0x1000 (ent f j)"
      unfolding foreign_def pg empty_vmm_node using own0(1) [OF that(1)] that(1) by (auto simp: empty_vmm_def)
    from ms(5) [OF this] show ?thesis by (simp add: rd_def empty_vmm_def)
  qed
  let ?v = "user_vmm v" and ?h = "one_block_heap v"
  have h: "one_block_heap ?v = ?h\<lparr>vm := ?v\<rparr>" "vm ?h = v" by (simp_all add: one_block_heap_def)
  have same: "rd ?v f j = rd v f j" if "idx_ok q" "length q \<le> 3" "node v 0x1000 q = Some f" "j < 512" for q f j
  proof -
    have "frame_aligned f" by (rule tree_aligned [OF ms(1) that(2,1,3)])
    moreover have "f \<notin> ?low" using off that by blast
    ultimately show ?thesis using that(4) by (simp add: user_vmm_rd)
  qed
  note kern = heap_inv_vm [OF v(1), of ?v, unfolded h(2) root, OF user_vmm_fields(1) _ same]
  have inv: "heap_inv (one_block_heap ?v)" unfolding h(1)
    by (rule kern(1)) (simp_all only: user_vmm_fields root)
  have nodes: "node ?v 0x1000 q = node v 0x1000 q" if "idx_ok q" "length q \<le> 3" for q
    by (rule kern(2) [OF _ _ _ _ _ that]) (simp_all only: user_vmm_fields root)
  have mem: "memory_for (vfs_heap (one_open_file ?v)) 1000"
  proof -
    note room = small_machine_room [OF s m]
    have "no_huge {..<512} ?v 0x1000" by (rule no_huge_cong [OF room(1) order.refl]) (use nodes same in simp_all)
    from no_huge_mono [OF this heap_rows_range] show ?thesis
      using room(2) by (simp add: memory_for_def one_open_file_def one_block_heap_def user_vmm_fields root)
  qed
  have "live (one_block_heap ?v) = live ?h" by (simp add: h(1) live_def heap_rep_def)
  then have "vfs_inv (one_open_file ?v)"
    using inv v(2) by (auto simp: vfs_inv_def one_open_file_def fd_ok_def nth_list_update_if)
  moreover have "own_half ?v 0x2000" unfolding own_half_def
  proof (intro conjI allI impI)
    show "(0x2000 :: u64) \<noteq> PHYS_NULL" by simp
    show "\<not> huge (rd ?v 0x2000 i)" if "i < 256" for i
    proof -
      have "i < 512" using that by (rule less_trans) simp
      then show ?thesis using zero [of "0x2000" i] own0(2) [of "0x2000"] by (simp add: user_vmm_rd huge_def)
    qed
    fix f
    assume "user_table ?v 0x2000 f"
    then obtain q where q: "idx_ok q" "length q \<le> 3" "node ?v 0x2000 q = Some f"
    proof (unfold user_table_def, elim disjE exE conjE)
      assume "f = 0x2000"
      then show thesis using that [of "[]"] by simp
    next
      fix i q
      assume "i < 256" "idx_ok q" "length q \<le> 2" "node ?v 0x2000 (i # q) = Some f"
      moreover from this(1) have "i < 512" by (rule less_trans) simp
      ultimately show thesis using that [of "i # q"] by simp
    qed
    have low: "f \<in> ?low" by (rule user_vmm_nodes [OF _ q]) (rule zero)
    then show "pmm_owns_page (frames ?v) f" using own by (simp add: user_vmm_fields)
    show "off_kernel ?v f" unfolding off_kernel_def user_vmm_fields root using nodes off [OF low] by metis
  qed
  moreover have "user_bytes ?v 0x2000 0x10000 16" unfolding user_bytes_def
  proof (intro conjI allI impI)
    fix i :: nat
    assume i: "i < 16"
    have "unat (of_nat (0x10000 + i) :: u64) = 0x10000 + i" by (rule unat_of_nat_small) (use i in simp)
    then have "unat ((of_nat (0x10000 + i) :: u64) AND PAGE_MASK) = unat (0x10000 :: u64)" using i by (simp add: unat_page)
    then have pg: "(of_nat (0x10000 + i) :: u64) AND PAGE_MASK = 0x10000" by (simp only: word_unat_eq_iff)
    have "PML4_IDX 0x10000 = 0" "PDPT_IDX 0x10000 = 0" "PD_IDX 0x10000 = 0" "PT_IDX 0x10000 = 16"
      by (simp_all add: PML4_IDX_def PDPT_IDX_def PD_IDX_def PT_IDX_def drop_bit_eq_div)
    then show "paging_is_mapped_into ?v (of_nat (0x10000 + i) AND PAGE_MASK) 0x2000" unfolding pg
      by (simp add: paging_is_mapped_into_def root_of_def user_vmm_rd own0(2) present_def huge_def)
  qed simp
  ultimately show thesis using mem by (rule that)
qed

theorem sys_read_witness:
  "\<exists>k k'. sys_read k \<lparr>from_user = True, uc_pml4 = 0x2000\<rparr> 0 0 0x10000 16 = Some (Ret 2, k') \<and>
     get_bytes (hbytes (kernel_heap k')) 0x10000 2 = [0, 0] \<and> vf_pos (fd_at (kvfs k') 0) = 3 \<and> vfs_inv (kvfs k')"
proof -
  obtain v where v: "vfs_inv (one_open_file v)" "own_half v 0x2000" "user_bytes v 0x2000 0x10000 16" "memory_for (vfs_heap (one_open_file v)) 1000"
    by (rule user_page_state)
  let ?k = "(running_kernel v)\<lparr>kvfs := one_open_file v\<rparr>" and ?uc = "\<lparr>from_user = True, uc_pml4 = 0x2000\<rparr>"
  have k: "kvfs ?k = one_open_file v" "kernel_vm ?k = v" "vm (vfs_heap (one_open_file v)) = v" by (simp_all add: one_open_file_def one_block_heap_def)
  have room: "heap_room (one_open_file v)" by (simp add: heap_room_def one_open_file_def one_block_heap_def)
  have arg: "reg_int 0 = 0" "16 = min (unat (ucast (16 :: u64) :: u32)) 0x100000" "2 = min 16 (unat (3 :: u32) - unat (1 :: u32))"
    "take 2 (drop (unat (1 :: u32)) [0, 0, 0 :: u8]) = [0, 0]" "unat (0x10000 :: u64) = 0x10000" "(1 :: u32) + of_nat 2 = 3"
    by (simp_all add: reg_int_def)
  have pre: "vfs_inv (kvfs ?k)" "heap_room (kvfs ?k)" "own_half (kernel_vm ?k) (uc_pml4 ?uc)" "from_user ?uc" "(0x10000 :: u64) \<noteq> 0"
    "resolve (kvfs ?k) 0 (reg_int 0) = Some 0" "vf_flags (fd_at (kvfs ?k) 0) AND VFS_O_WRONLY = 0"
    "2 = min 16 (unat (vf_size (fd_at (kvfs ?k) 0)) - unat (vf_pos (fd_at (kvfs ?k) 0)))"
    using v room by (simp_all add: k arg(1) one_open_file_fields)
  have "pages_for (round16 (of_nat 16)) = 1" by (simp add: pages_for_def round16_def)
  then have mem: "\<not> heap_exhausted (vfs_heap (one_open_file v)) (of_nat 16)"
    using memory_for_mono [OF v(4), of 1] by (simp add: heap_exhausted_def)
  obtain ret k' where r: "sys_read ?k ?uc 0 0 0x10000 16 = Some (Ret ret, k')" "vfs_inv (kvfs k')"
      "ret = of_nat 2 \<and> get_bytes (hbytes (kernel_heap k')) (unat (0x10000 :: u64)) 2 = take 2 (drop (unat (1 :: u32)) [0, 0, 0]) \<and>
       fd_at (kvfs k') 0 = (fd_at (one_open_file v) 0)\<lparr>vf_pos := 1 + of_nat 2\<rparr>"
    using sys_read_correct [OF pre(1-7) arg(2) _ pre(8)] v(3) mem unfolding k one_open_file_fields arg(5) by auto
  then show ?thesis unfolding arg by (intro exI [of _ ?k] exI [of _ k']) auto
qed

theorem sys_write_witness:
  "\<exists>k k'. sys_write k \<lparr>from_user = True, uc_pml4 = 0x2000\<rparr> 0 0 0x10000 4 = Some (Ret 4, k') \<and>
     length (fd_content (kvfs k') 0) = 5 \<and> vfs_inv (kvfs k')"
proof -
  obtain v where v: "vfs_inv (one_open_file v)" "own_half v 0x2000" "user_bytes v 0x2000 0x10000 16" "memory_for (vfs_heap (one_open_file v)) 1000"
    by (rule user_page_state)
  let ?k = "(running_kernel v)\<lparr>kvfs := one_open_file v\<rparr>" and ?uc = "\<lparr>from_user = True, uc_pml4 = 0x2000\<rparr>"
  have k: "kvfs ?k = one_open_file v" "kernel_vm ?k = v" "vm (vfs_heap (one_open_file v)) = v" by (simp_all add: one_open_file_def one_block_heap_def)
  have arg: "reg_int 0 = 0" "4 = unat (ucast (4 :: u64) :: u32)" "unat (0x10000 :: u64) = 0x10000"
    by (simp_all add: reg_int_def)
  have pre: "vfs_inv (kvfs ?k)" "current_heap_end (kernel_heap ?k) + 2 ^ 34 < W64" "own_half (kernel_vm ?k) (uc_pml4 ?uc)" "from_user ?uc" "(0x10000 :: u64) \<noteq> 0"
    "resolve (kvfs ?k) 0 (reg_int 0) = Some 0" "vf_flags (fd_at (kvfs ?k) 0) AND (VFS_O_WRONLY OR VFS_O_RDWR) \<noteq> 0"
    "1 = unat (if vf_flags (fd_at (kvfs ?k) 0) AND VFS_O_APPEND \<noteq> 0 then vf_size (fd_at (kvfs ?k) 0) else vf_pos (fd_at (kvfs ?k) 0))"
    using v by (simp_all add: k arg(1) one_open_file_fields) (simp add: one_open_file_def one_block_heap_def)
  have ub: "4 \<le> (0x100000 :: nat) \<and> user_bytes v 0x2000 0x10000 4" using v(3) by (simp add: user_bytes_def)
  have "pages_for (round16 (of_nat 4)) = 1" by (simp add: pages_for_def round16_def)
  then have mem: "can_write (one_open_file v) 0 (1 + 4) (pages_for (round16 (of_nat 4)))"
    using memory_for_mono [OF v(4), of 1] by (simp add: can_write_def write_pages_def one_open_file_fields)
  obtain ret k' where r: "sys_write ?k ?uc 0 0 0x10000 4 = Some (Ret ret, k')" "vfs_inv (kvfs k')"
      "ret = of_nat 4 \<and> written [0, 0, 0] 1 (get_bytes (hbytes (kernel_heap ?k)) 0x10000 4) (fd_content (kvfs k') 0)"
    using sys_write_correct [OF pre(1-7) arg(2) _ pre(8)] ub mem unfolding k one_open_file_fields arg(3) by auto
  then show ?thesis by (intro exI [of _ ?k] exI [of _ k']) (auto simp: written_def)
qed

end
