(* ===== verification/Timer.thy ===== *)
theory Timer
  imports Sched_Switch
begin

text \<open>
  The timer driver, \<^verbatim>\<open>drivers/timer.c\<close>: the tick counter and the millisecond clock, the CPU usage
  estimate, the registry of callbacks, the programming of the interval timer and the interrupt
  handler, which wakes sleepers and starts a scheduling pass when the quantum is over. The global
  \<open>yield_counter\<close> of the system calls and the CPU number are arguments. A callback is the address of
  its function; the handler gives the list of the calls it makes, what they do is not part of the
  timer.
\<close>

section \<open>State and operations\<close>

abbreviation TIMER_DEFAULT_HZ :: u32 where "TIMER_DEFAULT_HZ \<equiv> 60"
abbreviation TIMER_MAX_CALLBACKS :: nat where "TIMER_MAX_CALLBACKS \<equiv> 8"

record timer =
  timer_ticks :: u64
  timer_ms :: u64
  timer_current_hz :: u32
  timer_ms_remainder :: u32
  cpu_idle_ticks :: u32
  cpu_total_ticks :: u32
  current_cpu_usage :: u32
  prev_yield_snapshot :: u32
  timer_callbacks :: "u64 list"
  next_schedule_ms :: u64

definition timer_boot :: timer where
  "timer_boot =
     \<lparr>timer_ticks = 0, timer_ms = 0, timer_current_hz = TIMER_DEFAULT_HZ, timer_ms_remainder = 0, cpu_idle_ticks = 0,
      cpu_total_ticks = 0, current_cpu_usage = 0, prev_yield_snapshot = 0,
      timer_callbacks = replicate TIMER_MAX_CALLBACKS 0, next_schedule_ms = 0\<rparr>"

definition timer_get_seconds :: "timer \<Rightarrow> u64" where
  "timer_get_seconds t = timer_ms t div 1000"

definition timer_is_supported_refresh_rate :: "u32 \<Rightarrow> bool" where
  "timer_is_supported_refresh_rate hz = (hz = 60 \<or> hz = 100 \<or> hz = 144)"

definition timer_register :: "timer \<Rightarrow> u64 \<Rightarrow> int \<times> timer" where
  "timer_register t cb =
     (case find (\<lambda>i. timer_callbacks t ! i = 0) [0..<TIMER_MAX_CALLBACKS] of
        Some i \<Rightarrow> (int i, t\<lparr>timer_callbacks := (timer_callbacks t)[i := cb]\<rparr>)
      | None \<Rightarrow> (- 1, t))"

definition timer_unregister :: "timer \<Rightarrow> u64 \<Rightarrow> timer" where
  "timer_unregister t cb = t\<lparr>timer_callbacks := map (\<lambda>c. if c = cb then 0 else c) (timer_callbacks t)\<rparr>"

text \<open>\<open>timer_program_pit\<close>: the bytes written to the ports, in order.\<close>

definition timer_program_pit :: "u32 \<Rightarrow> (u16 \<times> u8) list" where
  "timer_program_pit freq =
     (let divisor = 1193180 div freq
      in [(0x43, 0x36), (0x40, ucast (divisor AND 0xFF)), (0x40, ucast (drop_bit 8 divisor AND 0xFF))])"

definition timer_set_refresh_rate :: "timer \<Rightarrow> u32 \<Rightarrow> u32 \<Rightarrow> int \<times> (u16 \<times> u8) list \<times> timer" where
  "timer_set_refresh_rate t yield_counter hz =
     (if \<not> timer_is_supported_refresh_rate hz then (- 1, [], t)
      else (0, timer_program_pit hz,
            t\<lparr>timer_current_hz := hz, timer_ms_remainder := 0, cpu_total_ticks := 0, cpu_idle_ticks := 0,
              prev_yield_snapshot := yield_counter\<rparr>))"

definition init_timer :: "timer \<Rightarrow> u32 \<Rightarrow> (u16 \<times> u8) list \<times> timer" where
  "init_timer t freq =
     (let f = (if timer_is_supported_refresh_rate freq then freq else TIMER_DEFAULT_HZ)
      in (timer_program_pit f, t\<lparr>timer_current_hz := f, timer_ms_remainder := 0\<rparr>))"

definition timer_accumulate_ms :: "timer \<Rightarrow> timer" where
  "timer_accumulate_ms t =
     (let hz = timer_current_hz t;
          ms = timer_ms t + ucast (1000 div hz);
          rest = timer_ms_remainder t + 1000 mod hz
      in if rest \<ge> hz then t\<lparr>timer_ms := ms + 1, timer_ms_remainder := rest - hz\<rparr>
         else t\<lparr>timer_ms := ms, timer_ms_remainder := rest\<rparr>)"

text \<open>The first two steps of \<open>timer_handler\<close>: the clock and the usage estimate.\<close>

definition timer_tick :: "timer \<Rightarrow> u32 \<Rightarrow> timer" where
  "timer_tick t yield_counter =
     (let t1 = timer_accumulate_ms (t\<lparr>timer_ticks := timer_ticks t + 1\<rparr>);
          total = cpu_total_ticks t1 + 1;
          idle = (if yield_counter \<noteq> prev_yield_snapshot t1 then cpu_idle_ticks t1 + 1 else cpu_idle_ticks t1);
          t2 = t1\<lparr>cpu_total_ticks := total, cpu_idle_ticks := idle, prev_yield_snapshot := yield_counter\<rparr>
      in if total \<ge> timer_current_hz t2
         then t2\<lparr>current_cpu_usage := 100 - (idle * 100) div total, cpu_total_ticks := 0, cpu_idle_ticks := 0\<rparr>
         else t2)"

text \<open>The handler: the frame to resume, the callbacks it called with the tick they got, and the new state.\<close>

definition timer_handler :: "timer \<Rightarrow> sched \<Rightarrow> nat \<Rightarrow> u32 \<Rightarrow> u64 \<Rightarrow> u64 \<times> (u64 \<times> u32) list \<times> timer \<times> sched" where
  "timer_handler t s cpu yield_counter r =
     (let t1 = timer_tick t yield_counter;
          calls = map (\<lambda>cb. (cb, ucast (timer_ticks t1))) (filter (\<lambda>cb. cb \<noteq> 0) (timer_callbacks t1));
          now = timer_ms t1;
          s1 = sleepq_check_wakeups s (unat now) cpu (unat now)
      in if now \<ge> next_schedule_ms t1 then
           let (r', s2) = schedule_on_cpu s1 cpu r (unat now) (unat now)
           in (r', calls, t1\<lparr>next_schedule_ms := now + 20\<rparr>, s2)
         else (r, calls, t1, s1))"

section \<open>Invariant\<close>

definition timer_inv :: "timer \<Rightarrow> bool" where
  "timer_inv t \<longleftrightarrow>
     timer_is_supported_refresh_rate (timer_current_hz t) \<and> timer_ms_remainder t < timer_current_hz t \<and>
     cpu_idle_ticks t \<le> cpu_total_ticks t \<and> cpu_total_ticks t < 144 \<and> current_cpu_usage t \<le> 100 \<and>
     length (timer_callbacks t) = TIMER_MAX_CALLBACKS"

lemma rate_cases:
  assumes "timer_is_supported_refresh_rate hz"
  obtains "hz = 60" | "hz = 100" | "hz = 144"
  using assms by (auto simp: timer_is_supported_refresh_rate_def)

text \<open>One tick is 1000 / hz milliseconds, the fraction kept in the remainder.\<close>

lemma accumulate_spec:
  assumes hz: "timer_is_supported_refresh_rate (timer_current_hz t)" and rest: "timer_ms_remainder t < timer_current_hz t"
    and lt: "unat (timer_ms t) + 17 < 2 ^ 64"
  defines "t' \<equiv> timer_accumulate_ms t"
  shows "unat (timer_ms t') * unat (timer_current_hz t) + unat (timer_ms_remainder t') =
      unat (timer_ms t) * unat (timer_current_hz t) + unat (timer_ms_remainder t) + 1000"
    "timer_ms_remainder t' < timer_current_hz t" "unat (timer_ms t') \<le> unat (timer_ms t) + 17"
    "t' = t\<lparr>timer_ms := timer_ms t', timer_ms_remainder := timer_ms_remainder t'\<rparr>"
proof -
  define H R M where "H = unat (timer_current_hz t)" and "R = unat (timer_ms_remainder t)" and "M = unat (timer_ms t)"
  have H: "60 \<le> H" "H \<le> 144" using hz by (cases rule: rate_cases; simp add: H_def)+
  have R: "R < H" using rest by (simp add: R_def H_def word_less_nat_alt)
  define q m where "q = 1000 div H" and "m = 1000 mod H"
  have qm: "q * H + m = 1000" "m < H" using H by (simp_all add: q_def m_def)
  have q17: "q \<le> 16" using div_le_mono2 [of 60 H 1000] H by (simp add: q_def)
  have uq: "unat (ucast (1000 div timer_current_hz t) :: u64) = q"
  proof -
    have "unat (1000 div timer_current_hz t) = q" by (simp add: unat_div q_def H_def)
    then show ?thesis using q17 by (simp add: unsigned_ucast_eq take_bit_nat_eq_self)
  qed
  have um: "unat (timer_ms_remainder t + 1000 mod timer_current_hz t) = R + m"
  proof -
    have "unat (1000 mod timer_current_hz t) = m" by (simp add: unat_mod m_def H_def)
    then show ?thesis using R H qm(2) by (simp add: unat_word_ariths R_def)
  qed
  have ge: "timer_ms_remainder t + 1000 mod timer_current_hz t \<ge> timer_current_hz t \<longleftrightarrow> H \<le> R + m"
    using um by (simp add: word_le_nat_alt H_def)
  have out: "unat (timer_ms t') = M + q + (if H \<le> R + m then 1 else 0)" "unat (timer_ms_remainder t') = (if H \<le> R + m then R + m - H else R + m)"
    using um uq ge lt q17 unfolding t'_def timer_accumulate_ms_def Let_def
    by (auto simp: unat_word_ariths M_def H_def unat_sub)
  show "unat (timer_ms t') * unat (timer_current_hz t) + unat (timer_ms_remainder t') =
      unat (timer_ms t) * unat (timer_current_hz t) + unat (timer_ms_remainder t) + 1000"
    unfolding out H_def [symmetric] R_def [symmetric] M_def [symmetric] using qm by (simp add: algebra_simps)
  have "unat (timer_ms_remainder t') < H" unfolding out(2) using R qm(2) by auto
  then show "timer_ms_remainder t' < timer_current_hz t" by (simp add: word_less_nat_alt H_def)
  show "unat (timer_ms t') \<le> unat (timer_ms t) + 17" using out(1) q17 by (simp add: M_def)
  show "t' = t\<lparr>timer_ms := timer_ms t', timer_ms_remainder := timer_ms_remainder t'\<rparr>"
    by (simp add: t'_def timer_accumulate_ms_def Let_def)
qed

lemma accumulate_frame:
  "timer_accumulate_ms t = t\<lparr>timer_ms := timer_ms (timer_accumulate_ms t), timer_ms_remainder := timer_ms_remainder (timer_accumulate_ms t)\<rparr>"
  by (simp add: timer_accumulate_ms_def Let_def)

lemma accumulate_fields [simp]:
  "timer_ticks (timer_accumulate_ms t) = timer_ticks t" "timer_current_hz (timer_accumulate_ms t) = timer_current_hz t"
  "cpu_idle_ticks (timer_accumulate_ms t) = cpu_idle_ticks t" "cpu_total_ticks (timer_accumulate_ms t) = cpu_total_ticks t"
  "current_cpu_usage (timer_accumulate_ms t) = current_cpu_usage t" "prev_yield_snapshot (timer_accumulate_ms t) = prev_yield_snapshot t"
  "timer_callbacks (timer_accumulate_ms t) = timer_callbacks t" "next_schedule_ms (timer_accumulate_ms t) = next_schedule_ms t"
  by (simp_all add: timer_accumulate_ms_def Let_def)

lemma tick_fields [simp]:
  "timer_ticks (timer_tick t y) = timer_ticks t + 1" "timer_current_hz (timer_tick t y) = timer_current_hz t"
  "timer_ms (timer_tick t y) = timer_ms (timer_accumulate_ms t)"
  "timer_ms_remainder (timer_tick t y) = timer_ms_remainder (timer_accumulate_ms t)"
  "timer_callbacks (timer_tick t y) = timer_callbacks t" "next_schedule_ms (timer_tick t y) = next_schedule_ms t"
  by (simp_all add: timer_tick_def timer_accumulate_ms_def Let_def)

text \<open>The remainder stays below the rate even when the clock wraps.\<close>

lemma accumulate_rest:
  assumes "timer_is_supported_refresh_rate (timer_current_hz t)" "timer_ms_remainder t < timer_current_hz t"
  shows "timer_ms_remainder (timer_accumulate_ms t) < timer_current_hz t"
  using accumulate_spec(2) [of "t\<lparr>timer_ms := 0\<rparr>"] assms by (simp add: timer_accumulate_ms_def Let_def split: if_splits)

lemma usage_bound:
  assumes "idle \<le> tot" "tot \<noteq> 0" "tot \<le> (144 :: u32)"
  shows "100 - (idle * 100) div tot \<le> (100 :: u32)"
proof -
  have u: "unat (idle * 100) = unat idle * 100" using assms by (simp add: unat_word_ariths word_le_nat_alt)
  have "unat idle * 100 \<le> 100 * unat tot" using assms(1) by (simp add: word_le_nat_alt)
  then have "unat idle * 100 div unat tot \<le> 100 * unat tot div unat tot" by (rule div_le_mono)
  then have "unat idle * 100 div unat tot \<le> 100" using assms(2) by (simp add: unat_eq_0)
  then have "(idle * 100) div tot \<le> 100" by (simp add: word_le_nat_alt unat_div u)
  then show ?thesis by (simp add: word_le_nat_alt unat_sub)
qed

lemma tick_inv [kinv]:
  assumes inv: "timer_inv t"
  shows "timer_inv (timer_tick t y)"
proof -
  let ?t = "timer_accumulate_ms t"
  note i = inv [unfolded timer_inv_def]
  define tot where "tot = cpu_total_ticks t + 1"
  define idle where "idle = (if y \<noteq> prev_yield_snapshot t then cpu_idle_ticks t + 1 else cpu_idle_ticks t)"
  have t: "unat tot = unat (cpu_total_ticks t) + 1" "unat idle \<le> unat (cpu_idle_ticks t) + 1"
    using i by (auto simp: tot_def idle_def unat_word_ariths word_less_nat_alt word_le_nat_alt)
  then have le: "idle \<le> tot" "tot \<noteq> 0" "tot \<le> 144" using i by (auto simp: word_le_nat_alt word_less_nat_alt)
  have "tot < 144" if "\<not> tot \<ge> timer_current_hz t" using that i
    by (auto simp: timer_is_supported_refresh_rate_def word_le_nat_alt word_less_nat_alt)
  moreover define u where "u = timer_accumulate_ms (t\<lparr>timer_ticks := timer_ticks t + 1\<rparr>)"
  have "timer_tick t y =
      (if tot \<ge> timer_current_hz t
       then u\<lparr>prev_yield_snapshot := y, current_cpu_usage := 100 - (idle * 100) div tot, cpu_total_ticks := 0, cpu_idle_ticks := 0\<rparr>
       else u\<lparr>cpu_total_ticks := tot, cpu_idle_ticks := idle, prev_yield_snapshot := y\<rparr>)"
    by (simp add: timer_tick_def Let_def tot_def idle_def u_def)
  moreover have "timer_ms_remainder u < timer_current_hz t" "timer_current_hz u = timer_current_hz t"
    "current_cpu_usage u = current_cpu_usage t" "timer_callbacks u = timer_callbacks t"
    using accumulate_rest [of "t\<lparr>timer_ticks := timer_ticks t + 1\<rparr>"] i by (simp_all add: u_def)
  ultimately show ?thesis using i le usage_bound [OF le] by (simp add: timer_inv_def)
qed

lemma setup_inv [kinv]:
  assumes "timer_inv t"
  shows "timer_inv (snd (timer_register t cb))" "timer_inv (timer_unregister t cb)"
    "timer_inv (snd (snd (timer_set_refresh_rate t y hz)))" "timer_inv (snd (init_timer t hz))"
  using assms
  by (auto simp: timer_inv_def timer_register_def timer_unregister_def timer_set_refresh_rate_def init_timer_def
      timer_is_supported_refresh_rate_def split: option.splits)

lemma boot_inv: "timer_inv timer_boot"
  by (simp add: timer_inv_def timer_boot_def timer_is_supported_refresh_rate_def)

datatype timer_op = Tick u32 | SetRate u32 u32 | InitTimer u32 | Register u64 | Unregister u64

fun timer_exec :: "timer_op \<Rightarrow> timer \<Rightarrow> timer" where
  "timer_exec (Tick y) t = timer_tick t y"
| "timer_exec (SetRate y hz) t = snd (snd (timer_set_refresh_rate t y hz))"
| "timer_exec (InitTimer hz) t = snd (init_timer t hz)"
| "timer_exec (Register cb) t = snd (timer_register t cb)"
| "timer_exec (Unregister cb) t = timer_unregister t cb"

interpretation tm: machine timer_exec "\<lambda>_ _. True" timer_inv
proof
  show "timer_inv (timer_exec op t)" if "timer_inv t" for t op using that by (cases op) (simp_all add: kinv)
qed

lemma pit_divisor:
  assumes "timer_is_supported_refresh_rate f"
  shows "\<exists>lo hi. timer_program_pit f = [(0x43, 0x36), (0x40, lo), (0x40, hi)] \<and> unat lo + 256 * unat hi = 1193180 div unat f"
  using assms by (cases rule: rate_cases) (simp_all add: timer_program_pit_def Let_def drop_bit_eq_div)

section \<open>The clock\<close>

lemma clock_run:
  assumes "timer_inv t" "unat (timer_ms t) + 17 * length ys < 2 ^ 64" and t': "t' = foldl timer_tick t ys"
  shows "timer_inv t' \<and> timer_current_hz t' = timer_current_hz t \<and> timer_ticks t' = timer_ticks t + of_nat (length ys) \<and>
    unat (timer_ms t') * unat (timer_current_hz t) + unat (timer_ms_remainder t') =
      unat (timer_ms t) * unat (timer_current_hz t) + unat (timer_ms_remainder t) + 1000 * length ys"
  using assms
proof (induction ys arbitrary: t)
  case (Cons y ys)
  let ?u = "timer_tick t y"
  have hz: "timer_is_supported_refresh_rate (timer_current_hz t)" "timer_ms_remainder t < timer_current_hz t"
    using Cons.prems(1) by (simp_all add: timer_inv_def)
  have lt: "unat (timer_ms t) + 17 < 2 ^ 64" using Cons.prems(2) by simp
  note a = accumulate_spec(1,3) [OF hz lt]
  have "unat (timer_ms ?u) + 17 * length ys < 2 ^ 64" using a(2) Cons.prems(2) by simp
  from Cons.IH [OF tick_inv [OF Cons.prems(1)] this] Cons.prems(3) a(1) show ?case by (simp add: algebra_simps)
qed simp

text \<open>
  C20. The millisecond clock does not drift: after any number of ticks at a supported rate it has
  advanced by exactly the whole milliseconds these ticks and the fraction carried over
  make, whatever the rate, although one tick is no whole number of milliseconds.
\<close>

theorem timer_clock_exact:
  assumes "timer_inv t" "unat (timer_ms t) + 17 * length ys < 2 ^ 64" "t' = foldl timer_tick t ys"
  shows "unat (timer_ms t') = unat (timer_ms t) + (unat (timer_ms_remainder t) + 1000 * length ys) div unat (timer_current_hz t) \<and>
    timer_ticks t' = timer_ticks t + of_nat (length ys) \<and> timer_get_seconds t' = timer_ms t' div 1000"
proof -
  let ?H = "unat (timer_current_hz t)" and ?N = "unat (timer_ms_remainder t) + 1000 * length ys"
  note c = clock_run [OF assms]
  have r: "unat (timer_ms_remainder t') < ?H" using c by (auto simp: timer_inv_def word_less_nat_alt)
  have "unat (timer_ms t') = (unat (timer_ms t') * ?H + unat (timer_ms_remainder t')) div ?H" using r by simp
  also have "\<dots> = (?N + unat (timer_ms t) * ?H) div ?H" using c by (simp add: algebra_simps)
  also have "\<dots> = unat (timer_ms t) + ?N div ?H" using r by simp
  finally show ?thesis using c by (simp add: timer_get_seconds_def)
qed

theorem timer_clock_witness:
  "unat (timer_ms (foldl timer_tick timer_boot (replicate 60 0))) = 1000"
proof -
  have "unat (timer_ms timer_boot) + 17 * length (replicate 60 (0 :: u32)) < 2 ^ 64" by (simp add: timer_boot_def)
  from timer_clock_exact [OF boot_inv this refl] show ?thesis by (simp add: timer_boot_def)
qed

text \<open>
  Whatever sequence of ticks, rate changes and registrations runs, the rate is one of the
  supported ones, the fraction of a millisecond is below one, and the usage estimate is a percentage.
\<close>

theorem timer_usage_bounded:
  "let t = run_calls timer_exec ops timer_boot
   in current_cpu_usage t \<le> 100 \<and> timer_is_supported_refresh_rate (timer_current_hz t) \<and>
      timer_ms_remainder t < timer_current_hz t \<and> cpu_idle_ticks t \<le> cpu_total_ticks t \<and> cpu_total_ticks t < 144"
proof -
  have "admissible timer_exec (\<lambda>_ _. True) ops t" for t by (induction ops arbitrary: t) auto
  from tm.run_ok [OF boot_inv this] show ?thesis by (auto simp: timer_inv_def Let_def)
qed

section \<open>The quantum\<close>

text \<open>A run of timer interrupts on a CPU, each with the yield counter and the interrupted frame it finds: for
  each interrupt its time, the frame that is resumed and the scheduler it leaves; and the final state.\<close>

fun timer_run :: "timer \<Rightarrow> sched \<Rightarrow> nat \<Rightarrow> (u32 \<times> u64) list \<Rightarrow> (nat \<times> u64 \<times> sched) list \<times> timer \<times> sched" where
  "timer_run t s cpu [] = ([], t, s)"
| "timer_run t s cpu ((y, r) # irqs) =
     (let (r', calls, t1, s1) = timer_handler t s cpu y r;
          (tr, t2, s2) = timer_run t1 s1 cpu irqs
      in ((unat (timer_ms t1), r', s1) # tr, t2, s2))"

text \<open>
  The specification of such a run: every interrupt wakes the due sleepers; one at or after \<open>due\<close> is a pass
  of the scheduler, what it returns is resumed and the next pass is due 20 milliseconds
  later; any other resumes the interrupted frame.
\<close>

fun in_quanta :: "nat \<Rightarrow> nat \<Rightarrow> sched \<Rightarrow> (u32 \<times> u64) list \<Rightarrow> (nat \<times> u64 \<times> sched) list \<Rightarrow> bool" where
  "in_quanta cpu due s [] [] \<longleftrightarrow> True"
| "in_quanta cpu due s ((y, r) # irqs) ((now, r', s') # tr) \<longleftrightarrow>
     (let s1 = sleepq_check_wakeups s now cpu now
      in if due \<le> now then (r', s') = schedule_on_cpu s1 cpu r now now \<and> in_quanta cpu (now + 20) s' irqs tr
         else (r', s') = (r, s1) \<and> in_quanta cpu due s' irqs tr)"
| "in_quanta cpu due s _ _ \<longleftrightarrow> False"

text \<open>The times of its passes.\<close>

fun passes :: "nat \<Rightarrow> nat list \<Rightarrow> nat list" where
  "passes due [] = []"
| "passes due (now # ns) = (if due \<le> now then now # passes (now + 20) ns else passes due ns)"

lemma wakeups_inv:
  assumes "sched_inv s F"
  shows "sched_inv (sleepq_check_wakeups s now_ms this_cpu now) F"
proof -
  have "distinct (due_sleepers s now_ms)"
    "\<forall>t \<in> set (due_sleepers s now_ms). t < SCHED_MAX_TASKS \<and> blocked_state (tstate (tasks s t))"
    by (auto simp: due_sleepers_def)
  from wake_all [OF assms this] show ?thesis by (simp add: sleepq_check_wakeups_def Let_def)
qed

abbreviation one_quantum :: "nat \<Rightarrow> nat \<Rightarrow> bool" where
  "one_quantum p q \<equiv> p + 20 \<le> q \<and> q < p + 37"

text \<open>The clock at the interrupts of a run.\<close>

definition clock :: "timer \<Rightarrow> nat \<Rightarrow> nat" where
  "clock t n = unat (timer_ms t) + (unat (timer_ms_remainder t) + 1000 * n) div unat (timer_current_hz t)"

lemma clock_shift:
  assumes "unat (timer_current_hz t) > 0" "timer_current_hz t1 = timer_current_hz t"
    and "unat (timer_ms t1) * unat (timer_current_hz t) + unat (timer_ms_remainder t1) =
      unat (timer_ms t) * unat (timer_current_hz t) + unat (timer_ms_remainder t) + 1000"
  shows "clock t1 n = clock t (Suc n)"
proof -
  let ?H = "unat (timer_current_hz t)"
  have "clock t1 n = (unat (timer_ms t1) * ?H + unat (timer_ms_remainder t1) + 1000 * n) div ?H"
    using assms(1,2) by (simp add: clock_def add.assoc)
  also have "\<dots> = (unat (timer_ms t) * ?H + (unat (timer_ms_remainder t) + 1000 * Suc n)) div ?H"
    unfolding assms(3) by (simp add: algebra_simps)
  also have "\<dots> = clock t (Suc n)" using assms(1) by (simp add: clock_def)
  finally show ?thesis .
qed

lemma run_quantum:
  assumes "timer_inv t" "sched_inv s F" "cpu < SMP_MAX_CPUS" "unat (timer_ms t) + 17 * length irqs + 20 < 2 ^ 64"
    and "timer_run t s cpu irqs = (tr, t', s')"
  shows "sched_inv s' F \<and> map fst tr = map (clock t) [1..<Suc (length irqs)] \<and>
    in_quanta cpu (unat (next_schedule_ms t)) s irqs tr \<and>
    successively one_quantum (passes (unat (next_schedule_ms t)) (map fst tr)) \<and> (irqs \<noteq> [] \<longrightarrow> timer_ms t' < next_schedule_ms t') \<and>
    (\<forall>p qs. passes (unat (next_schedule_ms t)) (map fst tr) = p # qs \<longrightarrow>
       unat (next_schedule_ms t) \<le> p \<and> (timer_ms t < next_schedule_ms t \<longrightarrow> p < unat (next_schedule_ms t) + 17))"
  using assms
proof (induction irqs arbitrary: t s tr)
  case (Cons irq irqs)
  obtain y r where irq: "irq = (y, r)" by fastforce
  define u where "u = timer_tick t y"
  let ?due = "unat (next_schedule_ms t)" and ?now = "unat (timer_ms u)"
  let ?w = "sleepq_check_wakeups s ?now cpu ?now"
  define t1 where "t1 = (if ?due \<le> ?now then u\<lparr>next_schedule_ms := timer_ms u + 20\<rparr> else u)"
  obtain r' calls s1 where h: "timer_handler t s cpu y r = (r', calls, t1, s1)"
      and rs: "(r', s1) = (if ?due \<le> ?now then schedule_on_cpu ?w cpu r ?now ?now else (r, ?w))"
  proof (cases "?due \<le> ?now")
    case True
    then show thesis using that [of "fst (schedule_on_cpu ?w cpu r ?now ?now)" _ "snd (schedule_on_cpu ?w cpu r ?now ?now)"]
      by (simp add: timer_handler_def t1_def u_def Let_def word_le_nat_alt split: prod.split)
  next
    case False
    then show thesis using that [of r _ ?w] by (simp add: timer_handler_def t1_def u_def Let_def word_le_nat_alt)
  qed
  have i1: "sched_inv s1 F"
    using rs wakeups_inv [OF Cons.prems(2), of ?now cpu ?now] schedule_inv [OF wakeups_inv [OF Cons.prems(2)] Cons.prems(3), of ?now cpu ?now r ?now ?now]
    by (metis snd_conv)
  obtain tq where run: "timer_run t1 s1 cpu irqs = (tq, t', s')" and tr: "tr = (unat (timer_ms t1), r', s1) # tq"
    using Cons.prems(5) h by (auto simp: irq split: prod.splits)
  have hz: "timer_is_supported_refresh_rate (timer_current_hz t)" "timer_ms_remainder t < timer_current_hz t"
    using Cons.prems(1) by (simp_all add: timer_inv_def)
  have lt: "unat (timer_ms t) + 17 < 2 ^ 64" using Cons.prems(4) by simp
  note acc = accumulate_spec [OF hz lt]
  have ms: "?now \<le> unat (timer_ms t) + 17" using acc(3) by (simp add: u_def)
  have t1: "timer_inv t1" "timer_ms t1 = timer_ms u" "unat (timer_ms t1) + 17 * length irqs + 20 < 2 ^ 64"
    using tick_inv [OF Cons.prems(1), of y] ms Cons.prems(4) by (auto simp: t1_def u_def timer_inv_def)
  have un: "unat (timer_ms u + 20) = ?now + 20" using t1(2,3) by (simp add: unat_word_ariths)
  have now: "timer_ms t1 < next_schedule_ms t1" using un by (auto simp: t1_def u_def word_less_nat_alt)
  note ih = Cons.IH [OF t1(1) i1 Cons.prems(3) t1(3) run]
  have last: "timer_ms t' < next_schedule_ms t'" using ih now run by (cases irqs) auto
  have pos: "0 < unat (timer_current_hz t)" using hz(1) by (cases rule: rate_cases) simp_all
  have sh: "clock t1 n = clock t (Suc n)" for n
    by (rule clock_shift [OF pos]) (use acc(1) in \<open>simp_all add: t1_def u_def\<close>)
  have c1: "?now = clock t 1"
  proof -
    have "clock t1 0 = ?now + unat (timer_ms_remainder t1) div unat (timer_current_hz t)" by (simp add: clock_def t1_def u_def)
    moreover have "unat (timer_ms_remainder t1) < unat (timer_current_hz t)" using acc(2) by (simp add: word_less_nat_alt t1_def u_def)
    ultimately show ?thesis using sh [of 0] by simp
  qed
  have times: "map fst tr = map (clock t) [1..<Suc (length (irq # irqs))]"
  proof -
    have "map fst tq = map (clock t) (map Suc [1..<Suc (length irqs)])" using ih sh by (simp add: comp_def)
    then show ?thesis using c1 by (simp add: tr t1(2) map_Suc_upt upt_conv_Cons del: upt_Suc)
  qed
  show ?case
  proof (cases "?due \<le> ?now")
    case True
    have nx: "unat (next_schedule_ms t1) = ?now + 20" using True un by (simp add: t1_def)
    have ps: "passes ?due (map fst tr) = ?now # passes (?now + 20) (map fst tq)" using True by (simp add: tr t1(2))
    have "successively one_quantum (?now # passes (?now + 20) (map fst tq))"
      using ih now nx t1(2) by (cases "passes (?now + 20) (map fst tq)") (auto simp: nx)
    moreover have "?now < ?due + 17" if "timer_ms t < next_schedule_ms t" using that ms by (simp add: word_less_nat_alt)
    moreover have "in_quanta cpu (?now + 20) s1 irqs tq" using ih nx by simp
    with True rs have "in_quanta cpu ?due s (irq # irqs) tr"
      unfolding irq tr t1(2) in_quanta.simps Let_def if_P [OF True] by blast
    moreover have "sched_inv s' F" using ih by blast
    ultimately show ?thesis using last times True unfolding ps list.inject by blast
  next
    case False
    then have nx: "next_schedule_ms t1 = next_schedule_ms t" by (simp add: t1_def u_def)
    have ps: "passes ?due (map fst tr) = passes ?due (map fst tq)" using False by (simp add: tr t1(2))
    have "in_quanta cpu ?due s (irq # irqs) tr" using rs False ih nx by (simp add: irq tr t1(2) Let_def)
    then show ?thesis using ih last now times False t1(2) ms unfolding ps nx
      by (auto simp: word_less_nat_alt simp del: upt_Suc)
  qed
qed simp

text \<open>
  C17. The timer interrupt shares the CPU in quanta. In a run of interrupts the clock reads exactly
  the elapsed time at each of them; every interrupt wakes the due sleepers; the first one
  at or after the end of the quantum hands the interrupted frame to \<open>schedule_on_cpu\<close>, resumes the frame that
  gives and starts a new quantum, and every other one resumes the interrupted frame and
  schedules nothing. So two successive scheduling passes are at least 20 and less than 37 milliseconds apart
  (one tick of the slowest rate later than the quantum at most), after each interrupt the end of
  the quantum lies ahead, and the task table and run queues stay consistent.
\<close>

theorem timer_handler_quantum:
  assumes "timer_inv t" "sched_reachable (s, F)" "cpu < SMP_MAX_CPUS" "unat (timer_ms t) + 17 * length irqs + 20 < 2 ^ 64"
    and "timer_run t s cpu irqs = (tr, t', s')"
  shows "sched_inv s' F \<and> map fst tr = map (clock t) [1..<Suc (length irqs)] \<and>
    in_quanta cpu (unat (next_schedule_ms t)) s irqs tr \<and>
    successively (\<lambda>p q. p + 20 \<le> q \<and> q < p + 37) (passes (unat (next_schedule_ms t)) (map fst tr)) \<and>
    (irqs \<noteq> [] \<longrightarrow> timer_ms t' < next_schedule_ms t')"
  using run_quantum [OF assms(1) _ assms(3-5), of F] reachable_inv [OF assms(2)] unfolding fst_conv snd_conv by blast

theorem timer_handler_quantum_witness:
  "\<exists>tr t' s'. timer_run timer_boot two_tasks 0 (replicate 5 (0, 0x8000)) = (tr, t', s') \<and> passes 0 (map fst tr) = [16, 50, 83] \<and>
     snd (hd tr) = schedule_on_cpu (sleepq_check_wakeups two_tasks 16 0 16) 0 0x8000 16 16"
proof -
  let ?irqs = "replicate 5 (0 :: u32, 0x8000 :: u64)"
  obtain tr t' s' where r: "timer_run timer_boot two_tasks 0 ?irqs = (tr, t', s')" by (metis prod_cases3)
  have lt: "unat (timer_ms timer_boot) + 17 * length ?irqs + 20 < 2 ^ 64" by (simp add: timer_boot_def)
  from timer_handler_quantum [OF boot_inv two_tasks_reachable _ lt r]
  have q: "map fst tr = map (clock timer_boot) [1..<Suc (length ?irqs)]" "in_quanta 0 (unat (next_schedule_ms timer_boot)) two_tasks ?irqs tr"
    by simp_all
  have m: "map fst tr = [16, 33, 50, 66, 83]" unfolding q(1) by (simp add: clock_def timer_boot_def upt_rec)
  obtain now f s1 tq where tr: "tr = (now, f, s1) # tq" using m by (cases tr) auto
  have "now = 16" using m tr by simp
  then have "(f, s1) = schedule_on_cpu (sleepq_check_wakeups two_tasks 16 0 16) 0 0x8000 16 16"
    using q(2) by (simp add: tr timer_boot_def Let_def eval_nat_numeral)
  then show ?thesis using r m tr by (intro exI [of _ tr] exI [of _ t'] exI [of _ s']) simp
qed

end
