(* ===== verification/Display.thy ===== *)
theory Display
  imports Kernel_Heap
begin

text \<open>
  Pixel buffers, rectangles, dirty regions and viewports, \<^verbatim>\<open>kernel/display.c\<close>. Coordinates are
  32-bit words read as signed, sizes are read as unsigned; the code widens them to 64 bits
  before it adds, so the sums are taken on \<open>int\<close> and cast back where the code casts back.
  Buffer descriptors and pixels are two stores indexed by address, beside the kernel heap that
  the addresses come from. A buffer owns its dirty list when it has one.
\<close>

section \<open>Rectangles\<close>

record rect =
  rect_x :: u32
  rect_y :: u32
  rect_w :: u32
  rect_h :: u32

abbreviation left_of :: "rect \<Rightarrow> int" where "left_of r \<equiv> sint (rect_x r)"
abbreviation top_of :: "rect \<Rightarrow> int" where "top_of r \<equiv> sint (rect_y r)"
abbreviation right_of :: "rect \<Rightarrow> int" where "right_of r \<equiv> sint (rect_x r) + uint (rect_w r)"
abbreviation bottom_of :: "rect \<Rightarrow> int" where "bottom_of r \<equiv> sint (rect_y r) + uint (rect_h r)"

definition rect_intersect :: "rect \<Rightarrow> rect \<Rightarrow> rect option" where
  "rect_intersect a b =
     (let x0 = (if left_of a > left_of b then left_of a else left_of b);
          y0 = (if top_of a > top_of b then top_of a else top_of b);
          x1 = (if right_of a < right_of b then right_of a else right_of b);
          y1 = (if bottom_of a < bottom_of b then bottom_of a else bottom_of b)
      in if x1 \<le> x0 \<or> y1 \<le> y0 then None
         else Some \<lparr>rect_x = of_int x0, rect_y = of_int y0, rect_w = of_int (x1 - x0), rect_h = of_int (y1 - y0)\<rparr>)"

definition rect_union :: "rect \<Rightarrow> rect \<Rightarrow> rect" where
  "rect_union a b =
     (let x0 = (if left_of a < left_of b then left_of a else left_of b);
          y0 = (if top_of a < top_of b then top_of a else top_of b);
          x1 = (if right_of a > right_of b then right_of a else right_of b);
          y1 = (if bottom_of a > bottom_of b then bottom_of a else bottom_of b)
      in \<lparr>rect_x = of_int x0, rect_y = of_int y0, rect_w = of_int (x1 - x0), rect_h = of_int (y1 - y0)\<rparr>)"

section \<open>Dirty regions\<close>

abbreviation MAX_DIRTY_REGIONS :: nat where "MAX_DIRTY_REGIONS \<equiv> 64"

record dirty_region_list =
  regions :: "rect list"
  count :: nat
  collapsed :: bool

definition dirty_region_clear :: "dirty_region_list \<Rightarrow> dirty_region_list" where
  "dirty_region_clear l = l\<lparr>count := 0, collapsed := False\<rparr>"

definition dirty_region_mark :: "dirty_region_list \<Rightarrow> rect \<Rightarrow> dirty_region_list" where
  "dirty_region_mark l r =
     (if rect_w r = 0 \<or> rect_h r = 0 then l
      else if collapsed l then l\<lparr>regions := (regions l)[0 := rect_union (regions l ! 0) r]\<rparr>
      else if count l \<ge> MAX_DIRTY_REGIONS then
        let box = foldl (\<lambda>b i. rect_union b (regions l ! i)) (regions l ! 0) [1..<count l]
        in l\<lparr>regions := (regions l)[0 := rect_union box r], count := 1, collapsed := True\<rparr>
      else l\<lparr>regions := (regions l)[count l := r], count := count l + 1\<rparr>)"

section \<open>Buffers\<close>

record display_buffer =
  db_width :: u32
  db_height :: u32
  stride :: u32
  pixels :: nat
  owns_pixels :: bool
  dirty :: "dirty_region_list option"

record display_state =
  heap :: heap_state
  bufs :: "nat \<Rightarrow> display_buffer"
  pix :: "nat \<Rightarrow> u32"

abbreviation SIZEOF_DISPLAY_BUFFER :: u64 where "SIZEOF_DISPLAY_BUFFER \<equiv> 40"

definition rect_clip_to_buffer :: "display_buffer \<Rightarrow> rect \<Rightarrow> rect option" where
  "rect_clip_to_buffer b r =
     (let x0 = (if left_of r < 0 then 0 else left_of r);
          y0 = (if top_of r < 0 then 0 else top_of r);
          x1 = (if right_of r > uint (db_width b) then uint (db_width b) else right_of r);
          y1 = (if bottom_of r > uint (db_height b) then uint (db_height b) else bottom_of r)
      in if x1 \<le> x0 \<or> y1 \<le> y0 then None
         else Some \<lparr>rect_x = of_int x0, rect_y = of_int y0, rect_w = of_int (x1 - x0), rect_h = of_int (y1 - y0)\<rparr>)"

text \<open>\<open>kfree\<close> on the way out of a function that returns \<open>v\<close>.\<close>

definition release :: "display_state \<Rightarrow> nat \<Rightarrow> 'a \<Rightarrow> ('a outcome \<times> display_state) option" where
  "release s p v =
     (case kfree (heap s) (Some p) of
        None \<Rightarrow> None
      | Some (Panic b, h) \<Rightarrow> Some (Panic b, s\<lparr>heap := h\<rparr>)
      | Some (Ret _, h) \<Rightarrow> Some (Ret v, s\<lparr>heap := h\<rparr>))"

definition display_buffer_create :: "display_state \<Rightarrow> u32 \<Rightarrow> u32 \<Rightarrow> (nat option outcome \<times> display_state) option" where
  "display_buffer_create s width height =
     (if width = 0 \<or> height = 0 then Some (Ret None, s)
      else
        case kmalloc (heap s) SIZEOF_DISPLAY_BUFFER of
          None \<Rightarrow> None
        | Some (Panic b, h) \<Rightarrow> Some (Panic b, s\<lparr>heap := h\<rparr>)
        | Some (Ret None, h) \<Rightarrow> Some (Ret None, s\<lparr>heap := h\<rparr>)
        | Some (Ret (Some p), h) \<Rightarrow>
            let bytes = ucast width * ucast height * 4 :: u64
            in if bytes div ucast width div 4 \<noteq> ucast height then release (s\<lparr>heap := h\<rparr>) p None
               else
                 case kmalloc h bytes of
                   None \<Rightarrow> None
                 | Some (Panic b, h2) \<Rightarrow> Some (Panic b, s\<lparr>heap := h2\<rparr>)
                 | Some (Ret None, h2) \<Rightarrow> release (s\<lparr>heap := h2\<rparr>) p None
                 | Some (Ret (Some q), h2) \<Rightarrow>
                     Some (Ret (Some p), s\<lparr>heap := h2, bufs := (bufs s)(p := \<lparr>db_width = width, db_height = height,
                       stride = width, pixels = q, owns_pixels = True, dirty = None\<rparr>)\<rparr>))"

definition display_buffer_wrap :: "display_state \<Rightarrow> nat option \<Rightarrow> u32 \<Rightarrow> u32 \<Rightarrow> u32 \<Rightarrow> (nat option outcome \<times> display_state) option" where
  "display_buffer_wrap s px width height strd =
     (case px of
        None \<Rightarrow> Some (Ret None, s)
      | Some q \<Rightarrow>
          if width = 0 \<or> height = 0 \<or> strd < width then Some (Ret None, s)
          else
            case kmalloc (heap s) SIZEOF_DISPLAY_BUFFER of
              None \<Rightarrow> None
            | Some (Panic b, h) \<Rightarrow> Some (Panic b, s\<lparr>heap := h\<rparr>)
            | Some (Ret None, h) \<Rightarrow> Some (Ret None, s\<lparr>heap := h\<rparr>)
            | Some (Ret (Some p), h) \<Rightarrow>
                Some (Ret (Some p), s\<lparr>heap := h, bufs := (bufs s)(p := \<lparr>db_width = width, db_height = height,
                  stride = strd, pixels = q, owns_pixels = False, dirty = None\<rparr>)\<rparr>))"

definition display_buffer_destroy :: "display_state \<Rightarrow> nat option \<Rightarrow> (unit outcome \<times> display_state) option" where
  "display_buffer_destroy s buffer =
     (case buffer of
        None \<Rightarrow> Some (Ret (), s)
      | Some p \<Rightarrow>
          if owns_pixels (bufs s p)
          then (case release s (pixels (bufs s p)) () of
                  None \<Rightarrow> None
                | Some (Panic b, s1) \<Rightarrow> Some (Panic b, s1)
                | Some (Ret _, s1) \<Rightarrow> release s1 p ())
          else release s p ())"

section \<open>Drawing\<close>

text \<open>Marking a written area on the dirty list, when the buffer has one.\<close>

definition mark_written :: "display_state \<Rightarrow> nat \<Rightarrow> rect \<Rightarrow> display_state" where
  "mark_written s p r =
     (case dirty (bufs s p) of
        None \<Rightarrow> s
      | Some l \<Rightarrow> s\<lparr>bufs := (bufs s)(p := (bufs s p)\<lparr>dirty := Some (dirty_region_mark l r)\<rparr>)\<rparr>)"

definition display_buffer_write_pixel :: "display_state \<Rightarrow> nat option \<Rightarrow> u32 \<Rightarrow> u32 \<Rightarrow> u32 \<Rightarrow> display_state" where
  "display_buffer_write_pixel s buffer x y color =
     (case buffer of
        None \<Rightarrow> s
      | Some p \<Rightarrow>
          let b = bufs s p
          in if sint x < 0 \<or> sint y < 0 \<or> x \<ge> db_width b \<or> y \<ge> db_height b then s
             else mark_written (s\<lparr>pix := (pix s)(pixels b + 4 * unat (y * stride b + x) := color)\<rparr>) p
                    \<lparr>rect_x = x, rect_y = y, rect_w = 1, rect_h = 1\<rparr>)"

definition fill_row :: "nat \<Rightarrow> nat \<Rightarrow> u32 \<Rightarrow> (nat \<Rightarrow> u32) \<Rightarrow> (nat \<Rightarrow> u32)" where
  "fill_row line n color m = fold (\<lambda>col m. m(line + 4 * col := color)) [0..<n] m"

definition display_buffer_fill_rect :: "display_state \<Rightarrow> nat option \<Rightarrow> rect \<Rightarrow> u32 \<Rightarrow> display_state" where
  "display_buffer_fill_rect s buffer area color =
     (case buffer of
        None \<Rightarrow> s
      | Some p \<Rightarrow>
          (case rect_clip_to_buffer (bufs s p) area of
             None \<Rightarrow> s
           | Some r \<Rightarrow>
               let b = bufs s p;
                   m = fold (\<lambda>row m. fill_row (pixels b + 4 * unat ((rect_y r + of_nat row) * stride b) + 4 * unat (rect_x r))
                               (unat (rect_w r)) color m) [0..<unat (rect_h r)] (pix s)
               in mark_written (s\<lparr>pix := m\<rparr>) p r))"

section \<open>Viewports\<close>

record viewport =
  bounds :: rect
  scroll_x :: u32
  scroll_y :: u32
  source :: "nat option"

definition viewport_scroll :: "viewport \<Rightarrow> u32 \<Rightarrow> u32 \<Rightarrow> viewport" where
  "viewport_scroll vp dx dy =
     (let x = scroll_x vp + dx; y = scroll_y vp + dy
      in vp\<lparr>scroll_x := (if sint x < 0 then 0 else x), scroll_y := (if sint y < 0 then 0 else y)\<rparr>)"

text \<open>The range of columns (or rows) that are in bounds of both source and target.\<close>

definition clip_range :: "u32 \<Rightarrow> u32 \<Rightarrow> u32 \<Rightarrow> u32 \<Rightarrow> u32 \<Rightarrow> int \<times> int" where
  "clip_range len scroll src_len pos target_len =
     (let c0 = 0; c1 = uint len;
          c0 = (if - sint scroll > c0 then - sint scroll else c0);
          c1 = (if uint src_len - sint scroll < c1 then uint src_len - sint scroll else c1);
          c0 = (if - sint pos > c0 then - sint pos else c0);
          c1 = (if uint target_len - sint pos < c1 then uint target_len - sint pos else c1)
      in (c0, c1))"

definition copy_row :: "nat \<Rightarrow> nat \<Rightarrow> nat \<Rightarrow> (nat \<Rightarrow> u32) \<Rightarrow> (nat \<Rightarrow> u32)" where
  "copy_row d src n m = fold (\<lambda>i m. m(d + 4 * i := m (src + 4 * i))) [0..<n] m"

definition viewport_render :: "display_state \<Rightarrow> viewport \<Rightarrow> nat option \<Rightarrow> display_state" where
  "viewport_render s vp target =
     (case (target, source vp) of
        (Some t, Some p) \<Rightarrow>
          let sb = bufs s p; tb = bufs s t;
              (c0, c1) = clip_range (rect_w (bounds vp)) (scroll_x vp) (db_width sb) (rect_x (bounds vp)) (db_width tb);
              (r0, r1) = clip_range (rect_h (bounds vp)) (scroll_y vp) (db_height sb) (rect_y (bounds vp)) (db_height tb)
          in if c1 \<le> c0 \<or> r1 \<le> r0 then s
             else s\<lparr>pix := fold (\<lambda>k m.
                 let row = r0 + int k
                 in copy_row
                      (pixels tb + 4 * nat ((top_of (bounds vp) + row) * uint (stride tb) + (left_of (bounds vp) + c0)))
                      (pixels sb + 4 * nat ((sint (scroll_y vp) + row) * uint (stride sb) + (sint (scroll_x vp) + c0)))
                      (nat (c1 - c0)) m) [0..<nat (r1 - r0)] (pix s)\<rparr>
      | _ \<Rightarrow> s)"

end
