(* ===== verification/Kwm.thy ===== *)
theory Kwm
  imports Display Event_Queue
begin

text \<open>
  The window manager, \<^verbatim>\<open>kernel/gfx/kwm.c\<close>: sixteen window slots, focus, drag session, z-order and
  the routing of input. The state holds the slots and the globals of the file, the display
  store the canvases live in, the list of dirty screen areas and the event queues. The caller's
  task id, \<open>smp_current_task_id()\<close>, is the argument \<open>me\<close>. Coordinates are 32-bit words read as
  signed, so sums wrap as the hardware does. An operation that frees or allocates a canvas has
  the result type of the kernel heap: \<open>None\<close> for a run that does not return, \<open>Panic\<close> for a panic.
\<close>

section \<open>State\<close>

abbreviation MAX_WINDOWS :: nat where "MAX_WINDOWS \<equiv> 16"
abbreviation KWM_TITLEBAR_H :: u32 where "KWM_TITLEBAR_H \<equiv> 24"
abbreviation KWM_CLOSE_BTN_W :: u32 where "KWM_CLOSE_BTN_W \<equiv> 40"
abbreviation KWM_SHADOW_MARGIN :: u32 where "KWM_SHADOW_MARGIN \<equiv> 6"
abbreviation KWM_MAX_DIMENSION :: u32 where "KWM_MAX_DIMENSION \<equiv> 4096"
abbreviation KWM_MAX_CANVAS_BYTES :: u64 where "KWM_MAX_CANVAS_BYTES \<equiv> 16777216"
abbreviation EVENT_WIN_CLOSE :: u32 where "EVENT_WIN_CLOSE \<equiv> 6"

record kwm_window =
  active :: bool
  win_x :: u32
  win_y :: u32
  width :: u32
  height :: u32
  canvas :: "nat option"
  z_index :: u32
  owner_task :: int
  wflags :: u32
  title :: "u8 list"

record kwm =
  kwm_windows :: "kwm_window list"
  next_z_index :: u32
  dragged_win_id :: int
  drag_offset_x :: u32
  drag_offset_y :: u32
  focused_win_id :: int
  alt_tab_active :: bool
  disp :: display_state
  screen_dirty :: dirty_region_list
  fb_width :: u32
  fb_height :: u32
  events :: event_state

abbreviation win :: "kwm \<Rightarrow> nat \<Rightarrow> kwm_window" where
  "win s i \<equiv> kwm_windows s ! i"

abbreviation set_win :: "kwm \<Rightarrow> nat \<Rightarrow> kwm_window \<Rightarrow> kwm" where
  "set_win s i w \<equiv> s\<lparr>kwm_windows := (kwm_windows s)[i := w]\<rparr>"

definition valid_win :: "int \<Rightarrow> bool" where
  "valid_win i \<longleftrightarrow> 0 \<le> i \<and> i < int MAX_WINDOWS"

definition is_desktop :: "kwm_window \<Rightarrow> bool" where
  "is_desktop w \<longleftrightarrow> wflags w AND 1 \<noteq> 0"

text \<open>The height of the titlebar: the desktop has none.\<close>

definition tb_of :: "kwm_window \<Rightarrow> u32" where
  "tb_of w = (if is_desktop w then 0 else KWM_TITLEBAR_H)"

text \<open>A window that takes part in focus and z-order.\<close>

definition on_stack :: "kwm_window \<Rightarrow> bool" where
  "on_stack w \<longleftrightarrow> active w \<and> \<not> is_desktop w"

section \<open>Z-order\<close>

text \<open>The step of the insertion sort: \<open>w\<close> moves left past the slots with a larger z-index.\<close>

definition insert_z :: "(nat \<Rightarrow> u32) \<Rightarrow> nat list \<Rightarrow> nat \<Rightarrow> nat list" where
  "insert_z z order w =
     (let bigger = takeWhile (\<lambda>v. z v > z w) (rev order)
      in take (length order - length bigger) order @ [w] @ rev bigger)"

definition z_order :: "kwm \<Rightarrow> nat list" where
  "z_order s = foldl (insert_z (\<lambda>i. z_index (win s i))) [] (filter (\<lambda>i. on_stack (win s i)) [0..<MAX_WINDOWS])"

definition kwm_normalize_zindex :: "kwm \<Rightarrow> kwm" where
  "kwm_normalize_zindex s =
     (let order = z_order s; n = length order
      in (fold (\<lambda>i s. set_win s (order ! i) (win s (order ! i)\<lparr>z_index := of_nat (i + 1)\<rparr>)) [0..<n] s)
           \<lparr>next_z_index := of_nat (n + 1)\<rparr>)"

text \<open>\<open>z_index = next_z_index++\<close>, followed by the renormalisation when the counter is past the slots.\<close>

definition raise_window :: "kwm \<Rightarrow> nat \<Rightarrow> kwm" where
  "raise_window s i = (set_win s i (win s i\<lparr>z_index := next_z_index s\<rparr>))\<lparr>next_z_index := next_z_index s + 1\<rparr>"

definition normalize_if_past :: "kwm \<Rightarrow> kwm" where
  "normalize_if_past s = (if next_z_index s > of_nat MAX_WINDOWS then kwm_normalize_zindex s else s)"

definition kwm_bring_to_front :: "kwm \<Rightarrow> int \<Rightarrow> kwm" where
  "kwm_bring_to_front s win_id = (if \<not> valid_win win_id then s else raise_window s (nat win_id))"

section \<open>Dirty areas\<close>

definition screen_mark_dirty :: "kwm \<Rightarrow> u32 \<Rightarrow> u32 \<Rightarrow> u32 \<Rightarrow> u32 \<Rightarrow> kwm" where
  "screen_mark_dirty s x y w h =
     s\<lparr>screen_dirty := dirty_region_mark (screen_dirty s) \<lparr>rect_x = x, rect_y = y, rect_w = w, rect_h = h\<rparr>\<rparr>"

definition frame_dirty_area :: "kwm \<Rightarrow> u32 \<Rightarrow> u32 \<Rightarrow> u32 \<Rightarrow> u32 \<Rightarrow> kwm" where
  "frame_dirty_area s x y w h =
     (let m = KWM_SHADOW_MARGIN in screen_mark_dirty s (x - m) (y - m) (w + 2 * m) (h + 2 * m))"

definition kwm_frame_dirty :: "kwm \<Rightarrow> int \<Rightarrow> kwm" where
  "kwm_frame_dirty s i =
     (if \<not> valid_win i then s
      else
        let w = win s (nat i)
        in if \<not> active w then s else frame_dirty_area s (win_x w) (win_y w) (width w) (height w + tb_of w))"

section \<open>Hit test and focus\<close>

definition in_frame :: "kwm_window \<Rightarrow> u32 \<Rightarrow> u32 \<Rightarrow> bool" where
  "in_frame w px py \<longleftrightarrow> sint px \<ge> sint (win_x w) \<and> sint px < sint (win_x w + width w) \<and>
     sint py \<ge> sint (win_y w) \<and> sint py < sint (win_y w + (height w + tb_of w))"

fun hit_loop :: "kwm \<Rightarrow> u32 \<Rightarrow> u32 \<Rightarrow> nat list \<Rightarrow> int \<Rightarrow> int \<Rightarrow> int" where
  "hit_loop s px py [] highest_z target = target"
| "hit_loop s px py (i # is) highest_z target =
     (if active (win s i) \<and> in_frame (win s i) px py \<and> sint (z_index (win s i)) > highest_z
      then hit_loop s px py is (sint (z_index (win s i))) (int i)
      else hit_loop s px py is highest_z target)"

definition kwm_hit_test :: "kwm \<Rightarrow> u32 \<Rightarrow> u32 \<Rightarrow> int" where
  "kwm_hit_test s px py = hit_loop s px py [0..<MAX_WINDOWS] (- 1) (- 1)"

fun refocus_loop :: "kwm \<Rightarrow> nat list \<Rightarrow> u32 \<Rightarrow> int \<Rightarrow> int" where
  "refocus_loop s [] best_z best = best"
| "refocus_loop s (i # is) best_z best =
     (if on_stack (win s i) \<and> z_index (win s i) > best_z
      then refocus_loop s is (z_index (win s i)) (int i)
      else refocus_loop s is best_z best)"

definition kwm_refocus :: "kwm \<Rightarrow> kwm" where
  "kwm_refocus s = s\<lparr>focused_win_id := refocus_loop s [0..<MAX_WINDOWS] 0 (- 1)\<rparr>"

section \<open>Windows\<close>

definition kwm_free_slot :: "kwm \<Rightarrow> nat \<Rightarrow> (unit outcome \<times> kwm) option" where
  "kwm_free_slot s i =
     (case display_buffer_destroy (disp s) (canvas (win s i)) of
        None \<Rightarrow> None
      | Some (Panic b, d) \<Rightarrow> Some (Panic b, s\<lparr>disp := d\<rparr>)
      | Some (Ret _, d) \<Rightarrow>
          Some (Ret (), (set_win (s\<lparr>disp := d\<rparr>) i
            (win s i\<lparr>canvas := None, active := False, owner_task := - 1, wflags := 0, title := (title (win s i))[0 := 0]\<rparr>))
              \<lparr>dragged_win_id := (if dragged_win_id s = int i then - 1 else dragged_win_id s)\<rparr>))"

definition kwm_create_window :: "kwm \<Rightarrow> int \<Rightarrow> u32 \<Rightarrow> u32 \<Rightarrow> u32 \<Rightarrow> u32 \<Rightarrow> (int outcome \<times> kwm) option" where
  "kwm_create_window s me x y w h =
     (if w = 0 \<or> h = 0 \<or> w > KWM_MAX_DIMENSION \<or> h > KWM_MAX_DIMENSION then Some (Ret (- 1), s)
      else if ucast w * ucast h * 4 > KWM_MAX_CANVAS_BYTES then Some (Ret (- 1), s)
      else
        case find (\<lambda>i. \<not> active (win s i)) [0..<MAX_WINDOWS] of
          None \<Rightarrow> Some (Ret (- 1), s)
        | Some i \<Rightarrow>
            (case display_buffer_create (disp s) w h of
               None \<Rightarrow> None
             | Some (Panic b, d) \<Rightarrow> Some (Panic b, s\<lparr>disp := d\<rparr>)
             | Some (Ret None, d) \<Rightarrow> Some (Ret (- 1), s\<lparr>disp := d\<rparr>)
             | Some (Ret (Some c), d) \<Rightarrow>
                 let s1 = set_win (s\<lparr>disp := d\<rparr>) i
                       (win s i\<lparr>win_x := x, win_y := y, width := w, height := h, canvas := Some c, owner_task := me\<rparr>);
                     s2 = normalize_if_past (raise_window s1 i);
                     s3 = set_win s2 i (win s2 i\<lparr>wflags := 0, title := (title (win s2 i))[0 := 0], active := True\<rparr>);
                     prev_focus = focused_win_id s3;
                     s4 = kwm_frame_dirty (s3\<lparr>focused_win_id := int i\<rparr>) (int i);
                     s5 = (if prev_focus \<ge> 0 \<and> prev_focus \<noteq> int i then kwm_frame_dirty s4 prev_focus else s4)
                 in Some (Ret (int i), s5)))"

definition kwm_create_desktop :: "kwm \<Rightarrow> int \<Rightarrow> (int outcome \<times> kwm) option" where
  "kwm_create_desktop s me =
     (if \<exists>i \<in> set [0..<MAX_WINDOWS]. active (win s i) \<and> is_desktop (win s i) then Some (Ret (- 1), s)
      else if fb_width s = 0 \<or> fb_height s = 0 then Some (Ret (- 1), s)
      else
        case find (\<lambda>i. \<not> active (win s i)) [0..<MAX_WINDOWS] of
          None \<Rightarrow> Some (Ret (- 1), s)
        | Some i \<Rightarrow>
            (case display_buffer_create (disp s) (fb_width s) (fb_height s) of
               None \<Rightarrow> None
             | Some (Panic b, d) \<Rightarrow> Some (Panic b, s\<lparr>disp := d\<rparr>)
             | Some (Ret None, d) \<Rightarrow> Some (Ret (- 1), s\<lparr>disp := d\<rparr>)
             | Some (Ret (Some c), d) \<Rightarrow>
                 let s1 = set_win (s\<lparr>disp := d\<rparr>) i
                       (win s i\<lparr>win_x := 0, win_y := 0, width := fb_width s, height := fb_height s, canvas := Some c, owner_task := me,
                          z_index := 0, wflags := 1, title := (title (win s i))[0 := 0], active := True\<rparr>)
                 in Some (Ret (int i), screen_mark_dirty s1 0 0 (fb_width s) (fb_height s))))"

definition kwm_set_title :: "kwm \<Rightarrow> int \<Rightarrow> int \<Rightarrow> u8 list option \<Rightarrow> int \<times> kwm" where
  "kwm_set_title s me win_id new_title =
     (case new_title of
        None \<Rightarrow> (- 1, s)
      | Some t \<Rightarrow>
          if \<not> valid_win win_id then (- 1, s)
          else
            let i = nat win_id; w = win s i
            in if \<not> active w \<or> owner_task w \<noteq> me then (- 1, s)
               else
                 let c = take 31 t
                 in (0, kwm_frame_dirty (set_win s i (w\<lparr>title := c @ [0] @ drop (length c + 1) (title w)\<rparr>)) win_id))"

record kwm_window_info =
  info_win_id :: nat
  info_focused :: bool
  info_x :: u32
  info_y :: u32
  info_width :: u32
  info_height :: u32
  info_z_index :: u32
  info_owner :: int
  info_flags :: u32
  info_title :: "u8 list"

text \<open>The entries written to the buffer of \<open>max\<close> entries; \<open>None\<close> is the return value \<open>-1\<close>.\<close>

definition kwm_get_windows :: "kwm \<Rightarrow> int \<Rightarrow> kwm_window_info list option" where
  "kwm_get_windows s max_entries =
     (if max_entries \<le> 0 then None
      else Some (map (\<lambda>i. let w = win s i in
             \<lparr>info_win_id = i + 1, info_focused = (int i = focused_win_id s), info_x = win_x w, info_y = win_y w,
              info_width = width w, info_height = height w, info_z_index = z_index w, info_owner = owner_task w,
              info_flags = wflags w, info_title = takeWhile (\<lambda>c. c \<noteq> 0) (title w)\<rparr>)
             (take (nat max_entries) (filter (\<lambda>i. active (win s i)) [0..<MAX_WINDOWS]))))"

definition kwm_activate_window :: "kwm \<Rightarrow> int \<Rightarrow> int \<times> kwm" where
  "kwm_activate_window s win_id =
     (if \<not> valid_win win_id then (- 1, s)
      else
        let i = nat win_id
        in if \<not> active (win s i) \<or> is_desktop (win s i) then (- 1, s)
           else
             let old_focus = focused_win_id s;
                 s1 = normalize_if_past (normalize_if_past (raise_window s i));
                 s2 = kwm_frame_dirty (s1\<lparr>focused_win_id := win_id\<rparr>) win_id
             in (0, if old_focus \<ge> 0 \<and> old_focus \<noteq> win_id then kwm_frame_dirty s2 old_focus else s2))"

definition kwm_window_canvas_bytes :: "kwm \<Rightarrow> int \<Rightarrow> u64" where
  "kwm_window_canvas_bytes s win_id =
     (if \<not> valid_win win_id \<or> \<not> active (win s (nat win_id)) then 0
      else ucast (width (win s (nat win_id))) * ucast (height (win s (nat win_id))) * 4)"

definition kwm_window_owner :: "kwm \<Rightarrow> int \<Rightarrow> int" where
  "kwm_window_owner s win_id =
     (if \<not> valid_win win_id \<or> \<not> active (win s (nat win_id)) then - 1 else owner_task (win s (nat win_id)))"

text \<open>The application buffer is a function from the pixel index.\<close>

definition kwm_update_window :: "kwm \<Rightarrow> int \<Rightarrow> int \<Rightarrow> (nat \<Rightarrow> u32) option \<Rightarrow> kwm" where
  "kwm_update_window s me win_id app_buffer =
     (if \<not> valid_win win_id then s
      else
        let w = win s (nat win_id)
        in if \<not> active w then s
           else
             case (canvas w, app_buffer) of
               (Some c, Some buf) \<Rightarrow>
                 if owner_task w \<noteq> me then s
                 else
                   let n = unat (width w * height w); dest = pixels (bufs (disp s) c);
                       d = (disp s)\<lparr>pix := fold (\<lambda>i m. m(dest + 4 * i := buf i)) [0..<n] (pix (disp s))\<rparr>
                   in screen_mark_dirty (s\<lparr>disp := d\<rparr>) (win_x w) (win_y w + tb_of w) (width w) (height w)
             | _ \<Rightarrow> s)"

definition kwm_destroy_window :: "kwm \<Rightarrow> int \<Rightarrow> (unit outcome \<times> kwm) option" where
  "kwm_destroy_window s win_id =
     (if \<not> valid_win win_id \<or> \<not> active (win s (nat win_id)) then Some (Ret (), s)
      else
        let w = win s (nat win_id); was_focused = (focused_win_id s = win_id)
        in case kwm_free_slot s (nat win_id) of
             None \<Rightarrow> None
           | Some (Panic b, s1) \<Rightarrow> Some (Panic b, s1)
           | Some (Ret _, s1) \<Rightarrow>
               let s2 = (if was_focused then kwm_refocus s1 else s1);
                   s3 = frame_dirty_area s2 (win_x w) (win_y w) (width w) (height w + KWM_TITLEBAR_H)
               in Some (Ret (), if was_focused \<and> focused_win_id s2 \<ge> 0 then kwm_frame_dirty s3 (focused_win_id s2) else s3))"

text \<open>The loop that frees every window satisfying \<open>P\<close>; the result says whether the focused one was among them.\<close>

fun free_slots :: "kwm \<Rightarrow> (kwm_window \<Rightarrow> bool) \<Rightarrow> nat list \<Rightarrow> bool \<Rightarrow> (bool outcome \<times> kwm) option" where
  "free_slots s P [] focus_destroyed = Some (Ret focus_destroyed, s)"
| "free_slots s P (i # is) focus_destroyed =
     (if active (win s i) \<and> P (win s i)
      then (case kwm_free_slot s i of
              None \<Rightarrow> None
            | Some (Panic b, s1) \<Rightarrow> Some (Panic b, s1)
            | Some (Ret _, s1) \<Rightarrow> free_slots s1 P is (focus_destroyed \<or> focused_win_id s = int i))
      else free_slots s P is focus_destroyed)"

definition kwm_destroy_windows_of :: "kwm \<Rightarrow> int \<Rightarrow> (unit outcome \<times> kwm) option" where
  "kwm_destroy_windows_of s task_id =
     (case free_slots s (\<lambda>w. owner_task w = task_id) [0..<MAX_WINDOWS] False of
        None \<Rightarrow> None
      | Some (Panic b, s1) \<Rightarrow> Some (Panic b, s1)
      | Some (Ret fd, s1) \<Rightarrow>
          Some (Ret (), screen_mark_dirty (if fd then kwm_refocus s1 else s1) 0 0 (fb_width s) (fb_height s)))"

definition kwm_destroy_all_windows :: "kwm \<Rightarrow> (unit outcome \<times> kwm) option" where
  "kwm_destroy_all_windows s =
     (case free_slots s (\<lambda>_. True) [0..<MAX_WINDOWS] False of
        None \<Rightarrow> None
      | Some (Panic b, s1) \<Rightarrow> Some (Panic b, s1)
      | Some (Ret _, s1) \<Rightarrow> Some (Ret (), screen_mark_dirty (s1\<lparr>focused_win_id := - 1\<rparr>) 0 0 (fb_width s) (fb_height s)))"

section \<open>Input\<close>

text \<open>The clamp of a dragged frame to the screen.\<close>

definition clamp_drag :: "u32 \<Rightarrow> u32 \<Rightarrow> u32 \<Rightarrow> u32" where
  "clamp_drag pos len screen =
     (let p = (if sint pos < 0 then 0 else pos)
      in if sint (p + len) > sint screen then screen - len else p)"

definition drag_to :: "kwm \<Rightarrow> nat \<Rightarrow> u32 \<Rightarrow> u32 \<Rightarrow> kwm" where
  "drag_to s i mouse_px mouse_py =
     (let w = win s i; fw = width w; fh = height w + KWM_TITLEBAR_H;
          new_x = clamp_drag (mouse_px - drag_offset_x s) fw (fb_width s);
          new_y = clamp_drag (mouse_py - drag_offset_y s) fh (fb_height s);
          s1 = set_win s i (w\<lparr>win_x := new_x, win_y := new_y\<rparr>)
      in frame_dirty_area (frame_dirty_area s1 (win_x w) (win_y w) fw fh) new_x new_y fw fh)"

text \<open>The part of a mouse press under the lock: the new state, the owner to be asked to close and
  whether a drag started.\<close>

definition press_locked :: "kwm \<Rightarrow> u32 \<Rightarrow> u32 \<Rightarrow> int \<Rightarrow> kwm \<times> int \<times> bool" where
  "press_locked s mouse_px mouse_py target_win =
     (let desk = (target_win \<ge> 0 \<and> is_desktop (win s (nat target_win)));
          s1 = (if desk then s else s\<lparr>focused_win_id := target_win\<rparr>)
      in if target_win \<noteq> - 1 \<and> \<not> desk then
           let s2 = kwm_bring_to_front s1 target_win;
               w = win s2 (nat target_win); fx = win_x w; fy = win_y w
           in if sint mouse_py \<ge> sint fy \<and> sint mouse_py < sint (fy + KWM_TITLEBAR_H) then
                if sint mouse_px \<ge> sint (fx + width w - KWM_CLOSE_BTN_W) then (s2, owner_task w, False)
                else (s2\<lparr>dragged_win_id := target_win, drag_offset_x := mouse_px - fx, drag_offset_y := mouse_py - fy\<rparr>, - 1, True)
              else (s2, - 1, False)
         else (s1, - 1, False))"

definition kwm_process_mouse :: "kwm \<Rightarrow> u32 \<Rightarrow> u32 \<Rightarrow> bool \<Rightarrow> bool \<Rightarrow> bool \<times> kwm" where
  "kwm_process_mouse s mouse_px mouse_py left_down left_up =
     (if left_up then (False, s\<lparr>dragged_win_id := - 1\<rparr>)
      else if valid_win (dragged_win_id s) \<and> active (win s (nat (dragged_win_id s)))
      then (True, drag_to s (nat (dragged_win_id s)) mouse_px mouse_py)
      else if left_down then
        let target_win = kwm_hit_test s mouse_px mouse_py;
            old_focus = focused_win_id s;
            (s1, close_owner, start_drag) = press_locked s mouse_px mouse_py target_win
        in if close_owner \<ge> 0
           then (True, s1\<lparr>events := push_event_to (events s1) close_owner EVENT_WIN_CLOSE 0 0 0 (target_win + 1)\<rparr>)
           else
             let s2 = (if target_win \<ge> 0 then kwm_frame_dirty s1 target_win else s1);
                 s3 = (if old_focus \<noteq> target_win \<and> old_focus \<ge> 0 then kwm_frame_dirty s2 old_focus else s2)
             in (start_drag, s3)
      else (False, s))"

text \<open>Routing: the owner task, the encoded window id and, for the mouse, window-local coordinates.\<close>

definition kwm_route_keyboard :: "kwm \<Rightarrow> int \<times> int" where
  "kwm_route_keyboard s =
     (if valid_win (focused_win_id s) \<and> active (win s (nat (focused_win_id s)))
      then (owner_task (win s (nat (focused_win_id s))), focused_win_id s + 1)
      else (- 1, 0))"

definition kwm_route_mouse :: "kwm \<Rightarrow> u32 \<Rightarrow> u32 \<Rightarrow> int \<times> int \<times> (u32 \<times> u32) option" where
  "kwm_route_mouse s sx sy =
     (let i = kwm_hit_test s sx sy
      in if i \<ge> 0 then
           let w = win s (nat i)
           in (owner_task w, i + 1, Some (sx - win_x w, sy - (win_y w + tb_of w)))
         else (- 1, 0, None))"

section \<open>Alt-Tab\<close>

text \<open>The scan: the next window above \<open>cur_z\<close> with its z, and the lowest window with its z.\<close>

fun cycle_loop :: "kwm \<Rightarrow> int \<Rightarrow> nat list \<Rightarrow> int \<times> int \<Rightarrow> int \<times> int \<Rightarrow> (int \<times> int) \<times> (int \<times> int)" where
  "cycle_loop s cur_z [] (next_z, target) (lowest_z, lowest_win) = ((next_z, target), (lowest_z, lowest_win))"
| "cycle_loop s cur_z (i # is) (next_z, target) (lowest_z, lowest_win) =
     (if \<not> on_stack (win s i) then cycle_loop s cur_z is (next_z, target) (lowest_z, lowest_win)
      else
        let z = sint (z_index (win s i))
        in cycle_loop s cur_z is
             (if cur_z \<ge> 0 \<and> z > cur_z \<and> z < next_z then (z, int i) else (next_z, target))
             (if z < lowest_z then (z, int i) else (lowest_z, lowest_win)))"

fun topmost_loop :: "kwm \<Rightarrow> nat list \<Rightarrow> int \<Rightarrow> int \<Rightarrow> int" where
  "topmost_loop s [] hi target = target"
| "topmost_loop s (i # is) hi target =
     (if on_stack (win s i) \<and> sint (z_index (win s i)) > hi
      then topmost_loop s is (sint (z_index (win s i))) (int i)
      else topmost_loop s is hi target)"

definition cycle_target :: "kwm \<Rightarrow> int" where
  "cycle_target s =
     (let cur = focused_win_id s;
          cur_z = (if valid_win cur \<and> active (win s (nat cur)) then sint (z_index (win s (nat cur))) else - 1);
          z0 = sint (next_z_index s);
          ((next_z, target), (lowest_z, lowest_win)) = cycle_loop s cur_z [0..<MAX_WINDOWS] (z0, - 1) (z0, - 1)
      in if cur_z < 0 then topmost_loop s [0..<MAX_WINDOWS] (- 1) target
         else if target < 0 then lowest_win else target)"

definition kwm_cycle_focus :: "kwm \<Rightarrow> kwm" where
  "kwm_cycle_focus s =
     (let target = cycle_target s
      in if target \<ge> 0 then (normalize_if_past (raise_window s (nat target)))\<lparr>focused_win_id := target\<rparr>
         else s\<lparr>focused_win_id := - 1\<rparr>)"

definition kwm_handle_shortcut :: "kwm \<Rightarrow> u8 \<Rightarrow> bool \<Rightarrow> u16 \<Rightarrow> bool \<times> kwm" where
  "kwm_handle_shortcut s mods released key_id =
     (if alt_tab_active s \<and> mods AND 4 = 0 then (True, s\<lparr>alt_tab_active := False\<rparr>)
      else if mods AND 4 \<noteq> 0 \<and> key_id = 0x0F then
        if \<not> released then
          let old_focus = focused_win_id s;
              s1 = kwm_cycle_focus s;
              new_focus = focused_win_id s1;
              s2 = (if new_focus \<ge> 0 then kwm_frame_dirty s1 new_focus else s1);
              s3 = (if old_focus \<ge> 0 \<and> old_focus \<noteq> new_focus then kwm_frame_dirty s2 old_focus else s2)
          in (True, s3\<lparr>alt_tab_active := True\<rparr>)
        else (True, s)
      else (False, s))"

end
