(* ===== verification/Display_Correct.thy ===== *)
theory Display_Correct
  imports Display
begin

text \<open>
  What the pixel layer promises: intersections are exact, marked areas are never lost, a
  viewport copies exactly the clipped window of its source, and an owned buffer is two blocks
  of the kernel heap that go away together.
\<close>

section \<open>Rectangles\<close>

lemma sint32_bounds: "- (2 ^ 31) \<le> sint (x :: u32)" "sint x < 2 ^ 31"
  using sint_range_size [of x] by (simp_all add: word_size)

lemma uint32_bounds: "0 \<le> uint (x :: u32)" "uint x < 2 ^ 32"
  using uint_bounded [of x] by simp_all

lemma sint_of_int32: "- (2 ^ 31) \<le> v \<Longrightarrow> v < 2 ^ 31 \<Longrightarrow> sint (of_int v :: u32) = v"
  by (simp add: signed_of_int signed_take_bit_int_eq_self)

lemma uint_of_int32: "0 \<le> v \<Longrightarrow> v < 2 ^ 32 \<Longrightarrow> uint (of_int v :: u32) = v"
  by (simp add: unsigned_of_int take_bit_int_eq_self)

definition in_rect :: "rect \<Rightarrow> int \<Rightarrow> int \<Rightarrow> bool" where
  "in_rect r x y \<longleftrightarrow> left_of r \<le> x \<and> x < right_of r \<and> top_of r \<le> y \<and> y < bottom_of r"

lemma rect_from_edges:
  assumes "- (2 ^ 31) \<le> x0" "x0 < 2 ^ 31" "- (2 ^ 31) \<le> y0" "y0 < 2 ^ 31"
    and "x0 \<le> x1" "x1 - x0 < 2 ^ 32" "y0 \<le> y1" "y1 - y0 < 2 ^ 32"
    and "r = \<lparr>rect_x = of_int x0, rect_y = of_int y0, rect_w = of_int (x1 - x0), rect_h = of_int (y1 - y0)\<rparr>"
  shows "left_of r = x0" "right_of r = x1" "top_of r = y0" "bottom_of r = y1"
  using assms sint_of_int32 [of x0] sint_of_int32 [of y0] uint_of_int32 [of "x1 - x0"] uint_of_int32 [of "y1 - y0"] by simp_all

lemma rect_intersect_spec:
  "case rect_intersect a b of
     None \<Rightarrow> \<forall>x y. \<not> (in_rect a x y \<and> in_rect b x y)
   | Some c \<Rightarrow> \<forall>x y. in_rect c x y \<longleftrightarrow> in_rect a x y \<and> in_rect b x y"
proof -
  define x0 x1 y0 y1 where d: "x0 = (if left_of a > left_of b then left_of a else left_of b)"
    "x1 = (if right_of a < right_of b then right_of a else right_of b)"
    "y0 = (if top_of a > top_of b then top_of a else top_of b)"
    "y1 = (if bottom_of a < bottom_of b then bottom_of a else bottom_of b)"
  define r where "r = \<lparr>rect_x = of_int x0, rect_y = of_int y0, rect_w = of_int (x1 - x0) :: u32, rect_h = of_int (y1 - y0) :: u32\<rparr>"
  have i: "rect_intersect a b = (if x1 \<le> x0 \<or> y1 \<le> y0 then None else Some r)"
    unfolding rect_intersect_def Let_def d r_def by (rule refl)
  have e: "left_of a \<le> x0" "left_of b \<le> x0" "x1 \<le> right_of a" "x1 \<le> right_of b" "top_of a \<le> y0" "top_of b \<le> y0"
    "y1 \<le> bottom_of a" "y1 \<le> bottom_of b" by (simp_all add: d)
  have both: "in_rect a x y \<and> in_rect b x y \<longleftrightarrow> x0 \<le> x \<and> x < x1 \<and> y0 \<le> y \<and> y < y1" for x y
    by (auto simp: in_rect_def d)
  note xb = sint32_bounds [of "rect_x a"] sint32_bounds [of "rect_x b"] uint32_bounds [of "rect_w a"]
    and yb = sint32_bounds [of "rect_y a"] sint32_bounds [of "rect_y b"] uint32_bounds [of "rect_h a"]
  show ?thesis
  proof (cases "x1 \<le> x0 \<or> y1 \<le> y0")
    case True
    then show ?thesis unfolding i both by auto
  next
    case False
    have x: "- (2 ^ 31) \<le> x0" "x0 < 2 ^ 31" "x0 \<le> x1" "x1 - x0 < 2 ^ 32"
      using xb e(1,3) False by (auto simp: d(1))
    have y: "- (2 ^ 31) \<le> y0" "y0 < 2 ^ 31" "y0 \<le> y1" "y1 - y0 < 2 ^ 32"
      using yb e(5,7) False by (auto simp: d(3))
    note rr = rect_from_edges [OF x(1,2) y(1,2) x(3,4) y(3,4) r_def]
    show ?thesis using False rr unfolding i both by (auto simp: in_rect_def)
  qed
qed

text \<open>A rectangle inside the square whose sides run from \<open>lo\<close> to \<open>hi\<close>.\<close>

definition within :: "int \<Rightarrow> int \<Rightarrow> rect \<Rightarrow> bool" where
  "within lo hi r \<longleftrightarrow> lo \<le> left_of r \<and> right_of r \<le> hi \<and> lo \<le> top_of r \<and> bottom_of r \<le> hi"

lemma rect_union_spec:
  assumes "within lo hi a" "within lo hi b" "hi - lo < 2 ^ 32"
  shows "within lo hi (rect_union a b)" "in_rect a x y \<or> in_rect b x y \<Longrightarrow> in_rect (rect_union a b) x y"
proof -
  define x0 x1 y0 y1 where d: "x0 = (if left_of a < left_of b then left_of a else left_of b)"
    "x1 = (if right_of a > right_of b then right_of a else right_of b)"
    "y0 = (if top_of a < top_of b then top_of a else top_of b)"
    "y1 = (if bottom_of a > bottom_of b then bottom_of a else bottom_of b)"
  define r where "r = \<lparr>rect_x = of_int x0, rect_y = of_int y0, rect_w = of_int (x1 - x0) :: u32, rect_h = of_int (y1 - y0) :: u32\<rparr>"
  have u: "rect_union a b = r" unfolding rect_union_def Let_def d r_def by (rule refl)
  have e: "x0 \<le> left_of a" "x0 \<le> left_of b" "right_of a \<le> x1" "right_of b \<le> x1" "y0 \<le> top_of a" "y0 \<le> top_of b"
    "bottom_of a \<le> y1" "bottom_of b \<le> y1" by (simp_all add: d)
  have w: "lo \<le> x0" "x1 \<le> hi" "lo \<le> y0" "y1 \<le> hi" using assms(1,2) by (simp_all add: within_def d)
  note xb = sint32_bounds [of "rect_x a"] sint32_bounds [of "rect_x b"] uint32_bounds [of "rect_w a"]
    and yb = sint32_bounds [of "rect_y a"] sint32_bounds [of "rect_y b"] uint32_bounds [of "rect_h a"]
  have "- (2 ^ 31) \<le> x0" "- (2 ^ 31) \<le> y0" using xb yb by (simp_all add: d)
  then have x: "- (2 ^ 31) \<le> x0" "x0 < 2 ^ 31" "x0 \<le> x1" "x1 - x0 < 2 ^ 32"
    and y: "- (2 ^ 31) \<le> y0" "y0 < 2 ^ 31" "y0 \<le> y1" "y1 - y0 < 2 ^ 32"
    using xb yb e w assms(3) by linarith+
  note rr = rect_from_edges [OF x(1,2) y(1,2) x(3,4) y(3,4) r_def]
  show "within lo hi (rect_union a b)" using w rr by (simp add: u within_def)
  show "in_rect a x y \<or> in_rect b x y \<Longrightarrow> in_rect (rect_union a b) x y"
    using e rr unfolding u in_rect_def by linarith
qed

section \<open>Dirty regions\<close>

definition dirty_ok :: "int \<Rightarrow> int \<Rightarrow> dirty_region_list \<Rightarrow> bool" where
  "dirty_ok lo hi l \<longleftrightarrow> length (regions l) = MAX_DIRTY_REGIONS \<and> count l \<le> MAX_DIRTY_REGIONS \<and> (collapsed l \<longrightarrow> count l = 1) \<and>
     (\<forall>i < count l. within lo hi (regions l ! i))"

definition covers :: "dirty_region_list \<Rightarrow> int \<Rightarrow> int \<Rightarrow> bool" where
  "covers l x y \<longleftrightarrow> (\<exists>i < count l. in_rect (regions l ! i) x y)"

lemma union_all:
  assumes "\<forall>i < n. within lo hi (f i)" "0 < n" "hi - lo < 2 ^ 32"
  shows "within lo hi (foldl (\<lambda>b i. rect_union b (f i)) (f 0) [1..<n])"
    "i < n \<Longrightarrow> in_rect (f i) x y \<Longrightarrow> in_rect (foldl (\<lambda>b i. rect_union b (f i)) (f 0) [1..<n]) x y"
proof -
  have "within lo hi (foldl (\<lambda>b i. rect_union b (f i)) (f 0) [1..<n]) \<and>
    (\<forall>i < n. in_rect (f i) x y \<longrightarrow> in_rect (foldl (\<lambda>b i. rect_union b (f i)) (f 0) [1..<n]) x y)"
    using assms(1,2)
  proof (induction n)
    case (Suc n)
    show ?case
    proof (cases n)
      case 0
      then show ?thesis using Suc.prems by simp
    next
      case (Suc k)
      with Suc.IH Suc.prems have IH: "within lo hi (foldl (\<lambda>b i. rect_union b (f i)) (f 0) [1..<n])"
        "\<forall>i < n. in_rect (f i) x y \<longrightarrow> in_rect (foldl (\<lambda>b i. rect_union b (f i)) (f 0) [1..<n]) x y" by auto
      have "within lo hi (f n)" using Suc.prems by simp
      note u = rect_union_spec [OF IH(1) this assms(3)]
      have "[1..<Suc n] = [1..<n] @ [n]" using Suc by simp
      then show ?thesis using u IH(2) by (auto simp: less_Suc_eq)
    qed
  qed simp
  then show "within lo hi (foldl (\<lambda>b i. rect_union b (f i)) (f 0) [1..<n])"
    "i < n \<Longrightarrow> in_rect (f i) x y \<Longrightarrow> in_rect (foldl (\<lambda>b i. rect_union b (f i)) (f 0) [1..<n]) x y" by auto
qed

text \<open>
  C34. Marking a rectangle never loses an area: as long as the marked rectangles lie in a square
  of less than \<open>2 ^ 32\<close> pixels a side, everything that was marked before and the new rectangle are
  covered afterwards, also when the list of 64 regions overflows into one bounding box, and
  the list stays well-formed. Without an overflow nothing else becomes covered.
\<close>

theorem dirty_region_mark_correct:
  assumes ok: "dirty_ok lo hi l" and r: "within lo hi r" and sz: "hi - lo < 2 ^ 32"
  shows "dirty_ok lo hi (dirty_region_mark l r) \<and>
    (\<forall>x y. covers l x y \<or> in_rect r x y \<longrightarrow> covers (dirty_region_mark l r) x y) \<and>
    (\<not> collapsed (dirty_region_mark l r) \<longrightarrow> (\<forall>x y. covers (dirty_region_mark l r) x y \<longrightarrow> covers l x y \<or> in_rect r x y))"
proof -
  note o = ok [unfolded dirty_ok_def]
  consider "rect_w r = 0 \<or> rect_h r = 0" | "rect_w r \<noteq> 0" "rect_h r \<noteq> 0" "collapsed l"
    | "rect_w r \<noteq> 0" "rect_h r \<noteq> 0" "\<not> collapsed l" "count l = 64" | "rect_w r \<noteq> 0" "rect_h r \<noteq> 0" "\<not> collapsed l" "count l < 64"
    using o by fastforce
  then show ?thesis
  proof cases
    case 1
    then have "\<not> in_rect r x y" for x y by (auto simp: in_rect_def)
    then show ?thesis using 1 ok by (auto simp: dirty_region_mark_def)
  next
    case 2
    have w: "within lo hi (regions l ! 0)" using o 2 by simp
    show ?thesis using 2 o rect_union_spec [OF w r sz] by (auto simp: dirty_region_mark_def dirty_ok_def covers_def)
  next
    case 3
    define box where "box = foldl (\<lambda>b i. rect_union b (regions l ! i)) (regions l ! 0) [1..<64]"
    have b: "within lo hi box" "\<And>i x y. i < 64 \<Longrightarrow> in_rect (regions l ! i) x y \<Longrightarrow> in_rect box x y"
      using union_all [of 64 lo hi "\<lambda>i. regions l ! i"] o 3 sz unfolding box_def by auto
    have m: "dirty_region_mark l r = l\<lparr>regions := (regions l)[0 := rect_union box r], count := 1, collapsed := True\<rparr>"
      using 3 unfolding dirty_region_mark_def Let_def box_def by simp
    show ?thesis using 3 o b rect_union_spec [OF b(1) r sz] by (auto simp: m dirty_ok_def covers_def)
  next
    case 4
    have m: "dirty_region_mark l r = l\<lparr>regions := (regions l)[count l := r], count := count l + 1\<rparr>"
      using 4 by (simp add: dirty_region_mark_def)
    have c: "covers (dirty_region_mark l r) x y \<longleftrightarrow> covers l x y \<or> in_rect r x y" for x y
    proof
      assume "covers l x y \<or> in_rect r x y"
      then consider i where "i < count l" "in_rect (regions l ! i) x y" | "in_rect r x y" by (auto simp: covers_def)
      then show "covers (dirty_region_mark l r) x y"
      proof cases
        case (1 i)
        then show ?thesis unfolding m covers_def by (intro exI [of _ i]) simp
      next
        case 2
        then show ?thesis using 4 o unfolding m covers_def by (intro exI [of _ "count l"]) simp
      qed
    qed (use 4 o in \<open>auto simp: m covers_def nth_list_update_if less_Suc_eq split: if_splits\<close>)
    show ?thesis unfolding c using 4 o r by (auto simp: m dirty_ok_def nth_list_update_if less_Suc_eq)
  qed
qed

theorem dirty_region_mark_correct_witness:
  "covers (dirty_region_mark \<lparr>regions = replicate 64 \<lparr>rect_x = 0, rect_y = 0, rect_w = 2, rect_h = 2\<rparr>, count = 64, collapsed = False\<rparr>
     \<lparr>rect_x = 10, rect_y = 10, rect_w = 4, rect_h = 4\<rparr>) 13 13"
proof -
  have "covers (dirty_region_mark l r) 13 13"
    if "l = \<lparr>regions = replicate 64 \<lparr>rect_x = 0, rect_y = 0, rect_w = 2, rect_h = 2\<rparr>, count = 64, collapsed = False\<rparr>"
      "r = \<lparr>rect_x = 10, rect_y = 10, rect_w = 4, rect_h = 4\<rparr>" for l r
    using dirty_region_mark_correct [of 0 100 l r] that by (auto simp: dirty_ok_def within_def in_rect_def)
  then show ?thesis by blast
qed

section \<open>Viewports\<close>

definition copy_pairs :: "(nat \<times> nat) list \<Rightarrow> (nat \<Rightarrow> u32) \<Rightarrow> (nat \<Rightarrow> u32)" where
  "copy_pairs ws m = fold (\<lambda>(d, s) m. m(d := m s)) ws m"

lemma copy_pairs_spec:
  assumes "\<forall>d s s'. (d, s) \<in> set ws \<longrightarrow> (d, s') \<in> set ws \<longrightarrow> s = s'" "\<forall>d s d' s'. (d, s) \<in> set ws \<longrightarrow> (d', s') \<in> set ws \<longrightarrow> s \<noteq> d'"
  shows "(\<forall>d s. (d, s) \<in> set ws \<longrightarrow> copy_pairs ws m d = m s) \<and> (\<forall>a. (\<forall>s. (a, s) \<notin> set ws) \<longrightarrow> copy_pairs ws m a = m a)"
  using assms
proof (induction ws arbitrary: m)
  case Nil
  then show ?case by (simp add: copy_pairs_def)
next
  case (Cons w ws)
  obtain d0 s0 where w: "w = (d0, s0)" by (cases w)
  let ?m = "m(d0 := m s0)"
  have c: "copy_pairs (w # ws) m = copy_pairs ws ?m" by (simp add: copy_pairs_def w)
  have "\<forall>d s s'. (d, s) \<in> set ws \<longrightarrow> (d, s') \<in> set ws \<longrightarrow> s = s'" "\<forall>d s d' s'. (d, s) \<in> set ws \<longrightarrow> (d', s') \<in> set ws \<longrightarrow> s \<noteq> d'"
    using Cons.prems by simp_all
  note IH = Cons.IH [OF this, of ?m]
  have "copy_pairs ws ?m d = m s" if "(d, s) \<in> set (w # ws)" for d s
  proof (cases "(d, s) \<in> set ws")
    case True
    then have "s \<noteq> d0" using Cons.prems(2) w by (metis list.set_intros(1,2))
    moreover have "copy_pairs ws ?m d = ?m s" using IH True by blast
    ultimately show ?thesis by simp
  next
    case False
    then have ds: "d = d0" "s = s0" using that w by auto
    then have "\<forall>s'. (d0, s') \<notin> set ws" using Cons.prems(1) w False by (metis list.set_intros(1,2))
    then have "copy_pairs ws ?m d0 = ?m d0" using IH by blast
    then show ?thesis using ds by simp
  qed
  moreover have "copy_pairs ws ?m a = m a" if "\<forall>s. (a, s) \<notin> set (w # ws)" for a
  proof -
    have "\<forall>s. (a, s) \<notin> set ws" using that by simp
    then have "copy_pairs ws ?m a = ?m a" using IH by blast
    then show ?thesis using that w by auto
  qed
  ultimately show ?case unfolding c by blast
qed

lemma copy_row_pairs: "copy_row d s n m = copy_pairs (map (\<lambda>i. (d + 4 * i, s + 4 * i)) [0..<n]) m"
  by (simp add: copy_row_def copy_pairs_def fold_map comp_def)

lemma copy_rows_pairs:
  "fold (\<lambda>k m. copy_row (d k) (s k) n m) ks m = copy_pairs (concat (map (\<lambda>k. map (\<lambda>i. (d k + 4 * i, s k + 4 * i)) [0..<n]) ks)) m"
  by (induction ks arbitrary: m) (simp_all add: copy_row_pairs copy_pairs_def)

text \<open>The address of a pixel, and the pixel of the source shown at a point of the target.\<close>

definition addr :: "display_buffer \<Rightarrow> int \<Rightarrow> int \<Rightarrow> nat" where
  "addr b x y = pixels b + 4 * nat (y * uint (stride b) + x)"

definition in_buf :: "display_buffer \<Rightarrow> int \<Rightarrow> int \<Rightarrow> bool" where
  "in_buf b x y \<longleftrightarrow> 0 \<le> x \<and> x < uint (db_width b) \<and> 0 \<le> y \<and> y < uint (db_height b)"

definition disjoint_bufs :: "display_buffer \<Rightarrow> display_buffer \<Rightarrow> bool" where
  "disjoint_bufs a b \<longleftrightarrow> (\<forall>x y x' y'. in_buf a x y \<longrightarrow> in_buf b x' y' \<longrightarrow> addr a x y \<noteq> addr b x' y')"

lemma addr_inject:
  assumes "in_buf b x y" "in_buf b x' y'" "db_width b \<le> stride b"
  shows "addr b x y = addr b x' y' \<longleftrightarrow> x = x' \<and> y = y'"
proof -
  let ?s = "uint (stride b)"
  have s: "x < ?s" "x' < ?s" "0 \<le> x" "0 \<le> x'" "0 \<le> y" "0 \<le> y'" using assms by (auto simp: in_buf_def word_le_def)
  then have nn: "0 \<le> y * ?s + x" "0 \<le> y' * ?s + x'" by simp_all
  have dm: "(v * ?s + u) div ?s = v \<and> (v * ?s + u) mod ?s = u" if "0 \<le> u" "u < ?s" for u v
    using that by simp
  have "y * ?s + x = y' * ?s + x' \<longleftrightarrow> x = x' \<and> y = y'" using dm [of x y] dm [of x' y'] s by metis
  then show ?thesis using nn by (simp add: addr_def nat_eq_iff)
qed

lemma clip_range_spec:
  assumes "clip_range len scroll src_len pos target_len = (c0, c1)"
  shows "c0 \<le> c \<and> c < c1 \<longleftrightarrow> 0 \<le> c \<and> c < uint len \<and> 0 \<le> sint scroll + c \<and> sint scroll + c < uint src_len \<and>
    0 \<le> sint pos + c \<and> sint pos + c < uint target_len"
  using assms by (auto simp: clip_range_def Let_def split: if_splits)

text \<open>What the copy loop of a rendering copies, as a set of target and source addresses.\<close>

lemma render_pairs:
  assumes s': "s' = viewport_render s vp (Some t)" and src: "source vp = Some p" and sb: "sb = bufs s p" and tb: "tb = bufs s t"
    and c: "clip_range (rect_w (bounds vp)) (scroll_x vp) (db_width sb) (rect_x (bounds vp)) (db_width tb) = (c0, c1)"
    and r: "clip_range (rect_h (bounds vp)) (scroll_y vp) (db_height sb) (rect_y (bounds vp)) (db_height tb) = (r0, r1)"
  shows "\<exists>ws. pix s' = copy_pairs ws (pix s) \<and> set ws =
    {(addr tb (left_of (bounds vp) + k) (top_of (bounds vp) + j), addr sb (sint (scroll_x vp) + k) (sint (scroll_y vp) + j)) | k j.
       c0 \<le> k \<and> k < c1 \<and> r0 \<le> j \<and> j < r1}" (is "\<exists>ws. _ \<and> set ws = ?W")
proof -
  let ?bx = "left_of (bounds vp)" and ?by = "top_of (bounds vp)" and ?sx = "sint (scroll_x vp)" and ?sy = "sint (scroll_y vp)"
  note cs = clip_range_spec [OF c] and rs = clip_range_spec [OF r]
  show ?thesis
  proof (cases "c1 \<le> c0 \<or> r1 \<le> r0")
    case True
    then have "pix s' = pix s" "?W = {}" using s' src c r by (auto simp: viewport_render_def sb tb Let_def)
    then show ?thesis by (intro exI [of _ "[]"]) (simp add: copy_pairs_def)
  next
    case False
    define dd where "dd k = pixels tb + 4 * nat ((?by + (r0 + int k)) * uint (stride tb) + (?bx + c0))" for k
    define ss where "ss k = pixels sb + 4 * nat ((?sy + (r0 + int k)) * uint (stride sb) + (?sx + c0))" for k
    let ?ws = "concat (map (\<lambda>k. map (\<lambda>i. (dd k + 4 * i, ss k + 4 * i)) [0..<nat (c1 - c0)]) [0..<nat (r1 - r0)])"
    have e: "dd k + 4 * i = addr tb (?bx + (c0 + int i)) (?by + (r0 + int k))" "ss k + 4 * i = addr sb (?sx + (c0 + int i)) (?sy + (r0 + int k))"
      if "k < nat (r1 - r0)" "i < nat (c1 - c0)" for k i
    proof -
      have "0 \<le> ?bx + c0" "0 \<le> ?sx + c0" "0 \<le> ?by + (r0 + int k)" "0 \<le> ?sy + (r0 + int k)"
        using cs [of c0] rs [of "r0 + int k"] that False by auto
      then have "0 \<le> (?by + (r0 + int k)) * uint (stride tb) + (?bx + c0)" "0 \<le> (?sy + (r0 + int k)) * uint (stride sb) + (?sx + c0)" by simp_all
      then show "dd k + 4 * i = addr tb (?bx + (c0 + int i)) (?by + (r0 + int k))" "ss k + 4 * i = addr sb (?sx + (c0 + int i)) (?sy + (r0 + int k))"
        by (simp_all add: dd_def ss_def addr_def nat_add_distrib [symmetric] add.assoc flip: nat_int_add)
    qed
    have "set ?ws = ?W"
    proof (intro equalityI subsetI)
      fix z assume "z \<in> set ?ws"
      then obtain k i where ki: "k < nat (r1 - r0)" "i < nat (c1 - c0)" "z = (dd k + 4 * i, ss k + 4 * i)" by auto
      then show "z \<in> ?W" unfolding ki(3) e [OF ki(1,2)] by (intro CollectI exI [of _ "c0 + int i"] exI [of _ "r0 + int k"]) auto
    next
      fix z assume "z \<in> ?W"
      then obtain k j where kj: "c0 \<le> k" "k < c1" "r0 \<le> j" "j < r1" "z = (addr tb (?bx + k) (?by + j), addr sb (?sx + k) (?sy + j))"
        by blast
      let ?i = "nat (k - c0)" and ?k = "nat (j - r0)"
      have lt: "?k < nat (r1 - r0)" "?i < nat (c1 - c0)" using kj by auto
      have "z = (dd ?k + 4 * ?i, ss ?k + 4 * ?i)" unfolding e [OF lt] kj(5) using kj by simp
      moreover have "(dd ?k + 4 * ?i, ss ?k + 4 * ?i) \<in> set (map (\<lambda>i. (dd ?k + 4 * i, ss ?k + 4 * i)) [0..<nat (c1 - c0)])" using lt(2) by auto
      ultimately show "z \<in> set ?ws" using lt(1) by (auto intro!: bexI [of _ ?k])
    qed
    moreover have "pix s' = copy_pairs ?ws (pix s)"
      unfolding copy_rows_pairs [symmetric] using s' src c r False
      by (simp add: viewport_render_def sb tb Let_def dd_def ss_def)
    ultimately show ?thesis by blast
  qed
qed

text \<open>
  Rendering a viewport copies exactly the visible window: a pixel of the target that lies in
  the viewport's bounds and under which the scrolled source has a pixel becomes that source
  pixel; every other pixel of the target, and all memory outside of it, is unchanged. This
  holds for every position, scroll offset and size, in range or not.
\<close>

theorem viewport_render_correct:
  assumes s': "s' = viewport_render s vp (Some t)" and src: "source vp = Some p" and sb: "sb = bufs s p" and tb: "tb = bufs s t"
    and wf: "db_width sb \<le> stride sb" "db_width tb \<le> stride tb" "disjoint_bufs sb tb"
  shows "(\<forall>x y. in_buf tb x y \<longrightarrow> pix s' (addr tb x y) =
      (let u = x - left_of (bounds vp) + sint (scroll_x vp); v = y - top_of (bounds vp) + sint (scroll_y vp)
       in if in_rect (bounds vp) x y \<and> in_buf sb u v then pix s (addr sb u v) else pix s (addr tb x y))) \<and>
    (\<forall>a. (\<forall>x y. in_buf tb x y \<longrightarrow> a \<noteq> addr tb x y) \<longrightarrow> pix s' a = pix s a)"
proof -
  let ?bx = "left_of (bounds vp)" and ?by = "top_of (bounds vp)" and ?sx = "sint (scroll_x vp)" and ?sy = "sint (scroll_y vp)"
  obtain c0 c1 where c: "clip_range (rect_w (bounds vp)) (scroll_x vp) (db_width sb) (rect_x (bounds vp)) (db_width tb) = (c0, c1)" by fastforce
  obtain r0 r1 where r: "clip_range (rect_h (bounds vp)) (scroll_y vp) (db_height sb) (rect_y (bounds vp)) (db_height tb) = (r0, r1)" by fastforce
  note cs = clip_range_spec [OF c] and rs = clip_range_spec [OF r]
  define W where "W = {(addr tb (?bx + k) (?by + j), addr sb (?sx + k) (?sy + j)) | k j. c0 \<le> k \<and> k < c1 \<and> r0 \<le> j \<and> j < r1}"
  have inb: "in_buf tb (?bx + k) (?by + j) \<and> in_buf sb (?sx + k) (?sy + j)" if "c0 \<le> k" "k < c1" "r0 \<le> j" "j < r1" for k j
    using cs [of k] rs [of j] that by (simp add: in_buf_def)
  obtain ws where ws: "pix s' = copy_pairs ws (pix s)" "set ws = W"
    using render_pairs [OF s' src sb tb c r] unfolding W_def by blast
  have fn: "\<forall>d a a'. (d, a) \<in> set ws \<longrightarrow> (d, a') \<in> set ws \<longrightarrow> a = a'"
    unfolding ws(2) W_def using inb addr_inject [OF _ _ wf(2)] by auto
  have dj: "\<forall>d a d' a'. (d, a) \<in> set ws \<longrightarrow> (d', a') \<in> set ws \<longrightarrow> a \<noteq> d'"
    unfolding ws(2) W_def using inb wf(3) unfolding disjoint_bufs_def by blast
  note cp = conjunct1 [OF copy_pairs_spec [OF fn dj, of "pix s", folded ws(1)]] conjunct2 [OF copy_pairs_spec [OF fn dj, of "pix s", folded ws(1)]]
  have shown: "pix s' (addr tb x y) = pix s (addr sb (x - ?bx + ?sx) (y - ?by + ?sy))"
    if "in_buf tb x y" "in_rect (bounds vp) x y" "in_buf sb (x - ?bx + ?sx) (y - ?by + ?sy)" for x y
  proof -
    have "c0 \<le> x - ?bx \<and> x - ?bx < c1" "r0 \<le> y - ?by \<and> y - ?by < r1"
      using that unfolding cs rs by (auto simp: in_buf_def in_rect_def)
    then have "(addr tb x y, addr sb (x - ?bx + ?sx) (y - ?by + ?sy)) \<in> set ws"
      unfolding ws(2) W_def by (intro CollectI exI [of _ "x - ?bx"] exI [of _ "y - ?by"]) (simp add: algebra_simps)
    then show ?thesis using cp(1) by blast
  qed
  have kept: "pix s' (addr tb x y) = pix s (addr tb x y)"
    if xy: "in_buf tb x y" "\<not> (in_rect (bounds vp) x y \<and> in_buf sb (x - ?bx + ?sx) (y - ?by + ?sy))" for x y
  proof -
    have "(addr tb x y, a) \<notin> W" for a
    proof
      assume "(addr tb x y, a) \<in> W"
      then obtain k j where kj: "c0 \<le> k" "k < c1" "r0 \<le> j" "j < r1" "addr tb x y = addr tb (?bx + k) (?by + j)" by (auto simp: W_def)
      then have "x = ?bx + k" "y = ?by + j" using addr_inject [OF xy(1) _ wf(2)] inb by blast+
      then show False using xy(2) cs [of k] rs [of j] kj by (auto simp: in_rect_def in_buf_def)
    qed
    then show ?thesis using cp(2) ws(2) by blast
  qed
  have out: "pix s' a = pix s a" if "\<forall>x y. in_buf tb x y \<longrightarrow> a \<noteq> addr tb x y" for a
  proof -
    have "(a, z) \<notin> set ws" for z unfolding ws(2) W_def using that inb by blast
    then show ?thesis using cp(2) by blast
  qed
  show ?thesis using shown kept out by (simp add: Let_def)
qed

theorem viewport_render_correct_witness:
  "\<exists>s. pix (viewport_render s \<lparr>bounds = \<lparr>rect_x = - 1, rect_y = 0, rect_w = 4, rect_h = 4\<rparr>, scroll_x = 0, scroll_y = 1, source = Some 0\<rparr> (Some 1))
     (1000 + 4) = 7"
proof -
  define b where "b q = \<lparr>db_width = 4, db_height = 4, stride = 4, pixels = q, owns_pixels = True, dirty = None\<rparr>" for q
  define s :: display_state where "s = \<lparr>heap = undefined, bufs = (\<lambda>p. if p = 0 then b 0 else b 1000), pix = (\<lambda>a. if a = 24 then 7 else 0)\<rparr>"
  define vp where "vp = \<lparr>bounds = \<lparr>rect_x = - 1, rect_y = 0, rect_w = 4, rect_h = 4\<rparr>, scroll_x = 0, scroll_y = 1, source = Some (0 :: nat)\<rparr>"
  have bs: "bufs s 0 = b 0" "bufs s 1 = b 1000" by (simp_all add: s_def)
  have dj: "disjoint_bufs (b 0) (b 1000)"
    unfolding disjoint_bufs_def
  proof (intro allI impI)
    fix x y x' y' assume "in_buf (b 0) x y" "in_buf (b 1000) x' y'"
    then have "y * 4 + x < 100" by (auto simp: in_buf_def b_def)
    then show "addr (b 0) x y \<noteq> addr (b 1000) x' y'" by (simp add: addr_def b_def)
  qed
  have "db_width (b 0) \<le> stride (b 0)" "db_width (b 1000) \<le> stride (b 1000)" by (simp_all add: b_def)
  from viewport_render_correct [OF refl _ bs(1) [symmetric] bs(2) [symmetric] this dj, of vp]
  have "\<forall>x y. in_buf (b 1000) x y \<longrightarrow> pix (viewport_render s vp (Some 1)) (addr (b 1000) x y) =
      (let u = x - left_of (bounds vp) + sint (scroll_x vp); v = y - top_of (bounds vp) + sint (scroll_y vp)
       in if in_rect (bounds vp) x y \<and> in_buf (b 0) u v then pix s (addr (b 0) u v) else pix s (addr (b 1000) x y))"
    by (simp add: vp_def)
  then have "in_buf (b 1000) 1 0 \<longrightarrow> pix (viewport_render s vp (Some 1)) (addr (b 1000) 1 0) =
      (let u = 1 - left_of (bounds vp) + sint (scroll_x vp); v = 0 - top_of (bounds vp) + sint (scroll_y vp)
       in if in_rect (bounds vp) 1 0 \<and> in_buf (b 0) u v then pix s (addr (b 0) u v) else pix s (addr (b 1000) 1 0))"
    by blast
  then have "pix (viewport_render s vp (Some 1)) (1000 + 4) = 7"
    by (simp add: vp_def in_buf_def in_rect_def addr_def b_def s_def)
  then show ?thesis unfolding vp_def by blast
qed

section \<open>Owned buffers\<close>

text \<open>A window surface: a descriptor and its pixels, both blocks of the heap.\<close>

definition owned_buffer :: "display_state \<Rightarrow> nat \<Rightarrow> (nat \<times> nat) set \<Rightarrow> bool" where
  "owned_buffer s p R \<longleftrightarrow> owns_pixels (bufs s p) \<and> (\<exists>n m. R = {(p, n), (pixels (bufs s p), m)} \<and> p \<noteq> pixels (bufs s p) \<and>
     4 * unat (db_width (bufs s p)) * unat (db_height (bufs s p)) \<le> m \<and> stride (bufs s p) = db_width (bufs s p))"

lemma release_spec:
  assumes "heap_inv (heap s)" "(p, n) \<in> live (heap s)"
  shows "\<exists>h. release s p v = Some (Ret v, s\<lparr>heap := h\<rparr>) \<and> heap_inv h \<and> live h = live (heap s) - {(p, n)}"
  using kheap.free_law [OF assms] by (auto simp: release_def)

lemma canvas_bytes:
  assumes "4 * unat w * unat h < W64" "w \<noteq> 0"
  shows "unat (ucast w * ucast h * 4 :: u64) = 4 * unat (w :: u32) * unat (h :: u32)" "(ucast w * ucast h * 4 :: u64) div ucast w div 4 = ucast h"
proof -
  have u: "unat (ucast x :: u64) = unat x" for x :: u32 by transfer (simp add: take_bit_take_bit)
  have "unat w * unat h < 2 ^ 64" using le_less_trans [OF _ assms(1), of "unat w * unat h"] by simp
  then have m: "unat (ucast w * ucast h :: u64) = unat w * unat h" using u by (subst unat_mult_lem [THEN iffD1]) simp_all
  show b: "unat (ucast w * ucast h * 4 :: u64) = 4 * unat w * unat h"
    using m assms(1) by (subst unat_mult_lem [THEN iffD1]) simp_all
  have "0 < unat w" using assms(2) by (simp add: unat_gt_0)
  then have "unat ((ucast w * ucast h * 4 :: u64) div ucast w div 4) = unat (ucast h :: u64)"
    using b u by (simp add: unat_div_distrib mult.commute mult.left_commute)
  then show "(ucast w * ucast h * 4 :: u64) div ucast w div 4 = ucast h" by (rule unsigned_word_eqI)
qed

lemma display_create_spec:
  assumes inv: "heap_inv (heap s)" and wh: "w \<noteq> 0" "h \<noteq> 0"
    and room: "current_heap_end (heap s) + 4 * unat w * unat h + 65536 < W64"
  obtains (none) s' where "display_buffer_create s w h = Some (Ret None, s')" "heap_inv (heap s')" "live (heap s') = live (heap s)"
      "bufs s' = bufs s" "pix s' = pix s"
  | (some) s' p R where "display_buffer_create s w h = Some (Ret (Some p), s')" "heap_inv (heap s')" "live (heap s') = R \<union> live (heap s)"
      "owned_buffer s' p R" "\<forall>q n k. (q, n) \<in> R \<longrightarrow> (q, k) \<notin> live (heap s)" "\<forall>q. q \<noteq> p \<longrightarrow> bufs s' q = bufs s q" "pix s' = pix s"
      "db_width (bufs s' p) = w" "db_height (bufs s' p) = h"
proof -
  let ?b = "ucast w * ucast h * 4 :: u64"
  have lt: "4 * unat w * unat h < W64" by (rule le_less_trans [OF _ room]) simp
  note cb = canvas_bytes [OF lt wh(1)]
  have b0: "?b \<noteq> 0" using cb(1) wh by (metis mult_eq_0_iff unat_0 unat_eq_zero zero_neq_numeral)
  obtain r h1 where k1: "kmalloc (heap s) SIZEOF_DISPLAY_BUFFER = Some (Ret r, h1)" "heap_inv h1"
      "current_heap_end h1 \<le> current_heap_end (heap s) + 40 + 16384"
      "case r of None \<Rightarrow> live h1 = live (heap s)
       | Some p \<Rightarrow> \<exists>n. round16 SIZEOF_DISPLAY_BUFFER \<le> n \<and> live h1 = insert (p, n) (live (heap s)) \<and> (\<forall>n'. (p, n') \<notin> live (heap s))"
    using kmalloc_spec [OF inv, of SIZEOF_DISPLAY_BUFFER] room by auto
  show thesis
  proof (cases r)
    case None
    show ?thesis by (rule none [of "s\<lparr>heap := h1\<rparr>"]) (use None k1 wh in \<open>simp_all add: display_buffer_create_def\<close>)
  next
    case (Some p)
    then obtain n where n: "live h1 = insert (p, n) (live (heap s))" "\<forall>n'. (p, n') \<notin> live (heap s)" using k1(4) by auto
    obtain r2 h2 where k2: "kmalloc h1 ?b = Some (Ret r2, h2)" "heap_inv h2"
        "case r2 of None \<Rightarrow> live h2 = live h1
         | Some q \<Rightarrow> \<exists>m. round16 ?b \<le> m \<and> live h2 = insert (q, m) (live h1) \<and> (\<forall>n'. (q, n') \<notin> live h1)"
      using kmalloc_spec [OF k1(2) b0] k1(3) room cb(1) by auto
    show ?thesis
    proof (cases r2)
      case None
      then have l2: "live h2 = live h1" using k2(3) by simp
      obtain h3 where h3: "release (s\<lparr>heap := h2\<rparr>) p (None :: nat option) = Some (Ret None, s\<lparr>heap := h3\<rparr>)" "heap_inv h3" "live h3 = live h1 - {(p, n)}"
        using release_spec [of "s\<lparr>heap := h2\<rparr>" p n "None :: nat option"] k2(2) l2 n(1) by auto
      show ?thesis
        by (rule none [of "s\<lparr>heap := h3\<rparr>"]) (use None Some k1 k2 wh cb(2) h3 n in \<open>simp_all add: display_buffer_create_def Let_def\<close>)
    next
      case (Some q)
      then obtain m where m: "round16 ?b \<le> m" "live h2 = insert (q, m) (live h1)" "\<forall>n'. (q, n') \<notin> live h1" using k2(3) by auto
      have "unat ?b \<le> round16 ?b" using cb(1) room by (intro round16_bounds(1)) simp
      then have m4: "4 * unat w * unat h \<le> m" using m(1) cb(1) by simp
      have pq: "p \<noteq> q" using m(3) n(1) by auto
      define s' where "s' = s\<lparr>heap := h2, bufs := (bufs s)(p := \<lparr>db_width = w, db_height = h, stride = w, pixels = q,
        owns_pixels = True, dirty = None\<rparr>)\<rparr>"
      have call: "display_buffer_create s w h = Some (Ret (Some p), s')"
        using Some \<open>r = Some p\<close> k1(1) k2(1) wh cb(2) by (simp add: display_buffer_create_def Let_def s'_def)
      show ?thesis
        by (rule some [OF call, of "{(p, n), (q, m)}"])
          (use k2(2) m4 pq m n in \<open>auto simp: s'_def owned_buffer_def\<close>)
    qed
  qed
qed

lemma display_destroy_spec:
  assumes inv: "heap_inv (heap s)" and ob: "owned_buffer s p R" and l: "R \<subseteq> live (heap s)"
  shows "\<exists>h. display_buffer_destroy s (Some p) = Some (Ret (), s\<lparr>heap := h\<rparr>) \<and> heap_inv h \<and> live h = live (heap s) - R"
proof -
  let ?q = "pixels (bufs s p)"
  obtain n m where R: "R = {(p, n), (?q, m)}" "p \<noteq> ?q" "owns_pixels (bufs s p)" using ob by (auto simp: owned_buffer_def)
  obtain h1 where h1: "release s ?q () = Some (Ret (), s\<lparr>heap := h1\<rparr>)" "heap_inv h1" "live h1 = live (heap s) - {(?q, m)}"
    using release_spec [OF inv, of ?q m "()"] l R(1) by auto
  have "(p, n) \<in> live h1" using h1(3) l R(1,2) by auto
  then obtain h2 where "release (s\<lparr>heap := h1\<rparr>) p () = Some (Ret (), s\<lparr>heap := h2\<rparr>)" "heap_inv h2" "live h2 = live h1 - {(p, n)}"
    using release_spec [of "s\<lparr>heap := h1\<rparr>" p n "()"] h1(2) by auto
  then show ?thesis using h1 R by (intro exI [of _ h2]) (auto simp: display_buffer_destroy_def)
qed

end
