(* ===== verification/Kwm_Invariant.thy ===== *)
theory Kwm_Invariant
  imports Kwm Display_Correct
begin

text \<open>
  The invariant of the window manager: every active window owns a canvas of its size in the
  kernel heap, no two windows share one, free slots own none, and focus and drag point at an
  active window that is not the desktop. \<open>R i\<close> is the set of heap regions of slot \<open>i\<close>.
\<close>

section \<open>Scans for a maximum\<close>

fun max_scan :: "(nat \<Rightarrow> bool) \<Rightarrow> (nat \<Rightarrow> int) \<Rightarrow> nat list \<Rightarrow> int \<Rightarrow> int \<Rightarrow> int" where
  "max_scan P k [] hi target = target"
| "max_scan P k (i # is) hi target =
     (if P i \<and> k i > hi then max_scan P k is (k i) (int i) else max_scan P k is hi target)"

lemma max_scan_cases:
  obtains (none) "max_scan P k is hi t = t" "\<forall>i \<in> set is. P i \<longrightarrow> k i \<le> hi"
  | (best) i where "max_scan P k is hi t = int i" "i \<in> set is" "P i" "k i > hi" "\<forall>j \<in> set is. P j \<longrightarrow> k j \<le> k i"
proof -
  have "(max_scan P k is hi t = t \<and> (\<forall>i \<in> set is. P i \<longrightarrow> k i \<le> hi)) \<or>
    (\<exists>i \<in> set is. max_scan P k is hi t = int i \<and> P i \<and> k i > hi \<and> (\<forall>j \<in> set is. P j \<longrightarrow> k j \<le> k i))"
    by (induction P k "is" hi t rule: max_scan.induct) (auto; fastforce)+
  then show thesis using none best by blast
qed

lemma hit_loop_scan:
  "hit_loop s px py is hi t = max_scan (\<lambda>i. active (win s i) \<and> in_frame (win s i) px py) (\<lambda>i. sint (z_index (win s i))) is hi t"
  by (induction "is" arbitrary: hi t) auto

lemma topmost_loop_scan:
  "topmost_loop s is hi t = max_scan (\<lambda>i. on_stack (win s i)) (\<lambda>i. sint (z_index (win s i))) is hi t"
  by (induction "is" arbitrary: hi t) auto

lemma refocus_loop_scan:
  "refocus_loop s is hi t = max_scan (\<lambda>i. on_stack (win s i)) (\<lambda>i. uint (z_index (win s i))) is (uint hi) t"
  by (induction "is" arbitrary: hi t) (auto simp: word_less_def)

section \<open>The invariant\<close>

definition slot_ok :: "kwm_window list \<Rightarrow> int \<Rightarrow> bool" where
  "slot_ok ws f \<longleftrightarrow> f = - 1 \<or> valid_win f \<and> on_stack (ws ! nat f)"

definition window_ok :: "display_state \<Rightarrow> kwm_window \<Rightarrow> (nat \<times> nat) set \<Rightarrow> bool" where
  "window_ok d w r \<longleftrightarrow>
     (if active w
      then \<exists>c. canvas w = Some c \<and> owned_buffer d c r \<and> r \<subseteq> live (heap d) \<and> db_width (bufs d c) = width w \<and> db_height (bufs d c) = height w
      else canvas w = None \<and> r = {})"

definition kwm_inv :: "kwm \<Rightarrow> (nat \<Rightarrow> (nat \<times> nat) set) \<Rightarrow> bool" where
  "kwm_inv s R \<longleftrightarrow> length (kwm_windows s) = MAX_WINDOWS \<and> heap_inv (heap (disp s)) \<and>
     (\<forall>i < MAX_WINDOWS. window_ok (disp s) (win s i) (R i)) \<and>
     (\<forall>i < MAX_WINDOWS. \<forall>j < MAX_WINDOWS. i \<noteq> j \<longrightarrow> R i \<inter> R j = {}) \<and>
     (\<forall>i < MAX_WINDOWS. \<forall>j < MAX_WINDOWS. active (win s i) \<and> is_desktop (win s i) \<and> active (win s j) \<and> is_desktop (win s j) \<longrightarrow> i = j) \<and>
     slot_ok (kwm_windows s) (focused_win_id s) \<and> slot_ok (kwm_windows s) (dragged_win_id s)"

lemma valid_win_nat: "valid_win f \<Longrightarrow> nat f < MAX_WINDOWS" "valid_win f \<Longrightarrow> int (nat f) = f"
  unfolding valid_win_def by linarith+

lemma kwm_invD:
  assumes "kwm_inv s R"
  shows "length (kwm_windows s) = MAX_WINDOWS" "heap_inv (heap (disp s))" "i < MAX_WINDOWS \<Longrightarrow> window_ok (disp s) (win s i) (R i)"
    "i < MAX_WINDOWS \<Longrightarrow> j < MAX_WINDOWS \<Longrightarrow> i \<noteq> j \<Longrightarrow> R i \<inter> R j = {}"
    "slot_ok (kwm_windows s) (focused_win_id s)" "slot_ok (kwm_windows s) (dragged_win_id s)"
    "i < MAX_WINDOWS \<Longrightarrow> j < MAX_WINDOWS \<Longrightarrow> active (win s i) \<Longrightarrow> is_desktop (win s i) \<Longrightarrow> active (win s j) \<Longrightarrow> is_desktop (win s j) \<Longrightarrow> i = j"
  using assms by (simp_all add: kwm_inv_def)

section \<open>Changes that keep the shape\<close>

text \<open>Only position, z-index and title of windows, the counter and the dirty list may differ.\<close>

definition same_window :: "kwm_window \<Rightarrow> kwm_window \<Rightarrow> bool" where
  "same_window w v \<longleftrightarrow> active v = active w \<and> canvas v = canvas w \<and> width v = width w \<and> height v = height w \<and>
     wflags v = wflags w \<and> owner_task v = owner_task w"

definition shaped :: "kwm \<Rightarrow> kwm \<Rightarrow> bool" where
  "shaped s s' \<longleftrightarrow> length (kwm_windows s') = length (kwm_windows s) \<and> (\<forall>i < length (kwm_windows s). same_window (win s i) (win s' i)) \<and>
     disp s' = disp s \<and> focused_win_id s' = focused_win_id s \<and> dragged_win_id s' = dragged_win_id s \<and> fb_width s' = fb_width s \<and>
     fb_height s' = fb_height s"

lemma same_window_refl [simp]: "same_window w w"
  by (simp add: same_window_def)

lemma shaped_refl [simp]: "shaped s s"
  by (simp add: shaped_def)

lemma shaped_trans: "shaped s s1 \<Longrightarrow> shaped s1 s2 \<Longrightarrow> shaped s s2"
  by (auto simp: shaped_def same_window_def)

lemma same_window_preds:
  assumes "same_window w v"
  shows "is_desktop v = is_desktop w" "on_stack v = on_stack w" "tb_of v = tb_of w" "window_ok d v r = window_ok d w r"
  using assms by (simp_all add: same_window_def is_desktop_def on_stack_def tb_of_def window_ok_def)

lemma slot_ok_shaped:
  assumes "shaped s s'" "length (kwm_windows s) = MAX_WINDOWS"
  shows "slot_ok (kwm_windows s') f = slot_ok (kwm_windows s) f"
proof (cases "valid_win f")
  case True
  then have "same_window (win s (nat f)) (win s' (nat f))" using assms valid_win_nat [OF True] by (simp add: shaped_def)
  then show ?thesis using same_window_preds(2) by (simp add: slot_ok_def)
qed (simp add: slot_ok_def)

lemma shaped_set_win: "same_window (win s i) w \<Longrightarrow> shaped s (set_win s i w)"
  by (auto simp: shaped_def nth_list_update_if)

lemma shaped_fields:
  "shaped s (s\<lparr>screen_dirty := l\<rparr>)" "shaped s (s\<lparr>next_z_index := z\<rparr>)" "shaped s (s\<lparr>events := e\<rparr>)" "shaped s (s\<lparr>alt_tab_active := b\<rparr>)"
  by (simp_all add: shaped_def)

lemma inv_shaped:
  assumes inv: "kwm_inv s R" and sh: "shaped s s'"
  shows "kwm_inv s' R"
proof -
  note l = kwm_invD(1) [OF inv]
  have w: "same_window (win s i) (win s' i)" if "i < MAX_WINDOWS" for i using sh l that by (simp add: shaped_def)
  have so: "slot_ok (kwm_windows s') f = slot_ok (kwm_windows s) f" for f by (rule slot_ok_shaped [OF sh l])
  have ac: "active (win s' i) = active (win s i)" if "i < MAX_WINDOWS" for i using w [OF that] by (simp add: same_window_def)
  have f: "disp s' = disp s" "focused_win_id s' = focused_win_id s" "dragged_win_id s' = dragged_win_id s" "length (kwm_windows s') = MAX_WINDOWS"
    using sh l by (simp_all add: shaped_def)
  show ?thesis
    using inv f ac same_window_preds [OF w] so unfolding kwm_inv_def by simp
qed

lemma mark_shaped: "shaped s (screen_mark_dirty s x y w h)"
  by (simp add: screen_mark_dirty_def shaped_fields)

lemma area_shaped: "shaped s (frame_dirty_area s x y w h)"
  by (simp add: frame_dirty_area_def Let_def mark_shaped)

lemma frame_shaped: "shaped s (kwm_frame_dirty s i)"
  by (simp add: kwm_frame_dirty_def Let_def area_shaped)

lemma raise_shaped: "shaped s (raise_window s i)"
  unfolding raise_window_def
  by (rule shaped_trans [OF shaped_set_win shaped_fields(2)]) (simp add: same_window_def)

lemma normalize_shaped: "shaped s (kwm_normalize_zindex s)"
proof -
  have "shaped s (fold (\<lambda>i s. set_win s (o1 i) (win s (o1 i)\<lparr>z_index := of_nat (i + 1)\<rparr>)) is s)" for o1 "is"
  proof (induction "is" arbitrary: s)
    case (Cons a "is")
    have "shaped s (set_win s (o1 a) (win s (o1 a)\<lparr>z_index := of_nat (a + 1)\<rparr>))" by (rule shaped_set_win) (simp add: same_window_def)
    from shaped_trans [OF this Cons.IH] show ?case by simp
  qed simp
  then show ?thesis unfolding kwm_normalize_zindex_def Let_def by (rule shaped_trans [OF _ shaped_fields(2)])
qed

lemma past_shaped: "shaped s (normalize_if_past s)"
  by (simp add: normalize_if_past_def normalize_shaped)

lemmas shaped_steps = mark_shaped area_shaped frame_shaped raise_shaped past_shaped

text \<open>Focus and drag may be set to any suitable slot.\<close>

lemma inv_focus: "kwm_inv s R \<Longrightarrow> slot_ok (kwm_windows s) f \<Longrightarrow> kwm_inv (s\<lparr>focused_win_id := f\<rparr>) R"
  by (simp add: kwm_inv_def)

lemma inv_drag: "kwm_inv s R \<Longrightarrow> slot_ok (kwm_windows s) f \<Longrightarrow> kwm_inv (s\<lparr>dragged_win_id := f, drag_offset_x := x, drag_offset_y := y\<rparr>) R"
  by (simp add: kwm_inv_def)

lemma slot_ok_int: "i < MAX_WINDOWS \<Longrightarrow> on_stack (ws ! i) \<Longrightarrow> slot_ok ws (int i)" "slot_ok ws (- 1)"
  by (simp_all add: slot_ok_def valid_win_def)

lemma refocus_slot_ok: "slot_ok (kwm_windows s) (refocus_loop s [0..<MAX_WINDOWS] 0 (- 1))"
  unfolding refocus_loop_scan
  by (rule max_scan_cases [of "\<lambda>i. on_stack (win s i)" "\<lambda>i. uint (z_index (win s i))" "[0..<MAX_WINDOWS]" "uint (0 :: u32)" "- 1"])
    (use slot_ok_int in \<open>auto simp del: upt_Suc\<close>)

lemma topmost_slot_ok: "slot_ok (kwm_windows s) (topmost_loop s [0..<MAX_WINDOWS] (- 1) (- 1))"
  unfolding topmost_loop_scan
  by (rule max_scan_cases [of "\<lambda>i. on_stack (win s i)" "\<lambda>i. sint (z_index (win s i))" "[0..<MAX_WINDOWS]" "- 1" "- 1"])
    (use slot_ok_int in \<open>auto simp del: upt_Suc\<close>)

lemma hit_test_cases:
  obtains (miss) "kwm_hit_test s px py = - 1"
      "\<forall>i < MAX_WINDOWS. active (win s i) \<and> in_frame (win s i) px py \<longrightarrow> sint (z_index (win s i)) < 0"
  | (hit) i where "kwm_hit_test s px py = int i" "i < MAX_WINDOWS" "active (win s i)" "in_frame (win s i) px py"
      "\<forall>j < MAX_WINDOWS. active (win s j) \<and> in_frame (win s j) px py \<longrightarrow> sint (z_index (win s j)) \<le> sint (z_index (win s i))"
proof -
  let ?P = "\<lambda>i. active (win s i) \<and> in_frame (win s i) px py" and ?k = "\<lambda>i. sint (z_index (win s i))"
  have h: "kwm_hit_test s px py = max_scan ?P ?k [0..<MAX_WINDOWS] (- 1) (- 1)" unfolding kwm_hit_test_def hit_loop_scan ..
  show thesis
  proof (cases rule: max_scan_cases [of ?P ?k "[0..<MAX_WINDOWS]" "- 1" "- 1"])
    case none
    have "?k i < 0" if "i < MAX_WINDOWS" "?P i" for i using none(2) that by (auto simp del: upt_Suc)
    with none(1) h show ?thesis by (intro miss) auto
  next
    case (best i)
    with h show ?thesis by (intro hit [of i]) (auto simp del: upt_Suc)
  qed
qed

end
