(* ===== verification/Kwm_Steps.thy ===== *)
theory Kwm_Steps
  imports Kwm_Invariant
begin

text \<open>
  Every operation of the window manager returns without a panic, keeps the invariant and takes
  from or gives back to the kernel heap exactly the canvases of its windows.
\<close>

section \<open>Releasing a slot\<close>

text \<open>The invariant apart from the focus, as it holds between freeing a slot and refocusing.\<close>

abbreviation kwm_core :: "kwm \<Rightarrow> (nat \<Rightarrow> (nat \<times> nat) set) \<Rightarrow> bool" where
  "kwm_core s R \<equiv> kwm_inv (s\<lparr>focused_win_id := - 1\<rparr>) R"

lemma core_inv: "kwm_inv s R \<Longrightarrow> kwm_core s R" "kwm_core s R \<Longrightarrow> slot_ok (kwm_windows s) (focused_win_id s) \<Longrightarrow> kwm_inv s R"
  by (simp_all add: kwm_inv_def slot_ok_int)

lemma owned_heap [simp]: "owned_buffer (d\<lparr>heap := h\<rparr>) c r = owned_buffer d c r"
  by (simp add: owned_buffer_def)

lemma window_ok_live: "window_ok d w r \<Longrightarrow> r \<subseteq> live (heap d)"
  by (auto simp: window_ok_def split: if_splits)

lemma owned_in: "owned_buffer d c r \<Longrightarrow> \<exists>n. (c, n) \<in> r"
  by (auto simp: owned_buffer_def)

lemma free_slot_spec:
  assumes inv: "kwm_core s R" and i: "i < MAX_WINDOWS" "active (win s i)"
  obtains s' where "kwm_free_slot s i = Some (Ret (), s')" "kwm_core s' (R(i := {}))" "live (heap (disp s')) = live (heap (disp s)) - R i"
    "\<forall>j. j \<noteq> i \<longrightarrow> win s' j = win s j" "\<not> active (win s' i)" "focused_win_id s' = focused_win_id s" "bufs (disp s') = bufs (disp s)"
    "pix (disp s') = pix (disp s)" "fb_width s' = fb_width s" "fb_height s' = fb_height s"
proof -
  note D = kwm_invD [OF inv, simplified]
  have wo: "window_ok (disp s) (win s i) (R i)" by (rule D(3) [OF i(1)])
  then obtain c where c: "canvas (win s i) = Some c" "owned_buffer (disp s) c (R i)" "R i \<subseteq> live (heap (disp s))"
    using i(2) by (auto simp: window_ok_def)
  obtain h where h: "display_buffer_destroy (disp s) (Some c) = Some (Ret (), (disp s)\<lparr>heap := h\<rparr>)" "heap_inv h"
      "live h = live (heap (disp s)) - R i"
    using display_destroy_spec [OF D(2) c(2,3)] by blast
  define s' where "s' = (set_win (s\<lparr>disp := (disp s)\<lparr>heap := h\<rparr>\<rparr>) i
      (win s i\<lparr>canvas := None, active := False, owner_task := - 1, wflags := 0, title := (title (win s i))[0 := 0]\<rparr>))
        \<lparr>dragged_win_id := (if dragged_win_id s = int i then - 1 else dragged_win_id s)\<rparr>"
  have call: "kwm_free_slot s i = Some (Ret (), s')" using h(1) c(1) by (simp add: kwm_free_slot_def s'_def)
  have other: "win s' j = win s j" if "j \<noteq> i" for j using that by (simp add: s'_def)
  have self: "\<not> active (win s' i)" "canvas (win s' i) = None" using i(1) D(1) by (simp_all add: s'_def)
  have dr: "slot_ok (kwm_windows s') (dragged_win_id s')"
  proof (cases "dragged_win_id s = int i \<or> dragged_win_id s = - 1")
    case True
    then show ?thesis by (auto simp: s'_def slot_ok_int)
  next
    case False
    then have v: "valid_win (dragged_win_id s)" "on_stack (win s (nat (dragged_win_id s)))" "nat (dragged_win_id s) \<noteq> i"
      using D(6) valid_win_nat(2) by (auto simp: slot_ok_def)
    then show ?thesis using False other [OF v(3)] by (simp add: s'_def slot_ok_def)
  qed
  have wk: "window_ok (disp s') (win s' j) ((R(i := {})) j)" if "j < MAX_WINDOWS" for j
  proof (cases "j = i")
    case True
    then show ?thesis using self by (simp add: window_ok_def)
  next
    case False
    then have "R j \<inter> R i = {}" using D(4) [OF that i(1)] by blast
    moreover have "disp s' = (disp s)\<lparr>heap := h\<rparr>" by (simp add: s'_def)
    ultimately show ?thesis using D(3) [OF that] other [OF False] h(3) False by (auto simp: window_ok_def split: if_splits)
  qed
  have ds: "j = k" if "j < MAX_WINDOWS" "k < MAX_WINDOWS" "active (win s' j)" "is_desktop (win s' j)" "active (win s' k)" "is_desktop (win s' k)" for j k
  proof -
    have "j \<noteq> i" "k \<noteq> i" using that self by auto
    then show ?thesis using D(7) that other by metis
  qed
  have "kwm_core s' (R(i := {}))"
    unfolding kwm_inv_def using D(1,4) h(2) wk dr ds by (auto simp: s'_def slot_ok_int)
  then show thesis by (rule that [OF call]) (use h(3) other self in \<open>auto simp: s'_def\<close>)
qed

section \<open>Entering a window\<close>

lemma enter_window_inv:
  assumes inv: "kwm_inv s R" and i: "i < MAX_WINDOWS" "\<not> active (win s i)"
    and d: "heap_inv (heap d)" "live (heap d) = r \<union> live (heap (disp s))" "owned_buffer d c r"
      "\<forall>q n k. (q, n) \<in> r \<longrightarrow> (q, k) \<notin> live (heap (disp s))" "\<forall>q. q \<noteq> c \<longrightarrow> bufs d q = bufs (disp s) q"
    and s': "disp s' = d" "length (kwm_windows s') = MAX_WINDOWS" "\<forall>j < MAX_WINDOWS. j \<noteq> i \<longrightarrow> same_window (win s j) (win s' j)"
      "active (win s' i)" "canvas (win s' i) = Some c" "width (win s' i) = db_width (bufs d c)" "height (win s' i) = db_height (bufs d c)"
    and dk: "is_desktop (win s' i) \<longrightarrow> (\<forall>j < MAX_WINDOWS. \<not> (active (win s j) \<and> is_desktop (win s j)))"
    and f: "focused_win_id s' = focused_win_id s \<or> focused_win_id s' = int i \<and> \<not> is_desktop (win s' i)" "dragged_win_id s' = dragged_win_id s"
  shows "kwm_inv s' (R(i := r))"
proof -
  note D = kwm_invD [OF inv]
  have so: "slot_ok (kwm_windows s') g" if "slot_ok (kwm_windows s) g" for g
  proof (cases "g = - 1")
    case False
    with that have g: "valid_win g" "on_stack (win s (nat g))" by (auto simp: slot_ok_def)
    then have "nat g \<noteq> i" using i(2) by (auto simp: on_stack_def)
    then have "same_window (win s (nat g)) (win s' (nat g))" using s'(3) valid_win_nat(1) [OF g(1)] by blast
    then show ?thesis using g same_window_preds(2) by (simp add: slot_ok_def)
  qed (simp add: slot_ok_int)
  have wk: "window_ok d (win s' j) ((R(i := r)) j)" if j: "j < MAX_WINDOWS" for j
  proof (cases "j = i")
    case True
    then show ?thesis using s' d by (auto simp: window_ok_def)
  next
    case False
    have w: "window_ok (disp s) (win s' j) (R j)" using D(3) [OF j] s'(3) j False same_window_preds(4) by metis
    show ?thesis
    proof (cases "active (win s' j)")
      case True
      then obtain e where e: "canvas (win s' j) = Some e" "owned_buffer (disp s) e (R j)" "R j \<subseteq> live (heap (disp s))"
          "db_width (bufs (disp s) e) = width (win s' j)" "db_height (bufs (disp s) e) = height (win s' j)"
        using w by (auto simp: window_ok_def)
      have "e \<noteq> c" using owned_in [OF e(2)] owned_in [OF d(3)] e(3) d(4) by blast
      then have "bufs d e = bufs (disp s) e" using d(5) by blast
      then have "owned_buffer d e (R j)" "db_width (bufs d e) = width (win s' j)" "db_height (bufs d e) = height (win s' j)"
        using e by (simp_all add: owned_buffer_def)
      then show ?thesis using True e(1,3) d(2) False by (auto simp: window_ok_def)
    qed (use w False in \<open>simp add: window_ok_def\<close>)
  qed
  have dj: "(R(i := r)) j \<inter> (R(i := r)) k = {}" if jk: "j < MAX_WINDOWS" "k < MAX_WINDOWS" "j \<noteq> k" for j k
  proof -
    have "R m \<inter> r = {}" if "m < MAX_WINDOWS" for m using window_ok_live [OF D(3) [OF that]] d(4) by fastforce
    then show ?thesis using jk D(4) [OF jk] by auto
  qed
  have ds: "j = k" if jk: "j < MAX_WINDOWS" "k < MAX_WINDOWS" "active (win s' j)" "is_desktop (win s' j)" "active (win s' k)" "is_desktop (win s' k)" for j k
  proof -
    have old: "active (win s m) \<and> is_desktop (win s m)" if "m < MAX_WINDOWS" "m \<noteq> i" "active (win s' m)" "is_desktop (win s' m)" for m
    proof -
      have "same_window (win s m) (win s' m)" using s'(3) that(1,2) by blast
      then show ?thesis using that(3,4) by (simp add: same_window_def is_desktop_def)
    qed
    show ?thesis
    proof (cases "j = i \<or> k = i")
      case True
      then show ?thesis using old jk dk by blast
    next
      case False
      then show ?thesis using D(7) [OF jk(1,2)] old jk by blast
    qed
  qed
  have "slot_ok (kwm_windows s') (focused_win_id s')"
    using f(1) so [OF D(5)] slot_ok_int(1) [OF i(1)] s'(4) by (auto simp: on_stack_def)
  moreover have "slot_ok (kwm_windows s') (dragged_win_id s')" using f(2) so [OF D(6)] by simp
  ultimately show ?thesis unfolding kwm_inv_def s'(1) using s'(2) d(1) wk dj ds by blast
qed

section \<open>The operations\<close>

text \<open>Heap regions that do not belong to any window.\<close>

definition foreign :: "kwm \<Rightarrow> (nat \<Rightarrow> (nat \<times> nat) set) \<Rightarrow> (nat \<times> nat) set" where
  "foreign s R = live (heap (disp s)) - (\<Union>i < MAX_WINDOWS. R i)"

lemma foreign_shaped: "shaped s s' \<Longrightarrow> foreign s' R = foreign s R"
  by (simp add: foreign_def shaped_def)

lemma foreign_fields [simp]: "foreign (s\<lparr>focused_win_id := f\<rparr>) R = foreign s R"
  "foreign (s\<lparr>dragged_win_id := f, drag_offset_x := x, drag_offset_y := y\<rparr>) R = foreign s R" "foreign (s\<lparr>dragged_win_id := f\<rparr>) R = foreign s R"
  by (simp_all add: foreign_def)

definition kwm_room :: "kwm \<Rightarrow> bool" where
  "kwm_room s \<longleftrightarrow> current_heap_end (heap (disp s)) + 16777216 + 4 * unat (fb_width s) * unat (fb_height s) + 65536 < W64"

lemma canvas_small:
  assumes "\<not> (w > KWM_MAX_DIMENSION \<or> h > KWM_MAX_DIMENSION)" "\<not> ucast w * ucast h * 4 > KWM_MAX_CANVAS_BYTES"
  shows "4 * unat w * unat h \<le> 16777216"
proof -
  have "unat w \<le> 4096" "unat h \<le> 4096" using assms(1) by (simp_all add: not_less word_le_nat_alt)
  then have "unat w * unat h \<le> 4096 * 4096" by (intro mult_le_mono)
  then have lt: "4 * unat w * unat h < W64" unfolding mult.assoc by linarith
  show ?thesis
  proof (cases "w = 0")
    case False
    from canvas_bytes(1) [OF lt this] show ?thesis using assms(2) by (simp add: not_less word_le_nat_alt)
  qed simp
qed

lemma find_free_slot: "find (\<lambda>i. \<not> active (win s i)) [0..<MAX_WINDOWS] = Some i \<Longrightarrow> i < MAX_WINDOWS \<and> \<not> active (win s i)"
  unfolding find_upt_Some by blast

definition kept :: "kwm \<Rightarrow> (nat \<Rightarrow> (nat \<times> nat) set) \<Rightarrow> kwm \<Rightarrow> bool" where
  "kept s R s' \<longleftrightarrow> (\<exists>R'. kwm_inv s' R' \<and> foreign s' R' = foreign s R)"

lemma kept_refl: "kwm_inv s R \<Longrightarrow> kept s R s"
  by (auto simp: kept_def)

lemma kept_shaped: "kept s R s1 \<Longrightarrow> shaped s1 s2 \<Longrightarrow> kept s R s2"
  unfolding kept_def using inv_shaped foreign_shaped by metis

lemma foreign_enter:
  assumes "live (heap (disp s')) = r \<union> live (heap (disp s))" "\<forall>q n k. (q, n) \<in> r \<longrightarrow> (q, k) \<notin> live (heap (disp s))"
    and "R i = {}" "i < MAX_WINDOWS"
  shows "foreign s' (R(i := r)) = foreign s R"
proof -
  have "(\<Union>j < MAX_WINDOWS. (R(i := r)) j) = r \<union> (\<Union>j < MAX_WINDOWS. R j)" using assms(3,4) by auto
  moreover have "r \<inter> live (heap (disp s)) = {}" using assms(2) by auto
  ultimately show ?thesis using assms(1) by (auto simp: foreign_def)
qed

lemma kept_disp:
  assumes inv: "kwm_inv s R" and d: "heap_inv (heap d)" "live (heap d) = live (heap (disp s))" "bufs d = bufs (disp s)"
  shows "kept s R (s\<lparr>disp := d\<rparr>)"
proof -
  have "owned_buffer d c r = owned_buffer (disp s) c r" for c r using d(3) by (simp add: owned_buffer_def)
  then have "window_ok d w r = window_ok (disp s) w r" for w r using d(2,3) by (simp add: window_ok_def)
  then have "kwm_inv (s\<lparr>disp := d\<rparr>) R" using inv d(1) by (simp add: kwm_inv_def)
  moreover have "foreign (s\<lparr>disp := d\<rparr>) R = foreign s R" using d(2) by (simp add: foreign_def)
  ultimately show ?thesis unfolding kept_def by blast
qed

lemma create_window_keeps:
  assumes inv: "kwm_inv s R" and room: "kwm_room s"
  shows "\<exists>r s'. kwm_create_window s me x y w h = Some (Ret r, s') \<and> kept s R s'"
proof -
  note call = kwm_create_window_def [of s me x y w h]
  consider "w = 0 \<or> h = 0 \<or> w > KWM_MAX_DIMENSION \<or> h > KWM_MAX_DIMENSION \<or> ucast w * ucast h * 4 > KWM_MAX_CANVAS_BYTES \<or>
      find (\<lambda>i. \<not> active (win s i)) [0..<MAX_WINDOWS] = None"
    | i where "w \<noteq> 0" "h \<noteq> 0" "\<not> (w > KWM_MAX_DIMENSION \<or> h > KWM_MAX_DIMENSION)" "\<not> ucast w * ucast h * 4 > KWM_MAX_CANVAS_BYTES"
      "find (\<lambda>i. \<not> active (win s i)) [0..<MAX_WINDOWS] = Some i" by (cases "find (\<lambda>i. \<not> active (win s i)) [0..<MAX_WINDOWS]") blast+
  then show ?thesis
  proof cases
    case 1
    then show ?thesis using kept_refl [OF inv] by (auto simp: call simp del: upt_Suc)
  next
    case (2 i)
    note ii = find_free_slot [OF 2(5)] and cl = call 2(1,2,5)
    have c: "\<not> (w = 0 \<or> h = 0 \<or> w > KWM_MAX_DIMENSION \<or> h > KWM_MAX_DIMENSION)" using 2(1-3) by blast
    have rm: "current_heap_end (heap (disp s)) + 4 * unat w * unat h + 65536 < W64"
      using canvas_small [OF 2(3,4)] room unfolding kwm_room_def by linarith
    note call' = call [unfolded if_not_P [OF c] if_not_P [OF 2(4)] 2(5) option.case(2)]
    from kwm_invD(2) [OF inv] 2(1,2) rm show ?thesis
    proof (cases rule: display_create_spec)
      case (none d)
      then show ?thesis using kept_disp [OF inv none(2-4)] by (auto simp: call')
    next
      case (some d p r)
      define s1 where "s1 = set_win (s\<lparr>disp := d\<rparr>) i (win s i\<lparr>win_x := x, win_y := y, width := w, height := h, canvas := Some p, owner_task := me\<rparr>)"
      define s2 where "s2 = normalize_if_past (raise_window s1 i)"
      define s3 where "s3 = set_win s2 i (win s2 i\<lparr>wflags := 0, title := (title (win s2 i))[0 := 0], active := True\<rparr>)"
      define s4 where "s4 = kwm_frame_dirty (s3\<lparr>focused_win_id := int i\<rparr>) (int i)"
      define s5 where "s5 = (if focused_win_id s3 \<ge> 0 \<and> focused_win_id s3 \<noteq> int i then kwm_frame_dirty s4 (focused_win_id s3) else s4)"
      have res: "kwm_create_window s me x y w h = Some (Ret (int i), s5)"
        unfolding call' some(1) s1_def s2_def s3_def s4_def s5_def Let_def by simp
      have sh: "shaped s1 s2" unfolding s2_def by (rule shaped_trans [OF raise_shaped past_shaped])
      note l = kwm_invD(1) [OF inv]
      let ?s = "s3\<lparr>focused_win_id := int i\<rparr>"
      have l1: "length (kwm_windows s1) = MAX_WINDOWS" using l by (simp add: s1_def)
      have w2: "same_window (win s1 j) (win s2 j)" if "j < MAX_WINDOWS" for j using sh l1 that by (simp add: shaped_def)
      have "kwm_inv ?s (R(i := r))"
      proof (rule enter_window_inv [OF inv, where d = d and c = p])
        show "\<forall>j < MAX_WINDOWS. j \<noteq> i \<longrightarrow> same_window (win s j) (win ?s j)"
        proof (intro allI impI)
          fix j assume j: "j < MAX_WINDOWS" "j \<noteq> i"
          then show "same_window (win s j) (win ?s j)" using w2 [OF j(1)] by (simp add: s3_def s1_def)
        qed
        show "canvas (win ?s i) = Some p" "width (win ?s i) = db_width (bufs d p)" "height (win ?s i) = db_height (bufs d p)"
          using w2 [of i] ii l sh l1 some(8,9) by (simp_all add: s3_def s1_def shaped_def same_window_def)
        show "active (win ?s i)" "is_desktop (win ?s i) \<longrightarrow> (\<forall>j < MAX_WINDOWS. \<not> (active (win s j) \<and> is_desktop (win s j)))"
          "focused_win_id ?s = focused_win_id s \<or> focused_win_id ?s = int i \<and> \<not> is_desktop (win ?s i)"
          using ii sh l1 by (simp_all add: s3_def shaped_def is_desktop_def)
        show "disp ?s = d" "length (kwm_windows ?s) = MAX_WINDOWS" "dragged_win_id ?s = dragged_win_id s"
          using sh l1 by (simp_all add: s3_def shaped_def s1_def)
      qed (use ii some in auto)
      moreover have "foreign ?s (R(i := r)) = foreign s R"
        by (rule foreign_enter) (use some sh ii kwm_invD(3) [OF inv, of i] in \<open>auto simp: s3_def shaped_def s1_def window_ok_def\<close>)
      ultimately have "kept s R ?s" unfolding kept_def by blast
      then have "kept s R s4" unfolding s4_def by (rule kept_shaped) (rule frame_shaped)
      then have "kept s R s5" unfolding s5_def using kept_shaped frame_shaped by auto
      with res show ?thesis by blast
    qed
  qed
qed

lemma create_desktop_keeps:
  assumes inv: "kwm_inv s R" and room: "kwm_room s"
  shows "\<exists>r s'. kwm_create_desktop s me = Some (Ret r, s') \<and> kept s R s'"
proof -
  note call = kwm_create_desktop_def [of s me]
  let ?dk = "\<exists>i \<in> set [0..<MAX_WINDOWS]. active (win s i) \<and> is_desktop (win s i)"
  consider "?dk \<or> fb_width s = 0 \<or> fb_height s = 0 \<or> find (\<lambda>i. \<not> active (win s i)) [0..<MAX_WINDOWS] = None"
    | i where "\<not> ?dk" "fb_width s \<noteq> 0" "fb_height s \<noteq> 0" "find (\<lambda>i. \<not> active (win s i)) [0..<MAX_WINDOWS] = Some i"
    by (cases "find (\<lambda>i. \<not> active (win s i)) [0..<MAX_WINDOWS]") blast+
  then show ?thesis
  proof cases
    case 1
    then show ?thesis using kept_refl [OF inv] by (auto simp: call simp del: upt_Suc)
  next
    case (2 i)
    note ii = find_free_slot [OF 2(4)]
    have c: "\<not> (fb_width s = 0 \<or> fb_height s = 0)" using 2(2,3) by blast
    have rm: "current_heap_end (heap (disp s)) + 4 * unat (fb_width s) * unat (fb_height s) + 65536 < W64"
      using room unfolding kwm_room_def by linarith
    note call' = call [unfolded if_not_P [OF 2(1)] if_not_P [OF c] 2(4) option.case(2)]
    from kwm_invD(2) [OF inv] 2(2,3) rm show ?thesis
    proof (cases rule: display_create_spec)
      case (none d)
      then show ?thesis using kept_disp [OF inv none(2-4)] by (auto simp: call')
    next
      case (some d p r)
      define s1 where "s1 = set_win (s\<lparr>disp := d\<rparr>) i
        (win s i\<lparr>win_x := 0, win_y := 0, width := fb_width s, height := fb_height s, canvas := Some p, owner_task := me,
           z_index := 0, wflags := 1, title := (title (win s i))[0 := 0], active := True\<rparr>)"
      have res: "kwm_create_desktop s me = Some (Ret (int i), screen_mark_dirty s1 0 0 (fb_width s) (fb_height s))"
        unfolding call' some(1) s1_def Let_def by simp
      have nodk: "\<forall>j < MAX_WINDOWS. \<not> (active (win s j) \<and> is_desktop (win s j))" using 2(1) by (auto simp del: upt_Suc)
      have "kwm_inv s1 (R(i := r))"
        by (rule enter_window_inv [OF inv, where d = d and c = p])
          (use ii some nodk kwm_invD(1) [OF inv] in \<open>auto simp: s1_def\<close>)
      moreover have "foreign s1 (R(i := r)) = foreign s R"
        by (rule foreign_enter) (use some ii kwm_invD(3) [OF inv, of i] in \<open>auto simp: s1_def window_ok_def\<close>)
      ultimately have "kept s R s1" unfolding kept_def by blast
      from kept_shaped [OF this mark_shaped] res show ?thesis by blast
    qed
  qed
qed

lemma foreign_free:
  assumes inv: "kwm_core s R" and i: "i < MAX_WINDOWS" and l: "live (heap (disp s')) = live (heap (disp s)) - R i"
  shows "foreign s' (R(i := {})) = foreign s R"
proof -
  have "(\<Union>j < MAX_WINDOWS. R j) = R i \<union> (\<Union>j < MAX_WINDOWS. (R(i := {})) j)" using i by (auto split: if_splits)
  then show ?thesis using l by (auto simp: foreign_def)
qed

lemma refocus_kept:
  assumes "kwm_core s1 R1" "foreign s1 R1 = foreign s R"
  shows "kept s R (kwm_refocus s1)"
proof -
  have "kwm_inv (kwm_refocus s1) R1" unfolding kwm_refocus_def using inv_focus [OF assms(1), of "refocus_loop s1 [0..<MAX_WINDOWS] 0 (- 1)"] refocus_slot_ok by simp
  then show ?thesis unfolding kept_def using assms(2) by (auto simp: kwm_refocus_def)
qed

lemma destroy_window_keeps:
  assumes inv: "kwm_inv s R"
  shows "\<exists>s'. kwm_destroy_window s win_id = Some (Ret (), s') \<and> kept s R s'"
proof (cases "\<not> valid_win win_id \<or> \<not> active (win s (nat win_id))")
  case True
  then show ?thesis using kept_refl [OF inv] by (simp add: kwm_destroy_window_def)
next
  case False
  let ?i = "nat win_id" and ?w = "win s (nat win_id)"
  note vi = valid_win_nat [of win_id]
  obtain s1 where s1: "kwm_free_slot s ?i = Some (Ret (), s1)" "kwm_core s1 (R(?i := {}))" "live (heap (disp s1)) = live (heap (disp s)) - R ?i"
      "\<forall>j. j \<noteq> ?i \<longrightarrow> win s1 j = win s j" "focused_win_id s1 = focused_win_id s"
    using free_slot_spec [OF core_inv(1) [OF inv], of ?i] vi(1) False by metis
  have fo: "foreign s1 (R(?i := {})) = foreign s R" by (rule foreign_free [OF core_inv(1) [OF inv] _ s1(3)]) (use vi(1) False in blast)
  define s2 where "s2 = (if focused_win_id s = win_id then kwm_refocus s1 else s1)"
  define s3 where "s3 = frame_dirty_area s2 (win_x ?w) (win_y ?w) (width ?w) (height ?w + KWM_TITLEBAR_H)"
  have res: "kwm_destroy_window s win_id = Some (Ret (),
      if focused_win_id s = win_id \<and> focused_win_id s2 \<ge> 0 then kwm_frame_dirty s3 (focused_win_id s2) else s3)"
    using False s1(1) by (simp add: kwm_destroy_window_def Let_def s2_def s3_def)
  have "kept s R s2"
  proof (cases "focused_win_id s = win_id")
    case True
    then show ?thesis unfolding s2_def using refocus_kept [OF s1(2) fo] by simp
  next
    case ne: False
    have "slot_ok (kwm_windows s1) (focused_win_id s1)"
    proof (cases "focused_win_id s = - 1")
      case True
      then show ?thesis using s1(5) by (simp add: slot_ok_int)
    next
      case f: False
      then have v: "valid_win (focused_win_id s)" "on_stack (win s (nat (focused_win_id s)))" using kwm_invD(5) [OF inv] by (auto simp: slot_ok_def)
      then have "nat (focused_win_id s) \<noteq> ?i" using ne False valid_win_nat(2) by metis
      then show ?thesis using s1(4,5) v by (simp add: slot_ok_def)
    qed
    from core_inv(2) [OF s1(2) this] ne fo show ?thesis unfolding s2_def kept_def by auto
  qed
  then have "kept s R s3" unfolding s3_def by (rule kept_shaped) (rule area_shaped)
  then show ?thesis using res kept_shaped frame_shaped by auto
qed

definition doomed :: "kwm \<Rightarrow> (kwm_window \<Rightarrow> bool) \<Rightarrow> nat list \<Rightarrow> nat \<Rightarrow> bool" where
  "doomed s P is i \<longleftrightarrow> i \<in> set is \<and> active (win s i) \<and> P (win s i)"

lemma free_slots_spec:
  assumes "kwm_core s R" "distinct is" "\<forall>i \<in> set is. i < MAX_WINDOWS"
  shows "\<exists>s'. free_slots s P is fd = Some (Ret (fd \<or> (\<exists>i. doomed s P is i \<and> focused_win_id s = int i)), s') \<and>
    kwm_core s' (\<lambda>i. if doomed s P is i then {} else R i) \<and> live (heap (disp s')) = live (heap (disp s)) - (\<Union>i \<in> Collect (doomed s P is). R i) \<and>
    (\<forall>i. if doomed s P is i then \<not> active (win s' i) else win s' i = win s i) \<and> focused_win_id s' = focused_win_id s \<and>
    foreign s' (\<lambda>i. if doomed s P is i then {} else R i) = foreign s R"
  using assms
proof (induction "is" arbitrary: s R fd)
  case Nil
  then show ?case by (simp add: doomed_def)
next
  case (Cons i "is")
  show ?case
  proof (cases "active (win s i) \<and> P (win s i)")
    case False
    then have d: "doomed s P (i # is) = doomed s P is" "free_slots s P (i # is) fd = free_slots s P is fd" by (auto simp: doomed_def fun_eq_iff)
    show ?thesis unfolding d using Cons.IH [OF Cons.prems(1)] Cons.prems(2,3) by simp
  next
    case True
    have i: "i < MAX_WINDOWS" "i \<notin> set is" using Cons.prems by auto
    obtain s1 where s1: "kwm_free_slot s i = Some (Ret (), s1)" "kwm_core s1 (R(i := {}))" "live (heap (disp s1)) = live (heap (disp s)) - R i"
        "\<forall>j. j \<noteq> i \<longrightarrow> win s1 j = win s j" "\<not> active (win s1 i)" "focused_win_id s1 = focused_win_id s"
      using free_slot_spec [OF Cons.prems(1) i(1)] True by metis
    have d: "doomed s P (i # is) j \<longleftrightarrow> j = i \<or> doomed s1 P is j" for j using True i(2) s1(4) by (auto simp: doomed_def)
    have di: "\<not> doomed s1 P is i" using i(2) by (simp add: doomed_def)
    have Req: "(\<lambda>j. if doomed s1 P is j then {} else (R(i := {})) j) = (\<lambda>j. if doomed s P (i # is) j then {} else R j)"
      using d di by (auto simp: fun_eq_iff)
    have U: "(\<Union>j \<in> Collect (doomed s P (i # is)). R j) = R i \<union> (\<Union>j \<in> Collect (doomed s1 P is). (R(i := {})) j)"
      using d di by auto
    have fo: "foreign s1 (R(i := {})) = foreign s R" by (rule foreign_free [OF Cons.prems(1) i(1) s1(3)])
    obtain s' where s': "free_slots s1 P is (fd \<or> focused_win_id s = int i) =
        Some (Ret ((fd \<or> focused_win_id s = int i) \<or> (\<exists>j. doomed s1 P is j \<and> focused_win_id s1 = int j)), s')"
        "kwm_core s' (\<lambda>j. if doomed s P (i # is) j then {} else R j)"
        "live (heap (disp s')) = live (heap (disp s1)) - (\<Union>j \<in> Collect (doomed s1 P is). (R(i := {})) j)"
        "\<forall>j. if doomed s1 P is j then \<not> active (win s' j) else win s' j = win s1 j" "focused_win_id s' = focused_win_id s1"
        "foreign s' (\<lambda>j. if doomed s P (i # is) j then {} else R j) = foreign s R"
      using Cons.IH [OF s1(2), of "fd \<or> focused_win_id s = int i"] Cons.prems(2,3) unfolding Req fo by auto
    have "free_slots s P (i # is) fd = Some (Ret (fd \<or> (\<exists>j. doomed s P (i # is) j \<and> focused_win_id s = int j)), s')"
      using True s1(1,6) s'(1) d by auto
    moreover have "\<forall>j. if doomed s P (i # is) j then \<not> active (win s' j) else win s' j = win s j"
      using s'(4) s1(4,5) d di by metis
    ultimately show ?thesis using s'(2,3,5,6) s1(3,6) U by auto
  qed
qed

lemma free_all_slots:
  assumes "kwm_core s R"
  shows "\<exists>s'. free_slots s P [0..<MAX_WINDOWS] False = Some (Ret (\<exists>i. doomed s P [0..<MAX_WINDOWS] i \<and> focused_win_id s = int i), s') \<and>
    kwm_core s' (\<lambda>i. if doomed s P [0..<MAX_WINDOWS] i then {} else R i) \<and>
    live (heap (disp s')) = live (heap (disp s)) - (\<Union>i \<in> Collect (doomed s P [0..<MAX_WINDOWS]). R i) \<and>
    (\<forall>i. if doomed s P [0..<MAX_WINDOWS] i then \<not> active (win s' i) else win s' i = win s i) \<and> focused_win_id s' = focused_win_id s \<and>
    foreign s' (\<lambda>i. if doomed s P [0..<MAX_WINDOWS] i then {} else R i) = foreign s R"
proof -
  have "distinct [0..<MAX_WINDOWS]" "\<forall>i \<in> set [0..<MAX_WINDOWS]. i < MAX_WINDOWS" by (simp_all del: upt_Suc)
  from free_slots_spec [OF assms this, of P False] show ?thesis by simp
qed

text \<open>After the loop, the focus is kept when its window survived and moved otherwise.\<close>

lemma refocus_after:
  assumes inv: "kwm_inv s R" and core: "kwm_core s1 R1"
    and w: "\<forall>i. if gone i then \<not> active (win s1 i) else win s1 i = win s i" and f: "focused_win_id s1 = focused_win_id s"
    and s2: "s2 = (if \<exists>i. gone i \<and> focused_win_id s = int i then kwm_refocus s1 else s1)"
  shows "kwm_inv s2 R1" "(\<nexists>i. gone i \<and> focused_win_id s = int i) \<Longrightarrow> focused_win_id s2 = focused_win_id s"
proof -
  show "kwm_inv s2 R1"
  proof (cases "\<exists>i. gone i \<and> focused_win_id s = int i")
    case True
    then show ?thesis unfolding s2 kwm_refocus_def using inv_focus [OF core, of "refocus_loop s1 [0..<MAX_WINDOWS] 0 (- 1)"] refocus_slot_ok by simp
  next
    case False
    have "slot_ok (kwm_windows s1) (focused_win_id s1)"
    proof (cases "focused_win_id s = - 1")
      case True
      then show ?thesis using f by (simp add: slot_ok_int)
    next
      case nf: False
      then have v: "valid_win (focused_win_id s)" "on_stack (win s (nat (focused_win_id s)))" using kwm_invD(5) [OF inv] by (auto simp: slot_ok_def)
      then have "win s1 (nat (focused_win_id s)) = win s (nat (focused_win_id s))" using w False valid_win_nat(2) by metis
      then show ?thesis using f v by (simp add: slot_ok_def)
    qed
    then show ?thesis using core_inv(2) [OF core] False s2 by auto
  qed
  show "(\<nexists>i. gone i \<and> focused_win_id s = int i) \<Longrightarrow> focused_win_id s2 = focused_win_id s" using s2 f by auto
qed

lemma destroy_of_spec:
  assumes inv: "kwm_inv s R"
  obtains s' where "kwm_destroy_windows_of s t = Some (Ret (), s')"
    "kwm_inv s' (\<lambda>i. if doomed s (\<lambda>w. owner_task w = t) [0..<MAX_WINDOWS] i then {} else R i)"
    "live (heap (disp s')) = live (heap (disp s)) - (\<Union>i \<in> Collect (doomed s (\<lambda>w. owner_task w = t) [0..<MAX_WINDOWS]). R i)"
    "\<forall>i. if doomed s (\<lambda>w. owner_task w = t) [0..<MAX_WINDOWS] i then \<not> active (win s' i) else win s' i = win s i"
    "(\<nexists>i. doomed s (\<lambda>w. owner_task w = t) [0..<MAX_WINDOWS] i \<and> focused_win_id s = int i) \<longrightarrow> focused_win_id s' = focused_win_id s"
    "foreign s' (\<lambda>i. if doomed s (\<lambda>w. owner_task w = t) [0..<MAX_WINDOWS] i then {} else R i) = foreign s R"
proof -
  let ?g = "doomed s (\<lambda>w. owner_task w = t) [0..<MAX_WINDOWS]" and ?R = "\<lambda>i. if doomed s (\<lambda>w. owner_task w = t) [0..<MAX_WINDOWS] i then {} else R i"
  obtain s1 where s1: "free_slots s (\<lambda>w. owner_task w = t) [0..<MAX_WINDOWS] False = Some (Ret (\<exists>i. ?g i \<and> focused_win_id s = int i), s1)"
      "kwm_core s1 ?R" "live (heap (disp s1)) = live (heap (disp s)) - (\<Union>i \<in> Collect ?g. R i)"
      "\<forall>i. if ?g i then \<not> active (win s1 i) else win s1 i = win s i" "focused_win_id s1 = focused_win_id s" "foreign s1 ?R = foreign s R"
    using free_all_slots [OF core_inv(1) [OF inv], of "\<lambda>w. owner_task w = t"] by blast
  define s2 where "s2 = (if \<exists>i. ?g i \<and> focused_win_id s = int i then kwm_refocus s1 else s1)"
  note ra = refocus_after [OF inv s1(2,4,5) s2_def]
  define s' where "s' = screen_mark_dirty s2 0 0 (fb_width s) (fb_height s)"
  have sh: "shaped s2 s'" unfolding s'_def by (rule mark_shaped)
  have d2: "disp s2 = disp s1" "kwm_windows s2 = kwm_windows s1" "foreign s2 ?R = foreign s1 ?R" by (simp_all add: s2_def kwm_refocus_def)
  show thesis
  proof (rule that [of s'])
    show "kwm_destroy_windows_of s t = Some (Ret (), s')" unfolding kwm_destroy_windows_of_def s1(1) s'_def s2_def by simp
    show "kwm_inv s' ?R" by (rule inv_shaped [OF ra(1) sh])
    show "live (heap (disp s')) = live (heap (disp s)) - (\<Union>i \<in> Collect ?g. R i)" using s1(3) d2(1) by (simp add: s'_def screen_mark_dirty_def)
    show "\<forall>i. if ?g i then \<not> active (win s' i) else win s' i = win s i" using s1(4) d2(2) by (simp add: s'_def screen_mark_dirty_def)
    show "(\<nexists>i. ?g i \<and> focused_win_id s = int i) \<longrightarrow> focused_win_id s' = focused_win_id s" using ra(2) by (simp add: s'_def screen_mark_dirty_def)
    show "foreign s' ?R = foreign s R" using foreign_shaped [OF sh] s1(6) d2(3) by simp
  qed
qed

lemma destroy_all_keeps:
  assumes inv: "kwm_inv s R"
  shows "\<exists>s'. kwm_destroy_all_windows s = Some (Ret (), s') \<and> kept s R s'"
proof -
  obtain s1 b R1 where s1: "free_slots s (\<lambda>_. True) [0..<MAX_WINDOWS] False = Some (Ret b, s1)" "kwm_core s1 R1" "foreign s1 R1 = foreign s R"
    using free_all_slots [OF core_inv(1) [OF inv], of "\<lambda>_. True"] by blast
  have "kept s R (s1\<lparr>focused_win_id := - 1\<rparr>)" unfolding kept_def using s1(2,3) by auto
  from kept_shaped [OF this mark_shaped] s1(1) show ?thesis by (simp add: kwm_destroy_all_windows_def)
qed

end
