(* ===== verification/Kwm_Theorems.thy ===== *)
theory Kwm_Theorems
  imports Kwm_Steps
begin

text \<open>
  The properties of the window manager: safety of every operation, isolation of tasks, the
  z-order and the routing of input.
\<close>

section \<open>Input and focus\<close>

lemma press_kept:
  assumes inv: "kwm_inv s R" and t: "t = kwm_hit_test s px py"
  shows "kept s R (fst (press_locked s px py t))"
proof -
  show ?thesis
  proof (cases rule: hit_test_cases [of s px py])
    case miss
    then have "fst (press_locked s px py t) = s\<lparr>focused_win_id := - 1\<rparr>" using t by (simp add: press_locked_def)
    then show ?thesis using inv_focus [OF inv slot_ok_int(2)] unfolding kept_def by auto
  next
    case (hit i)
    then have ti: "t = int i" using t by simp
    show ?thesis
    proof (cases "is_desktop (win s i)")
      case True
      then have "fst (press_locked s px py t) = s" using ti by (simp add: press_locked_def)
      then show ?thesis using kept_refl [OF inv] by simp
    next
      case False
      define s2 where "s2 = raise_window (s\<lparr>focused_win_id := int i\<rparr>) i"
      have so: "slot_ok (kwm_windows s) (int i)" using hit False by (intro slot_ok_int) (simp_all add: on_stack_def)
      have i2: "kwm_inv s2 R" unfolding s2_def by (rule inv_shaped [OF inv_focus [OF inv so] raise_shaped])
      have fo: "foreign s2 R = foreign s R" unfolding s2_def using foreign_shaped [OF raise_shaped] by simp
      have so2: "slot_ok (kwm_windows s2) (int i)"
        using slot_ok_shaped [OF raise_shaped, of "s\<lparr>focused_win_id := int i\<rparr>"] so kwm_invD(1) [OF inv] by (simp add: s2_def)
      have b: "kwm_bring_to_front (s\<lparr>focused_win_id := int i\<rparr>) (int i) = s2"
        using hit(2) by (simp add: kwm_bring_to_front_def s2_def valid_win_def)
      have "fst (press_locked s px py t) = s2 \<or>
          (\<exists>x y. fst (press_locked s px py t) = s2\<lparr>dragged_win_id := int i, drag_offset_x := x, drag_offset_y := y\<rparr>)"
        using ti False b by (auto simp: press_locked_def Let_def)
      then show ?thesis
      proof (elim disjE exE)
        assume "fst (press_locked s px py t) = s2"
        then show ?thesis using i2 fo unfolding kept_def by auto
      next
        fix x y assume "fst (press_locked s px py t) = s2\<lparr>dragged_win_id := int i, drag_offset_x := x, drag_offset_y := y\<rparr>"
        then show ?thesis using inv_drag [OF i2 so2] fo unfolding kept_def by auto
      qed
    qed
  qed
qed

lemma drag_shaped: "shaped s (drag_to s i px py)"
  unfolding drag_to_def Let_def
  by (intro shaped_trans [OF shaped_trans [OF shaped_set_win area_shaped] area_shaped]) (simp add: same_window_def)

lemma mouse_kept:
  assumes inv: "kwm_inv s R"
  shows "kept s R (snd (kwm_process_mouse s px py ld lu))"
proof -
  have up: "kept s R (s\<lparr>dragged_win_id := - 1\<rparr>)" using inv unfolding kept_def by (intro exI [of _ R]) (simp add: kwm_inv_def slot_ok_int)
  obtain s1 co sd where p: "press_locked s px py (kwm_hit_test s px py) = (s1, co, sd)" by (metis prod_cases3)
  have k1: "kept s R s1" using press_kept [OF inv refl, of px py] p by simp
  have kf: "kept s R (if b then kwm_frame_dirty s2 f else s2)" if "kept s R s2" for b f s2
    using kept_shaped [OF that frame_shaped] that by simp
  have "kept s R (s1\<lparr>events := e\<rparr>)" for e using kept_shaped [OF k1 shaped_fields(3)] .
  with up kept_refl [OF inv] kept_shaped [OF kept_refl [OF inv] drag_shaped] kf [OF kf [OF k1]] show ?thesis
    unfolding kwm_process_mouse_def p Let_def by simp
qed

lemma cycle_loop_target:
  assumes "cycle_loop s cz is (nz, t) (lz, l) = ((nz', t'), (lz', l'))"
  shows "(t' = t \<or> (\<exists>i \<in> set is. t' = int i \<and> on_stack (win s i))) \<and> (l' = l \<or> (\<exists>i \<in> set is. l' = int i \<and> on_stack (win s i)))"
  using assms
proof (induction "is" arbitrary: nz t lz l)
  case (Cons i "is")
  then show ?case by (fastforce simp: Let_def split: if_splits)
qed simp

lemma cycle_target_ok: "slot_ok (kwm_windows s) (cycle_target s) \<or> cycle_target s < 0"
proof -
  define cz where "cz = (if valid_win (focused_win_id s) \<and> active (win s (nat (focused_win_id s))) then sint (z_index (win s (nat (focused_win_id s)))) else - 1)"
  obtain nz t lz l where c: "cycle_loop s cz [0..<MAX_WINDOWS] (sint (next_z_index s), - 1) (sint (next_z_index s), - 1) = ((nz, t), (lz, l))"
    by (metis prod.collapse)
  have t: "t = - 1 \<or> slot_ok (kwm_windows s) t" "l = - 1 \<or> slot_ok (kwm_windows s) l"
    using cycle_loop_target [OF c] slot_ok_int(1) by (auto simp del: upt_Suc)
  have tt: "cycle_target s = (if cz < 0 then topmost_loop s [0..<MAX_WINDOWS] (- 1) t else if t < 0 then l else t)"
    unfolding cycle_target_def Let_def cz_def [symmetric] c by simp
  have "slot_ok (kwm_windows s) (topmost_loop s [0..<MAX_WINDOWS] (- 1) t) \<or> topmost_loop s [0..<MAX_WINDOWS] (- 1) t < 0"
    unfolding topmost_loop_scan
    by (rule max_scan_cases [of "\<lambda>i. on_stack (win s i)" "\<lambda>i. sint (z_index (win s i))" "[0..<MAX_WINDOWS]" "- 1" t])
      (use slot_ok_int(1) t(1) in \<open>auto simp del: upt_Suc\<close>)
  then show ?thesis unfolding tt using t by auto
qed

lemma cycle_kept:
  assumes inv: "kwm_inv s R"
  shows "kept s R (kwm_cycle_focus s)"
proof (cases "cycle_target s \<ge> 0")
  case True
  let ?s = "normalize_if_past (raise_window s (nat (cycle_target s)))"
  have sh: "shaped s ?s" by (rule shaped_trans [OF raise_shaped past_shaped])
  have "slot_ok (kwm_windows ?s) (cycle_target s)"
    using True cycle_target_ok [of s] slot_ok_shaped [OF sh kwm_invD(1) [OF inv]] by auto
  then have "kwm_inv (?s\<lparr>focused_win_id := cycle_target s\<rparr>) R" by (rule inv_focus [OF inv_shaped [OF inv sh]])
  then show ?thesis unfolding kept_def using True foreign_shaped [OF sh] by (auto simp: kwm_cycle_focus_def Let_def)
next
  case False
  then show ?thesis unfolding kept_def using inv_focus [OF inv slot_ok_int(2)] by (auto simp: kwm_cycle_focus_def Let_def)
qed

lemma shortcut_kept:
  assumes inv: "kwm_inv s R"
  shows "kept s R (snd (kwm_handle_shortcut s mods rel key))"
proof -
  have kf: "kept s R (if b then kwm_frame_dirty s2 f else s2)" if "kept s R s2" for b f s2
    using kept_shaped [OF that frame_shaped] that by simp
  have al: "kept s R (s2\<lparr>alt_tab_active := b\<rparr>)" if "kept s R s2" for s2 b using kept_shaped [OF that shaped_fields(4)] .
  show ?thesis unfolding kwm_handle_shortcut_def Let_def
    using al [OF kept_refl [OF inv]] kept_refl [OF inv] al [OF kf [OF kf [OF cycle_kept [OF inv]]]] by simp
qed

lemma activate_kept:
  assumes inv: "kwm_inv s R"
  shows "kept s R (snd (kwm_activate_window s f))"
proof (cases "\<not> valid_win f \<or> \<not> active (win s (nat f)) \<or> is_desktop (win s (nat f))")
  case True
  then show ?thesis using kept_refl [OF inv] by (auto simp: kwm_activate_window_def Let_def)
next
  case False
  let ?s = "normalize_if_past (normalize_if_past (raise_window s (nat f)))"
  have sh: "shaped s ?s" by (rule shaped_trans [OF shaped_trans [OF raise_shaped past_shaped] past_shaped])
  have "slot_ok (kwm_windows s) f" using False by (simp add: slot_ok_def on_stack_def)
  then have "kwm_inv (?s\<lparr>focused_win_id := f\<rparr>) R"
    using inv_focus [OF inv_shaped [OF inv sh]] slot_ok_shaped [OF sh kwm_invD(1) [OF inv]] by blast
  then have k: "kept s R (?s\<lparr>focused_win_id := f\<rparr>)" unfolding kept_def using foreign_shaped [OF sh] by auto
  then show ?thesis using False kept_shaped [OF k frame_shaped] kept_shaped [OF kept_shaped [OF k frame_shaped] frame_shaped]
    by (simp add: kwm_activate_window_def Let_def)
qed

lemma title_kept:
  assumes inv: "kwm_inv s R"
  shows "kept s R (snd (kwm_set_title s me f t))"
proof -
  have "kept s R (set_win s i (win s i\<lparr>title := x\<rparr>))" for i x by (rule kept_shaped [OF kept_refl [OF inv] shaped_set_win]) (simp add: same_window_def)
  from kept_shaped [OF this frame_shaped] show ?thesis using kept_refl [OF inv] by (auto simp: kwm_set_title_def Let_def split: option.splits)
qed

lemma update_kept:
  assumes inv: "kwm_inv s R"
  shows "kept s R (kwm_update_window s me f b)"
proof -
  have "kept s R (s\<lparr>disp := (disp s)\<lparr>pix := m\<rparr>\<rparr>)" for m by (rule kept_disp [OF inv]) (use kwm_invD(2) [OF inv] in simp_all)
  from kept_shaped [OF this mark_shaped] show ?thesis
    using kept_refl [OF inv] by (auto simp: kwm_update_window_def Let_def split: option.splits)
qed

section \<open>Every operation is safe\<close>

datatype kwm_call =
    CreateWindow int u32 u32 u32 u32
  | CreateDesktop int
  | SetTitle int int "u8 list option"
  | ActivateWindow int
  | UpdateWindow int int "(nat \<Rightarrow> u32) option"
  | DestroyWindow int
  | DestroyWindowsOf int
  | DestroyAllWindows
  | ProcessMouse u32 u32 bool bool
  | HandleShortcut u8 bool u16

definition drop_result :: "('a outcome \<times> kwm) option \<Rightarrow> (unit outcome \<times> kwm) option" where
  "drop_result = map_option (\<lambda>(r, s). (case r of Panic b \<Rightarrow> Panic b | Ret _ \<Rightarrow> Ret (), s))"

fun kwm_exec :: "kwm \<Rightarrow> kwm_call \<Rightarrow> (unit outcome \<times> kwm) option" where
  "kwm_exec s (CreateWindow me x y w h) = drop_result (kwm_create_window s me x y w h)"
| "kwm_exec s (CreateDesktop me) = drop_result (kwm_create_desktop s me)"
| "kwm_exec s (SetTitle me i t) = Some (Ret (), snd (kwm_set_title s me i t))"
| "kwm_exec s (ActivateWindow i) = Some (Ret (), snd (kwm_activate_window s i))"
| "kwm_exec s (UpdateWindow me i b) = Some (Ret (), kwm_update_window s me i b)"
| "kwm_exec s (DestroyWindow i) = kwm_destroy_window s i"
| "kwm_exec s (DestroyWindowsOf t) = kwm_destroy_windows_of s t"
| "kwm_exec s DestroyAllWindows = kwm_destroy_all_windows s"
| "kwm_exec s (ProcessMouse x y d u) = Some (Ret (), snd (kwm_process_mouse s x y d u))"
| "kwm_exec s (HandleShortcut m r k) = Some (Ret (), snd (kwm_handle_shortcut s m r k))"

lemma exec_kept:
  assumes inv: "kwm_inv s R" and room: "kwm_room s"
  shows "\<exists>s'. kwm_exec s c = Some (Ret (), s') \<and> kept s R s'"
proof (cases c)
  case (CreateWindow me x y w h)
  then show ?thesis using create_window_keeps [OF inv room, of me x y w h] by (auto simp: drop_result_def)
next
  case (CreateDesktop me)
  then show ?thesis using create_desktop_keeps [OF inv room, of me] by (auto simp: drop_result_def)
next
  case (DestroyWindowsOf t)
  then show ?thesis using destroy_of_spec [OF inv, of t] unfolding kept_def by (metis kwm_exec.simps(7))
qed (use title_kept [OF inv] activate_kept [OF inv] update_kept [OF inv] destroy_window_keeps [OF inv] destroy_all_keeps [OF inv]
      mouse_kept [OF inv] shortcut_kept [OF inv] in \<open>auto\<close>)

text \<open>
  C23. Every operation of the window manager, from syscalls and from input interrupts alike,
  returns without a panic and keeps its invariant: focus and drag never point at a free slot or
  at the desktop, there is at most one desktop, every active window has a canvas of its size
  and no canvas is shared. No operation leaks a canvas or frees memory that is not a canvas:
  the heap regions outside the windows stay exactly the same.
\<close>

theorem kwm_operations_safe:
  assumes "kwm_inv s R" "kwm_room s"
  shows "\<exists>s' R'. kwm_exec s c = Some (Ret (), s') \<and> kwm_inv s' R' \<and> foreign s' R' = foreign s R"
  using exec_kept [OF assms] unfolding kept_def by blast

definition boot_kwm :: "vmm_state \<Rightarrow> kwm" where
  "boot_kwm v = \<lparr>kwm_windows = replicate 16 \<lparr>active = False, win_x = 0, win_y = 0, width = 0, height = 0, canvas = None, z_index = 0,
       owner_task = 0, wflags = 0, title = replicate 32 0\<rparr>,
     next_z_index = 1, dragged_win_id = - 1, drag_offset_x = 0, drag_offset_y = 0, focused_win_id = - 1, alt_tab_active = False,
     disp = \<lparr>heap = one_block_heap v, bufs = (\<lambda>_. \<lparr>db_width = 0, db_height = 0, stride = 0, pixels = 0, owns_pixels = False, dirty = None\<rparr>),
       pix = (\<lambda>_. 0)\<rparr>,
     screen_dirty = \<lparr>regions = replicate 64 \<lparr>rect_x = 0, rect_y = 0, rect_w = 0, rect_h = 0\<rparr>, count = 0, collapsed = False\<rparr>,
     fb_width = 1024, fb_height = 768, events = event_init\<rparr>"

lemma boot_kwm_ok:
  assumes "heap_inv (one_block_heap v)"
  shows "kwm_inv (boot_kwm v) (\<lambda>_. {})" "kwm_room (boot_kwm v)"
  using assms by (auto simp: kwm_inv_def window_ok_def boot_kwm_def slot_ok_int kwm_room_def one_block_heap_def)

theorem kwm_operations_safe_witness:
  "\<exists>v s' R'. kwm_exec (boot_kwm v) (CreateWindow 3 10 10 200 100) = Some (Ret (), s') \<and> kwm_inv s' R'"
proof -
  obtain v where "heap_inv (one_block_heap v)" by (rule one_block_heap_state) blast
  from kwm_operations_safe [OF boot_kwm_ok [OF this]] show ?thesis by blast
qed

section \<open>Windows of an exiting task\<close>

text \<open>
  When a task exits, \<open>kwm_destroy_windows_of\<close> closes exactly its windows: it returns, every
  window of another task is untouched, the canvases of the closed windows and nothing else go
  back to the heap, and the focus moves only when the focused window was closed.
\<close>

theorem kwm_destroy_windows_of_correct:
  assumes "kwm_inv s R"
  shows "\<exists>s' R'. kwm_destroy_windows_of s t = Some (Ret (), s') \<and> kwm_inv s' R' \<and>
    (\<forall>i < MAX_WINDOWS. active (win s' i) \<longleftrightarrow> active (win s i) \<and> owner_task (win s i) \<noteq> t) \<and>
    (\<forall>i < MAX_WINDOWS. active (win s' i) \<longrightarrow> win s' i = win s i) \<and>
    live (heap (disp s')) = live (heap (disp s)) - (\<Union>i \<in> {i. i < MAX_WINDOWS \<and> active (win s i) \<and> owner_task (win s i) = t}. R i) \<and>
    (valid_win (focused_win_id s) \<and> owner_task (win s (nat (focused_win_id s))) \<noteq> t \<longrightarrow> focused_win_id s' = focused_win_id s)"
proof -
  let ?g = "doomed s (\<lambda>w. owner_task w = t) [0..<MAX_WINDOWS]"
  have g: "?g i \<longleftrightarrow> i < MAX_WINDOWS \<and> active (win s i) \<and> owner_task (win s i) = t" for i by (auto simp: doomed_def simp del: upt_Suc)
  obtain s' where s': "kwm_destroy_windows_of s t = Some (Ret (), s')" "kwm_inv s' (\<lambda>i. if ?g i then {} else R i)"
      "live (heap (disp s')) = live (heap (disp s)) - (\<Union>i \<in> Collect ?g. R i)"
      "\<forall>i. if ?g i then \<not> active (win s' i) else win s' i = win s i"
      "(\<nexists>i. ?g i \<and> focused_win_id s = int i) \<longrightarrow> focused_win_id s' = focused_win_id s"
    by (rule destroy_of_spec [OF assms, of t])
  have "focused_win_id s' = focused_win_id s" if "valid_win (focused_win_id s)" "owner_task (win s (nat (focused_win_id s))) \<noteq> t"
  proof -
    have "\<nexists>i. ?g i \<and> focused_win_id s = int i" unfolding g using that(2) by force
    then show ?thesis using s'(5) by blast
  qed
  moreover have "active (win s' i) \<longleftrightarrow> active (win s i) \<and> owner_task (win s i) \<noteq> t" "active (win s' i) \<Longrightarrow> win s' i = win s i"
    if "i < MAX_WINDOWS" for i
  proof -
    have *: "if ?g i then \<not> active (win s' i) else win s' i = win s i" using s'(4) by blast
    show "active (win s' i) \<longleftrightarrow> active (win s i) \<and> owner_task (win s i) \<noteq> t" using * g [of i] that by (cases "?g i") auto
    show "active (win s' i) \<Longrightarrow> win s' i = win s i" using * by (cases "?g i") auto
  qed
  moreover have "Collect ?g = {i. i < MAX_WINDOWS \<and> active (win s i) \<and> owner_task (win s i) = t}" unfolding g ..
  ultimately show ?thesis using s'(1,2) s'(3) by (intro exI [of _ s'] exI [of _ "\<lambda>i. if ?g i then {} else R i"]) simp
qed

theorem kwm_destroy_windows_of_correct_witness:
  "\<exists>v s'. kwm_destroy_windows_of (boot_kwm v) 3 = Some (Ret (), s') \<and> \<not> active (win s' 0)"
proof -
  obtain v where "heap_inv (one_block_heap v)" by (rule one_block_heap_state) blast
  from kwm_destroy_windows_of_correct [OF boot_kwm_ok(1) [OF this], of 3]
  obtain s' where "kwm_destroy_windows_of (boot_kwm v) 3 = Some (Ret (), s')"
      "\<forall>i < MAX_WINDOWS. active (win s' i) \<longleftrightarrow> active (win (boot_kwm v) i) \<and> owner_task (win (boot_kwm v) i) \<noteq> 3" by blast
  moreover have "\<not> active (win (boot_kwm v) 0)" by (simp add: boot_kwm_def)
  ultimately show ?thesis by (meson zero_less_numeral)
qed

section \<open>Isolation of canvases\<close>

lemma fold_blit: "fold (\<lambda>i m. m(d + 4 * i := f i)) [0..<n] m a = (if \<exists>i < n. a = d + 4 * i then f ((a - d) div 4) else m (a :: nat))"
  by (induction n) (auto simp: less_Suc_eq)

text \<open>The pixels of a window lie in its own region of the heap.\<close>

lemma canvas_region:
  assumes inv: "kwm_inv s R" and i: "i < MAX_WINDOWS" "active (win s i)" and c: "canvas (win s i) = Some c"
  obtains m where "(pixels (bufs (disp s) c), m) \<in> R i" "4 * unat (width (win s i)) * unat (height (win s i)) \<le> m"
    "db_width (bufs (disp s) c) = width (win s i)" "db_height (bufs (disp s) c) = height (win s i)" "stride (bufs (disp s) c) = width (win s i)"
proof -
  have "window_ok (disp s) (win s i) (R i)" by (rule kwm_invD(3) [OF inv i(1)])
  then show thesis using i(2) c that by (auto simp: window_ok_def owned_buffer_def)
qed

lemma addr_in_region:
  assumes "in_buf b x y" "stride b = db_width b"
  shows "pixels b \<le> addr b x y" "addr b x y < pixels b + 4 * unat (db_width b) * unat (db_height b)"
proof -
  let ?w = "uint (db_width b)" and ?h = "uint (db_height b)"
  have xy: "0 \<le> x" "x < ?w" "0 \<le> y" "y \<le> ?h - 1" using assms(1) by (auto simp: in_buf_def)
  have "y * ?w \<le> (?h - 1) * ?w" using xy by (intro mult_right_mono) auto
  then have "y * ?w + x < ?w * ?h" using xy by (simp add: algebra_simps)
  moreover have "0 \<le> y * ?w + x" using xy by simp
  ultimately have "nat (y * ?w + x) < nat (?w * ?h)" by linarith
  then have "nat (y * ?w + x) < unat (db_width b) * unat (db_height b)" by (simp add: nat_mult_distrib)
  then show "addr b x y < pixels b + 4 * unat (db_width b) * unat (db_height b)" by (simp add: addr_def assms(2))
  show "pixels b \<le> addr b x y" by (simp add: addr_def)
qed

text \<open>
  C35. An application can only draw on its own windows. \<open>kwm_update_window\<close> has no effect unless
  the caller owns the window; when it does, pixel \<open>(x, y)\<close> of the canvas becomes the
  application's pixel \<open>y * width + x\<close>, and no pixel of any other window changes, whatever sizes
  the windows have.
\<close>

theorem kwm_update_window_confined:
  assumes inv: "kwm_inv s R" and s': "s' = kwm_update_window s me (int i) (Some buf)" and i: "i < MAX_WINDOWS" "active (win s i)"
    and c: "canvas (win s i) = Some c"
  shows "(owner_task (win s i) \<noteq> me \<longrightarrow> s' = s) \<and>
    (owner_task (win s i) = me \<and> unat (width (win s i)) * unat (height (win s i)) < 2 ^ 32 \<longrightarrow>
      (\<forall>x y. in_buf (bufs (disp s) c) x y \<longrightarrow> pix (disp s') (addr (bufs (disp s) c) x y) = buf (nat (y * uint (width (win s i)) + x)))) \<and>
    (\<forall>j < MAX_WINDOWS. \<forall>e x y. j \<noteq> i \<and> active (win s j) \<and> canvas (win s j) = Some e \<and> in_buf (bufs (disp s) e) x y \<longrightarrow>
      pix (disp s') (addr (bufs (disp s) e) x y) = pix (disp s) (addr (bufs (disp s) e) x y))"
proof -
  let ?w = "width (win s i)" and ?h = "height (win s i)" and ?d = "pixels (bufs (disp s) c)"
  let ?n = "unat (width (win s i) * height (win s i))"
  obtain m where m: "(?d, m) \<in> R i" "4 * unat ?w * unat ?h \<le> m" and b: "db_width (bufs (disp s) c) = ?w" "db_height (bufs (disp s) c) = ?h"
      "stride (bufs (disp s) c) = ?w" by (rule canvas_region [OF inv i c])
  have n: "?n \<le> unat ?w * unat ?h" by (simp add: unat_word_ariths)
  have v: "valid_win (int i)" using i(1) by (simp add: valid_win_def)
  have p: "pix (disp s') = (if owner_task (win s i) = me then fold (\<lambda>k m. m(?d + 4 * k := buf k)) [0..<?n] (pix (disp s)) else pix (disp s))"
    using s' v i(2) c by (simp add: kwm_update_window_def Let_def screen_mark_dirty_def)
  have own: "pix (disp s') (addr (bufs (disp s) c) x y) = buf (nat (y * uint ?w + x))"
    if "owner_task (win s i) = me" "unat ?w * unat ?h < 2 ^ 32" "in_buf (bufs (disp s) c) x y" for x y
  proof -
    let ?k = "nat (y * uint ?w + x)"
    have "?n = unat ?w * unat ?h" using that(2) by (subst unat_mult_lem [THEN iffD1]) simp_all
    moreover have a: "addr (bufs (disp s) c) x y = ?d + 4 * ?k" by (simp add: addr_def b(3))
    moreover have "addr (bufs (disp s) c) x y < ?d + 4 * unat ?w * unat ?h" using addr_in_region(2) [OF that(3)] b by simp
    ultimately have "?k < ?n" by simp
    then show ?thesis using that(1) a by (auto simp: p fold_blit)
  qed
  have other: "pix (disp s') (addr (bufs (disp s) e) x y) = pix (disp s) (addr (bufs (disp s) e) x y)"
    if j: "j < MAX_WINDOWS" "j \<noteq> i" "active (win s j)" "canvas (win s j) = Some e" "in_buf (bufs (disp s) e) x y" for j e x y
  proof -
    let ?b = "bufs (disp s) e"
    obtain k where k: "(pixels ?b, k) \<in> R j" "4 * unat (width (win s j)) * unat (height (win s j)) \<le> k"
        "db_width ?b = width (win s j)" "db_height ?b = height (win s j)" "stride ?b = width (win s j)"
      by (rule canvas_region [OF inv j(1,3,4)])
    have "(pixels ?b, k) \<noteq> (?d, m)" using kwm_invD(4) [OF inv j(1) i(1) j(2)] k(1) m(1) by auto
    moreover have "R j \<subseteq> live (heap (disp s))" "R i \<subseteq> live (heap (disp s))"
      using window_ok_live [OF kwm_invD(3) [OF inv]] i(1) j(1) by blast+
    ultimately have "pixels ?b + k \<le> ?d \<or> ?d + m \<le> pixels ?b"
      using live_disjoint [OF kwm_invD(2) [OF inv], of "pixels ?b" k ?d m] k(1) m(1) by blast
    moreover have "pixels ?b \<le> addr ?b x y" "addr ?b x y < pixels ?b + k" using addr_in_region [OF j(5)] k by auto
    moreover have "4 * q < m" if "q < ?n" for q using that n m(2) by simp
    ultimately have "\<forall>q < ?n. addr ?b x y \<noteq> ?d + 4 * q" by fastforce
    then have "\<not> (\<exists>q < ?n. addr ?b x y = ?d + 4 * q)" by blast
    then have "fold (\<lambda>k m. m(?d + 4 * k := buf k)) [0..<?n] (pix (disp s)) (addr ?b x y) = pix (disp s) (addr ?b x y)"
      unfolding fold_blit by (rule if_not_P)
    then show ?thesis unfolding p by simp
  qed
  have "owner_task (win s i) \<noteq> me \<longrightarrow> s' = s" using s' v i(2) c by (simp add: kwm_update_window_def Let_def)
  then show ?thesis using own other by blast
qed

text \<open>The witness input: a 4 by 2 window on a heap of one page, allocated as two blocks.\<close>

definition two_block_heap :: "vmm_state \<Rightarrow> heap_state" where
  "two_block_heap v = (one_block_heap v)\<lparr>hmem := (\<lambda>b. if b = HEAP_START_VADDR
     then \<lparr>magic = HEAP_MAGIC, bsize = 64, is_free = False, nxt = Some (HEAP_START_VADDR + 96)\<rparr>
     else \<lparr>magic = HEAP_MAGIC, bsize = 3968, is_free = False, nxt = None\<rparr>)\<rparr>"

lemma two_block_heap_ok:
  assumes "heap_inv (one_block_heap v)"
  shows "heap_inv (two_block_heap v)" "live (two_block_heap v) = {(HEAP_START_VADDR + 32, 64), (HEAP_START_VADDR + 128, 3968)}"
proof -
  have rep: "heap_rep (two_block_heap v) [HEAP_START_VADDR, HEAP_START_VADDR + 96]"
    by (simp add: heap_rep_def two_block_heap_def one_block_heap_def hd_or_def)
  then show "heap_inv (two_block_heap v)"
    using assms unfolding heap_inv_def heap_mapped_def by (auto simp: two_block_heap_def one_block_heap_def)
  show "live (two_block_heap v) = {(HEAP_START_VADDR + 32, 64), (HEAP_START_VADDR + 128, 3968)}"
    unfolding live_rep [OF rep] by (auto simp: two_block_heap_def)
qed

definition one_window :: "vmm_state \<Rightarrow> kwm" where
  "one_window v = (boot_kwm v)\<lparr>kwm_windows := (kwm_windows (boot_kwm v))[0 := \<lparr>active = True, win_x = 0, win_y = 0, width = 4, height = 2,
       canvas = Some (HEAP_START_VADDR + 32), z_index = 1, owner_task = 3, wflags = 0, title = replicate 32 0\<rparr>],
     disp := \<lparr>heap = two_block_heap v, bufs = (\<lambda>_. \<lparr>db_width = 4, db_height = 2, stride = 4, pixels = HEAP_START_VADDR + 128, owns_pixels = True, dirty = None\<rparr>),
       pix = (\<lambda>_. 0)\<rparr>\<rparr>"

lemma one_window_fields:
  "length (kwm_windows (one_window v)) = MAX_WINDOWS" "i \<noteq> 0 \<Longrightarrow> i < MAX_WINDOWS \<Longrightarrow> active (win (one_window v) i) = False \<and> canvas (win (one_window v) i) = None"
  "win (one_window v) 0 = \<lparr>active = True, win_x = 0, win_y = 0, width = 4, height = 2, canvas = Some (HEAP_START_VADDR + 32), z_index = 1,
     owner_task = 3, wflags = 0, title = replicate 32 0\<rparr>"
  by (simp_all add: one_window_def boot_kwm_def)

lemma one_window_ok:
  assumes "heap_inv (one_block_heap v)"
  shows "kwm_inv (one_window v) (\<lambda>i. if i = 0 then live (two_block_heap v) else {})"
proof -
  have "window_ok (disp (one_window v)) (win (one_window v) i) (if i = 0 then live (two_block_heap v) else {})" if "i < MAX_WINDOWS" for i
  proof (cases "i = 0")
    case True
    have "owned_buffer (disp (one_window v)) (HEAP_START_VADDR + 32) (live (two_block_heap v))"
      unfolding owned_buffer_def two_block_heap_ok(2) [OF assms]
      by (intro conjI exI [of _ 64] exI [of _ 3968]) (simp_all add: one_window_def)
    moreover have "heap (disp (one_window v)) = two_block_heap v" "db_width (bufs (disp (one_window v)) c) = 4" "db_height (bufs (disp (one_window v)) c) = 2" for c
      by (simp_all add: one_window_def)
    ultimately show ?thesis using True one_window_fields(3) [of v] by (simp add: window_ok_def)
  next
    case False
    then show ?thesis using one_window_fields(2) [OF False that] by (simp add: window_ok_def)
  qed
  moreover have "i = j" if "i < MAX_WINDOWS" "j < MAX_WINDOWS" "active (win (one_window v) i)" "active (win (one_window v) j)" for i j
    using that one_window_fields(2) by metis
  moreover have "heap_inv (heap (disp (one_window v)))" "focused_win_id (one_window v) = - 1" "dragged_win_id (one_window v) = - 1"
    using two_block_heap_ok(1) [OF assms] by (simp_all add: one_window_def boot_kwm_def)
  ultimately show ?thesis unfolding kwm_inv_def using one_window_fields(1) by (auto simp: slot_ok_int)
qed

theorem kwm_update_window_confined_witness:
  "\<exists>v. pix (disp (kwm_update_window (one_window v) 3 0 (Some of_nat))) (addr (bufs (disp (one_window v)) (HEAP_START_VADDR + 32)) 1 1) = 5 \<and>
     kwm_update_window (one_window v) 7 0 (Some of_nat) = one_window v"
proof -
  obtain v where "heap_inv (one_block_heap v)" by (rule one_block_heap_state) blast
  note inv = one_window_ok [OF this]
  have i: "(0 :: nat) < MAX_WINDOWS" "active (win (one_window v) 0)" "canvas (win (one_window v) 0) = Some (HEAP_START_VADDR + 32)"
    by (simp_all add: one_window_fields)
  have b: "in_buf (bufs (disp (one_window v)) (HEAP_START_VADDR + 32)) 1 1" by (simp add: in_buf_def one_window_def)
  show ?thesis
    using kwm_update_window_confined [OF inv refl i, of 3 of_nat] kwm_update_window_confined [OF inv refl i, of 7 of_nat] b
    by (intro exI [of _ v]) (simp add: one_window_fields)
qed

section \<open>Routing\<close>

text \<open>
  A mouse event goes to the owner of the topmost window under the cursor: \<open>kwm_route_mouse\<close>
  names an active window whose frame contains the point and that no other such window covers,
  with coordinates relative to its contents; it routes to nobody only when no window with a
  non-negative z-index is there.
\<close>

theorem kwm_route_mouse_topmost:
  "case kwm_route_mouse s px py of
     (t, enc, Some (lx, ly)) \<Rightarrow> \<exists>i < MAX_WINDOWS. enc = int i + 1 \<and> active (win s i) \<and> in_frame (win s i) px py \<and> t = owner_task (win s i) \<and>
       lx = px - win_x (win s i) \<and> ly = py - (win_y (win s i) + tb_of (win s i)) \<and>
       (\<forall>j < MAX_WINDOWS. active (win s j) \<and> in_frame (win s j) px py \<longrightarrow> sint (z_index (win s j)) \<le> sint (z_index (win s i)))
   | (t, enc, None) \<Rightarrow> t = - 1 \<and> enc = 0 \<and>
       (\<forall>j < MAX_WINDOWS. active (win s j) \<and> in_frame (win s j) px py \<longrightarrow> sint (z_index (win s j)) < 0)"
proof (cases rule: hit_test_cases [of s px py])
  case miss
  then show ?thesis by (simp add: kwm_route_mouse_def Let_def)
next
  case (hit i)
  then show ?thesis by (auto simp: kwm_route_mouse_def Let_def)
qed

theorem kwm_route_mouse_topmost_witness:
  "\<exists>v. snd (snd (kwm_route_mouse (boot_kwm v) 5 5)) = None \<and> fst (kwm_route_mouse (boot_kwm v) 5 5) = - 1"
proof -
  have "snd (snd (kwm_route_mouse (boot_kwm v) 5 5)) = None" for v
    using kwm_route_mouse_topmost [of "boot_kwm v" 5 5] by (auto simp: boot_kwm_def split: prod.splits option.splits)
  moreover have "fst (kwm_route_mouse (boot_kwm v) 5 5) = - 1" for v
    using kwm_route_mouse_topmost [of "boot_kwm v" 5 5] calculation [of v] by (auto split: prod.splits option.splits)
  ultimately show ?thesis by blast
qed

section \<open>Z-order\<close>

lemma insert_z_split:
  assumes "sorted (map z xs)"
  obtains A B where "xs = A @ B" "insert_z z xs w = A @ [w] @ B" "\<forall>a \<in> set A. z a \<le> z w" "\<forall>b \<in> set B. z b > z w"
proof -
  define B where "B = rev (takeWhile (\<lambda>v. z v > z w) (rev xs))"
  define A where "A = rev (dropWhile (\<lambda>v. z v > z w) (rev xs))"
  have xs: "xs = A @ B" unfolding A_def B_def by (metis rev_append rev_rev_ident takeWhile_dropWhile_id)
  have ins: "insert_z z xs w = A @ [w] @ B"
  proof -
    have "length (takeWhile (\<lambda>v. z v > z w) (rev xs)) = length B" by (simp add: B_def)
    then have "take (length xs - length (takeWhile (\<lambda>v. z v > z w) (rev xs))) xs = A" using xs by simp
    then show ?thesis unfolding insert_z_def Let_def by (simp add: B_def)
  qed
  have Bgt: "\<forall>b \<in> set B. z b > z w" unfolding B_def by (auto dest: set_takeWhileD)
  have "\<forall>a \<in> set A. z a \<le> z w"
  proof (cases "A = []")
    case False
    have "\<not> z (last A) > z w" using False hd_dropWhile [of "\<lambda>v. z v > z w" "rev xs"] by (simp add: A_def last_rev)
    moreover have "sorted (map z A)" using assms unfolding xs by (simp add: sorted_append)
    then have "sorted (map z (butlast A @ [last A]))" using False by simp
    then have "\<forall>a \<in> set (butlast A @ [last A]). z a \<le> z (last A)" by (auto simp: sorted_append)
    then have "\<forall>a \<in> set A. z a \<le> z (last A)" using False by simp
    ultimately show ?thesis by force
  qed simp
  then show thesis using that xs ins Bgt by blast
qed

text \<open>The insertion sort of the code is the library's stable sort.\<close>

lemma insert_z_sort: "foldl (insert_z z) [] xs = sort_key z xs"
proof -
  define ys where "ys = foldl (insert_z z) [] xs"
  have *: "sorted (map z ys) \<and> mset ys = mset xs \<and> (\<forall>k. filter (\<lambda>x. z x = k) ys = filter (\<lambda>x. z x = k) xs)"
    unfolding ys_def
  proof (induction xs rule: rev_induct)
    case (snoc w xs)
    let ?ys = "foldl (insert_z z) [] xs"
    obtain A B where AB: "?ys = A @ B" "insert_z z ?ys w = A @ [w] @ B" "\<forall>a \<in> set A. z a \<le> z w" "\<forall>b \<in> set B. z b > z w"
      using insert_z_split [of z ?ys w] snoc by blast
    have "sorted (map z (A @ [w] @ B))" using snoc AB by (auto simp: sorted_append intro: less_imp_le)
    moreover have "mset (A @ [w] @ B) = mset (xs @ [w])" using snoc AB(1) by (metis add_mset_add_single mset_append union_commute union_assoc mset.simps(1,2) add.right_neutral)
    moreover have "filter (\<lambda>x. z x = k) (A @ [w] @ B) = filter (\<lambda>x. z x = k) (xs @ [w])" for k
    proof -
      have "filter (\<lambda>x. z x = k) xs = filter (\<lambda>x. z x = k) A @ filter (\<lambda>x. z x = k) B" using snoc AB(1) by (metis filter_append)
      moreover have "z w = k \<Longrightarrow> filter (\<lambda>x. z x = k) B = []" using AB(4) by (auto simp: filter_empty_conv)
      ultimately show ?thesis by auto
    qed
    ultimately show ?case using AB(2) by simp
  qed simp
  have "sort_key z xs = ys"
    by (rule properties_for_sort_key) (use * in \<open>auto simp: eq_commute\<close>)
  then show ?thesis by (simp add: ys_def)
qed

lemma normalize_windows:
  assumes "distinct order" "\<forall>i \<in> set order. i < length (kwm_windows s)" "n \<le> length order"
    and s': "s' = fold (\<lambda>i s. set_win s (order ! i) (win s (order ! i)\<lparr>z_index := of_nat (i + 1)\<rparr>)) [0..<n] s"
  shows "length (kwm_windows s') = length (kwm_windows s)" "i < n \<Longrightarrow> win s' (order ! i) = win s (order ! i)\<lparr>z_index := of_nat (i + 1)\<rparr>"
    "j \<notin> set (take n order) \<Longrightarrow> win s' j = win s j"
proof -
  have "length (kwm_windows s') = length (kwm_windows s) \<and> (\<forall>i < n. win s' (order ! i) = win s (order ! i)\<lparr>z_index := of_nat (i + 1)\<rparr>) \<and>
    (\<forall>j. j \<notin> set (take n order) \<longrightarrow> win s' j = win s j)"
    using assms(3) unfolding s'
  proof (induction n)
    case (Suc n)
    let ?t = "fold (\<lambda>i s. set_win s (order ! i) (win s (order ! i)\<lparr>z_index := of_nat (i + 1)\<rparr>)) [0..<n] s"
    have IH: "length (kwm_windows ?t) = length (kwm_windows s)" "\<And>i. i < n \<Longrightarrow> win ?t (order ! i) = win s (order ! i)\<lparr>z_index := of_nat (i + 1)\<rparr>"
      "\<And>j. j \<notin> set (take n order) \<Longrightarrow> win ?t j = win s j" using Suc by auto
    have n: "n < length order" using Suc.prems by simp
    have nt: "order ! n \<notin> set (take n order)" using assms(1) n by (auto simp: in_set_conv_nth nth_eq_iff_index_eq)
    have ne: "order ! i \<noteq> order ! n" if "i < n" for i using assms(1) n that by (simp add: nth_eq_iff_index_eq)
    have lt: "order ! n < length (kwm_windows s)" using assms(2) n by simp
    have tk: "set (take (Suc n) order) = insert (order ! n) (set (take n order))" using n by (simp add: take_Suc_conv_app_nth)
    let ?u = "set_win ?t (order ! n) (win ?t (order ! n)\<lparr>z_index := of_nat (n + 1)\<rparr>)"
    have "win ?u (order ! i) = win s (order ! i)\<lparr>z_index := of_nat (i + 1)\<rparr>" if "i < Suc n" for i
    proof (cases "i = n")
      case True
      then show ?thesis using IH(1) IH(3) [OF nt] lt by simp
    next
      case False
      then show ?thesis using that ne [of i] IH(2) [of i] by simp
    qed
    moreover have "win ?u j = win s j" if "j \<notin> set (take (Suc n) order)" for j using that IH(3) [of j] unfolding tk by simp
    ultimately show ?case using IH(1) by simp
  qed simp
  then show "length (kwm_windows s') = length (kwm_windows s)" "i < n \<Longrightarrow> win s' (order ! i) = win s (order ! i)\<lparr>z_index := of_nat (i + 1)\<rparr>"
    "j \<notin> set (take n order) \<Longrightarrow> win s' j = win s j" by blast+
qed

text \<open>
  C36. Renormalisation is a stable sort of the windows by z-index: the slot at position \<open>k\<close> of the
  library's \<open>sort_key\<close> gets the z-index \<open>k + 1\<close>, so windows keep their stacking order, the
  z-indices become \<open>1, ..., n\<close>, the counter \<open>n + 1\<close>, and nothing else about any slot changes,
  in particular not the desktop.
\<close>

theorem kwm_normalize_zindex_sorts:
  assumes len: "length (kwm_windows s) = MAX_WINDOWS" and s': "s' = kwm_normalize_zindex s"
    and order: "order = sort_key (\<lambda>i. z_index (win s i)) (filter (\<lambda>i. on_stack (win s i)) [0..<MAX_WINDOWS])"
  shows "(\<forall>k < length order. win s' (order ! k) = win s (order ! k)\<lparr>z_index := of_nat (k + 1)\<rparr>) \<and>
    (\<forall>i < MAX_WINDOWS. \<not> on_stack (win s i) \<longrightarrow> win s' i = win s i) \<and> next_z_index s' = of_nat (length order + 1) \<and>
    (\<forall>i < MAX_WINDOWS. \<forall>j < MAX_WINDOWS. on_stack (win s i) \<and> on_stack (win s j) \<and> z_index (win s i) < z_index (win s j) \<longrightarrow>
       z_index (win s' i) < z_index (win s' j))"
proof -
  have zo: "z_order s = order" unfolding z_order_def insert_z_sort order ..
  have so: "set order = {i. i < MAX_WINDOWS \<and> on_stack (win s i)}" unfolding order by (auto simp del: upt_Suc)
  have di: "distinct order" unfolding order by (simp del: upt_Suc)
  have lo: "length order \<le> 16" unfolding order using length_filter_le [of "\<lambda>i. on_stack (win s i)" "[0..<MAX_WINDOWS]"] by (simp del: upt_Suc)
  note nw = normalize_windows [OF di _ order_refl refl, of s]
  have w: "kwm_windows s' = kwm_windows (fold (\<lambda>i s. set_win s (order ! i) (win s (order ! i)\<lparr>z_index := of_nat (i + 1)\<rparr>)) [0..<length order] s)"
    "next_z_index s' = of_nat (length order + 1)" unfolding s' kwm_normalize_zindex_def zo by (simp_all add: Let_def)
  have ws: "\<forall>i \<in> set order. i < length (kwm_windows s)" using so len by simp
  have at: "win s' (order ! k) = win s (order ! k)\<lparr>z_index := of_nat (k + 1)\<rparr>" if "k < length order" for k
    using nw(2) [OF ws that] unfolding w(1) .
  have off: "win s' i = win s i" if "i \<notin> set order" for i using nw(3) [OF ws, of i] that unfolding w(1) by simp
  have mono: "z_index (win s' i) < z_index (win s' j)" if ij: "i \<in> set order" "j \<in> set order" "z_index (win s i) < z_index (win s j)" for i j
  proof -
    obtain a b where ab: "a < length order" "order ! a = i" "b < length order" "order ! b = j" using ij(1,2) by (auto simp: in_set_conv_nth)
    have srt: "sorted (map (\<lambda>i. z_index (win s i)) order)" unfolding order by (rule sorted_sort_key)
    have "a < b"
    proof (rule ccontr)
      assume "\<not> a < b"
      then have "z_index (win s j) \<le> z_index (win s i)" using sorted_nth_mono [OF srt, of b a] ab by simp
      then show False using ij(3) by simp
    qed
    moreover have "unat (of_nat (k + 1) :: u32) = k + 1" if "k < length order" for k using that lo by (intro unat_of_nat_small) simp
    ultimately have "(of_nat (a + 1) :: u32) < of_nat (b + 1)" using ab unfolding word_less_nat_alt by simp
    then show ?thesis using at ab by fastforce
  qed
  show ?thesis using at off mono w(2) so by blast
qed

theorem kwm_normalize_zindex_sorts_witness:
  "\<exists>s. win (kwm_normalize_zindex s) 0 = win s 0\<lparr>z_index := 2\<rparr> \<and> win (kwm_normalize_zindex s) 1 = win s 1\<lparr>z_index := 1\<rparr> \<and> z_index (win s 0) = 90"
proof -
  define u where "u z b = \<lparr>active = b, win_x = 0, win_y = 0, width = 1, height = 1, canvas = None, z_index = z, owner_task = 0, wflags = 0, title = []\<rparr>" for z b
  define s where "s = (boot_kwm undefined)\<lparr>kwm_windows := [u 90 True, u 7 True] @ replicate 14 (u 0 False)\<rparr>"
  have w: "kwm_windows s = [u 90 True, u 7 True] @ replicate 14 (u 0 False)" by (simp add: s_def)
  have os: "on_stack (u z b) = b" for z b by (simp add: on_stack_def is_desktop_def u_def)
  have "[0..<MAX_WINDOWS] = [0, 1] @ [2..<16]" by (simp add: upt_rec)
  moreover have "\<not> on_stack (win s i)" if "i \<in> set [2..<16]" for i using that w os by (auto simp: nth_append nth_Cons')
  ultimately have "filter (\<lambda>i. on_stack (win s i)) [0..<MAX_WINDOWS] = [0, 1]" using w os by (simp add: filter_empty_conv)
  then have o: "sort_key (\<lambda>i. z_index (win s i)) (filter (\<lambda>i. on_stack (win s i)) [0..<MAX_WINDOWS]) = [1, 0]" using w by (simp add: u_def)
  have "length (kwm_windows s) = MAX_WINDOWS" using w by simp
  from kwm_normalize_zindex_sorts [OF this refl refl, unfolded o]
  have "\<forall>k < 2. win (kwm_normalize_zindex s) ([1, 0] ! k) = win s ([1, 0] ! k)\<lparr>z_index := of_nat (k + 1)\<rparr>" by simp
  then have "win (kwm_normalize_zindex s) ([1, 0] ! 0) = win s ([1, 0] ! 0)\<lparr>z_index := of_nat (0 + 1)\<rparr>"
    "win (kwm_normalize_zindex s) ([1, 0] ! 1) = win s ([1, 0] ! 1)\<lparr>z_index := of_nat (1 + 1)\<rparr>" by (meson zero_less_numeral one_less_numeral_iff semiring_norm(76))+
  then show ?thesis using w by (intro exI [of _ s]) (simp add: u_def)
qed

end
