(* ===== verification/Keyboard.thy ===== *)
theory Keyboard
  imports Kwm_Theorems
begin

text \<open>
  The keyboard driver, \<^verbatim>\<open>drivers/keyboard.c\<close>: the scancode decoder with its modifier keys, the
  delivery of a key to the focused window or to the terminal, and the terminal's buffer. The
  interrupt handler takes the status byte and the data byte it reads from the controller as
  arguments; the end-of-interrupt command has no state. A section under \<open>kbd_lock\<close> is one step.
\<close>

section \<open>State and tables\<close>

abbreviation EVENT_KEY_PRESS :: u32 where "EVENT_KEY_PRESS \<equiv> 1"
abbreviation EVENT_KEY_RELEASE :: u32 where "EVENT_KEY_RELEASE \<equiv> 5"
abbreviation KEY_MOD_SHIFT :: u8 where "KEY_MOD_SHIFT \<equiv> 0x01"
abbreviation KEY_MOD_CTRL :: u8 where "KEY_MOD_CTRL \<equiv> 0x02"
abbreviation KEY_MOD_ALT :: u8 where "KEY_MOD_ALT \<equiv> 0x04"
abbreviation KEY_MOD_CAPS :: u8 where "KEY_MOD_CAPS \<equiv> 0x08"
abbreviation HELD_LSHIFT :: u8 where "HELD_LSHIFT \<equiv> 0x01"
abbreviation HELD_RSHIFT :: u8 where "HELD_RSHIFT \<equiv> 0x02"
abbreviation HELD_LCTRL :: u8 where "HELD_LCTRL \<equiv> 0x04"
abbreviation HELD_RCTRL :: u8 where "HELD_RCTRL \<equiv> 0x08"
abbreviation HELD_LALT :: u8 where "HELD_LALT \<equiv> 0x10"
abbreviation HELD_RALT :: u8 where "HELD_RALT \<equiv> 0x20"
abbreviation HELD_CAPS :: u8 where "HELD_CAPS \<equiv> 0x40"
abbreviation KBD_BUFFER_SIZE :: nat where "KBD_BUFFER_SIZE \<equiv> 256"

record kbd =
  kbd_buffer :: "u8 list"
  kbd_head :: nat
  kbd_tail :: nat
  kbd_held :: u8
  kbd_mods :: u8
  kbd_extended :: bool

definition kbdus :: "u8 list" where
  "kbdus =
     [0, 27, 49, 50, 51, 52, 53, 54, 55, 56, 57, 48, 45, 61, 8, 9,
      113, 119, 101, 114, 116, 121, 117, 105, 111, 112, 91, 93, 10, 0, 97, 115,
      100, 102, 103, 104, 106, 107, 108, 59, 39, 96, 0, 92, 122, 120, 99, 118,
      98, 110, 109, 44, 46, 47, 0, 42, 0, 32, 0, 0, 0, 0, 0, 0,
      0, 0, 0, 0, 0, 0, 0, 0, 0, 0, 45, 0, 0, 0, 43, 0,
      0, 0, 0, 0, 0, 0, 0, 0, 0, 0, 0, 0, 0, 0, 0, 0,
      0, 0, 0, 0, 0, 0, 0, 0, 0, 0, 0, 0, 0, 0, 0, 0,
      0, 0, 0, 0, 0, 0, 0, 0, 0, 0, 0, 0, 0, 0, 0, 0]"

definition kbdus_shift :: "u8 list" where
  "kbdus_shift =
     [0, 27, 33, 64, 35, 36, 37, 94, 38, 42, 40, 41, 95, 43, 8, 9,
      81, 87, 69, 82, 84, 89, 85, 73, 79, 80, 123, 125, 10, 0, 65, 83,
      68, 70, 71, 72, 74, 75, 76, 58, 34, 126, 0, 124, 90, 88, 67, 86,
      66, 78, 77, 60, 62, 63, 0, 42, 0, 32, 0, 0, 0, 0, 0, 0,
      0, 0, 0, 0, 0, 0, 0, 0, 0, 0, 45, 0, 0, 0, 43, 0,
      0, 0, 0, 0, 0, 0, 0, 0, 0, 0, 0, 0, 0, 0, 0, 0,
      0, 0, 0, 0, 0, 0, 0, 0, 0, 0, 0, 0, 0, 0, 0, 0,
      0, 0, 0, 0, 0, 0, 0, 0, 0, 0, 0, 0, 0, 0, 0, 0]"

definition init_keyboard :: "kbd \<Rightarrow> kbd" where
  "init_keyboard k = k\<lparr>kbd_head := 0, kbd_tail := 0, kbd_held := 0, kbd_mods := 0, kbd_extended := False\<rparr>"

section \<open>Decoding\<close>

definition hold :: "bool \<Rightarrow> u8 \<Rightarrow> kbd \<Rightarrow> kbd" where
  "hold released b k = k\<lparr>kbd_held := (if released then kbd_held k AND NOT b else kbd_held k OR b)\<rparr>"

text \<open>The \<open>switch\<close> over the modifier keys.\<close>

definition track_modifier :: "kbd \<Rightarrow> u16 \<Rightarrow> bool \<Rightarrow> kbd" where
  "track_modifier k key_id released =
     (if key_id = 0x2A then hold released HELD_LSHIFT k
      else if key_id = 0x36 then hold released HELD_RSHIFT k
      else if key_id = 0x1D then hold released HELD_LCTRL k
      else if key_id = 0x11D then hold released HELD_RCTRL k
      else if key_id = 0x38 then hold released HELD_LALT k
      else if key_id = 0x138 then hold released HELD_RALT k
      else if key_id = 0x3A then
        if \<not> released then
          if kbd_held k AND HELD_CAPS = 0
          then k\<lparr>kbd_mods := kbd_mods k XOR KEY_MOD_CAPS, kbd_held := kbd_held k OR HELD_CAPS\<rparr>
          else k
        else k\<lparr>kbd_held := kbd_held k AND NOT HELD_CAPS\<rparr>
      else k)"

text \<open>The public bitmask, derived from the keys that are held.\<close>

definition derive_mods :: "u8 \<Rightarrow> u8 \<Rightarrow> u8" where
  "derive_mods held mods =
     (mods AND KEY_MOD_CAPS) OR
     (if held AND (HELD_LSHIFT OR HELD_RSHIFT) \<noteq> 0 then KEY_MOD_SHIFT else 0) OR
     (if held AND (HELD_LCTRL OR HELD_RCTRL) \<noteq> 0 then KEY_MOD_CTRL else 0) OR
     (if held AND (HELD_LALT OR HELD_RALT) \<noteq> 0 then KEY_MOD_ALT else 0)"

definition key_ascii :: "u8 \<Rightarrow> u8 \<Rightarrow> bool \<Rightarrow> u8" where
  "key_ascii mods code released =
     (let base = kbdus ! unat code
      in if released then base
         else
           let shift = (mods AND KEY_MOD_SHIFT \<noteq> 0);
               upper = (if mods AND KEY_MOD_CAPS \<noteq> 0 \<and> base \<ge> 97 \<and> base \<le> 122 then \<not> shift else shift)
           in if upper then kbdus_shift ! unat code else base)"

section \<open>The interrupt handler\<close>

definition tty_put :: "kbd \<Rightarrow> u8 \<Rightarrow> kbd" where
  "tty_put k ascii =
     (let next_head = (kbd_head k + 1) mod KBD_BUFFER_SIZE
      in if next_head \<noteq> kbd_tail k then k\<lparr>kbd_buffer := (kbd_buffer k)[kbd_head k := ascii], kbd_head := next_head\<rparr> else k)"

text \<open>Shortcut, then focused window, then terminal.\<close>

definition deliver_key :: "kbd \<Rightarrow> kwm \<Rightarrow> u8 \<Rightarrow> u16 \<Rightarrow> bool \<Rightarrow> kbd \<times> kwm" where
  "deliver_key k w ascii key_id released =
     (let (shortcut, w1) = kwm_handle_shortcut w (kbd_mods k) released key_id
      in if shortcut then (k, w1)
         else
           let (target, kbd_win) = kwm_route_keyboard w1
           in if target \<ge> 0 then
                (k, w1\<lparr>events := push_event_to (events w1) target (if released then EVENT_KEY_RELEASE else EVENT_KEY_PRESS)
                       (uint ascii) (uint (kbd_mods k)) (uint key_id) kbd_win\<rparr>)
              else if \<not> released \<and> ascii \<noteq> 0 \<and> kbd_mods k AND (KEY_MOD_CTRL OR KEY_MOD_ALT) = 0 then (tty_put k ascii, w1)
              else (k, w1))"

definition keyboard_handler :: "kbd \<Rightarrow> kwm \<Rightarrow> u8 \<Rightarrow> u8 \<Rightarrow> kbd \<times> kwm" where
  "keyboard_handler k w status scancode =
     (if status AND 0x01 \<noteq> 0 \<and> status AND 0x20 = 0 then
        if scancode = 0xE0 then (k\<lparr>kbd_extended := True\<rparr>, w)
        else
          let released = (scancode AND 0x80 \<noteq> 0);
              code = scancode AND 0x7F;
              key_id = ucast code OR (if kbd_extended k then 0x100 else 0);
              k1 = track_modifier (k\<lparr>kbd_extended := False\<rparr>) key_id released;
              k2 = k1\<lparr>kbd_mods := derive_mods (kbd_held k1) (kbd_mods k1)\<rparr>
          in deliver_key k2 w (key_ascii (kbd_mods k2) code released) key_id released
      else (k, w))"

section \<open>Reading\<close>

text \<open>\<open>keyboard_read\<close>: the bytes stored in the caller's buffer.\<close>

fun keyboard_read :: "kbd \<Rightarrow> nat \<Rightarrow> u8 list \<times> kbd" where
  "keyboard_read k 0 = ([], k)"
| "keyboard_read k (Suc n) =
     (if kbd_head k = kbd_tail k then ([], k)
      else
        let c = kbd_buffer k ! kbd_tail k;
            (cs, k') = keyboard_read (k\<lparr>kbd_tail := (kbd_tail k + 1) mod KBD_BUFFER_SIZE\<rparr>) n
        in (c # cs, k'))"

definition flush_kbd_buffer :: "kbd \<Rightarrow> kbd" where
  "flush_kbd_buffer k = k\<lparr>kbd_head := 0, kbd_tail := 0\<rparr>"

section \<open>Modifier keys\<close>

text \<open>The specification looks at the history of key strokes, the latest first: a key is pressed when its
  latest stroke was no release, and caps lock is toggled by each press that is no repetition.\<close>

type_synonym stroke = "u16 \<times> bool"

fun pressed :: "stroke list \<Rightarrow> u16 \<Rightarrow> bool" where
  "pressed [] key = False"
| "pressed ((k, released) # h) key = (if k = key then \<not> released else pressed h key)"

fun caps_on :: "stroke list \<Rightarrow> bool" where
  "caps_on [] = False"
| "caps_on ((k, released) # h) = (if k = 0x3A \<and> \<not> released \<and> \<not> pressed h 0x3A then \<not> caps_on h else caps_on h)"

text \<open>The strokes in a sequence of data bytes, and whether a prefix is pending.\<close>

definition stroke_of :: "bool \<Rightarrow> u8 \<Rightarrow> stroke" where
  "stroke_of ext b = (ucast (b AND 0x7F) OR (if ext then 0x100 else 0), b AND 0x80 \<noteq> 0)"

fun strokes :: "bool \<Rightarrow> stroke list \<Rightarrow> u8 list \<Rightarrow> bool \<times> stroke list" where
  "strokes ext h [] = (ext, h)"
| "strokes ext h (b # bs) = (if b = 0xE0 then strokes True h bs else strokes False (stroke_of ext b # h) bs)"

definition mod_keys :: "u16 list" where
  "mod_keys = [0x2A, 0x36, 0x1D, 0x11D, 0x38, 0x138, 0x3A]"

lemma seven: "j < 7 \<longleftrightarrow> j = 0 \<or> j = 1 \<or> j = 2 \<or> j = 3 \<or> j = 4 \<or> j = 5 \<or> j = (6 :: nat)"
  by auto

lemma bit_mask:
  fixes w :: u8
  shows "w AND 1 = 0 \<longleftrightarrow> \<not> bit w 0" "w AND 2 = 0 \<longleftrightarrow> \<not> bit w (Suc 0)" "w AND 4 = 0 \<longleftrightarrow> \<not> bit w 2"
    "w AND 8 = 0 \<longleftrightarrow> \<not> bit w 3" "w AND 64 = 0 \<longleftrightarrow> \<not> bit w 6"
    "w AND 3 = 0 \<longleftrightarrow> \<not> bit w 0 \<and> \<not> bit w (Suc 0)" "w AND 12 = 0 \<longleftrightarrow> \<not> bit w 2 \<and> \<not> bit w 3"
    "w AND 48 = 0 \<longleftrightarrow> \<not> bit w 4 \<and> \<not> bit w 5"
proof -
  have one: "w AND 2 ^ n = 0 \<longleftrightarrow> \<not> bit w n" for n by (rule and_exp_eq_0_iff_not_bit)
  have two: "w AND (a OR b) = 0 \<longleftrightarrow> w AND a = 0 \<and> w AND b = 0" for a b :: u8
    by (simp add: bit.conj_disj_distrib or_eq_0_iff)
  note ones = one [of 0] one [of 1] one [of 2] one [of 3] one [of 4] one [of 5] one [of 6]
  show "w AND 1 = 0 \<longleftrightarrow> \<not> bit w 0" "w AND 2 = 0 \<longleftrightarrow> \<not> bit w (Suc 0)" "w AND 4 = 0 \<longleftrightarrow> \<not> bit w 2"
    "w AND 8 = 0 \<longleftrightarrow> \<not> bit w 3" "w AND 64 = 0 \<longleftrightarrow> \<not> bit w 6"
    using ones by simp_all
  show "w AND 3 = 0 \<longleftrightarrow> \<not> bit w 0 \<and> \<not> bit w (Suc 0)" "w AND 12 = 0 \<longleftrightarrow> \<not> bit w 2 \<and> \<not> bit w 3"
    "w AND 48 = 0 \<longleftrightarrow> \<not> bit w 4 \<and> \<not> bit w 5"
    using two [of 1 2] two [of 4 8] two [of 16 32] ones by simp_all
qed

lemma track_held:
  assumes "j < 7"
  shows "bit (kbd_held (track_modifier k key released)) j = (if key = mod_keys ! j then \<not> released else bit (kbd_held k) j)"
  using assms unfolding seven
  by (elim disjE; simp add: track_modifier_def hold_def mod_keys_def bit_simps bit_mask)

lemma track_caps:
  "bit (kbd_mods (track_modifier k key released)) 3 =
     (if key = 0x3A \<and> \<not> released \<and> \<not> bit (kbd_held k) 6 then \<not> bit (kbd_mods k) 3 else bit (kbd_mods k) 3)"
  by (simp add: track_modifier_def hold_def bit_simps bit_mask)

lemma derive_bits:
  "bit (derive_mods held mods) 0 = (bit held 0 \<or> bit held (Suc 0))" "bit (derive_mods held mods) (Suc 0) = (bit held 2 \<or> bit held 3)"
  "bit (derive_mods held mods) 2 = (bit held 4 \<or> bit held 5)" "bit (derive_mods held mods) 3 = bit mods 3"
  by (simp_all add: derive_mods_def bit_mask bit_simps)

text \<open>The driver's bits show exactly the history.\<close>

definition shows_history :: "kbd \<Rightarrow> bool \<Rightarrow> stroke list \<Rightarrow> bool" where
  "shows_history k ext h \<longleftrightarrow>
     kbd_extended k = ext \<and> (\<forall>j < 7. bit (kbd_held k) j = pressed h (mod_keys ! j)) \<and>
     bit (kbd_mods k) 0 = (pressed h 0x2A \<or> pressed h 0x36) \<and> bit (kbd_mods k) 1 = (pressed h 0x1D \<or> pressed h 0x11D) \<and>
     bit (kbd_mods k) 2 = (pressed h 0x38 \<or> pressed h 0x138) \<and> bit (kbd_mods k) 3 = caps_on h"

definition decode :: "kbd \<Rightarrow> u8 \<Rightarrow> kbd" where
  "decode k b =
     (let k1 = track_modifier (k\<lparr>kbd_extended := False\<rparr>) (fst (stroke_of (kbd_extended k) b)) (snd (stroke_of (kbd_extended k) b))
      in k1\<lparr>kbd_mods := derive_mods (kbd_held k1) (kbd_mods k1)\<rparr>)"

lemma track_fields [simp]:
  "kbd_extended (track_modifier k key r) = kbd_extended k" "kbd_buffer (track_modifier k key r) = kbd_buffer k"
  "kbd_head (track_modifier k key r) = kbd_head k" "kbd_tail (track_modifier k key r) = kbd_tail k"
  by (simp_all add: track_modifier_def hold_def)

lemma decode_fields [simp]:
  "kbd_extended (decode k b) = False" "kbd_buffer (decode k b) = kbd_buffer k"
  "kbd_head (decode k b) = kbd_head k" "kbd_tail (decode k b) = kbd_tail k"
  by (simp_all add: decode_def Let_def)

lemma decode_shows:
  assumes "shows_history k ext h"
  shows "shows_history (decode k b) False (stroke_of ext b # h)"
proof -
  obtain key r where st: "stroke_of ext b = (key, r)" by fastforce
  let ?k1 = "track_modifier (k\<lparr>kbd_extended := False\<rparr>) key r"
  have d: "decode k b = ?k1\<lparr>kbd_mods := derive_mods (kbd_held ?k1) (kbd_mods ?k1)\<rparr>"
    using assms st by (simp add: decode_def shows_history_def Let_def)
  have held: "bit (kbd_held ?k1) j = pressed ((key, r) # h) (mod_keys ! j)" if "j < 7" for j
    using assms that by (simp add: track_held shows_history_def)
  have caps: "bit (kbd_mods ?k1) 3 = caps_on ((key, r) # h)"
    using assms by (simp add: track_caps shows_history_def seven mod_keys_def)
  have m: "mod_keys ! 0 = 0x2A" "mod_keys ! 1 = 0x36" "mod_keys ! 2 = 0x1D" "mod_keys ! 3 = 0x11D" "mod_keys ! 4 = 0x38" "mod_keys ! 5 = 0x138"
    by (simp_all add: mod_keys_def)
  note hs = held [of 0] held [of 1] held [of 2] held [of 3] held [of 4] held [of 5]
  show ?thesis unfolding shows_history_def d st using hs caps held m
    by (simp add: derive_bits del: pressed.simps caps_on.simps)
qed

lemma handler_decodes:
  assumes "status AND 0x01 \<noteq> 0" "status AND 0x20 = 0" "b \<noteq> 0xE0"
  shows "keyboard_handler k w status b =
    deliver_key (decode k b) w (key_ascii (kbd_mods (decode k b)) (b AND 0x7F) (snd (stroke_of (kbd_extended k) b)))
      (fst (stroke_of (kbd_extended k) b)) (snd (stroke_of (kbd_extended k) b))"
  using assms by (simp add: keyboard_handler_def decode_def stroke_of_def Let_def)

lemma deliver_shows: "shows_history (fst (deliver_key k w a key r)) ext h = shows_history k ext h"
  by (simp add: deliver_key_def tty_put_def shows_history_def Let_def split: prod.split)

definition kbd_run :: "kbd \<Rightarrow> kwm \<Rightarrow> (u8 \<times> u8) list \<Rightarrow> kbd \<times> kwm" where
  "kbd_run k w irqs = foldl (\<lambda>(k, w) (status, b). keyboard_handler k w status b) (k, w) irqs"

text \<open>The bytes that are the keyboard's: there is data and it is not the mouse's.\<close>

definition key_bytes :: "(u8 \<times> u8) list \<Rightarrow> u8 list" where
  "key_bytes irqs = map snd (filter (\<lambda>(status, b). status AND 0x01 \<noteq> 0 \<and> status AND 0x20 = 0) irqs)"

lemma handler_shows:
  assumes "shows_history k ext h" "strokes ext h (key_bytes [(status, b)]) = (ext', h')"
  shows "shows_history (fst (keyboard_handler k w status b)) ext' h'"
proof (cases "status AND 0x01 \<noteq> 0 \<and> status AND 0x20 = 0")
  case False
  then show ?thesis using assms by (auto simp: keyboard_handler_def key_bytes_def)
next
  case True
  then have kb: "key_bytes [(status, b)] = [b]" by (simp add: key_bytes_def)
  show ?thesis
  proof (cases "b = 0xE0")
    case True
    then show ?thesis using assms \<open>status AND 0x01 \<noteq> 0 \<and> status AND 0x20 = 0\<close> kb by (auto simp: keyboard_handler_def shows_history_def)
  next
    case False
    then have "ext' = False" "h' = stroke_of ext b # h" using assms(2) kb by simp_all
    then show ?thesis using handler_decodes [OF _ _ False, of status k w] True decode_shows [OF assms(1), of b]
      by (simp add: deliver_shows)
  qed
qed

lemma strokes_append: "strokes ext h (xs @ ys) = (let (e, h1) = strokes ext h xs in strokes e h1 ys)"
  by (induction xs arbitrary: ext h) auto

lemma run_shows:
  assumes "shows_history k ext h" "kbd_run k w irqs = (k', w')"
  shows "\<exists>ext' h'. strokes ext h (key_bytes irqs) = (ext', h') \<and> shows_history k' ext' h'"
  using assms
proof (induction irqs arbitrary: k w ext h)
  case Nil
  then show ?case by (simp add: kbd_run_def key_bytes_def)
next
  case (Cons irq irqs)
  obtain status b where irq: "irq = (status, b)" by fastforce
  obtain k1 w1 where s: "keyboard_handler k w status b = (k1, w1)" by fastforce
  obtain e1 h1 where st: "strokes ext h (key_bytes [(status, b)]) = (e1, h1)" by fastforce
  have k1: "shows_history k1 e1 h1" using handler_shows [OF Cons.prems(1) st, of w] s by simp
  have run: "kbd_run k1 w1 irqs = (k', w')" using Cons.prems(2) s by (simp add: kbd_run_def irq)
  have kb: "key_bytes (irq # irqs) = key_bytes [(status, b)] @ key_bytes irqs" by (simp add: key_bytes_def irq)
  show ?case using Cons.IH [OF k1 run] unfolding kb strokes_append st by simp
qed

text \<open>
  C16. The modifier state is exactly what the history of key strokes says, for every sequence of
  interrupts, in whatever order keys of both sides are pressed and released: shift, control
  and alt are active while one of their two keys is down, caps lock changes once per
  press however long the key is held, and bytes of the mouse are ignored.
\<close>

theorem keyboard_modifiers_exact:
  assumes "kbd_run (init_keyboard k) w irqs = (k', w')" "strokes False [] (key_bytes irqs) = (ext, h)"
  shows "(kbd_mods k' AND KEY_MOD_SHIFT \<noteq> 0 \<longleftrightarrow> pressed h 0x2A \<or> pressed h 0x36) \<and>
    (kbd_mods k' AND KEY_MOD_CTRL \<noteq> 0 \<longleftrightarrow> pressed h 0x1D \<or> pressed h 0x11D) \<and>
    (kbd_mods k' AND KEY_MOD_ALT \<noteq> 0 \<longleftrightarrow> pressed h 0x38 \<or> pressed h 0x138) \<and>
    (kbd_mods k' AND KEY_MOD_CAPS \<noteq> 0 \<longleftrightarrow> caps_on h) \<and> kbd_extended k' = ext"
proof -
  have "shows_history (init_keyboard k) False []" by (simp add: shows_history_def init_keyboard_def)
  from run_shows [OF this assms(1)] assms(2) have "shows_history k' ext h" by simp
  then show ?thesis by (simp add: shows_history_def bit_mask)
qed

theorem keyboard_modifiers_witness:
  "\<exists>v k' w'. kbd_run (init_keyboard \<lparr>kbd_buffer = replicate 256 0, kbd_head = 0, kbd_tail = 0, kbd_held = 0, kbd_mods = 0, kbd_extended = False\<rparr>)
       (boot_kwm v) [(1, 0x2A), (1, 0x36), (0x21, 0xAA), (1, 0xAA)] = (k', w') \<and> kbd_mods k' AND KEY_MOD_SHIFT \<noteq> 0"
proof -
  let ?k = "\<lparr>kbd_buffer = replicate 256 0, kbd_head = 0, kbd_tail = 0, kbd_held = 0, kbd_mods = 0, kbd_extended = False\<rparr>"
  let ?i = "[(1, 0x2A), (1, 0x36), (0x21, 0xAA), (1, 0xAA)] :: (u8 \<times> u8) list"
  have h: "strokes False [] (key_bytes ?i) = (False, [(0x2A, True), (0x36, False), (0x2A, False)])"
    by (simp add: key_bytes_def stroke_of_def)
  obtain k' w' where r: "kbd_run (init_keyboard ?k) (boot_kwm (empty_vmm pmm_boot)) ?i = (k', w')" by fastforce
  with keyboard_modifiers_exact [OF r h] show ?thesis by auto
qed

section \<open>Text and events\<close>

definition kbd_inv :: "kbd \<Rightarrow> bool" where
  "kbd_inv k \<longleftrightarrow> length (kbd_buffer k) = KBD_BUFFER_SIZE \<and> kbd_head k < KBD_BUFFER_SIZE \<and> kbd_tail k < KBD_BUFFER_SIZE"

text \<open>The characters that wait in the terminal's buffer.\<close>

definition typed :: "kbd \<Rightarrow> u8 list" where
  "typed k = ring_list KBD_BUFFER_SIZE (kbd_buffer k) (kbd_head k) (kbd_tail k)"

interpretation kb_ring: ring KBD_BUFFER_SIZE
  by unfold_locales simp

lemma tty_put_typed:
  assumes "kbd_inv k"
  shows "kbd_inv (tty_put k c)" "typed (tty_put k c) = (if length (typed k) < 255 then typed k @ [c] else typed k)"
proof -
  let ?n = "(kbd_head k + 1) mod KBD_BUFFER_SIZE"
  have at: "kbd_head k < KBD_BUFFER_SIZE" "kbd_tail k < KBD_BUFFER_SIZE" "length (kbd_buffer k) = KBD_BUFFER_SIZE"
    using assms by (simp_all add: kbd_inv_def)
  show "kbd_inv (tty_put k c)" using assms by (simp add: tty_put_def kbd_inv_def Let_def)
  have full: "length (typed k) = 255 \<longleftrightarrow> ?n = kbd_tail k"
    using kb_ring.ring_full_iff [OF at(1,2), of "kbd_buffer k"] by (simp add: typed_def)
  have lt: "length (typed k) < 256" unfolding typed_def by (rule kb_ring.length_ring_list_less)
  show "typed (tty_put k c) = (if length (typed k) < 255 then typed k @ [c] else typed k)"
  proof (cases "?n = kbd_tail k")
    case True
    then show ?thesis using full by (simp add: tty_put_def Let_def)
  next
    case False
    then have "typed (tty_put k c) = typed k @ [c]"
      using kb_ring.ring_push [OF at False, of c] by (simp add: tty_put_def typed_def Let_def)
    moreover have "length (typed k) < 255" using False full lt by simp
    ultimately show ?thesis by simp
  qed
qed

lemma dirty_events [simp]: "events (kwm_frame_dirty w i) = events w"
  by (simp add: kwm_frame_dirty_def frame_dirty_area_def screen_mark_dirty_def Let_def)

lemma normalize_events [simp]: "events (kwm_normalize_zindex w) = events w"
proof -
  have "events (fold (\<lambda>i s. set_win s (order ! i) (win s (order ! i)\<lparr>z_index := of_nat (i + 1)\<rparr>)) ns s) = events s" for order ns s
    by (induction ns arbitrary: s) simp_all
  then show ?thesis by (simp add: kwm_normalize_zindex_def Let_def)
qed

lemma shortcut_events: "events (snd (kwm_handle_shortcut w m r key)) = events w"
  by (simp add: kwm_handle_shortcut_def kwm_cycle_focus_def normalize_if_past_def raise_window_def Let_def)

text \<open>
  C19. A key stroke is delivered at most once. A shortcut of the window manager reaches neither
  program nor terminal. With a focused window the stroke, press or release, becomes one event
  with character, modifiers and key number in the queue of the window's owner, and
  nothing is typed. Without one, text without control or alt is appended to what the terminal
  has not yet read, or dropped when 255 characters wait, and no event is sent.
\<close>

theorem keyboard_delivers_once:
  assumes inv: "kbd_inv k" "event_inv (events w)" and st: "status AND 0x01 \<noteq> 0" "status AND 0x20 = 0" "b \<noteq> 0xE0"
    and key: "stroke_of (kbd_extended k) b = (key, released)" and call: "keyboard_handler k w status b = (k', w')"
    and c: "c = key_ascii (kbd_mods k') (b AND 0x7F) released"
    and sc: "kwm_handle_shortcut w (kbd_mods k') released key = (taken, w1)" and rt: "kwm_route_keyboard w1 = (t, wid)"
  shows "kbd_inv k' \<and> w' = w1\<lparr>events := events w'\<rparr> \<and>
    (if taken then typed k' = typed k \<and> events w' = events w
     else if t \<ge> 0 then
       typed k' = typed k \<and>
       (\<forall>u. valid_task u \<longrightarrow> queue_of (events w') u =
          (if u = t then enq_bounded 63 (queue_of (events w) u)
             \<lparr>ev_type = (if released then EVENT_KEY_RELEASE else EVENT_KEY_PRESS), param1 = uint c, param2 = uint (kbd_mods k'),
              param3 = uint key, ev_win_id = wid\<rparr>
           else queue_of (events w) u))
     else
       events w' = events w \<and>
       typed k' = (if \<not> released \<and> c \<noteq> 0 \<and> kbd_mods k' AND (KEY_MOD_CTRL OR KEY_MOD_ALT) = 0 \<and> length (typed k) < 255
                   then typed k @ [c] else typed k))"
proof -
  let ?k = "decode k b"
  have d: "deliver_key ?k w (key_ascii (kbd_mods ?k) (b AND 0x7F) released) key released = (k', w')"
    using handler_decodes [OF st, of k w] call key by simp
  have same: "kbd_inv ?k" "typed ?k = typed k" using inv(1) by (simp_all add: kbd_inv_def typed_def)
  have mods: "kbd_mods k' = kbd_mods ?k"
    using d by (auto simp: deliver_key_def tty_put_def Let_def split: prod.splits if_splits)
  have ev: "events w1 = events w" using shortcut_events [of w "kbd_mods k'" released key] sc by simp
  have c': "c = key_ascii (kbd_mods ?k) (b AND 0x7F) released" by (simp add: c mods)
  note d' = d [folded c', unfolded deliver_key_def, folded mods, unfolded sc Let_def prod.case rt]
  show ?thesis
  proof (cases taken)
    case True
    then show ?thesis using d' same ev by auto
  next
    case False
    show ?thesis
    proof (cases "t \<ge> 0")
      case True
      then show ?thesis using d' False same ev queue_of_push [OF inv(2)] queue_of_push_other by auto
    next
      case neg: False
      then show ?thesis using d' False same ev tty_put_typed [OF same(1), of c] by (auto split: if_splits)
    qed
  qed
qed

theorem keyboard_delivers_once_witness:
  "\<exists>v k' w'. keyboard_handler \<lparr>kbd_buffer = replicate 256 0, kbd_head = 0, kbd_tail = 0, kbd_held = 0, kbd_mods = 0, kbd_extended = False\<rparr>
       (boot_kwm v) 1 0x1E = (k', w') \<and> typed k' = [97]"
proof -
  let ?k = "\<lparr>kbd_buffer = replicate 256 0, kbd_head = 0, kbd_tail = 0, kbd_held = 0, kbd_mods = 0, kbd_extended = False\<rparr>"
  let ?w = "boot_kwm (empty_vmm pmm_boot)"
  obtain k' w' where r: "keyboard_handler ?k ?w 1 0x1E = (k', w')" by fastforce
  have i: "kbd_inv ?k" "event_inv (events ?w)" "typed ?k = []" using event_init_inv by (simp_all add: kbd_inv_def boot_kwm_def typed_def)
  have key: "stroke_of (kbd_extended ?k) 0x1E = (0x1E, False)" by (simp add: stroke_of_def)
  have m: "kbd_mods k' = 0"
    using r by (auto simp: keyboard_handler_def deliver_key_def track_modifier_def derive_mods_def tty_put_def Let_def split: prod.splits if_splits)
  have sc: "kwm_handle_shortcut ?w (kbd_mods k') False 0x1E = (False, ?w)" by (simp add: kwm_handle_shortcut_def boot_kwm_def m)
  have rt: "kwm_route_keyboard ?w = (- 1, 0)" by (simp add: kwm_route_keyboard_def boot_kwm_def valid_win_def)
  have a: "97 = key_ascii (kbd_mods k') (0x1E AND 0x7F) False" by (simp add: m key_ascii_def kbdus_def)
  from keyboard_delivers_once [OF i(1,2) _ _ _ key r a sc rt] i(3) m have "typed k' = [97]" by simp
  with r show ?thesis by blast
qed

lemma key_ascii_letter:
  assumes "code < 128" "kbdus ! code \<ge> 97" "kbdus ! code \<le> 122"
  shows "key_ascii mods (of_nat code) False = (if (mods AND KEY_MOD_SHIFT \<noteq> 0) \<noteq> (mods AND KEY_MOD_CAPS \<noteq> 0) then kbdus ! code - 32 else kbdus ! code)"
proof -
  have "\<forall>c \<in> set [0..<128]. 97 \<le> kbdus ! c \<and> kbdus ! c \<le> 122 \<longrightarrow> kbdus_shift ! c = kbdus ! c - 32" by code_simp
  then have "kbdus_shift ! code = kbdus ! code - 32" using assms by simp
  moreover have "unat (of_nat code :: u8) = code" using assms(1) by simp
  ultimately show ?thesis using assms(2,3) by (simp add: key_ascii_def Let_def)
qed

text \<open>
  The terminal reads what was typed, in order: \<open>keyboard_read\<close> returns the oldest waiting
  characters, as many as asked for and there are, and leaves exactly the others.
\<close>

theorem keyboard_read_fifo:
  assumes "kbd_inv k" "keyboard_read k n = (cs, k')"
  shows "cs = take n (typed k) \<and> typed k' = drop n (typed k) \<and> kbd_inv k' \<and> typed (flush_kbd_buffer k') = []"
  using assms
proof (induction n arbitrary: k cs k')
  case 0
  then show ?case by (simp add: flush_kbd_buffer_def typed_def)
next
  case (Suc n)
  have at: "kbd_head k < KBD_BUFFER_SIZE" "kbd_tail k < KBD_BUFFER_SIZE" using Suc.prems(1) by (simp_all add: kbd_inv_def)
  show ?case
  proof (cases "kbd_head k = kbd_tail k")
    case True
    then show ?thesis using Suc.prems by (simp add: typed_def flush_kbd_buffer_def)
  next
    case False
    let ?k = "k\<lparr>kbd_tail := (kbd_tail k + 1) mod KBD_BUFFER_SIZE\<rparr>"
    obtain ds k2 where r: "keyboard_read ?k n = (ds, k2)" by fastforce
    have inv: "kbd_inv ?k" using Suc.prems(1) by (simp add: kbd_inv_def)
    have "typed k = kbd_buffer k ! kbd_tail k # typed ?k" using kb_ring.ring_pop [OF at False, of "kbd_buffer k"] by (simp add: typed_def)
    then show ?thesis using Suc.IH [OF inv r] Suc.prems(2) False r by (simp add: Let_def)
  qed
qed

theorem keyboard_read_fifo_witness:
  "\<exists>k'. keyboard_read \<lparr>kbd_buffer = 104 # 105 # replicate 254 0, kbd_head = 2, kbd_tail = 0, kbd_held = 0, kbd_mods = 0, kbd_extended = False\<rparr> 5 = ([104, 105], k')"
proof -
  let ?k = "\<lparr>kbd_buffer = 104 # 105 # replicate 254 0, kbd_head = 2, kbd_tail = 0, kbd_held = 0, kbd_mods = 0, kbd_extended = False\<rparr>"
  obtain cs k' where r: "keyboard_read ?k 5 = (cs, k')" by fastforce
  have "kbd_inv ?k" by (simp add: kbd_inv_def)
  moreover have "typed ?k = [104, 105]" by (simp add: typed_def ring_list_def upt_rec)
  ultimately show ?thesis using keyboard_read_fifo [OF _ r] r by auto
qed

end
