(* ===== verification/Mouse.thy ===== *)
theory Mouse
  imports Keyboard
begin

text \<open>
  The mouse driver, \<^verbatim>\<open>drivers/mouse.c\<close>: assembly of the packets, movement of the cursor, edges of the
  buttons and delivery through the window manager. The interrupt handler takes the status byte
  and the data byte it reads from the controller as arguments. A call of \<open>tty_scroll_view\<close> is the
  last result. Programming the controller in \<open>init_mouse\<close> is port traffic; what it leaves is
  whether there is a wheel.
\<close>

section \<open>State\<close>

record mouse =
  mouse_x :: u32
  mouse_y :: u32
  mouse_has_wheel :: bool
  mouse_cycle :: nat
  mouse_byte :: "u8 list"
  last_left_click :: bool
  last_right_click :: bool

definition mouse_boot :: "bool \<Rightarrow> mouse" where
  "mouse_boot wheel = \<lparr>mouse_x = 512, mouse_y = 384, mouse_has_wheel = wheel, mouse_cycle = 0, mouse_byte = replicate 4 0,
     last_left_click = False, last_right_click = False\<rparr>"

definition packet_size :: "mouse \<Rightarrow> nat" where
  "packet_size m = (if mouse_has_wheel m then 4 else 3)"

section \<open>Delivery\<close>

text \<open>Cursor movement in one direction: wrap-around as the hardware adds, then the bounds of the screen.\<close>

definition clamp :: "u32 \<Rightarrow> u32 \<Rightarrow> u32" where
  "clamp x most = (let x1 = (if sint x < 0 then 0 else x) in if sint x1 > sint most then most else x1)"

definition move_cursor :: "mouse \<Rightarrow> u32 \<Rightarrow> u32 \<Rightarrow> mouse" where
  "move_cursor m w h =
     m\<lparr>mouse_x := clamp (mouse_x m + scast (mouse_byte m ! 1)) (w - 12),
       mouse_y := clamp (mouse_y m - scast (mouse_byte m ! 2)) (h - 16)\<rparr>"

definition send_click :: "kwm \<Rightarrow> mouse \<Rightarrow> int \<Rightarrow> bool \<Rightarrow> kwm" where
  "send_click w m button down =
     (let (target, wid, _) = kwm_route_mouse w (mouse_x m) (mouse_y m)
      in if target \<ge> 0 then w\<lparr>events := push_event_to (events w) target 3 button (of_bool down) 0 wid\<rparr> else w)"

definition send_move :: "kwm \<Rightarrow> mouse \<Rightarrow> kwm" where
  "send_move w m =
     (let (target, wid, pos) = kwm_route_mouse w (mouse_x m) (mouse_y m);
          (lx, ly) = (case pos of Some p \<Rightarrow> p | None \<Rightarrow> (0, 0))
      in if target \<ge> 0 then w\<lparr>events := push_event_to (events w) target 2 (sint lx) (sint ly) 0 wid\<rparr> else w)"

definition send_wheel :: "kwm \<Rightarrow> mouse \<Rightarrow> int \<Rightarrow> kwm \<times> int option" where
  "send_wheel w m wheel_z =
     (if wheel_z = 0 then (w, None)
      else
        let (target, wid, pos) = kwm_route_mouse w (mouse_x m) (mouse_y m);
            (lx, ly) = (case pos of Some p \<Rightarrow> p | None \<Rightarrow> (0, 0))
        in if target \<ge> 0 then (w\<lparr>events := push_event_to (events w) target 4 wheel_z (sint lx) (sint ly) wid\<rparr>, None)
           else (w, Some (- wheel_z * 3)))"

section \<open>The interrupt handler\<close>

text \<open>A complete packet; one with an overflow bit is dropped.\<close>

definition mouse_packet :: "mouse \<Rightarrow> kwm \<Rightarrow> mouse \<times> kwm \<times> int option" where
  "mouse_packet m w =
     (let b = mouse_byte m
      in if b ! 0 AND 0x80 \<noteq> 0 \<or> b ! 0 AND 0x40 \<noteq> 0 then (m, w, None)
         else
           let wheel_z = (if mouse_has_wheel m then sint (b ! 3) else 0);
               m1 = move_cursor m (fb_width w) (fb_height w);
               left = (b ! 0 AND 0x01 \<noteq> 0);
               right = (b ! 0 AND 0x02 \<noteq> 0);
               left_down = (left \<and> \<not> last_left_click m);
               left_up = (\<not> left \<and> last_left_click m);
               (consumed, w1) = kwm_process_mouse w (mouse_x m1) (mouse_y m1) left_down left_up;
               w2 = (if \<not> consumed then if left \<noteq> last_left_click m then send_click w1 m1 0 left else w1
                     else if left_up then send_click w1 m1 0 False else w1);
               w3 = (if right \<noteq> last_right_click m then send_click w2 m1 1 right else w2);
               m2 = m1\<lparr>last_right_click := right, last_left_click := left\<rparr>;
               w4 = send_move w3 m2;
               (w5, scroll) = send_wheel w4 m2 wheel_z
           in (m2, w5, scroll))"

definition mouse_handler :: "mouse \<Rightarrow> kwm \<Rightarrow> u8 \<Rightarrow> u8 \<Rightarrow> mouse \<times> kwm \<times> int option" where
  "mouse_handler m w status data =
     (if status AND 0x01 \<noteq> 0 \<and> status AND 0x20 \<noteq> 0 then
        let c = (if mouse_cycle m \<ge> 4 then 0 else mouse_cycle m);
            m1 = m\<lparr>mouse_byte := (mouse_byte m)[c := data], mouse_cycle := c + 1\<rparr>
        in if mouse_cycle m1 \<ge> packet_size m1 then mouse_packet (m1\<lparr>mouse_cycle := 0\<rparr>) w else (m1, w, None)
      else (m, w, None))"

section \<open>Events of a packet\<close>

lemma hit_loop_events: "hit_loop (w\<lparr>events := e\<rparr>) px py is z t = hit_loop w px py is z t"
  by (induction "is" arbitrary: z t) auto

lemma route_events [simp]: "kwm_route_mouse (w\<lparr>events := e\<rparr>) px py = kwm_route_mouse w px py"
  by (simp add: kwm_route_mouse_def kwm_hit_test_def hit_loop_events Let_def)

definition push_all :: "event_state \<Rightarrow> int \<Rightarrow> kyuzen_event list \<Rightarrow> event_state" where
  "push_all e t evs = foldl (\<lambda>e ev. push_event_to e t (ev_type ev) (param1 ev) (param2 ev) (param3 ev) (ev_win_id ev)) e evs"

lemma push_all_simps [simp]:
  "push_all e t [] = e"
  "push_all e t (ev # evs) = push_all (push_event_to e t (ev_type ev) (param1 ev) (param2 ev) (param3 ev) (ev_win_id ev)) t evs"
  by (simp_all add: push_all_def)

lemma push_all_append: "push_all e t (xs @ ys) = push_all (push_all e t xs) t ys"
  by (simp add: push_all_def)

lemma queue_push_all:
  assumes "event_inv e" "valid_task u"
  shows "queue_of (push_all e t evs) u = (if u = t then foldl (enq_bounded 63) (queue_of e u) evs else queue_of e u)"
  using assms
proof (induction evs arbitrary: e)
  case (Cons ev evs)
  let ?e = "push_event_to e t (ev_type ev) (param1 ev) (param2 ev) (param3 ev) (ev_win_id ev)"
  have "queue_of ?e u = (if u = t then enq_bounded 63 (queue_of e u) ev else queue_of e u)"
    using queue_of_push [OF Cons.prems] queue_of_push_other [OF _ Cons.prems(2)] by (cases ev) auto
  then show ?case using Cons.IH [OF push_event_inv [OF Cons.prems(1)] Cons.prems(2)] by (cases "u = t") simp_all
qed simp

definition click :: "int \<Rightarrow> bool \<Rightarrow> int \<Rightarrow> kyuzen_event" where
  "click button down wid = \<lparr>ev_type = 3, param1 = button, param2 = of_bool down, param3 = 0, ev_win_id = wid\<rparr>"

text \<open>What a packet means for the window under the cursor: the left button unless the window manager took
  it, the right button, the position, the wheel.\<close>

definition packet_events :: "mouse \<Rightarrow> bool \<Rightarrow> int \<Rightarrow> u32 \<times> u32 \<Rightarrow> kyuzen_event list" where
  "packet_events m consumed wid pos =
     (let b = mouse_byte m; left = (b ! 0 AND 0x01 \<noteq> 0); right = (b ! 0 AND 0x02 \<noteq> 0);
          wheel_z = (if mouse_has_wheel m then sint (b ! 3) else 0)
      in (if left \<noteq> last_left_click m \<and> \<not> consumed then [click 0 left wid] else []) @
         (if right \<noteq> last_right_click m then [click 1 right wid] else []) @
         [\<lparr>ev_type = 2, param1 = sint (fst pos), param2 = sint (snd pos), param3 = 0, ev_win_id = wid\<rparr>] @
         (if wheel_z \<noteq> 0 then [\<lparr>ev_type = 4, param1 = wheel_z, param2 = sint (fst pos), param3 = sint (snd pos), ev_win_id = wid\<rparr>] else []))"

lemma send_eq:
  assumes "kwm_route_mouse w (mouse_x m) (mouse_y m) = (t, wid, pos)"
  shows "send_click w m btn down = (if t \<ge> 0 then w\<lparr>events := push_all (events w) t [click btn down wid]\<rparr> else w)"
    "send_move w m = (if t \<ge> 0 then w\<lparr>events := push_all (events w) t
       [\<lparr>ev_type = 2, param1 = sint (fst (case pos of Some p \<Rightarrow> p | None \<Rightarrow> (0, 0))),
         param2 = sint (snd (case pos of Some p \<Rightarrow> p | None \<Rightarrow> (0, 0))), param3 = 0, ev_win_id = wid\<rparr>]\<rparr> else w)"
    "send_wheel w m z = (if z = 0 then (w, None) else if t \<ge> 0 then (w\<lparr>events := push_all (events w) t
       [\<lparr>ev_type = 4, param1 = z, param2 = sint (fst (case pos of Some p \<Rightarrow> p | None \<Rightarrow> (0, 0))),
         param3 = sint (snd (case pos of Some p \<Rightarrow> p | None \<Rightarrow> (0, 0))), ev_win_id = wid\<rparr>]\<rparr>, None) else (w, Some (- z * 3)))"
  using assms by (simp_all add: send_click_def send_move_def send_wheel_def click_def Let_def split: prod.split)

lemma process_up: "fst (kwm_process_mouse w x y down True) = False"
  by (simp add: kwm_process_mouse_def)

lemma process_event_inv:
  assumes "event_inv (events w)"
  shows "event_inv (events (snd (kwm_process_mouse w x y down up)))"
proof -
  obtain w1 co sd where p: "press_locked w x y (kwm_hit_test w x y) = (w1, co, sd)" by (metis prod_cases3)
  have "events (fst (press_locked w x y (kwm_hit_test w x y))) = events w"
    by (simp add: press_locked_def kwm_bring_to_front_def raise_window_def Let_def)
  then have w1: "events w1 = events w" using p by simp
  have dr: "events (drag_to w i x y) = events w" for i
    by (simp add: drag_to_def frame_dirty_area_def screen_mark_dirty_def Let_def)
  show ?thesis using assms w1 dr by (simp add: kwm_process_mouse_def p Let_def kinv)
qed

lemma process_screen:
  "fb_width (snd (kwm_process_mouse w x y down up)) = fb_width w" "fb_height (snd (kwm_process_mouse w x y down up)) = fb_height w"
proof -
  obtain w1 co sd where p: "press_locked w x y (kwm_hit_test w x y) = (w1, co, sd)" by (metis prod_cases3)
  have "fb_width (fst (press_locked w x y (kwm_hit_test w x y))) = fb_width w" "fb_height (fst (press_locked w x y (kwm_hit_test w x y))) = fb_height w"
    by (simp_all add: press_locked_def kwm_bring_to_front_def raise_window_def Let_def)
  then have w1: "fb_width w1 = fb_width w" "fb_height w1 = fb_height w" using p by simp_all
  have fr: "fb_width (kwm_frame_dirty w i) = fb_width w" "fb_height (kwm_frame_dirty w i) = fb_height w" for w i
    by (simp_all add: kwm_frame_dirty_def frame_dirty_area_def screen_mark_dirty_def Let_def)
  have dr: "fb_width (drag_to w i x y) = fb_width w" "fb_height (drag_to w i x y) = fb_height w" for i
    by (simp_all add: drag_to_def frame_dirty_area_def screen_mark_dirty_def Let_def)
  show "fb_width (snd (kwm_process_mouse w x y down up)) = fb_width w" "fb_height (snd (kwm_process_mouse w x y down up)) = fb_height w"
    using w1 dr fr by (simp_all add: kwm_process_mouse_def p Let_def)
qed

text \<open>The effect of a packet, relative to the moved cursor.\<close>

lemma packet_effect:
  assumes inv: "event_inv (events w)" and ok: "mouse_byte m ! 0 AND 0x80 = 0" "mouse_byte m ! 0 AND 0x40 = 0"
    and m1: "m1 = move_cursor m (fb_width w) (fb_height w)" and left: "left = (mouse_byte m ! 0 AND 0x01 \<noteq> 0)"
    and p: "kwm_process_mouse w (mouse_x m1) (mouse_y m1) (left \<and> \<not> last_left_click m) (\<not> left \<and> last_left_click m) = (consumed, w1)"
    and rt: "kwm_route_mouse w1 (mouse_x m1) (mouse_y m1) = (t, wid, pos)" and call: "mouse_packet m w = (m', w', scroll)"
  shows "m' = m1\<lparr>last_left_click := left, last_right_click := (mouse_byte m ! 0 AND 0x02 \<noteq> 0)\<rparr> \<and> w' = w1\<lparr>events := events w'\<rparr> \<and>
    (\<forall>u. valid_task u \<longrightarrow> queue_of (events w') u =
       (if u = t then foldl (enq_bounded 63) (queue_of (events w1) u) (packet_events m consumed wid (case pos of Some p \<Rightarrow> p | None \<Rightarrow> (0, 0)))
        else queue_of (events w1) u)) \<and>
    scroll = (if t < 0 \<and> mouse_has_wheel m \<and> mouse_byte m ! 3 \<noteq> 0 then Some (- sint (mouse_byte m ! 3) * 3) else None) \<and>
    (\<not> left \<and> last_left_click m \<longrightarrow> \<not> consumed)"
proof -
  let ?evs = "packet_events m consumed wid (case pos of Some p \<Rightarrow> p | None \<Rightarrow> (0, 0))"
  define right where "right = (mouse_byte m ! 0 AND 0x02 \<noteq> 0)"
  define m2 where "m2 = m1\<lparr>last_right_click := right, last_left_click := left\<rparr>"
  define z where "z = (if mouse_has_wheel m then sint (mouse_byte m ! 3) else 0)"
  have up: "\<not> left \<and> last_left_click m \<longrightarrow> \<not> consumed"
    using process_up [of w "mouse_x m1" "mouse_y m1" "left \<and> \<not> last_left_click m"] p by (metis fst_conv)
  define at where "at e = (if t \<ge> 0 then w1\<lparr>events := e\<rparr> else w1)" for e
  let ?pos = "case pos of Some p \<Rightarrow> p | None \<Rightarrow> (0, 0)"
  have w1: "w1 = at (events w1)" by (simp add: at_def)
  have rt1: "kwm_route_mouse (at e) (mouse_x m1) (mouse_y m1) = (t, wid, pos)" "kwm_route_mouse (at e) (mouse_x m2) (mouse_y m2) = (t, wid, pos)" for e
    using rt by (simp_all add: at_def m2_def)
  have send: "send_click (at e) m1 btn down = at (push_all e t [click btn down wid])"
    "send_move (at e) m2 = at (push_all e t [\<lparr>ev_type = 2, param1 = sint (fst ?pos), param2 = sint (snd ?pos), param3 = 0, ev_win_id = wid\<rparr>])"
    "send_wheel (at e) m2 z = (at (push_all e t (if z \<noteq> 0 then [\<lparr>ev_type = 4, param1 = z, param2 = sint (fst ?pos), param3 = sint (snd ?pos), ev_win_id = wid\<rparr>] else [])),
       if z \<noteq> 0 \<and> t < 0 then Some (- z * 3) else None)" for e btn down
    unfolding send_eq [OF rt1(1)] send_eq [OF rt1(2)] by (simp_all add: at_def)
  define c1 where "c1 = (if left \<noteq> last_left_click m \<and> \<not> consumed then [click 0 left wid] else [])"
  define c2 where "c2 = (if right \<noteq> last_right_click m then [click 1 right wid] else [])"
  have w2: "(if \<not> consumed then if left \<noteq> last_left_click m then send_click w1 m1 0 left else w1
      else if \<not> left \<and> last_left_click m then send_click w1 m1 0 False else w1) = at (push_all (events w1) t c1)"
    using up by (subst (1 2 3 4) w1) (simp add: send c1_def)
  have w3: "(if right \<noteq> last_right_click m then send_click (at e) m1 1 right else at e) = at (push_all e t c2)" for e
    by (simp add: send c2_def)
  have evs: "?evs = c1 @ c2 @ [\<lparr>ev_type = 2, param1 = sint (fst ?pos), param2 = sint (snd ?pos), param3 = 0, ev_win_id = wid\<rparr>] @
      (if z \<noteq> 0 then [\<lparr>ev_type = 4, param1 = z, param2 = sint (fst ?pos), param3 = sint (snd ?pos), ev_win_id = wid\<rparr>] else [])"
    by (simp only: packet_events_def Let_def c1_def c2_def right_def z_def left)
  have "mouse_packet m w = (m2, at (push_all (events w1) t ?evs), if z \<noteq> 0 \<and> t < 0 then Some (- z * 3) else None)"
    unfolding mouse_packet_def Let_def m1 [symmetric] left [symmetric] right_def [symmetric] z_def [symmetric] p prod.case w2 w3 m2_def [symmetric]
    using ok
    by (simp add: evs send push_all_append del: push_all_simps) simp
  then have res: "m' = m2" "w' = at (push_all (events w1) t ?evs)" "scroll = (if z \<noteq> 0 \<and> t < 0 then Some (- z * 3) else None)"
    using call by simp_all
  have z0: "z \<noteq> 0 \<longleftrightarrow> mouse_has_wheel m \<and> mouse_byte m ! 3 \<noteq> 0" by (simp add: z_def signed_eq_0_iff)
  have inv1: "event_inv (events w1)" using process_event_inv [OF inv, of "mouse_x m1" "mouse_y m1"] p by (metis snd_conv)
  have "queue_of (events w') u = (if u = t then foldl (enq_bounded 63) (queue_of (events w1) u) ?evs else queue_of (events w1) u)" if "valid_task u" for u
    using queue_push_all [OF inv1 that, of t ?evs] that res(2) by (auto simp: valid_task_def at_def)
  moreover have "w' = w1\<lparr>events := events w'\<rparr>" using res(2) by (simp add: at_def)
  ultimately show ?thesis using res(1,3) up z0 by (auto simp: m2_def right_def z_def)
qed

section \<open>The cursor\<close>

text \<open>The screen is larger than the cursor and smaller than what the additions can leave.\<close>

definition screen_ok :: "kwm \<Rightarrow> bool" where
  "screen_ok w \<longleftrightarrow> 12 \<le> unat (fb_width w) \<and> unat (fb_width w) < 2 ^ 30 \<and> 16 \<le> unat (fb_height w) \<and> unat (fb_height w) < 2 ^ 30"

definition mouse_inv :: "mouse \<Rightarrow> kwm \<Rightarrow> bool" where
  "mouse_inv m w \<longleftrightarrow> length (mouse_byte m) = 4 \<and> mouse_cycle m < packet_size m \<and>
     unat (mouse_x m) + 12 \<le> unat (fb_width w) \<and> unat (mouse_y m) + 16 \<le> unat (fb_height w)"

lemma sint_small:
  assumes "unat (x :: u32) < 2147483648"
  shows "sint x = int (unat x)"
proof -
  have "uint x < 2147483648" using assms uint_nat [of x] by linarith
  then have "signed_take_bit 31 (uint x) = uint x" by (intro signed_take_bit_int_eq_self) (use uint_ge_0 [of x] in \<open>simp_all, linarith\<close>)
  then show ?thesis by (simp add: sint_uint)
qed

lemma clamp_bound:
  fixes most x :: u32
  assumes "unat most < 2147483648"
  shows "unat (clamp x most) \<le> unat most"
proof -
  have pos: "unat x1 \<le> unat most" if "0 \<le> sint x1" "sint x1 \<le> sint most" for x1 :: u32
  proof -
    have le: "sint x1 \<le> int (unat most)" using that(2) unfolding sint_small [OF assms] .
    then have "sint x1 < 4294967296" using assms by linarith
    then have "uint x1 = sint x1" using that(1) uint_sint [of x1] by (simp add: take_bit_int_eq_self)
    then have "int (unat x1) \<le> int (unat most)" using le uint_nat [of x1] by linarith
    then show ?thesis by linarith
  qed
  have "0 \<le> sint (0 :: u32)" by simp
  then show ?thesis unfolding clamp_def Let_def using pos [of x] pos [of 0] by (cases "sint x < 0"; cases "sint x > sint most") auto
qed

text \<open>Within the screen the movement is exact: the sum, cut off at the edges.\<close>

lemma clamp_exact:
  fixes x d most :: u32
  assumes "unat x \<le> unat most" "unat most < 1073741824" "- 1000 < k" "k < 1000" "sint (x + d) = int (unat x) + k"
  shows "int (unat (clamp (x + d) most)) = max 0 (min (int (unat x) + k) (int (unat most)))"
proof -
  have m: "sint most = int (unat most)" by (rule sint_small) (use assms(2) in simp)
  have pos: "int (unat (x + d)) = int (unat x) + k" if "0 \<le> int (unat x) + k"
  proof -
    have "sint (x + d) < 4294967296" using assms(1,2,4,5) by linarith
    then have "uint (x + d) = sint (x + d)" using that assms(5) uint_sint [of "x + d"] by (simp add: take_bit_int_eq_self)
    then show ?thesis using assms(5) uint_nat [of "x + d"] by linarith
  qed
  show ?thesis
  proof (cases "int (unat x) + k < 0")
    case True
    then show ?thesis using m assms(5) by (simp add: clamp_def)
  next
    case False
    then show ?thesis using m assms(5) pos by (auto simp: clamp_def)
  qed
qed

lemma sint_move:
  fixes x :: u32 and b :: u8
  assumes "unat x < 1073741824"
  shows "sint (x + scast b) = int (unat x) + sint b" "sint (x + (- scast b)) = int (unat x) + (- sint b)" "- 128 \<le> sint b" "sint b < 128"
proof -
  have x: "sint x = int (unat x)" by (rule sint_small) (use assms in simp)
  show b: "- 128 \<le> sint b" "sint b < 128" using sint_greater_eq [of b] sint_less [of b] by simp_all
  have s31: "signed_take_bit 31 k = k" if "- 2147483648 \<le> k" "k < 2147483648" for k :: int
    using that by (intro signed_take_bit_int_eq_self) simp_all
  have sm: "signed_take_bit 31 (int (unat x) + sint b) = int (unat x) + sint b"
      "signed_take_bit 31 (int (unat x) + (- sint b)) = int (unat x) + (- sint b)"
    by (rule s31; use assms b in linarith)+
  have len_u32: "LENGTH(32) - Suc 0 = 31" by simp
  have "x + scast b = of_int (int (unat x) + sint b)" "x + (- scast b) = of_int (int (unat x) + (- sint b))" by simp_all
  then show "sint (x + scast b) = int (unat x) + sint b" "sint (x + (- scast b)) = int (unat x) + (- sint b)"
    by (simp_all only: signed_of_int len_u32 sm of_int_eq_id id_apply)
qed

lemma move_exact:
  assumes sc: "screen_ok w" and inv: "mouse_inv m w"
    and x: "x = of_int (max 0 (min (int (unat (mouse_x m)) + sint (mouse_byte m ! 1)) (int (unat (fb_width w)) - 12)))"
    and y: "y = of_int (max 0 (min (int (unat (mouse_y m)) - sint (mouse_byte m ! 2)) (int (unat (fb_height w)) - 16)))"
  shows "move_cursor m (fb_width w) (fb_height w) = m\<lparr>mouse_x := x, mouse_y := y\<rparr>"
proof -
  have d: "unat (fb_width w - 12) = unat (fb_width w) - 12" "unat (fb_height w - 16) = unat (fb_height w) - 16"
    using sc by (simp_all add: screen_ok_def unat_sub word_le_nat_alt)
  have lt: "unat (mouse_x m) < 1073741824" "unat (mouse_y m) < 1073741824" "unat (mouse_x m) \<le> unat (fb_width w - 12)"
      "unat (mouse_y m) \<le> unat (fb_height w - 16)" "unat (fb_width w - 12) < 1073741824" "unat (fb_height w - 16) < 1073741824"
    using sc inv unfolding screen_ok_def mouse_inv_def d by (simp_all, linarith+)
  note sx = sint_move [OF lt(1), of "mouse_byte m ! 1"] and sy = sint_move [OF lt(2), of "mouse_byte m ! 2"]
  have wd: "int (unat (fb_width w) - 12) = int (unat (fb_width w)) - 12" "int (unat (fb_height w) - 16) = int (unat (fb_height w)) - 16"
    using sc unfolding screen_ok_def by (simp_all add: of_nat_diff)
  have rep: "v = of_int (int (unat v))" for v :: u32 by simp
  have "int (unat (clamp (mouse_x m + scast (mouse_byte m ! 1)) (fb_width w - 12))) =
      max 0 (min (int (unat (mouse_x m)) + sint (mouse_byte m ! 1)) (int (unat (fb_width w)) - 12))"
    using clamp_exact [OF lt(3,5) _ _ sx(1)] sx(3,4) wd(1) unfolding d by simp
  then have cx: "clamp (mouse_x m + scast (mouse_byte m ! 1)) (fb_width w - 12) = x" unfolding x by (metis rep)
  have "int (unat (clamp (mouse_y m + (- scast (mouse_byte m ! 2))) (fb_height w - 16))) =
      max 0 (min (int (unat (mouse_y m)) - sint (mouse_byte m ! 2)) (int (unat (fb_height w)) - 16))"
    using clamp_exact [OF lt(4,6) _ _ sy(2)] sy(3,4) wd(2) unfolding d by simp
  then have cy: "clamp (mouse_y m - scast (mouse_byte m ! 2)) (fb_height w - 16) = y" unfolding y diff_conv_add_uminus by (metis rep)
  show ?thesis unfolding move_cursor_def cx cy ..
qed

text \<open>
  C18. A complete packet without overflow, on a screen the cursor is on, moves the cursor right
  by its first delta and up by its second, stopping at the edges of the screen (the
  cursor is 12 pixels wide and 16 high), remembers both buttons, and is delivered to exactly one queue, that of the
  owner of the window now under the cursor: the change of the left button unless the window
  manager took the press, the change of the right button, the position inside the window and the
  turn of the wheel, in this order. A release of the left button is never swallowed. With no
  window under the cursor only the wheel has an effect, it scrolls the terminal.
\<close>

theorem mouse_packet_delivers:
  assumes inv: "event_inv (events w)" and sc: "screen_ok w" "mouse_inv m w"
    and ok: "mouse_byte m ! 0 AND 0x80 = 0" "mouse_byte m ! 0 AND 0x40 = 0"
    and x: "x = of_int (max 0 (min (int (unat (mouse_x m)) + sint (mouse_byte m ! 1)) (int (unat (fb_width w)) - 12)))"
    and y: "y = of_int (max 0 (min (int (unat (mouse_y m)) - sint (mouse_byte m ! 2)) (int (unat (fb_height w)) - 16)))"
    and left: "left = (mouse_byte m ! 0 AND 0x01 \<noteq> 0)"
    and p: "kwm_process_mouse w x y (left \<and> \<not> last_left_click m) (\<not> left \<and> last_left_click m) = (consumed, w1)"
    and rt: "kwm_route_mouse w1 x y = (t, wid, pos)" and call: "mouse_packet m w = (m', w', scroll)"
  shows "m' = m\<lparr>mouse_x := x, mouse_y := y, last_left_click := left, last_right_click := (mouse_byte m ! 0 AND 0x02 \<noteq> 0)\<rparr> \<and>
    w' = w1\<lparr>events := events w'\<rparr> \<and>
    (\<forall>u. valid_task u \<longrightarrow> queue_of (events w') u =
       (if u = t then foldl (enq_bounded 63) (queue_of (events w1) u) (packet_events m consumed wid (case pos of Some p \<Rightarrow> p | None \<Rightarrow> (0, 0)))
        else queue_of (events w1) u)) \<and>
    scroll = (if t < 0 \<and> mouse_has_wheel m \<and> mouse_byte m ! 3 \<noteq> 0 then Some (- sint (mouse_byte m ! 3) * 3) else None) \<and>
    (\<not> left \<and> last_left_click m \<longrightarrow> \<not> consumed)"
proof -
  let ?m1 = "m\<lparr>mouse_x := x, mouse_y := y\<rparr>"
  note m1 = move_exact [OF sc x y, symmetric]
  have "m' = ?m1\<lparr>last_left_click := left, last_right_click := (mouse_byte m ! 0 AND 0x02 \<noteq> 0)\<rparr> \<and> w' = w1\<lparr>events := events w'\<rparr> \<and>
    (\<forall>u. valid_task u \<longrightarrow> queue_of (events w') u =
       (if u = t then foldl (enq_bounded 63) (queue_of (events w1) u) (packet_events m consumed wid (case pos of Some p \<Rightarrow> p | None \<Rightarrow> (0, 0)))
        else queue_of (events w1) u)) \<and>
    scroll = (if t < 0 \<and> mouse_has_wheel m \<and> mouse_byte m ! 3 \<noteq> 0 then Some (- sint (mouse_byte m ! 3) * 3) else None) \<and>
    (\<not> left \<and> last_left_click m \<longrightarrow> \<not> consumed)"
    by (rule packet_effect [OF inv ok m1 left _ _ call]) (use p rt in simp_all)
  then show ?thesis by simp
qed

definition window_kwm :: "vmm_state \<Rightarrow> kwm" where
  "window_kwm v = (boot_kwm v)\<lparr>kwm_windows := (kwm_windows (boot_kwm v))[0 := (kwm_windows (boot_kwm v) ! 0)
     \<lparr>active := True, win_x := 100, win_y := 100, width := 600, height := 400, z_index := 5, owner_task := 3\<rparr>]\<rparr>"

theorem mouse_packet_delivers_witness:
  "\<exists>v m' w'. mouse_packet ((mouse_boot True)\<lparr>mouse_byte := [0x0A, 5, 251, 1]\<rparr>) (window_kwm v) = (m', w', None) \<and>
     mouse_x m' = 517 \<and> mouse_y m' = 389 \<and>
     queue_of (events w') 3 =
       [click 1 True 1, \<lparr>ev_type = 2, param1 = 417, param2 = 265, param3 = 0, ev_win_id = 1\<rparr>,
        \<lparr>ev_type = 4, param1 = 1, param2 = 417, param3 = 265, ev_win_id = 1\<rparr>] \<and>
     queue_of (events w') 2 = []"
proof -
  let ?m = "(mouse_boot True)\<lparr>mouse_byte := [0x0A, 5, 251, 1]\<rparr>" and ?w = "window_kwm (empty_vmm pmm_boot)"
  obtain m' w' sc where call: "mouse_packet ?m ?w = (m', w', sc)" by (metis prod_cases3)
  have e: "event_inv (events ?w)" "events ?w = event_init" using event_init_inv by (simp_all add: boot_kwm_def window_kwm_def)
  have so: "screen_ok ?w" "mouse_inv ?m ?w"
    by (simp_all add: screen_ok_def mouse_inv_def mouse_boot_def packet_size_def boot_kwm_def window_kwm_def)
  have b: "mouse_byte ?m ! 0 AND 0x80 = 0" "mouse_byte ?m ! 0 AND 0x40 = 0" "False = (mouse_byte ?m ! 0 AND 0x01 \<noteq> 0)" by simp_all
  have xy: "517 = (of_int (max 0 (min (int (unat (mouse_x ?m)) + sint (mouse_byte ?m ! 1)) (int (unat (fb_width ?w)) - 12))) :: u32)"
    "389 = (of_int (max 0 (min (int (unat (mouse_y ?m)) - sint (mouse_byte ?m ! 2)) (int (unat (fb_height ?w)) - 16))) :: u32)"
    by (simp_all add: mouse_boot_def boot_kwm_def window_kwm_def)
  have p: "kwm_process_mouse ?w 517 389 (False \<and> \<not> last_left_click ?m) (\<not> False \<and> last_left_click ?m) = (False, ?w)"
    by (simp add: kwm_process_mouse_def boot_kwm_def valid_win_def mouse_boot_def window_kwm_def)
  have rt: "kwm_route_mouse ?w 517 389 = (3, 1, Some (417, 265))"
  proof -
    have "hit_loop ?w 517 389 is 5 0 = 0" if "set is \<subseteq> {1..<16}" for "is"
      using that by (induction "is") (auto simp: boot_kwm_def window_kwm_def)
    from this [of "[1..<16]"] have "hit_loop ?w 517 389 [1..<16] 5 0 = 0" by (simp add: subset_iff)
    moreover have "[0..<16] = 0 # [1..<16 :: nat]" by (simp add: upt_rec)
    ultimately have "kwm_hit_test ?w 517 389 = 0"
      by (simp add: kwm_hit_test_def boot_kwm_def window_kwm_def in_frame_def tb_of_def is_desktop_def)
    then show ?thesis by (simp add: kwm_route_mouse_def Let_def boot_kwm_def window_kwm_def tb_of_def is_desktop_def)
  qed
  have q0: "queue_of event_init u = []" if "valid_task u" for u using that by (simp add: queue_of_def event_init_def valid_task_def)
  have vt: "valid_task 3" "valid_task 2" by (simp_all add: valid_task_def)
  note d = mouse_packet_delivers [OF e(1) so b(1,2) xy b(3) p rt call]
  have m': "mouse_x m' = 517" "mouse_y m' = 389" "sc = None" using d by simp_all
  have "queue_of (events w') 3 = foldl (enq_bounded 63) [] (packet_events ?m False 1 (417, 265))" "queue_of (events w') 2 = []"
    using d vt q0 e(2) by (simp_all del: foldl.simps)
  moreover have "packet_events ?m False 1 (417, 265) =
      [click 1 True 1, \<lparr>ev_type = 2, param1 = 417, param2 = 265, param3 = 0, ev_win_id = 1\<rparr>,
       \<lparr>ev_type = 4, param1 = 1, param2 = 417, param3 = 265, ev_win_id = 1\<rparr>]"
    by (simp add: packet_events_def mouse_boot_def Let_def)
  ultimately show ?thesis using call m' by (intro exI [of _ "empty_vmm pmm_boot"] exI [of _ m'] exI [of _ w']) (simp add: enq_bounded_def)
qed

definition tail_clicks :: "mouse \<Rightarrow> mouse \<Rightarrow> bool \<Rightarrow> kwm \<Rightarrow> kwm" where
  "tail_clicks m m1 consumed w1 =
     (let b = mouse_byte m; left = (b ! 0 AND 0x01 \<noteq> 0); right = (b ! 0 AND 0x02 \<noteq> 0);
          w2 = (if \<not> consumed then if left \<noteq> last_left_click m then send_click w1 m1 0 left else w1
                else if \<not> left \<and> last_left_click m then send_click w1 m1 0 False else w1)
      in if right \<noteq> last_right_click m then send_click w2 m1 1 right else w2)"

lemma packet_screen:
  assumes "mouse_packet m w = (m', w', sc)"
  shows "fb_width w' = fb_width w" "fb_height w' = fb_height w"
    "(mouse_x m', mouse_y m') = (mouse_x m, mouse_y m) \<or>
     (mouse_x m', mouse_y m') = (mouse_x (move_cursor m (fb_width w) (fb_height w)), mouse_y (move_cursor m (fb_width w) (fb_height w)))"
    "length (mouse_byte m') = length (mouse_byte m)" "mouse_cycle m' = mouse_cycle m" "packet_size m' = packet_size m"
proof -
  have c: "fb_width (send_click v n b d) = fb_width v" "fb_height (send_click v n b d) = fb_height v" for v n b d
    by (simp_all add: send_click_def Let_def split: prod.split)
  have mv: "fb_width (send_move v n) = fb_width v" "fb_height (send_move v n) = fb_height v" for v n
    by (simp_all add: send_move_def Let_def split: prod.split)
  have wl: "fb_width (fst (send_wheel v n z)) = fb_width v" "fb_height (fst (send_wheel v n z)) = fb_height v" for v n z
    by (simp_all add: send_wheel_def Let_def split: prod.split)
  let ?m1 = "move_cursor m (fb_width w) (fb_height w)" and ?left = "mouse_byte m ! 0 AND 0x01 \<noteq> 0"
  obtain cns w1 where p: "kwm_process_mouse w (mouse_x ?m1) (mouse_y ?m1) (?left \<and> \<not> last_left_click m) (\<not> ?left \<and> last_left_click m) = (cns, w1)"
    by fastforce
  have w1: "fb_width w1 = fb_width w" "fb_height w1 = fb_height w"
    using process_screen [of w "mouse_x ?m1" "mouse_y ?m1"] p by (metis snd_conv)+
  have "m' = m \<and> w' = w \<or> (\<exists>l r. m' = ?m1\<lparr>last_right_click := r, last_left_click := l\<rparr>) \<and> fb_width w' = fb_width w \<and> fb_height w' = fb_height w"
  proof (cases "mouse_byte m ! 0 AND 0x80 \<noteq> 0 \<or> mouse_byte m ! 0 AND 0x40 \<noteq> 0")
    case True
    then show ?thesis using assms by (simp add: mouse_packet_def)
  next
    case False
    let ?m2 = "?m1\<lparr>last_right_click := mouse_byte m ! 0 AND 0x02 \<noteq> 0, last_left_click := ?left\<rparr>"
    obtain v where v: "fb_width v = fb_width w" "fb_height v = fb_height w"
        "mouse_packet m w = (?m2, send_wheel (send_move v ?m2) ?m2 (if mouse_has_wheel m then sint (mouse_byte m ! 3) else 0))"
    proof
      show "mouse_packet m w = (?m2, send_wheel (send_move (tail_clicks m ?m1 cns w1) ?m2) ?m2 (if mouse_has_wheel m then sint (mouse_byte m ! 3) else 0))"
        using False unfolding mouse_packet_def Let_def p prod.case tail_clicks_def by (simp split: prod.split)
    qed (simp_all add: tail_clicks_def c w1 Let_def)
    have "fst (send_wheel (send_move v ?m2) ?m2 z) = w'" if "(send_wheel (send_move v ?m2) ?m2 z) = (w', sc)" for z using that by simp
    then show ?thesis using v assms wl mv by (metis Pair_inject fst_conv)
  qed
  then show "fb_width w' = fb_width w" "fb_height w' = fb_height w"
    "(mouse_x m', mouse_y m') = (mouse_x m, mouse_y m) \<or>
     (mouse_x m', mouse_y m') = (mouse_x ?m1, mouse_y ?m1)"
    "length (mouse_byte m') = length (mouse_byte m)" "mouse_cycle m' = mouse_cycle m" "packet_size m' = packet_size m"
    by (auto simp: move_cursor_def packet_size_def)
qed

lemma move_bound:
  assumes "screen_ok w" "mouse_inv m w"
  shows "unat (mouse_x (move_cursor m (fb_width w) (fb_height w))) + 12 \<le> unat (fb_width w)"
    "unat (mouse_y (move_cursor m (fb_width w) (fb_height w))) + 16 \<le> unat (fb_height w)"
proof -
  have d: "unat (fb_width w - 12) = unat (fb_width w) - 12" "unat (fb_height w - 16) = unat (fb_height w) - 16"
    using assms(1) by (simp_all add: screen_ok_def unat_sub word_le_nat_alt)
  have small: "unat (fb_width w) - 12 < 2147483648" "unat (fb_height w) - 16 < 2147483648"
    using assms(1) unfolding screen_ok_def by simp_all linarith+
  have "unat (clamp x (fb_width w - 12)) \<le> unat (fb_width w) - 12" "unat (clamp x (fb_height w - 16)) \<le> unat (fb_height w) - 16" for x
    using clamp_bound [of "fb_width w - 12" x, unfolded d, OF small(1)] clamp_bound [of "fb_height w - 16" x, unfolded d, OF small(2)] .
  from this(1) [of "mouse_x m + scast (mouse_byte m ! 1)"] this(2) [of "mouse_y m - scast (mouse_byte m ! 2)"]
  show "unat (mouse_x (move_cursor m (fb_width w) (fb_height w))) + 12 \<le> unat (fb_width w)"
    "unat (mouse_y (move_cursor m (fb_width w) (fb_height w))) + 16 \<le> unat (fb_height w)"
    using assms(1) unfolding move_cursor_def screen_ok_def by (simp_all, linarith+)
qed

lemma handler_mouse_inv:
  assumes "screen_ok w" "mouse_inv m w" "mouse_handler m w status data = (m', w', sc)"
  shows "screen_ok w' \<and> mouse_inv m' w'"
proof -
  let ?m1 = "m\<lparr>mouse_byte := (mouse_byte m)[mouse_cycle m := data], mouse_cycle := mouse_cycle m + 1\<rparr>"
  have ps: "packet_size m \<le> 4" "0 < packet_size m" by (simp_all add: packet_size_def)
  have c: "mouse_cycle m < 4" using assms(2) ps by (simp add: mouse_inv_def)
  consider (same) "m' = m" "w' = w" | (collect) "m' = ?m1" "w' = w" "mouse_cycle m + 1 < packet_size m"
    | (packet) "mouse_packet (?m1\<lparr>mouse_cycle := 0\<rparr>) w = (m', w', sc)"
    using assms(3) c by (auto simp: mouse_handler_def Let_def packet_size_def split: if_splits)
  then show ?thesis
  proof cases
    case packet
    have i1: "mouse_inv (?m1\<lparr>mouse_cycle := 0\<rparr>) w" using assms(2) ps by (simp add: mouse_inv_def packet_size_def)
    show ?thesis using packet_screen [OF packet] i1 move_bound [OF assms(1) i1] assms(1) unfolding mouse_inv_def screen_ok_def by auto
  qed (use assms in \<open>auto simp: mouse_inv_def packet_size_def\<close>)
qed

definition mouse_run :: "mouse \<Rightarrow> kwm \<Rightarrow> (u8 \<times> u8) list \<Rightarrow> mouse \<times> kwm" where
  "mouse_run m w irqs = foldl (\<lambda>(m, w) (status, b). case mouse_handler m w status b of (m', w', sc) \<Rightarrow> (m', w')) (m, w) irqs"

text \<open>
  C21. Whatever the controller sends, the cursor with its 12 by 16 shape stays inside the screen,
  the packet under assembly never exceeds its length, and so never the four bytes of its array.
\<close>

theorem mouse_cursor_on_screen:
  assumes "screen_ok w" "mouse_inv m w" "mouse_run m w irqs = (m', w')"
  shows "unat (mouse_x m') + 12 \<le> unat (fb_width w') \<and> unat (mouse_y m') + 16 \<le> unat (fb_height w') \<and>
    mouse_cycle m' < packet_size m' \<and> length (mouse_byte m') = 4"
proof -
  have "screen_ok w' \<and> mouse_inv m' w'"
    using assms
  proof (induction irqs arbitrary: m w)
    case (Cons irq irqs)
    obtain status b where irq: "irq = (status, b)" by fastforce
    obtain m1 w1 sc where h: "mouse_handler m w status b = (m1, w1, sc)" by (metis prod_cases3)
    show ?case using Cons.IH [of w1 m1] handler_mouse_inv [OF Cons.prems(1,2) h] Cons.prems(3) h by (simp add: mouse_run_def irq)
  qed (simp add: mouse_run_def)
  then show ?thesis by (simp add: mouse_inv_def)
qed

theorem mouse_cursor_on_screen_witness:
  "\<exists>v m' w'. mouse_run (mouse_boot False) ((boot_kwm v)\<lparr>fb_width := 1024, fb_height := 768\<rparr>) [(0x21, 8), (0x21, 127), (0x21, 0)] = (m', w') \<and>
     unat (mouse_x m') + 12 \<le> unat (fb_width w')"
proof -
  let ?w = "(boot_kwm (empty_vmm pmm_boot))\<lparr>fb_width := 1024, fb_height := 768\<rparr>"
  obtain m' w' where r: "mouse_run (mouse_boot False) ?w [(0x21, 8), (0x21, 127), (0x21, 0)] = (m', w')" by fastforce
  have "screen_ok ?w" "mouse_inv (mouse_boot False) ?w" by (simp_all add: screen_ok_def mouse_inv_def mouse_boot_def packet_size_def)
  from mouse_cursor_on_screen [OF this r] r show ?thesis by blast
qed

text \<open>Three bytes, or four with a wheel, are one packet.\<close>

lemma handler_byte:
  assumes "mouse_cycle m < 4"
  shows "mouse_handler m w 0x21 b =
    (if packet_size m \<le> Suc (mouse_cycle m) then mouse_packet (m\<lparr>mouse_byte := (mouse_byte m)[mouse_cycle m := b], mouse_cycle := 0\<rparr>) w
     else (m\<lparr>mouse_byte := (mouse_byte m)[mouse_cycle m := b], mouse_cycle := Suc (mouse_cycle m)\<rparr>, w, None))"
  using assms by (simp add: mouse_handler_def packet_size_def Let_def)

lemma mouse_framing:
  assumes "mouse_cycle m = 0" "length (mouse_byte m) = 4"
  shows "\<not> mouse_has_wheel m \<Longrightarrow> mouse_run m w [(0x21, a), (0x21, b)] = (m\<lparr>mouse_byte := [a, b] @ drop 2 (mouse_byte m), mouse_cycle := 2\<rparr>, w)"
    "mouse_has_wheel m \<Longrightarrow> mouse_run m w [(0x21, a), (0x21, b), (0x21, c)] = (m\<lparr>mouse_byte := [a, b, c] @ drop 3 (mouse_byte m), mouse_cycle := 3\<rparr>, w)"
proof -
  obtain x0 x1 x2 x3 where b: "mouse_byte m = [x0, x1, x2, x3]"
    using assms(2) by (auto simp: length_Suc_conv eval_nat_numeral)
  show "\<not> mouse_has_wheel m \<Longrightarrow> mouse_run m w [(0x21, a), (0x21, b)] = (m\<lparr>mouse_byte := [a, b] @ drop 2 (mouse_byte m), mouse_cycle := 2\<rparr>, w)"
    using assms(1) b by (simp add: mouse_run_def handler_byte packet_size_def)
  show "mouse_has_wheel m \<Longrightarrow> mouse_run m w [(0x21, a), (0x21, b), (0x21, c)] = (m\<lparr>mouse_byte := [a, b, c] @ drop 3 (mouse_byte m), mouse_cycle := 3\<rparr>, w)"
    using assms(1) b by (simp add: mouse_run_def handler_byte packet_size_def)
qed

end
