(* ===== verification/Spec2Isabelle.thy ===== *)
theory Spec2Isabelle
  imports Monitor User_Alloc Elf_Correct Syscall_Correct Timer Mouse
begin

text \<open>
  Verification of the Kyuzen kernel (the Aetheroz operating system): the core of an SMP kernel
  for x86-64 written in C.

  \<^bold>\<open>The program.\<close> The boot code hands a memory map to the physical memory manager, whose frames
  carry the page tables of the virtual memory manager and, through them, the kernel heap. On
  top of the heap stand the objects the rest of the kernel allocates: task stacks, the nodes of
  the user heap, file buffers and window canvases. The scheduler runs tasks on several CPUs
  from per-CPU run queues; wait queues, mutexes, semaphores and condition variables block and
  wake tasks through it. System calls of ring-3 tasks enter through the validated copy
  routines and reach the file descriptors (backed by the file system KyuzenFS), the user heap,
  the event queues and the window manager. The timer interrupt drives the clock and the
  scheduler; the keyboard and mouse interrupts feed the event queues through the window manager.

  \<^bold>\<open>Theories and sources.\<close> Each group models the files named, operation by operation, with the
  names of the source.

  \<^item> \<^verbatim>\<open>Kernel_Prelude\<close>: the C integer types as words, shared lemmas and fact collections, and the
    locale \<open>machine\<close> (an invariant kept by every call is kept by every sequence of calls).
  \<^item> \<^verbatim>\<open>Pmm\<close>: \<^verbatim>\<open>kernel/pmm.c\<close>. The bitmap is a function from frame numbers to bits with the counters
    and the search hint of the code. The locale \<open>frame_pool\<close> is the contract its clients use.
    Shown: allocation returns a free aligned frame or fails exactly when none is left, release
    rejects every bad address, the boot scan frees exactly the usable frames above the reserved
    area, and the counters stay exact after any sequence of calls.
  \<^item> \<^verbatim>\<open>Ring_Buffer\<close>, \<^verbatim>\<open>Event_Queue\<close>: \<^verbatim>\<open>kernel/event.c\<close>. The locale \<open>ring\<close> holds the index arithmetic;
    the queues refine bounded first-in first-out lists.
  \<^item> \<^verbatim>\<open>Paging\<close>, \<^verbatim>\<open>Page_Walk\<close>, \<^verbatim>\<open>Page_Teardown\<close>: \<^verbatim>\<open>kernel/paging.c\<close>. Tables are 64-bit entries in a
    physical memory; \<open>walk\<close> is the translation a root denotes and \<open>tree_ok\<close> says that the tables
    form a tree of allocated frames. Shown: mapping and unmapping change exactly one
    translation, roll back on failure and leak no table; destroying an address space frees
    exactly its user half; a fresh one shares exactly the kernel half.
  \<^item> \<^verbatim>\<open>Kernel_String\<close>: \<^verbatim>\<open>kernel/string.c\<close> on a byte store, for overlapping regions too.
  \<^item> \<^verbatim>\<open>Kernel_Heap\<close>: \<^verbatim>\<open>kernel/heap.c\<close>. Block headers are records in a store \<open>hmem\<close> indexed by
    address and linked as in the code, so the list walk of the code is the walk of the model; payload
    bytes are the separate store \<open>hbytes\<close>. The locale \<open>allocator\<close> is the contract of
    \<open>kmalloc\<close> and \<open>kfree\<close>; shown are termination, absence of panics on a sound heap,
    disjointness of live regions, coalescing and the contents kept by \<open>krealloc\<close>.
  \<^item> \<^verbatim>\<open>Page_Ready\<close>, \<^verbatim>\<open>Heap_Memory\<close>: when mapping and \<open>kmalloc\<close> must succeed. Mapping a page succeeds while four
    frames are free and no huge page is in the way (\<open>no_huge\<close>), and what it takes is the page or a table.
    \<open>memory_for\<close> is memory for a number of pages of the heap; a null pointer shows that no free block fits and that
    this memory is missing (\<open>heap_exhausted\<close>), and the attempt is rolled back to the last frame. The theorems
    on descriptors, system calls and initialisation allow a failure only under these conditions.
  \<^item> \<^verbatim>\<open>User_Copy\<close>: \<^verbatim>\<open>kernel/usercopy.c\<close>. The range check accepts exactly the mapped user ranges, and
    the copies stay inside what was checked.
  \<^item> \<^verbatim>\<open>Scheduler\<close>, \<^verbatim>\<open>Sched_Invariant\<close>, \<^verbatim>\<open>Sched_Steps\<close>, \<^verbatim>\<open>Sched_Switch\<close>: \<^verbatim>\<open>kernel/sched/\<close>. The record
    \<open>sched\<close> is the task table, the run queues and the per-CPU fields. \<open>sched_step\<close> interleaves the
    critical sections of all CPUs; in every reachable state a ready task is in exactly one queue
    and a running one on exactly one CPU. A pass picks the best aged task, and the timer wakes
    exactly the due sleepers.
  \<^item> \<^verbatim>\<open>Sync\<close>, \<^verbatim>\<open>Monitor\<close>: \<^verbatim>\<open>kernel/wait.c\<close> and \<^verbatim>\<open>kernel/sync.c\<close>. The locale \<open>monitor\<close> covers mutex and
    semaphore at once: mutual exclusion and no lost wake-up over all interleavings with
    the scheduler.
  \<^item> \<^verbatim>\<open>Kyuzen_Fs\<close>, \<^verbatim>\<open>Kfs_Chain\<close>, \<^verbatim>\<open>Kfs_Invariant\<close>, \<^verbatim>\<open>Kfs_Update\<close>, \<^verbatim>\<open>Kfs_Correct\<close>, \<^verbatim>\<open>Kfs_Theorems\<close>:
    \<^verbatim>\<open>kernel/kyuzenfs.c\<close>. The disk is a function from sectors to bytes, the FAT a function from
    sectors to links. The invariant gives every file and directory a chain of its own; create,
    read, delete and remount are shown against it.
  \<^item> \<^verbatim>\<open>Display\<close>, \<^verbatim>\<open>Display_Correct\<close>: \<^verbatim>\<open>kernel/display.c\<close>. Clipping is exact, marked areas are never
    lost, rendering copies exactly the clipped window.
  \<^item> \<^verbatim>\<open>Kwm\<close>, \<^verbatim>\<open>Kwm_Invariant\<close>, \<^verbatim>\<open>Kwm_Steps\<close>, \<^verbatim>\<open>Kwm_Theorems\<close>: \<^verbatim>\<open>kernel/gfx/kwm.c\<close> and the hit tests of
    \<^verbatim>\<open>kernel/gfx/compositor.c\<close>. Every operation is safe, canvases are owned by one window, only the
    owner draws, the z-order is a stable sort, input reaches the topmost window.
  \<^item> \<^verbatim>\<open>Vfs_Fd\<close>, \<^verbatim>\<open>Vfs_Correct\<close>: \<^verbatim>\<open>kernel/vfs_fd.c\<close> over the heap and the file system.
  \<^item> \<^verbatim>\<open>User_Heap\<close>, \<^verbatim>\<open>User_Heap_Correct\<close>, \<^verbatim>\<open>User_Alloc\<close>: \<^verbatim>\<open>kernel/uheap.c\<close> over the heap and the page tables. The
    address space of the task stands beside the kernel's (\<open>beside_kernel\<close>); an allocation fails only for a bad request
    or without memory and then leaks no frame.
  \<^item> \<^verbatim>\<open>Task_Life\<close>, \<^verbatim>\<open>Task_Life_Correct\<close>, \<^verbatim>\<open>Vfs_Close\<close>, \<^verbatim>\<open>Task_Exit\<close>: \<^verbatim>\<open>kernel/sched/lifecycle.c\<close>. The record
    \<open>kernel\<close> puts the scheduler, the descriptors, the file system, the heap, the event queues and
    the user heaps together; \<open>kernel_inv\<close> says that each holds its own invariant and that every
    stack, buffer and node is owned once. Shown: initialisation establishes it, a created task
    starts in the frame its caller asked for, and an exiting task gives back exactly what it owns, its
    changed files written out.
  \<^item> \<^verbatim>\<open>Page_Apart\<close>, \<^verbatim>\<open>Page_Room\<close>: lemmas that join the page tables with their clients. The growth of the
    kernel heap changes no translation of a user half made of frames of its own, and mapping succeeds
    while frames are left.
  \<^item> \<^verbatim>\<open>Elf_Loader\<close>, \<^verbatim>\<open>Elf_Correct\<close>: \<^verbatim>\<open>kernel/elf.c\<close>. A sound ELF64 file is loaded exactly: its pages, its
    bytes, zeros behind them and a zeroed stack; other files are refused without effect.
  \<^item> \<^verbatim>\<open>Syscall\<close>, \<^verbatim>\<open>Syscall_Correct\<close>: branches of \<^verbatim>\<open>kernel/syscall.c\<close>. Reads and writes of ring 3 pass
    through a kernel buffer: a bad user range is refused before anything happens, otherwise
    exactly the user's bytes move and the buffer is given back.
  \<^item> \<^verbatim>\<open>Timer\<close>: \<^verbatim>\<open>drivers/timer.c\<close> over the scheduler. The clock does not drift, the usage estimate is a
    percentage, and the handler ends a quantum after 20 to 37 milliseconds.
  \<^item> \<^verbatim>\<open>Keyboard\<close>, \<^verbatim>\<open>Mouse\<close>: the interrupt handlers of \<^verbatim>\<open>drivers/keyboard.c\<close> and \<^verbatim>\<open>drivers/mouse.c\<close> over the
    window manager and the event queues. Modifiers are exactly what the strokes say, a stroke is
    delivered once, the terminal reads in order; a packet goes to the one window under the cursor
    and the cursor stays on the screen. Bytes read from the controller are arguments, and the bytes
    the timer writes to its ports are results.

  \<^bold>\<open>Conventions.\<close> Machine integers keep their width where they can wrap. Loops are
  recursive functions; a loop whose end the code does not guarantee (heap list, FAT chain) is a
  partial function, and \<open>None\<close> is a loop that never ends: the theorems show that it does not
  occur on sound states. No definition uses fuel. \<open>Panic\<close> of the type \<open>outcome\<close> is a call of
  \<open>kernel_panic\<close>. A section between taking and releasing a lock is one step; interleavings
  of such sections are explicit where the code relies on their order (scheduler, locks).

  \<^bold>\<open>Idealisations.\<close> Bytes at kernel virtual addresses and page tables in physical memory are two
  stores, so the heap cannot overwrite a table: heap pages and tables are different frames
  because both come from the frame allocator. The theorems on the heap assume room below the
  end of the heap window (\<open>heap_can_grow\<close>), the others inherit it. The clock is an
  argument. Flushes of the TLB are recorded by no state: a translation is read from the tables.

  User bytes are the virtual bytes under the caller's tables, in the same store as the kernel's. What
  a fresh frame holds when the loader maps it is a parameter. The user heap clears a fresh frame through the
  direct map of physical memory; the model clears the frame and the user page it was just mapped at.

  The scratch sectors that \<^verbatim>\<open>kernel/kyuzenfs.c\<close> takes with \<open>kmalloc(512)\<close> are local values: that the code does
  not check these pointers for null is not seen by the model. \<open>task_exit\<close> is one sequential step: a preemption
  between the release of the scheduler lock and the later frees is not modelled. The calls of the
  registered timer callbacks are recorded as results and not executed.

  \<^bold>\<open>Not modelled.\<close> The branches of the system call dispatcher that only call a driver, the screen, a
  socket or the window manager, and exec and exit with their jump into the shell loop. The other
  device drivers, the set-up of the mouse, networking, the graphics back ends, interrupt entry and
  processor tables are port, register and assembly code. Boot sequence and diagnostics only print and call. Applications, user libraries
  and vendored code (lwIP, the image decoder, the boot loader) are outside the kernel.
\<close>

end
